(* ===== verification/Uniks_Base.thy ===== *)
theory Uniks_Base
  imports Main "HOL-Library.Word" "HOL-Library.Monad_Syntax" "HOL-Library.Multiset"
begin

unbundle bit_operations_syntax

text \<open>
  Prelude of the development. It names the machine types of the kernel
  (include/uniks/types.h), its configuration constants (include/uniks/param.h,
  kernel/mm/mmu.h, kernel/mm/memlay.h), and the conventions all the component theories share:

  \<^item> an \<open>assert\<close>, \<open>panic\<close> or \<open>BUG()\<close> of the source ends in
    \<open>sbi_shutdown\<close> and never returns, so an operation that may hit one has type
    \<open>'a option\<close>, where \<open>None\<close> is the halted machine; \<open>cassert\<close> is the
    \<open>assert\<close> macro in the option monad;
  \<^item> an access outside an array, which C leaves undefined, is \<open>None\<close> as well
    (\<open>nth_opt\<close>, \<open>upd_opt\<close>), so that a theorem which says that an operation returns also
    says that it stays inside its arrays;
  \<^item> error returns of the source (-1, -EFAULT, NULL) are ordinary values.
\<close>

section \<open>Machine types and configuration\<close>

type_synonym byte = "8 word"
type_synonym u16 = "16 word"
type_synonym u32 = "32 word"
type_synonym u64 = "64 word"

abbreviation (input) PGSHIFT :: nat where "PGSHIFT \<equiv> 12"
abbreviation (input) PGSIZE :: nat where "PGSIZE \<equiv> 4096"
abbreviation (input) NPROC :: nat where "NPROC \<equiv> 64"
abbreviation (input) NFD :: nat where "NFD \<equiv> 64"
abbreviation (input) NFILE :: nat where "NFILE \<equiv> 256"
abbreviation (input) PATH_MAX :: nat where "PATH_MAX \<equiv> 1024"

section \<open>Assertions and array accesses\<close>

text \<open>\<open>hoare_simps\<close> collects the rewrite rules that take a step of an option-valued
  operation apart.\<close>

named_theorems hoare_simps \<open>inversion of steps in the option monad\<close>

definition cassert :: "bool \<Rightarrow> unit option" where
  "cassert b = (if b then Some () else None)"

lemma cassert_simps [simp]: "cassert True = Some ()" "cassert False = None"
  by (simp_all add: cassert_def)

lemma cassert_eq_Some [simp, hoare_simps]: "cassert b = Some u \<longleftrightarrow> b"
  by (simp add: cassert_def)

lemma cassert_bind_eq_Some [simp, hoare_simps]:
  "(cassert b \<bind> f = Some y) \<longleftrightarrow> b \<and> f () = Some y"
  by (simp add: cassert_def)

lemma cassert_bind_True [simp]: "b \<Longrightarrow> (cassert b \<bind> f) = f ()"
  by simp

lemma cassert_bind_False [simp]: "\<not> b \<Longrightarrow> (cassert b \<bind> f) = None"
  by simp

declare Option.bind_eq_Some_conv [hoare_simps]

definition nth_opt :: "'a list \<Rightarrow> nat \<Rightarrow> 'a option" where
  "nth_opt xs i = (if i < length xs then Some (xs ! i) else None)"

definition upd_opt :: "'a list \<Rightarrow> nat \<Rightarrow> 'a \<Rightarrow> 'a list option" where
  "upd_opt xs i v = (if i < length xs then Some (xs[i := v]) else None)"

lemma nth_opt_eq_Some [simp, hoare_simps]:
  "nth_opt xs i = Some v \<longleftrightarrow> i < length xs \<and> xs ! i = v"
  by (auto simp: nth_opt_def)

lemma upd_opt_eq_Some [simp, hoare_simps]:
  "upd_opt xs i v = Some ys \<longleftrightarrow> i < length xs \<and> ys = xs[i := v]"
  by (auto simp: upd_opt_def)

lemma nth_opt_in [simp]: "i < length xs \<Longrightarrow> nth_opt xs i = Some (xs ! i)"
  by (simp add: nth_opt_def)

lemma upd_opt_in [simp]: "i < length xs \<Longrightarrow> upd_opt xs i v = Some (xs[i := v])"
  by (simp add: upd_opt_def)

lemma nat_int_Suc [simp]: "nat (1 + int n) = Suc n" "nat (int n + 1) = Suc n"
  by simp_all

text \<open>\<open>for_each f xs s\<close> is a \<open>for\<close> loop whose body \<open>f\<close> may halt the machine.\<close>

primrec for_each :: "('a \<Rightarrow> 's \<Rightarrow> 's option) \<Rightarrow> 'a list \<Rightarrow> 's \<Rightarrow> 's option" where
  "for_each f [] s = Some s"
| "for_each f (x # xs) s = (case f x s of None \<Rightarrow> None | Some s' \<Rightarrow> for_each f xs s')"

lemma for_each_append:
  "for_each f (xs @ ys) s = (case for_each f xs s of None \<Rightarrow> None | Some s' \<Rightarrow> for_each f ys s')"
  by (induction xs arbitrary: s) (auto split: option.splits)

lemma for_each_inv:
  assumes "for_each f xs s = Some s'" "P s"
    "\<And>x s s'. x \<in> set xs \<Longrightarrow> P s \<Longrightarrow> f x s = Some s' \<Longrightarrow> P s'"
  shows "P s'"
  using assms
proof (induction xs arbitrary: s)
  case (Cons x xs)
  obtain t where t: "f x s = Some t" "for_each f xs t = Some s'"
    using Cons.prems(1) by (auto split: option.splits)
  have "P t" by (rule Cons.prems(3)[OF _ Cons.prems(2) t(1)]) simp
  then show ?case by (rule Cons.IH[OF t(2)]) (rule Cons.prems(3), simp_all)
qed simp

section \<open>Lists\<close>

lemma map_upt_shift: "map (\<lambda>i. f (Suc i)) [0..<n] = map f [1..<Suc n]"
  by (induction n) auto

lemma tl_map_upt: "tl (map f [0..<n]) = map (\<lambda>i. f (Suc i)) [0..<n - 1]"
  by (cases n) (simp_all add: upt_conv_Cons map_upt_shift del: upt_Suc)

lemma butlast_map_upt: "butlast (map f [0..<n]) = map f [0..<n - 1]"
  by (cases n) simp_all

lemma hd_map_upt: "0 < n \<Longrightarrow> hd (map f [0..<n]) = f 0"
  by (simp add: hd_map)

section \<open>Multisets\<close>

lemma singleton_msetI: "x \<in># M \<Longrightarrow> size M \<le> 1 \<Longrightarrow> M = {#x#}"
  by (auto dest!: multi_member_split)

end
