(* ===== verification/Ring_Queue.thy ===== *)
theory Ring_Queue
  imports Uniks_Base
begin

text \<open>
  The bounded ring queue of libs/queue.c (include/uniks/queue.h), used by the pid allocator,
  the file table, pipes, and the tty and uart input buffers. The union of an \<open>int32_t\<close> and a
  \<open>char\<close> array pointer becomes a type parameter: \<open>queue_push\<close> is both
  \<open>queue_push_int32type\<close> and \<open>queue_push_chartype\<close>, whose bodies are the same text.
  The abstract queue is a list (\<open>queue_abs\<close>), and the locale \<open>bounded_queue\<close> states
  what the clients rely on.
\<close>

section \<open>The queue as the code has it\<close>

record 'a queue_meta_t =
  queue_size :: int
  queue_capacity :: int
  queue_head :: int
  queue_tail :: int
  queue_array :: "'a list"

definition queue_init :: "int \<Rightarrow> 'a list \<Rightarrow> 'a queue_meta_t option" where
  "queue_init capacity heap_addr = do {
     cassert (capacity > 0);
     Some \<lparr>queue_size = 0, queue_capacity = capacity, queue_head = 0,
           queue_tail = -1, queue_array = heap_addr\<rparr>
   }"

definition queue_empty :: "'a queue_meta_t \<Rightarrow> bool" where
  "queue_empty q \<longleftrightarrow> queue_size q = 0"

definition queue_full :: "'a queue_meta_t \<Rightarrow> bool" where
  "queue_full q \<longleftrightarrow> queue_size q = queue_capacity q"

text \<open>A negative index is outside the array, as an index past its end is.\<close>

definition queue_front :: "'a queue_meta_t \<Rightarrow> 'a option" where
  "queue_front q = do {
     cassert (0 \<le> queue_head q);
     nth_opt (queue_array q) (nat (queue_head q))
   }"

definition queue_push :: "'a queue_meta_t \<Rightarrow> 'a \<Rightarrow> 'a queue_meta_t option" where
  "queue_push q push_data = do {
     cassert (queue_size q < queue_capacity q);
     let tail1 = queue_tail q + 1;
     let tail2 = (if tail1 \<ge> queue_capacity q then tail1 - queue_capacity q else tail1);
     cassert (0 \<le> tail2);
     arr \<leftarrow> upd_opt (queue_array q) (nat tail2) push_data;
     Some (q\<lparr>queue_tail := tail2, queue_array := arr, queue_size := queue_size q + 1\<rparr>)
   }"

definition queue_front_pop :: "'a queue_meta_t \<Rightarrow> 'a queue_meta_t option" where
  "queue_front_pop q = do {
     cassert (\<not> queue_empty q);
     let head1 = queue_head q + 1;
     let head2 = (if head1 \<ge> queue_capacity q then head1 - queue_capacity q else head1);
     Some (q\<lparr>queue_head := head2, queue_size := queue_size q - 1\<rparr>)
   }"

definition queue_back_pop :: "'a queue_meta_t \<Rightarrow> 'a queue_meta_t option" where
  "queue_back_pop q = do {
     cassert (\<not> queue_empty q);
     let tail1 = queue_tail q - 1;
     let tail2 = (if tail1 \<le> 0 then tail1 + queue_capacity q else tail1);
     Some (q\<lparr>queue_tail := tail2, queue_size := queue_size q - 1\<rparr>)
   }"

section \<open>Invariant and abstraction\<close>

text \<open>
  \<open>queue_back_pop\<close> wraps the tail when it is \<open>\<le> 0\<close>, not \<open>< 0\<close>, so the tail may rest at
  \<open>queue_capacity\<close>, one past the last slot. The invariant admits this: the tail is the
  last slot's number only up to the capacity, and the next push brings it back into range.
\<close>

definition queue_inv :: "'a queue_meta_t \<Rightarrow> bool" where
  "queue_inv q \<longleftrightarrow>
     0 < queue_capacity q \<and> queue_capacity q \<le> int (length (queue_array q)) \<and>
     0 \<le> queue_size q \<and> queue_size q \<le> queue_capacity q \<and>
     0 \<le> queue_head q \<and> queue_head q < queue_capacity q \<and>
     -1 \<le> queue_tail q \<and> queue_tail q \<le> queue_capacity q \<and>
     (queue_capacity q = 1 \<longrightarrow> queue_tail q \<le> 0) \<and>
     queue_tail q mod queue_capacity q = (queue_head q + queue_size q - 1) mod queue_capacity q"

definition queue_slot :: "'a queue_meta_t \<Rightarrow> nat \<Rightarrow> nat" where
  "queue_slot q i = nat ((queue_head q + int i) mod queue_capacity q)"

definition queue_abs :: "'a queue_meta_t \<Rightarrow> 'a list" where
  "queue_abs q = map (\<lambda>i. queue_array q ! queue_slot q i) [0..<nat (queue_size q)]"

lemma length_queue_abs [simp]: "length (queue_abs q) = nat (queue_size q)"
  by (simp add: queue_abs_def)

lemma queue_empty_iff: "queue_inv q \<Longrightarrow> queue_empty q \<longleftrightarrow> queue_abs q = []"
  by (auto simp: queue_abs_def queue_empty_def queue_inv_def)

lemma queue_full_iff:
  "queue_inv q \<Longrightarrow> queue_full q \<longleftrightarrow> int (length (queue_abs q)) = queue_capacity q"
  by (auto simp: queue_full_def queue_inv_def)

lemma wrap_once: "0 \<le> (x::int) \<Longrightarrow> x < 2 * c \<Longrightarrow> x mod c = (if c \<le> x then x - c else x)"
  by (smt (verit, best) minus_mod_self2 mod_pos_pos_trivial)

lemma nat_minus_one: "nat (s - 1) = nat s - Suc 0"
  by simp

lemma slot_inj:
  assumes "0 < (c::int)" "0 \<le> i" "i < c" "0 \<le> j" "j < c" "(h + i) mod c = (h + j) mod c"
  shows "i = j"
proof -
  have "(h + i - h) mod c = (h + j - h) mod c"
    using assms(6) by (metis mod_diff_left_eq)
  then show ?thesis using assms by simp
qed

lemma queue_init_ok:
  assumes "queue_init c arr = Some q" "c \<le> int (length arr)"
  shows "queue_inv q" "queue_abs q = []" "queue_capacity q = c" "queue_array q = arr"
  using assms by (auto simp: queue_init_def queue_inv_def queue_abs_def zmod_minus1)

lemma queue_init_returns: "0 < c \<Longrightarrow> \<exists>q. queue_init c arr = Some q"
  by (simp add: queue_init_def)

lemma queue_front_ok:
  assumes "queue_inv q" "queue_abs q \<noteq> []"
  shows "queue_front q = Some (hd (queue_abs q))"
proof -
  have "0 < nat (queue_size q)" using assms by (auto simp: queue_abs_def)
  then show ?thesis
    using assms(1)
    by (simp add: queue_front_def queue_abs_def hd_map_upt queue_slot_def queue_inv_def nat_less_iff)
qed

lemma queue_front_pop_ok:
  assumes inv: "queue_inv q" and ne: "queue_abs q \<noteq> []"
  obtains q' where "queue_front_pop q = Some q'" "queue_inv q'" "queue_abs q' = tl (queue_abs q)"
    "queue_capacity q' = queue_capacity q" "queue_array q' = queue_array q"
proof -
  let ?c = "queue_capacity q" and ?h = "queue_head q" and ?s = "queue_size q"
  define h' where "h' = (if ?h + 1 \<ge> ?c then ?h + 1 - ?c else ?h + 1)"
  define q' where "q' = q\<lparr>queue_head := h', queue_size := ?s - 1\<rparr>"
  have s: "0 < ?s" using ne by (auto simp: queue_abs_def)
  have pop: "queue_front_pop q = Some q'"
    using s by (simp add: queue_front_pop_def queue_empty_def q'_def h'_def Let_def)
  have h': "h' = (?h + 1) mod ?c" "0 \<le> h'" "h' < ?c"
    using inv wrap_once [of "?h + 1" ?c] by (auto simp: h'_def queue_inv_def)
  have "h' + (?s - 1) - 1 = h' + (?s - 2)" by simp
  then have "(h' + (?s - 1) - 1) mod ?c = (?h + ?s - 1) mod ?c"
    unfolding h'(1) by (simp only: mod_add_left_eq) (simp add: algebra_simps)
  then have inv': "queue_inv q'"
    using inv h' s by (simp add: queue_inv_def q'_def)
  have "queue_slot q' i = queue_slot q (Suc i)" for i
    unfolding queue_slot_def q'_def h'(1) by (simp add: mod_simps algebra_simps)
  then have abs': "queue_abs q' = tl (queue_abs q)"
    by (simp add: queue_abs_def tl_map_upt q'_def nat_minus_one)
  show ?thesis by (rule that [OF pop inv' abs']) (simp_all add: q'_def)
qed

lemma queue_push_ok:
  assumes inv: "queue_inv q" and room: "queue_size q < queue_capacity q"
  obtains q' where "queue_push q x = Some q'" "queue_inv q'" "queue_abs q' = queue_abs q @ [x]"
    "queue_capacity q' = queue_capacity q" "length (queue_array q') = length (queue_array q)"
proof -
  let ?c = "queue_capacity q" and ?h = "queue_head q" and ?s = "queue_size q"
    and ?t = "queue_tail q"
  define t' where "t' = (if ?t + 1 \<ge> ?c then ?t + 1 - ?c else ?t + 1)"
  define q' where "q' = q\<lparr>queue_tail := t', queue_array := (queue_array q)[nat t' := x],
    queue_size := ?s + 1\<rparr>"
  have t: "0 \<le> t'" "t' < ?c" "t' < int (length (queue_array q))"
    using inv by (auto simp: queue_inv_def t'_def)
  have t1: "-1 \<le> t'" "t' \<le> ?c" "?c = 1 \<longrightarrow> t' \<le> 0" using t by auto
  have tm: "t' mod ?c = (?h + ?s) mod ?c"
  proof -
    have "t' mod ?c = (?t + 1) mod ?c" by (simp add: t'_def)
    also have "\<dots> = (?t mod ?c + 1) mod ?c" by (simp add: mod_simps)
    also have "\<dots> = (?h + ?s) mod ?c" using inv by (simp add: queue_inv_def mod_simps)
    finally show ?thesis .
  qed
  have push: "queue_push q x = Some q'"
    using room t by (simp add: queue_push_def Let_def q'_def t'_def upd_opt_def nat_less_iff)
  have inv': "queue_inv q'"
    using inv room t1 tm unfolding queue_inv_def q'_def by (auto simp: algebra_simps)
  have t_slot: "nat t' = queue_slot q (nat ?s)"
    using tm t inv by (simp add: queue_slot_def queue_inv_def)
  have other: "queue_slot q i \<noteq> nat t'" if "i < nat ?s" for i
  proof
    assume "queue_slot q i = nat t'"
    then have "(?h + int i) mod ?c = (?h + ?s) mod ?c"
      using t tm inv pos_mod_sign [of ?c] by (simp add: queue_slot_def queue_inv_def eq_nat_nat_iff)
    then have "int i = ?s"
      using slot_inj [of ?c "int i" ?s ?h] that room inv by (simp add: queue_inv_def)
    with that show False by simp
  qed
  have "nat (?s + 1) = Suc (nat ?s)" using inv by (simp add: queue_inv_def nat_add_distrib)
  then have "queue_abs q' = map (\<lambda>i. (queue_array q)[nat t' := x] ! queue_slot q i) [0..<nat ?s] @ [x]"
    using t t_slot [symmetric]
    by (simp add: queue_abs_def q'_def queue_slot_def nat_less_iff)
  also have "\<dots> = queue_abs q @ [x]"
    using other by (fastforce simp: queue_abs_def intro: nth_list_update_neq)
  finally have abs': "queue_abs q' = queue_abs q @ [x]" .
  show ?thesis by (rule that [OF push inv' abs']) (simp_all add: q'_def)
qed

lemma queue_back_pop_ok:
  assumes inv: "queue_inv q" and ne: "queue_abs q \<noteq> []"
  obtains q' where "queue_back_pop q = Some q'" "queue_inv q'"
    "queue_abs q' = butlast (queue_abs q)"
    "queue_capacity q' = queue_capacity q" "queue_array q' = queue_array q"
proof -
  let ?c = "queue_capacity q" and ?h = "queue_head q" and ?s = "queue_size q"
    and ?t = "queue_tail q"
  define t' where "t' = (if ?t - 1 \<le> 0 then ?t - 1 + ?c else ?t - 1)"
  define q' where "q' = q\<lparr>queue_tail := t', queue_size := ?s - 1\<rparr>"
  have s: "0 < ?s" using ne by (auto simp: queue_abs_def)
  have pop: "queue_back_pop q = Some q'"
    using s by (simp add: queue_back_pop_def queue_empty_def q'_def t'_def Let_def)
  have t: "-1 \<le> t'" "t' \<le> ?c" "?c = 1 \<longrightarrow> t' \<le> 0"
    using inv by (auto simp: t'_def queue_inv_def)
  have "t' mod ?c = (?t - 1) mod ?c" by (simp add: t'_def)
  also have "\<dots> = (?t mod ?c - 1) mod ?c" by (simp add: mod_simps)
  also have "\<dots> = (?h + ?s - 1 - 1) mod ?c" using inv by (simp add: queue_inv_def mod_simps)
  finally have tm: "t' mod ?c = (?h + (?s - 1) - 1) mod ?c" by (simp add: algebra_simps)
  have inv': "queue_inv q'"
    using inv s t tm by (simp add: queue_inv_def q'_def)
  have abs': "queue_abs q' = butlast (queue_abs q)"
    by (simp add: queue_abs_def butlast_map_upt q'_def queue_slot_def nat_minus_one)
  show ?thesis by (rule that [OF pop inv' abs']) (simp_all add: q'_def)
qed

section \<open>What the clients of a queue rely on\<close>

locale bounded_queue =
  fixes push :: "'q \<Rightarrow> 'a \<Rightarrow> 'q option"
    and front :: "'q \<Rightarrow> 'a option"
    and pop :: "'q \<Rightarrow> 'q option"
    and is_empty :: "'q \<Rightarrow> bool"
    and is_full :: "'q \<Rightarrow> bool"
    and cap :: "'q \<Rightarrow> nat"
    and inv :: "'q \<Rightarrow> bool"
    and abs :: "'q \<Rightarrow> 'a list"
  assumes empty_iff: "inv q \<Longrightarrow> is_empty q \<longleftrightarrow> abs q = []"
    and full_iff: "inv q \<Longrightarrow> is_full q \<longleftrightarrow> length (abs q) = cap q"
    and abs_le_cap: "inv q \<Longrightarrow> length (abs q) \<le> cap q"
    and cap_pos: "inv q \<Longrightarrow> 0 < cap q"
    and front_hd: "inv q \<Longrightarrow> abs q \<noteq> [] \<Longrightarrow> front q = Some (hd (abs q))"
    and pop_tl: "inv q \<Longrightarrow> abs q \<noteq> [] \<Longrightarrow>
      \<exists>q'. pop q = Some q' \<and> inv q' \<and> abs q' = tl (abs q) \<and> cap q' = cap q"
    and push_snoc: "inv q \<Longrightarrow> length (abs q) < cap q \<Longrightarrow>
      \<exists>q'. push q x = Some q' \<and> inv q' \<and> abs q' = abs q @ [x] \<and> cap q' = cap q"
begin

lemma not_empty_not_full:
  assumes "inv q" "length (abs q) \<noteq> cap q"
  shows "length (abs q) < cap q"
  using abs_le_cap [OF assms(1)] assms(2) by simp

text \<open>A queue of distinct numbers is a pool: taking the front allocates a number that is
  no longer in it, and pushing a number that is not in it frees the number.\<close>

lemma pool_alloc:
  assumes "inv q" "distinct (abs q)" "abs q \<noteq> []"
  obtains x q' where "front q = Some x" "pop q = Some q'" "inv q'" "cap q' = cap q"
    "abs q = x # abs q'" "x \<notin> set (abs q')" "distinct (abs q')"
proof -
  obtain q' where q': "pop q = Some q'" "inv q'" "abs q' = tl (abs q)" "cap q' = cap q"
    using pop_tl assms by blast
  have x: "abs q = hd (abs q) # abs q'" using assms(3) q'(3) by simp
  have d: "distinct (hd (abs q) # abs q')" using assms(2) x by metis
  then have d': "hd (abs q) \<notin> set (abs q')" "distinct (abs q')" by simp_all
  show ?thesis
    by (rule that [OF front_hd [OF assms(1,3)] q'(1,2,4) x d'])
qed

lemma pool_free:
  assumes "inv q" "distinct (abs q)" "x \<notin> set (abs q)" "length (abs q) < cap q"
  obtains q' where "push q x = Some q'" "inv q'" "cap q' = cap q"
    "abs q' = abs q @ [x]" "distinct (abs q')"
  using push_snoc [OF assms(1,4), of x] assms(2,3) by auto

text \<open>An input buffer that discards its oldest entry when it is full.\<close>

lemma push_discard_oldest:
  assumes "inv q"
  obtains q1 q2 where
    "(if is_full q then pop q else Some q) = Some q1" "\<not> is_full q1" "push q1 x = Some q2"
    "inv q2" "cap q2 = cap q"
    "abs q2 = (if length (abs q) = cap q then tl (abs q) else abs q) @ [x]"
proof -
  obtain q1 where q1: "(if is_full q then pop q else Some q) = Some q1" "inv q1" "cap q1 = cap q"
    "abs q1 = (if length (abs q) = cap q then tl (abs q) else abs q)"
    using assms pop_tl [OF assms] cap_pos [OF assms] full_iff [OF assms]
    by (cases "is_full q"; cases "abs q = []") auto
  have room: "length (abs q1) < cap q1"
    using q1(3,4) not_empty_not_full [OF assms] cap_pos [OF assms] by auto
  then have "\<not> is_full q1" using full_iff [OF q1(2)] by simp
  then show ?thesis
    using push_snoc [OF q1(2) room, of x] q1 that by auto
qed

end

definition queue_cap :: "'a queue_meta_t \<Rightarrow> nat" where
  "queue_cap q = nat (queue_capacity q)"

interpretation rq: bounded_queue queue_push queue_front queue_front_pop queue_empty queue_full
  queue_cap queue_inv queue_abs
proof (unfold_locales, goal_cases)
  case (1 q) then show ?case by (rule queue_empty_iff)
next
  case (2 q) then show ?case by (auto simp: queue_full_def queue_cap_def queue_inv_def)
next
  case (3 q) then show ?case by (auto simp: queue_cap_def queue_inv_def)
next
  case (4 q) then show ?case by (auto simp: queue_cap_def queue_inv_def)
next
  case (5 q) then show ?case by (rule queue_front_ok)
next
  case (6 q) then show ?case by (metis queue_front_pop_ok queue_cap_def)
next
  case (7 q x)
  then have "queue_size q < queue_capacity q" by (auto simp: queue_cap_def queue_inv_def)
  with 7 show ?case by (metis queue_push_ok queue_cap_def)
qed

section \<open>The queue is a bounded FIFO\<close>

text \<open>C30. The ring buffer refines a bounded FIFO list: with room a push returns and appends,
  a front and a pop of a queue that is not empty return its oldest element and drop it, a back pop
  drops the newest, and a push into a full queue or a pop of an empty one is refused by its assertion.\<close>

theorem ring_queue_refines_fifo:
  assumes "queue_inv q"
  shows "(queue_push q x \<noteq> None \<longleftrightarrow> \<not> queue_full q) \<and> (queue_front_pop q \<noteq> None \<longleftrightarrow> queue_abs q \<noteq> []) \<and>
    (\<forall>q'. queue_push q x = Some q' \<longrightarrow> queue_inv q' \<and> queue_abs q' = queue_abs q @ [x]) \<and>
    (\<forall>q'. queue_front_pop q = Some q' \<longrightarrow>
       queue_inv q' \<and> queue_front q = Some (hd (queue_abs q)) \<and> queue_abs q' = tl (queue_abs q)) \<and>
    (\<forall>q'. queue_back_pop q = Some q' \<longrightarrow> queue_inv q' \<and> queue_abs q' = butlast (queue_abs q))"
proof -
  have room: "queue_size q < queue_capacity q \<longleftrightarrow> \<not> queue_full q"
    using assms by (auto simp: queue_inv_def queue_full_def)
  have push: "\<exists>q'. queue_push q x = Some q' \<and> queue_inv q' \<and> queue_abs q' = queue_abs q @ [x]" if "\<not> queue_full q"
    using queue_push_ok[OF assms, of x] that room by metis
  have full: "queue_push q x = None" if "queue_full q" using that room by (auto simp: queue_push_def)
  have empty: "queue_front_pop q = None" "queue_back_pop q = None" if "queue_abs q = []"
    using that queue_empty_iff[OF assms] by (simp_all add: queue_front_pop_def queue_back_pop_def)
  have pop: "\<exists>q'. queue_front_pop q = Some q' \<and> queue_inv q' \<and> queue_abs q' = tl (queue_abs q)"
    and backp: "\<exists>q'. queue_back_pop q = Some q' \<and> queue_inv q' \<and> queue_abs q' = butlast (queue_abs q)"
    if "queue_abs q \<noteq> []" using queue_front_pop_ok[OF assms that] queue_back_pop_ok[OF assms that] by metis+
  show ?thesis using push full empty pop backp queue_front_ok[OF assms] by (cases "queue_abs q = []"; cases "queue_full q") force+
qed

lemma ring_queue_refines_fifo_witness:
  "\<exists>q q'. queue_init 2 [0, 0 :: nat] = Some q \<and> queue_push q 7 = Some q' \<and> queue_abs q' = [7]"
proof -
  obtain q where q: "queue_init 2 [0, 0 :: nat] = Some q" using queue_init_returns[of 2] by auto
  have i: "queue_inv q" "queue_abs q = []" "queue_capacity q = 2" using queue_init_ok[OF q] by simp_all
  then have "\<not> queue_full q" using queue_full_iff[OF i(1)] by simp
  then show ?thesis using ring_queue_refines_fifo[OF i(1), of 7] q i(2) by auto
qed

end
