(* ===== verification/Sleep_Heap.thy ===== *)
theory Sleep_Heap
  imports Uniks_Base
begin

text \<open>
  The binary min-heap of libs/priority_queue.c (include/uniks/priority_queue.h), which orders
  sleeping processes by wake-up tick. Slots are numbered from 1, as in the code; the heap is
  the memory behind \<open>priority_queue_heap\<close>, a function from slot numbers to pairs. The pair
  type carries the code's comparison as its linear order.
\<close>

section \<open>Pairs and their order\<close>

text \<open>The key is an \<open>int64_t\<close>, compared with its sign. The value is a process id, below 64, which no operation computes with.\<close>

datatype pair_t = Pair (key: "64 word") (pvalue: int)

fun pair_less_than :: "pair_t \<Rightarrow> pair_t \<Rightarrow> bool" where
  "pair_less_than o1 o2 =
     (if key o1 <s key o2 then True
      else if key o1 = key o2 \<and> pvalue o1 < pvalue o2 then True
      else False)"

lemma sint_key_inject: "sint (a :: 64 word) = sint b \<longleftrightarrow> a = b"
  by (rule word_eq_iff_signed[of a b, symmetric])

lemma pair_less_sint: "pair_less_than a b \<longleftrightarrow> sint (key a) < sint (key b) \<or> sint (key a) = sint (key b) \<and> pvalue a < pvalue b"
  by (auto simp: word_sless_alt sint_key_inject)

lemma pair_eq_sint: "a = b \<longleftrightarrow> sint (key a) = sint (key b) \<and> pvalue a = pvalue b"
  by (cases a; cases b) (simp add: sint_key_inject)

instantiation pair_t :: linorder
begin

definition less_pair_t :: "pair_t \<Rightarrow> pair_t \<Rightarrow> bool" where
  "less_pair_t a b \<longleftrightarrow> pair_less_than a b"

definition less_eq_pair_t :: "pair_t \<Rightarrow> pair_t \<Rightarrow> bool" where
  "less_eq_pair_t a b \<longleftrightarrow> pair_less_than a b \<or> a = b"

instance
proof
  fix x y z :: pair_t
  note defs = less_pair_t_def less_eq_pair_t_def pair_less_sint pair_eq_sint
  show "x < y \<longleftrightarrow> x \<le> y \<and> \<not> y \<le> x" unfolding defs by linarith
  show "x \<le> x" unfolding defs by simp
  show "x \<le> y \<Longrightarrow> y \<le> z \<Longrightarrow> x \<le> z" unfolding defs by linarith
  show "x \<le> y \<Longrightarrow> y \<le> x \<Longrightarrow> x = y" unfolding defs by linarith
  show "x \<le> y \<or> y \<le> x" unfolding defs by linarith
qed

end

lemma pair_less_than_iff [simp]: "pair_less_than a b \<longleftrightarrow> a < b"
  by (simp add: less_pair_t_def)

declare pair_less_than.simps [simp del]

lemma pair_le_sint: "a \<le> b \<longleftrightarrow> sint (key a) < sint (key b) \<or> sint (key a) = sint (key b) \<and> pvalue a \<le> pvalue b"
  unfolding less_eq_pair_t_def pair_less_than_iff[symmetric] pair_less_sint pair_eq_sint by linarith

lemma pair_le_key: "a \<le> b \<Longrightarrow> sint (key a) \<le> sint (key b)"
  by (auto simp: pair_le_sint)

section \<open>The queue as the code has it\<close>

record priority_queue_meta_t =
  priority_queue_size :: int
  priority_queue_capacity :: int
  priority_queue_heap :: "nat \<Rightarrow> pair_t"

definition priority_queue_init ::
  "int \<Rightarrow> (nat \<Rightarrow> pair_t) \<Rightarrow> priority_queue_meta_t option" where
  "priority_queue_init capacity heap_addr = do {
     cassert (capacity > 0);
     Some \<lparr>priority_queue_size = 0, priority_queue_capacity = capacity,
           priority_queue_heap = heap_addr\<rparr>
   }"

definition priority_queue_empty :: "priority_queue_meta_t \<Rightarrow> bool" where
  "priority_queue_empty pq \<longleftrightarrow> priority_queue_size pq = 0"

definition priority_queue_full :: "priority_queue_meta_t \<Rightarrow> bool" where
  "priority_queue_full pq \<longleftrightarrow> priority_queue_size pq = priority_queue_capacity pq"

definition swap_slots :: "(nat \<Rightarrow> 'a) \<Rightarrow> nat \<Rightarrow> nat \<Rightarrow> nat \<Rightarrow> 'a" where
  "swap_slots h a b = h(a := h b, b := h a)"

function up :: "(nat \<Rightarrow> pair_t) \<Rightarrow> nat \<Rightarrow> nat \<Rightarrow> pair_t" where
  "up h root_no =
     (let half = root_no div 2 in
      if half \<noteq> 0 \<and> pair_less_than (h root_no) (h half)
      then up (swap_slots h root_no half) half
      else h)"
  by pat_completeness auto
termination
  by (relation "measure snd") auto

function down :: "(nat \<Rightarrow> pair_t) \<Rightarrow> int \<Rightarrow> nat \<Rightarrow> nat \<Rightarrow> pair_t" where
  "down h sz root_no =
     (let doub = root_no * 2 in
      if int doub \<le> sz
      then let doub' = (if int root_no < sz \<and> pair_less_than (h (doub + 1)) (h doub)
                        then doub + 1 else doub) in
           if pair_less_than (h doub') (h root_no)
           then down (swap_slots h doub' root_no) sz doub'
           else h
      else h)"
  by pat_completeness auto
termination
proof (relation "measure (\<lambda>(h, sz, r). if r = 0 then nat sz + 2 else nat sz + 1 - r)",
    goal_cases)
  case 1 then show ?case by simp
next
  case (2 h sz r d d')
  then show ?case by (cases "r = 0") (auto split: if_splits)
qed

declare up.simps [simp del] down.simps [simp del]

definition priority_queue_push ::
  "priority_queue_meta_t \<Rightarrow> pair_t \<Rightarrow> priority_queue_meta_t option" where
  "priority_queue_push pq push_data = do {
     cassert (priority_queue_size pq < priority_queue_capacity pq);
     let sz' = priority_queue_size pq + 1;
     cassert (0 \<le> sz');
     let h = (priority_queue_heap pq)(nat sz' := push_data);
     Some (pq\<lparr>priority_queue_size := sz', priority_queue_heap := up h (nat sz')\<rparr>)
   }"

definition priority_queue_top :: "priority_queue_meta_t \<Rightarrow> pair_t" where
  "priority_queue_top pq = priority_queue_heap pq 1"

definition priority_queue_pop ::
  "priority_queue_meta_t \<Rightarrow> priority_queue_meta_t option" where
  "priority_queue_pop pq = do {
     cassert (\<not> priority_queue_empty pq);
     let sz = priority_queue_size pq;
     cassert (0 \<le> sz);
     let h = (priority_queue_heap pq)(1 := priority_queue_heap pq (nat sz));
     Some (pq\<lparr>priority_queue_size := sz - 1, priority_queue_heap := down h (sz - 1) 1\<rparr>)
   }"

text \<open>
  The inner \<open>while\<close> of \<open>priority_queue_pop_k\<close> and \<open>priority_queue_pop_v\<close>: \<open>match\<close> is the
  test on the pair. The loop never looks at the size, so it may take it below zero; reading
  slot \<open>sz\<close> is then outside the array.
\<close>

function pop_while ::
  "(pair_t \<Rightarrow> bool) \<Rightarrow> nat \<Rightarrow> (nat \<Rightarrow> pair_t) \<Rightarrow> int \<Rightarrow> ((nat \<Rightarrow> pair_t) \<times> int) option" where
  "pop_while match i h sz =
     (if match (h i) then
        (if sz < 0 then None
         else pop_while match i (down (up (h(i := h (nat sz))) i) (sz - 1) i) (sz - 1))
      else Some (h, sz))"
  by pat_completeness auto
termination
  by (relation "measure (\<lambda>(m, i, h, sz). nat (sz + 1))") auto

declare pop_while.simps [simp del]

lemma pop_while_size: "pop_while m i h sz = Some (h', sz') \<Longrightarrow> sz' \<le> sz"
proof (induction m i h sz rule: pop_while.induct)
  case (1 m i h sz)
  from "1.prems" show ?case
    by (subst (asm) pop_while.simps) (auto split: if_splits dest: "1.IH")
qed

function pop_for ::
  "(pair_t \<Rightarrow> bool) \<Rightarrow> nat \<Rightarrow> (nat \<Rightarrow> pair_t) \<Rightarrow> int \<Rightarrow> ((nat \<Rightarrow> pair_t) \<times> int) option" where
  "pop_for match i h sz =
     (if int i < sz then
        (case pop_while match i h sz of
           None \<Rightarrow> None
         | Some (h', sz') \<Rightarrow> pop_for match (i + 1) h' sz')
      else Some (h, sz))"
  by pat_completeness auto
termination
  by (relation "measure (\<lambda>(m, i, h, sz). nat (sz - int i))") (auto dest: pop_while_size)

declare pop_for.simps [simp del]

definition priority_queue_pop_k ::
  "priority_queue_meta_t \<Rightarrow> 64 word \<Rightarrow> priority_queue_meta_t option" where
  "priority_queue_pop_k pq k = do {
     (h, sz) \<leftarrow> pop_for (\<lambda>p. key p = k) 1 (priority_queue_heap pq) (priority_queue_size pq);
     Some (pq\<lparr>priority_queue_heap := h, priority_queue_size := sz\<rparr>)
   }"

definition priority_queue_pop_v ::
  "priority_queue_meta_t \<Rightarrow> int \<Rightarrow> priority_queue_meta_t option" where
  "priority_queue_pop_v pq v = do {
     (h, sz) \<leftarrow> pop_for (\<lambda>p. pvalue p = v) 1 (priority_queue_heap pq) (priority_queue_size pq);
     Some (pq\<lparr>priority_queue_heap := h, priority_queue_size := sz\<rparr>)
   }"

section \<open>The heap order\<close>

definition heap_ordered :: "(nat \<Rightarrow> pair_t) \<Rightarrow> nat \<Rightarrow> bool" where
  "heap_ordered h n \<longleftrightarrow> (\<forall>i\<in>{2..n}. h (i div 2) \<le> h i)"

definition slots_mset :: "(nat \<Rightarrow> 'a) \<Rightarrow> nat \<Rightarrow> 'a multiset" where
  "slots_mset h n = image_mset h (mset_set {1..n})"

text \<open>The order may fail at slot \<open>r\<close> only: above it (\<open>up\<close>) or below it (\<open>down\<close>). In both
  cases the children of \<open>r\<close> are above its parent.\<close>

definition up_hole :: "(nat \<Rightarrow> pair_t) \<Rightarrow> nat \<Rightarrow> nat \<Rightarrow> bool" where
  "up_hole h n r \<longleftrightarrow>
     (\<forall>i\<in>{2..n}. i \<noteq> r \<longrightarrow> h (i div 2) \<le> h i) \<and>
     (2 \<le> r \<longrightarrow> (\<forall>c\<in>{2..n}. c div 2 = r \<longrightarrow> h (r div 2) \<le> h c))"

definition down_hole :: "(nat \<Rightarrow> pair_t) \<Rightarrow> nat \<Rightarrow> nat \<Rightarrow> bool" where
  "down_hole h n r \<longleftrightarrow>
     (\<forall>i\<in>{2..n}. i div 2 \<noteq> r \<longrightarrow> h (i div 2) \<le> h i) \<and>
     (2 \<le> r \<longrightarrow> (\<forall>c\<in>{2..n}. c div 2 = r \<longrightarrow> h (r div 2) \<le> h c))"

lemma heap_ordered_min:
  assumes "heap_ordered h n" "1 \<le> i" "i \<le> n"
  shows "h 1 \<le> h i"
  using assms(2,3)
proof (induction i rule: less_induct)
  case (less i)
  show ?case
  proof (cases "i = 1")
    case False
    with less.prems have "h 1 \<le> h (i div 2)" by (intro less.IH) auto
    also have "\<dots> \<le> h i"
      using assms(1) less.prems False by (auto simp: heap_ordered_def)
    finally show ?thesis .
  qed simp
qed

lemma slots_mset_swap:
  assumes "1 \<le> a" "a \<le> n" "1 \<le> b" "b \<le> n"
  shows "slots_mset (swap_slots h a b) n = slots_mset h n"
proof -
  let ?t = "\<lambda>i. if i = a then b else if i = b then a else i"
  have "swap_slots h a b = h \<circ> ?t" by (auto simp: swap_slots_def)
  moreover have "inj_on ?t {1..n}" by (auto simp: inj_on_def split: if_splits)
  moreover have "?t ` {1..n} = {1..n}"
  proof (rule endo_inj_surj)
    show "?t ` {1..n} \<subseteq> {1..n}" using assms by auto
  qed (use \<open>inj_on ?t {1..n}\<close> in auto)
  ultimately show ?thesis
    by (simp add: slots_mset_def image_mset_mset_set flip: multiset.map_comp)
qed

lemma slots_mset_Suc: "slots_mset h (Suc n) = add_mset (h (Suc n)) (slots_mset h n)"
  by (simp add: slots_mset_def atLeastAtMostSuc_conv)

lemma slots_mset_cong: "(\<And>i. 1 \<le> i \<Longrightarrow> i \<le> n \<Longrightarrow> h i = h' i) \<Longrightarrow> slots_mset h n = slots_mset h' n"
  by (auto simp: slots_mset_def intro!: image_mset_cong)

lemma set_slots_mset: "set_mset (slots_mset h n) = h ` {1..n}"
  by (simp add: slots_mset_def)

subsection \<open>\<open>up\<close> restores the order\<close>

lemma up_hole_step:
  assumes hole: "up_hole h n r" and r: "r \<le> n" "r div 2 \<noteq> 0" and less: "h r < h (r div 2)"
  shows "up_hole (swap_slots h r (r div 2)) n (r div 2)"
proof -
  let ?p = "r div 2" and ?h = "swap_slots h r (r div 2)"
  have ord: "h (i div 2) \<le> h i" if "i \<in> {2..n}" "i \<noteq> r" for i
    using hole that by (simp add: up_hole_def)
  have kids: "h ?p \<le> h c" if "c \<in> {2..n}" "c div 2 = r" for c
    using hole that r by (simp add: up_hole_def)
  have "?h (i div 2) \<le> ?h i" if "i \<in> {2..n}" "i \<noteq> ?p" for i
    using ord [of i] kids [of i] less that r by (auto simp: swap_slots_def)
  moreover have "?h (?p div 2) \<le> ?h c" if "2 \<le> ?p" "c \<in> {2..n}" "c div 2 = ?p" for c
    using ord [of c] ord [of ?p] order_trans [of "h (?p div 2)" "h ?p" "h c"] that r
    by (auto simp: swap_slots_def)
  ultimately show ?thesis by (simp add: up_hole_def)
qed

lemma up_hole_stop:
  assumes "up_hole h n r" "r div 2 = 0 \<or> h (r div 2) \<le> h r"
  shows "heap_ordered h n"
  using assms by (auto simp: up_hole_def heap_ordered_def)

lemma up_correct:
  assumes "up_hole h n r" "r \<le> n"
  shows "heap_ordered (up h r) n \<and> slots_mset (up h r) n = slots_mset h n \<and>
    (\<forall>i. n < i \<or> i = 0 \<longrightarrow> up h r i = h i)"
  using assms
proof (induction h r rule: up.induct)
  case (1 h r)
  show ?case
  proof (cases "r div 2 \<noteq> 0 \<and> h r < h (r div 2)")
    case True
    let ?h = "swap_slots h r (r div 2)"
    have "up_hole ?h n (r div 2)" using True "1.prems" by (intro up_hole_step) auto
    moreover have "r div 2 \<le> n" using "1.prems" by simp
    ultimately have "heap_ordered (up ?h (r div 2)) n \<and>
      slots_mset (up ?h (r div 2)) n = slots_mset ?h n \<and>
      (\<forall>i. n < i \<or> i = 0 \<longrightarrow> up ?h (r div 2) i = ?h i)"
      using "1.IH" True by simp
    moreover have "slots_mset ?h n = slots_mset h n"
      using True "1.prems" by (intro slots_mset_swap) auto
    moreover have "?h i = h i" if "n < i \<or> i = 0" for i
      using that True "1.prems" by (auto simp: swap_slots_def)
    ultimately show ?thesis using True by (simp add: up.simps [of h r] Let_def)
  next
    case False
    then show ?thesis using up_hole_stop [of h n r] "1.prems"
      by (auto simp: up.simps [of h r] not_less Let_def)
  qed
qed

subsection \<open>\<open>down\<close> restores the order\<close>

text \<open>
  The test of \<open>down\<close> before it looks at slot \<open>doub + 1\<close> is \<open>root_no < size\<close>, not
  \<open>doub < size\<close>: with \<open>doub = size\<close> the loop reads the slot one past the heap, which a pop has
  just vacated. The vacated slot holds the element that now sinks, so it is never smaller
  than the sinking one, and the read changes nothing.
\<close>

lemma down_hole_step:
  assumes hole: "down_hole h n r" and r: "1 \<le> r" and c: "c \<le> n" "c div 2 = r"
    and min: "\<And>d. d \<in> {2..n} \<Longrightarrow> d div 2 = r \<Longrightarrow> h c \<le> h d" and less: "h c < h r"
  shows "down_hole (swap_slots h c r) n c"
proof -
  let ?h = "swap_slots h c r"
  have ord: "h (i div 2) \<le> h i" if "i \<in> {2..n}" "i div 2 \<noteq> r" for i
    using hole that by (simp add: down_hole_def)
  have kids: "h (r div 2) \<le> h d" if "d \<in> {2..n}" "d div 2 = r" "2 \<le> r" for d
    using hole that by (simp add: down_hole_def)
  have cr: "c \<noteq> r" "2 \<le> c" using c r by auto
  have "?h (i div 2) \<le> ?h i" if "i \<in> {2..n}" "i div 2 \<noteq> c" for i
    using ord [of i] kids [of c] min [of i] less that c cr by (auto simp: swap_slots_def)
  moreover have "?h (c div 2) \<le> ?h d" if "2 \<le> c" "d \<in> {2..n}" "d div 2 = c" for d
    using ord [of d] that c cr by (auto simp: swap_slots_def)
  ultimately show ?thesis by (simp add: down_hole_def)
qed

lemma down_hole_stop:
  assumes "down_hole h n r" "\<And>d. d \<in> {2..n} \<Longrightarrow> d div 2 = r \<Longrightarrow> h r \<le> h d"
  shows "heap_ordered h n"
  using assms by (auto simp: down_hole_def heap_ordered_def)

lemma down_correct:
  assumes "down_hole h n r" "1 \<le> r" "h r \<le> h (Suc n)" 
  shows "heap_ordered (down h (int n) r) n \<and> slots_mset (down h (int n) r) n = slots_mset h n \<and>
    (\<forall>i. n < i \<or> i = 0 \<longrightarrow> down h (int n) r i = h i)"
  using assms
proof (induction h "int n" r rule: down.induct)
  case (1 h r)
  let ?d = "r * 2"
  define c where "c = (if r < n \<and> h (Suc ?d) < h ?d then Suc ?d else ?d)"
  have c_eq: "c = (if int r < int n \<and> pair_less_than (h (?d + 1)) (h ?d) then ?d + 1 else ?d)"
    by (simp add: c_def)
  have kid: "d = ?d \<or> d = Suc ?d" if "d div 2 = r" for d using that by linarith
  show ?case
  proof (cases "?d \<le> n \<and> h c < h r")
    case True
    let ?h = "swap_slots h c r"
    have "c \<noteq> Suc n" using True "1.prems" by auto
    then have c: "c \<le> n" "c div 2 = r" using True by (auto simp: c_def split: if_splits)
    have min: "h c \<le> h d" if "d \<in> {2..n}" "d div 2 = r" for d
      using kid [OF that(2)] that "1.prems"(2) by (auto simp: c_def)
    have "down_hole ?h n c"
      using "1.prems" c min True by (intro down_hole_step) auto
    moreover have "1 \<le> c" "?h c \<le> ?h (Suc n)"
      using c True "1.prems" by (auto simp: swap_slots_def)
    ultimately have IH: "heap_ordered (down ?h (int n) c) n \<and>
      slots_mset (down ?h (int n) c) n = slots_mset ?h n \<and>
      (\<forall>i. n < i \<or> i = 0 \<longrightarrow> down ?h (int n) c i = ?h i)"
      by (intro "1.hyps" [OF refl _ c_eq]) (use True in simp_all)
    have "slots_mset ?h n = slots_mset h n"
      using c "1.prems" by (intro slots_mset_swap) auto
    moreover have "?h i = h i" if "n < i \<or> i = 0" for i
      using that c "1.prems" by (auto simp: swap_slots_def)
    moreover have "down h (int n) r = down ?h (int n) c"
      using True
      by (cases "r < n \<and> h (Suc ?d) < h ?d") (auto simp: down.simps [of h "int n" r] c_def Let_def)
    ultimately show ?thesis using IH by simp
  next
    case False
    then have stop: "down h (int n) r = h"
      by (auto simp: down.simps [of h "int n" r] c_def Let_def)
    have "h r \<le> h d" if "d \<in> {2..n}" "d div 2 = r" for d
    proof -
      have "?d \<le> n" using that by auto
      then have "h r \<le> h c" using False by auto
      also have "h c \<le> h d" using kid [OF that(2)] that "1.prems"(2) by (auto simp: c_def)
      finally show ?thesis .
    qed
    then show ?thesis using stop down_hole_stop "1.prems"(1) by auto
  qed
qed

subsection \<open>Removing one slot\<close>

lemma slots_mset_upd:
  assumes "1 \<le> i" "i \<le> n"
  shows "slots_mset (h(i := x)) n = add_mset x (slots_mset h n - {#h i#})"
proof -
  have "{1..n} = insert i ({1..n} - {i})" using assms by auto
  then have split: "slots_mset g n = add_mset (g i) (image_mset g (mset_set ({1..n} - {i})))" for g
    unfolding slots_mset_def by (metis finite_Diff finite_atLeastAtMost image_mset_add_mset
        insert_Diff_single insert_iff mset_set.insert_remove)
  have "image_mset (h(i := x)) (mset_set ({1..n} - {i})) = image_mset h (mset_set ({1..n} - {i}))"
    by (intro image_mset_cong) auto
  then show ?thesis using split [of "h(i := x)"] split [of h] by simp
qed

lemma slots_mset_replace_last:
  assumes "1 \<le> i" "i \<le> n"
  shows "slots_mset (h(i := h (Suc n))) n = slots_mset h (Suc n) - {#h i#}"
proof -
  have "h i \<in># slots_mset h n" using assms by (auto simp: set_slots_mset)
  then show ?thesis using assms by (simp add: slots_mset_upd slots_mset_Suc)
qed

lemma down_ordered_stop:
  assumes ord: "heap_ordered h m" and i: "1 \<le> i" "Suc m div 2 \<noteq> i"
  shows "down h (int m) i = h"
proof (cases "i * 2 \<le> m")
  case True
  moreover have "Suc (i * 2) \<le> m" using True i(2) by (cases "m = i * 2") auto
  ultimately have "h (i * 2 div 2) \<le> h (i * 2)" "h (Suc (i * 2) div 2) \<le> h (Suc (i * 2))"
    using ord i(1) bspec [OF ord [unfolded heap_ordered_def], of "i * 2"]
      bspec [OF ord [unfolded heap_ordered_def], of "Suc (i * 2)"] by auto
  then have "\<not> h (i * 2) < h i" "\<not> h (Suc (i * 2)) < h i" by auto
  then show ?thesis by (simp add: down.simps [of h] Let_def)
next
  case False
  then show ?thesis by (simp add: down.simps [of h] Let_def)
qed

lemma remove_slot:
  assumes ord: "heap_ordered h (Suc m)" and i: "1 \<le> i" "i \<le> m"
  defines "h' \<equiv> down (up (h(i := h (Suc m))) i) (int m) i"
  shows "heap_ordered h' m \<and> slots_mset h' m = slots_mset h (Suc m) - {#h i#}"
proof -
  let ?x = "h (Suc m)" and ?h1 = "h(i := h (Suc m))"
  have le: "h (j div 2) \<le> h j" if "2 \<le> j" "j \<le> Suc m" for j
    using ord that by (simp add: heap_ordered_def)
  show ?thesis
  proof (cases "i div 2 \<noteq> 0 \<and> ?x < h (i div 2)")
    case False
    then have "up ?h1 i = ?h1" using i by (auto simp: up.simps [of ?h1 i] Let_def)
    moreover have "down_hole ?h1 m i"
      unfolding down_hole_def
    proof (intro conjI ballI impI)
      fix j assume "j \<in> {2..m}" "j div 2 \<noteq> i"
      then show "?h1 (j div 2) \<le> ?h1 j" using le [of j] False by (auto simp: not_less)
    next
      fix c assume "2 \<le> i" "c \<in> {2..m}" "c div 2 = i"
      then show "?h1 (i div 2) \<le> ?h1 c"
        using le [of c] le [of i] i order_trans [of "h (i div 2)" "h i" "h c"] by auto
    qed
    ultimately show ?thesis
      using down_correct [of ?h1 m i] i slots_mset_replace_last [OF i, of h]
      by (simp add: h'_def)
  next
    case True
    have up: "?x < h i" using True le [of i] i by (cases "i = 1") auto
    have "up_hole ?h1 m i"
      unfolding up_hole_def
    proof (intro conjI ballI impI)
      fix j assume "j \<in> {2..m}" "j \<noteq> i"
      then show "?h1 (j div 2) \<le> ?h1 j" using le [of j] up by auto
    next
      fix c assume "2 \<le> i" "c \<in> {2..m}" "c div 2 = i"
      then show "?h1 (i div 2) \<le> ?h1 c" using le [of c] le [of i] i order_trans [of "h (i div 2)" "h i" "h c"] by auto
    qed
    then have u: "heap_ordered (up ?h1 i) m" "slots_mset (up ?h1 i) m = slots_mset ?h1 m"
      "up ?h1 i (Suc m) = ?x"
      using up_correct [of ?h1 m i] i by auto
    have "Suc m div 2 \<noteq> i" using le [of "Suc m"] up i by auto
    then have "down (up ?h1 i) (int m) i = up ?h1 i"
      using u(1) i by (intro down_ordered_stop)
    then show ?thesis
      using u slots_mset_replace_last [OF i, of h] by (simp add: h'_def)
  qed
qed

section \<open>Priority queue contract\<close>

definition pq_inv :: "priority_queue_meta_t \<Rightarrow> bool" where
  "pq_inv pq \<longleftrightarrow> 0 \<le> priority_queue_size pq \<and>
     priority_queue_size pq \<le> priority_queue_capacity pq \<and> 0 < priority_queue_capacity pq \<and>
     heap_ordered (priority_queue_heap pq) (nat (priority_queue_size pq))"

definition pq_mset :: "priority_queue_meta_t \<Rightarrow> pair_t multiset" where
  "pq_mset pq = slots_mset (priority_queue_heap pq) (nat (priority_queue_size pq))"

lemma size_pq_mset: "pq_inv pq \<Longrightarrow> int (size (pq_mset pq)) = priority_queue_size pq"
  by (simp add: pq_mset_def slots_mset_def pq_inv_def)

lemma pq_init_ok:
  "priority_queue_init c h = Some pq \<Longrightarrow> pq_inv pq \<and> pq_mset pq = {#} \<and> priority_queue_capacity pq = c"
  by (auto simp: priority_queue_init_def pq_inv_def pq_mset_def heap_ordered_def slots_mset_def)

lemma pq_empty_iff: "pq_inv pq \<Longrightarrow> priority_queue_empty pq \<longleftrightarrow> pq_mset pq = {#}"
  using size_pq_mset [of pq] by (auto simp: priority_queue_empty_def)

lemma pq_push_ok:
  assumes inv: "pq_inv pq" and room: "priority_queue_size pq < priority_queue_capacity pq"
  obtains pq' where "priority_queue_push pq x = Some pq'" "pq_inv pq'"
    "pq_mset pq' = add_mset x (pq_mset pq)"
    "priority_queue_capacity pq' = priority_queue_capacity pq"
proof -
  define n where "n = nat (priority_queue_size pq)"
  define h where "h = (priority_queue_heap pq)(Suc n := x)"
  have n: "priority_queue_size pq = int n" using inv by (simp add: n_def pq_inv_def)
  have sz: "nat (priority_queue_size pq + 1) = Suc n" by (simp add: n)
  have ord: "heap_ordered (priority_queue_heap pq) n" using inv by (simp add: pq_inv_def n_def)
  have "up_hole h (Suc n) (Suc n)"
    using ord by (auto simp: up_hole_def heap_ordered_def h_def)
  then have u: "heap_ordered (up h (Suc n)) (Suc n)"
    "slots_mset (up h (Suc n)) (Suc n) = slots_mset h (Suc n)"
    using up_correct [of h "Suc n" "Suc n"] by auto
  have "slots_mset h n = slots_mset (priority_queue_heap pq) n"
    by (rule slots_mset_cong) (simp add: h_def)
  then have m: "slots_mset h (Suc n) = add_mset x (pq_mset pq)"
    by (simp add: slots_mset_Suc pq_mset_def n_def h_def)
  show ?thesis
    by (rule that [of "pq\<lparr>priority_queue_size := int (Suc n),
          priority_queue_heap := up h (Suc n)\<rparr>"])
      (use inv room u m in \<open>simp_all add: priority_queue_push_def Let_def n sz h_def pq_inv_def pq_mset_def\<close>)
qed

lemma pq_top_min:
  assumes "pq_inv pq" "pq_mset pq \<noteq> {#}"
  shows "priority_queue_top pq \<in># pq_mset pq" "\<And>p. p \<in># pq_mset pq \<Longrightarrow> priority_queue_top pq \<le> p"
proof -
  have "1 \<le> nat (priority_queue_size pq)"
    using size_pq_mset [OF assms(1)] assms(2) by (cases "pq_mset pq") auto
  then show "priority_queue_top pq \<in># pq_mset pq"
    by (auto simp: pq_mset_def set_slots_mset priority_queue_top_def)
  show "priority_queue_top pq \<le> p" if "p \<in># pq_mset pq" for p
    using that assms(1) heap_ordered_min
    by (auto simp: pq_mset_def set_slots_mset priority_queue_top_def pq_inv_def)
qed

lemma pq_pop_ok:
  assumes inv: "pq_inv pq" and ne: "pq_mset pq \<noteq> {#}"
  obtains pq' where "priority_queue_pop pq = Some pq'" "pq_inv pq'"
    "pq_mset pq' = pq_mset pq - {#priority_queue_top pq#}"
    "priority_queue_capacity pq' = priority_queue_capacity pq"
proof -
  obtain n where "size (pq_mset pq) = Suc n" using ne by (cases "size (pq_mset pq)") auto
  then have n: "priority_queue_size pq = int (Suc n)" using size_pq_mset [OF inv] by simp
  let ?g = "priority_queue_heap pq"
  let ?h = "down (?g(1 := ?g (Suc n))) (int n) 1"
  have ord: "heap_ordered ?g (Suc n)" using inv by (simp add: pq_inv_def n)
  have "heap_ordered ?h n \<and> slots_mset ?h n = slots_mset ?g (Suc n) - {#?g 1#}"
  proof (cases "n = 0")
    case True
    then show ?thesis by (simp add: heap_ordered_def slots_mset_def)
  next
    case False
    have "up (?g(1 := ?g (Suc n))) 1 = ?g(1 := ?g (Suc n))" by (simp add: up.simps Let_def)
    then show ?thesis using remove_slot [OF ord, of 1] False by simp
  qed
  then show ?thesis
    using inv n
    by (intro that [of "pq\<lparr>priority_queue_size := int n, priority_queue_heap := ?h\<rparr>"])
      (simp_all add: priority_queue_pop_def priority_queue_empty_def pq_inv_def pq_mset_def
        priority_queue_top_def)
qed

locale priority_queue =
  fixes push :: "'q \<Rightarrow> 'a::linorder \<Rightarrow> 'q option"
    and top_of :: "'q \<Rightarrow> 'a"
    and pop :: "'q \<Rightarrow> 'q option"
    and is_empty :: "'q \<Rightarrow> bool"
    and cap :: "'q \<Rightarrow> int"
    and inv :: "'q \<Rightarrow> bool"
    and elems :: "'q \<Rightarrow> 'a multiset"
  assumes empty_iff: "inv q \<Longrightarrow> is_empty q \<longleftrightarrow> elems q = {#}"
    and push_add: "inv q \<Longrightarrow> int (size (elems q)) < cap q \<Longrightarrow>
      \<exists>q'. push q x = Some q' \<and> inv q' \<and> elems q' = add_mset x (elems q) \<and> cap q' = cap q"
    and top_in: "inv q \<Longrightarrow> elems q \<noteq> {#} \<Longrightarrow> top_of q \<in># elems q"
    and top_le: "inv q \<Longrightarrow> x \<in># elems q \<Longrightarrow> top_of q \<le> x"
    and pop_del: "inv q \<Longrightarrow> elems q \<noteq> {#} \<Longrightarrow>
      \<exists>q'. pop q = Some q' \<and> inv q' \<and> elems q' = elems q - {#top_of q#} \<and> cap q' = cap q"
begin

lemma top_is_Min: "inv q \<Longrightarrow> elems q \<noteq> {#} \<Longrightarrow> top_of q = Min (set_mset (elems q))"
  by (intro Min_eqI [symmetric]) (auto intro: top_le top_in)

text \<open>A loop that pops while the top is below a monotone bound keeps exactly the elements
  above it: once the top is above, all elements are.\<close>

lemma stop_at_bound:
  fixes f :: "'a \<Rightarrow> 'b::linorder"
  assumes "inv q" "mono f" "b < f (top_of q)"
  shows "filter_mset (\<lambda>x. f x \<le> b) (elems q) = {#}"
  using top_le [OF assms(1)] monoD [OF assms(2)] assms(3)
  by (force simp: filter_mset_eq_conv intro!: filter_mset_False)

lemma pop_splits:
  assumes "inv q" "elems q \<noteq> {#}" "pop q = Some q'"
  shows "inv q'" "elems q = add_mset (top_of q) (elems q')" "cap q' = cap q"
  using pop_del [OF assms(1,2)] assms(3) top_in [OF assms(1,2)] by auto

end

interpretation pq: priority_queue priority_queue_push priority_queue_top priority_queue_pop
  priority_queue_empty priority_queue_capacity pq_inv pq_mset
proof (unfold_locales, goal_cases)
  case (1 q) then show ?case by (rule pq_empty_iff)
next
  case (2 q x) then show ?case using size_pq_mset by (metis pq_push_ok)
next
  case (3 q) then show ?case by (rule pq_top_min)
next
  case (4 q x) then show ?case by (intro pq_top_min(2)) auto
next
  case (5 q) then show ?case by (metis pq_pop_ok)
qed

section \<open>Removing a process: \<open>priority_queue_pop_v\<close>\<close>

lemma pop_while_nomatch: "\<not> match (h i) \<Longrightarrow> pop_while match i h sz = Some (h, sz)"
  by (simp add: pop_while.simps)

lemma pop_for_nomatch:
  "(\<And>j. i \<le> j \<Longrightarrow> int j < sz \<Longrightarrow> \<not> match (h j)) \<Longrightarrow> pop_for match i h sz = Some (h, sz)"
proof (induction match i h sz rule: pop_for.induct)
  case (1 match i h sz)
  show ?case
  proof (cases "int i < sz")
    case True
    then have "pop_while match i h sz = Some (h, sz)"
      using "1.prems" by (intro pop_while_nomatch) simp
    moreover from this have "pop_for match (i + 1) h sz = Some (h, sz)"
      using "1.IH" [OF True] "1.prems" by auto
    ultimately show ?thesis using True by (simp add: pop_for.simps [of match i])
  qed (simp add: pop_for.simps)
qed

lemma pop_for_skip:
  assumes "i \<le> k" "int k \<le> sz" "\<And>j. i \<le> j \<Longrightarrow> j < k \<Longrightarrow> \<not> match (h j)"
  shows "pop_for match i h sz = pop_for match k h sz"
  using assms
proof (induction "k - i" arbitrary: i)
  case (Suc d)
  have lt: "i < k" "int i < sz" using Suc.hyps(2) Suc.prems by auto
  have "\<not> match (h i)" using Suc.prems(3) lt by simp
  then have "pop_while match i h sz = Some (h, sz)" by (rule pop_while_nomatch)
  moreover have "d = k - Suc i" using Suc.hyps(2) by simp
  then have "pop_for match (Suc i) h sz = pop_for match k h sz"
    using lt Suc.prems(2,3) by (intro Suc.hyps(1)) auto
  ultimately show ?case using lt(2) by (simp add: pop_for.simps [of match i h sz])
qed simp

lemma unique_slot:
  assumes "size (filter_mset P (slots_mset h n)) \<le> 1"
    and "i \<in> {1..n}" "j \<in> {1..n}" "P (h i)" "P (h j)"
  shows "i = j"
proof -
  have "filter_mset P (slots_mset h n) = image_mset h (mset_set {i\<in>{1..n}. P (h i)})"
    by (simp add: slots_mset_def filter_mset_image_mset filter_mset_mset_set comp_def)
  then have "card {i\<in>{1..n}. P (h i)} \<le> 1" using assms(1) by simp
  then show ?thesis using assms(2-) by (auto simp: card_le_Suc0_iff_eq)
qed

lemma pop_for_unique:
  assumes ord: "heap_ordered h (Suc m)" and j: "1 \<le> j" "j \<le> m" "match (h j)"
    and one: "size (filter_mset match (slots_mset h (Suc m))) \<le> 1"
  obtains h' where "pop_for match 1 h (int (Suc m)) = Some (h', int m)" "heap_ordered h' m"
    "slots_mset h' m = filter_mset (\<lambda>p. \<not> match p) (slots_mset h (Suc m))"
proof -
  let ?M = "slots_mset h (Suc m)"
  define h' where "h' = down (up (h(j := h (Suc m))) j) (int m) j"
  have h': "heap_ordered h' m" "slots_mset h' m = ?M - {#h j#}"
    using remove_slot [OF ord j(1,2)] by (simp_all add: h'_def)
  have inM: "h j \<in># ?M" using j by (auto simp: set_slots_mset)
  have "h j \<in># filter_mset match ?M" using inM j(3) by simp
  then have "filter_mset match ?M = {#h j#}" using one by (rule singleton_msetI)
  then have M: "?M = add_mset (h j) (filter_mset (\<lambda>p. \<not> match p) ?M)"
    using multiset_partition [of ?M match] by simp
  have "slots_mset h' m = add_mset (h j) (filter_mset (\<lambda>p. \<not> match p) ?M) - {#h j#}"
    unfolding h'(2) by (rule arg_cong [OF M])
  then have rest: "slots_mset h' m = filter_mset (\<lambda>p. \<not> match p) ?M" by simp
  have no: "\<not> match (h' i)" if "1 \<le> i" "i \<le> m" for i
  proof -
    have "h' i \<in># slots_mset h' m" using that by (auto simp: set_slots_mset)
    then show ?thesis unfolding rest by simp
  qed
  have "pop_while match j h (int (Suc m)) = pop_while match j h' (int m)"
    using j(3) by (simp add: pop_while.simps [of match j h] h'_def)
  then have "pop_while match j h (int (Suc m)) = Some (h', int m)"
    using no j by (simp add: pop_while_nomatch)
  moreover have "pop_for match (Suc j) h' (int m) = Some (h', int m)"
    using no by (intro pop_for_nomatch) auto
  moreover have "pop_for match 1 h (int (Suc m)) = pop_for match j h (int (Suc m))"
  proof (rule pop_for_skip)
    fix i assume "1 \<le> i" "i < j"
    then show "\<not> match (h i)" using unique_slot [OF one, of i j] j by auto
  qed (use j in auto)
  ultimately have "pop_for match 1 h (int (Suc m)) = Some (h', int m)"
    using j by (simp add: pop_for.simps [of match j h])
  then show ?thesis using that h'(1) rest by blast
qed

lemma filter_mset_none: "\<forall>p \<in># M. \<not> P p \<Longrightarrow> filter_mset (\<lambda>p. \<not> P p) M = M"
  by (induction M) auto

lemma pq_pop_v_cases:
  assumes inv: "pq_inv pq"
    and one: "size (filter_mset (\<lambda>p. pvalue p = v) (pq_mset pq)) \<le> 1"
  defines "bottom \<equiv> priority_queue_heap pq (nat (priority_queue_size pq))"
  shows "\<exists>pq'. priority_queue_pop_v pq v = Some pq' \<and> pq_inv pq' \<and>
    pq_mset pq' = (if 0 < priority_queue_size pq \<and> pvalue bottom = v then pq_mset pq
                   else filter_mset (\<lambda>p. pvalue p \<noteq> v) (pq_mset pq))"
proof -
  let ?match = "\<lambda>p. pvalue p = v" and ?h = "priority_queue_heap pq"
  define n where "n = nat (priority_queue_size pq)"
  have n: "priority_queue_size pq = int n" using inv by (simp add: n_def pq_inv_def)
  have M: "pq_mset pq = slots_mset ?h n" by (simp add: pq_mset_def n_def)
  have same: "pq\<lparr>priority_queue_size := int n\<rparr> = pq" by (simp flip: n)
  show ?thesis
  proof (cases "\<exists>j. 1 \<le> j \<and> j < n \<and> ?match (?h j)")
    case True
    then obtain j where j': "1 \<le> j" "j < n" "?match (?h j)" by blast
    then obtain m where m: "n = Suc m" by (cases n) auto
    then have j: "1 \<le> j" "j \<le> m" "?match (?h j)" using j' by auto
    have "\<not> ?match (?h n)"
      using unique_slot [OF one [unfolded M], of j n] j m by auto
    moreover obtain h' where "pop_for ?match 1 ?h (int (Suc m)) = Some (h', int m)"
      "heap_ordered h' m" "slots_mset h' m = filter_mset (\<lambda>p. \<not> ?match p) (slots_mset ?h (Suc m))"
      using pop_for_unique [of ?h m j ?match] inv one j by (auto simp: pq_inv_def n m M)
    ultimately show ?thesis
      using inv by (simp add: priority_queue_pop_v_def n m pq_inv_def pq_mset_def bottom_def)
  next
    case False
    then have "pop_for ?match 1 ?h (int n) = Some (?h, int n)"
      by (intro pop_for_nomatch) auto
    then have "priority_queue_pop_v pq v = Some pq"
      by (simp add: priority_queue_pop_v_def n same)
    moreover have "filter_mset (\<lambda>p. pvalue p \<noteq> v) (pq_mset pq) = pq_mset pq"
      if "\<not> (0 < n \<and> ?match (?h n))"
    proof (rule filter_mset_none, unfold M, intro ballI)
      fix p assume "p \<in># slots_mset ?h n"
      then obtain i where "p = ?h i" "1 \<le> i" "i \<le> n" by (auto simp: set_slots_mset)
      then show "\<not> ?match p" using False that by (cases "i = n") auto
    qed
    ultimately show ?thesis
      using inv by (auto simp: n bottom_def)
  qed
qed

section \<open>The heap is a priority queue\<close>

text \<open>The sleep queue hands out the sleeper with the earliest wake-up time: a push into a heap
  with room adds the entry, a pop of a heap that is not empty removes its least entry, which is at the
  top, and both keep the heap order and lose no other sleeper.\<close>

theorem sleep_heap_push_pop:
  assumes "pq_inv pq"
  shows "(priority_queue_size pq < priority_queue_capacity pq \<longrightarrow>
      (\<exists>pq'. priority_queue_push pq x = Some pq' \<and> pq_inv pq' \<and> pq_mset pq' = add_mset x (pq_mset pq))) \<and>
    (pq_mset pq \<noteq> {#} \<longrightarrow>
      (\<exists>pq'. priority_queue_pop pq = Some pq' \<and> pq_inv pq' \<and> priority_queue_top pq \<in># pq_mset pq \<and>
        (\<forall>p. p \<in># pq_mset pq \<longrightarrow> sint (key (priority_queue_top pq)) \<le> sint (key p)) \<and>
        pq_mset pq' = pq_mset pq - {#priority_queue_top pq#}))"
proof (intro conjI impI)
  assume "priority_queue_size pq < priority_queue_capacity pq"
  then show "\<exists>pq'. priority_queue_push pq x = Some pq' \<and> pq_inv pq' \<and> pq_mset pq' = add_mset x (pq_mset pq)"
    using pq_push_ok[OF assms] by metis
next
  assume ne: "pq_mset pq \<noteq> {#}"
  have "sint (key (priority_queue_top pq)) \<le> sint (key p)" if "p \<in># pq_mset pq" for p
    using pair_le_key[OF pq_top_min(2)[OF assms ne that]] .
  then show "\<exists>pq'. priority_queue_pop pq = Some pq' \<and> pq_inv pq' \<and> priority_queue_top pq \<in># pq_mset pq \<and>
        (\<forall>p. p \<in># pq_mset pq \<longrightarrow> sint (key (priority_queue_top pq)) \<le> sint (key p)) \<and>
        pq_mset pq' = pq_mset pq - {#priority_queue_top pq#}"
    using pq_pop_ok[OF assms ne] pq_top_min(1)[OF assms ne] by metis
qed

definition two_sleepers :: priority_queue_meta_t where
  "two_sleepers = \<lparr>priority_queue_size = 2, priority_queue_capacity = 4,
     priority_queue_heap = (\<lambda>i. if i = 1 then Pair 5 1 else Pair 9 2)\<rparr>"

lemma two_sleepers: "pq_inv two_sleepers" "pq_mset two_sleepers = {#Pair 5 1, Pair 9 2#}"
proof -
  have "(Pair 5 1) \<le> Pair 9 2"
    by (simp add: pair_le_sint)
  moreover have "{2..Suc (Suc 0)} = {2::nat}" by auto
  ultimately show "pq_inv two_sleepers"
    by (simp add: pq_inv_def two_sleepers_def heap_ordered_def numeral_2_eq_2)
  have "mset_set {1..2::nat} = {#1, 2#}" by (simp add: numeral_2_eq_2 atLeastAtMostSuc_conv add_mset_commute)
  then show "pq_mset two_sleepers = {#Pair 5 1, Pair 9 2#}"
    by (simp add: pq_mset_def two_sleepers_def slots_mset_def)
qed

lemma sleep_heap_push_pop_witness:
  "\<exists>pq'. priority_queue_pop two_sleepers = Some pq' \<and> pq_mset pq' = {#Pair 9 2#}"
proof -
  have "priority_queue_top two_sleepers = Pair 5 1" by (simp add: priority_queue_top_def two_sleepers_def)
  then show ?thesis using sleep_heap_push_pop[OF two_sleepers(1)] two_sleepers(2) by auto
qed

text \<open>Removing a sleeper by its process id works for every slot of the heap but the last: when
  the process sits there, \<open>priority_queue_pop_v\<close> leaves it in the queue, so that it is woken later although
  it was meant to be forgotten. The heap order is kept either way.\<close>

theorem sleep_heap_pop_v_last_slot:
  assumes "pq_inv pq" "size (filter_mset (\<lambda>p. pvalue p = v) (pq_mset pq)) \<le> 1"
  shows "\<exists>pq'. priority_queue_pop_v pq v = Some pq' \<and> pq_inv pq' \<and>
    pq_mset pq' = (if 0 < priority_queue_size pq \<and>
                      pvalue (priority_queue_heap pq (nat (priority_queue_size pq))) = v
                   then pq_mset pq else filter_mset (\<lambda>p. pvalue p \<noteq> v) (pq_mset pq))"
  using pq_pop_v_cases[OF assms] .

lemma sleep_heap_pop_v_last_slot_witness:
  "\<exists>pq'. priority_queue_pop_v two_sleepers 2 = Some pq' \<and> pq_mset pq' = pq_mset two_sleepers"
proof -
  have "0 < priority_queue_size two_sleepers"
    "pvalue (priority_queue_heap two_sleepers (nat (priority_queue_size two_sleepers))) = 2"
    by (simp_all add: two_sleepers_def)
  then show ?thesis using sleep_heap_pop_v_last_slot[OF two_sleepers(1), of 2] two_sleepers(2) by auto
qed

end
