(* ===== verification/Kernel_List.thy ===== *)
theory Kernel_List
  imports Uniks_Base
begin

text \<open>
  The intrusive circular lists of include/uniks/list.h, on which every queue of waiting
  processes, free list and hash bucket of the kernel is built. A node is an address of type
  \<open>'n\<close>; the memory of all nodes is a pair of pointer fields. \<open>ring m h xs\<close> says that the
  nodes \<open>xs\<close> hang in this order from the head \<open>h\<close>, and the lemmas show that each pointer
  operation is the list operation its name promises. The component theories then work
  with the lists \<open>xs\<close>.
\<close>

section \<open>Pointer operations\<close>

record 'n links =
  lprev :: "'n \<Rightarrow> 'n"
  lnext :: "'n \<Rightarrow> 'n"

abbreviation set_next :: "'n links \<Rightarrow> 'n \<Rightarrow> 'n \<Rightarrow> 'n links" where
  "set_next m a b \<equiv> m\<lparr>lnext := (lnext m)(a := b)\<rparr>"

abbreviation set_prev :: "'n links \<Rightarrow> 'n \<Rightarrow> 'n \<Rightarrow> 'n links" where
  "set_prev m a b \<equiv> m\<lparr>lprev := (lprev m)(a := b)\<rparr>"

definition list_add_between :: "'n links \<Rightarrow> 'n \<Rightarrow> 'n \<Rightarrow> 'n \<Rightarrow> 'n links" where
  "list_add_between m new prev next =
     (let m1 = set_prev m next new;
          m2 = set_next m1 prev new;
          m3 = set_next m2 new next
      in set_prev m3 new prev)"

definition list_del_between :: "'n links \<Rightarrow> 'n \<Rightarrow> 'n \<Rightarrow> 'n links" where
  "list_del_between m prev next = (let m1 = set_prev m next prev in set_next m1 prev next)"

definition list_empty :: "'n links \<Rightarrow> 'n \<Rightarrow> bool" where
  "list_empty m head \<longleftrightarrow> lnext m head = head"

definition INIT_LIST_HEAD :: "'n links \<Rightarrow> 'n \<Rightarrow> 'n links" where
  "INIT_LIST_HEAD m list = (let m1 = set_next m list list in set_prev m1 list list)"

definition list_add_front :: "'n links \<Rightarrow> 'n \<Rightarrow> 'n \<Rightarrow> 'n links" where
  "list_add_front m new head = list_add_between m new head (lnext m head)"

definition list_add_tail :: "'n links \<Rightarrow> 'n \<Rightarrow> 'n \<Rightarrow> 'n links" where
  "list_add_tail m new head = list_add_between m new (lprev m head) head"

definition list_del :: "'n links \<Rightarrow> 'n \<Rightarrow> 'n links" where
  "list_del m elem = list_del_between m (lprev m elem) (lnext m elem)"

definition list_del_then_init :: "'n links \<Rightarrow> 'n \<Rightarrow> 'n links" where
  "list_del_then_init m listelm = INIT_LIST_HEAD (list_del m listelm) listelm"

definition list_next_then_del :: "'n links \<Rightarrow> 'n \<Rightarrow> 'n \<times> 'n links" where
  "list_next_then_del m listelm = (let node = lnext m listelm in (node, list_del m node))"

definition list_prev_then_del :: "'n links \<Rightarrow> 'n \<Rightarrow> 'n \<times> 'n links" where
  "list_prev_then_del m listelm = (let node = lprev m listelm in (node, list_del m node))"

section \<open>The list a head carries\<close>

text \<open>\<open>neighbours l\<close> are the adjacent pairs of \<open>l\<close>; a ring is a list of distinct nodes
  whose adjacent pairs, the way back to the head included, point at each other.\<close>

fun neighbours :: "'n list \<Rightarrow> ('n \<times> 'n) list" where
  "neighbours (a # b # r) = (a, b) # neighbours (b # r)"
| "neighbours _ = []"

definition linked :: "'n links \<Rightarrow> ('n \<times> 'n) list \<Rightarrow> bool" where
  "linked m ps \<longleftrightarrow> (\<forall>(a, b)\<in>set ps. lnext m a = b \<and> lprev m b = a)"

definition ring :: "'n links \<Rightarrow> 'n \<Rightarrow> 'n list \<Rightarrow> bool" where
  "ring m h xs \<longleftrightarrow> distinct (h # xs) \<and> linked m (neighbours (h # xs @ [h]))"

lemma neighbours_append:
  "neighbours (us @ a # vs) = neighbours (us @ [a]) @ neighbours (a # vs)"
  by (induction us rule: induct_list012) auto

lemma neighbours_fst: "map fst (neighbours l) = butlast l"
  by (induction l rule: neighbours.induct) auto

lemma neighbours_snd: "map snd (neighbours l) = tl l"
  by (induction l rule: neighbours.induct) auto

lemma neighbours_in: "(a, b) \<in> set (neighbours l) \<Longrightarrow> a \<in> set l \<and> b \<in> set l"
  by (induction l rule: neighbours.induct) auto

lemma linked_simps [simp]:
  "linked m []"
  "linked m ((a, b) # ps) \<longleftrightarrow> lnext m a = b \<and> lprev m b = a \<and> linked m ps"
  "linked m (ps @ qs) \<longleftrightarrow> linked m ps \<and> linked m qs"
  by (auto simp: linked_def ball_Un)

lemma linked_frame:
  assumes "\<And>a. a \<in> fst ` set ps \<Longrightarrow> lnext m' a = lnext m a"
    and "\<And>b. b \<in> snd ` set ps \<Longrightarrow> lprev m' b = lprev m b"
  shows "linked m' ps = linked m ps"
  unfolding linked_def using assms by (intro ball_cong) (force simp: image_iff)+

lemma neighbours_distinct:
  assumes "distinct (h # xs)"
  shows "distinct (map fst (neighbours (h # xs @ [h])))"
    and "distinct (map snd (neighbours (h # xs @ [h])))"
  using assms by (simp_all add: neighbours_fst neighbours_snd butlast_append)

text \<open>Insertion between two neighbours, and removal of a node between two neighbours.\<close>

lemma linked_insert:
  assumes "linked m (ps @ (p, n) # qs)"
    and "distinct (map fst (ps @ (p, n) # qs))" "distinct (map snd (ps @ (p, n) # qs))"
    and "new \<notin> fst ` set (ps @ (p, n) # qs)" "new \<notin> snd ` set (ps @ (p, n) # qs)"
  shows "linked (list_add_between m new p n) (ps @ (p, new) # (new, n) # qs)"
proof -
  let ?m = "list_add_between m new p n"
  have "linked ?m ps = linked m ps" "linked ?m qs = linked m qs"
    using assms(2-) by (intro linked_frame; auto simp: list_add_between_def Let_def)+
  moreover have "new \<noteq> p" "new \<noteq> n" "p \<noteq> new" "n \<noteq> new" using assms(4,5) by auto
  ultimately show ?thesis using assms(1) by (simp add: list_add_between_def Let_def)
qed

lemma linked_delete:
  assumes "linked m (ps @ (p, e) # (e, n) # qs)"
    and "distinct (map fst (ps @ (p, e) # (e, n) # qs))"
      "distinct (map snd (ps @ (p, e) # (e, n) # qs))"
  shows "linked (list_del m e) (ps @ (p, n) # qs)"
proof -
  let ?m = "list_del m e"
  have eq: "?m = set_next (set_prev m n p) p n"
    using assms(1) by (simp add: list_del_def list_del_between_def Let_def)
  have "p \<notin> fst ` set ps" "p \<notin> fst ` set qs" "n \<notin> snd ` set ps" "n \<notin> snd ` set qs"
    using assms(2,3) by auto
  then have "linked ?m ps = linked m ps" "linked ?m qs = linked m qs"
    unfolding eq by (intro linked_frame; auto)+
  then show ?thesis using assms(1) by (simp add: eq)
qed

text \<open>A ring read from any place: the pairs before \<open>us\<close> ends, the pair \<open>(p, n)\<close>, the rest.\<close>

lemma neighbours_at:
  assumes "h # xs @ [h] = us @ p # n # vs"
  shows "neighbours (h # xs @ [h]) = neighbours (us @ [p]) @ (p, n) # neighbours (n # vs)"
  unfolding assms using neighbours_append [of us p "n # vs"] by simp

lemma ring_insert:
  assumes ring: "ring m h (xs @ ys)" and new: "new \<notin> set (h # xs @ ys)"
  shows "ring (list_add_between m new (last (h # xs)) (hd (ys @ [h]))) h (xs @ new # ys)"
proof -
  define us p n vs where "us = butlast (h # xs)" and "p = last (h # xs)"
    and "n = hd (ys @ [h])" and "vs = tl (ys @ [h])"
  have up: "us @ [p] = h # xs" by (simp add: us_def p_def)
  have nv: "n # vs = ys @ [h]" by (simp add: n_def vs_def)
  have split: "h # (xs @ ys) @ [h] = us @ p # n # vs"
    by (metis append.assoc append_Cons append_Nil nv up)
  have split': "h # (xs @ new # ys) @ [h] = us @ p # new # n # vs"
    by (metis append.assoc append_Cons append_Nil nv up)
  let ?P = "neighbours (h # (xs @ ys) @ [h])"
  have P: "?P = neighbours (us @ [p]) @ (p, n) # neighbours (n # vs)"
    by (rule neighbours_at [OF split])
  have "fst ` set ?P = set (map fst ?P)" "snd ` set ?P = set (map snd ?P)" by simp_all
  then have fresh: "new \<notin> fst ` set ?P" "new \<notin> snd ` set ?P"
    using new unfolding neighbours_fst neighbours_snd by (auto dest: in_set_butlastD)
  have d: "distinct (h # xs @ ys)" "linked m ?P" using ring by (simp_all add: ring_def)
  have "linked (list_add_between m new p n)
      (neighbours (us @ [p]) @ (p, new) # (new, n) # neighbours (n # vs))"
    using d(2) neighbours_distinct [OF d(1)] fresh unfolding P by (rule linked_insert)
  then have "linked (list_add_between m new p n) (neighbours (h # (xs @ new # ys) @ [h]))"
    unfolding split' using neighbours_append [of us p "new # n # vs"] by simp
  then show ?thesis using d(1) new by (auto simp: ring_def p_def n_def)
qed

lemma ring_delete:
  assumes ring: "ring m h (xs @ e # ys)"
  shows "ring (list_del m e) h (xs @ ys)"
proof -
  define us p n vs where "us = butlast (h # xs)" and "p = last (h # xs)"
    and "n = hd (ys @ [h])" and "vs = tl (ys @ [h])"
  have up: "us @ [p] = h # xs" by (simp add: us_def p_def)
  have nv: "n # vs = ys @ [h]" by (simp add: n_def vs_def)
  have split: "h # (xs @ e # ys) @ [h] = us @ p # e # n # vs"
    by (metis append.assoc append_Cons append_Nil nv up)
  have split': "h # (xs @ ys) @ [h] = us @ p # n # vs"
    by (metis append.assoc append_Cons append_Nil nv up)
  let ?P = "neighbours (h # (xs @ e # ys) @ [h])"
  have P: "?P = neighbours (us @ [p]) @ (p, e) # (e, n) # neighbours (n # vs)"
    using neighbours_at [OF split] by simp
  have d: "distinct (h # xs @ e # ys)" "linked m ?P" using ring by (simp_all add: ring_def)
  have "linked (list_del m e) (neighbours (us @ [p]) @ (p, n) # neighbours (n # vs))"
    using d(2) neighbours_distinct [OF d(1)] unfolding P by (rule linked_delete)
  then have "linked (list_del m e) (neighbours (h # (xs @ ys) @ [h]))"
    using neighbours_at [OF split'] by simp
  then show ?thesis using d(1) by (auto simp: ring_def)
qed

lemma ring_next: "ring m h xs \<Longrightarrow> lnext m h = hd (xs @ [h])"
  by (cases xs) (auto simp: ring_def)

lemma ring_prev: "ring m h xs \<Longrightarrow> lprev m h = last (h # xs)"
proof (cases xs rule: rev_cases)
  case (snoc ys y)
  assume "ring m h xs"
  then show ?thesis
    using snoc neighbours_append [of "h # ys" y "[h]"] by (simp add: ring_def)
qed (auto simp: ring_def)

section \<open>The operations on lists\<close>

lemma list_empty_iff: "ring m h xs \<Longrightarrow> list_empty m h \<longleftrightarrow> xs = []"
  by (cases xs) (auto simp: list_empty_def ring_next ring_def)

lemma INIT_LIST_HEAD_ring: "ring (INIT_LIST_HEAD m h) h []"
  by (simp add: ring_def INIT_LIST_HEAD_def Let_def)

lemma list_add_front_ring:
  "ring m h xs \<Longrightarrow> new \<notin> set (h # xs) \<Longrightarrow> ring (list_add_front m new h) h (new # xs)"
  using ring_insert [of m h "[]" xs new] by (simp add: list_add_front_def ring_next)

lemma list_add_tail_ring:
  "ring m h xs \<Longrightarrow> new \<notin> set (h # xs) \<Longrightarrow> ring (list_add_tail m new h) h (xs @ [new])"
  using ring_insert [of m h xs "[]" new] by (simp add: list_add_tail_def ring_prev)

lemma ring_prev_inner: "ring m h (xs @ a # ys) \<Longrightarrow> lprev m a = last (h # xs)"
  using neighbours_append [of "butlast (h # xs)" "last (h # xs)" "a # ys @ [h]"]
  by (simp add: ring_def flip: append_Cons del: last.simps butlast.simps)
    (metis append.assoc append_Cons append_Nil append_butlast_last_id linked_simps(2,3)
      list.distinct(1) neighbours.simps(1))

text \<open>\<open>list_add_tail\<close> on a node of the list, not its head, inserts before that node.\<close>

lemma list_add_before_ring:
  assumes "ring m h (xs @ a # ys)" "new \<notin> set (h # xs @ a # ys)"
  shows "ring (list_add_tail m new a) h (xs @ new # a # ys)"
  using ring_insert [of m h xs "a # ys" new] assms
  by (simp add: list_add_tail_def ring_prev_inner)

lemma list_del_ring: "ring m h (xs @ e # ys) \<Longrightarrow> ring (list_del m e) h (xs @ ys)"
  by (rule ring_delete)

lemma list_next_then_del_ring:
  assumes "ring m h (x # xs)"
  shows "\<exists>m'. list_next_then_del m h = (x, m') \<and> ring m' h xs"
  using assms ring_delete [of m h "[]" x xs] by (simp add: list_next_then_del_def ring_next Let_def)

lemma list_prev_then_del_ring:
  assumes "ring m h (xs @ [x])"
  shows "\<exists>m'. list_prev_then_del m h = (x, m') \<and> ring m' h xs"
  using assms ring_delete [of m h xs x "[]"] by (simp add: list_prev_then_del_def ring_prev Let_def)

text \<open>An operation on one ring leaves a ring with other nodes alone.\<close>

lemma ring_frame:
  assumes "ring m h xs" "\<And>a. a \<in> set (h # xs) \<Longrightarrow> lnext m' a = lnext m a \<and> lprev m' a = lprev m a"
  shows "ring m' h xs"
proof -
  let ?P = "neighbours (h # xs @ [h])"
  have "fst ` set ?P = set (map fst ?P)" "snd ` set ?P = set (map snd ?P)" by simp_all
  then have "fst ` set ?P \<subseteq> set (h # xs)" "snd ` set ?P \<subseteq> set (h # xs)"
    unfolding neighbours_fst neighbours_snd by (auto simp: butlast_append)
  then have "linked m' ?P = linked m ?P" using assms(2) by (intro linked_frame) blast+
  then show ?thesis using assms(1) by (simp add: ring_def)
qed

lemma ring_closed:
  assumes "ring m h xs" "a \<in> set (h # xs)"
  shows "lnext m a \<in> set (h # xs)" "lprev m a \<in> set (h # xs)"
proof -
  have d: "linked m (neighbours (h # xs @ [h]))" using assms(1) by (simp add: ring_def)
  have "a \<in> set (map fst (neighbours (h # xs @ [h])))" "a \<in> set (map snd (neighbours (h # xs @ [h])))"
    unfolding neighbours_fst neighbours_snd using assms(2) by (auto simp: butlast_append)
  then show "lnext m a \<in> set (h # xs)" "lprev m a \<in> set (h # xs)"
    using d by (fastforce simp: linked_def dest: neighbours_in)+
qed

lemma list_del_frame:
  assumes "ring m h xs" "e \<in> set xs" "ring m g ys" "set (g # ys) \<inter> set (h # xs) = {}"
  shows "ring (list_del m e) g ys"
  using assms(3)
proof (rule ring_frame)
  fix a assume "a \<in> set (g # ys)"
  then have "a \<noteq> lnext m e" "a \<noteq> lprev m e"
    using assms(4) ring_closed [OF assms(1), of e] assms(2) by (meson disjoint_iff list.set_intros(2))+
  then show "lnext (list_del m e) a = lnext m a \<and> lprev (list_del m e) a = lprev m a"
    by (simp add: list_del_def list_del_between_def Let_def)
qed

lemma list_add_front_frame:
  assumes "ring m h xs" "ring m g ys" "set (g # ys) \<inter> set (new # h # xs) = {}"
  shows "ring (list_add_front m new h) g ys"
  using assms(2)
proof (rule ring_frame)
  fix a assume a: "a \<in> set (g # ys)"
  then have "a \<noteq> lnext m h"
    using assms(3) ring_closed(1) [OF assms(1), of h] by (meson disjoint_iff list.set_intros)
  moreover have "a \<noteq> h" "a \<noteq> new" using a assms(3) by auto
  ultimately show "lnext (list_add_front m new h) a = lnext m a \<and>
      lprev (list_add_front m new h) a = lprev m a"
    by (simp add: list_add_front_def list_add_between_def Let_def)
qed

section \<open>The contract of intrusive lists\<close>

locale intrusive_list =
  fixes add_front :: "'m \<Rightarrow> 'n \<Rightarrow> 'n \<Rightarrow> 'm"
    and del :: "'m \<Rightarrow> 'n \<Rightarrow> 'm"
    and take_next :: "'m \<Rightarrow> 'n \<Rightarrow> 'n \<times> 'm"
    and take_prev :: "'m \<Rightarrow> 'n \<Rightarrow> 'n \<times> 'm"
    and is_empty :: "'m \<Rightarrow> 'n \<Rightarrow> bool"
    and rep :: "'m \<Rightarrow> 'n \<Rightarrow> 'n list \<Rightarrow> bool"
  assumes nodes: "rep m h xs \<Longrightarrow> distinct (h # xs)"
    and empty_iff: "rep m h xs \<Longrightarrow> is_empty m h \<longleftrightarrow> xs = []"
    and add: "rep m h xs \<Longrightarrow> new \<notin> set (h # xs) \<Longrightarrow> rep (add_front m new h) h (new # xs)"
    and add_frame: "rep m h xs \<Longrightarrow> rep m g ys \<Longrightarrow> set (g # ys) \<inter> set (new # h # xs) = {} \<Longrightarrow>
      rep (add_front m new h) g ys"
    and del_mid: "rep m h (xs @ e # ys) \<Longrightarrow> rep (del m e) h (xs @ ys)"
    and del_frame: "rep m h xs \<Longrightarrow> e \<in> set xs \<Longrightarrow> rep m g ys \<Longrightarrow>
      set (g # ys) \<inter> set (h # xs) = {} \<Longrightarrow> rep (del m e) g ys"
    and next_is: "rep m h (x # xs) \<Longrightarrow> take_next m h = (x, del m x)"
    and prev_is: "rep m h (xs @ [x]) \<Longrightarrow> take_prev m h = (x, del m x)"
begin

text \<open>Taking the next node of one list and putting it in front of another: the step of
  \<open>proc_unblock_all\<close>, \<open>reparent\<close> and the slub lists.\<close>

lemma move_first:
  assumes "rep m h (x # xs)" "rep m g ys" "set (g # ys) \<inter> set (h # x # xs) = {}"
  obtains m' where "take_next m h = (x, m')" "rep (add_front m' x g) h xs"
    "rep (add_front m' x g) g (x # ys)"
proof -
  have h: "rep (del m x) h xs" using del_mid [of m h "[]"] assms(1) by simp
  have g: "rep (del m x) g ys" using del_frame [OF assms(1) _ assms(2)] assms(3) by simp
  have d: "distinct (h # x # xs)" using nodes [OF assms(1)] .
  have "rep (add_front (del m x) x g) g (x # ys)" using g assms(3) by (intro add) auto
  moreover have "rep (add_front (del m x) x g) h xs"
    using add_frame [OF g h, of x] assms(3) d by auto
  ultimately show ?thesis using that next_is [OF assms(1)] by blast
qed

text \<open>A list filled at the front and emptied at the back is first-in first-out: the
  least recently released node is taken first (the LRU order of the buffer cache).\<close>

lemma front_in_back_out:
  assumes "rep m h (xs @ [x])" "new \<notin> set (h # xs @ [x])"
  shows "\<exists>m'. take_prev (add_front m new h) h = (x, m') \<and> rep m' h (new # xs)"
  using add [OF assms] prev_is [of "add_front m new h" h "new # xs" x]
    del_mid [of "add_front m new h" h "new # xs" x "[]"] by simp

end

interpretation kl: intrusive_list list_add_front list_del list_next_then_del list_prev_then_del
  list_empty ring
proof (unfold_locales, goal_cases)
  case (1 m h xs) then show ?case by (simp add: ring_def)
next
  case (2 m h xs) then show ?case by (rule list_empty_iff)
next
  case (3 m h xs new) then show ?case by (rule list_add_front_ring)
next
  case (4 m h xs g ys new) then show ?case by (rule list_add_front_frame)
next
  case (5 m h xs e ys) then show ?case by (rule list_del_ring)
next
  case (6 m h xs e g ys) then show ?case by (rule list_del_frame)
next
  case (7 m h x xs) then show ?case by (simp add: list_next_then_del_def ring_next Let_def)
next
  case (8 m h xs x) then show ?case by (simp add: list_prev_then_del_def ring_prev Let_def)
qed

section \<open>Moving a node between lists\<close>

text \<open>Taking a node off one ring and adding it at the front of another, which is how the kernel
  moves processes, pages and buffers, removes it from the first list, puts it first on the second, and
  keeps both rings well linked and free of duplicates.\<close>

theorem list_move_between_rings:
  assumes "ring m h (xs @ e # ys)" "ring m g zs" "set (g # zs) \<inter> set (h # xs @ e # ys) = {}"
  shows "ring (list_add_front (list_del m e) e g) h (xs @ ys) \<and>
    ring (list_add_front (list_del m e) e g) g (e # zs) \<and>
    distinct (h # xs @ ys @ g # e # zs)"
proof -
  have d: "ring (list_del m e) h (xs @ ys)" by (rule list_del_ring[OF assms(1)])
  have f: "ring (list_del m e) g zs" by (rule list_del_frame[OF assms(1) _ assms(2,3)]) simp
  have dist: "distinct (h # xs @ e # ys)" "distinct (g # zs)" by (rule kl.nodes[OF assms(1)], rule kl.nodes[OF assms(2)])
  have e: "e \<notin> set (g # zs)" using assms(3) by auto
  have "ring (list_add_front (list_del m e) e g) g (e # zs)" by (rule list_add_front_ring[OF f e])
  moreover have "ring (list_add_front (list_del m e) e g) h (xs @ ys)"
    by (rule list_add_front_frame[OF f d]) (use assms(3) dist in auto)
  ultimately show ?thesis using dist assms(3) by auto
qed

definition two_rings :: "nat links" where
  "two_rings = \<lparr>lprev = (\<lambda>n. if n = 0 then 1 else if n = 1 then 0 else n),
     lnext = (\<lambda>n. if n = 0 then 1 else if n = 1 then 0 else n)\<rparr>"

lemma list_move_between_rings_witness:
  "ring (list_add_front (list_del two_rings 1) 1 5) 5 [1] \<and>
   ring (list_add_front (list_del two_rings 1) 1 5) 0 []"
proof -
  have "ring two_rings 0 ([] @ 1 # [])" "ring two_rings 5 []"
    by (simp_all add: ring_def linked_def two_rings_def)
  from list_move_between_rings[OF this] show ?thesis by simp
qed

end
