(* ===== verification/Kstring.thy ===== *)
theory Kstring
  imports Uniks_Base
begin

text \<open>
  The string and memory routines of libs/kstring.c and user/libs/ustring.c, on a memory that
  maps addresses to bytes. A loop that only a NUL byte stops is a
  \<open>partial_function (option)\<close>: \<open>None\<close> is the run that never meets one. \<open>str_at m p cs\<close>
  says that the memory holds the string \<open>cs\<close> at \<open>p\<close>, NUL included.
\<close>

section \<open>Memory and strings\<close>

type_synonym mem = "nat \<Rightarrow> byte"

fun str_at :: "mem \<Rightarrow> nat \<Rightarrow> byte list \<Rightarrow> bool" where
  "str_at m p [] \<longleftrightarrow> m p = 0"
| "str_at m p (c # cs) \<longleftrightarrow> m p = c \<and> c \<noteq> 0 \<and> str_at m (p + 1) cs"

text \<open>\<open>copied m dst src n\<close> is the memory after the \<open>n\<close> bytes at \<open>src\<close> have arrived at \<open>dst\<close>.\<close>

definition copied :: "mem \<Rightarrow> nat \<Rightarrow> nat \<Rightarrow> nat \<Rightarrow> mem" where
  "copied m dst src n = (\<lambda>a. if dst \<le> a \<and> a < dst + n then m (src + (a - dst)) else m a)"

lemma str_at_nth: "str_at m p cs \<Longrightarrow> i < length cs \<Longrightarrow> m (p + i) = cs ! i \<and> cs ! i \<noteq> 0"
proof (induction cs arbitrary: p i)
  case (Cons c cs)
  then show ?case by (cases i) (auto, (metis add_Suc_right add_Suc)+)
qed simp

lemma str_at_end: "str_at m p cs \<Longrightarrow> m (p + length cs) = 0"
proof (induction cs arbitrary: p)
  case (Cons c cs)
  have "m (p + 1 + length cs) = 0" using Cons.IH[of "p + 1"] Cons.prems by simp
  then show ?case by (simp add: add.assoc)
qed simp

lemma str_at_unique: "str_at m p cs \<Longrightarrow> str_at m p ds \<Longrightarrow> cs = ds"
proof (induction cs arbitrary: p ds)
  case Nil then show ?case by (cases ds) auto
next
  case (Cons c cs) then show ?case by (cases ds) auto
qed

lemma str_at_cong:
  assumes "\<And>a. p \<le> a \<Longrightarrow> a \<le> p + length cs \<Longrightarrow> f a = g a"
  shows "str_at f p cs \<longleftrightarrow> str_at g p cs"
  using assms
proof (induction cs arbitrary: p)
  case (Cons c cs)
  have "str_at f (Suc p) cs \<longleftrightarrow> str_at g (Suc p) cs"
    by (rule Cons.IH) (rule Cons.prems, simp_all)
  moreover have "f p = g p" by (rule Cons.prems) simp_all
  ultimately show ?case by simp
qed simp

lemma str_at_moved: "str_at m src cs \<Longrightarrow> str_at (\<lambda>a. m (src + (a - dst))) dst cs"
proof (induction cs arbitrary: src dst)
  case (Cons c cs)
  have "str_at (\<lambda>a. m (Suc src + (a - Suc dst))) (Suc dst) cs"
    by (rule Cons.IH) (use Cons.prems in simp)
  moreover have "str_at (\<lambda>a. m (Suc src + (a - Suc dst))) (Suc dst) cs
    \<longleftrightarrow> str_at (\<lambda>a. m (src + (a - dst))) (Suc dst) cs"
  proof (rule str_at_cong)
    fix a assume "Suc dst \<le> a"
    then have "Suc src + (a - Suc dst) = src + (a - dst)" by arith
    then show "m (Suc src + (a - Suc dst)) = m (src + (a - dst))" by (rule arg_cong)
  qed
  ultimately show ?case using Cons.prems by simp
qed simp

lemma str_at_copied:
  assumes "str_at m src cs"
  shows "str_at (copied m dst src (Suc (length cs))) dst cs"
proof -
  have "str_at (copied m dst src (Suc (length cs))) dst cs
    \<longleftrightarrow> str_at (\<lambda>a. m (src + (a - dst))) dst cs"
    by (rule str_at_cong) (simp add: copied_def)
  then show ?thesis using str_at_moved[OF assms] by simp
qed

section \<open>Lengths and searches\<close>

partial_function (option) strlen_loop :: "mem \<Rightarrow> nat \<Rightarrow> nat \<Rightarrow> nat option" where
  "strlen_loop m s cnt = (if m s \<noteq> 0 then strlen_loop m (s + 1) (cnt + 1) else Some cnt)"

definition strlen :: "mem \<Rightarrow> nat \<Rightarrow> nat option" where
  "strlen m s = strlen_loop m s 0"

text \<open>In \<open>strnlen\<close> the recursion is on the \<open>len - cnt\<close> characters still allowed.\<close>

fun strnlen_loop :: "mem \<Rightarrow> nat \<Rightarrow> nat \<Rightarrow> nat \<Rightarrow> nat" where
  "strnlen_loop m s cnt 0 = cnt"
| "strnlen_loop m s cnt (Suc left) =
     (if m s \<noteq> 0 then strnlen_loop m (s + 1) (cnt + 1) left else cnt)"

definition strnlen :: "mem \<Rightarrow> nat \<Rightarrow> nat \<Rightarrow> nat" where
  "strnlen m s len = strnlen_loop m s 0 len"

partial_function (option) is_separator :: "mem \<Rightarrow> byte \<Rightarrow> nat \<Rightarrow> bool option" where
  "is_separator m c tok =
     (if m tok \<noteq> 0 then (if c = m tok then Some True else is_separator m c (tok + 1))
      else Some False)"

partial_function (option) strsep :: "mem \<Rightarrow> nat \<Rightarrow> nat \<Rightarrow> nat option option" where
  "strsep m ptr tok = do {
     sep \<leftarrow> is_separator m (m ptr) tok;
     if sep then Some (Some ptr)
     else if m ptr = 0 then Some None
     else strsep m (ptr + 1) tok }"

partial_function (option) strrsep_loop ::
    "mem \<Rightarrow> nat option \<Rightarrow> nat \<Rightarrow> nat \<Rightarrow> nat option option" where
  "strrsep_loop m lst ptr tok = do {
     sep \<leftarrow> is_separator m (m ptr) tok;
     let lst' = (if sep then Some ptr else lst);
     if m ptr = 0 then Some lst' else strrsep_loop m lst' (ptr + 1) tok }"

definition strrsep :: "mem \<Rightarrow> nat \<Rightarrow> nat \<Rightarrow> nat option option" where
  "strrsep m str tok = strrsep_loop m None str tok"

partial_function (option) strchr :: "mem \<Rightarrow> nat \<Rightarrow> byte \<Rightarrow> nat option option" where
  "strchr m s c =
     (if m s \<noteq> 0 then (if m s = c then Some (Some s) else strchr m (s + 1) c) else Some None)"

lemma strlen_loop_str: "str_at m s cs \<Longrightarrow> strlen_loop m s cnt = Some (cnt + length cs)"
  by (induction cs arbitrary: s cnt) (simp_all add: strlen_loop.simps)

lemma strlen_str: "str_at m s cs \<Longrightarrow> strlen m s = Some (length cs)"
  by (simp add: strlen_def strlen_loop_str)

lemma strlen_loop_returns:
  assumes "strlen_loop m s cnt = Some n"
  shows "\<exists>cs. str_at m s cs \<and> n = cnt + length cs"
proof (rule strlen_loop.raw_induct[OF _ assms])
  fix rec m s cnt n
  assume IH: "\<And>m s cnt n. rec m s cnt = Some n \<Longrightarrow> \<exists>cs. str_at m s cs \<and> n = cnt + length cs"
    and step: "(if m s \<noteq> 0 then rec m (s + 1) (cnt + 1) else Some cnt) = Some n"
  show "\<exists>cs. str_at m s cs \<and> n = cnt + length cs"
  proof (cases "m s = 0")
    case True
    then show ?thesis using step by (intro exI[of _ "[]"]) simp
  next
    case False
    then obtain cs where cs: "str_at m (s + 1) cs" "n = cnt + 1 + length cs"
      using step IH[of m "s + 1" "cnt + 1" n] by auto
    then show ?thesis using False by (intro exI[of _ "m s # cs"]) simp
  qed
qed

lemma strlen_returns_iff: "(\<exists>n. strlen m s = Some n) \<longleftrightarrow> (\<exists>cs. str_at m s cs)"
  using strlen_loop_returns[of m s 0] strlen_str[of m s] by (auto simp: strlen_def)

lemma strnlen_loop_str:
  "str_at m s cs \<Longrightarrow> strnlen_loop m s cnt len = cnt + min len (length cs)"
proof (induction cs arbitrary: s cnt len)
  case Nil then show ?case by (cases len) simp_all
next
  case (Cons c cs) then show ?case by (cases len) simp_all
qed

lemma strnlen_str: "str_at m s cs \<Longrightarrow> strnlen m s len = min len (length cs)"
  by (simp add: strnlen_def strnlen_loop_str)

lemma is_separator_str: "str_at m tok ts \<Longrightarrow> is_separator m c tok = Some (c \<in> set ts)"
  by (induction ts arbitrary: tok) (simp_all add: is_separator.simps)

lemma nul_not_in_str: "str_at m p cs \<Longrightarrow> 0 \<notin> set cs"
  by (induction cs arbitrary: p) auto

fun first_in :: "byte set \<Rightarrow> nat \<Rightarrow> byte list \<Rightarrow> nat option" where
  "first_in T p [] = None"
| "first_in T p (c # cs) = (if c \<in> T then Some p else first_in T (p + 1) cs)"

fun last_in :: "byte set \<Rightarrow> nat \<Rightarrow> byte list \<Rightarrow> nat option" where
  "last_in T p [] = None"
| "last_in T p (c # cs) =
     (case last_in T (p + 1) cs of None \<Rightarrow> (if c \<in> T then Some p else None) | Some q \<Rightarrow> Some q)"

lemma strsep_str:
  assumes "str_at m tok ts" "str_at m p cs"
  shows "strsep m p tok = Some (first_in (set ts) p cs)"
  using assms(2)
proof (induction cs arbitrary: p)
  case Nil
  then show ?case
    using is_separator_str[OF assms(1)] nul_not_in_str[OF assms(1)] by (simp add: strsep.simps)
next
  case (Cons c cs)
  then show ?case using is_separator_str[OF assms(1), of c] by (simp add: strsep.simps[of m p])
qed

lemma strrsep_loop_str:
  assumes "str_at m tok ts" "str_at m p cs"
  shows "strrsep_loop m l p tok
    = Some (case last_in (set ts) p cs of None \<Rightarrow> l | Some q \<Rightarrow> Some q)"
  using assms(2)
proof (induction cs arbitrary: p l)
  case Nil
  then show ?case
    using is_separator_str[OF assms(1)] nul_not_in_str[OF assms(1)]
    by (simp add: strrsep_loop.simps)
next
  case (Cons c cs)
  then show ?case using is_separator_str[OF assms(1), of c]
    by (simp add: strrsep_loop.simps[of m _ p] split: option.splits)
qed

lemma strrsep_str:
  "str_at m tok ts \<Longrightarrow> str_at m p cs \<Longrightarrow> strrsep m p tok = Some (last_in (set ts) p cs)"
  by (simp add: strrsep_def strrsep_loop_str split: option.splits)

lemma strchr_str:
  "str_at m s cs \<Longrightarrow> strchr m s c = Some (first_in {c} s cs)"
  by (induction cs arbitrary: s) (auto simp: strchr.simps)

lemma first_in_Some:
  "first_in T p cs = Some q \<longleftrightarrow>
   (\<exists>i < length cs. q = p + i \<and> cs ! i \<in> T \<and> (\<forall>j < i. cs ! j \<notin> T))"
proof (induction cs arbitrary: p)
  case (Cons c cs)
  show ?case
  proof (cases "c \<in> T")
    case True
    then show ?thesis by (auto, metis nth_Cons_0 neq0_conv)
  next
    case False
    have "(\<exists>i < length (c # cs). q = p + i \<and> (c # cs) ! i \<in> T \<and> (\<forall>j < i. (c # cs) ! j \<notin> T))
      \<longleftrightarrow> (\<exists>i < length cs. q = Suc p + i \<and> cs ! i \<in> T \<and> (\<forall>j < i. cs ! j \<notin> T))"
      (is "?l \<longleftrightarrow> ?r")
    proof
      assume ?l
      then obtain i where i: "i < length (c # cs)" "q = p + i" "(c # cs) ! i \<in> T"
        "\<forall>j < i. (c # cs) ! j \<notin> T" by blast
      obtain k where k: "i = Suc k" using i(3) False by (cases i) auto
      have "\<forall>j < k. cs ! j \<notin> T" using i(4) k by auto
      then show ?r using i k by (intro exI[of _ k]) simp
    next
      assume ?r
      then obtain k where k: "k < length cs" "q = Suc p + k" "cs ! k \<in> T" "\<forall>j < k. cs ! j \<notin> T"
        by blast
      have "\<forall>j < Suc k. (c # cs) ! j \<notin> T"
        using k(4) False by (simp add: All_less_Suc2)
      then show ?l using k by (intro exI[of _ "Suc k"]) simp
    qed
    then show ?thesis using False Cons.IH[of "p + 1"] by simp
  qed
qed simp

section \<open>Copying\<close>

partial_function (option) strcpy :: "mem \<Rightarrow> nat \<Rightarrow> nat \<Rightarrow> mem option" where
  "strcpy m p src =
     (let m' = m(p := m src)
      in if m src \<noteq> 0 then strcpy m' (p + 1) (src + 1) else Some m')"

text \<open>The kernel's \<open>strncpy\<close>: the first loop copies, the second pads with NULs from the index
  at which the first stopped.\<close>

fun strncpy_pad :: "mem \<Rightarrow> nat \<Rightarrow> nat \<Rightarrow> nat \<Rightarrow> mem" where
  "strncpy_pad m dst i 0 = m"
| "strncpy_pad m dst i (Suc left) = strncpy_pad (m(dst + i := 0)) dst (i + 1) left"

fun strncpy_copy :: "mem \<Rightarrow> nat \<Rightarrow> nat \<Rightarrow> nat \<Rightarrow> nat \<Rightarrow> mem" where
  "strncpy_copy m dst src i 0 = m"
| "strncpy_copy m dst src i (Suc left) =
     (if m (src + i) \<noteq> 0 then strncpy_copy (m(dst + i := m (src + i))) dst src (i + 1) left
      else strncpy_pad m dst i (Suc left))"

definition strncpy :: "mem \<Rightarrow> nat \<Rightarrow> nat \<Rightarrow> nat \<Rightarrow> mem" where
  "strncpy m dst src len = strncpy_copy m dst src 0 len"

text \<open>The \<open>strncpy\<close> of user/libs/ustring.c stops at the NUL and overwrites the last byte of the
  buffer when none came; with \<open>len = 0\<close> this is the byte before the buffer.\<close>

fun ustrncpy :: "mem \<Rightarrow> nat \<Rightarrow> nat \<Rightarrow> nat \<Rightarrow> mem" where
  "ustrncpy m p src 0 = m(p - 1 := 0)"
| "ustrncpy m p src (Suc len) =
     (let m' = m(p := m src) in if m src \<noteq> 0 then ustrncpy m' (p + 1) (src + 1) len else m')"

fun memset :: "mem \<Rightarrow> nat \<Rightarrow> byte \<Rightarrow> nat \<Rightarrow> mem" where
  "memset m p c 0 = m"
| "memset m p c (Suc n) = memset (m(p := c)) (p + 1) c n"

fun memcpy :: "mem \<Rightarrow> nat \<Rightarrow> nat \<Rightarrow> nat \<Rightarrow> mem" where
  "memcpy m d s 0 = m"
| "memcpy m d s (Suc n) = memcpy (m(d := m s)) (d + 1) (s + 1) n"

lemma memset_fills: "memset m p c n = (\<lambda>a. if p \<le> a \<and> a < p + n then c else m a)"
  by (induction n arbitrary: m p) (auto simp: fun_eq_iff)

lemma copied_step:
  assumes "dst \<le> src \<or> src + n < dst"
  shows "copied (m(dst := m src)) (dst + 1) (src + 1) n = copied m dst src (Suc n)"
proof
  fix a
  show "copied (m(dst := m src)) (dst + 1) (src + 1) n a = copied m dst src (Suc n) a"
  proof (cases "dst < a \<and> a < dst + Suc n")
    case True
    then have "src + 1 + (a - (dst + 1)) = src + (a - dst)" by arith
    moreover have "src + (a - dst) \<noteq> dst" using True assms by arith
    ultimately show ?thesis using True by (simp add: copied_def)
  next
    case False
    then show ?thesis by (auto simp: copied_def)
  qed
qed

lemma memcpy_copied: "dst \<le> src \<or> src + n \<le> dst \<Longrightarrow> memcpy m dst src n = copied m dst src n"
proof (induction n arbitrary: m dst src)
  case (Suc n)
  have "memcpy (m(dst := m src)) (dst + 1) (src + 1) n
      = copied (m(dst := m src)) (dst + 1) (src + 1) n"
    by (rule Suc.IH) (use Suc.prems in arith)
  also have "\<dots> = copied m dst src (Suc n)" by (rule copied_step) (use Suc.prems in arith)
  finally show ?case by simp
qed (auto simp: copied_def fun_eq_iff)

lemma strcpy_copied:
  "str_at m src cs \<Longrightarrow> dst \<le> src \<or> src + length cs < dst \<Longrightarrow>
   strcpy m dst src = Some (copied m dst src (Suc (length cs)))"
proof (induction cs arbitrary: m dst src)
  case Nil
  then show ?case by (auto simp: strcpy.simps copied_def fun_eq_iff)
next
  case (Cons c cs)
  let ?m = "m(dst := m src)"
  have "str_at ?m (src + 1) cs \<longleftrightarrow> str_at m (src + 1) cs"
    by (rule str_at_cong) (use Cons.prems(2) in auto)
  then have "str_at ?m (src + 1) cs" using Cons.prems(1) by simp
  moreover have "dst + 1 \<le> src + 1 \<or> src + 1 + length cs < dst + 1" using Cons.prems(2) by auto
  ultimately have "strcpy ?m (dst + 1) (src + 1)
      = Some (copied ?m (dst + 1) (src + 1) (Suc (length cs)))"
    by (rule Cons.IH)
  moreover have "copied ?m (dst + 1) (src + 1) (Suc (length cs))
      = copied m dst src (Suc (Suc (length cs)))"
    by (rule copied_step) (use Cons.prems in auto)
  ultimately show ?case using Cons.prems(1) by (subst strcpy.simps) (simp add: Let_def)
qed

lemma strncpy_pad_fills:
  "strncpy_pad m dst i n = (\<lambda>a. if dst + i \<le> a \<and> a < dst + i + n then 0 else m a)"
  by (induction n arbitrary: m i) (auto simp: fun_eq_iff)

lemma strncpy_copy_ok:
  "str_at m (src + i) cs \<Longrightarrow> src + i + length cs < dst \<or> dst + i + n \<le> src \<Longrightarrow>
   strncpy_copy m dst src i n = (\<lambda>a.
     if dst + i \<le> a \<and> a < dst + i + n then
       (if a - (dst + i) < length cs then cs ! (a - (dst + i)) else 0)
     else m a)"
proof (induction n arbitrary: m i cs)
  case (Suc n)
  show ?case
  proof (cases cs)
    case Nil
    then show ?thesis using Suc.prems(1) strncpy_pad_fills[of m dst i "Suc n"]
      by (auto simp: fun_eq_iff)
  next
    case (Cons c cs')
    let ?m = "m(dst + i := c)"
    have c: "m (src + i) = c" "c \<noteq> 0" using Suc.prems(1) Cons by auto
    have "str_at ?m (src + (i + 1)) cs' \<longleftrightarrow> str_at m (src + (i + 1)) cs'"
      by (rule str_at_cong) (use Suc.prems(2) Cons in auto)
    then have "str_at ?m (src + (i + 1)) cs'" using Suc.prems(1) Cons by simp
    then have IH: "strncpy_copy ?m dst src (i + 1) n = (\<lambda>a.
        if dst + (i + 1) \<le> a \<and> a < dst + (i + 1) + n then
          (if a - (dst + (i + 1)) < length cs' then cs' ! (a - (dst + (i + 1))) else 0)
        else ?m a)"
      by (rule Suc.IH) (use Suc.prems(2) Cons in auto)
    show ?thesis
    proof
      fix a
      consider "a = dst + i" | "dst + i < a" "a < dst + i + Suc n"
        | "a < dst + i" | "dst + i + Suc n \<le> a" by linarith
      then show "strncpy_copy m dst src i (Suc n) a =
        (if dst + i \<le> a \<and> a < dst + i + Suc n then
           (if a - (dst + i) < length cs then cs ! (a - (dst + i)) else 0) else m a)"
      proof cases
        case 2
        then obtain k where k: "a - (dst + i) = Suc k" "a - (dst + (i + 1)) = k"
          by (metis Suc_diff_Suc add.assoc diff_diff_left plus_1_eq_Suc add.commute)
        then show ?thesis using 2 c IH Cons by simp
      qed (use c IH Cons in simp_all)
    qed
  qed
qed (auto simp: fun_eq_iff)

lemma strncpy_ok:
  assumes "str_at m src cs" "src + length cs < dst \<or> dst + n \<le> src"
  shows "strncpy m dst src n = (\<lambda>a.
     if dst \<le> a \<and> a < dst + n then (if a - dst < length cs then cs ! (a - dst) else 0) else m a)"
  using strncpy_copy_ok[of m src 0 cs dst n] assms
  by (simp add: strncpy_def fun_eq_iff)

section \<open>Comparing\<close>

partial_function (option) strcmp :: "mem \<Rightarrow> nat \<Rightarrow> nat \<Rightarrow> int option" where
  "strcmp m s1 s2 =
     (if m s1 \<noteq> 0 \<and> m s1 = m s2 then strcmp m (s1 + 1) (s2 + 1)
      else Some (uint (m s1) - uint (m s2)))"

fun strncmp :: "mem \<Rightarrow> nat \<Rightarrow> nat \<Rightarrow> nat \<Rightarrow> int" where
  "strncmp m s1 s2 0 = 0"
| "strncmp m s1 s2 (Suc n) =
     (if m s1 \<noteq> 0 \<and> m s1 = m s2 then strncmp m (s1 + 1) (s2 + 1) n
      else uint (m s1) - uint (m s2))"

fun memcmp :: "mem \<Rightarrow> nat \<Rightarrow> nat \<Rightarrow> nat \<Rightarrow> int" where
  "memcmp m s1 s2 0 = 0"
| "memcmp m s1 s2 (Suc n) =
     (if m s1 \<noteq> m s2 then uint (m s1) - uint (m s2) else memcmp m (s1 + 1) (s2 + 1) n)"

text \<open>The difference that decides a comparison of two strings.\<close>

fun str_diff :: "byte list \<Rightarrow> byte list \<Rightarrow> int" where
  "str_diff [] [] = 0"
| "str_diff [] (d # ds) = - uint d"
| "str_diff (c # cs) [] = uint c"
| "str_diff (c # cs) (d # ds) = (if c = d then str_diff cs ds else uint c - uint d)"

lemma strcmp_str:
  "str_at m s1 cs \<Longrightarrow> str_at m s2 ds \<Longrightarrow> strcmp m s1 s2 = Some (str_diff cs ds)"
  by (induction cs ds arbitrary: s1 s2 rule: str_diff.induct) (auto simp: strcmp.simps)

lemma strncmp_str:
  "str_at m s1 cs \<Longrightarrow> str_at m s2 ds \<Longrightarrow> strncmp m s1 s2 n = str_diff (take n cs) (take n ds)"
proof (induction cs ds arbitrary: s1 s2 n rule: str_diff.induct)
  case 1 then show ?case by (cases n) auto
next
  case 2 then show ?case by (cases n) auto
next
  case 3 then show ?case by (cases n) auto
next
  case 4 then show ?case by (cases n) auto
qed

lemma uint_pos: "(c::'a::len word) \<noteq> 0 \<Longrightarrow> 0 < uint c"
  by (metis uint_0_iff uint_ge_0 order_le_less)

lemma str_diff_eq_0:
  "0 \<notin> set cs \<Longrightarrow> 0 \<notin> set ds \<Longrightarrow> str_diff cs ds = 0 \<longleftrightarrow> cs = ds"
  by (induction cs ds rule: str_diff.induct) (auto dest: uint_pos simp: word_uint_eq_iff)

lemma str_diff_less_0:
  "0 \<notin> set cs \<Longrightarrow> 0 \<notin> set ds \<Longrightarrow> str_diff cs ds < 0 \<longleftrightarrow> ord_class.lexordp cs ds"
  by (induction cs ds rule: str_diff.induct) 
    (auto simp: word_less_def not_less le_less word_uint_eq_iff[symmetric] dest: uint_pos)

lemma memcmp_eq_0: "memcmp m s1 s2 n = 0 \<longleftrightarrow> (\<forall>i < n. m (s1 + i) = m (s2 + i))"
proof (induction n arbitrary: s1 s2)
  case (Suc n)
  have "(\<forall>i < Suc n. m (s1 + i) = m (s2 + i)) \<longleftrightarrow>
    m s1 = m s2 \<and> (\<forall>i < n. m (s1 + 1 + i) = m (s2 + 1 + i))"
    by (simp add: All_less_Suc2)
  then show ?case using Suc[of "s1 + 1" "s2 + 1"] by (simp add: word_uint_eq_iff)
qed simp

section \<open>What the string library promises\<close>

text \<open>\<open>strncpy\<close> fills exactly the \<open>n\<close> bytes of the destination: the string, cut to \<open>n\<close> bytes, then
  NULs; no byte outside the buffer changes. The buffer may lie anywhere that does not overlap the string.\<close>

theorem strncpy_fills_buffer:
  assumes "str_at m src cs" "src + length cs < dst \<or> dst + n \<le> src"
  shows "(\<forall>i < n. strncpy m dst src n (dst + i) = (if i < length cs then cs ! i else 0)) \<and>
    (\<forall>a. a < dst \<or> dst + n \<le> a \<longrightarrow> strncpy m dst src n a = m a) \<and>
    (length cs < n \<longrightarrow> str_at (strncpy m dst src n) dst cs)"
proof -
  have "str_at (strncpy m dst src n) dst cs" if n: "length cs < n"
  proof -
    have "strncpy m dst src n = (\<lambda>a. if dst \<le> a \<and> a < dst + n \<and> \<not> a < dst + Suc (length cs) then 0
        else copied m dst src (Suc (length cs)) a)"
      unfolding strncpy_ok[OF assms] using n str_at_nth[OF assms(1)] str_at_end[OF assms(1)]
      by (auto simp: fun_eq_iff copied_def less_Suc_eq diff_add_assoc[symmetric] simp del: add_diff_assoc)
    moreover have "str_at (copied m dst src (Suc (length cs))) dst cs" by (rule str_at_copied[OF assms(1)])
    ultimately show ?thesis by (elim str_at_cong[THEN iffD2, rotated]) auto
  qed
  then show ?thesis unfolding strncpy_ok[OF assms] by auto
qed

definition abc_mem :: mem where
  "abc_mem = (\<lambda>a. 0)(10 := 97, 11 := 98, 12 := 99)"

lemma abc_mem: "str_at abc_mem 10 [97, 98, 99]" "str_at abc_mem 20 []"
  by (simp_all add: abc_mem_def)

lemma strncpy_fills_buffer_witness:
  "str_at (strncpy abc_mem 20 10 8) 20 [97, 98, 99]"
  using strncpy_fills_buffer[OF abc_mem(1), of 20 8] by simp

text \<open>C31. \<open>strcmp\<close> on two strings returns, and its result is 0 exactly when they are equal and
  negative exactly when the first comes before the second in the order of their bytes.\<close>

theorem strcmp_orders_strings:
  assumes "str_at m s1 cs" "str_at m s2 ds"
  shows "\<exists>r. strcmp m s1 s2 = Some r \<and> (r = 0 \<longleftrightarrow> cs = ds) \<and> (r < 0 \<longleftrightarrow> ord_class.lexordp cs ds)"
proof -
  have "0 \<notin> set cs" "0 \<notin> set ds" using assms str_at_nth by (metis in_set_conv_nth)+
  then show ?thesis using strcmp_str[OF assms] str_diff_eq_0 str_diff_less_0 by blast
qed

lemma strcmp_orders_strings_witness: "\<exists>r. strcmp abc_mem 20 10 = Some r \<and> r < 0"
  using strcmp_orders_strings[OF abc_mem(2,1)] by auto

text \<open>\<open>strlen\<close> returns exactly when there is a NUL at or after the pointer, and then it returns
  the number of bytes before it: on bytes without one it reads on for ever.\<close>

theorem strlen_terminates_iff_string:
  "((\<exists>n. strlen m s = Some n) \<longleftrightarrow> (\<exists>n. m (s + n) = 0)) \<and>
   (strlen m s = Some n \<longleftrightarrow> m (s + n) = 0 \<and> (\<forall>i < n. m (s + i) \<noteq> 0))"
proof -
  have ex: "\<exists>cs. str_at m s cs \<and> length cs = n" if "m (s + n) = 0" "\<forall>i < n. m (s + i) \<noteq> 0" for n
    using that
  proof (induction n arbitrary: s)
    case 0 then show ?case by (intro exI[of _ "[]"]) simp
  next
    case (Suc n)
    have "\<exists>cs. str_at m (s + 1) cs \<and> length cs = n"
      by (rule Suc.IH) (use Suc.prems in \<open>auto simp: add.commute add.left_commute\<close>)
    then obtain cs where "str_at m (s + 1) cs" "length cs = n" by blast
    then show ?case using Suc.prems(2) by (intro exI[of _ "m s # cs"]) auto
  qed
  have two: "strlen m s = Some n \<longleftrightarrow> m (s + n) = 0 \<and> (\<forall>i < n. m (s + i) \<noteq> 0)" for n
  proof
    assume n: "strlen m s = Some n"
    then obtain cs where cs: "str_at m s cs" using strlen_returns_iff by blast
    then have "n = length cs" using strlen_str[OF cs] n by simp
    then show "m (s + n) = 0 \<and> (\<forall>i < n. m (s + i) \<noteq> 0)" using str_at_nth[OF cs] str_at_end[OF cs] by auto
  next
    assume "m (s + n) = 0 \<and> (\<forall>i < n. m (s + i) \<noteq> 0)"
    then show "strlen m s = Some n" using ex strlen_str by blast
  qed
  moreover have "(\<exists>n. strlen m s = Some n) \<longleftrightarrow> (\<exists>n. m (s + n) = 0)"
  proof
    assume "\<exists>n. m (s + n) = 0"
    then have "m (s + (LEAST n. m (s + n) = 0)) = 0" "\<forall>i < (LEAST n. m (s + n) = 0). m (s + i) \<noteq> 0"
      by (auto intro: LeastI_ex dest: not_less_Least)
    then show "\<exists>n. strlen m s = Some n" using two by blast
  qed (use two in blast)
  ultimately show ?thesis by blast
qed

lemma strlen_terminates_iff_string_witness: "strlen abc_mem 10 = Some 3"
proof -
  have "\<forall>i < (3::nat). abc_mem (10 + i) \<noteq> 0" by (auto simp: abc_mem_def)
  moreover have "abc_mem (10 + 3) = 0" by (simp add: abc_mem_def)
  ultimately show ?thesis using strlen_terminates_iff_string[of abc_mem 10 3] by blast
qed

end
