(* ===== verification/Buddy.thy ===== *)
theory Buddy
  imports Kstring
begin

text \<open>
  The buddy system of kernel/mm/phys.c, the allocator of physical pages. The state has the page
  records and the eleven free lists of the source; a free list holds the addresses of its
  blocks, front first. The list nodes themselves lie in the free pages
  (theory \<open>Kernel_List\<close>), so an address stands for its node. An index outside
  \<open>physical_page_record\<close> or \<open>orderarray\<close> is \<open>None\<close>.
\<close>

section \<open>State and operations\<close>

record phys_page_record_t =
  rec_order :: nat
  rec_count :: u16

record buddy =
  mem_start :: nat
  mem_end :: nat
  physical_page_record :: "phys_page_record_t list"
  orderarray :: "nat list list"

definition addr2arrayindex :: "buddy \<Rightarrow> nat \<Rightarrow> nat option" where
  "addr2arrayindex s a =
     (if a < mem_start s then None else Some ((a - mem_start s) div PGSIZE))"

definition orderarray_add_front :: "nat \<Rightarrow> nat \<Rightarrow> buddy \<Rightarrow> buddy option" where
  "orderarray_add_front a k s = do {
     l \<leftarrow> nth_opt (orderarray s) k;
     Some (s\<lparr>orderarray := (orderarray s)[k := a # l]\<rparr>) }"

text \<open>\<open>list_del\<close> unlinks a block from the list that holds it; on an address that is on no list
  it would follow the bytes of a page as pointers.\<close>

definition orderarray_del :: "nat \<Rightarrow> buddy \<Rightarrow> buddy option" where
  "orderarray_del a s = do {
     cassert (\<exists>l\<in>set (orderarray s). a \<in> set l);
     Some (s\<lparr>orderarray := map (removeAll a) (orderarray s)\<rparr>) }"

definition orderarray_next_then_del :: "nat \<Rightarrow> buddy \<Rightarrow> (nat \<times> buddy) option" where
  "orderarray_next_then_del k s = do {
     l \<leftarrow> nth_opt (orderarray s) k;
     case l of [] \<Rightarrow> None
     | a # r \<Rightarrow> Some (a, s\<lparr>orderarray := (orderarray s)[k := r]\<rparr>) }"

definition record_update :: "nat \<Rightarrow> (phys_page_record_t \<Rightarrow> phys_page_record_t) \<Rightarrow> buddy \<Rightarrow> buddy" where
  "record_update i f s =
     s\<lparr>physical_page_record := (physical_page_record s)[i := f (physical_page_record s ! i)]\<rparr>"

text \<open>The \<open>while\<close> loop of \<open>mount_orderlist\<close>, which returns the new \<open>current\<close>, and the
  recursion over the orders.\<close>

function mount_loop :: "nat \<Rightarrow> nat \<Rightarrow> buddy \<Rightarrow> (nat \<times> buddy) option" where
  "mount_loop current k s =
     (if current + 2 ^ k * PGSIZE \<le> mem_end s then do {
        s' \<leftarrow> orderarray_add_front current k s;
        mount_loop (current + 2 ^ k * PGSIZE) k s' }
      else Some (current, s))"
  by auto
termination
proof (relation "measure (\<lambda>(current, k, s). mem_end s - current)")
  fix current k :: nat and s s' :: buddy
  assume "current + 2 ^ k * PGSIZE \<le> mem_end s" "orderarray_add_front current k s = Some s'"
  then have "mem_end s' = mem_end s"
    by (auto simp: orderarray_add_front_def nth_opt_def split: if_splits)
  moreover have "current < current + 2 ^ k * PGSIZE" by simp
  ultimately have "mem_end s' = mem_end s" "current < mem_end s"
    "current < current + 2 ^ k * PGSIZE"
    using \<open>current + 2 ^ k * PGSIZE \<le> mem_end s\<close> by linarith+
  then show "((current + 2 ^ k * PGSIZE, k, s'), (current, k, s))
      \<in> measure (\<lambda>(current, k, s). mem_end s - current)"
    by (simp add: diff_less_mono2)
qed simp

fun mount_orderlist :: "nat \<Rightarrow> nat \<Rightarrow> buddy \<Rightarrow> buddy option" where
  "mount_orderlist current k s = do {
     (current', s') \<leftarrow> mount_loop current k s;
     if k \<noteq> 0 \<and> current' \<noteq> mem_end s' then mount_orderlist current' (k - 1) s' else Some s' }"

definition buddy_system_init :: "nat \<Rightarrow> nat \<Rightarrow> nat \<Rightarrow> buddy option" where
  "buddy_system_init npages start fin = do {
     let s = \<lparr>mem_start = start, mem_end = fin,
              physical_page_record = replicate npages \<lparr>rec_order = 0, rec_count = 0\<rparr>,
              orderarray = replicate 11 []\<rparr>;
     s' \<leftarrow> mount_orderlist (mem_start s) 10 s;
     Some (s'\<lparr>physical_page_record :=
                map (\<lambda>_. \<lparr>rec_order = 0, rec_count = 0\<rparr>) (physical_page_record s')\<rparr>) }"

function get_power2_from :: "nat \<Rightarrow> nat \<Rightarrow> nat option" where
  "get_power2_from i n =
     (if i \<le> 1024 then (if n \<le> 2 ^ i then Some i else get_power2_from (i + 1) n) else None)"
  by auto
termination by (relation "measure (\<lambda>(i, n). 1025 - i)") auto

definition get_power2 :: "nat \<Rightarrow> nat option" where
  "get_power2 n = get_power2_from 0 n"

function split_pages :: "nat \<Rightarrow> nat \<Rightarrow> nat \<Rightarrow> buddy \<Rightarrow> (nat \<times> buddy) option" where
  "split_pages list this_order target_order s =
     (if this_order \<noteq> target_order then do {
        cassert (0 < this_order);
        let this' = this_order - 1;
        let right_half = list + 2 ^ this' * PGSIZE;
        s1 \<leftarrow> orderarray_add_front right_half this' s;
        right_index \<leftarrow> addr2arrayindex s1 right_half;
        r \<leftarrow> nth_opt (physical_page_record s1) right_index;
        cassert (rec_count r = 0);
        let s2 = record_update right_index (rec_order_update (\<lambda>_. this')) s1;
        split_pages list this' target_order s2 }
      else Some (list, s))"
  by auto
termination by (relation "measure (\<lambda>(list, this, target, s). this)") auto

definition do_record :: "nat \<Rightarrow> nat \<Rightarrow> buddy \<Rightarrow> buddy option" where
  "do_record ptr k s = do {
     index \<leftarrow> addr2arrayindex s ptr;
     r \<leftarrow> nth_opt (physical_page_record s) index;
     cassert (rec_count r = 0);
     Some (record_update index
             (\<lambda>r. r\<lparr>rec_count := rec_count r + 1, rec_order := k\<rparr>) s) }"

text \<open>\<open>i = order; while (++i < 11) if (!list_empty(&orderarray[i])) break;\<close>\<close>

function next_order :: "nat \<Rightarrow> buddy \<Rightarrow> nat" where
  "next_order i s =
     (if i + 1 < 11 then
        (if orderarray s ! (i + 1) \<noteq> [] then i + 1 else next_order (i + 1) s)
      else i + 1)"
  by auto
termination by (relation "measure (\<lambda>(i, s). 11 - i)") auto

definition pages_alloc :: "nat \<Rightarrow> buddy \<Rightarrow> (nat \<times> buddy) option" where
  "pages_alloc npages s = do {
     cassert (npages > 0 \<and> npages \<le> 2 ^ 10);
     k \<leftarrow> get_power2 npages;
     l \<leftarrow> nth_opt (orderarray s) k;
     (ptr, s') \<leftarrow>
       (if l \<noteq> [] then do {
          (p, s1) \<leftarrow> orderarray_next_then_del k s;
          s2 \<leftarrow> do_record p k s1;
          Some (p, s2) }
        else do {
          let i = next_order k s;
          if i = 11 then Some (0, s)
          else do {
            cassert (i > k \<and> i < 11);
            (b, s1) \<leftarrow> orderarray_next_then_del i s;
            (p, s2) \<leftarrow> split_pages b i k s1;
            s3 \<leftarrow> do_record p k s2;
            Some (p, s3) } });
     cassert (ptr mod PGSIZE = 0);
     cassert (ptr \<noteq> 0);
     Some (ptr, s') }"

definition pages_zalloc :: "nat \<Rightarrow> mem \<Rightarrow> buddy \<Rightarrow> (nat \<times> mem \<times> buddy) option" where
  "pages_zalloc npages m s = do {
     (ptr, s') \<leftarrow> pages_alloc npages s;
     Some (ptr, if ptr \<noteq> 0 then memset m ptr 0 PGSIZE else m, s') }"

definition pages_dup :: "nat \<Rightarrow> buddy \<Rightarrow> (nat \<times> buddy) option" where
  "pages_dup ptr s = do {
     index \<leftarrow> addr2arrayindex s ptr;
     r \<leftarrow> nth_opt (physical_page_record s) index;
     cassert (rec_count r \<ge> 1);
     Some (ptr, record_update index (\<lambda>r. r\<lparr>rec_count := rec_count r + 1\<rparr>) s) }"

definition pages_undup :: "nat \<Rightarrow> buddy \<Rightarrow> (int \<times> buddy) option" where
  "pages_undup ptr s = do {
     index \<leftarrow> addr2arrayindex s ptr;
     r \<leftarrow> nth_opt (physical_page_record s) index;
     cassert (rec_count r \<ge> 1);
     let ret = uint (rec_count r);
     Some (ret, if ret > 1 then record_update index (\<lambda>r. r\<lparr>rec_count := rec_count r - 1\<rparr>) s
                else s) }"

definition whois_buddy :: "nat \<Rightarrow> nat \<Rightarrow> buddy \<Rightarrow> nat option" where
  "whois_buddy ptr k s =
     (let page = drop_bit PGSHIFT (ptr - mem_start s)
      in if page AND (2 ^ (k + 1) - 1) = 0 then Some (ptr + 2 ^ k * PGSIZE)
         else if page AND (2 ^ (k + 1) - 1) = 2 ^ k then Some (ptr - 2 ^ k * PGSIZE)
         else None)"

text \<open>The merge loop of \<open>pages_free\<close>. A round either moves the block down to its buddy on the
  left, or doubles it towards the right, where its buddy must have a page record.\<close>

function merge_pages :: "nat \<Rightarrow> nat \<Rightarrow> buddy \<Rightarrow> buddy option" where
  "merge_pages ptr k s = do {
     buddyptr \<leftarrow> whois_buddy ptr k s;
     buddyindex \<leftarrow> addr2arrayindex s buddyptr;
     r \<leftarrow> nth_opt (physical_page_record s) buddyindex;
     if rec_count r = 0 \<and> rec_order r = k
     then do { s' \<leftarrow> orderarray_del buddyptr s; merge_pages (min ptr buddyptr) (k + 1) s' }
     else orderarray_add_front ptr k s }"
  by auto
termination
proof (relation "measures [\<lambda>(ptr, k, s). ptr,
    \<lambda>(ptr, k, s). Suc (length (physical_page_record s) + mem_start s) - k]")
  fix ptr k :: nat and s b i r s'
  assume del: "orderarray_del b s = Some s'" and wb: "whois_buddy ptr k s = Some b" and ix: "addr2arrayindex s b = Some i"
    and nth: "nth_opt (physical_page_record s) i = Some r"
  have same: "physical_page_record s' = physical_page_record s" "mem_start s' = mem_start s"
    using del by (auto simp: orderarray_del_def)
  consider "b = ptr + 2 ^ k * PGSIZE" | "b = ptr - 2 ^ k * PGSIZE" "0 < ptr"
    using wb by (cases "ptr = 0") (auto simp: whois_buddy_def Let_def split: if_splits)
  then show "((min ptr b, k + 1, s'), (ptr, k, s))
      \<in> measures [\<lambda>(ptr, k, s). ptr,
          \<lambda>(ptr, k, s). Suc (length (physical_page_record s) + mem_start s) - k]"
  proof cases
    case 1
    have "mem_start s \<le> b" "(b - mem_start s) div PGSIZE < length (physical_page_record s)"
      using ix nth by (auto simp: addr2arrayindex_def split: if_splits)
    then have "b < mem_start s + PGSIZE * (length (physical_page_record s))" by linarith
    then have "2 ^ k < mem_start s + length (physical_page_record s)" using 1 by linarith
    then have "k < length (physical_page_record s) + mem_start s"
      using less_exp[of k] by linarith
    then show ?thesis using 1 same by (simp add: min_def)
  next
    case 2
    then have "b < ptr" by simp
    then show ?thesis by (simp add: min_def)
  qed
qed simp

definition pages_free :: "nat \<Rightarrow> buddy \<Rightarrow> buddy option" where
  "pages_free ptr s = do {
     cassert (ptr \<noteq> 0);
     cassert (ptr mod PGSIZE = 0);
     index \<leftarrow> addr2arrayindex s ptr;
     r \<leftarrow> nth_opt (physical_page_record s) index;
     cassert (rec_count r > 0);
     let s' = record_update index (\<lambda>r. r\<lparr>rec_count := rec_count r - 1\<rparr>) s;
     if rec_count r - 1 = 0 then merge_pages ptr (rec_order r) s' else Some s' }"

declare mount_loop.simps [simp del] mount_orderlist.simps [simp del]
  get_power2_from.simps [simp del] split_pages.simps [simp del] next_order.simps [simp del]
  merge_pages.simps [simp del]

section \<open>Blocks and tilings\<close>

text \<open>A block \<open>(i, k)\<close> is the \<open>2 ^ k\<close> pages from page \<open>i\<close> on. The blocks of the allocator, free
  and used, tile the memory.\<close>

type_synonym block = "nat \<times> nat"

definition pages :: "block \<Rightarrow> nat set" where
  "pages b = {fst b ..< fst b + 2 ^ snd b}"

definition tiling :: "nat \<Rightarrow> block set \<Rightarrow> bool" where
  "tiling n B \<longleftrightarrow> (\<forall>b\<in>B. 2 ^ snd b dvd fst b) \<and>
     (\<forall>b\<in>B. \<forall>c\<in>B. b \<noteq> c \<longrightarrow> pages b \<inter> pages c = {}) \<and> (\<Union>b\<in>B. pages b) = {..<n}"

lemma in_pages [simp]: "p \<in> pages (i, k) \<longleftrightarrow> i \<le> p \<and> p < i + 2 ^ k"
  by (simp add: pages_def)

lemma tiling_aligned: "tiling n B \<Longrightarrow> (i, k) \<in> B \<Longrightarrow> 2 ^ k dvd i"
  by (force simp: tiling_def)

lemma tiling_in: "tiling n B \<Longrightarrow> b \<in> B \<Longrightarrow> pages b \<subseteq> {..<n}"
  by (auto simp: tiling_def)

lemma tiling_fits:
  assumes "tiling n B" "(i, k) \<in> B"
  shows "i + 2 ^ k \<le> n" "i < n"
proof -
  have "(1::nat) \<le> 2 ^ k" by simp
  then have "i + 2 ^ k - 1 \<in> pages (i, k)" unfolding in_pages by arith
  then have "i + 2 ^ k - 1 < n" using tiling_in[OF assms] by blast
  moreover have "0 < (2::nat) ^ k" by simp
  ultimately show "i + 2 ^ k \<le> n" "i < n" by linarith+
qed

lemma tiling_unique:
  "tiling n B \<Longrightarrow> b \<in> B \<Longrightarrow> c \<in> B \<Longrightarrow> p \<in> pages b \<Longrightarrow> p \<in> pages c \<Longrightarrow> b = c"
  unfolding tiling_def by blast

lemma tiling_head_unique:
  assumes "tiling n B" "(i, k) \<in> B" "(i, l) \<in> B"
  shows "k = l"
  using tiling_unique[OF assms(1) assms(2,3), of i] by simp

lemma tiling_covers: "tiling n B \<Longrightarrow> p < n \<Longrightarrow> \<exists>b\<in>B. p \<in> pages b"
  unfolding tiling_def by blast

lemma pages_halves: "pages (i, Suc k) = pages (i, k) \<union> pages (i + 2 ^ k, k)"
  by (auto simp: pages_def)

lemma pages_nonempty: "fst b \<in> pages b"
  by (simp add: pages_def)

lemma tiling_replace:
  assumes t: "tiling n (X \<union> B)" and new: "X \<inter> B = {}"
    and al: "\<And>b. b \<in> Y \<Longrightarrow> 2 ^ snd b dvd fst b"
    and dj: "\<And>b c. b \<in> Y \<Longrightarrow> c \<in> Y \<Longrightarrow> b \<noteq> c \<Longrightarrow> pages b \<inter> pages c = {}"
    and same: "(\<Union>b\<in>Y. pages b) = (\<Union>b\<in>X. pages b)"
  shows "tiling n (Y \<union> B)"
proof -
  have tal: "2 ^ snd b dvd fst b" if "b \<in> X \<union> B" for b
    using t that by (simp only: tiling_def)
  have tdj: "pages b \<inter> pages c = {}" if "b \<in> X \<union> B" "c \<in> X \<union> B" "b \<noteq> c" for b c
  proof -
    have "\<forall>b\<in>X \<union> B. \<forall>c\<in>X \<union> B. b \<noteq> c \<longrightarrow> pages b \<inter> pages c = {}"
      using t unfolding tiling_def by (elim conjE)
    then show ?thesis using that by (meson bspec)
  qed
  have tcov: "(\<Union>b\<in>X \<union> B. pages b) = {..<n}"
    using t by (simp only: tiling_def)
  have out: "pages b \<inter> pages c = {}" if b: "b \<in> B" and c: "c \<in> Y" for b c
  proof -
    have "pages b \<inter> pages x = {}" if "x \<in> X" for x
      using tdj[of b x] new b that by blast
    then have "pages b \<inter> (\<Union>x\<in>X. pages x) = {}" by blast
    moreover have "pages c \<subseteq> (\<Union>x\<in>X. pages x)" unfolding same[symmetric] using c by blast
    ultimately show ?thesis by blast
  qed
  have "pages b \<inter> pages c = {}" if "b \<in> Y \<union> B" "c \<in> Y \<union> B" "b \<noteq> c" for b c
    using that(1)
  proof
    assume b: "b \<in> Y"
    show ?thesis using that(2)
    proof
      assume "c \<in> Y" then show ?thesis using dj[OF b] that(3) by simp
    next
      assume "c \<in> B" then show ?thesis using out[of c b] b by (simp add: Int_commute)
    qed
  next
    assume b: "b \<in> B"
    show ?thesis using that(2)
    proof
      assume "c \<in> Y" then show ?thesis using out[OF b] by simp
    next
      assume "c \<in> B" then show ?thesis using tdj[of b c] b that(3) by simp
    qed
  qed
  moreover have "2 ^ snd b dvd fst b" if "b \<in> Y \<union> B" for b
    using that al[of b] tal[of b] by (elim UnE) simp_all
  moreover have "(\<Union>b\<in>Y \<union> B. pages b) = {..<n}"
    using tcov same by (simp only: UN_Un)
  ultimately show ?thesis by (simp only: tiling_def) simp
qed

lemma tiling_split:
  assumes t: "tiling n (insert (i, Suc k) B)" and new: "(i, Suc k) \<notin> B"
  shows "tiling n (insert (i, k) (insert (i + 2 ^ k, k) B))"
proof -
  have "2 ^ Suc k dvd i" by (rule tiling_aligned[OF t]) simp
  then have al: "2 ^ k dvd i" by (rule dvd_trans[rotated]) (simp add: dvd_def)
  have "tiling n ({(i, k), (i + 2 ^ k, k)} \<union> B)"
  proof (rule tiling_replace)
    show "tiling n ({(i, Suc k)} \<union> B)" using t by simp
    show "{(i, Suc k)} \<inter> B = {}" using new by simp
    show "(\<Union>b\<in>{(i, k), (i + 2 ^ k, k)}. pages b) = (\<Union>b\<in>{(i, Suc k)}. pages b)"
      by (simp add: pages_halves)
  next
    fix b c assume "b \<in> {(i, k), (i + 2 ^ k, k)}" "c \<in> {(i, k), (i + 2 ^ k, k)}" "b \<noteq> c"
    then show "pages b \<inter> pages c = {}" by auto
  qed (use al in auto)
  then show ?thesis by simp
qed

lemma tiling_merge:
  assumes t: "tiling n (insert (i, k) (insert (i + 2 ^ k, k) B))" and al: "2 ^ Suc k dvd i"
    and new: "(i, k) \<notin> B" "(i + 2 ^ k, k) \<notin> B"
  shows "tiling n (insert (i, Suc k) B)"
proof -
  have "tiling n ({(i, Suc k)} \<union> B)"
  proof (rule tiling_replace)
    show "tiling n ({(i, k), (i + 2 ^ k, k)} \<union> B)" using t by simp
    show "{(i, k), (i + 2 ^ k, k)} \<inter> B = {}" using new by simp
    show "(\<Union>b\<in>{(i, Suc k)}. pages b) = (\<Union>b\<in>{(i, k), (i + 2 ^ k, k)}. pages b)"
      by (simp add: pages_halves)
  qed (use al in auto)
  then show ?thesis by simp
qed

lemma tiling_aligned_overlap:
  assumes t: "tiling n B" and c: "(c, j) \<in> B" and b: "2 ^ k dvd b" "b \<in> pages (c, j)" "j \<le> k"
  shows "c = b"
proof -
  have "2 ^ j dvd c" by (rule tiling_aligned[OF t c])
  moreover have "2 ^ j dvd b" using b(1,3) by (meson dvd_trans le_imp_power_dvd)
  ultimately have "2 ^ j dvd b - c" by (rule dvd_diff_nat[rotated])
  moreover have "b - c < 2 ^ j" using b(2) by auto
  ultimately have "b - c = 0" using nat_dvd_not_less by blast
  then show ?thesis using b(2) by simp
qed

text \<open>The buddy of block \<open>(i, k)\<close> is the other half of the block of order \<open>k + 1\<close> around it. A
  tile that contains the first page of the buddy starts there and is no larger.\<close>

definition buddy_of :: "nat \<Rightarrow> nat \<Rightarrow> nat" where
  "buddy_of i k = (if 2 ^ Suc k dvd i then i + 2 ^ k else i - 2 ^ k)"

lemma buddy_of_aligned:
  assumes "2 ^ k dvd i"
  shows "2 ^ k dvd buddy_of i k"
    and "\<not> 2 ^ Suc k dvd i \<Longrightarrow> 2 ^ k \<le> i"
    and "2 ^ Suc k dvd min i (buddy_of i k)"
    and "{i, buddy_of i k} = {min i (buddy_of i k), min i (buddy_of i k) + 2 ^ k}"
proof -
  obtain m where m: "i = 2 ^ k * m" using assms by blast
  have al: "2 ^ Suc k dvd i \<longleftrightarrow> even m" unfolding m by simp
  show "2 ^ k dvd buddy_of i k" using m by (auto simp: buddy_of_def intro: dvd_diff_nat)
  show le: "2 ^ k \<le> i" if "\<not> 2 ^ Suc k dvd i" using that al m by (cases m) auto
  have min: "min i (buddy_of i k) = (if even m then i else i - 2 ^ k)"
    using al by (auto simp: buddy_of_def)
  show "2 ^ Suc k dvd min i (buddy_of i k)"
  proof (cases "even m")
    case True then show ?thesis using min al by simp
  next
    case False
    then obtain l where "m = 2 * l + 1" by (elim oddE)
    then have "i - 2 ^ k = 2 ^ Suc k * l" unfolding m by (simp add: algebra_simps)
    then show ?thesis using min False by simp
  qed
  show "{i, buddy_of i k} = {min i (buddy_of i k), min i (buddy_of i k) + 2 ^ k}"
    unfolding min using le al by (auto simp: buddy_of_def)
qed

lemma tiling_buddy:
  assumes t: "tiling n B" and i: "(i, k) \<in> B" and n: "buddy_of i k < n"
  shows "\<exists>j\<le>k. (buddy_of i k, j) \<in> B"
proof -
  let ?b = "buddy_of i k"
  have al: "2 ^ k dvd i" by (rule tiling_aligned[OF t i])
  obtain c j where c: "(c, j) \<in> B" "?b \<in> pages (c, j)"
    using tiling_covers[OF t n] by force
  show ?thesis
  proof (cases "j \<le> k")
    case True
    then have "c = ?b" by (rule tiling_aligned_overlap[OF t c(1) buddy_of_aligned(1)[OF al] c(2)])
    then show ?thesis using c(1) True by blast
  next
    case False
    let ?m = "min i ?b"
    have "2 ^ Suc k dvd (2::nat) ^ j" using False by (intro le_imp_power_dvd) simp
    moreover have "2 ^ j dvd c" by (rule tiling_aligned[OF t c(1)])
    ultimately have dc: "2 ^ Suc k dvd c" by (rule dvd_trans)
    obtain u v where u: "c = 2 ^ Suc k * u" and v: "?m = 2 ^ Suc k * v"
      using dc buddy_of_aligned(3)[OF al] by blast
    have pj: "(2::nat) ^ Suc k \<le> 2 ^ j" using False by (intro power_increasing) simp_all
    obtain w where w: "c + 2 ^ j = 2 ^ Suc k * w"
      using dc \<open>2 ^ Suc k dvd 2 ^ j\<close> by (meson dvd_add dvd_def)
    have mb: "?m \<le> ?b \<and> ?b < ?m + 2 ^ Suc k \<and> ?m \<le> i \<and> i < ?m + 2 ^ Suc k"
    proof (cases "2 ^ Suc k dvd i")
      case True
      then have "?b = i + 2 ^ k" by (simp add: buddy_of_def)
      then show ?thesis by simp
    next
      case False
      then have b: "?b = i - 2 ^ k" by (simp add: buddy_of_def)
      have "2 ^ k \<le> i" by (rule buddy_of_aligned(2)[OF al False])
      then obtain r where "i = r + 2 ^ k" by (metis le_add_diff_inverse2)
      then show ?thesis unfolding b by simp
    qed
    have "u \<le> v"
    proof (rule ccontr)
      assume "\<not> u \<le> v"
      then have "2 ^ Suc k * Suc v \<le> 2 ^ Suc k * u" by (intro mult_le_mono2) simp
      then show False using mb c(2) u v by simp
    qed
    then have "c \<le> ?m" unfolding u v by (rule mult_le_mono2)
    moreover have "v < w"
    proof (rule ccontr)
      assume "\<not> v < w"
      then have "2 ^ Suc k * w \<le> 2 ^ Suc k * v" by (intro mult_le_mono2) simp
      then have "c + 2 ^ j \<le> ?m" by (simp only: w v)
      moreover have "?b < c + 2 ^ j" using c(2) by simp
      ultimately show False using mb by linarith
    qed
    then have "2 ^ Suc k * Suc v \<le> 2 ^ Suc k * w" by (intro mult_le_mono2) simp
    then have "?m + 2 ^ Suc k \<le> c + 2 ^ j" using v w by simp
    ultimately have "i \<in> pages (c, j)" using mb by simp
    then have "(i, k) = (c, j)" using tiling_unique[OF t i c(1), of i] by simp
    then show ?thesis using False by simp
  qed
qed

section \<open>The invariant of the allocator\<close>

abbreviation npages :: "buddy \<Rightarrow> nat" where
  "npages s \<equiv> length (physical_page_record s)"

definition page_addr :: "buddy \<Rightarrow> nat \<Rightarrow> nat" where
  "page_addr s i = mem_start s + PGSIZE * i"

definition free_blocks :: "buddy \<Rightarrow> block set" where
  "free_blocks s = {(i, k). k < 11 \<and> page_addr s i \<in> set (orderarray s ! k)}"

definition used_blocks :: "buddy \<Rightarrow> block set" where
  "used_blocks s = {(i, k). i < npages s \<and> rec_count (physical_page_record s ! i) \<noteq> 0 \<and>
     k = rec_order (physical_page_record s ! i)}"

definition geometry :: "buddy \<Rightarrow> bool" where
  "geometry s \<longleftrightarrow> 0 < mem_start s \<and> PGSIZE dvd mem_start s \<and>
     mem_end s = mem_start s + PGSIZE * npages s \<and> length (orderarray s) = 11"

definition lists_ok :: "buddy \<Rightarrow> bool" where
  "lists_ok s \<longleftrightarrow> (\<forall>k < 11. distinct (orderarray s ! k) \<and>
     (\<forall>a\<in>set (orderarray s ! k). \<exists>i < npages s. a = page_addr s i))"

text \<open>\<open>H\<close> are the blocks an operation holds in its hands: neither on a list nor recorded as
  used.\<close>

definition buddy_held :: "block set \<Rightarrow> buddy \<Rightarrow> bool" where
  "buddy_held H s \<longleftrightarrow> geometry s \<and> lists_ok s \<and> H \<inter> free_blocks s = {} \<and>
     tiling (npages s) (H \<union> (free_blocks s \<union> used_blocks s)) \<and>
     (\<forall>(i, k)\<in>H \<union> free_blocks s. rec_count (physical_page_record s ! i) = 0) \<and>
     (\<forall>(i, k)\<in>free_blocks s. rec_order (physical_page_record s ! i) \<le> k) \<and>
     (\<forall>(i, k)\<in>used_blocks s. k \<le> 10)"

definition buddy_inv :: "buddy \<Rightarrow> bool" where
  "buddy_inv s \<longleftrightarrow> buddy_held {} s"

lemma page_addr_inj [simp]: "page_addr s i = page_addr s j \<longleftrightarrow> i = j"
  by (simp add: page_addr_def)

lemma page_addr_cong: "mem_start s' = mem_start s \<Longrightarrow> page_addr s' = page_addr s"
  by (simp add: page_addr_def fun_eq_iff)

lemma page_addr_orderarray [simp]: "page_addr (s\<lparr>orderarray := x\<rparr>) = page_addr s"
  by (rule page_addr_cong) simp

lemma addr2arrayindex_page [simp]: "addr2arrayindex s (page_addr s i) = Some i"
  by (simp add: addr2arrayindex_def page_addr_def)

lemma page_addr_add [simp]: "page_addr s i + 2 ^ k * PGSIZE = page_addr s (i + 2 ^ k)"
  by (simp add: page_addr_def algebra_simps)

lemma record_update_simps [simp]:
  "mem_start (record_update i f s) = mem_start s"
  "mem_end (record_update i f s) = mem_end s"
  "orderarray (record_update i f s) = orderarray s"
  "npages (record_update i f s) = npages s"
  "j < npages s \<Longrightarrow> physical_page_record (record_update i f s) ! j =
     (if i = j then f (physical_page_record s ! i) else physical_page_record s ! j)"
  by (auto simp: record_update_def nth_list_update)

lemma page_addr_record_update [simp]: "page_addr (record_update i f s) = page_addr s"
  by (rule page_addr_cong) simp

lemma free_blocks_record_update [simp]: "free_blocks (record_update i f s) = free_blocks s"
  by (simp add: free_blocks_def)

lemma free_blocks_push:
  assumes "k < 11" "length (orderarray s) = 11"
  shows "free_blocks (s\<lparr>orderarray := (orderarray s)[k := page_addr s i # orderarray s ! k]\<rparr>)
    = insert (i, k) (free_blocks s)"
  using assms by (auto simp: free_blocks_def nth_list_update page_addr_def)

lemma free_blocks_take:
  assumes "k < 11" "length (orderarray s) = 11" "orderarray s ! k = page_addr s i # r"
    "distinct (orderarray s ! k)"
  shows "free_blocks (s\<lparr>orderarray := (orderarray s)[k := r]\<rparr>) = free_blocks s - {(i, k)}"
  using assms by (auto simp: free_blocks_def nth_list_update page_addr_def split: if_splits)

lemma free_blocks_del:
  assumes "length (orderarray s) = 11"
  shows "free_blocks (s\<lparr>orderarray := map (removeAll (page_addr s i)) (orderarray s)\<rparr>)
    = {(j, k)\<in>free_blocks s. j \<noteq> i}"
  using assms by (auto simp: free_blocks_def page_addr_def)

lemma used_blocks_orderarray [simp]: "used_blocks (s\<lparr>orderarray := x\<rparr>) = used_blocks s"
  by (simp add: used_blocks_def)

lemma used_blocks_update_unused:
  "rec_count (physical_page_record s ! i) = 0 \<Longrightarrow> rec_count (f (physical_page_record s ! i)) = 0 \<Longrightarrow>
   used_blocks (record_update i f s) = used_blocks s"
  by (auto simp: used_blocks_def split: if_splits)

lemma buddy_heldD:
  assumes "buddy_held H s"
  shows "geometry s" "lists_ok s" "H \<inter> free_blocks s = {}"
    "tiling (npages s) (H \<union> (free_blocks s \<union> used_blocks s))"
    "(i, k) \<in> H \<Longrightarrow> rec_count (physical_page_record s ! i) = 0"
    "(i, k) \<in> free_blocks s \<Longrightarrow> rec_count (physical_page_record s ! i) = 0"
    "(i, k) \<in> free_blocks s \<Longrightarrow> rec_order (physical_page_record s ! i) \<le> k"
    "(i, k) \<in> used_blocks s \<Longrightarrow> k \<le> 10"
    "length (orderarray s) = 11" "k < 11 \<Longrightarrow> distinct (orderarray s ! k)"
  using assms by (auto simp: buddy_held_def geometry_def lists_ok_def)

lemma geometry_cong:
  "geometry s \<Longrightarrow> mem_start s' = mem_start s \<Longrightarrow> mem_end s' = mem_end s \<Longrightarrow>
   npages s' = npages s \<Longrightarrow> length (orderarray s') = length (orderarray s) \<Longrightarrow> geometry s'"
  by (simp add: geometry_def)

lemma buddy_held_used:
  assumes inv: "buddy_held H s" and u: "(i, k) \<in> used_blocks s"
  shows "(i, k) \<notin> H" "(i, k) \<notin> free_blocks s" "i + 2 ^ k \<le> npages s" "2 ^ k dvd i" "i < npages s"
proof -
  note D = buddy_heldD[OF inv]
  have "rec_count (physical_page_record s ! i) \<noteq> 0" using u by (simp add: used_blocks_def)
  then show "(i, k) \<notin> H" "(i, k) \<notin> free_blocks s" using D(5,6) by blast+
  have t: "(i, k) \<in> H \<union> (free_blocks s \<union> used_blocks s)" using u by blast
  show "i + 2 ^ k \<le> npages s" "i < npages s" using tiling_fits[OF D(4) t] .
  show "2 ^ k dvd i" by (rule tiling_aligned[OF D(4) t])
qed

lemma buddy_held_lists: "buddy_held H s \<Longrightarrow> k < 11 \<Longrightarrow> a \<in> set (orderarray s ! k) \<Longrightarrow>
   \<exists>i < npages s. a = page_addr s i \<and> (i, k) \<in> free_blocks s"
  by (force simp: buddy_held_def lists_ok_def free_blocks_def)

subsection \<open>Taking, splitting, recording, merging, putting back\<close>

lemma held_take:
  assumes inv: "buddy_held {} s" and k: "k < 11" and ne: "orderarray s ! k \<noteq> []"
  shows "\<exists>i s'. orderarray_next_then_del k s = Some (page_addr s i, s') \<and> buddy_held {(i, k)} s' \<and>
     (i, k) \<in> free_blocks s \<and> free_blocks s' = free_blocks s - {(i, k)} \<and>
     physical_page_record s' = physical_page_record s \<and> mem_start s' = mem_start s"
proof -
  note D = buddy_heldD[OF inv]
  obtain a r where ar: "orderarray s ! k = a # r" using ne by (cases "orderarray s ! k") auto
  obtain i where i: "i < npages s" "a = page_addr s i" "(i, k) \<in> free_blocks s"
    using buddy_held_lists[OF inv k, of a] ar by auto
  let ?s = "s\<lparr>orderarray := (orderarray s)[k := r]\<rparr>"
  have free: "free_blocks ?s = free_blocks s - {(i, k)}"
    by (rule free_blocks_take) (use k D(9) D(10)[OF k] ar i in simp_all)
  have lists: "lists_ok ?s"
    using D(2) D(9) ar k by (auto simp: lists_ok_def nth_list_update page_addr_def)
  have un: "{(i, k)} \<union> (free_blocks ?s \<union> used_blocks ?s) = {} \<union> (free_blocks s \<union> used_blocks s)"
    using i(3) free by auto
  have "buddy_held {(i, k)} ?s"
    unfolding buddy_held_def un
    using D i(3) by (auto simp: free lists intro: geometry_cong[OF D(1)])
  moreover have "orderarray_next_then_del k s = Some (page_addr s i, ?s)"
    using k D(9) ar i by (simp add: orderarray_next_then_del_def)
  ultimately show ?thesis using free i(3) by (intro exI[of _ i] exI[of _ ?s]) simp
qed

lemma held_put:
  assumes inv: "buddy_held {(i, k)} s" and k: "k < 11"
    and ord: "rec_order (physical_page_record s ! i) \<le> k"
  shows "\<exists>s'. orderarray_add_front (page_addr s i) k s = Some s' \<and> buddy_held {} s' \<and>
     free_blocks s' = insert (i, k) (free_blocks s) \<and>
     physical_page_record s' = physical_page_record s \<and> mem_start s' = mem_start s"
proof -
  note D = buddy_heldD[OF inv]
  let ?s = "s\<lparr>orderarray := (orderarray s)[k := page_addr s i # orderarray s ! k]\<rparr>"
  have free: "free_blocks ?s = insert (i, k) (free_blocks s)"
    by (rule free_blocks_push) (use k D(9) in simp_all)
  have new: "page_addr s i \<notin> set (orderarray s ! k)"
    using D(3) k by (auto simp: free_blocks_def)
  have i: "i < npages s" by (rule tiling_fits(2)[OF D(4), of i k]) simp
  have lists: "lists_ok ?s"
    using D(2) D(9) k new i by (auto simp: lists_ok_def nth_list_update page_addr_def)
  have un: "{} \<union> (free_blocks ?s \<union> used_blocks ?s) = {(i, k)} \<union> (free_blocks s \<union> used_blocks s)"
    using free by auto
  have "buddy_held {} ?s"
    unfolding buddy_held_def un
    using D ord by (auto simp: free lists intro: geometry_cong[OF D(1)])
  moreover have "orderarray_add_front (page_addr s i) k s = Some ?s"
    using k D(9) by (simp add: orderarray_add_front_def)
  ultimately show ?thesis using free by (intro exI[of _ ?s]) simp
qed

lemma held_split:
  assumes inv: "buddy_held {(i, Suc k)} s" and k: "k < 11"
  shows "\<exists>s1 s'. orderarray_add_front (page_addr s (i + 2 ^ k)) k s = Some s1 \<and>
     i + 2 ^ k < npages s \<and> rec_count (physical_page_record s1 ! (i + 2 ^ k)) = 0 \<and>
     s' = record_update (i + 2 ^ k) (rec_order_update (\<lambda>_. k)) s1 \<and>
     npages s1 = npages s \<and> mem_start s1 = mem_start s \<and> buddy_held {(i, k)} s' \<and>
     free_blocks s' = insert (i + 2 ^ k, k) (free_blocks s) \<and> used_blocks s' = used_blocks s \<and>
     (\<forall>j < npages s. j \<noteq> i + 2 ^ k \<longrightarrow> physical_page_record s' ! j = physical_page_record s ! j)"
proof -
  note D = buddy_heldD[OF inv]
  let ?j = "i + 2 ^ k"
  let ?B = "free_blocks s \<union> used_blocks s"
  let ?s1 = "s\<lparr>orderarray := (orderarray s)[k := page_addr s ?j # orderarray s ! k]\<rparr>"
  let ?s2 = "record_update ?j (rec_order_update (\<lambda>_. k)) ?s1"
  have t: "tiling (npages s) (insert (i, Suc k) ?B)" using D(4) by simp
  have fits: "i + 2 ^ Suc k \<le> npages s" by (rule tiling_fits(1)[OF t]) simp
  have j: "?j < npages s"
  proof -
    have "i + 2 ^ k < i + 2 ^ Suc k" by simp
    then show ?thesis using fits by linarith
  qed
  have notin: "(?j, l) \<notin> ?B" for l
  proof
    assume "(?j, l) \<in> ?B"
    moreover have "?j \<in> pages (?j, l)" "?j \<in> pages (i, Suc k)" by simp_all
    ultimately have "(?j, l) = (i, Suc k)" using tiling_unique[OF t] by blast
    then show False by simp
  qed
  have cnt: "rec_count (physical_page_record s ! ?j) = 0"
    using notin[of "rec_order (physical_page_record s ! ?j)"] j by (auto simp: used_blocks_def)
  have notB: "(i, Suc k) \<notin> ?B"
    using D(3) buddy_held_used(1)[OF inv, of i "Suc k"] by auto
  have free: "free_blocks ?s2 = insert (?j, k) (free_blocks s)"
    unfolding free_blocks_record_update by (rule free_blocks_push) (use k D(9) in simp_all)
  have used: "used_blocks ?s2 = used_blocks s"
    using used_blocks_update_unused[of ?s1 ?j "rec_order_update (\<lambda>_. k)"] cnt by simp
  have new: "page_addr s ?j \<notin> set (orderarray s ! k)"
    using notin[of k] k by (auto simp: free_blocks_def)
  have lists: "lists_ok ?s2"
    using D(2) D(9) k new j by (auto simp: lists_ok_def nth_list_update page_addr_def)
  have "tiling (npages s) (insert (i, k) (insert (?j, k) ?B))"
    by (rule tiling_split[OF t notB])
  moreover have un: "{(i, k)} \<union> (free_blocks ?s2 \<union> used_blocks ?s2) = insert (i, k) (insert (?j, k) ?B)"
    unfolding free used by blast
  moreover have "(i, k) \<notin> free_blocks ?s2"
  proof
    assume "(i, k) \<in> free_blocks ?s2"
    then have "(i, k) \<in> free_blocks s" unfolding free by simp
    moreover have "i \<in> pages (i, k)" "i \<in> pages (i, Suc k)" by simp_all
    ultimately have "(i, k) = (i, Suc k)" using tiling_unique[OF t] by blast
    then show False by simp
  qed
  moreover have "rec_count (physical_page_record ?s2 ! a) = 0" if "(a, b) \<in> {(i, k)} \<union> free_blocks ?s2" for a b
  proof -
    have "a = i \<or> a = ?j \<or> (a, b) \<in> free_blocks s" using that unfolding free by blast
    moreover have "a < npages s" if "(a, b) \<in> free_blocks s"
      by (rule tiling_fits(2)[OF t]) (use that in blast)
    moreover have "i < npages s" using j by simp
    ultimately show ?thesis using cnt D(5)[of i "Suc k"] D(6)[of a b] j by auto
  qed
  moreover have "rec_order (physical_page_record ?s2 ! a) \<le> b" if ab: "(a, b) \<in> free_blocks ?s2" for a b
  proof -
    consider "a = ?j" "b = k" | "(a, b) \<in> free_blocks s" "a \<noteq> ?j"
      using ab[unfolded free] notin[of b] by (cases "a = ?j") auto
    then show ?thesis
    proof cases
      case 1 then show ?thesis using j by simp
    next
      case 2
      have "a < npages s" by (rule tiling_fits(2)[OF t]) (use 2 in blast)
      then show ?thesis using 2 D(7) by simp
    qed
  qed
  moreover have "geometry ?s2" by (rule geometry_cong[OF D(1)]) simp_all
  moreover have "\<forall>(a, b)\<in>used_blocks ?s2. b \<le> 10" unfolding used using D(8) by blast
  ultimately have "buddy_held {(i, k)} ?s2"
    unfolding buddy_held_def using lists by auto
  moreover have "orderarray_add_front (page_addr s ?j) k s = Some ?s1"
    using k D(9) by (simp add: orderarray_add_front_def)
  ultimately show ?thesis using j cnt free used
    by (intro exI[of _ ?s1] exI[of _ ?s2]) (simp del: free_blocks_record_update)
qed

lemma held_record:
  assumes inv: "buddy_held {(i, k)} s" and k: "k \<le> 10"
  shows "\<exists>s'. do_record (page_addr s i) k s = Some s' \<and> buddy_held {} s' \<and>
     free_blocks s' = free_blocks s \<and> used_blocks s' = insert (i, k) (used_blocks s) \<and>
     npages s' = npages s \<and> mem_start s' = mem_start s \<and>
     physical_page_record s' ! i = \<lparr>rec_order = k, rec_count = 1\<rparr> \<and>
     (\<forall>j < npages s. j \<noteq> i \<longrightarrow> physical_page_record s' ! j = physical_page_record s ! j)"
proof -
  note D = buddy_heldD[OF inv]
  let ?f = "\<lambda>r. r\<lparr>rec_count := rec_count r + 1, rec_order := k\<rparr>"
  let ?s = "record_update i ?f s"
  have t: "(i, k) \<in> {(i, k)} \<union> (free_blocks s \<union> used_blocks s)" by blast
  have i: "i < npages s" by (rule tiling_fits(2)[OF D(4) t])
  have cnt: "rec_count (physical_page_record s ! i) = 0" using D(5)[of i k] by simp
  have used: "used_blocks ?s = insert (i, k) (used_blocks s)"
    using i cnt by (auto simp: used_blocks_def split: if_splits)
  have un: "{} \<union> (free_blocks ?s \<union> used_blocks ?s) = {(i, k)} \<union> (free_blocks s \<union> used_blocks s)"
    using used by auto
  have other: "physical_page_record ?s ! a = physical_page_record s ! a" if "(a, b) \<in> free_blocks s" for a b
  proof -
    have "a \<noteq> i"
    proof
      assume "a = i"
      then have "(i, b) \<in> {(i, k)} \<union> (free_blocks s \<union> used_blocks s)" using that by blast
      then have "b = k" using tiling_head_unique[OF D(4) t] by blast
      then show False using that \<open>a = i\<close> D(3) by blast
    qed
    moreover have "a < npages s" by (rule tiling_fits(2)[OF D(4), of a b]) (use that in blast)
    ultimately show ?thesis by simp
  qed
  have "lists_ok ?s" using D(2) by (simp add: lists_ok_def)
  moreover have "geometry ?s" by (rule geometry_cong[OF D(1)]) simp_all
  ultimately have "buddy_held {} ?s"
    unfolding buddy_held_def un
    using D(4,6,7,8) k other by (auto simp: used)
  moreover have "do_record (page_addr s i) k s = Some ?s"
    using i cnt by (simp add: do_record_def)
  moreover have "physical_page_record ?s ! i = \<lparr>rec_order = k, rec_count = 1\<rparr>"
    using i cnt by simp
  ultimately show ?thesis using used by (intro exI[of _ ?s]) simp
qed

lemma whois_buddy_page:
  assumes "2 ^ k dvd i"
  shows "whois_buddy (page_addr s i) k s = Some (page_addr s (buddy_of i k))"
proof -
  obtain m where m: "i = 2 ^ k * m" using assms by blast
  have page: "drop_bit PGSHIFT (page_addr s i - mem_start s) = i"
    by (simp add: page_addr_def drop_bit_eq_div)
  have mask: "i AND (2 ^ (k + 1) - 1) = i mod 2 ^ (k + 1)"
    by (simp only: mask_eq_exp_minus_1[symmetric] take_bit_eq_mask[symmetric] take_bit_eq_mod)
  have im: "i mod 2 ^ (k + 1) = 2 ^ k * (m mod 2)" 
    by (simp only: m power_add power_one_right mod_mult_mult1)
  show ?thesis
  proof (cases "even m")
    case True
    then have dv: "2 ^ Suc k dvd i" using m by simp
    then have "i mod 2 ^ (k + 1) = 0" by simp
    then show ?thesis
      unfolding whois_buddy_def Let_def page mask using dv by (simp add: buddy_of_def)
  next
    case False
    then have n: "\<not> 2 ^ Suc k dvd i" using m by simp
    then have "2 ^ k \<le> i" by (rule buddy_of_aligned(2)[OF assms])
    then have "page_addr s i - 2 ^ k * PGSIZE = page_addr s (i - 2 ^ k)"
      by (simp add: page_addr_def algebra_simps)
    moreover have "m mod 2 = 1" using False by presburger
    then have "i mod 2 ^ (k + 1) = 2 ^ k" "(2::nat) ^ k \<noteq> 0" using im by simp_all
    ultimately show ?thesis
      unfolding whois_buddy_def Let_def page mask using n
      by (simp only: if_True if_False buddy_of_def) simp
  qed
qed

lemma held_merge:
  assumes inv: "buddy_held {(i, k)} s"
    and b: "buddy_of i k < npages s" "rec_count (physical_page_record s ! buddy_of i k) = 0"
      "rec_order (physical_page_record s ! buddy_of i k) = k"
  shows "\<exists>s'. orderarray_del (page_addr s (buddy_of i k)) s = Some s' \<and> k \<le> 10 \<and>
     buddy_held {(min i (buddy_of i k), Suc k)} s' \<and> (buddy_of i k, k) \<in> free_blocks s \<and>
     used_blocks s' = used_blocks s \<and>
     physical_page_record s' = physical_page_record s \<and> mem_start s' = mem_start s"
proof -
  note D = buddy_heldD[OF inv]
  let ?b = "buddy_of i k" and ?m = "min i (buddy_of i k)"
  have ik: "(i, k) \<in> {(i, k)} \<union> (free_blocks s \<union> used_blocks s)" by blast
  have al: "2 ^ k dvd i" by (rule tiling_aligned[OF D(4) ik])
  have "?b \<noteq> i"
  proof (cases "2 ^ Suc k dvd i")
    case False
    then obtain r where "i = r + 2 ^ k"
      using buddy_of_aligned(2)[OF al] by (metis le_add_diff_inverse2)
    then show ?thesis using False by (simp add: buddy_of_def)
  qed (simp add: buddy_of_def)
  obtain j where j: "j \<le> k" "(?b, j) \<in> {(i, k)} \<union> (free_blocks s \<union> used_blocks s)"
    using tiling_buddy[OF D(4) ik b(1)] by blast
  have "(?b, j) \<notin> used_blocks s" using b(2) by (simp add: used_blocks_def)
  then have "(?b, j) \<in> free_blocks s" using j(2) \<open>?b \<noteq> i\<close> by blast
  then have bk: "(?b, k) \<in> free_blocks s" using D(7) b(3) j(1) by fastforce
  then have k: "k \<le> 10" by (auto simp: free_blocks_def)
  let ?s = "s\<lparr>orderarray := map (removeAll (page_addr s ?b)) (orderarray s)\<rparr>"
  have free: "free_blocks ?s = free_blocks s - {(?b, k)}"
  proof -
    have "l = k" if "(?b, l) \<in> free_blocks s" for l
      by (rule tiling_head_unique[OF D(4), of ?b]) (use that bk in blast)+
    then show ?thesis unfolding free_blocks_del[OF D(9)] by blast
  qed
  let ?B = "free_blocks ?s \<union> used_blocks ?s"
  have old: "{(i, k)} \<union> (free_blocks s \<union> used_blocks s)
      = insert (?m, k) (insert (?m + 2 ^ k, k) ?B)"
  proof -
    have "{(i, k)} \<union> (free_blocks s \<union> used_blocks s) = (\<lambda>x. (x, k)) ` {i, ?b} \<union> ?B"
      using bk unfolding free by auto
    also have "\<dots> = (\<lambda>x. (x, k)) ` {?m, ?m + 2 ^ k} \<union> ?B"
      by (simp only: buddy_of_aligned(4)[OF al])
    finally show ?thesis by simp
  qed
  have notin: "(i, k) \<notin> ?B" "(?b, k) \<notin> ?B"
    using D(3) buddy_held_used(1)[OF inv, of i k] buddy_held_used(2)[OF inv, of ?b k] bk
    unfolding free by auto
  have "?m = i \<and> ?m + 2 ^ k = ?b \<or> ?m = ?b \<and> ?m + 2 ^ k = i"
    using buddy_of_aligned(4)[OF al] by (auto simp: doubleton_eq_iff)
  then have "(?m, k) \<notin> ?B" "(?m + 2 ^ k, k) \<notin> ?B" using notin by auto
  then have t: "tiling (npages s) (insert (?m, Suc k) ?B)"
    using tiling_merge[OF D(4)[unfolded old] buddy_of_aligned(3)[OF al]] by blast
  have m: "?m = i \<or> ?m = ?b" by (simp add: min_def)
  have "(?m, Suc k) \<notin> free_blocks s"
  proof
    assume a: "(?m, Suc k) \<in> free_blocks s"
    have "(?m, k) \<in> {(i, k)} \<union> (free_blocks s \<union> used_blocks s)" using m bk by auto
    then have "Suc k = k" using tiling_head_unique[OF D(4), of ?m "Suc k" k] a by blast
    then show False by simp
  qed
  moreover have "lists_ok ?s" using D(2) D(9) by (auto simp: lists_ok_def distinct_removeAll)
  moreover have "geometry ?s" by (rule geometry_cong[OF D(1)]) simp_all
  moreover have "rec_count (physical_page_record s ! ?m) = 0"
    using m D(5)[of i k] D(6)[OF bk] by auto
  ultimately have "buddy_held {(?m, Suc k)} ?s"
    unfolding buddy_held_def using t D(6,7,8) by (auto simp: free simp del: min_def)
  moreover have "orderarray_del (page_addr s ?b) s = Some ?s"
  proof -
    have "page_addr s ?b \<in> set (orderarray s ! k)" "orderarray s ! k \<in> set (orderarray s)"
      using bk D(9) by (auto simp: free_blocks_def)
    then show ?thesis by (auto simp: orderarray_del_def)
  qed
  ultimately show ?thesis using k bk by (intro exI[of _ ?s]) simp
qed

lemma orderarray_add_frontD:
  "orderarray_add_front a k s = Some s' \<Longrightarrow> k < length (orderarray s)"
  by (auto simp: orderarray_add_front_def nth_opt_def split: if_splits)

lemma merge_pages_ok:
  "merge_pages (page_addr s i) k s = Some s' \<Longrightarrow> buddy_held {(i, k)} s \<Longrightarrow>
   rec_order (physical_page_record s ! i) \<le> k \<Longrightarrow>
   buddy_held {} s' \<and> used_blocks s' = used_blocks s \<and>
   physical_page_record s' = physical_page_record s \<and> mem_start s' = mem_start s"
proof (induction "page_addr s i" k s arbitrary: i rule: merge_pages.induct)
  case (1 k s)
  note inv = 1(3)
  note D = buddy_heldD[OF inv]
  let ?b = "buddy_of i k"
  have al: "2 ^ k dvd i" by (rule tiling_aligned[OF D(4), of i k]) simp
  have who: "whois_buddy (page_addr s i) k s = Some (page_addr s ?b)"
    by (rule whois_buddy_page[OF al])
  let ?r = "physical_page_record s ! ?b"
  have b: "?b < npages s"
    and step: "(if rec_count ?r = 0 \<and> rec_order ?r = k
       then do { s1 \<leftarrow> orderarray_del (page_addr s ?b) s;
                 merge_pages (min (page_addr s i) (page_addr s ?b)) (k + 1) s1 }
       else orderarray_add_front (page_addr s i) k s) = Some s'"
    using 1(2) who by (subst (asm) merge_pages.simps, auto simp: hoare_simps)+
  show ?case
  proof (cases "rec_count ?r = 0 \<and> rec_order ?r = k")
    case True
    obtain s1 where s1: "orderarray_del (page_addr s ?b) s = Some s1" "k \<le> 10"
      "buddy_held {(min i ?b, Suc k)} s1" "(?b, k) \<in> free_blocks s"
      "used_blocks s1 = used_blocks s"
      "physical_page_record s1 = physical_page_record s" "mem_start s1 = mem_start s"
      using held_merge[OF inv b] True by blast
    have pa: "page_addr s1 = page_addr s" by (rule page_addr_cong) (rule s1(7))
    have mn: "min (page_addr s i) (page_addr s ?b) = page_addr s1 (min i ?b)"
      unfolding pa by (auto simp: min_def page_addr_def)
    have "rec_order (physical_page_record s1 ! min i ?b) \<le> k + 1"
      using 1(4) True s1(6) by (auto simp: min_def)
    moreover have "merge_pages (page_addr s1 (min i ?b)) (k + 1) s1 = Some s'"
      using step True s1(1) mn by simp
    ultimately show ?thesis
      using 1(1)[of "page_addr s ?b" ?b ?r s1 "min i ?b"] who b True s1 mn by simp
  next
    case False
    have add: "orderarray_add_front (page_addr s i) k s = Some s'"
      using step unfolding if_not_P[OF False] .
    have "k < 11" using orderarray_add_frontD[OF add] D(9) by simp
    then show ?thesis using held_put[OF inv _ 1(4)] add by (auto simp: used_blocks_def)
  qed
qed

text \<open>The merge never leaves the records as long as its region of \<open>2 ^ 10\<close> pages has another
  used block: it stops below order 10.\<close>

lemma same_region:
  assumes "2 ^ Suc k dvd m" "m \<le> i" "i < m + 2 ^ Suc k" "Suc k \<le> (10::nat)"
  shows "m div 1024 = i div (1024::nat)"
proof -
  obtain q where q: "m = 2 ^ Suc k * q" using assms(1) by blast
  then have "i div 2 ^ Suc k = q"
    by (intro div_nat_eqI) (use assms in \<open>auto simp: algebra_simps\<close>)
  moreover have "m div 2 ^ Suc k = q" using q by simp
  moreover have "x div 1024 = x div 2 ^ Suc k div 2 ^ (9 - k)" for x :: nat
  proof -
    have "(2::nat) ^ Suc k * 2 ^ (9 - k) = 2 ^ 10"
      using assms(4) by (simp only: power_add[symmetric]) simp
    then show ?thesis by (simp only: div_mult2_eq[symmetric]) simp
  qed
  ultimately show ?thesis by simp
qed

lemma region_bounds: "j div 1024 = (q::nat) \<Longrightarrow> 1024 * q \<le> j \<and> j < 1024 * q + 1024"
  by auto

lemma merge_pages_returns:
  "buddy_held {(i, k)} s \<Longrightarrow> rec_order (physical_page_record s ! i) \<le> k \<Longrightarrow>
   1024 dvd npages s \<Longrightarrow> (j, l) \<in> used_blocks s \<Longrightarrow> j div 1024 = i div 1024 \<Longrightarrow>
   \<exists>s'. merge_pages (page_addr s i) k s = Some s'"
proof (induction "11 - k" arbitrary: i k s)
  case (0 k i s)
  note D = buddy_heldD[OF 0(2)]
  have "2 ^ k dvd i" by (rule tiling_aligned[OF D(4), of i k]) simp
  moreover have "2 ^ 10 dvd (2::nat) ^ k" using 0(1) by (intro le_imp_power_dvd) simp
  ultimately have "2 ^ 10 dvd i" using dvd_trans by blast
  then obtain q where "i = 1024 * q" by auto
  moreover have "(2::nat) ^ 10 \<le> 2 ^ k" using 0(1) by (intro power_increasing) simp_all
  ultimately have "j \<in> pages (i, k)" using 0(6) region_bounds[of j q] by auto
  moreover have "j \<in> pages (j, l)" by simp
  ultimately have "(i, k) = (j, l)" using tiling_unique[OF D(4), of "(i, k)" "(j, l)" j] 0(5) by blast
  then show ?case using buddy_held_used(1)[OF 0(2,5)] by simp
next
  case (Suc x k i s)
  note inv = Suc(3)
  note D = buddy_heldD[OF inv]
  let ?b = "buddy_of i k" and ?m = "min i (buddy_of i k)"
  have ik: "(i, k) \<in> {(i, k)} \<union> (free_blocks s \<union> used_blocks s)" by blast
  have al: "2 ^ k dvd i" by (rule tiling_aligned[OF D(4) ik])
  have k: "k \<le> 9"
  proof (rule ccontr)
    assume "\<not> k \<le> 9"
    then have "2 ^ 10 dvd (2::nat) ^ k" "(2::nat) ^ 10 \<le> 2 ^ k"
      by (intro le_imp_power_dvd power_increasing; simp)+
    then obtain q where "i = 1024 * q" using al dvd_trans[of "2 ^ 10" "2 ^ k" i] by auto
    then have "j \<in> pages (i, k)"
      using Suc.prems(5) \<open>(2::nat) ^ 10 \<le> 2 ^ k\<close> region_bounds[of j q] by auto
    moreover have "j \<in> pages (j, l)" by simp
    ultimately have "(i, k) = (j, l)"
      using tiling_unique[OF D(4), of "(i, k)" "(j, l)" j] Suc.prems(4) by blast
    then show False using buddy_held_used(1)[OF inv Suc.prems(4)] by simp
  qed
  have i: "i < npages s" by (rule tiling_fits(2)[OF D(4) ik])
  have m2: "?m \<le> i" "i < ?m + 2 ^ Suc k" "?b < ?m + 2 ^ Suc k"
  proof -
    have lt: "x \<in> {a, a + 2 ^ k} \<Longrightarrow> x < a + 2 ^ Suc k" for a x :: nat
      using zero_less_power[of "2::nat" k] by (auto simp del: zero_less_power)
    have "i \<in> {?m, ?m + 2 ^ k}" "?b \<in> {?m, ?m + 2 ^ k}"
      using buddy_of_aligned(4)[OF al] by blast+
    then show "?m \<le> i" "i < ?m + 2 ^ Suc k" "?b < ?m + 2 ^ Suc k"
      using lt by (simp_all del: min_less_iff_disj)
  qed
  have b: "?b < npages s"
  proof -
    have "2 ^ Suc k dvd (2::nat) ^ 10" using k by (intro le_imp_power_dvd) simp
    then have "2 ^ Suc k dvd npages s" using Suc.prems(3) by (auto intro: dvd_trans)
    then obtain w where w: "npages s = 2 ^ Suc k * w" by blast
    obtain v where v: "?m = 2 ^ Suc k * v" using buddy_of_aligned(3)[OF al] by blast
    have "2 ^ Suc k * v < 2 ^ Suc k * w" using m2(1) i v w by linarith
    then have "v < w" by simp
    then have "2 ^ Suc k * Suc v \<le> 2 ^ Suc k * w" by (intro mult_le_mono2) simp
    then have "?m + 2 ^ Suc k \<le> npages s" using v w by simp
    then show ?thesis using m2(3) by linarith
  qed
  let ?r = "physical_page_record s ! ?b"
  show ?case
  proof (cases "rec_count ?r = 0 \<and> rec_order ?r = k")
    case True
    obtain s1 where s1: "orderarray_del (page_addr s ?b) s = Some s1"
      "buddy_held {(?m, Suc k)} s1" "used_blocks s1 = used_blocks s"
      "physical_page_record s1 = physical_page_record s" "mem_start s1 = mem_start s"
      using held_merge[OF inv b] True by blast
    have pa: "page_addr s1 = page_addr s" by (rule page_addr_cong) (rule s1(5))
    have mn: "min (page_addr s i) (page_addr s ?b) = page_addr s1 ?m"
      unfolding pa by (auto simp: min_def page_addr_def)
    have "\<exists>s'. merge_pages (page_addr s1 ?m) (Suc k) s1 = Some s'"
    proof (rule Suc.hyps(1))
      show "x = 11 - Suc k" using Suc.hyps(2) by simp
      show "buddy_held {(?m, Suc k)} s1" by (rule s1)
      show "rec_order (physical_page_record s1 ! ?m) \<le> Suc k"
        using Suc.prems(2) True s1(4) by (auto simp: min_def)
      show "1024 dvd npages s1" using Suc.prems(3) s1(4) by simp
      show "(j, l) \<in> used_blocks s1" using Suc.prems(4) s1(3) by simp
      show "j div 1024 = ?m div 1024"
        using same_region[OF buddy_of_aligned(3)[OF al] m2(1,2)] k Suc.prems(5) by simp
    qed
    then show ?thesis
      using True b s1(1) mn by (subst merge_pages.simps) (simp add: whois_buddy_page[OF al])
  next
    case False
    have "k < 11" using k by simp
    then obtain s' where "orderarray_add_front (page_addr s i) k s = Some s'"
      using held_put[OF inv _ Suc.prems(2)] by blast
    then show ?thesis
      using False b by (subst merge_pages.simps) (auto simp add: whois_buddy_page[OF al])
  qed
qed

section \<open>Allocating and freeing\<close>

definition page_refs :: "buddy \<Rightarrow> nat \<Rightarrow> u16" where
  "page_refs s i = (if i < npages s then rec_count (physical_page_record s ! i) else 0)"

definition page_index :: "buddy \<Rightarrow> nat \<Rightarrow> nat" where
  "page_index s a = (a - mem_start s) div PGSIZE"

lemma get_power2_from_Some:
  "n \<le> 1024 \<Longrightarrow> i \<le> 10 \<Longrightarrow> \<exists>k. get_power2_from i n = Some k \<and> i \<le> k \<and> n \<le> 2 ^ k \<and> k \<le> 10 \<and>
     (\<forall>j. i \<le> j \<and> j < k \<longrightarrow> 2 ^ j < n)"
proof (induction "10 - i" arbitrary: i)
  case 0
  then have "i = 10" by simp
  then show ?case using 0(2) by (subst get_power2_from.simps) auto
next
  case (Suc x)
  show ?case
  proof (cases "n \<le> 2 ^ i")
    case True then show ?thesis using Suc.prems by (subst get_power2_from.simps) auto
  next
    case False
    have "x = 10 - (i + 1)" "i + 1 \<le> 10" using Suc.hyps(2) by simp_all
    then obtain k where k: "get_power2_from (i + 1) n = Some k" "i + 1 \<le> k" "n \<le> 2 ^ k" "k \<le> 10"
      "\<forall>j. i + 1 \<le> j \<and> j < k \<longrightarrow> 2 ^ j < n" using Suc.hyps(1) Suc.prems(1) by blast
    have "get_power2_from i n = Some k"
      using False Suc.prems k(1) by (subst get_power2_from.simps) simp
    moreover have "2 ^ j < n" if "i \<le> j" "j < k" for j
      using that False k(5) by (cases "j = i") auto
    ultimately show ?thesis using k by auto
  qed
qed

lemma get_power2_least:
  "n \<le> 1024 \<Longrightarrow> \<exists>k. get_power2 n = Some k \<and> n \<le> 2 ^ k \<and> k \<le> 10 \<and> (\<forall>j < k. 2 ^ j < n)"
  using get_power2_from_Some[of n 0] by (auto simp: get_power2_def)

lemma next_order_props:
  "k \<le> 10 \<Longrightarrow> k < next_order k s \<and> next_order k s \<le> 11 \<and>
   (next_order k s < 11 \<longrightarrow> orderarray s ! next_order k s \<noteq> []) \<and>
   (\<forall>j. k < j \<and> j < next_order k s \<longrightarrow> orderarray s ! j = [])"
proof (induction k s rule: next_order.induct)
  case (1 i s)
  show ?case
  proof (cases "i + 1 < 11 \<and> orderarray s ! (i + 1) = []")
    case True
    then have "next_order i s = next_order (i + 1) s" by (simp add: next_order.simps[of i])
    moreover have "orderarray s ! j = []" if "i < j" "j < next_order (i + 1) s" for j
      using that 1(1) True by (cases "j = i + 1") auto
    ultimately show ?thesis using 1(1) True by auto
  next
    case False
    then show ?thesis using 1(2) by (auto simp: next_order.simps[of i])
  qed
qed

lemma split_pages_ok:
  "buddy_held {(i, j)} s \<Longrightarrow> k \<le> j \<Longrightarrow> j \<le> 10 \<Longrightarrow>
   \<exists>s'. split_pages (page_addr s i) j k s = Some (page_addr s i, s') \<and> buddy_held {(i, k)} s' \<and>
     used_blocks s' = used_blocks s \<and> page_refs s' = page_refs s \<and> npages s' = npages s \<and>
     mem_start s' = mem_start s"
proof (induction j arbitrary: s)
  case 0
  then show ?case by (subst split_pages.simps) simp
next
  case (Suc j)
  show ?case
  proof (cases "k = Suc j")
    case True
    then show ?thesis using Suc.prems by (subst split_pages.simps) simp
  next
    case False
    let ?r = "i + 2 ^ j"
    obtain s1 s2 where s: "orderarray_add_front (page_addr s ?r) j s = Some s1" "?r < npages s"
      "rec_count (physical_page_record s1 ! ?r) = 0"
      "s2 = record_update ?r (rec_order_update (\<lambda>_. j)) s1"
      "npages s1 = npages s" "mem_start s1 = mem_start s" "buddy_held {(i, j)} s2"
      "used_blocks s2 = used_blocks s"
      "\<forall>a < npages s. a \<noteq> ?r \<longrightarrow> physical_page_record s2 ! a = physical_page_record s ! a"
      using held_split[OF Suc.prems(1)] Suc.prems(3) by auto
    have r0: "rec_count (physical_page_record s ! ?r) = 0"
      using s(1,3) by (auto simp: orderarray_add_front_def hoare_simps)
    have refs: "page_refs s2 = page_refs s"
    proof
      fix a show "page_refs s2 a = page_refs s a"
        using s(2-5,9) r0 by (cases "a = ?r") (auto simp: page_refs_def)
    qed
    have pa: "page_addr s2 = page_addr s" "page_addr s1 = page_addr s"
      using s(4,6) by (auto intro: page_addr_cong)
    obtain s3 where "split_pages (page_addr s2 i) j k s2 = Some (page_addr s2 i, s3)"
      "buddy_held {(i, k)} s3" "used_blocks s3 = used_blocks s2" "page_refs s3 = page_refs s2"
      "npages s3 = npages s2" "mem_start s3 = mem_start s2"
      using Suc.IH[OF s(7)] Suc.prems False by (auto simp: le_Suc_eq)
    moreover have "addr2arrayindex s1 (page_addr s ?r) = Some ?r"
      using addr2arrayindex_page[of s1 ?r] pa by simp
    ultimately show ?thesis
      using s False refs pa by (subst split_pages.simps) simp
  qed
qed

lemma geometry_page_addr:
  "geometry s \<Longrightarrow> page_addr s i \<noteq> 0 \<and> page_addr s i mod PGSIZE = 0"
  by (auto simp: geometry_def page_addr_def mod_eq_0_iff_dvd)

lemma held_used_new:
  assumes inv: "buddy_held {} s" and f: "(j, l) \<in> free_blocks s" "pages (i, k) \<subseteq> pages (j, l)"
    and u: "b \<in> used_blocks s"
  shows "pages (i, k) \<inter> pages b = {}" "b \<noteq> (i, k)"
proof -
  have "b \<noteq> (j, l)" using buddy_held_used(2)[OF inv] u f(1) by (cases b) auto
  then have "pages b \<inter> pages (j, l) = {}"
    using buddy_heldD(4)[OF inv] u f(1) unfolding tiling_def by blast
  then show "pages (i, k) \<inter> pages b = {}" using f(2) by blast
  then show "b \<noteq> (i, k)" using pages_nonempty[of b] by auto
qed

lemma pages_le:
  assumes "k \<le> l"
  shows "pages (i, k) \<subseteq> pages (i, l)"
proof -
  have "(2::nat) ^ k \<le> 2 ^ l" using assms by (rule power_increasing) simp
  then show ?thesis unfolding pages_def by simp
qed

text \<open>An allocation takes a block of the least sufficient order that was free before.\<close>

lemma pages_alloc_ok:
  assumes inv: "buddy_inv s" and n: "0 < n" "n \<le> 1024" and g: "get_power2 n = Some k"
    and f: "(j0, l0) \<in> free_blocks s" "k \<le> l0"
  shows "\<exists>i s'. pages_alloc n s = Some (page_addr s i, s') \<and> buddy_inv s' \<and>
     used_blocks s' = insert (i, k) (used_blocks s) \<and>
     page_refs s' = (page_refs s)(i := 1) \<and> page_refs s i = 0 \<and>
     npages s' = npages s \<and> mem_start s' = mem_start s \<and>
     (\<exists>l\<ge>k. (i, l) \<in> free_blocks s)"
proof -
  have inv0: "buddy_held {} s" using inv by (simp add: buddy_inv_def)
  note D = buddy_heldD[OF inv0]
  have k: "k \<le> 10" using get_power2_least[OF n(2)] g by auto
  have ne: "orderarray s ! l0 \<noteq> []" "l0 < 11" using f by (auto simp: free_blocks_def)
  let ?j = "if orderarray s ! k \<noteq> [] then k else next_order k s"
  have j: "k \<le> ?j" "?j \<le> 10" "orderarray s ! ?j \<noteq> []"
    and big: "orderarray s ! k = [] \<Longrightarrow> next_order k s \<noteq> 11 \<and> k < next_order k s \<and> next_order k s < 11"
  proof -
    show big: "next_order k s \<noteq> 11 \<and> k < next_order k s \<and> next_order k s < 11" if "orderarray s ! k = []"
    proof -
      have "k \<noteq> l0" using that ne by auto
      then have "\<not> l0 < next_order k s" using next_order_props[OF k, of s] f(2) ne(1) by auto
      then show ?thesis using next_order_props[OF k, of s] ne(2) by auto
    qed
    show "k \<le> ?j" "?j \<le> 10" "orderarray s ! ?j \<noteq> []"
      using big next_order_props[OF k, of s] k by auto
  qed
  obtain i s1 where t: "orderarray_next_then_del ?j s = Some (page_addr s i, s1)"
    "buddy_held {(i, ?j)} s1" "(i, ?j) \<in> free_blocks s"
    "physical_page_record s1 = physical_page_record s" "mem_start s1 = mem_start s"
    using held_take[OF inv0 _ j(3)] j(2) by fastforce
  have same1: "used_blocks s1 = used_blocks s" "page_refs s1 = page_refs s"
    using t(4) by (simp_all add: used_blocks_def page_refs_def fun_eq_iff)
  obtain s2 where sp: "split_pages (page_addr s1 i) ?j k s1 = Some (page_addr s1 i, s2)"
    "buddy_held {(i, k)} s2" "used_blocks s2 = used_blocks s1" "page_refs s2 = page_refs s1"
    "npages s2 = npages s1" "mem_start s2 = mem_start s1"
    using split_pages_ok[OF t(2) j(1,2)] by blast
  obtain s3 where r: "do_record (page_addr s2 i) k s2 = Some s3" "buddy_held {} s3"
    "used_blocks s3 = insert (i, k) (used_blocks s2)" "npages s3 = npages s2"
    "mem_start s3 = mem_start s2" "physical_page_record s3 ! i = \<lparr>rec_order = k, rec_count = 1\<rparr>"
    "\<forall>a < npages s2. a \<noteq> i \<longrightarrow> physical_page_record s3 ! a = physical_page_record s2 ! a"
    using held_record[OF sp(2) k] by blast
  have pa: "page_addr s1 = page_addr s" "page_addr s2 = page_addr s"
    using t(5) sp(6) by (auto intro: page_addr_cong)
  have i: "i < npages s" by (rule tiling_fits(2)[OF D(4), of i ?j]) (use t(3) in blast)
  have refs: "page_refs s3 = (page_refs s)(i := 1)"
  proof
    fix a
    have "page_refs s3 a = page_refs s2 a" if "a \<noteq> i" using r(4,7) that by (simp add: page_refs_def)
    moreover have "page_refs s3 i = 1" using r(4,6) sp(5) t(4) i by (simp add: page_refs_def)
    ultimately show "page_refs s3 a = ((page_refs s)(i := 1)) a" using sp(4) same1 by simp
  qed
  have "page_refs s i = 0" using D(6)[OF t(3)] by (simp add: page_refs_def)
  moreover have "pages_alloc n s = Some (page_addr s i, s3)"
  proof (cases "orderarray s ! k = []")
    case True
    then show ?thesis
      using n g k D(1,9) big t(1) sp(1) r(1) pa geometry_page_addr[OF D(1), of i]
      by (simp add: pages_alloc_def)
  next
    case False
    then have "split_pages (page_addr s1 i) ?j k s1 = Some (page_addr s1 i, s1)"
      by (subst split_pages.simps) simp
    then have "s2 = s1" using sp(1) by simp
    then show ?thesis
      using False n g k D(1,9) t(1) r(1) pa geometry_page_addr[OF D(1), of i]
      by (simp add: pages_alloc_def)
  qed
  ultimately show ?thesis
    using r sp same1 t refs j(1) by (intro exI[of _ i] exI[of _ s3]) (auto simp: buddy_inv_def)
qed

text \<open>Without such a block the allocation ends in its final assertion.\<close>

lemma pages_alloc_exhausted:
  assumes inv: "buddy_inv s" and n: "0 < n" "n \<le> 1024" and g: "get_power2 n = Some k"
    and f: "\<And>j l. (j, l) \<in> free_blocks s \<Longrightarrow> l < k"
  shows "pages_alloc n s = None"
proof -
  have inv0: "buddy_held {} s" using inv by (simp add: buddy_inv_def)
  note D = buddy_heldD[OF inv0]
  have k: "k \<le> 10" using get_power2_least[OF n(2)] g by auto
  have e: "orderarray s ! l = []" if kl: "k \<le> l" "l < 11" for l
  proof (rule ccontr)
    assume "orderarray s ! l \<noteq> []"
    then obtain a where "a \<in> set (orderarray s ! l)" by (meson list.set_sel(1))
    then obtain j where "(j, l) \<in> free_blocks s" using buddy_held_lists[OF inv0 kl(2)] by blast
    then show False using f kl by fastforce
  qed
  have "next_order k s = 11"
    using next_order_props[OF k, of s] e[of "next_order k s"] by auto
  then show ?thesis using n g k D(9) e[of k] by (simp add: pages_alloc_def)
qed

lemma held_release:
  assumes inv: "buddy_held {} s" and u: "(i, k) \<in> used_blocks s"
    and c: "rec_count (f (physical_page_record s ! i)) = 0"
      "rec_order (f (physical_page_record s ! i)) = rec_order (physical_page_record s ! i)"
  shows "buddy_held {(i, k)} (record_update i f s)"
    "used_blocks (record_update i f s) = used_blocks s - {(i, k)}"
    "rec_order (physical_page_record (record_update i f s) ! i) = k"
proof -
  note D = buddy_heldD[OF inv]
  let ?s = "record_update i f s"
  have i: "i < npages s" "k = rec_order (physical_page_record s ! i)"
    "rec_count (physical_page_record s ! i) \<noteq> 0"
    using u by (auto simp: used_blocks_def)
  show used: "used_blocks ?s = used_blocks s - {(i, k)}"
    using i c by (auto simp: used_blocks_def split: if_splits)
  show "rec_order (physical_page_record ?s ! i) = k" using i c by simp
  have un: "{(i, k)} \<union> (free_blocks ?s \<union> used_blocks ?s) = {} \<union> (free_blocks s \<union> used_blocks s)"
    using used u by auto
  have fr: "a < npages s \<and> a \<noteq> i" if "(a, b) \<in> free_blocks s" for a b
    using D(6)[OF that] i tiling_fits(2)[OF D(4), of a b] that by auto
  have "lists_ok ?s" using D(2) by (simp add: lists_ok_def)
  moreover have "geometry ?s" by (rule geometry_cong[OF D(1)]) simp_all
  moreover have "(i, k) \<notin> free_blocks s" by (rule buddy_held_used(2)[OF inv u])
  ultimately show "buddy_held {(i, k)} ?s"
    unfolding buddy_held_def un using D(4,6,7,8) fr i c by (auto simp: used)
qed

lemma pages_free_start:
  assumes inv: "buddy_inv s" and u: "(i, k) \<in> used_blocks s"
  shows "pages_free (page_addr s i) s =
    (let s1 = record_update i (\<lambda>r. r\<lparr>rec_count := rec_count r - 1\<rparr>) s
     in if page_refs s i = 1 then merge_pages (page_addr s i) k s1 else Some s1)"
proof -
  have inv0: "buddy_held {} s" using inv by (simp add: buddy_inv_def)
  have i: "i < npages s" "k = rec_order (physical_page_record s ! i)"
    "rec_count (physical_page_record s ! i) \<noteq> 0"
    using u by (auto simp: used_blocks_def)
  then show ?thesis
    using geometry_page_addr[OF buddy_heldD(1)[OF inv0], of i]
    by (simp add: pages_free_def page_refs_def Let_def word_gt_0)
qed

text \<open>Freeing the last reference gives the block back; an earlier one only counts down.\<close>

lemma pages_free_last:
  assumes inv: "buddy_inv s" and u: "(i, k) \<in> used_blocks s" and r: "page_refs s i = 1"
    and ret: "pages_free (page_addr s i) s = Some s'"
  shows "buddy_inv s' \<and> used_blocks s' = used_blocks s - {(i, k)} \<and>
    page_refs s' = (page_refs s)(i := 0) \<and> npages s' = npages s \<and> mem_start s' = mem_start s"
proof -
  have inv0: "buddy_held {} s" using inv by (simp add: buddy_inv_def)
  let ?f = "\<lambda>r. r\<lparr>rec_count := rec_count r - 1\<rparr>"
  let ?s = "record_update i ?f s"
  have i: "i < npages s" using u by (simp add: used_blocks_def)
  have cnt: "rec_count (physical_page_record s ! i) = 1" using r i by (simp add: page_refs_def)
  have H: "buddy_held {(i, k)} ?s" "used_blocks ?s = used_blocks s - {(i, k)}"
    "rec_order (physical_page_record ?s ! i) = k"
    using held_release[OF inv0 u, of ?f] cnt by simp_all
  have "merge_pages (page_addr ?s i) k ?s = Some s'"
    using ret r by (simp add: pages_free_start[OF inv u] page_addr_cong[of ?s s])
  then have M: "buddy_held {} s' \<and> used_blocks s' = used_blocks ?s \<and>
     physical_page_record s' = physical_page_record ?s \<and> mem_start s' = mem_start ?s"
    by (rule merge_pages_ok[OF _ H(1)]) (use H(3) in simp)
  have "page_refs s' = (page_refs s)(i := 0)"
  proof
    fix a show "page_refs s' a = ((page_refs s)(i := 0)) a"
      using M i cnt by (cases "a < npages s") (auto simp: page_refs_def)
  qed
  then show ?thesis using M H(2) by (simp add: buddy_inv_def)
qed

lemma pages_free_returns:
  assumes inv: "buddy_inv s" and u: "(i, k) \<in> used_blocks s"
    and n: "1024 dvd npages s" and o: "(j, l) \<in> used_blocks s" "j \<noteq> i" "j div 1024 = i div 1024"
  shows "\<exists>s'. pages_free (page_addr s i) s = Some s'"
proof (cases "page_refs s i = 1")
  case True
  have inv0: "buddy_held {} s" using inv by (simp add: buddy_inv_def)
  let ?f = "\<lambda>r. r\<lparr>rec_count := rec_count r - 1\<rparr>"
  let ?s = "record_update i ?f s"
  have i: "i < npages s" using u by (simp add: used_blocks_def)
  have cnt: "rec_count (physical_page_record s ! i) = 1" using True i by (simp add: page_refs_def)
  have H: "buddy_held {(i, k)} ?s" "used_blocks ?s = used_blocks s - {(i, k)}"
    "rec_order (physical_page_record ?s ! i) = k"
    using held_release[OF inv0 u, of ?f] cnt by simp_all
  have "\<exists>s'. merge_pages (page_addr ?s i) k ?s = Some s'"
    by (rule merge_pages_returns[OF H(1), of j l]) (use H n o in auto)
  then show ?thesis using True by (simp add: pages_free_start[OF inv u] page_addr_cong[of ?s s])
qed (simp add: pages_free_start[OF inv u])

lemma pages_alloc_SomeD:
  assumes inv: "buddy_inv s" and a: "pages_alloc n s = Some (p, s')"
  shows "\<exists>i k l. 0 < n \<and> n \<le> 1024 \<and> get_power2 n = Some k \<and> n \<le> 2 ^ k \<and> k \<le> l \<and>
     (i, l) \<in> free_blocks s \<and> p = page_addr s i \<and> buddy_inv s' \<and>
     used_blocks s' = insert (i, k) (used_blocks s) \<and> page_refs s' = (page_refs s)(i := 1) \<and>
     npages s' = npages s \<and> mem_start s' = mem_start s"
proof -
  have n: "0 < n" "n \<le> 1024" using a by (auto simp: pages_alloc_def)
  then obtain k where k: "get_power2 n = Some k" "n \<le> 2 ^ k" using get_power2_least by blast
  obtain j l where f: "(j, l) \<in> free_blocks s" "k \<le> l"
    using pages_alloc_exhausted[OF inv n k(1)] a by (metis not_le option.distinct(1))
  show ?thesis using pages_alloc_ok[OF inv n k(1) f] a n k by auto
qed

lemma pages_dup_ok:
  assumes inv: "buddy_inv s" and u: "(i, k) \<in> used_blocks s"
  shows "\<exists>s'. pages_dup (page_addr s i) s = Some (page_addr s i, s') \<and>
     page_refs s' = (page_refs s)(i := page_refs s i + 1) \<and> free_blocks s' = free_blocks s \<and>
     (page_refs s i \<noteq> - 1 \<longrightarrow> buddy_inv s' \<and> used_blocks s' = used_blocks s)"
proof -
  have inv0: "buddy_held {} s" using inv by (simp add: buddy_inv_def)
  note D = buddy_heldD[OF inv0]
  let ?s = "record_update i (\<lambda>r. r\<lparr>rec_count := rec_count r + 1\<rparr>) s"
  have i: "i < npages s" "rec_count (physical_page_record s ! i) \<noteq> 0"
    using u by (auto simp: used_blocks_def)
  have "(1::u16) \<le> rec_count (physical_page_record s ! i)"
    using i(2) by (simp add: word_le_nat_alt Suc_le_eq unat_gt_0)
  then have eq: "pages_dup (page_addr s i) s = Some (page_addr s i, ?s)"
    using i by (simp add: pages_dup_def)
  have refs: "page_refs ?s = (page_refs s)(i := page_refs s i + 1)"
    using i by (auto simp: page_refs_def fun_eq_iff)
  have "buddy_inv ?s \<and> used_blocks ?s = used_blocks s" if m: "page_refs s i \<noteq> - 1"
  proof -
    have "page_refs s i + 1 \<noteq> 0" using m by (simp add: eq_neg_iff_add_eq_0)
    then have used: "used_blocks ?s = used_blocks s"
      using i by (auto simp: used_blocks_def page_refs_def split: if_splits)
    have fr: "a < npages s \<and> a \<noteq> i" if "(a, b) \<in> free_blocks s" for a b
      using D(6)[OF that] i tiling_fits(2)[OF D(4), of a b] that by auto
    have same: "physical_page_record ?s ! a = physical_page_record s ! a" if "(a, b) \<in> free_blocks s" for a b
      using fr[OF that] by simp
    have "lists_ok ?s" using D(2) by (simp add: lists_ok_def)
    moreover have "geometry ?s" by (rule geometry_cong[OF D(1)]) simp_all
    ultimately have "buddy_held {} ?s"
      unfolding buddy_held_def using D(4,6,7,8) same by (auto simp: used)
    then show ?thesis using used by (simp add: buddy_inv_def)
  qed
  then show ?thesis using eq refs by (intro exI[of _ ?s]) simp
qed

subsection \<open>Behind the last region\<close>

text \<open>A block of order 10 in the last region of memory whose buddy would be the region behind it:
  freeing it reads the page record of that region, which does not exist.\<close>

lemma pages_free_last_region:
  assumes inv: "buddy_inv s" and u: "(i, 10) \<in> used_blocks s" and r: "page_refs s i = 1"
    and i: "2048 dvd i" "i + 1024 = npages s"
  shows "pages_free (page_addr s i) s = None"
proof -
  let ?s = "record_update i (\<lambda>r. r\<lparr>rec_count := rec_count r - 1\<rparr>) s"
  have pa: "page_addr ?s = page_addr s" by simp
  have dv: "2 ^ 10 dvd i" using i(1) by (auto intro: dvd_trans)
  have "whois_buddy (page_addr ?s i) 10 ?s = Some (page_addr ?s (buddy_of i 10))"
    by (rule whois_buddy_page[OF dv])
  moreover have "buddy_of i 10 = npages s" using i by (simp add: buddy_of_def)
  moreover have "addr2arrayindex ?s (page_addr s (npages s)) = Some (npages s)"
    using addr2arrayindex_page[of ?s "npages s"] unfolding pa .
  ultimately have "merge_pages (page_addr s i) 10 ?s = None"
    unfolding pa by (subst merge_pages.simps) (simp add: nth_opt_def)
  then show ?thesis using r by (simp add: pages_free_start[OF inv u] Let_def)
qed

section \<open>The initial state\<close>

definition region_list :: "nat \<Rightarrow> nat \<Rightarrow> nat list" where
  "region_list start m = rev (map (\<lambda>j. start + PGSIZE * (1024 * j)) [0..<m])"

lemma region_list_Suc: "region_list start (Suc m) = (start + PGSIZE * (1024 * m)) # region_list start m"
  by (simp add: region_list_def)

lemma mount_loop_regions:
  assumes "mem_end s = start + PGSIZE * (1024 * m)" "j \<le> m" "length (orderarray s) = 11"
  shows "mount_loop (start + PGSIZE * (1024 * j)) 10 s
    = Some (mem_end s, s\<lparr>orderarray := (orderarray s)[10 :=
        rev (map (\<lambda>j. start + PGSIZE * (1024 * j)) [j..<m]) @ orderarray s ! 10]\<rparr>)"
  using assms
proof (induction "m - j" arbitrary: j s)
  case 0
  then show ?case by (subst mount_loop.simps) simp
next
  case (Suc x)
  let ?a = "start + PGSIZE * (1024 * j)"
  let ?s = "s\<lparr>orderarray := (orderarray s)[10 := ?a # orderarray s ! 10]\<rparr>"
  have j: "j < m" using Suc.hyps(2) by simp
  have add: "orderarray_add_front ?a 10 s = Some ?s"
    using Suc.prems by (simp add: orderarray_add_front_def)
  have nxt: "?a + 2 ^ 10 * PGSIZE = start + PGSIZE * (1024 * Suc j)" by simp
  have le: "?a + 2 ^ 10 * PGSIZE \<le> mem_end s" unfolding nxt Suc.prems(1) using j by simp
  have "x = m - Suc j" using Suc.hyps(2) by simp
  then have "mount_loop (start + PGSIZE * (1024 * Suc j)) 10 ?s
    = Some (mem_end ?s, ?s\<lparr>orderarray := (orderarray ?s)[10 :=
        rev (map (\<lambda>j. start + PGSIZE * (1024 * j)) [Suc j..<m]) @ orderarray ?s ! 10]\<rparr>)"
    by (rule Suc.hyps(1)) (use Suc.prems j in simp_all)
  moreover have "mount_loop ?a 10 s = mount_loop (?a + 2 ^ 10 * PGSIZE) 10 ?s"
    by (subst mount_loop.simps) (simp only: add le if_True Option.bind.simps)
  ultimately show ?case unfolding nxt using j Suc.prems(3) by (simp add: upt_conv_Cons)
qed

definition regions :: "nat \<Rightarrow> block set" where
  "regions m = (\<lambda>j. (1024 * j, 10)) ` {..<m}"

lemma tiling_regions: "tiling (1024 * m) (regions m)"
  unfolding tiling_def
proof (intro conjI ballI impI)
  fix b assume "b \<in> regions m"
  then show "2 ^ snd b dvd fst b" by (auto simp: regions_def)
next
  fix b c assume "b \<in> regions m" "c \<in> regions m" "b \<noteq> c"
  then obtain u v where uv: "b = (1024 * u, 10)" "c = (1024 * v, 10)" "u \<noteq> v"
    by (auto simp: regions_def)
  show "pages b \<inter> pages c = {}"
  proof (rule ccontr)
    assume "pages b \<inter> pages c \<noteq> {}"
    then obtain p where "p \<in> pages (1024 * u, 10)" "p \<in> pages (1024 * v, 10)"
      unfolding uv by blast
    then have "1024 * u \<le> p \<and> p < 1024 * u + 1024 \<and> 1024 * v \<le> p \<and> p < 1024 * v + 1024"
      by simp
    then have "u = v" by linarith
    then show False using uv(3) by simp
  qed
next
  have "(\<exists>b\<in>regions m. p \<in> pages b) \<longleftrightarrow> p < 1024 * m" for p
  proof
    assume "\<exists>b\<in>regions m. p \<in> pages b"
    then obtain q where "q < m" "p < 1024 * q + 1024" by (auto simp: regions_def)
    then show "p < 1024 * m" by linarith
  next
    assume "p < 1024 * m"
    then have "p div 1024 < m" by (simp add: less_mult_imp_div_less mult.commute)
    moreover have "p \<in> pages (1024 * (p div 1024), 10)" by auto
    ultimately show "\<exists>b\<in>regions m. p \<in> pages b" unfolding regions_def by blast
  qed
  then show "(\<Union>b\<in>regions m. pages b) = {..<1024 * m}" by blast
qed

lemma buddy_system_init_ok:
  assumes st: "0 < start" "PGSIZE dvd start"
  shows "\<exists>s. buddy_system_init (1024 * m) start (start + PGSIZE * (1024 * m)) = Some s \<and>
    buddy_inv s \<and> used_blocks s = {} \<and> npages s = 1024 * m \<and> mem_start s = start \<and>
    orderarray s = (replicate 11 [])[10 := region_list start m] \<and>
    free_blocks s = regions m"
proof -
  let ?z = "\<lparr>rec_order = 0, rec_count = 0\<rparr>"
  let ?u = "\<lparr>mem_start = start, mem_end = start + PGSIZE * (1024 * m),
    physical_page_record = replicate (1024 * m) ?z, orderarray = replicate 11 []\<rparr>"
  let ?s = "?u\<lparr>orderarray := (replicate 11 [])[10 := region_list start m]\<rparr>"
  have "mount_loop start 10 ?u = Some (mem_end ?u, ?s)"
  proof -
    have "mount_loop (start + PGSIZE * (1024 * 0)) 10 ?u
      = Some (mem_end ?u, ?u\<lparr>orderarray := (orderarray ?u)[10 :=
          rev (map (\<lambda>j. start + PGSIZE * (1024 * j)) [0..<m]) @ orderarray ?u ! 10]\<rparr>)"
      by (rule mount_loop_regions) simp_all
    moreover have "orderarray ?u ! 10 = []" by simp
    ultimately show ?thesis unfolding region_list_def by simp
  qed
  then have "mount_orderlist start 10 ?u = Some ?s"
    by (subst mount_orderlist.simps) simp
  then have eq: "buddy_system_init (1024 * m) start (start + PGSIZE * (1024 * m)) = Some ?s"
    by (simp add: buddy_system_init_def)
  have len: "length (region_list start m) = m" by (simp add: region_list_def)
  have ord: "orderarray ?s ! k = (if k = 10 then region_list start m else [])" if "k < 11" for k
    using that by (auto simp: nth_list_update nth_replicate simp del: replicate_Suc)
  have free: "free_blocks ?s = regions m"
  proof -
    have "(page_addr ?s i \<in> set (region_list start m)) \<longleftrightarrow> (i, 10) \<in> regions m" for i
      by (auto simp: region_list_def regions_def page_addr_def)
    then have "(i, k) \<in> free_blocks ?s \<longleftrightarrow> (i, k) \<in> regions m" for i k
    proof (cases "k = 10")
      case True
      then show ?thesis
        using \<open>(page_addr ?s i \<in> set (region_list start m)) \<longleftrightarrow> (i, 10) \<in> regions m\<close> ord[of 10]
        by (simp add: free_blocks_def)
    next
      case False
      then show ?thesis using ord[of k] by (auto simp: free_blocks_def regions_def)
    qed
    then show ?thesis by auto
  qed
  have used: "used_blocks ?s = {}" by (auto simp: used_blocks_def)
  have lists: "lists_ok ?s"
    unfolding lists_ok_def
  proof (intro allI impI conjI ballI)
    fix k :: nat assume k: "k < 11"
    show "distinct (orderarray ?s ! k)"
      using ord[OF k] by (auto simp: region_list_def distinct_map inj_on_def)
    fix a assume "a \<in> set (orderarray ?s ! k)"
    then obtain j where "j < m" "a = start + PGSIZE * (1024 * j)"
      using ord[OF k] by (auto simp: region_list_def split: if_splits)
    then show "\<exists>i < npages ?s. a = page_addr ?s i"
      by (intro exI[of _ "1024 * j"]) (simp add: page_addr_def)
  qed
  have "tiling (1024 * m) (regions m)" by (rule tiling_regions)
  then have "buddy_held {} ?s"
    unfolding buddy_held_def geometry_def free used using st lists by (auto simp: regions_def)
  then show ?thesis
    unfolding buddy_inv_def using eq free used by (intro exI[of _ ?s] conjI) simp_all
qed

section \<open>The interface of the page allocator\<close>

text \<open>What the clients of the allocator rely on, with addresses and byte lengths.\<close>

locale page_allocator =
  fixes inv :: "'s \<Rightarrow> bool"
    and live :: "'s \<Rightarrow> (nat \<times> nat) set"
    and refs :: "'s \<Rightarrow> nat \<Rightarrow> u16"
    and alloc :: "nat \<Rightarrow> 's \<Rightarrow> (nat \<times> 's) option"
    and free :: "nat \<Rightarrow> 's \<Rightarrow> 's option"
  assumes alloc_inv: "inv s \<Longrightarrow> alloc n s = Some (p, s') \<Longrightarrow> inv s'"
    and alloc_aligned: "inv s \<Longrightarrow> alloc n s = Some (p, s') \<Longrightarrow> p \<noteq> 0 \<and> p mod PGSIZE = 0"
    and alloc_live: "inv s \<Longrightarrow> alloc n s = Some (p, s') \<Longrightarrow>
      \<exists>b. live s' = insert (p, b) (live s) \<and> n * PGSIZE \<le> b \<and>
        (\<forall>(q, c)\<in>live s. {p ..< p + b} \<inter> {q ..< q + c} = {})"
    and alloc_refs: "inv s \<Longrightarrow> alloc n s = Some (p, s') \<Longrightarrow> refs s' p = 1"
    and live_nonempty: "inv s \<Longrightarrow> (p, b) \<in> live s \<Longrightarrow> 0 < b"
    and free_ok: "inv s \<Longrightarrow> (p, b) \<in> live s \<Longrightarrow> refs s p = 1 \<Longrightarrow> free p s = Some s' \<Longrightarrow>
      inv s' \<and> live s' = live s - {(p, b)}"
begin

lemma alloc_fresh:
  assumes "inv s" "alloc n s = Some (p, s')"
  shows "(p, b) \<notin> live s"
proof
  assume "(p, b) \<in> live s"
  moreover have "0 < b" by (rule live_nonempty[OF assms(1)]) fact
  moreover obtain c where "live s' = insert (p, c) (live s)" "n * PGSIZE \<le> c"
    "\<forall>(q, d)\<in>live s. {p ..< p + c} \<inter> {q ..< q + d} = {}" using alloc_live[OF assms] by blast
  moreover have "0 < c" using live_nonempty[of s' p c] alloc_inv[OF assms] calculation(3) by blast
  ultimately have "p \<in> {p ..< p + c} \<inter> {p ..< p + b}" "{p ..< p + c} \<inter> {p ..< p + b} = {}" by auto
  then show False by blast
qed

lemma alloc_then_free:
  assumes "inv s" "alloc n s = Some (p, s1)" "free p s1 = Some s2"
  shows "inv s2 \<and> live s2 = live s"
proof -
  obtain b where b: "live s1 = insert (p, b) (live s)" using alloc_live[OF assms(1,2)] by blast
  have "inv s2 \<and> live s2 = live s1 - {(p, b)}"
    by (rule free_ok[OF alloc_inv[OF assms(1,2)] _ alloc_refs[OF assms(1,2)] assms(3)])
      (simp add: b)
  then show ?thesis using b alloc_fresh[OF assms(1,2), of b] by auto
qed

lemma two_allocs_disjoint:
  assumes "inv s" "alloc n s = Some (p, s1)" "alloc m s1 = Some (q, s2)"
  shows "{p ..< p + n * PGSIZE} \<inter> {q ..< q + m * PGSIZE} = {}"
proof -
  obtain b where b: "live s1 = insert (p, b) (live s)" "n * PGSIZE \<le> b"
    using alloc_live[OF assms(1,2)] by blast
  obtain c where c: "m * PGSIZE \<le> c" "\<forall>(x, d)\<in>live s1. {q ..< q + c} \<inter> {x ..< x + d} = {}"
    using alloc_live[OF alloc_inv[OF assms(1,2)] assms(3)] by blast
  then have "{q ..< q + c} \<inter> {p ..< p + b} = {}" using b(1) by blast
  moreover have "{p ..< p + n * PGSIZE} \<subseteq> {p ..< p + b}" "{q ..< q + m * PGSIZE} \<subseteq> {q ..< q + c}"
    using b(2) c(1) by auto
  ultimately show ?thesis by blast
qed

end

definition live_blocks :: "buddy \<Rightarrow> (nat \<times> nat) set" where
  "live_blocks s = (\<lambda>(i, k). (page_addr s i, 2 ^ k * PGSIZE)) ` used_blocks s"

definition addr_refs :: "buddy \<Rightarrow> nat \<Rightarrow> u16" where
  "addr_refs s a = page_refs s (page_index s a)"

lemma page_index_addr [simp]: "page_index s (page_addr s i) = i"
  by (simp add: page_index_def page_addr_def)

lemma bytes_disjoint:
  assumes "pages (i, k) \<inter> pages (j, l) = {}"
  shows "{page_addr s i ..< page_addr s i + 2 ^ k * PGSIZE} \<inter>
         {page_addr s j ..< page_addr s j + 2 ^ l * PGSIZE} = {}"
proof -
  have "i + 2 ^ k \<le> j \<or> j + 2 ^ l \<le> i"
  proof (rule ccontr)
    assume "\<not> ?thesis"
    then have "max i j \<in> pages (i, k) \<inter> pages (j, l)" by (auto simp: max_def)
    then show False using assms by blast
  qed
  moreover have "page_addr s x \<le> page_addr s y" if "x \<le> y" for x y
    using that by (simp add: page_addr_def)
  ultimately show ?thesis unfolding page_addr_add by fastforce
qed

interpretation pa: page_allocator buddy_inv live_blocks addr_refs pages_alloc pages_free
proof unfold_locales
  fix s n p s'
  assume inv: "buddy_inv s" and a: "pages_alloc n s = Some (p, s')"
  obtain i k l where A: "n \<le> 2 ^ k" "k \<le> l" "(i, l) \<in> free_blocks s" "p = page_addr s i"
    "buddy_inv s'" "used_blocks s' = insert (i, k) (used_blocks s)"
    "page_refs s' = (page_refs s)(i := 1)" "mem_start s' = mem_start s"
    using pages_alloc_SomeD[OF inv a] by blast
  have inv0: "buddy_held {} s" using inv by (simp add: buddy_inv_def)
  have pa: "page_addr s' = page_addr s" by (rule page_addr_cong) (rule A(8))
  show "buddy_inv s'" by (rule A(5))
  show "p \<noteq> 0 \<and> p mod PGSIZE = 0"
    unfolding A(4) by (rule geometry_page_addr[OF buddy_heldD(1)[OF inv0]])
  have "{p ..< p + 2 ^ k * PGSIZE} \<inter> {q ..< q + c} = {}" if qc: "(q, c) \<in> live_blocks s" for q c
  proof -
    obtain j m where u: "(j, m) \<in> used_blocks s" "q = page_addr s j" "c = 2 ^ m * PGSIZE"
      using qc by (auto simp: live_blocks_def)
    show ?thesis unfolding u(2,3) A(4)
      by (rule bytes_disjoint[OF held_used_new(1)[OF inv0 A(3) pages_le[OF A(2)] u(1)]])
  qed
  then have "\<forall>(q, c)\<in>live_blocks s. {p ..< p + 2 ^ k * PGSIZE} \<inter> {q ..< q + c} = {}" by blast
  moreover have "live_blocks s' = insert (p, 2 ^ k * PGSIZE) (live_blocks s)"
    by (simp add: live_blocks_def A(4,6) pa)
  moreover have "n * PGSIZE \<le> 2 ^ k * PGSIZE" using A(1) by simp
  ultimately show "\<exists>b. live_blocks s' = insert (p, b) (live_blocks s) \<and> n * PGSIZE \<le> b \<and>
        (\<forall>(q, c)\<in>live_blocks s. {p ..< p + b} \<inter> {q ..< q + c} = {})"
    by blast
  show "addr_refs s' p = 1"
    using A(7) page_index_addr[of s' i] by (simp add: addr_refs_def A(4) pa)
next
  fix s p b
  assume "(p, b) \<in> live_blocks s"
  then show "0 < b" by (auto simp: live_blocks_def)
next
  fix s p b s'
  assume inv: "buddy_inv s" and l: "(p, b) \<in> live_blocks s" and r: "addr_refs s p = 1"
    and f: "pages_free p s = Some s'"
  obtain i k where u: "(i, k) \<in> used_blocks s" "p = page_addr s i" "b = 2 ^ k * PGSIZE"
    using l by (auto simp: live_blocks_def)
  have F: "buddy_inv s'" "used_blocks s' = used_blocks s - {(i, k)}" "mem_start s' = mem_start s"
    using pages_free_last[OF inv u(1)] r f by (auto simp: addr_refs_def u(2))
  have pa: "page_addr s' = page_addr s" by (rule page_addr_cong) (rule F(3))
  have "inj_on (\<lambda>(i, k). (page_addr s i, 2 ^ k * PGSIZE)) (used_blocks s)"
    by (auto simp: inj_on_def)
  then have "live_blocks s' = live_blocks s - {(p, b)}"
    using u by (auto simp: live_blocks_def F(2) pa)
  then show "buddy_inv s' \<and> live_blocks s' = live_blocks s - {(p, b)}" using F(1) by simp
qed

section \<open>The memory of the machine\<close>

text \<open>\<open>phymem_init\<close> gives the allocator the memory between \<open>KERNEL_END_LIMIT\<close> and \<open>PHYSTOP\<close>:
  31 regions of \<open>2 ^ 10\<close> pages.\<close>

abbreviation (input) KERNEL_END_LIMIT :: nat where "KERNEL_END_LIMIT \<equiv> 0x80400000"
abbreviation (input) PHYSTOP :: nat where "PHYSTOP \<equiv> 0x88000000"

definition phymem_init :: "buddy option" where
  "phymem_init =
     buddy_system_init ((PHYSTOP - KERNEL_END_LIMIT) div PGSIZE) KERNEL_END_LIMIT PHYSTOP"

definition boot_buddy :: buddy where
  "boot_buddy = the phymem_init"

lemma boot_buddy:
  "phymem_init = Some boot_buddy" "buddy_inv boot_buddy" "used_blocks boot_buddy = {}"
  "free_blocks boot_buddy = regions 31" "npages boot_buddy = 31744" "mem_start boot_buddy = KERNEL_END_LIMIT"
proof -
  obtain s where s: "buddy_system_init (1024 * 31) KERNEL_END_LIMIT (KERNEL_END_LIMIT + PGSIZE * (1024 * 31)) = Some s"
    "buddy_inv s" "used_blocks s = {}" "npages s = 1024 * 31" "mem_start s = KERNEL_END_LIMIT"
    "free_blocks s = regions 31"
    using buddy_system_init_ok[of KERNEL_END_LIMIT 31] by auto
  have init: "phymem_init = Some s" using s(1) by (simp add: phymem_init_def)
  have "boot_buddy = s" unfolding boot_buddy_def init by simp
  with init show "phymem_init = Some boot_buddy" "buddy_inv boot_buddy" "used_blocks boot_buddy = {}"
    "free_blocks boot_buddy = regions 31" "npages boot_buddy = 31744" "mem_start boot_buddy = KERNEL_END_LIMIT"
    using s by simp_all
qed

lemma boot_buddy_allocates:
  assumes "0 < n" "n \<le> 1024"
  obtains k i s' where "get_power2 n = Some k" "k \<le> 10" "pages_alloc n boot_buddy = Some (page_addr boot_buddy i, s')"
    "buddy_inv s'" "used_blocks s' = {(i, k)}" "page_refs s' i = 1" "npages s' = 31744"
    "mem_start s' = KERNEL_END_LIMIT" "i \<in> (\<lambda>j. 1024 * j) ` {..<31}"
proof -
  obtain k where k: "get_power2 n = Some k" "k \<le> 10" using get_power2_least[OF assms(2)] by blast
  have "(0, 10) \<in> free_blocks boot_buddy" unfolding boot_buddy(4) by (auto simp: regions_def)
  from pages_alloc_ok[OF boot_buddy(2) assms k(1) this k(2)] show ?thesis
    using that[OF k] boot_buddy by (auto simp: regions_def)
qed

text \<open>A region with two blocks of order 9, both in use.\<close>

definition two_halves :: buddy where
  "two_halves = \<lparr>mem_start = PGSIZE, mem_end = PGSIZE + PGSIZE * 1024,
     physical_page_record = (replicate 1024 \<lparr>rec_order = 0, rec_count = 0\<rparr>)
       [0 := \<lparr>rec_order = 9, rec_count = 1\<rparr>, 512 := \<lparr>rec_order = 9, rec_count = 1\<rparr>],
     orderarray = replicate 11 []\<rparr>"

lemma two_halves:
  "buddy_inv two_halves" "used_blocks two_halves = {(0, 9), (512, 9)}" "npages two_halves = 1024"
proof -
  show used: "used_blocks two_halves = {(0, 9), (512, 9)}"
    by (auto simp: used_blocks_def two_halves_def nth_list_update split: if_splits)
  show np: "npages two_halves = 1024" by (simp add: two_halves_def)
  have orders: "orderarray two_halves ! k = []" if "k < 11" for k
    using that by (simp add: two_halves_def)
  then have free: "free_blocks two_halves = {}" by (auto simp: free_blocks_def)
  have "lists_ok two_halves" using orders by (simp add: lists_ok_def)
  moreover have "tiling 1024 {(0, 9), (512, 9)}"
    unfolding tiling_def by (auto simp: pages_def)
  moreover have "geometry two_halves" by (simp add: geometry_def two_halves_def)
  ultimately show "buddy_inv two_halves"
    by (simp add: buddy_inv_def buddy_held_def used free np)
qed

section \<open>Properties\<close>

text \<open>C21. A successful \<open>pages_alloc\<close> returns the address of a block that is aligned to its own
  size, holds at least the requested pages, overlaps no block in use, and is recorded with one
  reference; the invariant of the allocator is kept.\<close>

theorem buddy_alloc_fresh_block:
  assumes "buddy_inv s" "pages_alloc n s = Some (p, s')"
  shows "buddy_inv s' \<and> (\<exists>i k. p = page_addr s i \<and> n \<le> 2 ^ k \<and> 2 ^ k dvd i \<and> i + 2 ^ k \<le> npages s \<and>
    (\<forall>b\<in>used_blocks s. pages (i, k) \<inter> pages b = {}) \<and>
    used_blocks s' = insert (i, k) (used_blocks s) \<and> page_refs s' = (page_refs s)(i := 1))"
proof -
  obtain i k l where A: "n \<le> 2 ^ k" "k \<le> l" "(i, l) \<in> free_blocks s" "p = page_addr s i"
    "buddy_inv s'" "used_blocks s' = insert (i, k) (used_blocks s)"
    "page_refs s' = (page_refs s)(i := 1)" "npages s' = npages s"
    using pages_alloc_SomeD[OF assms] by blast
  have inv: "buddy_held {} s" "buddy_held {} s'" using assms(1) A(5) by (simp_all add: buddy_inv_def)
  have "i + 2 ^ k \<le> npages s'" "2 ^ k dvd i" using buddy_held_used(3,4)[OF inv(2), of i k] A(6) by simp_all
  moreover have "\<forall>b\<in>used_blocks s. pages (i, k) \<inter> pages b = {}"
    using held_used_new(1)[OF inv(1) A(3) pages_le[OF A(2)]] by blast
  ultimately show ?thesis using A by auto
qed

lemma buddy_alloc_fresh_block_witness:
  "\<exists>p s'. pages_alloc 3 boot_buddy = Some (p, s') \<and> buddy_inv s' \<and>
    (\<exists>i k. p = page_addr boot_buddy i \<and> 3 \<le> (2::nat) ^ k \<and> used_blocks s' = {(i, k)})"
proof -
  obtain k i s' where a: "pages_alloc 3 boot_buddy = Some (page_addr boot_buddy i, s')"
    by (rule boot_buddy_allocates[of 3]) auto
  show ?thesis using buddy_alloc_fresh_block[OF boot_buddy(2) a] a boot_buddy(3) by auto
qed

text \<open>C27. A request for 1 to 1024 pages succeeds exactly when some free block is large enough:
  the allocator never fails while it has one, and otherwise stops in its assertion.\<close>

theorem buddy_alloc_total:
  assumes "buddy_inv s" "0 < n" "n \<le> 1024"
  shows "\<exists>k. get_power2 n = Some k \<and> n \<le> 2 ^ k \<and> (\<forall>j < k. 2 ^ j < n) \<and>
    (pages_alloc n s \<noteq> None \<longleftrightarrow> (\<exists>j l. (j, l) \<in> free_blocks s \<and> k \<le> l))"
proof -
  obtain k where k: "get_power2 n = Some k" "n \<le> 2 ^ k" "\<forall>j < k. 2 ^ j < n"
    using get_power2_least[OF assms(3)] by blast
  have "pages_alloc n s \<noteq> None" if "(j, l) \<in> free_blocks s" "k \<le> l" for j l
    using pages_alloc_ok[OF assms k(1) that] by auto
  moreover have "\<exists>j l. (j, l) \<in> free_blocks s \<and> k \<le> l" if "pages_alloc n s \<noteq> None"
    using pages_alloc_exhausted[OF assms k(1)] that not_le by blast
  ultimately have "pages_alloc n s \<noteq> None \<longleftrightarrow> (\<exists>j l. (j, l) \<in> free_blocks s \<and> k \<le> l)" by blast
  then show ?thesis using k by (intro exI[of _ k] conjI)
qed

lemma buddy_alloc_total_witness:
  "\<exists>k. get_power2 5 = Some k \<and> pages_alloc 5 boot_buddy \<noteq> None"
proof -
  have "(0, 10) \<in> free_blocks boot_buddy" unfolding boot_buddy(4) by (auto simp: regions_def)
  moreover obtain k where "get_power2 5 = Some k" "k \<le> 10" using get_power2_least[of 5] by auto
  ultimately show ?thesis using buddy_alloc_total[OF boot_buddy(2), of 5] by fastforce
qed

text \<open>What a free leaves on the lists. \<open>block_at i k\<close> is the aligned block of order \<open>k\<close> around page \<open>i\<close>;
  \<open>shows_free s b k\<close>: the record of page \<open>b\<close> reads as a free block of order \<open>k\<close>, the test of the merge loop.\<close>

definition block_at :: "nat \<Rightarrow> nat \<Rightarrow> nat" where
  "block_at i k = i div 2 ^ k * 2 ^ k"

definition shows_free :: "buddy \<Rightarrow> nat \<Rightarrow> nat \<Rightarrow> bool" where
  "shows_free s b k \<longleftrightarrow> rec_count (physical_page_record s ! b) = 0 \<and> rec_order (physical_page_record s ! b) = k"

lemma block_at_aligned: "2 ^ k dvd i \<Longrightarrow> block_at i k = i"
  by (simp add: block_at_def)

lemma block_at_min:
  assumes "2 ^ k dvd i" "Suc k \<le> j"
  shows "block_at (min i (buddy_of i k)) j = block_at i j"
proof -
  obtain q where q: "i = 2 ^ k * q" using assms(1) by blast
  have "(2::nat) ^ k \<noteq> 0" by simp
  have "min i (buddy_of i k) div 2 ^ Suc k = i div 2 ^ Suc k"
    unfolding q buddy_of_def by (auto elim!: oddE evenE simp: min_def algebra_simps)
  moreover have "x div 2 ^ j = x div 2 ^ Suc k div 2 ^ (j - Suc k)" for x :: nat
    using assms(2) by (simp only: div_mult2_eq[symmetric] power_add[symmetric]) simp
  ultimately show ?thesis by (simp add: block_at_def)
qed

lemma held_disjoint:
  assumes "buddy_held {(i, k)} s" "b \<in> free_blocks s"
  shows "pages b \<inter> pages (i, k) = {}"
proof -
  note D = buddy_heldD[OF assms(1)]
  have "b \<noteq> (i, k)" using D(3) assms(2) by blast
  then show ?thesis using D(4) assms(2) unfolding tiling_def by blast
qed

definition merged_to :: "nat \<Rightarrow> nat \<Rightarrow> buddy \<Rightarrow> buddy \<Rightarrow> nat \<Rightarrow> bool" where
  "merged_to i k s s' n \<longleftrightarrow> k \<le> n \<and> (\<forall>m. k \<le> m \<and> m < n \<longrightarrow> shows_free s (buddy_of (block_at i m) m) m) \<and>
     \<not> shows_free s (buddy_of (block_at i n) n) n \<and> pages (i, k) \<subseteq> pages (block_at i n, n) \<and>
     free_blocks s' = insert (block_at i n, n) {b \<in> free_blocks s. pages b \<inter> pages (block_at i n, n) = {}}"

lemma merge_pages_blocks:
  "merge_pages (page_addr s i) k s = Some s' \<Longrightarrow> buddy_held {(i, k)} s \<Longrightarrow>
   rec_order (physical_page_record s ! i) \<le> k \<Longrightarrow> \<exists>n. merged_to i k s s' n"
proof (induction "page_addr s i" k s arbitrary: i rule: merge_pages.induct)
  case (1 k s)
  note inv = 1(3)
  note D = buddy_heldD[OF inv]
  let ?b = "buddy_of i k" and ?m = "min i (buddy_of i k)"
  have al: "2 ^ k dvd i" by (rule tiling_aligned[OF D(4), of i k]) simp
  have who: "whois_buddy (page_addr s i) k s = Some (page_addr s ?b)"
    by (rule whois_buddy_page[OF al])
  let ?r = "physical_page_record s ! ?b"
  have b: "?b < npages s"
    and step: "(if rec_count ?r = 0 \<and> rec_order ?r = k
       then do { s1 \<leftarrow> orderarray_del (page_addr s ?b) s;
                 merge_pages (min (page_addr s i) (page_addr s ?b)) (k + 1) s1 }
       else orderarray_add_front (page_addr s i) k s) = Some s'"
    using 1(2) who by (subst (asm) merge_pages.simps, auto simp: hoare_simps)+
  have at: "block_at i k = i" by (rule block_at_aligned[OF al])
  show ?case
  proof (cases "shows_free s ?b k")
    case True
    note T = True[unfolded shows_free_def]
    obtain s1 where s1: "orderarray_del (page_addr s ?b) s = Some s1" "k \<le> 10"
      "buddy_held {(?m, Suc k)} s1" "(?b, k) \<in> free_blocks s"
      "physical_page_record s1 = physical_page_record s" "mem_start s1 = mem_start s"
      using held_merge[OF inv b] T by blast
    have pa: "page_addr s1 = page_addr s" by (rule page_addr_cong) (rule s1(6))
    have mn: "min (page_addr s i) (page_addr s ?b) = page_addr s1 ?m"
      unfolding pa by (auto simp: min_def page_addr_def)
    have s1_eq: "s1 = s\<lparr>orderarray := map (removeAll (page_addr s ?b)) (orderarray s)\<rparr>"
      using s1(1) by (auto simp: orderarray_del_def hoare_simps)
    have free1: "free_blocks s1 = {b \<in> free_blocks s. fst b \<noteq> ?b}"
      unfolding s1_eq free_blocks_del[OF D(9)] by auto
    have ord: "rec_order (physical_page_record s1 ! ?m) \<le> k + 1"
      using 1(4) T s1(5) by (auto simp: min_def)
    have rest: "merge_pages (page_addr s1 ?m) (k + 1) s1 = Some s'" using step T s1(1) mn by simp
    have inv1: "buddy_held {(?m, k + 1)} s1" using s1(3) by simp
    have "\<exists>n. merged_to ?m (k + 1) s1 s' n"
      using 1(1)[of "page_addr s ?b" ?b ?r s1 ?m] who b T s1(1) mn inv1 ord rest by simp
    then obtain n where n: "k + 1 \<le> n" "\<forall>j. k + 1 \<le> j \<and> j < n \<longrightarrow> shows_free s1 (buddy_of (block_at ?m j) j) j"
      "\<not> shows_free s1 (buddy_of (block_at ?m n) n) n" "pages (?m, k + 1) \<subseteq> pages (block_at ?m n, n)"
      "free_blocks s' = insert (block_at ?m n, n) {b \<in> free_blocks s1. pages b \<inter> pages (block_at ?m n, n) = {}}"
      unfolding merged_to_def by blast
    have bm: "block_at ?m j = block_at i j" if "Suc k \<le> j" for j by (rule block_at_min[OF al that])
    have sf: "shows_free s1 = shows_free s" by (simp add: shows_free_def s1(5) fun_eq_iff)
    have two: "pages (i, k) \<union> pages (?b, k) = pages (?m, k + 1)"
    proof -
      have "?m = i \<and> ?b = ?m + 2 ^ k \<or> ?m = ?b \<and> i = ?m + 2 ^ k"
        using buddy_of_aligned(4)[OF al] unfolding doubleton_eq_iff by metis
      then show ?thesis using pages_halves[of ?m k] by (metis Suc_eq_plus1 Un_commute)
    qed
    have below: "shows_free s (buddy_of (block_at i j) j) j" if "k \<le> j" "j < n" for j
    proof (cases "j = k")
      case False
      then have "Suc k \<le> j" using that(1) by simp
      then show ?thesis using n(2)[rule_format, of j] that(2) bm[of j] unfolding sf by simp
    qed (use True at in simp)
    have "{x \<in> free_blocks s1. pages x \<inter> pages (block_at i n, n) = {}} = {x \<in> free_blocks s. pages x \<inter> pages (block_at i n, n) = {}}"
    proof -
      have "pages x \<inter> pages (block_at i n, n) \<noteq> {}" if "fst x = ?b" for x
      proof -
        have "?b \<in> pages (?b, k)" by simp
        moreover have at: "block_at ?m n = block_at i n" using bm[of n] n(1) by simp
        ultimately have "?b \<in> pages (block_at i n, n)" using two n(4) unfolding at by blast
        moreover have "?b \<in> pages x" using pages_nonempty[of x] that by simp
        ultimately show ?thesis by blast
      qed
      then show ?thesis unfolding free1 by blast
    qed
    moreover have "pages (i, k) \<subseteq> pages (block_at i n, n)" using two n(1,4) bm[of n] by auto
    ultimately show ?thesis using n(1,3,5) below bm[of n] unfolding sf merged_to_def by (intro exI[of _ n]) simp
  next
    case False
    have add: "orderarray_add_front (page_addr s i) k s = Some s'"
      using step False unfolding shows_free_def by (simp only: if_False)
    have "k < 11" using orderarray_add_frontD[OF add] D(9) by simp
    then have "free_blocks s' = insert (i, k) (free_blocks s)" using held_put[OF inv _ 1(4)] add by auto
    moreover have "{b \<in> free_blocks s. pages b \<inter> pages (i, k) = {}} = free_blocks s"
      using held_disjoint[OF inv] by blast
    ultimately show ?thesis using False at unfolding merged_to_def by (intro exI[of _ k]) auto
  qed
qed

text \<open>The orders in the records are not touched by a free: a merged block keeps the order of its first part.\<close>

lemma pages_free_merged:
  assumes "buddy_inv s" "(i, k) \<in> used_blocks s" "page_refs s i = 1" "1024 dvd npages s"
    "(j, l) \<in> used_blocks s" "j \<noteq> i" "j div 1024 = i div 1024"
  obtains s' n where "pages_free (page_addr s i) s = Some s'" "buddy_inv s'"
    "used_blocks s' = used_blocks s - {(i, k)}" "page_refs s' = (page_refs s)(i := 0)"
    "npages s' = npages s" "mem_start s' = mem_start s"
    "physical_page_record s' = (physical_page_record s)[i := (physical_page_record s ! i)\<lparr>rec_count := 0\<rparr>]"
    "k \<le> n" "\<forall>m. k \<le> m \<and> m < n \<longrightarrow> shows_free s' (buddy_of (block_at i m) m) m"
    "\<not> shows_free s' (buddy_of (block_at i n) n) n"
    "free_blocks s' = insert (block_at i n, n) {b \<in> free_blocks s. pages b \<inter> pages (block_at i n, n) = {}}"
proof -
  have inv0: "buddy_held {} s" using assms(1) by (simp add: buddy_inv_def)
  let ?f = "\<lambda>r. r\<lparr>rec_count := rec_count r - 1\<rparr>"
  let ?s = "record_update i ?f s"
  obtain s' where f: "pages_free (page_addr s i) s = Some s'" using pages_free_returns[OF assms(1,2,4-7)] by blast
  note L = pages_free_last[OF assms(1-3) f]
  have i: "i < npages s" using assms(2) by (simp add: used_blocks_def)
  have cnt: "rec_count (physical_page_record s ! i) = 1" using assms(3) i by (simp add: page_refs_def)
  have H: "buddy_held {(i, k)} ?s" "rec_order (physical_page_record ?s ! i) = k"
    using held_release[OF inv0 assms(2), of ?f] cnt by simp_all
  have m: "merge_pages (page_addr ?s i) k ?s = Some s'"
    using f assms(3) by (simp add: pages_free_start[OF assms(1,2)] page_addr_cong[of ?s s])
  have rs: "physical_page_record s' = physical_page_record ?s" using merge_pages_ok[OF m H(1)] H(2) by simp
  then have sf: "shows_free s' = shows_free ?s" by (simp add: shows_free_def fun_eq_iff)
  have fr: "free_blocks ?s = free_blocks s" by (simp add: free_blocks_def page_addr_def)
  have "rec_order (physical_page_record ?s ! i) \<le> k" using H(2) by simp
  from merge_pages_blocks[OF m H(1) this] obtain n where "merged_to i k ?s s' n" by blast
  note n = this[unfolded merged_to_def fr, folded sf]
  have "physical_page_record s' = (physical_page_record s)[i := (physical_page_record s ! i)\<lparr>rec_count := 0\<rparr>]"
    unfolding rs using cnt by (simp add: record_update_def)
  then show ?thesis using that[of s' n] f L n by blast
qed

text \<open>C26. \<open>pages_free\<close> of the last reference of a block forgets it and merges it: the block on the free
  lists afterwards is the aligned block around it of the least order whose buddy's record does not read as
  free of that order, and the free blocks it swallowed are off the lists; the others, the blocks in use and
  their references stay. It returns whenever the region of 1024 pages has another block in use.\<close>

theorem buddy_free_merges:
  assumes "buddy_inv s" "(i, k) \<in> used_blocks s" "page_refs s i = 1" "1024 dvd npages s"
    "(j, l) \<in> used_blocks s" "j \<noteq> i" "j div 1024 = i div 1024"
  shows "\<exists>s' n. pages_free (page_addr s i) s = Some s' \<and> buddy_inv s' \<and>
    used_blocks s' = used_blocks s - {(i, k)} \<and> page_refs s' = (page_refs s)(i := 0) \<and>
    k \<le> n \<and> (\<forall>m. k \<le> m \<and> m < n \<longrightarrow> shows_free s' (buddy_of (block_at i m) m) m) \<and>
    \<not> shows_free s' (buddy_of (block_at i n) n) n \<and>
    free_blocks s' = insert (block_at i n, n) {b \<in> free_blocks s. pages b \<inter> pages (block_at i n, n) = {}}"
  by (rule pages_free_merged[OF assms]) blast

lemma buddy_free_merges_witness:
  "buddy_inv two_halves \<and> (\<exists>s'. pages_free (page_addr two_halves 0) two_halves = Some s' \<and> buddy_inv s' \<and>
    used_blocks s' = {(512, 9)} \<and> free_blocks s' = {(0, 9)})"
proof -
  have refs: "page_refs two_halves 0 = 1" by (simp add: page_refs_def two_halves_def)
  have u: "(0, 9) \<in> used_blocks two_halves" "(512, 9) \<in> used_blocks two_halves" "1024 dvd npages two_halves"
    using two_halves by simp_all
  obtain s' n where s': "pages_free (page_addr two_halves 0) two_halves = Some s'" "buddy_inv s'"
    "used_blocks s' = used_blocks two_halves - {(0, 9)}" "9 \<le> n" "page_refs s' = (page_refs two_halves)(0 := 0)"
    "\<forall>m. 9 \<le> m \<and> m < n \<longrightarrow> shows_free s' (buddy_of (block_at 0 m) m) m"
    "free_blocks s' = insert (block_at 0 n, n) {b \<in> free_blocks two_halves. pages b \<inter> pages (block_at 0 n, n) = {}}"
    using buddy_free_merges[OF two_halves(1) u(1) refs u(3,2)] two_halves(2) by auto
  have free: "free_blocks two_halves = {}" by (auto simp: free_blocks_def two_halves_def)
  have "\<not> shows_free s' 512 9"
  proof
    assume "shows_free s' 512 9"
    then have "(512, 9) \<notin> used_blocks s'" by (simp add: shows_free_def used_blocks_def)
    then show False using s'(3) two_halves(2) by simp
  qed
  then have "n = 9" using s'(4) s'(6)[rule_format, of 9] by (cases "n = 9") (auto simp: block_at_def buddy_of_def)
  then show ?thesis using s' two_halves free by (auto simp: block_at_def)
qed

text \<open>The merge does not record the order of the block it makes. Four single pages in a row, freed one after
  the other, end as two free buddies of two pages each, which the allocator never joins.\<close>

definition four_pages :: "nat \<Rightarrow> block set" where
  "four_pages i = {(i, 0), (i + 1, 0), (i + 2, 0), (i + 3, 0)}"

lemma block_at_add:
  assumes "2 ^ a dvd i" "j < 2 ^ a" "a \<le> n"
  shows "block_at (i + j) n = block_at i n"
proof -
  obtain q where q: "i = 2 ^ a * q" using assms(1) by blast
  have "x div 2 ^ n = x div 2 ^ a div 2 ^ (n - a)" for x :: nat
    using assms(3) by (simp only: div_mult2_eq[symmetric] power_add[symmetric]) simp
  moreover have "(i + j) div 2 ^ a = i div 2 ^ a" unfolding q using assms(2) by simp
  ultimately show ?thesis by (simp add: block_at_def)
qed

lemma in_block_at: "i \<in> pages (block_at i n, n)"
proof -
  have "i mod 2 ^ n < 2 ^ n" by simp
  then show ?thesis using div_mult_mod_eq[of i "2 ^ n"] unfolding block_at_def in_pages by linarith
qed

lemma free_used_apart:
  assumes "buddy_inv s" "(b, n) \<in> free_blocks s" "(u, k) \<in> used_blocks s"
  shows "u \<notin> pages (b, n)"
proof
  assume a: "u \<in> pages (b, n)"
  have inv: "buddy_held {} s" using assms(1) by (simp add: buddy_inv_def)
  have "u \<in> pages (u, k)" by simp
  then have "(b, n) = (u, k)" using tiling_unique[OF buddy_heldD(4)[OF inv], of "(b, n)" "(u, k)" u] a assms(2,3) by blast
  then show False using buddy_held_used(2)[OF inv assms(3)] assms(2) by simp
qed

lemma pair_freed:
  assumes inv: "buddy_inv s" and al: "2 dvd x" and u: "(x, 0) \<in> used_blocks s" "(x + 1, 0) \<in> used_blocks s"
    and refs: "page_refs s x = 1" "page_refs s (x + 1) = 1" and stop: "\<not> shows_free s (buddy_of x 1) 1"
    and np: "1024 dvd npages s" and o: "(j, l) \<in> used_blocks s" "j \<noteq> x" "j \<noteq> x + 1" "j div 1024 = x div 1024"
  obtains s1 s2 where "pages_free (page_addr s x) s = Some s1" "pages_free (page_addr s (x + 1)) s1 = Some s2"
    "buddy_inv s2" "used_blocks s2 = used_blocks s - {(x, 0), (x + 1, 0)}"
    "\<forall>y. y \<noteq> x \<and> y \<noteq> x + 1 \<longrightarrow> page_refs s2 y = page_refs s y" "npages s2 = npages s" "mem_start s2 = mem_start s"
    "\<forall>y. rec_order (physical_page_record s2 ! y) = rec_order (physical_page_record s ! y)"
    "(x, 1) \<in> free_blocks s2" "\<forall>b\<in>free_blocks s. pages b \<inter> pages (x, 1) = {} \<longrightarrow> b \<in> free_blocks s2"
proof -
  have x: "x + 1 < npages s" "rec_order (physical_page_record s ! x) = 0" using u by (auto simp: used_blocks_def)
  have al1: "2 ^ 1 dvd x" "\<not> 2 dvd x + 1" using al by simp_all
  have to: "block_at (x + 1) n = block_at x n" if "1 \<le> n" for n
    using that by (intro block_at_add[OF al1(1)]) simp_all
  obtain s1 n1 where s1: "pages_free (page_addr s x) s = Some s1" "buddy_inv s1"
    "used_blocks s1 = used_blocks s - {(x, 0)}" "page_refs s1 = (page_refs s)(x := 0)" "npages s1 = npages s" "mem_start s1 = mem_start s"
    "physical_page_record s1 = (physical_page_record s)[x := (physical_page_record s ! x)\<lparr>rec_count := 0\<rparr>]"
    "free_blocks s1 = insert (block_at x n1, n1) {b \<in> free_blocks s. pages b \<inter> pages (block_at x n1, n1) = {}}"
    by (rule pages_free_merged[OF inv u(1) refs(1) np o(1,2,4)])
  have "n1 = 0"
  proof (rule ccontr)
    assume "n1 \<noteq> 0"
    then have "x + 1 \<in> pages (block_at x n1, n1)" using in_block_at[of "x + 1" n1] to[of n1] by simp
    moreover have "(x + 1, 0) \<in> used_blocks s1" using s1(3) u by simp
    ultimately show False using free_used_apart[OF s1(2), of "block_at x n1" n1] s1(8) by blast
  qed
  then have f1: "free_blocks s1 = insert (x, 0) {b \<in> free_blocks s. pages b \<inter> pages (x, 0) = {}}"
    using s1(8) by (simp add: block_at_def)
  have v: "(x + 1, 0) \<in> used_blocks s1" "page_refs s1 (x + 1) = 1" "1024 dvd npages s1" "(j, l) \<in> used_blocks s1"
    using s1 u refs np o by simp_all
  have "(x + 1) div 1024 = x div 1024"
  proof -
    obtain q where "x = 2 * q" using al by blast
    then have "(x + 1) div 2 = x div 2" by simp
    moreover have "y div 1024 = y div 2 div 512" for y :: nat by (simp flip: div_mult2_eq)
    ultimately show ?thesis by simp
  qed
  then have reg: "j div 1024 = (x + 1) div 1024" using o(4) by simp
  obtain s2 n2 where s2: "pages_free (page_addr s1 (x + 1)) s1 = Some s2" "buddy_inv s2"
    "used_blocks s2 = used_blocks s1 - {(x + 1, 0)}" "page_refs s2 = (page_refs s1)(x + 1 := 0)" "npages s2 = npages s1" "mem_start s2 = mem_start s1"
    "physical_page_record s2 = (physical_page_record s1)[x + 1 := (physical_page_record s1 ! (x + 1))\<lparr>rec_count := 0\<rparr>]"
    "\<forall>m. 0 \<le> m \<and> m < n2 \<longrightarrow> shows_free s2 (buddy_of (block_at (x + 1) m) m) m"
    "\<not> shows_free s2 (buddy_of (block_at (x + 1) n2) n2) n2"
    "free_blocks s2 = insert (block_at (x + 1) n2, n2) {b \<in> free_blocks s1. pages b \<inter> pages (block_at (x + 1) n2, n2) = {}}"
    by (rule pages_free_merged[OF s1(2) v(1,2,3,4) o(3) reg])
  have rs: "physical_page_record s2 ! y = (if y = x \<or> y = x + 1 then (physical_page_record s ! y)\<lparr>rec_count := 0\<rparr> else physical_page_record s ! y)" for y
    unfolding s2(7) s1(7) using x(1) by (simp add: nth_list_update)
  have "n2 \<noteq> 0"
  proof
    assume "n2 = 0"
    moreover have "buddy_of (x + 1) 0 = x" using al1(2) by (simp add: buddy_of_def)
    moreover have "shows_free s2 x 0" using x(2) by (simp add: shows_free_def rs)
    ultimately show False using s2(9) by (simp add: block_at_def)
  qed
  moreover have bx: "block_at (x + 1) 1 = x" using to[of 1] block_at_aligned[OF al1(1)] by simp
  moreover have "\<not> 1 < n2"
  proof
    assume "1 < n2"
    then have "shows_free s2 (buddy_of x 1) 1" using s2(8)[rule_format, of 1] bx by simp
    moreover have "buddy_of x 1 \<noteq> x" "buddy_of x 1 \<noteq> x + 1" using al by (auto simp: buddy_of_def elim!: dvdE; presburger)+
    ultimately show False using stop by (simp add: shows_free_def rs)
  qed
  ultimately have f2: "free_blocks s2 = insert (x, 1) {b \<in> free_blocks s1. pages b \<inter> pages (x, 1) = {}}"
    using s2(10) by (cases "n2 = 1") auto
  have "pages (x, 0) \<subseteq> pages (x, 1)" by (simp add: pages_def)
  then have "\<forall>b\<in>free_blocks s. pages b \<inter> pages (x, 1) = {} \<longrightarrow> b \<in> free_blocks s2" unfolding f2 f1 by blast
  moreover have "page_addr s1 = page_addr s" using s1(6) by (rule page_addr_cong)
  moreover have "used_blocks s2 = used_blocks s - {(x, 0), (x + 1, 0)}" using s1(3) s2(3) by blast
  moreover have "\<forall>y. rec_order (physical_page_record s2 ! y) = rec_order (physical_page_record s ! y)" by (simp add: rs)
  ultimately show ?thesis using that[of s1 s2] s1(1,4,5,6) s2(1,2,4,5,6) f2 by simp
qed

theorem merged_buddies_stay_apart:
  assumes inv: "buddy_inv s" and al: "4 dvd i" and four: "four_pages i \<subseteq> used_blocks s" and refs: "\<forall>j<4. page_refs s (i + j) = 1"
    and np: "1024 dvd npages s" and o: "(j, l) \<in> used_blocks s - four_pages i" "j div 1024 = i div 1024"
  shows "\<exists>s1 s2 s3 s4. pages_free (page_addr s i) s = Some s1 \<and> pages_free (page_addr s (i + 1)) s1 = Some s2 \<and>
    pages_free (page_addr s (i + 2)) s2 = Some s3 \<and> pages_free (page_addr s (i + 3)) s3 = Some s4 \<and>
    buddy_inv s4 \<and> {(i, 1), (i + 2, 1)} \<subseteq> free_blocks s4"
proof -
  have u: "(i, 0) \<in> used_blocks s" "(i + 1, 0) \<in> used_blocks s" "(i + 2, 0) \<in> used_blocks s" "(i + 2 + 1, 0) \<in> used_blocks s"
    using four by (auto simp: four_pages_def eval_nat_numeral)
  have ord: "rec_order (physical_page_record s ! i) = 0" "rec_count (physical_page_record s ! (i + 2)) \<noteq> 0"
    using u by (auto simp: used_blocks_def)
  have "l = 0" if "j \<in> {i, i + 1, i + 2, i + 2 + 1}" using that o(1) u by (auto simp: used_blocks_def)
  then have j: "(j, l) \<in> used_blocks s" "j \<noteq> i" "j \<noteq> i + 1" "j \<noteq> i + 2" "j \<noteq> i + 2 + 1"
    using o(1) by (auto simp: four_pages_def)
  have r: "page_refs s i = 1" "page_refs s (i + 1) = 1" "page_refs s (i + 2) = 1" "page_refs s (i + 2 + 1) = 1"
    using refs[rule_format, of 0] refs[rule_format, of 1] refs[rule_format, of 2] refs[rule_format, of 3]
    by (simp_all add: eval_nat_numeral)
  obtain q where q: "i = 4 * q" using al by blast
  have b: "buddy_of i 1 = i + 2" "buddy_of (i + 2) 1 = i" unfolding q by (simp_all add: buddy_of_def) presburger+
  have ev: "2 dvd i" "2 dvd i + 2" unfolding q by simp_all
  have "y div 1024 = y div 4 div 256" for y :: nat by (simp flip: div_mult2_eq)
  moreover have "(i + 2) div 4 = i div 4" unfolding q by simp
  ultimately have reg: "j div 1024 = (i + 2) div 1024" using o(2) by simp
  have st1: "\<not> shows_free s (buddy_of i 1) 1" using b(1) ord(2) by (simp add: shows_free_def)
  obtain s1 s2 where s2: "pages_free (page_addr s i) s = Some s1" "pages_free (page_addr s (i + 1)) s1 = Some s2" "buddy_inv s2"
    "used_blocks s2 = used_blocks s - {(i, 0), (i + 1, 0)}" "\<forall>y. y \<noteq> i \<and> y \<noteq> i + 1 \<longrightarrow> page_refs s2 y = page_refs s y"
    "npages s2 = npages s" "mem_start s2 = mem_start s"
    "\<forall>y. rec_order (physical_page_record s2 ! y) = rec_order (physical_page_record s ! y)" "(i, 1) \<in> free_blocks s2"
    by (rule pair_freed[OF inv ev(1) u(1,2) r(1,2) st1 np j(1,2,3) o(2)])
  have st2: "\<not> shows_free s2 (buddy_of (i + 2) 1) 1" using b(2) ord(1) s2(8) by (simp add: shows_free_def)
  have v: "(i + 2, 0) \<in> used_blocks s2" "(i + 2 + 1, 0) \<in> used_blocks s2" "page_refs s2 (i + 2) = 1" "page_refs s2 (i + 2 + 1) = 1"
    "1024 dvd npages s2" "(j, l) \<in> used_blocks s2"
    using s2(4,5,6) u r np j by simp_all
  obtain s3 s4 where s4: "pages_free (page_addr s2 (i + 2)) s2 = Some s3" "pages_free (page_addr s2 (i + 2 + 1)) s3 = Some s4"
    "buddy_inv s4" "(i + 2, 1) \<in> free_blocks s4" "\<forall>b\<in>free_blocks s2. pages b \<inter> pages (i + 2, 1) = {} \<longrightarrow> b \<in> free_blocks s4"
    by (rule pair_freed[OF s2(3) ev(2) v(1-4) st2 v(5,6) j(4,5) reg])
  have "(i, 1) \<in> free_blocks s4" using s4(5) s2(9) by (auto simp: pages_def)
  moreover have "page_addr s2 = page_addr s" using s2(7) by (rule page_addr_cong)
  moreover have "i + 2 + 1 = i + 3" by simp
  ultimately show ?thesis using s2(1,2) s4(1-4)
    by (intro exI[of _ s1] exI[of _ s2] exI[of _ s3] exI[of _ s4]) (simp only: insert_subset empty_subsetI simp_thms)
qed

text \<open>A region whose pages are all in use one by one.\<close>

definition single_pages :: buddy where
  "single_pages = \<lparr>mem_start = PGSIZE, mem_end = PGSIZE + PGSIZE * 1024,
     physical_page_record = replicate 1024 \<lparr>rec_order = 0, rec_count = 1\<rparr>, orderarray = replicate 11 []\<rparr>"

lemma single_pages:
  "buddy_inv single_pages" "used_blocks single_pages = {..<1024} \<times> {0}" "npages single_pages = 1024"
proof -
  show used: "used_blocks single_pages = {..<1024} \<times> {0}"
    by (auto simp: used_blocks_def single_pages_def simp del: replicate.simps)
  show np: "npages single_pages = 1024" by (simp add: single_pages_def)
  have orders: "orderarray single_pages ! k = []" if "k < 11" for k
    using that by (simp add: single_pages_def)
  then have free: "free_blocks single_pages = {}" by (auto simp: free_blocks_def)
  have "lists_ok single_pages" using orders by (simp add: lists_ok_def)
  moreover have "tiling 1024 ({..<1024} \<times> {0})" unfolding tiling_def by (auto simp: pages_def)
  moreover have "geometry single_pages" by (simp add: geometry_def single_pages_def)
  ultimately show "buddy_inv single_pages" by (simp add: buddy_inv_def buddy_held_def used free np)
qed

lemma merged_buddies_stay_apart_witness:
  "\<exists>s1 s2 s3 s4. pages_free (page_addr single_pages 0) single_pages = Some s1 \<and> pages_free (page_addr single_pages 1) s1 = Some s2 \<and>
    pages_free (page_addr single_pages 2) s2 = Some s3 \<and> pages_free (page_addr single_pages 3) s3 = Some s4 \<and>
    buddy_inv s4 \<and> {(0, 1), (2, 1)} \<subseteq> free_blocks s4"
proof -
  have "\<forall>j<4. page_refs single_pages (0 + j) = 1"
    by (simp add: page_refs_def single_pages_def del: replicate.simps)
  moreover have "four_pages 0 \<subseteq> used_blocks single_pages" "(4, 0) \<in> used_blocks single_pages - four_pages 0"
    unfolding single_pages(2) by (auto simp: four_pages_def)
  ultimately show ?thesis
    using merged_buddies_stay_apart[OF single_pages(1), of 0 4 0] single_pages(3) by (simp add: numeral_2_eq_2)
qed

text \<open>The end of the page records is not guarded: on the machine's own memory layout,
  allocating 1024 pages right after boot yields the last region, and freeing it looks up the record
  of the region behind the end of memory.\<close>

theorem buddy_free_last_region_overrun:
  "\<exists>p s. phymem_init = Some boot_buddy \<and> pages_alloc 1024 boot_buddy = Some (p, s) \<and> buddy_inv s \<and>
     pages_free p s = None"
proof -
  obtain s0 where init: "buddy_system_init (1024 * 31) KERNEL_END_LIMIT (KERNEL_END_LIMIT + PGSIZE * (1024 * 31)) = Some s0"
    "orderarray s0 = (replicate 11 [])[10 := region_list KERNEL_END_LIMIT 31]"
    using buddy_system_init_ok[of KERNEL_END_LIMIT 31] by auto
  have b: "boot_buddy = s0" using init(1) by (simp add: boot_buddy_def phymem_init_def)
  have k: "get_power2 1024 = Some 10" by (simp add: get_power2_def get_power2_from.simps)
  have lst: "orderarray boot_buddy ! 10 = page_addr boot_buddy (1024 * 30) # region_list KERNEL_END_LIMIT 30"
    unfolding b init(2) using region_list_Suc[of KERNEL_END_LIMIT 30]
    by (simp add: page_addr_def boot_buddy(6)[unfolded b])
  have f: "(1024 * 30, 10) \<in> free_blocks boot_buddy" unfolding boot_buddy(4) by (auto simp: regions_def)
  obtain i s where a: "pages_alloc 1024 boot_buddy = Some (page_addr boot_buddy i, s)" "buddy_inv s"
    "used_blocks s = {(i, 10)}" "page_refs s i = 1" "npages s = 31744" "mem_start s = KERNEL_END_LIMIT"
    using pages_alloc_ok[OF boot_buddy(2) _ _ k f] boot_buddy by auto
  have "page_addr boot_buddy i = page_addr boot_buddy (1024 * 30)"
    using a(1) k lst by (auto simp: pages_alloc_def orderarray_next_then_del_def hoare_simps)
  then have i: "i = 1024 * 30" by (simp del: mult_numeral_left_semiring_numeral)
  have "page_addr s = page_addr boot_buddy" by (rule page_addr_cong) (simp add: a(6) boot_buddy(6))
  then have "pages_free (page_addr boot_buddy i) s = None"
    using pages_free_last_region[OF a(2), of i] a i by simp
  then show ?thesis using a boot_buddy(1) by blast
qed

end
