(* ===== verification/Slub.thy ===== *)
theory Slub
  imports Buddy "HOL-Library.Signed_Division"
begin

text \<open>
  The object allocator of kernel/mm/phys.c (\<open>kmalloc\<close>, \<open>kfree\<close>) on top of the buddy system,
  and the alignment helpers of libs/kstdlib.c. Every cache has the pages that have a free object
  on its partial list and the others on its full list; a page starts with its
  \<open>slub_pages_node_t\<close>, which is modelled as a map from page addresses to nodes.
\<close>

section \<open>libs/kstdlib.c\<close>

definition div_round_up :: "u64 \<Rightarrow> u64 \<Rightarrow> u64" where
  "div_round_up first second = word_of_int (sint (first + second - 1) sdiv sint second)"

definition alignaddr_up :: "u64 \<Rightarrow> u64 \<Rightarrow> u64" where
  "alignaddr_up addr alignment =
     (let mask = alignment - 1
      in if alignment AND mask = 0 then (addr + mask) AND NOT mask else addr)"

definition alignaddr_down :: "u64 \<Rightarrow> u64 \<Rightarrow> u64" where
  "alignaddr_down addr alignment =
     (let mask = alignment - 1
      in if alignment AND mask = 0 then addr AND NOT mask else addr)"

definition PGROUNDDOWN :: "nat \<Rightarrow> nat" where
  "PGROUNDDOWN a = a - a mod PGSIZE"

definition PGROUNDUP :: "nat \<Rightarrow> nat" where
  "PGROUNDUP a = PGROUNDDOWN (a + PGSIZE - 1)"

lemma PGROUNDDOWN_dvd [simp]: "PGSIZE dvd PGROUNDDOWN a"
  by (simp add: PGROUNDDOWN_def)

lemma PGROUNDDOWN_le: "PGROUNDDOWN a \<le> a" "a < PGROUNDDOWN a + PGSIZE"
  unfolding PGROUNDDOWN_def using mod_less_divisor[of PGSIZE a] mod_less_eq_dividend[of a PGSIZE]
  by linarith+

lemma PGROUNDDOWN_offset:
  assumes "PGSIZE dvd p" "d < PGSIZE"
  shows "PGROUNDDOWN (p + d) = p"
  using assms by (auto simp: PGROUNDDOWN_def elim!: dvdE)

text \<open>For a power of two the helpers round to its multiples, as long as nothing wraps.\<close>

lemma pow2_and_pred: "n < 64 \<Longrightarrow> (2 ^ n :: u64) AND (2 ^ n - 1) = 0"
  by (rule bit_eqI) (simp add: bit_and_iff bit_exp_iff bit_mask_iff flip: mask_eq_exp_minus_1)

lemma and_not_mask: "(x::u64) AND NOT (2 ^ n - 1) = x - take_bit n x"
proof -
  have "x - take_bit n x = x AND NOT (take_bit n x)"
    by (rule disjunctive_diff) (simp add: bit_take_bit_iff)
  also have "\<dots> = x AND NOT (mask n)"
    by (rule bit_eqI) (auto simp: bit_and_iff bit_not_iff bit_take_bit_iff bit_mask_iff)
  finally show ?thesis by (simp add: mask_eq_exp_minus_1)
qed

lemma unat_take_bit: "unat (take_bit n (x::u64)) = unat x mod 2 ^ n"
  unfolding unsigned_take_bit_eq by (simp only: take_bit_eq_mod)

lemma unat_alignaddr_down:
  assumes "n < 64"
  shows "unat (alignaddr_down x (2 ^ n)) = unat x - unat x mod 2 ^ n"
proof -
  have "take_bit n x \<le> x" by (simp only: word_le_nat_alt unat_take_bit mod_less_eq_dividend)
  then show ?thesis
    unfolding alignaddr_down_def Let_def pow2_and_pred[OF assms] and_not_mask
    by (simp only: if_True refl unat_sub unat_take_bit)
qed

lemma unat_alignaddr_up:
  assumes n: "n < 64" and fits: "unat x + 2 ^ n \<le> 2 ^ 64"
  shows "unat (alignaddr_up x (2 ^ n)) = 2 ^ n * ((unat x + 2 ^ n - 1) div 2 ^ n)"
proof -
  let ?y = "x + (2 ^ n - 1)"
  have p: "unat (2 ^ n :: u64) = 2 ^ n" 
  proof -
    have "(0::u64) < 2 ^ n" using n by (simp add: word_gt_0)
    then have "uint (2 ^ n :: u64) = 2 ^ n" by (rule uint_2p)
    then show ?thesis by (simp add: unat_eq_nat_uint nat_power_eq)
  qed
  have "(1::u64) \<le> 2 ^ n" using p by (simp add: word_le_nat_alt)
  then have m: "unat (2 ^ n - 1 :: u64) = 2 ^ n - 1" using p by (simp add: unat_sub)
  have "unat x + (2 ^ n - 1) < 2 ^ 64" 
    using fits zero_less_power[of "2::nat" n] by linarith
  then have y: "unat ?y = unat x + 2 ^ n - 1"
    using m by (subst unat_add_lem[THEN iffD1]) simp_all
  have "alignaddr_up x (2 ^ n) = ?y - take_bit n ?y"
    unfolding alignaddr_up_def Let_def pow2_and_pred[OF n] and_not_mask by simp
  moreover have "take_bit n ?y \<le> ?y" by (simp only: word_le_nat_alt unat_take_bit mod_less_eq_dividend)
  ultimately have "unat (alignaddr_up x (2 ^ n)) = unat ?y - unat ?y mod 2 ^ n"
    by (simp only: unat_sub unat_take_bit)
  also have "\<dots> = 2 ^ n * (unat ?y div 2 ^ n)" by (simp add: minus_mod_eq_mult_div)
  finally show ?thesis unfolding y .
qed

section \<open>The object allocator\<close>

definition slub_size :: "nat list" where
  "slub_size = [16, 32, 48, 64, 96, 128, 192, 256, 384, 512, 768, 1024, 1536]"

text \<open>The size of \<open>struct slub_pages_node_t\<close>: a pointer and two list nodes.\<close>

abbreviation (input) slub_node_bytes :: nat where "slub_node_bytes \<equiv> 40"

record kmem_cache_t =
  obj_size :: nat
  fulllist :: "nat list"
  partiallist :: "nat list"

record slub_pages_node_t =
  kmem_cache_linked :: nat
  obj_freelist :: "nat list"

record slub =
  kmem_cache_array :: "kmem_cache_t list"
  slub_node :: "nat \<Rightarrow> slub_pages_node_t"
  buddy_system :: buddy

definition kmem_cache_init :: "slub \<Rightarrow> slub" where
  "kmem_cache_init s = s\<lparr>kmem_cache_array :=
     map (\<lambda>n. \<lparr>obj_size = n, fulllist = [], partiallist = []\<rparr>) slub_size\<rparr>"

text \<open>The loop that mounts the free objects of a new page; \<open>node\<close> is the next object.\<close>

function mount_objects :: "nat \<Rightarrow> nat \<Rightarrow> nat \<Rightarrow> nat list \<Rightarrow> nat list" where
  "mount_objects page n node l =
     (if 0 < n \<and> node + n - page < PGSIZE then mount_objects page n (node + n) (node # l) else l)"
  by auto
termination by (relation "measure (\<lambda>(page, n, node, l). page + PGSIZE - node)") auto

definition new_slub_pages_node :: "nat \<Rightarrow> slub \<Rightarrow> (nat \<times> slub) option" where
  "new_slub_pages_node idx s = do {
     (page, b) \<leftarrow> pages_alloc 1 (buddy_system s);
     c \<leftarrow> nth_opt (kmem_cache_array s) idx;
     let objs = mount_objects page (obj_size c) (page + slub_node_bytes) [];
     Some (page, s\<lparr>buddy_system := b, slub_node := (slub_node s)(page :=
       \<lparr>kmem_cache_linked = idx, obj_freelist = objs\<rparr>)\<rparr>) }"

function search_ge_loop :: "nat list \<Rightarrow> nat \<Rightarrow> nat \<Rightarrow> nat \<Rightarrow> nat" where
  "search_ge_loop array target l r =
     (if r - l > 0 then
        (let mid = (l + r) div 2
         in if array ! mid > target then search_ge_loop array target l mid
            else if array ! mid = target then mid
            else search_ge_loop array target (mid + 1) r)
      else l)"
  by auto
termination by (relation "measure (\<lambda>(array, target, l, r). r - l)") auto

definition binary_search_ge :: "nat list \<Rightarrow> nat \<Rightarrow> nat \<Rightarrow> nat" where
  "binary_search_ge array array_size target = search_ge_loop array target 0 array_size"

definition update_cache :: "nat \<Rightarrow> (kmem_cache_t \<Rightarrow> kmem_cache_t) \<Rightarrow> slub \<Rightarrow> slub" where
  "update_cache i f s =
     s\<lparr>kmem_cache_array := (kmem_cache_array s)[i := f (kmem_cache_array s ! i)]\<rparr>"

definition set_freelist :: "nat \<Rightarrow> nat list \<Rightarrow> slub \<Rightarrow> slub" where
  "set_freelist page l s = s\<lparr>slub_node := (slub_node s)(page := (slub_node s page)\<lparr>obj_freelist := l\<rparr>)\<rparr>"

text \<open>\<open>list_del\<close> on the \<open>slub_node_list\<close> of a page: the page is on the full or on the partial
  list of its cache.\<close>

definition unlink_page :: "nat \<Rightarrow> kmem_cache_t \<Rightarrow> kmem_cache_t" where
  "unlink_page page c = c\<lparr>fulllist := removeAll page (fulllist c),
                          partiallist := removeAll page (partiallist c)\<rparr>"

text \<open>The second half of \<open>kmalloc\<close>: take the first free object of the first partial page.\<close>

definition take_object :: "nat \<Rightarrow> slub \<Rightarrow> (nat \<times> slub) option" where
  "take_object idx s =
     (case partiallist (kmem_cache_array s ! idx) of [] \<Rightarrow> None
      | page # _ \<Rightarrow>
        (case obj_freelist (slub_node s page) of [] \<Rightarrow> None
         | ptr # l \<Rightarrow>
           let s1 = set_freelist page l s in
           if l = [] then
             Some (ptr, update_cache (kmem_cache_linked (slub_node s1 page))
               (\<lambda>c. (unlink_page page c)\<lparr>fulllist := page # fulllist (unlink_page page c)\<rparr>) s1)
           else Some (ptr, s1)))"

definition kmalloc :: "nat \<Rightarrow> slub \<Rightarrow> (nat \<times> slub) option" where
  "kmalloc n s = do {
     cassert (n > 0 \<and> n \<le> last slub_size);
     let idx = binary_search_ge slub_size 13 n;
     c \<leftarrow> nth_opt (kmem_cache_array s) idx;
     s1 \<leftarrow> (if partiallist c = [] then do {
               (page, s1) \<leftarrow> new_slub_pages_node idx s;
               Some (update_cache (kmem_cache_linked (slub_node s1 page))
                       (\<lambda>c. c\<lparr>partiallist := page # partiallist c\<rparr>) s1) }
             else Some s);
     take_object idx s1 }"

definition kfree :: "nat \<Rightarrow> slub \<Rightarrow> slub" where
  "kfree ptr s =
     (if ptr = 0 then s
      else
        let page = PGROUNDDOWN ptr;
            s1 = (if obj_freelist (slub_node s page) = [] then
                    update_cache (kmem_cache_linked (slub_node s page))
                      (\<lambda>c. (unlink_page page c)\<lparr>partiallist := page # partiallist (unlink_page page c)\<rparr>) s
                  else s)
        in set_freelist page (ptr # obj_freelist (slub_node s1 page)) s1)"

text \<open>\<open>kzalloc\<close> clears the object it got.\<close>

definition kzalloc :: "nat \<Rightarrow> mem \<Rightarrow> slub \<Rightarrow> (nat \<times> mem \<times> slub) option" where
  "kzalloc n m s = do { (ptr, s') \<leftarrow> kmalloc n s; Some (ptr, memset m ptr 0 n, s') }"

declare mount_objects.simps [simp del] search_ge_loop.simps [simp del]

section \<open>Size classes\<close>

lemma search_ge_loop_least:
  "sorted_wrt (<) a \<Longrightarrow> l \<le> r \<Longrightarrow> r \<le> length a \<Longrightarrow> (\<forall>i < l. a ! i < t) \<Longrightarrow>
   (\<forall>i. r \<le> i \<and> i < length a \<longrightarrow> t < a ! i) \<Longrightarrow>
   (let k = search_ge_loop a t l r in k \<le> length a \<and> (\<forall>i < k. a ! i < t) \<and>
     (\<forall>i. k \<le> i \<and> i < length a \<longrightarrow> t \<le> a ! i))"
proof (induction a t l r rule: search_ge_loop.induct)
  case (1 a t l r)
  let ?mid = "(l + r) div 2"
  note sorted = 1(3)
  have mono: "a ! i < a ! j" if "i < j" "j < length a" for i j
    using sorted that by (simp add: sorted_wrt_nth_less)
  show ?case
  proof (cases "l < r")
    case False
    then show ?thesis using 1(4-7) by (subst search_ge_loop.simps) (auto intro: less_imp_le)
  next
    case True
    then have mid: "l \<le> ?mid" "?mid < r" by auto
    consider "t < a ! ?mid" | "a ! ?mid = t" | "a ! ?mid < t" by linarith
    then show ?thesis
    proof cases
      case 1
      have "\<forall>i. ?mid \<le> i \<and> i < length a \<longrightarrow> t < a ! i"
        using 1 mono by (metis le_neq_implies_less less_trans)
      then show ?thesis
        using "1.IH"(1)[of ?mid] True 1 mid "1.prems" by (subst search_ge_loop.simps) simp
    next
      case 2
      have "\<forall>i < ?mid. a ! i < t" "\<forall>i. ?mid \<le> i \<and> i < length a \<longrightarrow> t \<le> a ! i"
        using 2 mono mid "1.prems"(3) by (auto, metis le_neq_implies_less less_imp_le order_refl)
      moreover have "search_ge_loop a t l r = ?mid"
        using True 2 by (subst search_ge_loop.simps) simp
      ultimately show ?thesis using mid "1.prems"(3) by simp
    next
      case 3
      have "\<forall>i < ?mid + 1. a ! i < t"
        using 3 mono mid "1.prems"(3) by (metis add.commute le_neq_implies_less less_Suc_eq_le
            less_trans plus_1_eq_Suc less_le_trans)
      moreover have "search_ge_loop a t l r = search_ge_loop a t (?mid + 1) r"
        using True 3 by (subst search_ge_loop.simps) (simp add: Let_def)
      moreover have "\<not> t < a ! ?mid" "a ! ?mid \<noteq> t" "r - l > 0" using 3 True by simp_all
      ultimately show ?thesis
        using "1.IH"(2)[OF _ refl] mid "1.prems" by simp
    qed
  qed
qed

lemma binary_search_ge_least:
  assumes "sorted_wrt (<) a"
  shows "let k = binary_search_ge a (length a) t in k \<le> length a \<and> (\<forall>i < k. a ! i < t) \<and>
     (\<forall>i. k \<le> i \<and> i < length a \<longrightarrow> t \<le> a ! i)"
  using search_ge_loop_least[OF assms, of 0 "length a" t] by (simp add: binary_search_ge_def)

lemma slub_size_props: "length slub_size = 13" "sorted_wrt (<) slub_size" "last slub_size = 1536"
  "\<forall>n\<in>set slub_size. 0 < n \<and> n \<le> 1536" "slub_size ! 12 = 1536"
  by (simp_all add: slub_size_def)

lemma size_class:
  assumes "0 < n" "n \<le> 1536"
  shows "binary_search_ge slub_size 13 n < 13"
    "n \<le> slub_size ! binary_search_ge slub_size 13 n"
    "i < binary_search_ge slub_size 13 n \<Longrightarrow> slub_size ! i < n"
proof -
  let ?k = "binary_search_ge slub_size 13 n"
  have k: "?k \<le> 13" "\<forall>i < ?k. slub_size ! i < n" "\<forall>i. ?k \<le> i \<and> i < 13 \<longrightarrow> n \<le> slub_size ! i"
    using binary_search_ge_least[OF slub_size_props(2), of n] slub_size_props(1) by (auto simp: Let_def)
  show "?k < 13"
  proof (rule ccontr)
    assume "\<not> ?k < 13"
    then have "slub_size ! 12 < n" using k(2) by simp
    then show False using assms slub_size_props(5) by simp
  qed
  then show "n \<le> slub_size ! ?k" using k(3) by simp
  show "i < ?k \<Longrightarrow> slub_size ! i < n" using k(2) by simp
qed

section \<open>The invariant\<close>

definition slots :: "nat \<Rightarrow> nat \<Rightarrow> nat set" where
  "slots i p = {p + slub_node_bytes + j * slub_size ! i |j.
     slub_node_bytes + (j + 1) * slub_size ! i < PGSIZE}"

definition cache_pages :: "slub \<Rightarrow> nat \<Rightarrow> nat list" where
  "cache_pages s i = partiallist (kmem_cache_array s ! i) @ fulllist (kmem_cache_array s ! i)"

abbreviation freelist :: "slub \<Rightarrow> nat \<Rightarrow> nat list" where
  "freelist s p \<equiv> obj_freelist (slub_node s p)"

definition page_ok :: "slub \<Rightarrow> nat \<Rightarrow> nat \<Rightarrow> bool" where
  "page_ok s i p \<longleftrightarrow> kmem_cache_linked (slub_node s p) = i \<and> p \<noteq> 0 \<and> p mod PGSIZE = 0 \<and>
     (\<exists>b. (p, b) \<in> live_blocks (buddy_system s)) \<and> distinct (freelist s p) \<and>
     set (freelist s p) \<subseteq> slots i p \<and>
     (p \<in> set (partiallist (kmem_cache_array s ! i)) \<longleftrightarrow> freelist s p \<noteq> [])"

definition slub_inv :: "slub \<Rightarrow> bool" where
  "slub_inv s \<longleftrightarrow> buddy_inv (buddy_system s) \<and> length (kmem_cache_array s) = 13 \<and>
     (\<forall>i < 13. obj_size (kmem_cache_array s ! i) = slub_size ! i \<and> distinct (cache_pages s i) \<and>
       (\<forall>p\<in>set (cache_pages s i). page_ok s i p))"

definition slub_live :: "slub \<Rightarrow> (nat \<times> nat) set" where
  "slub_live s = {(i, a). i < 13 \<and> (\<exists>p\<in>set (cache_pages s i). a \<in> slots i p \<and> a \<notin> set (freelist s p))}"

lemma slub_size_bounds: "i < 13 \<Longrightarrow> 0 < slub_size ! i \<and> slub_size ! i \<le> 1536"
  using slub_size_props(1,4) by (metis nth_mem)

lemma mount_objects_slots:
  "0 < n \<Longrightarrow> distinct l \<Longrightarrow> (\<forall>a\<in>set l. a < page + d + j * n) \<Longrightarrow>
   distinct (mount_objects page n (page + d + j * n) l) \<and>
   set (mount_objects page n (page + d + j * n) l)
     = set l \<union> {page + d + k * n |k. j \<le> k \<and> d + (k + 1) * n < PGSIZE}"
proof (induction page n "page + d + j * n" l arbitrary: j rule: mount_objects.induct)
  case (1 page n l j)
  let ?S = "\<lambda>j. {page + d + k * n |k. j \<le> k \<and> d + (k + 1) * n < PGSIZE}"
  show ?case
  proof (cases "d + (j + 1) * n < PGSIZE")
    case True
    have nxt: "page + d + j * n + n = page + d + Suc j * n" by simp
    have "?S j = insert (page + d + j * n) (?S (Suc j))"
      using True by (auto simp: le_Suc_eq Suc_le_eq le_less)
    moreover have "distinct (mount_objects page n (page + d + Suc j * n) ((page + d + j * n) # l)) \<and>
      set (mount_objects page n (page + d + Suc j * n) ((page + d + j * n) # l))
        = set ((page + d + j * n) # l) \<union> ?S (Suc j)"
      by (rule 1(1)) (use 1(2-4) True in auto)
    moreover have "mount_objects page n (page + d + j * n) l
      = mount_objects page n (page + d + Suc j * n) ((page + d + j * n) # l)"
      using True 1(2) nxt by (subst mount_objects.simps) (simp add: algebra_simps)
    ultimately show ?thesis by auto
  next
    case False
    have "\<not> d + (k + 1) * n < PGSIZE" if "j \<le> k" for k
    proof -
      have "(j + 1) * n \<le> (k + 1) * n" using that by simp
      then show ?thesis using False by linarith
    qed
    then have "?S j = {}" by blast
    moreover have "mount_objects page n (page + d + j * n) l = l"
      using False by (subst mount_objects.simps) (simp add: algebra_simps)
    ultimately show ?thesis using 1(3) by auto
  qed
qed

lemma mount_new_page:
  assumes "i < 13"
  shows "distinct (mount_objects page (slub_size ! i) (page + slub_node_bytes) [])"
    "set (mount_objects page (slub_size ! i) (page + slub_node_bytes) []) = slots i page"
    "mount_objects page (slub_size ! i) (page + slub_node_bytes) [] \<noteq> []"
proof -
  note b = slub_size_bounds[OF assms]
  let ?l = "mount_objects page (slub_size ! i) (page + slub_node_bytes) []"
  have m: "distinct ?l \<and> set ?l = slots i page"
    using mount_objects_slots[of "slub_size ! i" "[]" page slub_node_bytes 0] b
    by (auto simp: slots_def)
  then show "distinct ?l" "set ?l = slots i page" by blast+
  have "page + slub_node_bytes + 0 * slub_size ! i \<in> slots i page"
    unfolding slots_def using b by (intro CollectI exI[of _ 0]) simp
  then show "?l \<noteq> []" using m by (metis empty_iff empty_set)
qed

lemma slot_in_page: "a \<in> slots i p \<Longrightarrow> p < a \<and> a + slub_size ! i < p + PGSIZE"
  by (auto simp: slots_def algebra_simps)

lemma slot_page:
  assumes "a \<in> slots i p" "p mod PGSIZE = 0"
  shows "PGROUNDDOWN a = p"
  using PGROUNDDOWN_offset[of p "a - p"] slot_in_page[OF assms(1)] assms(2)
  by (auto simp: mod_eq_0_iff_dvd)

text \<open>Two different slots do not overlap.\<close>

lemma slots_disjoint:
  assumes a: "a \<in> slots i p" "p mod PGSIZE = 0" and b: "b \<in> slots j q" "q mod PGSIZE = 0"
    and ij: "p = q \<Longrightarrow> i = j" and ne: "a \<noteq> b"
  shows "{a ..< a + slub_size ! i} \<inter> {b ..< b + slub_size ! j} = {}"
proof (cases "p = q")
  case True
  then have "i = j" by (rule ij)
  obtain k l where k: "a = p + slub_node_bytes + k * slub_size ! i"
    "b = p + slub_node_bytes + l * slub_size ! i"
    using a b True \<open>i = j\<close> by (auto simp: slots_def)
  have "k < l \<or> l < k" using k ne by auto
  then have "Suc k * slub_size ! i \<le> l * slub_size ! i \<or> Suc l * slub_size ! i \<le> k * slub_size ! i"
    by (auto simp del: mult_Suc intro: mult_le_mono1 Suc_leI)
  then show ?thesis using k \<open>i = j\<close> by auto
next
  case False
  obtain x where x: "p = PGSIZE * x" using a(2) by (auto simp: mod_eq_0_iff_dvd)
  obtain y where y: "q = PGSIZE * y" using b(2) by (auto simp: mod_eq_0_iff_dvd)
  have "x < y \<or> y < x" using False x y by (auto simp: neq_iff)
  then have "p + PGSIZE \<le> q \<or> q + PGSIZE \<le> p" unfolding x y by (elim disjE) simp_all
  then show ?thesis using slot_in_page[OF a(1)] slot_in_page[OF b(1)] by auto
qed

section \<open>Allocating and freeing objects\<close>

lemma slub_invD:
  assumes "slub_inv s" "i < 13"
  shows "obj_size (kmem_cache_array s ! i) = slub_size ! i" "distinct (cache_pages s i)"
    "p \<in> set (cache_pages s i) \<Longrightarrow> page_ok s i p" "length (kmem_cache_array s) = 13"
    "buddy_inv (buddy_system s)"
  using assms by (auto simp: slub_inv_def)

lemma page_in_one_cache:
  assumes "slub_inv s" "i < 13" "j < 13" "p \<in> set (cache_pages s i)" "p \<in> set (cache_pages s j)"
  shows "i = j"
  using slub_invD(3)[OF assms(1,2,4)] slub_invD(3)[OF assms(1,3,5)] by (simp add: page_ok_def)

text \<open>Every operation rewrites one cache and the free list of one of its pages. \<open>cache_step\<close>
  says what it may do, and that the invariant then holds again.\<close>

lemma slub_inv_step:
  assumes inv: "slub_inv s" and i: "i < 13"
    and s': "buddy_system s' = buddy_system s"
      "kmem_cache_array s' = (kmem_cache_array s)[i := c]" "obj_size c = slub_size ! i"
      "slub_node s' = (slub_node s)(p := (slub_node s p)\<lparr>obj_freelist := l\<rparr>)"
    and p: "p \<in> set (cache_pages s i)"
    and c: "distinct (partiallist c @ fulllist c)" "set (partiallist c @ fulllist c) = set (cache_pages s i)"
      "\<And>q. q \<noteq> p \<Longrightarrow> q \<in> set (partiallist c) \<longleftrightarrow> q \<in> set (partiallist (kmem_cache_array s ! i))"
      "p \<in> set (partiallist c) \<longleftrightarrow> l \<noteq> []"
    and l: "distinct l" "set l \<subseteq> slots i p"
  shows "slub_inv s'"
    "slub_live s' = {(j, a)\<in>slub_live s. a \<notin> slots i p} \<union> {(i, a) |a. a \<in> slots i p - set l}"
proof -
  note D = slub_invD[OF inv]
  have len: "length (kmem_cache_array s) = 13" using inv by (simp add: slub_inv_def)
  have cs: "kmem_cache_array s' ! j = (if j = i then c else kmem_cache_array s ! j)" if "j < 13" for j
    using that s'(2) len by (simp add: nth_list_update)
  have pages: "set (cache_pages s' j) = set (cache_pages s j)" if "j < 13" for j
    using cs[OF that] c(2) by (auto simp: cache_pages_def)
  have ok: "page_ok s' j q" if j: "j < 13" and q: "q \<in> set (cache_pages s j)" for j q
  proof (cases "q = p")
    case True
    then have "j = i" using page_in_one_cache[OF inv j i] q p by simp
    then show ?thesis using D(3)[OF i p] cs[OF i] c(4) l s'(1,4) True by (simp add: page_ok_def)
  next
    case False
    then show ?thesis using D(3)[OF j q] cs[OF j] c(3)[of q] s'(1,4) by (auto simp: page_ok_def)
  qed
  show "slub_inv s'"
    unfolding slub_inv_def
  proof (intro conjI allI impI ballI)
    show "buddy_inv (buddy_system s')" using inv s'(1) by (simp add: slub_inv_def)
    show "length (kmem_cache_array s') = 13" using len s'(2) by simp
  next
    fix j :: nat assume j: "j < 13"
    show "obj_size (kmem_cache_array s' ! j) = slub_size ! j" using cs[OF j] D(1)[OF j] s'(3) by simp
    show "distinct (cache_pages s' j)" using cs[OF j] D(2)[OF j] c(1) by (auto simp: cache_pages_def)
  next
    fix j q assume "j < (13::nat)" "q \<in> set (cache_pages s' j)"
    then show "page_ok s' j q" using ok pages by blast
  qed
  show "slub_live s' = {(j, a)\<in>slub_live s. a \<notin> slots i p} \<union> {(i, a) |a. a \<in> slots i p - set l}"
  proof (rule set_eqI, clarify)
    fix j a
    have other: "a \<notin> slots i p" if "j < 13" "q \<in> set (cache_pages s j)" "a \<in> slots j q" "q \<noteq> p" for q
      using slot_page[of a j q] slot_page[of a i p] that D(3)[OF that(1,2)] D(3)[OF i p]
      by (auto simp: page_ok_def)
    have fl: "freelist s' q = (if q = p then l else freelist s q)" for q using s'(4) by simp
    have eq: "(j, a) \<in> slub_live s' \<longleftrightarrow> j < 13 \<and>
      (\<exists>q\<in>set (cache_pages s j). a \<in> slots j q \<and> a \<notin> set (if q = p then l else freelist s q))"
      unfolding slub_live_def fl using pages by auto
    show "(j, a) \<in> slub_live s' \<longleftrightarrow>
      (j, a) \<in> {(j, a)\<in>slub_live s. a \<notin> slots i p} \<union> {(i, a) |a. a \<in> slots i p - set l}"
    proof
      assume "(j, a) \<in> slub_live s'"
      then obtain q where q: "j < 13" "q \<in> set (cache_pages s j)" "a \<in> slots j q"
        "a \<notin> set (if q = p then l else freelist s q)" unfolding eq by blast
      show "(j, a) \<in> {(j, a)\<in>slub_live s. a \<notin> slots i p} \<union> {(i, a) |a. a \<in> slots i p - set l}"
      proof (cases "q = p")
        case True
        then have "j = i" using page_in_one_cache[OF inv q(1) i] q(2) p by simp
        then show ?thesis using q True by simp
      next
        case False
        then show ?thesis using q other[OF q(1-3)] by (auto simp: slub_live_def)
      qed
    next
      assume "(j, a) \<in> {(j, a)\<in>slub_live s. a \<notin> slots i p} \<union> {(i, a) |a. a \<in> slots i p - set l}"
      then consider "(j, a) \<in> slub_live s" "a \<notin> slots i p" | "j = i" "a \<in> slots i p" "a \<notin> set l" by blast
      then show "(j, a) \<in> slub_live s'"
      proof cases
        case 1
        then obtain q where q: "j < 13" "q \<in> set (cache_pages s j)" "a \<in> slots j q" "a \<notin> set (freelist s q)"
          by (auto simp: slub_live_def)
        moreover have "q \<noteq> p" using page_in_one_cache[OF inv q(1) i] q p 1(2) by auto
        ultimately show ?thesis unfolding eq by auto
      next
        case 2
        then show ?thesis unfolding eq using i p by auto
      qed
    qed
  qed
qed

lemma refill_ok:
  assumes inv: "slub_inv s" and i: "i < 13"
    and new: "new_slub_pages_node i s = Some (page, s1)"
  shows "let s2 = update_cache (kmem_cache_linked (slub_node s1 page))
           (\<lambda>c. c\<lparr>partiallist := page # partiallist c\<rparr>) s1
    in slub_inv s2 \<and> slub_live s2 = slub_live s \<and>
       partiallist (kmem_cache_array s2 ! i) = page # partiallist (kmem_cache_array s ! i)"
proof -
  note D = slub_invD[OF inv]
  have len: "length (kmem_cache_array s) = 13" by (rule D(4)[OF i])
  let ?l = "mount_objects page (slub_size ! i) (page + slub_node_bytes) []"
  obtain b where b: "pages_alloc 1 (buddy_system s) = Some (page, b)"
    and s1: "s1 = s\<lparr>buddy_system := b, slub_node := (slub_node s)(page :=
       \<lparr>kmem_cache_linked = i, obj_freelist = ?l\<rparr>)\<rparr>"
    using new i len D(1)[OF i] by (auto simp: new_slub_pages_node_def hoare_simps)
  have binv: "buddy_inv (buddy_system s)" by (rule D(5)[OF i])
  obtain c where c: "live_blocks b = insert (page, c) (live_blocks (buddy_system s))"
    using pa.alloc_live[OF binv b] by blast
  have fresh: "page \<notin> set (cache_pages s j)" if jj: "j < 13" for j
  proof
    assume "page \<in> set (cache_pages s j)"
    then have "page_ok s j page" by (rule D(3)[OF jj])
    then obtain d where "(page, d) \<in> live_blocks (buddy_system s)"
      by (auto simp: page_ok_def)
    then show False using pa.alloc_fresh[OF binv b] by blast
  qed
  let ?s = "update_cache i (\<lambda>c. c\<lparr>partiallist := page # partiallist c\<rparr>) s1"
  have cs: "kmem_cache_array ?s ! j = (if j = i then (kmem_cache_array s ! i)\<lparr>partiallist :=
      page # partiallist (kmem_cache_array s ! i)\<rparr> else kmem_cache_array s ! j)" if "j < 13" for j
    using that len by (simp add: update_cache_def s1 nth_list_update)
  have node: "slub_node ?s = (slub_node s)(page := \<lparr>kmem_cache_linked = i, obj_freelist = ?l\<rparr>)"
    "buddy_system ?s = b" "length (kmem_cache_array ?s) = 13"
    using len by (simp_all add: update_cache_def s1)
  have pages: "cache_pages ?s j = (if j = i then page # cache_pages s i else cache_pages s j)" if "j < 13" for j
    using cs[OF that] by (simp add: cache_pages_def)
  have ok: "page_ok ?s j q" if j: "j < 13" and q: "q \<in> set (cache_pages ?s j)" for j q
  proof (cases "q = page")
    case True
    then have "j = i" using q pages[OF j] fresh[OF j] by (auto split: if_splits)
    then show ?thesis
      using True mount_new_page[OF i, of page] pa.alloc_aligned[OF binv b] c cs[OF i]
      by (auto simp: page_ok_def node)
  next
    case False
    then have q': "q \<in> set (cache_pages s j)" using q pages[OF j] by (auto split: if_splits)
    show ?thesis using D(3)[OF j q'] False c cs[OF j] by (auto simp: page_ok_def node)
  qed
  have "slub_inv ?s"
    unfolding slub_inv_def
  proof (intro conjI allI impI ballI)
    show "buddy_inv (buddy_system ?s)" unfolding node by (rule pa.alloc_inv[OF binv b])
    show "length (kmem_cache_array ?s) = 13" by (rule node)
  next
    fix j :: nat assume j: "j < 13"
    show "obj_size (kmem_cache_array ?s ! j) = slub_size ! j" using cs[OF j] D(1)[OF j] D(1)[OF i] by auto
    show "distinct (cache_pages ?s j)" using pages[OF j] D(2)[OF j] fresh[OF j] by auto
  next
    fix j q assume "j < (13::nat)" "q \<in> set (cache_pages ?s j)"
    then show "page_ok ?s j q" by (rule ok)
  qed
  moreover have "slub_live ?s = slub_live s"
  proof -
    have "(\<exists>p\<in>set (cache_pages ?s j). a \<in> slots j p \<and> a \<notin> set (freelist ?s p)) \<longleftrightarrow>
      (\<exists>p\<in>set (cache_pages s j). a \<in> slots j p \<and> a \<notin> set (freelist s p))" if j: "j < 13" for j a
    proof -
      have "freelist ?s p = freelist s p" if "p \<in> set (cache_pages s j)" for p
        using that fresh[OF j] node by auto
      moreover have "a \<notin> set (freelist ?s page) \<longleftrightarrow> a \<notin> slots i page"
        using mount_new_page(2)[OF i, of page] node by simp
      ultimately show ?thesis using pages[OF j] by auto
    qed
    then show ?thesis unfolding slub_live_def by blast
  qed
  moreover have "kmem_cache_linked (slub_node s1 page) = i" by (simp add: s1)
  ultimately show ?thesis using cs[OF i] by (simp add: Let_def)
qed

text \<open>\<open>kmalloc\<close> hands out an object of the least sufficient size class that was not live.\<close>

lemma kmalloc_ok:
  assumes inv: "slub_inv s" and m: "kmalloc n s = Some (a, s')"
  shows "let i = binary_search_ge slub_size 13 n in
    0 < n \<and> n \<le> slub_size ! i \<and> i < 13 \<and> slub_inv s' \<and> (i, a) \<notin> slub_live s \<and> a \<noteq> 0 \<and>
    slub_live s' = insert (i, a) (slub_live s)"
proof -
  let ?i = "binary_search_ge slub_size 13 n"
  have n: "0 < n" "n \<le> 1536" using m slub_size_props(3) by (auto simp: kmalloc_def hoare_simps)
  note i = size_class(1)[OF n]
  have len: "length (kmem_cache_array s) = 13" by (rule slub_invD(4)[OF inv i])
  obtain s1 where s1: "slub_inv s1" "slub_live s1 = slub_live s"
    and body: "take_object ?i s1 = Some (a, s')"
  proof (cases "partiallist (kmem_cache_array s ! ?i) = []")
    case True
    let ?u = "\<lambda>page t. update_cache (kmem_cache_linked (slub_node t page))
      (\<lambda>c. c\<lparr>partiallist := page # partiallist c\<rparr>) t"
    obtain page t where t: "new_slub_pages_node ?i s = Some (page, t)"
      and b: "take_object ?i (?u page t) = Some (a, s')"
      using m True i len by (auto simp: kmalloc_def hoare_simps Let_def)
    have "slub_inv (?u page t)" "slub_live (?u page t) = slub_live s"
      using refill_ok[OF inv i t] by (simp_all add: Let_def)
    then show ?thesis using that b by blast
  next
    case False
    then have "take_object ?i s = Some (a, s')" using m i len by (simp add: kmalloc_def Let_def hoare_simps)
    then show ?thesis using that[OF inv refl] by blast
  qed
  note D = slub_invD[OF s1(1) i]
  obtain page r where pl: "partiallist (kmem_cache_array s1 ! ?i) = page # r"
    using body by (auto simp: take_object_def split: list.splits)
  obtain l where fl: "freelist s1 page = a # l"
    using body pl by (auto simp: take_object_def Let_def split: list.splits if_splits)
  have page: "page \<in> set (cache_pages s1 ?i)" using pl by (simp add: cache_pages_def)
  note ok = D(3)[OF page, unfolded page_ok_def fl]
  have new: "(?i, a) \<notin> slub_live s1"
  proof
    assume "(?i, a) \<in> slub_live s1"
    then obtain q where q: "q \<in> set (cache_pages s1 ?i)" "a \<in> slots ?i q" "a \<notin> set (freelist s1 q)"
      by (auto simp: slub_live_def)
    have "PGROUNDDOWN a = q" by (rule slot_page[OF q(2)]) (use D(3)[OF q(1)] in \<open>simp add: page_ok_def\<close>)
    moreover have "PGROUNDDOWN a = page" by (rule slot_page[of a ?i]) (use ok in auto)
    ultimately show False using q(3) fl by simp
  qed
  let ?c = "if l = [] then (unlink_page page (kmem_cache_array s1 ! ?i))
      \<lparr>fulllist := page # fulllist (unlink_page page (kmem_cache_array s1 ! ?i))\<rparr>
    else kmem_cache_array s1 ! ?i"
  have s': "buddy_system s' = buddy_system s1"
    "kmem_cache_array s' = (kmem_cache_array s1)[?i := ?c]"
    "slub_node s' = (slub_node s1)(page := (slub_node s1 page)\<lparr>obj_freelist := l\<rparr>)"
    using body pl fl ok by (auto simp: take_object_def Let_def set_freelist_def update_cache_def split: if_splits)
  have dist: "distinct (cache_pages s1 ?i)" by (rule D(2))
  have nf: "page \<notin> set (fulllist (kmem_cache_array s1 ! ?i))" "page \<notin> set r"
    using dist pl by (auto simp: cache_pages_def)
  have "slub_inv s' \<and> slub_live s' = {(j, x)\<in>slub_live s1. x \<notin> slots ?i page}
      \<union> {(?i, x) |x. x \<in> slots ?i page - set l}"
  proof (intro conjI)
    have c: "obj_size ?c = slub_size ! ?i" "distinct (partiallist ?c @ fulllist ?c)"
      "set (partiallist ?c @ fulllist ?c) = set (cache_pages s1 ?i)"
      "\<And>q. q \<noteq> page \<Longrightarrow> q \<in> set (partiallist ?c) \<longleftrightarrow> q \<in> set (partiallist (kmem_cache_array s1 ! ?i))"
      "page \<in> set (partiallist ?c) \<longleftrightarrow> l \<noteq> []"
      using D(1) dist pl nf by (auto simp: unlink_page_def cache_pages_def distinct_removeAll)
    have l: "distinct l" "set l \<subseteq> slots ?i page" using ok by auto
    show "slub_inv s'" by (rule slub_inv_step(1)[OF s1(1) i s'(1,2) c(1) s'(3) page c(2-5) l])
    show "slub_live s' = {(j, x)\<in>slub_live s1. x \<notin> slots ?i page}
      \<union> {(?i, x) |x. x \<in> slots ?i page - set l}"
      by (rule slub_inv_step(2)[OF s1(1) i s'(1,2) c(1) s'(3) page c(2-5) l])
  qed
  moreover have "{(j, x)\<in>slub_live s1. x \<notin> slots ?i page} \<union> {(?i, x) |x. x \<in> slots ?i page - set l}
    = insert (?i, a) (slub_live s1)"
  proof -
    have "(j, x) \<in> slub_live s1 \<and> x \<in> slots ?i page \<longleftrightarrow> j = ?i \<and> x \<in> slots ?i page - set (a # l)" for j x
    proof
      assume a: "(j, x) \<in> slub_live s1 \<and> x \<in> slots ?i page"
      then obtain q where q: "j < 13" "q \<in> set (cache_pages s1 j)" "x \<in> slots j q" "x \<notin> set (freelist s1 q)"
        by (auto simp: slub_live_def)
      have "PGROUNDDOWN x = q"
        by (rule slot_page[OF q(3)]) (use slub_invD(3)[OF s1(1) q(1,2)] in \<open>simp add: page_ok_def\<close>)
      moreover have "PGROUNDDOWN x = page" by (rule slot_page[of x ?i]) (use ok a in auto)
      ultimately have "q = page" by simp
      moreover have "j = ?i" using page_in_one_cache[OF s1(1) q(1) i q(2)] page \<open>q = page\<close> by simp
      ultimately show "j = ?i \<and> x \<in> slots ?i page - set (a # l)" using a q fl by simp
    next
      assume "j = ?i \<and> x \<in> slots ?i page - set (a # l)"
      then show "(j, x) \<in> slub_live s1 \<and> x \<in> slots ?i page"
        using page fl i by (auto simp: slub_live_def)
    qed
    moreover have "a \<in> slots ?i page" "a \<notin> set l" using ok by auto
    ultimately show ?thesis by (auto 4 3)
  qed
  moreover have "a \<noteq> 0" using slot_in_page[of a ?i page] ok by auto
  ultimately show ?thesis using new s1(2) n i size_class(2)[OF n] by (simp add: Let_def)
qed

lemma kmalloc_returns:
  assumes inv: "slub_inv s" and n: "0 < n" "n \<le> 1536"
    and mem: "\<exists>p b. pages_alloc 1 (buddy_system s) = Some (p, b)"
  shows "\<exists>a s'. kmalloc n s = Some (a, s')"
proof -
  let ?i = "binary_search_ge slub_size 13 n"
  note i = size_class(1)[OF n]
  have len: "length (kmem_cache_array s) = 13" by (rule slub_invD(4)[OF inv i])
  have take: "\<exists>a u. take_object ?i t = Some (a, u)"
    if t: "slub_inv t" "partiallist (kmem_cache_array t ! ?i) \<noteq> []" for t
  proof -
    obtain p l where p: "partiallist (kmem_cache_array t ! ?i) = p # l"
      using t(2) by (cases "partiallist (kmem_cache_array t ! ?i)") auto
    then have "page_ok t ?i p" using slub_invD(3)[OF t(1) i, of p] by (simp add: cache_pages_def)
    then have "freelist t p \<noteq> []" using p by (simp add: page_ok_def)
    then show ?thesis using p by (auto simp: take_object_def neq_Nil_conv Let_def)
  qed
  show ?thesis
  proof (cases "partiallist (kmem_cache_array s ! ?i) = []")
    case True
    obtain p b where "pages_alloc 1 (buddy_system s) = Some (p, b)" using mem by blast
    then obtain t where t: "new_slub_pages_node ?i s = Some (p, t)"
      using i len by (auto simp: new_slub_pages_node_def)
    let ?u = "update_cache (kmem_cache_linked (slub_node t p)) (\<lambda>c. c\<lparr>partiallist := p # partiallist c\<rparr>) t"
    have "slub_inv ?u" "partiallist (kmem_cache_array ?u ! ?i) \<noteq> []"
      using refill_ok[OF inv i t] by (simp_all add: Let_def)
    then obtain a u where "take_object ?i ?u = Some (a, u)" using take by blast
    then show ?thesis
      using True n i len t slub_size_props(3) by (simp add: kmalloc_def Let_def)
  next
    case False
    then obtain a u where "take_object ?i s = Some (a, u)" using take[OF inv] by blast
    then show ?thesis using False n i len slub_size_props(3) by (simp add: kmalloc_def Let_def)
  qed
qed

lemma kfree_ok:
  assumes inv: "slub_inv s" and a: "(i, a) \<in> slub_live s"
  shows "slub_inv (kfree a s) \<and> slub_live (kfree a s) = slub_live s - {(i, a)}"
proof -
  obtain page where p: "i < 13" "page \<in> set (cache_pages s i)" "a \<in> slots i page" "a \<notin> set (freelist s page)"
    using a by (auto simp: slub_live_def)
  note i = p(1) and page = p(2)
  note D = slub_invD[OF inv i]
  note ok = D(3)[OF page, unfolded page_ok_def]
  have len: "length (kmem_cache_array s) = 13" by (rule D(4))
  have pg: "PGROUNDDOWN a = page" by (rule slot_page[OF p(3)]) (use ok in simp)
  have a0: "a \<noteq> 0" using slot_in_page[OF p(3)] by simp
  let ?l = "freelist s page"
  let ?c = "if ?l = [] then (unlink_page page (kmem_cache_array s ! i))
      \<lparr>partiallist := page # partiallist (unlink_page page (kmem_cache_array s ! i))\<rparr>
    else kmem_cache_array s ! i"
  let ?s = "kfree a s"
  have s': "buddy_system ?s = buddy_system s" "kmem_cache_array ?s = (kmem_cache_array s)[i := ?c]"
    "slub_node ?s = (slub_node s)(page := (slub_node s page)\<lparr>obj_freelist := a # ?l\<rparr>)"
    using ok a0 by (auto simp: kfree_def pg Let_def set_freelist_def update_cache_def)
  have dist: "distinct (cache_pages s i)" by (rule D(2))
  have c: "obj_size ?c = slub_size ! i" "distinct (partiallist ?c @ fulllist ?c)"
    "set (partiallist ?c @ fulllist ?c) = set (cache_pages s i)"
    "\<And>q. q \<noteq> page \<Longrightarrow> q \<in> set (partiallist ?c) \<longleftrightarrow> q \<in> set (partiallist (kmem_cache_array s ! i))"
    "page \<in> set (partiallist ?c) \<longleftrightarrow> a # ?l \<noteq> []"
    using D(1) dist page ok by (auto simp: unlink_page_def cache_pages_def distinct_removeAll)
  have l: "distinct (a # ?l)" "set (a # ?l) \<subseteq> slots i page" using ok p by auto
  have inv': "slub_inv ?s" by (rule slub_inv_step(1)[OF inv i s'(1,2) c(1) s'(3) page c(2-5) l])
  have live: "slub_live ?s = {(j, x)\<in>slub_live s. x \<notin> slots i page} \<union> {(i, x) |x. x \<in> slots i page - set (a # ?l)}"
    by (rule slub_inv_step(2)[OF inv i s'(1,2) c(1) s'(3) page c(2-5) l])
  have "(j, x) \<in> slub_live s \<and> x \<in> slots i page \<longleftrightarrow> j = i \<and> x \<in> slots i page - set ?l" for j x
  proof
    assume x: "(j, x) \<in> slub_live s \<and> x \<in> slots i page"
    then obtain q where q: "j < 13" "q \<in> set (cache_pages s j)" "x \<in> slots j q" "x \<notin> set (freelist s q)"
      by (auto simp: slub_live_def)
    have "PGROUNDDOWN x = q"
      by (rule slot_page[OF q(3)]) (use slub_invD(3)[OF inv q(1,2)] in \<open>simp add: page_ok_def\<close>)
    moreover have "PGROUNDDOWN x = page" by (rule slot_page[of x i]) (use ok x in auto)
    ultimately have "q = page" by simp
    moreover have "j = i" using page_in_one_cache[OF inv q(1) i q(2)] page \<open>q = page\<close> by simp
    ultimately show "j = i \<and> x \<in> slots i page - set ?l" using x q by simp
  next
    assume "j = i \<and> x \<in> slots i page - set ?l"
    then show "(j, x) \<in> slub_live s \<and> x \<in> slots i page" using page i by (auto simp: slub_live_def)
  qed
  then have "slub_live ?s = slub_live s - {(i, a)}" unfolding live using p(3) by (auto 4 3)
  then show ?thesis using inv' by simp
qed

lemma live_objects_disjoint:
  assumes inv: "slub_inv s" and a: "(i, a) \<in> slub_live s" and b: "(j, b) \<in> slub_live s"
    and ne: "(i, a) \<noteq> (j, b)"
  shows "{a ..< a + slub_size ! i} \<inter> {b ..< b + slub_size ! j} = {}"
proof -
  obtain p where p: "i < 13" "p \<in> set (cache_pages s i)" "a \<in> slots i p" using a by (auto simp: slub_live_def)
  obtain q where q: "j < 13" "q \<in> set (cache_pages s j)" "b \<in> slots j q" using b by (auto simp: slub_live_def)
  have m: "p mod PGSIZE = 0" "q mod PGSIZE = 0"
    using slub_invD(3)[OF inv p(1,2)] slub_invD(3)[OF inv q(1,2)] by (auto simp: page_ok_def)
  have ij: "p = q \<Longrightarrow> i = j" using page_in_one_cache[OF inv p(1) q(1) p(2)] q(2) by simp
  have "a \<noteq> b"
  proof
    assume "a = b"
    then have "p = q" using slot_page[OF p(3) m(1)] slot_page[OF q(3) m(2)] by simp
    then show False using ij ne \<open>a = b\<close> by simp
  qed
  then show ?thesis using ij by (intro slots_disjoint[OF p(3) m(1) q(3) m(2)])
qed

lemma kmem_cache_init_ok:
  assumes "buddy_inv (buddy_system s)"
  shows "slub_inv (kmem_cache_init s)" "slub_live (kmem_cache_init s) = {}"
  using assms slub_size_props(1) by (auto simp: slub_inv_def slub_live_def kmem_cache_init_def cache_pages_def)

section \<open>What the kernel relies on\<close>

definition boot_slub :: slub where
  "boot_slub = kmem_cache_init \<lparr>kmem_cache_array = [], slub_node = (\<lambda>_. \<lparr>kmem_cache_linked = 0, obj_freelist = []\<rparr>),
     buddy_system = boot_buddy\<rparr>"

lemma boot_slub: "slub_inv boot_slub" "slub_live boot_slub = {}" "buddy_system boot_slub = boot_buddy"
  unfolding boot_slub_def
  by (rule kmem_cache_init_ok, simp add: boot_buddy(2))+ (simp add: kmem_cache_init_def)

lemma boot_slub_kmalloc:
  assumes "0 < n" "n \<le> 1536"
  obtains a s where "kmalloc n boot_slub = Some (a, s)"
proof -
  obtain k i s' where "pages_alloc 1 boot_buddy = Some (page_addr boot_buddy i, s')"
    by (rule boot_buddy_allocates[of 1]) auto
  then have "\<exists>p b. pages_alloc 1 (buddy_system boot_slub) = Some (p, b)" using boot_slub(3) by auto
  then show thesis using kmalloc_returns[OF boot_slub(1) assms] that by blast
qed

text \<open>C24. A successful \<open>kmalloc\<close> of \<open>n\<close> bytes returns an object of the least size class that holds
  \<open>n\<close>, whose bytes no live object shares; nothing else becomes live, and the caches stay consistent.\<close>

theorem kmalloc_fresh_object:
  assumes "slub_inv s" "kmalloc n s = Some (a, s')"
  shows "\<exists>i < 13. 0 < n \<and> n \<le> slub_size ! i \<and> (\<forall>j < i. slub_size ! j < n) \<and> a \<noteq> 0 \<and> slub_inv s' \<and>
    slub_live s' = insert (i, a) (slub_live s) \<and>
    (\<forall>(j, b)\<in>slub_live s. {a ..< a + slub_size ! i} \<inter> {b ..< b + slub_size ! j} = {})"
proof -
  define i where "i = binary_search_ge slub_size 13 n"
  have k: "0 < n" "n \<le> slub_size ! i" "i < 13" "slub_inv s'" "(i, a) \<notin> slub_live s" "a \<noteq> 0"
    "slub_live s' = insert (i, a) (slub_live s)"
    using kmalloc_ok[OF assms] by (simp_all add: Let_def i_def)
  have n: "n \<le> 1536" using k(2,3) slub_size_bounds[of i] by simp
  have "{a ..< a + slub_size ! i} \<inter> {b ..< b + slub_size ! j} = {}" if "(j, b) \<in> slub_live s" for j b
    by (rule live_objects_disjoint[OF k(4)]) (use that k(5,7) in auto)
  moreover have "\<forall>j < i. slub_size ! j < n" using size_class(3)[OF k(1) n] by (simp add: i_def)
  ultimately show ?thesis using k by blast
qed

lemma kmalloc_fresh_object_witness:
  "\<exists>a s. kmalloc 100 boot_slub = Some (a, s) \<and> slub_inv s \<and> (\<exists>i. slub_live s = {(i, a)} \<and> 100 \<le> slub_size ! i)"
proof -
  obtain a s where k: "kmalloc 100 boot_slub = Some (a, s)" by (rule boot_slub_kmalloc[of 100]) auto
  show ?thesis using kmalloc_fresh_object[OF boot_slub(1) k] k boot_slub(2) by auto
qed

text \<open>C28. \<open>kfree\<close> of a live object makes exactly that object free again; freeing what \<open>kmalloc\<close> just
  returned restores the set of live objects.\<close>

theorem kfree_releases_object:
  assumes "slub_inv s"
  shows "(\<forall>(i, a)\<in>slub_live s. slub_inv (kfree a s) \<and> slub_live (kfree a s) = slub_live s - {(i, a)}) \<and>
    (\<forall>n a s'. kmalloc n s = Some (a, s') \<longrightarrow> slub_live (kfree a s') = slub_live s)"
proof
  show "\<forall>(i, a)\<in>slub_live s. slub_inv (kfree a s) \<and> slub_live (kfree a s) = slub_live s - {(i, a)}"
    using kfree_ok[OF assms] by blast
  show "\<forall>n a s'. kmalloc n s = Some (a, s') \<longrightarrow> slub_live (kfree a s') = slub_live s"
  proof (intro allI impI)
    fix n a s' assume "kmalloc n s = Some (a, s')"
    then obtain i where k: "slub_inv s'" "(i, a) \<notin> slub_live s" "slub_live s' = insert (i, a) (slub_live s)"
      using kmalloc_ok[OF assms, of n a s'] by (auto simp: Let_def)
    then show "slub_live (kfree a s') = slub_live s" using kfree_ok[OF k(1), of i a] by auto
  qed
qed

lemma kfree_releases_object_witness:
  "\<exists>a s. kmalloc 48 boot_slub = Some (a, s) \<and> slub_live (kfree a s) = {}"
proof -
  obtain a s where k: "kmalloc 48 boot_slub = Some (a, s)" by (rule boot_slub_kmalloc[of 48]) auto
  show ?thesis using kfree_releases_object[OF boot_slub(1)] k boot_slub(2) by auto
qed

end
