(* ===== verification/Pagetable.thy ===== *)
theory Pagetable
  imports Slub
begin

text \<open>
  The Sv39 page tables of kernel/mm/vm.c and platform/riscv.h, and the copy routines between
  user and kernel space. A page-table page is a map from the 512 indices to 64-bit entries,
  \<open>pgt s page\<close>; the bytes of the other pages are \<open>bytes s\<close>. The two views are kept apart: the
  kernel never reads a page-table page as data. Physical addresses are \<open>nat\<close>, virtual addresses
  and entries are 64-bit words.
\<close>

section \<open>Page table entries\<close>

abbreviation (input) PTE_V :: u64 where "PTE_V \<equiv> 1"
abbreviation (input) PTE_R :: u64 where "PTE_R \<equiv> 2"
abbreviation (input) PTE_W :: u64 where "PTE_W \<equiv> 4"
abbreviation (input) PTE_X :: u64 where "PTE_X \<equiv> 8"
abbreviation (input) PTE_U :: u64 where "PTE_U \<equiv> 16"
abbreviation (input) PTE_G :: u64 where "PTE_G \<equiv> 32"
abbreviation (input) PTE_unrelease :: u64 where "PTE_unrelease \<equiv> 256"

abbreviation (input) MAXVA :: u64 where "MAXVA \<equiv> 0x4000000000"
abbreviation (input) TRAMPOLINE :: u64 where "TRAMPOLINE \<equiv> 0x3FFFFFF000"
abbreviation (input) TRAPFRAME :: u64 where "TRAPFRAME \<equiv> 0x3FFFFFE000"

text \<open>\<open>struct pgtable_entry_t\<close>: the eight permission bits, \<open>unrelease\<close> in bit 8, and the 44-bit
  page number from bit 10 on.\<close>

definition pte_valid :: "u64 \<Rightarrow> bool" where "pte_valid e = bit e 0"
definition pte_user :: "u64 \<Rightarrow> bool" where "pte_user e = bit e 4"
definition pte_unrelease :: "u64 \<Rightarrow> bool" where "pte_unrelease e = bit e 8"
definition pte_perm :: "u64 \<Rightarrow> u64" where "pte_perm e = take_bit 8 e"
definition pte_paddr :: "u64 \<Rightarrow> u64" where "pte_paddr e = take_bit 44 (drop_bit 10 e)"

definition PTE_FLAGS :: "u64 \<Rightarrow> u64" where "PTE_FLAGS e = e AND 0x3ff"

definition PNO2PA :: "u64 \<Rightarrow> nat" where "PNO2PA n = unat n * PGSIZE"

definition PA2PTE :: "nat \<Rightarrow> u64" where "PA2PTE a = push_bit 10 (drop_bit PGSHIFT (word_of_nat a))"

definition PX :: "nat \<Rightarrow> u64 \<Rightarrow> nat" where
  "PX level va = unat (drop_bit (PGSHIFT + 9 * level) va AND 0x1ff)"

definition OFFSETPAGE :: "u64 \<Rightarrow> u64" where "OFFSETPAGE a = a AND 0xfff"
definition PGROUNDDOWN64 :: "u64 \<Rightarrow> u64" where "PGROUNDDOWN64 a = a AND NOT 0xfff"
definition PGROUNDUP64 :: "u64 \<Rightarrow> u64" where "PGROUNDUP64 a = (a + 0xfff) AND NOT 0xfff"

section \<open>State and operations\<close>

record vm =
  pgt :: "nat \<Rightarrow> nat \<Rightarrow> u64"
  bytes :: mem
  phys :: buddy

definition set_pte :: "nat \<times> nat \<Rightarrow> u64 \<Rightarrow> vm \<Rightarrow> vm" where
  "set_pte loc e s = s\<lparr>pgt := (pgt s)(fst loc := (pgt s (fst loc))(snd loc := e))\<rparr>"

definition get_pte :: "nat \<times> nat \<Rightarrow> vm \<Rightarrow> u64" where
  "get_pte loc s = pgt s (fst loc) (snd loc)"

text \<open>\<open>pages_zalloc(1)\<close> for a page-table page.\<close>

definition pgt_zalloc :: "vm \<Rightarrow> (nat \<times> vm) option" where
  "pgt_zalloc s = do {
     (p, b) \<leftarrow> pages_alloc 1 (phys s);
     Some (p, s\<lparr>phys := b, pgt := (pgt s)(p := (\<lambda>_. 0))\<rparr>) }"

text \<open>The loop of \<open>walk\<close>, from \<open>level\<close> down to the leaf table. The result is \<open>None\<close> for a NULL
  pointer, and otherwise the location of the entry.\<close>

fun walk_levels :: "nat \<Rightarrow> u64 \<Rightarrow> bool \<Rightarrow> nat \<Rightarrow> vm \<Rightarrow> ((nat \<times> nat) option \<times> vm) option" where
  "walk_levels pagetable va alloc 0 s = Some (Some (pagetable, PX 0 va), s)"
| "walk_levels pagetable va alloc (Suc l) s =
     (let loc = (pagetable, PX (Suc l) va); pte = get_pte loc s
      in if pte_valid pte then walk_levels (PNO2PA (pte_paddr pte)) va alloc l s
         else if \<not> alloc then Some (None, s)
         else do {
           (p, s1) \<leftarrow> pgt_zalloc s;
           walk_levels p va alloc l (set_pte loc (PA2PTE p OR PTE_V) s1) })"

definition walk :: "nat \<Rightarrow> u64 \<Rightarrow> bool \<Rightarrow> vm \<Rightarrow> ((nat \<times> nat) option \<times> vm) option" where
  "walk pagetable va alloc s = do {
     cassert (va < MAXVA);
     walk_levels pagetable va alloc 2 s }"

definition walkaddr :: "nat \<Rightarrow> u64 \<Rightarrow> vm \<Rightarrow> nat option" where
  "walkaddr pagetable va s = do {
     (r, _) \<leftarrow> walk pagetable va False s;
     case r of None \<Rightarrow> Some 0
     | Some loc \<Rightarrow>
       (let pte = get_pte loc s
        in if \<not> pte_valid pte then Some 0
           else if \<not> pte_user pte then Some 0
           else Some (PNO2PA (pte_paddr pte))) }"

definition vaddr2paddr :: "nat \<Rightarrow> u64 \<Rightarrow> vm \<Rightarrow> nat option" where
  "vaddr2paddr pagetable va s = do {
     pgstart \<leftarrow> walkaddr pagetable va s;
     if pgstart = 0 then Some 0 else Some (unat (OFFSETPAGE va) + pgstart) }"

text \<open>The loop of \<open>mappages\<close>; \<open>-1\<close> when \<open>walk\<close> has no entry.\<close>

function mappages_loop :: "nat \<Rightarrow> u64 \<Rightarrow> u64 \<Rightarrow> u64 \<Rightarrow> nat \<Rightarrow> u64 \<Rightarrow> vm \<Rightarrow> (int \<times> vm) option" where
  "mappages_loop pagetable va a lst pa perm s =
     (if a < lst then do {
        (r, s1) \<leftarrow> walk pagetable a True s;
        case r of None \<Rightarrow> Some (-1, s1)
        | Some loc \<Rightarrow> do {
            cassert (\<not> pte_valid (get_pte loc s1));
            let perm' = (if va \<ge> TRAMPOLINE then perm OR PTE_G else perm);
            let e = PA2PTE pa OR perm' OR PTE_V;
            let s2 = set_pte loc (if va \<ge> TRAPFRAME then e OR PTE_unrelease else e) s1;
            mappages_loop pagetable va (a + 4096) lst (pa + PGSIZE) perm' s2 } }
      else Some (0, s))"
  by auto
termination
proof (relation "measure (\<lambda>(pt, va, a, lst, pa, perm, s). unat lst + 4096 - unat a)")
  fix pagetable :: nat and va a lst :: u64 and pa and perm :: u64 and s s1 x r loc s2 perm' e u
  assume lt: "a < lst" and w: "walk pagetable a True s = Some x"
  have "a < MAXVA" using w by (simp add: walk_def hoare_simps)
  then have "unat a < 0x4000000000" by (simp add: word_less_nat_alt)
  then have "unat (a + 4096) = unat a + 4096" by (simp add: unat_word_ariths)
  then show "((pagetable, va, a + 4096, lst, pa + PGSIZE, perm', s2), (pagetable, va, a, lst, pa, perm, s))
      \<in> measure (\<lambda>(pt, va, a, lst, pa, perm, s). unat lst + 4096 - unat a)"
    using lt by (simp add: word_less_nat_alt)
qed simp

definition mappages :: "nat \<Rightarrow> u64 \<Rightarrow> u64 \<Rightarrow> nat \<Rightarrow> u64 \<Rightarrow> vm \<Rightarrow> (int \<times> vm) option" where
  "mappages pagetable va n pa perm s = do {
     cassert (n \<noteq> 0);
     let a = PGROUNDDOWN64 va;
     let lst = PGROUNDUP64 (a + n - 1);
     mappages_loop pagetable va a lst pa perm s }"

definition uvmcreate :: "vm \<Rightarrow> (nat \<times> vm) option" where
  "uvmcreate s = pgt_zalloc s"

text \<open>\<open>release_phypg\<close>: the last reference frees the page, any other is only dropped.\<close>

definition release_phypg :: "nat \<Rightarrow> vm \<Rightarrow> vm option" where
  "release_phypg p s = do {
     (r, b) \<leftarrow> pages_undup p (phys s);
     if r = 1 then do { b' \<leftarrow> pages_free p b; Some (s\<lparr>phys := b'\<rparr>) }
     else Some (s\<lparr>phys := b\<rparr>) }"

declare mappages_loop.simps [simp del]

text \<open>\<open>free_pgtable\<close> on the layers \<open>2 - d\<close>: the inner tables only recurse, the leaf tables
  release the pages that are valid and not marked \<open>unrelease\<close>.\<close>

primrec free_pgtable_rest :: "nat \<Rightarrow> nat \<Rightarrow> vm \<Rightarrow> vm option" where
  "free_pgtable_rest 0 = (\<lambda>t s. for_each (\<lambda>i s.
     let pte = pgt s t i; child = PNO2PA (pte_paddr pte)
     in if pte_unrelease pte then Some s
        else if pte_valid pte then release_phypg child s else Some s) [0..<512] s)"
| "free_pgtable_rest (Suc d) = (\<lambda>t s. for_each (\<lambda>i s.
     let pte = pgt s t i; child = PNO2PA (pte_paddr pte)
     in if pte_valid pte then free_pgtable_rest d child s else Some s) [0..<512] s)"

definition free_pgtable :: "nat \<Rightarrow> nat \<Rightarrow> vm \<Rightarrow> vm option" where
  "free_pgtable pagetable layer s =
     (if layer \<le> 2 then free_pgtable_rest (2 - layer) pagetable s else None)"

text \<open>\<open>copy_pgtable\<close>, on the layers \<open>2 - d\<close> in the same way. Its returns of -1 are dead, since
  \<open>pages_alloc\<close> asserts that it never returns NULL.\<close>

definition copy_leaf :: "nat \<Rightarrow> nat \<Rightarrow> u64 \<Rightarrow> nat \<Rightarrow> vm \<Rightarrow> vm option" where
  "copy_leaf new_t old_t perm i s =
     (let old_pte = pgt s old_t i; old_child = PNO2PA (pte_paddr old_pte)
      in if pte_unrelease old_pte then Some s
         else if pte_valid old_pte then do {
           let e = old_pte AND NOT (perm AND 0xff);
           let s1 = set_pte (new_t, i) e (set_pte (old_t, i) e s);
           (_, b) \<leftarrow> pages_dup old_child (phys s1);
           Some (s1\<lparr>phys := b\<rparr>) }
         else Some s)"

definition copy_inner ::
    "(nat \<Rightarrow> nat \<Rightarrow> vm \<Rightarrow> vm option) \<Rightarrow> nat \<Rightarrow> nat \<Rightarrow> nat \<Rightarrow> vm \<Rightarrow> vm option" where
  "copy_inner copy_child new_t old_t i s =
     (let old_pte = pgt s old_t i; old_child = PNO2PA (pte_paddr old_pte)
      in if pte_unrelease old_pte then Some s
         else if pte_valid old_pte then do {
           let new_pte = pgt s new_t i;
           (new_child, s1) \<leftarrow>
             (if pte_valid new_pte then Some (PNO2PA (pte_paddr new_pte), s)
              else do {
                (p, s1) \<leftarrow> pgt_zalloc s;
                Some (p, set_pte (new_t, i) (PA2PTE p OR PTE_FLAGS old_pte) s1) });
           copy_child new_child old_child s1 }
         else Some s)"

primrec copy_pgtable_rest :: "nat \<Rightarrow> u64 \<Rightarrow> nat \<Rightarrow> nat \<Rightarrow> vm \<Rightarrow> vm option" where
  "copy_pgtable_rest 0 perm = (\<lambda>new_t old_t s. for_each (copy_leaf new_t old_t perm) [0..<512] s)"
| "copy_pgtable_rest (Suc d) perm = (\<lambda>new_t old_t s.
     for_each (copy_inner (copy_pgtable_rest d perm) new_t old_t) [0..<512] s)"

definition copy_pgtable :: "nat \<Rightarrow> nat \<Rightarrow> nat \<Rightarrow> u64 \<Rightarrow> vm \<Rightarrow> vm option" where
  "copy_pgtable new_t old_t layer perm s = do {
     cassert (layer \<le> 2);
     copy_pgtable_rest (2 - layer) perm new_t old_t s }"

text \<open>\<open>do_wp_page\<close>: the write fault on a shared page.\<close>

definition do_wp_page :: "nat \<times> nat \<Rightarrow> u64 \<Rightarrow> vm \<Rightarrow> (int \<times> vm) option" where
  "do_wp_page loc targetperm s = do {
     let pte = get_pte loc s;
     let physpg_paddr = PNO2PA (pte_paddr pte);
     (r, b) \<leftarrow> pages_undup physpg_paddr (phys s);
     if r = 1 then Some (0, set_pte loc (pte OR (targetperm AND 0xff)) (s\<lparr>phys := b\<rparr>))
     else do {
       (new_page, b') \<leftarrow> pages_alloc 1 b;
       let s1 = s\<lparr>phys := b', bytes := memcpy (bytes s) new_page physpg_paddr PGSIZE\<rparr>;
       Some (0, set_pte loc (PA2PTE new_page OR (targetperm OR pte_perm pte)) s1) } }"

section \<open>Copying between user and kernel space\<close>

lemma PGROUNDDOWN64_take: "PGROUNDDOWN64 a = a - take_bit 12 a"
  using and_not_mask[of a 12] by (simp add: PGROUNDDOWN64_def)

lemma take_bit12_le: "take_bit 12 (a::u64) \<le> a"
  by (simp only: word_le_nat_alt unat_take_bit mod_less_eq_dividend)

lemma unat_PGROUNDDOWN64: "unat (PGROUNDDOWN64 a) = unat a - unat a mod PGSIZE"
  unfolding PGROUNDDOWN64_take using take_bit12_le[of a]
  by (simp add: unat_sub unat_take_bit del: take_bit_eq_mod)

lemma page_offset: "a - PGROUNDDOWN64 a = take_bit 12 a" "unat (a - PGROUNDDOWN64 a) = unat a mod PGSIZE"
proof -
  show *: "a - PGROUNDDOWN64 a = take_bit 12 a" by (simp add: PGROUNDDOWN64_take)
  show "unat (a - PGROUNDDOWN64 a) = unat a mod PGSIZE" unfolding * using unat_take_bit[of 12 a] by simp
qed

lemma page_offset_less: "unat (a - PGROUNDDOWN64 a) < PGSIZE"
  unfolding page_offset(2) by simp

text \<open>The bytes of one round: to the end of the page, or fewer.\<close>

definition chunk :: "u64 \<Rightarrow> nat \<Rightarrow> nat" where
  "chunk va len = (let n = PGSIZE - unat (va - PGROUNDDOWN64 va) in if n > len then len else n)"

lemma chunk_bounds: "0 < len \<Longrightarrow> 0 < chunk va len" "chunk va len \<le> len"
  "unat va mod PGSIZE + chunk va len \<le> PGSIZE"
  using page_offset_less[of va] by (auto simp: chunk_def Let_def page_offset(2))

function copyin :: "nat \<Rightarrow> nat \<Rightarrow> u64 \<Rightarrow> nat \<Rightarrow> vm \<Rightarrow> (int \<times> vm) option" where
  "copyin pagetable dst src_vaddr len s =
     (if len > 0 then do {
        let va0 = PGROUNDDOWN64 src_vaddr;
        pa0 \<leftarrow> walkaddr pagetable va0 s;
        if pa0 = 0 then Some (-1, s)
        else do {
          let n = chunk src_vaddr len;
          let s1 = s\<lparr>bytes := memcpy (bytes s) dst (pa0 + unat (src_vaddr - va0)) n\<rparr>;
          copyin pagetable (dst + n) (va0 + 4096) (len - n) s1 } }
      else Some (0, s))"
  by auto
termination
  by (relation "measure (\<lambda>(pt, dst, src, len, s). len)")
    (auto intro!: diff_less chunk_bounds(1))

function copyout :: "nat \<Rightarrow> u64 \<Rightarrow> nat \<Rightarrow> nat \<Rightarrow> vm \<Rightarrow> (int \<times> vm) option" where
  "copyout pagetable dst_vaddr src len s =
     (if len > 0 then do {
        let va0 = PGROUNDDOWN64 dst_vaddr;
        pa0 \<leftarrow> walkaddr pagetable va0 s;
        if pa0 = 0 then Some (-1, s)
        else do {
          let n = chunk dst_vaddr len;
          let s1 = s\<lparr>bytes := memcpy (bytes s) (pa0 + unat (dst_vaddr - va0)) src n\<rparr>;
          copyout pagetable (va0 + 4096) (src + n) (len - n) s1 } }
      else Some (0, s))"
  by auto
termination
  by (relation "measure (\<lambda>(pt, dst, src, len, s). len)")
    (auto intro!: diff_less chunk_bounds(1))

text \<open>The inner loop of \<open>copyin_string\<close> over \<open>n\<close> bytes; it returns \<open>got_null\<close>, \<open>max\<close>, \<open>dst\<close>.\<close>

fun copy_string_chunk :: "nat \<Rightarrow> nat \<Rightarrow> nat \<Rightarrow> nat \<Rightarrow> mem \<Rightarrow> bool \<times> nat \<times> nat \<times> mem" where
  "copy_string_chunk 0 mx p dst m = (False, mx, dst, m)"
| "copy_string_chunk (Suc n) mx p dst m =
     (if m p = 0 then (True, mx, dst, m(dst := 0))
      else copy_string_chunk n (mx - 1) (p + 1) (dst + 1) (m(dst := m p)))"

lemma copy_string_chunk_max:
  "copy_string_chunk n mx p dst m = (g, mx', dst', m') \<Longrightarrow> n \<le> mx \<Longrightarrow>
   mx' \<le> mx \<and> (\<not> g \<longrightarrow> mx' = mx - n)"
  by (induction n arbitrary: mx p dst m) (fastforce split: if_splits)+

function copyin_string_loop ::
    "nat \<Rightarrow> nat \<Rightarrow> nat \<Rightarrow> u64 \<Rightarrow> nat \<Rightarrow> vm \<Rightarrow> (int \<times> vm) option" where
  "copyin_string_loop pagetable dstart dst srcva mx s =
     (if mx > 0 then do {
        let va0 = PGROUNDDOWN64 srcva;
        pa0 \<leftarrow> walkaddr pagetable va0 s;
        if pa0 = 0 then Some (-1, s)
        else
          (let n = chunk srcva mx;
               p = pa0 + unat (srcva - va0)
           in case copy_string_chunk n mx p dst (bytes s) of (g, mx', dst', m') \<Rightarrow>
             if g then Some (int dst' - int dstart, s\<lparr>bytes := m'\<rparr>)
             else copyin_string_loop pagetable dstart dst' (va0 + 4096) mx' (s\<lparr>bytes := m'\<rparr>)) }
      else Some (-1, s))"
  by auto
termination
proof (relation "measure (\<lambda>(pt, ds, dst, src, mx, s). mx)", simp, clarsimp)
  fix srcva :: u64 and mx p dst dst' mx' :: nat and m m' :: mem
  assume "0 < mx" and c: "(False, mx', dst', m') = copy_string_chunk (chunk srcva mx) mx p dst m"
  have "mx' = mx - chunk srcva mx"
    using copy_string_chunk_max[OF c[symmetric] chunk_bounds(2)] by simp
  then show "mx' < mx" using \<open>0 < mx\<close> chunk_bounds(1)[of mx srcva] by simp
qed

definition copyin_string :: "nat \<Rightarrow> nat \<Rightarrow> u64 \<Rightarrow> nat \<Rightarrow> vm \<Rightarrow> (int \<times> vm) option" where
  "copyin_string pagetable dst srcva mx s = copyin_string_loop pagetable dst dst srcva mx s"

text \<open>\<open>either_copyin\<close> and \<open>either_copyout\<close>; an address of the kernel is its physical address.\<close>

definition either_copyin :: "bool \<Rightarrow> nat \<Rightarrow> nat \<Rightarrow> u64 \<Rightarrow> nat \<Rightarrow> vm \<Rightarrow> (int \<times> vm) option" where
  "either_copyin user_src pagetable dst src len s =
     (if user_src then copyin pagetable dst src len s
      else Some (0, s\<lparr>bytes := memcpy (bytes s) dst (unat src) len\<rparr>))"

definition either_copyout :: "bool \<Rightarrow> nat \<Rightarrow> u64 \<Rightarrow> nat \<Rightarrow> nat \<Rightarrow> vm \<Rightarrow> (int \<times> vm) option" where
  "either_copyout user_dst pagetable dst src len s =
     (if user_dst then copyout pagetable dst src len s
      else Some (0, s\<lparr>bytes := memcpy (bytes s) (unat dst) src len\<rparr>))"

declare copyin.simps [simp del] copyout.simps [simp del] copyin_string_loop.simps [simp del]

subsection \<open>Walking without allocating\<close>

lemma walk_levels_bytes:
  "walk_levels t va False l (s\<lparr>bytes := m\<rparr>)
    = map_option (\<lambda>(r, _). (r, s\<lparr>bytes := m\<rparr>)) (walk_levels t va False l s)"
  by (induction l arbitrary: t) (simp_all add: get_pte_def Let_def)

lemma walk_levels_same: "walk_levels t va False l s = Some (r, s') \<Longrightarrow> s' = s"
  by (induction l arbitrary: t) (auto simp: Let_def split: if_splits)

lemma walk_levels_total: "\<exists>r. walk_levels t va False l s = Some (r, s)"
  by (induction l arbitrary: t) (auto simp: Let_def)

lemma walkaddr_bytes [simp]: "walkaddr t va (s\<lparr>bytes := m\<rparr>) = walkaddr t va s"
proof (cases "va < MAXVA")
  case True
  obtain r where "walk_levels t va False 2 s = Some (r, s)" using walk_levels_total by blast
  then show ?thesis
    using True by (simp add: walkaddr_def walk_def walk_levels_bytes get_pte_def split: option.splits)
qed (simp add: walkaddr_def walk_def)

lemma unat_drop_bit: "unat (drop_bit n (x::u64)) = unat x div 2 ^ n"
proof -
  have "unat x < 2 ^ LENGTH(64)" by (rule unsigned_less)
  then show ?thesis unfolding unsigned_drop_bit_eq by (simp add: drop_bit_eq_div take_bit_nat_eq_self)
qed

lemma same_page_PX: "drop_bit 12 va = drop_bit 12 vb \<Longrightarrow> PX l va = PX l (vb::u64)"
proof -
  assume eq: "drop_bit 12 va = drop_bit 12 vb"
  have "drop_bit (12 + 9 * l) x = drop_bit (9 * l) (drop_bit 12 x)" for x :: u64
    unfolding drop_bit_drop_bit by (simp only: add.commute)
  then show ?thesis unfolding PX_def by (simp only: eq)
qed

lemma same_page_MAXVA:
  assumes "drop_bit 12 va = drop_bit 12 (vb::u64)"
  shows "va < MAXVA \<longleftrightarrow> vb < MAXVA"
proof -
  have "x < MAXVA \<longleftrightarrow> unat (drop_bit 12 x) < 0x4000000" for x :: u64
    by (simp add: word_less_nat_alt unat_drop_bit del: drop_bit_eq_div) auto
  then show ?thesis using assms by simp
qed

lemma same_page_walk_levels:
  "drop_bit 12 va = drop_bit 12 vb \<Longrightarrow> walk_levels t va alloc l s = walk_levels t vb alloc l s"
proof (induction l arbitrary: t s)
  case (Suc l)
  have "walk_levels p va alloc l = walk_levels p vb alloc l" for p
    by (rule ext) (rule Suc.IH[OF Suc.prems])
  then show ?case by (simp only: walk_levels.simps same_page_PX[OF Suc.prems])
qed (simp add: same_page_PX[of va vb])

lemma same_page_walkaddr:
  "drop_bit 12 va = drop_bit 12 vb \<Longrightarrow> walkaddr t va s = walkaddr t vb s"
  using same_page_MAXVA[of va vb]
  by (simp add: walkaddr_def walk_def same_page_walk_levels[of va vb])

lemma drop_bit_PGROUNDDOWN64: "drop_bit 12 (PGROUNDDOWN64 va) = drop_bit 12 va"
proof -
  have "unat (drop_bit 12 (PGROUNDDOWN64 va)) = unat (drop_bit 12 va)"
    unfolding unat_drop_bit unat_PGROUNDDOWN64 by (simp add: minus_mod_eq_mult_div)
  then show ?thesis by (simp only: word_unat_eq_iff)
qed

lemma unat_plus_small:
  "unat va + k < 2 ^ 64 \<Longrightarrow> unat (va + word_of_nat k :: u64) = unat va + k"
  by (simp add: unat_word_ariths unat_of_nat)

lemma same_page_add:
  assumes "unat va + k < 2 ^ 64" "unat va mod PGSIZE + k < PGSIZE"
  shows "drop_bit 12 (va + word_of_nat k) = drop_bit 12 (va::u64)"
proof -
  have "(unat va + k) div PGSIZE = unat va div PGSIZE"
  proof -
    have "unat va + k = (unat va mod PGSIZE + k) + PGSIZE * (unat va div PGSIZE)" by simp
    then have "(unat va + k) div PGSIZE = (unat va mod PGSIZE + k) div PGSIZE + unat va div PGSIZE"
      by (metis add.commute div_mult_self2 zero_neq_numeral)
    then show ?thesis using assms(2) by simp
  qed
  then have "unat (drop_bit 12 (va + word_of_nat k)) = unat (drop_bit 12 va)"
    unfolding unat_drop_bit unat_plus_small[OF assms(1)] by simp
  then show ?thesis by (simp only: word_unat_eq_iff)
qed

lemma unat_OFFSETPAGE: "unat (OFFSETPAGE va) = unat va mod PGSIZE"
proof -
  have "va AND 0xfff = take_bit 12 va" by (simp add: take_bit_eq_mask mask_eq_exp_minus_1)
  then show ?thesis unfolding OFFSETPAGE_def using unat_take_bit[of 12 va] by simp
qed

lemma vaddr2paddr_SomeD:
  assumes "vaddr2paddr t va s = Some p" "p \<noteq> 0"
  obtains q where "walkaddr t va s = Some q" "q \<noteq> 0" "p = q + unat va mod PGSIZE"
  using assms by (auto simp: vaddr2paddr_def unat_OFFSETPAGE hoare_simps split: if_splits)

lemma vaddr2paddr_bytes [simp]: "vaddr2paddr t va (s\<lparr>bytes := m\<rparr>) = vaddr2paddr t va s"
  by (simp add: vaddr2paddr_def)

text \<open>One round of a copy: the physical addresses of the bytes up to the end of the page.\<close>

lemma chunk_paddr:
  assumes len: "0 < len" "unat va + len \<le> 2 ^ 38"
    and f: "\<And>k. k < len \<Longrightarrow> vaddr2paddr t (va + word_of_nat k) s = Some (f k) \<and> f k \<noteq> 0"
  obtains pa where "walkaddr t (PGROUNDDOWN64 va) s = Some pa" "pa \<noteq> 0"
    "\<And>k. k < chunk va len \<Longrightarrow> f k = pa + unat (va - PGROUNDDOWN64 va) + k"
proof -
  obtain q where q: "walkaddr t va s = Some q" "q \<noteq> 0" "f 0 = q + unat va mod PGSIZE"
    using f[OF len(1)] by (auto elim: vaddr2paddr_SomeD)
  have "walkaddr t (PGROUNDDOWN64 va) s = Some q"
    using q(1) same_page_walkaddr[OF drop_bit_PGROUNDDOWN64] by simp
  moreover have "f k = q + unat (va - PGROUNDDOWN64 va) + k" if k: "k < chunk va len" for k
  proof -
    have kl: "k < len" "unat va + k < 2 ^ 64" "unat va mod PGSIZE + k < PGSIZE"
      using k chunk_bounds(2,3)[of va len] len(2) by simp_all
    obtain r where r: "walkaddr t (va + word_of_nat k) s = Some r" "r \<noteq> 0"
      "f k = r + unat (va + word_of_nat k) mod PGSIZE"
      using f[OF kl(1)] by (auto elim: vaddr2paddr_SomeD)
    have "r = q" using r(1) q(1) same_page_walkaddr[OF same_page_add[OF kl(2,3)]] by simp
    moreover have "(unat va + k) mod PGSIZE = unat va mod PGSIZE + k"
      using kl(3) by (metis mod_add_left_eq mod_less)
    ultimately show ?thesis using r(3) by (simp add: unat_plus_small[OF kl(2)] page_offset(2))
  qed
  ultimately show ?thesis using q(2) that by blast
qed

lemma chunk_next:
  assumes "chunk va len < len" "unat va + len \<le> 2 ^ 38"
  shows "PGROUNDDOWN64 va + 4096 = va + word_of_nat (chunk va len)"
proof -
  have c: "chunk va len = PGSIZE - unat va mod PGSIZE"
    using assms(1) by (auto simp: chunk_def Let_def page_offset(2) split: if_splits)
  have m: "unat va mod PGSIZE \<le> unat va" "unat va mod PGSIZE < PGSIZE" by simp_all
  have "unat (PGROUNDDOWN64 va + word_of_nat 4096) = unat va - unat va mod PGSIZE + 4096"
    using assms(2) m by (subst unat_plus_small) (simp_all add: unat_PGROUNDDOWN64)
  moreover have "unat (va + word_of_nat (chunk va len)) = unat va + (PGSIZE - unat va mod PGSIZE)"
    using assms c by (subst unat_plus_small) simp_all
  ultimately have "unat (PGROUNDDOWN64 va + word_of_nat 4096) = unat (va + word_of_nat (chunk va len))"
    using m by simp
  then show ?thesis by (simp add: word_unat_eq_iff)
qed

lemma copyin_ok:
  assumes "unat va + len \<le> 2 ^ 38"
    and "\<And>k. k < len \<Longrightarrow> vaddr2paddr t (va + word_of_nat k) s = Some (f k) \<and> f k \<noteq> 0"
    and "\<And>k j. k < len \<Longrightarrow> j < len \<Longrightarrow> f k \<noteq> dst + j"
  shows "copyin t dst va len s = Some (0, s\<lparr>bytes := (\<lambda>a.
    if dst \<le> a \<and> a < dst + len then bytes s (f (a - dst)) else bytes s a)\<rparr>)"
  using assms
proof (induction len arbitrary: dst va s f rule: less_induct)
  case (less len)
  show ?case
  proof (cases "len = 0")
    case True
    have "(\<lambda>a. if dst \<le> a \<and> a < dst then bytes s (f (a - dst)) else bytes s a) = bytes s"
      by (rule ext) auto
    then show ?thesis using True by (subst copyin.simps) simp
  next
    case False
    then have len: "0 < len" by simp
    let ?n = "chunk va len"
    obtain pa where pa: "walkaddr t (PGROUNDDOWN64 va) s = Some pa" "pa \<noteq> 0"
      "\<And>k. k < ?n \<Longrightarrow> f k = pa + unat (va - PGROUNDDOWN64 va) + k"
      using chunk_paddr[of len va t s f, OF len less.prems(1,2)] by auto
    let ?p = "pa + unat (va - PGROUNDDOWN64 va)"
    have n: "0 < ?n" "?n \<le> len" using chunk_bounds(1,2) len by auto
    have "dst \<le> ?p \<or> ?p + ?n \<le> dst"
    proof (rule ccontr)
      assume c: "\<not> (dst \<le> ?p \<or> ?p + ?n \<le> dst)"
      then have "dst - ?p < ?n" "f (dst - ?p) = dst + 0" using pa(3)[of "dst - ?p"] by auto
      then show False using less.prems(3)[of "dst - ?p" 0] n by simp
    qed
    then have mc: "memcpy (bytes s) dst ?p ?n = copied (bytes s) dst ?p ?n" by (rule memcpy_copied)
    let ?s1 = "s\<lparr>bytes := copied (bytes s) dst ?p ?n\<rparr>"
    have step: "copyin t dst va len s = copyin t (dst + ?n) (PGROUNDDOWN64 va + 4096) (len - ?n) ?s1"
      using len pa(1,2) mc by (subst copyin.simps) (simp add: Let_def)
    have src: "bytes ?s1 (f k) = bytes s (f k)" if "k < len" for k
      using less.prems(3)[OF that] n(2) by (auto simp: copied_def) (metis le_add_diff_inverse
          nat_add_left_cancel_less less_le_trans)
    let ?m = "\<lambda>a. if dst \<le> a \<and> a < dst + len then bytes s (f (a - dst)) else bytes s a"
    show ?thesis
    proof (cases "?n = len")
      case True
      have "copied (bytes s) dst ?p ?n = ?m"
        using pa(3) True by (auto simp: copied_def fun_eq_iff)
      then show ?thesis unfolding step using True by (subst copyin.simps) simp
    next
      case False
      then have lt: "?n < len" using n(2) by simp
      have va': "PGROUNDDOWN64 va + 4096 = va + word_of_nat ?n"
        by (rule chunk_next[OF lt less.prems(1)])
      have uv: "unat (va + word_of_nat ?n) = unat va + ?n"
        using less.prems(1) n(2) by (intro unat_plus_small) simp
      have "copyin t (dst + ?n) (va + word_of_nat ?n) (len - ?n) ?s1
        = Some (0, ?s1\<lparr>bytes := (\<lambda>a. if dst + ?n \<le> a \<and> a < dst + ?n + (len - ?n)
             then bytes ?s1 (f (?n + (a - (dst + ?n)))) else bytes ?s1 a)\<rparr>)"
      proof (rule less.IH)
        show "len - ?n < len" using n by simp
        show "unat (va + word_of_nat ?n) + (len - ?n) \<le> 2 ^ 38" using uv less.prems(1) n by simp
        show "vaddr2paddr t (va + word_of_nat ?n + word_of_nat k) ?s1 = Some (f (?n + k)) \<and> f (?n + k) \<noteq> 0"
          if "k < len - ?n" for k
          using less.prems(2)[of "?n + k"] that by (simp add: add.assoc)
        show "f (?n + k) \<noteq> dst + ?n + j" if "k < len - ?n" "j < len - ?n" for k j
          using less.prems(3)[of "?n + k" "?n + j"] that by (simp add: add.assoc)
      qed
      moreover have "(\<lambda>a. if dst + ?n \<le> a \<and> a < dst + ?n + (len - ?n)
             then bytes ?s1 (f (?n + (a - (dst + ?n)))) else bytes ?s1 a) = ?m"
      proof
        fix a
        consider "dst + ?n \<le> a" "a < dst + len" | "dst \<le> a" "a < dst + ?n" | "a < dst" | "dst + len \<le> a"
          by linarith
        then show "(if dst + ?n \<le> a \<and> a < dst + ?n + (len - ?n)
             then bytes ?s1 (f (?n + (a - (dst + ?n)))) else bytes ?s1 a) = ?m a"
        proof cases
          case 1
          then have "?n + (a - (dst + ?n)) = a - dst" "a - dst < len" by simp_all
          then show ?thesis using 1 n src[of "a - dst"] by simp
        next
          case 2
          then have "a - dst < ?n" by simp
          then show ?thesis using 2 n pa(3)[of "a - dst"] by (simp add: copied_def)
        qed (use n in \<open>simp_all add: copied_def\<close>)
      qed
      ultimately show ?thesis unfolding step va' by simp
    qed
  qed
qed

lemma copyout_ok:
  assumes "unat va + len \<le> 2 ^ 38"
    and "\<And>k. k < len \<Longrightarrow> vaddr2paddr t (va + word_of_nat k) s = Some (f k) \<and> f k \<noteq> 0"
    and "\<And>k j. k < len \<Longrightarrow> j < len \<Longrightarrow> f k \<noteq> src + j"
    and "\<And>k j. k < len \<Longrightarrow> j < len \<Longrightarrow> k \<noteq> j \<Longrightarrow> f k \<noteq> f j"
  shows "\<exists>m. copyout t va src len s = Some (0, s\<lparr>bytes := m\<rparr>) \<and>
    (\<forall>k < len. m (f k) = bytes s (src + k)) \<and> (\<forall>a. (\<forall>k < len. f k \<noteq> a) \<longrightarrow> m a = bytes s a)"
  using assms
proof (induction len arbitrary: src va s f rule: less_induct)
  case (less len)
  show ?case
  proof (cases "len = 0")
    case True
    then show ?thesis by (subst copyout.simps) (simp, intro exI[of _ "bytes s"], simp)
  next
    case False
    then have len: "0 < len" by simp
    let ?n = "chunk va len"
    obtain pa where pa: "walkaddr t (PGROUNDDOWN64 va) s = Some pa" "pa \<noteq> 0"
      "\<And>k. k < ?n \<Longrightarrow> f k = pa + unat (va - PGROUNDDOWN64 va) + k"
      using chunk_paddr[of len va t s f, OF len less.prems(1,2)] by auto
    let ?p = "pa + unat (va - PGROUNDDOWN64 va)"
    have n: "0 < ?n" "?n \<le> len" using chunk_bounds(1,2) len by auto
    have "?p \<le> src \<or> src + ?n \<le> ?p"
    proof (rule ccontr)
      assume c: "\<not> (?p \<le> src \<or> src + ?n \<le> ?p)"
      then have "?p - src < ?n" "f 0 = src + (?p - src)" using pa(3)[of 0] n(1) by auto
      then show False using less.prems(3)[of 0 "?p - src"] n len by simp
    qed
    then have mc: "memcpy (bytes s) ?p src ?n = copied (bytes s) ?p src ?n" by (rule memcpy_copied)
    let ?m1 = "copied (bytes s) ?p src ?n"
    let ?s1 = "s\<lparr>bytes := ?m1\<rparr>"
    have step: "copyout t va src len s = copyout t (PGROUNDDOWN64 va + 4096) (src + ?n) (len - ?n) ?s1"
      using len pa(1,2) mc by (subst copyout.simps) (simp add: Let_def)
    have m1: "?m1 (f k) = bytes s (src + k)" if "k < ?n" for k
      using pa(3)[OF that] that by (simp add: copied_def)
    have m1': "?m1 a = bytes s a" if "\<forall>k < ?n. f k \<noteq> a" for a
    proof -
      have "\<not> (?p \<le> a \<and> a < ?p + ?n)"
      proof
        assume "?p \<le> a \<and> a < ?p + ?n"
        then have "f (a - ?p) = a" "a - ?p < ?n" using pa(3)[of "a - ?p"] by auto
        then show False using that by blast
      qed
      then show ?thesis by (auto simp: copied_def)
    qed
    show ?thesis
    proof (cases "?n = len")
      case True
      have "copyout t va src len s = Some (0, ?s1)" unfolding step using True by (subst copyout.simps) simp
      then show ?thesis using m1 m1' True by (intro exI[of _ ?m1]) simp
    next
      case False
      then have lt: "?n < len" using n(2) by simp
      have va': "PGROUNDDOWN64 va + 4096 = va + word_of_nat ?n"
        by (rule chunk_next[OF lt less.prems(1)])
      have uv: "unat (va + word_of_nat ?n) = unat va + ?n"
        using less.prems(1) n(2) by (intro unat_plus_small) simp
      have "\<exists>m. copyout t (va + word_of_nat ?n) (src + ?n) (len - ?n) ?s1 = Some (0, ?s1\<lparr>bytes := m\<rparr>) \<and>
        (\<forall>k < len - ?n. m (f (?n + k)) = bytes ?s1 (src + ?n + k)) \<and>
        (\<forall>a. (\<forall>k < len - ?n. f (?n + k) \<noteq> a) \<longrightarrow> m a = bytes ?s1 a)"
      proof (rule less.IH)
        show "len - ?n < len" using n by simp
        show "unat (va + word_of_nat ?n) + (len - ?n) \<le> 2 ^ 38" using uv less.prems(1) n by simp
        show "vaddr2paddr t (va + word_of_nat ?n + word_of_nat k) ?s1 = Some (f (?n + k)) \<and> f (?n + k) \<noteq> 0"
          if "k < len - ?n" for k
          using less.prems(2)[of "?n + k"] that by (simp add: add.assoc)
        show "f (?n + k) \<noteq> src + ?n + j" if "k < len - ?n" "j < len - ?n" for k j
          using less.prems(3)[of "?n + k" "?n + j"] that by (simp add: add.assoc)
        show "f (?n + k) \<noteq> f (?n + j)" if "k < len - ?n" "j < len - ?n" "k \<noteq> j" for k j
          using less.prems(4)[of "?n + k" "?n + j"] that by simp
      qed
      then obtain m where m: "copyout t (va + word_of_nat ?n) (src + ?n) (len - ?n) ?s1 = Some (0, ?s1\<lparr>bytes := m\<rparr>)"
        "\<And>k. k < len - ?n \<Longrightarrow> m (f (?n + k)) = bytes ?s1 (src + ?n + k)"
        "\<And>a. \<forall>k < len - ?n. f (?n + k) \<noteq> a \<Longrightarrow> m a = bytes ?s1 a" by blast
      have "m (f k) = bytes s (src + k)" if k: "k < len" for k
      proof (cases "k < ?n")
        case True
        have "\<forall>j < len - ?n. f (?n + j) \<noteq> f k" using less.prems(4)[of _ k] True k by simp
        then show ?thesis using m(3) m1[OF True] by simp
      next
        case False
        then obtain j where j: "k = ?n + j" "j < len - ?n" using k by (metis le_add_diff_inverse not_less
            diff_less_mono)
        have "\<forall>i < ?n. f i \<noteq> src + k" using less.prems(3)[of _ k] k n by simp
        then show ?thesis using m(2)[OF j(2)] m1'[of "src + k"] j(1) by (simp add: add.assoc)
      qed
      moreover have "m a = bytes s a" if a: "\<forall>k < len. f k \<noteq> a" for a
        using m(3)[of a] m1'[of a] a n by simp
      ultimately show ?thesis unfolding step va' using m(1) by (intro exI[of _ m]) simp
    qed
  qed
qed

lemma copy_string_chunk_found:
  "\<forall>i < d. m (p + i) \<noteq> 0 \<Longrightarrow> m (p + d) = 0 \<Longrightarrow> d < n \<Longrightarrow> dst \<le> p \<or> p + d < dst \<Longrightarrow>
   copy_string_chunk n mx p dst m = (True, mx - d, dst + d, copied m dst p (Suc d))"
proof (induction d arbitrary: n mx p dst m)
  case 0
  then show ?case by (cases n) (auto simp: copied_def fun_eq_iff)
next
  case (Suc d)
  obtain n' where n: "n = Suc n'" using Suc.prems(3) by (cases n) auto
  let ?m = "m(dst := m p)"
  have p0: "m p \<noteq> 0" using Suc.prems(1) by (metis add_0_right zero_less_Suc)
  have "copy_string_chunk n' (mx - 1) (p + 1) (dst + 1) ?m
      = (True, mx - 1 - d, dst + 1 + d, copied ?m (dst + 1) (p + 1) (Suc d))"
  proof (rule Suc.IH)
    show "\<forall>i < d. ?m (p + 1 + i) \<noteq> 0"
    proof (intro allI impI)
      fix i assume "i < d"
      then have "m (p + Suc i) \<noteq> 0" using Suc.prems(1) by blast
      then show "?m (p + 1 + i) \<noteq> 0" using p0 by simp
    qed
    show "?m (p + 1 + d) = 0" using Suc.prems(2,4) by auto
    show "d < n'" using Suc.prems(3) n by simp
    show "dst + 1 \<le> p + 1 \<or> p + 1 + d < dst + 1" using Suc.prems(4) by auto
  qed
  moreover have "copied ?m (dst + 1) (p + 1) (Suc d) = copied m dst p (Suc (Suc d))"
    by (rule copied_step) (use Suc.prems(4) in auto)
  ultimately show ?case using p0 n by simp
qed

lemma copy_string_chunk_none:
  "\<forall>i < n. m (p + i) \<noteq> 0 \<Longrightarrow> dst \<le> p \<or> p + n \<le> dst \<Longrightarrow>
   copy_string_chunk n mx p dst m = (False, mx - n, dst + n, copied m dst p n)"
proof (induction n arbitrary: mx p dst m)
  case 0
  then show ?case by (auto simp: copied_def fun_eq_iff)
next
  case (Suc n)
  let ?m = "m(dst := m p)"
  have p0: "m p \<noteq> 0" using Suc.prems(1) by (metis add_0_right zero_less_Suc)
  have "copy_string_chunk n (mx - 1) (p + 1) (dst + 1) ?m
      = (False, mx - 1 - n, dst + 1 + n, copied ?m (dst + 1) (p + 1) n)"
  proof (rule Suc.IH)
    show "\<forall>i < n. ?m (p + 1 + i) \<noteq> 0"
    proof (intro allI impI)
      fix i assume "i < n"
      then have "m (p + Suc i) \<noteq> 0" using Suc.prems(1) by blast
      then show "?m (p + 1 + i) \<noteq> 0" using p0 by simp
    qed
    show "dst + 1 \<le> p + 1 \<or> p + 1 + n \<le> dst + 1" using Suc.prems(2) by auto
  qed
  moreover have "copied ?m (dst + 1) (p + 1) n = copied m dst p (Suc n)"
    by (rule copied_step) (use Suc.prems(2) in auto)
  ultimately show ?case using p0 by simp
qed

text \<open>A string of \<open>d\<close> characters in user space arrives whole, with its NUL, whatever pages it
  crosses.\<close>

lemma copyin_string_loop_ok:
  assumes "unat va + Suc d \<le> 2 ^ 38" "d < mx"
    and "\<And>k. k \<le> d \<Longrightarrow> vaddr2paddr t (va + word_of_nat k) s = Some (f k) \<and> f k \<noteq> 0"
    and "\<And>k j. k \<le> d \<Longrightarrow> j \<le> d \<Longrightarrow> f k \<noteq> dst + j"
    and "\<And>k. k < d \<Longrightarrow> bytes s (f k) \<noteq> 0" "bytes s (f d) = 0"
  shows "copyin_string_loop t dstart dst va mx s = Some (int (dst + d) - int dstart, s\<lparr>bytes := (\<lambda>a.
    if dst \<le> a \<and> a \<le> dst + d then bytes s (f (a - dst)) else bytes s a)\<rparr>)"
  using assms
proof (induction d arbitrary: dst va mx s f rule: less_induct)
  case (less d)
  let ?n = "chunk va (Suc d)" and ?N = "chunk va mx"
  have vd: "\<And>k. k < Suc d \<Longrightarrow> vaddr2paddr t (va + word_of_nat k) s = Some (f k) \<and> f k \<noteq> 0"
    using less.prems(3) by simp
  obtain pa where pa: "walkaddr t (PGROUNDDOWN64 va) s = Some pa" "pa \<noteq> 0"
    "\<And>k. k < ?n \<Longrightarrow> f k = pa + unat (va - PGROUNDDOWN64 va) + k"
    using chunk_paddr[OF _ less.prems(1) vd] by auto
  let ?p = "pa + unat (va - PGROUNDDOWN64 va)"
  let ?m = "\<lambda>a. if dst \<le> a \<and> a \<le> dst + d then bytes s (f (a - dst)) else bytes s a"
  have disj: "dst \<le> ?p \<or> ?p + c \<le> dst" if "c \<le> ?n" for c
  proof (rule ccontr)
    assume a: "\<not> (dst \<le> ?p \<or> ?p + c \<le> dst)"
    then have "dst - ?p < ?n" "f (dst - ?p) = dst + 0" using pa(3)[of "dst - ?p"] that by auto
    then show False using less.prems(4)[of "dst - ?p" 0] chunk_bounds(2)[of va "Suc d"] by simp
  qed
  have mx: "0 < mx" using less.prems(2) by simp
  show ?case
  proof (cases "d < PGSIZE - unat va mod PGSIZE")
    case True
    then have n: "?n = Suc d" "d < ?N"
      using less.prems(2) by (auto simp: chunk_def Let_def page_offset(2))
    have nz: "\<forall>i < d. bytes s (?p + i) \<noteq> 0" "bytes s (?p + d) = 0"
      using pa(3) less.prems(5,6) n(1) by (metis less_SucI, metis lessI)
    have "?p + d < dst \<or> dst \<le> ?p" using disj[of "Suc d"] n(1) by auto
    then have "copy_string_chunk ?N mx ?p dst (bytes s)
      = (True, mx - d, dst + d, copied (bytes s) dst ?p (Suc d))"
      by (intro copy_string_chunk_found[OF nz n(2)]) blast
    moreover have "copied (bytes s) dst ?p (Suc d) = ?m"
      using pa(3) n(1) by (auto simp: copied_def fun_eq_iff)
    ultimately show ?thesis
      using mx pa(1,2) by (subst copyin_string_loop.simps) (simp add: Let_def)
  next
    case False
    then have n: "?n = ?N" "?n < Suc d" "0 < ?n" "?n = PGSIZE - unat va mod PGSIZE"
      using less.prems(2) by (auto simp: chunk_def Let_def page_offset(2))
    have nz: "\<forall>i < ?N. bytes s (?p + i) \<noteq> 0"
      using pa(3) less.prems(5) n by (metis less_Suc_eq_le less_le_trans)
    let ?m1 = "copied (bytes s) dst ?p ?n"
    let ?s1 = "s\<lparr>bytes := ?m1\<rparr>"
    have "copy_string_chunk ?N mx ?p dst (bytes s) = (False, mx - ?n, dst + ?n, ?m1)"
      unfolding n(1) by (rule copy_string_chunk_none[OF nz]) (use disj n(1) in simp)
    then have step: "copyin_string_loop t dstart dst va mx s
      = copyin_string_loop t dstart (dst + ?n) (PGROUNDDOWN64 va + 4096) (mx - ?n) ?s1"
      using mx pa(1,2) by (subst copyin_string_loop.simps) (simp add: Let_def)
    have va': "PGROUNDDOWN64 va + 4096 = va + word_of_nat ?n"
      by (rule chunk_next[OF n(2) less.prems(1)])
    have uv: "unat (va + word_of_nat ?n) = unat va + ?n"
      using less.prems(1) n by (intro unat_plus_small) simp
    have src: "?m1 (f k) = bytes s (f k)" if "k \<le> d" for k
    proof -
      have "\<not> (dst \<le> f k \<and> f k < dst + ?n)"
      proof
        assume a: "dst \<le> f k \<and> f k < dst + ?n"
        then have "f k - dst \<le> d" using n(2) by linarith
        then show False using less.prems(4)[OF that, of "f k - dst"] a by simp
      qed
      then show ?thesis by (auto simp: copied_def)
    qed
    have "copyin_string_loop t dstart (dst + ?n) (va + word_of_nat ?n) (mx - ?n) ?s1
      = Some (int (dst + ?n + (d - ?n)) - int dstart, ?s1\<lparr>bytes := (\<lambda>a.
          if dst + ?n \<le> a \<and> a \<le> dst + ?n + (d - ?n) then bytes ?s1 (f (?n + (a - (dst + ?n))))
          else bytes ?s1 a)\<rparr>)"
    proof (rule less.IH)
      show "d - ?n < d" using n by simp
      show "unat (va + word_of_nat ?n) + Suc (d - ?n) \<le> 2 ^ 38" using uv less.prems(1) n by simp
      show "d - ?n < mx - ?n" using n less.prems(2) by simp
      show "vaddr2paddr t (va + word_of_nat ?n + word_of_nat k) ?s1 = Some (f (?n + k)) \<and> f (?n + k) \<noteq> 0"
        if "k \<le> d - ?n" for k
        using less.prems(3)[of "?n + k"] that n by (simp add: add.assoc)
      show "f (?n + k) \<noteq> dst + ?n + j" if "k \<le> d - ?n" "j \<le> d - ?n" for k j
        using less.prems(4)[of "?n + k" "?n + j"] that n by (simp add: add.assoc)
      show "bytes ?s1 (f (?n + k)) \<noteq> 0" if "k < d - ?n" for k
        using less.prems(5)[of "?n + k"] src[of "?n + k"] that n by simp
      show "bytes ?s1 (f (?n + (d - ?n))) = 0" using less.prems(6) src[of d] n by simp
    qed
    moreover have "(\<lambda>a. if dst + ?n \<le> a \<and> a \<le> dst + ?n + (d - ?n)
        then bytes ?s1 (f (?n + (a - (dst + ?n)))) else bytes ?s1 a) = ?m"
    proof
      fix a
      consider "dst + ?n \<le> a" "a \<le> dst + d" | "dst \<le> a" "a < dst + ?n" | "a < dst" | "dst + d < a"
        by linarith
      then show "(if dst + ?n \<le> a \<and> a \<le> dst + ?n + (d - ?n)
          then bytes ?s1 (f (?n + (a - (dst + ?n)))) else bytes ?s1 a) = ?m a"
      proof cases
        case 1
        then have "?n + (a - (dst + ?n)) = a - dst" "a - dst \<le> d" by simp_all
        then show ?thesis using 1 n src[of "a - dst"] by simp
      next
        case 2
        then have "a - dst < ?n" by simp
        then show ?thesis using 2 n pa(3)[of "a - dst"] by (simp add: copied_def)
      qed (use n in \<open>simp_all add: copied_def\<close>)
    qed
    ultimately show ?thesis unfolding step va' using n by simp
  qed
qed

end
