(* ===== verification/Pgtable_Tree.thy ===== *)
theory Pgtable_Tree
  imports Pagetable
begin

text \<open>
  What the page tables of theory \<open>Pagetable\<close> mean: \<open>lookup s root va\<close> is the entry a virtual
  address has. The tables of an address space form a tree of live pages without sharing
  (\<open>tree_wf\<close>). Under this invariant \<open>walk\<close> extends the tree without changing any lookup,
  \<open>mappages\<close> changes exactly the entries of its range, and \<open>do_wp_page\<close> gives a process a private
  copy of a shared page.
\<close>

section \<open>Entries\<close>

lemma bit_PA2PTE: "bit (PA2PTE a) n \<longleftrightarrow> 10 \<le> n \<and> n < 64 \<and> bit (word_of_nat a :: u64) (n + 2)"
  by (auto simp: PA2PTE_def bit_push_bit_iff bit_drop_bit_eq)

lemma flags_bit: "(f::u64) < 1024 \<Longrightarrow> 10 \<le> n \<Longrightarrow> \<not> bit f n"
proof
  assume f: "f < 1024" "10 \<le> n" "bit f n"
  have "take_bit 10 f = f"
    using f(1) by (simp add: word_unat_eq_iff unat_take_bit word_less_nat_alt del: take_bit_eq_mod)
  then have "bit (take_bit 10 f) n" using f(3) by simp
  then show False using f(2) by (simp add: bit_take_bit_iff)
qed

lemma PNO2PA_PA2PTE:
  assumes a: "a < 2 ^ 56" "PGSIZE dvd a" and f: "f < 1024"
  shows "PNO2PA (pte_paddr (PA2PTE a OR f)) = a"
proof -
  let ?w = "word_of_nat a :: u64"
  have w: "unat ?w = a" using a(1) by (simp add: unat_of_nat take_bit_nat_eq_self)
  have "pte_paddr (PA2PTE a OR f) = take_bit 44 (drop_bit 12 ?w)"
  proof (rule bit_eqI)
    fix n
    show "bit (pte_paddr (PA2PTE a OR f)) n = bit (take_bit 44 (drop_bit 12 ?w)) n"
      using flags_bit[OF f, of "n + 10"]
      by (auto simp: pte_paddr_def bit_take_bit_iff bit_drop_bit_eq bit_or_iff bit_PA2PTE add.commute)
  qed
  then have "unat (pte_paddr (PA2PTE a OR f)) = (a div 2 ^ 12) mod 2 ^ 44"
    by (simp only: unat_take_bit unat_drop_bit w)
  also have "\<dots> = a div 2 ^ 12" using a(1) by simp
  finally show ?thesis using a(2) by (simp add: PNO2PA_def)
qed

lemma flags_of_PA2PTE: "n < 10 \<Longrightarrow> bit (PA2PTE a OR f) n = bit f n"
  by (simp add: bit_or_iff bit_PA2PTE)

lemma valid_PA2PTE: "pte_valid (PA2PTE a OR f) = bit f 0"
  by (simp add: pte_valid_def flags_of_PA2PTE)

section \<open>The tree of tables\<close>

definition child :: "vm \<Rightarrow> nat \<Rightarrow> nat \<Rightarrow> nat option" where
  "child s t i = (if pte_valid (pgt s t i) then Some (PNO2PA (pte_paddr (pgt s t i))) else None)"

definition tables1 :: "vm \<Rightarrow> nat \<Rightarrow> nat set" where
  "tables1 s root = {c. \<exists>i. child s root i = Some c}"

definition tables0 :: "vm \<Rightarrow> nat \<Rightarrow> nat set" where
  "tables0 s root = {c. \<exists>t\<in>tables1 s root. \<exists>i. child s t i = Some c}"

definition live_page :: "vm \<Rightarrow> nat \<Rightarrow> bool" where
  "live_page s p \<longleftrightarrow> (\<exists>b. (p, b) \<in> live_blocks (phys s))"

definition tree_wf :: "vm \<Rightarrow> nat \<Rightarrow> bool" where
  "tree_wf s root \<longleftrightarrow> buddy_inv (phys s) \<and> mem_end (phys s) \<le> 2 ^ 56 \<and>
     root \<notin> tables1 s root \<union> tables0 s root \<and> tables1 s root \<inter> tables0 s root = {} \<and>
     (\<forall>i j c. child s root i = Some c \<and> child s root j = Some c \<longrightarrow> i = j) \<and>
     (\<forall>t\<in>tables1 s root. \<forall>u\<in>tables1 s root. \<forall>i j c.
        child s t i = Some c \<and> child s u j = Some c \<longrightarrow> t = u \<and> i = j) \<and>
     (\<forall>t\<in>insert root (tables1 s root \<union> tables0 s root). live_page s t)"

definition leaf_table :: "vm \<Rightarrow> nat \<Rightarrow> u64 \<Rightarrow> nat option" where
  "leaf_table s root va = do { t \<leftarrow> child s root (PX 2 va); child s t (PX 1 va) }"

text \<open>The entry of an address, \<open>0\<close> (not valid) when a table on the way is missing.\<close>

definition lookup :: "vm \<Rightarrow> nat \<Rightarrow> u64 \<Rightarrow> u64" where
  "lookup s root va = (case leaf_table s root va of None \<Rightarrow> 0 | Some t \<Rightarrow> pgt s t (PX 0 va))"

lemma walk_lookup:
  assumes "va < MAXVA"
  shows "walk root va False s
    = Some (map_option (\<lambda>t. (t, PX 0 va)) (leaf_table s root va), s)"
proof -
  have "walk_levels root va False 2 s
    = Some (map_option (\<lambda>t. (t, PX 0 va)) (leaf_table s root va), s)"
    by (simp add: numeral_2_eq_2 Let_def get_pte_def leaf_table_def child_def)
  then show ?thesis using assms by (simp add: walk_def)
qed

lemma walkaddr_lookup:
  "va < MAXVA \<Longrightarrow> walkaddr root va s = Some (if pte_valid (lookup s root va) \<and> pte_user (lookup s root va)
     then PNO2PA (pte_paddr (lookup s root va)) else 0)"
  by (auto simp: walkaddr_def walk_lookup lookup_def get_pte_def pte_valid_def Let_def split: option.splits)

text \<open>Two addresses below \<open>MAXVA\<close> with the same indices are on the same page.\<close>

lemma PX_value: "PX l va = unat va div 2 ^ (12 + 9 * l) mod 512"
proof -
  have "x AND 0x1ff = take_bit 9 x" for x :: u64 by (simp add: take_bit_eq_mask mask_eq_exp_minus_1)
  then show ?thesis unfolding PX_def by (simp only: unat_take_bit unat_drop_bit) simp
qed

lemma PX_same_page:
  assumes "va < MAXVA" "vb < MAXVA" and px: "PX 2 va = PX 2 vb" "PX 1 va = PX 1 vb" "PX 0 va = PX 0 vb"
  shows "drop_bit 12 va = drop_bit 12 vb"
proof -
  have split: "x = (x div 262144 mod 512) * 262144 + (x div 512 mod 512) * 512 + x mod 512"
    if "x < 67108864" for x :: nat
  proof -
    have a: "x div 262144 mod 512 = x div 262144" using that by simp
    have "x div 512 div 512 = x div 262144" using div_mult2_eq[of x 512 512] by simp
    then have b: "512 * (x div 262144) + x div 512 mod 512 = x div 512"
      using mult_div_mod_eq[of 512 "x div 512"] by metis
    show ?thesis unfolding a using b mult_div_mod_eq[of 512 x] by linarith
  qed
  have page: "unat v div 4096 = PX 2 v * 262144 + PX 1 v * 512 + PX 0 v" if "v < MAXVA" for v
  proof -
    have "unat v div 4096 < 67108864" using that by (simp add: word_less_nat_alt)
    note sp = split[OF this]
    have "PX 2 v = unat v div 4096 div 262144 mod 512" "PX 1 v = unat v div 4096 div 512 mod 512"
      "PX 0 v = unat v div 4096 mod 512"
      by (simp_all add: PX_value div_mult2_eq[symmetric])
    then show ?thesis using sp by (simp only:)
  qed
  have "unat (drop_bit 12 va) = unat (drop_bit 12 vb)"
    unfolding unat_drop_bit using page[OF assms(1)] page[OF assms(2)] px by simp
  then show ?thesis by (simp only: word_unat_eq_iff)
qed

lemma same_page_lookup:
  assumes "drop_bit 12 va = drop_bit 12 vb"
  shows "lookup s root va = lookup s root vb"
  by (simp only: lookup_def leaf_table_def same_page_PX[OF assms])

lemma tree_wfD:
  assumes "tree_wf s root"
  shows "buddy_inv (phys s)" "mem_end (phys s) \<le> 2 ^ 56"
    "root \<notin> tables1 s root" "root \<notin> tables0 s root" "tables1 s root \<inter> tables0 s root = {}"
    "child s root i = Some c \<Longrightarrow> child s root j = Some c \<Longrightarrow> i = j"
    "t \<in> tables1 s root \<Longrightarrow> u \<in> tables1 s root \<Longrightarrow> child s t i = Some c \<Longrightarrow> child s u j = Some c \<Longrightarrow> t = u \<and> i = j"
    "live_page s root" "t \<in> tables1 s root \<Longrightarrow> live_page s t" "t \<in> tables0 s root \<Longrightarrow> live_page s t"
  using assms unfolding tree_wf_def by blast+

lemma tables1I: "child s root i = Some c \<Longrightarrow> c \<in> tables1 s root"
  by (auto simp: tables1_def)

lemma tables0I: "t \<in> tables1 s root \<Longrightarrow> child s t i = Some c \<Longrightarrow> c \<in> tables0 s root"
  by (auto simp: tables0_def)

section \<open>Setting a leaf entry\<close>

text \<open>A leaf entry is no part of the tree, and belongs to one page only.\<close>

lemma child_set_pte:
  "t \<noteq> fst loc \<Longrightarrow> child (set_pte loc e s) t i = child s t i"
  by (simp add: child_def set_pte_def)

lemma set_leaf:
  assumes wf: "tree_wf s root" and t: "leaf_table s root va = Some t" and va: "va < MAXVA"
  shows "tree_wf (set_pte (t, PX 0 va) e s) root"
    "leaf_table (set_pte (t, PX 0 va) e s) root vb = leaf_table s root vb"
    "vb < MAXVA \<Longrightarrow> lookup (set_pte (t, PX 0 va) e s) root vb
       = (if drop_bit 12 vb = drop_bit 12 va then e else lookup s root vb)"
proof -
  note D = tree_wfD[OF wf]
  let ?s = "set_pte (t, PX 0 va) e s"
  obtain u where u: "child s root (PX 2 va) = Some u" "child s u (PX 1 va) = Some t"
    using t by (auto simp: leaf_table_def hoare_simps)
  have t0: "t \<in> tables0 s root" using tables0I[OF tables1I[OF u(1)] u(2)] .
  have "t \<noteq> root" using t0 D(4) by blast
  then have c1: "child ?s root i = child s root i" for i by (simp add: child_set_pte)
  then have T1: "tables1 ?s root = tables1 s root" by (simp add: tables1_def)
  have c0: "child ?s v i = child s v i" if "v \<in> tables1 s root" for v i
    using that t0 D(5) by (intro child_set_pte) auto
  then have T0: "tables0 ?s root = tables0 s root" unfolding tables0_def T1 by auto
  have live: "live_page ?s v \<longleftrightarrow> live_page s v" "phys ?s = phys s" for v
    by (simp_all add: live_page_def set_pte_def)
  show "tree_wf ?s root"
    unfolding tree_wf_def T1 T0 live c1 using wf c0 unfolding tree_wf_def by simp
  show lt: "leaf_table ?s root vb = leaf_table s root vb" for vb
    using c1 c0 tables1I by (auto simp: leaf_table_def split: Option.bind_splits)
  show "lookup ?s root vb = (if drop_bit 12 vb = drop_bit 12 va then e else lookup s root vb)"
    if vb: "vb < MAXVA"
  proof (cases "drop_bit 12 vb = drop_bit 12 va")
    case True
    then have "leaf_table s root vb = Some t" "PX 0 vb = PX 0 va"
      using t same_page_PX[OF True] by (simp_all add: leaf_table_def)
    then show ?thesis using True by (simp add: lookup_def lt) (simp add: set_pte_def)
  next
    case False
    have "\<not> (leaf_table s root vb = Some t \<and> PX 0 vb = PX 0 va)"
    proof
      assume a: "leaf_table s root vb = Some t \<and> PX 0 vb = PX 0 va"
      then obtain w where w: "child s root (PX 2 vb) = Some w" "child s w (PX 1 vb) = Some t"
        by (auto simp: leaf_table_def hoare_simps)
      have "w = u \<and> PX 1 vb = PX 1 va" using D(7)[OF tables1I[OF w(1)] tables1I[OF u(1)] w(2) u(2)] .
      moreover then have "PX 2 vb = PX 2 va" using D(6)[of "PX 2 vb" u "PX 2 va"] w(1) u(1) by simp
      ultimately show False using PX_same_page[OF vb va] a False by simp
    qed
    then have "pgt ?s w (PX 0 vb) = pgt s w (PX 0 vb)" if "leaf_table s root vb = Some w" for w
      using that by (auto simp: set_pte_def)
    then show ?thesis using False by (simp add: lookup_def lt split: option.splits)
  qed
qed

section \<open>Installing a table\<close>

lemma live_pageD:
  assumes "buddy_inv (phys s)" "pages_alloc n (phys s) = Some (p, b)"
  shows "\<not> live_page s p" "live_page (s\<lparr>phys := b, pgt := g\<rparr>) p" "live_page s q \<Longrightarrow> live_page (s\<lparr>phys := b, pgt := g\<rparr>) q"
    "p \<noteq> 0" "PGSIZE dvd p"
proof -
  obtain c where c: "live_blocks b = insert (p, c) (live_blocks (phys s))"
    using pa.alloc_live[OF assms] by blast
  show "\<not> live_page s p" using pa.alloc_fresh[OF assms] by (auto simp: live_page_def)
  show "live_page (s\<lparr>phys := b, pgt := g\<rparr>) p" using c by (auto simp: live_page_def)
  show "live_page (s\<lparr>phys := b, pgt := g\<rparr>) q" if "live_page s q" using c that by (auto simp: live_page_def)
  show "p \<noteq> 0" "PGSIZE dvd p" using pa.alloc_aligned[OF assms] by (simp_all add: mod_eq_0_iff_dvd)
qed

lemma alloc_bounds:
  assumes "buddy_inv s" "pages_alloc n s = Some (p, s')" "mem_end s \<le> 2 ^ 56"
  shows "p < 2 ^ 56" "mem_end s' = mem_end s"
proof -
  obtain i k l where A: "(i, l) \<in> free_blocks s" "p = page_addr s i" "buddy_inv s'" "npages s' = npages s"
    "mem_start s' = mem_start s"
    using pages_alloc_SomeD[OF assms(1,2)] by blast
  have g: "geometry s" "geometry s'" using assms(1) A(3) by (simp_all add: buddy_inv_def buddy_held_def)
  then show "mem_end s' = mem_end s" using A(4,5) by (simp add: geometry_def)
  have "tiling (npages s) ({} \<union> (free_blocks s \<union> used_blocks s))"
    using assms(1) by (simp add: buddy_inv_def buddy_held_def)
  then have "i < npages s" by (rule tiling_fits(2)[of _ _ i l]) (use A(1) in blast)
  then have "p < mem_end s" using g(1) A(2) by (simp add: geometry_def page_addr_def)
  then show "p < 2 ^ 56" using assms(3) by linarith
qed

text \<open>The new table \<open>p\<close> hangs below an entry of the root that was not valid.\<close>

lemma install_under_root:
  assumes wf: "tree_wf s root" and i: "child s root i = None"
    and a: "pages_alloc 1 (phys s) = Some (p, b)"
  defines "s' \<equiv> set_pte (root, i) (PA2PTE p OR PTE_V) (s\<lparr>phys := b, pgt := (pgt s)(p := (\<lambda>_. 0))\<rparr>)"
  shows "tree_wf s' root" "child s' root i = Some p" "\<And>j. child s' p j = None"
    "lookup s' root vb = lookup s root vb"
proof -
  note D = tree_wfD[OF wf]
  note L = live_pageD[OF D(1) a]
  have fresh: "p \<noteq> root" "p \<notin> tables1 s root" "p \<notin> tables0 s root" using L(1) D(8-10) by blast+
  have pp: "PNO2PA (pte_paddr (PA2PTE p OR PTE_V)) = p"
    using alloc_bounds(1)[OF D(1) a D(2)] L(5) by (intro PNO2PA_PA2PTE) simp_all
  show ci: "child s' root i = Some p"
    using fresh pp by (simp add: s'_def child_def set_pte_def valid_PA2PTE)
  show cp: "child s' p j = None" for j using fresh by (simp add: s'_def child_def set_pte_def pte_valid_def)
  have cr: "child s' root j = (if j = i then Some p else child s root j)" for j
    using fresh by (simp add: s'_def child_def set_pte_def pp valid_PA2PTE)
  have co: "child s' t j = child s t j" if "t \<noteq> root" "t \<noteq> p" for t j
    using that by (simp add: s'_def child_def set_pte_def)
  have T1: "tables1 s' root = insert p (tables1 s root)"
    using i by (auto simp: tables1_def cr) (metis option.distinct(1))
  have T0: "tables0 s' root = tables0 s root"
  proof -
    have "child s' t j = child s t j" if "t \<in> tables1 s root" for t j
      using that D(3) fresh by (intro co) auto
    then show ?thesis unfolding tables0_def T1 using cp by auto
  qed
  have live: "live_page s' t" if "live_page s t \<or> t = p" for t
    using that L(2,3) by (auto simp: s'_def set_pte_def live_page_def)
  have ph: "buddy_inv (phys s')" "mem_end (phys s') \<le> 2 ^ 56"
    using pa.alloc_inv[OF D(1) a] alloc_bounds(2)[OF D(1) a D(2)] D(2) by (simp_all add: s'_def set_pte_def)
  have inj1: "j = k" if "child s' root j = Some c" "child s' root k = Some c" for j k c
    using that D(6) fresh(2) by (auto simp: cr tables1_def split: if_splits)
  have inj0: "t = u \<and> j = k" if "t \<in> tables1 s' root" "u \<in> tables1 s' root" "child s' t j = Some c"
    "child s' u k = Some c" for t u j k c
  proof -
    have "t \<in> tables1 s root" "u \<in> tables1 s root" using that cp T1 by auto
    moreover then have "t \<noteq> root" "t \<noteq> p" "u \<noteq> root" "u \<noteq> p" using D(3) fresh(2) by auto
    then have "child s t j = Some c" "child s u k = Some c" using that(3,4) co by simp_all
    ultimately show ?thesis using D(7) by blast
  qed
  show "tree_wf s' root"
    unfolding tree_wf_def
  proof (intro conjI)
    show "root \<notin> tables1 s' root \<union> tables0 s' root" using D(3,4) fresh T1 T0 by auto
    show "tables1 s' root \<inter> tables0 s' root = {}" using D(5) fresh T1 T0 by auto
    show "\<forall>t\<in>insert root (tables1 s' root \<union> tables0 s' root). live_page s' t"
      using D(8-10) live T1 T0 by auto
    show "\<forall>j k c. child s' root j = Some c \<and> child s' root k = Some c \<longrightarrow> j = k" using inj1 by blast
    show "\<forall>t\<in>tables1 s' root. \<forall>u\<in>tables1 s' root. \<forall>i j c.
        child s' t i = Some c \<and> child s' u j = Some c \<longrightarrow> t = u \<and> i = j" using inj0 by blast
  qed (rule ph)+
  show "lookup s' root vb = lookup s root vb"
  proof (cases "PX 2 vb = i")
    case True
    then have "leaf_table s' root vb = None" "leaf_table s root vb = None"
      using ci cp i by (simp_all add: leaf_table_def)
    then show ?thesis by (simp add: lookup_def)
  next
    case False
    have "t \<noteq> root \<and> t \<noteq> p" if "child s root (PX 2 vb) = Some t" for t
      using tables1I[OF that] D(3) fresh by auto
    then have lt: "leaf_table s' root vb = leaf_table s root vb"
      using False co by (auto simp: leaf_table_def cr split: Option.bind_splits)
    have "t \<noteq> root \<and> t \<noteq> p" if lt: "leaf_table s root vb = Some t" for t
    proof -
      obtain v where "child s root (PX 2 vb) = Some v" "child s v (PX 1 vb) = Some t"
        using lt by (auto simp: leaf_table_def hoare_simps)
      then have "t \<in> tables0 s root" using tables0I tables1I by blast
      then show ?thesis using D(4) fresh by auto
    qed
    then show ?thesis
      unfolding lookup_def lt by (auto simp: s'_def set_pte_def split: option.splits)
  qed
qed

lemma install_under_table1:
  assumes wf: "tree_wf s root" and t: "child s root x = Some t" and i: "child s t i = None"
    and a: "pages_alloc 1 (phys s) = Some (p, b)"
  defines "s' \<equiv> set_pte (t, i) (PA2PTE p OR PTE_V) (s\<lparr>phys := b, pgt := (pgt s)(p := (\<lambda>_. 0))\<rparr>)"
  shows "tree_wf s' root" "child s' root y = child s root y" "child s' t i = Some p"
    "lookup s' root vb = lookup s root vb"
proof -
  note D = tree_wfD[OF wf]
  note L = live_pageD[OF D(1) a]
  have t1: "t \<in> tables1 s root" by (rule tables1I[OF t])
  have fresh: "p \<noteq> root" "p \<notin> tables1 s root" "p \<notin> tables0 s root" "p \<noteq> t" "t \<noteq> root"
    using L(1) D(8-10) t1 D(3) by blast+
  have pp: "PNO2PA (pte_paddr (PA2PTE p OR PTE_V)) = p"
    using alloc_bounds(1)[OF D(1) a D(2)] L(5) by (intro PNO2PA_PA2PTE) simp_all
  show ci: "child s' t i = Some p"
    using fresh pp by (simp add: s'_def child_def set_pte_def valid_PA2PTE)
  show cr: "child s' root y = child s root y" for y
    using fresh by (simp add: s'_def child_def set_pte_def)
  have co: "child s' u j = (if u = t \<and> j = i then Some p else child s u j)" if "u \<noteq> p" for u j
    using that fresh by (auto simp: s'_def child_def set_pte_def pp valid_PA2PTE)
  have T1: "tables1 s' root = tables1 s root" by (simp add: tables1_def cr)
  have np: "u \<noteq> p" if "u \<in> tables1 s root" for u using that fresh by auto
  have T0: "tables0 s' root = insert p (tables0 s root)"
  proof (rule set_eqI, rule iffI)
    fix c assume "c \<in> tables0 s' root"
    then obtain u j where u: "u \<in> tables1 s root" "child s' u j = Some c" unfolding tables0_def T1 by blast
    then show "c \<in> insert p (tables0 s root)"
      using co[OF np[OF u(1)]] tables0I by (auto split: if_splits)
  next
    fix c assume "c \<in> insert p (tables0 s root)"
    then consider "c = p" | u j where "u \<in> tables1 s root" "child s u j = Some c"
      by (auto simp: tables0_def)
    then show "c \<in> tables0 s' root"
    proof cases
      case 1 then show ?thesis using ci t1 by (auto simp: tables0_def T1)
    next
      case 2
      then have "child s' u j = Some c" using co[OF np[OF 2(1)]] i by auto
      then show ?thesis using 2(1) by (auto simp: tables0_def T1)
    qed
  qed
  have live: "live_page s' u" if "live_page s u \<or> u = p" for u
    using that L(2,3) by (auto simp: s'_def set_pte_def live_page_def)
  have ph: "buddy_inv (phys s')" "mem_end (phys s') \<le> 2 ^ 56"
    using pa.alloc_inv[OF D(1) a] alloc_bounds(2)[OF D(1) a D(2)] D(2) by (simp_all add: s'_def set_pte_def)
  have inj0: "v = u \<and> j = k" if "v \<in> tables1 s root" "u \<in> tables1 s root" "child s' v j = Some c"
    "child s' u k = Some c" for v u j k c
    using that co[OF np[OF that(1)]] co[OF np[OF that(2)]] D(7)[of v u j c k] fresh(3) tables0I
    by (auto split: if_splits)
  show "tree_wf s' root"
    unfolding tree_wf_def
  proof (intro conjI)
    show "root \<notin> tables1 s' root \<union> tables0 s' root" using D(3,4) fresh T1 T0 by auto
    show "tables1 s' root \<inter> tables0 s' root = {}" using D(5) fresh T1 T0 by auto
    show "\<forall>t\<in>insert root (tables1 s' root \<union> tables0 s' root). live_page s' t"
      using D(8-10) live T1 T0 by auto
    show "\<forall>j k c. child s' root j = Some c \<and> child s' root k = Some c \<longrightarrow> j = k" using cr D(6) by auto
    show "\<forall>t\<in>tables1 s' root. \<forall>u\<in>tables1 s' root. \<forall>i j c.
        child s' t i = Some c \<and> child s' u j = Some c \<longrightarrow> t = u \<and> i = j" using inj0 T1 by blast
  qed (rule ph)+
  have inj: "child s root (PX 2 vb) = Some t \<and> PX 1 vb = i \<Longrightarrow> leaf_table s' root vb = Some p"
    using ci cr by (simp add: leaf_table_def)
  show "lookup s' root vb = lookup s root vb"
  proof (cases "child s root (PX 2 vb) = Some t \<and> PX 1 vb = i")
    case True
    then have "leaf_table s root vb = None" using i by (simp add: leaf_table_def)
    moreover have "pgt s' p j = 0" for j using fresh by (simp add: s'_def set_pte_def)
    ultimately show ?thesis using inj[OF True] by (simp add: lookup_def)
  next
    case False
    have "v \<noteq> p" if "child s root (PX 2 vb) = Some v" for v using np[OF tables1I[OF that]] .
    then have lt: "leaf_table s' root vb = leaf_table s root vb"
      using False co cr by (auto simp: leaf_table_def split: Option.bind_splits)
    have "u \<noteq> t \<and> u \<noteq> p" if lt: "leaf_table s root vb = Some u" for u
    proof -
      obtain v where "child s root (PX 2 vb) = Some v" "child s v (PX 1 vb) = Some u"
        using lt by (auto simp: leaf_table_def hoare_simps)
      then have "u \<in> tables0 s root" using tables0I tables1I by blast
      then show ?thesis using D(5) t1 fresh by auto
    qed
    then show ?thesis
      unfolding lookup_def lt by (auto simp: s'_def set_pte_def split: option.splits)
  qed
qed

section \<open>Walking with allocation\<close>

lemma walk_levels_valid:
  "child s t (PX (Suc l) va) = Some c \<Longrightarrow> walk_levels t va alloc (Suc l) s = walk_levels c va alloc l s"
  by (simp add: Let_def get_pte_def child_def split: if_splits)

lemma walk_levels_install:
  "child s t (PX (Suc l) va) = None \<Longrightarrow> walk_levels t va True (Suc l) s =
    (case pages_alloc 1 (phys s) of None \<Rightarrow> None
     | Some (p, b) \<Rightarrow> walk_levels p va True l (set_pte (t, PX (Suc l) va) (PA2PTE p OR PTE_V)
         (s\<lparr>phys := b, pgt := (pgt s)(p := (\<lambda>_. 0))\<rparr>)))"
  by (simp add: Let_def get_pte_def child_def pgt_zalloc_def split: if_splits option.splits)

lemma walk_level1:
  assumes wf: "tree_wf s root" and t: "child s root (PX 2 va) = Some t"
    and w: "walk_levels t va True (Suc 0) s = Some (r, s')"
  shows "\<exists>u. r = Some (u, PX 0 va) \<and> leaf_table s' root va = Some u \<and> tree_wf s' root \<and>
    (\<forall>vb. lookup s' root vb = lookup s root vb) \<and> bytes s' = bytes s"
proof (cases "child s t (PX 1 va)")
  case None
  then have "child s t (PX (Suc 0) va) = None" by simp
  then obtain p b where a: "pages_alloc 1 (phys s) = Some (p, b)"
    and s': "s' = set_pte (t, PX 1 va) (PA2PTE p OR PTE_V) (s\<lparr>phys := b, pgt := (pgt s)(p := (\<lambda>_. 0))\<rparr>)"
    and r: "r = Some (p, PX 0 va)"
    using w unfolding walk_levels_install[OF \<open>child s t (PX (Suc 0) va) = None\<close>]
    by (auto split: option.splits)
  have "leaf_table s' root va = Some p"
    unfolding s' leaf_table_def using install_under_table1(2,3)[OF wf t None a] t by simp
  then show ?thesis
    using install_under_table1(1,4)[OF wf t None a] r unfolding s' by (simp add: set_pte_def)
next
  case (Some u)
  then have "child s t (PX (Suc 0) va) = Some u" by simp
  then have "r = Some (u, PX 0 va)" "s' = s" using w unfolding walk_levels_valid[OF \<open>child s t (PX (Suc 0) va) = Some u\<close>] by simp_all
  then show ?thesis using Some t wf by (simp add: leaf_table_def)
qed

lemma walk_alloc_ok:
  assumes wf: "tree_wf s root" and w: "walk root va True s = Some (r, s')"
  shows "\<exists>u. r = Some (u, PX 0 va) \<and> leaf_table s' root va = Some u \<and> tree_wf s' root \<and>
    (\<forall>vb. lookup s' root vb = lookup s root vb) \<and> bytes s' = bytes s \<and> va < MAXVA"
proof -
  have va: "va < MAXVA" and w: "walk_levels root va True (Suc (Suc 0)) s = Some (r, s')"
    using w by (auto simp: walk_def numeral_2_eq_2)
  have two: "PX (Suc (Suc 0)) va = PX 2 va" by (simp add: numeral_2_eq_2)
  show ?thesis
  proof (cases "child s root (PX 2 va)")
    case None
    then have n: "child s root (PX (Suc (Suc 0)) va) = None" using two by simp
    obtain p b where a: "pages_alloc 1 (phys s) = Some (p, b)"
      and w1: "walk_levels p va True (Suc 0)
        (set_pte (root, PX 2 va) (PA2PTE p OR PTE_V) (s\<lparr>phys := b, pgt := (pgt s)(p := (\<lambda>_. 0))\<rparr>)) = Some (r, s')"
      using w unfolding walk_levels_install[OF n] two
      by (auto split: option.splits simp del: walk_levels.simps)
    note I = install_under_root[OF wf None a]
    obtain u where u: "r = Some (u, PX 0 va)" "leaf_table s' root va = Some u" "tree_wf s' root"
      "\<forall>vb. lookup s' root vb = lookup (set_pte (root, PX 2 va) (PA2PTE p OR PTE_V)
         (s\<lparr>phys := b, pgt := (pgt s)(p := (\<lambda>_. 0))\<rparr>)) root vb"
      "bytes s' = bytes (set_pte (root, PX 2 va) (PA2PTE p OR PTE_V)
         (s\<lparr>phys := b, pgt := (pgt s)(p := (\<lambda>_. 0))\<rparr>))"
      using walk_level1[OF I(1,2) w1] by blast
    moreover have "bytes s' = bytes s" using u(5) by (simp add: set_pte_def)
    ultimately show ?thesis using I(4) va by auto
  next
    case (Some t)
    then have "child s root (PX (Suc (Suc 0)) va) = Some t" using two by simp
    then have "walk_levels t va True (Suc 0) s = Some (r, s')"
      using w walk_levels_valid by metis
    then show ?thesis using walk_level1[OF wf Some] va by blast
  qed
qed

section \<open>Mapping a range\<close>

text \<open>The entry \<open>mappages\<close> writes for the page at \<open>pa\<close>; the flags depend on the first address.\<close>

definition map_entry :: "u64 \<Rightarrow> nat \<Rightarrow> u64 \<Rightarrow> u64" where
  "map_entry va pa perm =
     (let perm' = (if va \<ge> TRAMPOLINE then perm OR PTE_G else perm);
          e = PA2PTE pa OR perm' OR PTE_V
      in if va \<ge> TRAPFRAME then e OR PTE_unrelease else e)"

lemma map_entry_global: "map_entry va pa (if va \<ge> TRAMPOLINE then perm OR PTE_G else perm) = map_entry va pa perm"
  by (simp add: map_entry_def Let_def or.assoc)

lemma mappages_loop_ok:
  assumes "mappages_loop root va a (a + word_of_nat (n * PGSIZE)) pa perm s = Some (r, s')"
    and "tree_wf s root" and "unat a + n * PGSIZE \<le> 2 ^ 38" and "PGSIZE dvd unat a"
  shows "r = 0 \<and> tree_wf s' root \<and> bytes s' = bytes s \<and>
    (\<forall>vb < MAXVA. lookup s' root vb =
      (if a \<le> vb \<and> unat vb < unat a + n * PGSIZE
       then map_entry va (pa + (unat vb - unat a) div PGSIZE * PGSIZE) perm
       else lookup s root vb)) \<and>
    (\<forall>vb < MAXVA. a \<le> vb \<and> unat vb < unat a + n * PGSIZE \<longrightarrow> \<not> pte_valid (lookup s root vb))"
  using assms
proof (induction n arbitrary: a pa perm s)
  case 0
  then show ?case by (subst (asm) mappages_loop.simps) (auto simp: word_le_nat_alt)
next
  case (Suc n)
  have ua: "unat (a + 4096) = unat a + PGSIZE"
    using Suc.prems(3) unat_plus_small[of a 4096] by simp
  have ul: "unat (a + word_of_nat (Suc n * PGSIZE)) = unat a + Suc n * PGSIZE"
    using Suc.prems(3) by (intro unat_plus_small) simp
  have lst: "a + word_of_nat (Suc n * PGSIZE) = a + 4096 + word_of_nat (n * PGSIZE)"
    by (simp add: algebra_simps)
  have lt: "a < a + word_of_nat (Suc n * PGSIZE)" unfolding word_less_nat_alt ul by simp
  let ?perm = "if va \<ge> TRAMPOLINE then perm OR PTE_G else perm"
  obtain w s1 where w: "walk root a True s = Some (w, s1)"
    using Suc.prems(1) lt by (subst (asm) mappages_loop.simps) (auto simp: hoare_simps)
  obtain t where t: "w = Some (t, PX 0 a)" "leaf_table s1 root a = Some t" "tree_wf s1 root"
    "\<forall>vb. lookup s1 root vb = lookup s root vb" "bytes s1 = bytes s" "a < MAXVA"
    using walk_alloc_ok[OF Suc.prems(2) w] by blast
  let ?s2 = "set_pte (t, PX 0 a) (map_entry va pa perm) s1"
  have nv: "\<not> pte_valid (get_pte (t, PX 0 a) s1)"
    and step: "mappages_loop root va (a + 4096) (a + 4096 + word_of_nat (n * PGSIZE)) (pa + PGSIZE) ?perm ?s2 = Some (r, s')"
    using Suc.prems(1) lt w t(1) unfolding lst[symmetric]
    by (subst (asm) mappages_loop.simps, simp add: map_entry_def Let_def hoare_simps)+
  note L = set_leaf[OF t(3,2,6)]
  have IH: "r = 0 \<and> tree_wf s' root \<and> bytes s' = bytes ?s2 \<and>
    (\<forall>vb < MAXVA. lookup s' root vb =
      (if a + 4096 \<le> vb \<and> unat vb < unat (a + 4096) + n * PGSIZE
       then map_entry va (pa + PGSIZE + (unat vb - unat (a + 4096)) div PGSIZE * PGSIZE) ?perm
       else lookup ?s2 root vb)) \<and>
    (\<forall>vb < MAXVA. a + 4096 \<le> vb \<and> unat vb < unat (a + 4096) + n * PGSIZE \<longrightarrow> \<not> pte_valid (lookup ?s2 root vb))"
  proof (rule Suc.IH[OF step L(1)])
    show "unat (a + 4096) + n * PGSIZE \<le> 2 ^ 38" using ua Suc.prems(3) by simp
    show "PGSIZE dvd unat (a + 4096)" using ua Suc.prems(4) by simp
  qed
  have look_a: "lookup s root a = get_pte (t, PX 0 a) s1"
  proof -
    have "lookup s1 root a = get_pte (t, PX 0 a) s1" using t(2) by (simp add: lookup_def get_pte_def)
    then show ?thesis using t(4) by simp
  qed
  have same: "drop_bit 12 vb = drop_bit 12 a \<longleftrightarrow> a \<le> vb \<and> unat vb < unat a + PGSIZE" for vb
  proof -
    obtain q where q: "unat a = PGSIZE * q" using Suc.prems(4) by blast
    have "drop_bit 12 vb = drop_bit 12 a \<longleftrightarrow> unat vb div PGSIZE = q"
      by (simp only: word_unat_eq_iff unat_drop_bit q) simp
    also have "\<dots> \<longleftrightarrow> PGSIZE * q \<le> unat vb \<and> unat vb < PGSIZE * q + PGSIZE" by auto
    finally show ?thesis unfolding word_le_nat_alt q .
  qed
  have look2: "lookup ?s2 root vb = (if a \<le> vb \<and> unat vb < unat a + PGSIZE then map_entry va pa perm
      else lookup s root vb)" if "vb < MAXVA" for vb
    using L(3)[OF that] same t(4) by simp
  have "lookup s' root vb = (if a \<le> vb \<and> unat vb < unat a + Suc n * PGSIZE
       then map_entry va (pa + (unat vb - unat a) div PGSIZE * PGSIZE) perm else lookup s root vb)"
    if vb: "vb < MAXVA" for vb
  proof -
    have ihv: "lookup s' root vb = (if a + 4096 \<le> vb \<and> unat vb < unat (a + 4096) + n * PGSIZE
       then map_entry va (pa + PGSIZE + (unat vb - unat (a + 4096)) div PGSIZE * PGSIZE) ?perm
       else lookup ?s2 root vb)" using IH vb by blast
    have le: "a + 4096 \<le> vb \<longleftrightarrow> unat a + PGSIZE \<le> unat vb" "a \<le> vb \<longleftrightarrow> unat a \<le> unat vb"
      using ua by (simp_all only: word_le_nat_alt)
    consider "unat vb < unat a" | "unat a \<le> unat vb" "unat vb < unat a + PGSIZE"
      | "unat a + PGSIZE \<le> unat vb" "unat vb < unat a + Suc n * PGSIZE" | "unat a + Suc n * PGSIZE \<le> unat vb"
      by linarith
    then show ?thesis
    proof cases
      case 3
      have "(unat vb - unat a) div PGSIZE = Suc ((unat vb - (unat a + PGSIZE)) div PGSIZE)"
      proof -
        have "unat vb - unat a = (unat vb - (unat a + PGSIZE)) + PGSIZE" using 3 by simp
        then show ?thesis by (metis div_add_self2 zero_neq_numeral Suc_eq_plus1)
      qed
      then show ?thesis unfolding ihv ua map_entry_global using 3 le by (simp add: add.assoc)
    next
      case 1 then show ?thesis unfolding ihv ua look2[OF vb] using le by simp
    next
      case 2 then show ?thesis unfolding ihv ua look2[OF vb] using le by simp
    next
      case 4 then show ?thesis unfolding ihv ua look2[OF vb] using le by simp
    qed
  qed
  moreover have "\<not> pte_valid (lookup s root vb)"
    if vb: "vb < MAXVA" "a \<le> vb" "unat vb < unat a + Suc n * PGSIZE" for vb
  proof (cases "unat vb < unat a + PGSIZE")
    case True
    then have "drop_bit 12 vb = drop_bit 12 a" using same vb by simp
    then have "lookup s root vb = lookup s root a" by (rule same_page_lookup)
    then show ?thesis using nv look_a by simp
  next
    case False
    then have "a + 4096 \<le> vb" "unat vb < unat (a + 4096) + n * PGSIZE"
      using vb ua by (simp_all add: word_le_nat_alt)
    then have "\<not> pte_valid (lookup ?s2 root vb)" using IH vb(1) by blast
    then show ?thesis using False unfolding look2[OF vb(1)] by simp
  qed
  ultimately show ?case using IH t(5) by (simp add: set_pte_def)
qed

lemma mappages_loop_eq:
  assumes va: "PGSIZE dvd unat va" "unat va + n * PGSIZE \<le> 2 ^ 38" and n: "0 < n"
  shows "mappages root va (word_of_nat (n * PGSIZE)) pa perm s
    = mappages_loop root va va (va + word_of_nat (n * PGSIZE)) pa perm s"
proof -
  have a: "PGROUNDDOWN64 va = va"
    using va(1) by (simp only: word_unat_eq_iff unat_PGROUNDDOWN64) simp
  let ?e = "va + word_of_nat (n * PGSIZE)"
  have e: "unat ?e = unat va + n * PGSIZE" using va(2) by (intro unat_plus_small) simp
  have last: "PGROUNDUP64 (?e - 1) = ?e"
  proof -
    have up: "PGROUNDUP64 x = PGROUNDDOWN64 (x + 0xfff)" for x
      by (simp add: PGROUNDUP64_def PGROUNDDOWN64_def)
    have s: "unat (?e + word_of_nat 4094) = unat va + n * PGSIZE + 4094"
      using unat_plus_small[of ?e 4094] e va(2) by simp
    have eq: "?e - 1 + 0xfff = ?e + word_of_nat 4094" by simp
    have "(unat va + n * PGSIZE) mod PGSIZE = 0" using va(1) by auto
    then have "(unat va + n * PGSIZE + 4094) mod PGSIZE = 4094" by (simp add: mod_add_left_eq[symmetric, of "unat va + n * PGSIZE"])
    then have "unat (PGROUNDDOWN64 (?e + word_of_nat 4094)) = unat va + n * PGSIZE"
      unfolding unat_PGROUNDDOWN64 s by simp
    then show ?thesis unfolding up eq by (simp only: word_unat_eq_iff e)
  qed
  have "n * PGSIZE < 2 ^ LENGTH(64)" using va(2) by simp
  then have "unat (word_of_nat (n * PGSIZE) :: u64) = n * PGSIZE"
    unfolding unat_of_nat by (rule mod_less)
  then have "word_of_nat (n * PGSIZE) \<noteq> (0::u64)" using n by (metis unat_0 mult_is_0 not_gr_zero zero_neq_numeral)
  then show ?thesis using a last by (simp add: mappages_def Let_def)
qed

lemma mappages_ok:
  assumes wf: "tree_wf s root" and m: "mappages root va (word_of_nat (n * PGSIZE)) pa perm s = Some (r, s')"
    and va: "PGSIZE dvd unat va" "unat va + n * PGSIZE \<le> 2 ^ 38" and n: "0 < n"
  shows "r = 0 \<and> tree_wf s' root \<and> bytes s' = bytes s \<and>
    (\<forall>vb < MAXVA. lookup s' root vb =
      (if va \<le> vb \<and> unat vb < unat va + n * PGSIZE
       then map_entry va (pa + (unat vb - unat va) div PGSIZE * PGSIZE) perm
       else lookup s root vb)) \<and>
    (\<forall>vb < MAXVA. va \<le> vb \<and> unat vb < unat va + n * PGSIZE \<longrightarrow> \<not> pte_valid (lookup s root vb))"
  using mappages_loop_ok[OF _ wf va(2,1)] m unfolding mappages_loop_eq[OF va n] by blast

section \<open>Copy on write\<close>

lemma pages_undup_ok:
  assumes inv: "buddy_inv s" and u: "(i, k) \<in> used_blocks s"
  shows "\<exists>s'. pages_undup (page_addr s i) s = Some (uint (page_refs s i), s') \<and> buddy_inv s' \<and>
    used_blocks s' = used_blocks s \<and> npages s' = npages s \<and> mem_start s' = mem_start s \<and> mem_end s' = mem_end s \<and>
    page_refs s' = (if page_refs s i = 1 then page_refs s else (page_refs s)(i := page_refs s i - 1))"
proof -
  have inv0: "buddy_held {} s" using inv by (simp add: buddy_inv_def)
  note D = buddy_heldD[OF inv0]
  let ?s = "record_update i (\<lambda>r. r\<lparr>rec_count := rec_count r - 1\<rparr>) s"
  have i: "i < npages s" "rec_count (physical_page_record s ! i) \<noteq> 0" "page_refs s i = rec_count (physical_page_record s ! i)"
    using u by (auto simp: used_blocks_def page_refs_def)
  have ge: "(1::u16) \<le> rec_count (physical_page_record s ! i)"
    using i(2) by (simp add: word_le_nat_alt Suc_le_eq unat_gt_0)
  have gt: "uint (page_refs s i) > 1 \<longleftrightarrow> page_refs s i \<noteq> 1"
    using ge i(3) by (simp add: word_le_def word_uint_eq_iff) linarith
  show ?thesis
  proof (cases "page_refs s i = 1")
    case True
    then have "pages_undup (page_addr s i) s = Some (uint (page_refs s i), s)"
      using i ge gt by (simp add: pages_undup_def Let_def)
    then show ?thesis using True inv by auto
  next
    case False
    then have eq: "pages_undup (page_addr s i) s = Some (uint (page_refs s i), ?s)"
      using i ge gt by (simp add: pages_undup_def Let_def)
    have ne: "rec_count (physical_page_record s ! i) - 1 \<noteq> 0" using False i(3) by simp
    have used: "used_blocks ?s = used_blocks s"
      using i ne by (auto simp: used_blocks_def split: if_splits)
    have same: "physical_page_record ?s ! a = physical_page_record s ! a" if f: "(a, b) \<in> free_blocks s" for a b
    proof -
      have "a \<noteq> i" using D(6)[OF f] i by auto
      moreover have "a < npages s" by (rule tiling_fits(2)[OF D(4), of a b]) (use f in blast)
      ultimately show ?thesis by simp
    qed
    have "lists_ok ?s" using D(2) by (simp add: lists_ok_def)
    moreover have "geometry ?s" by (rule geometry_cong[OF D(1)]) simp_all
    ultimately have "buddy_held {} ?s"
      unfolding buddy_held_def using D(4,6,7,8) same by (auto simp: used)
    moreover have "page_refs ?s = (page_refs s)(i := page_refs s i - 1)"
      using i by (auto simp: page_refs_def fun_eq_iff)
    ultimately show ?thesis using eq used False by (intro exI[of _ ?s]) (simp add: buddy_inv_def)
  qed
qed

text \<open>A write fault on a shared page leaves the shared page alone: the process gets a fresh page with
  the same bytes. On a page it alone refers to, only the permissions change.\<close>

lemma do_wp_page_ok:
  assumes wf: "buddy_inv (phys s)" "mem_end (phys s) \<le> 2 ^ 56" and e: "get_pte loc s = e"
    and p: "PNO2PA (pte_paddr e) = page_addr (phys s) i" "(i, 0) \<in> used_blocks (phys s)"
    and perm: "perm < 256" and w: "do_wp_page loc perm s = Some (r, s')"
  shows "r = 0 \<and> buddy_inv (phys s') \<and>
    (if page_refs (phys s) i = 1
     then get_pte loc s' = e OR perm \<and> bytes s' = bytes s \<and> page_refs (phys s') = page_refs (phys s)
     else \<exists>j. j \<noteq> i \<and> (\<forall>b\<in>used_blocks (phys s). j \<notin> pages b) \<and>
       PNO2PA (pte_paddr (get_pte loc s')) = page_addr (phys s) j \<and>
       pte_perm (get_pte loc s') = pte_perm e OR perm \<and>
       (\<forall>k < PGSIZE. bytes s' (page_addr (phys s) j + k) = bytes s (page_addr (phys s) i + k)) \<and>
       (\<forall>a. (a < page_addr (phys s) j \<or> page_addr (phys s) j + PGSIZE \<le> a) \<longrightarrow> bytes s' a = bytes s a) \<and>
       page_refs (phys s') = (page_refs (phys s))(i := page_refs (phys s) i - 1, j := 1))"
proof -
  obtain b where b: "pages_undup (page_addr (phys s) i) (phys s) = Some (uint (page_refs (phys s) i), b)"
    "buddy_inv b" "used_blocks b = used_blocks (phys s)" "mem_start b = mem_start (phys s)" "mem_end b = mem_end (phys s)"
    "page_refs b = (if page_refs (phys s) i = 1 then page_refs (phys s)
       else (page_refs (phys s))(i := page_refs (phys s) i - 1))"
    using pages_undup_ok[OF wf(1) p(2)] by blast
  have m: "perm AND 0xff = perm"
  proof -
    have "perm AND 0xff = take_bit 8 perm" by (simp add: take_bit_eq_mask mask_eq_exp_minus_1)
    moreover have "take_bit 8 perm = perm"
      using perm by (simp add: word_unat_eq_iff unat_take_bit word_less_nat_alt del: take_bit_eq_mod)
    ultimately show ?thesis by simp
  qed
  show ?thesis
  proof (cases "page_refs (phys s) i = 1")
    case True
    then have "s' = set_pte loc (e OR perm) (s\<lparr>phys := b\<rparr>)" "r = 0"
      using w b(1) e p(1) m by (auto simp: do_wp_page_def Let_def hoare_simps)
    then show ?thesis using True b by (simp add: set_pte_def get_pte_def)
  next
    case False
    then have ne: "uint (page_refs (phys s) i) \<noteq> 1" by (simp add: word_uint_eq_iff)
    obtain q b' where a: "pages_alloc 1 b = Some (q, b')" and r: "r = 0"
      and s': "s' = set_pte loc (PA2PTE q OR (perm OR pte_perm e))
        (s\<lparr>phys := b', bytes := memcpy (bytes s) q (page_addr (phys s) i) PGSIZE\<rparr>)"
      using w b(1) e p(1) ne by (auto simp: do_wp_page_def Let_def hoare_simps)
    obtain j k l where A: "1 \<le> (2::nat) ^ k" "k \<le> l" "(j, l) \<in> free_blocks b" "q = page_addr b j"
      "buddy_inv b'" "page_refs b' = (page_refs b)(j := 1)"
      using pages_alloc_SomeD[OF b(2) a] by auto
    have pa: "page_addr b = page_addr (phys s)" by (rule page_addr_cong) (rule b(4))
    have q: "q < 2 ^ 56" "PGSIZE dvd q"
      using alloc_bounds(1)[OF b(2) a] b(5) wf(2) pa.alloc_aligned[OF b(2) a] by (simp_all add: mod_eq_0_iff_dvd)
    have disj: "j \<notin> pages c" if "c \<in> used_blocks (phys s)" for c
      using held_used_new(1)[of b j l j 0 c] b(2,3) A(3) that pages_le[of 0 l j]
      by (auto simp: buddy_inv_def)
    have ij: "j \<noteq> i" using disj[OF p(2)] by auto
    have pe: "pte_perm e < 256"
      by (simp add: pte_perm_def word_less_nat_alt unat_take_bit del: take_bit_eq_mod)
    have fl: "perm OR pte_perm e = take_bit 8 (perm OR pte_perm e)"
    proof -
      have "take_bit 8 perm = perm" "take_bit 8 (pte_perm e) = pte_perm e"
        using perm by (simp_all add: word_unat_eq_iff unat_take_bit word_less_nat_alt pte_perm_def del: take_bit_eq_mod)
      then show ?thesis by (simp add: take_bit_or)
    qed
    have "unat (take_bit 8 (perm OR pte_perm e)) < 1024" unfolding unat_take_bit by (rule order_less_trans[of _ 256]) simp_all
    then have "perm OR pte_perm e < 1024" using fl by (simp add: word_less_nat_alt)
    then have pp: "PNO2PA (pte_paddr (PA2PTE q OR (perm OR pte_perm e))) = q" by (rule PNO2PA_PA2PTE[OF q])
    have pm: "pte_perm (PA2PTE q OR (perm OR pte_perm e)) = pte_perm e OR perm"
    proof -
      have "take_bit 8 (PA2PTE q OR (perm OR pte_perm e)) = take_bit 8 (perm OR pte_perm e)"
        by (rule bit_eqI) (auto simp: bit_take_bit_iff bit_or_iff bit_PA2PTE)
      then show ?thesis using fl by (simp add: pte_perm_def or.commute)
    qed
    let ?p = "page_addr (phys s) i"
    have sep: "q + PGSIZE \<le> ?p \<or> ?p + PGSIZE \<le> q"
      using ij unfolding A(4) pa page_addr_def by linarith
    then have "memcpy (bytes s) q ?p PGSIZE = copied (bytes s) q ?p PGSIZE"
      by (intro memcpy_copied) linarith
    then have bts: "bytes s' = copied (bytes s) q ?p PGSIZE" unfolding s' by (simp add: set_pte_def)
    have g: "get_pte loc s' = PA2PTE q OR (perm OR pte_perm e)" "phys s' = b'"
      unfolding s' by (simp_all add: set_pte_def get_pte_def)
    have "page_refs b' = (page_refs (phys s))(i := page_refs (phys s) i - 1, j := 1)"
      using A(6) b(6) False by simp
    then show ?thesis
      using False r A(4,5) disj ij pp pm unfolding g bts
      by (auto simp: pa copied_def intro!: exI[of _ j])
  qed
qed

end
