(* ===== verification/Vma.thy ===== *)
theory Vma
  imports Pgtable_Tree
begin

text \<open>
  The virtual memory areas of a process and demand paging, from kernel/mm/vm.c. The areas hang on
  a list sorted by address (theory \<open>Kernel_List\<close> has the list operations); \<open>verify_area\<close> and the
  page faults load or copy the pages behind a user range. The file behind an area is read by
  \<open>readi\<close> of the file system, which is the argument \<open>rd\<close>: \<open>rd inode off n\<close> are the bytes it stores (fewer
  than \<open>n\<close>, or none, when it reports an error or meets the end of the file, which the caller does not look at), and \<open>None\<close>
  when it halts the machine. What a read leaves in the buffer cache is the state of the file system, not of
  the address space; theory \<open>Ext2_File\<close> has it.
\<close>

section \<open>Areas\<close>

record vm_area_struct =
  vm_start :: u64
  vm_end :: u64
  vm_flags :: u64
  vm_filesz :: u64
  vm_pgoff :: u64
  vm_inode :: "nat option"

record mm_struct =
  vm_area_list :: "vm_area_struct list"
  mm_pagetable :: nat
  mm_count :: nat
  map_count :: int
  stack_maxsize :: nat
  start_ustack :: u64
  mmap_base :: u64
  start_brk :: u64
  brk :: u64

definition new_vmarea_struct ::
    "u64 \<Rightarrow> u64 \<Rightarrow> u64 \<Rightarrow> u64 \<Rightarrow> nat option \<Rightarrow> u64 \<Rightarrow> vm_area_struct" where
  "new_vmarea_struct va_start va_end flags pgoff inode filesz =
     \<lparr>vm_start = va_start, vm_end = va_end, vm_flags = flags, vm_filesz = filesz,
      vm_pgoff = pgoff, vm_inode = inode\<rparr>"

text \<open>The insertion loop of \<open>add_vm_area\<close>; an overlap fails its assertion.\<close>

fun insert_area :: "vm_area_struct \<Rightarrow> vm_area_struct list \<Rightarrow> vm_area_struct list option" where
  "insert_area new [] = Some [new]"
| "insert_area new (vma # rest) = do {
     cassert (vm_end new \<le> vm_start vma \<or> vm_start new \<ge> vm_end vma);
     if vm_start vma \<ge> vm_end new then Some (new # vma # rest)
     else do { l \<leftarrow> insert_area new rest; Some (vma # l) } }"

definition add_vm_area ::
    "mm_struct \<Rightarrow> u64 \<Rightarrow> u64 \<Rightarrow> u64 \<Rightarrow> u64 \<Rightarrow> nat option \<Rightarrow> u64 \<Rightarrow> mm_struct option" where
  "add_vm_area mm va_start va_end flags pgoff inode filesz = do {
     cassert (OFFSETPAGE va_start = 0);
     cassert (OFFSETPAGE va_end = 0);
     l \<leftarrow> insert_area (new_vmarea_struct va_start va_end flags pgoff inode filesz) (vm_area_list mm);
     Some (mm\<lparr>vm_area_list := l, map_count := map_count mm + 1\<rparr>) }"

definition search_vmareas :: "mm_struct \<Rightarrow> u64 \<Rightarrow> u64 \<Rightarrow> vm_area_struct option \<times> u64" where
  "search_vmareas mm target_vaddr n =
     (let end_vaddr = target_vaddr + n
      in case find (\<lambda>vma. target_vaddr \<ge> vm_start vma \<and> end_vaddr \<le> vm_end vma) (vm_area_list mm) of
           None \<Rightarrow> (None, 0)
         | Some vma \<Rightarrow> (Some vma, vm_flags vma))"

text \<open>\<open>new_mm_struct\<close>: \<open>kmalloc\<close> leaves the fields that are not set unspecified (here 0).\<close>

definition new_mm_struct :: "vm \<Rightarrow> (mm_struct \<times> vm) option" where
  "new_mm_struct s = do {
     (pt, s') \<leftarrow> uvmcreate s;
     Some (\<lparr>vm_area_list = [], mm_pagetable = pt, mm_count = 1, map_count = 0,
            stack_maxsize = 32, start_ustack = 0, mmap_base = 0, start_brk = 0, brk = 0\<rparr>, s') }"

text \<open>\<open>uvm_space_copy\<close> copies the areas in order and shares the pages copy-on-write.\<close>

definition uvm_space_copy :: "mm_struct \<Rightarrow> mm_struct \<Rightarrow> vm \<Rightarrow> (mm_struct \<times> vm) option" where
  "uvm_space_copy new_mm old_mm s =
     (let new' = new_mm\<lparr>map_count := map_count old_mm, stack_maxsize := stack_maxsize old_mm,
            start_ustack := start_ustack old_mm, mmap_base := mmap_base old_mm,
            start_brk := start_brk old_mm, brk := brk old_mm,
            vm_area_list := map (\<lambda>v. new_vmarea_struct (vm_start v) (vm_end v) (vm_flags v)
              (vm_pgoff v) (vm_inode v) (vm_filesz v)) (vm_area_list old_mm) @ vm_area_list new_mm\<rparr>
      in do {
        s' \<leftarrow> copy_pgtable (mm_pagetable new_mm) (mm_pagetable old_mm) 0 PTE_W s;
        Some (new', s') })"

text \<open>\<open>sys_brk\<close>: the third area is the heap.\<close>

definition sys_brk :: "u64 \<Rightarrow> mm_struct \<Rightarrow> (u64 \<times> mm_struct) option" where
  "sys_brk vaddr mm =
     (if vaddr \<le> start_brk mm then Some (brk mm, mm)
      else do {
        cassert (map_count mm \<ge> 4);
        vma \<leftarrow> nth_opt (vm_area_list mm) 2;
        Some (vaddr, mm\<lparr>brk := vaddr,
          vm_area_list := (vm_area_list mm)[2 := vma\<lparr>vm_end := vaddr\<rparr>]\<rparr>) })"

section \<open>Demand paging\<close>

fun write_bytes :: "mem \<Rightarrow> nat \<Rightarrow> byte list \<Rightarrow> mem" where
  "write_bytes m a [] = m"
| "write_bytes m a (b # bs) = write_bytes (m(a := b)) (a + 1) bs"

definition true_load_segment ::
    "(nat \<Rightarrow> u64 \<Rightarrow> nat \<Rightarrow> byte list option) \<Rightarrow> vm_area_struct \<Rightarrow> nat \<Rightarrow> u64 \<Rightarrow> nat \<Rightarrow> mem \<Rightarrow> mem option" where
  "true_load_segment rd vma inode vaddr page_start m = do {
     cassert (OFFSETPAGE vaddr = 0);
     let segoff = (ucast (vaddr - vm_start vma) :: u32);
     let pgoff0 = (ucast ((if ucast segoff < vm_filesz vma then vm_filesz vma else ucast segoff) - ucast segoff) :: u32);
     let pgoff = (if pgoff0 > 4096 then 4096 else pgoff0);
     m1 \<leftarrow> (if ucast segoff < vm_filesz vma
           then do { bs \<leftarrow> rd inode (vm_pgoff vma + ucast segoff) (unat pgoff); Some (write_bytes m page_start bs) }
           else Some m);
     Some (if vm_filesz vma \<noteq> vm_end vma - vm_start vma
           then memset m1 (page_start + unat pgoff) 0 (PGSIZE - unat pgoff) else m1) }"

definition do_no_page ::
    "(nat \<Rightarrow> u64 \<Rightarrow> nat \<Rightarrow> byte list option) \<Rightarrow> mm_struct \<Rightarrow> vm_area_struct \<Rightarrow> u64 \<Rightarrow> u64 \<Rightarrow> vm \<Rightarrow> (int \<times> vm) option" where
  "do_no_page rd mm vma vaddr targetperm s = do {
     (page_start, b) \<leftarrow> pages_alloc 1 (phys s);
     (_, s1) \<leftarrow> mappages (mm_pagetable mm) vaddr 4096 page_start targetperm (s\<lparr>phys := b\<rparr>);
     case vm_inode vma of None \<Rightarrow> Some (0, s1)
     | Some inode \<Rightarrow> do {
         m \<leftarrow> true_load_segment rd vma inode vaddr page_start (bytes s1);
         Some (0, s1\<lparr>bytes := m\<rparr>) } }"

text \<open>The loop of \<open>verify_area\<close>. \<open>res\<close> is unsigned there, so the test \<open>res < 0\<close> never holds.\<close>

function verify_pages ::
    "(nat \<Rightarrow> u64 \<Rightarrow> nat \<Rightarrow> byte list option) \<Rightarrow> mm_struct \<Rightarrow> vm_area_struct \<Rightarrow> u64 \<Rightarrow> u64 \<Rightarrow> u64 \<Rightarrow> vm \<Rightarrow> (int \<times> vm) option" where
  "verify_pages rd mm vma start_vaddr end_vaddr targetperm s =
     (if start_vaddr < end_vaddr then do {
        (r, s1) \<leftarrow> walk (mm_pagetable mm) start_vaddr True s;
        case r of None \<Rightarrow> Some (-2, s1)
        | Some loc \<Rightarrow>
          (let pte = get_pte loc s1 in
           if pte_perm pte AND targetperm = targetperm
           then verify_pages rd mm vma (start_vaddr + 4096) end_vaddr targetperm s1
           else do {
             (_, s2) \<leftarrow> (if pte_valid pte then do_wp_page loc targetperm s1
                         else do_no_page rd mm vma start_vaddr targetperm s1);
             verify_pages rd mm vma (start_vaddr + 4096) end_vaddr targetperm s2 }) }
      else Some (0, s))"
  by auto
termination
proof (relation "measure (\<lambda>(rd, mm, vma, a, e, t, s). unat e + 4096 - unat a)")
  have dec: "unat (a + 4096) = unat a + 4096" if w: "walk t a True s = Some x" for t a s x
  proof -
    have "a < MAXVA" using w by (simp add: walk_def hoare_simps)
    then have "unat a < 0x4000000000" by (simp add: word_less_nat_alt)
    then show ?thesis by (simp add: unat_word_ariths)
  qed
  fix rd mm vma and a e t :: u64 and s x r s1 loc pte
  assume lt: "a < e" and w: "walk (mm_pagetable mm) a True s = Some x"
  note d = dec[OF w]
  show "((rd, mm, vma, a + 4096, e, t, s1), (rd, mm, vma, a, e, t, s))
      \<in> measure (\<lambda>(rd, mm, vma, a, e, t, s). unat e + 4096 - unat a)"
    using d lt by (simp add: word_less_nat_alt)
  fix y z s2
  show "((rd, mm, vma, a + 4096, e, t, s2), (rd, mm, vma, a, e, t, s))
      \<in> measure (\<lambda>(rd, mm, vma, a, e, t, s). unat e + 4096 - unat a)"
    using d lt by (simp add: word_less_nat_alt)
qed simp

definition verify_area ::
    "(nat \<Rightarrow> u64 \<Rightarrow> nat \<Rightarrow> byte list option) \<Rightarrow> mm_struct \<Rightarrow> u64 \<Rightarrow> u64 \<Rightarrow> u64 \<Rightarrow> vm \<Rightarrow> (int \<times> vm) option" where
  "verify_area rd mm vaddr n targetperm s =
     (case search_vmareas mm vaddr n of
        (None, _) \<Rightarrow> Some (-1, s)
      | (Some vma, flags) \<Rightarrow>
          if targetperm AND flags \<noteq> targetperm then Some (-1, s)
          else verify_pages rd mm vma (PGROUNDDOWN64 vaddr) (vaddr + n) targetperm s)"

text \<open>The three page faults of the trap handler; the flag says whether the process is killed.\<close>

definition page_fault :: "u64 \<Rightarrow> u64 \<Rightarrow> (nat \<Rightarrow> u64 \<Rightarrow> nat \<Rightarrow> byte list option) \<Rightarrow> mm_struct \<Rightarrow> u64 \<Rightarrow> vm \<Rightarrow> (bool \<times> vm) option" where
  "page_fault n perm rd mm fault_vaddr s = do {
     (res, s') \<leftarrow> verify_area rd mm fault_vaddr n perm s;
     Some (res = -1 \<or> res = -2, s') }"

definition do_inst_page_fault :: "(nat \<Rightarrow> u64 \<Rightarrow> nat \<Rightarrow> byte list option) \<Rightarrow> mm_struct \<Rightarrow> u64 \<Rightarrow> vm \<Rightarrow> (bool \<times> vm) option" where
  "do_inst_page_fault = page_fault 4 (PTE_X OR PTE_R OR PTE_U)"

definition do_ld_page_fault :: "(nat \<Rightarrow> u64 \<Rightarrow> nat \<Rightarrow> byte list option) \<Rightarrow> mm_struct \<Rightarrow> u64 \<Rightarrow> vm \<Rightarrow> (bool \<times> vm) option" where
  "do_ld_page_fault = page_fault 1 (PTE_R OR PTE_U)"

definition do_sd_page_fault :: "(nat \<Rightarrow> u64 \<Rightarrow> nat \<Rightarrow> byte list option) \<Rightarrow> mm_struct \<Rightarrow> u64 \<Rightarrow> vm \<Rightarrow> (bool \<times> vm) option" where
  "do_sd_page_fault = page_fault 1 (PTE_R OR PTE_W OR PTE_U)"

declare verify_pages.simps [simp del]

section \<open>The list of areas\<close>

definition areas_wf :: "vm_area_struct list \<Rightarrow> bool" where
  "areas_wf l \<longleftrightarrow> sorted_wrt (\<lambda>a b. vm_end a \<le> vm_start b) l \<and> (\<forall>a\<in>set l. vm_start a < vm_end a)"

definition overlap :: "vm_area_struct \<Rightarrow> vm_area_struct \<Rightarrow> bool" where
  "overlap a b \<longleftrightarrow> vm_start a < vm_end b \<and> vm_start b < vm_end a"

lemma areas_wf_Cons:
  "areas_wf (v # l) \<longleftrightarrow> (\<forall>b\<in>set l. vm_end v \<le> vm_start b) \<and> vm_start v < vm_end v \<and> areas_wf l"
  by (auto simp: areas_wf_def)

lemma insert_area_mset: "insert_area new l = Some l' \<Longrightarrow> mset l' = add_mset new (mset l)"
  by (induction l arbitrary: l') (auto simp: hoare_simps split: if_splits)

lemma insert_area_set: "insert_area new l = Some l' \<Longrightarrow> set l' = insert new (set l)"
  by (metis insert_area_mset set_mset_add_mset_insert set_mset_mset)

lemma insert_area_wf:
  "areas_wf l \<Longrightarrow> vm_start new < vm_end new \<Longrightarrow> insert_area new l = Some l' \<Longrightarrow> areas_wf l'"
proof (induction l arbitrary: l')
  case Nil then show ?case by (auto simp: areas_wf_def)
next
  case (Cons v l)
  have v: "\<forall>b\<in>set l. vm_end v \<le> vm_start b" "vm_start v < vm_end v" "areas_wf l"
    using Cons.prems(1) by (auto simp: areas_wf_Cons)
  show ?case
  proof (cases "vm_end new \<le> vm_start v")
    case True
    then have "l' = new # v # l" using Cons.prems(3) by simp
    moreover have "vm_end new \<le> vm_start b" if "b \<in> set l" for b
      using True v that by (meson order.trans less_imp_le bspec)
    ultimately show ?thesis using True v Cons.prems(2) by (auto simp: areas_wf_Cons)
  next
    case False
    then obtain m where m: "insert_area new l = Some m" "l' = v # m" "vm_end v \<le> vm_start new"
      using Cons.prems(3) by (auto simp: hoare_simps)
    then show ?thesis
      using Cons.IH[OF v(3) Cons.prems(2) m(1)] v insert_area_set[OF m(1)] by (auto simp: areas_wf_Cons)
  qed
qed

lemma insert_area_None:
  "areas_wf l \<Longrightarrow> vm_start new < vm_end new \<Longrightarrow>
   insert_area new l = None \<longleftrightarrow> (\<exists>v\<in>set l. overlap new v)"
proof (induction l)
  case (Cons v l)
  have v: "\<forall>b\<in>set l. vm_end v \<le> vm_start b" "vm_start v < vm_end v" "areas_wf l"
    using Cons.prems(1) by (auto simp: areas_wf_Cons)
  consider "overlap new v" | "vm_end new \<le> vm_start v" | "\<not> vm_end new \<le> vm_start v" "vm_end v \<le> vm_start new"
    unfolding overlap_def by (metis not_le)
  then show ?case
  proof cases
    case 1
    then show ?thesis by (auto simp: overlap_def not_le)
  next
    case 2
    have "\<not> overlap new b" if "b \<in> set l" for b
    proof -
      have "vm_end new \<le> vm_start b" using 2 v that by (meson order.trans less_imp_le bspec)
      then show ?thesis by (simp add: overlap_def not_less)
    qed
    then show ?thesis using 2 by (auto simp: overlap_def not_less)
  next
    case 3
    then show ?thesis
      using Cons.IH[OF v(3) Cons.prems(2)] by (cases "insert_area new l") (auto simp: overlap_def not_less)
  qed
qed simp

lemma areas_disjoint:
  assumes "areas_wf l" "a \<in> set l" "b \<in> set l" "vm_start a \<le> x" "x < vm_end a" "vm_start b \<le> x" "x < vm_end b"
  shows "a = b"
  using assms
proof (induction l)
  case (Cons v l)
  have v: "\<forall>b\<in>set l. vm_end v \<le> vm_start b" "areas_wf l"
    using Cons.prems(1) by (auto simp: areas_wf_Cons)
  have False if "c \<in> set l" "vm_start c \<le> x" "x < vm_end v" for c
    using v(1) that by (meson bspec le_less_trans not_le order.trans)
  then show ?case using Cons v by auto
qed simp

lemma search_vmareas_ok:
  assumes wf: "areas_wf (vm_area_list mm)" and n: "0 < unat n" "unat t + unat n < 2 ^ 64"
  shows "fst (search_vmareas mm t n) = Some v \<longleftrightarrow>
    v \<in> set (vm_area_list mm) \<and> vm_start v \<le> t \<and> unat t + unat n \<le> unat (vm_end v)"
proof -
  have e: "unat (t + n) = unat t + unat n" using n(2) by (simp add: unat_word_ariths)
  let ?P = "\<lambda>vma. t \<ge> vm_start vma \<and> t + n \<le> vm_end vma"
  have P: "?P v \<longleftrightarrow> vm_start v \<le> t \<and> unat t + unat n \<le> unat (vm_end v)" for v
    using e by (simp add: word_le_nat_alt)
  have un: "v = w" if "v \<in> set (vm_area_list mm)" "w \<in> set (vm_area_list mm)" "?P v" "?P w" for v w
  proof (rule areas_disjoint[OF wf that(1,2)])
    show "vm_start v \<le> t" "vm_start w \<le> t" using that by auto
    show "t < vm_end v" "t < vm_end w" using that P[of v] P[of w] n(1) by (simp_all add: word_less_nat_alt)
  qed
  have "fst (search_vmareas mm t n) = find ?P (vm_area_list mm)"
    by (simp add: search_vmareas_def Let_def split: option.splits)
  moreover have "find ?P (vm_area_list mm) = Some v \<longleftrightarrow> v \<in> set (vm_area_list mm) \<and> ?P v"
  proof
    assume "find ?P (vm_area_list mm) = Some v"
    then show "v \<in> set (vm_area_list mm) \<and> ?P v" by (auto simp: find_Some_iff)
  next
    assume a: "v \<in> set (vm_area_list mm) \<and> ?P v"
    then obtain w where w: "find ?P (vm_area_list mm) = Some w" by (cases "find ?P (vm_area_list mm)") (auto simp: find_None_iff)
    then have "w \<in> set (vm_area_list mm)" "?P w" by (auto simp: find_Some_iff)
    then have "w = v" using un a by blast
    then show "find ?P (vm_area_list mm) = Some v" using w by simp
  qed
  ultimately show ?thesis by (simp only: P)
qed

lemma search_vmareas_flags: "search_vmareas mm t n = (Some v, f) \<Longrightarrow> f = vm_flags v"
  by (auto simp: search_vmareas_def Let_def split: option.splits)

section \<open>Loading a page of a segment\<close>

lemma write_bytes_eq: "write_bytes m a bs = (\<lambda>x. if a \<le> x \<and> x < a + length bs then bs ! (x - a) else m x)"
proof (induction bs arbitrary: m a)
  case (Cons b bs)
  show ?case
  proof
    fix x
    consider "x = a" | "a < x" | "x < a" by linarith
    then show "write_bytes m a (b # bs) x = (if a \<le> x \<and> x < a + length (b # bs) then (b # bs) ! (x - a) else m x)"
    proof cases
      case 2
      then have "x - a = Suc (x - (a + 1))" by simp
      then show ?thesis using 2 by (simp add: Cons.IH)
    qed (simp_all add: Cons.IH)
  qed
qed (auto simp: fun_eq_iff)

lemma unat_ucast_small: "unat x < 2 ^ 32 \<Longrightarrow> unat (ucast (x::u64) :: u32) = unat x"
  by (simp add: unsigned_ucast_eq take_bit_nat_eq_self)

lemma unat_ucast_up: "unat (ucast (x::u32) :: u64) = unat x"
proof -
  have "unat x < 2 ^ LENGTH(32)" by (rule unsigned_less)
  then show ?thesis by (simp add: unsigned_ucast_eq take_bit_nat_eq_self)
qed

text \<open>Byte \<open>k\<close> of a page \<open>d\<close> bytes into an area is byte \<open>d + k\<close> of the segment in the file, and
  zero behind the end of the segment.\<close>

lemma true_load_segment_ok:
  fixes cont :: "nat \<Rightarrow> nat \<Rightarrow> byte"
  assumes rd: "\<And>i off n. rd i off n = Some (map (\<lambda>k. cont i (unat off + k)) [0..<n])"
    and al: "PGSIZE dvd unat vaddr" "PGSIZE dvd unat (vm_start vma)" "PGSIZE dvd unat (vm_end vma)"
    and va: "vm_start vma \<le> vaddr" "vaddr < vm_end vma"
    and L: "unat (vm_end vma) - unat (vm_start vma) < 2 ^ 32"
      "unat (vm_filesz vma) \<le> unat (vm_end vma) - unat (vm_start vma)"
      "unat (vm_pgoff vma) + unat (vm_filesz vma) < 2 ^ 64"
  defines "d \<equiv> unat vaddr - unat (vm_start vma)"
  shows "\<exists>m'. true_load_segment rd vma inode vaddr page m = Some m' \<and>
    (\<forall>k < PGSIZE. m' (page + k) = (if d + k < unat (vm_filesz vma)
       then cont inode (unat (vm_pgoff vma) + d + k) else 0)) \<and>
    (\<forall>a. (a < page \<or> page + PGSIZE \<le> a) \<longrightarrow> m' a = m a)"
proof -
  let ?F = "unat (vm_filesz vma)"
  have u: "unat (vm_start vma) \<le> unat vaddr" "unat vaddr < unat (vm_end vma)"
    using va by (simp_all add: word_le_nat_alt word_less_nat_alt)
  have dv: "unat (vaddr - vm_start vma) = d" using va(1) by (simp add: unat_sub d_def)
  have d32: "d < 2 ^ 32" using L(1) u by (simp add: d_def)
  define segoff :: u32 where "segoff = ucast (vaddr - vm_start vma)"
  have so: "unat segoff = d" "unat (ucast segoff :: u64) = d"
    using unat_ucast_small[of "vaddr - vm_start vma"] dv d32 by (simp_all add: segoff_def unat_ucast_up)
  have lt: "(ucast segoff :: u64) < vm_filesz vma \<longleftrightarrow> d < ?F" by (simp add: word_less_nat_alt so)
  define pgoff0 :: u32 where "pgoff0 = ucast ((if ucast segoff < vm_filesz vma then vm_filesz vma else ucast segoff) - ucast segoff)"
  have p0: "unat pgoff0 = ?F - d"
  proof (cases "d < ?F")
    case True
    then have "unat (vm_filesz vma - ucast segoff) = ?F - d" by (simp add: unat_sub word_le_nat_alt so)
    moreover have "?F - d < 2 ^ 32" using L by linarith
    ultimately show ?thesis using True lt unat_ucast_small[of "vm_filesz vma - ucast segoff"] by (simp add: pgoff0_def)
  next
    case False then show ?thesis using lt by (simp add: pgoff0_def)
  qed
  define pgoff where "pgoff = (if pgoff0 > 4096 then 4096 else pgoff0)"
  have pg: "unat pgoff = min PGSIZE (?F - d)"
    using p0 by (simp add: pgoff_def word_less_nat_alt)
  have off0: "OFFSETPAGE vaddr = 0" using al(1) by (simp only: word_unat_eq_iff unat_OFFSETPAGE) simp
  let ?n = "min PGSIZE (?F - d)"
  let ?m1 = "if d < ?F then write_bytes m page (map (\<lambda>k. cont inode (unat (vm_pgoff vma + ucast segoff) + k)) [0..<?n]) else m"
  let ?m' = "if vm_filesz vma \<noteq> vm_end vma - vm_start vma then memset ?m1 (page + ?n) 0 (PGSIZE - ?n) else ?m1"
  have eq: "true_load_segment rd vma inode vaddr page m = Some ?m'"
    unfolding true_load_segment_def segoff_def[symmetric] Let_def pgoff0_def[symmetric] pgoff_def[symmetric]
    by (simp only: off0 lt pg simp_thms cassert_simps rd Option.bind.simps if_distrib[of "\<lambda>x. Option.bind x _"] cong: if_cong) simp
  have oo: "unat (vm_pgoff vma + ucast segoff) = unat (vm_pgoff vma) + d" if "d < ?F"
    using that L(3) so by (subst unat_add_lem[THEN iffD1]) simp_all
  have m1: "?m1 (page + k) = cont inode (unat (vm_pgoff vma) + d + k)" if "k < ?n" for k
  proof -
    have "d < ?F" using that by arith
    then show ?thesis using that oo by (simp add: write_bytes_eq)
  qed
  have m1o: "?m1 a = m a" if "a < page \<or> page + ?n \<le> a" for a
    using that by (auto simp: write_bytes_eq)
  have full: "?n = PGSIZE" if "vm_filesz vma = vm_end vma - vm_start vma"
  proof -
    have "vm_start vma \<le> vm_end vma" using va by simp
    then have F: "?F = unat (vm_end vma) - unat (vm_start vma)" using that by (simp add: unat_sub)
    have "PGSIZE dvd ?F - d" using al u by (simp add: F d_def)
    moreover have "0 < ?F - d" using u by (simp add: F d_def)
    ultimately have "PGSIZE \<le> ?F - d" by (rule dvd_imp_le)
    then show ?thesis by simp
  qed
  have "?m' (page + k) = (if d + k < ?F then cont inode (unat (vm_pgoff vma) + d + k) else 0)" if k: "k < PGSIZE" for k
  proof (cases "k < ?n")
    case True
    then have nk: "\<not> page + ?n \<le> page + k" by linarith
    have "?m' (page + k) = ?m1 (page + k)"
      by (cases "vm_filesz vma = vm_end vma - vm_start vma")
        (simp_all only: memset_fills nk simp_thms if_True if_False)
    then show ?thesis using m1[OF True] True by auto
  next
    case False
    then have ne: "vm_filesz vma \<noteq> vm_end vma - vm_start vma" using full k by auto
    have "\<not> d + k < ?F" using False k by auto
    then show ?thesis using False k ne by (simp add: memset_fills)
  qed
  moreover have "?m' a = m a" if "a < page \<or> page + PGSIZE \<le> a" for a
    using that m1o[of a] by (auto simp: memset_fills)
  ultimately show ?thesis using eq by blast
qed

section \<open>What \<open>verify_area\<close> guarantees\<close>

lemma tree_wf_phys:
  assumes wf: "tree_wf s root" and b: "buddy_inv b" "mem_end b \<le> 2 ^ 56"
    "live_blocks (phys s) \<subseteq> live_blocks b"
  shows "tree_wf (s\<lparr>phys := b, bytes := m\<rparr>) root" "lookup (s\<lparr>phys := b, bytes := m\<rparr>) root va = lookup s root va"
    "leaf_table (s\<lparr>phys := b, bytes := m\<rparr>) root va = leaf_table s root va"
proof -
  let ?s = "s\<lparr>phys := b, bytes := m\<rparr>"
  have c: "child ?s = child s" by (simp add: child_def fun_eq_iff)
  have t: "tables1 ?s root = tables1 s root" "tables0 ?s root = tables0 s root"
    by (simp_all add: tables1_def tables0_def c)
  have l: "live_page s p \<Longrightarrow> live_page ?s p" for p using b(3) by (auto simp: live_page_def)
  show "tree_wf ?s root" using wf b l unfolding tree_wf_def t c by simp
  show lt: "leaf_table ?s root va = leaf_table s root va" by (simp add: leaf_table_def c)
  show "lookup ?s root va = lookup s root va" by (simp add: lookup_def lt split: option.splits)
qed

lemma pages_undup_keeps:
  assumes inv: "buddy_inv s" and u: "pages_undup p s = Some (r, s')"
  shows "buddy_inv s' \<and> live_blocks s' = live_blocks s \<and> mem_end s' = mem_end s"
proof -
  obtain i where i: "addr2arrayindex s p = Some i" "i < npages s" "rec_count (physical_page_record s ! i) \<ge> 1"
    using u by (auto simp: pages_undup_def hoare_simps)
  have "rec_count (physical_page_record s ! i) \<noteq> 0" using i(3) by (auto simp: word_le_nat_alt)
  then have us: "(i, rec_order (physical_page_record s ! i)) \<in> used_blocks s"
    using i(2) by (simp add: used_blocks_def)
  have "pages_undup p s = pages_undup (page_addr s i) s" using i(1) by (simp add: pages_undup_def)
  then obtain s1 where s1: "pages_undup p s = Some (uint (page_refs s i), s1)" "buddy_inv s1"
    "used_blocks s1 = used_blocks s" "mem_start s1 = mem_start s" "mem_end s1 = mem_end s"
    using pages_undup_ok[OF inv us] by auto
  have "page_addr s1 = page_addr s" by (rule page_addr_cong) (rule s1(4))
  then show ?thesis using s1 u by (simp add: live_blocks_def)
qed

lemma alloc_keeps:
  assumes "buddy_inv s" "pages_alloc n s = Some (p, s')" "mem_end s \<le> 2 ^ 56"
  shows "buddy_inv s' \<and> live_blocks s \<subseteq> live_blocks s' \<and> mem_end s' \<le> 2 ^ 56"
  using pa.alloc_inv[OF assms(1,2)] pa.alloc_live[OF assms(1,2)] alloc_bounds(2)[OF assms] assms(3) by auto

definition grants :: "u64 \<Rightarrow> u64 \<Rightarrow> bool" where
  "grants e p \<longleftrightarrow> pte_perm e AND p = p"

lemma grants_bits: "grants e p \<longleftrightarrow> (\<forall>n. bit p n \<longrightarrow> n < 8 \<and> bit e n)"
proof -
  have "grants e p \<longleftrightarrow> (\<forall>n. bit (pte_perm e AND p) n = bit p n)"
    unfolding grants_def using bit_eqI by auto
  then show ?thesis by (auto simp: pte_perm_def bit_and_iff bit_take_bit_iff)
qed

lemma perm_bits: "(t::u64) < 256 \<Longrightarrow> bit t n \<Longrightarrow> n < 8"
proof -
  assume t: "t < 256" "bit t n"
  have "take_bit 8 t = t" using t(1)
    by (simp add: word_unat_eq_iff unat_take_bit word_less_nat_alt del: take_bit_eq_mod)
  then show "n < 8" using t(2) by (metis bit_take_bit_iff)
qed

lemma map_entry_grants: "t < 256 \<Longrightarrow> grants (map_entry va pa t) t"
  using perm_bits[of t] by (auto simp: grants_bits map_entry_def Let_def bit_or_iff)

lemma valid_map_entry: "pte_valid (map_entry va pa perm)"
  by (simp add: map_entry_def Let_def pte_valid_def bit_or_iff bit_1_iff)

text \<open>One page of the loop: afterwards its entry grants the permissions, and no other address has
  lost one.\<close>

lemma do_wp_page_grants:
  assumes wf: "tree_wf s root" and leaf: "leaf_table s root va = Some t" and va: "va < MAXVA" and t: "perm < 256"
    and w: "do_wp_page (t, PX 0 va) perm s = Some (r, s')"
  shows "tree_wf s' root \<and> grants (lookup s' root va) perm \<and>
    (\<forall>vb < MAXVA. \<forall>p. grants (lookup s root vb) p \<longrightarrow> grants (lookup s' root vb) p) \<and>
    (\<forall>vb < MAXVA. lookup s' root vb = lookup s root vb \<or> drop_bit 12 vb = drop_bit 12 va)"
proof -
  note D = tree_wfD[OF wf]
  let ?e = "get_pte (t, PX 0 va) s"
  have le: "lookup s root va = ?e" using leaf by (simp add: lookup_def get_pte_def)
  obtain ret b where b: "pages_undup (PNO2PA (pte_paddr ?e)) (phys s) = Some (ret, b)"
    using w by (auto simp: do_wp_page_def Let_def hoare_simps)
  note B = pages_undup_keeps[OF D(1) b]
  obtain e' b' m where s': "s' = set_pte (t, PX 0 va) e' (s\<lparr>phys := b', bytes := m\<rparr>)"
    and b': "buddy_inv b'" "mem_end b' \<le> 2 ^ 56" "live_blocks (phys s) \<subseteq> live_blocks b'"
    and e': "\<And>p. grants ?e p \<Longrightarrow> grants e' p" "grants e' perm"
  proof (cases "ret = 1")
    case True
    have s1: "s' = set_pte (t, PX 0 va) (?e OR (perm AND 0xff)) (s\<lparr>phys := b, bytes := bytes s\<rparr>)"
      using w b True by (auto simp: do_wp_page_def Let_def hoare_simps set_pte_def)
    have "grants (?e OR (perm AND 0xff)) perm" "\<And>p. grants ?e p \<Longrightarrow> grants (?e OR (perm AND 0xff)) p"
    proof -
      have "perm AND 0xff = take_bit 8 perm" by (simp add: take_bit_eq_mask mask_eq_exp_minus_1)
      then show "grants (?e OR (perm AND 0xff)) perm" using perm_bits[OF t]
        by (auto simp: grants_bits bit_or_iff bit_take_bit_iff)
      show "grants ?e p \<Longrightarrow> grants (?e OR (perm AND 0xff)) p" for p by (auto simp: grants_bits bit_or_iff)
    qed
    then show ?thesis by (intro that[OF s1]) (use B D(2) in auto)
  next
    case False
    obtain q b' where a: "pages_alloc 1 b = Some (q, b')"
      and s': "s' = set_pte (t, PX 0 va) (PA2PTE q OR (perm OR pte_perm ?e))
        (s\<lparr>phys := b', bytes := memcpy (bytes s) q (PNO2PA (pte_paddr ?e)) PGSIZE\<rparr>)"
      using w b False by (auto simp: do_wp_page_def Let_def hoare_simps)
    have A: "buddy_inv b'" "live_blocks b \<subseteq> live_blocks b'" "mem_end b' \<le> 2 ^ 56"
      using alloc_keeps[OF _ a] B D(2) by auto
    have "grants (PA2PTE q OR (perm OR pte_perm ?e)) perm" using perm_bits[OF t]
      by (auto simp: grants_bits bit_or_iff)
    moreover have "grants ?e p \<Longrightarrow> grants (PA2PTE q OR (perm OR pte_perm ?e)) p" for p
      by (auto simp: grants_bits bit_or_iff pte_perm_def bit_take_bit_iff)
    ultimately show ?thesis by (intro that[OF s']) (use A B in auto)
  qed
  note P = tree_wf_phys[OF wf b', of m]
  have lf: "leaf_table (s\<lparr>phys := b', bytes := m\<rparr>) root va = Some t" using P(3) leaf by simp
  note L = set_leaf[OF P(1) lf va, where e = e']
  have look: "lookup s' root vb = (if drop_bit 12 vb = drop_bit 12 va then e' else lookup s root vb)" if "vb < MAXVA" for vb
    unfolding s' using L(3)[OF that] P(2) by simp
  have "grants (lookup s' root vb) p" if "vb < MAXVA" "grants (lookup s root vb) p" for vb p
    using that look[OF that(1)] e'(1) same_page_lookup[of vb va s root] le by auto
  moreover have "lookup s' root vb = lookup s root vb \<or> drop_bit 12 vb = drop_bit 12 va" if "vb < MAXVA" for vb
    using look[OF that] by auto
  moreover have "tree_wf s' root" "grants (lookup s' root va) perm" using L(1) look[OF va] e'(2) s' by auto
  ultimately show ?thesis by blast
qed

lemma do_no_page_grants:
  assumes wf: "tree_wf s root" and va: "va < MAXVA" "PGSIZE dvd unat va" and t: "perm < 256"
    and root: "mm_pagetable mm = root"
    and w: "do_no_page rd mm vma va perm s = Some (r, s')"
  shows "tree_wf s' root \<and> grants (lookup s' root va) perm \<and>
    (\<forall>vb < MAXVA. \<forall>p. grants (lookup s root vb) p \<longrightarrow> p \<noteq> 0 \<longrightarrow> pte_valid (lookup s root vb) \<longrightarrow>
       grants (lookup s' root vb) p) \<and>
    (\<forall>vb < MAXVA. lookup s' root vb = lookup s root vb \<or>
       pte_valid (lookup s' root vb) \<and> grants (lookup s' root vb) perm)"
proof -
  note D = tree_wfD[OF wf]
  obtain q b ret s1 m where a: "pages_alloc 1 (phys s) = Some (q, b)"
    and mp: "mappages root va 4096 q perm (s\<lparr>phys := b\<rparr>) = Some (ret, s1)"
    and s': "s' = s1\<lparr>phys := phys s1, bytes := m\<rparr>"
    using w root by (auto simp: do_no_page_def hoare_simps split: option.splits) (metis vm.surjective vm.update_convs(2,3))+
  note A = alloc_keeps[OF D(1) a D(2)]
  have wf1: "tree_wf (s\<lparr>phys := b\<rparr>) root" "\<And>vb. lookup (s\<lparr>phys := b\<rparr>) root vb = lookup s root vb"
    using tree_wf_phys[OF wf, of b "bytes s"] A by simp_all
  have lim: "unat va + 1 * PGSIZE \<le> 2 ^ 38"
  proof -
    obtain k where "unat va = PGSIZE * k" using va(2) by blast
    moreover have "unat va < 0x4000000000" using va(1) by (simp add: word_less_nat_alt)
    ultimately show ?thesis by simp
  qed
  have mp': "mappages root va (word_of_nat (1 * PGSIZE)) q perm (s\<lparr>phys := b\<rparr>) = Some (ret, s1)" using mp by simp
  have M: "tree_wf s1 root" "\<And>vb. vb < MAXVA \<Longrightarrow> lookup s1 root vb =
      (if va \<le> vb \<and> unat vb < unat va + 1 * PGSIZE
       then map_entry va (q + (unat vb - unat va) div PGSIZE * PGSIZE) perm else lookup s root vb)"
    "\<And>vb. vb < MAXVA \<Longrightarrow> va \<le> vb \<Longrightarrow> unat vb < unat va + 1 * PGSIZE \<Longrightarrow> \<not> pte_valid (lookup s root vb)"
    using mappages_ok[OF wf1(1) mp' va(2) lim] wf1(2) by auto
  have "tree_wf s' root" "\<And>vb. lookup s' root vb = lookup s1 root vb"
    unfolding s' using tree_wf_phys[OF M(1), of "phys s1" m] tree_wfD(1,2)[OF M(1)] by simp_all
  moreover have "grants (lookup s1 root va) perm" using M(2)[OF va(1)] map_entry_grants[OF t] by simp
  ultimately show ?thesis using M(2,3) valid_map_entry map_entry_grants[OF t] by (auto simp del: mult_1)
qed

text \<open>Every entry is valid when it grants anything: the kernel never sets permission bits alone.\<close>

definition perms_valid :: "vm \<Rightarrow> nat \<Rightarrow> bool" where
  "perms_valid s root \<longleftrightarrow> (\<forall>va < MAXVA. pte_perm (lookup s root va) \<noteq> 0 \<longrightarrow> pte_valid (lookup s root va))"

lemma perms_valid_grants:
  assumes "perms_valid s root" "va < MAXVA" "grants (lookup s root va) p" "p \<noteq> 0"
  shows "pte_valid (lookup s root va)"
  using assms by (auto simp: perms_valid_def grants_def)

lemma valid_iff_grants: "pte_valid e \<longleftrightarrow> grants e 1"
  by (auto simp: pte_valid_def grants_bits bit_1_iff)

definition page_rel :: "vm \<Rightarrow> vm \<Rightarrow> nat \<Rightarrow> bool" where
  "page_rel s s' root \<longleftrightarrow> tree_wf s' root \<and> perms_valid s' root \<and>
     (\<forall>vb < MAXVA. \<forall>p. grants (lookup s root vb) p \<longrightarrow> grants (lookup s' root vb) p)"

lemma page_rel_trans: "page_rel s s1 root \<Longrightarrow> page_rel s1 s2 root \<Longrightarrow> page_rel s s2 root"
  by (auto simp: page_rel_def)

lemma page_rel_refl: "tree_wf s root \<Longrightarrow> perms_valid s root \<Longrightarrow> page_rel s s root"
  by (auto simp: page_rel_def)

lemma wp_page_rel:
  assumes wf: "tree_wf s root" "perms_valid s root" and leaf: "leaf_table s root va = Some t"
    and va: "va < MAXVA" and p: "perm < 256" and v: "pte_valid (get_pte (t, PX 0 va) s)"
    and w: "do_wp_page (t, PX 0 va) perm s = Some (r, s')"
  shows "page_rel s s' root \<and> grants (lookup s' root va) perm"
proof -
  note W = do_wp_page_grants[OF wf(1) leaf va p w]
  have "pte_valid (lookup s root va)" using v leaf by (simp add: lookup_def get_pte_def)
  then have "pte_valid (lookup s' root va)" using W va by (simp add: valid_iff_grants)
  then have "pte_valid (lookup s' root vb)" if "drop_bit 12 vb = drop_bit 12 va" for vb
    using same_page_lookup[OF that, of s' root] by simp
  then have "perms_valid s' root" using W wf(2) unfolding perms_valid_def by metis
  then show ?thesis using W by (simp add: page_rel_def)
qed

lemma no_page_rel:
  assumes wf: "tree_wf s root" "perms_valid s root" and va: "va < MAXVA" "PGSIZE dvd unat va"
    and p: "perm < 256" and root: "mm_pagetable mm = root"
    and w: "do_no_page rd mm vma va perm s = Some (r, s')"
  shows "page_rel s s' root \<and> grants (lookup s' root va) perm"
proof -
  note W = do_no_page_grants[OF wf(1) va p root w]
  have "perms_valid s' root" using W wf(2) unfolding perms_valid_def by metis
  moreover have "grants (lookup s' root vb) q" if "vb < MAXVA" "grants (lookup s root vb) q" for vb q
  proof (cases "q = 0")
    case False
    then show ?thesis using W perms_valid_grants[OF wf(2) that] that by blast
  qed (simp add: grants_def)
  ultimately show ?thesis using W by (simp add: page_rel_def)
qed

lemma walk_page_rel:
  assumes wf: "tree_wf s root" "perms_valid s root" and w: "walk root va True s = Some (r, s')"
  obtains u where "r = Some (u, PX 0 va)" "leaf_table s' root va = Some u" "va < MAXVA" "page_rel s s' root"
    "lookup s' root va = get_pte (u, PX 0 va) s'"
proof -
  obtain u where u: "r = Some (u, PX 0 va)" "leaf_table s' root va = Some u" "tree_wf s' root"
    "\<And>vb. lookup s' root vb = lookup s root vb" "va < MAXVA"
    using walk_alloc_ok[OF wf(1) w] by auto
  have "page_rel s s' root" using u(3,4) wf(2) by (simp add: page_rel_def perms_valid_def)
  moreover have "lookup s' root va = get_pte (u, PX 0 va) s'" using u(2) by (simp add: lookup_def get_pte_def)
  ultimately show ?thesis using that u by blast
qed

text \<open>The loop: from a page boundary on, every page that it passes ends up mapped with at least the
  wanted permissions, nothing else loses a permission, and the tables stay a tree.\<close>

lemma verify_pages_ok:
  assumes "verify_pages rd mm vma a e perm s = Some (r, s')"
    and "tree_wf s (mm_pagetable mm)" "perms_valid s (mm_pagetable mm)" "PGSIZE dvd unat a" "perm < 256"
  shows "r = 0 \<and> page_rel s s' (mm_pagetable mm) \<and>
    (\<forall>va. a \<le> va \<longrightarrow> va < e \<longrightarrow> va < MAXVA \<and> grants (lookup s' (mm_pagetable mm) va) perm)"
  using assms
proof (induction rd mm vma a e perm s arbitrary: r s' rule: verify_pages.induct)
  case (1 rd mm vma a e perm s)
  let ?root = "mm_pagetable mm"
  show ?case
  proof (cases "a < e")
    case False
    then show ?thesis using 1(3-) page_rel_refl[of s ?root] by (auto simp: verify_pages.simps[of rd mm vma a])
  next
    case True
    obtain w s1 where w: "walk ?root a True s = Some (w, s1)"
      using 1(3) True by (auto simp: verify_pages.simps[of rd mm vma a] hoare_simps)
    obtain u where u: "w = Some (u, PX 0 a)" "leaf_table s1 ?root a = Some u" "a < MAXVA" "page_rel s s1 ?root"
      "lookup s1 ?root a = get_pte (u, PX 0 a) s1"
      using walk_page_rel[OF 1(4,5) w] by blast
    have wf1: "tree_wf s1 ?root" "perms_valid s1 ?root" using u(4) by (auto simp: page_rel_def)
    have an: "unat (a + 4096) = unat a + PGSIZE"
      using u(3) by (simp add: word_less_nat_alt unat_word_ariths)
    then have al: "PGSIZE dvd unat (a + 4096)" using 1(6) by simp
    obtain s2 where s2: "page_rel s1 s2 ?root" "grants (lookup s2 ?root a) perm"
      and rec: "r = 0 \<and> page_rel s2 s' ?root \<and>
        (\<forall>va. a + 4096 \<le> va \<longrightarrow> va < e \<longrightarrow> va < MAXVA \<and> grants (lookup s' ?root va) perm)"
    proof (cases "pte_perm (get_pte (u, PX 0 a) s1) AND perm = perm")
      case g: True
      have v: "verify_pages rd mm vma (a + 4096) e perm s1 = Some (r, s')"
        using 1(3) True w u(1) g by (simp add: verify_pages.simps[of rd mm vma a] Let_def)
      show ?thesis
        by (rule that[OF page_rel_refl[OF wf1]])
          (use 1(1)[OF True w refl u(1) refl g v wf1 al 1(7)] g u(5) in \<open>auto simp: grants_def\<close>)
    next
      case g: False
      obtain x s2 where x: "(if pte_valid (get_pte (u, PX 0 a) s1) then do_wp_page (u, PX 0 a) perm s1
          else do_no_page rd mm vma a perm s1) = Some (x, s2)"
        and v: "verify_pages rd mm vma (a + 4096) e perm s2 = Some (r, s')"
        using 1(3) True w u(1) g by (auto simp: verify_pages.simps[of rd mm vma a] Let_def hoare_simps)
      have R: "page_rel s1 s2 ?root \<and> grants (lookup s2 ?root a) perm"
        using x wp_page_rel[OF wf1 u(2,3) 1(7)] no_page_rel[OF wf1 u(3) 1(6,7) refl]
        by (auto split: if_splits)
      then have wf2: "tree_wf s2 ?root" "perms_valid s2 ?root" by (auto simp: page_rel_def)
      show ?thesis
        by (rule that[of s2]) (use R 1(2)[OF True w refl u(1) refl g x refl v wf2 al 1(7)] in auto)
    qed
    have "va < MAXVA \<and> grants (lookup s' ?root va) perm" if va: "a \<le> va" "va < e" for va
    proof (cases "a + 4096 \<le> va")
      case False
      have n: "unat a \<le> unat va" "unat va < unat a + PGSIZE"
        using va(1) False an by (auto simp: word_le_nat_alt)
      obtain k where k: "unat a = PGSIZE * k" using 1(6) by blast
      have "unat va div PGSIZE = unat a div PGSIZE"
        using n k by (metis div_nat_eqI less_eq_nat.simps(1) mult.commute mult_Suc nonzero_mult_div_cancel_left not_gr_zero add.commute zero_neq_numeral)
      then have same: "drop_bit 12 va = drop_bit 12 a" by (simp only: word_unat_eq_iff unat_drop_bit) simp
      have "unat a < 2 ^ 38" using u(3) by (simp add: word_less_nat_alt)
      then have "unat va < 2 ^ 38" using n(2) k by simp
      then have "va < MAXVA" by (simp add: word_less_nat_alt)
      then show ?thesis using s2(2) rec u(3) same_page_lookup[OF same, of s' ?root] by (simp add: page_rel_def)
    qed (use rec va in blast)
    then show ?thesis using rec u(4) s2(1) page_rel_trans by blast
  qed
qed

lemma unat_PGROUNDDOWN_le: "PGROUNDDOWN64 a \<le> a" "PGSIZE dvd unat (PGROUNDDOWN64 a)"
  by (simp_all add: word_le_nat_alt unat_PGROUNDDOWN64)

lemma verify_area_cases:
  assumes w: "verify_area rd mm vaddr n perm s = Some (r, s')"
    and wf: "tree_wf s (mm_pagetable mm)" "perms_valid s (mm_pagetable mm)" and p: "perm < 256"
  obtains (refused) "r = -1" "s' = s"
      "\<And>v. fst (search_vmareas mm vaddr n) = Some v \<Longrightarrow> perm AND vm_flags v \<noteq> perm"
  | (granted) v where "r = 0" "fst (search_vmareas mm vaddr n) = Some v" "perm AND vm_flags v = perm"
      "page_rel s s' (mm_pagetable mm)"
      "\<And>va. PGROUNDDOWN64 vaddr \<le> va \<Longrightarrow> va < vaddr + n \<Longrightarrow>
         va < MAXVA \<and> grants (lookup s' (mm_pagetable mm) va) perm"
proof -
  obtain vo f where s: "search_vmareas mm vaddr n = (vo, f)" by fastforce
  show thesis
  proof (cases vo)
    case None
    then show thesis using refused w s by (auto simp: verify_area_def)
  next
    case (Some v)
    then have f: "f = vm_flags v" using s by (auto simp: search_vmareas_def Let_def split: option.splits)
    show thesis
    proof (cases "perm AND f = perm")
      case True
      then have "verify_pages rd mm v (PGROUNDDOWN64 vaddr) (vaddr + n) perm s = Some (r, s')"
        using w s Some by (simp add: verify_area_def)
      note V = verify_pages_ok[OF this wf unat_PGROUNDDOWN_le(2) p]
      show thesis by (rule granted[of v]) (use V s Some f True in auto)
    next
      case False
      then show thesis using refused w s Some f by (auto simp: verify_area_def)
    qed
  qed
qed

text \<open>A length that takes the end of the range round to 0 passes the test against any first area,
  and then there is no page to check.\<close>

lemma verify_area_wraps:
  assumes "vm_area_list mm = v # l" "vm_start v \<le> vaddr" "perm AND vm_flags v = perm"
  shows "verify_area rd mm vaddr (- vaddr) perm s = Some (0, s)"
  using assms by (simp add: verify_area_def search_vmareas_def Let_def verify_pages.simps)

lemma do_no_page_anonymous:
  assumes wf: "tree_wf s (mm_pagetable mm)" and va: "va < MAXVA" "PGSIZE dvd unat va"
    and anon: "vm_inode vma = None" and w: "do_no_page rd mm vma va perm s = Some (r, s')"
  shows "bytes s' = bytes s"
proof -
  note D = tree_wfD[OF wf]
  obtain q b ret where a: "pages_alloc 1 (phys s) = Some (q, b)"
    and mp: "mappages (mm_pagetable mm) va 4096 q perm (s\<lparr>phys := b\<rparr>) = Some (ret, s')"
    using w anon by (auto simp: do_no_page_def hoare_simps)
  note A = alloc_keeps[OF D(1) a D(2)]
  have wf1: "tree_wf (s\<lparr>phys := b\<rparr>) (mm_pagetable mm)" using tree_wf_phys(1)[OF wf, of b "bytes s"] A by simp
  have lim: "unat va + 1 * PGSIZE \<le> 2 ^ 38"
  proof -
    obtain k where "unat va = PGSIZE * k" using va(2) by blast
    moreover have "unat va < 0x4000000000" using va(1) by (simp add: word_less_nat_alt)
    ultimately show ?thesis by simp
  qed
  have "mappages (mm_pagetable mm) va (word_of_nat (1 * PGSIZE)) q perm (s\<lparr>phys := b\<rparr>) = Some (ret, s')"
    using mp by simp
  from mappages_ok[OF wf1 this va(2) lim] show ?thesis by simp
qed

section \<open>The list stays sorted\<close>

text \<open>\<open>add_vm_area\<close> on aligned bounds succeeds exactly when the new area overlaps no old one; then the
  list stays sorted and free of overlaps, holds the new area besides the old ones, and the count grows by one.\<close>

theorem add_vm_area_keeps_areas_disjoint:
  assumes "areas_wf (vm_area_list mm)" "va_start < va_end" "OFFSETPAGE va_start = 0" "OFFSETPAGE va_end = 0"
    "new = new_vmarea_struct va_start va_end flags pgoff inode filesz"
  shows "(add_vm_area mm va_start va_end flags pgoff inode filesz \<noteq> None
      \<longleftrightarrow> (\<forall>v\<in>set (vm_area_list mm). \<not> overlap new v)) \<and>
    (\<forall>mm'. add_vm_area mm va_start va_end flags pgoff inode filesz = Some mm' \<longrightarrow>
       areas_wf (vm_area_list mm') \<and> mset (vm_area_list mm') = add_mset new (mset (vm_area_list mm)) \<and>
       map_count mm' = map_count mm + 1)"
proof -
  have b: "vm_start new < vm_end new" using assms(2) by (simp add: assms(5) new_vmarea_struct_def)
  have "add_vm_area mm va_start va_end flags pgoff inode filesz
    = map_option (\<lambda>l. mm\<lparr>vm_area_list := l, map_count := map_count mm + 1\<rparr>) (insert_area new (vm_area_list mm))"
    using assms(3,4) by (cases "insert_area new (vm_area_list mm)") (simp_all add: add_vm_area_def assms(5))
  then show ?thesis
    using insert_area_None[OF assms(1) b] insert_area_wf[OF assms(1) b] insert_area_mset[of new "vm_area_list mm"] by auto
qed

lemma add_vm_area_keeps_areas_disjoint_witness:
  "\<exists>mm. add_vm_area \<lparr>vm_area_list = [], mm_pagetable = 0, mm_count = 1, map_count = 0, stack_maxsize = 32,
      start_ustack = 0, mmap_base = 0, start_brk = 0, brk = 0\<rparr> 0x1000 0x2000 7 0 None 0 = Some mm \<and>
    areas_wf (vm_area_list mm)"
proof -
  let ?mm = "\<lparr>vm_area_list = [], mm_pagetable = 0, mm_count = 1, map_count = 0, stack_maxsize = 32,
      start_ustack = 0, mmap_base = 0, start_brk = 0, brk = 0\<rparr>"
  have o: "OFFSETPAGE 0x1000 = 0" "OFFSETPAGE 0x2000 = 0" by (simp_all add: OFFSETPAGE_def)
  have "areas_wf (vm_area_list ?mm)" by (simp add: areas_wf_def)
  from add_vm_area_keeps_areas_disjoint[OF this _ o refl, of 7 0 None 0] show ?thesis by auto
qed

end
