(* ===== verification/Demand_Paging.thy ===== *)
theory Demand_Paging
  imports Vma
begin

text \<open>
  That memory management makes progress: the operations of the theories \<open>Buddy\<close>, \<open>Pagetable\<close> and
  \<open>Vma\<close> stop the machine when memory runs out, so what they promise holds only while there is
  memory. \<open>free_pages\<close> counts it; a walk takes at most two pages for its tables, and a page fault
  at most one page more. With these counts the operations return, on the states that a booted
  machine reaches.
\<close>

section \<open>Counting free pages\<close>

definition used_pages :: "buddy \<Rightarrow> nat set" where
  "used_pages s = \<Union> (pages ` used_blocks s)"

definition free_pages :: "buddy \<Rightarrow> nat" where
  "free_pages s = card ({..<npages s} - used_pages s)"

lemma get_power2_1: "get_power2 1 = Some 0"
  by (simp add: get_power2_def get_power2_from.simps)

text \<open>A single page can be had as long as one is free, and it takes exactly one.\<close>

lemma page_alloc_returns:
  assumes inv: "buddy_inv s" and f: "0 < free_pages s"
  shows "\<exists>p s'. pages_alloc 1 s = Some (p, s')"
proof -
  have "{..<npages s} - used_pages s \<noteq> {}"
  proof
    assume "{..<npages s} - used_pages s = {}"
    then have "free_pages s = 0" by (simp only: free_pages_def card.empty)
    then show False using f by simp
  qed
  then obtain i where i: "i < npages s" "i \<notin> used_pages s" by blast
  have "(\<Union>b\<in>free_blocks s \<union> used_blocks s. pages b) = {..<npages s}"
    using inv by (simp add: buddy_inv_def buddy_held_def tiling_def)
  then obtain j l where "(j, l) \<in> free_blocks s" using i by (auto simp: used_pages_def)
  then show ?thesis using pages_alloc_ok[OF inv _ _ get_power2_1] by fastforce
qed

lemma page_alloc_free_pages:
  assumes inv: "buddy_inv s" and a: "pages_alloc 1 s = Some (p, s')"
  shows "free_pages s = Suc (free_pages s')" "buddy_inv s'"
proof -
  obtain i l where A: "(i, l) \<in> free_blocks s" "buddy_inv s'"
    "used_blocks s' = insert (i, 0) (used_blocks s)" "npages s' = npages s"
    using pages_alloc_SomeD[OF inv a] get_power2_1 by auto
  have inv0: "buddy_held {} s" "buddy_held {} s'" using inv A(2) by (simp_all add: buddy_inv_def)
  have pages: "pages (i, 0) = {i}" by (auto simp: pages_def)
  have "pages (i, 0) \<inter> pages b = {}" if "b \<in> used_blocks s" for b
    by (rule held_used_new(1)[OF inv0(1) A(1) _ that]) (auto simp: pages_def)
  then have fresh: "i \<notin> used_pages s" unfolding used_pages_def pages by blast
  have "i < npages s" using buddy_held_used(5)[OF inv0(2), of i 0] A(3,4) by simp
  moreover have "used_pages s' = insert i (used_pages s)" by (simp add: used_pages_def A(3) pages)
  ultimately have "{..<npages s} - used_pages s = insert i ({..<npages s'} - used_pages s')"
    using fresh A(4) by auto
  moreover have "i \<notin> {..<npages s'} - used_pages s'" using \<open>used_pages s' = _\<close> by blast
  ultimately show "free_pages s = Suc (free_pages s')" unfolding free_pages_def by simp
  show "buddy_inv s'" by (rule A(2))
qed

lemma boot_buddy_free_pages: "free_pages boot_buddy = 31744"
  by (simp add: free_pages_def used_pages_def boot_buddy(3,5))

section \<open>Walks and mappings return\<close>

lemma walk_levels_0: "walk_levels t va alloc 0 s = Some (Some (t, PX 0 va), s)"
  by simp

lemma phys_set_pte [simp]: "phys (set_pte loc e s) = phys s"
  by (simp add: set_pte_def)

lemma walk_level1_returns:
  assumes wf: "tree_wf s root" and t: "child s root (PX 2 va) = Some t" and f: "1 \<le> free_pages (phys s)"
  shows "\<exists>r s'. walk_levels t va True (Suc 0) s = Some (r, s') \<and> free_pages (phys s) \<le> 1 + free_pages (phys s')"
proof (cases "child s t (PX 1 va)")
  case (Some c)
  then have "child s t (PX (Suc 0) va) = Some c" by simp
  from walk_levels_valid[OF this] show ?thesis by (simp add: walk_levels_0 del: walk_levels.simps)
next
  case None
  then have n: "child s t (PX (Suc 0) va) = None" by simp
  note D = tree_wfD[OF wf]
  obtain p b where a: "pages_alloc 1 (phys s) = Some (p, b)" using page_alloc_returns[OF D(1)] f by auto
  show ?thesis unfolding walk_levels_install[OF n] a using page_alloc_free_pages[OF D(1) a]
    by (simp add: walk_levels_0 del: walk_levels.simps)
qed

lemma walk_returns:
  assumes wf: "tree_wf s root" and va: "va < MAXVA" and f: "2 \<le> free_pages (phys s)"
  shows "\<exists>r s'. walk root va True s = Some (r, s') \<and> free_pages (phys s) \<le> 2 + free_pages (phys s')"
proof -
  have "\<exists>r s'. walk_levels root va True (Suc (Suc 0)) s = Some (r, s') \<and>
    free_pages (phys s) \<le> 2 + free_pages (phys s')"
  proof (cases "child s root (PX 2 va)")
    case (Some t)
    then have "child s root (PX (Suc (Suc 0)) va) = Some t" by (simp add: numeral_2_eq_2)
    from walk_levels_valid[OF this] walk_level1_returns[OF wf Some] f show ?thesis
      by (auto simp del: walk_levels.simps)
  next
    case None
    then have n: "child s root (PX (Suc (Suc 0)) va) = None" by (simp add: numeral_2_eq_2)
    note D = tree_wfD[OF wf]
    obtain p b where a: "pages_alloc 1 (phys s) = Some (p, b)" using page_alloc_returns[OF D(1)] f by auto
    note I = install_under_root[OF wf None a]
    note F = page_alloc_free_pages(1)[OF D(1) a]
    let ?s = "set_pte (root, PX 2 va) (PA2PTE p OR PTE_V) (s\<lparr>phys := b, pgt := (pgt s)(p := (\<lambda>_. 0))\<rparr>)"
    have "1 \<le> free_pages (phys ?s)" using F f by simp
    then obtain r s' where "walk_levels p va True (Suc 0) ?s = Some (r, s')"
      "free_pages (phys ?s) \<le> 1 + free_pages (phys s')"
      using walk_level1_returns[OF I(1,2)] by blast
    then show ?thesis unfolding walk_levels_install[OF n] a using F
      by (auto simp: numeral_2_eq_2 simp del: walk_levels.simps)
  qed
  then show ?thesis using va by (simp add: walk_def numeral_2_eq_2 del: walk_levels.simps)
qed

lemma mappages_loop_returns:
  assumes "tree_wf s root" and "unat a + n * PGSIZE \<le> 2 ^ 38" and "PGSIZE dvd unat a"
    and "2 * n \<le> free_pages (phys s)"
    and "\<And>vb. a \<le> vb \<Longrightarrow> unat vb < unat a + n * PGSIZE \<Longrightarrow> \<not> pte_valid (lookup s root vb)"
  shows "\<exists>r s'. mappages_loop root va a (a + word_of_nat (n * PGSIZE)) pa perm s = Some (r, s') \<and>
    free_pages (phys s) \<le> 2 * n + free_pages (phys s')"
  using assms
proof (induction n arbitrary: a pa perm s)
  case 0
  then show ?case by (subst mappages_loop.simps) simp
next
  case (Suc n)
  have ua: "unat (a + 4096) = unat a + PGSIZE"
    using Suc.prems(2) unat_plus_small[of a 4096] by simp
  have ul: "unat (a + word_of_nat (Suc n * PGSIZE)) = unat a + Suc n * PGSIZE"
    using Suc.prems(2) by (intro unat_plus_small) simp
  have lst: "a + word_of_nat (Suc n * PGSIZE) = a + 4096 + word_of_nat (n * PGSIZE)"
    by (simp add: algebra_simps)
  have lt: "a < a + word_of_nat (Suc n * PGSIZE)" unfolding word_less_nat_alt ul by simp
  have amax: "a < MAXVA" using Suc.prems(2) by (simp add: word_less_nat_alt)
  let ?perm = "if va \<ge> TRAMPOLINE then perm OR PTE_G else perm"
  obtain w s1 where w: "walk root a True s = Some (w, s1)" "free_pages (phys s) \<le> 2 + free_pages (phys s1)"
    using walk_returns[OF Suc.prems(1) amax] Suc.prems(4) by auto
  obtain t where t: "w = Some (t, PX 0 a)" "leaf_table s1 root a = Some t" "tree_wf s1 root"
    "\<forall>vb. lookup s1 root vb = lookup s root vb"
    using walk_alloc_ok[OF Suc.prems(1) w(1)] by blast
  let ?s2 = "set_pte (t, PX 0 a) (map_entry va pa perm) s1"
  have "lookup s1 root a = get_pte (t, PX 0 a) s1" using t(2) by (simp add: lookup_def get_pte_def)
  then have nv: "\<not> pte_valid (get_pte (t, PX 0 a) s1)" using Suc.prems(5)[of a] t(4) by simp
  note L = set_leaf[OF t(3,2) amax, where e = "map_entry va pa perm"]
  have "\<exists>r s'. mappages_loop root va (a + 4096) (a + 4096 + word_of_nat (n * PGSIZE)) (pa + PGSIZE) ?perm ?s2
      = Some (r, s') \<and> free_pages (phys ?s2) \<le> 2 * n + free_pages (phys s')"
  proof (rule Suc.IH[OF L(1)])
    show "unat (a + 4096) + n * PGSIZE \<le> 2 ^ 38" using ua Suc.prems(2) by simp
    show "PGSIZE dvd unat (a + 4096)" using ua Suc.prems(3) by simp
    show "2 * n \<le> free_pages (phys ?s2)" using w(2) Suc.prems(4) by simp
    fix vb assume vb: "a + 4096 \<le> vb" "unat vb < unat (a + 4096) + n * PGSIZE"
    have le: "unat a + PGSIZE \<le> unat vb" using vb(1) ua by (simp add: word_le_nat_alt)
    have vmax: "vb < MAXVA" using vb(2) ua Suc.prems(2) by (simp add: word_less_nat_alt)
    obtain q where q: "unat a = PGSIZE * q" using Suc.prems(3) by blast
    have "unat vb div PGSIZE \<noteq> unat a div PGSIZE"
    proof
      assume e: "unat vb div PGSIZE = unat a div PGSIZE"
      have "unat vb < PGSIZE * (unat vb div PGSIZE) + PGSIZE" by (simp add: dividend_less_times_div mult.commute)
      then show False using e q le by simp
    qed
    then have "drop_bit 12 vb \<noteq> drop_bit 12 a" by (simp add: word_unat_eq_iff unat_drop_bit)
    then have "lookup ?s2 root vb = lookup s root vb" using L(3)[OF vmax] t(4) by simp
    moreover have "a \<le> vb" "unat vb < unat a + Suc n * PGSIZE" using le vb(2) ua by (simp_all add: word_le_nat_alt)
    ultimately show "\<not> pte_valid (lookup ?s2 root vb)" using Suc.prems(5) by simp
  qed
  then obtain r s' where rest: "mappages_loop root va (a + 4096) (a + 4096 + word_of_nat (n * PGSIZE)) (pa + PGSIZE) ?perm ?s2
      = Some (r, s')" "free_pages (phys ?s2) \<le> 2 * n + free_pages (phys s')" by blast
  have "mappages_loop root va a (a + word_of_nat (Suc n * PGSIZE)) pa perm s = Some (r, s')"
    using lt w(1) t(1) nv rest(1) unfolding lst[symmetric]
    by (subst mappages_loop.simps) (simp add: map_entry_def Let_def)
  then show ?case using rest(2) w(2) by auto
qed

lemma mappages_returns:
  assumes wf: "tree_wf s root" and va: "PGSIZE dvd unat va" "unat va + n * PGSIZE \<le> 2 ^ 38" "0 < n"
    and f: "2 * n \<le> free_pages (phys s)"
    and un: "\<And>vb. va \<le> vb \<Longrightarrow> unat vb < unat va + n * PGSIZE \<Longrightarrow> \<not> pte_valid (lookup s root vb)"
  shows "\<exists>s'. mappages root va (word_of_nat (n * PGSIZE)) pa perm s = Some (0, s') \<and>
    free_pages (phys s) \<le> 2 * n + free_pages (phys s')"
proof -
  obtain r s' where m: "mappages root va (word_of_nat (n * PGSIZE)) pa perm s = Some (r, s')"
    "free_pages (phys s) \<le> 2 * n + free_pages (phys s')"
    using mappages_loop_returns[OF wf va(2,1) f un] unfolding mappages_loop_eq[OF va] by blast
  then show ?thesis using mappages_ok[OF wf m(1) va] by auto
qed

section \<open>A new address space\<close>

lemma uvmcreate_returns:
  assumes "buddy_inv (phys s)" "0 < free_pages (phys s)"
  shows "\<exists>root s'. uvmcreate s = Some (root, s')"
  using page_alloc_returns[OF assms] by (auto simp: uvmcreate_def pgt_zalloc_def)

lemma uvmcreate_ok:
  assumes inv: "buddy_inv (phys s)" "mem_end (phys s) \<le> 2 ^ 56" and u: "uvmcreate s = Some (root, s')"
  shows "tree_wf s' root" "lookup s' root va = 0" "free_pages (phys s) = Suc (free_pages (phys s'))"
    "bytes s' = bytes s"
proof -
  obtain b where a: "pages_alloc 1 (phys s) = Some (root, b)"
    and s': "s' = s\<lparr>phys := b, pgt := (pgt s)(root := (\<lambda>_. 0))\<rparr>"
    using u by (auto simp: uvmcreate_def pgt_zalloc_def hoare_simps)
  have c: "child s' root i = None" for i by (simp add: s' child_def pte_valid_def)
  then have t: "tables1 s' root = {}" "tables0 s' root = {}" by (auto simp: tables1_def tables0_def)
  obtain k where "live_blocks b = insert (root, k) (live_blocks (phys s))"
    using pa.alloc_live[OF inv(1) a] by blast
  then have "live_page s' root" by (auto simp: live_page_def s')
  then show "tree_wf s' root" unfolding tree_wf_def t
    using c alloc_keeps[OF inv(1) a inv(2)] by (simp add: s')
  show "lookup s' root va = 0" by (simp add: lookup_def leaf_table_def c)
  show "free_pages (phys s) = Suc (free_pages (phys s'))"
    using page_alloc_free_pages(1)[OF inv(1) a] by (simp add: s')
  show "bytes s' = bytes s" by (simp add: s')
qed

section \<open>Page faults return\<close>

lemma do_no_page_returns:
  assumes wf: "tree_wf s (mm_pagetable mm)" and va: "va < MAXVA" "PGSIZE dvd unat va"
    and un: "\<not> pte_valid (lookup s (mm_pagetable mm) va)" and f: "3 \<le> free_pages (phys s)"
    and rd: "\<And>i off l. vm_inode vma = Some i \<Longrightarrow> rd i off l \<noteq> None"
  shows "\<exists>s'. do_no_page rd mm vma va perm s = Some (0, s') \<and> free_pages (phys s) \<le> 3 + free_pages (phys s')"
proof -
  let ?root = "mm_pagetable mm"
  note D = tree_wfD[OF wf]
  obtain q b where a: "pages_alloc 1 (phys s) = Some (q, b)" using page_alloc_returns[OF D(1)] f by auto
  note A = alloc_keeps[OF D(1) a D(2)]
  note F = page_alloc_free_pages(1)[OF D(1) a]
  have wf1: "tree_wf (s\<lparr>phys := b\<rparr>) ?root" "\<And>vb. lookup (s\<lparr>phys := b\<rparr>) ?root vb = lookup s ?root vb"
    using tree_wf_phys[OF wf, of b "bytes s"] A by simp_all
  obtain k where k: "unat va = PGSIZE * k" using va(2) by blast
  have "unat va < 0x4000000000" using va(1) by (simp add: word_less_nat_alt)
  then have lim: "unat va + 1 * PGSIZE \<le> 2 ^ 38" using k by simp
  have same: "lookup s ?root vb = lookup s ?root va" if "va \<le> vb" "unat vb < unat va + 1 * PGSIZE" for vb
  proof -
    have "unat vb div PGSIZE = k" using that k
      by (intro div_nat_eqI) (simp_all add: word_le_nat_alt mult.commute)
    then have "drop_bit 12 vb = drop_bit 12 va" by (simp add: word_unat_eq_iff unat_drop_bit k)
    then show ?thesis by (rule same_page_lookup)
  qed
  have un1: "\<not> pte_valid (lookup (s\<lparr>phys := b\<rparr>) ?root vb)" if "va \<le> vb" "unat vb < unat va + 1 * PGSIZE" for vb
    using un wf1(2)[of vb] same[OF that] by simp
  have f1: "2 * 1 \<le> free_pages (phys (s\<lparr>phys := b\<rparr>))" using F f by simp
  obtain s1 where m: "mappages ?root va (word_of_nat (1 * PGSIZE)) q perm (s\<lparr>phys := b\<rparr>) = Some (0, s1)"
    "free_pages b \<le> 2 * 1 + free_pages (phys s1)"
    using mappages_returns[OF wf1(1) va(2) lim _ f1 un1, of q perm] by auto
  show ?thesis
  proof (cases "vm_inode vma")
    case None
    then show ?thesis using a m F by (simp add: do_no_page_def)
  next
    case (Some inode)
    have o: "OFFSETPAGE va = 0" using va(2) by (simp add: unat_OFFSETPAGE word_unat_eq_iff)
    have "\<exists>m'. true_load_segment rd vma inode va q (bytes s1) = Some m'"
    proof -
      define g where "g off l = the (rd inode off l)" for off l
      have "rd inode = (\<lambda>off l. Some (g off l))" using rd[OF Some] by (auto simp: g_def fun_eq_iff)
      then show ?thesis using o by (auto simp: true_load_segment_def Let_def)
    qed
    then obtain m' where "true_load_segment rd vma inode va q (bytes s1) = Some m'" by blast
    then show ?thesis using a m F Some by (simp add: do_no_page_def)
  qed
qed

text \<open>What only allocates keeps the allocator's invariant and every allocated page.\<close>

definition alloc_only :: "vm \<Rightarrow> vm \<Rightarrow> bool" where
  "alloc_only s s' \<longleftrightarrow> buddy_inv (phys s') \<and> mem_end (phys s') \<le> 2 ^ 56 \<and>
     live_blocks (phys s) \<subseteq> live_blocks (phys s')"

lemma alloc_only_live: "alloc_only s s' \<Longrightarrow> live_page s p \<Longrightarrow> live_page s' p"
  by (auto simp: alloc_only_def live_page_def)

lemma alloc_only_trans: "alloc_only s s1 \<Longrightarrow> alloc_only s1 s' \<Longrightarrow> alloc_only s s'"
  by (auto simp: alloc_only_def)

lemma walk_levels_alloc_only:
  assumes "buddy_inv (phys s)" "mem_end (phys s) \<le> 2 ^ 56" "walk_levels t va al l s = Some (r, s')"
  shows "alloc_only s s'"
  using assms
proof (induction l arbitrary: t s)
  case 0
  then show ?case by (simp add: alloc_only_def)
next
  case (Suc l)
  let ?loc = "(t, PX (Suc l) va)"
  show ?case
  proof (cases "pte_valid (get_pte ?loc s) \<or> \<not> al")
    case True
    then show ?thesis using Suc by (auto simp: Let_def alloc_only_def split: if_splits)
  next
    case False
    then obtain p b where a: "pages_alloc 1 (phys s) = Some (p, b)"
      and w: "walk_levels p va al l (set_pte ?loc (PA2PTE p OR PTE_V) (s\<lparr>phys := b, pgt := (pgt s)(p := (\<lambda>_. 0))\<rparr>)) = Some (r, s')"
      using Suc.prems(3) by (auto simp: Let_def pgt_zalloc_def hoare_simps)
    note A = alloc_keeps[OF Suc.prems(1) a Suc.prems(2)]
    show ?thesis using Suc.IH[OF _ _ w] A by (auto simp: alloc_only_def)
  qed
qed

lemma walk_alloc_only:
  assumes "buddy_inv (phys s)" "mem_end (phys s) \<le> 2 ^ 56" "walk root va al s = Some (r, s')"
  shows "alloc_only s s'"
  by (rule walk_levels_alloc_only[OF assms(1,2), where l = 2]) (use assms(3) in \<open>auto simp: walk_def hoare_simps\<close>)

lemma mappages_loop_alloc_only:
  assumes "mappages_loop root va a lst pa perm s = Some (r, s')" "buddy_inv (phys s)" "mem_end (phys s) \<le> 2 ^ 56"
  shows "alloc_only s s'"
  using assms
proof (induction root va a lst pa perm s rule: mappages_loop.induct)
  case (1 root va a lst pa perm s)
  show ?case
  proof (cases "a < lst")
    case False
    then show ?thesis using 1(2-) by (simp add: mappages_loop.simps[of root va a] alloc_only_def)
  next
    case True
    obtain w s1 where w: "walk root a True s = Some (w, s1)"
      using 1(2) True by (auto simp: mappages_loop.simps[of root va a] hoare_simps)
    note K = walk_alloc_only[OF 1(3,4) w]
    show ?thesis
    proof (cases w)
      case None
      then show ?thesis using 1(2) True w K by (simp add: mappages_loop.simps[of root va a])
    next
      case (Some loc)
      let ?perm = "if va \<ge> TRAMPOLINE then perm OR PTE_G else perm"
      let ?e = "PA2PTE pa OR ?perm OR PTE_V"
      let ?s2 = "set_pte loc (if va \<ge> TRAPFRAME then ?e OR PTE_unrelease else ?e) s1"
      have v: "\<not> pte_valid (get_pte loc s1)"
        and m: "mappages_loop root va (a + 4096) lst (pa + PGSIZE) ?perm ?s2 = Some (r, s')"
        using 1(2) True w Some by (auto simp: mappages_loop.simps[of root va a] hoare_simps Let_def)
      have "alloc_only ?s2 s'"
        by (rule 1(1)[OF True w refl Some _ refl refl refl m]) (use v K in \<open>auto simp: alloc_only_def cassert_def\<close>)
      then show ?thesis using K by (auto simp: alloc_only_def)
    qed
  qed
qed

lemma mappages_alloc_only:
  assumes "mappages root va n pa perm s = Some (r, s')" "buddy_inv (phys s)" "mem_end (phys s) \<le> 2 ^ 56"
  shows "alloc_only s s'"
  using assms(1) mappages_loop_alloc_only[OF _ assms(2,3)] by (auto simp: mappages_def hoare_simps Let_def)

lemma do_no_page_alloc_only:
  assumes "do_no_page rd mm vma va perm s = Some (r, s')" "buddy_inv (phys s)" "mem_end (phys s) \<le> 2 ^ 56"
  shows "alloc_only s s'"
proof -
  obtain q b ret s1 where a: "pages_alloc 1 (phys s) = Some (q, b)"
    and mp: "mappages (mm_pagetable mm) va 4096 q perm (s\<lparr>phys := b\<rparr>) = Some (ret, s1)"
    and s': "phys s' = phys s1"
    using assms(1) by (auto simp: do_no_page_def hoare_simps split: option.splits)
  note A = alloc_keeps[OF assms(2) a assms(3)]
  have "alloc_only (s\<lparr>phys := b\<rparr>) s1" by (rule mappages_alloc_only[OF mp]) (use A in auto)
  then show ?thesis using A s' by (auto simp: alloc_only_def)
qed

text \<open>A write fault on an allocated page returns while one page is free.\<close>

lemma do_wp_page_returns:
  assumes inv: "buddy_inv (phys s)" "mem_end (phys s) \<le> 2 ^ 56"
    and l: "live_page s (PNO2PA (pte_paddr (get_pte loc s)))" and f: "1 \<le> free_pages (phys s)"
  shows "\<exists>s'. do_wp_page loc perm s = Some (0, s') \<and> free_pages (phys s) \<le> 1 + free_pages (phys s') \<and> alloc_only s s'"
proof -
  let ?p = "PNO2PA (pte_paddr (get_pte loc s))"
  obtain i k where i: "(i, k) \<in> used_blocks (phys s)" "?p = page_addr (phys s) i"
    using l by (auto simp: live_page_def live_blocks_def)
  obtain b where u: "pages_undup ?p (phys s) = Some (uint (page_refs (phys s) i), b)" "buddy_inv b"
    "used_blocks b = used_blocks (phys s)" "npages b = npages (phys s)" "mem_start b = mem_start (phys s)"
    "mem_end b = mem_end (phys s)"
    using pages_undup_ok[OF inv(1) i(1)] i(2) by auto
  have lb: "live_blocks b = live_blocks (phys s)" using pages_undup_keeps[OF inv(1) u(1)] by simp
  have fp: "free_pages b = free_pages (phys s)" using u(3,4) by (simp add: free_pages_def used_pages_def)
  show ?thesis
  proof (cases "uint (page_refs (phys s) i) = 1")
    case True
    then show ?thesis using u(1,2,6) lb fp inv(2) by (simp add: do_wp_page_def Let_def alloc_only_def)
  next
    case False
    obtain q b' where a: "pages_alloc 1 b = Some (q, b')" using page_alloc_returns[OF u(2)] fp f by auto
    have e: "mem_end b \<le> 2 ^ 56" using u(6) inv(2) by simp
    show ?thesis using False u(1) a lb fp alloc_keeps[OF u(2) a e] page_alloc_free_pages(1)[OF u(2) a]
      by (simp add: do_wp_page_def Let_def alloc_only_def)
  qed
qed


text \<open>A range of at most \<open>n\<close> pages, whose pages that are mapped without granting lie on allocated
  frames: the loop of \<open>verify_area\<close> returns when five pages are free for each.\<close>

lemma verify_pages_returns:
  assumes "tree_wf s (mm_pagetable mm)" "perms_valid s (mm_pagetable mm)" "PGSIZE dvd unat a" "perm < 256"
    and "unat a + n * PGSIZE \<le> 2 ^ 38" "unat e \<le> unat a + n * PGSIZE" "5 * n \<le> free_pages (phys s)"
    and "\<And>vb. a \<le> vb \<Longrightarrow> vb < e \<Longrightarrow> pte_valid (lookup s (mm_pagetable mm) vb) \<Longrightarrow>
      \<not> grants (lookup s (mm_pagetable mm) vb) perm \<Longrightarrow>
      live_page s (PNO2PA (pte_paddr (lookup s (mm_pagetable mm) vb)))"
    and "\<And>i off l. vm_inode vma = Some i \<Longrightarrow> rd i off l \<noteq> None"
  shows "\<exists>s'. verify_pages rd mm vma a e perm s = Some (0, s')"
  using assms
proof (induction n arbitrary: a s)
  case 0
  then show ?case by (subst verify_pages.simps) (simp add: word_less_nat_alt)
next
  case (Suc n)
  let ?root = "mm_pagetable mm"
  note D = tree_wfD(1,2)[OF Suc.prems(1)]
  show ?case
  proof (cases "a < e")
    case False
    then show ?thesis by (subst verify_pages.simps) simp
  next
    case True
    have amax: "a < MAXVA" using Suc.prems(5) by (simp add: word_less_nat_alt)
    have ua: "unat (a + 4096) = unat a + PGSIZE"
      using Suc.prems(5) unat_plus_small[of a 4096] by simp
    have le: "a \<le> a + 4096" using ua by (simp add: word_le_nat_alt)
    obtain w s1 where w: "walk ?root a True s = Some (w, s1)" "free_pages (phys s) \<le> 2 + free_pages (phys s1)"
      using walk_returns[OF Suc.prems(1) amax] Suc.prems(7) by auto
    obtain u where u: "w = Some (u, PX 0 a)" "leaf_table s1 ?root a = Some u" "tree_wf s1 ?root"
      "\<And>vb. lookup s1 ?root vb = lookup s ?root vb"
      using walk_alloc_ok[OF Suc.prems(1) w(1)] by blast
    note K1 = walk_alloc_only[OF D w(1)] and D1 = tree_wfD(1,2)[OF u(3)]
    have look: "get_pte (u, PX 0 a) s1 = lookup s ?root a"
      using u(2) u(4)[of a] by (simp add: lookup_def get_pte_def)
    have pv: "perms_valid s1 ?root" using Suc.prems(2) u(4) by (simp add: perms_valid_def)
    have rest: "\<exists>s'. verify_pages rd mm vma (a + 4096) e perm s2 = Some (0, s')"
      if s2: "page_rel s1 s2 ?root" "free_pages (phys s1) \<le> 3 + free_pages (phys s2)" "alloc_only s1 s2"
        "\<And>vb. vb < MAXVA \<Longrightarrow> lookup s2 ?root vb = lookup s1 ?root vb \<or> grants (lookup s2 ?root vb) perm" for s2
    proof (rule Suc.IH[OF _ _ _ Suc.prems(4)])
      show "tree_wf s2 ?root" "perms_valid s2 ?root" using s2(1) by (auto simp: page_rel_def)
      show "PGSIZE dvd unat (a + 4096)" using ua Suc.prems(3) by simp
      show "rd i off l \<noteq> None" if "vm_inode vma = Some i" for i off l by (rule Suc.prems(9)[OF that])
      show "unat (a + 4096) + n * PGSIZE \<le> 2 ^ 38" "unat e \<le> unat (a + 4096) + n * PGSIZE"
        using ua Suc.prems(5,6) by simp_all
      show "5 * n \<le> free_pages (phys s2)" using s2(2) w(2) Suc.prems(7) by simp
      fix vb assume vb: "a + 4096 \<le> vb" "vb < e" "pte_valid (lookup s2 ?root vb)" "\<not> grants (lookup s2 ?root vb) perm"
      have "vb < MAXVA" using vb(2) Suc.prems(5,6) by (simp add: word_less_nat_alt)
      then have "lookup s2 ?root vb = lookup s ?root vb" using s2(4) u(4) vb(4) by metis
      then show "live_page s2 (PNO2PA (pte_paddr (lookup s2 ?root vb)))"
        using alloc_only_live[OF alloc_only_trans[OF K1 s2(3)]] Suc.prems(8)[of vb] vb le by auto
    qed
    have self: "page_rel s1 s1 ?root" "alloc_only s1 s1"
      using page_rel_refl[OF u(3) pv] D1 by (simp_all add: alloc_only_def)
    let ?loc = "(u, PX 0 a)"
    let ?fault = "if pte_valid (get_pte ?loc s1) then do_wp_page ?loc perm s1 else do_no_page rd mm vma a perm s1"
    show ?thesis
    proof (cases "pte_perm (get_pte ?loc s1) AND perm = perm")
      case g: True
      then have "verify_pages rd mm vma a e perm s = verify_pages rd mm vma (a + 4096) e perm s1"
        using True w(1) u(1) by (subst verify_pages.simps) (simp add: Let_def)
      then show ?thesis using rest[OF self(1) _ self(2)] by simp
    next
      case g: False
      have f: "3 \<le> free_pages (phys s1)" using w(2) Suc.prems(7) by simp
      obtain s2 where x: "?fault = Some (0, s2)" and s2: "page_rel s1 s2 ?root"
        "free_pages (phys s1) \<le> 3 + free_pages (phys s2)" "alloc_only s1 s2"
        "\<And>vb. vb < MAXVA \<Longrightarrow> lookup s2 ?root vb = lookup s1 ?root vb \<or> grants (lookup s2 ?root vb) perm"
      proof (cases "pte_valid (get_pte ?loc s1)")
        case v: True
        have "live_page s (PNO2PA (pte_paddr (lookup s ?root a)))"
          using Suc.prems(8)[of a] True v g look by (simp add: grants_def)
        then have l: "live_page s1 (PNO2PA (pte_paddr (get_pte ?loc s1)))" using alloc_only_live[OF K1] look by simp
        obtain s2 where s2: "do_wp_page ?loc perm s1 = Some (0, s2)" "free_pages (phys s1) \<le> 1 + free_pages (phys s2)"
          "alloc_only s1 s2"
          using do_wp_page_returns[OF D1 l, of perm] f by auto
        have R: "page_rel s1 s2 ?root" "grants (lookup s2 ?root a) perm"
          using wp_page_rel[OF u(3) pv u(2) amax Suc.prems(4) v s2(1)] by auto
        have "lookup s2 ?root vb = lookup s1 ?root vb \<or> grants (lookup s2 ?root vb) perm" if "vb < MAXVA" for vb
          using do_wp_page_grants[OF u(3,2) amax Suc.prems(4) s2(1)] that R(2) same_page_lookup[of vb a s2 ?root] by auto
        then show ?thesis using that[of s2] v s2 R(1) by auto
      next
        case nv: False
        then have nv1: "\<not> pte_valid (lookup s1 ?root a)" using look u(4)[of a] by simp
        obtain s2 where s2: "do_no_page rd mm vma a perm s1 = Some (0, s2)"
          "free_pages (phys s1) \<le> 3 + free_pages (phys s2)"
          using do_no_page_returns[where rd = rd and vma = vma, OF u(3) amax Suc.prems(3) nv1 f] Suc.prems(9) by blast
        show ?thesis
          using that[of s2] nv s2 no_page_rel[OF u(3) pv amax Suc.prems(3,4) refl s2(1)]
            do_no_page_alloc_only[OF s2(1) D1] do_no_page_grants[OF u(3) amax Suc.prems(3,4) refl s2(1)] by auto
      qed
      have "verify_pages rd mm vma a e perm s = verify_pages rd mm vma (a + 4096) e perm s2"
        using True w(1) u(1) g x by (subst verify_pages.simps) (simp add: Let_def)
      then show ?thesis using rest[OF s2] by simp
    qed
  qed
qed

section \<open>The machine right after boot\<close>

definition boot_vm :: vm where
  "boot_vm = \<lparr>pgt = (\<lambda>_ _. 0), bytes = (\<lambda>_. 0), phys = boot_buddy\<rparr>"

lemma boot_mem_end: "mem_end boot_buddy \<le> 2 ^ 56"
proof -
  have "geometry boot_buddy" using boot_buddy(2) by (simp add: buddy_inv_def buddy_held_def)
  then show ?thesis by (simp add: geometry_def boot_buddy(5,6))
qed

lemma boot_address_space:
  obtains root s where "uvmcreate boot_vm = Some (root, s)" "tree_wf s root" "perms_valid s root"
    "\<And>va. lookup s root va = 0" "free_pages (phys s) = 31743" "bytes s = (\<lambda>_. 0)"
proof -
  obtain root s where u: "uvmcreate boot_vm = Some (root, s)"
    using uvmcreate_returns[of boot_vm] boot_buddy(2) boot_buddy_free_pages by (auto simp: boot_vm_def)
  have i: "buddy_inv (phys boot_vm)" "mem_end (phys boot_vm) \<le> 2 ^ 56"
    using boot_buddy(2) boot_mem_end by (simp_all add: boot_vm_def)
  note U = uvmcreate_ok[OF i u]
  have "perms_valid s root" by (simp add: perms_valid_def U(2) pte_perm_def)
  then show ?thesis using that u U boot_buddy_free_pages by (auto simp: boot_vm_def)
qed

section \<open>What is mapped can be read\<close>

lemma OFFSETPAGE_aligned: "PGSIZE dvd unat va \<Longrightarrow> OFFSETPAGE va = 0"
  by (simp add: unat_OFFSETPAGE word_unat_eq_iff)

lemma pte_paddr_map_entry:
  assumes "pa < 2 ^ 56" "PGSIZE dvd pa" "perm < 256"
  shows "PNO2PA (pte_paddr (map_entry va pa perm)) = pa"
proof -
  have "take_bit 10 perm = perm"
    using assms(3) by (simp add: word_unat_eq_iff unat_take_bit word_less_nat_alt del: take_bit_eq_mod)
  have flags: "\<not> bit perm n" if "10 \<le> n" for n
    using that perm_bits[OF assms(3), of n] by linarith
  define f where "f = (if va \<ge> TRAMPOLINE then perm OR PTE_G else perm) OR PTE_V OR (if va \<ge> TRAPFRAME then PTE_unrelease else 0)"
  have e: "map_entry va pa perm = PA2PTE pa OR f"
    by (simp add: map_entry_def f_def Let_def or.assoc)
  have "take_bit 10 f = f" unfolding f_def
    using \<open>take_bit 10 perm = perm\<close> by (simp add: take_bit_or)
  then have "unat f = unat f mod 2 ^ 10" by (metis unat_take_bit)
  then have "f < 1024" by (simp add: word_less_nat_alt)
  then show ?thesis unfolding e by (rule PNO2PA_PA2PTE[OF assms(1,2)])
qed


text \<open>After \<open>mappages\<close> with user permission, the translation of each user address of the range is
  its own byte of the physical range.\<close>

lemma mapped_vaddr2paddr:
  assumes wf: "tree_wf s root" and m: "mappages root va (word_of_nat (n * PGSIZE)) pa perm s = Some (r, s')"
    and va: "PGSIZE dvd unat va" "unat va + n * PGSIZE \<le> 2 ^ 38" and pa: "PGSIZE dvd pa" "0 < pa" "pa + n * PGSIZE \<le> 2 ^ 56"
    and perm: "perm < 256" "bit perm 4" and k: "k < n * PGSIZE"
  shows "vaddr2paddr root (va + word_of_nat k) s' = Some (pa + k)"
proof -
  let ?vb = "va + word_of_nat k" and ?p = "pa + k div PGSIZE * PGSIZE"
  have n: "0 < n" using k by (cases n) simp_all
  have ub: "unat ?vb = unat va + k" using va(2) k by (intro unat_plus_small) simp
  have vb: "?vb < MAXVA" "va \<le> ?vb" "unat ?vb < unat va + n * PGSIZE"
    using ub va(2) k by (simp_all add: word_less_nat_alt word_le_nat_alt)
  have "lookup s' root ?vb = map_entry va (pa + (unat ?vb - unat va) div PGSIZE * PGSIZE) perm"
    using mappages_ok[OF wf m va n] vb by simp
  then have e: "lookup s' root ?vb = map_entry va ?p perm" using ub by simp
  have "k div PGSIZE < n" using k by (simp add: less_mult_imp_div_less)
  then have "k div PGSIZE * PGSIZE + PGSIZE \<le> n * PGSIZE" by (simp add: Suc_le_eq flip: mult_Suc)
  then have p: "PNO2PA (pte_paddr (map_entry va ?p perm)) = ?p"
    by (intro pte_paddr_map_entry) (use pa perm in auto)
  have u: "pte_valid (map_entry va ?p perm)" "pte_user (map_entry va ?p perm)"
    using perm(2) by (auto simp: pte_valid_def pte_user_def map_entry_def Let_def bit_or_iff bit_1_iff)
  have "walkaddr root ?vb s' = Some ?p" using walkaddr_lookup[OF vb(1), of root s'] e p u by simp
  moreover have "unat (OFFSETPAGE ?vb) = k mod PGSIZE"
  proof -
    obtain q where "unat va = PGSIZE * q" using va(1) by blast
    then show ?thesis unfolding unat_OFFSETPAGE ub by (simp add: mod_mult_self4)
  qed
  moreover have "k mod PGSIZE + ?p = pa + k" using mod_div_mult_eq[of k PGSIZE] by linarith
  ultimately show ?thesis using pa(2) by (simp add: vaddr2paddr_def)
qed

text \<open>The user's view of an address: its page is mapped for the user (and not to page 0), and its byte
  lies in the frame of its own page.\<close>

definition user_page :: "vm \<Rightarrow> nat \<Rightarrow> u64 \<Rightarrow> bool" where
  "user_page s root va \<longleftrightarrow> (let e = lookup s root va in pte_valid e \<and> pte_user e \<and> PNO2PA (pte_paddr e) \<noteq> 0)"

definition user_byte :: "vm \<Rightarrow> nat \<Rightarrow> u64 \<Rightarrow> nat" where
  "user_byte s root va = PNO2PA (pte_paddr (lookup s root va)) + unat va mod PGSIZE"

lemma vaddr2paddr_user:
  assumes "va < MAXVA"
  shows "vaddr2paddr root va s = Some (if user_page s root va then user_byte s root va else 0)"
  using assms by (simp add: vaddr2paddr_def walkaddr_lookup user_page_def user_byte_def Let_def unat_OFFSETPAGE)

lemma below_MAXVA: "unat va + len \<le> 2 ^ 38 \<Longrightarrow> k < len \<Longrightarrow> va + word_of_nat k < MAXVA"
  using unat_plus_small[of va k] by (simp add: word_less_nat_alt)

lemma walkaddr_round_down: "walkaddr t (PGROUNDDOWN64 va) s = walkaddr t va s"
  by (rule same_page_walkaddr) (rule drop_bit_PGROUNDDOWN64)

text \<open>\<open>copyin\<close> up to a page that is not there copies what lies before it and returns -1.\<close>

lemma copyin_stops:
  assumes "unat va + len \<le> 2 ^ 38" "d < len"
    and "\<forall>k<d. walkaddr t (va + word_of_nat k) s = Some (f k) \<and> f k \<noteq> 0"
    and "walkaddr t (va + word_of_nat d) s = Some 0"
    and "copyin t dst va d s = Some (0, s')"
  shows "copyin t dst va len s = Some (-1, s')"
  using assms
proof (induction d arbitrary: dst va s f len rule: less_induct)
  case (less d)
  show ?case
  proof (cases "d = 0")
    case True
    have "s' = s" using less.prems(5) True by (subst (asm) copyin.simps) simp
    then show ?thesis using less.prems(2,4) True by (subst copyin.simps) (simp add: walkaddr_round_down)
  next
    case False
    have q: "walkaddr t va s = Some (f 0)" "f 0 \<noteq> 0" using less.prems(3)[rule_format, of 0] False by simp_all
    have border: "PGSIZE \<le> unat va mod PGSIZE + d"
    proof (rule ccontr)
      assume "\<not> PGSIZE \<le> unat va mod PGSIZE + d"
      then have "walkaddr t (va + word_of_nat d) s = walkaddr t va s"
        using less.prems(1,2) by (intro same_page_walkaddr same_page_add) simp_all
      then show False using q less.prems(4) by simp
    qed
    let ?n = "chunk va d"
    have c: "chunk va len = ?n" "?n \<le> d" "0 < ?n"
      using border less.prems(2) chunk_bounds(1)[of d va] chunk_bounds(2)[of va d] False
      by (auto simp: chunk_def Let_def page_offset(2))
    let ?s1 = "s\<lparr>bytes := memcpy (bytes s) dst (f 0 + unat (va - PGROUNDDOWN64 va)) ?n\<rparr>"
    have nx: "PGROUNDDOWN64 va + 4096 = va + word_of_nat ?n"
      using chunk_next[of va len] less.prems(1,2) c by simp
    have step: "copyin t dst va len s = copyin t (dst + ?n) (va + word_of_nat ?n) (len - ?n) ?s1"
      using less.prems(2) q c nx by (subst copyin.simps) (simp add: Let_def walkaddr_round_down)
    have step': "copyin t (dst + ?n) (va + word_of_nat ?n) (d - ?n) ?s1 = Some (0, s')"
      using less.prems(5) False q c nx by (subst (asm) copyin.simps) (simp add: Let_def walkaddr_round_down)
    have u: "unat (va + word_of_nat ?n) = unat va + ?n"
      using less.prems(1,2) c by (intro unat_plus_small) simp
    show ?thesis unfolding step
    proof (rule less.IH[where f = "\<lambda>k. f (?n + k)"])
      show "d - ?n < d" using c by simp
      show "unat (va + word_of_nat ?n) + (len - ?n) \<le> 2 ^ 38" using u less.prems(1,2) c by simp
      show "d - ?n < len - ?n" using less.prems(2) c by simp
      show "\<forall>k<d - ?n. walkaddr t (va + word_of_nat ?n + word_of_nat k) ?s1 = Some (f (?n + k)) \<and> f (?n + k) \<noteq> 0"
        using less.prems(3) by (simp add: add.assoc flip: of_nat_add)
      show "walkaddr t (va + word_of_nat ?n + word_of_nat (d - ?n)) ?s1 = Some 0"
        using less.prems(4) c by (simp add: add.assoc flip: of_nat_add)
    qed (rule step')
  qed
qed

text \<open>C23. \<open>copyin\<close> of any range of user addresses, over page borders and whatever frames the pages are
  mapped to: it returns 0 when every page of the range is a page of the user and -1 otherwise; the bytes
  before the first page that is not there arrive, each read from the frame of its own page, and no memory
  but the destination changes. (The destination, a kernel buffer, is none of the bytes read.)\<close>

theorem copyin_page_by_page:
  assumes "unat va + len \<le> 2 ^ 38"
    and "\<forall>k<len. \<forall>j<len. user_byte s root (va + word_of_nat k) \<noteq> dst + j"
  shows "\<exists>m. copyin root dst va len s
      = Some (if \<forall>k<len. user_page s root (va + word_of_nat k) then 0 else -1, s\<lparr>bytes := m\<rparr>) \<and>
    (\<forall>k<len. (\<forall>j\<le>k. user_page s root (va + word_of_nat j)) \<longrightarrow>
       m (dst + k) = bytes s (user_byte s root (va + word_of_nat k))) \<and>
    (\<forall>a. a < dst \<or> dst + len \<le> a \<longrightarrow> m a = bytes s a)"
proof -
  let ?u = "\<lambda>k. user_page s root (va + word_of_nat k)"
  let ?b = "\<lambda>k. user_byte s root (va + word_of_nat k)"
  have nz: "?u k \<Longrightarrow> ?b k \<noteq> 0" for k by (simp add: user_page_def user_byte_def Let_def)
  have pre: "copyin root dst va d s = Some (0, s\<lparr>bytes := (\<lambda>a. if dst \<le> a \<and> a < dst + d then bytes s (?b (a - dst)) else bytes s a)\<rparr>)"
    if "d \<le> len" "\<forall>k<d. ?u k" for d
  proof (rule copyin_ok)
    show "vaddr2paddr root (va + word_of_nat k) s = Some (?b k) \<and> ?b k \<noteq> 0" if "k < d" for k
      using that \<open>d \<le> len\<close> \<open>\<forall>k<d. ?u k\<close> nz[of k] below_MAXVA[OF assms(1), of k] by (simp add: vaddr2paddr_user)
  qed (use that assms in auto)
  show ?thesis
  proof (cases "\<forall>k<len. ?u k")
    case True
    then show ?thesis using pre[of len] by (intro exI[of _ "\<lambda>a. if dst \<le> a \<and> a < dst + len then bytes s (?b (a - dst)) else bytes s a"]) auto
  next
    case False
    define d where "d = (LEAST k. k < len \<and> \<not> ?u k)"
    have d: "d < len \<and> \<not> ?u d" unfolding d_def using False by (metis (mono_tags, lifting) LeastI)
    have before: "\<forall>k<d. ?u k" using not_less_Least[of _ "\<lambda>k. k < len \<and> \<not> ?u k"] d unfolding d_def by (meson less_trans)
    let ?m = "\<lambda>a. if dst \<le> a \<and> a < dst + d then bytes s (?b (a - dst)) else bytes s a"
    have w: "walkaddr root (va + word_of_nat k) s = Some (if ?u k then PNO2PA (pte_paddr (lookup s root (va + word_of_nat k))) else 0)"
      if "k < len" for k
      using below_MAXVA[OF assms(1) that] by (simp add: walkaddr_lookup user_page_def Let_def)
    have "copyin root dst va len s = Some (-1, s\<lparr>bytes := ?m\<rparr>)"
    proof (rule copyin_stops[OF assms(1)])
      show "\<forall>k<d. walkaddr root (va + word_of_nat k) s = Some (PNO2PA (pte_paddr (lookup s root (va + word_of_nat k)))) \<and>
          PNO2PA (pte_paddr (lookup s root (va + word_of_nat k))) \<noteq> 0"
        using before w d by (auto simp: user_page_def Let_def)
      show "copyin root dst va d s = Some (0, s\<lparr>bytes := ?m\<rparr>)" using pre[of d] before d by simp
    qed (use d w in auto)
    moreover have "k < d" if "k < len" "\<forall>j\<le>k. ?u j" for k using that d by (meson not_le_imp_less)
    ultimately show ?thesis using False d by (intro exI[of _ ?m]) auto
  qed
qed

text \<open>Two pages of the user with frames far apart, and nothing behind them.\<close>

definition far_pages :: "nat \<Rightarrow> vm \<Rightarrow> bool" where
  "far_pages root s \<longleftrightarrow> tree_wf s root \<and> bytes s = (\<lambda>a. if a < 0x80800000 then 4 else 8) \<and>
     (\<forall>va < MAXVA. lookup s root va = (if 0x2000 \<le> va \<and> va < 0x3000 then map_entry 0x2000 0x80400000 0x1f
        else if 0x1000 \<le> va \<and> va < 0x2000 then map_entry 0x1000 0x80800000 0x1f else 0))"

lemma map_one_page:
  assumes wf: "tree_wf s root" and va: "PGSIZE dvd unat va" "unat va + PGSIZE \<le> 2 ^ 38" and f: "2 \<le> free_pages (phys s)"
    and un: "\<And>vb. va \<le> vb \<Longrightarrow> vb < va + 0x1000 \<Longrightarrow> lookup s root vb = 0"
  obtains s' where "mappages root va 4096 pa perm s = Some (0, s')" "tree_wf s' root" "bytes s' = bytes s"
    "free_pages (phys s) \<le> 2 + free_pages (phys s')"
    "\<And>vb. vb < MAXVA \<Longrightarrow> lookup s' root vb = (if va \<le> vb \<and> vb < va + 0x1000 then map_entry va pa perm else lookup s root vb)"
proof -
  have u: "unat (va + 0x1000) = unat va + 0x1000" using unat_plus_small[of va "0x1000"] va(2) by simp
  then have lt: "vb < va + 0x1000 \<longleftrightarrow> unat vb < unat va + 1 * PGSIZE" for vb
    by (simp add: word_less_nat_alt)
  have va1: "unat va + 1 * PGSIZE \<le> 2 ^ 38" "0 < (1::nat)" using va(2) by simp_all
  have f1: "2 * 1 \<le> free_pages (phys s)" using f by simp
  have un1: "\<not> pte_valid (lookup s root vb)" if "va \<le> vb" "unat vb < unat va + 1 * PGSIZE" for vb
    using un[OF that(1)] that(2) unfolding lt[symmetric] by (simp add: pte_valid_def)
  obtain s' where m: "mappages root va (word_of_nat (1 * PGSIZE)) pa perm s = Some (0, s')"
    "free_pages (phys s) \<le> 2 * 1 + free_pages (phys s')"
    using mappages_returns[OF wf va(1) va1 f1 un1] by blast
  note M = mappages_ok[OF wf m(1) va(1) va1]
  have "lookup s' root vb = (if va \<le> vb \<and> vb < va + 0x1000 then map_entry va pa perm else lookup s root vb)"
    if vb: "vb < MAXVA" for vb
  proof (cases "va \<le> vb \<and> vb < va + 0x1000")
    case True
    then have "unat vb - unat va < PGSIZE" using lt[of vb] by arith
    then have "(unat vb - unat va) div PGSIZE = 0" by simp
    then show ?thesis using M vb True unfolding lt by simp
  next
    case False
    then show ?thesis using M vb unfolding lt by auto
  qed
  then show ?thesis using that[of s'] M m by simp
qed

lemma far_pages: "\<exists>root s. far_pages root s"
proof -
  obtain root s0 where b: "tree_wf s0 root" "\<And>va. lookup s0 root va = 0" "free_pages (phys s0) = 31743"
    using boot_address_space by metis
  obtain s1 where s1: "tree_wf s1 root" "free_pages (phys s0) \<le> 2 + free_pages (phys s1)"
    "\<And>vb. vb < MAXVA \<Longrightarrow> lookup s1 root vb = (if 0x1000 \<le> vb \<and> vb < 0x1000 + 0x1000 then map_entry 0x1000 0x80800000 0x1f else lookup s0 root vb)"
    by (rule map_one_page[OF b(1), of "0x1000" "0x80800000" "0x1f"]) (simp_all add: b dvd_eq_mod_eq_0)
  obtain s2 where s2: "tree_wf s2 root"
    "\<And>vb. vb < MAXVA \<Longrightarrow> lookup s2 root vb = (if 0x2000 \<le> vb \<and> vb < 0x2000 + 0x1000 then map_entry 0x2000 0x80400000 0x1f else lookup s1 root vb)"
  proof (rule map_one_page[OF s1(1), of "0x2000" "0x80400000" "0x1f"])
    show "lookup s1 root vb = 0" if "0x2000 \<le> vb" "vb < 0x2000 + 0x1000" for vb
    proof -
      have "vb < MAXVA" using that(2) by (rule less_trans) simp
      moreover have "\<not> vb < 0x1000 + 0x1000" using that(1) by (simp add: not_less)
      ultimately show ?thesis using s1(3)[of vb] b(2) by simp
    qed
  qed (use s1(2) b(3) in \<open>simp_all add: dvd_eq_mod_eq_0\<close>)
  let ?s = "s2\<lparr>bytes := (\<lambda>a. if a < 0x80800000 then 4 else 8)\<rparr>"
  have w: "buddy_inv (phys s2)" "mem_end (phys s2) \<le> 2 ^ 56" using s2(1) by (simp_all add: tree_wf_def)
  note T = tree_wf_phys[OF s2(1) w subset_refl, of "\<lambda>a. if a < 0x80800000 then 4 else 8"]
  have "s2\<lparr>phys := phys s2, bytes := (\<lambda>a. if a < 0x80800000 then 4 else 8)\<rparr> = ?s" by simp
  then have "far_pages root ?s" using T s2(2) s1(3) b(2) by (simp add: far_pages_def)
  then show ?thesis by blast
qed

lemma copyin_page_by_page_witness:
  "\<exists>root s m. far_pages root s \<and> copyin root 0x5000 0x1ffe 4 s = Some (0, s\<lparr>bytes := m\<rparr>) \<and>
     map m [0x5000, 0x5001, 0x5002, 0x5003] = [8, 8, 4, 4] \<and>
     (\<exists>m. copyin root 0x5000 0x2ffe 4 s = Some (-1, s\<lparr>bytes := m\<rparr>) \<and> m 0x5001 = 4)"
proof -
  obtain root s where o: "far_pages root s" using far_pages by blast
  have b: "bytes s = (\<lambda>a. if a < 0x80800000 then 4 else 8)" using o by (simp add: far_pages_def)
  have f: "PNO2PA (pte_paddr (map_entry va pa 0x1f)) = pa \<and> pte_valid (map_entry va pa 0x1f) \<and> pte_user (map_entry va pa 0x1f)"
    if "pa < 2 ^ 56" "PGSIZE dvd pa" for va :: u64 and pa
    using pte_paddr_map_entry[OF that, of "0x1f" va]
    by (auto simp: pte_valid_def pte_user_def map_entry_def Let_def bit_or_iff bit_1_iff)
  have lk: "lookup s root va = (if 0x2000 \<le> va \<and> va < 0x3000 then map_entry 0x2000 0x80400000 0x1f
        else if 0x1000 \<le> va \<and> va < 0x2000 then map_entry 0x1000 0x80800000 0x1f else 0)" if "va < MAXVA" for va
    using o that by (simp add: far_pages_def)
  have p1: "user_page s root va \<and> user_byte s root va = 0x80800000 + unat va mod PGSIZE" if "va \<in> {0x1ffe, 0x1fff}" for va
    using that lk[of va] f[of "0x80800000" "0x1000"] by (auto simp: user_page_def user_byte_def Let_def dvd_eq_mod_eq_0)
  have p2: "user_page s root va \<and> user_byte s root va = 0x80400000 + unat va mod PGSIZE" if "va \<in> {0x2000, 0x2001, 0x2ffe, 0x2fff}" for va
    using that lk[of va] f[of "0x80400000" "0x2000"] by (auto simp: user_page_def user_byte_def Let_def dvd_eq_mod_eq_0)
  have p3: "\<not> user_page s root va \<and> user_byte s root va = unat va mod PGSIZE" if "va \<in> {0x3000, 0x3001}" for va
    using that lk[of va] by (auto simp: user_page_def user_byte_def Let_def pte_valid_def pte_paddr_def PNO2PA_def)
  have four: "(\<forall>k<4. P k) \<longleftrightarrow> P 0 \<and> P 1 \<and> P 2 \<and> P (3::nat)" for P
    by (simp add: numeral_eq_Suc less_Suc_eq all_conj_distrib imp_conjR)
  have upto: "(\<forall>j\<le>Suc 0. P j) \<longleftrightarrow> P 0 \<and> P (Suc 0)" "(\<forall>j\<le>2. P j) \<longleftrightarrow> P 0 \<and> P 1 \<and> P 2"
    "(\<forall>j\<le>3. P j) \<longleftrightarrow> P 0 \<and> P 1 \<and> P 2 \<and> P (3::nat)" for P
    by (simp_all add: numeral_eq_Suc le_Suc_eq all_conj_distrib imp_conjR)
  note at = p1[of "0x1ffe"] p1[of "0x1fff"] p2[of "0x2000"] p2[of "0x2001"] p2[of "0x2ffe"] p2[of "0x2fff"] p3[of "0x3000"] p3[of "0x3001"]
  have dis: "\<forall>k<4. \<forall>j<4. user_byte s root (0x1ffe + word_of_nat k) \<noteq> 0x5000 + j"
    "\<forall>k<4. \<forall>j<4. user_byte s root (0x2ffe + word_of_nat k) \<noteq> 0x5000 + j"
    using at by (simp_all add: four)
  obtain m where m: "copyin root 0x5000 0x1ffe 4 s = Some (0, s\<lparr>bytes := m\<rparr>)" "map m [0x5000, 0x5001, 0x5002, 0x5003] = [8, 8, 4, 4]"
    using copyin_page_by_page[OF _ dis(1)] at b by (auto simp: four upto)
  obtain m' where m': "copyin root 0x5000 0x2ffe 4 s = Some (-1, s\<lparr>bytes := m'\<rparr>)" "m' 0x5001 = 4"
    using copyin_page_by_page[OF _ dis(2)] at b by (auto simp: four upto)
  show ?thesis by (intro exI conjI) (rule o m m')+
qed

definition one_page_space :: "nat \<Rightarrow> vm \<Rightarrow> bool" where
  "one_page_space root s \<longleftrightarrow> tree_wf s root \<and> perms_valid s root \<and> 31000 \<le> free_pages (phys s) \<and>
     (\<exists>s0. tree_wf s0 root \<and> bytes s0 = (\<lambda>_. 0) \<and>
       mappages root 0x1000 (word_of_nat (1 * PGSIZE)) 0x80400000 0x1f s0 = Some (0, s))"

lemma one_page_space: "\<exists>root s. one_page_space root s"
proof -
  obtain root s0 where b: "tree_wf s0 root" "perms_valid s0 root" "\<And>va. lookup s0 root va = 0"
    "free_pages (phys s0) = 31743" "bytes s0 = (\<lambda>_. 0)" using boot_address_space by metis
  have f: "2 * 1 \<le> free_pages (phys s0)" using b(4) by simp
  obtain s where m: "mappages root 0x1000 (word_of_nat (1 * PGSIZE)) 0x80400000 0x1f s0 = Some (0, s)"
    "free_pages (phys s0) \<le> 2 * 1 + free_pages (phys s)"
    using mappages_returns[OF b(1) _ _ _ f, where va = "0x1000" and pa = "0x80400000" and perm = "0x1f"] b(3)
    by (auto simp: pte_valid_def)
  have M: "tree_wf s root" "\<And>vb. vb < MAXVA \<Longrightarrow> lookup s root vb = 0 \<or> pte_valid (lookup s root vb)"
    using mappages_ok[OF b(1) m(1)] b(3) valid_map_entry by (auto simp del: mult_1)
  then have "perms_valid s root" by (metis perms_valid_def pte_perm_def take_bit_of_0)
  then show ?thesis unfolding one_page_space_def using M(1) m b by fastforce
qed

text \<open>Mapping a range that is not mapped, with two free pages for each of its pages, returns 0;
  afterwards exactly the pages of the range have the entries of the physical range and every other
  address keeps its entry, the tables stay a well-formed tree, and no byte of memory changes.\<close>

theorem mappages_maps_range:
  assumes "tree_wf s root" "PGSIZE dvd unat va" "unat va + n * PGSIZE \<le> 2 ^ 38" "0 < n"
    "2 * n \<le> free_pages (phys s)"
    "\<forall>vb. va \<le> vb \<and> unat vb < unat va + n * PGSIZE \<longrightarrow> \<not> pte_valid (lookup s root vb)"
  shows "\<exists>s'. mappages root va (word_of_nat (n * PGSIZE)) pa perm s = Some (0, s') \<and> tree_wf s' root \<and>
    bytes s' = bytes s \<and> (\<forall>vb < MAXVA. lookup s' root vb =
      (if va \<le> vb \<and> unat vb < unat va + n * PGSIZE
       then map_entry va (pa + (unat vb - unat va) div PGSIZE * PGSIZE) perm
       else lookup s root vb))"
proof -
  obtain s' where m: "mappages root va (word_of_nat (n * PGSIZE)) pa perm s = Some (0, s')"
    using mappages_returns[OF assms(1-5), of pa perm] assms(6) by blast
  then show ?thesis using mappages_ok[OF assms(1) m assms(2-4)] by blast
qed

lemma mappages_maps_range_witness:
  "\<exists>root s s'. uvmcreate boot_vm = Some (root, s) \<and>
     mappages root TRAMPOLINE (word_of_nat (1 * PGSIZE)) 0x80200000 0xa s = Some (0, s') \<and>
     pte_valid (lookup s' root TRAMPOLINE)"
proof -
  obtain root s where b: "uvmcreate boot_vm = Some (root, s)" "tree_wf s root" "\<And>va. lookup s root va = 0"
    "free_pages (phys s) = 31743" using boot_address_space by metis
  have f: "2 * 1 \<le> free_pages (phys s)" using b(4) by simp
  have un: "\<forall>vb. TRAMPOLINE \<le> vb \<and> unat vb < unat TRAMPOLINE + 1 * PGSIZE \<longrightarrow> \<not> pte_valid (lookup s root vb)"
    using b(3) by (simp add: pte_valid_def)
  obtain s' where s': "mappages root TRAMPOLINE (word_of_nat (1 * PGSIZE)) 0x80200000 0xa s = Some (0, s')"
    "\<forall>vb < MAXVA. lookup s' root vb = (if TRAMPOLINE \<le> vb \<and> unat vb < unat TRAMPOLINE + 1 * PGSIZE
       then map_entry TRAMPOLINE (0x80200000 + (unat vb - unat TRAMPOLINE) div PGSIZE * PGSIZE) 0xa
       else lookup s root vb)"
    using mappages_maps_range[OF b(2) _ _ _ f un, where pa = "0x80200000" and perm = "0xa"]
    by (auto simp: dvd_eq_mod_eq_0)
  have "TRAMPOLINE < MAXVA" by simp
  then have "lookup s' root TRAMPOLINE = map_entry TRAMPOLINE 0x80200000 0xa" using s'(2) by simp
  then have "pte_valid (lookup s' root TRAMPOLINE)" using valid_map_entry by simp
  then show ?thesis using b(1) s'(1) by blast
qed

text \<open>C25. Breaking copy-on-write: on a page that others share, \<open>do_wp_page\<close> gives the process a new page
  with the same bytes, changes no other memory and drops one reference of the old page; on a page of its
  own it only adds the permission.\<close>

theorem copy_on_write_page:
  assumes "buddy_inv (phys s)" "mem_end (phys s) \<le> 2 ^ 56" "get_pte loc s = e"
    "PNO2PA (pte_paddr e) = page_addr (phys s) i" "(i, 0) \<in> used_blocks (phys s)" "perm < 256"
    "do_wp_page loc perm s = Some (r, s')"
  shows "r = 0 \<and> buddy_inv (phys s') \<and>
    (if page_refs (phys s) i = 1
     then get_pte loc s' = e OR perm \<and> bytes s' = bytes s \<and> page_refs (phys s') = page_refs (phys s)
     else \<exists>j. j \<noteq> i \<and> (\<forall>b\<in>used_blocks (phys s). j \<notin> pages b) \<and>
       PNO2PA (pte_paddr (get_pte loc s')) = page_addr (phys s) j \<and>
       pte_perm (get_pte loc s') = pte_perm e OR perm \<and>
       (\<forall>k < PGSIZE. bytes s' (page_addr (phys s) j + k) = bytes s (page_addr (phys s) i + k)) \<and>
       (\<forall>a. (a < page_addr (phys s) j \<or> page_addr (phys s) j + PGSIZE \<le> a) \<longrightarrow> bytes s' a = bytes s a) \<and>
       page_refs (phys s') = (page_refs (phys s))(i := page_refs (phys s) i - 1, j := 1))"
  using do_wp_page_ok[OF assms] .

lemma pages_dup_geometry: "pages_dup p s = Some (q, s') \<Longrightarrow> npages s' = npages s \<and> mem_start s' = mem_start s"
  by (auto simp: pages_dup_def hoare_simps)

text \<open>A page right after boot that two processes share.\<close>

lemma shared_page:
  obtains b i where "buddy_inv b" "mem_end b \<le> 2 ^ 56" "(i, 0) \<in> used_blocks b" "page_refs b i = 2"
    "free_pages b = 31743" "page_addr b i < 2 ^ 56" "PGSIZE dvd page_addr b i"
proof -
  obtain k i s1 where a: "get_power2 1 = Some k" "pages_alloc 1 boot_buddy = Some (page_addr boot_buddy i, s1)"
    "buddy_inv s1" "used_blocks s1 = {(i, k)}" "page_refs s1 i = 1" "mem_start s1 = KERNEL_END_LIMIT"
    by (rule boot_buddy_allocates[of 1]) auto
  have k: "k = 0" using a(1) get_power2_1 by simp
  have e: "mem_end s1 \<le> 2 ^ 56" using alloc_bounds(2)[OF boot_buddy(2) a(2) boot_mem_end] boot_mem_end by simp
  obtain s2 where d: "pages_dup (page_addr s1 i) s1 = Some (page_addr s1 i, s2)" "buddy_inv s2"
    "used_blocks s2 = used_blocks s1" "page_refs s2 = (page_refs s1)(i := page_refs s1 i + 1)"
    "npages s2 = npages s1" "mem_start s2 = mem_start s1"
    using pages_dup_ok[OF a(3), of i k] a(4,5) pages_dup_geometry by auto
  have g: "geometry s1" "geometry s2" using a(3) d(2) by (simp_all add: buddy_inv_def buddy_held_def)
  then have "mem_end s2 = mem_end s1" using d(5,6) by (simp add: geometry_def)
  then have e2: "mem_end s2 \<le> 2 ^ 56" using e by simp
  have u: "(i, 0) \<in> used_blocks s2" using d(3) a(4) k by simp
  have "i < npages s2" using u by (auto simp: used_blocks_def)
  then have "page_addr s2 i < mem_end s2" "PGSIZE dvd page_addr s2 i"
    using g(2) by (auto simp: geometry_def page_addr_def)
  moreover have "free_pages s2 = 31743"
    using page_alloc_free_pages(1)[OF boot_buddy(2) a(2)] boot_buddy_free_pages d(3,5)
    by (simp add: free_pages_def used_pages_def)
  ultimately show ?thesis using that[of s2 i] d(2,4) e2 u a(5) by simp
qed

lemma copy_on_write_page_witness:
  "\<exists>s s' i j. do_wp_page (0, 0) PTE_W s = Some (0, s') \<and> page_refs (phys s) i = 2 \<and> j \<noteq> i \<and>
     page_refs (phys s') i = 1 \<and> page_refs (phys s') j = 1"
proof -
  obtain b i where b: "buddy_inv b" "mem_end b \<le> 2 ^ 56" "(i, 0) \<in> used_blocks b" "page_refs b i = 2"
    "free_pages b = 31743" "page_addr b i < 2 ^ 56" "PGSIZE dvd page_addr b i" using shared_page by blast
  define e where "e = PA2PTE (page_addr b i) OR 0x13"
  define s where "s = \<lparr>pgt = (\<lambda>_ _. e), bytes = (\<lambda>_. 0), phys = b\<rparr>"
  have pa: "PNO2PA (pte_paddr e) = page_addr b i" unfolding e_def by (rule PNO2PA_PA2PTE[OF b(6,7)]) simp
  have e: "get_pte (0, 0) s = e" by (simp add: s_def get_pte_def)
  obtain b1 where u: "pages_undup (page_addr b i) b = Some (2, b1)" "buddy_inv b1" "used_blocks b1 = used_blocks b"
    "npages b1 = npages b" using pages_undup_ok[OF b(1,3)] b(4) by auto
  have "free_pages b1 = free_pages b" using u(3,4) by (simp add: free_pages_def used_pages_def)
  then obtain p b2 where a: "pages_alloc 1 b1 = Some (p, b2)" using page_alloc_returns[OF u(2)] b(5) by auto
  have ph: "phys s = b" by (simp add: s_def)
  obtain s' where w: "do_wp_page (0, 0) PTE_W s = Some (0, s')"
    by (simp add: do_wp_page_def e pa ph u(1) a[unfolded One_nat_def] Let_def)
  have ne: "page_refs b i \<noteq> 1" using b(4) by simp
  have lt: "PTE_W < 256" by simp
  obtain j where j: "j \<noteq> i" "page_refs (phys s') = (page_refs b)(i := page_refs b i - 1, j := 1)"
    using copy_on_write_page[OF _ _ e _ _ lt w, of i] b(1-3) pa ne unfolding ph by auto
  then have "page_refs (phys s') i = 1" "page_refs (phys s') j = 1" using b(4) by simp_all
  then show ?thesis using w j(1) b(4) ph by blast
qed

text \<open>C22. A page fault or system call on a user range that lies inside an area with the wanted
  permissions is served while five pages are free for each of its pages: pages not mapped yet are mapped, pages that
  are mapped without the permissions (shared copy on write, their frames allocated) are made private or writable, and
  \<open>verify_area\<close> returns 0; afterwards every page of the range grants the permissions, no address has lost
  one, and the tables are still a tree. That the reads of the file behind the area do not halt the machine is a hypothesis.\<close>

theorem verify_area_serves_range:
  assumes "tree_wf s (mm_pagetable mm)" "perms_valid s (mm_pagetable mm)" "perm < 256"
    and "fst (search_vmareas mm vaddr n) = Some v" "perm AND vm_flags v = perm"
    and "unat (PGROUNDDOWN64 vaddr) + k * PGSIZE \<le> 2 ^ 38"
      "unat (vaddr + n) \<le> unat (PGROUNDDOWN64 vaddr) + k * PGSIZE" "5 * k \<le> free_pages (phys s)"
    and "\<forall>vb. PGROUNDDOWN64 vaddr \<le> vb \<and> vb < vaddr + n \<and> pte_valid (lookup s (mm_pagetable mm) vb) \<and>
      \<not> grants (lookup s (mm_pagetable mm) vb) perm \<longrightarrow>
      live_page s (PNO2PA (pte_paddr (lookup s (mm_pagetable mm) vb)))"
    and "\<forall>i off l. vm_inode v = Some i \<longrightarrow> rd i off l \<noteq> None"
  shows "\<exists>s'. verify_area rd mm vaddr n perm s = Some (0, s') \<and> tree_wf s' (mm_pagetable mm) \<and>
    (\<forall>va. PGROUNDDOWN64 vaddr \<le> va \<and> va < vaddr + n \<longrightarrow> grants (lookup s' (mm_pagetable mm) va) perm) \<and>
    (\<forall>va < MAXVA. \<forall>p. grants (lookup s (mm_pagetable mm) va) p \<longrightarrow> grants (lookup s' (mm_pagetable mm) va) p)"
proof -
  obtain s' where s': "verify_pages rd mm v (PGROUNDDOWN64 vaddr) (vaddr + n) perm s = Some (0, s')"
    using verify_pages_returns[OF assms(1,2) unat_PGROUNDDOWN_le(2) assms(3,6-8)] assms(9,10) by blast
  note V = verify_pages_ok[OF s' assms(1,2) unat_PGROUNDDOWN_le(2) assms(3)]
  obtain f where "search_vmareas mm vaddr n = (Some v, f)" using assms(4) by (metis prod.collapse)
  moreover from this have "f = vm_flags v" by (auto simp: search_vmareas_def Let_def split: option.splits)
  ultimately have "verify_area rd mm vaddr n perm s = Some (0, s')"
    using s' assms(5) by (simp add: verify_area_def)
  then show ?thesis using V unfolding page_rel_def by blast
qed

definition one_area_mm :: "nat \<Rightarrow> mm_struct" where
  "one_area_mm root = \<lparr>vm_area_list = [new_vmarea_struct 0x1000 0x3000 0x16 0 None 0], mm_pagetable = root,
     mm_count = 1, map_count = 1, stack_maxsize = 32, start_ustack = 0, mmap_base = 0, start_brk = 0, brk = 0\<rparr>"

lemma pte_perm_PA2PTE: "pte_perm (PA2PTE a OR f) = pte_perm f"
  unfolding pte_perm_def by (rule bit_eqI) (auto simp: bit_take_bit_iff bit_or_iff bit_PA2PTE)

text \<open>An address space with one page, mapped for reading only, that it shares with another.\<close>

lemma shared_address_space:
  obtains root s where "tree_wf s root" "perms_valid s root" "31738 \<le> free_pages (phys s)"
    "\<And>vb. vb < MAXVA \<Longrightarrow> pte_valid (lookup s root vb) \<Longrightarrow>
       pte_perm (lookup s root vb) = 0x13 \<and> live_page s (PNO2PA (pte_paddr (lookup s root vb)))"
    "pte_valid (lookup s root 0x1000)"
proof -
  obtain b i where b: "buddy_inv b" "mem_end b \<le> 2 ^ 56" "(i, 0) \<in> used_blocks b" "page_refs b i = 2"
    "free_pages b = 31743" "page_addr b i < 2 ^ 56" "PGSIZE dvd page_addr b i" using shared_page by blast
  let ?s0 = "boot_vm\<lparr>phys := b\<rparr>"
  have i0: "buddy_inv (phys ?s0)" "mem_end (phys ?s0) \<le> 2 ^ 56" using b by simp_all
  obtain root s1 where c: "uvmcreate ?s0 = Some (root, s1)" using uvmcreate_returns[of ?s0] b by auto
  note U = uvmcreate_ok[OF i0 c]
  have "live_page ?s0 (page_addr b i)" using b(3) by (force simp: live_page_def live_blocks_def)
  moreover obtain q where a: "pages_alloc 1 b = Some (q, phys s1)"
    using c by (auto simp: uvmcreate_def pgt_zalloc_def hoare_simps)
  ultimately have l1: "live_page s1 (page_addr b i)"
    using alloc_keeps[OF b(1) a b(2)] by (auto simp: live_page_def)
  have f: "free_pages (phys s1) = 31742" using U(3) b(5) by simp
  obtain s2 where s2: "mappages root 0x1000 4096 (page_addr b i) 0x12 s1 = Some (0, s2)" "tree_wf s2 root"
    "free_pages (phys s1) \<le> 2 + free_pages (phys s2)"
    "\<And>vb. vb < MAXVA \<Longrightarrow> lookup s2 root vb =
      (if 0x1000 \<le> vb \<and> vb < 0x1000 + 0x1000 then map_entry 0x1000 (page_addr b i) 0x12 else lookup s1 root vb)"
    by (rule map_one_page[OF U(1), of "0x1000" "page_addr b i" "0x12"]) (simp_all add: U(2) f dvd_eq_mod_eq_0)
  have l2: "live_page s2 (page_addr b i)"
    using alloc_only_live[OF mappages_alloc_only[OF s2(1) tree_wfD(1,2)[OF U(1)]] l1] .
  have e: "pte_perm (map_entry 0x1000 (page_addr b i) 0x12) = 0x13"
    unfolding map_entry_def by (simp add: Let_def or.assoc pte_perm_PA2PTE) (simp add: pte_perm_def)
  have p: "PNO2PA (pte_paddr (map_entry 0x1000 (page_addr b i) 0x12)) = page_addr b i"
    by (rule pte_paddr_map_entry[OF b(6,7)]) simp
  have at: "lookup s2 root vb = map_entry 0x1000 (page_addr b i) 0x12 \<or> lookup s2 root vb = 0" if "vb < MAXVA" for vb
    using s2(4)[OF that] U(2) by auto
  show ?thesis
  proof (rule that[OF s2(2)])
    show "perms_valid s2 root" unfolding perms_valid_def pte_perm_def using at valid_map_entry by (metis take_bit_of_0)
    show "31738 \<le> free_pages (phys s2)" using s2(3) f by simp
    show "pte_perm (lookup s2 root vb) = 0x13 \<and> live_page s2 (PNO2PA (pte_paddr (lookup s2 root vb)))"
      if "vb < MAXVA" "pte_valid (lookup s2 root vb)" for vb
      using at[OF that(1)] that(2) e p l2 by (auto simp: pte_valid_def)
    show "pte_valid (lookup s2 root 0x1000)" using s2(4)[of "0x1000"] valid_map_entry by simp
  qed
qed

lemma verify_area_serves_range_witness:
  "\<exists>root s s'. pte_valid (lookup s root 0x1000) \<and> \<not> grants (lookup s root 0x1000) 0x14 \<and>
     verify_area (\<lambda>_ _ _. Some []) (one_area_mm root) 0x1800 0x1000 0x14 s = Some (0, s') \<and>
     grants (lookup s' root 0x1000) 0x14 \<and> grants (lookup s' root 0x2000) 0x14"
proof -
  obtain root s where b: "tree_wf s root" "perms_valid s root" "31738 \<le> free_pages (phys s)"
    "\<And>vb. vb < MAXVA \<Longrightarrow> pte_valid (lookup s root vb) \<Longrightarrow>
       pte_perm (lookup s root vb) = 0x13 \<and> live_page s (PNO2PA (pte_paddr (lookup s root vb)))"
    "pte_valid (lookup s root 0x1000)" using shared_address_space by metis
  have pg: "PGROUNDDOWN64 0x1800 = 0x1000" by (simp add: PGROUNDDOWN64_def)
  let ?mm = "one_area_mm root"
  have r: "mm_pagetable ?mm = root" by (simp add: one_area_mm_def)
  have f: "fst (search_vmareas ?mm 0x1800 0x1000) = Some (new_vmarea_struct 0x1000 0x3000 0x16 0 None 0)"
    by (simp add: search_vmareas_def one_area_mm_def new_vmarea_struct_def)
  have live: "\<forall>vb. PGROUNDDOWN64 0x1800 \<le> vb \<and> vb < 0x1800 + 0x1000 \<and> pte_valid (lookup s (mm_pagetable ?mm) vb) \<and>
      \<not> grants (lookup s (mm_pagetable ?mm) vb) 0x14 \<longrightarrow>
      live_page s (PNO2PA (pte_paddr (lookup s (mm_pagetable ?mm) vb)))"
  proof (intro allI impI)
    fix vb :: u64
    assume v: "PGROUNDDOWN64 0x1800 \<le> vb \<and> vb < 0x1800 + 0x1000 \<and> pte_valid (lookup s (mm_pagetable ?mm) vb) \<and>
      \<not> grants (lookup s (mm_pagetable ?mm) vb) 0x14"
    have "vb < 0x2800" using v by simp
    then have "vb < MAXVA" by (rule less_trans) simp
    then show "live_page s (PNO2PA (pte_paddr (lookup s (mm_pagetable ?mm) vb)))" using b(4) v r by simp
  qed
  have "\<exists>s'. verify_area (\<lambda>_ _ _. Some []) ?mm 0x1800 0x1000 0x14 s = Some (0, s') \<and> tree_wf s' (mm_pagetable ?mm) \<and>
    (\<forall>va. PGROUNDDOWN64 0x1800 \<le> va \<and> va < 0x1800 + 0x1000 \<longrightarrow> grants (lookup s' (mm_pagetable ?mm) va) 0x14) \<and>
    (\<forall>va < MAXVA. \<forall>p. grants (lookup s (mm_pagetable ?mm) va) p \<longrightarrow> grants (lookup s' (mm_pagetable ?mm) va) p)"
    by (rule verify_area_serves_range[OF _ _ _ f _ _ _ _ live, where k = 2])
      (use b(1-3) r in \<open>simp_all add: pg new_vmarea_struct_def\<close>)
  then obtain s' where s': "verify_area (\<lambda>_ _ _. Some []) ?mm 0x1800 0x1000 0x14 s = Some (0, s')"
    "\<And>va. 0x1000 \<le> va \<Longrightarrow> va < 0x2800 \<Longrightarrow> grants (lookup s' root va) 0x14" unfolding r pg by auto
  have "\<not> grants (lookup s root 0x1000) 0x14" using b(4)[OF _ b(5)] by (simp add: grants_def)
  then show ?thesis using b(5) s'(1) s'(2)[of "0x1000"] s'(2)[of "0x2000"] by (intro exI[of _ root] exI[of _ s] exI[of _ s']) simp
qed

text \<open>C29. What \<open>verify_area\<close> grants lies in an area, for a range that is not empty and does not wrap round the end of the address space
  (the code does not check for that, and accepts a length that wraps): when it returns 0, one area with the wanted permissions holds the whole range and every page of it grants them;
  otherwise it returns -1 and changes nothing.\<close>

theorem verify_area_sound:
  assumes "verify_area rd mm vaddr n perm s = Some (r, s')" "areas_wf (vm_area_list mm)"
    and "tree_wf s (mm_pagetable mm)" "perms_valid s (mm_pagetable mm)" "perm < 256"
    and "0 < unat n" "unat vaddr + unat n < 2 ^ 64"
  shows "r = -1 \<and> s' = s \<or>
    r = 0 \<and> tree_wf s' (mm_pagetable mm) \<and>
    (\<exists>v\<in>set (vm_area_list mm). vm_start v \<le> vaddr \<and> unat vaddr + unat n \<le> unat (vm_end v) \<and> perm AND vm_flags v = perm) \<and>
    (\<forall>va. vaddr \<le> va \<and> unat va < unat vaddr + unat n \<longrightarrow> va < MAXVA \<and> grants (lookup s' (mm_pagetable mm) va) perm)"
  using assms(1,3-5)
proof (cases rule: verify_area_cases)
  case (granted v)
  have e: "unat (vaddr + n) = unat vaddr + unat n" using assms(7) by (simp add: unat_word_ariths)
  have "va < MAXVA \<and> grants (lookup s' (mm_pagetable mm) va) perm"
    if "vaddr \<le> va" "unat va < unat vaddr + unat n" for va
    by (rule granted(5)) (use that e unat_PGROUNDDOWN_le(1)[of vaddr] in \<open>auto simp: word_less_nat_alt\<close>)
  then show ?thesis
    using granted search_vmareas_ok[OF assms(2,6,7), of v] by (auto simp: page_rel_def)
qed auto

lemma verify_area_sound_witness:
  "\<exists>root s. uvmcreate boot_vm = Some (root, s) \<and>
     (verify_area (\<lambda>_ _ _. Some []) (one_area_mm root) 0x5000 8 0x12 s = Some (-1, s))"
proof -
  obtain root s where b: "uvmcreate boot_vm = Some (root, s)" "tree_wf s root" "perms_valid s root"
    using boot_address_space by metis
  let ?mm = "one_area_mm root"
  have "search_vmareas ?mm 0x5000 8 = (None, 0)"
    by (simp add: search_vmareas_def one_area_mm_def new_vmarea_struct_def)
  then have v: "verify_area (\<lambda>_ _ _. Some []) ?mm 0x5000 8 0x12 s = Some (-1, s)" by (simp add: verify_area_def)
  have "areas_wf (vm_area_list ?mm)" by (simp add: areas_wf_def one_area_mm_def new_vmarea_struct_def)
  from verify_area_sound[OF v this] b v show ?thesis by (auto simp: one_area_mm_def)
qed

text \<open>A range whose end wraps round to 0 is accepted although it lies in no area: for every address
  at or above the first area and the length that takes it to \<open>2 ^ 64\<close>, \<open>verify_area\<close> returns 0 without
  touching a page, so the caller goes on with addresses that nothing backs.\<close>

theorem verify_area_accepts_wrapped_range:
  assumes "vm_area_list mm = v # l" "vm_start v \<le> vaddr" "perm AND vm_flags v = perm"
  shows "verify_area rd mm vaddr (- vaddr) perm s = Some (0, s)"
  using verify_area_wraps[OF assms] .

lemma verify_area_accepts_wrapped_range_witness:
  "verify_area (\<lambda>_ _ _. Some []) (one_area_mm 0) 0xffffffff00000000 0x100000000 0x12 boot_vm = Some (0, boot_vm)"
proof -
  have len: "- 0xffffffff00000000 = (0x100000000 :: u64)" by (rule minus_unique) simp
  have "verify_area (\<lambda>_ _ _. Some []) (one_area_mm 0) 0xffffffff00000000 (- 0xffffffff00000000) 0x12 boot_vm = Some (0, boot_vm)"
    by (rule verify_area_accepts_wrapped_range[where v = "new_vmarea_struct 0x1000 0x3000 0x16 0 None 0" and l = "[]"])
      (simp_all add: one_area_mm_def new_vmarea_struct_def)
  then show ?thesis unfolding len .
qed

text \<open>A page of an anonymous area (heap, stack) is mapped without being cleared: \<open>do_no_page\<close> leaves
  every byte of memory as it was, so the process reads what the page held before.\<close>

theorem anonymous_page_not_cleared:
  assumes "tree_wf s (mm_pagetable mm)" "va < MAXVA" "PGSIZE dvd unat va" "vm_inode vma = None"
    "do_no_page rd mm vma va perm s = Some (r, s')"
  shows "bytes s' = bytes s"
  using do_no_page_anonymous[OF assms] .

lemma anonymous_page_not_cleared_witness:
  "\<exists>root s s'. tree_wf s root \<and> do_no_page (\<lambda>_ _ _. Some []) (one_area_mm root)
     (new_vmarea_struct 0x1000 0x3000 0x16 0 None 0) 0x1000 0x16 s = Some (0, s') \<and> bytes s' = bytes s"
proof -
  obtain root s where b: "tree_wf s root" "\<And>va. lookup s root va = 0" "free_pages (phys s) = 31743"
    using boot_address_space by metis
  let ?mm = "one_area_mm root" and ?v = "new_vmarea_struct 0x1000 0x3000 0x16 0 None 0"
  have mm: "mm_pagetable ?mm = root" by (simp add: one_area_mm_def)
  obtain s' where d: "do_no_page (\<lambda>_ _ _. Some []) ?mm ?v 0x1000 0x16 s = Some (0, s')"
    using do_no_page_returns[where s = s and mm = ?mm and va = "0x1000" and rd = "\<lambda>_ _ _. Some []" and vma = ?v and perm = "0x16"] b unfolding mm by (auto simp: pte_valid_def)
  have "bytes s' = bytes s"
    using anonymous_page_not_cleared[OF _ _ _ _ d] b(1) unfolding mm by (auto simp: new_vmarea_struct_def)
  then show ?thesis using b(1) d by blast
qed

text \<open>Loading a page of an executable: afterwards the page holds the bytes of the file at its
  place in the segment and zeros from the end of the segment's file part on, and no byte outside the page
  has changed. The file is read by a function that delivers its contents at an offset.\<close>

theorem load_segment_page:
  fixes cont :: "nat \<Rightarrow> nat \<Rightarrow> byte"
  assumes "\<forall>i off n. rd i off n = Some (map (\<lambda>k. cont i (unat off + k)) [0..<n])"
    "PGSIZE dvd unat vaddr" "PGSIZE dvd unat (vm_start vma)" "PGSIZE dvd unat (vm_end vma)"
    "vm_start vma \<le> vaddr" "vaddr < vm_end vma"
    "unat (vm_end vma) - unat (vm_start vma) < 2 ^ 32"
    "unat (vm_filesz vma) \<le> unat (vm_end vma) - unat (vm_start vma)"
    "unat (vm_pgoff vma) + unat (vm_filesz vma) < 2 ^ 64"
  shows "\<exists>m'. true_load_segment rd vma inode vaddr page m = Some m' \<and>
    (\<forall>k < PGSIZE. m' (page + k) =
      (if unat vaddr - unat (vm_start vma) + k < unat (vm_filesz vma)
       then cont inode (unat (vm_pgoff vma) + (unat vaddr - unat (vm_start vma)) + k) else 0)) \<and>
    (\<forall>a. (a < page \<or> page + PGSIZE \<le> a) \<longrightarrow> m' a = m a)"
  using true_load_segment_ok[of rd cont vaddr vma, OF _ assms(2-)] assms(1) by blast

lemma load_segment_page_witness:
  "\<exists>m'. true_load_segment (\<lambda>i off n. Some (map (\<lambda>k. word_of_nat (unat off + k)) [0..<n]))
      (new_vmarea_struct 0x1000 0x3000 5 0 (Some 7) 0x1004) 7 0x2000 0x80500000 (\<lambda>_. 9) = Some m' \<and>
     m' 0x80500003 = 3 \<and> m' 0x80500004 = 0 \<and> m' 0x80501000 = 9"
proof -
  let ?v = "new_vmarea_struct 0x1000 0x3000 5 0 (Some 7) 0x1004"
  obtain m' where m: "true_load_segment (\<lambda>i off n. Some (map (\<lambda>k. word_of_nat (unat off + k)) [0..<n])) ?v 7 0x2000 0x80500000 (\<lambda>_. 9) = Some m'"
    "\<forall>k < PGSIZE. m' (0x80500000 + k) = (if unat (0x2000::u64) - unat (vm_start ?v) + k < unat (vm_filesz ?v)
       then word_of_nat (unat (vm_pgoff ?v) + (unat (0x2000::u64) - unat (vm_start ?v)) + k) else 0)"
    "\<forall>a. (a < 0x80500000 \<or> 0x80500000 + PGSIZE \<le> a) \<longrightarrow> m' a = 9"
    using load_segment_page[of "\<lambda>i off n. Some (map (\<lambda>k. word_of_nat (unat off + k)) [0..<n])" "\<lambda>_ k. word_of_nat k" "0x2000" ?v 7 "0x80500000" "\<lambda>_. 9"]
    by (auto simp: new_vmarea_struct_def dvd_eq_mod_eq_0)
  have "m' (0x80500000 + 3) = 3" using m(2)[rule_format, of 3] by (simp add: new_vmarea_struct_def)
  moreover have "m' (0x80500000 + 4) = 0" using m(2)[rule_format, of 4] by (simp add: new_vmarea_struct_def)
  ultimately show ?thesis using m(1,3) by auto
qed

text \<open>\<open>copyin_string\<close> from a mapped user range delivers the string that starts there, NUL included,
  and returns its length, when the NUL comes within \<open>mx\<close> bytes; no other memory changes.\<close>

theorem mapped_range_copyin_string:
  assumes "tree_wf s root" "mappages root va (word_of_nat (n * PGSIZE)) pa perm s = Some (r, s')"
    and "PGSIZE dvd unat va" "unat va + n * PGSIZE \<le> 2 ^ 38"
    and "PGSIZE dvd pa" "0 < pa" "pa + n * PGSIZE \<le> 2 ^ 56" "perm < 256" "bit perm 4"
    and "str_at (bytes s) (pa + off) cs" "off + length cs < n * PGSIZE" "length cs < mx"
    and "dst + length cs < pa + off \<or> pa + off + length cs < dst"
  shows "copyin_string root dst (va + word_of_nat off) mx s'
    = Some (int (length cs), s'\<lparr>bytes := copied (bytes s) dst (pa + off) (Suc (length cs))\<rparr>)"
proof -
  have n: "0 < n" using assms(11) by (cases n) simp_all
  have b: "bytes s' = bytes s" using mappages_ok[OF assms(1-4) n] by simp
  have "unat (va + word_of_nat off) = unat va + off" using assms(4,11) by (intro unat_plus_small) simp
  then have lim: "unat (va + word_of_nat off) + Suc (length cs) \<le> 2 ^ 38" using assms(4,11) by simp
  have f: "vaddr2paddr root (va + word_of_nat off + word_of_nat k) s' = Some (pa + off + k) \<and> pa + off + k \<noteq> 0"
    if "k \<le> length cs" for k
    using mapped_vaddr2paddr[OF assms(1-9), of "off + k"] that assms(6,11) by (simp add: add.assoc)
  have "copyin_string_loop root dst dst (va + word_of_nat off) mx s' = Some (int (dst + length cs) - int dst, s'\<lparr>bytes := (\<lambda>a.
    if dst \<le> a \<and> a \<le> dst + length cs then bytes s' (pa + off + (a - dst)) else bytes s' a)\<rparr>)"
  proof (rule copyin_string_loop_ok[OF lim assms(12) f])
    show "bytes s' (pa + off + k) \<noteq> 0" if "k < length cs" for k
      using str_at_nth[OF assms(10) that] by (simp add: b)
    show "bytes s' (pa + off + length cs) = 0" using str_at_end[OF assms(10)] by (simp add: b)
  qed (use assms(13) in auto)
  then show ?thesis unfolding b copyin_string_def by (simp add: copied_def less_Suc_eq_le)
qed

lemma mapped_range_copyin_string_witness:
  "\<exists>root s. one_page_space root s \<and> copyin_string root 0x2000 0x1ffc 8 s = Some (0, s\<lparr>bytes := (\<lambda>_. 0)\<rparr>)"
proof -
  obtain root s where o: "one_page_space root s" using one_page_space by blast
  obtain s0 where s0: "tree_wf s0 root" "bytes s0 = (\<lambda>_. 0)"
    "mappages root 0x1000 (word_of_nat (1 * PGSIZE)) 0x80400000 0x1f s0 = Some (0, s)"
    using o unfolding one_page_space_def by blast
  have "bit (0x1f :: u64) 4" by simp
  moreover have "str_at (bytes s0) (0x80400000 + 0xffc) []" using s0(2) by simp
  ultimately have "copyin_string root 0x2000 (0x1000 + word_of_nat 0xffc) 8 s
    = Some (int (length ([] :: byte list)), s\<lparr>bytes := copied (bytes s0) 0x2000 (0x80400000 + 0xffc) (Suc (length ([] :: byte list)))\<rparr>)"
    by (intro mapped_range_copyin_string[OF s0(1,3)]) (simp_all add: dvd_eq_mod_eq_0)
  moreover have "copied (bytes s0) 0x2000 (0x80400000 + 0xffc) (Suc 0) = (\<lambda>_. 0)" by (simp add: copied_def s0(2))
  ultimately show ?thesis using o by auto
qed

end
