(* ===== verification/Spinlock.thy ===== *)
theory Spinlock
  imports Uniks_Base
begin

text \<open>
  The spin locks of kernel/sync/spinlock.c on any number of harts. The two long operations are cut at
  the points where another hart can see a difference: \<open>do_acquire\<close> is \<open>acquire_enter\<close> (interrupts off,
  the check for a second acquisition), any number of turns of \<open>acquire_spin\<close> (the atomic test-and-set)
  and \<open>acquire_own\<close> (the owner is written); \<open>do_release\<close> is \<open>release_disown\<close>, \<open>release_unlock\<close> and
  \<open>release_exit\<close>. A hart's \<open>pc\<close> says which of these comes next, and \<open>lock_step\<close> lets any hart move.
  A failed assertion or a panic ends in \<open>panicked\<close>, from which there is no step.
\<close>

section \<open>State and operations\<close>

record spinlock_t =
  locked :: bool
  cpu :: int

record cpu_t =
  repeat :: nat
  preintstat :: bool
  sie :: bool

definition initlock :: spinlock_t where
  "initlock = \<lparr>locked = False, cpu = -1\<rparr>"

definition holding :: "nat \<Rightarrow> spinlock_t \<Rightarrow> bool" where
  "holding cpuid lk \<longleftrightarrow> locked lk \<and> cpu lk = int cpuid"

definition push_off :: "cpu_t \<Rightarrow> cpu_t" where
  "push_off c =
     (let old = sie c;
          c1 = c\<lparr>sie := False\<rparr>;
          c2 = (if repeat c1 = 0 then c1\<lparr>preintstat := old\<rparr> else c1)
      in c2\<lparr>repeat := repeat c2 + 1\<rparr>)"

definition pop_off :: "cpu_t \<Rightarrow> cpu_t option" where
  "pop_off c = do {
     cassert (\<not> sie c);
     cassert (repeat c \<ge> 1);
     let c1 = c\<lparr>repeat := repeat c - 1\<rparr>;
     Some (if repeat c1 = 0 \<and> preintstat c1 then c1\<lparr>sie := True\<rparr> else c1) }"

text \<open>\<open>myproc\<close> reads the hart's process between \<open>push_off\<close> and \<open>pop_off\<close>.\<close>

definition myproc :: "('c \<Rightarrow> 'p) \<Rightarrow> 'c \<Rightarrow> cpu_t \<Rightarrow> ('p \<times> cpu_t) option" where
  "myproc proc_of c hart = do {
     let h1 = push_off hart;
     h2 \<leftarrow> pop_off h1;
     Some (proc_of c, h2) }"

text \<open>\<open>Run\<close>: outside the two operations; \<open>Spin\<close>: before a turn of the test-and-set loop; \<open>Own\<close>: the flag is
  set, the owner not yet written; \<open>Unlock\<close>: the owner is erased, the flag still set; \<open>Leave\<close>: before the
  final \<open>pop_off\<close>.\<close>

datatype 'l pc =
  Run
| Spin 'l
| Own 'l
| Unlock 'l
| Leave

record 'l machine =
  harts :: "nat \<Rightarrow> cpu_t"
  lks :: "'l \<Rightarrow> spinlock_t"
  pcs :: "nat \<Rightarrow> 'l pc"
  panicked :: bool

definition acquire_enter :: "nat \<Rightarrow> 'l \<Rightarrow> 'l machine \<Rightarrow> 'l machine" where
  "acquire_enter h lk s =
     (let s1 = s\<lparr>harts := (harts s)(h := push_off (harts s h))\<rparr>
      in if holding h (lks s1 lk) then s1\<lparr>panicked := True\<rparr>
         else s1\<lparr>pcs := (pcs s1)(h := Spin lk)\<rparr>)"

definition acquire_spin :: "nat \<Rightarrow> 'l \<Rightarrow> 'l machine \<Rightarrow> 'l machine" where
  "acquire_spin h lk s =
     (if locked (lks s lk) then s
      else s\<lparr>lks := (lks s)(lk := (lks s lk)\<lparr>locked := True\<rparr>), pcs := (pcs s)(h := Own lk)\<rparr>)"

definition acquire_own :: "nat \<Rightarrow> 'l \<Rightarrow> 'l machine \<Rightarrow> 'l machine" where
  "acquire_own h lk s =
     s\<lparr>lks := (lks s)(lk := (lks s lk)\<lparr>cpu := int h\<rparr>), pcs := (pcs s)(h := Run)\<rparr>"

definition release_disown :: "nat \<Rightarrow> 'l \<Rightarrow> 'l machine \<Rightarrow> 'l machine" where
  "release_disown h lk s =
     (if \<not> holding h (lks s lk) then s\<lparr>panicked := True\<rparr>
      else s\<lparr>lks := (lks s)(lk := (lks s lk)\<lparr>cpu := -1\<rparr>), pcs := (pcs s)(h := Unlock lk)\<rparr>)"

definition release_unlock :: "nat \<Rightarrow> 'l \<Rightarrow> 'l machine \<Rightarrow> 'l machine" where
  "release_unlock h lk s =
     s\<lparr>lks := (lks s)(lk := (lks s lk)\<lparr>locked := False\<rparr>), pcs := (pcs s)(h := Leave)\<rparr>"

definition release_exit :: "nat \<Rightarrow> 'l machine \<Rightarrow> 'l machine" where
  "release_exit h s =
     (case pop_off (harts s h) of None \<Rightarrow> s\<lparr>panicked := True\<rparr>
      | Some c \<Rightarrow> s\<lparr>harts := (harts s)(h := c), pcs := (pcs s)(h := Run)\<rparr>)"

section \<open>Interleaving\<close>

text \<open>A hart outside the operations may start one on any lock, and may switch its interrupts as long
  as it is in no \<open>push_off\<close>, as the trap code does. The label of a step says when an acquisition is
  complete and when a release begins.\<close>

datatype 'l event = Tau | Acquired nat 'l | Released nat 'l

inductive lock_step :: "'l machine \<Rightarrow> 'l event \<Rightarrow> 'l machine \<Rightarrow> bool" where
  enter: "\<not> panicked s \<Longrightarrow> pcs s h = Run \<Longrightarrow> lock_step s Tau (acquire_enter h lk s)"
| spin: "\<not> panicked s \<Longrightarrow> pcs s h = Spin lk \<Longrightarrow> lock_step s Tau (acquire_spin h lk s)"
| own: "\<not> panicked s \<Longrightarrow> pcs s h = Own lk \<Longrightarrow> lock_step s (Acquired h lk) (acquire_own h lk s)"
| disown: "\<not> panicked s \<Longrightarrow> pcs s h = Run \<Longrightarrow> lock_step s (Released h lk) (release_disown h lk s)"
| unlock: "\<not> panicked s \<Longrightarrow> pcs s h = Unlock lk \<Longrightarrow> lock_step s Tau (release_unlock h lk s)"
| leave: "\<not> panicked s \<Longrightarrow> pcs s h = Leave \<Longrightarrow> lock_step s Tau (release_exit h s)"
| interrupts: "\<not> panicked s \<Longrightarrow> pcs s h = Run \<Longrightarrow> repeat (harts s h) = 0 \<Longrightarrow>
    lock_step s Tau (s\<lparr>harts := (harts s)(h := (harts s h)\<lparr>sie := b\<rparr>)\<rparr>)"

definition init_machine :: "'l machine \<Rightarrow> bool" where
  "init_machine s \<longleftrightarrow> (\<forall>lk. lks s lk = initlock) \<and> (\<forall>h. pcs s h = Run \<and> repeat (harts s h) = 0) \<and> \<not> panicked s"

text \<open>A state with the labels of the steps that led there, the newest first.\<close>

inductive reachable :: "'l event list \<Rightarrow> 'l machine \<Rightarrow> bool" where
  start: "init_machine s \<Longrightarrow> reachable [] s"
| step: "reachable es s \<Longrightarrow> lock_step s e t \<Longrightarrow> reachable (e # es) t"

text \<open>Hart \<open>h\<close> is in its critical section of \<open>lk\<close>: it has acquired and not yet released it.\<close>

fun critical :: "'l event list \<Rightarrow> nat \<Rightarrow> 'l \<Rightarrow> bool" where
  "critical [] h lk \<longleftrightarrow> False"
| "critical (Tau # es) h lk \<longleftrightarrow> critical es h lk"
| "critical (Acquired g k # es) h lk \<longleftrightarrow> g = h \<and> k = lk \<or> critical es h lk"
| "critical (Released g k # es) h lk \<longleftrightarrow> \<not> (g = h \<and> k = lk) \<and> critical es h lk"

section \<open>Invariant\<close>

definition held :: "'l machine \<Rightarrow> nat \<Rightarrow> 'l set" where
  "held s h = {lk. cpu (lks s lk) = int h}"

definition owns :: "'l machine \<Rightarrow> nat \<Rightarrow> 'l \<Rightarrow> bool" where
  "owns s h lk \<longleftrightarrow> lk \<in> held s h \<or> pcs s h = Own lk \<or> pcs s h = Unlock lk"

definition lock_inv :: "'l machine \<Rightarrow> bool" where
  "lock_inv s \<longleftrightarrow>
     (\<forall>lk. locked (lks s lk) \<longleftrightarrow> (\<exists>h. owns s h lk)) \<and>
     (\<forall>lk h g. owns s h lk \<longrightarrow> owns s g lk \<longrightarrow> h = g) \<and>
     (\<forall>h lk. pcs s h = Own lk \<or> pcs s h = Unlock lk \<longrightarrow> lk \<notin> held s h) \<and>
     (\<forall>h. finite (held s h) \<and> (panicked s \<or>
        repeat (harts s h) = card (held s h) + (if pcs s h = Run then 0 else 1))) \<and>
     (\<forall>h. 0 < repeat (harts s h) \<longrightarrow> \<not> sie (harts s h))"

lemma lock_inv_init: "init_machine s \<Longrightarrow> lock_inv s"
  by (simp add: lock_inv_def init_machine_def owns_def held_def initlock_def)

lemma push_off_simps [simp]: "repeat (push_off c) = repeat c + 1" "\<not> sie (push_off c)"
  by (simp_all add: push_off_def Let_def)

lemma held_update_cpu:
  "held (s\<lparr>lks := (lks s)(lk := (lks s lk)\<lparr>cpu := c\<rparr>)\<rparr>) h
     = (if c = int h then insert lk (held s h) else held s h - {lk})"
  by (auto simp: held_def)

lemma held_update_locked [simp]: "held (s\<lparr>lks := (lks s)(lk := (lks s lk)\<lparr>locked := b\<rparr>)\<rparr>) h = held s h"
  by (auto simp: held_def)

lemma held_frame [simp]: "held (s\<lparr>pcs := p\<rparr>) h = held s h" "held (s\<lparr>harts := x\<rparr>) h = held s h"
  "held (s\<lparr>panicked := b\<rparr>) h = held s h"
  by (simp_all add: held_def)

lemma holding_iff: "lock_inv s \<Longrightarrow> holding h (lks s lk) \<longleftrightarrow> lk \<in> held s h"
  by (auto simp: holding_def lock_inv_def owns_def held_def)

lemma lock_invD:
  assumes "lock_inv s"
  shows "locked (lks s lk) \<longleftrightarrow> (\<exists>h. owns s h lk)"
    "owns s h lk \<Longrightarrow> owns s g lk \<Longrightarrow> h = g"
    "pcs s h = Own lk \<Longrightarrow> lk \<notin> held s h" "pcs s h = Unlock lk \<Longrightarrow> lk \<notin> held s h"
    "finite (held s h)"
    "\<not> panicked s \<Longrightarrow> repeat (harts s h) = card (held s h) + (if pcs s h = Run then 0 else 1)"
    "0 < repeat (harts s h) \<Longrightarrow> \<not> sie (harts s h)"
  using assms unfolding lock_inv_def by blast+

lemma lock_invI:
  assumes "\<And>lk. locked (lks s lk) \<longleftrightarrow> (\<exists>h. owns s h lk)"
    "\<And>lk h g. owns s h lk \<Longrightarrow> owns s g lk \<Longrightarrow> h = g"
    "\<And>h lk. pcs s h = Own lk \<or> pcs s h = Unlock lk \<Longrightarrow> lk \<notin> held s h"
    "\<And>h. finite (held s h)"
    "\<And>h. \<not> panicked s \<Longrightarrow> repeat (harts s h) = card (held s h) + (if pcs s h = Run then 0 else 1)"
    "\<And>h. 0 < repeat (harts s h) \<Longrightarrow> \<not> sie (harts s h)"
  shows "lock_inv s"
  unfolding lock_inv_def using assms by blast

lemma enter_inv:
  assumes inv: "lock_inv s" and "\<not> panicked s" "pcs s h = Run"
  shows "lock_inv (acquire_enter h lk s)"
proof -
  let ?t = "acquire_enter h lk s"
  have own: "owns ?t g l = owns s g l" for g l
    using assms(3) by (auto simp: acquire_enter_def owns_def Let_def)
  have held: "held ?t g = held s g" for g by (auto simp: acquire_enter_def held_def Let_def)
  note D = lock_invD[OF inv]
  show ?thesis
  proof (rule lock_invI, unfold own held)
    show "locked (lks ?t l) \<longleftrightarrow> (\<exists>h. owns s h l)" for l using D(1) by (simp add: acquire_enter_def Let_def)
    show "l \<notin> held s g" if "pcs ?t g = Own l \<or> pcs ?t g = Unlock l" for g l
      using that D(3,4) by (auto simp: acquire_enter_def Let_def split: if_splits)
    show "repeat (harts ?t g) = card (held s g) + (if pcs ?t g = Run then 0 else 1)" if "\<not> panicked ?t" for g
      using that D(6)[OF assms(2)] assms(3) by (auto simp: acquire_enter_def Let_def split: if_splits)
    show "\<not> sie (harts ?t g)" if "0 < repeat (harts ?t g)" for g
      using that D(7) by (auto simp: acquire_enter_def Let_def split: if_splits)
  qed (use D(2,5) in blast)+
qed

lemma spin_inv:
  assumes inv: "lock_inv s" and "\<not> panicked s" "pcs s h = Spin lk"
  shows "lock_inv (acquire_spin h lk s)"
proof (cases "locked (lks s lk)")
  case True
  then show ?thesis using inv by (simp add: acquire_spin_def)
next
  case False
  let ?t = "acquire_spin h lk s"
  note D = lock_invD[OF inv]
  have none: "\<not> owns s g lk" for g using D(1) False by blast
  have held: "held ?t g = held s g" for g by (auto simp: acquire_spin_def held_def)
  have own: "owns ?t g l \<longleftrightarrow> owns s g l \<or> g = h \<and> l = lk" for g l
    using assms(3) False unfolding owns_def held by (auto simp: acquire_spin_def)
  show ?thesis
  proof (rule lock_invI, unfold own held)
    show "locked (lks ?t l) \<longleftrightarrow> (\<exists>g. owns s g l \<or> g = h \<and> l = lk)" for l
      using D(1) False by (auto simp: acquire_spin_def)
    show "g = g'" if "owns s g l \<or> g = h \<and> l = lk" "owns s g' l \<or> g' = h \<and> l = lk" for g g' l
      using that none D(2) by blast
    show "l \<notin> held s g" if "pcs ?t g = Own l \<or> pcs ?t g = Unlock l" for g l
      using that D(3,4) none False by (auto simp: acquire_spin_def owns_def split: if_splits)
    show "repeat (harts ?t g) = card (held s g) + (if pcs ?t g = Run then 0 else 1)" for g
      using D(6)[OF assms(2), of g] assms(3) False by (auto simp: acquire_spin_def)
    show "\<not> sie (harts ?t g)" if "0 < repeat (harts ?t g)" for g
      using that D(7) False by (auto simp: acquire_spin_def)
  qed (use D(5) in blast)
qed

lemma own_inv:
  assumes inv: "lock_inv s" and "\<not> panicked s" "pcs s h = Own lk"
  shows "lock_inv (acquire_own h lk s)"
proof -
  let ?t = "acquire_own h lk s"
  note D = lock_invD[OF inv]
  have ho: "owns s h lk" using assms(3) by (simp add: owns_def)
  have others: "lk \<notin> held s g" if "g \<noteq> h" for g using D(2)[OF ho, of g] that by (auto simp: owns_def)
  have held: "held ?t g = (if g = h then insert lk (held s g) else held s g)" for g
    using others by (auto simp: acquire_own_def held_def split: if_splits)
  have own: "owns ?t g l = owns s g l" for g l
    using assms(3) unfolding owns_def held by (auto simp: acquire_own_def)
  show ?thesis
  proof (rule lock_invI, unfold own)
    show "locked (lks ?t l) \<longleftrightarrow> (\<exists>h. owns s h l)" for l using D(1) by (auto simp: acquire_own_def)
    show "l \<notin> held ?t g" if "pcs ?t g = Own l \<or> pcs ?t g = Unlock l" for g l
      using that D(3,4) unfolding held by (auto simp: acquire_own_def split: if_splits)
    show "repeat (harts ?t g) = card (held ?t g) + (if pcs ?t g = Run then 0 else 1)" for g
      using D(6)[OF assms(2), of g] assms(3) D(3)[OF assms(3)] D(5)[of g] unfolding held
      by (auto simp: acquire_own_def)
    show "\<not> sie (harts ?t g)" if "0 < repeat (harts ?t g)" for g
      using that D(7) by (auto simp: acquire_own_def)
    show "finite (held ?t g)" for g using D(5) unfolding held by simp
  qed (use D(2) in blast)
qed

lemma disown_inv:
  assumes inv: "lock_inv s" and "\<not> panicked s" "pcs s h = Run"
  shows "lock_inv (release_disown h lk s)"
proof (cases "holding h (lks s lk)")
  case False
  then show ?thesis using inv
    by (simp add: release_disown_def lock_inv_def owns_def)
next
  case True
  let ?t = "release_disown h lk s"
  note D = lock_invD[OF inv]
  have hl: "lk \<in> held s h" using True holding_iff[OF inv] by blast
  have others: "lk \<notin> held s g" if "g \<noteq> h" for g using D(2)[of h lk g] hl that by (auto simp: owns_def)
  have held: "held ?t g = (if g = h then held s g - {lk} else held s g)" for g
    using others True by (auto simp: release_disown_def held_def split: if_splits)
  have own: "owns ?t g l = owns s g l" for g l
    using assms(3) hl True unfolding owns_def held by (auto simp: release_disown_def)
  show ?thesis
  proof (rule lock_invI, unfold own)
    show "locked (lks ?t l) \<longleftrightarrow> (\<exists>h. owns s h l)" for l using D(1) True by (auto simp: release_disown_def)
    show "l \<notin> held ?t g" if "pcs ?t g = Own l \<or> pcs ?t g = Unlock l" for g l
      using that D(3,4) True unfolding held by (auto simp: release_disown_def split: if_splits)
    have "card (held s h) = Suc (card (held s h - {lk}))"
      using card_Suc_Diff1[OF D(5) hl] by simp
    then show "repeat (harts ?t g) = card (held ?t g) + (if pcs ?t g = Run then 0 else 1)" for g
      using D(6)[OF assms(2), of g] assms(3) True unfolding held by (auto simp: release_disown_def)
    show "\<not> sie (harts ?t g)" if "0 < repeat (harts ?t g)" for g
      using that D(7) True by (auto simp: release_disown_def)
    show "finite (held ?t g)" for g using D(5) unfolding held by simp
  qed (use D(2) in blast)
qed

lemma unlock_inv:
  assumes inv: "lock_inv s" and "\<not> panicked s" "pcs s h = Unlock lk"
  shows "lock_inv (release_unlock h lk s)"
proof -
  let ?t = "release_unlock h lk s"
  note D = lock_invD[OF inv]
  have ho: "owns s h lk" "lk \<notin> held s h" using assms(3) D(4) by (simp_all add: owns_def)
  have held: "held ?t g = held s g" for g by (auto simp: release_unlock_def held_def)
  have own: "owns ?t g l \<longleftrightarrow> owns s g l \<and> l \<noteq> lk" for g l
  proof (cases "g = h")
    case True
    then show ?thesis using assms(3) ho unfolding owns_def held by (auto simp: release_unlock_def)
  next
    case False
    then have "\<not> owns s g lk" using D(2)[OF ho(1), of g] by blast
    then show ?thesis using False unfolding owns_def held by (auto simp: release_unlock_def)
  qed
  show ?thesis
  proof (rule lock_invI, unfold own held)
    show "locked (lks ?t l) \<longleftrightarrow> (\<exists>g. owns s g l \<and> l \<noteq> lk)" for l using D(1) by (auto simp: release_unlock_def)
    show "l \<notin> held s g" if "pcs ?t g = Own l \<or> pcs ?t g = Unlock l" for g l
      using that D(3,4) by (auto simp: release_unlock_def split: if_splits)
    show "repeat (harts ?t g) = card (held s g) + (if pcs ?t g = Run then 0 else 1)" for g
      using D(6)[OF assms(2), of g] assms(3) by (auto simp: release_unlock_def)
    show "\<not> sie (harts ?t g)" if "0 < repeat (harts ?t g)" for g
      using that D(7) by (auto simp: release_unlock_def)
  qed (use D(2,5) in blast)+
qed

lemma pop_off_returns: "repeat c \<ge> 1 \<Longrightarrow> \<not> sie c \<Longrightarrow> \<exists>c'. pop_off c = Some c' \<and>
    repeat c' = repeat c - 1 \<and> (0 < repeat c' \<longrightarrow> \<not> sie c')"
  by (auto simp: pop_off_def Let_def)

lemma leave_inv:
  assumes inv: "lock_inv s" and "\<not> panicked s" "pcs s h = Leave"
  shows "lock_inv (release_exit h s)" "\<not> panicked (release_exit h s)"
proof -
  let ?t = "release_exit h s"
  note D = lock_invD[OF inv]
  have r: "repeat (harts s h) = card (held s h) + 1" using D(6)[OF assms(2), of h] assms(3) by simp
  then have "\<not> sie (harts s h)" using D(7)[of h] by simp
  then obtain c where c: "pop_off (harts s h) = Some c" "repeat c = card (held s h)" "0 < repeat c \<longrightarrow> \<not> sie c"
    using pop_off_returns[of "harts s h"] r by auto
  have t: "?t = s\<lparr>harts := (harts s)(h := c), pcs := (pcs s)(h := Run)\<rparr>" by (simp add: release_exit_def c(1))
  have own: "owns ?t g l = owns s g l" for g l using assms(3) by (auto simp: t owns_def)
  show "lock_inv ?t"
  proof (rule lock_invI, unfold own)
    show "repeat (harts ?t g) = card (held ?t g) + (if pcs ?t g = Run then 0 else 1)" for g
      using D(6)[OF assms(2), of g] c(2) by (auto simp: t)
    show "\<not> sie (harts ?t g)" if "0 < repeat (harts ?t g)" for g
      using that D(7)[of g] c(3) by (auto simp: t split: if_splits)
    show "locked (lks ?t l) \<longleftrightarrow> (\<exists>h. owns s h l)" for l using D(1) by (simp add: t)
    show "l \<notin> held ?t g" if "pcs ?t g = Own l \<or> pcs ?t g = Unlock l" for g l
      using that D(3,4) by (auto simp: t split: if_splits)
    show "finite (held ?t g)" for g using D(5)[of g] by (simp add: t)
  qed (use D(2) in blast)
  show "\<not> panicked ?t" using assms(2) by (simp add: t)
qed

lemma lock_step_inv: "lock_step s e t \<Longrightarrow> lock_inv s \<Longrightarrow> lock_inv t"
proof (induction rule: lock_step.induct)
  case (interrupts s h b)
  then show ?case unfolding lock_inv_def owns_def by auto
qed (simp_all add: enter_inv spin_inv own_inv disown_inv unlock_inv leave_inv)

lemma reachable_inv: "reachable es s \<Longrightarrow> lock_inv s"
  by (induction rule: reachable.induct) (auto intro: lock_inv_init lock_step_inv)

lemma critical_held: "reachable es s \<Longrightarrow> \<not> panicked s \<Longrightarrow> critical es h lk \<longleftrightarrow> lk \<in> held s h"
proof (induction arbitrary: h lk rule: reachable.induct)
  case (start s)
  then show ?case by (simp add: init_machine_def held_def initlock_def)
next
  case (step es s e t)
  note inv = reachable_inv[OF step.hyps(1)]
  note D = lock_invD[OF inv]
  have np: "\<not> panicked s" using step.hyps(2) by (cases rule: lock_step.cases) auto
  note IH = step.IH[OF np]
  show ?case using step.hyps(2)
  proof (cases rule: lock_step.cases)
    case (own g k)
    have ho: "owns s g k" using own by (simp add: owns_def)
    have "k \<notin> held s h" if "h \<noteq> g" using D(2)[OF ho, of h] that by (auto simp: owns_def)
    then show ?thesis using own IH by (auto simp: acquire_own_def held_def)
  next
    case (disown g k)
    have hl: "k \<in> held s g"
      using disown step.prems holding_iff[OF inv] by (auto simp: release_disown_def split: if_splits)
    have "k \<notin> held s h" if "h \<noteq> g" using D(2)[of g k h] hl that by (auto simp: owns_def)
    then show ?thesis using disown IH hl holding_iff[OF inv] by (auto simp: release_disown_def held_def)
  qed (use IH in \<open>auto simp: acquire_enter_def acquire_spin_def release_unlock_def release_exit_def held_def Let_def
      split: option.splits\<close>)
qed

section \<open>Nested sections restore the interrupts\<close>

lemma pop_after_push: "pop_off (push_off c) = Some c" if "repeat c > 0 \<longrightarrow> \<not> sie c" "repeat c = 0 \<longrightarrow> preintstat c = sie c"
  using that by (cases c) (auto simp: pop_off_def push_off_def Let_def)

fun pop_offs :: "nat \<Rightarrow> cpu_t \<Rightarrow> cpu_t option" where
  "pop_offs 0 c = Some c"
| "pop_offs (Suc n) c = pop_off c \<bind> pop_offs n"

lemma push_offs_state:
  "repeat c = 0 \<Longrightarrow> 0 < n \<Longrightarrow> (push_off ^^ n) c = \<lparr>repeat = n, preintstat = sie c, sie = False\<rparr>"
proof (induction n)
  case (Suc n)
  then show ?case by (cases "n = 0") (auto simp: push_off_def Let_def)
qed simp

lemma pop_offs_state: "pop_offs n \<lparr>repeat = n, preintstat = b, sie = False\<rparr>
    = Some (if n = 0 then \<lparr>repeat = 0, preintstat = b, sie = False\<rparr> else \<lparr>repeat = 0, preintstat = b, sie = b\<rparr>)"
proof (induction n)
  case (Suc n)
  then show ?case by (cases n) (simp_all add: pop_off_def Let_def)
qed simp

section \<open>What the locks guarantee\<close>

text \<open>C13. On any number of harts and any interleaving, at most one hart is in the critical section of a
  lock; a hart in a critical section has its interrupts off and the lock says that it is the owner.\<close>

theorem spinlock_mutual_exclusion:
  assumes "reachable es s" "\<not> panicked s" "critical es h lk"
  shows "(\<forall>g. critical es g lk \<longrightarrow> g = h) \<and> holding h (lks s lk) \<and> \<not> sie (harts s h)"
proof -
  note inv = reachable_inv[OF assms(1)]
  note D = lock_invD[OF inv]
  have hl: "lk \<in> held s h" using critical_held[OF assms(1,2)] assms(3) by blast
  have "g = h" if "critical es g lk" for g
    using D(2)[of g lk h] hl that critical_held[OF assms(1,2)] by (auto simp: owns_def)
  moreover have "0 < repeat (harts s h)"
    using D(6)[OF assms(2), of h] hl D(5)[of h] card_gt_0_iff[of "held s h"] by auto
  ultimately show ?thesis using holding_iff[OF inv] hl D(7) by blast
qed

definition lock_machine0 :: "nat machine" where
  "lock_machine0 = \<lparr>harts = (\<lambda>_. \<lparr>repeat = 0, preintstat = False, sie = True\<rparr>), lks = (\<lambda>_. initlock),
     pcs = (\<lambda>_. Run), panicked = False\<rparr>"

lemma spinlock_mutual_exclusion_witness:
  "\<exists>es s. reachable es s \<and> critical es 0 (7::nat) \<and> holding 0 (lks s 7) \<and> \<not> sie (harts s 0)"
proof -
  let ?s1 = "acquire_enter 0 7 lock_machine0"
  let ?s2 = "acquire_spin 0 7 ?s1"
  let ?s3 = "acquire_own 0 7 ?s2"
  have r0: "reachable [] lock_machine0"
    by (rule reachable.start) (simp add: init_machine_def lock_machine0_def)
  have r1: "reachable [Tau] ?s1"
    by (rule reachable.step[OF r0 lock_step.enter]) (simp_all add: lock_machine0_def)
  have s1: "pcs ?s1 0 = Spin 7" "\<not> panicked ?s1" "lks ?s1 7 = initlock"
    by (simp_all add: acquire_enter_def lock_machine0_def Let_def holding_def initlock_def)
  have r2: "reachable [Tau, Tau] ?s2" by (rule reachable.step[OF r1 lock_step.spin[OF s1(2,1)]])
  have s2: "pcs ?s2 0 = Own 7" "\<not> panicked ?s2"
    using s1 by (simp_all add: acquire_spin_def initlock_def)
  have r3: "reachable [Acquired 0 7, Tau, Tau] ?s3" by (rule reachable.step[OF r2 lock_step.own[OF s2(2,1)]])
  have "\<not> panicked ?s3" using s2(2) by (simp add: acquire_own_def)
  then show ?thesis using spinlock_mutual_exclusion[OF r3] r3 by fastforce
qed

text \<open>The panics of the lock operations show misuse only: from a reachable state, entering
  \<open>do_acquire\<close> panics exactly when the hart is already in that critical section, starting \<open>do_release\<close>
  exactly when it is not, and the assertions of the final \<open>pop_off\<close> never fail.\<close>

theorem spinlock_panics_on_misuse_only:
  assumes "reachable es s" "\<not> panicked s"
  shows "(panicked (acquire_enter h lk s) \<longleftrightarrow> critical es h lk) \<and>
    (panicked (release_disown h lk s) \<longleftrightarrow> \<not> critical es h lk) \<and>
    (pcs s h = Leave \<longrightarrow> \<not> panicked (release_exit h s))"
  using critical_held[OF assms, of h lk] holding_iff[OF reachable_inv[OF assms(1)], of h lk] assms(2)
    leave_inv(2)[OF reachable_inv[OF assms(1)] assms(2), of h]
  by (auto simp: acquire_enter_def release_disown_def Let_def)

lemma spinlock_panics_on_misuse_only_witness: "panicked (release_disown 0 (7::nat) lock_machine0)"
proof -
  have "reachable [] lock_machine0"
    by (rule reachable.start) (simp add: init_machine_def lock_machine0_def)
  from spinlock_panics_on_misuse_only[OF this, of 0 7] show ?thesis by (simp add: lock_machine0_def)
qed

text \<open>Critical sections nest: \<open>n\<close> times \<open>push_off\<close> and then \<open>n\<close> times \<open>pop_off\<close> on a hart that is in
  no section return without a failed assertion, keep the interrupts off in between, and leave them as they were.\<close>

theorem push_off_pop_off_nest:
  assumes "repeat c = 0" "0 < n"
  shows "(\<forall>k. 0 < k \<and> k \<le> n \<longrightarrow> \<not> sie ((push_off ^^ k) c)) \<and>
    (\<exists>c'. pop_offs n ((push_off ^^ n) c) = Some c' \<and> sie c' = sie c \<and> repeat c' = 0)"
  using push_offs_state[OF assms(1)] pop_offs_state[of n "sie c"] assms(2) by simp

lemma push_off_pop_off_nest_witness:
  "\<exists>c'. pop_offs 3 ((push_off ^^ 3) \<lparr>repeat = 0, preintstat = False, sie = True\<rparr>) = Some c' \<and> sie c'"
  using push_off_pop_off_nest[of "\<lparr>repeat = 0, preintstat = False, sie = True\<rparr>" 3] by auto

end
