(* ===== verification/Proc.thy ===== *)
theory Proc
  imports Ring_Queue Sleep_Heap
begin

text \<open>
  Processes and the scheduler: kernel/process/proc.c, the process calls of kernel/sys/sysproc.c and
  the time slice of kernel/trap/trap.c. The process control blocks are the 64 entries of \<open>pcbtable\<close>;
  a list of processes (children, waiters) is the list of their pids. What a process owns besides
  (memory, files, directory) is the field \<open>resources\<close>, what all processes share of these the field
  \<open>shared\<close>, both of any type: the operations on them are arguments of \<open>do_fork\<close> and \<open>do_exit\<close>, and the theorems
  hold for all of them.

  An operation runs on hart \<open>h\<close>, whose process is \<open>current s h\<close> (0 is the idle process). Each definition is
  the code between two points where a context switch or another hart can come in: what one hart does under
  \<open>pcblock\<close>, \<open>wait_lock\<close> or \<open>sleep_lock\<close>. \<open>sched\<close> ends it by giving up the hart; what the process does when it
  runs again is a definition of its own.
\<close>

section \<open>State\<close>

datatype proc_state = TASK_UNUSED | TASK_INITING | TASK_BLOCK | TASK_READY | TASK_RUNNING | TASK_ZOMBIE

record 'r proc_t =
  pid :: nat
  parentpid :: nat
  state :: proc_state
  killed :: bool
  w4child :: bool
  exitstate :: int
  priority :: u32
  ticks :: u32
  jiffies :: u32
  wait_list :: "nat list"
  child_list :: "nat list"
  resources :: 'r

record ('r, 'g) kernel =
  pcbtable :: "'r proc_t option list"
  pids_queue :: "nat queue_meta_t"
  sleep_queue :: priority_queue_meta_t
  clock_ticks :: u64
  current :: "nat \<Rightarrow> nat"
  shared :: 'g

definition get_proc :: "nat \<Rightarrow> ('r, 'g) kernel \<Rightarrow> 'r proc_t option" where
  "get_proc i s = do { p \<leftarrow> nth_opt (pcbtable s) i; p }"

definition set_proc :: "nat \<Rightarrow> 'r proc_t option \<Rightarrow> ('r, 'g) kernel \<Rightarrow> ('r, 'g) kernel" where
  "set_proc i p s = s\<lparr>pcbtable := (pcbtable s)[i := p]\<rparr>"

definition put_state :: "nat \<Rightarrow> 'r proc_t \<Rightarrow> proc_state \<Rightarrow> ('r, 'g) kernel \<Rightarrow> ('r, 'g) kernel" where
  "put_state i p st s = set_proc i (Some (p\<lparr>state := st\<rparr>)) s"

section \<open>Process ids\<close>

text \<open>\<open>allocpid\<close>: \<open>None\<close> in the result is the \<open>-1\<close> of the source.\<close>

definition allocpid :: "('r, 'g) kernel \<Rightarrow> (nat option \<times> ('r, 'g) kernel) option" where
  "allocpid s =
     (if queue_empty (pids_queue s) then Some (None, s)
      else do {
        n \<leftarrow> queue_front (pids_queue s);
        q \<leftarrow> queue_front_pop (pids_queue s);
        Some (Some n, s\<lparr>pids_queue := q\<rparr>) })"

definition freepid :: "nat \<Rightarrow> ('r, 'g) kernel \<Rightarrow> ('r, 'g) kernel option" where
  "freepid n s = do {
     q \<leftarrow> queue_push (pids_queue s) n;
     Some (s\<lparr>pids_queue := q\<rparr>) }"

text \<open>\<open>proc_init\<close>; the locks start free (theory \<open>Spinlock\<close>), the two arrays are given.\<close>

definition idlepcb :: "'r \<Rightarrow> 'r proc_t" where
  "idlepcb r = \<lparr>pid = 0, parentpid = 0, state = TASK_RUNNING, killed = False, w4child = False,
     exitstate = 0, priority = 0, ticks = 0, jiffies = 0, wait_list = [], child_list = [], resources = r\<rparr>"

definition proc_init :: "nat list \<Rightarrow> (nat \<Rightarrow> pair_t) \<Rightarrow> 'r \<Rightarrow> 'g \<Rightarrow> ('r, 'g) kernel option" where
  "proc_init pids_queue_array sleep_queue_array r g = do {
     q0 \<leftarrow> queue_init (int NPROC) pids_queue_array;
     q \<leftarrow> for_each (\<lambda>i q. queue_push q i) [1..<NPROC] q0;
     pq \<leftarrow> priority_queue_init (int NPROC) sleep_queue_array;
     Some \<lparr>pcbtable = (replicate NPROC None)[0 := Some (idlepcb r)], pids_queue = q, sleep_queue = pq,
           clock_ticks = 0, current = (\<lambda>_. 0), shared = g\<rparr> }"

section \<open>Switching\<close>

text \<open>\<open>sched\<close> and the rest of the scheduler's turn: the hart goes back to the idle process.\<close>

definition sched :: "nat \<Rightarrow> ('r, 'g) kernel \<Rightarrow> ('r, 'g) kernel option" where
  "sched h s = do {
     p \<leftarrow> get_proc (current s h) s;
     cassert (state p \<noteq> TASK_RUNNING);
     Some (s\<lparr>current := (current s)(h := 0)\<rparr>) }"

text \<open>One visit of the scheduler loop on hart \<open>h\<close>: entry \<open>i\<close> runs if it is ready.\<close>

definition scheduler_visit :: "nat \<Rightarrow> nat \<Rightarrow> ('r, 'g) kernel \<Rightarrow> ('r, 'g) kernel" where
  "scheduler_visit h i s =
     (case get_proc i s of None \<Rightarrow> s
      | Some p \<Rightarrow> if state p = TASK_READY
          then put_state i p TASK_RUNNING (s\<lparr>current := (current s)(h := i)\<rparr>) else s)"

definition yield :: "nat \<Rightarrow> ('r, 'g) kernel \<Rightarrow> ('r, 'g) kernel option" where
  "yield h s = do {
     p \<leftarrow> get_proc (current s h) s;
     sched h (put_state (current s h) p TASK_READY s) }"

text \<open>The end of \<open>usertrap_handler\<close>: the time slice.\<close>

definition time_slice :: "nat \<Rightarrow> ('r, 'g) kernel \<Rightarrow> ('r, 'g) kernel option" where
  "time_slice h s = do {
     p \<leftarrow> get_proc (current s h) s;
     let p1 = p\<lparr>jiffies := ucast (clock_ticks s), ticks := ticks p - 1\<rparr>;
     if ticks p1 = 0 then do {
       cassert (state p1 = TASK_RUNNING);
       yield h (set_proc (current s h) (Some (p1\<lparr>ticks := priority p1\<rparr>)) s) }
     else Some (set_proc (current s h) (Some p1) s) }"

section \<open>Blocking and waking\<close>

text \<open>\<open>proc_block\<close> puts the current process at the front of a wait list; the list is its result.\<close>

definition proc_block :: "nat \<Rightarrow> nat list \<Rightarrow> ('r, 'g) kernel \<Rightarrow> (nat list \<times> ('r, 'g) kernel) option" where
  "proc_block h wl s = do {
     p \<leftarrow> get_proc (current s h) s;
     cassert (state p = TASK_RUNNING);
     s' \<leftarrow> sched h (put_state (current s h) p TASK_BLOCK s);
     Some (current s h # wl, s') }"

definition unblock_one :: "nat \<Rightarrow> nat \<Rightarrow> ('r, 'g) kernel \<Rightarrow> ('r, 'g) kernel option" where
  "unblock_one h i s = do {
     p \<leftarrow> get_proc i s;
     cassert (state p = TASK_BLOCK);
     cassert (i \<noteq> current s h);
     Some (put_state i p TASK_READY s) }"

definition proc_unblock_all :: "nat \<Rightarrow> nat list \<Rightarrow> ('r, 'g) kernel \<Rightarrow> (nat \<times> ('r, 'g) kernel) option" where
  "proc_unblock_all h wl s = do {
     s' \<leftarrow> for_each (unblock_one h) wl s;
     Some (length wl, s') }"

text \<open>\<open>time_wakeup\<close>, with the loop over the sleep queue. The count of ticks is unsigned, so the test compares the key without its sign.\<close>

function time_wakeup :: "nat \<Rightarrow> ('r, 'g) kernel \<Rightarrow> ('r, 'g) kernel option" where
  "time_wakeup h s =
     (if priority_queue_empty (sleep_queue s) then Some s
      else let temppair = priority_queue_top (sleep_queue s) in
        if clock_ticks s < key temppair then Some s
        else do {
          s1 \<leftarrow> unblock_one h (nat (pvalue temppair)) s;
          pq \<leftarrow> priority_queue_pop (sleep_queue s1);
          time_wakeup h (s1\<lparr>sleep_queue := pq\<rparr>) })"
  by auto
termination
proof (relation "measure (\<lambda>(h, s). nat (priority_queue_size (sleep_queue s)))", simp)
  fix h :: nat and s s1 :: "('r, 'g) kernel" and x pq
  assume "unblock_one h (nat (pvalue x)) s = Some s1" and p: "priority_queue_pop (sleep_queue s1) = Some pq"
  then have q: "sleep_queue s1 = sleep_queue s"
    by (auto simp: unblock_one_def put_state_def set_proc_def hoare_simps)
  have "nat (priority_queue_size pq) < nat (priority_queue_size (sleep_queue s))"
    using p unfolding q by (auto simp: priority_queue_pop_def priority_queue_empty_def Let_def hoare_simps)
  then show "((h, s1\<lparr>sleep_queue := pq\<rparr>), (h, s)) \<in> measure (\<lambda>(h, s). nat (priority_queue_size (sleep_queue s)))"
    by simp
qed

declare time_wakeup.simps [simp del]

text \<open>The timer interrupt: the boot hart counts, every hart wakes.\<close>

definition clock_interrupt_handler :: "nat \<Rightarrow> nat \<Rightarrow> ('r, 'g) kernel \<Rightarrow> ('r, 'g) kernel option" where
  "clock_interrupt_handler boothartid h s =
     time_wakeup h (if h = boothartid then s\<lparr>clock_ticks := clock_ticks s + 1\<rparr> else s)"

definition setkilled :: "nat \<Rightarrow> ('r, 'g) kernel \<Rightarrow> ('r, 'g) kernel option" where
  "setkilled i s = do { p \<leftarrow> get_proc i s; Some (set_proc i (Some (p\<lparr>killed := True\<rparr>)) s) }"

section \<open>System calls on processes\<close>

definition sys_getpid :: "nat \<Rightarrow> ('r, 'g) kernel \<Rightarrow> nat option" where
  "sys_getpid h s = do { p \<leftarrow> get_proc (current s h) s; Some (pid p) }"

definition sys_getppid :: "nat \<Rightarrow> ('r, 'g) kernel \<Rightarrow> nat option" where
  "sys_getppid h s = do { p \<leftarrow> get_proc (current s h) s; Some (parentpid p) }"

text \<open>\<open>sys_msleep\<close>; a jiffy is one millisecond. The sum wraps, and the queue takes it as a signed number.\<close>

definition sys_msleep :: "nat \<Rightarrow> u64 \<Rightarrow> ('r, 'g) kernel \<Rightarrow> ('r, 'g) kernel option" where
  "sys_msleep h ms s = do {
     p \<leftarrow> get_proc (current s h) s;
     let target_ticks = (if ms div 1 < 1 then 1 else ms div 1);
     pq \<leftarrow> priority_queue_push (sleep_queue s) (Pair (target_ticks + clock_ticks s) (int (current s h)));
     sched h (put_state (current s h) p TASK_BLOCK (s\<lparr>sleep_queue := pq\<rparr>)) }"

text \<open>\<open>sys_kill\<close> as it is written: the flag and the state of \<open>p\<close>, the calling process, are changed, not those
  of the target.\<close>

definition sys_kill :: "nat \<Rightarrow> nat \<Rightarrow> ('r, 'g) kernel \<Rightarrow> (int \<times> ('r, 'g) kernel) option" where
  "sys_kill h target_pid s = do {
     p \<leftarrow> get_proc (current s h) s;
     t \<leftarrow> nth_opt (pcbtable s) target_pid;
     if t \<noteq> None then do {
       pq \<leftarrow> priority_queue_pop_v (sleep_queue s) (int target_pid);
       let p1 = p\<lparr>killed := True\<rparr>;
       let p2 = (if state p1 = TASK_BLOCK then p1\<lparr>state := TASK_READY\<rparr> else p1);
       Some (0, set_proc (current s h) (Some p2) (s\<lparr>sleep_queue := pq\<rparr>)) }
     else Some (-1, s) }"

text \<open>Exit. \<open>reparent\<close> gives the children to process 1; both it and \<open>do_exit\<close> contain an assignment inside an
  assertion (\<open>assert(x->state = TASK_BLOCK)\<close>), which sets the state and never fails.\<close>

definition reparent_one :: "nat \<Rightarrow> nat \<Rightarrow> ('r, 'g) kernel \<Rightarrow> ('r, 'g) kernel option" where
  "reparent_one i c s = do {
     childp \<leftarrow> get_proc c s;
     cassert (parentpid childp = i);
     init \<leftarrow> get_proc 1 s;
     let s1 = set_proc 1 (Some (init\<lparr>child_list := c # child_list init\<rparr>)) s;
     childp1 \<leftarrow> get_proc c s1;
     let s2 = set_proc c (Some (childp1\<lparr>parentpid := 1\<rparr>)) s1;
     init2 \<leftarrow> get_proc 1 s2;
     Some (if w4child init2 then put_state 1 init2 TASK_READY s2 else s2) }"

definition reparent :: "nat \<Rightarrow> ('r, 'g) kernel \<Rightarrow> ('r, 'g) kernel option" where
  "reparent i s = do {
     p \<leftarrow> get_proc i s;
     for_each (reparent_one i) (child_list p) (set_proc i (Some (p\<lparr>child_list := []\<rparr>)) s) }"

text \<open>\<open>do_exit\<close>; \<open>freeproc\<close> releases what the process owns.\<close>

definition do_exit :: "('r \<Rightarrow> 'g \<Rightarrow> ('r \<times> 'g) option) \<Rightarrow> nat \<Rightarrow> int \<Rightarrow> ('r, 'g) kernel \<Rightarrow> ('r, 'g) kernel option" where
  "do_exit freeproc h status s = do {
     let i = current s h;
     cassert (i \<noteq> 0);
     cassert (i \<noteq> 1);
     s1 \<leftarrow> reparent i s;
     p \<leftarrow> get_proc i s1;
     (r, g) \<leftarrow> freeproc (resources p) (shared s1);
     let s2 = set_proc i (Some (p\<lparr>exitstate := status, state := TASK_ZOMBIE, resources := r\<rparr>)) (s1\<lparr>shared := g\<rparr>);
     (num, s3) \<leftarrow> proc_unblock_all h (wait_list p) s2;
     p3 \<leftarrow> get_proc i s3;
     let s4 = set_proc i (Some (p3\<lparr>wait_list := []\<rparr>)) s3;
     s5 \<leftarrow> (if num = 0 then do {
              parentp \<leftarrow> get_proc (parentpid p) s4;
              cassert (parentpid p = pid parentp);
              Some (if w4child parentp then put_state (parentpid p) parentp TASK_READY s4 else s4) }
            else Some s4);
     sched h s5 }"

text \<open>\<open>sys_wait4\<close> for any child: the scan of the children under \<open>wait_lock\<close>, which takes the first dead one
  off the list; the sleep that follows when there is none; the flag reset after it.\<close>

fun scan_children :: "('r, 'g) kernel \<Rightarrow> nat \<Rightarrow> nat list \<Rightarrow> nat option option" where
  "scan_children s i [] = Some None"
| "scan_children s i (c # cs) = do {
     childp \<leftarrow> get_proc c s;
     cassert (parentpid childp = i);
     if state childp = TASK_ZOMBIE then Some (Some c) else scan_children s i cs }"

definition wait4_scan :: "nat \<Rightarrow> ('r, 'g) kernel \<Rightarrow> (bool \<times> nat option \<times> ('r, 'g) kernel) option" where
  "wait4_scan h s = do {
     p \<leftarrow> get_proc (current s h) s;
     found \<leftarrow> scan_children s (pid p) (child_list p);
     Some (child_list p \<noteq> [], found,
       case found of None \<Rightarrow> s
       | Some c \<Rightarrow> set_proc (current s h) (Some (p\<lparr>child_list := remove1 c (child_list p)\<rparr>)) s) }"

definition wait4_sleep :: "nat \<Rightarrow> ('r, 'g) kernel \<Rightarrow> ('r, 'g) kernel option" where
  "wait4_sleep h s = do {
     p \<leftarrow> get_proc (current s h) s;
     sched h (put_state (current s h) (p\<lparr>w4child := True\<rparr>) TASK_BLOCK s) }"

definition wait4_woken :: "nat \<Rightarrow> ('r, 'g) kernel \<Rightarrow> ('r, 'g) kernel option" where
  "wait4_woken h s = do {
     p \<leftarrow> get_proc (current s h) s;
     Some (set_proc (current s h) (Some (p\<lparr>w4child := False\<rparr>)) s) }"

text \<open>The end of \<open>sys_wait4\<close>: the exit status goes to user memory (\<open>put_status\<close>; \<open>False\<close> when the area is not the
  caller's), the pid is free again and the entry empty. \<open>Return\<close> carries the result of the call; \<open>Asleep\<close> stands
  for a call whose process sleeps in it, or is about to.\<close>

datatype wait4_result = Return int | Asleep

definition wait4_finish :: "(int \<Rightarrow> 'r \<Rightarrow> 'g \<Rightarrow> (bool \<times> 'g) option) \<Rightarrow> nat \<Rightarrow> nat \<Rightarrow> ('r, 'g) kernel \<Rightarrow>
    (wait4_result \<times> ('r, 'g) kernel) option" where
  "wait4_finish put_status h target_pid s = do {
     p \<leftarrow> get_proc (current s h) s;
     target_p \<leftarrow> get_proc target_pid s;
     cassert (state target_p = TASK_ZOMBIE);
     (ok, g) \<leftarrow> put_status (exitstate target_p) (resources p) (shared s);
     let s1 = s\<lparr>shared := g\<rparr>;
     if ok then do {
       s2 \<leftarrow> freepid (pid target_p) s1;
       Some (Return (int target_pid), set_proc target_pid None s2) }
     else Some (Return (int target_pid), s1) }"

text \<open>One turn of the wait for any child, up to the point where \<open>wait_lock\<close> is released before the sleep.\<close>

definition wait4_any :: "(int \<Rightarrow> 'r \<Rightarrow> 'g \<Rightarrow> (bool \<times> 'g) option) \<Rightarrow> nat \<Rightarrow> ('r, 'g) kernel \<Rightarrow>
    (wait4_result \<times> ('r, 'g) kernel) option" where
  "wait4_any put_status h s = do {
     (havekids, found, s1) \<leftarrow> wait4_scan h s;
     p \<leftarrow> get_proc (current s1 h) s1;
     if \<not> havekids \<or> killed p then Some (Return (-1), s1)
     else case found of
       None \<Rightarrow> Some (Asleep, s1)
     | Some c \<Rightarrow> wait4_finish put_status h c s1 }"

text \<open>The wait for one process. The pointer to it is read once: after a sleep the loop goes on with that
  pointer, which is freed memory when the entry is gone; the model reads the entry again, so there it halts, and it
  does not tell apart a process that has taken the pid meanwhile. It is no error to name a process that is not a child,
  and the child list of the caller is left as it is.\<close>

definition wait4_pid_loop :: "(int \<Rightarrow> 'r \<Rightarrow> 'g \<Rightarrow> (bool \<times> 'g) option) \<Rightarrow> nat \<Rightarrow> nat \<Rightarrow> ('r, 'g) kernel \<Rightarrow>
    (wait4_result \<times> ('r, 'g) kernel) option" where
  "wait4_pid_loop put_status h target_pid s = do {
     target_p \<leftarrow> get_proc target_pid s;
     if state target_p \<noteq> TASK_ZOMBIE then do {
       (wl, s1) \<leftarrow> proc_block h (wait_list target_p) s;
       tp1 \<leftarrow> get_proc target_pid s1;
       Some (Asleep, set_proc target_pid (Some (tp1\<lparr>wait_list := wl\<rparr>)) s1) }
     else wait4_finish put_status h target_pid s }"

definition wait4_pid :: "(int \<Rightarrow> 'r \<Rightarrow> 'g \<Rightarrow> (bool \<times> 'g) option) \<Rightarrow> nat \<Rightarrow> nat \<Rightarrow> ('r, 'g) kernel \<Rightarrow>
    (wait4_result \<times> ('r, 'g) kernel) option" where
  "wait4_pid put_status h target_pid s = do {
     t \<leftarrow> nth_opt (pcbtable s) target_pid;
     if t = None then Some (Return (-1), s) else wait4_pid_loop put_status h target_pid s }"

text \<open>\<open>sys_wait4\<close> up to its first sleep.\<close>

definition sys_wait4 :: "(int \<Rightarrow> 'r \<Rightarrow> 'g \<Rightarrow> (bool \<times> 'g) option) \<Rightarrow> nat \<Rightarrow> int \<Rightarrow> ('r, 'g) kernel \<Rightarrow>
    (wait4_result \<times> ('r, 'g) kernel) option" where
  "sys_wait4 put_status h target_pid s = do {
     cassert (current s h \<noteq> 0);
     p \<leftarrow> get_proc (current s h) s;
     if int (pid p) = target_pid then Some (Return (-1), s)
     else if target_pid = -1 then wait4_any put_status h s
     else if 0 < target_pid then wait4_pid put_status h (nat target_pid) s
     else None }"

text \<open>\<open>allocproc\<close>: a new entry under a fresh pid; \<open>new_resources\<close> makes the stack page and the address space. The
  error exits of the source are dead, because \<open>pages_alloc\<close> never returns NULL (theory \<open>Buddy\<close>). \<open>do_fork\<close> makes it
  a child of the caller, with \<open>copy\<close> of the caller's memory and files.\<close>

definition allocproc :: "('g \<Rightarrow> ('r \<times> 'g) option) \<Rightarrow> ('r, 'g) kernel \<Rightarrow> (nat option \<times> ('r, 'g) kernel) option" where
  "allocproc new_resources s = do {
     (n, s1) \<leftarrow> allocpid s;
     case n of None \<Rightarrow> Some (None, s1)
     | Some i \<Rightarrow> do {
         _ \<leftarrow> nth_opt (pcbtable s1) i;
         (r, g) \<leftarrow> new_resources (shared s1);
         Some (Some i, set_proc i (Some \<lparr>pid = i, parentpid = 0, state = TASK_INITING, killed = False,
           w4child = False, exitstate = 0, priority = 0, ticks = 0, jiffies = 0, wait_list = [],
           child_list = [], resources = r\<rparr>) (s1\<lparr>shared := g\<rparr>)) } }"

definition do_fork :: "('g \<Rightarrow> ('r \<times> 'g) option) \<Rightarrow> ('r \<Rightarrow> 'r \<Rightarrow> 'g \<Rightarrow> ('r \<times> 'g) option) \<Rightarrow>
    nat \<Rightarrow> ('r, 'g) kernel \<Rightarrow> (int \<times> ('r, 'g) kernel) option" where
  "do_fork new_resources copy h s = do {
     parentproc \<leftarrow> get_proc (current s h) s;
     (n, s1) \<leftarrow> allocproc new_resources s;
     case n of None \<Rightarrow> Some (-1, s1)
     | Some i \<Rightarrow> do {
         childproc \<leftarrow> get_proc i s1;
         (r, g) \<leftarrow> copy (resources childproc) (resources parentproc) (shared s1);
         let s2 = set_proc i (Some (childproc\<lparr>parentpid := pid parentproc, state := TASK_READY,
           jiffies := jiffies parentproc, ticks := ticks parentproc, priority := priority parentproc,
           resources := r\<rparr>)) (s1\<lparr>shared := g\<rparr>);
         let s3 = set_proc (current s h) (Some (parentproc\<lparr>child_list := i # child_list parentproc\<rparr>)) s2;
         Some (int i, s3) } }"

text \<open>\<open>user_init\<close>: the first process, with the page of \<open>initcode\<close> in its memory (\<open>load_initcode\<close>).\<close>

definition user_init :: "('g \<Rightarrow> ('r \<times> 'g) option) \<Rightarrow> ('r \<Rightarrow> 'g \<Rightarrow> ('r \<times> 'g) option) \<Rightarrow> u32 \<Rightarrow>
    ('r, 'g) kernel \<Rightarrow> ('r, 'g) kernel option" where
  "user_init new_resources load_initcode prio s = do {
     (n, s1) \<leftarrow> allocproc new_resources s;
     i \<leftarrow> n;
     p \<leftarrow> get_proc i s1;
     cassert (pid p = 1);
     (r, g) \<leftarrow> load_initcode (resources p) (shared s1);
     Some (set_proc i (Some (p\<lparr>parentpid := 0, state := TASK_READY, ticks := prio, priority := prio, resources := r\<rparr>))
       (s1\<lparr>shared := g\<rparr>)) }"

section \<open>How the operations read and write the table\<close>

lemma get_set_proc: "i < length (pcbtable s) \<Longrightarrow> get_proc j (set_proc i p s) = (if j = i then p else get_proc j s)"
  by (auto simp: get_proc_def set_proc_def nth_opt_def)

lemma get_proc_bound: "get_proc i s = Some p \<Longrightarrow> i < length (pcbtable s)"
  by (auto simp: get_proc_def hoare_simps)

lemma set_proc_fields [simp]:
  "length (pcbtable (set_proc i p s)) = length (pcbtable s)" "pids_queue (set_proc i p s) = pids_queue s"
  "sleep_queue (set_proc i p s) = sleep_queue s" "clock_ticks (set_proc i p s) = clock_ticks s"
  "current (set_proc i p s) = current s" "shared (set_proc i p s) = shared s"
  by (simp_all add: set_proc_def)

lemma get_proc_frame [simp]:
  "get_proc i (s\<lparr>pids_queue := q\<rparr>) = get_proc i s" "get_proc i (s\<lparr>sleep_queue := pq\<rparr>) = get_proc i s"
  "get_proc i (s\<lparr>clock_ticks := n\<rparr>) = get_proc i s" "get_proc i (s\<lparr>current := c\<rparr>) = get_proc i s"
  "get_proc i (s\<lparr>shared := g\<rparr>) = get_proc i s"
  by (simp_all add: get_proc_def)

end
