(* ===== verification/Sched_Refine.thy ===== *)
theory Sched_Refine
  imports Proc
begin

text \<open>
  What the scheduler promises, as an abstract machine: where each process is (not in the table, ready,
  running on a hart, blocked in one place, dead), and the moves between these. The operations of theory
  \<open>Proc\<close> refine it (\<open>kernel_step_refines\<close>), so its invariants hold of every state of the kernel that the
  operations reach.
\<close>

section \<open>The abstract machine\<close>

text \<open>The places where a process can be blocked: the sleep queue, the list of the waiters of a process, and
  the wait lists of the other components (mutexes, pipes, terminals), named by any type.\<close>

datatype 'k place = Sleep | Waiters nat | List 'k

record 'k asched =
  cur :: "nat \<Rightarrow> nat"
  st :: "nat \<Rightarrow> proc_state option"
  w4 :: "nat \<Rightarrow> bool"
  pl :: "'k place \<Rightarrow> nat multiset"

text \<open>Updates are brought into the order of the fields.\<close>

lemma asched_order [simp]:
  "a\<lparr>st := x, cur := c\<rparr> = a\<lparr>cur := c, st := x\<rparr>" "a\<lparr>w4 := v, cur := c\<rparr> = a\<lparr>cur := c, w4 := v\<rparr>"
  "a\<lparr>pl := q, cur := c\<rparr> = a\<lparr>cur := c, pl := q\<rparr>" "a\<lparr>w4 := v, st := x\<rparr> = a\<lparr>st := x, w4 := v\<rparr>"
  "a\<lparr>pl := q, st := x\<rparr> = a\<lparr>st := x, pl := q\<rparr>" "a\<lparr>pl := q, w4 := v\<rparr> = a\<lparr>w4 := v, pl := q\<rparr>"
  by simp_all

inductive astep :: "'k asched \<Rightarrow> 'k asched \<Rightarrow> bool" where
  run: "st a i = Some TASK_READY \<Longrightarrow> cur a h = 0 \<Longrightarrow> i \<noteq> 0 \<Longrightarrow>
    astep a (a\<lparr>cur := (cur a)(h := i), st := (st a)(i := Some TASK_RUNNING), w4 := (w4 a)(i := False)\<rparr>)"
| stop: "cur a h = i \<Longrightarrow> i \<noteq> 0 \<Longrightarrow> x = TASK_READY \<or> x = TASK_ZOMBIE \<Longrightarrow>
    astep a (a\<lparr>cur := (cur a)(h := 0), st := (st a)(i := Some x)\<rparr>)"
| block: "cur a h = i \<Longrightarrow> i \<noteq> 0 \<Longrightarrow>
    astep a (a\<lparr>cur := (cur a)(h := 0), st := (st a)(i := Some TASK_BLOCK), pl := (pl a)(q := add_mset i (pl a q))\<rparr>)"
| wait_child: "cur a h = i \<Longrightarrow> i \<noteq> 0 \<Longrightarrow>
    astep a (a\<lparr>cur := (cur a)(h := 0), st := (st a)(i := Some TASK_BLOCK), w4 := (w4 a)(i := True)\<rparr>)"
| wake: "i \<in># pl a q \<Longrightarrow>
    astep a (a\<lparr>st := (st a)(i := Some TASK_READY), pl := (pl a)(q := pl a q - {#i#})\<rparr>)"
| wake_parent: "w4 a i \<Longrightarrow> astep a (a\<lparr>st := (st a)(i := Some TASK_READY)\<rparr>)"
| forget: "M \<subseteq># pl a q \<Longrightarrow> astep a (a\<lparr>pl := (pl a)(q := M)\<rparr>)"
| birth: "st a i = None \<Longrightarrow> astep a (a\<lparr>st := (st a)(i := Some TASK_READY)\<rparr>)"
| death: "st a i = Some TASK_ZOMBIE \<Longrightarrow> astep a (a\<lparr>st := (st a)(i := None)\<rparr>)"

definition ainv :: "'k asched \<Rightarrow> bool" where
  "ainv a \<longleftrightarrow>
     (\<forall>h. cur a h \<noteq> 0 \<longrightarrow> st a (cur a h) = Some TASK_RUNNING) \<and>
     (\<forall>h g. cur a h = cur a g \<longrightarrow> cur a h \<noteq> 0 \<longrightarrow> h = g) \<and>
     (\<forall>i. st a i = Some TASK_RUNNING \<longrightarrow> i \<noteq> 0 \<longrightarrow> (\<exists>h. cur a h = i)) \<and>
     (\<forall>q i. count (pl a q) i \<le> 1) \<and>
     (\<forall>q i. i \<in># pl a q \<longrightarrow> st a i = Some TASK_BLOCK \<and> \<not> w4 a i) \<and>
     (\<forall>q r i. i \<in># pl a q \<longrightarrow> i \<in># pl a r \<longrightarrow> q = r) \<and>
     (\<forall>i. w4 a i \<longrightarrow> st a i = Some TASK_BLOCK \<or> st a i = Some TASK_READY)"

lemma ainvD:
  assumes "ainv a"
  shows "cur a h \<noteq> 0 \<Longrightarrow> st a (cur a h) = Some TASK_RUNNING"
    "cur a h = cur a g \<Longrightarrow> cur a h \<noteq> 0 \<Longrightarrow> h = g"
    "st a i = Some TASK_RUNNING \<Longrightarrow> i \<noteq> 0 \<Longrightarrow> \<exists>h. cur a h = i"
    "count (pl a q) i \<le> 1" "i \<in># pl a q \<Longrightarrow> st a i = Some TASK_BLOCK \<and> \<not> w4 a i"
    "i \<in># pl a q \<Longrightarrow> i \<in># pl a r \<Longrightarrow> q = r"
    "w4 a i \<Longrightarrow> st a i = Some TASK_BLOCK \<or> st a i = Some TASK_READY"
  using assms unfolding ainv_def by blast+

lemma ainvI:
  assumes "\<And>h. cur a h \<noteq> 0 \<Longrightarrow> st a (cur a h) = Some TASK_RUNNING"
    "\<And>h g. cur a h = cur a g \<Longrightarrow> cur a h \<noteq> 0 \<Longrightarrow> h = g"
    "\<And>i. st a i = Some TASK_RUNNING \<Longrightarrow> i \<noteq> 0 \<Longrightarrow> \<exists>h. cur a h = i"
    "\<And>q i. count (pl a q) i \<le> 1" "\<And>q i. i \<in># pl a q \<Longrightarrow> st a i = Some TASK_BLOCK \<and> \<not> w4 a i"
    "\<And>q r i. i \<in># pl a q \<Longrightarrow> i \<in># pl a r \<Longrightarrow> q = r"
    "\<And>i. w4 a i \<Longrightarrow> st a i = Some TASK_BLOCK \<or> st a i = Some TASK_READY"
  shows "ainv a"
  unfolding ainv_def using assms by blast

lemma not_in_diff_single: "count M i \<le> 1 \<Longrightarrow> i \<notin># M - {#i#}"
  by (simp add: not_in_iff)

lemma still_running:
  assumes "ainv a" "st a j = Some TASK_RUNNING" "j \<noteq> 0" "cur a h \<noteq> j"
  shows "\<exists>g. ((cur a)(h := k)) g = j"
  using ainvD(3)[OF assms(1-3)] assms(4) by (metis fun_upd_apply)

text \<open>A running process waits nowhere, and what a process leaves running status for keeps the harts apart.\<close>

lemma running_free:
  assumes "ainv a" "cur a h = i" "i \<noteq> 0"
  shows "i \<notin># pl a q" "\<not> w4 a i" "st a i = Some TASK_RUNNING"
proof -
  show r: "st a i = Some TASK_RUNNING" using ainvD(1)[OF assms(1), of h] assms(2,3) by simp
  show "i \<notin># pl a q" using ainvD(5)[OF assms(1), of i q] r by auto
  show "\<not> w4 a i" using ainvD(7)[OF assms(1), of i] r by auto
qed

lemma cur_after_stop:
  assumes inv: "ainv a" and h: "cur a h = i" "i \<noteq> 0" and g: "((cur a)(h := 0)) g \<noteq> 0"
  shows "((cur a)(h := 0)) g = cur a g" "cur a g \<noteq> i" "g \<noteq> h"
proof -
  show n: "g \<noteq> h" using g by auto
  then show c: "((cur a)(h := 0)) g = cur a g" by simp
  show "cur a g \<noteq> i" using ainvD(2)[OF inv, of g h] n h by metis
qed

text \<open>What has to be shown when a hart gives up its process.\<close>

lemma ainv_leave:
  assumes inv: "ainv a" and h: "cur a h = i" "i \<noteq> 0" and x: "x \<noteq> TASK_RUNNING"
    and cnt: "\<And>q j. count (p q) j \<le> 1"
    and blk: "\<And>q j. j \<in># p q \<Longrightarrow> ((st a)(i := Some x)) j = Some TASK_BLOCK \<and> \<not> w j"
    and one: "\<And>q r j. j \<in># p q \<Longrightarrow> j \<in># p r \<Longrightarrow> q = r"
    and w4: "\<And>j. w j \<Longrightarrow> ((st a)(i := Some x)) j = Some TASK_BLOCK \<or> ((st a)(i := Some x)) j = Some TASK_READY"
  shows "ainv \<lparr>cur = (cur a)(h := 0), st = (st a)(i := Some x), w4 = w, pl = p\<rparr>"
proof -
  note D = ainvD[OF inv] and C = cur_after_stop[OF inv h]
  have c1: "((st a)(i := Some x)) (((cur a)(h := 0)) g) = Some TASK_RUNNING" if "((cur a)(h := 0)) g \<noteq> 0" for g
    using C[OF that] that D(1)[of g] by simp
  have c2: "f = g" if "((cur a)(h := 0)) f = ((cur a)(h := 0)) g" "((cur a)(h := 0)) f \<noteq> 0" for f g
    using that D(2)[of f g] by (simp split: if_splits)
  have c3: "\<exists>g. ((cur a)(h := 0)) g = j" if "((st a)(i := Some x)) j = Some TASK_RUNNING" "j \<noteq> 0" for j
  proof -
    have "j \<noteq> i" using that(1) x by auto
    then show ?thesis using still_running[OF inv _ that(2), of h 0] that(1) h(1) by auto
  qed
  show ?thesis
    by (rule ainvI, unfold asched.simps)
      (rule c1, assumption, rule c2, assumption, assumption, rule c3, assumption, assumption,
        rule cnt, rule blk, assumption, rule one, assumption, assumption, rule w4, assumption)
qed

lemma ainv_run:
  assumes prems: "ainv a" and hyps: "st a i = Some TASK_READY" "cur a h = 0" "i \<noteq> 0"
  shows "ainv (a\<lparr>cur := (cur a)(h := i), st := (st a)(i := Some TASK_RUNNING), w4 := (w4 a)(i := False)\<rparr>)"
proof -
  note D = ainvD[OF prems]
  let ?b = "a\<lparr>cur := (cur a)(h := i), st := (st a)(i := Some TASK_RUNNING), w4 := (w4 a)(i := False)\<rparr>"
  have ci: "cur a x \<noteq> i" for x using D(1)[of x] hyps by auto
  have pi: "i \<notin># pl a q" for q using D(5)[of i q] hyps(1) by auto
  show ?thesis
  proof (rule ainvI)
    show "st ?b (cur ?b g) = Some TASK_RUNNING" if "cur ?b g \<noteq> 0" for g
      using D(1)[of g] that by (cases "g = h") auto
    show "g = g'" if "cur ?b g = cur ?b g'" "cur ?b g \<noteq> 0" for g g'
      using that ci[of g] ci[of g'] D(2)[of g g'] by (simp split: if_splits)
    show "\<exists>g. cur ?b g = j" if "st ?b j = Some TASK_RUNNING" "j \<noteq> 0" for j
    proof (cases "j = i")
      case False
      have "cur a h \<noteq> j" using hyps(2) that(2) by simp
      then show ?thesis using still_running[OF prems _ that(2), of h i] that(1) False by simp
    qed (intro exI[of _ h], simp)
    show "st ?b j = Some TASK_BLOCK \<and> \<not> w4 ?b j" if "j \<in># pl ?b q" for q j
      using that D(5)[of j q] pi[of q] by (cases "j = i") auto
    show "q = r" if "j \<in># pl ?b q" "j \<in># pl ?b r" for q r j using D(6)[of j q r] that by simp
    show "st ?b j = Some TASK_BLOCK \<or> st ?b j = Some TASK_READY" if "w4 ?b j" for j
      using that D(7)[of j] by (cases "j = i") auto
  qed (use D(4) in simp)
qed

lemma ainv_stop:
  assumes prems: "ainv a" and hyps: "cur a h = i" "i \<noteq> 0" "x = TASK_READY \<or> x = TASK_ZOMBIE"
  shows "ainv (a\<lparr>cur := (cur a)(h := 0), st := (st a)(i := Some x)\<rparr>)"
proof -
  note D = ainvD[OF prems] and F = running_free[OF prems hyps(1,2)]
  have "ainv \<lparr>cur = (cur a)(h := 0), st = (st a)(i := Some x), w4 = w4 a, pl = pl a\<rparr>"
  proof (rule ainv_leave[OF prems hyps(1,2)])
    show "x \<noteq> TASK_RUNNING" using hyps(3) by auto
    show "((st a)(i := Some x)) j = Some TASK_BLOCK \<and> \<not> w4 a j" if "j \<in># pl a q" for q j
      using that F(1)[of q] D(5)[of j q] by (cases "j = i") auto
    show "((st a)(i := Some x)) j = Some TASK_BLOCK \<or> ((st a)(i := Some x)) j = Some TASK_READY" if "w4 a j" for j
      using that F(2) D(7)[of j] by (cases "j = i") auto
  qed (rule D(4), rule D(6))
  then show ?thesis by (cases a) simp
qed

lemma ainv_block:
  assumes prems: "ainv a" and hyps: "cur a h = i" "i \<noteq> 0"
  shows "ainv (a\<lparr>cur := (cur a)(h := 0), st := (st a)(i := Some TASK_BLOCK), pl := (pl a)(q := add_mset i (pl a q))\<rparr>)"
proof -
  note D = ainvD[OF prems] and F = running_free[OF prems hyps(1,2)]
  have n: "i \<notin># pl a r" for r by (rule F(1))
  have "ainv \<lparr>cur = (cur a)(h := 0), st = (st a)(i := Some TASK_BLOCK), w4 = w4 a, pl = (pl a)(q := add_mset i (pl a q))\<rparr>"
  proof (rule ainv_leave[OF prems hyps(1,2)])
    show "TASK_BLOCK \<noteq> TASK_RUNNING" by simp
    show "count (((pl a)(q := add_mset i (pl a q))) r) j \<le> 1" for r j
    proof (cases "r = q \<and> j = i")
      case True
      then show ?thesis using n[of q] by (simp add: not_in_iff)
    next
      case False
      then show ?thesis using D(4)[of r j] by (cases "r = q") auto
    qed
    show "((st a)(i := Some TASK_BLOCK)) j = Some TASK_BLOCK \<and> \<not> w4 a j"
      if "j \<in># ((pl a)(q := add_mset i (pl a q))) r" for r j
    proof (cases "j = i")
      case False
      then have "j \<in># pl a r" using that by (simp split: if_splits)
      then show ?thesis using D(5)[of j r] False by simp
    qed (use F(2) in simp)
    show "r = r'" if "j \<in># ((pl a)(q := add_mset i (pl a q))) r" "j \<in># ((pl a)(q := add_mset i (pl a q))) r'" for r r' j
    proof (cases "j = i")
      case True
      then show ?thesis using that n[of r] n[of r'] by (simp split: if_splits)
    next
      case False
      then have "j \<in># pl a r" "j \<in># pl a r'" using that by (simp_all split: if_splits)
      then show ?thesis by (rule D(6))
    qed
    show "((st a)(i := Some TASK_BLOCK)) j = Some TASK_BLOCK \<or> ((st a)(i := Some TASK_BLOCK)) j = Some TASK_READY"
      if "w4 a j" for j using that D(7)[of j] by (cases "j = i") auto
  qed
  then show ?thesis by (cases a) simp
qed

lemma ainv_wait_child:
  assumes prems: "ainv a" and hyps: "cur a h = i" "i \<noteq> 0"
  shows "ainv (a\<lparr>cur := (cur a)(h := 0), st := (st a)(i := Some TASK_BLOCK), w4 := (w4 a)(i := True)\<rparr>)"
proof -
  note D = ainvD[OF prems] and F = running_free[OF prems hyps(1,2)]
  have "ainv \<lparr>cur = (cur a)(h := 0), st = (st a)(i := Some TASK_BLOCK), w4 = (w4 a)(i := True), pl = pl a\<rparr>"
  proof (rule ainv_leave[OF prems hyps(1,2)])
    show "TASK_BLOCK \<noteq> TASK_RUNNING" by simp
    show "((st a)(i := Some TASK_BLOCK)) j = Some TASK_BLOCK \<and> \<not> ((w4 a)(i := True)) j" if "j \<in># pl a q" for q j
      using that F(1)[of q] D(5)[of j q] by (cases "j = i") auto
    show "((st a)(i := Some TASK_BLOCK)) j = Some TASK_BLOCK \<or> ((st a)(i := Some TASK_BLOCK)) j = Some TASK_READY"
      if "((w4 a)(i := True)) j" for j using that D(7)[of j] by (cases "j = i") auto
  qed (rule D(4), rule D(6))
  then show ?thesis by (cases a) simp
qed

text \<open>What has to be shown when a process that is on no hart changes its state.\<close>

lemma ainv_other:
  assumes inv: "ainv a" and i: "\<And>h. cur a h \<noteq> 0 \<Longrightarrow> cur a h \<noteq> i" and x: "x \<noteq> Some TASK_RUNNING"
    and sub: "\<And>q. p q \<subseteq># pl a q" and ni: "\<And>q. i \<notin># p q"
    and w: "w4 a i \<Longrightarrow> x = Some TASK_READY"
  shows "ainv \<lparr>cur = cur a, st = (st a)(i := x), w4 = w4 a, pl = p\<rparr>"
proof -
  note D = ainvD[OF inv]
  have pin: "j \<in># pl a q" if "j \<in># p q" for q j using sub that by (rule mset_subset_eqD)
  have c1: "((st a)(i := x)) (cur a g) = Some TASK_RUNNING" if "cur a g \<noteq> 0" for g using i[OF that] D(1)[OF that] by simp
  have c3: "\<exists>g. cur a g = j" if "((st a)(i := x)) j = Some TASK_RUNNING" "j \<noteq> 0" for j
    using that x D(3)[of j] by (cases "j = i") simp_all
  have c4: "count (p q) j \<le> 1" for q j using mset_subset_eq_count[OF sub, of q j] D(4)[of q j] by (rule order.trans)
  have c5: "((st a)(i := x)) j = Some TASK_BLOCK \<and> \<not> w4 a j" if "j \<in># p q" for q j
    using D(5)[OF pin[OF that]] ni[of q] that by (cases "j = i") simp_all
  have c6: "q = r" if "j \<in># p q" "j \<in># p r" for q r j using D(6)[OF pin[OF that(1)] pin[OF that(2)]] .
  have c7: "((st a)(i := x)) j = Some TASK_BLOCK \<or> ((st a)(i := x)) j = Some TASK_READY" if "w4 a j" for j
    using D(7)[OF that] w that by (cases "j = i") simp_all
  show ?thesis
    by (rule ainvI, unfold asched.simps)
      (rule c1, assumption, rule D(2), assumption, assumption, rule c3, assumption, assumption,
        rule c4, rule c5, assumption, rule c6, assumption, assumption, rule c7, assumption)
qed

lemma not_current: "ainv a \<Longrightarrow> st a i \<noteq> Some TASK_RUNNING \<Longrightarrow> cur a h \<noteq> 0 \<Longrightarrow> cur a h \<noteq> i"
  using ainvD(1)[of a h] by auto

lemma not_waiting: "ainv a \<Longrightarrow> st a i \<noteq> Some TASK_BLOCK \<Longrightarrow> i \<notin># pl a q"
  using ainvD(5)[of a i q] by auto

lemma ainv_wake:
  assumes inv: "ainv a" and i: "i \<in># pl a q"
  shows "ainv (a\<lparr>st := (st a)(i := Some TASK_READY), pl := (pl a)(q := pl a q - {#i#})\<rparr>)"
proof -
  note D = ainvD[OF inv]
  have b: "st a i = Some TASK_BLOCK" "\<not> w4 a i" using D(5)[OF i] by auto
  have "ainv \<lparr>cur = cur a, st = (st a)(i := Some TASK_READY), w4 = w4 a, pl = (pl a)(q := pl a q - {#i#})\<rparr>"
  proof (rule ainv_other[OF inv])
    show "cur a h \<noteq> i" if "cur a h \<noteq> 0" for h by (rule not_current[OF inv _ that]) (simp add: b(1))
    show "((pl a)(q := pl a q - {#i#})) r \<subseteq># pl a r" for r by simp
    show "i \<notin># ((pl a)(q := pl a q - {#i#})) r" for r
      using not_in_diff_single[OF D(4)] D(6)[OF i, of r] by (cases "r = q") auto
  qed simp_all
  then show ?thesis by (cases a) simp
qed

lemma ainv_wake_parent:
  assumes inv: "ainv a" and w: "w4 a i"
  shows "ainv (a\<lparr>st := (st a)(i := Some TASK_READY)\<rparr>)"
proof -
  note D = ainvD[OF inv]
  have "ainv \<lparr>cur = cur a, st = (st a)(i := Some TASK_READY), w4 = w4 a, pl = pl a\<rparr>"
  proof (rule ainv_other[OF inv])
    show "cur a h \<noteq> i" if "cur a h \<noteq> 0" for h by (rule not_current[OF inv _ that]) (use D(7)[OF w] in auto)
    show "i \<notin># pl a q" for q using D(5)[of i q] w by blast
  qed simp_all
  then show ?thesis by (cases a) simp
qed

lemma ainv_birth:
  assumes inv: "ainv a" and n: "st a i = None"
  shows "ainv (a\<lparr>st := (st a)(i := Some TASK_READY)\<rparr>)"
proof -
  have "ainv \<lparr>cur = cur a, st = (st a)(i := Some TASK_READY), w4 = w4 a, pl = pl a\<rparr>"
  proof (rule ainv_other[OF inv])
    show "cur a h \<noteq> i" if "cur a h \<noteq> 0" for h by (rule not_current[OF inv _ that]) (simp add: n)
    show "i \<notin># pl a q" for q by (rule not_waiting[OF inv]) (simp add: n)
  qed simp_all
  then show ?thesis by (cases a) simp
qed

lemma ainv_death:
  assumes inv: "ainv a" and n: "st a i = Some TASK_ZOMBIE"
  shows "ainv (a\<lparr>st := (st a)(i := None)\<rparr>)"
proof -
  have "ainv \<lparr>cur = cur a, st = (st a)(i := None), w4 = w4 a, pl = pl a\<rparr>"
  proof (rule ainv_other[OF inv])
    show "cur a h \<noteq> i" if "cur a h \<noteq> 0" for h by (rule not_current[OF inv _ that]) (simp add: n)
    show "i \<notin># pl a q" for q by (rule not_waiting[OF inv]) (simp add: n)
    show "None = Some TASK_READY" if "w4 a i" using ainvD(7)[OF inv that] n by simp
  qed simp_all
  then show ?thesis by (cases a) simp
qed

lemma ainv_forget:
  assumes inv: "ainv a" and M: "M \<subseteq># pl a q"
  shows "ainv (a\<lparr>pl := (pl a)(q := M)\<rparr>)"
proof -
  note D = ainvD[OF inv]
  have sub: "((pl a)(q := M)) r \<subseteq># pl a r" for r using M by simp
  have pin: "j \<in># pl a r" if "j \<in># ((pl a)(q := M)) r" for j r using sub that by (rule mset_subset_eqD)
  have c4: "count (((pl a)(q := M)) r) j \<le> 1" for r j
    using mset_subset_eq_count[OF sub, of r j] D(4)[of r j] by (rule order.trans)
  have "ainv \<lparr>cur = cur a, st = st a, w4 = w4 a, pl = (pl a)(q := M)\<rparr>"
    by (rule ainvI, unfold asched.simps)
      (rule D(1), assumption, rule D(2), assumption, assumption, rule D(3), assumption, assumption,
        rule c4, rule D(5), erule pin, rule D(6), erule pin, erule pin, rule D(7), assumption)
  then show ?thesis by (cases a) simp
qed

lemma astep_inv: "astep a b \<Longrightarrow> ainv a \<Longrightarrow> ainv b"
  by (induction rule: astep.induct)
    (blast intro: ainv_run ainv_stop ainv_block ainv_wait_child ainv_wake ainv_wake_parent ainv_forget ainv_birth ainv_death)+

lemma asteps_inv: "astep\<^sup>*\<^sup>* a b \<Longrightarrow> ainv a \<Longrightarrow> ainv b"
  by (induction rule: rtranclp_induct) (auto intro: astep_inv)

section \<open>The operations refine it\<close>

definition waiters :: "('r, 'g) kernel \<Rightarrow> nat \<Rightarrow> nat list" where
  "waiters s j = (case get_proc j s of None \<Rightarrow> [] | Some p \<Rightarrow> wait_list p)"

fun places :: "('r, 'g) kernel \<Rightarrow> ('k \<Rightarrow> nat list) \<Rightarrow> 'k place \<Rightarrow> nat multiset" where
  "places s w Sleep = image_mset (\<lambda>x. nat (pvalue x)) (pq_mset (sleep_queue s))"
| "places s w (Waiters j) = mset (waiters s j)"
| "places s w (List k) = mset (w k)"

definition absk :: "('r, 'g) kernel \<Rightarrow> ('k \<Rightarrow> nat list) \<Rightarrow> 'k asched" where
  "absk s w = \<lparr>cur = current s, st = (\<lambda>i. map_option state (get_proc i s)),
     w4 = (\<lambda>i. case get_proc i s of None \<Rightarrow> False | Some p \<Rightarrow> w4child p), pl = places s w\<rparr>"

text \<open>The invariant of the concrete tables: an entry's pid is its index, the pool of pids is exactly the pids
  of the empty entries, each once, and the sleep queue is a heap.\<close>

definition kinv :: "('r, 'g) kernel \<Rightarrow> bool" where
  "kinv s \<longleftrightarrow> length (pcbtable s) = NPROC \<and> (\<forall>i p. get_proc i s = Some p \<longrightarrow> pid p = i) \<and> get_proc 0 s \<noteq> None \<and>
     queue_inv (pids_queue s) \<and> queue_capacity (pids_queue s) = int NPROC \<and> distinct (queue_abs (pids_queue s)) \<and>
     set (queue_abs (pids_queue s)) = {i. i < NPROC \<and> get_proc i s = None} \<and>
     pq_inv (sleep_queue s) \<and> priority_queue_capacity (sleep_queue s) = int NPROC \<and> (\<forall>x\<in>#pq_mset (sleep_queue s). 0 \<le> pvalue x)"

lemma kinvD:
  assumes "kinv s"
  shows "length (pcbtable s) = NPROC" "get_proc i s = Some p \<Longrightarrow> pid p = i" "get_proc 0 s \<noteq> None"
    "queue_inv (pids_queue s)" "queue_capacity (pids_queue s) = int NPROC" "distinct (queue_abs (pids_queue s))"
    "set (queue_abs (pids_queue s)) = {i. i < NPROC \<and> get_proc i s = None}" "pq_inv (sleep_queue s)"
    "x \<in># pq_mset (sleep_queue s) \<Longrightarrow> 0 \<le> pvalue x" "priority_queue_capacity (sleep_queue s) = int NPROC"
  using assms unfolding kinv_def by blast+

lemma absk_at:
  assumes "get_proc i s = Some p"
  shows "st (absk s w) i = Some (state p)" "w4 (absk s w) i = w4child p" "pl (absk s w) (Waiters i) = mset (wait_list p)"
  using assms by (simp_all add: absk_def waiters_def)

lemma cur_absk [simp]: "cur (absk s w) = current s"
  by (simp add: absk_def)

lemma places_set:
  assumes "i < length (pcbtable s)"
  shows "places (set_proc i (Some p) s) w = (places s w)(Waiters i := mset (wait_list p))"
proof
  fix q show "places (set_proc i (Some p) s) w q = ((places s w)(Waiters i := mset (wait_list p))) q"
    using assms by (cases q) (auto simp: waiters_def get_set_proc)
qed

lemma absk_set:
  assumes "i < length (pcbtable s)"
  shows "absk (set_proc i (Some p) s) w = (absk s w)\<lparr>st := (st (absk s w))(i := Some (state p)),
    w4 := (w4 (absk s w))(i := w4child p), pl := (pl (absk s w))(Waiters i := mset (wait_list p))\<rparr>"
  using assms by (auto simp: absk_def places_set get_set_proc fun_eq_iff)

lemma absk_set_same:
  assumes "get_proc i s = Some p" "w4child p' = w4child p" "wait_list p' = wait_list p"
  shows "absk (set_proc i (Some p') s) w = (absk s w)\<lparr>st := (st (absk s w))(i := Some (state p'))\<rparr>"
proof -
  have "(w4 (absk s w))(i := w4child p') = w4 (absk s w)" "(pl (absk s w))(Waiters i := mset (wait_list p')) = pl (absk s w)"
    using absk_at[OF assms(1), of w] assms(2,3) by (simp_all add: fun_upd_idem)
  then show ?thesis unfolding absk_set[OF get_proc_bound[OF assms(1)]] by simp
qed

lemma absk_set_id:
  assumes "get_proc i s = Some p" "w4child p' = w4child p" "wait_list p' = wait_list p" "state p' = state p"
  shows "absk (set_proc i (Some p') s) w = absk s w"
  using absk_at(1)[OF assms(1), of w] unfolding absk_set_same[OF assms(1-3)] assms(4) by (simp add: fun_upd_idem)

lemma absk_put_state:
  assumes "get_proc i s = Some p"
  shows "absk (put_state i p x s) w = (absk s w)\<lparr>st := (st (absk s w))(i := Some x)\<rparr>"
  unfolding put_state_def using absk_set_same[OF assms, of "p\<lparr>state := x\<rparr>"] by simp

lemma places_frame [simp]:
  "places (s\<lparr>current := c\<rparr>) w = places s w" "places (s\<lparr>clock_ticks := n\<rparr>) w = places s w"
  "places (s\<lparr>shared := g\<rparr>) w = places s w" "places (s\<lparr>pids_queue := q\<rparr>) w = places s w"
  by (rule ext, rename_tac x, case_tac x, simp_all add: waiters_def)+

lemma absk_frame [simp]:
  "absk (s\<lparr>clock_ticks := n\<rparr>) w = absk s w" "absk (s\<lparr>shared := g\<rparr>) w = absk s w"
  "absk (s\<lparr>pids_queue := q\<rparr>) w = absk s w" "absk (s\<lparr>current := c\<rparr>) w = (absk s w)\<lparr>cur := c\<rparr>"
  by (simp_all add: absk_def)

lemma kinv_set:
  assumes "kinv s" "get_proc i s = Some p" "pid p' = i"
  shows "kinv (set_proc i (Some p') s)"
proof -
  have "get_proc j (set_proc i (Some p') s) = None \<longleftrightarrow> get_proc j s = None" for j
    using assms(2) get_set_proc[OF get_proc_bound[OF assms(2)], of j "Some p'"] by auto
  then show ?thesis using assms get_set_proc[OF get_proc_bound[OF assms(2)], of _ "Some p'"]
    unfolding kinv_def by (auto split: if_splits)
qed

lemma kinv_put_state: "kinv s \<Longrightarrow> get_proc i s = Some p \<Longrightarrow> kinv (put_state i p x s)"
  unfolding put_state_def by (rule kinv_set) (simp_all add: kinvD(2))

lemma kinv_frame [simp]: "kinv (s\<lparr>current := c\<rparr>) = kinv s" "kinv (s\<lparr>clock_ticks := n\<rparr>) = kinv s"
  "kinv (s\<lparr>shared := g\<rparr>) = kinv s"
  by (simp_all add: kinv_def)

text \<open>An operation refines the abstract machine when it keeps the invariant of the tables and its effect is a
  sequence of abstract steps.\<close>

definition refines :: "('r, 'g) kernel \<times> ('k \<Rightarrow> nat list) \<Rightarrow> ('r, 'g) kernel \<times> ('k \<Rightarrow> nat list) \<Rightarrow> bool" where
  "refines x y \<longleftrightarrow> kinv (fst y) \<and> astep\<^sup>*\<^sup>* (absk (fst x) (snd x)) (absk (fst y) (snd y))"

lemma refinesI: "kinv t \<Longrightarrow> astep\<^sup>*\<^sup>* (absk s w) (absk t v) \<Longrightarrow> refines (s, w) (t, v)"
  by (simp add: refines_def)

lemma refines_step: "kinv t \<Longrightarrow> astep (absk s w) (absk t v) \<Longrightarrow> refines (s, w) (t, v)"
  by (simp add: refines_def r_into_rtranclp)

lemma refines_same: "kinv t \<Longrightarrow> absk t v = absk s w \<Longrightarrow> refines (s, w) (t, v)"
  by (simp add: refines_def)

lemma refines_trans: "refines x y \<Longrightarrow> refines y z \<Longrightarrow> refines x z"
  by (auto simp: refines_def)

lemma refines_inv: "refines (s, w) (t, v) \<Longrightarrow> ainv (absk s w) \<Longrightarrow> ainv (absk t v)"
  by (auto simp: refines_def intro: asteps_inv)

lemma sched_eq:
  assumes "sched h s = Some t"
  shows "t = s\<lparr>current := (current s)(h := 0)\<rparr>"
  using assms by (auto simp: sched_def hoare_simps)

lemma current_put_state [simp]: "current (put_state i p x s) = current s"
  by (simp add: put_state_def)

lemma yield_refines:
  assumes k: "kinv s" and c: "current s h \<noteq> 0" and y: "yield h s = Some t"
  shows "refines (s, w) (t, w)"
proof -
  obtain p where p: "get_proc (current s h) s = Some p"
    and t: "t = (put_state (current s h) p TASK_READY s)\<lparr>current := (current s)(h := 0)\<rparr>"
    using y by (auto simp: yield_def hoare_simps dest!: sched_eq)
  have "astep (absk s w) ((absk s w)\<lparr>cur := (cur (absk s w))(h := 0), st := (st (absk s w))(current s h := Some TASK_READY)\<rparr>)"
    by (rule astep.stop) (simp_all add: c)
  then show ?thesis
    by (intro refines_step) (simp_all add: t absk_put_state[OF p] kinv_put_state[OF k p])
qed

lemma time_slice_refines:
  assumes k: "kinv s" and c: "current s h \<noteq> 0" and y: "time_slice h s = Some t"
  shows "refines (s, w) (t, w)"
proof -
  obtain p where p: "get_proc (current s h) s = Some p"
    using y by (auto simp: time_slice_def hoare_simps)
  let ?p1 = "p\<lparr>jiffies := ucast (clock_ticks s), ticks := ticks p - 1\<rparr>"
  let ?s1 = "set_proc (current s h) (Some (?p1\<lparr>ticks := priority ?p1\<rparr>)) s"
  let ?s2 = "set_proc (current s h) (Some ?p1) s"
  have id: "pid p = current s h" using kinvD(2)[OF k p] .
  have k1: "kinv ?s1" "kinv ?s2" by (rule kinv_set[OF k p], simp add: id)+
  have a1: "absk ?s1 w = absk s w" "absk ?s2 w = absk s w" by (rule absk_set_id[OF p]; simp)+
  show ?thesis
  proof (cases "ticks ?p1 = 0")
    case True
    then have "yield h ?s1 = Some t" using y p by (auto simp: time_slice_def Let_def hoare_simps)
    then have "refines (?s1, w) (t, w)" by (intro yield_refines[OF k1(1)]) (simp_all add: c)
    moreover have "refines (s, w) (?s1, w)" by (rule refines_same[OF k1(1) a1(1)])
    ultimately show ?thesis by (rule refines_trans[rotated])
  next
    case False
    then have "t = ?s2" using y p by (auto simp: time_slice_def Let_def hoare_simps)
    then show ?thesis using refines_same[OF k1(2) a1(2)] by simp
  qed
qed

lemma visit_refines:
  assumes k: "kinv s" and c: "current s h = 0" and i: "i \<noteq> 0" and p: "get_proc i s = Some p"
  shows "\<not> w4child p \<Longrightarrow> refines (s, w) (scheduler_visit h i s, w)"
    and "w4child p \<Longrightarrow> state p = TASK_READY \<Longrightarrow> wait4_woken h (scheduler_visit h i s) = Some t \<Longrightarrow> refines (s, w) (t, w)"
proof -
  let ?a = "absk s w" and ?v = "put_state i p TASK_RUNNING (s\<lparr>current := (current s)(h := i)\<rparr>)"
  have run: "astep ?a (?a\<lparr>cur := (cur ?a)(h := i), st := (st ?a)(i := Some TASK_RUNNING), w4 := (w4 ?a)(i := False)\<rparr>)"
    if "state p = TASK_READY" by (rule astep.run) (simp_all add: c i absk_at[OF p] that)
  have p': "get_proc i (s\<lparr>current := (current s)(h := i)\<rparr>) = Some p" using p by simp
  have kv: "kinv ?v" by (rule kinv_put_state[OF _ p']) (simp add: k)
  have av: "absk ?v w = ?a\<lparr>cur := (cur ?a)(h := i), st := (st ?a)(i := Some TASK_RUNNING)\<rparr>"
    unfolding absk_put_state[OF p'] by simp
  have vis: "scheduler_visit h i s = (if state p = TASK_READY then ?v else s)" using p by (simp add: scheduler_visit_def)
  show "refines (s, w) (scheduler_visit h i s, w)" if w: "\<not> w4child p"
  proof (cases "state p = TASK_READY")
    case True
    have "(w4 ?a)(i := False) = w4 ?a" using absk_at(2)[OF p, of w] w by (simp add: fun_upd_idem)
    then show ?thesis using run[OF True] kv av vis True by (intro refines_step) simp_all
  next
    case False
    then show ?thesis using k vis by (simp add: refines_same)
  qed
  show "refines (s, w) (t, w)" if "w4child p" and r: "state p = TASK_READY" and t: "wait4_woken h (scheduler_visit h i s) = Some t"
  proof -
    let ?q = "p\<lparr>state := TASK_RUNNING\<rparr>"
    have q: "get_proc i ?v = Some ?q" using get_proc_bound[OF p]
      by (simp add: put_state_def get_set_proc)
    have t': "t = set_proc i (Some (?q\<lparr>w4child := False\<rparr>)) ?v"
      using t q by (simp add: vis r wait4_woken_def)
    have "kinv t" unfolding t' by (rule kinv_set[OF kv q]) (use kinvD(2)[OF kv q] in simp)
    moreover have "absk t w = ?a\<lparr>cur := (cur ?a)(h := i), st := (st ?a)(i := Some TASK_RUNNING), w4 := (w4 ?a)(i := False)\<rparr>"
      unfolding t' absk_set[OF get_proc_bound[OF q]] av
      using absk_at(3)[OF p, of w] by (simp add: fun_upd_idem)
    ultimately show ?thesis using run[OF r] by (intro refines_step) simp_all
  qed
qed

lemma absk_list: "absk s (w(k := l)) = (absk s w)\<lparr>pl := (pl (absk s w))(List k := mset l)\<rparr>"
proof -
  have "places s (w(k := l)) q = ((places s w)(List k := mset l)) q" for q by (cases q) auto
  then show ?thesis by (simp add: absk_def fun_eq_iff)
qed

lemma proc_block_eq:
  assumes "proc_block h wl s = Some (l, t)"
  obtains p where "get_proc (current s h) s = Some p" "state p = TASK_RUNNING" "l = current s h # wl"
    "t = (put_state (current s h) p TASK_BLOCK s)\<lparr>current := (current s)(h := 0)\<rparr>"
  using assms by (auto simp: proc_block_def hoare_simps dest!: sched_eq)

lemma block_refines:
  assumes k: "kinv s" and c: "current s h \<noteq> 0" and b: "proc_block h (w j) s = Some (l, t)"
  shows "refines (s, w) (t, w(j := l))"
proof -
  obtain p where p: "get_proc (current s h) s = Some p" "l = current s h # w j"
    "t = (put_state (current s h) p TASK_BLOCK s)\<lparr>current := (current s)(h := 0)\<rparr>"
    using proc_block_eq[OF b] by blast
  have "astep (absk s w) ((absk s w)\<lparr>cur := (cur (absk s w))(h := 0), st := (st (absk s w))(current s h := Some TASK_BLOCK),
    pl := (pl (absk s w))(List j := add_mset (current s h) (pl (absk s w) (List j)))\<rparr>)"
    by (rule astep.block) (simp_all add: c)
  moreover have "pl (absk s w) (List j) = mset (w j)" by (simp add: absk_def)
  ultimately show ?thesis
    by (intro refines_step) (simp_all add: p(2,3) absk_list absk_put_state[OF p(1)] kinv_put_state[OF k p(1)])
qed

lemma unblock_one_eq:
  assumes "unblock_one h i s = Some t"
  obtains p where "get_proc i s = Some p" "state p = TASK_BLOCK" "i \<noteq> current s h" "t = put_state i p TASK_READY s"
  using assms by (auto simp: unblock_one_def hoare_simps)

lemma places_put_state: "get_proc i s = Some p \<Longrightarrow> places (put_state i p x s) w = places s w"
proof -
  assume p: "get_proc i s = Some p"
  have "places (put_state i p x s) w = pl (absk (put_state i p x s) w)" by (simp add: absk_def)
  also have "\<dots> = pl (absk s w)" unfolding absk_put_state[OF p] by simp
  finally show ?thesis by (simp add: absk_def)
qed

text \<open>Waking everybody on a list of the other components.\<close>

lemma unblock_list_refines:
  "for_each (unblock_one h) l s = Some t \<Longrightarrow> kinv s \<Longrightarrow> refines (s, w(k := l)) (t, w(k := []))"
proof (induction l arbitrary: s w)
  case Nil
  then show ?case by (simp add: refines_same)
next
  case (Cons i l)
  obtain s1 where s1: "unblock_one h i s = Some s1" "for_each (unblock_one h) l s1 = Some t"
    using Cons.prems(1) by (auto split: option.splits)
  obtain p where p: "get_proc i s = Some p" "s1 = put_state i p TASK_READY s" using unblock_one_eq[OF s1(1)] by blast
  have k1: "kinv s1" unfolding p(2) by (rule kinv_put_state[OF Cons.prems(2) p(1)])
  let ?a = "absk s (w(k := i # l))"
  have pk: "pl ?a (List k) = add_mset i (mset l)" by (simp add: absk_def)
  have "astep ?a (?a\<lparr>st := (st ?a)(i := Some TASK_READY), pl := (pl ?a)(List k := pl ?a (List k) - {#i#})\<rparr>)"
    by (rule astep.wake) (simp add: pk)
  moreover have "absk s1 (w(k := l)) = ?a\<lparr>st := (st ?a)(i := Some TASK_READY), pl := (pl ?a)(List k := pl ?a (List k) - {#i#})\<rparr>"
    unfolding p(2) absk_put_state[OF p(1)] absk_list pk by simp
  ultimately have "refines (s, w(k := i # l)) (s1, w(k := l))" by (intro refines_step[OF k1]) simp
  then show ?case using Cons.IH[OF s1(2) k1, of w] by (rule refines_trans)
qed

lemma unblock_refines:
  assumes "kinv s" "proc_unblock_all h (w k) s = Some (n, t)"
  shows "refines (s, w) (t, w(k := []))"
  using unblock_list_refines[of h "w k" s t w k] assms by (auto simp: proc_unblock_all_def hoare_simps)

lemma absk_sleep: "absk (s\<lparr>sleep_queue := q\<rparr>) w
    = (absk s w)\<lparr>pl := (pl (absk s w))(Sleep := image_mset (\<lambda>x. nat (pvalue x)) (pq_mset q))\<rparr>"
proof -
  have "places (s\<lparr>sleep_queue := q\<rparr>) w r = ((places s w)(Sleep := image_mset (\<lambda>x. nat (pvalue x)) (pq_mset q))) r" for r
    by (cases r) (auto simp: waiters_def)
  then show ?thesis by (simp add: absk_def fun_eq_iff)
qed

lemma kinv_sleep:
  assumes "kinv s" "pq_inv q" "priority_queue_capacity q = int NPROC" "\<And>x. x \<in># pq_mset q \<Longrightarrow> 0 \<le> pvalue x"
  shows "kinv (s\<lparr>sleep_queue := q\<rparr>)"
  using assms unfolding kinv_def by simp

text \<open>One turn of the loop of \<open>time_wakeup\<close>.\<close>

lemma wake_top_refines:
  assumes k: "kinv s" and ne: "pq_mset (sleep_queue s) \<noteq> {#}"
    and u: "unblock_one h (nat (pvalue (priority_queue_top (sleep_queue s)))) s = Some s1"
    and q: "priority_queue_pop (sleep_queue s1) = Some q"
  shows "refines (s, w) (s1\<lparr>sleep_queue := q\<rparr>, w) \<and>
    pq_mset q = pq_mset (sleep_queue s) - {#priority_queue_top (sleep_queue s)#}"
proof -
  let ?top = "priority_queue_top (sleep_queue s)"
  let ?a = "absk s w" and ?i = "nat (pvalue ?top)"
  obtain p where p: "get_proc ?i s = Some p" "s1 = put_state ?i p TASK_READY s"
    using unblock_one_eq[OF u] by blast
  have sq: "sleep_queue s1 = sleep_queue s" by (simp add: p(2) put_state_def)
  have pq: "pq_inv (sleep_queue s)" by (rule kinvD(8)[OF k])
  have q': "pq_inv q" "pq_mset q = pq_mset (sleep_queue s) - {#?top#}"
    "priority_queue_capacity q = priority_queue_capacity (sleep_queue s)"
    using pq_pop_ok[OF pq ne] q unfolding sq by (metis option.inject)+
  have k2: "kinv (s1\<lparr>sleep_queue := q\<rparr>)"
    by (rule kinv_sleep) (use kinv_put_state[OF k p(1)] p(2) q' kinvD(9,10)[OF k] in \<open>auto dest: in_diffD\<close>)
  have top: "?top \<in># pq_mset (sleep_queue s)" by (rule pq_top_min(1)[OF pq ne])
  have ps: "pl ?a Sleep = image_mset (\<lambda>x. nat (pvalue x)) (pq_mset (sleep_queue s))" by (simp add: absk_def)
  have diff: "pl ?a Sleep - {#?i#} = image_mset (\<lambda>x. nat (pvalue x)) (pq_mset q)"
    unfolding ps q'(2) using top by (simp add: image_mset_Diff)
  have "astep ?a (?a\<lparr>st := (st ?a)(?i := Some TASK_READY), pl := (pl ?a)(Sleep := pl ?a Sleep - {#?i#})\<rparr>)"
    by (rule astep.wake) (use top ps in auto)
  moreover have "absk (s1\<lparr>sleep_queue := q\<rparr>) w
      = ?a\<lparr>st := (st ?a)(?i := Some TASK_READY), pl := (pl ?a)(Sleep := pl ?a Sleep - {#?i#})\<rparr>"
    unfolding diff absk_sleep p(2) absk_put_state[OF p(1)] by simp
  ultimately have "astep (absk s w) (absk (s1\<lparr>sleep_queue := q\<rparr>) w)" by simp
  then show ?thesis using q'(2) refines_step[OF k2] by blast
qed

lemma time_wakeup_refines:
  "time_wakeup h s = Some t \<Longrightarrow> kinv s \<Longrightarrow> refines (s, w) (t, w)"
proof (induction h s arbitrary: t rule: time_wakeup.induct)
  case (1 h s)
  let ?top = "priority_queue_top (sleep_queue s)"
  show ?case
  proof (cases "priority_queue_empty (sleep_queue s) \<or> clock_ticks s < key ?top")
    case True
    then have "t = s" using 1(2) by (subst (asm) time_wakeup.simps) (auto simp: Let_def split: if_splits)
    then show ?thesis using 1(3) by (simp add: refines_same)
  next
    case False
    obtain s1 q where s1: "unblock_one h (nat (pvalue ?top)) s = Some s1" "priority_queue_pop (sleep_queue s1) = Some q"
      "time_wakeup h (s1\<lparr>sleep_queue := q\<rparr>) = Some t"
      using 1(2) False by (subst (asm) time_wakeup.simps) (auto simp: Let_def hoare_simps)
    have ne: "pq_mset (sleep_queue s) \<noteq> {#}" using False pq_empty_iff[OF kinvD(8)[OF 1(3)]] by blast
    have W: "refines (s, w) (s1\<lparr>sleep_queue := q\<rparr>, w)" using wake_top_refines[OF 1(3) ne s1(1,2)] by blast
    then have "kinv (s1\<lparr>sleep_queue := q\<rparr>)" by (simp add: refines_def)
    then have "refines (s1\<lparr>sleep_queue := q\<rparr>, w) (t, w)"
      by (intro 1(1)[OF _ refl _ s1(1,2) s1(3)]) (use False in auto)
    with W show ?thesis by (rule refines_trans)
  qed
qed

lemma timer_refines:
  assumes "kinv s" "clock_interrupt_handler b h s = Some t"
  shows "refines (s, w) (t, w)"
proof -
  let ?s = "if h = b then s\<lparr>clock_ticks := clock_ticks s + 1\<rparr> else s"
  have "refines (?s, w) (t, w)"
    by (rule time_wakeup_refines) (use assms in \<open>auto simp: clock_interrupt_handler_def\<close>)
  then show ?thesis by (auto simp: refines_def split: if_splits)
qed

lemma msleep_refines:
  assumes k: "kinv s" and c: "current s h \<noteq> 0" and m: "sys_msleep h ms s = Some t"
  shows "refines (s, w) (t, w)"
proof -
  obtain p q x where p: "get_proc (current s h) s = Some p"
    and q: "priority_queue_push (sleep_queue s) (Pair x (int (current s h))) = Some q"
    and t: "t = (put_state (current s h) p TASK_BLOCK (s\<lparr>sleep_queue := q\<rparr>))\<lparr>current := (current s)(h := 0)\<rparr>"
    using m by (auto simp: sys_msleep_def Let_def hoare_simps dest!: sched_eq split: if_splits)
  have pq: "pq_inv (sleep_queue s)" by (rule kinvD(8)[OF k])
  have room: "priority_queue_size (sleep_queue s) < priority_queue_capacity (sleep_queue s)"
    using q by (auto simp: priority_queue_push_def hoare_simps)
  have q': "pq_inv q" "pq_mset q = add_mset (Pair x (int (current s h))) (pq_mset (sleep_queue s))"
    "priority_queue_capacity q = priority_queue_capacity (sleep_queue s)"
    using pq_push_ok[OF pq room, of "Pair x (int (current s h))"] q by (metis option.inject)+
  have k1: "kinv (s\<lparr>sleep_queue := q\<rparr>)" by (rule kinv_sleep[OF k q'(1)]) (use q' kinvD(9,10)[OF k] in auto)
  have p1: "get_proc (current s h) (s\<lparr>sleep_queue := q\<rparr>) = Some p" using p by simp
  let ?a = "absk s w"
  have "astep ?a (?a\<lparr>cur := (cur ?a)(h := 0), st := (st ?a)(current s h := Some TASK_BLOCK),
    pl := (pl ?a)(Sleep := add_mset (current s h) (pl ?a Sleep))\<rparr>)" by (rule astep.block) (simp_all add: c)
  moreover have "image_mset (\<lambda>x. nat (pvalue x)) (pq_mset q) = add_mset (current s h) (pl ?a Sleep)"
    by (simp add: q'(2) absk_def)
  ultimately show ?thesis
    by (intro refines_step) (simp_all add: t absk_put_state[OF p1] absk_sleep kinv_put_state[OF k1 p1])
qed

lemma setkilled_refines:
  assumes "kinv s" "setkilled i s = Some t"
  shows "refines (s, w) (t, w)"
proof -
  obtain p where p: "get_proc i s = Some p" "t = set_proc i (Some (p\<lparr>killed := True\<rparr>)) s"
    using assms(2) by (auto simp: setkilled_def hoare_simps)
  show ?thesis unfolding p(2)
    by (rule refines_same[OF kinv_set[OF assms(1) p(1)] absk_set_id[OF p(1)]]) (simp_all add: kinvD(2)[OF assms(1) p(1)])
qed

lemma kill_refines:
  assumes k: "kinv s" and a: "ainv (absk s w)" and c: "current s h \<noteq> 0" and y: "sys_kill h i s = Some (r, t)"
  shows "refines (s, w) (t, w)"
proof -
  obtain p where p: "get_proc (current s h) s = Some p" using y by (auto simp: sys_kill_def hoare_simps)
  have run: "state p = TASK_RUNNING" using ainvD(1)[OF a, of h] c absk_at(1)[OF p, of w] by simp
  show ?thesis
  proof (cases "t = s")
    case True
    then show ?thesis using k by (simp add: refines_same)
  next
    case False
    then obtain q where q: "priority_queue_pop_v (sleep_queue s) (int i) = Some q"
      and t: "t = set_proc (current s h) (Some (p\<lparr>killed := True\<rparr>)) (s\<lparr>sleep_queue := q\<rparr>)"
      using y p run by (auto simp: sys_kill_def hoare_simps Let_def split: if_splits)
    have pq: "pq_inv (sleep_queue s)" by (rule kinvD(8)[OF k])
    have cnt: "count (image_mset (\<lambda>x. nat (pvalue x)) M) i = size (filter_mset (\<lambda>x. nat (pvalue x) = i) M)" for M
      by (induction M) auto
    have "filter_mset (\<lambda>x. pvalue x = int i) M \<subseteq># filter_mset (\<lambda>x. nat (pvalue x) = i) M" for M
      by (rule filter_mset_mono_strong) auto
    then have "size (filter_mset (\<lambda>x. pvalue x = int i) (pq_mset (sleep_queue s))) \<le> count (pl (absk s w) Sleep) i"
      using size_mset_mono cnt by (fastforce simp: absk_def)
    then have one: "size (filter_mset (\<lambda>x. pvalue x = int i) (pq_mset (sleep_queue s))) \<le> 1"
      using ainvD(4)[OF a, of Sleep i] by (rule order.trans)
    obtain q' where q': "priority_queue_pop_v (sleep_queue s) (int i) = Some q'" "pq_inv q'"
      "pq_mset q' \<subseteq># pq_mset (sleep_queue s)"
      using pq_pop_v_cases[OF pq one] by (metis multiset_filter_subset subset_mset.order_refl)
    then have qq: "pq_inv q" "pq_mset q \<subseteq># pq_mset (sleep_queue s)" using q by auto
    have cap: "priority_queue_capacity q = priority_queue_capacity (sleep_queue s)"
      using q by (auto simp: priority_queue_pop_v_def hoare_simps)
    have k1: "kinv (s\<lparr>sleep_queue := q\<rparr>)"
      by (rule kinv_sleep[OF k qq(1)]) (use qq(2) cap kinvD(9,10)[OF k] in \<open>auto dest: mset_subset_eqD\<close>)
    let ?s1 = "s\<lparr>sleep_queue := q\<rparr>"
    have p1: "get_proc (current s h) ?s1 = Some p" using p by simp
    have "astep (absk s w) ((absk s w)\<lparr>pl := (pl (absk s w))(Sleep := image_mset (\<lambda>x. nat (pvalue x)) (pq_mset q))\<rparr>)"
      by (rule astep.forget) (use image_mset_subseteq_mono[OF qq(2)] in \<open>simp add: absk_def\<close>)
    then have "refines (s, w) (?s1, w)" by (intro refines_step[OF k1]) (simp add: absk_sleep)
    moreover have "refines (?s1, w) (t, w)" unfolding t
      by (rule refines_same[OF kinv_set[OF k1 p1] absk_set_id[OF p1]]) (simp_all add: kinvD(2)[OF k p])
    ultimately show ?thesis by (rule refines_trans)
  qed
qed


section \<open>Exit\<close>

text \<open>The abstract state with one process put back to state \<open>x\<close> and the list of one place written out: the form
  in which the waking of a list is a sequence of abstract steps in the middle of another operation.\<close>

definition view :: "nat \<Rightarrow> proc_state \<Rightarrow> 'k place \<Rightarrow> nat list \<Rightarrow> 'k asched \<Rightarrow> 'k asched" where
  "view i x q l a = a\<lparr>st := (st a)(i := Some x), pl := (pl a)(q := mset l)\<rparr>"

lemma unblock_one_frame:
  assumes "unblock_one h j s = Some t"
  shows "current t = current s" "i = current s h \<Longrightarrow> get_proc i t = get_proc i s"
    "\<exists>p. get_proc j s = Some p \<and> t = put_state j p TASK_READY s" "j \<noteq> current s h"
proof -
  obtain p where p: "get_proc j s = Some p" "j \<noteq> current s h" "t = put_state j p TASK_READY s"
    using unblock_one_eq[OF assms] by blast
  show "current t = current s" "i = current s h \<Longrightarrow> get_proc i t = get_proc i s" "j \<noteq> current s h"
    using p by (simp_all add: put_state_def get_set_proc get_proc_bound[OF p(1)])
  show "\<exists>p. get_proc j s = Some p \<and> t = put_state j p TASK_READY s" using p by blast
qed

lemma unblock_list_view:
  "for_each (unblock_one h) l s = Some t \<Longrightarrow> kinv s \<Longrightarrow> i = current s h \<Longrightarrow>
     kinv t \<and> current t = current s \<and> get_proc i t = get_proc i s \<and>
     astep\<^sup>*\<^sup>* (view i x q l (absk s w)) (view i x q [] (absk t w))"
proof (induction l arbitrary: s)
  case (Cons j l)
  obtain s1 where s1: "unblock_one h j s = Some s1" "for_each (unblock_one h) l s1 = Some t"
    using Cons.prems(1) by (auto split: option.splits)
  note F = unblock_one_frame[OF s1(1)]
  obtain p where p: "get_proc j s = Some p" "s1 = put_state j p TASK_READY s" using F(3) by blast
  have k1: "kinv s1" unfolding p(2) by (rule kinv_put_state[OF Cons.prems(2) p(1)])
  have ji: "j \<noteq> i" using F(4) Cons.prems(3) by simp
  let ?a = "view i x q (j # l) (absk s w)"
  have "astep ?a (?a\<lparr>st := (st ?a)(j := Some TASK_READY), pl := (pl ?a)(q := pl ?a q - {#j#})\<rparr>)"
    by (rule astep.wake) (simp add: view_def)
  also have "?a\<lparr>st := (st ?a)(j := Some TASK_READY), pl := (pl ?a)(q := pl ?a q - {#j#})\<rparr> = view i x q l (absk s1 w)"
    unfolding view_def p(2) absk_put_state[OF p(1)] using ji by (simp add: fun_upd_twist)
  finally have "astep ?a (view i x q l (absk s1 w))" .
  then show ?case using Cons.IH[OF s1(2) k1] F(1,2) Cons.prems(3) by (auto intro: converse_rtranclp_into_rtranclp)
qed simp

text \<open>Waking a parent that waits for a child.\<close>

lemma wake_parent_view:
  assumes p: "get_proc j s = Some p" and w: "w4child p" and ij: "i \<noteq> j"
  shows "astep (view i x q l (absk s w)) (view i x q l (absk (put_state j p TASK_READY s) w))"
proof -
  let ?a = "view i x q l (absk s w)"
  have "astep ?a (?a\<lparr>st := (st ?a)(j := Some TASK_READY)\<rparr>)"
    by (rule astep.wake_parent) (use absk_at(2)[OF p, of w] w in \<open>simp add: view_def\<close>)
  also have "?a\<lparr>st := (st ?a)(j := Some TASK_READY)\<rparr> = view i x q l (absk (put_state j p TASK_READY s) w)"
    unfolding view_def absk_put_state[OF p] using ij by (simp add: fun_upd_twist)
  finally show ?thesis .
qed

lemma get_set_same:
  assumes "get_proc i s = Some q" "w4child q' = w4child q" "state q' = state q" "wait_list q' = wait_list q"
    "get_proc j s = Some p"
  shows "\<exists>p'. get_proc j (set_proc i (Some q') s) = Some p' \<and> state p' = state p \<and> w4child p' = w4child p \<and>
    wait_list p' = wait_list p"
  using assms by (cases "j = i") (simp_all add: get_set_proc get_proc_bound)

lemma reparent_one_refines:
  assumes k: "kinv s" and r: "reparent_one i c s = Some t"
  shows "refines (s, w) (t, w)" "current t = current s" "\<And>p. get_proc j s = Some p \<Longrightarrow> \<not> w4child p \<Longrightarrow>
    \<exists>p'. get_proc j t = Some p' \<and> state p' = state p \<and> w4child p' = w4child p \<and> wait_list p' = wait_list p"
proof -
  define n :: nat where "n = 1"
  obtain ini ch1 ini2 where ini: "get_proc n s = Some ini"
    and ch1: "get_proc c (set_proc n (Some (ini\<lparr>child_list := c # child_list ini\<rparr>)) s) = Some ch1"
    and ini2: "get_proc n (set_proc c (Some (ch1\<lparr>parentpid := 1\<rparr>)) (set_proc n (Some (ini\<lparr>child_list := c # child_list ini\<rparr>)) s)) = Some ini2"
    and t: "t = (if w4child ini2 then put_state n ini2 TASK_READY
        (set_proc c (Some (ch1\<lparr>parentpid := 1\<rparr>)) (set_proc n (Some (ini\<lparr>child_list := c # child_list ini\<rparr>)) s))
      else set_proc c (Some (ch1\<lparr>parentpid := 1\<rparr>)) (set_proc n (Some (ini\<lparr>child_list := c # child_list ini\<rparr>)) s))"
    using r unfolding reparent_one_def Let_def n_def by (auto simp: hoare_simps simp del: One_nat_def)
  define s1 where "s1 = set_proc n (Some (ini\<lparr>child_list := c # child_list ini\<rparr>)) s"
  define s2 where "s2 = set_proc c (Some (ch1\<lparr>parentpid := 1\<rparr>)) s1"
  have k1: "kinv s1" unfolding s1_def by (rule kinv_set[OF k ini]) (simp add: kinvD(2)[OF k ini])
  have c1: "get_proc c s1 = Some ch1" using ch1 unfolding s1_def .
  have k2: "kinv s2" unfolding s2_def by (rule kinv_set[OF k1 c1]) (simp add: kinvD(2)[OF k1 c1])
  have i2: "get_proc n s2 = Some ini2" using ini2 unfolding s2_def s1_def .
  have a1: "absk s1 w = absk s w" unfolding s1_def by (rule absk_set_id[OF ini]) simp_all
  have a2: "absk s2 w = absk s w" unfolding s2_def a1[symmetric] by (rule absk_set_id[OF c1]) simp_all
  have t': "t = (if w4child ini2 then put_state n ini2 TASK_READY s2 else s2)" using t unfolding s2_def s1_def .
  show "refines (s, w) (t, w)"
  proof (cases "w4child ini2")
    case True
    have "astep (absk s2 w) ((absk s2 w)\<lparr>st := (st (absk s2 w))(n := Some TASK_READY)\<rparr>)"
      by (rule astep.wake_parent) (use absk_at(2)[OF i2, of w] True in simp)
    then have "refines (s2, w) (t, w)" unfolding t' using True kinv_put_state[OF k2 i2]
      by (intro refines_step) (simp_all add: absk_put_state[OF i2])
    then show ?thesis using a2 by (simp add: refines_def)
  qed (use t' k2 a2 in \<open>simp add: refines_same\<close>)
  show "current t = current s" unfolding t' s2_def s1_def by (simp add: put_state_def)
  fix p assume p: "get_proc j s = Some p" "\<not> w4child p"
  obtain p1 where p1: "get_proc j s1 = Some p1" "state p1 = state p" "w4child p1 = w4child p" "wait_list p1 = wait_list p"
    using get_set_same[OF ini _ _ _ p(1), of "ini\<lparr>child_list := c # child_list ini\<rparr>"] unfolding s1_def by auto
  obtain p2 where p2: "get_proc j s2 = Some p2" "state p2 = state p" "w4child p2 = w4child p" "wait_list p2 = wait_list p"
    using get_set_same[OF c1 _ _ _ p1(1), of "ch1\<lparr>parentpid := 1\<rparr>"] p1(2-4) unfolding s2_def by auto
  have "w4child ini2 \<Longrightarrow> j \<noteq> n" using p2(1,3) i2 p(2) by auto
  then show "\<exists>p'. get_proc j t = Some p' \<and> state p' = state p \<and> w4child p' = w4child p \<and> wait_list p' = wait_list p"
    using p2 unfolding t' by (simp add: put_state_def get_set_proc get_proc_bound[OF i2])
qed

lemma reparent_list_refines:
  "for_each (reparent_one i) l s = Some t \<Longrightarrow> kinv s \<Longrightarrow> get_proc j s = Some p \<Longrightarrow> \<not> w4child p \<Longrightarrow>
     refines (s, w) (t, w) \<and> current t = current s \<and>
     (\<exists>p'. get_proc j t = Some p' \<and> state p' = state p \<and> w4child p' = w4child p \<and> wait_list p' = wait_list p)"
proof (induction l arbitrary: s p)
  case Nil
  then show ?case by (auto simp: refines_same)
next
  case (Cons c l)
  obtain s1 where s1: "reparent_one i c s = Some s1" "for_each (reparent_one i) l s1 = Some t"
    using Cons.prems(1) by (auto split: option.splits)
  note R = reparent_one_refines[OF Cons.prems(2) s1(1)]
  have k1: "kinv s1" using R(1)[of w] by (simp add: refines_def)
  obtain p1 where p1: "get_proc j s1 = Some p1" "state p1 = state p" "w4child p1 = w4child p" "wait_list p1 = wait_list p"
    using R(3)[OF Cons.prems(3,4)] by blast
  show ?case using Cons.IH[OF s1(2) k1 p1(1)] p1(2-4) Cons.prems(4) R(1,2) refines_trans by metis
qed

lemma reparent_refines:
  assumes "kinv s" "reparent i s = Some t" "get_proc i s = Some p" "\<not> w4child p"
  shows "refines (s, w) (t, w) \<and> current t = current s \<and>
     (\<exists>p'. get_proc i t = Some p' \<and> state p' = state p \<and> w4child p' = w4child p \<and> wait_list p' = wait_list p)"
proof -
  let ?s = "set_proc i (Some (p\<lparr>child_list := []\<rparr>)) s"
  have f: "for_each (reparent_one i) (child_list p) ?s = Some t" using assms(2,3) by (simp add: reparent_def)
  have k: "kinv ?s" by (rule kinv_set[OF assms(1,3)]) (simp add: kinvD(2)[OF assms(1,3)])
  have a: "absk ?s w = absk s w" by (rule absk_set_id[OF assms(3)]) simp_all
  have g: "get_proc i ?s = Some (p\<lparr>child_list := []\<rparr>)" by (simp add: get_set_proc get_proc_bound[OF assms(3)])
  have "refines (?s, w) (t, w) \<and> current t = current ?s \<and> (\<exists>p'. get_proc i t = Some p' \<and>
      state p' = state (p\<lparr>child_list := []\<rparr>) \<and> w4child p' = w4child (p\<lparr>child_list := []\<rparr>) \<and> wait_list p' = wait_list (p\<lparr>child_list := []\<rparr>))"
    by (rule reparent_list_refines[OF f k g]) (simp add: assms(4))
  then show ?thesis using a by (simp add: refines_def)
qed

lemma exit_wakes_parent:
  assumes k: "kinv s" and p: "get_proc j s = Some p" and nw: "i = j \<Longrightarrow> \<not> w4child p"
    and t: "t = (if w4child p then put_state j p TASK_READY s else s)"
  shows "kinv t \<and> current t = current s \<and> (i \<noteq> j \<or> t = s) \<and>
     astep\<^sup>*\<^sup>* (view i x q l (absk s w)) (view i x q l (absk t w))"
proof (cases "w4child p")
  case True
  then have ij: "i \<noteq> j" using nw by blast
  show ?thesis unfolding t using True ij wake_parent_view[OF p True ij, of x q l w] kinv_put_state[OF k p]
    by (simp add: r_into_rtranclp)
qed (use t k in simp)

lemma do_exit_refines:
  assumes k: "kinv s" and a: "ainv (absk s w)" and e: "do_exit fp h status s = Some t"
  shows "refines (s, w) (t, w)"
proof -
  define i where "i = current s h"
  obtain s1 p r g n s3 p3 s5 where c0: "i \<noteq> 0" and s1: "reparent i s = Some s1" and p: "get_proc i s1 = Some p"
    and u: "proc_unblock_all h (wait_list p) (set_proc i (Some (p\<lparr>exitstate := status, state := TASK_ZOMBIE, resources := r\<rparr>))
      (s1\<lparr>shared := g\<rparr>)) = Some (n, s3)"
    and p3: "get_proc i s3 = Some p3"
    and s5: "(if n = 0 then do {
              parentp \<leftarrow> get_proc (parentpid p) (set_proc i (Some (p3\<lparr>wait_list := []\<rparr>)) s3);
              cassert (parentpid p = pid parentp);
              Some (if w4child parentp then put_state (parentpid p) parentp TASK_READY (set_proc i (Some (p3\<lparr>wait_list := []\<rparr>)) s3)
                else set_proc i (Some (p3\<lparr>wait_list := []\<rparr>)) s3) }
            else Some (set_proc i (Some (p3\<lparr>wait_list := []\<rparr>)) s3)) = Some s5"
    and sc: "sched h s5 = Some t"
    using e unfolding do_exit_def Let_def i_def[symmetric] by (auto simp only: hoare_simps cassert_bind_eq_Some split_paired_Ex prod.case)
  obtain p0 where p0: "get_proc i s = Some p0" "\<not> w4child p0" "state p0 = TASK_RUNNING"
  proof -
    have "st (absk s w) i = Some TASK_RUNNING" "\<not> w4 (absk s w) i" using running_free[OF a, of h i] c0 i_def by simp_all
    then show ?thesis using that by (auto simp: absk_def split: option.splits)
  qed
  have R: "refines (s, w) (s1, w)" "current s1 = current s" "state p = TASK_RUNNING" "\<not> w4child p"
    using reparent_refines[OF k s1 p0(1,2), of w] p p0(2,3) by auto
  have k1: "kinv s1" using R(1) by (simp add: refines_def)
  define s2 where "s2 = set_proc i (Some (p\<lparr>exitstate := status, state := TASK_ZOMBIE, resources := r\<rparr>)) (s1\<lparr>shared := g\<rparr>)"
  have pg: "get_proc i (s1\<lparr>shared := g\<rparr>) = Some p" using p by simp
  have k2: "kinv s2" unfolding s2_def by (rule kinv_set[OF _ pg]) (simp_all add: k1 kinvD(2)[OF k1 p])
  have a2: "absk s2 w = (absk s1 w)\<lparr>st := (st (absk s1 w))(i := Some TASK_ZOMBIE)\<rparr>"
    unfolding s2_def by (subst absk_set_same[OF pg]) simp_all
  have v2: "view i TASK_RUNNING (Waiters i) (wait_list p) (absk s2 w) = absk s1 w"
    unfolding view_def a2 using absk_at[OF p, of w] R(3) by (simp add: fun_upd_idem)
  have c2: "i = current s2 h" unfolding s2_def by (simp add: R(2) i_def)
  have "for_each (unblock_one h) (wait_list p) s2 = Some s3" using u unfolding s2_def by (auto simp: proc_unblock_all_def hoare_simps)
  note U = unblock_list_view[OF this k2 c2, of TASK_RUNNING "Waiters i" w]
  have k3: "kinv s3" and c3: "current s3 = current s" and g3: "get_proc i s3 = get_proc i s2"
    and A3: "astep\<^sup>*\<^sup>* (absk s1 w) (view i TASK_RUNNING (Waiters i) [] (absk s3 w))"
    using U R(2) unfolding v2 by (auto simp: s2_def)
  have p3': "state p3 = TASK_ZOMBIE" "\<not> w4child p3"
    using g3 p3 R(4) get_proc_bound[OF p] by (auto simp: s2_def get_set_proc)
  define s4 where "s4 = set_proc i (Some (p3\<lparr>wait_list := []\<rparr>)) s3"
  have k4: "kinv s4" unfolding s4_def by (rule kinv_set[OF k3 p3]) (simp add: kinvD(2)[OF k3 p3])
  have p4: "get_proc i s4 = Some (p3\<lparr>wait_list := []\<rparr>)" by (simp add: s4_def get_set_proc get_proc_bound[OF p3])
  have "(st (absk s3 w))(i \<mapsto> TASK_ZOMBIE) = st (absk s3 w)" "(w4 (absk s3 w))(i := False) = w4 (absk s3 w)"
    using absk_at(1,2)[OF p3, of w] p3' by (simp_all add: fun_upd_idem)
  then have v4: "view i TASK_RUNNING (Waiters i) [] (absk s4 w) = view i TASK_RUNNING (Waiters i) [] (absk s3 w)"
    unfolding s4_def absk_set[OF get_proc_bound[OF p3]] view_def by (simp add: p3')
  have c4: "current s4 = current s" by (simp add: s4_def c3)
  have K5: "kinv s5 \<and> current s5 = current s \<and> get_proc i s5 = get_proc i s4 \<and>
      astep\<^sup>*\<^sup>* (view i TASK_RUNNING (Waiters i) [] (absk s4 w)) (view i TASK_RUNNING (Waiters i) [] (absk s5 w))"
  proof (cases "n = 0")
    case True
    obtain pp where pp: "get_proc (parentpid p) s4 = Some pp" and
      s5': "s5 = (if w4child pp then put_state (parentpid p) pp TASK_READY s4 else s4)"
      using s5 True unfolding s4_def[symmetric] by (auto simp: hoare_simps)
    have nw: "\<not> w4child pp" if "i = parentpid p" using that pp p4 p3'(2) by auto
    have E: "kinv s5 \<and> current s5 = current s4 \<and> (i \<noteq> parentpid p \<or> s5 = s4) \<and>
      astep\<^sup>*\<^sup>* (view i TASK_RUNNING (Waiters i) [] (absk s4 w)) (view i TASK_RUNNING (Waiters i) [] (absk s5 w))"
      by (rule exit_wakes_parent[OF k4 pp nw s5'])
    have "get_proc i s5 = get_proc i s4" if "i \<noteq> parentpid p"
      unfolding s5' using that by (simp add: put_state_def get_set_proc get_proc_bound[OF pp])
    then show ?thesis using E c4 by auto
  next
    case False
    then have "s5 = s4" using s5 s4_def by simp
    then show ?thesis using k4 c4 by simp
  qed
  have p5: "get_proc i s5 = Some (p3\<lparr>wait_list := []\<rparr>)" using K5 p4 by simp
  have tt: "t = s5\<lparr>current := (current s)(h := 0)\<rparr>" using sched_eq[OF sc] K5 by simp
  let ?b = "view i TASK_RUNNING (Waiters i) [] (absk s5 w)"
  have "astep ?b (?b\<lparr>cur := (cur ?b)(h := 0), st := (st ?b)(i := Some TASK_ZOMBIE)\<rparr>)"
    by (rule astep.stop) (use c0 K5 i_def in \<open>auto simp: view_def\<close>)
  also have "?b\<lparr>cur := (cur ?b)(h := 0), st := (st ?b)(i := Some TASK_ZOMBIE)\<rparr> = absk t w"
    using absk_at[OF p5, of w] p3'(1) K5 unfolding tt view_def by (simp add: fun_upd_idem)
  finally have "astep\<^sup>*\<^sup>* (absk s1 w) (absk t w)" using A3 K5 v4 by (auto intro: rtranclp.rtrancl_into_rtrancl rtranclp_trans)
  then have "refines (s1, w) (t, w)" using K5 tt by (intro refinesI) simp_all
  with R(1) show ?thesis by (rule refines_trans)
qed

section \<open>Waiting for processes\<close>

lemma kinv_pool:
  assumes "kinv s" "length (pcbtable t) = length (pcbtable s)" "sleep_queue t = sleep_queue s"
    "\<And>i p. get_proc i t = Some p \<Longrightarrow> pid p = i" "get_proc 0 t \<noteq> None" "queue_inv (pids_queue t)"
    "queue_capacity (pids_queue t) = queue_capacity (pids_queue s)" "distinct (queue_abs (pids_queue t))"
    "set (queue_abs (pids_queue t)) = {i. i < NPROC \<and> get_proc i t = None}"
  shows "kinv t"
  using assms(1,2,3,5-9) assms(4) unfolding kinv_def by metis

lemma freepid_ok:
  assumes k: "kinv s" and z: "get_proc z s = Some p" and f: "freepid z s = Some t" and z0: "z \<noteq> 0"
  shows "kinv (set_proc z None t)" "t = s\<lparr>pids_queue := pids_queue t\<rparr>"
proof -
  note D = kinvD[OF k]
  have nz: "z \<notin> set (queue_abs (pids_queue s))" using D(7) z by auto
  obtain q where q: "queue_push (pids_queue s) z = Some q" and t: "t = s\<lparr>pids_queue := q\<rparr>"
    using f by (auto simp: freepid_def hoare_simps)
  have room: "queue_size (pids_queue s) < queue_capacity (pids_queue s)"
    using q by (simp only: queue_push_def cassert_bind_eq_Some)
  obtain q' where q': "queue_push (pids_queue s) z = Some q'" "queue_inv q'" "queue_abs q' = queue_abs (pids_queue s) @ [z]"
    "queue_capacity q' = queue_capacity (pids_queue s)"
    using queue_push_ok[OF D(4) room, of z] by metis
  show "t = s\<lparr>pids_queue := pids_queue t\<rparr>" by (simp add: t)
  have zb: "z < length (pcbtable s)" by (rule get_proc_bound[OF z])
  have g: "get_proc j (set_proc z None t) = (if j = z then None else get_proc j s)" for j
    using zb unfolding t by (simp add: get_set_proc)
  have z0': "get_proc 0 (set_proc z None t) \<noteq> None" using D(3) z0 by (simp add: g)
  have zN: "z < NPROC" using zb D(1) by simp
  have qt: "pids_queue (set_proc z None t) = q'" using q q'(1) by (simp add: t)
  show "kinv (set_proc z None t)"
  proof (rule kinv_pool[OF k], unfold qt)
    show "pid p' = i" if "get_proc i (set_proc z None t) = Some p'" for i p'
      using that D(2)[of i p'] by (simp add: g split: if_splits)
    show "distinct (queue_abs q')" using D(6) nz q'(3) by simp
    show "set (queue_abs q') = {i. i < NPROC \<and> get_proc i (set_proc z None t) = None}"
      using q'(3) D(7) zN by (auto simp: g)
  qed (rule z0' q'(2) q'(4) | simp add: t)+
qed

lemma wait4_finish_refines:
  assumes k: "kinv s" and a: "ainv (absk s w)" and f: "wait4_finish ps h z s = Some (r, t)" and z0: "z \<noteq> 0"
  shows "refines (s, w) (t, w)"
proof -
  obtain p zp ok g where p: "get_proc (current s h) s = Some p" and zp: "get_proc z s = Some zp" "state zp = TASK_ZOMBIE"
    and r: "(if ok then do { s2 \<leftarrow> freepid (pid zp) (s\<lparr>shared := g\<rparr>); Some (Return (int z), set_proc z None s2) }
      else Some (Return (int z), s\<lparr>shared := g\<rparr>)) = Some (r, t)"
    using f unfolding wait4_finish_def Let_def
    by (auto simp only: hoare_simps cassert_bind_eq_Some split_paired_Ex prod.case)
  have kg: "kinv (s\<lparr>shared := g\<rparr>)" using k by simp
  have zg: "get_proc z (s\<lparr>shared := g\<rparr>) = Some zp" using zp(1) by simp
  show ?thesis
  proof (cases ok)
    case True
    then obtain s2 where s2: "freepid z (s\<lparr>shared := g\<rparr>) = Some s2" "t = set_proc z None s2"
      using r kinvD(2)[OF k zp(1)] by (auto simp: hoare_simps)
    note F = freepid_ok[OF kg zg s2(1) z0]
    let ?a = "absk s w"
    have d: "astep ?a (?a\<lparr>st := (st ?a)(z := None)\<rparr>)" by (rule astep.death) (simp add: absk_at[OF zp(1)] zp(2))
    let ?b = "?a\<lparr>st := (st ?a)(z := None)\<rparr>"
    have "astep ?b (?b\<lparr>pl := (pl ?b)(Waiters z := {#})\<rparr>)" by (rule astep.forget) simp
    moreover have "absk t w = ?b\<lparr>pl := (pl ?b)(Waiters z := {#})\<rparr>"
    proof -
      have zb: "z < length (pcbtable s)" by (rule get_proc_bound[OF zp(1)])
      have s2': "get_proc j s2 = get_proc j s" "current s2 = current s" "sleep_queue s2 = sleep_queue s"
        "length (pcbtable s2) = length (pcbtable s)" for j
        by (subst F(2), simp)+
      have g: "get_proc j t = (if j = z then None else get_proc j s)" for j
        using zb unfolding s2(2) by (simp add: get_set_proc s2')
      have f: "sleep_queue t = sleep_queue s" "current t = current s" by (simp_all add: s2(2) s2')
      have pw: "places t w q = ((places s w)(Waiters z := {#})) q" for q
        by (cases q) (auto simp: waiters_def g f)
      have nw: "\<not> w4 ?a z" using ainvD(7)[OF a, of z] zp absk_at(1)[OF zp(1), of w] by auto
      then have zw: "\<not> w4child zp" using absk_at(2)[OF zp(1), of w] by simp
      have "(case get_proc j t of None \<Rightarrow> False | Some p \<Rightarrow> w4child p) = (case get_proc j s of None \<Rightarrow> False | Some p \<Rightarrow> w4child p)" for j
        using zp(1) zw by (simp add: g)
      then show ?thesis using pw by (auto simp: absk_def g fun_eq_iff f)
    qed
    ultimately have "astep\<^sup>*\<^sup>* ?a (absk t w)" using d by (simp add: converse_rtranclp_into_rtranclp)
    then show ?thesis using F(1) s2(2) by (intro refinesI) simp_all
  next
    case False
    then have "t = s\<lparr>shared := g\<rparr>" using r by simp
    then show ?thesis using k by (simp add: refines_same)
  qed
qed

lemma wait4_scan_refines:
  assumes k: "kinv s" and f: "wait4_scan h s = Some (b, c, t)"
  shows "refines (s, w) (t, w)" "absk t w = absk s w" "kinv t" "current t = current s"
proof -
  obtain p found where p: "get_proc (current s h) s = Some p" and t: "t = (case found of None \<Rightarrow> s
       | Some c \<Rightarrow> set_proc (current s h) (Some (p\<lparr>child_list := remove1 c (child_list p)\<rparr>)) s)"
    using f unfolding wait4_scan_def Let_def by (auto simp: hoare_simps)
  show K: "kinv t" unfolding t using k kinv_set[OF k p] kinvD(2)[OF k p] by (cases found) simp_all
  show A: "absk t w = absk s w" unfolding t by (cases found) (simp_all add: absk_set_id[OF p])
  show "current t = current s" unfolding t by (cases found) simp_all
  show "refines (s, w) (t, w)" by (rule refines_same[OF K A])
qed

lemma scan_children_zombie:
  "scan_children s i cs = Some (Some c) \<Longrightarrow> c \<in> set cs \<and> (\<exists>p. get_proc c s = Some p \<and> state p = TASK_ZOMBIE \<and> parentpid p = i)"
  by (induction s i cs rule: scan_children.induct) (auto simp: hoare_simps split: if_splits)

lemma wait4_any_refines:
  assumes k: "kinv s" and a: "ainv (absk s w)" and f: "wait4_any ps h s = Some (r, t)" and c0: "current s h \<noteq> 0"
    and st0: "st (absk s w) 0 \<noteq> Some TASK_ZOMBIE"
  shows "refines (s, w) (t, w)"
proof -
  obtain hk found s1 p where sc: "wait4_scan h s = Some (hk, found, s1)" and p: "get_proc (current s1 h) s1 = Some p"
    and r: "(if \<not> hk \<or> killed p then Some (Return (-1), s1)
     else case found of None \<Rightarrow> Some (Asleep, s1) | Some c \<Rightarrow> wait4_finish ps h c s1) = Some (r, t)"
    using f unfolding wait4_any_def by (auto simp only: hoare_simps split_paired_Ex prod.case)
  note W = wait4_scan_refines(1,2)[OF k sc, of w] wait4_scan_refines(3)[OF k sc]
  show ?thesis
  proof (cases "t = s1")
    case False
    then obtain c where c: "found = Some c" and wf: "wait4_finish ps h c s1 = Some (r, t)"
      using r by (auto split: if_splits option.splits)
    have "c \<noteq> 0"
    proof
      assume "c = 0"
      then have "\<exists>q. get_proc 0 s1 = Some q \<and> state q = TASK_ZOMBIE"
        using wf by (auto simp: wait4_finish_def hoare_simps)
      then show False using st0 W(2) absk_at(1)[of 0 s1 _ w] by auto
    qed
    then show ?thesis using wait4_finish_refines[OF W(3) _ wf, of w] a W(1,2) by (auto intro: refines_trans)
  qed (use W(1) in simp)
qed

lemma wait4_sleep_refines:
  assumes k: "kinv s" and c: "current s h \<noteq> 0" and y: "wait4_sleep h s = Some t"
  shows "refines (s, w) (t, w)"
proof -
  obtain p where p: "get_proc (current s h) s = Some p"
    and t: "t = (put_state (current s h) (p\<lparr>w4child := True\<rparr>) TASK_BLOCK s)\<lparr>current := (current s)(h := 0)\<rparr>"
    using y by (auto simp: wait4_sleep_def hoare_simps dest!: sched_eq)
  have "kinv (put_state (current s h) (p\<lparr>w4child := True\<rparr>) TASK_BLOCK s)"
    unfolding put_state_def by (rule kinv_set[OF k p]) (simp add: kinvD(2)[OF k p])
  moreover have "absk (put_state (current s h) (p\<lparr>w4child := True\<rparr>) TASK_BLOCK s) w
      = (absk s w)\<lparr>st := (st (absk s w))(current s h := Some TASK_BLOCK), w4 := (w4 (absk s w))(current s h := True)\<rparr>"
    unfolding put_state_def absk_set[OF get_proc_bound[OF p]] using absk_at(3)[OF p, of w] by (simp add: fun_upd_idem)
  moreover have "astep (absk s w) ((absk s w)\<lparr>cur := (cur (absk s w))(h := 0), st := (st (absk s w))(current s h := Some TASK_BLOCK),
    w4 := (w4 (absk s w))(current s h := True)\<rparr>)" by (rule astep.wait_child) (simp_all add: c)
  ultimately show ?thesis by (intro refines_step) (simp_all add: t)
qed

lemma wait4_pid_loop_refines:
  assumes k: "kinv s" and a: "ainv (absk s w)" and c: "current s h \<noteq> 0" and z0: "z \<noteq> 0"
    and y: "wait4_pid_loop ps h z s = Some (r, t)"
  shows "refines (s, w) (t, w)"
proof -
  obtain zp where zp: "get_proc z s = Some zp" using y by (auto simp: wait4_pid_loop_def hoare_simps)
  show ?thesis
  proof (cases "state zp = TASK_ZOMBIE")
    case True
    then show ?thesis using y zp by (intro wait4_finish_refines[OF k a _ z0]) (simp add: wait4_pid_loop_def)
  next
    case False
    then obtain wl s1 zp1 where b: "proc_block h (wait_list zp) s = Some (wl, s1)" and zp1: "get_proc z s1 = Some zp1"
      and t: "t = set_proc z (Some (zp1\<lparr>wait_list := wl\<rparr>)) s1"
      using y zp by (auto simp: wait4_pid_loop_def hoare_simps)
    obtain p where p: "get_proc (current s h) s = Some p" "wl = current s h # wait_list zp"
      "s1 = (put_state (current s h) p TASK_BLOCK s)\<lparr>current := (current s)(h := 0)\<rparr>"
      using proc_block_eq[OF b] by blast
    have k1: "kinv s1" unfolding p(3) by (simp add: kinv_put_state[OF k p(1)])
    let ?a = "absk s w"
    have A: "absk s1 w = ?a\<lparr>cur := (cur ?a)(h := 0), st := (st ?a)(current s h := Some TASK_BLOCK)\<rparr>"
      unfolding p(3) by (simp add: absk_put_state[OF p(1)])
    have zw: "wait_list zp1 = wait_list zp"
      using absk_at(3)[OF zp1, of w] absk_at(3)[OF zp, of w] zp1 zp p(1) unfolding p(3)
      by (auto simp: put_state_def get_set_proc get_proc_bound split: if_splits)
    have kt: "kinv t" unfolding t by (rule kinv_set[OF k1 zp1]) (simp add: kinvD(2)[OF k1 zp1])
    have "absk t w = (absk s1 w)\<lparr>pl := (pl (absk s1 w))(Waiters z := mset wl)\<rparr>"
      unfolding t absk_set[OF get_proc_bound[OF zp1]] using absk_at[OF zp1, of w] by (simp add: fun_upd_idem)
    also have "\<dots> = ?a\<lparr>cur := (cur ?a)(h := 0), st := (st ?a)(current s h := Some TASK_BLOCK),
        pl := (pl ?a)(Waiters z := add_mset (current s h) (pl ?a (Waiters z)))\<rparr>"
      unfolding A p(2) using absk_at(3)[OF zp, of w] by simp
    finally have At: "absk t w = \<dots>" .
    have "astep ?a (absk t w)" unfolding At by (rule astep.block) (simp_all add: c)
    then show ?thesis by (rule refines_step[OF kt])
  qed
qed

lemma wait4_refines:
  assumes k: "kinv s" and a: "ainv (absk s w)" and st0: "st (absk s w) 0 \<noteq> Some TASK_ZOMBIE"
    and y: "sys_wait4 ps h z s = Some (r, t)"
  shows "refines (s, w) (t, w)"
proof -
  have c: "current s h \<noteq> 0" using y by (auto simp: sys_wait4_def hoare_simps)
  consider "t = s" | "wait4_any ps h s = Some (r, t)" | "0 < z" "wait4_pid_loop ps h (nat z) s = Some (r, t)"
    using y by (auto simp: sys_wait4_def wait4_pid_def hoare_simps split: if_splits)
  then show ?thesis
  proof cases
    case 1 then show ?thesis using k by (simp add: refines_same)
  next
    case 2 then show ?thesis by (intro wait4_any_refines[OF k a _ c st0])
  next
    case 3 then show ?thesis by (intro wait4_pid_loop_refines[OF k a c]) simp_all
  qed
qed

section \<open>New processes\<close>

text \<open>\<open>allocproc\<close> fills the entry of a pid of the pool; the pid leaves the pool.\<close>

lemma allocproc_ok:
  assumes k: "kinv s" and f: "allocproc nr s = Some (Some i, t)"
  obtains q r g p where "kinv t" "i < NPROC" "get_proc i s = None" "i \<noteq> 0" "get_proc i t = Some p"
    "t = set_proc i (Some p) (s\<lparr>pids_queue := q, shared := g\<rparr>)" "pid p = i" "wait_list p = []" "\<not> w4child p"
    "child_list p = []" "state p = TASK_INITING"
    "queue_abs (pids_queue s) = i # queue_abs q"
proof -
  note D = kinvD[OF k]
  obtain q r g p where ne: "\<not> queue_empty (pids_queue s)" and fr: "queue_front (pids_queue s) = Some i"
    and q: "queue_front_pop (pids_queue s) = Some q"
    and p: "p = \<lparr>pid = i, parentpid = 0, state = TASK_INITING, killed = False,
           w4child = False, exitstate = 0, priority = 0, ticks = 0, jiffies = 0, wait_list = [],
           child_list = [], resources = r\<rparr>"
    and t: "t = set_proc i (Some p) (s\<lparr>pids_queue := q, shared := g\<rparr>)"
    using f by (auto simp: allocproc_def allocpid_def hoare_simps split: option.splits if_splits)
  have ne': "queue_abs (pids_queue s) \<noteq> []" using ne queue_empty_iff[OF D(4)] by simp
  have hd: "i = hd (queue_abs (pids_queue s))" using queue_front_ok[OF D(4) ne'] fr by simp
  obtain q' where q': "queue_inv q" "queue_abs q = tl (queue_abs (pids_queue s))" "queue_capacity q = queue_capacity (pids_queue s)"
    using queue_front_pop_ok[OF D(4) ne'] q by (metis option.inject)
  have abs: "queue_abs (pids_queue s) = i # queue_abs q" using hd q'(2) ne' by simp
  have iN: "i < NPROC" "get_proc i s = None" using D(7) abs by auto
  have i0: "i \<noteq> 0" using D(3) iN(2) by metis
  have g: "get_proc j t = (if j = i then Some p else get_proc j s)" for j
    unfolding t using iN(1) D(1) by (simp add: get_set_proc)
  have qt: "pids_queue t = q" by (simp add: t)
  have kt: "kinv t"
  proof (rule kinv_pool[OF k], unfold qt)
    show "pid p' = j" if "get_proc j t = Some p'" for j p'
      using that D(2)[of j p'] p by (auto simp: g split: if_splits)
    show "get_proc 0 t \<noteq> None" using i0 D(3) by (simp add: g)
    show "distinct (queue_abs q)" using D(6) abs by simp
    have "insert i (set (queue_abs q)) = {j. j < NPROC \<and> get_proc j s = None}" "i \<notin> set (queue_abs q)"
      using D(6,7) abs by auto
    then show "set (queue_abs q) = {j. j < NPROC \<and> get_proc j t = None}" by (auto simp: g)
  qed (rule q'(1) q'(3) | simp add: t)+
  show thesis by (rule that[OF kt iN i0 _ t]) (simp_all add: g p abs)
qed

lemma birth_refines:
  assumes k: "kinv s" and f: "allocproc nr s = Some (Some i, s1)" and p: "get_proc i s1 = Some p"
    and t: "t = set_proc i (Some p') (s1\<lparr>shared := g\<rparr>)" and p': "pid p' = i" "state p' = TASK_READY"
      "w4child p' = w4child p" "wait_list p' = wait_list p"
  shows "refines (s, w) (t, w)"
proof -
  obtain q g0 p0 where A: "kinv s1" "get_proc i s = None" "i \<noteq> 0" "get_proc i s1 = Some p0"
    "s1 = set_proc i (Some p0) (s\<lparr>pids_queue := q, shared := g0\<rparr>)" "wait_list p0 = []" "\<not> w4child p0" "i < NPROC"
    using allocproc_ok[OF k f] by metis
  have pp: "p0 = p" using A(4) p by simp
  have iN: "i < length (pcbtable s)" using A(8) kinvD(1)[OF k] by simp
  have kt: "kinv t" unfolding t by (rule kinv_set) (use A(1) p p' in simp_all)
  let ?a = "absk s w"
  have n: "st ?a i = None" "\<not> w4 ?a i" "pl ?a (Waiters i) = {#}" using A(2) by (simp_all add: absk_def waiters_def)
  have "absk s1 w = ?a\<lparr>st := (st ?a)(i := Some (state p)), w4 := (w4 ?a)(i := False), pl := (pl ?a)(Waiters i := {#})\<rparr>"
    unfolding A(5) using iN A(6,7) pp by (subst absk_set) simp_all
  also have "\<dots> = ?a\<lparr>st := (st ?a)(i := Some (state p))\<rparr>" using n by (simp add: fun_upd_idem)
  finally have "absk t w = ?a\<lparr>st := (st ?a)(i := Some TASK_READY)\<rparr>"
    unfolding t using p p' by (subst absk_set_same[of i _ p]) simp_all
  moreover have "astep ?a (?a\<lparr>st := (st ?a)(i := Some TASK_READY)\<rparr>)" by (rule astep.birth) (rule n(1))
  ultimately show ?thesis by (intro refines_step[OF kt]) simp
qed

lemma allocproc_full: "allocproc nr s = Some (None, t) \<Longrightarrow> t = s"
  by (auto simp: allocproc_def allocpid_def hoare_simps split: option.splits if_splits)

lemma do_fork_refines:
  assumes k: "kinv s" and f: "do_fork nr cp h s = Some (r, t)"
  shows "refines (s, w) (t, w)"
proof -
  obtain pp n s1 where pp: "get_proc (current s h) s = Some pp" and al: "allocproc nr s = Some (n, s1)"
    using f by (auto simp: do_fork_def hoare_simps)
  show ?thesis
  proof (cases n)
    case None
    then have "t = s1" "s1 = s" using f pp al allocproc_full by (auto simp: do_fork_def hoare_simps)
    then show ?thesis using k by (simp add: refines_same)
  next
    case (Some i)
    obtain c r' g where c: "get_proc i s1 = Some c" and t: "t = set_proc (current s h)
        (Some (pp\<lparr>child_list := i # child_list pp\<rparr>)) (set_proc i (Some (c\<lparr>parentpid := pid pp, state := TASK_READY,
           jiffies := jiffies pp, ticks := ticks pp, priority := priority pp, resources := r'\<rparr>)) (s1\<lparr>shared := g\<rparr>))"
      using f pp al Some by (auto simp: do_fork_def hoare_simps Let_def)
    have al': "allocproc nr s = Some (Some i, s1)" using al Some by simp
    obtain q g0 p0 where A: "kinv s1" "get_proc i s = None" "s1 = set_proc i (Some p0) (s\<lparr>pids_queue := q, shared := g0\<rparr>)" "i < NPROC"
      using allocproc_ok[OF k al'] by metis
    define s2 where "s2 = set_proc i (Some (c\<lparr>parentpid := pid pp, state := TASK_READY,
           jiffies := jiffies pp, ticks := ticks pp, priority := priority pp, resources := r'\<rparr>)) (s1\<lparr>shared := g\<rparr>)"
    have R: "refines (s, w) (s2, w)"
      by (rule birth_refines[OF k al' c s2_def]) (simp_all add: kinvD(2)[OF A(1) c])
    have ne: "current s h \<noteq> i" using pp A(2) by auto
    have "get_proc (current s h) s1 = Some pp" unfolding A(3) using ne pp A(4) kinvD(1)[OF k] by (simp add: get_set_proc)
    then have p2: "get_proc (current s h) s2 = Some pp" unfolding s2_def
      using ne A(4) kinvD(1)[OF A(1)] by (simp add: get_set_proc)
    have k2: "kinv s2" using R by (simp add: refines_def)
    have "refines (s2, w) (t, w)" unfolding t s2_def[symmetric]
      by (rule refines_same[OF kinv_set[OF k2 p2] absk_set_id[OF p2]]) (simp_all add: kinvD(2)[OF k2 p2])
    with R show ?thesis by (rule refines_trans)
  qed
qed

lemma user_init_refines:
  assumes k: "kinv s" and f: "user_init nr li prio s = Some t"
  shows "refines (s, w) (t, w)"
proof -
  obtain i s1 p r g where al: "allocproc nr s = Some (Some i, s1)" and p: "get_proc i s1 = Some p" "pid p = 1"
    and t: "t = set_proc i (Some (p\<lparr>parentpid := 0, state := TASK_READY, ticks := prio, priority := prio, resources := r\<rparr>))
       (s1\<lparr>shared := g\<rparr>)"
    using f by (auto simp: user_init_def hoare_simps)
  have k1: "kinv s1" using allocproc_ok[OF k al] by metis
  show ?thesis by (rule birth_refines[OF k al p(1) t]) (simp_all add: kinvD(2)[OF k1 p(1)])
qed

end
