(* ===== verification/Kernel_Step.thy ===== *)
theory Kernel_Step
  imports Sched_Refine
begin

text \<open>
  The kernel as a step relation: all interleavings of the operations of theory \<open>Proc\<close> on any number of harts,
  with the wait lists of the other components. Every step refines the abstract scheduler of theory
  \<open>Sched_Refine\<close>, so its invariant holds in every reachable state: the assertions of the waking functions
  hold, and the timer always does its work.
\<close>

section \<open>Steps\<close>

record ('r, 'g) services =
  new_resources :: "'g \<Rightarrow> ('r \<times> 'g) option"
  copy_resources :: "'r \<Rightarrow> 'r \<Rightarrow> 'g \<Rightarrow> ('r \<times> 'g) option"
  free_resources :: "'r \<Rightarrow> 'g \<Rightarrow> ('r \<times> 'g) option"
  put_status :: "int \<Rightarrow> 'r \<Rightarrow> 'g \<Rightarrow> (bool \<times> 'g) option"

text \<open>A hart whose current process is 0 is in the scheduler loop. A process that slept in \<open>wait4\<close> resets its
  flag before the scheduler's lock on it is given up, so this belongs to the visit.\<close>

inductive kstep :: "('r, 'g) services \<Rightarrow> nat \<Rightarrow> ('r, 'g) kernel \<times> ('k \<Rightarrow> nat list) \<Rightarrow> ('r, 'g) kernel \<times> ('k \<Rightarrow> nat list) \<Rightarrow> bool"
  for v b where
  visit: "current s h = 0 \<Longrightarrow> i \<noteq> 0 \<Longrightarrow> get_proc i s = Some p \<Longrightarrow> \<not> w4child p \<Longrightarrow> kstep v b (s, w) (scheduler_visit h i s, w)"
| resume: "current s h = 0 \<Longrightarrow> i \<noteq> 0 \<Longrightarrow> get_proc i s = Some p \<Longrightarrow> w4child p \<Longrightarrow> state p = TASK_READY \<Longrightarrow>
    wait4_woken h (scheduler_visit h i s) = Some t \<Longrightarrow> kstep v b (s, w) (t, w)"
| timer: "clock_interrupt_handler b h s = Some t \<Longrightarrow> kstep v b (s, w) (t, w)"
| slice: "current s h \<noteq> 0 \<Longrightarrow> time_slice h s = Some t \<Longrightarrow> kstep v b (s, w) (t, w)"
| yield: "current s h \<noteq> 0 \<Longrightarrow> yield h s = Some t \<Longrightarrow> kstep v b (s, w) (t, w)"
| block: "current s h \<noteq> 0 \<Longrightarrow> proc_block h (w j) s = Some (l, t) \<Longrightarrow> kstep v b (s, w) (t, w(j := l))"
| unblock: "proc_unblock_all h (w j) s = Some (n, t) \<Longrightarrow> kstep v b (s, w) (t, w(j := []))"
| set_killed: "setkilled i s = Some t \<Longrightarrow> kstep v b (s, w) (t, w)"
| msleep: "current s h \<noteq> 0 \<Longrightarrow> sys_msleep h ms s = Some t \<Longrightarrow> kstep v b (s, w) (t, w)"
| kill: "current s h \<noteq> 0 \<Longrightarrow> sys_kill h i s = Some (r, t) \<Longrightarrow> kstep v b (s, w) (t, w)"
| exit: "do_exit (free_resources v) h status s = Some t \<Longrightarrow> kstep v b (s, w) (t, w)"
| wait: "sys_wait4 (put_status v) h z s = Some (r, t) \<Longrightarrow> kstep v b (s, w) (t, w)"
| wait_again: "current s h \<noteq> 0 \<Longrightarrow> wait4_any (put_status v) h s = Some (r, t) \<Longrightarrow> kstep v b (s, w) (t, w)"
| wait_sleep: "current s h \<noteq> 0 \<Longrightarrow> wait4_sleep h s = Some t \<Longrightarrow> kstep v b (s, w) (t, w)"
| wait_loop: "current s h \<noteq> 0 \<Longrightarrow> z \<noteq> 0 \<Longrightarrow> wait4_pid_loop (put_status v) h z s = Some (r, t) \<Longrightarrow> kstep v b (s, w) (t, w)"
| fork: "do_fork (new_resources v) (copy_resources v) h s = Some (r, t) \<Longrightarrow> kstep v b (s, w) (t, w)"

text \<open>The states the kernel reaches after \<open>proc_init\<close> and \<open>user_init\<close>, when all wait lists are empty.\<close>

inductive kreach :: "('r, 'g) services \<Rightarrow> nat \<Rightarrow> ('r, 'g) kernel \<times> ('k \<Rightarrow> nat list) \<Rightarrow> bool" for v b where
  boot: "length ps = NPROC \<Longrightarrow> proc_init ps qs r g = Some s \<Longrightarrow> user_init (new_resources v) li prio s = Some t \<Longrightarrow> kreach v b (t, \<lambda>_. [])"
| step: "kreach v b x \<Longrightarrow> kstep v b x y \<Longrightarrow> kreach v b y"

section \<open>Invariants\<close>

lemma astep_idle: "astep a a' \<Longrightarrow> ainv a \<Longrightarrow> st a 0 = Some TASK_RUNNING \<Longrightarrow> st a' 0 = Some TASK_RUNNING"
proof (induction rule: astep.induct)
  case (wake i a q) then show ?case using ainvD(5)[of a i q] by (cases "i = 0") auto
next
  case (wake_parent a i) then show ?case using ainvD(7)[of a i] by (cases "i = 0") auto
next
  case (birth a i) then show ?case by (cases "i = 0") auto
next
  case (death a i) then show ?case by (cases "i = 0") auto
qed auto

lemma asteps_idle: "astep\<^sup>*\<^sup>* a a' \<Longrightarrow> ainv a \<Longrightarrow> st a 0 = Some TASK_RUNNING \<Longrightarrow> st a' 0 = Some TASK_RUNNING"
  by (induction rule: rtranclp_induct) (auto intro: astep_idle asteps_inv)

definition sched_inv :: "('r, 'g) kernel \<times> ('k \<Rightarrow> nat list) \<Rightarrow> bool" where
  "sched_inv x \<longleftrightarrow> kinv (fst x) \<and> ainv (absk (fst x) (snd x)) \<and> st (absk (fst x) (snd x)) 0 = Some TASK_RUNNING"

lemma kstep_refines: "kstep v b x y \<Longrightarrow> sched_inv x \<Longrightarrow> refines x y"
proof (induction rule: kstep.induct)
  case (visit s h i p w) then show ?case by (intro visit_refines(1)) (simp_all add: sched_inv_def)
next
  case (resume s h i p t w) then show ?case by (intro visit_refines(2)[of s h i p]) (simp_all add: sched_inv_def)
next
  case (timer h s t w) then show ?case by (intro timer_refines) (simp_all add: sched_inv_def)
next
  case (slice s h t w) then show ?case by (intro time_slice_refines) (simp_all add: sched_inv_def)
next
  case (yield s h t w) then show ?case by (intro yield_refines) (simp_all add: sched_inv_def)
next
  case (block s h w j l t) then show ?case by (intro block_refines) (simp_all add: sched_inv_def)
next
  case (unblock h w j s n t) then show ?case by (intro unblock_refines) (simp_all add: sched_inv_def)
next
  case (set_killed i s t w) then show ?case by (intro setkilled_refines) (simp_all add: sched_inv_def)
next
  case (msleep s h ms t w) then show ?case by (intro msleep_refines) (simp_all add: sched_inv_def)
next
  case (kill s h i r t w) then show ?case by (intro kill_refines) (simp_all add: sched_inv_def)
next
  case (exit h status s t w) then show ?case by (intro do_exit_refines) (simp_all add: sched_inv_def)
next
  case (wait h z s r t w) then show ?case by (intro wait4_refines) (simp_all add: sched_inv_def)
next
  case (wait_again s h r t w) then show ?case by (intro wait4_any_refines) (simp_all add: sched_inv_def)
next
  case (wait_sleep s h t w) then show ?case by (intro wait4_sleep_refines) (simp_all add: sched_inv_def)
next
  case (wait_loop s h z r t w) then show ?case by (intro wait4_pid_loop_refines) (simp_all add: sched_inv_def)
next
  case (fork h s r t w) then show ?case by (intro do_fork_refines) (simp_all add: sched_inv_def)
qed

lemma kstep_inv: "kstep v b x y \<Longrightarrow> sched_inv x \<Longrightarrow> sched_inv y"
  using kstep_refines[of v b x y] asteps_inv asteps_idle unfolding sched_inv_def refines_def by metis

lemma push_pids:
  "queue_inv q \<Longrightarrow> queue_size q + int (length l) \<le> queue_capacity q \<Longrightarrow>
     \<exists>q'. for_each (\<lambda>i q. queue_push q i) l q = Some q' \<and> queue_inv q' \<and> queue_abs q' = queue_abs q @ l \<and>
       queue_capacity q' = queue_capacity q"
proof (induction l arbitrary: q)
  case (Cons i l)
  have room: "queue_size q < queue_capacity q" using Cons.prems(2) by simp
  obtain q1 where q1: "queue_push q i = Some q1" "queue_inv q1" "queue_abs q1 = queue_abs q @ [i]"
    "queue_capacity q1 = queue_capacity q"
    using queue_push_ok[OF Cons.prems(1) room, of i] by metis
  have "queue_size q1 = queue_size q + 1"
    using q1(1) unfolding queue_push_def Let_def by (auto simp: hoare_simps)
  then show ?case using Cons.IH[OF q1(2)] Cons.prems(2) q1 by auto
qed simp

lemma get_proc_replicate: "get_proc i (s\<lparr>pcbtable := (replicate n None)[0 := Some p]\<rparr>) = (if i = 0 \<and> 0 < n then Some p else None)"
  by (auto simp: get_proc_def nth_opt_def nth_list_update)

lemma proc_init_ok:
  assumes l: "length ps = NPROC" and b: "proc_init ps qs r g = Some s"
  shows "sched_inv (s, \<lambda>_. [])"
proof -
  obtain q0 q pq where q0: "queue_init (int NPROC) ps = Some q0"
    and q: "for_each (\<lambda>i q. queue_push q i) [1..<NPROC] q0 = Some q"
    and pq: "priority_queue_init (int NPROC) qs = Some pq"
    and s: "s = \<lparr>pcbtable = (replicate NPROC None)[0 := Some (idlepcb r)], pids_queue = q, sleep_queue = pq,
           clock_ticks = 0, current = (\<lambda>_. 0), shared = g\<rparr>"
    using b unfolding proc_init_def by (auto simp only: hoare_simps)
  note Q0 = queue_init_ok[OF q0]
  have z: "queue_size q0 = 0" using q0 by (auto simp: queue_init_def)
  obtain q' where q': "for_each (\<lambda>i q. queue_push q i) [1..<NPROC] q0 = Some q'" "queue_inv q'"
      "queue_abs q' = queue_abs q0 @ [1..<NPROC]" "queue_capacity q' = queue_capacity q0"
    using push_pids[of q0 "[1..<NPROC]"] Q0 z l by auto
  have Q: "queue_inv q" "queue_abs q = [1..<NPROC]" "queue_capacity q = int NPROC" using q' q Q0 l by simp_all
  have P: "pq_inv pq \<and> pq_mset pq = {#} \<and> priority_queue_capacity pq = int NPROC" by (rule pq_init_ok[OF pq])
  have g0: "get_proc i s = (if i = 0 then Some (idlepcb r) else None)" for i
    unfolding s get_proc_def nth_opt_def by (simp add: nth_list_update del: replicate.simps)
  have "kinv s" unfolding kinv_def g0 using Q P by (auto simp: s idlepcb_def simp del: replicate.simps)
  moreover have "st (absk s (\<lambda>_::'k. [])) 0 = Some TASK_RUNNING" by (simp add: absk_def g0 idlepcb_def)
  moreover have "ainv (absk s (\<lambda>_::'k. []))"
  proof -
    have f: "sleep_queue s = pq" "current s = (\<lambda>_. 0)" by (simp_all add: s)
    have "places s (\<lambda>_::'k. []) x = {#}" for x by (cases x) (simp_all add: waiters_def g0 idlepcb_def f P)
    then show ?thesis by (simp add: ainv_def absk_def g0 idlepcb_def f)
  qed
  ultimately show ?thesis by (simp add: sched_inv_def)
qed

lemma kreach_inv: "kreach v b x \<Longrightarrow> sched_inv x"
proof (induction rule: kreach.induct)
  case (boot ps qs r g s li prio t)
  have i: "sched_inv (s, \<lambda>_::'c. [])" by (rule proc_init_ok[OF boot(1,2)])
  then have "kinv s" by (simp add: sched_inv_def)
  then have "refines (s, \<lambda>_::'c. []) (t, \<lambda>_. [])" by (rule user_init_refines[OF _ boot(3)])
  then show ?case using i asteps_inv asteps_idle unfolding sched_inv_def refines_def by (metis fst_conv snd_conv)
qed (rule kstep_inv)

section \<open>A booted kernel\<close>

definition plain_services :: "(unit, unit) services" where
  "plain_services = \<lparr>new_resources = (\<lambda>g. Some ((), g)), copy_resources = (\<lambda>_ _ g. Some ((), g)),
     free_resources = (\<lambda>r g. Some (r, g)), put_status = (\<lambda>_ _ g. Some (True, g))\<rparr>"

definition booted_kernel :: "(unit, unit) kernel" where
  "booted_kernel = the (do {
     s \<leftarrow> proc_init (replicate NPROC 0) (\<lambda>_. Pair 0 0) () ();
     user_init (new_resources plain_services) (\<lambda>r g. Some (r, g)) 20 s })"

lemma booted_kernel_facts:
  "kreach plain_services 0 (booted_kernel, \<lambda>_. []) \<and> current booted_kernel = (\<lambda>_. 0) \<and>
   (\<exists>p. get_proc 1 booted_kernel = Some p \<and> state p = TASK_READY \<and> \<not> w4child p) \<and> clock_ticks booted_kernel = 0"
proof -
  obtain q0 where q0: "queue_init (int NPROC) (replicate NPROC (0::nat)) = Some q0" using queue_init_returns[of "int NPROC"] by auto
  have Q0: "queue_inv q0" "queue_abs q0 = []" "queue_capacity q0 = int NPROC" by (rule queue_init_ok[OF q0]; simp)+
  have z: "queue_size q0 = 0" using q0 by (auto simp: queue_init_def)
  obtain q where q: "for_each (\<lambda>i q. queue_push q i) [1..<NPROC] q0 = Some q" "queue_inv q"
      "queue_abs q = [1..<NPROC]" using push_pids[of q0 "[1..<NPROC]"] Q0 z by auto
  obtain s where s: "proc_init (replicate NPROC 0) (\<lambda>_. Pair 0 0) () () = Some s" "pids_queue s = q" "length (pcbtable s) = NPROC"
    "current s = (\<lambda>_. 0)" "clock_ticks s = 0"
    using q0 q by (simp add: proc_init_def priority_queue_init_def del: replicate.simps)
  have ne: "queue_abs q \<noteq> []" "hd (queue_abs q) = 1" using q(3) by (simp_all add: upt_conv_Cons)
  obtain q' where q': "queue_front_pop q = Some q'" using queue_front_pop_ok[OF q(2) ne(1)] by metis
  have fr: "queue_front q = Some 1" using queue_front_ok[OF q(2) ne(1)] ne(2) by simp
  have "\<not> queue_empty q" using queue_empty_iff[OF q(2)] ne(1) by simp
  then have "allocpid s = Some (Some 1, s\<lparr>pids_queue := q'\<rparr>)" using fr q' by (simp add: allocpid_def s(2))
  then obtain t where t: "user_init (new_resources plain_services) (\<lambda>r g. Some (r, g)) 20 s = Some t"
      "current t = (\<lambda>_. 0)" "\<exists>p. get_proc 1 t = Some p \<and> state p = TASK_READY \<and> \<not> w4child p" "clock_ticks t = 0"
    using s(3-5) by (simp add: user_init_def allocproc_def plain_services_def get_set_proc)
  have "booted_kernel = t" using s(1) t(1) by (simp add: booted_kernel_def)
  then show ?thesis using kreach.boot[OF _ s(1) t(1)] t(2-4) by simp
qed

lemmas booted_kernel_reach = booted_kernel_facts[THEN conjunct1]

lemma booted_kernel_inv: "sched_inv (booted_kernel, \<lambda>_. [])"
  by (rule kreach_inv[OF booted_kernel_reach])

section \<open>What holds in every reachable state\<close>

text \<open>C17. Every step of the kernel is a sequence of steps of the abstract scheduler, which moves a process only
  between the places \<open>ready\<close>, \<open>running on a hart\<close>, \<open>blocked in one list\<close>, \<open>waiting for a child\<close>,
  \<open>dead\<close> and \<open>not in the table\<close>; the tables stay well-formed.\<close>

theorem kernel_step_refines:
  "kreach v b x \<Longrightarrow> kstep v b x y \<Longrightarrow> astep\<^sup>*\<^sup>* (absk (fst x) (snd x)) (absk (fst y) (snd y)) \<and> kinv (fst y)"
  using kstep_refines[OF _ kreach_inv] unfolding refines_def by blast

theorem kernel_step_refines_witness:
  "astep\<^sup>*\<^sup>* (absk booted_kernel (\<lambda>_::nat. [])) (absk (scheduler_visit 0 1 booted_kernel) (\<lambda>_. [])) \<and>
   kinv (scheduler_visit 0 1 booted_kernel) \<and> current (scheduler_visit 0 1 booted_kernel) 0 = 1"
proof -
  obtain p where p: "get_proc 1 booted_kernel = Some p" "state p = TASK_READY" "\<not> w4child p"
    using booted_kernel_facts by blast
  have "kstep plain_services 0 (booted_kernel, \<lambda>_::nat. []) (scheduler_visit 0 1 booted_kernel, \<lambda>_. [])"
    by (rule kstep.visit[OF _ _ p(1,3)]) (simp_all add: booted_kernel_facts)
  then show ?thesis using kernel_step_refines[OF booted_kernel_reach, of "(scheduler_visit 0 1 booted_kernel, \<lambda>_::nat. [])"] p
    by (simp add: scheduler_visit_def put_state_def)
qed

text \<open>C16. The scheduler's promises in every reachable state: a hart's current process is in the table and running;
  no process runs on two harts; a running process is the current one of some hart; a process in the sleep queue or
  on a wait list is blocked and is there once; a process is in at most one such place; every pid is either
  free, once, in the pool, or the index of an entry.\<close>

theorem scheduler_safety:
  assumes "kreach v b (s, w)"
  shows "(\<forall>h. current s h \<noteq> 0 \<longrightarrow> (\<exists>p. get_proc (current s h) s = Some p \<and> state p = TASK_RUNNING)) \<and>
    (\<forall>h g. current s h = current s g \<and> current s h \<noteq> 0 \<longrightarrow> h = g) \<and>
    (\<forall>i p. get_proc i s = Some p \<and> state p = TASK_RUNNING \<and> i \<noteq> 0 \<longrightarrow> (\<exists>h. current s h = i)) \<and>
    (\<forall>q i. i \<in># places s w q \<longrightarrow> count (places s w q) i = 1 \<and> (\<exists>p. get_proc i s = Some p \<and> state p = TASK_BLOCK)) \<and>
    (\<forall>q r i. i \<in># places s w q \<and> i \<in># places s w r \<longrightarrow> q = r) \<and>
    distinct (queue_abs (pids_queue s)) \<and> set (queue_abs (pids_queue s)) = {i. i < NPROC \<and> get_proc i s = None}"
proof -
  have I: "ainv (absk s w)" and k: "kinv s" using kreach_inv[OF assms] by (simp_all add: sched_inv_def)
  note D = ainvD[OF I]
  have st: "st (absk s w) i = Some x \<Longrightarrow> \<exists>p. get_proc i s = Some p \<and> state p = x" for i x by (auto simp: absk_def)
  have pl: "pl (absk s w) = places s w" by (simp add: absk_def)
  have "count (places s w q) i = 1" if "i \<in># places s w q" for q i
  proof -
    have "1 \<le> count (places s w q) i" using that by (simp add: count_greater_eq_one_iff)
    then show ?thesis using D(4)[of q i] unfolding pl by linarith
  qed
  then show ?thesis using D st kinvD(6,7)[OF k] unfolding pl by (simp add: absk_at(1)) metis
qed

theorem scheduler_safety_witness:
  "distinct (queue_abs (pids_queue booted_kernel)) \<and>
   set (queue_abs (pids_queue booted_kernel)) = {i. i < NPROC \<and> get_proc i booted_kernel = None}"
  using scheduler_safety[OF booted_kernel_reach] by blast

text \<open>The waking functions: what they need of the processes they wake.\<close>

lemma unblock_list_ok:
  assumes "distinct l" "current s h \<notin> set l" "\<forall>i\<in>set l. \<exists>p. get_proc i s = Some p \<and> state p = TASK_BLOCK"
  shows "\<exists>t. for_each (unblock_one h) l s = Some t \<and> (\<forall>i. get_proc i t =
    (if i \<in> set l then map_option (\<lambda>p. p\<lparr>state := TASK_READY\<rparr>) (get_proc i s) else get_proc i s)) \<and>
    current t = current s \<and> sleep_queue t = sleep_queue s \<and> clock_ticks t = clock_ticks s"
  using assms
proof (induction l arbitrary: s)
  case (Cons j l)
  obtain p where p: "get_proc j s = Some p" "state p = TASK_BLOCK" using Cons.prems(3) by auto
  let ?s = "put_state j p TASK_READY s"
  have u: "unblock_one h j s = Some ?s" using p Cons.prems(2) by (auto simp: unblock_one_def)
  have g: "get_proc i ?s = (if i = j then Some (p\<lparr>state := TASK_READY\<rparr>) else get_proc i s)" for i
    by (simp add: put_state_def get_set_proc get_proc_bound[OF p(1)])
  have f: "sleep_queue ?s = sleep_queue s" "clock_ticks ?s = clock_ticks s" by (simp_all add: put_state_def)
  have "\<exists>t. for_each (unblock_one h) l ?s = Some t \<and> (\<forall>i. get_proc i t =
    (if i \<in> set l then map_option (\<lambda>p. p\<lparr>state := TASK_READY\<rparr>) (get_proc i ?s) else get_proc i ?s)) \<and>
    current t = current ?s \<and> sleep_queue t = sleep_queue ?s \<and> clock_ticks t = clock_ticks ?s"
    by (rule Cons.IH) (use Cons.prems in \<open>auto simp: g\<close>)
  then obtain t where "for_each (unblock_one h) l ?s = Some t" "\<forall>i. get_proc i t =
    (if i \<in> set l then map_option (\<lambda>p. p\<lparr>state := TASK_READY\<rparr>) (get_proc i ?s) else get_proc i ?s)"
    "current t = current ?s \<and> sleep_queue t = sleep_queue ?s \<and> clock_ticks t = clock_ticks ?s" by blast
  then show ?case using Cons.prems(1) p(1) u f by (intro exI[of _ t]) (auto simp: g)
qed simp

lemma blocked_apart:
  assumes "ainv (absk s w)" "i \<in># places s w q" "st (absk s w) 0 = Some TASK_RUNNING"
  shows "i \<noteq> current s h" "\<exists>p. get_proc i s = Some p \<and> state p = TASK_BLOCK"
proof -
  have b: "st (absk s w) i = Some TASK_BLOCK" using ainvD(5)[OF assms(1), of i q] assms(2) by (simp add: absk_def)
  then show "\<exists>p. get_proc i s = Some p \<and> state p = TASK_BLOCK" by (auto simp: absk_def)
  show "i \<noteq> current s h" using ainvD(1)[OF assms(1), of h] b assms(3) by (cases "i = 0") auto
qed

lemma unblock_list_returns:
  assumes "kreach v b (s, w)"
  shows "\<exists>t. proc_unblock_all h (w k) s = Some (length (w k), t) \<and> current t = current s \<and> (\<forall>i. get_proc i t =
    (if i \<in> set (w k) then map_option (\<lambda>p. p\<lparr>state := TASK_READY\<rparr>) (get_proc i s) else get_proc i s)) \<and>
    (\<forall>i\<in>set (w k). map_option state (get_proc i s) = Some TASK_BLOCK)"
proof -
  have I: "ainv (absk s w)" "st (absk s w) 0 = Some TASK_RUNNING" using kreach_inv[OF assms] by (simp_all add: sched_inv_def)
  have "count (mset (w k)) i \<le> 1" for i using ainvD(4)[OF I(1), of "List k" i] by (simp add: absk_def)
  then have d: "distinct (w k)" by (simp add: distinct_count_atmost_1 le_Suc_eq count_eq_zero_iff)
  have b: "i \<in> set (w k) \<Longrightarrow> i \<noteq> current s h \<and> (\<exists>p. get_proc i s = Some p \<and> state p = TASK_BLOCK)" for i
    using blocked_apart(1)[OF I(1) _ I(2), of i "List k" h] blocked_apart(2)[OF I(1) _ I(2), of i "List k"] by simp
  show ?thesis using unblock_list_ok[OF d, of s h] b unfolding proc_unblock_all_def by fastforce
qed

lemma scheduler_facts:
  assumes "kreach v b (s, w)"
  shows "current s h \<noteq> 0 \<Longrightarrow> \<exists>p. get_proc (current s h) s = Some p \<and> state p = TASK_RUNNING \<and> pid p = current s h"
proof -
  have k: "kinv s" and a: "ainv (absk s w)" using kreach_inv[OF assms] by (simp_all add: sched_inv_def)
  assume "current s h \<noteq> 0"
  then have "st (absk s w) (current s h) = Some TASK_RUNNING" using ainvD(1)[OF a, of h] by simp
  then obtain p where "get_proc (current s h) s = Some p" "state p = TASK_RUNNING" by (auto simp: absk_def)
  then show ?thesis using kinvD(2)[OF k] by blast
qed

text \<open>C20. No assertion of \<open>proc_unblock_all\<close> fails in a reachable state: on every hart and for every wait
  list it returns the number of waiters, and then exactly these, which were blocked, are ready.\<close>

theorem unblock_all_returns:
  assumes "kreach v b (s, w)"
  shows "\<exists>t. proc_unblock_all h (w k) s = Some (length (w k), t) \<and> current t = current s \<and> (\<forall>i. get_proc i t =
    (if i \<in> set (w k) then map_option (\<lambda>p. p\<lparr>state := TASK_READY\<rparr>) (get_proc i s) else get_proc i s)) \<and>
    (\<forall>i\<in>set (w k). map_option state (get_proc i s) = Some TASK_BLOCK)"
  by (rule unblock_list_returns[OF assms])

theorem unblock_all_returns_witness:
  "\<exists>t. proc_unblock_all 0 [] booted_kernel = Some (0, t) \<and> get_proc 1 t = get_proc 1 booted_kernel"
  using unblock_all_returns[OF booted_kernel_reach, where h = 0] by auto

text \<open>Without their signs the keys are compared the same way if none is negative.\<close>

lemma sint_uint_cases: "sint (a :: 64 word) = uint a \<or> sint a = uint a - 2 ^ 64"
proof -
  have "take_bit 64 (uint a) = uint a" using uint_lt2p[of a] by (simp add: take_bit_int_eq_self)
  then show ?thesis unfolding sint_uint signed_take_bit_eq_take_bit_minus by (cases "bit (uint a) 63") simp_all
qed

lemma sint_nonneg_uint: "0 \<le> sint (a :: 64 word) \<Longrightarrow> sint a = uint a"
  using sint_uint_cases[of a] uint_lt2p[of a] by auto

lemma sint_neg_large: "sint (a :: 64 word) < 0 \<Longrightarrow> 2 ^ 63 \<le> a"
  using sint_uint_cases[of a] sint_greater_eq[of a] uint_ge_0[of a] by (auto simp: word_le_def)

lemma time_wakeup_ok:
  "sched_inv (s, w) \<Longrightarrow> \<forall>x\<in>#pq_mset (sleep_queue s). 0 \<le> sint (key x) \<Longrightarrow> \<exists>t. time_wakeup h s = Some t \<and> clock_ticks t = clock_ticks s \<and> current t = current s \<and>
     pq_mset (sleep_queue t) = filter_mset (\<lambda>x. clock_ticks s < key x) (pq_mset (sleep_queue s)) \<and>
     (\<forall>i. get_proc i t = (if \<exists>x\<in>#pq_mset (sleep_queue s). key x \<le> clock_ticks s \<and> nat (pvalue x) = i
       then map_option (\<lambda>p. p\<lparr>state := TASK_READY\<rparr>) (get_proc i s) else get_proc i s))"
proof (induction h s rule: time_wakeup.induct)
  case (1 h s)
  let ?top = "priority_queue_top (sleep_queue s)" and ?M = "pq_mset (sleep_queue s)"
  have I: "kinv s" "ainv (absk s w)" "st (absk s w) 0 = Some TASK_RUNNING" using 1(2) by (simp_all add: sched_inv_def)
  have pq: "pq_inv (sleep_queue s)" by (rule kinvD(8)[OF I(1)])
  note nonneg = bspec[OF 1(3)]
  show ?case
  proof (cases "priority_queue_empty (sleep_queue s) \<or> clock_ticks s < key ?top")
    case True
    then have t: "time_wakeup h s = Some s" by (subst time_wakeup.simps) (auto simp: Let_def)
    have late: "clock_ticks s < key x" if "x \<in># ?M" for x
    proof -
      have ne: "?M \<noteq> {#}" using that by auto
      then have "clock_ticks s < key ?top" using True pq_empty_iff[OF pq] by blast
      moreover have "key ?top \<le> key x"
        using pair_le_key[OF pq_top_min(2)[OF pq ne that]] sint_nonneg_uint[OF nonneg[OF that]] sint_nonneg_uint[OF nonneg[OF pq_top_min(1)[OF pq ne]]]
        by (simp add: word_le_def)
      ultimately show ?thesis by (rule less_le_trans)
    qed
    then have "filter_mset (\<lambda>x. clock_ticks s < key x) ?M = ?M" by (simp add: filter_mset_eq_conv)
    moreover have "\<not> (\<exists>x\<in>#?M. key x \<le> clock_ticks s \<and> nat (pvalue x) = i)" for i using late by force
    ultimately show ?thesis using t by auto
  next
    case False
    have ne: "?M \<noteq> {#}" using False pq_empty_iff[OF pq] by blast
    have top: "?top \<in># ?M" by (rule pq_top_min(1)[OF pq ne])
    let ?i = "nat (pvalue ?top)"
    have iS: "?i \<in># places s w Sleep" using top by simp
    obtain p where p: "get_proc ?i s = Some p" "state p = TASK_BLOCK" using blocked_apart(2)[OF I(2) iS I(3)] by blast
    let ?s1 = "put_state ?i p TASK_READY s"
    have u: "unblock_one h ?i s = Some ?s1" using p blocked_apart(1)[OF I(2) iS I(3), of h] by (simp add: unblock_one_def)
    have sq: "sleep_queue ?s1 = sleep_queue s" "clock_ticks ?s1 = clock_ticks s" by (simp_all add: put_state_def)
    obtain q where q: "priority_queue_pop (sleep_queue ?s1) = Some q" unfolding sq using pq_pop_ok[OF pq ne] by metis
    let ?s2 = "?s1\<lparr>sleep_queue := q\<rparr>"
    have W: "refines (s, w) (?s2, w)" "pq_mset q = ?M - {#?top#}" using wake_top_refines[OF I(1) ne u q, of w] by blast+
    have i2: "sched_inv (?s2, w)" using W(1) I asteps_inv asteps_idle unfolding sched_inv_def refines_def by (metis fst_conv snd_conv)
    have tw: "time_wakeup h s = time_wakeup h ?s2"
      by (subst time_wakeup.simps) (use False u q in \<open>simp add: Let_def\<close>)
    have nn: "\<forall>x\<in>#pq_mset (sleep_queue ?s2). 0 \<le> sint (key x)" using nonneg W(2) by (auto dest: in_diffD)
    obtain t where t: "time_wakeup h ?s2 = Some t" "clock_ticks t = clock_ticks ?s2" "current t = current ?s2"
      "pq_mset (sleep_queue t) = filter_mset (\<lambda>x. clock_ticks ?s2 < key x) (pq_mset (sleep_queue ?s2))"
      "\<And>i. get_proc i t = (if \<exists>x\<in>#pq_mset (sleep_queue ?s2). key x \<le> clock_ticks ?s2 \<and> nat (pvalue x) = i
       then map_option (\<lambda>p. p\<lparr>state := TASK_READY\<rparr>) (get_proc i ?s2) else get_proc i ?s2)"
      using 1(1)[OF _ refl _ u q i2] False nn by blast
    have M: "?M = add_mset ?top (pq_mset q)" using W(2) top by simp
    have g2: "get_proc i ?s2 = (if i = ?i then Some (p\<lparr>state := TASK_READY\<rparr>) else get_proc i s)" for i
      by (simp add: put_state_def get_set_proc get_proc_bound[OF p(1)])
    have due: "key ?top \<le> clock_ticks s" using False by (simp add: not_less)
    have c2: "clock_ticks ?s2 = clock_ticks s" "pq_mset (sleep_queue ?s2) = pq_mset q" by (simp_all add: sq)
    have "get_proc i t = (if \<exists>x\<in>#?M. key x \<le> clock_ticks s \<and> nat (pvalue x) = i
       then map_option (\<lambda>p. p\<lparr>state := TASK_READY\<rparr>) (get_proc i s) else get_proc i s)" for i
    proof (cases "i = ?i")
      case True
      then have "\<exists>x\<in>#?M. key x \<le> clock_ticks s \<and> nat (pvalue x) = i" using top due by blast
      then show ?thesis using t(5)[of i] p(1) True unfolding g2 by simp
    next
      case False
      then have eqv: "(\<exists>x\<in>#?M. key x \<le> clock_ticks s \<and> nat (pvalue x) = i) \<longleftrightarrow>
        (\<exists>x\<in>#pq_mset q. key x \<le> clock_ticks s \<and> nat (pvalue x) = i)" unfolding M by auto
      show ?thesis using t(5)[of i] unfolding eqv g2 c2 if_not_P[OF False] .
    qed
    moreover have "filter_mset (\<lambda>x. clock_ticks s < key x) ?M = filter_mset (\<lambda>x. clock_ticks s < key x) (pq_mset q)"
      unfolding M using due by simp
    ultimately show ?thesis using tw t(1-4) c2 by (intro exI[of _ t]) simp
  qed
qed

lemma time_wakeup_stuck:
  assumes "kinv s" "x \<in># pq_mset (sleep_queue s)" "sint (key x) < 0" "clock_ticks s < 2 ^ 63"
  shows "time_wakeup h s = Some s"
proof -
  have pq: "pq_inv (sleep_queue s)" by (rule kinvD(8)[OF assms(1)])
  have ne: "pq_mset (sleep_queue s) \<noteq> {#}" using assms(2) by auto
  have "sint (key (priority_queue_top (sleep_queue s))) < 0"
    using pair_le_key[OF pq_top_min(2)[OF pq ne assms(2)]] assms(3) by simp
  then have "clock_ticks s < key (priority_queue_top (sleep_queue s))" using sint_neg_large less_le_trans[OF assms(4)] by blast
  then show ?thesis by (subst time_wakeup.simps) (simp add: Let_def)
qed



section \<open>Children\<close>

text \<open>A kernel in which process 1 runs on hart 0 and process 2, its child, on hart 1.\<close>

definition parent_and_child :: "proc_state \<Rightarrow> nat list \<Rightarrow> (unit, unit) kernel" where
  "parent_and_child cst q = \<lparr>
     pcbtable = (replicate NPROC None)[0 := Some (idlepcb ()),
       1 := Some ((idlepcb ())\<lparr>pid := 1, child_list := [2]\<rparr>),
       2 := Some ((idlepcb ())\<lparr>pid := 2, parentpid := 1, state := cst, exitstate := 7\<rparr>)],
     pids_queue = \<lparr>queue_size = int (length q), queue_capacity = int NPROC, queue_head = 0,
       queue_tail = int (length q) - 1, queue_array = q @ replicate (NPROC - length q) 0\<rparr>,
     sleep_queue = \<lparr>priority_queue_size = 0, priority_queue_capacity = int NPROC, priority_queue_heap = (\<lambda>_. Pair 0 0)\<rparr>,
     clock_ticks = 0, current = (\<lambda>h. if h = 0 then 1 else if h = 1 \<and> cst = TASK_RUNNING then 2 else 0), shared = ()\<rparr>"

lemma get_proc_parent_and_child:
  "get_proc i (parent_and_child x q) = (if i = 0 then Some (idlepcb ()) else if i = 1 then Some ((idlepcb ())\<lparr>pid := 1, child_list := [2]\<rparr>)
     else if i = 2 then Some ((idlepcb ())\<lparr>pid := 2, parentpid := 1, state := x, exitstate := 7\<rparr>) else None)"
  by (simp add: get_proc_def nth_opt_def parent_and_child_def nth_list_update del: replicate.simps)

lemma parent_and_child_kinv: "kinv (parent_and_child x [3..<NPROC])"
proof -
  let ?q = "pids_queue (parent_and_child x [3..<NPROC])"
  have q: "queue_inv ?q" by (simp add: parent_and_child_def queue_inv_def del: replicate.simps upt_rec_numeral)
  have a: "queue_abs ?q = [3..<NPROC]"
    by (rule nth_equalityI) (simp_all add: parent_and_child_def queue_abs_def queue_slot_def nth_append del: replicate.simps upt_rec_numeral)
  have "set [3..<NPROC] = {i. i < NPROC \<and> get_proc i (parent_and_child x [3..<NPROC]) = None}"
    by (auto simp: get_proc_parent_and_child simp del: upt_rec_numeral)
  moreover have "pq_inv (sleep_queue (parent_and_child x [3..<NPROC]))" "pq_mset (sleep_queue (parent_and_child x [3..<NPROC])) = {#}"
    by (simp_all add: parent_and_child_def pq_inv_def pq_mset_def heap_ordered_def slots_mset_def)
  ultimately show ?thesis unfolding kinv_def using q
    by (simp add: a get_proc_parent_and_child idlepcb_def del: upt_rec_numeral) (simp add: parent_and_child_def del: replicate.simps upt_rec_numeral)
qed

text \<open>\<open>wait4\<close> for a dead process, when the tables are well-formed (as in every reachable state): it delivers the exit status once. The pid is free again,
  exactly that entry is empty, and nothing else has changed; a second waiter of the same process, which kept the
  pointer to the entry, reads freed memory when it goes on.\<close>

theorem wait4_reaps_once:
  assumes k: "kinv s" and f: "wait4_finish put h z s = Some (Return n, t)" and z: "z \<noteq> 0" and t: "get_proc z t = None"
  shows "n = int z \<and> (\<exists>p zp g. get_proc (current s h) s = Some p \<and> get_proc z s = Some zp \<and> state zp = TASK_ZOMBIE \<and>
      put (exitstate zp) (resources p) (shared s) = Some (True, g) \<and> shared t = g) \<and>
    set (queue_abs (pids_queue t)) = insert z (set (queue_abs (pids_queue s))) \<and>
    z \<notin> set (queue_abs (pids_queue s)) \<and> (\<forall>i. i \<noteq> z \<longrightarrow> get_proc i t = get_proc i s) \<and>
    wait4_pid_loop put g z t = None"
proof -
  obtain p zp ok g' where p: "get_proc (current s h) s = Some p" and zp: "get_proc z s = Some zp" "state zp = TASK_ZOMBIE"
    and put: "put (exitstate zp) (resources p) (shared s) = Some (ok, g')"
    and r: "(if ok then do { s2 \<leftarrow> freepid (pid zp) (s\<lparr>shared := g'\<rparr>); Some (Return (int z), set_proc z None s2) }
      else Some (Return (int z), s\<lparr>shared := g'\<rparr>)) = Some (Return n, t)"
    using f unfolding wait4_finish_def Let_def
    by (auto simp only: hoare_simps cassert_bind_eq_Some split_paired_Ex prod.case)
  have ok: "ok" using r t zp(1) by (cases ok) auto
  then obtain s2 where s2: "freepid z (s\<lparr>shared := g'\<rparr>) = Some s2" "t = set_proc z None s2" "n = int z"
    using r kinvD(2)[OF k zp(1)] by (auto simp: hoare_simps)
  have kg: "kinv (s\<lparr>shared := g'\<rparr>)" using k by simp
  have zg: "get_proc z (s\<lparr>shared := g'\<rparr>) = Some zp" using zp(1) by simp
  note F = freepid_ok[OF kg zg s2(1) z]
  have s2': "get_proc j s2 = get_proc j s" "shared s2 = g'" "length (pcbtable s2) = length (pcbtable s)" for j
    by (subst F(2), simp)+
  have gt: "get_proc i t = (if i = z then None else get_proc i s)" for i
    unfolding s2(2) using get_proc_bound[OF zp(1)] by (simp add: get_set_proc s2')
  have zN: "z < NPROC" using get_proc_bound[OF zp(1)] kinvD(1)[OF k] by simp
  have kt: "kinv t" using F(1) s2(2) by simp
  have "set (queue_abs (pids_queue t)) = insert z (set (queue_abs (pids_queue s)))"
    unfolding kinvD(7)[OF k] kinvD(7)[OF kt] using zN by (auto simp: gt)
  moreover have "z \<notin> set (queue_abs (pids_queue s))" using kinvD(7)[OF k] zp(1) by auto
  moreover have "wait4_pid_loop put g z t = None" by (simp add: wait4_pid_loop_def gt)
  moreover have "shared t = g'" by (simp add: s2(2) s2')
  ultimately show ?thesis using s2(3) p zp put ok gt by auto
qed

theorem wait4_reaps_once_witness:
  "\<exists>t. wait4_finish (\<lambda>_ _ g. Some (True, g)) 0 2 (parent_and_child TASK_ZOMBIE [3..<NPROC]) = Some (Return 2, t) \<and>
     2 \<in> set (queue_abs (pids_queue t)) \<and> wait4_pid_loop (\<lambda>_ _ g. Some (True, g)) 1 2 t = None"
proof -
  define s where "s = parent_and_child TASK_ZOMBIE [3..<NPROC]"
  have k: "kinv s" unfolding s_def by (rule parent_and_child_kinv)
  have c: "current s 0 = 1" by (simp add: s_def parent_and_child_def)
  have g: "get_proc 1 s = Some ((idlepcb ())\<lparr>pid := 1, child_list := [2]\<rparr>)"
    "get_proc 2 s = Some ((idlepcb ())\<lparr>pid := 2, parentpid := 1, state := TASK_ZOMBIE, exitstate := 7\<rparr>)"
    by (simp_all add: s_def get_proc_parent_and_child)
  have "queue_size (pids_queue s) < queue_capacity (pids_queue s)" by (simp add: s_def parent_and_child_def del: upt_rec_numeral)
  then obtain q where q: "queue_push (pids_queue s) 2 = Some q" using queue_push_ok[OF kinvD(4)[OF k]] by metis
  define t where "t = set_proc 2 None (s\<lparr>shared := (), pids_queue := q\<rparr>)"
  have f: "wait4_finish (\<lambda>_ _ g. Some (True, g)) 0 2 s = Some (Return (int 2), t)"
    by (simp add: wait4_finish_def c g[unfolded One_nat_def] freepid_def q t_def)
  have n: "get_proc 2 t = None" using kinvD(1)[OF k] by (simp add: t_def get_set_proc)
  show ?thesis using wait4_reaps_once[OF k f _ n, of 1] f unfolding s_def[symmetric] by auto
qed

text \<open>C32. A child that exits between its parent's search for dead children and the parent's sleep is not
  noticed: the parent goes to sleep on the flag that only an exit looks at, in no wait list, while its child
  is already dead.\<close>

theorem wait4_loses_wakeup:
  assumes p: "get_proc i s = Some p" "state p = TASK_RUNNING" "\<not> w4child p" "pid p = i"
    and c: "get_proc c s = Some cp" "state cp = TASK_RUNNING" "parentpid cp = i" "wait_list cp = []" "child_list cp = []"
    and cur: "current s h = i" "current s g = c" "c \<noteq> i" "c \<noteq> 0" "c \<noteq> 1" "i \<noteq> 0"
    and f: "fp (resources cp) (shared s) = Some (r, gs)"
    and scan: "scan_children s i (child_list p) = Some None" "child_list p \<noteq> []" "\<not> killed p"
  shows "\<exists>t u. wait4_any put h s = Some (Asleep, s) \<and> do_exit fp g status s = Some t \<and> wait4_sleep h t = Some u \<and>
    map_option state (get_proc c u) = Some TASK_ZOMBIE \<and>
    (\<exists>p'. get_proc i u = Some p' \<and> state p' = TASK_BLOCK \<and> w4child p') \<and>
    (\<forall>q. places u w q = places s w q)"
proof -
  have hg: "h \<noteq> g" using cur by auto
  have ib: "i < length (pcbtable s)" "c < length (pcbtable s)" using get_proc_bound p(1) c(1) by blast+
  have any: "wait4_any put h s = Some (Asleep, s)"
    using p c cur scan by (simp add: wait4_any_def wait4_scan_def)
  let ?s0 = "set_proc c (Some (cp\<lparr>child_list := []\<rparr>)) s"
  have cid: "cp\<lparr>child_list := []\<rparr> = cp" using c(5) by (cases cp) simp
  have rep: "reparent c s = Some (set_proc c (Some cp) s)" unfolding reparent_def by (simp add: c(1,5)) (simp only: cid)
  let ?cz = "cp\<lparr>exitstate := status, state := TASK_ZOMBIE, resources := r\<rparr>"
  define t where "t = (set_proc c (Some ?cz) (set_proc c (Some ?cz) ((set_proc c (Some cp) s)\<lparr>shared := gs\<rparr>)))\<lparr>current := (current s)(g := 0)\<rparr>"
  have wz: "?cz\<lparr>wait_list := []\<rparr> = ?cz" using c(4) by (cases cp) simp
  have ex: "do_exit fp g status s = Some t"
    unfolding do_exit_def using c cur f p rep hg ib wz
    by (simp add: get_set_proc proc_unblock_all_def sched_def t_def Let_def) (simp only: wz)
  define u where "u = (set_proc i (Some (p\<lparr>w4child := True, state := TASK_BLOCK\<rparr>)) t)\<lparr>current := (current t)(h := 0)\<rparr>"
  have sl: "wait4_sleep h t = Some u"
    using p cur hg ib by (simp add: wait4_sleep_def t_def u_def get_set_proc put_state_def sched_def)
  have gu: "get_proc j u = (if j = i then Some (p\<lparr>w4child := True, state := TASK_BLOCK\<rparr>) else if j = c then Some ?cz else get_proc j s)" for j
    using ib by (simp add: u_def t_def get_set_proc)
  have su: "sleep_queue u = sleep_queue s" by (simp add: u_def t_def)
  have "places u w q = places s w q" for q
    using p(1) c(1) by (cases q) (auto simp: waiters_def gu su)
  then show ?thesis using any ex sl gu cur(3) by (intro exI[of _ t] exI[of _ u]) simp
qed

theorem wait4_loses_wakeup_witness:
  "\<exists>t u. wait4_any (\<lambda>_ _ g. Some (True, g)) 0 (parent_and_child TASK_RUNNING []) = Some (Asleep, parent_and_child TASK_RUNNING []) \<and>
     do_exit (\<lambda>r g. Some (r, g)) 1 5 (parent_and_child TASK_RUNNING []) = Some t \<and> wait4_sleep 0 t = Some u \<and>
     map_option state (get_proc 2 u) = Some TASK_ZOMBIE \<and> map_option state (get_proc 1 u) = Some TASK_BLOCK"
proof -
  let ?s = "parent_and_child TASK_RUNNING []"
  have g: "get_proc 1 ?s = Some ((idlepcb ())\<lparr>pid := 1, child_list := [2]\<rparr>)"
    "get_proc 2 ?s = Some ((idlepcb ())\<lparr>pid := 2, parentpid := 1, state := TASK_RUNNING, exitstate := 7\<rparr>)"
    by (simp_all add: get_proc_parent_and_child)
  have sc: "scan_children ?s 1 [2] = Some None" by (simp add: get_proc_parent_and_child idlepcb_def)
  show ?thesis
    using wait4_loses_wakeup[OF g(1) _ _ _ g(2), of 0 1 "\<lambda>r g. Some (r, g)" "()" "()" "\<lambda>_ _ g. Some (True, g)" 5 "\<lambda>_::nat. []"] sc
    by (auto simp: idlepcb_def parent_and_child_def)
qed

section \<open>Kill\<close>

lemma kill_count_one:
  assumes "ainv (absk s w)"
  shows "size (filter_mset (\<lambda>x. pvalue x = int i) (pq_mset (sleep_queue s))) \<le> 1"
proof -
  have cnt: "count (image_mset (\<lambda>x. nat (pvalue x)) M) i = size (filter_mset (\<lambda>x. nat (pvalue x) = i) M)" for M
    by (induction M) auto
  have "filter_mset (\<lambda>x. pvalue x = int i) M \<subseteq># filter_mset (\<lambda>x. nat (pvalue x) = i) M" for M
    by (rule filter_mset_mono_strong) auto
  then have "size (filter_mset (\<lambda>x. pvalue x = int i) (pq_mset (sleep_queue s))) \<le> count (pl (absk s w) Sleep) i"
    using size_mset_mono cnt by (fastforce simp: absk_def)
  then show ?thesis using ainvD(4)[OF assms, of Sleep i] by (rule order.trans)
qed

text \<open>\<open>kill\<close> does not mark its target: the caller itself gets the mark. A target that sleeps (and is not in the
  last slot of the queue) leaves the sleep queue but stays blocked, so that no timer interrupt wakes it any more.\<close>

theorem kill_marks_caller:
  assumes inv: "sched_inv (s, w)" and c: "current s h \<noteq> 0" and i: "i \<in># places s w Sleep"
    and last: "pvalue (priority_queue_heap (sleep_queue s) (nat (priority_queue_size (sleep_queue s)))) \<noteq> int i"
  shows "\<exists>t. sys_kill h i s = Some (0, t) \<and> get_proc i t = get_proc i s \<and> map_option state (get_proc i t) = Some TASK_BLOCK \<and>
    map_option killed (get_proc (current s h) t) = Some True \<and> i \<notin># places t w Sleep"
proof -
  have k: "kinv s" and a: "ainv (absk s w)" and i0: "st (absk s w) 0 = Some TASK_RUNNING" using inv by (simp_all add: sched_inv_def)
  have "st (absk s w) (current s h) = Some TASK_RUNNING" using ainvD(1)[OF a, of h] c by simp
  then obtain p where p: "get_proc (current s h) s = Some p" "state p = TASK_RUNNING" by (auto simp: absk_def)
  obtain ip where ip: "get_proc i s = Some ip" "state ip = TASK_BLOCK" using blocked_apart(2)[OF a i i0] by blast
  have ne: "i \<noteq> current s h" by (rule blocked_apart(1)[OF a i i0])
  obtain q where q: "priority_queue_pop_v (sleep_queue s) (int i) = Some q"
    "pq_mset q = filter_mset (\<lambda>x. pvalue x \<noteq> int i) (pq_mset (sleep_queue s))"
    using pq_pop_v_cases[OF kinvD(8)[OF k] kill_count_one[OF a, of i]] last by metis
  let ?t = "set_proc (current s h) (Some (p\<lparr>killed := True\<rparr>)) (s\<lparr>sleep_queue := q\<rparr>)"
  have e: "nth_opt (pcbtable s) i = Some (Some ip)" using ip(1) by (auto simp: get_proc_def hoare_simps)
  have kk: "sys_kill h i s = Some (0, ?t)" using p e q(1) by (simp add: sys_kill_def)
  have b: "current s h < length (pcbtable s)" by (rule get_proc_bound[OF p(1)])
  have "i \<notin># places ?t w Sleep" using kinvD(9)[OF k] by (force simp: q(2))
  then show ?thesis using kk ip ne b by (intro exI[of _ ?t]) (simp add: get_set_proc)
qed

text \<open>Processes 1 and 2 asleep, process 3 on hart 0.\<close>

definition killer :: "(unit, unit) kernel" where
  "killer = \<lparr>
     pcbtable = (replicate NPROC None)[0 := Some (idlepcb ()),
       1 := Some ((idlepcb ())\<lparr>pid := 1, state := TASK_BLOCK\<rparr>), 2 := Some ((idlepcb ())\<lparr>pid := 2, state := TASK_BLOCK\<rparr>),
       3 := Some ((idlepcb ())\<lparr>pid := 3\<rparr>)],
     pids_queue = \<lparr>queue_size = 60, queue_capacity = int NPROC, queue_head = 0, queue_tail = 59, queue_array = [4..<NPROC] @ [0, 0, 0, 0]\<rparr>,
     sleep_queue = two_sleepers\<lparr>priority_queue_capacity := int NPROC\<rparr>,
     clock_ticks = 0, current = (\<lambda>h. if h = 0 then 3 else 0), shared = ()\<rparr>"

lemma killer_facts:
  "get_proc i killer = (if i = 0 then Some (idlepcb ()) else if i = 1 then Some ((idlepcb ())\<lparr>pid := 1, state := TASK_BLOCK\<rparr>)
     else if i = 2 then Some ((idlepcb ())\<lparr>pid := 2, state := TASK_BLOCK\<rparr>) else if i = 3 then Some ((idlepcb ())\<lparr>pid := 3\<rparr>) else None)"
  "current killer = (\<lambda>h. if h = 0 then 3 else 0)" "pq_mset (sleep_queue killer) = {#Pair 5 1, Pair 9 2#}"
  "sleep_queue killer = two_sleepers\<lparr>priority_queue_capacity := int NPROC\<rparr>"
  using two_sleepers(2) by (simp_all add: get_proc_def nth_opt_def killer_def nth_list_update pq_mset_def del: replicate.simps upt_rec_numeral)

lemma killer_inv: "sched_inv (killer, \<lambda>_::nat. [])"
proof -
  have q: "queue_inv (pids_queue killer)" by (simp add: killer_def queue_inv_def del: replicate.simps upt_rec_numeral)
  have a: "queue_abs (pids_queue killer) = [4..<NPROC]"
    by (rule nth_equalityI) (simp_all add: killer_def queue_abs_def queue_slot_def nth_append del: replicate.simps upt_rec_numeral)
  have "set [4..<NPROC] = {i. i < NPROC \<and> get_proc i killer = None}"
    by (auto simp: killer_facts(1) simp del: upt_rec_numeral)
  moreover have "pq_inv (sleep_queue killer)" using two_sleepers(1) by (simp add: killer_facts pq_inv_def two_sleepers_def)
  ultimately have k: "kinv killer" unfolding kinv_def using q
    by (simp add: a killer_facts(1,3) idlepcb_def del: upt_rec_numeral)
      (simp add: killer_def two_sleepers_def del: replicate.simps upt_rec_numeral)
  have pl: "places killer (\<lambda>_::nat. []) q = (if q = Sleep then {#1, 2#} else {#})" for q
    by (cases q) (simp_all add: killer_facts(1,3) waiters_def idlepcb_def)
  have "ainv (absk killer (\<lambda>_::nat. []))"
    by (simp add: ainv_def absk_def pl killer_facts(1,2) idlepcb_def)
  then show ?thesis using k by (simp add: sched_inv_def absk_def killer_facts(1) idlepcb_def)
qed

theorem kill_marks_caller_witness:
  "\<exists>t. sys_kill 0 1 killer = Some (0, t) \<and> map_option state (get_proc 1 t) = Some TASK_BLOCK \<and>
     map_option killed (get_proc 3 t) = Some True \<and> 1 \<notin># places t (\<lambda>_::nat. []) Sleep"
proof -
  have "1 \<in># places killer (\<lambda>_::nat. []) Sleep" by (simp add: killer_facts(3))
  moreover have "current killer 0 = 3" by (simp add: killer_facts(2))
  moreover have "pvalue (priority_queue_heap (sleep_queue killer) (nat (priority_queue_size (sleep_queue killer)))) \<noteq> int 1"
    by (simp add: killer_facts(4) two_sleepers_def)
  ultimately show ?thesis using kill_marks_caller[OF killer_inv, of 0 1] by auto
qed

end
