(* ===== verification/Mutex.thy ===== *)
theory Mutex
  imports Kernel_Step
begin

text \<open>
  Sleeping locks: kernel/sync/mutex.c over the blocking and waking of theory \<open>Proc\<close>. The fields of a mutex are
  guarded by its spinlock, so each turn of \<open>mutex_acquire\<close> (from taking \<open>lk\<close> to giving it up, in the end or inside
  \<open>proc_block\<close>) and \<open>mutex_release\<close> are single steps. The wait list of each mutex is one of the lists of theory
  \<open>Kernel_Step\<close>, so every step here is a step of the kernel.
\<close>

record mutex_t =
  locked :: bool
  mpid :: nat
  mwaiters :: "nat list"

definition mutex_init :: mutex_t where
  "mutex_init = \<lparr>locked = False, mpid = 0, mwaiters = []\<rparr>"

definition mutex_holding :: "nat \<Rightarrow> mutex_t \<Rightarrow> ('r, 'g) kernel \<Rightarrow> bool option" where
  "mutex_holding h m s = do { p \<leftarrow> get_proc (current s h) s; Some (locked m \<and> mpid m = pid p) }"

text \<open>One turn of the loop; the flag says whether the mutex is now held.\<close>

definition mutex_acquire :: "nat \<Rightarrow> mutex_t \<Rightarrow> ('r, 'g) kernel \<Rightarrow> (bool \<times> mutex_t \<times> ('r, 'g) kernel) option" where
  "mutex_acquire h m s =
     (if locked m then do {
        (wl, s1) \<leftarrow> proc_block h (mwaiters m) s;
        Some (False, m\<lparr>mwaiters := wl\<rparr>, s1) }
      else do {
        p \<leftarrow> get_proc (current s h) s;
        Some (True, m\<lparr>locked := True, mpid := pid p\<rparr>, s) })"

definition mutex_release :: "nat \<Rightarrow> mutex_t \<Rightarrow> ('r, 'g) kernel \<Rightarrow> (mutex_t \<times> ('r, 'g) kernel) option" where
  "mutex_release h m s = do {
     b \<leftarrow> mutex_holding h m s;
     cassert b;
     (n, s1) \<leftarrow> proc_unblock_all h (mwaiters m) s;
     Some (m\<lparr>mpid := 0, locked := False, mwaiters := []\<rparr>, s1) }"

section \<open>All processes and all mutexes\<close>

text \<open>A state: the kernel, the mutexes, and for each mutex the processes between the end of their acquire and
  their release. Steps of the kernel that touch no mutex change no wait list.\<close>

type_synonym ('r, 'g, 'k) mstate = "('r, 'g) kernel \<times> ('k \<Rightarrow> mutex_t) \<times> ('k \<Rightarrow> nat set)"

definition wlists :: "('k \<Rightarrow> mutex_t) \<Rightarrow> 'k \<Rightarrow> nat list" where
  "wlists m = (\<lambda>k. mwaiters (m k))"

lemma wlists_upd: "wlists (m(k := x)) = (wlists m)(k := mwaiters x)"
  by (auto simp: wlists_def)

inductive mstep :: "('r, 'g) services \<Rightarrow> nat \<Rightarrow> ('r, 'g, 'k) mstate \<Rightarrow> ('r, 'g, 'k) mstate \<Rightarrow> bool" for v b where
  other: "kstep v b (s, wlists m) (t, wlists m) \<Longrightarrow> mstep v b (s, m, c) (t, m, c)"
| acquire: "current s h \<noteq> 0 \<Longrightarrow> mutex_acquire h (m k) s = Some (True, x, t) \<Longrightarrow>
    mstep v b (s, m, c) (t, m(k := x), c(k := insert (current s h) (c k)))"
| sleep: "current s h \<noteq> 0 \<Longrightarrow> mutex_acquire h (m k) s = Some (False, x, t) \<Longrightarrow> mstep v b (s, m, c) (t, m(k := x), c)"
| release: "current s h \<noteq> 0 \<Longrightarrow> mutex_release h (m k) s = Some (x, t) \<Longrightarrow>
    mstep v b (s, m, c) (t, m(k := x), c(k := c k - {current s h}))"

inductive mreach :: "('r, 'g) services \<Rightarrow> nat \<Rightarrow> ('r, 'g, 'k) mstate \<Rightarrow> bool" for v b where
  boot: "kreach v b (s, \<lambda>_::'k. []) \<Longrightarrow> mreach v b (s, \<lambda>_. mutex_init, \<lambda>_. {})"
| step: "mreach v b x \<Longrightarrow> mstep v b x y \<Longrightarrow> mreach v b y"

text \<open>The invariant of the mutexes; every state of the kernel part is reachable there.\<close>

definition mutex_inv :: "mutex_t \<Rightarrow> nat set \<Rightarrow> bool" where
  "mutex_inv m c \<longleftrightarrow> c = (if locked m then {mpid m} else {}) \<and> (mwaiters m \<noteq> [] \<longrightarrow> locked m)"

lemma mstep_inv:
  assumes "mstep v b x y" "kreach v b (fst x, wlists (fst (snd x)))" "\<forall>k. mutex_inv (fst (snd x) k) (snd (snd x) k)"
  shows "kreach v b (fst y, wlists (fst (snd y))) \<and> (\<forall>k. mutex_inv (fst (snd y) k) (snd (snd y) k))"
  using assms
proof (induction rule: mstep.induct)
  case (other s m t c)
  then show ?case by (auto intro: kreach.step)
next
  case (acquire s h m k x t c)
  have k: "kinv s" using kreach_inv[OF acquire(3)[simplified]] by (simp add: sched_inv_def)
  have n: "\<not> locked (m k)" using acquire(2) by (auto simp: mutex_acquire_def hoare_simps split: if_splits)
  then obtain p where p: "get_proc (current s h) s = Some p" "x = (m k)\<lparr>locked := True, mpid := pid p\<rparr>" "t = s"
    using acquire(2) by (auto simp: mutex_acquire_def hoare_simps split: if_splits)
  have "wlists (m(k := x)) = wlists m" unfolding wlists_upd p(2) by (auto simp: wlists_def)
  then have "kreach v b (s, wlists (m(k := x)))" using acquire(3) by simp
  moreover have "mutex_inv ((m(k := x)) j) ((c(k := insert (current s h) (c k))) j)" for j
    using acquire(4) p(2) n kinvD(2)[OF k p(1)] by (auto simp: mutex_inv_def)
  ultimately show ?case unfolding p(3) fst_conv snd_conv by blast
next
  case (sleep s h m k x t c)
  have l: "locked (m k)" using sleep(2) by (auto simp: mutex_acquire_def hoare_simps split: if_splits)
  then obtain wl where p: "proc_block h (wlists m k) s = Some (wl, t)" "x = (m k)\<lparr>mwaiters := wl\<rparr>"
    using sleep(2) by (auto simp: mutex_acquire_def hoare_simps wlists_def split: if_splits)
  have "kstep v b (s, wlists m) (t, (wlists m)(k := wl))" by (rule kstep.block[where w = "wlists m" and j = k, OF sleep(1) p(1)])
  then have "kstep v b (s, wlists m) (t, wlists (m(k := x)))" by (simp add: wlists_upd p(2) del: fun_upd_apply)
  then have "kreach v b (t, wlists (m(k := x)))" using sleep(3) unfolding fst_conv snd_conv by (rule kreach.step[rotated])
  moreover have "mutex_inv ((m(k := x)) j) (c j)" for j using sleep(4) p(2) l by (auto simp: mutex_inv_def)
  ultimately show ?case unfolding fst_conv snd_conv by blast
next
  case (release s h m k x t c)
  obtain p n where p: "get_proc (current s h) s = Some p" "locked (m k)" "mpid (m k) = pid p"
    "proc_unblock_all h (wlists m k) s = Some (n, t)" "x = (m k)\<lparr>mpid := 0, locked := False, mwaiters := []\<rparr>"
    using release(2) by (auto simp: mutex_release_def mutex_holding_def hoare_simps wlists_def)
  have k: "kinv s" using kreach_inv[OF release(3)[simplified]] by (simp add: sched_inv_def)
  have "kstep v b (s, wlists m) (t, (wlists m)(k := []))" by (rule kstep.unblock[where w = "wlists m" and j = k, OF p(4)])
  then have "kstep v b (s, wlists m) (t, wlists (m(k := x)))" by (simp add: wlists_upd p(5) del: fun_upd_apply)
  then have "kreach v b (t, wlists (m(k := x)))" using release(3) unfolding fst_conv snd_conv by (rule kreach.step[rotated])
  moreover have "mutex_inv ((m(k := x)) j) ((c(k := c k - {current s h})) j)" for j
    using release(4) p(2,3,5) kinvD(2)[OF k p(1)] by (auto simp: mutex_inv_def)
  ultimately show ?case unfolding fst_conv snd_conv by blast
qed

lemma mreach_inv: "mreach v b x \<Longrightarrow> kreach v b (fst x, wlists (fst (snd x))) \<and> (\<forall>k. mutex_inv (fst (snd x) k) (snd (snd x) k))"
proof (induction rule: mreach.induct)
  case (boot s)
  then show ?case by (simp add: wlists_def mutex_init_def mutex_inv_def)
next
  case (step x y)
  then show ?case using mstep_inv by blast
qed

text \<open>C19. In every state that any number of processes reach with any number of mutexes: at most one process is inside
  a mutex, it is the one the mutex names, nobody waits for a free mutex, and every waiter is blocked. The holder's
  release never fails: it frees the mutex and makes every waiter ready.\<close>

theorem mutex_mutual_exclusion:
  assumes "mreach v b (s, m, c)"
  shows "c k = (if locked (m k) then {mpid (m k)} else {}) \<and> (mwaiters (m k) \<noteq> [] \<longrightarrow> locked (m k)) \<and>
    (\<forall>i\<in>set (mwaiters (m k)). map_option state (get_proc i s) = Some TASK_BLOCK) \<and>
    (current s h \<noteq> 0 \<and> current s h \<in> c k \<longrightarrow> (\<exists>t. mutex_release h (m k) s = Some (mutex_init, t) \<and>
      (\<forall>i\<in>set (mwaiters (m k)). map_option state (get_proc i t) = Some TASK_READY)))"
proof -
  have r: "kreach v b (s, wlists m)" and i: "mutex_inv (m k) (c k)" using mreach_inv[OF assms] by auto
  have k: "kinv s" using kreach_inv[OF r] by (simp add: sched_inv_def)
  obtain t where t: "proc_unblock_all h (wlists m k) s = Some (length (wlists m k), t)"
    "\<And>i. get_proc i t = (if i \<in> set (wlists m k) then map_option (\<lambda>p. p\<lparr>state := TASK_READY\<rparr>) (get_proc i s) else get_proc i s)"
    "\<And>i. i \<in> set (wlists m k) \<Longrightarrow> map_option state (get_proc i s) = Some TASK_BLOCK"
    using unblock_list_returns[OF r] by metis
  have rel: "mutex_release h (m k) s = Some (mutex_init, t)" if ne: "current s h \<noteq> 0" and ink: "current s h \<in> c k"
  proof -
    have l: "locked (m k)" "mpid (m k) = current s h" using ink i by (auto simp: mutex_inv_def split: if_splits)
    obtain p where p: "get_proc (current s h) s = Some p" using scheduler_facts[OF r ne] by blast
    show ?thesis using l p t(1) kinvD(2)[OF k p]
      by (simp add: mutex_release_def mutex_holding_def mutex_init_def wlists_def)
  qed
  have rdy: "map_option state (get_proc i t) = Some TASK_READY" if "i \<in> set (mwaiters (m k))" for i
    using t(2)[of i] t(3)[of i] that by (auto simp: wlists_def)
  show ?thesis using i rel rdy t(3) by (auto simp: mutex_inv_def wlists_def)
qed

theorem mutex_mutual_exclusion_witness:
  "(\<lambda>_::nat. {}) (0::nat) = (if locked mutex_init then {mpid mutex_init} else {}) \<and>
   mreach plain_services 0 (booted_kernel, \<lambda>_::nat. mutex_init, \<lambda>_. {})"
proof -
  have r: "mreach plain_services 0 (booted_kernel, \<lambda>_::nat. mutex_init, \<lambda>_. {})"
    by (rule mreach.boot[OF booted_kernel_reach])
  show ?thesis using mutex_mutual_exclusion[OF r] r by (auto simp: mutex_init_def)
qed

end
