(* ===== verification/Bytes.thy ===== *)
theory Bytes
  imports Uniks_Base
begin

text \<open>
  Structures that lie in memory as bytes. A disk block, an inode or a directory entry is a list of bytes; a field
  of a packed structure is the little-endian number at its offset. An access outside the bytes is \<open>None\<close>.
\<close>

section \<open>Ranges\<close>

definition get_bytes :: "byte list \<Rightarrow> nat \<Rightarrow> nat \<Rightarrow> byte list" where
  "get_bytes b off n = take n (drop off b)"

definition put_bytes :: "byte list \<Rightarrow> nat \<Rightarrow> byte list \<Rightarrow> byte list" where
  "put_bytes b off xs = take off b @ xs @ drop (off + length xs) b"

lemma length_get_bytes [simp]: "off + n \<le> length b \<Longrightarrow> length (get_bytes b off n) = n"
  by (simp add: get_bytes_def)

lemma length_put_bytes [simp]: "off + length xs \<le> length b \<Longrightarrow> length (put_bytes b off xs) = length b"
  by (simp add: put_bytes_def)

lemma nth_get_bytes: "i < n \<Longrightarrow> off + n \<le> length b \<Longrightarrow> get_bytes b off n ! i = b ! (off + i)"
  by (simp add: get_bytes_def)

lemma nth_put_bytes:
  assumes "off + length xs \<le> length b" "i < length b"
  shows "put_bytes b off xs ! i = (if off \<le> i \<and> i < off + length xs then xs ! (i - off) else b ! i)"
  using assms by (auto simp: put_bytes_def nth_append)

lemma get_put_bytes: "off + length xs \<le> length b \<Longrightarrow> get_bytes (put_bytes b off xs) off (length xs) = xs"
  by (simp add: get_bytes_def put_bytes_def)

lemma get_put_bytes_other:
  assumes "off + length xs \<le> length b" "off' + n \<le> length b" "off' + n \<le> off \<or> off + length xs \<le> off'"
  shows "get_bytes (put_bytes b off xs) off' n = get_bytes b off' n"
  by (rule nth_equalityI) (use assms in \<open>auto simp: nth_get_bytes nth_put_bytes\<close>)

lemma get_bytes_all [simp]: "get_bytes b 0 (length b) = b"
  by (simp add: get_bytes_def)

lemma put_bytes_all: "length xs = length b \<Longrightarrow> put_bytes b 0 xs = xs"
  by (simp add: put_bytes_def)

lemma get_bytes_append: "off + m + n \<le> length b \<Longrightarrow> get_bytes b off m @ get_bytes b (off + m) n = get_bytes b off (m + n)"
  by (simp add: get_bytes_def take_add add.commute)

section \<open>Little-endian fields\<close>

definition bytes16 :: "u16 \<Rightarrow> byte list" where
  "bytes16 v = [ucast v, ucast (drop_bit 8 v)]"

definition bytes32 :: "u32 \<Rightarrow> byte list" where
  "bytes32 v = [ucast v, ucast (drop_bit 8 v), ucast (drop_bit 16 v), ucast (drop_bit 24 v)]"

definition get16 :: "byte list \<Rightarrow> nat \<Rightarrow> u16" where
  "get16 b off = ucast (b ! off) OR push_bit 8 (ucast (b ! (off + 1)))"

definition get32 :: "byte list \<Rightarrow> nat \<Rightarrow> u32" where
  "get32 b off = ucast (b ! off) OR push_bit 8 (ucast (b ! (off + 1))) OR push_bit 16 (ucast (b ! (off + 2)))
     OR push_bit 24 (ucast (b ! (off + 3)))"

definition put16 :: "byte list \<Rightarrow> nat \<Rightarrow> u16 \<Rightarrow> byte list" where
  "put16 b off v = put_bytes b off (bytes16 v)"

definition put32 :: "byte list \<Rightarrow> nat \<Rightarrow> u32 \<Rightarrow> byte list" where
  "put32 b off v = put_bytes b off (bytes32 v)"

lemma length_bytes [simp]: "length (bytes16 u) = 2" "length (bytes32 v) = 4"
  by (simp_all add: bytes16_def bytes32_def)

lemma length_put16 [simp]: "off + 2 \<le> length b \<Longrightarrow> length (put16 b off v) = length b"
  by (simp add: put16_def)

lemma length_put32 [simp]: "off + 4 \<le> length b \<Longrightarrow> length (put32 b off v) = length b"
  by (simp add: put32_def)

lemma join16: "ucast (ucast v :: byte) OR push_bit 8 (ucast (ucast (drop_bit 8 v) :: byte)) = (v :: u16)"
  by (rule bit_word_eqI) (auto simp: bit_simps)

lemma join32:
  "ucast (ucast v :: byte) OR push_bit 8 (ucast (ucast (drop_bit 8 v) :: byte)) OR push_bit 16 (ucast (ucast (drop_bit 16 v) :: byte))
     OR push_bit 24 (ucast (ucast (drop_bit 24 v) :: byte)) = (v :: u32)"
proof (rule bit_word_eqI)
  fix n assume "n < LENGTH(32)"
  then consider "n < 8" | "8 \<le> n" "n < 16" | "16 \<le> n" "n < 24" | "24 \<le> n" "n < 32" by force
  then show "bit (ucast (ucast v :: byte) OR push_bit 8 (ucast (ucast (drop_bit 8 v) :: byte)) OR push_bit 16 (ucast (ucast (drop_bit 16 v) :: byte))
     OR push_bit 24 (ucast (ucast (drop_bit 24 v) :: byte)) :: u32) n \<longleftrightarrow> bit v n"
    by cases (auto simp: bit_simps)
qed

lemma get_put16 [simp]: "off + 2 \<le> length b \<Longrightarrow> get16 (put16 b off v) off = v"
  by (simp add: get16_def put16_def nth_put_bytes bytes16_def join16)

lemma get_put32 [simp]:
  assumes "off + 4 \<le> length b"
  shows "get32 (put32 b off v) off = v"
proof -
  have n: "bytes32 v ! 0 = ucast v" "bytes32 v ! Suc 0 = ucast (drop_bit 8 v)" "bytes32 v ! 2 = ucast (drop_bit 16 v)"
    "bytes32 v ! 3 = ucast (drop_bit 24 v)" by (simp_all add: bytes32_def numeral_eq_Suc)
  show ?thesis using assms by (simp add: get32_def put32_def nth_put_bytes n join32)
qed

text \<open>Fields that do not overlap.\<close>

lemma get32_cong:
  assumes "\<And>i. i < 4 \<Longrightarrow> b ! (off + i) = c ! (off + i)"
  shows "get32 b off = get32 c off"
  using assms[of 0] assms[of 1] assms[of 2] assms[of 3] unfolding get32_def by simp

lemma get16_cong:
  assumes "\<And>i. i < 2 \<Longrightarrow> b ! (off + i) = c ! (off + i)"
  shows "get16 b off = get16 c off"
  using assms[of 0] assms[of 1] unfolding get16_def by simp

lemma get32_put_bytes:
  "off + length xs \<le> length b \<Longrightarrow> off' + 4 \<le> length b \<Longrightarrow> off' + 4 \<le> off \<or> off + length xs \<le> off' \<Longrightarrow>
     get32 (put_bytes b off xs) off' = get32 b off'"
  by (rule get32_cong) (auto simp: nth_put_bytes)

lemma get32_put32 [simp]:
  "off + 4 \<le> length b \<Longrightarrow> off' + 4 \<le> length b \<Longrightarrow> off' + 4 \<le> off \<or> off + 4 \<le> off' \<Longrightarrow> get32 (put32 b off v) off' = get32 b off'"
  by (simp add: put32_def get32_put_bytes)

lemma get16_put32 [simp]:
  "off + 4 \<le> length b \<Longrightarrow> off' + 2 \<le> length b \<Longrightarrow> off' + 2 \<le> off \<or> off + 4 \<le> off' \<Longrightarrow> get16 (put32 b off v) off' = get16 b off'"
  by (rule get16_cong) (auto simp: put32_def nth_put_bytes)

lemma get32_get_bytes: "off + 4 \<le> n \<Longrightarrow> base + n \<le> length b \<Longrightarrow> get32 (get_bytes b base n) off = get32 b (base + off)"
  unfolding get32_def by (simp add: nth_get_bytes ac_simps)

end
