(* ===== verification/Blkbuf.thy ===== *)
theory Blkbuf
  imports Bytes
begin

text \<open>
  The block cache: kernel/device/blkbuf.c, with the requests of the disk driver (\<open>virtio_disk_read\<close> and
  \<open>virtio_disk_write\<close>) at its lower end. Buffers are numbered; the LRU list and the hash buckets are lists of
  numbers. The operations are those of one process: a sleep that only this process could end (a buffer it holds
  itself, a free list that its own buffers have emptied) never returns and is \<open>None\<close>, as is a request for
  a block that the disk does not have.

  What the cache promises is stated on the abstract disk \<open>view\<close>: the content of a block is its buffer's if it has
  one and the disk's otherwise. The locale \<open>block_store\<close> is the interface the file system relies on.
\<close>

abbreviation (input) BLKSIZE :: nat where "BLKSIZE \<equiv> 4096"
abbreviation (input) NBBUF :: nat where "NBBUF \<equiv> 8192"
abbreviation (input) HASH_TABLE_PRIME :: nat where "HASH_TABLE_PRIME \<equiv> 307"

section \<open>State\<close>

record blkbuf_t =
  b_dev :: u32
  b_blkno :: u32
  b_valid :: bool
  b_dirty :: bool
  b_hashed :: bool
  b_count :: u32
  b_mtx :: bool
  b_data :: "byte list option"

text \<open>\<open>storage\<close> is the content of the disks, \<open>fresh_page\<close> what a page from \<open>pages_alloc\<close> holds.\<close>

record blk_cache_t =
  blkbuf :: "blkbuf_t list"
  free_list :: "nat list"
  hash_bucket_table :: "nat \<Rightarrow> nat list"
  syncing :: u32
  rw_operating :: u32
  storage :: "u32 \<Rightarrow> u32 \<Rightarrow> byte list option"
  fresh_page :: "byte list"

definition get_buf :: "nat \<Rightarrow> blk_cache_t \<Rightarrow> blkbuf_t option" where
  "get_buf i s = nth_opt (blkbuf s) i"

definition set_buf :: "nat \<Rightarrow> blkbuf_t \<Rightarrow> blk_cache_t \<Rightarrow> blk_cache_t" where
  "set_buf i b s = s\<lparr>blkbuf := (blkbuf s)[i := b]\<rparr>"

definition hashfn :: "u32 \<Rightarrow> u32 \<Rightarrow> nat" where
  "hashfn dev blkno = unat (dev XOR blkno) mod HASH_TABLE_PRIME"

section \<open>Operations\<close>

definition blk_init :: "(u32 \<Rightarrow> u32 \<Rightarrow> byte list option) \<Rightarrow> byte list \<Rightarrow> blk_cache_t" where
  "blk_init disk page = \<lparr>
     blkbuf = replicate NBBUF \<lparr>b_dev = 0, b_blkno = 0, b_valid = False, b_dirty = False, b_hashed = False,
       b_count = 0, b_mtx = False, b_data = None\<rparr>,
     free_list = foldl (\<lambda>l i. i # l) [] [0..<NBBUF], hash_bucket_table = (\<lambda>_. []), syncing = 0, rw_operating = 0,
     storage = disk, fresh_page = page\<rparr>"

fun find_in_bucket :: "u32 \<Rightarrow> u32 \<Rightarrow> nat list \<Rightarrow> blk_cache_t \<Rightarrow> nat option option" where
  "find_in_bucket dev blkno [] s = Some None"
| "find_in_bucket dev blkno (l # ls) s = do {
     bb \<leftarrow> get_buf l s;
     if b_dev bb = dev \<and> b_blkno bb = blkno then Some (Some l) else find_in_bucket dev blkno ls s }"

definition find_buffer_inhash :: "u32 \<Rightarrow> u32 \<Rightarrow> blk_cache_t \<Rightarrow> nat option option" where
  "find_buffer_inhash dev blkno s = find_in_bucket dev blkno (hash_bucket_table s (hashfn dev blkno)) s"

definition get_LRU_blk :: "blk_cache_t \<Rightarrow> (nat \<times> blk_cache_t) option" where
  "get_LRU_blk s = (if free_list s \<noteq> [] then Some (last (free_list s), s\<lparr>free_list := butlast (free_list s)\<rparr>) else None)"

definition rmold_then_insert_newhash :: "nat \<Rightarrow> u32 \<Rightarrow> u32 \<Rightarrow> blk_cache_t \<Rightarrow> blk_cache_t option" where
  "rmold_then_insert_newhash i dev blkno s = do {
     bb \<leftarrow> get_buf i s;
     let old = hashfn (b_dev bb) (b_blkno bb);
     let t1 = (if b_hashed bb then (hash_bucket_table s)(old := remove1 i (hash_bucket_table s old)) else hash_bucket_table s);
     let new = hashfn dev blkno;
     Some (set_buf i (bb\<lparr>b_hashed := True\<rparr>) (s\<lparr>hash_bucket_table := t1(new := i # t1 new)\<rparr>)) }"

text \<open>The buffer's mutex, taken and given back by one process.\<close>

definition buf_lock :: "nat \<Rightarrow> blk_cache_t \<Rightarrow> blk_cache_t option" where
  "buf_lock i s = do { bb \<leftarrow> get_buf i s; cassert (\<not> b_mtx bb); Some (set_buf i (bb\<lparr>b_mtx := True\<rparr>) s) }"

definition buf_unlock :: "nat \<Rightarrow> blk_cache_t \<Rightarrow> blk_cache_t option" where
  "buf_unlock i s = do { bb \<leftarrow> get_buf i s; cassert (b_mtx bb); Some (set_buf i (bb\<lparr>b_mtx := False\<rparr>) s) }"

definition getblk :: "u32 \<Rightarrow> u32 \<Rightarrow> blk_cache_t \<Rightarrow> (nat \<times> blk_cache_t) option" where
  "getblk dev blkno s = do {
     found \<leftarrow> find_buffer_inhash dev blkno s;
     (i, s1) \<leftarrow> (case found of
        Some i \<Rightarrow> do {
          bb \<leftarrow> get_buf i s;
          let s0 = (if b_count bb = 0 then s\<lparr>free_list := remove1 i (free_list s)\<rparr> else s);
          Some (i, set_buf i (bb\<lparr>b_count := b_count bb + 1\<rparr>) s0) }
      | None \<Rightarrow> do {
          (i, s0) \<leftarrow> get_LRU_blk s;
          s1 \<leftarrow> rmold_then_insert_newhash i dev blkno s0;
          bb \<leftarrow> get_buf i s1;
          let bb1 = bb\<lparr>b_dev := dev, b_blkno := blkno, b_count := b_count bb + 1\<rparr>;
          Some (i, set_buf i (if b_data bb1 = None then bb1\<lparr>b_data := Some (fresh_page s1)\<rparr> else bb1) s1) });
     s2 \<leftarrow> buf_lock i s1;
     Some (i, s2) }"

definition blk_release :: "nat \<Rightarrow> blk_cache_t \<Rightarrow> blk_cache_t option" where
  "blk_release i s = do {
     s1 \<leftarrow> buf_unlock i s;
     bb \<leftarrow> get_buf i s1;
     let bb1 = bb\<lparr>b_count := b_count bb - 1\<rparr>;
     let s2 = set_buf i bb1 s1;
     Some (if b_count bb1 = 0 then s2\<lparr>free_list := i # free_list s2\<rparr> else s2) }"

text \<open>One request to the disk driver: the transfer of the buffer's block. Its end sets \<open>b_valid\<close>, for a write too.\<close>

definition virtio_disk_read :: "u32 \<Rightarrow> nat \<Rightarrow> blk_cache_t \<Rightarrow> blk_cache_t option" where
  "virtio_disk_read dev i s = do {
     bb \<leftarrow> get_buf i s;
     content \<leftarrow> storage s dev (b_blkno bb);
     Some (set_buf i (bb\<lparr>b_data := Some content, b_valid := True\<rparr>) s) }"

definition virtio_disk_write :: "u32 \<Rightarrow> nat \<Rightarrow> blk_cache_t \<Rightarrow> blk_cache_t option" where
  "virtio_disk_write dev i s = do {
     bb \<leftarrow> get_buf i s;
     cassert (b_dirty bb);
     data \<leftarrow> b_data bb;
     _ \<leftarrow> storage s dev (b_blkno bb);
     Some (set_buf i (bb\<lparr>b_valid := True, b_dirty := False\<rparr>)
       (s\<lparr>storage := (storage s)(dev := (storage s dev)(b_blkno bb := Some data))\<rparr>)) }"

definition blk_read :: "u32 \<Rightarrow> u32 \<Rightarrow> blk_cache_t \<Rightarrow> (nat \<times> blk_cache_t) option" where
  "blk_read dev blockno s = do {
     (i, s1) \<leftarrow> getblk dev blockno s;
     bb \<leftarrow> get_buf i s1;
     s2 \<leftarrow> (if b_dirty bb \<and> (b_dev bb \<noteq> dev \<and> b_blkno bb \<noteq> blockno) then do {
              cassert (b_data bb \<noteq> None);
              virtio_disk_write dev i s1 }
            else Some s1);
     bb2 \<leftarrow> get_buf i s2;
     s3 \<leftarrow> (if \<not> b_valid bb2 then virtio_disk_read dev i s2 else Some s2);
     Some (i, s3) }"

definition blk_write_over :: "nat \<Rightarrow> blk_cache_t \<Rightarrow> blk_cache_t option" where
  "blk_write_over i s = do {
     bb \<leftarrow> get_buf i s;
     cassert (b_mtx bb);
     blk_release i (set_buf i (bb\<lparr>b_dirty := True\<rparr>) s) }"

definition sync_one :: "nat \<Rightarrow> blk_cache_t \<Rightarrow> blk_cache_t option" where
  "sync_one i s = do {
     s1 \<leftarrow> buf_lock i s;
     bb \<leftarrow> get_buf i s1;
     s2 \<leftarrow> (if b_dirty bb then do {
              cassert (b_data bb \<noteq> None);
              virtio_disk_write (b_dev bb) i s1 }
            else Some s1);
     buf_unlock i s2 }"

text \<open>The loop that waits for the operations under way ends only through other processes.\<close>

definition blk_sync_all :: "bool \<Rightarrow> blk_cache_t \<Rightarrow> blk_cache_t option" where
  "blk_sync_all still_block s = do {
     let s1 = s\<lparr>syncing := syncing s + 1\<rparr>;
     cassert (\<not> rw_operating s1 > 0);
     s2 \<leftarrow> for_each sync_one [0..<length (blkbuf s1)] s1;
     Some (if \<not> still_block then s2\<lparr>syncing := syncing s2 - 1\<rparr> else s2) }"

text \<open>Access to the data of a buffer one holds (\<open>bb->b_data\<close>).\<close>

definition buf_data :: "nat \<Rightarrow> blk_cache_t \<Rightarrow> byte list option" where
  "buf_data i s = do { bb \<leftarrow> get_buf i s; b_data bb }"

definition set_buf_data :: "nat \<Rightarrow> byte list \<Rightarrow> blk_cache_t \<Rightarrow> blk_cache_t option" where
  "set_buf_data i d s = do { bb \<leftarrow> get_buf i s; Some (set_buf i (bb\<lparr>b_data := Some d\<rparr>) s) }"

section \<open>Invariant\<close>

text \<open>What a buffer looks like between operations. Only a buffer that somebody holds may differ from its disk block
  without being marked dirty.\<close>

definition buf_ok :: "(u32 \<Rightarrow> u32 \<Rightarrow> byte list option) \<Rightarrow> blkbuf_t \<Rightarrow> bool" where
  "buf_ok disk b \<longleftrightarrow> b_count b = (if b_mtx b then 1 else 0) \<and>
     (if b_hashed b then b_valid b \<and> (\<exists>d. b_data b = Some d \<and> length d = BLKSIZE) \<and> disk (b_dev b) (b_blkno b) \<noteq> None \<and>
        (\<not> b_mtx b \<and> \<not> b_dirty b \<longrightarrow> b_data b = disk (b_dev b) (b_blkno b))
      else \<not> b_valid b \<and> \<not> b_dirty b \<and> \<not> b_mtx b)"

abbreviation B :: "blk_cache_t \<Rightarrow> nat \<Rightarrow> blkbuf_t" where "B s i \<equiv> blkbuf s ! i"

definition key_of :: "blkbuf_t \<Rightarrow> u32 \<times> u32" where
  "key_of b = (b_dev b, b_blkno b)"

definition hash_key :: "u32 \<times> u32 \<Rightarrow> nat" where
  "hash_key x = hashfn (fst x) (snd x)"

definition cache_inv :: "blk_cache_t \<Rightarrow> bool" where
  "cache_inv s \<longleftrightarrow>
     (\<forall>i<length (blkbuf s). buf_ok (storage s) (B s i)) \<and>
     (\<forall>dev blk c. storage s dev blk = Some c \<longrightarrow> length c = BLKSIZE) \<and>
     (\<forall>k i. i \<in> set (hash_bucket_table s k) \<longleftrightarrow> i < length (blkbuf s) \<and> b_hashed (B s i) \<and> hash_key (key_of (B s i)) = k) \<and>
     (\<forall>i<length (blkbuf s). \<forall>j<length (blkbuf s). b_hashed (B s i) \<and> b_hashed (B s j) \<and> key_of (B s i) = key_of (B s j) \<longrightarrow> i = j) \<and>
     distinct (free_list s) \<and> set (free_list s) = {i. i < length (blkbuf s) \<and> \<not> b_mtx (B s i)} \<and>
     (\<exists>xs ys. free_list s = xs @ ys \<and> (\<forall>i\<in>set xs. b_hashed (B s i)) \<and> (\<forall>i\<in>set ys. \<not> b_hashed (B s i)))"

lemma cache_invD:
  assumes "cache_inv s"
  shows "i < length (blkbuf s) \<Longrightarrow> buf_ok (storage s) (B s i)" "storage s dev blk = Some c \<Longrightarrow> length c = BLKSIZE"
    "i \<in> set (hash_bucket_table s k) \<longleftrightarrow> i < length (blkbuf s) \<and> b_hashed (B s i) \<and> hash_key (key_of (B s i)) = k"
    "i < length (blkbuf s) \<Longrightarrow> j < length (blkbuf s) \<Longrightarrow> b_hashed (B s i) \<Longrightarrow> b_hashed (B s j) \<Longrightarrow>
       key_of (B s i) = key_of (B s j) \<Longrightarrow> i = j"
    "distinct (free_list s)" "i \<in> set (free_list s) \<longleftrightarrow> i < length (blkbuf s) \<and> \<not> b_mtx (B s i)"
    "\<exists>xs ys. free_list s = xs @ ys \<and> (\<forall>i\<in>set xs. b_hashed (B s i)) \<and> (\<forall>i\<in>set ys. \<not> b_hashed (B s i))"
proof -
  note a = assms[unfolded cache_inv_def]
  show "i < length (blkbuf s) \<Longrightarrow> buf_ok (storage s) (B s i)" using a[THEN conjunct1] by simp
  note a = a[THEN conjunct2]
  show "storage s dev blk = Some c \<Longrightarrow> length c = BLKSIZE" using a[THEN conjunct1] by blast
  note a = a[THEN conjunct2]
  show "i \<in> set (hash_bucket_table s k) \<longleftrightarrow> i < length (blkbuf s) \<and> b_hashed (B s i) \<and> hash_key (key_of (B s i)) = k"
    using a[THEN conjunct1] by simp
  note a = a[THEN conjunct2]
  show "i < length (blkbuf s) \<Longrightarrow> j < length (blkbuf s) \<Longrightarrow> b_hashed (B s i) \<Longrightarrow> b_hashed (B s j) \<Longrightarrow>
       key_of (B s i) = key_of (B s j) \<Longrightarrow> i = j" using a[THEN conjunct1] by simp
  note a = a[THEN conjunct2]
  show "distinct (free_list s)" using a[THEN conjunct1] .
  note a = a[THEN conjunct2]
  show "i \<in> set (free_list s) \<longleftrightarrow> i < length (blkbuf s) \<and> \<not> b_mtx (B s i)" using a[THEN conjunct1] by simp
  show "\<exists>xs ys. free_list s = xs @ ys \<and> (\<forall>i\<in>set xs. b_hashed (B s i)) \<and> (\<forall>i\<in>set ys. \<not> b_hashed (B s i))"
    using a[THEN conjunct2] .
qed

lemma cache_invI:
  assumes "\<And>i. i < length (blkbuf s) \<Longrightarrow> buf_ok (storage s) (B s i)" "\<And>dev blk c. storage s dev blk = Some c \<Longrightarrow> length c = BLKSIZE"
    "\<And>k i. i \<in> set (hash_bucket_table s k) \<longleftrightarrow> i < length (blkbuf s) \<and> b_hashed (B s i) \<and> hash_key (key_of (B s i)) = k"
    "\<And>i j. i < length (blkbuf s) \<Longrightarrow> j < length (blkbuf s) \<Longrightarrow> b_hashed (B s i) \<Longrightarrow> b_hashed (B s j) \<Longrightarrow>
       key_of (B s i) = key_of (B s j) \<Longrightarrow> i = j"
    "distinct (free_list s)" "set (free_list s) = {i. i < length (blkbuf s) \<and> \<not> b_mtx (B s i)}"
    "free_list s = xs @ ys" "\<forall>i\<in>set xs. b_hashed (B s i)" "\<forall>i\<in>set ys. \<not> b_hashed (B s i)"
  shows "cache_inv s"
  unfolding cache_inv_def using assms(7-9)
  by (intro conjI allI impI) (rule assms(1-6) | blast | (elim conjE, rule assms(4)))+

text \<open>The abstract disk, and who holds which block in which buffer.\<close>

definition cached :: "blk_cache_t \<Rightarrow> u32 \<times> u32 \<Rightarrow> nat \<Rightarrow> bool" where
  "cached s x i \<longleftrightarrow> i < length (blkbuf s) \<and> b_hashed (B s i) \<and> key_of (B s i) = x"

definition view :: "blk_cache_t \<Rightarrow> u32 \<times> u32 \<Rightarrow> byte list option" where
  "view s x = (case find (cached s x) [0..<length (blkbuf s)] of Some i \<Rightarrow> b_data (B s i) | None \<Rightarrow> storage s (fst x) (snd x))"

definition holds :: "blk_cache_t \<Rightarrow> (nat \<times> u32 \<times> u32) set" where
  "holds s = {(i, x). cached s x i \<and> b_mtx (B s i)}"

definition touched :: "blk_cache_t \<Rightarrow> nat set" where
  "touched s = {i. i < length (blkbuf s) \<and> b_hashed (B s i) \<and> \<not> b_dirty (B s i) \<and>
     b_data (B s i) \<noteq> storage s (b_dev (B s i)) (b_blkno (B s i))}"

definition cok :: "(u32 \<times> u32) set \<Rightarrow> blk_cache_t \<Rightarrow> bool" where
  "cok W s \<longleftrightarrow> cache_inv s \<and> {x. \<exists>i. cached s x i} \<subseteq> W \<and> finite W \<and> card W \<le> length (blkbuf s)"

lemma cached_unique: "cache_inv s \<Longrightarrow> cached s x i \<Longrightarrow> cached s x j \<Longrightarrow> i = j"
  using cache_invD(4)[of s i j] unfolding cached_def by simp

lemma view_cached:
  assumes "cache_inv s" "cached s x i"
  shows "view s x = b_data (B s i)"
proof -
  have "find (cached s x) [0..<length (blkbuf s)] \<noteq> None" using assms(2) by (auto simp: find_None_iff cached_def)
  then obtain j where j: "find (cached s x) [0..<length (blkbuf s)] = Some j" by blast
  then have "cached s x j" by (auto simp: find_Some_iff)
  then have "find (cached s x) [0..<length (blkbuf s)] = Some i" using j cached_unique[OF assms] by simp
  then show ?thesis by (simp add: view_def)
qed

lemma view_uncached: "\<forall>i. \<not> cached s x i \<Longrightarrow> view s x = storage s (fst x) (snd x)"
proof -
  assume "\<forall>i. \<not> cached s x i"
  then have "find (cached s x) [0..<length (blkbuf s)] = None" by (simp add: find_None_iff)
  then show ?thesis by (simp add: view_def)
qed

lemma find_in_bucket_eq:
  assumes "\<forall>l\<in>set ls. l < length (blkbuf s) \<and> b_hashed (B s l)"
  shows "find_in_bucket dev blkno ls s = Some (find (cached s (dev, blkno)) ls)"
  using assms by (induction ls) (auto simp: get_buf_def cached_def key_of_def)

lemma find_buffer_eq:
  assumes inv: "cache_inv s"
  shows "cached s (dev, blkno) i \<Longrightarrow> find_buffer_inhash dev blkno s = Some (Some i)"
    and "\<forall>i. \<not> cached s (dev, blkno) i \<Longrightarrow> find_buffer_inhash dev blkno s = Some None"
proof -
  let ?l = "hash_bucket_table s (hashfn dev blkno)"
  have e: "find_buffer_inhash dev blkno s = Some (find (cached s (dev, blkno)) ?l)"
    unfolding find_buffer_inhash_def by (rule find_in_bucket_eq) (use cache_invD(3)[OF inv] in blast)
  show "find_buffer_inhash dev blkno s = Some (Some i)" if c: "cached s (dev, blkno) i"
  proof -
    have "i \<in> set ?l" using c cache_invD(3)[OF inv, of i "hashfn dev blkno"] by (auto simp: cached_def hash_key_def)
    then have "find (cached s (dev, blkno)) ?l \<noteq> None" using c by (auto simp: find_None_iff)
    then obtain j where j: "find (cached s (dev, blkno)) ?l = Some j" by blast
    then have "cached s (dev, blkno) j" by (auto simp: find_Some_iff)
    then show ?thesis using e j cached_unique[OF inv c] by simp
  qed
  show "find_buffer_inhash dev blkno s = Some None" if "\<forall>i. \<not> cached s (dev, blkno) i"
    using e that by (simp add: find_None_iff)
qed

text \<open>The counters of the operations under way have no part in this.\<close>

lemma cached_frame [simp]: "cached (s\<lparr>syncing := a\<rparr>) = cached s" "cached (s\<lparr>rw_operating := a\<rparr>) = cached s"
  by (simp_all add: fun_eq_iff cached_def)

lemma cache_frame [simp]:
  "view (s\<lparr>syncing := a\<rparr>) = view s" "view (s\<lparr>rw_operating := a\<rparr>) = view s"
  "holds (s\<lparr>syncing := a\<rparr>) = holds s" "holds (s\<lparr>rw_operating := a\<rparr>) = holds s"
  "touched (s\<lparr>syncing := a\<rparr>) = touched s" "touched (s\<lparr>rw_operating := a\<rparr>) = touched s"
  "cache_inv (s\<lparr>syncing := a\<rparr>) = cache_inv s" "cache_inv (s\<lparr>rw_operating := a\<rparr>) = cache_inv s"
  "cok W (s\<lparr>syncing := a\<rparr>) = cok W s" "cok W (s\<lparr>rw_operating := a\<rparr>) = cok W s"
  by (simp_all add: fun_eq_iff view_def holds_def touched_def cache_inv_def cok_def cong: option.case_cong)

section \<open>Changing one buffer\<close>

text \<open>The effect of replacing buffer \<open>i\<close> by one for the same block.\<close>

definition replaced :: "nat \<Rightarrow> blkbuf_t \<Rightarrow> blk_cache_t \<Rightarrow> blk_cache_t \<Rightarrow> bool" where
  "replaced i b s t \<longleftrightarrow> i < length (blkbuf s) \<and> blkbuf t = (blkbuf s)[i := b] \<and> b_hashed b = b_hashed (B s i) \<and>
     key_of b = key_of (B s i) \<and> hash_bucket_table t = hash_bucket_table s \<and> storage t = storage s"

lemma replacedD:
  assumes "replaced i b s t"
  shows "i < length (blkbuf s)" "blkbuf t = (blkbuf s)[i := b]" "b_hashed b = b_hashed (B s i)"
    "key_of b = key_of (B s i)" "hash_bucket_table t = hash_bucket_table s" "storage t = storage s"
    "length (blkbuf t) = length (blkbuf s)" "B t i = b" "j \<noteq> i \<Longrightarrow> B t j = B s j"
  using assms unfolding replaced_def by simp_all

lemma replaced_keys:
  assumes "replaced i b s t"
  shows "b_hashed (B t j) = b_hashed (B s j)" "key_of (B t j) = key_of (B s j)"
  using replacedD[OF assms] by (cases "j = i"; simp)+

lemma replaced_cached: "replaced i b s t \<Longrightarrow> cached t x j = cached s x j"
  by (simp add: cached_def replaced_keys replacedD(7))

lemma replaced_inv:
  assumes inv: "cache_inv s" and r: "replaced i b s t" and ok: "buf_ok (storage s) b" and fl: "distinct (free_list t)"
    "\<And>j. j \<in> set (free_list t) \<longleftrightarrow> j < length (blkbuf s) \<and> \<not> b_mtx (B t j)"
    and split: "free_list t = xs @ ys" "\<forall>i\<in>set xs. b_hashed (B s i)" "\<forall>i\<in>set ys. \<not> b_hashed (B s i)"
  shows "cache_inv t"
proof -
  note R = replacedD[OF r] and K = replaced_keys[OF r] and D = cache_invD[OF inv]
  have 1: "buf_ok (storage t) (B t j)" if "j < length (blkbuf t)" for j
    using that ok D(1)[of j] R(6,7,8) R(9)[of j] by (cases "j = i") auto
  have 2: "j \<in> set (hash_bucket_table t k) \<longleftrightarrow> j < length (blkbuf t) \<and> b_hashed (B t j) \<and> hash_key (key_of (B t j)) = k" for j k
    unfolding K R(5,7) by (rule D(3))
  have 3: "j = l" if "j < length (blkbuf t)" "l < length (blkbuf t)" "b_hashed (B t j) \<and> b_hashed (B t l) \<and> key_of (B t j) = key_of (B t l)" for j l
    using that D(4)[of j l] unfolding K R(7) by blast
  have 4: "\<exists>xs ys. free_list t = xs @ ys \<and> (\<forall>i\<in>set xs. b_hashed (B t i)) \<and> (\<forall>i\<in>set ys. \<not> b_hashed (B t i))"
    unfolding K using split by blast
  have 5: "set (free_list t) = {j. j < length (blkbuf t) \<and> \<not> b_mtx (B t j)}" unfolding R(7) using fl(2) by blast
  have 6: "\<forall>dev blk c. storage t dev blk = Some c \<longrightarrow> length c = BLKSIZE" unfolding R(6) using D(2) by blast
  show ?thesis unfolding cache_inv_def
    by (intro conjI allI impI) (fact 1 | rule 6[rule_format], assumption | fact 2 | rule 3, assumption, assumption, assumption | fact fl(1) | fact 5 | fact 4)+
qed

lemma replaced_view:
  assumes inv: "cache_inv s" and r: "replaced i b s t" and inv': "cache_inv t"
  shows "view t = (if b_hashed b then (view s)(key_of b := b_data b) else view s)"
proof
  note R = replacedD[OF r]
  fix x
  show "view t x = (if b_hashed b then (view s)(key_of b := b_data b) else view s) x"
  proof (cases "\<exists>j. cached s x j")
    case True
    then obtain j where j: "cached s x j" "cached t x j" using replaced_cached[OF r] by blast
    have v: "view t x = b_data (B t j)" "view s x = b_data (B s j)" using view_cached inv inv' j by blast+
    show ?thesis
    proof (cases "j = i")
      case True
      then have "key_of b = x" "b_hashed b" using j(1) R(3,4) by (simp_all add: cached_def)
      then show ?thesis using v True R(8) by simp
    next
      case False
      have "key_of b \<noteq> x" if "b_hashed b"
        using cached_unique[OF inv j(1), of i] that False R(1,3,4) by (auto simp: cached_def)
      then show ?thesis using v R(9)[OF False] by auto
    qed
  next
    case False
    then have f: "\<forall>j. \<not> cached s x j" "\<forall>j. \<not> cached t x j" using replaced_cached[OF r] by auto
    have "key_of b \<noteq> x" if "b_hashed b" using f(1) that R(1,3,4) by (auto simp: cached_def)
    then show ?thesis using view_uncached[OF f(1)] view_uncached[OF f(2)] R(6) by auto
  qed
qed

lemma replaced_holds:
  assumes r: "replaced i b s t"
  shows "holds t = {p \<in> holds s. fst p \<noteq> i} \<union> (if b_hashed b \<and> b_mtx b then {(i, key_of b)} else {})"
proof -
  note R = replacedD[OF r]
  have "(j, x) \<in> holds t \<longleftrightarrow> (j, x) \<in> {p \<in> holds s. fst p \<noteq> i} \<union> (if b_hashed b \<and> b_mtx b then {(i, key_of b)} else {})" for j x
  proof (cases "j = i")
    case True
    then show ?thesis using R(1,3,4,7,8) by (auto simp: holds_def cached_def)
  next
    case False
    then show ?thesis using R(9)[OF False] by (simp add: holds_def replaced_cached[OF r])
  qed
  then show ?thesis by (simp add: set_eq_iff split_paired_all)
qed

lemma replaced_touched:
  assumes r: "replaced i b s t"
  shows "touched t = touched s - {i} \<union> (if b_hashed b \<and> \<not> b_dirty b \<and> b_data b \<noteq> storage s (b_dev b) (b_blkno b) then {i} else {})"
proof -
  note R = replacedD[OF r]
  have "j \<in> touched t \<longleftrightarrow> j \<in> touched s - {i} \<union> (if b_hashed b \<and> \<not> b_dirty b \<and> b_data b \<noteq> storage s (b_dev b) (b_blkno b) then {i} else {})" for j
    using R(1,6,7,8) R(9)[of j] by (cases "j = i") (auto simp: touched_def)
  then show ?thesis by blast
qed

lemma replaced_cok:
  assumes "cok W s" "replaced i b s t" "cache_inv t"
  shows "cok W t"
  using assms by (simp add: cok_def replaced_cached[OF assms(2)] replacedD(7)[OF assms(2)])

section \<open>What the operations do to the abstract disk\<close>

abbreviation counters :: "blk_cache_t \<Rightarrow> u32 \<times> u32" where
  "counters s \<equiv> (syncing s, rw_operating s)"

lemma cokD: "cok W s \<Longrightarrow> cache_inv s"
  by (simp add: cok_def)

lemma holdsD:
  assumes "(i, x) \<in> holds s"
  shows "cached s x i" "b_mtx (B s i)" "i < length (blkbuf s)" "b_hashed (B s i)" "key_of (B s i) = x"
    "get_buf i s = Some (B s i)"
  using assms by (auto simp: holds_def cached_def get_buf_def)

lemma buf_data_ok:
  assumes "cok W s" "(i, x) \<in> holds s"
  shows "\<exists>d. buf_data i s = Some d \<and> view s x = Some d \<and> length d = BLKSIZE"
proof -
  note H = holdsD[OF assms(2)] and inv = cokD[OF assms(1)]
  have "buf_ok (storage s) (B s i)" by (rule cache_invD(1)[OF inv H(3)])
  then obtain d where d: "b_data (B s i) = Some d" "length d = BLKSIZE" using H(4) by (auto simp: buf_ok_def)
  then show ?thesis using view_cached[OF inv H(1)] H(6) by (simp add: buf_data_def)
qed

lemma set_buf_data_ok:
  assumes c: "cok W s" and h: "(i, x) \<in> holds s" and d: "length d = BLKSIZE"
  shows "\<exists>t. set_buf_data i d s = Some t \<and> cok W t \<and> view t = (view s)(x := Some d) \<and> holds t = holds s \<and>
    touched t \<subseteq> insert i (touched s) \<and> counters t = counters s \<and> storage t = storage s"
proof -
  note H = holdsD[OF h] and inv = cokD[OF c]
  let ?b = "(B s i)\<lparr>b_data := Some d\<rparr>"
  let ?t = "set_buf i ?b s"
  have r: "replaced i ?b s ?t" using H(3) by (simp add: replaced_def set_buf_def key_of_def)
  have ok: "buf_ok (storage s) ?b" using cache_invD(1)[OF inv H(3)] H(2,4) d by (simp add: buf_ok_def)
  obtain xs ys where sp: "free_list s = xs @ ys" "\<forall>i\<in>set xs. b_hashed (B s i)" "\<forall>i\<in>set ys. \<not> b_hashed (B s i)"
    using cache_invD(7)[OF inv] by blast
  have fl: "free_list ?t = free_list s" by (simp add: set_buf_def)
  have m: "b_mtx (B ?t j) = b_mtx (B s j)" for j using replacedD(8,9)[OF r] by (cases "j = i") auto
  have it: "cache_inv ?t"
    by (rule replaced_inv[OF inv r ok _ _ sp[folded fl]]) (simp_all add: fl cache_invD(5,6)[OF inv] m)
  have k: "key_of ?b = x" using H(5) by (simp add: key_of_def)
  have "{p \<in> holds s. fst p \<noteq> i} \<union> {(i, x)} = holds s" using h H(5) by (auto simp: holds_def cached_def)
  then have "holds ?t = holds s" using replaced_holds[OF r] H(2,4) k by simp
  moreover have "view ?t = (view s)(x := Some d)" using replaced_view[OF inv r it] H(4) k by simp
  moreover have "touched ?t \<subseteq> insert i (touched s)" unfolding replaced_touched[OF r] by auto
  ultimately show ?thesis using replaced_cok[OF c r it] H(6) by (simp add: set_buf_data_def set_buf_def)
qed

lemma blk_release_ok:
  assumes c: "cok W s" and h: "(i, x) \<in> holds s" and n: "i \<notin> touched s"
  shows "\<exists>t. blk_release i s = Some t \<and> cok W t \<and> view t = view s \<and> holds t = {p \<in> holds s. fst p \<noteq> i} \<and>
    touched t = touched s \<and> counters t = counters s \<and> storage t = storage s"
proof -
  note H = holdsD[OF h] and inv = cokD[OF c]
  have ok0: "buf_ok (storage s) (B s i)" by (rule cache_invD(1)[OF inv H(3)])
  let ?b = "(B s i)\<lparr>b_mtx := False, b_count := 0\<rparr>"
  let ?t = "(set_buf i ?b s)\<lparr>free_list := i # free_list s\<rparr>"
  have rel: "blk_release i s = Some ?t"
    using H(2,3,6) ok0 by (simp add: blk_release_def buf_unlock_def get_buf_def set_buf_def buf_ok_def Let_def)
  have r: "replaced i ?b s ?t" using H(3) by (simp add: replaced_def set_buf_def key_of_def)
  have "b_data (B s i) = storage s (b_dev (B s i)) (b_blkno (B s i))" if "\<not> b_dirty (B s i)"
    using n that H(3,4) by (simp add: touched_def)
  then have ok: "buf_ok (storage s) ?b" using ok0 H(2,4) by (auto simp: buf_ok_def)
  obtain xs ys where sp: "free_list s = xs @ ys" "\<forall>i\<in>set xs. b_hashed (B s i)" "\<forall>i\<in>set ys. \<not> b_hashed (B s i)"
    using cache_invD(7)[OF inv] by blast
  have ni: "i \<notin> set (free_list s)" using cache_invD(6)[OF inv] H(2) by simp
  have fl: "free_list ?t = (i # xs) @ ys" using sp(1) by simp
  have it: "cache_inv ?t"
  proof (rule replaced_inv[OF inv r ok _ _ fl _ sp(3)])
    show "distinct (free_list ?t)" using ni cache_invD(5)[OF inv] by simp
    show "j \<in> set (free_list ?t) \<longleftrightarrow> j < length (blkbuf s) \<and> \<not> b_mtx (B ?t j)" for j
      using cache_invD(6)[OF inv, of j] replacedD(8)[OF r] replacedD(9)[OF r, of j] H(3) by (cases "j = i") auto
    show "\<forall>j\<in>set (i # xs). b_hashed (B s j)" using sp(2) H(4) by simp
  qed
  have k: "key_of ?b = x" using H(5) by (simp add: key_of_def)
  have v: "view s x = b_data (B s i)" by (rule view_cached[OF inv H(1)])
  have "view ?t = view s" using replaced_view[OF inv r it] H(4) k v by (simp add: fun_upd_idem)
  moreover have "holds ?t = {p \<in> holds s. fst p \<noteq> i}" using replaced_holds[OF r] by simp
  moreover have "touched ?t = touched s" unfolding replaced_touched[OF r] using n H(3,4) by (auto simp: touched_def)
  ultimately show ?thesis using rel replaced_cok[OF c r it] by (simp add: set_buf_def)
qed

lemma blk_write_over_ok:
  assumes c: "cok W s" and h: "(i, x) \<in> holds s"
  shows "\<exists>t. blk_write_over i s = Some t \<and> cok W t \<and> view t = view s \<and> holds t = {p \<in> holds s. fst p \<noteq> i} \<and>
    touched t = touched s - {i} \<and> counters t = counters s \<and> storage t = storage s"
proof -
  note H = holdsD[OF h] and inv = cokD[OF c]
  have ok0: "buf_ok (storage s) (B s i)" by (rule cache_invD(1)[OF inv H(3)])
  let ?b = "(B s i)\<lparr>b_dirty := True\<rparr>"
  let ?u = "set_buf i ?b s"
  have r: "replaced i ?b s ?u" using H(3) by (simp add: replaced_def set_buf_def key_of_def)
  have ok: "buf_ok (storage s) ?b" using ok0 H(2,4) by (simp add: buf_ok_def)
  obtain xs ys where sp: "free_list s = xs @ ys" "\<forall>i\<in>set xs. b_hashed (B s i)" "\<forall>i\<in>set ys. \<not> b_hashed (B s i)"
    using cache_invD(7)[OF inv] by blast
  have fl: "free_list ?u = free_list s" by (simp add: set_buf_def)
  have m: "b_mtx (B ?u j) = b_mtx (B s j)" for j using replacedD(8,9)[OF r] by (cases "j = i") auto
  have iu: "cache_inv ?u"
    by (rule replaced_inv[OF inv r ok _ _ sp[folded fl]]) (simp_all add: fl cache_invD(5,6)[OF inv] m)
  have k: "key_of ?b = x" using H(5) by (simp add: key_of_def)
  have v: "view s x = b_data (B s i)" by (rule view_cached[OF inv H(1)])
  have hu: "(i, x) \<in> holds ?u" using replaced_holds[OF r] H(2,4) k by simp
  have "{p \<in> holds s. fst p \<noteq> i} = {p \<in> holds ?u. fst p \<noteq> i}" using replaced_holds[OF r] by auto
  moreover have "view ?u = view s" using replaced_view[OF inv r iu] H(4) k v by (simp add: fun_upd_idem)
  moreover have tu: "touched ?u = touched s - {i}" unfolding replaced_touched[OF r] by auto
  moreover have "blk_write_over i s = blk_release i ?u" using H(2,6) by (simp add: blk_write_over_def)
  moreover have "counters ?u = counters s" "storage ?u = storage s" by (simp_all add: set_buf_def)
  ultimately show ?thesis using blk_release_ok[OF replaced_cok[OF c r iu] hu] by simp
qed

text \<open>A cached block.\<close>

lemma blk_read_hit:
  assumes c: "cok W s" and k: "cached s x i" and f: "(i, x) \<notin> holds s"
  shows "\<exists>t. blk_read (fst x) (snd x) s = Some (i, t) \<and> cok W t \<and> view t = view s \<and> holds t = insert (i, x) (holds s) \<and>
    touched t = touched s \<and> counters t = counters s \<and> storage t = storage s"
proof -
  note inv = cokD[OF c]
  have K: "i < length (blkbuf s)" "b_hashed (B s i)" "key_of (B s i) = x" using k by (simp_all add: cached_def)
  have ok0: "buf_ok (storage s) (B s i)" by (rule cache_invD(1)[OF inv K(1)])
  have m: "\<not> b_mtx (B s i)" using f k by (simp add: holds_def)
  then have O: "b_count (B s i) = 0" "b_valid (B s i)" using ok0 K(2) by (simp_all add: buf_ok_def)
  let ?b = "(B s i)\<lparr>b_count := 1, b_mtx := True\<rparr>"
  let ?t = "(set_buf i ?b s)\<lparr>free_list := remove1 i (free_list s)\<rparr>"
  have fb: "find_buffer_inhash (fst x) (snd x) s = Some (Some i)" using find_buffer_eq(1)[OF inv, of "fst x" "snd x" i] k by simp
  have gb: "getblk (fst x) (snd x) s = Some (i, ?t)"
    using fb m O(1) K(1) by (simp add: getblk_def get_buf_def set_buf_def buf_lock_def Let_def)
  have rd: "blk_read (fst x) (snd x) s = Some (i, ?t)"
    using gb O(2) K(1,3) by (auto simp: blk_read_def get_buf_def set_buf_def key_of_def)
  have r: "replaced i ?b s ?t" using K(1) by (simp add: replaced_def set_buf_def key_of_def)
  have ok: "buf_ok (storage s) ?b" using ok0 K(2) m by (simp add: buf_ok_def)
  obtain xs ys where sp: "free_list s = xs @ ys" "\<forall>i\<in>set xs. b_hashed (B s i)" "\<forall>i\<in>set ys. \<not> b_hashed (B s i)"
    using cache_invD(7)[OF inv] by blast
  have ifl: "i \<in> set (free_list s)" using cache_invD(6)[OF inv] K(1) m by simp
  have ix: "i \<in> set xs" using ifl sp K(2) by auto
  have fl: "free_list ?t = remove1 i xs @ ys" using sp(1) ix by (simp add: remove1_append)
  have it: "cache_inv ?t"
  proof (rule replaced_inv[OF inv r ok _ _ fl _ sp(3)])
    show "distinct (free_list ?t)" using cache_invD(5)[OF inv] by simp
    show "j \<in> set (free_list ?t) \<longleftrightarrow> j < length (blkbuf s) \<and> \<not> b_mtx (B ?t j)" for j
      using cache_invD(6)[OF inv, of j] cache_invD(5)[OF inv] replacedD(8)[OF r] replacedD(9)[OF r, of j] K(1) by (cases "j = i") auto
    show "\<forall>j\<in>set (remove1 i xs). b_hashed (B s j)" using sp(2) notin_set_remove1 by fast
  qed
  have kb: "key_of ?b = x" using K(3) by (simp add: key_of_def)
  have v: "view s x = b_data (B s i)" by (rule view_cached[OF inv k])
  have "view ?t = view s" using replaced_view[OF inv r it] K(2) kb v by (simp add: fun_upd_idem)
  moreover have "{p \<in> holds s. fst p \<noteq> i} = holds s" using f K(3) by (auto simp: holds_def cached_def)
  then have "holds ?t = insert (i, x) (holds s)" using replaced_holds[OF r] K(2) kb by simp
  moreover have "i \<notin> touched s" using ok0 K(2) m by (auto simp: touched_def buf_ok_def)
  then have "touched ?t = touched s" unfolding replaced_touched[OF r] using K(1,2) by (auto simp: touched_def)
  ultimately show ?thesis using rd replaced_cok[OF c r it] by (simp add: set_buf_def)
qed

text \<open>A block that is not cached: the last buffer of the LRU list takes it. When the working set fits into the
  buffers, this buffer has held no block before.\<close>

lemma cached_ex_count:
  assumes inv: "cache_inv s"
  shows "finite {x. \<exists>i. cached s x i}" "card {i. i < length (blkbuf s) \<and> b_hashed (B s i)} = card {x. \<exists>i. cached s x i}"
proof -
  let ?H = "{i. i < length (blkbuf s) \<and> b_hashed (B s i)}"
  have im: "{x. \<exists>i. cached s x i} = (\<lambda>i. key_of (B s i)) ` ?H" unfolding cached_def image_def by blast
  have inj: "inj_on (\<lambda>i. key_of (B s i)) ?H" by (rule inj_onI) (use cache_invD(4)[OF inv] in simp)
  show "finite {x. \<exists>i. cached s x i}" unfolding im by simp
  show "card ?H = card {x. \<exists>i. cached s x i}" unfolding im by (rule card_image[OF inj, symmetric])
qed

lemma lru_unhashed:
  assumes c: "cok W s" and x: "x \<in> W" and u: "\<forall>i. \<not> cached s x i"
  shows "free_list s \<noteq> []" "\<not> b_hashed (B s (last (free_list s)))" "last (free_list s) < length (blkbuf s)"
proof -
  note inv = cokD[OF c]
  let ?H = "{i. i < length (blkbuf s) \<and> b_hashed (B s i)}"
  have "{x. \<exists>i. cached s x i} \<subseteq> W" using c by (simp add: cok_def)
  moreover have "x \<notin> {x. \<exists>i. cached s x i}" using u by simp
  ultimately have "{x. \<exists>i. cached s x i} \<subset> W" using x by (metis psubsetI)
  then have "card {x. \<exists>i. cached s x i} < card W" using c by (simp add: cok_def psubset_card_mono)
  then have "card ?H < length (blkbuf s)" using cached_ex_count(2)[OF inv] c by (simp add: cok_def)
  then have "\<not> {..<length (blkbuf s)} \<subseteq> ?H" using card_mono[of ?H "{..<length (blkbuf s)}"] by force
  then obtain j where j: "j < length (blkbuf s)" "\<not> b_hashed (B s j)" by blast
  have "\<not> b_mtx (B s j)" using cache_invD(1)[OF inv j(1)] j(2) by (simp add: buf_ok_def)
  then have jf: "j \<in> set (free_list s)" using cache_invD(6)[OF inv] j(1) by simp
  then show ne: "free_list s \<noteq> []" by auto
  obtain xs ys where sp: "free_list s = xs @ ys" "\<forall>i\<in>set xs. b_hashed (B s i)" "\<forall>i\<in>set ys. \<not> b_hashed (B s i)"
    using cache_invD(7)[OF inv] by blast
  have "j \<in> set ys" using jf sp j(2) by auto
  then have "ys \<noteq> []" by auto
  then show "\<not> b_hashed (B s (last (free_list s)))" using sp by (simp add: last_append)
  show "last (free_list s) < length (blkbuf s)" using cache_invD(6)[OF inv, of "last (free_list s)"] last_in_set[OF ne] by simp
qed

lemma blk_read_miss:
  assumes c: "cok W s" and x: "x \<in> W" and u: "\<forall>i. \<not> cached s x i" and d: "view s x = Some d"
  shows "\<exists>i t. blk_read (fst x) (snd x) s = Some (i, t) \<and> cok W t \<and> view t = view s \<and> holds t = insert (i, x) (holds s) \<and>
    touched t = touched s \<and> counters t = counters s \<and> storage t = storage s \<and> i \<notin> touched s"
proof -
  note inv = cokD[OF c] and L = lru_unhashed[OF c x u]
  define i where "i = last (free_list s)"
  have i: "i < length (blkbuf s)" "\<not> b_hashed (B s i)" using L(2,3) by (simp_all add: i_def)
  have O: "b_count (B s i) = 0" "\<not> b_valid (B s i)" "\<not> b_dirty (B s i)" "\<not> b_mtx (B s i)"
    using cache_invD(1)[OF inv i(1)] i(2) by (simp_all add: buf_ok_def)
  have st: "storage s (fst x) (snd x) = Some d" using d view_uncached[OF u] by simp
  let ?b = "(B s i)\<lparr>b_hashed := True, b_dev := fst x, b_blkno := snd x, b_count := 1, b_mtx := True, b_data := Some d, b_valid := True\<rparr>"
  let ?k = "hashfn (fst x) (snd x)"
  let ?t = "s\<lparr>free_list := butlast (free_list s), hash_bucket_table := (hash_bucket_table s)(?k := i # hash_bucket_table s ?k),
    blkbuf := (blkbuf s)[i := ?b]\<rparr>"
  have fb: "find_buffer_inhash (fst x) (snd x) s = Some None" using find_buffer_eq(2)[OF inv, of "fst x" "snd x"] u by simp
  have rd: "blk_read (fst x) (snd x) s = Some (i, ?t)"
    using fb L(1) i O st by (simp add: blk_read_def getblk_def get_LRU_blk_def i_def[symmetric] rmold_then_insert_newhash_def
      get_buf_def set_buf_def buf_lock_def virtio_disk_read_def Let_def)
  have Bt: "B ?t j = (if j = i then ?b else B s j)" for j using i(1) by (simp add: set_buf_def nth_list_update)
  have n: "length (blkbuf ?t) = length (blkbuf s)" by (simp add: set_buf_def)
  have kb: "key_of ?b = x" by (simp add: key_of_def)
  have ct: "cached ?t y j \<longleftrightarrow> (if j = i then y = x else cached s y j)" for y j
    using i(1) unfolding cached_def Bt n by (auto simp: key_of_def)
  have ci: "\<not> cached s y i" for y using i(2) by (simp add: cached_def)
  obtain xs ys where sp: "free_list s = xs @ ys" "\<forall>i\<in>set xs. b_hashed (B s i)" "\<forall>i\<in>set ys. \<not> b_hashed (B s i)"
    using cache_invD(7)[OF inv] by blast
  have ys: "ys \<noteq> []" using sp L(1,2) by (auto simp: last_append split: if_splits)
  have fl: "free_list s = butlast (free_list s) @ [i]" using L(1) by (simp add: i_def)
  have dl: "distinct (butlast (free_list s) @ [i])" using cache_invD(5)[OF inv] fl by simp
  have it: "cache_inv ?t"
    unfolding cache_inv_def
  proof (intro conjI allI impI)
    show "buf_ok (storage ?t) (B ?t j)" if "j < length (blkbuf ?t)" for j
    proof (cases "j = i")
      case True
      show ?thesis unfolding Bt using True st cache_invD(2)[OF inv st] O(3) by (simp add: buf_ok_def set_buf_def)
    next
      case False
      then show ?thesis unfolding Bt using that cache_invD(1)[OF inv, of j] by (simp add: set_buf_def)
    qed
    show "length e = BLKSIZE" if "storage ?t dev blk = Some e" for dev blk e using that cache_invD(2)[OF inv] by (simp add: set_buf_def)
    show "j \<in> set (hash_bucket_table ?t k) \<longleftrightarrow> j < length (blkbuf ?t) \<and> b_hashed (B ?t j) \<and> hash_key (key_of (B ?t j)) = k" for j k
      using cache_invD(3)[OF inv, of j k] i unfolding Bt n by (auto simp: key_of_def hash_key_def)
    show "j = l" if "j < length (blkbuf ?t)" "l < length (blkbuf ?t)" "b_hashed (B ?t j) \<and> b_hashed (B ?t l) \<and> key_of (B ?t j) = key_of (B ?t l)" for j l
    proof (rule ccontr)
      assume ne: "j \<noteq> l"
      have "cached ?t (key_of (B ?t j)) j" "cached ?t (key_of (B ?t j)) l" using that by (simp_all add: cached_def)
      then show False using ne u cached_unique[OF inv, of "key_of (B ?t j)" j l] unfolding ct by (auto split: if_splits)
    qed
    show "distinct (free_list ?t)" using dl by simp
    have "j \<in> set (free_list ?t) \<longleftrightarrow> j \<in> set (free_list s) \<and> j \<noteq> i" for j using dl by (subst fl) auto
    then show "set (free_list ?t) = {j. j < length (blkbuf ?t) \<and> \<not> b_mtx (B ?t j)}"
      using cache_invD(6)[OF inv] unfolding Bt n by auto
    have "free_list ?t = xs @ butlast ys" using sp(1) ys by (simp add: butlast_append)
    moreover have "\<forall>j\<in>set xs. b_hashed (B ?t j)" unfolding Bt using sp(2) by simp
    moreover have "\<forall>j\<in>set (butlast ys). \<not> b_hashed (B ?t j)"
    proof
      fix j assume j: "j \<in> set (butlast ys)"
      have "j \<noteq> i" using j dl sp(1) ys by (auto simp: butlast_append)
      then show "\<not> b_hashed (B ?t j)" unfolding Bt using sp(3) in_set_butlastD[OF j] by simp
    qed
    ultimately show "\<exists>xs ys. free_list ?t = xs @ ys \<and> (\<forall>j\<in>set xs. b_hashed (B ?t j)) \<and> (\<forall>j\<in>set ys. \<not> b_hashed (B ?t j))" by blast
  qed
  have v: "view ?t = view s"
  proof
    fix y show "view ?t y = view s y"
    proof (cases "y = x")
      case True
      have "cached ?t y i" unfolding ct using True by simp
      from view_cached[OF it this] show ?thesis unfolding Bt using d True by simp
    next
      case False
      show ?thesis
      proof (cases "\<exists>j. cached s y j")
        case True
        then obtain j where j: "cached s y j" by blast
        then have "j \<noteq> i" using ci by blast
        then have "cached ?t y j" unfolding ct using j by simp
        from view_cached[OF it this] view_cached[OF inv j] show ?thesis unfolding Bt using \<open>j \<noteq> i\<close> by simp
      next
        case False
        then have "\<forall>j. \<not> cached ?t y j" unfolding ct using \<open>y \<noteq> x\<close> by simp
        then show ?thesis using view_uncached[of ?t y] view_uncached[of s y] False by (simp add: set_buf_def)
      qed
    qed
  qed
  have "(j, y) \<in> holds ?t \<longleftrightarrow> (j, y) \<in> insert (i, x) (holds s)" for j y
    unfolding holds_def mem_Collect_eq prod.case insert_iff prod.inject Bt ct using ci by (cases "j = i") simp_all
  then have h: "holds ?t = insert (i, x) (holds s)" by (simp add: set_eq_iff split_paired_all)
  have ti: "i \<notin> touched s" using i(2) by (simp add: touched_def)
  have "j \<in> touched ?t \<longleftrightarrow> j \<in> touched s" for j
    using ti st unfolding touched_def mem_Collect_eq Bt n by (cases "j = i") simp_all
  then have tt: "touched ?t = touched s" by blast
  have "{y. \<exists>j. cached ?t y j} \<subseteq> insert x {y. \<exists>j. cached s y j}" unfolding ct by (auto split: if_splits)
  also have "\<dots> \<subseteq> W" using c x by (simp add: cok_def)
  finally have "cok W ?t" using c it unfolding cok_def n by simp
  then show ?thesis using rd v h tt ti by (simp add: set_buf_def)
qed

section \<open>The interface of the file system\<close>

lemma blk_read_ok:
  assumes c: "cok W s" and x: "x \<in> W" and f: "x \<notin> snd ` holds s" and d: "view s x = Some d"
  shows "\<exists>i t. blk_read (fst x) (snd x) s = Some (i, t) \<and> cok W t \<and> view t = view s \<and> holds t = insert (i, x) (holds s) \<and>
    touched t = touched s \<and> counters t = counters s \<and> i \<notin> fst ` holds s"
proof (cases "\<exists>i. cached s x i")
  case True
  then obtain i where i: "cached s x i" by blast
  have n: "(i, x) \<notin> holds s" using f by force
  have "i \<notin> fst ` holds s" using f i by (force simp: holds_def cached_def)
  then show ?thesis using blk_read_hit[OF c i n] by blast
next
  case False
  then obtain i t where t: "blk_read (fst x) (snd x) s = Some (i, t)" "cok W t" "view t = view s" "holds t = insert (i, x) (holds s)"
    "touched t = touched s" "counters t = counters s" using blk_read_miss[OF c x _ d] by blast
  have "i \<notin> fst ` holds s"
  proof
    assume "i \<in> fst ` holds s"
    then obtain y where y: "(i, y) \<in> holds s" by force
    have "(i, y) \<in> holds t" "(i, x) \<in> holds t" using y t(4) by simp_all
    then have "y = x" using holdsD(5) by metis
    then show False using holdsD(1)[OF y] False by blast
  qed
  then show ?thesis using t by blast
qed

locale block_store =
  fixes read :: "'x \<Rightarrow> 's \<Rightarrow> ('i \<times> 's) option"
    and data :: "'i \<Rightarrow> 's \<Rightarrow> 'd option"
    and set_data :: "'i \<Rightarrow> 'd \<Rightarrow> 's \<Rightarrow> 's option"
    and release :: "'i \<Rightarrow> 's \<Rightarrow> 's option"
    and write_over :: "'i \<Rightarrow> 's \<Rightarrow> 's option"
    and inv :: "'x set \<Rightarrow> 's \<Rightarrow> bool"
    and content :: "'s \<Rightarrow> 'x \<Rightarrow> 'd option"
    and held :: "'s \<Rightarrow> ('i \<times> 'x) set"
    and unsaved :: "'s \<Rightarrow> 'i set"
    and env :: "'s \<Rightarrow> 'e"
    and block :: "'d \<Rightarrow> bool"
  assumes read_law: "\<lbrakk>inv W s; x \<in> W; x \<notin> snd ` held s; content s x = Some d\<rbrakk> \<Longrightarrow>
      \<exists>i t. read x s = Some (i, t) \<and> inv W t \<and> content t = content s \<and> held t = insert (i, x) (held s) \<and>
        unsaved t = unsaved s \<and> env t = env s \<and> i \<notin> fst ` held s"
    and data_law: "\<lbrakk>inv W s; (i, x) \<in> held s\<rbrakk> \<Longrightarrow> \<exists>d. data i s = Some d \<and> content s x = Some d \<and> block d"
    and set_data_law: "\<lbrakk>inv W s; (i, x) \<in> held s; block d\<rbrakk> \<Longrightarrow>
      \<exists>t. set_data i d s = Some t \<and> inv W t \<and> content t = (content s)(x := Some d) \<and> held t = held s \<and>
        unsaved t \<subseteq> insert i (unsaved s) \<and> env t = env s"
    and release_law: "\<lbrakk>inv W s; (i, x) \<in> held s; i \<notin> unsaved s\<rbrakk> \<Longrightarrow>
      \<exists>t. release i s = Some t \<and> inv W t \<and> content t = content s \<and> held t = {p \<in> held s. fst p \<noteq> i} \<and>
        unsaved t = unsaved s \<and> env t = env s"
    and write_over_law: "\<lbrakk>inv W s; (i, x) \<in> held s\<rbrakk> \<Longrightarrow>
      \<exists>t. write_over i s = Some t \<and> inv W t \<and> content t = content s \<and> held t = {p \<in> held s. fst p \<noteq> i} \<and>
        unsaved t = unsaved s - {i} \<and> env t = env s"
begin

text \<open>The state between two operations of a client: nothing unsaved.\<close>

definition ready :: "'x set \<Rightarrow> ('i \<times> 'x) set \<Rightarrow> 's \<Rightarrow> bool" where
  "ready W H s \<longleftrightarrow> inv W s \<and> held s = H \<and> unsaved s = {}"

text \<open>Look at a block, and change a block: the two ways the clients use a buffer.\<close>

lemma take_block:
  assumes "ready W H s" "x \<in> W" "x \<notin> snd ` H" "content s x = Some d"
  shows "\<exists>i t. read x s = Some (i, t) \<and> data i t = Some d \<and> block d \<and> ready W (insert (i, x) H) t \<and> content t = content s \<and>
    env t = env s \<and> i \<notin> fst ` H"
proof -
  obtain i t where t: "read x s = Some (i, t)" "inv W t" "content t = content s" "held t = insert (i, x) (held s)"
    "unsaved t = unsaved s" "env t = env s" "i \<notin> fst ` held s"
    using read_law[of W s x d] assms unfolding ready_def by blast
  have "\<exists>d. data i t = Some d \<and> content t x = Some d \<and> block d" by (rule data_law[OF t(2)]) (simp add: t(4))
  then show ?thesis using t assms unfolding ready_def by auto
qed

lemma give_back:
  assumes "ready W (insert (i, x) H) s" "i \<notin> fst ` H"
  shows "\<exists>t. release i s = Some t \<and> ready W H t \<and> content t = content s \<and> env t = env s"
proof -
  have "{p \<in> insert (i, x) H. fst p \<noteq> i} = H" using assms(2) by force
  moreover have "inv W s" "(i, x) \<in> held s" "i \<notin> unsaved s" using assms(1) by (auto simp: ready_def)
  ultimately show ?thesis using release_law[of W s i x] assms(1) unfolding ready_def by metis
qed

lemma save_back:
  assumes "ready W (insert (i, x) H) s" "i \<notin> fst ` H" "block d"
  shows "\<exists>t u. set_data i d s = Some t \<and> write_over i t = Some u \<and> ready W H u \<and> content u = (content s)(x := Some d) \<and> env u = env s"
proof -
  have r: "{p \<in> insert (i, x) H. fst p \<noteq> i} = H" using assms(2) by force
  have h: "(i, x) \<in> held s" "inv W s" "unsaved s = {}" "held s = insert (i, x) H" using assms(1) by (auto simp: ready_def)
  obtain t where t: "set_data i d s = Some t" "inv W t" "content t = (content s)(x := Some d)" "held t = held s"
    "unsaved t \<subseteq> insert i (unsaved s)" "env t = env s" using set_data_law[OF h(2,1) assms(3)] by blast
  obtain u where u: "write_over i t = Some u" "inv W u" "content u = content t" "held u = {p \<in> held t. fst p \<noteq> i}"
    "unsaved u = unsaved t - {i}" "env u = env t" using write_over_law[OF t(2), of i x] h(1) t(4) by auto
  have "unsaved u = {}" using u(5) t(5) h(3) by auto
  then show ?thesis using t u r h unfolding ready_def by auto
qed

lemma look_at_block:
  assumes "ready W H s" "x \<in> W" "x \<notin> snd ` H" "content s x = Some d"
  shows "\<exists>i t u. read x s = Some (i, t) \<and> data i t = Some d \<and> block d \<and> release i t = Some u \<and> ready W H u \<and>
    content u = content s \<and> env u = env s"
  using take_block[OF assms] give_back by metis

lemma change_block:
  assumes "ready W H s" "x \<in> W" "x \<notin> snd ` H" "content s x = Some d" "block (f d)"
  shows "\<exists>i t u v. read x s = Some (i, t) \<and> data i t = Some d \<and> set_data i (f d) t = Some u \<and> write_over i u = Some v \<and>
    ready W H v \<and> content v = (content s)(x := Some (f d)) \<and> env v = env s"
  using take_block[OF assms(1-4)] save_back[OF _ _ assms(5)] by metis

end

interpretation bs: block_store "\<lambda>x. blk_read (fst x) (snd x)" buf_data set_buf_data blk_release blk_write_over cok view holds touched
  counters "\<lambda>d. length d = BLKSIZE"
  by unfold_locales (rule blk_read_ok buf_data_ok set_buf_data_ok[THEN ex_forward] blk_release_ok[THEN ex_forward]
    blk_write_over_ok[THEN ex_forward]; assumption?; blast?)+

section \<open>Writing everything back\<close>

lemma nobody_holds: "cache_inv s \<Longrightarrow> holds s = {} \<Longrightarrow> i < length (blkbuf s) \<Longrightarrow> \<not> b_mtx (B s i)"
  using cache_invD(1)[of s i] by (auto simp: holds_def cached_def buf_ok_def split: if_splits)

lemma sync_one_ok:
  assumes inv: "cache_inv s" and h: "holds s = {}" and i: "i < length (blkbuf s)"
  shows "\<exists>t. sync_one i s = Some t \<and> cache_inv t \<and> view t = view s \<and> holds t = {} \<and> counters t = counters s \<and>
    length (blkbuf t) = length (blkbuf s) \<and> (\<forall>x j. cached t x j = cached s x j) \<and> \<not> b_dirty (B t i) \<and> (\<forall>j. j \<noteq> i \<longrightarrow> B t j = B s j)"
proof -
  note D = cache_invD[OF inv]
  have m: "\<not> b_mtx (B s j)" if "j < length (blkbuf s)" for j by (rule nobody_holds[OF inv h that])
  have same: "(B s i)\<lparr>b_mtx := False\<rparr> = B s i" using m[OF i] by (cases "B s i") simp
  show ?thesis
  proof (cases "b_dirty (B s i)")
    case False
    have "sync_one i s = Some (set_buf i ((B s i)\<lparr>b_mtx := False\<rparr>) s)"
      using m[OF i] i False by (simp add: sync_one_def buf_lock_def buf_unlock_def get_buf_def set_buf_def)
    then have "sync_one i s = Some s" unfolding same by (simp add: set_buf_def)
    then show ?thesis using inv h False by auto
  next
    case True
    have ok: "buf_ok (storage s) (B s i)" by (rule D(1)[OF i])
    then have H: "b_hashed (B s i)" using True by (auto simp: buf_ok_def split: if_splits)
    then obtain d c where d: "b_data (B s i) = Some d" "length d = BLKSIZE" "b_valid (B s i)"
      "storage s (b_dev (B s i)) (b_blkno (B s i)) = Some c" using ok by (auto simp: buf_ok_def)
    let ?dev = "b_dev (B s i)" and ?blk = "b_blkno (B s i)"
    let ?b = "(B s i)\<lparr>b_valid := True, b_dirty := False, b_mtx := False\<rparr>"
    let ?st = "(storage s)(?dev := (storage s ?dev)(?blk := Some d))"
    let ?t = "s\<lparr>storage := ?st, blkbuf := (blkbuf s)[i := ?b]\<rparr>"
    have sy: "sync_one i s = Some ?t"
      using m[OF i] i True d by (simp add: sync_one_def buf_lock_def buf_unlock_def get_buf_def set_buf_def virtio_disk_write_def)
    have Bt: "B ?t j = (if j = i then ?b else B s j)" for j using i by (simp add: nth_list_update)
    have n: "length (blkbuf ?t) = length (blkbuf s)" by simp
    have K: "b_hashed (B ?t j) = b_hashed (B s j)" "key_of (B ?t j) = key_of (B s j)" "b_mtx (B ?t j) = (if j = i then False else b_mtx (B s j))" for j
      unfolding Bt by (simp_all add: key_of_def)
    have ct: "cached ?t x j \<longleftrightarrow> cached s x j" for x j unfolding cached_def K n ..
    have key: "key_of (B s i) = (?dev, ?blk)" by (simp add: key_of_def)
    have it: "cache_inv ?t"
      unfolding cache_inv_def
    proof (intro conjI allI impI)
      show "buf_ok (storage ?t) (B ?t j)" if jl: "j < length (blkbuf ?t)" for j
      proof (cases "j = i")
        case True
        show ?thesis unfolding Bt using True d H ok by (simp add: buf_ok_def m[OF i])
      next
        case False
        have ok: "buf_ok (storage s) (B s j)" by (rule D(1)) (use jl in simp)
        have "b_dev (B s j) \<noteq> ?dev \<or> b_blkno (B s j) \<noteq> ?blk" if "b_hashed (B s j)"
          using D(4)[of j i] that H False i jl by (auto simp: key_of_def)
        then have "b_hashed (B s j) \<Longrightarrow> ?st (b_dev (B s j)) (b_blkno (B s j)) = storage s (b_dev (B s j)) (b_blkno (B s j))" by auto
        then show ?thesis unfolding Bt using False ok by (simp add: buf_ok_def)
      qed
      show "length e = BLKSIZE" if "storage ?t dev blk = Some e" for dev blk e
        using that d(2) D(2)[of dev blk e] by (auto split: if_splits)
      show "j \<in> set (hash_bucket_table ?t k) \<longleftrightarrow> j < length (blkbuf ?t) \<and> b_hashed (B ?t j) \<and> hash_key (key_of (B ?t j)) = k" for j k
        unfolding K n using D(3)[of j k] by simp
      show "j = l" if "j < length (blkbuf ?t)" "l < length (blkbuf ?t)" "b_hashed (B ?t j) \<and> b_hashed (B ?t l) \<and> key_of (B ?t j) = key_of (B ?t l)" for j l
        using that unfolding K n using D(4)[of j l] by blast
      show "distinct (free_list ?t)" using D(5) by simp
      show "set (free_list ?t) = {j. j < length (blkbuf ?t) \<and> \<not> b_mtx (B ?t j)}" unfolding K n using D(6) m by auto
      show "\<exists>xs ys. free_list ?t = xs @ ys \<and> (\<forall>j\<in>set xs. b_hashed (B ?t j)) \<and> (\<forall>j\<in>set ys. \<not> b_hashed (B ?t j))"
        unfolding K using D(7) by simp
    qed
    have v: "view ?t = view s"
    proof
      fix x show "view ?t x = view s x"
      proof (cases "\<exists>j. cached s x j")
        case True
        then obtain j where j: "cached s x j" "cached ?t x j" unfolding ct by blast
        show ?thesis unfolding view_cached[OF it j(2)] view_cached[OF inv j(1)] Bt by simp
      next
        case False
        then have "\<forall>j. \<not> cached ?t x j" unfolding ct by blast
        moreover have "x \<noteq> (?dev, ?blk)" using False H i key by (auto simp: cached_def)
        ultimately show ?thesis using view_uncached[of ?t x] view_uncached[of s x] False by (cases x) auto
      qed
    qed
    have "holds ?t = {}" unfolding holds_def ct K using h unfolding holds_def by auto
    moreover have "\<not> b_dirty (B ?t i)" unfolding Bt by simp
    moreover have "j \<noteq> i \<longrightarrow> B ?t j = B s j" for j unfolding Bt by simp
    ultimately show ?thesis using sy it v ct by auto
  qed
qed

lemma sync_list_ok:
  assumes "cache_inv s" "holds s = {}" "\<forall>i\<in>set l. i < length (blkbuf s)"
  shows "\<exists>t. for_each sync_one l s = Some t \<and> cache_inv t \<and> view t = view s \<and> holds t = {} \<and> counters t = counters s \<and>
    length (blkbuf t) = length (blkbuf s) \<and> (\<forall>x j. cached t x j = cached s x j) \<and> (\<forall>i. i \<in> set l \<or> \<not> b_dirty (B s i) \<longrightarrow> \<not> b_dirty (B t i))"
  using assms
proof (induction l arbitrary: s)
  case (Cons i l)
  obtain u where u: "sync_one i s = Some u" "cache_inv u" "view u = view s" "holds u = {}" "counters u = counters s"
    "length (blkbuf u) = length (blkbuf s)" "\<And>x j. cached u x j = cached s x j" "\<not> b_dirty (B u i)" "\<And>j. j \<noteq> i \<Longrightarrow> B u j = B s j"
    using sync_one_ok[OF Cons.prems(1,2), of i] Cons.prems(3) by auto
  have lu: "\<forall>i\<in>set l. i < length (blkbuf u)" using Cons.prems(3) u(6) by simp
  obtain t where t: "for_each sync_one l u = Some t" "cache_inv t" "view t = view u" "holds t = {}" "counters t = counters u"
    "length (blkbuf t) = length (blkbuf u)" "\<And>x j. cached t x j = cached u x j" "\<And>i. i \<in> set l \<or> \<not> b_dirty (B u i) \<Longrightarrow> \<not> b_dirty (B t i)"
    using Cons.IH[OF u(2,4) lu] by blast
  have "\<not> b_dirty (B t j)" if "j \<in> set (i # l) \<or> \<not> b_dirty (B s j)" for j
    using that t(8)[of j] u(8) u(9)[of j] by (cases "j = i") auto
  then show ?case using u t by auto
qed auto

section \<open>Properties\<close>

text \<open>C7. As long as the blocks that are ever used number at most the buffers, so that no buffer is recycled from one block to another, the
  cache refines the disk it caches: a read finds in its buffer what the abstract disk holds (so the last write to the block, or the disk's content when there was none), a
  write changes the abstract disk at its block only, and neither touches the blocks that others hold.\<close>

theorem block_cache_refines_disk:
  assumes "bs.ready W H s" "(dev, blk) \<in> W" "(dev, blk) \<notin> snd ` H" "view s (dev, blk) = Some d" "length d' = BLKSIZE"
  shows "(\<exists>i t u. blk_read dev blk s = Some (i, t) \<and> buf_data i t = Some d \<and> blk_release i t = Some u \<and>
       bs.ready W H u \<and> view u = view s) \<and>
    (\<exists>i t u v. blk_read dev blk s = Some (i, t) \<and> set_buf_data i d' t = Some u \<and> blk_write_over i u = Some v \<and>
       bs.ready W H v \<and> view v = (view s)((dev, blk) := Some d'))"
  using bs.look_at_block[OF assms(1-4)] bs.change_block[OF assms(1-4), of "\<lambda>_. d'"] assms(5) by fastforce

text \<open>The cache after boot: nothing is cached, the abstract disk is the disk.\<close>

lemma foldl_rev: "foldl (\<lambda>l i. i # l) acc xs = rev xs @ acc"
  by (induction xs arbitrary: acc) simp_all

lemma blk_init_facts:
  assumes "\<And>dev blk c. d dev blk = Some c \<Longrightarrow> length c = BLKSIZE"
  shows "cache_inv (blk_init d page)" "cached (blk_init d page) x i \<longleftrightarrow> False" "holds (blk_init d page) = {}"
    "touched (blk_init d page) = {}" "view (blk_init d page) x = d (fst x) (snd x)" "length (blkbuf (blk_init d page)) = NBBUF"
proof -
  let ?s = "blk_init d page"
  show n: "length (blkbuf ?s) = NBBUF" by (simp add: blk_init_def del: replicate.simps upt_rec_numeral)
  have b: "b_hashed (B ?s i) = False" "b_mtx (B ?s i) = False" "b_dirty (B ?s i) = False"
    "b_valid (B ?s i) = False" "b_count (B ?s i) = 0" if "i < NBBUF" for i
    using that by (simp_all add: blk_init_def del: replicate.simps upt_rec_numeral)
  have st: "storage ?s = d" "hash_bucket_table ?s = (\<lambda>_. [])" "free_list ?s = rev [0..<NBBUF]"
    by (simp_all add: blk_init_def foldl_rev del: replicate.simps upt_rec_numeral)
  show u: "cached ?s x i \<longleftrightarrow> False" for x i unfolding cached_def n using b(1)[of i] by blast
  show "holds ?s = {}" by (simp add: holds_def u)
  show "touched ?s = {}" unfolding touched_def n using b(1) by blast
  show "view ?s x = d (fst x) (snd x)" using view_uncached[of ?s x] u st(1) by simp
  show "cache_inv ?s"
  proof (rule cache_invI[of _ "[]" "free_list ?s"], unfold n st)
    show "buf_ok d (B ?s i)" if "i < NBBUF" for i using b[OF that] by (simp add: buf_ok_def)
    show "length c = BLKSIZE" if "d dev blk = Some c" for dev blk c using that by (rule assms)
    show "i \<in> set [] \<longleftrightarrow> i < NBBUF \<and> b_hashed (B ?s i) \<and> hash_key (key_of (B ?s i)) = k" for k i
      using b(1)[of i] unfolding list.set by blast
    show "i = j" if "i < NBBUF" "b_hashed (B ?s i)" for i j using b(1)[OF that(1)] that(2) by simp
    show "set (rev [0..<NBBUF]) = {i. i < NBBUF \<and> \<not> b_mtx (B ?s i)}" unfolding set_rev set_upt using b(2) by (auto simp del: upt_rec_numeral)
    show "\<forall>i\<in>set (rev [0..<NBBUF]). \<not> b_hashed (B ?s i)" unfolding set_rev set_upt using b(1) by simp
    show "distinct (rev [0..<NBBUF])" unfolding distinct_rev by (rule distinct_upt)
  qed simp_all
qed

text \<open>The booted cache over a disk of three blocks, and a cache whose only buffer holds a changed block.\<close>

definition zeros_disk :: "u32 \<Rightarrow> u32 \<Rightarrow> byte list option" where
  "zeros_disk dev blk = (if dev = 0 \<and> blk < 3 then Some (replicate BLKSIZE (ucast blk)) else None)"

abbreviation small_cache :: blk_cache_t where "small_cache \<equiv> blk_init zeros_disk []"

definition used_buffer :: blk_cache_t where
  "used_buffer = \<lparr>blkbuf = [\<lparr>b_dev = 0, b_blkno = 1, b_valid = True, b_dirty = True, b_hashed = True,
       b_count = 0, b_mtx = False, b_data = Some (replicate BLKSIZE 7)\<rparr>], free_list = [0],
     hash_bucket_table = (\<lambda>k. if k = 1 then [0] else []), syncing = 0, rw_operating = 0, storage = zeros_disk, fresh_page = []\<rparr>"

lemma small_cache_facts:
  "cache_inv small_cache" "cached small_cache x i \<longleftrightarrow> False" "holds small_cache = {}" "touched small_cache = {}"
  "view small_cache x = zeros_disk (fst x) (snd x)" "length (blkbuf small_cache) = NBBUF" "rw_operating small_cache = 0"
proof -
  have z: "length c = BLKSIZE" if "zeros_disk dev blk = Some c" for dev blk c using that by (auto simp: zeros_disk_def split: if_splits)
  show "cache_inv small_cache" "cached small_cache x i \<longleftrightarrow> False" "holds small_cache = {}" "touched small_cache = {}"
    "view small_cache x = zeros_disk (fst x) (snd x)" "length (blkbuf small_cache) = NBBUF"
    by (rule blk_init_facts[OF z]; assumption?)+
  show "rw_operating small_cache = 0" by (simp add: blk_init_def)
qed

definition whole_blocks :: "(u32 \<Rightarrow> u32 \<Rightarrow> byte list option) \<Rightarrow> bool" where
  "whole_blocks d \<longleftrightarrow> (\<forall>dev blk c. d dev blk = Some c \<longrightarrow> length c = BLKSIZE)"

lemma blk_init_ready:
  assumes "whole_blocks d" "finite W" "card W \<le> NBBUF"
  shows "bs.ready W {} (blk_init d page)"
  unfolding bs.ready_def cok_def using blk_init_facts[OF assms(1)[unfolded whole_blocks_def, rule_format]] assms(2,3) by auto

lemma small_cache_ready: "finite W \<Longrightarrow> card W \<le> NBBUF \<Longrightarrow> bs.ready W {} small_cache"
  by (rule blk_init_ready) (auto simp: whole_blocks_def zeros_disk_def split: if_splits)

lemma used_buffer_facts:
  "cache_inv used_buffer" "cached used_buffer x i \<longleftrightarrow> x = (0, 1) \<and> i = 0"
proof -
  have n: "length (blkbuf used_buffer) = 1" "B used_buffer 0 = \<lparr>b_dev = 0, b_blkno = 1, b_valid = True, b_dirty = True, b_hashed = True,
       b_count = 0, b_mtx = False, b_data = Some (replicate BLKSIZE 7)\<rparr>" "free_list used_buffer = [0]"
    "storage used_buffer = zeros_disk" "hash_bucket_table used_buffer = (\<lambda>k. if k = 1 then [0] else [])"
    by (simp_all add: used_buffer_def del: replicate.simps)
  show "cached used_buffer x i \<longleftrightarrow> x = (0, 1) \<and> i = 0" by (cases "i = 0") (auto simp: cached_def n key_of_def)
  show "cache_inv used_buffer"
  proof (rule cache_invI[of _ "[0]" "[]"], unfold n(1))
    show "buf_ok (storage used_buffer) (B used_buffer i)" if "i < 1" for i using that by (simp add: n buf_ok_def zeros_disk_def)
    show "length c = BLKSIZE" if "storage used_buffer dev blk = Some c" for dev blk c
      using that by (auto simp: n zeros_disk_def split: if_splits)
    show "i \<in> set (hash_bucket_table used_buffer k) \<longleftrightarrow> i < 1 \<and> b_hashed (B used_buffer i) \<and> hash_key (key_of (B used_buffer i)) = k" for k i
      by (cases "i = 0") (auto simp: n key_of_def hash_key_def hashfn_def)
  qed (auto simp: n)
qed

lemma block_cache_refines_disk_witness:
  "\<exists>i t u v. blk_read 0 1 small_cache = Some (i, t) \<and> set_buf_data i (replicate BLKSIZE 5) t = Some u \<and>
     blk_write_over i u = Some v \<and> view v (0, 1) = Some (replicate BLKSIZE 5) \<and> view v (0, 2) = Some (replicate BLKSIZE 2)"
proof -
  have r: "bs.ready {(0, 1)} {} small_cache" by (rule small_cache_ready) simp_all
  have "view small_cache (0, 1) = Some (replicate BLKSIZE 1)" "view small_cache (0, 2) = Some (replicate BLKSIZE 2)"
    by (simp_all add: small_cache_facts(5) zeros_disk_def del: replicate.simps)
  then show ?thesis
    using block_cache_refines_disk[OF r, of 0 1 "replicate BLKSIZE 1" "replicate BLKSIZE 5"] by (auto simp del: replicate.simps)
qed



text \<open>C34. When the LRU buffer already held another block, its old content is taken for the new block: \<open>getblk\<close> does not
  clear \<open>b_valid\<close>, so nothing is read from the disk, and the write-back in \<open>blk_read\<close> compares the new numbers with
  themselves, so a change to the old block is not written, and goes to the new block's place later.\<close>

theorem recycled_buffer_is_stale:
  assumes inv: "cache_inv s" and u: "\<forall>i. \<not> cached s (dev, blk) i" and ne: "free_list s \<noteq> []"
    and h: "b_hashed (B s (last (free_list s)))"
  shows "\<exists>t. blk_read dev blk s = Some (last (free_list s), t) \<and>
    buf_data (last (free_list s)) t = view s (key_of (B s (last (free_list s)))) \<and> storage t = storage s \<and>
    key_of (B t (last (free_list s))) = (dev, blk) \<and> b_dirty (B t (last (free_list s))) = b_dirty (B s (last (free_list s)))"
proof -
  define i where "i = last (free_list s)"
  have i: "i < length (blkbuf s)" "\<not> b_mtx (B s i)" using cache_invD(6)[OF inv, of i] last_in_set[OF ne] by (simp_all add: i_def)
  obtain d where d: "b_data (B s i) = Some d" "b_valid (B s i)" "b_count (B s i) = 0"
    using cache_invD(1)[OF inv i(1)] h i(2) by (auto simp: buf_ok_def i_def)
  have c: "cached s (key_of (B s i)) i" using h i by (simp add: cached_def i_def)
  have v: "view s (key_of (B s i)) = Some d" using view_cached[OF inv c] d(1) by simp
  have fb: "find_buffer_inhash dev blk s = Some None" by (rule find_buffer_eq(2)[OF inv u])
  show ?thesis unfolding i_def[symmetric] v
    using fb ne i d by (simp add: blk_read_def getblk_def get_LRU_blk_def i_def[symmetric] rmold_then_insert_newhash_def
      get_buf_def set_buf_def buf_lock_def buf_data_def key_of_def Let_def)
qed

lemma recycled_buffer_is_stale_witness:
  "\<exists>t. blk_read 0 2 used_buffer = Some (0, t) \<and> buf_data 0 t = Some (replicate BLKSIZE 7) \<and>
     storage t 0 2 = Some (replicate BLKSIZE 2)"
proof -
  have f: "free_list used_buffer = [0]" "b_hashed (B used_buffer 0)" "key_of (B used_buffer 0) = (0, 1)"
    "storage used_buffer 0 2 = Some (replicate BLKSIZE 2)" "b_data (B used_buffer 0) = Some (replicate BLKSIZE 7)"
    by (simp_all add: used_buffer_def zeros_disk_def key_of_def del: replicate.simps)
  have u: "\<forall>i. \<not> cached used_buffer (0, 2) i" by (simp add: used_buffer_facts)
  have "cached used_buffer (0, 1) 0" by (simp add: used_buffer_facts)
  then have v: "view used_buffer (0, 1) = Some (replicate BLKSIZE 7)" using view_cached[OF used_buffer_facts(1)] f(5) by simp
  show ?thesis using recycled_buffer_is_stale[OF used_buffer_facts(1) u] f v by auto
qed

end
