(* ===== verification/Ext2_Base.thy ===== *)
theory Ext2_Base
  imports Blkbuf
begin

text \<open>
  The state of the file system (fs/ext2fs.h): superblock, group descriptors and the inode table, over the block
  cache. Superblock, descriptors and inodes are the bytes that \<open>memcpy\<close> moves between them and the blocks; a field
  is read at its offset in the packed structure. An inode's pointer is its number in the table.
\<close>

section \<open>State\<close>

record m_inode_t =
  d_inode_ctnt :: "byte list"
  i_mtx :: bool
  i_dev :: u32
  i_no :: u32
  i_block_group :: u32
  i_dirty :: bool
  i_valid :: bool
  i_count :: u16

record fs =
  cache :: blk_cache_t
  d_sb_ctnt :: "byte list"
  sb_dev :: u32
  group_descs_table :: "byte list"
  m_inodes :: "m_inode_t list"

text \<open>Fields of the superblock, of the descriptor of group \<open>g\<close>, of an inode.\<close>

definition s_blocks_count :: "fs \<Rightarrow> u32" where "s_blocks_count f = get32 (d_sb_ctnt f) 4"
definition s_log_block_size :: "fs \<Rightarrow> u32" where "s_log_block_size f = get32 (d_sb_ctnt f) 24"
definition s_blocks_per_group :: "fs \<Rightarrow> u32" where "s_blocks_per_group f = get32 (d_sb_ctnt f) 32"
definition s_inodes_per_group :: "fs \<Rightarrow> u32" where "s_inodes_per_group f = get32 (d_sb_ctnt f) 40"
definition s_magic :: "fs \<Rightarrow> u16" where "s_magic f = get16 (d_sb_ctnt f) 56"
definition s_inode_size :: "fs \<Rightarrow> u16" where "s_inode_size f = get16 (d_sb_ctnt f) 88"

definition bg_block_bitmap :: "fs \<Rightarrow> nat \<Rightarrow> u32" where "bg_block_bitmap f g = get32 (group_descs_table f) (32 * g)"
definition bg_inode_bitmap :: "fs \<Rightarrow> nat \<Rightarrow> u32" where "bg_inode_bitmap f g = get32 (group_descs_table f) (32 * g + 4)"
definition bg_inode_table :: "fs \<Rightarrow> nat \<Rightarrow> u32" where "bg_inode_table f g = get32 (group_descs_table f) (32 * g + 8)"

definition i_mode :: "m_inode_t \<Rightarrow> u16" where "i_mode ip = get16 (d_inode_ctnt ip) 0"
definition i_size :: "m_inode_t \<Rightarrow> u32" where "i_size ip = get32 (d_inode_ctnt ip) 4"
definition i_links_count :: "m_inode_t \<Rightarrow> u16" where "i_links_count ip = get16 (d_inode_ctnt ip) 26"
definition i_blocks :: "m_inode_t \<Rightarrow> u32" where "i_blocks ip = get32 (d_inode_ctnt ip) 28"
definition i_block :: "m_inode_t \<Rightarrow> nat \<Rightarrow> u32" where "i_block ip k = get32 (d_inode_ctnt ip) (40 + 4 * k)"

definition set_i_size :: "u32 \<Rightarrow> m_inode_t \<Rightarrow> m_inode_t" where
  "set_i_size v ip = ip\<lparr>d_inode_ctnt := put32 (d_inode_ctnt ip) 4 v\<rparr>"
definition set_i_blocks :: "u32 \<Rightarrow> m_inode_t \<Rightarrow> m_inode_t" where
  "set_i_blocks v ip = ip\<lparr>d_inode_ctnt := put32 (d_inode_ctnt ip) 28 v\<rparr>"
definition set_i_block :: "nat \<Rightarrow> u32 \<Rightarrow> m_inode_t \<Rightarrow> m_inode_t" where
  "set_i_block k v ip = ip\<lparr>d_inode_ctnt := put32 (d_inode_ctnt ip) (40 + 4 * k) v\<rparr>"

abbreviation (input) EXT2_GRP_NUM :: nat where "EXT2_GRP_NUM \<equiv> 2"
abbreviation (input) EXT2_NAME_LEN :: nat where "EXT2_NAME_LEN \<equiv> 255"
abbreviation (input) NINODE :: nat where "NINODE \<equiv> 512"

section \<open>The block cache under the file system\<close>

definition bread :: "u32 \<Rightarrow> u32 \<Rightarrow> fs \<Rightarrow> (nat \<times> fs) option" where
  "bread dev blk f = do { (i, c) \<leftarrow> blk_read dev blk (cache f); Some (i, f\<lparr>cache := c\<rparr>) }"

definition bdata :: "nat \<Rightarrow> fs \<Rightarrow> byte list option" where
  "bdata i f = buf_data i (cache f)"

definition bset :: "nat \<Rightarrow> byte list \<Rightarrow> fs \<Rightarrow> fs option" where
  "bset i d f = do { c \<leftarrow> set_buf_data i d (cache f); Some (f\<lparr>cache := c\<rparr>) }"

definition brelse :: "nat \<Rightarrow> fs \<Rightarrow> fs option" where
  "brelse i f = do { c \<leftarrow> blk_release i (cache f); Some (f\<lparr>cache := c\<rparr>) }"

definition bwrite :: "nat \<Rightarrow> fs \<Rightarrow> fs option" where
  "bwrite i f = do { c \<leftarrow> blk_write_over i (cache f); Some (f\<lparr>cache := c\<rparr>) }"

definition disk :: "fs \<Rightarrow> u32 \<times> u32 \<Rightarrow> byte list option" where
  "disk f = view (cache f)"

definition fs_rest :: "fs \<Rightarrow> (u32 \<times> u32) \<times> byte list \<times> u32 \<times> byte list \<times> m_inode_t list" where
  "fs_rest f = (counters (cache f), d_sb_ctnt f, sb_dev f, group_descs_table f, m_inodes f)"

interpretation fb: block_store "\<lambda>x. bread (fst x) (snd x)" bdata bset brelse bwrite "\<lambda>W f. cok W (cache f)" disk
  "\<lambda>f. holds (cache f)" "\<lambda>f. touched (cache f)" fs_rest "\<lambda>d. length d = BLKSIZE"
proof unfold_locales
  fix W and f :: fs and x d
  assume a: "cok W (cache f)" "x \<in> W" "x \<notin> snd ` holds (cache f)" "disk f x = Some d"
  then show "\<exists>i t. bread (fst x) (snd x) f = Some (i, t) \<and> cok W (cache t) \<and> disk t = disk f \<and>
      holds (cache t) = insert (i, x) (holds (cache f)) \<and> touched (cache t) = touched (cache f) \<and> fs_rest t = fs_rest f \<and>
      i \<notin> fst ` holds (cache f)"
    using bs.read_law[of W "cache f" x d] unfolding bread_def disk_def fs_rest_def by fastforce
next
  fix W and f :: fs and i x
  assume "cok W (cache f)" "(i, x) \<in> holds (cache f)"
  then show "\<exists>d. bdata i f = Some d \<and> disk f x = Some d \<and> length d = BLKSIZE"
    using bs.data_law[of W "cache f" i x] unfolding bdata_def disk_def by blast
next
  fix W and f :: fs and i x and d :: "byte list"
  assume "cok W (cache f)" "(i, x) \<in> holds (cache f)" "length d = BLKSIZE"
  then show "\<exists>t. bset i d f = Some t \<and> cok W (cache t) \<and> disk t = (disk f)(x \<mapsto> d) \<and> holds (cache t) = holds (cache f) \<and>
      touched (cache t) \<subseteq> insert i (touched (cache f)) \<and> fs_rest t = fs_rest f"
    using bs.set_data_law[of W "cache f" i x d] unfolding bset_def disk_def fs_rest_def by fastforce
next
  fix W and f :: fs and i x
  assume "cok W (cache f)" "(i, x) \<in> holds (cache f)" "i \<notin> touched (cache f)"
  then show "\<exists>t. brelse i f = Some t \<and> cok W (cache t) \<and> disk t = disk f \<and> holds (cache t) = {p \<in> holds (cache f). fst p \<noteq> i} \<and>
      touched (cache t) = touched (cache f) \<and> fs_rest t = fs_rest f"
    using bs.release_law[of W "cache f" i x] unfolding brelse_def disk_def fs_rest_def by fastforce
next
  fix W and f :: fs and i x
  assume "cok W (cache f)" "(i, x) \<in> holds (cache f)"
  then show "\<exists>t. bwrite i f = Some t \<and> cok W (cache t) \<and> disk t = disk f \<and> holds (cache t) = {p \<in> holds (cache f). fst p \<noteq> i} \<and>
      touched (cache t) = touched (cache f) - {i} \<and> fs_rest t = fs_rest f"
    using bs.write_over_law[of W "cache f" i x] unfolding bwrite_def disk_def fs_rest_def by fastforce
qed

lemma fs_restD:
  assumes "fs_rest t = fs_rest f"
  shows "counters (cache t) = counters (cache f)" "d_sb_ctnt t = d_sb_ctnt f" "sb_dev t = sb_dev f"
    "group_descs_table t = group_descs_table f" "m_inodes t = m_inodes f"
    "s_blocks_per_group t = s_blocks_per_group f" "s_inodes_per_group t = s_inodes_per_group f"
    "bg_block_bitmap t = bg_block_bitmap f" "bg_inode_bitmap t = bg_inode_bitmap f" "bg_inode_table t = bg_inode_table f"
  using assms by (simp_all add: fs_rest_def fun_eq_iff s_blocks_per_group_def s_inodes_per_group_def bg_block_bitmap_def
      bg_inode_bitmap_def bg_inode_table_def)

end
