(* ===== verification/Ext2_Bitmap.thy ===== *)
theory Ext2_Bitmap
  imports Ext2_Base
begin

text \<open>
  The allocation bitmaps of the file system: the bit search, the allocation of blocks (\<open>balloc\<close>, \<open>bfree\<close>) and the
  freeing of inode numbers (\<open>ifree\<close>). A result \<open>-1\<close> of the source is \<open>-1\<close> here.
\<close>

section \<open>Bits\<close>

fun search_bytes :: "byte list \<Rightarrow> int \<Rightarrow> int" where
  "search_bytes [] idx = -1"
| "search_bytes (c # cs) idx =
     (case find (\<lambda>j. NOT c AND push_bit j 1 \<noteq> 0) [0..<8] of
        Some j \<Rightarrow> idx + int j
      | None \<Rightarrow> search_bytes cs (idx + 8))"

definition search_free_bit :: "byte list \<Rightarrow> nat \<Rightarrow> int" where
  "search_free_bit start sz = search_bytes (take sz start) 0"

definition set_allocated_bit :: "byte list \<Rightarrow> nat \<Rightarrow> byte list option" where
  "set_allocated_bit start location = do {
     c \<leftarrow> nth_opt start (location div 8);
     upd_opt start (location div 8) (c OR push_bit (location mod 8) 1) }"

definition clear_allocated_bit :: "byte list \<Rightarrow> nat \<Rightarrow> byte list option" where
  "clear_allocated_bit start location = do {
     c \<leftarrow> nth_opt start (location div 8);
     upd_opt start (location div 8) (c AND NOT (push_bit (location mod 8) 1)) }"

section \<open>Blocks\<close>

text \<open>The loop over the other groups; \<open>bnum\<close> counts only the groups that were searched.\<close>

fun balloc_others :: "u32 \<Rightarrow> nat \<Rightarrow> nat list \<Rightarrow> int \<Rightarrow> fs \<Rightarrow> (int \<times> fs) option" where
  "balloc_others dev grp_no [] bnum f = Some (-1, f)"
| "balloc_others dev grp_no (g_idx # gs) bnum f =
     (if g_idx = grp_no then balloc_others dev grp_no gs bnum f
      else do {
        (bb, f1) \<leftarrow> bread dev (bg_block_bitmap f g_idx) f;
        d \<leftarrow> bdata bb f1;
        let freeno = search_free_bit d BLKSIZE;
        if freeno \<noteq> -1 then do {
          d' \<leftarrow> set_allocated_bit d (nat freeno);
          f2 \<leftarrow> bset bb d' f1;
          f3 \<leftarrow> bwrite bb f2;
          Some (freeno + bnum, f3) }
        else do {
          f2 \<leftarrow> brelse bb f1;
          balloc_others dev grp_no gs (bnum + uint (s_blocks_per_group f)) f2 } })"

definition balloc :: "u32 \<Rightarrow> u32 \<Rightarrow> fs \<Rightarrow> (int \<times> fs) option" where
  "balloc dev grp_no f = do {
     (bb, f1) \<leftarrow> bread dev (bg_block_bitmap f (unat grp_no)) f;
     d \<leftarrow> bdata bb f1;
     let freeno = search_free_bit d BLKSIZE;
     if freeno \<noteq> -1 then do {
       d' \<leftarrow> set_allocated_bit d (nat freeno);
       f2 \<leftarrow> bset bb d' f1;
       f3 \<leftarrow> bwrite bb f2;
       Some (freeno + uint (s_blocks_per_group f * grp_no), f3) }
     else do {
       f2 \<leftarrow> brelse bb f1;
       balloc_others dev (unat grp_no) [0..<EXT2_GRP_NUM] 0 f2 } }"

definition bfree :: "u32 \<Rightarrow> u32 \<Rightarrow> fs \<Rightarrow> fs option" where
  "bfree dev blk_no f = do {
     let g_idx = blk_no div s_blocks_per_group f;
     let blk_offset = blk_no mod s_blocks_per_group f;
     (bb, f1) \<leftarrow> bread dev (bg_block_bitmap f (unat g_idx)) f;
     d \<leftarrow> bdata bb f1;
     d' \<leftarrow> clear_allocated_bit d (unat blk_offset);
     f2 \<leftarrow> bset bb d' f1;
     bwrite bb f2 }"

text \<open>\<open>ifree\<close> takes the group from the number itself, not from the number less one.\<close>

definition ifree :: "u32 \<Rightarrow> u32 \<Rightarrow> fs \<Rightarrow> fs option" where
  "ifree dev ino f = do {
     let g_idx = ino div s_inodes_per_group f;
     let i_offset = (ino - 1) mod s_inodes_per_group f;
     (bb, f1) \<leftarrow> bread dev (bg_inode_bitmap f (unat g_idx)) f;
     d \<leftarrow> bdata bb f1;
     d' \<leftarrow> clear_allocated_bit d (unat i_offset);
     f2 \<leftarrow> bset bb d' f1;
     bwrite bb f2 }"

section \<open>What the bit operations do\<close>

definition bitmap :: "byte list \<Rightarrow> nat \<Rightarrow> bool" where
  "bitmap b k \<longleftrightarrow> bit (b ! (k div 8)) (k mod 8)"

lemma free_bit_test: "j < 8 \<Longrightarrow> (NOT c AND push_bit j 1 \<noteq> 0) \<longleftrightarrow> \<not> bit (c :: byte) j"
proof -
  assume j: "j < 8"
  have "NOT c AND push_bit j 1 = (if bit c j then 0 else push_bit j 1)"
    by (rule bit_word_eqI) (use j in \<open>auto simp: bit_simps\<close>)
  moreover have "push_bit j (1 :: byte) \<noteq> 0" using j by simp
  ultimately show ?thesis by simp
qed

lemma search_bytes_props:
  "search_bytes cs idx = -1 \<and> 0 \<le> idx \<Longrightarrow> k < 8 * length cs \<Longrightarrow> bitmap cs k"
  "0 \<le> idx \<Longrightarrow> search_bytes cs idx = r \<Longrightarrow> r \<noteq> -1 \<Longrightarrow>
     idx \<le> r \<and> nat (r - idx) < 8 * length cs \<and> \<not> bitmap cs (nat (r - idx)) \<and> (\<forall>k<nat (r - idx). bitmap cs k)"
proof (induction cs arbitrary: idx k r)
  case Nil
  { case 1 then show ?case by simp }
  { case 2 then show ?case by simp }
next
  case (Cons c cs)
  have low: "bitmap (c # cs) k = bit c k" if "k < 8" for k using that by (simp add: bitmap_def)
  have high: "bitmap (c # cs) k = bitmap cs (k - 8)" if "8 \<le> k" for k
  proof -
    have "k = (k - 8) + 8" using that by simp
    then have "k div 8 = Suc ((k - 8) div 8)" "k mod 8 = (k - 8) mod 8" by (metis div_add_self2 zero_neq_numeral Suc_eq_plus1, metis mod_add_self2)
    then show ?thesis by (simp add: bitmap_def)
  qed
  let ?f = "find (\<lambda>j. NOT c AND push_bit j 1 \<noteq> 0) [0..<8]"
  have none: "bit c j" if "?f = None" "j < 8" for j
  proof -
    have "\<not> (NOT c AND push_bit j 1 \<noteq> 0)" using that unfolding find_None_iff by (metis atLeastLessThan_iff set_upt zero_le)
    then show ?thesis using free_bit_test[OF that(2), of c] by simp
  qed
  have some: "j < 8 \<and> \<not> bit c j \<and> (\<forall>k<j. bit c k)" if s: "?f = Some j" for j
  proof -
    from s obtain i where i: "i < 8" "NOT c AND push_bit i 1 \<noteq> 0" "j = i" "\<forall>k<i. \<not> (NOT c AND push_bit k 1 \<noteq> 0)"
      unfolding find_Some_iff by (auto simp del: upt_rec_numeral)
    have "bit c k" if "k < i" for k using i(1,4) that free_bit_test[of k c] by force
    then show ?thesis using i free_bit_test[OF i(1), of c] by auto
  qed
  { case 1
    then have n: "?f = None" "search_bytes cs (idx + 8) = -1" by (auto split: option.splits simp del: upt_rec_numeral)
    show ?case
    proof (cases "k < 8")
      case True then show ?thesis using low none[OF n(1)] by simp
    next
      case False
      then have "bitmap cs (k - 8)" using Cons.IH(1)[of "idx + 8" "k - 8"] n(2) 1 by auto
      then show ?thesis using high False by simp
    qed }
  { case 2
    show ?case
    proof (cases ?f)
      case None
      then have r: "search_bytes cs (idx + 8) = r" using 2 by (simp del: upt_rec_numeral)
      have I: "idx + 8 \<le> r \<and> nat (r - (idx + 8)) < 8 * length cs \<and> \<not> bitmap cs (nat (r - (idx + 8))) \<and> (\<forall>k<nat (r - (idx + 8)). bitmap cs k)"
        using Cons.IH(2)[OF _ r] 2 by simp
      have e: "nat (r - idx) - 8 = nat (r - (idx + 8))" "8 \<le> nat (r - idx)" using I by linarith+
      have "bitmap (c # cs) k" if "k < nat (r - idx)" for k
      proof (cases "k < 8")
        case True then show ?thesis using low none[OF None] by simp
      next
        case False
        then have "k - 8 < nat (r - (idx + 8))" using that e by linarith
        then show ?thesis using I high False by simp
      qed
      moreover have "\<not> bitmap (c # cs) (nat (r - idx))" using I high[OF e(2)] e(1) by simp
      ultimately show ?thesis using I e by (intro conjI) (linarith | simp)+
    next
      case (Some j)
      then have "r = idx + int j" using 2 by (simp del: upt_rec_numeral)
      then show ?thesis using some[OF Some] low by auto
    qed }
qed

lemma search_free_bit_props:
  assumes "length d = BLKSIZE"
  shows "search_free_bit d BLKSIZE = -1 \<Longrightarrow> k < 8 * BLKSIZE \<Longrightarrow> bitmap d k"
    "search_free_bit d BLKSIZE \<noteq> -1 \<Longrightarrow> \<exists>k. search_free_bit d BLKSIZE = int k \<and> k < 8 * BLKSIZE \<and> \<not> bitmap d k \<and> (\<forall>j<k. bitmap d j)"
proof -
  have t: "take BLKSIZE d = d" using assms by simp
  show "search_free_bit d BLKSIZE = -1 \<Longrightarrow> k < 8 * BLKSIZE \<Longrightarrow> bitmap d k"
    using search_bytes_props(1)[of d 0 k] assms unfolding search_free_bit_def t by simp
  show "search_free_bit d BLKSIZE \<noteq> -1 \<Longrightarrow> \<exists>k. search_free_bit d BLKSIZE = int k \<and> k < 8 * BLKSIZE \<and> \<not> bitmap d k \<and> (\<forall>j<k. bitmap d j)"
    using search_bytes_props(2)[of 0 d "search_bytes d 0"] assms unfolding search_free_bit_def t
    by (intro exI[of _ "nat (search_bytes d 0)"]) simp
qed

lemma bit_at:
  assumes "loc div 8 < length b"
  shows "bitmap (b[loc div 8 := c]) k = (if k div 8 = loc div 8 then bit c (k mod 8) else bitmap b k)"
  using assms by (simp add: bitmap_def nth_list_update)

lemma same_byte: "k div 8 = loc div 8 \<Longrightarrow> (k mod 8 = loc mod 8) = (k = (loc :: nat))"
  by (metis mod_div_mult_eq)

lemma set_allocated_bit_ok:
  assumes "loc < 8 * length b"
  shows "\<exists>b'. set_allocated_bit b loc = Some b' \<and> length b' = length b \<and> (\<forall>k. bitmap b' k \<longleftrightarrow> bitmap b k \<or> k = loc)"
proof -
  have l: "loc div 8 < length b" using assms by auto
  have "bitmap (b[loc div 8 := b ! (loc div 8) OR push_bit (loc mod 8) 1]) k \<longleftrightarrow> bitmap b k \<or> k = loc" for k
  proof (cases "k div 8 = loc div 8")
    case True
    have "bit (b ! (loc div 8) OR push_bit (loc mod 8) 1) (k mod 8) \<longleftrightarrow> bit (b ! (loc div 8)) (k mod 8) \<or> k mod 8 = loc mod 8"
      by (auto simp: bit_simps)
    then show ?thesis unfolding bit_at[OF l] using True same_byte[OF True] by (simp add: bitmap_def)
  next
    case False
    then show ?thesis unfolding bit_at[OF l] by auto
  qed
  then show ?thesis using l by (simp add: set_allocated_bit_def)
qed

lemma clear_allocated_bit_ok:
  assumes "loc < 8 * length b"
  shows "\<exists>b'. clear_allocated_bit b loc = Some b' \<and> length b' = length b \<and> (\<forall>k. bitmap b' k \<longleftrightarrow> bitmap b k \<and> k \<noteq> loc)"
proof -
  have l: "loc div 8 < length b" using assms by auto
  have "bitmap (b[loc div 8 := b ! (loc div 8) AND NOT (push_bit (loc mod 8) 1)]) k \<longleftrightarrow> bitmap b k \<and> k \<noteq> loc" for k
  proof (cases "k div 8 = loc div 8")
    case True
    have "k mod 8 < 8" by simp
    then have "bit (b ! (loc div 8) AND NOT (push_bit (loc mod 8) 1)) (k mod 8) \<longleftrightarrow> bit (b ! (loc div 8)) (k mod 8) \<and> k mod 8 \<noteq> loc mod 8"
      by (auto simp: bit_simps)
    then show ?thesis unfolding bit_at[OF l] using True same_byte[OF True] by (simp add: bitmap_def)
  next
    case False
    then show ?thesis unfolding bit_at[OF l] by auto
  qed
  then show ?thesis using l by (simp add: clear_allocated_bit_def)
qed

text \<open>A bitmap is determined by its bits.\<close>

lemma bitmap_eqI:
  assumes "length a = length b" "\<And>k. k < 8 * length b \<Longrightarrow> bitmap a k = bitmap b k"
  shows "a = b"
proof (rule nth_equalityI)
  show "length a = length b" by (rule assms(1))
  fix i assume i: "i < length a"
  show "a ! i = b ! i"
  proof (rule bit_word_eqI)
    fix n assume "n < LENGTH(8)"
    then have n: "n < 8" by simp
    have "(8 * i + n) div 8 = i" "(8 * i + n) mod 8 = n" using n by simp_all
    moreover have "8 * i + n < 8 * length b" using i assms(1) n by simp
    ultimately show "bit (a ! i) n \<longleftrightarrow> bit (b ! i) n" using assms(2)[of "8 * i + n"] by (simp add: bitmap_def)
  qed
qed

section \<open>Allocation of blocks\<close>

text \<open>The block \<open>n\<close> is allocated when its bit is set in the bitmap of its group. The groups have as many blocks as a
  bitmap block has bits.\<close>

abbreviation (input) BPG :: nat where "BPG \<equiv> 32768"

definition block_used :: "fs \<Rightarrow> u32 \<Rightarrow> nat \<Rightarrow> bool" where
  "block_used f dev n \<longleftrightarrow> (\<exists>d. disk f (dev, bg_block_bitmap f (n div BPG)) = Some d \<and> bitmap d (n mod BPG))"

definition bitmaps_ok :: "(u32 \<times> u32) set \<Rightarrow> (nat \<times> u32 \<times> u32) set \<Rightarrow> u32 \<Rightarrow> fs \<Rightarrow> bool" where
  "bitmaps_ok W H dev f \<longleftrightarrow> s_blocks_per_group f = 32768 \<and> bg_block_bitmap f 0 \<noteq> bg_block_bitmap f 1 \<and>
     (\<forall>g<EXT2_GRP_NUM. (dev, bg_block_bitmap f g) \<in> W \<and> (dev, bg_block_bitmap f g) \<notin> snd ` H \<and>
        (\<exists>d. disk f (dev, bg_block_bitmap f g) = Some d \<and> length d = BLKSIZE))"

lemma bitmaps_okD:
  assumes "bitmaps_ok W H dev f" "g < EXT2_GRP_NUM"
  shows "s_blocks_per_group f = 32768" "(dev, bg_block_bitmap f g) \<in> W" "(dev, bg_block_bitmap f g) \<notin> snd ` H"
    "\<exists>d. disk f (dev, bg_block_bitmap f g) = Some d \<and> length d = BLKSIZE"
  using assms unfolding bitmaps_ok_def by blast+

lemma bitmaps_distinct:
  assumes "bitmaps_ok W H dev f" "g < EXT2_GRP_NUM" "g' < EXT2_GRP_NUM" "g \<noteq> g'"
  shows "bg_block_bitmap f g \<noteq> bg_block_bitmap f g'"
proof -
  have "g = 0 \<and> g' = 1 \<or> g = 1 \<and> g' = 0" using assms(2-4) by linarith
  then show ?thesis using assms(1) unfolding bitmaps_ok_def by auto
qed

text \<open>Taking the first free bit of the bitmap of group \<open>g\<close>.\<close>

lemma take_first_free:
  assumes r: "fb.ready W H f" and ok: "bitmaps_ok W H dev f" and g: "g < EXT2_GRP_NUM" and k: "k < BPG"
    and d: "disk f (dev, bg_block_bitmap f g) = Some d" "\<not> bitmap d k" "\<forall>j<k. bitmap d j"
  shows "\<exists>bb f1 d' f2 f3. bread dev (bg_block_bitmap f g) f = Some (bb, f1) \<and> bdata bb f1 = Some d \<and> search_free_bit d BLKSIZE = int k \<and>
    set_allocated_bit d k = Some d' \<and> bset bb d' f1 = Some f2 \<and> bwrite bb f2 = Some f3 \<and> fb.ready W H f3 \<and>
    disk f3 = (disk f)((dev, bg_block_bitmap f g) := Some d') \<and> fs_rest f3 = fs_rest f \<and> length d' = BLKSIZE \<and>
    (\<forall>j. bitmap d' j \<longleftrightarrow> bitmap d j \<or> j = k)"
proof -
  note D = bitmaps_okD[OF ok g]
  have len: "length d = BLKSIZE" using D(4) d(1) by auto
  have s: "search_free_bit d BLKSIZE = int k"
  proof -
    have "search_free_bit d BLKSIZE \<noteq> -1" using search_free_bit_props(1)[OF len, of k] d(2) k by auto
    from search_free_bit_props(2)[OF len this] obtain l where l: "search_free_bit d BLKSIZE = int l" "\<not> bitmap d l" "\<forall>j<l. bitmap d j" by blast
    have "l = k" using l(2,3) d(2,3) by (meson linorder_neqE_nat)
    then show ?thesis using l(1) by simp
  qed
  obtain d' where d': "set_allocated_bit d k = Some d'" "length d' = BLKSIZE" "\<forall>j. bitmap d' j \<longleftrightarrow> bitmap d j \<or> j = k"
    using set_allocated_bit_ok[of k d] k len by auto
  from fb.change_block[OF r D(2,3) d(1), of "\<lambda>_. d'"] d'(2) s d' show ?thesis by fastforce
qed

lemma block_used_upd:
  assumes ok: "bitmaps_ok W H dev f" and g: "g < EXT2_GRP_NUM" and d: "disk f (dev, bg_block_bitmap f g) = Some d"
    and t: "disk t = (disk f)((dev, bg_block_bitmap f g) := Some d')" "fs_rest t = fs_rest f"
  shows "m < 2 * BPG \<Longrightarrow> block_used t dev m \<longleftrightarrow> (if m div BPG = g then bitmap d' (m mod BPG) else block_used f dev m)"
proof -
  assume m: "m < 2 * BPG"
  have g': "m div BPG < EXT2_GRP_NUM" using m by auto
  have "bg_block_bitmap f (m div BPG) = bg_block_bitmap f g \<longleftrightarrow> m div BPG = g"
    using bitmaps_distinct[OF ok g' g] by blast
  then show ?thesis unfolding block_used_def fs_restD(8)[OF t(2)] t(1) by auto
qed

lemma first_false:
  assumes "\<not> P (j :: nat)"
  shows "\<exists>k \<le> j. \<not> P k \<and> (\<forall>i<k. P i)"
  using assms
proof (induction j rule: less_induct)
  case (less j)
  show ?case
  proof (cases "\<forall>i<j. P i")
    case True
    then show ?thesis using less.prems by (intro exI[of _ j]) simp
  next
    case False
    then obtain i where i: "i < j" "\<not> P i" by blast
    from less.IH[OF this] obtain k where "k \<le> i" "\<not> P k" "\<forall>i<k. P i" by blast
    then show ?thesis using i(1) by (intro exI[of _ k]) simp
  qed
qed

lemma first_free:
  assumes "j < 8 * length d" "\<not> bitmap d j"
  shows "\<exists>k \<le> j. k < 8 * length d \<and> \<not> bitmap d k \<and> (\<forall>i<k. bitmap d i)"
proof -
  from first_false[of "bitmap d", OF assms(2)] obtain k where "k \<le> j" "\<not> bitmap d k" "\<forall>i<k. bitmap d i" by blast
  then show ?thesis using assms(1) by (intro exI[of _ k]) simp
qed

text \<open>\<open>balloc\<close> when the preferred group has a free block.\<close>

lemma balloc_preferred:
  assumes r: "fb.ready W H f" and ok: "bitmaps_ok W H dev f" and g: "unat grp < EXT2_GRP_NUM"
    and free: "m < 2 * BPG" "m div BPG = unat grp" "\<not> block_used f dev m"
  shows "\<exists>n t d. balloc dev grp f = Some (int n, t) \<and> n < 2 * BPG \<and> n div BPG = unat grp \<and> n \<le> m \<and> \<not> block_used f dev n \<and>
    (\<forall>j<2 * BPG. block_used t dev j \<longleftrightarrow> block_used f dev j \<or> j = n) \<and> fb.ready W H t \<and> fs_rest t = fs_rest f \<and>
    disk t = (disk f)((dev, bg_block_bitmap f (unat grp)) := Some d) \<and> length d = BLKSIZE"
proof -
  note D = bitmaps_okD[OF ok g]
  obtain d where d: "disk f (dev, bg_block_bitmap f (unat grp)) = Some d" "length d = BLKSIZE" using D(4) by blast
  have mf: "m mod BPG < 8 * length d" "\<not> bitmap d (m mod BPG)" using free d by (auto simp: block_used_def)
  obtain k where k: "k \<le> m mod BPG" "k < BPG" "\<not> bitmap d k" "\<forall>i<k. bitmap d i"
    using first_free[OF mf] d(2) by auto
  obtain bb f1 d' f2 f3 where T: "bread dev (bg_block_bitmap f (unat grp)) f = Some (bb, f1)" "bdata bb f1 = Some d"
    "search_free_bit d BLKSIZE = int k" "set_allocated_bit d k = Some d'" "bset bb d' f1 = Some f2" "bwrite bb f2 = Some f3"
    "fb.ready W H f3" "disk f3 = (disk f)((dev, bg_block_bitmap f (unat grp)) := Some d')" "fs_rest f3 = fs_rest f" "length d' = BLKSIZE"
    "\<forall>j. bitmap d' j \<longleftrightarrow> bitmap d j \<or> j = k"
    using take_first_free[OF r ok g k(2) d(1) k(3,4)] by blast
  define n where "n = unat grp * BPG + k"
  have nn: "n div BPG = unat grp" "n mod BPG = k" "n < 2 * BPG" using k(2) g by (simp_all add: n_def)
  have ub: "uint (s_blocks_per_group f * grp) = int (unat grp * BPG)"
  proof -
    have "unat (32768 * grp) = 32768 * unat grp" using g by (subst unat_mult_lem[THEN iffD1]) auto
    then show ?thesis unfolding D(1) uint_nat by simp
  qed
  have b: "balloc dev grp f = Some (int n, f3)"
    using T(1-6) ub by (simp add: balloc_def n_def)
  have fu: "\<not> block_used f dev n" using nn d(1) k(3) by (simp add: block_used_def)
  have "block_used f3 dev j \<longleftrightarrow> block_used f dev j \<or> j = n" if j: "j < 2 * BPG" for j
  proof (cases "j div BPG = unat grp")
    case True
    have "j mod BPG = k \<longleftrightarrow> j = n" using True nn by (metis mod_div_mult_eq)
    moreover have "block_used f dev j \<longleftrightarrow> bitmap d (j mod BPG)" using True d(1) by (simp add: block_used_def)
    ultimately show ?thesis using block_used_upd[OF ok g d(1) T(8,9) j] True T(11) by simp
  next
    case False
    then have "j \<noteq> n" using nn by auto
    then show ?thesis using block_used_upd[OF ok g d(1) T(8,9) j] False by simp
  qed
  moreover have "n \<le> m" using k(1) free(2) by (metis n_def div_mult_mod_eq add_le_cancel_left)
  ultimately show ?thesis using b nn fu T(7-10) by blast
qed

text \<open>\<open>bfree\<close> of an allocated block.\<close>

lemma bfree_ok:
  assumes r: "fb.ready W H f" and ok: "bitmaps_ok W H dev f" and n: "unat blk < 2 * BPG"
    and d: "disk f (dev, bg_block_bitmap f (unat blk div BPG)) = Some d"
  shows "\<exists>t d'. bfree dev blk f = Some t \<and> fb.ready W H t \<and> fs_rest t = fs_rest f \<and> length d' = BLKSIZE \<and>
    disk t = (disk f)((dev, bg_block_bitmap f (unat blk div BPG)) := Some d') \<and> (\<forall>j. bitmap d' j \<longleftrightarrow> bitmap d j \<and> j \<noteq> unat blk mod BPG) \<and>
    (\<forall>j<2 * BPG. block_used t dev j \<longleftrightarrow> block_used f dev j \<and> j \<noteq> unat blk)"
proof -
  let ?g = "unat blk div BPG"
  have g: "?g < EXT2_GRP_NUM" using n by auto
  note D = bitmaps_okD[OF ok g]
  have len: "length d = BLKSIZE" using D(4) d by auto
  obtain d' where d': "clear_allocated_bit d (unat blk mod BPG) = Some d'" "length d' = BLKSIZE"
    "\<forall>j. bitmap d' j \<longleftrightarrow> bitmap d j \<and> j \<noteq> unat blk mod BPG"
    using clear_allocated_bit_ok[of "unat blk mod BPG" d] len by auto
  obtain bb f1 f2 f3 where T: "bread dev (bg_block_bitmap f ?g) f = Some (bb, f1)" "bdata bb f1 = Some d" "bset bb d' f1 = Some f2"
    "bwrite bb f2 = Some f3" "fb.ready W H f3" "disk f3 = (disk f)((dev, bg_block_bitmap f ?g) := Some d')" "fs_rest f3 = fs_rest f"
    using fb.change_block[OF r D(2,3) d, of "\<lambda>_. d'"] d'(2) by auto
  have dm: "unat (blk div s_blocks_per_group f) = ?g" "unat (blk mod s_blocks_per_group f) = unat blk mod BPG"
    unfolding D(1) by (simp_all add: unat_div unat_mod)
  have b: "bfree dev blk f = Some f3" using T(1-4) d'(1) by (simp add: bfree_def dm)
  have "block_used f3 dev j \<longleftrightarrow> block_used f dev j \<and> j \<noteq> unat blk" if j: "j < 2 * BPG" for j
  proof (cases "j div BPG = ?g")
    case True
    have "j mod BPG = unat blk mod BPG \<longleftrightarrow> j = unat blk" using True by (metis mod_div_mult_eq)
    moreover have "block_used f dev j \<longleftrightarrow> bitmap d (j mod BPG)" using True d by (simp add: block_used_def)
    ultimately show ?thesis using block_used_upd[OF ok g d T(6,7) j] True d'(3) by simp
  next
    case False
    then show ?thesis using block_used_upd[OF ok g d T(6,7) j] by auto
  qed
  then show ?thesis using b T(5-7) d' by blast
qed

text \<open>A disk whose group 0 is full and whose group 1 is empty, with the bitmaps in the blocks 3 and 4.\<close>

definition two_bitmaps :: "u32 \<Rightarrow> u32 \<Rightarrow> byte list option" where
  "two_bitmaps dev blk = (if dev = 0 \<and> blk = 3 then Some (replicate BLKSIZE (- 1))
     else if dev = 0 \<and> blk = 4 then Some (replicate BLKSIZE 0) else None)"

definition bitmap_fs :: fs where
  "bitmap_fs = \<lparr>cache = blk_init two_bitmaps [], d_sb_ctnt = put32 (replicate 1024 0) 32 32768, sb_dev = 0,
     group_descs_table = put32 (put32 (replicate 64 0) 0 3) 32 4, m_inodes = []\<rparr>"

lemma bitmap_fs_facts:
  "fb.ready {(0, 3), (0, 4)} {} bitmap_fs" "bitmaps_ok {(0, 3), (0, 4)} {} 0 bitmap_fs"
  "j < BPG \<Longrightarrow> block_used bitmap_fs 0 j" "\<not> block_used bitmap_fs 0 BPG"
proof -
  have w: "whole_blocks two_bitmaps" by (auto simp: whole_blocks_def two_bitmaps_def simp del: replicate.simps split: if_splits)
  have "bs.ready {(0, 3), (0, 4)} {} (blk_init two_bitmaps [])" by (rule blk_init_ready[OF w]) simp_all
  then show "fb.ready {(0, 3), (0, 4)} {} bitmap_fs" by (simp add: fb.ready_def bs.ready_def bitmap_fs_def)
  have v: "disk bitmap_fs x = two_bitmaps (fst x) (snd x)" for x
    using blk_init_facts(5)[OF w[unfolded whole_blocks_def, rule_format]] by (simp add: disk_def bitmap_fs_def)
  have g: "group_descs_table bitmap_fs = put32 (put32 (replicate 64 0) 0 3) 32 4" "d_sb_ctnt bitmap_fs = put32 (replicate 1024 0) 32 32768"
    by (simp_all add: bitmap_fs_def del: replicate.simps)
  have "get32 (group_descs_table bitmap_fs) 0 = 3" unfolding g by (subst get32_put32) (simp_all del: replicate.simps)
  moreover have "get32 (group_descs_table bitmap_fs) 32 = 4" unfolding g by (subst get_put32) (simp_all del: replicate.simps)
  ultimately have b: "bg_block_bitmap bitmap_fs 0 = 3" "bg_block_bitmap bitmap_fs (Suc 0) = 4" by (simp_all add: bg_block_bitmap_def)
  have p: "s_blocks_per_group bitmap_fs = 32768" unfolding s_blocks_per_group_def g by (subst get_put32) (simp_all del: replicate.simps)
  show "bitmaps_ok {(0, 3), (0, 4)} {} 0 bitmap_fs"
    unfolding bitmaps_ok_def p v by (auto simp: b two_bitmaps_def less_2_cases_iff simp del: replicate.simps)
  have one: "bitmap (replicate BLKSIZE (- 1)) j" if "j < BPG" for j
  proof -
    have "j div 8 < BLKSIZE" "j mod 8 < 8" using that by auto
    then show ?thesis unfolding bitmap_def by (simp add: bit_simps del: replicate.simps)
  qed
  show "j < BPG \<Longrightarrow> block_used bitmap_fs 0 j"
    using one[of j] by (simp add: block_used_def v b two_bitmaps_def del: replicate.simps)
  show "\<not> block_used bitmap_fs 0 BPG" by (simp add: block_used_def v b two_bitmaps_def bitmap_def nth_replicate del: replicate.simps)
qed

text \<open>A block that \<open>balloc\<close> returns from the preferred group was free, it is the first free one of the group, exactly
  its bit is set by the call, and \<open>bfree\<close> undoes the call: the disk is as before.\<close>

theorem balloc_bfree_roundtrip:
  assumes r: "fb.ready W H f" and ok: "bitmaps_ok W H dev f" and g: "unat grp < EXT2_GRP_NUM"
    and free: "m < 2 * BPG" "m div BPG = unat grp" "\<not> block_used f dev m"
  shows "\<exists>n t u. balloc dev grp f = Some (int n, t) \<and> n div BPG = unat grp \<and> n \<le> m \<and> \<not> block_used f dev n \<and>
    (\<forall>j<2 * BPG. block_used t dev j \<longleftrightarrow> block_used f dev j \<or> j = n) \<and>
    bfree dev (word_of_nat n) t = Some u \<and> disk u = disk f \<and> fb.ready W H u"
proof -
  obtain n t d where T: "balloc dev grp f = Some (int n, t)" "n < 2 * BPG" "n div BPG = unat grp" "n \<le> m" "\<not> block_used f dev n"
    "\<forall>j<2 * BPG. block_used t dev j \<longleftrightarrow> block_used f dev j \<or> j = n" "fb.ready W H t" "fs_rest t = fs_rest f"
    "disk t = (disk f)((dev, bg_block_bitmap f (unat grp)) := Some d)" "length d = BLKSIZE"
    using balloc_preferred[OF assms] by blast
  note E = fs_restD[OF T(8)]
  have un: "unat (word_of_nat n :: u32) = n" using T(2) by (simp add: unat_of_nat)
  have ok': "bitmaps_ok W H dev t" using ok unfolding bitmaps_ok_def E(6,8) T(9) using T(10) by auto
  have dt: "disk t (dev, bg_block_bitmap t (unat (word_of_nat n :: u32) div BPG)) = Some d" unfolding un T(3) T(9) E(8) by simp
  have un': "unat (word_of_nat n :: u32) < 2 * BPG" using un T(2) by simp
  obtain u d' where U: "bfree dev (word_of_nat n) t = Some u" "fb.ready W H u" "length d' = BLKSIZE"
    "disk u = (disk t)((dev, bg_block_bitmap f (unat grp)) := Some d')" "\<forall>j. bitmap d' j \<longleftrightarrow> bitmap d j \<and> j \<noteq> n mod BPG"
    using bfree_ok[OF T(7) ok' un' dt] unfolding un T(3) E(8) by blast
  obtain d0 where d0: "disk f (dev, bg_block_bitmap f (unat grp)) = Some d0" "length d0 = BLKSIZE" using bitmaps_okD(4)[OF ok g] by blast
  have "d' = d0"
  proof (rule bitmap_eqI)
    show "length d' = length d0" using U(3) d0(2) by simp
    fix k assume k: "k < 8 * length d0"
    define j where "j = unat grp * BPG + k"
    have kB: "k < BPG" using k d0(2) by simp
    then have j: "j div BPG = unat grp" "j mod BPG = k" "j < 2 * BPG" using g by (simp_all add: j_def)
    have "block_used t dev j \<longleftrightarrow> bitmap d k" unfolding block_used_def j(1,2) E(8) T(9) by simp
    moreover have "block_used f dev j \<longleftrightarrow> bitmap d0 k" unfolding block_used_def j(1,2) using d0(1) by simp
    moreover have "j = n \<longleftrightarrow> k = n mod BPG" using j T(3) by (metis mod_div_mult_eq)
    moreover have "\<not> bitmap d0 (n mod BPG)" using T(5) d0(1) unfolding block_used_def T(3) by simp
    ultimately show "bitmap d' k = bitmap d0 k" using U(5) T(6) j(3) by metis
  qed
  then have "disk u = disk f" unfolding U(4) T(9) using d0(1) by (simp add: fun_upd_idem)
  then show ?thesis using T U by blast
qed

lemma balloc_bfree_roundtrip_witness:
  "\<exists>t u. balloc 0 1 bitmap_fs = Some (int BPG, t) \<and> bfree 0 (word_of_nat BPG) t = Some u \<and> disk u = disk bitmap_fs"
proof -
  have g: "unat (1 :: u32) < EXT2_GRP_NUM" "BPG div BPG = unat (1 :: u32)" "BPG < 2 * BPG" by simp_all
  from balloc_bfree_roundtrip[OF bitmap_fs_facts(1,2) g(1,3,2) bitmap_fs_facts(4)] obtain n t u where
    n: "balloc 0 1 bitmap_fs = Some (int n, t)" "n div BPG = unat (1 :: u32)" "n \<le> BPG" "bfree 0 (word_of_nat n) t = Some u"
       "disk u = disk bitmap_fs" by blast
  have "n = BPG"
  proof (rule ccontr)
    assume "n \<noteq> BPG"
    then have "n div BPG = 0" using n(3) by simp
    then show False using n(2) by simp
  qed
  then show ?thesis using n by blast
qed

text \<open>C35. When the preferred group 0 is full, the search goes on in group 1 but the group's offset is not added: the call
  marks a block of group 1 and returns the number of a block of group 0, which is already in use.\<close>

theorem balloc_fallback_returns_used_block:
  assumes r: "fb.ready W H f" and ok: "bitmaps_ok W H dev f"
    and full: "\<forall>j<BPG. block_used f dev j" and free: "BPG \<le> m" "m < 2 * BPG" "\<not> block_used f dev m"
  shows "\<exists>n t. balloc dev 0 f = Some (int n, t) \<and> n < BPG \<and> block_used f dev n \<and> \<not> block_used f dev (BPG + n) \<and>
    block_used t dev (BPG + n) \<and> fb.ready W H t"
proof -
  have g: "(0::nat) < EXT2_GRP_NUM" "(1::nat) < EXT2_GRP_NUM" by simp_all
  note D0 = bitmaps_okD[OF ok g(1)] and D1 = bitmaps_okD[OF ok g(2)]
  obtain d where d: "disk f (dev, bg_block_bitmap f 0) = Some d" "length d = BLKSIZE" using D0(4) by blast
  have all: "bitmap d k" if "k < BPG" for k using full that d(1) by (auto simp: block_used_def)
  have s0: "search_free_bit d BLKSIZE = -1" using search_free_bit_props(2)[OF d(2)] all by auto
  obtain bb f1 f2 where T: "bread dev (bg_block_bitmap f 0) f = Some (bb, f1)" "bdata bb f1 = Some d" "brelse bb f1 = Some f2"
    "fb.ready W H f2" "disk f2 = disk f" "fs_rest f2 = fs_rest f"
    using fb.look_at_block[OF r D0(2,3) d(1)] by auto
  note E = fs_restD[OF T(6)]
  have ok2: "bitmaps_ok W H dev f2" using ok unfolding bitmaps_ok_def E(6,8) T(5) .
  have md: "m div BPG = 1" using free(1,2) by auto
  obtain d1 where d1: "disk f2 (dev, bg_block_bitmap f2 1) = Some d1" "length d1 = BLKSIZE" using bitmaps_okD(4)[OF ok2 g(2)] by blast
  have "m mod BPG < 8 * length d1" "\<not> bitmap d1 (m mod BPG)" using free(3) d1 md unfolding block_used_def T(5) E(8) by auto
  from first_free[OF this] obtain k where k: "k < BPG" "\<not> bitmap d1 k" "\<forall>i<k. bitmap d1 i" using d1(2) by auto
  obtain bb' f1' d' f2' f3 where U: "bread dev (bg_block_bitmap f2 1) f2 = Some (bb', f1')" "bdata bb' f1' = Some d1"
    "search_free_bit d1 BLKSIZE = int k" "set_allocated_bit d1 k = Some d'" "bset bb' d' f1' = Some f2'" "bwrite bb' f2' = Some f3"
    "fb.ready W H f3" "disk f3 = (disk f2)((dev, bg_block_bitmap f2 1) := Some d')" "fs_rest f3 = fs_rest f2" "\<forall>j. bitmap d' j \<longleftrightarrow> bitmap d1 j \<or> j = k"
    using take_first_free[OF T(4) ok2 g(2) k(1) d1(1) k(2,3)] by blast
  have bo: "balloc_others dev 0 [0..<EXT2_GRP_NUM] 0 f2 = Some (int k, f3)"
    using U(1-6) by (simp add: upt_rec numeral_2_eq_2)
  have b: "balloc dev 0 f = Some (int k, f3)" using T(1-3) s0 bo by (simp add: balloc_def)
  have k1: "(BPG + k) div BPG = 1" "(BPG + k) mod BPG = k" "BPG + k < 2 * BPG" using k(1) by simp_all
  have "\<not> block_used f dev (BPG + k)" using k(2) d1(1) unfolding block_used_def k1(1,2) T(5) E(8) by simp
  moreover have "block_used f3 dev (BPG + k)" using block_used_upd[OF ok2 g(2) d1(1) U(8,9) k1(3)] k1(1,2) U(10) by simp
  moreover have "block_used f dev k" using full k(1) by blast
  ultimately show ?thesis using b k(1) U(7) by blast
qed

lemma balloc_fallback_returns_used_block_witness:
  "\<exists>n t. balloc 0 0 bitmap_fs = Some (int n, t) \<and> n < BPG \<and> block_used bitmap_fs 0 n \<and> block_used t 0 (BPG + n)"
proof -
  have a: "\<forall>j<BPG. block_used bitmap_fs 0 j" using bitmap_fs_facts(3) by blast
  have m: "BPG \<le> BPG" "BPG < 2 * BPG" by simp_all
  show ?thesis using balloc_fallback_returns_used_block[OF bitmap_fs_facts(1,2) a m bitmap_fs_facts(4)] by blast
qed

end
