(* ===== verification/Ext2_Inode.thy ===== *)
theory Ext2_Inode
  imports Ext2_Bitmap Slub
begin

text \<open>
  Superblock, inode table and content of inodes (fs/ext2fs.c). An operation on an inode takes its number in the
  table; the pointers that may be NULL are options. The copies between a block and the caller's memory
  (\<open>either_copyin\<close>, \<open>either_copyout\<close>) are arguments of \<open>readi\<close> and \<open>writei\<close>: the same loop serves kernel buffers and
  user memory.
\<close>

section \<open>Superblock and group descriptors\<close>

definition readsb :: "u32 \<Rightarrow> fs \<Rightarrow> fs option" where
  "readsb dev f = do {
     (bb, f1) \<leftarrow> bread dev 0 f;
     d \<leftarrow> bdata bb f1;
     brelse bb (f1\<lparr>d_sb_ctnt := get_bytes d 1024 1024\<rparr>) }"

text \<open>The descriptors fill one block (\<open>EXT2_GRPDESC_BLKNUM\<close> is 1).\<close>

definition readgdt :: "u32 \<Rightarrow> fs \<Rightarrow> fs option" where
  "readgdt dev f = do {
     (bb, f1) \<leftarrow> bread dev 1 f;
     d \<leftarrow> bdata bb f1;
     brelse bb (f1\<lparr>group_descs_table := d\<rparr>) }"

text \<open>\<open>sizeof(&m_sb.d_sb_ctnt)\<close> is the size of a pointer.\<close>

definition sync_sb_and_gdt :: "fs \<Rightarrow> fs option" where
  "sync_sb_and_gdt f = do {
     (bb, f1) \<leftarrow> bread (sb_dev f) 0 f;
     d \<leftarrow> bdata bb f1;
     f2 \<leftarrow> bset bb (put_bytes d 1024 (take 8 (d_sb_ctnt f1))) f1;
     f3 \<leftarrow> bwrite bb f2;
     (bb, f4) \<leftarrow> bread (sb_dev f) 1 f3;
     f5 \<leftarrow> bset bb (group_descs_table f4) f4;
     bwrite bb f5 }"

definition ext2fs_init :: "u32 \<Rightarrow> fs \<Rightarrow> fs option" where
  "ext2fs_init dev f = do {
     f1 \<leftarrow> readsb dev f;
     cassert (s_magic f1 = 0xEF53);
     cassert (int BLKSIZE = sint (push_bit (unat (s_log_block_size f1)) (1024 :: 32 word)));
     cassert (s_inode_size f1 = 128);
     cassert (s_blocks_per_group f1 \<noteq> 0);
     cassert (2 = 1 + (s_blocks_count f1 - 1) div s_blocks_per_group f1);
     readgdt dev (f1\<lparr>sb_dev := dev\<rparr>) }"

definition inode_table_init :: "fs \<Rightarrow> fs" where
  "inode_table_init f = f\<lparr>m_inodes := map (\<lambda>ip. ip\<lparr>i_mtx := False, i_count := 0, i_dirty := False, i_dev := 0\<rparr>) (m_inodes f)\<rparr>"

section \<open>The inode table\<close>

definition get_ino :: "nat \<Rightarrow> fs \<Rightarrow> m_inode_t option" where
  "get_ino ip f = nth_opt (m_inodes f) ip"

definition upd_ino :: "nat \<Rightarrow> (m_inode_t \<Rightarrow> m_inode_t) \<Rightarrow> fs \<Rightarrow> fs option" where
  "upd_ino ip g f = do { i \<leftarrow> get_ino ip f; Some (f\<lparr>m_inodes := (m_inodes f)[ip := g i]\<rparr>) }"

text \<open>The search: the entry of the inode, or else the first entry without a reference.\<close>

fun iget_scan :: "u32 \<Rightarrow> u32 \<Rightarrow> nat \<Rightarrow> m_inode_t list \<Rightarrow> nat option \<Rightarrow> nat + nat option" where
  "iget_scan dev ino k [] vacant = Inr vacant"
| "iget_scan dev ino k (ip # ips) vacant =
     (if i_dev ip = dev \<and> i_no ip = ino then Inl k
      else iget_scan dev ino (k + 1) ips (if vacant = None \<and> i_count ip = 0 then Some k else vacant))"

text \<open>A caller that finds the table full waits for another process.\<close>

definition iget :: "u32 \<Rightarrow> u32 \<Rightarrow> bool \<Rightarrow> fs \<Rightarrow> (nat \<times> fs) option" where
  "iget dev ino clean f =
     (case iget_scan dev ino 0 (m_inodes f) None of
        Inl ip \<Rightarrow> do {
          f1 \<leftarrow> upd_ino ip (\<lambda>i. i\<lparr>i_count := i_count i + 1\<rparr>) f;
          Some (ip, f1) }
      | Inr vacant \<Rightarrow> do {
          ip \<leftarrow> vacant;
          f1 \<leftarrow> upd_ino ip (\<lambda>i. i\<lparr>i_dev := dev, i_no := ino, i_block_group := (ino - 1) div s_inodes_per_group f,
            i_count := i_count i + 1, i_valid := clean\<rparr>) f;
          Some (ip, f1) })"

fun ialloc_groups :: "u32 \<Rightarrow> nat list \<Rightarrow> int \<Rightarrow> fs \<Rightarrow> (nat option \<times> fs) option" where
  "ialloc_groups dev [] inum f = Some (None, f)"
| "ialloc_groups dev (g_idx # gs) inum f = do {
     (bb, f1) \<leftarrow> bread dev (bg_inode_bitmap f g_idx) f;
     d \<leftarrow> bdata bb f1;
     let freeno = search_free_bit d BLKSIZE;
     if freeno \<noteq> -1 then do {
       d' \<leftarrow> set_allocated_bit d (nat freeno);
       f2 \<leftarrow> bset bb d' f1;
       f3 \<leftarrow> bwrite bb f2;
       (ip, f4) \<leftarrow> iget dev (word_of_int (inum + freeno + 1)) True f3;
       Some (Some ip, f4) }
     else do {
       f2 \<leftarrow> brelse bb f1;
       ialloc_groups dev gs (inum + uint (s_inodes_per_group f)) f2 } }"

definition ialloc :: "u32 \<Rightarrow> fs \<Rightarrow> (nat option \<times> fs) option" where
  "ialloc dev f = ialloc_groups dev [0..<EXT2_GRP_NUM] 0 f"

definition idup :: "nat option \<Rightarrow> fs \<Rightarrow> (nat option \<times> fs) option" where
  "idup p f = (case p of None \<Rightarrow> Some (None, f)
     | Some ip \<Rightarrow> do {
         i \<leftarrow> get_ino ip f;
         cassert (i_count i \<ge> 1);
         f1 \<leftarrow> upd_ino ip (\<lambda>i. i\<lparr>i_count := i_count i + 1\<rparr>) f;
         Some (p, f1) })"

text \<open>Where the inode number \<open>n\<close> lies: group, place in the group, block of the table.\<close>

definition EXT2_IOFFSET_OFGRP :: "u32 \<Rightarrow> fs \<Rightarrow> nat" where
  "EXT2_IOFFSET_OFGRP n f = unat ((n - 1) mod s_inodes_per_group f)"

abbreviation (input) IPB :: nat where "IPB \<equiv> 32"

definition EXT2_IBLOCK_NO :: "u32 \<Rightarrow> fs \<Rightarrow> u32" where
  "EXT2_IBLOCK_NO n f = bg_inode_table f (unat ((n - 1) div s_inodes_per_group f)) + word_of_nat (EXT2_IOFFSET_OFGRP n f div IPB)"

definition ilock :: "nat option \<Rightarrow> fs \<Rightarrow> fs option" where
  "ilock p f = do {
     ip \<leftarrow> p;
     i \<leftarrow> get_ino ip f;
     cassert (i_count i \<ge> 1);
     cassert (\<not> i_mtx i);
     f1 \<leftarrow> upd_ino ip (\<lambda>i. i\<lparr>i_mtx := True\<rparr>) f;
     if \<not> i_valid i then do {
       (bb, f2) \<leftarrow> bread (i_dev i) (EXT2_IBLOCK_NO (i_no i) f1) f1;
       d \<leftarrow> bdata bb f2;
       f3 \<leftarrow> upd_ino ip (\<lambda>i. i\<lparr>d_inode_ctnt := get_bytes d (128 * (EXT2_IOFFSET_OFGRP (i_no i) f1 mod IPB)) 128\<rparr>) f2;
       f4 \<leftarrow> brelse bb f3;
       upd_ino ip (\<lambda>i. i\<lparr>i_valid := True\<rparr>) f4 }
     else Some f1 }"

definition iunlock :: "nat option \<Rightarrow> fs \<Rightarrow> fs option" where
  "iunlock p f = do {
     ip \<leftarrow> p;
     i \<leftarrow> get_ino ip f;
     cassert (i_count i \<ge> 1);
     cassert (i_mtx i);
     upd_ino ip (\<lambda>i. i\<lparr>i_mtx := False\<rparr>) f }"

text \<open>\<open>iupdate\<close>; written through, the block goes to the disk at once and stays locked.\<close>

definition iupdate :: "nat \<Rightarrow> bool \<Rightarrow> fs \<Rightarrow> fs option" where
  "iupdate ip wthrough f = do {
     i \<leftarrow> get_ino ip f;
     cassert (i_valid i);
     (bb, f1) \<leftarrow> bread (i_dev i) (EXT2_IBLOCK_NO (i_no i) f) f;
     d \<leftarrow> bdata bb f1;
     f2 \<leftarrow> bset bb (put_bytes d (128 * (EXT2_IOFFSET_OFGRP (i_no i) f mod IPB)) (d_inode_ctnt i)) f1;
     if wthrough then do {
       c \<leftarrow> virtio_disk_write (i_dev i) bb (cache f2);
       Some (f2\<lparr>cache := c\<rparr>) }
     else bwrite bb f2 }"

section \<open>From file blocks to disk blocks\<close>

abbreviation (input) EXT2_NDIR_BLOCKS :: nat where "EXT2_NDIR_BLOCKS \<equiv> 12"
abbreviation (input) EXT2_IND_PER_BLK :: nat where "EXT2_IND_PER_BLK \<equiv> 1024"
abbreviation (input) EXT2_IND_LIMIT :: nat where "EXT2_IND_LIMIT \<equiv> 1036"
abbreviation (input) EXT2_DIND_LIMIT :: nat where "EXT2_DIND_LIMIT \<equiv> 1049612"
abbreviation (input) EXT2_TIND_LIMIT :: nat where "EXT2_TIND_LIMIT \<equiv> 1074791436"

text \<open>A missing block is allocated; its number is stored in the inode's field \<open>k\<close>. \<open>balloc\<close>'s failure -1 is not 0.\<close>

definition bmap_field :: "nat \<Rightarrow> nat \<Rightarrow> fs \<Rightarrow> (u64 \<times> fs) option" where
  "bmap_field ip k f = do {
     i \<leftarrow> get_ino ip f;
     if i_block i k = 0 then do {
       (r, f1) \<leftarrow> balloc (i_dev i) (i_block_group i) f;
       let baddr = (word_of_int r :: u64);
       if baddr = 0 then Some (0, f1)
       else do {
         f2 \<leftarrow> upd_ino ip (set_i_block k (ucast baddr)) f1;
         Some (baddr, f2) } }
     else Some (ucast (i_block i k), f) }"

text \<open>The walk through the index blocks, one per \<open>divisor\<close>.\<close>

function bmap_walk :: "nat \<Rightarrow> nat \<Rightarrow> nat \<Rightarrow> u64 \<Rightarrow> fs \<Rightarrow> (u64 \<times> fs) option" where
  "bmap_walk ip divisor blk_no baddr f =
     (if divisor = 0 then Some (baddr, f)
      else do {
        i \<leftarrow> get_ino ip f;
        (bb, f1) \<leftarrow> bread (i_dev i) (ucast baddr) f;
        d \<leftarrow> bdata bb f1;
        let k = blk_no div divisor;
        (baddr', stop, f4) \<leftarrow>
          (if get32 d (4 * k) = 0 then do {
             (r, f2) \<leftarrow> balloc (i_dev i) (i_block_group i) f1;
             if (word_of_int r :: u64) = 0 then do {
               f3 \<leftarrow> brelse bb f2;
               Some (0, True, f3) }
             else do {
               d2 \<leftarrow> bdata bb f2;
               f3 \<leftarrow> bset bb (put32 d2 (4 * k) (word_of_int r)) f2;
               f4 \<leftarrow> bwrite bb f3;
               Some ((word_of_int r :: u64), False, f4) } }
           else do {
             f2 \<leftarrow> brelse bb f1;
             Some (ucast (get32 d (4 * k)), False, f2) });
        if stop then Some (0, f4)
        else bmap_walk ip (divisor div EXT2_IND_PER_BLK) (blk_no mod divisor) baddr' f4 })"
  by auto
termination by (relation "measure (\<lambda>(ip, divisor, blk_no, baddr, f). divisor)") auto

definition bmap :: "nat \<Rightarrow> u32 \<Rightarrow> fs \<Rightarrow> (u64 \<times> fs) option" where
  "bmap ip blk_no f = do {
     let n = unat blk_no;
     cassert (n < EXT2_TIND_LIMIT);
     if n < EXT2_NDIR_BLOCKS then bmap_field ip n f
     else do {
       let (n', divisor, primary_layer) =
         (if n < EXT2_IND_LIMIT then (n - EXT2_NDIR_BLOCKS, 1, 12)
          else if n < EXT2_DIND_LIMIT then (n - EXT2_IND_LIMIT, EXT2_IND_PER_BLK, 13)
          else (n - EXT2_DIND_LIMIT, EXT2_IND_PER_BLK * EXT2_IND_PER_BLK, 14));
       (baddr, f1) \<leftarrow> bmap_field ip primary_layer f;
       if baddr = 0 then Some (0, f1) else bmap_walk ip divisor n' baddr f1 } }"

section \<open>Giving blocks back\<close>

text \<open>The end of \<open>recursively_release\<close> (label \<open>leaf\<close>): the block of entry \<open>k\<close> is freed; the result says whether the
  index block still has entries.\<close>

definition release_leaf :: "nat \<Rightarrow> nat \<Rightarrow> nat \<Rightarrow> fs \<Rightarrow> (bool \<times> fs) option" where
  "release_leaf ip bb k f = do {
     i \<leftarrow> get_ino ip f;
     d \<leftarrow> bdata bb f;
     f1 \<leftarrow> bfree (i_dev i) (get32 d (4 * k)) f;
     d1 \<leftarrow> bdata bb f1;
     let d2 = put32 d1 (4 * k) 0;
     f2 \<leftarrow> bset bb d2 f1;
     f3 \<leftarrow> upd_ino ip (\<lambda>i. set_i_blocks (i_blocks i - 8) i) f2;
     f4 \<leftarrow> bwrite bb f3;
     Some (list_ex (\<lambda>j. get32 d2 (4 * j) \<noteq> 0) [0..<EXT2_IND_PER_BLK], f4) }"

fun recursively_release :: "nat \<Rightarrow> nat \<Rightarrow> nat \<Rightarrow> u32 \<Rightarrow> fs \<Rightarrow> (bool \<times> fs) option" where
  "recursively_release level ip blk_no baddr f = do {
     i \<leftarrow> get_ino ip f;
     (bb, f1) \<leftarrow> bread (i_dev i) baddr f;
     d \<leftarrow> bdata bb f1;
     let k = blk_no div EXT2_IND_PER_BLK ^ level;
     cassert (get32 d (4 * k) \<noteq> 0);
     (case level of
        0 \<Rightarrow> release_leaf ip bb k f1
      | Suc l \<Rightarrow> do {
          (res, f2) \<leftarrow> recursively_release l ip (blk_no mod EXT2_IND_PER_BLK ^ level) (get32 d (4 * k)) f1;
          if \<not> res then release_leaf ip bb k f2
          else do {
            f3 \<leftarrow> brelse bb f2;
            Some (res, f3) } }) }"

text \<open>Freeing the block of field \<open>k\<close> of the inode.\<close>

definition free_field :: "nat \<Rightarrow> nat \<Rightarrow> fs \<Rightarrow> fs option" where
  "free_field ip k f = do {
     i \<leftarrow> get_ino ip f;
     f1 \<leftarrow> bfree (i_dev i) (i_block i k) f;
     upd_ino ip (\<lambda>i. set_i_block k 0 (set_i_blocks (i_blocks i - 8) i)) f1 }"

definition bunmap_level :: "nat \<Rightarrow> nat \<Rightarrow> nat \<Rightarrow> fs \<Rightarrow> fs option" where
  "bunmap_level ip level n f = do {
     i \<leftarrow> get_ino ip f;
     (res, f1) \<leftarrow> recursively_release level ip n (i_block i (12 + level)) f;
     if \<not> res then free_field ip (12 + level) f1 else Some f1 }"

definition bunmap :: "nat \<Rightarrow> u32 \<Rightarrow> fs \<Rightarrow> fs option" where
  "bunmap ip blk_no f = do {
     let n = unat blk_no;
     cassert (n < EXT2_TIND_LIMIT);
     if n < EXT2_NDIR_BLOCKS then do {
       i \<leftarrow> get_ino ip f;
       cassert (i_block i n \<noteq> 0);
       free_field ip n f }
     else if n < EXT2_IND_LIMIT then bunmap_level ip 0 (n - EXT2_NDIR_BLOCKS) f
     else if n < EXT2_DIND_LIMIT then bunmap_level ip 1 (n - EXT2_IND_LIMIT) f
     else bunmap_level ip 2 (n - EXT2_DIND_LIMIT) f }"

section \<open>Reading and writing\<close>

text \<open>Error numbers of the C library's header.\<close>

abbreviation (input) EIO :: int where "EIO \<equiv> 5"
abbreviation (input) EBUSY :: int where "EBUSY \<equiv> 16"

definition add_operating :: "u32 \<Rightarrow> fs \<Rightarrow> fs" where
  "add_operating n f = f\<lparr>cache := (cache f)\<lparr>rw_operating := rw_operating (cache f) + n\<rparr>\<rparr>"

text \<open>\<open>out k xs m\<close> stores \<open>xs\<close> at offset \<open>k\<close> of the destination and \<open>src k n m\<close> are \<open>n\<close> bytes at offset \<open>k\<close> of the
  source; \<open>None\<close> is the failed assertion on the copy.\<close>

function readi_loop :: "nat \<Rightarrow> (nat \<Rightarrow> byte list \<Rightarrow> 'm \<Rightarrow> 'm option) \<Rightarrow> nat \<Rightarrow> nat \<Rightarrow> nat \<Rightarrow> 'm \<Rightarrow> fs \<Rightarrow> (nat \<times> 'm \<times> fs) option" where
  "readi_loop ip out off n tot m f =
     (if tot < n then do {
        (addr, f1) \<leftarrow> bmap ip (word_of_nat (off div BLKSIZE)) f;
        if addr = 0 then Some (tot, m, f1)
        else do {
          i \<leftarrow> get_ino ip f1;
          (bb, f2) \<leftarrow> bread (i_dev i) (ucast addr) f1;
          d \<leftarrow> bdata bb f2;
          let k = min (n - tot) (BLKSIZE - off mod BLKSIZE);
          m1 \<leftarrow> out tot (get_bytes d (off mod BLKSIZE) k) m;
          f3 \<leftarrow> brelse bb f2;
          readi_loop ip out (off + k) n (tot + k) m1 f3 } }
      else Some (tot, m, f))"
  by auto
termination
  by (relation "measure (\<lambda>(ip, out, off, n, tot, m, f). n - tot)") (auto simp: min_def)

definition readi :: "nat \<Rightarrow> (nat \<Rightarrow> byte list \<Rightarrow> 'm \<Rightarrow> 'm option) \<Rightarrow> u64 \<Rightarrow> u64 \<Rightarrow> 'm \<Rightarrow> fs \<Rightarrow> (int \<times> 'm \<times> fs) option" where
  "readi ip out off n m f =
     (if syncing (cache f) > 0 then Some (- EBUSY, m, f)
      else do {
        let f1 = add_operating 1 f;
        i \<leftarrow> get_ino ip f1;
        if off > ucast (i_size i) \<or> off + n < off then Some (0, m, f1)
        else do {
          let n1 = (if off + n > ucast (i_size i) then ucast (i_size i) - off else n);
          (tot, m1, f2) \<leftarrow> readi_loop ip out (unat off) (unat n1) 0 m f1;
          Some (int tot, m1, add_operating (- 1) f2) } })"

function writei_loop :: "nat \<Rightarrow> (nat \<Rightarrow> nat \<Rightarrow> byte list option) \<Rightarrow> nat \<Rightarrow> nat \<Rightarrow> nat \<Rightarrow> fs \<Rightarrow> (nat \<times> nat \<times> fs) option" where
  "writei_loop ip src off n tot f =
     (if tot < n then do {
        (addr, f1) \<leftarrow> bmap ip (word_of_nat (off div BLKSIZE)) f;
        if addr = 0 then Some (off, tot, f1)
        else do {
          i \<leftarrow> get_ino ip f1;
          (bb, f2) \<leftarrow> bread (i_dev i) (ucast addr) f1;
          d \<leftarrow> bdata bb f2;
          let k = min (n - tot) (BLKSIZE - off mod BLKSIZE);
          xs \<leftarrow> src tot k;
          f3 \<leftarrow> bset bb (put_bytes d (off mod BLKSIZE) xs) f2;
          f4 \<leftarrow> bwrite bb f3;
          writei_loop ip src (off + k) n (tot + k) f4 } }
      else Some (off, tot, f))"
  by auto
termination
  by (relation "measure (\<lambda>(ip, src, off, n, tot, f). n - tot)") (auto simp: min_def)

definition writei :: "nat \<Rightarrow> (nat \<Rightarrow> nat \<Rightarrow> byte list option) \<Rightarrow> u64 \<Rightarrow> u64 \<Rightarrow> fs \<Rightarrow> (int \<times> fs) option" where
  "writei ip src off n f =
     (if syncing (cache f) > 0 then Some (- EBUSY, f)
      else do {
        let f1 = add_operating 1 f;
        i \<leftarrow> get_ino ip f1;
        if off > ucast (i_size i) \<or> off + n < off then Some (-1, f1)
        else if unat (off + n) > EXT2_TIND_LIMIT * BLKSIZE then Some (-1, f1)
        else do {
          (off', tot, f2) \<leftarrow> writei_loop ip src (unat off) (unat n) 0 f1;
          f3 \<leftarrow> upd_ino ip (\<lambda>i. if off' > unat (i_size i)
                  then set_i_blocks (word_of_nat ((off' div BLKSIZE + 1) * 8)) (set_i_size (word_of_nat off') i) else i) f2;
          f4 \<leftarrow> iupdate ip False f3;
          Some (if tot \<noteq> 0 then int tot else - EIO, add_operating (- 1) f4) } })"

section \<open>Changing the length, dropping a reference\<close>

text \<open>\<open>MIN(BLKSIZE, n)\<close> has the type of \<open>BLKSIZE\<close>, which is \<open>int\<close>.\<close>

definition min_blk :: "u64 \<Rightarrow> u64" where
  "min_blk n = (let b = (ucast n :: 32 word) in scast (if 4096 < sint b then (4096 :: 32 word) else b))"

text \<open>The loop that extends a file with zeros: the result of \<open>writei\<close> is compared as an unsigned number, so an error
  moves \<open>off\<close> as well. The loop need not end.\<close>

partial_function (option) extend_loop :: "nat \<Rightarrow> u64 \<Rightarrow> u64 \<Rightarrow> fs \<Rightarrow> (int \<times> u64 \<times> fs) option" where
  "extend_loop ip len off f =
     (if off < len then do {
        (res, f1) \<leftarrow> writei ip (\<lambda>k n. Some (replicate n 0)) off (min_blk (len - off)) f;
        let r = (word_of_int res :: u64);
        if r > 0 then extend_loop ip len (off + r) f1 else Some (-1, off, f1) }
      else Some (0, off, f))"

fun shrink_loop :: "nat \<Rightarrow> int list \<Rightarrow> fs \<Rightarrow> fs option" where
  "shrink_loop ip [] f = Some f"
| "shrink_loop ip (i # is) f = do {
     f1 \<leftarrow> bunmap ip (word_of_int ((i - 1) div int BLKSIZE)) f;
     shrink_loop ip is f1 }"

text \<open>The values of the loop counter: from \<open>hi\<close> down in steps of a block, above \<open>lo\<close>.\<close>

function shrink_steps :: "int \<Rightarrow> int \<Rightarrow> int list" where
  "shrink_steps hi lo = (if hi > lo then hi # shrink_steps (hi - int BLKSIZE) lo else [])"
  by auto
termination by (relation "measure (\<lambda>(hi, lo). nat (hi - lo))") auto

declare shrink_steps.simps [simp del]

text \<open>The assertion binds as \<open>(i_blocks == (length == 0)) ? 0 : ...\<close>.\<close>

definition itruncate :: "nat \<Rightarrow> u64 \<Rightarrow> fs \<Rightarrow> (int \<times> fs) option" where
  "itruncate ip len f = do {
     i \<leftarrow> get_ino ip f;
     cassert (i_mtx i);
     if len > ucast (i_size i) then do {
       (r, off, f1) \<leftarrow> extend_loop ip len (ucast (i_size i)) f;
       cassert (r < 0 \<or> off = len);
       f2 \<leftarrow> upd_ino ip (set_i_size (ucast off)) f1;
       Some (r, f2) }
     else if len < ucast (i_size i) then do {
       let lower_bound = (ucast (alignaddr_up len 4096) :: u32);
       f1 \<leftarrow> shrink_loop ip (shrink_steps (uint (i_size i)) (uint lower_bound)) f;
       i1 \<leftarrow> get_ino ip f1;
       cassert ((if i_blocks i1 = (if len = 0 then 1 else 0) then 0 else ((len - 1) div 4096 + 1) * 8) \<noteq> 0);
       f2 \<leftarrow> upd_ino ip (set_i_size (ucast len)) f1;
       f3 \<leftarrow> iupdate ip False f2;
       Some (0, f3) }
     else Some (0, f) }"

definition iput :: "nat option \<Rightarrow> fs \<Rightarrow> fs option" where
  "iput p f = (case p of None \<Rightarrow> Some f
     | Some ip \<Rightarrow> do {
         i \<leftarrow> get_ino ip f;
         f1 \<leftarrow> (if i_count i = 1 \<and> i_valid i \<and> i_links_count i = 0 then do {
                  cassert (\<not> i_mtx i);
                  g1 \<leftarrow> upd_ino ip (\<lambda>i. i\<lparr>i_mtx := True\<rparr>) f;
                  g2 \<leftarrow> ifree (i_dev i) (i_no i) g1;
                  (_, g3) \<leftarrow> itruncate ip 0 g2;
                  upd_ino ip (\<lambda>i. i\<lparr>i_valid := False, i_mtx := False\<rparr>) g3 }
                else Some f);
         upd_ino ip (\<lambda>i. i\<lparr>i_count := i_count i - 1\<rparr>) f1 })"

definition iunlockput :: "nat option \<Rightarrow> fs \<Rightarrow> fs option" where
  "iunlockput p f = do { f1 \<leftarrow> iunlock p f; iput p f1 }"

record stat_t =
  st_dev :: u32
  st_ino :: u32
  st_mode :: u16
  st_nlink :: u16
  st_uid :: u16
  st_gid :: u16
  st_rdev :: u32
  st_size :: u64
  st_blksize :: u64
  st_blocks :: u32
  st_atime :: u32
  st_mtime :: u32
  st_ctime :: u32

definition stati :: "m_inode_t \<Rightarrow> stat_t" where
  "stati ip = \<lparr>st_dev = i_dev ip, st_ino = i_no ip, st_mode = i_mode ip, st_nlink = i_links_count ip,
     st_uid = get16 (d_inode_ctnt ip) 2, st_gid = get16 (d_inode_ctnt ip) 24, st_rdev = i_block ip 0,
     st_size = ucast (i_size ip), st_blksize = 4096, st_blocks = ucast (div_round_up (ucast (i_size ip)) 512),
     st_atime = get32 (d_inode_ctnt ip) 8, st_mtime = get32 (d_inode_ctnt ip) 16, st_ctime = get32 (d_inode_ctnt ip) 12\<rparr>"

section \<open>One entry per inode\<close>

definition ino_key :: "m_inode_t \<Rightarrow> u32 \<times> u32" where
  "ino_key i = (i_dev i, i_no i)"

text \<open>No inode of a real device (the device 0 stands for none) has two entries in the table.\<close>

definition itable_ok :: "fs \<Rightarrow> bool" where
  "itable_ok f \<longleftrightarrow> (\<forall>j<length (m_inodes f). \<forall>k<length (m_inodes f). i_dev (m_inodes f ! j) \<noteq> 0 \<and>
     ino_key (m_inodes f ! j) = ino_key (m_inodes f ! k) \<longrightarrow> j = k)"

lemma iget_scan_found:
  "iget_scan dev ino k ips v = Inl j \<Longrightarrow> k \<le> j \<and> j < k + length ips \<and> ino_key (ips ! (j - k)) = (dev, ino)"
proof (induction ips arbitrary: k v)
  case (Cons ip ips)
  show ?case
  proof (cases "i_dev ip = dev \<and> i_no ip = ino")
    case True
    then show ?thesis using Cons.prems by (auto simp: ino_key_def)
  next
    case False
    have "iget_scan dev ino (k + 1) ips (if v = None \<and> i_count ip = 0 then Some k else v) = Inl j"
      using Cons.prems unfolding iget_scan.simps if_not_P[OF False] .
    from Cons.IH[OF this] show ?thesis by (auto simp: nth_Cons')
  qed
qed simp

lemma iget_scan_vacant:
  "iget_scan dev ino k ips v = Inr r \<Longrightarrow> (\<forall>i\<in>set ips. ino_key i \<noteq> (dev, ino)) \<and>
     (r = v \<or> (\<exists>j. r = Some j \<and> k \<le> j \<and> j < k + length ips \<and> i_count (ips ! (j - k)) = 0)) \<and>
     (v = None \<and> (\<exists>i\<in>set ips. i_count i = 0) \<longrightarrow> r \<noteq> None) \<and> (v \<noteq> None \<longrightarrow> r = v)"
proof (induction ips arbitrary: k v)
  case (Cons ip ips)
  have n: "\<not> (i_dev ip = dev \<and> i_no ip = ino)" using Cons.prems by (auto split: if_splits)
  let ?v = "if v = None \<and> i_count ip = 0 then Some k else v"
  have "iget_scan dev ino (k + 1) ips ?v = Inr r" using Cons.prems n by simp
  note I = Cons.IH[OF this]
  have "ino_key ip \<noteq> (dev, ino)" using n by (auto simp: ino_key_def)
  moreover have "r = v \<or> (\<exists>j. r = Some j \<and> k \<le> j \<and> j < k + length (ip # ips) \<and> i_count ((ip # ips) ! (j - k)) = 0)"
  proof (cases "r = ?v")
    case True
    then show ?thesis by (auto split: if_splits)
  next
    case False
    then obtain j where "r = Some j" "k + 1 \<le> j" "j < k + 1 + length ips" "i_count (ips ! (j - (k + 1))) = 0" using I by blast
    then show ?thesis by (intro disjI2 exI[of _ j]) (simp add: nth_Cons')
  qed
  ultimately show ?case using I by auto
qed simp

text \<open>C6. \<open>iget\<close> keeps at most one entry per inode, so all users of an inode share it: an inode that has an entry gets one
  more reference there and keeps its content, any other gets an entry that nobody refers to; every other entry stays as
  it is. The call only fails to return when the inode has no entry and all entries are in use.\<close>

theorem iget_shares_entry:
  assumes ok: "itable_ok f" and dev: "dev \<noteq> 0"
  shows "(iget dev ino clean f = None \<longleftrightarrow> (\<forall>i\<in>set (m_inodes f). ino_key i \<noteq> (dev, ino) \<and> i_count i \<noteq> 0)) \<and>
    (\<forall>ip t. iget dev ino clean f = Some (ip, t) \<longrightarrow> itable_ok t \<and> cache t = cache f \<and> ip < length (m_inodes f) \<and>
       ino_key (m_inodes t ! ip) = (dev, ino) \<and> i_count (m_inodes t ! ip) = i_count (m_inodes f ! ip) + 1 \<and>
       (\<forall>j. j \<noteq> ip \<longrightarrow> m_inodes t ! j = m_inodes f ! j) \<and> length (m_inodes t) = length (m_inodes f) \<and>
       (if ino_key (m_inodes f ! ip) = (dev, ino) then m_inodes t ! ip = (m_inodes f ! ip)\<lparr>i_count := i_count (m_inodes f ! ip) + 1\<rparr>
        else i_count (m_inodes f ! ip) = 0 \<and> i_valid (m_inodes t ! ip) = clean \<and> (\<forall>i\<in>set (m_inodes f). ino_key i \<noteq> (dev, ino))))"
proof (cases "iget_scan dev ino 0 (m_inodes f) None")
  case (Inl ip)
  from iget_scan_found[OF Inl] have ip: "ip < length (m_inodes f)" "ino_key (m_inodes f ! ip) = (dev, ino)" by simp_all
  let ?t = "f\<lparr>m_inodes := (m_inodes f)[ip := (m_inodes f ! ip)\<lparr>i_count := i_count (m_inodes f ! ip) + 1\<rparr>]\<rparr>"
  have g: "iget dev ino clean f = Some (ip, ?t)" using Inl ip(1) by (simp add: iget_def upd_ino_def get_ino_def)
  have key: "ino_key (m_inodes ?t ! j) = ino_key (m_inodes f ! j)" for j
    using ip(1) by (cases "j = ip") (simp_all add: ino_key_def)
  then have "itable_ok ?t" using ok unfolding itable_ok_def ino_key_def by simp
  then show ?thesis using g ip key[of ip] by auto
next
  case (Inr r)
  note V = iget_scan_vacant[OF Inr]
  show ?thesis
  proof (cases r)
    case None
    then have "\<forall>i\<in>set (m_inodes f). ino_key i \<noteq> (dev, ino) \<and> i_count i \<noteq> 0" using V by auto
    moreover have "iget dev ino clean f = None" using Inr None by (simp add: iget_def)
    ultimately show ?thesis by simp
  next
    case (Some ip)
    then have ip: "ip < length (m_inodes f)" "i_count (m_inodes f ! ip) = 0" using V by auto
    let ?i = "(m_inodes f ! ip)\<lparr>i_dev := dev, i_no := ino, i_block_group := (ino - 1) div s_inodes_per_group f,
            i_count := i_count (m_inodes f ! ip) + 1, i_valid := clean\<rparr>"
    let ?t = "f\<lparr>m_inodes := (m_inodes f)[ip := ?i]\<rparr>"
    have g: "iget dev ino clean f = Some (ip, ?t)" using Inr Some ip(1) by (simp add: iget_def upd_ino_def get_ino_def)
    have no: "ino_key (m_inodes f ! j) \<noteq> (dev, ino)" if "j < length (m_inodes f)" for j using V that by auto
    have "itable_ok ?t"
      unfolding itable_ok_def
    proof (intro allI impI, elim conjE)
      fix j k assume a: "j < length (m_inodes ?t)" "k < length (m_inodes ?t)" "i_dev (m_inodes ?t ! j) \<noteq> 0"
        "ino_key (m_inodes ?t ! j) = ino_key (m_inodes ?t ! k)"
      have ki: "ino_key ?i = (dev, ino)" by (simp add: ino_key_def)
      consider "j = ip" "k = ip" | "j = ip" "k \<noteq> ip" | "j \<noteq> ip" "k = ip" | "j \<noteq> ip" "k \<noteq> ip" by blast
      then show "j = k"
      proof cases
        case 4
        then show ?thesis using a ok by (simp add: itable_ok_def)
      qed (use a ki no[of j] no[of k] ip in auto)
    qed
    moreover have "\<not> (\<forall>i\<in>set (m_inodes f). ino_key i \<noteq> (dev, ino) \<and> i_count i \<noteq> 0)" using ip nth_mem[OF ip(1)] by blast
    moreover have "\<forall>i\<in>set (m_inodes f). ino_key i \<noteq> (dev, ino)" using V by blast
    ultimately show ?thesis using g ip no[OF ip(1)] by (auto simp: ino_key_def)
  qed
qed

text \<open>A table whose first entry is inode 2 of device 1 and whose second is free.\<close>

definition two_inodes :: fs where
  "two_inodes = \<lparr>cache = blk_init (\<lambda>_ _. None) [], d_sb_ctnt = put32 (replicate 1024 0) 40 64, sb_dev = 1, group_descs_table = [],
     m_inodes = [\<lparr>d_inode_ctnt = [], i_mtx = False, i_dev = 1, i_no = 2, i_block_group = 0, i_dirty = False, i_valid = True, i_count = 1\<rparr>,
       \<lparr>d_inode_ctnt = [], i_mtx = False, i_dev = 0, i_no = 0, i_block_group = 0, i_dirty = False, i_valid = False, i_count = 0\<rparr>]\<rparr>"

lemma iget_shares_entry_witness:
  "\<exists>ip t. iget 1 2 False two_inodes = Some (ip, t) \<and> i_count (m_inodes t ! ip) = i_count (m_inodes two_inodes ! ip) + 1 \<and> itable_ok t"
proof -
  have m: "m_inodes two_inodes = [\<lparr>d_inode_ctnt = [], i_mtx = False, i_dev = 1, i_no = 2, i_block_group = 0, i_dirty = False, i_valid = True, i_count = 1\<rparr>,
       \<lparr>d_inode_ctnt = [], i_mtx = False, i_dev = 0, i_no = 0, i_block_group = 0, i_dirty = False, i_valid = False, i_count = 0\<rparr>]"
    by (simp add: two_inodes_def)
  have ok: "itable_ok two_inodes" by (simp add: itable_ok_def m ino_key_def less_Suc_eq)
  have d: "(1 :: u32) \<noteq> 0" by simp
  note S = iget_shares_entry[OF ok d, of 2 False]
  have "iget 1 2 False two_inodes \<noteq> None" using S[THEN conjunct1] by (simp add: m ino_key_def)
  then obtain ip t where g: "iget 1 2 False two_inodes = Some (ip, t)" by auto
  then show ?thesis using S[THEN conjunct2, rule_format, OF g] by blast
qed

end
