(* ===== verification/Ext2_File.thy ===== *)
theory Ext2_File
  imports Ext2_Inode
begin

text \<open>
  The content of a file: the disk block of each file block as a pure function of the disk, and what \<open>bmap\<close>, \<open>readi\<close> and
  \<open>writei\<close> do on a file whose blocks are there.
\<close>

section \<open>File blocks\<close>

fun index_path :: "(u32 \<Rightarrow> byte list option) \<Rightarrow> nat \<Rightarrow> nat \<Rightarrow> u32 \<Rightarrow> (u32 list \<times> u32) option" where
  "index_path dk 0 n a = (if a = 0 then None else Some ([], a))"
| "index_path dk (Suc l) n a = (if a = 0 then None else do {
     d \<leftarrow> dk a;
     (ps, b) \<leftarrow> index_path dk l (n mod EXT2_IND_PER_BLK ^ l) (get32 d (4 * (n div EXT2_IND_PER_BLK ^ l)));
     Some (a # ps, b) })"

text \<open>The number of index blocks on the way, the place below the field, and the field of the inode.\<close>

definition place :: "nat \<Rightarrow> nat \<times> nat \<times> nat" where
  "place n = (if n < EXT2_NDIR_BLOCKS then (0, 0, n)
     else if n < EXT2_IND_LIMIT then (1, n - EXT2_NDIR_BLOCKS, 12)
     else if n < EXT2_DIND_LIMIT then (2, n - EXT2_IND_LIMIT, 13)
     else (3, n - EXT2_DIND_LIMIT, 14))"

definition file_path :: "fs \<Rightarrow> m_inode_t \<Rightarrow> nat \<Rightarrow> (u32 list \<times> u32) option" where
  "file_path f i n = (case place n of (l, n', k) \<Rightarrow> index_path (\<lambda>a. disk f (i_dev i, a)) l n' (i_block i k))"

definition file_block :: "fs \<Rightarrow> m_inode_t \<Rightarrow> nat \<Rightarrow> byte list" where
  "file_block f i n = (case file_path f i n of Some (ps, b) \<Rightarrow> (case disk f (i_dev i, b) of Some d \<Rightarrow> d | None \<Rightarrow> []) | None \<Rightarrow> [])"

definition file_bytes :: "fs \<Rightarrow> m_inode_t \<Rightarrow> nat \<Rightarrow> nat \<Rightarrow> byte list" where
  "file_bytes f i off n = map (\<lambda>k. file_block f i (k div BLKSIZE) ! (k mod BLKSIZE)) [off..<off + n]"

text \<open>The blocks a process may use: cached numbers that it does not hold, present on the disk.\<close>

definition usable :: "(u32 \<times> u32) set \<Rightarrow> (nat \<times> u32 \<times> u32) set \<Rightarrow> fs \<Rightarrow> u32 \<Rightarrow> u32 \<Rightarrow> bool" where
  "usable W H f dev a \<longleftrightarrow> (dev, a) \<in> W \<and> (dev, a) \<notin> snd ` H \<and> disk f (dev, a) \<noteq> None"

definition block_there :: "(u32 \<times> u32) set \<Rightarrow> (nat \<times> u32 \<times> u32) set \<Rightarrow> fs \<Rightarrow> m_inode_t \<Rightarrow> nat \<Rightarrow> bool" where
  "block_there W H f i n \<longleftrightarrow> n < EXT2_TIND_LIMIT \<and>
     (\<exists>ps b. file_path f i n = Some (ps, b) \<and> (\<forall>a\<in>set (b # ps). usable W H f (i_dev i) a))"

section \<open>Looking a block up\<close>

lemma ucast_u32 [simp]: "ucast (ucast (a :: u32) :: u64) = a" "(ucast a :: u64) = 0 \<longleftrightarrow> a = 0"
proof -
  show *: "ucast (ucast a :: u64) = a" for a :: u32 by (rule bit_word_eqI) (simp add: bit_simps)
  show "(ucast a :: u64) = 0 \<longleftrightarrow> a = 0" using *[of a] by (metis unsigned_0)
qed

lemma index_path_nonzero: "index_path dk l n a = Some (ps, b) \<Longrightarrow> b \<noteq> 0 \<and> a \<noteq> 0"
proof (induction l arbitrary: n a ps)
  case 0
  then show ?case by (auto split: if_splits)
next
  case (Suc l)
  from Suc.prems obtain d ps' where "a \<noteq> 0" "index_path dk l (n mod EXT2_IND_PER_BLK ^ l) (get32 d (4 * (n div EXT2_IND_PER_BLK ^ l))) = Some (ps', b)"
    by (auto split: if_splits simp: Option.bind_eq_Some_conv)
  then show ?case using Suc.IH by blast
qed

lemma get_ino_rest: "fs_rest t = fs_rest f \<Longrightarrow> get_ino ip t = get_ino ip f"
  using fs_restD(5)[of t f] by (simp add: get_ino_def)

lemma unat_ucast_64: "unat (ucast (x :: u32) :: u64) = unat x"
proof -
  have "unat x < 2 ^ LENGTH(32)" by (rule unsigned_less)
  then show ?thesis by (simp add: unsigned_ucast_eq take_bit_nat_eq_self)
qed

declare bmap_walk.simps [simp del]

lemma bmap_walk_there:
  assumes "fb.ready W H f" "get_ino ip f = Some i" "index_path (\<lambda>a. disk f (i_dev i, a)) l n a = Some (ps, b)"
    "\<forall>a\<in>set ps. usable W H f (i_dev i) a"
  shows "\<exists>t. bmap_walk ip (if l = 0 then 0 else EXT2_IND_PER_BLK ^ (l - 1)) n (ucast a) f = Some (ucast b, t) \<and> fb.ready W H t \<and>
    disk t = disk f \<and> fs_rest t = fs_rest f"
  using assms
proof (induction l arbitrary: n a ps f)
  case 0
  then show ?case by (auto simp: bmap_walk.simps split: if_splits)
next
  case (Suc l)
  let ?c = "EXT2_IND_PER_BLK ^ l"
  from Suc.prems(3) obtain d ps' where d: "disk f (i_dev i, a) = Some d" "ps = a # ps'"
    "index_path (\<lambda>a. disk f (i_dev i, a)) l (n mod ?c) (get32 d (4 * (n div ?c))) = Some (ps', b)"
    by (auto split: if_splits simp: Option.bind_eq_Some_conv)
  have us: "(i_dev i, a) \<in> W" "(i_dev i, a) \<notin> snd ` H" using Suc.prems(4) d(2) by (simp_all add: usable_def)
  obtain bb t u where T: "bread (i_dev i) a f = Some (bb, t)" "bdata bb t = Some d" "brelse bb t = Some u" "fb.ready W H u"
    "disk u = disk f" "fs_rest u = fs_rest f" using fb.look_at_block[OF Suc.prems(1) us d(1)] by auto
  have g: "get_ino ip u = Some i" using get_ino_rest[OF T(6)] Suc.prems(2) by simp
  have p: "index_path (\<lambda>a. disk u (i_dev i, a)) l (n mod ?c) (get32 d (4 * (n div ?c))) = Some (ps', b)" using d(3) T(5) by simp
  have us': "\<forall>a\<in>set ps'. usable W H u (i_dev i) a" using Suc.prems(4) d(2) T(5) by (simp add: usable_def)
  obtain t' where V: "bmap_walk ip (if l = 0 then 0 else EXT2_IND_PER_BLK ^ (l - 1)) (n mod ?c) (ucast (get32 d (4 * (n div ?c)))) u = Some (ucast b, t')"
    "fb.ready W H t'" "disk t' = disk u" "fs_rest t' = fs_rest u" using Suc.IH[OF T(4) g p us'] by blast
  have nz: "get32 d (4 * (n div ?c)) \<noteq> 0" using index_path_nonzero[OF p] by simp
  have dv: "?c div EXT2_IND_PER_BLK = (if l = 0 then 0 else EXT2_IND_PER_BLK ^ (l - 1))" by (cases l) simp_all
  have "bmap_walk ip ?c n (ucast a) f = bmap_walk ip (?c div EXT2_IND_PER_BLK) (n mod ?c) (ucast (get32 d (4 * (n div ?c)))) u"
    using Suc.prems(2) T(1-3) nz by (subst bmap_walk.simps) simp
  then show ?case using V T(5,6) unfolding dv by simp
qed

lemma bmap_there:
  assumes r: "fb.ready W H f" and i: "get_ino ip f = Some i" and n: "n < EXT2_TIND_LIMIT"
    and p: "file_path f i n = Some (ps, b)" "\<forall>a\<in>set ps. usable W H f (i_dev i) a"
  shows "\<exists>t. bmap ip (word_of_nat n) f = Some (ucast b, t) \<and> fb.ready W H t \<and> disk t = disk f \<and> fs_rest t = fs_rest f"
proof -
  have un: "unat (word_of_nat n :: u32) = n" using n by (simp add: unat_of_nat)
  obtain l n' k where pl: "place n = (l, n', k)" by (metis prod_cases3)
  have pa: "index_path (\<lambda>a. disk f (i_dev i, a)) l n' (i_block i k) = Some (ps, b)" using p(1) pl by (simp add: file_path_def)
  then have nz: "i_block i k \<noteq> 0" using index_path_nonzero by blast
  have bf: "bmap_field ip k f = Some (ucast (i_block i k), f)" using i nz by (simp add: bmap_field_def)
  have u0: "(ucast (i_block i k) :: u64) \<noteq> 0" using nz by simp
  obtain t where T: "bmap_walk ip (if l = 0 then 0 else EXT2_IND_PER_BLK ^ (l - 1)) n' (ucast (i_block i k)) f = Some (ucast b, t)"
    "fb.ready W H t" "disk t = disk f" "fs_rest t = fs_rest f" using bmap_walk_there[OF r i pa p(2)] by blast
  show ?thesis
  proof (cases "n < EXT2_NDIR_BLOCKS")
    case True
    then have "l = 0" "k = n" using pl by (simp_all add: place_def)
    then have "b = i_block i n" using pa nz by simp
    then show ?thesis using bf True un n r \<open>k = n\<close> by (simp add: bmap_def)
  next
    case False
    have "bmap ip (word_of_nat n) f = bmap_walk ip (if l = 0 then 0 else EXT2_IND_PER_BLK ^ (l - 1)) n' (ucast (i_block i k)) f"
      using pl False n bf u0 by (auto simp: bmap_def un place_def split: if_splits)
    then show ?thesis using T by simp
  qed
qed

section \<open>Reading\<close>

text \<open>A kernel buffer as the destination.\<close>

definition kbuf_out :: "nat \<Rightarrow> byte list \<Rightarrow> byte list \<Rightarrow> byte list option" where
  "kbuf_out k xs m = (if k + length xs \<le> length m then Some (put_bytes m k xs) else None)"

lemma file_frame:
  assumes "disk t = disk f"
  shows "file_path t = file_path f" "file_block t = file_block f" "file_bytes t = file_bytes f" "usable W H t = usable W H f"
    "block_there W H t = block_there W H f"
proof -
  show p: "file_path t = file_path f" by (simp add: fun_eq_iff file_path_def assms)
  show b: "file_block t = file_block f" by (simp only: fun_eq_iff file_block_def p assms simp_thms)
  show "file_bytes t = file_bytes f" by (simp add: fun_eq_iff file_bytes_def b)
  show u: "usable W H t = usable W H f" by (simp add: fun_eq_iff usable_def assms)
  show "block_there W H t = block_there W H f" by (simp add: fun_eq_iff block_there_def u p)
qed

lemma length_file_bytes [simp]: "length (file_bytes f i off n) = n"
  by (simp add: file_bytes_def)

lemma file_bytes_add: "file_bytes f i off (k + r) = file_bytes f i off k @ file_bytes f i (off + k) r"
proof -
  have "[off..<off + (k + r)] = [off..<off + k] @ [off + k..<off + k + r]"
    using upt_add_eq_append[of off "off + k" r] by (simp add: add.assoc)
  then show ?thesis by (simp only: file_bytes_def map_append)
qed

lemma file_bytes_block:
  assumes "file_block f i (off div BLKSIZE) = d" "length d = BLKSIZE" "off mod BLKSIZE + k \<le> BLKSIZE"
  shows "file_bytes f i off k = get_bytes d (off mod BLKSIZE) k"
proof (rule nth_equalityI)
  show "length (file_bytes f i off k) = length (get_bytes d (off mod BLKSIZE) k)" using assms by simp
  fix j assume "j < length (file_bytes f i off k)"
  then have j: "j < k" by simp
  have "off + j = off div BLKSIZE * BLKSIZE + (off mod BLKSIZE + j)" by simp
  moreover have "off mod BLKSIZE + j < BLKSIZE" using j assms(3) by simp
  ultimately have "(off + j) div BLKSIZE = off div BLKSIZE" "(off + j) mod BLKSIZE = off mod BLKSIZE + j"
    by (metis add.commute div_mult_self1 div_less add.right_neutral add_0 zero_neq_numeral, metis mod_mult_self3 mod_less)
  then show "file_bytes f i off k ! j = get_bytes d (off mod BLKSIZE) k ! j"
    using j assms by (simp add: file_bytes_def nth_get_bytes)
qed

lemma put_bytes_append:
  assumes "off + length xs + length ys \<le> length m"
  shows "put_bytes (put_bytes m off xs) (off + length xs) ys = put_bytes m off (xs @ ys)"
  using assms by (simp add: put_bytes_def ac_simps)

declare readi_loop.simps [simp del] writei_loop.simps [simp del]

text \<open>The blocks that a transfer of \<open>n\<close> bytes at \<open>off\<close> needs.\<close>

definition range_there :: "(u32 \<times> u32) set \<Rightarrow> (nat \<times> u32 \<times> u32) set \<Rightarrow> fs \<Rightarrow> m_inode_t \<Rightarrow> nat \<Rightarrow> nat \<Rightarrow> bool" where
  "range_there W H f i off n \<longleftrightarrow> (\<forall>j. off < (j + 1) * BLKSIZE \<and> j * BLKSIZE < off + n \<longrightarrow> block_there W H f i j)"

lemma range_there_first: "range_there W H f i off n \<Longrightarrow> 0 < n \<Longrightarrow> block_there W H f i (off div BLKSIZE)"
proof -
  have "off < (off div BLKSIZE + 1) * BLKSIZE" "off div BLKSIZE * BLKSIZE \<le> off" by simp_all
  then show "range_there W H f i off n \<Longrightarrow> 0 < n \<Longrightarrow> block_there W H f i (off div BLKSIZE)" unfolding range_there_def by force
qed

lemma range_there_rest: "range_there W H f i off n \<Longrightarrow> k \<le> n \<Longrightarrow> range_there W H f i (off + k) (n - k)"
  unfolding range_there_def by force

lemma file_block_there:
  assumes "block_there W H f i n"
  obtains ps b d where "file_path f i n = Some (ps, b)" "\<forall>a\<in>set ps. usable W H f (i_dev i) a" "(i_dev i, b) \<in> W"
    "(i_dev i, b) \<notin> snd ` H" "disk f (i_dev i, b) = Some d" "file_block f i n = d" "n < EXT2_TIND_LIMIT"
  using assms by (auto simp: block_there_def usable_def file_block_def)

lemma readi_loop_there:
  assumes "fb.ready W H f" "get_ino ip f = Some i" "range_there W H f i off (n - tot)" "tot \<le> n" "n \<le> length m"
  shows "\<exists>t. readi_loop ip kbuf_out off n tot m f = Some (n, put_bytes m tot (file_bytes f i off (n - tot)), t) \<and> fb.ready W H t \<and>
    disk t = disk f \<and> fs_rest t = fs_rest f"
  using assms
proof (induction "n - tot" arbitrary: off tot m f rule: less_induct)
  case less
  show ?case
  proof (cases "tot < n")
    case False
    then show ?thesis using less.prems by (subst readi_loop.simps) (simp add: file_bytes_def put_bytes_def)
  next
    case True
    define k where kd: "k = min (n - tot) (BLKSIZE - off mod BLKSIZE)"
    have ub: "off mod BLKSIZE < BLKSIZE" by simp
    have k: "0 < k" "k \<le> n - tot" "off mod BLKSIZE + k \<le> BLKSIZE" using True ub by (auto simp: min_def kd)
    have tk: "tot + k \<le> length m" using k(2) less.prems(5) True by simp
    obtain ps b d where P: "file_path f i (off div BLKSIZE) = Some (ps, b)" "\<forall>a\<in>set ps. usable W H f (i_dev i) a" "(i_dev i, b) \<in> W"
      "(i_dev i, b) \<notin> snd ` H" "disk f (i_dev i, b) = Some d" "file_block f i (off div BLKSIZE) = d" "off div BLKSIZE < EXT2_TIND_LIMIT"
      using file_block_there[OF range_there_first[OF less.prems(3)]] True by auto
    have nz: "b \<noteq> 0" using P(1) index_path_nonzero by (auto simp: file_path_def split: prod.splits)
    obtain f1 where B: "bmap ip (word_of_nat (off div BLKSIZE)) f = Some (ucast b, f1)" "fb.ready W H f1" "disk f1 = disk f" "fs_rest f1 = fs_rest f"
      using bmap_there[OF less.prems(1,2) P(7,1,2)] by blast
    have g1: "get_ino ip f1 = Some i" using get_ino_rest[OF B(4)] less.prems(2) by simp
    have d1: "disk f1 (i_dev i, b) = Some d" using P(5) B(3) by simp
    obtain bb f2 f3 where L: "bread (i_dev i) b f1 = Some (bb, f2)" "bdata bb f2 = Some d" "length d = BLKSIZE" "brelse bb f2 = Some f3"
      "fb.ready W H f3" "disk f3 = disk f1" "fs_rest f3 = fs_rest f1" using fb.look_at_block[OF B(2) P(3,4) d1] by auto
    let ?xs = "get_bytes d (off mod BLKSIZE) k"
    have lx: "length ?xs = k" using k(3) L(3) by simp
    have o: "kbuf_out tot ?xs m = Some (put_bytes m tot ?xs)" using lx tk by (simp add: kbuf_out_def)
    have step: "readi_loop ip kbuf_out off n tot m f = readi_loop ip kbuf_out (off + k) n (tot + k) (put_bytes m tot ?xs) f3"
      using True B(1) nz g1 L(1,2,4) o by (subst readi_loop.simps) (simp add: Let_def kd[symmetric])
    have fr: "disk f3 = disk f" "fs_rest f3 = fs_rest f" using B L by simp_all
    have r3: "range_there W H f3 i (off + k) (n - (tot + k))"
      using range_there_rest[OF less.prems(3) k(2)] file_frame(5)[OF fr(1)] by (simp add: range_there_def)
    have g3: "get_ino ip f3 = Some i" using get_ino_rest[OF fr(2)] less.prems(2) by simp
    have h1: "n - (tot + k) < n - tot" and h2: "tot + k \<le> n" using k True by simp_all
    have h3: "n \<le> length (put_bytes m tot ?xs)" using less.prems(5) tk lx by simp
    obtain t where T: "readi_loop ip kbuf_out (off + k) n (tot + k) (put_bytes m tot ?xs) f3 =
        Some (n, put_bytes (put_bytes m tot ?xs) (tot + k) (file_bytes f3 i (off + k) (n - (tot + k))), t)"
      "fb.ready W H t" "disk t = disk f3" "fs_rest t = fs_rest f3"
      using less.hyps[OF h1 L(5) g3 r3 h2 h3] by blast
    have fx: "file_bytes f i off k = ?xs" by (rule file_bytes_block[OF P(6) L(3) k(3)])
    have "n - tot = k + (n - (tot + k))" using k(2) by simp
    then have "file_bytes f i off (n - tot) = ?xs @ file_bytes f i (off + k) (n - (tot + k))"
      using file_bytes_add[of f i off k "n - (tot + k)"] fx by metis
    then have "put_bytes (put_bytes m tot ?xs) (tot + k) (file_bytes f3 i (off + k) (n - (tot + k))) = put_bytes m tot (file_bytes f i off (n - tot))"
      using put_bytes_append[of tot ?xs "file_bytes f i (off + k) (n - (tot + k))" m] lx k(2) less.prems(5) True file_frame(3)[OF fr(1)]
      by simp
    then show ?thesis using step T fr by simp
  qed
qed

lemma add_operating_frame [simp]:
  "disk (add_operating n f) = disk f" "get_ino ip (add_operating n f) = get_ino ip f"
  "fb.ready W H (add_operating n f) = fb.ready W H f" "m_inodes (add_operating n f) = m_inodes f"
  by (simp_all add: add_operating_def disk_def get_ino_def fb.ready_def)

lemma fs_rest_operating: "fs_rest t = fs_rest (add_operating 1 f) \<Longrightarrow> fs_rest (add_operating (- 1) t) = fs_rest f"
  by (simp add: fs_rest_def add_operating_def)

text \<open>The number of bytes that \<open>readi\<close> delivers.\<close>

definition read_length :: "m_inode_t \<Rightarrow> nat \<Rightarrow> nat \<Rightarrow> nat" where
  "read_length i off n = min n (unat (i_size i) - off)"

lemma readi_there:
  assumes r: "fb.ready W H f" and s: "syncing (cache f) = 0" and i: "get_ino ip f = Some i"
    and o: "unat off \<le> unat (i_size i)" "unat off + unat n < 2 ^ 64"
    and there: "range_there W H f i (unat off) (read_length i (unat off) (unat n))" and m: "unat n \<le> length m"
  shows "\<exists>t. readi ip kbuf_out off n m f = Some (int (read_length i (unat off) (unat n)),
      put_bytes m 0 (file_bytes f i (unat off) (read_length i (unat off) (unat n))), t) \<and>
    fb.ready W H t \<and> disk t = disk f \<and> fs_rest t = fs_rest f"
proof -
  let ?l = "read_length i (unat off) (unat n)"
  have us: "unat (ucast (i_size i) :: u64) = unat (i_size i)" by (rule unat_ucast_64)
  have on: "unat (off + n) = unat off + unat n" using o(2) by (simp add: unat_word_ariths)
  have le: "\<not> off > ucast (i_size i)" using o(1) us by (simp add: word_less_nat_alt)
  have nw: "\<not> off + n < off" using on by (simp add: word_less_nat_alt)
  have ln: "unat (if off + n > ucast (i_size i) then ucast (i_size i) - off else n) = ?l"
  proof (cases "off + n > ucast (i_size i)")
    case True
    then have "unat (i_size i) < unat off + unat n" using on us by (simp add: word_less_nat_alt)
    moreover have "unat (ucast (i_size i) - off) = unat (i_size i) - unat off" using le us unat_sub[of off "ucast (i_size i)"] by (simp add: not_less)
    ultimately show ?thesis using True by (simp add: read_length_def)
  next
    case False
    then have "unat off + unat n \<le> unat (i_size i)" using on us by (simp add: word_less_nat_alt)
    then show ?thesis using False by (simp add: read_length_def)
  qed
  have "fb.ready W H (add_operating 1 f)" "get_ino ip (add_operating 1 f) = Some i" using r i by simp_all
  moreover have "range_there W H (add_operating 1 f) i (unat off) (?l - 0)"
    using there file_frame(5)[of "add_operating 1 f" f] by (simp add: range_there_def)
  moreover have "?l \<le> length m" using m by (simp add: read_length_def)
  ultimately obtain t where T: "readi_loop ip kbuf_out (unat off) ?l 0 m (add_operating 1 f) =
      Some (?l, put_bytes m 0 (file_bytes (add_operating 1 f) i (unat off) (?l - 0)), t)" "fb.ready W H t"
    "disk t = disk f" "fs_rest t = fs_rest (add_operating 1 f)"
    using readi_loop_there[of W H "add_operating 1 f" ip i "unat off" ?l 0 m] by auto
  have "readi ip kbuf_out off n m f = Some (int ?l, put_bytes m 0 (file_bytes f i (unat off) ?l), add_operating (- 1) t)"
    using s i le nw T(1) file_frame(3)[of "add_operating 1 f" f] by (simp add: readi_def ln Let_def)
  then show ?thesis using T fs_rest_operating[OF T(4)] by simp
qed

text \<open>C2. While the blocks in use, at most \<open>NBBUF\<close>, fit the buffer cache, \<open>readi\<close> of blocks that are there into a kernel buffer returns the
  number of bytes up to the end of the file, puts exactly the bytes of the file there and leaves the rest of the buffer, the disk, the inodes and the counters as they were; it comes back without
  a buffer held.\<close>

theorem readi_reads_file:
  assumes r: "fb.ready W H f" and s: "syncing (cache f) = 0" and i: "get_ino ip f = Some i"
    and o: "unat off \<le> unat (i_size i)" "unat off + unat n < 2 ^ 64"
    and there: "range_there W H f i (unat off) (read_length i (unat off) (unat n))" and m: "unat n \<le> length m"
  shows "\<exists>t. readi ip kbuf_out off n m f = Some (int (read_length i (unat off) (unat n)),
      put_bytes m 0 (file_bytes f i (unat off) (read_length i (unat off) (unat n))), t) \<and>
    fb.ready W H t \<and> disk t = disk f \<and> fs_rest t = fs_rest f"
  by (rule readi_there[OF assms])

section \<open>Writing\<close>

definition kbuf_in :: "byte list \<Rightarrow> nat \<Rightarrow> nat \<Rightarrow> byte list option" where
  "kbuf_in buf k n = (if k + n \<le> length buf then Some (get_bytes buf k n) else None)"

text \<open>The first \<open>N\<close> blocks of the file are there, no block serves twice, and no block of the file is the block of the
  inode table that holds the inode.\<close>

definition inode_place :: "fs \<Rightarrow> m_inode_t \<Rightarrow> u32" where
  "inode_place f i = EXT2_IBLOCK_NO (i_no i) f"

definition file_ok :: "(u32 \<times> u32) set \<Rightarrow> (nat \<times> u32 \<times> u32) set \<Rightarrow> fs \<Rightarrow> m_inode_t \<Rightarrow> nat \<Rightarrow> bool" where
  "file_ok W H f i N \<longleftrightarrow> (\<forall>j<N. block_there W H f i j) \<and>
     (\<forall>j<N. \<forall>ps b. file_path f i j = Some (ps, b) \<longrightarrow> inode_place f i \<notin> set (b # ps) \<and>
        (\<forall>j'<N. \<forall>ps' b'. file_path f i j' = Some (ps', b') \<longrightarrow> b \<notin> set ps' \<and> (b = b' \<longrightarrow> j = j')))"

lemma file_okD:
  assumes "file_ok W H f i N" "j < N"
  shows "block_there W H f i j" "file_path f i j = Some (ps, b) \<Longrightarrow> inode_place f i \<notin> set (b # ps)"
    "file_path f i j = Some (ps, b) \<Longrightarrow> j' < N \<Longrightarrow> file_path f i j' = Some (ps', b') \<Longrightarrow> b \<notin> set ps' \<and> (b = b' \<longrightarrow> j = j')"
  using assms unfolding file_ok_def by blast+

lemma index_path_agree: "index_path dk l n a = Some (ps, b) \<Longrightarrow> (\<And>x. x \<in> set ps \<Longrightarrow> dk' x = dk x) \<Longrightarrow> index_path dk' l n a = Some (ps, b)"
proof (induction l arbitrary: n a ps)
  case (Suc l)
  from Suc.prems(1) obtain d ps' where d: "a \<noteq> 0" "dk a = Some d" "ps = a # ps'"
    "index_path dk l (n mod EXT2_IND_PER_BLK ^ l) (get32 d (4 * (n div EXT2_IND_PER_BLK ^ l))) = Some (ps', b)"
    by (auto split: if_splits simp: Option.bind_eq_Some_conv)
  have "index_path dk' l (n mod EXT2_IND_PER_BLK ^ l) (get32 d (4 * (n div EXT2_IND_PER_BLK ^ l))) = Some (ps', b)"
    by (rule Suc.IH[OF d(4)]) (simp add: Suc.prems(2) d(3))
  moreover have "dk' a = Some d" using Suc.prems(2)[of a] d by simp
  ultimately show ?case using d by simp
qed simp

lemma file_path_agree:
  assumes "file_path f i n = Some (ps, b)" "\<And>x. x \<in> set ps \<Longrightarrow> disk t (i_dev i, x) = disk f (i_dev i, x)"
  shows "file_path t i n = Some (ps, b)"
proof -
  obtain l n' k where p: "place n = (l, n', k)" by (metis prod_cases3)
  then show ?thesis using assms(1) index_path_agree[of "\<lambda>a. disk f (i_dev i, a)" l n' "i_block i k" ps b "\<lambda>a. disk t (i_dev i, a)"] assms(2)
    by (simp add: file_path_def)
qed

text \<open>Replacing the data block of file block \<open>j\<close>.\<close>

lemma file_block_write:
  assumes ok: "file_ok W H f i N" and j: "j < N" and p: "file_path f i j = Some (ps, b)"
    and t: "disk t = (disk f)((i_dev i, b) := Some d')" and g: "fs_rest t = fs_rest f"
  shows "file_ok W H t i N" "j' < N \<Longrightarrow> file_block t i j' = (if j' = j then d' else file_block f i j')"
proof -
  have same: "\<exists>ps' b'. file_path f i j' = Some (ps', b') \<and> file_path t i j' = Some (ps', b') \<and> (b' = b \<longleftrightarrow> j' = j)" if j': "j' < N" for j'
  proof -
    obtain ps' b' where p': "file_path f i j' = Some (ps', b')" using file_okD(1)[OF ok j'] by (auto simp: block_there_def)
    have "b \<notin> set ps'" using file_okD(3)[OF ok j p j' p'] by blast
    then have "file_path t i j' = Some (ps', b')" by (intro file_path_agree[OF p']) (auto simp: t)
    moreover have "b' = b \<longleftrightarrow> j' = j" using file_okD(3)[OF ok j p j' p'] p p' by auto
    ultimately show ?thesis using p' by blast
  qed
  have eq: "file_path t i j' = file_path f i j'" if "j' < N" for j' using same[OF that] by auto
  have us: "usable W H f (i_dev i) a \<Longrightarrow> usable W H t (i_dev i) a" for a by (auto simp: usable_def t)
  have pl: "inode_place t i = inode_place f i" using fs_restD[OF g] by (simp add: inode_place_def EXT2_IBLOCK_NO_def EXT2_IOFFSET_OFGRP_def)
  have "block_there W H t i k" if "k < N" for k
    using file_okD(1)[OF ok that] eq[OF that] us unfolding block_there_def by (metis (no_types, lifting))
  then show "file_ok W H t i N" using ok eq pl unfolding file_ok_def by (metis (no_types, lifting))
  show "j' < N \<Longrightarrow> file_block t i j' = (if j' = j then d' else file_block f i j')"
    using same[of j'] p by (auto simp: file_block_def t)
qed

text \<open>One byte of the file.\<close>

definition file_byte :: "fs \<Rightarrow> m_inode_t \<Rightarrow> nat \<Rightarrow> byte" where
  "file_byte f i k = file_block f i (k div BLKSIZE) ! (k mod BLKSIZE)"

lemma file_byte_write:
  assumes b: "\<And>j'. j' < N \<Longrightarrow> file_block t i j' = (if j' = off div BLKSIZE then put_bytes d (off mod BLKSIZE) xs else file_block f i j')"
    and d: "file_block f i (off div BLKSIZE) = d" "length d = BLKSIZE" "off mod BLKSIZE + length xs \<le> BLKSIZE" and k: "k < N * BLKSIZE"
  shows "file_byte t i k = (if off \<le> k \<and> k < off + length xs then xs ! (k - off) else file_byte f i k)"
proof -
  have kd: "k div BLKSIZE < N" using k by (simp add: less_mult_imp_div_less)
  have de: "off = off div BLKSIZE * BLKSIZE + off mod BLKSIZE" "k = k div BLKSIZE * BLKSIZE + k mod BLKSIZE" by simp_all
  show ?thesis
  proof (cases "k div BLKSIZE = off div BLKSIZE")
    case True
    have km: "k mod BLKSIZE < length d" using d(2) by simp
    have e: "off \<le> k \<longleftrightarrow> off mod BLKSIZE \<le> k mod BLKSIZE" "k < off + length xs \<longleftrightarrow> k mod BLKSIZE < off mod BLKSIZE + length xs"
      "k - off = k mod BLKSIZE - off mod BLKSIZE" using True de by linarith+
    show ?thesis using b[OF kd] True d nth_put_bytes[of "off mod BLKSIZE" xs d, OF _ km] unfolding file_byte_def e by simp
  next
    case False
    have "\<not> (off \<le> k \<and> k < off + length xs)"
    proof
      assume a: "off \<le> k \<and> k < off + length xs"
      then have "off div BLKSIZE \<le> k div BLKSIZE" by (simp add: div_le_mono)
      then have "off div BLKSIZE + 1 \<le> k div BLKSIZE" using False by simp
      then have "(off div BLKSIZE + 1) * BLKSIZE \<le> k div BLKSIZE * BLKSIZE" by (rule mult_le_mono1)
      then have "off div BLKSIZE * BLKSIZE + BLKSIZE \<le> k div BLKSIZE * BLKSIZE" by simp
      then have "off div BLKSIZE * BLKSIZE + BLKSIZE \<le> k" using de(2) by linarith
      moreover have "k < off div BLKSIZE * BLKSIZE + BLKSIZE" using a d(3) de(1) by linarith
      ultimately show False by linarith
    qed
    then show ?thesis using b[OF kd] False unfolding file_byte_def by simp blast
  qed
qed

lemma file_ok_range: "file_ok W H f i N \<Longrightarrow> off + n \<le> N * BLKSIZE \<Longrightarrow> range_there W H f i off n"
proof -
  assume ok: "file_ok W H f i N" and le: "off + n \<le> N * BLKSIZE"
  have "j < N" if "j * BLKSIZE < off + n" for j
  proof -
    have "j * BLKSIZE < N * BLKSIZE" using that le by linarith
    then show ?thesis by simp
  qed
  then show ?thesis using file_okD(1)[OF ok] unfolding range_there_def by blast
qed

text \<open>Only data blocks of the file change.\<close>

definition only_data :: "fs \<Rightarrow> fs \<Rightarrow> m_inode_t \<Rightarrow> nat \<Rightarrow> bool" where
  "only_data f t i N \<longleftrightarrow> (\<forall>x. disk t x \<noteq> disk f x \<longrightarrow> (\<exists>j<N. \<exists>ps b. file_path f i j = Some (ps, b) \<and> x = (i_dev i, b)))"

lemma writei_loop_there:
  assumes "fb.ready W H f" "get_ino ip f = Some i" "file_ok W H f i N" "off + (n - tot) \<le> N * BLKSIZE" "tot \<le> n" "n \<le> length buf"
  shows "\<exists>t. writei_loop ip (kbuf_in buf) off n tot f = Some (off + (n - tot), n, t) \<and> fb.ready W H t \<and> fs_rest t = fs_rest f \<and>
    file_ok W H t i N \<and> (\<forall>j<N. file_path t i j = file_path f i j) \<and> only_data f t i N \<and>
    (\<forall>k<N * BLKSIZE. file_byte t i k = (if off \<le> k \<and> k < off + (n - tot) then buf ! (tot + (k - off)) else file_byte f i k))"
  using assms
proof (induction "n - tot" arbitrary: off tot f rule: less_induct)
  case less
  show ?case
  proof (cases "tot < n")
    case False
    then show ?thesis using less.prems by (subst writei_loop.simps) (auto simp: only_data_def)
  next
    case True
    define k where kd: "k = min (n - tot) (BLKSIZE - off mod BLKSIZE)"
    have ub: "off mod BLKSIZE < BLKSIZE" by simp
    have k: "0 < k" "k \<le> n - tot" "off mod BLKSIZE + k \<le> BLKSIZE" using True ub by (auto simp: min_def kd)
    have tk: "tot + k \<le> length buf" using k(2) less.prems(6) True by simp
    have jN: "off div BLKSIZE < N" using less.prems(4) True by (simp add: less_mult_imp_div_less)
    obtain ps b d where P: "file_path f i (off div BLKSIZE) = Some (ps, b)" "\<forall>a\<in>set ps. usable W H f (i_dev i) a" "(i_dev i, b) \<in> W"
      "(i_dev i, b) \<notin> snd ` H" "disk f (i_dev i, b) = Some d" "file_block f i (off div BLKSIZE) = d" "off div BLKSIZE < EXT2_TIND_LIMIT"
      using file_block_there[OF file_okD(1)[OF less.prems(3) jN]] by auto
    have nz: "b \<noteq> 0" using P(1) index_path_nonzero by (auto simp: file_path_def split: prod.splits)
    obtain f1 where B: "bmap ip (word_of_nat (off div BLKSIZE)) f = Some (ucast b, f1)" "fb.ready W H f1" "disk f1 = disk f" "fs_rest f1 = fs_rest f"
      using bmap_there[OF less.prems(1,2) P(7,1,2)] by blast
    have g1: "get_ino ip f1 = Some i" using get_ino_rest[OF B(4)] less.prems(2) by simp
    have d1: "disk f1 (i_dev i, b) = Some d" using P(5) B(3) by simp
    let ?xs = "get_bytes buf tot k"
    have lx: "length ?xs = k" using tk by simp
    have ld: "length d = BLKSIZE" using fb.look_at_block[OF B(2) P(3,4) d1] by blast
    have lp: "length (put_bytes d (off mod BLKSIZE) ?xs) = BLKSIZE" using ld lx k(3) by simp
    obtain bb f2 f3 f4 where L: "bread (i_dev i) b f1 = Some (bb, f2)" "bdata bb f2 = Some d"
      "bset bb (put_bytes d (off mod BLKSIZE) ?xs) f2 = Some f3" "bwrite bb f3 = Some f4"
      "fb.ready W H f4" "disk f4 = (disk f1)((i_dev i, b) := Some (put_bytes d (off mod BLKSIZE) ?xs))" "fs_rest f4 = fs_rest f1"
      using fb.change_block[OF B(2) P(3,4) d1, of "\<lambda>d. put_bytes d (off mod BLKSIZE) ?xs"] lp by auto
    have src: "kbuf_in buf tot k = Some ?xs" using tk by (simp add: kbuf_in_def)
    have step: "writei_loop ip (kbuf_in buf) off n tot f = writei_loop ip (kbuf_in buf) (off + k) n (tot + k) f4"
      using True B(1) nz g1 L(1-4) src by (subst writei_loop.simps) (simp add: Let_def kd[symmetric])
    have fr: "disk f4 = (disk f)((i_dev i, b) := Some (put_bytes d (off mod BLKSIZE) ?xs))" "fs_rest f4 = fs_rest f" using B L by simp_all
    note FW = file_block_write[OF less.prems(3) jN P(1) fr]
    have g4: "get_ino ip f4 = Some i" using get_ino_rest[OF fr(2)] less.prems(2) by simp
    have h: "n - (tot + k) < n - tot" "off + k + (n - (tot + k)) \<le> N * BLKSIZE" "tot + k \<le> n" using k True less.prems(4) by simp_all
    obtain t where T: "writei_loop ip (kbuf_in buf) (off + k) n (tot + k) f4 = Some (off + k + (n - (tot + k)), n, t)" "fb.ready W H t"
      "fs_rest t = fs_rest f4" "file_ok W H t i N" "\<forall>j<N. file_path t i j = file_path f4 i j" "only_data f4 t i N"
      "\<forall>l<N * BLKSIZE. file_byte t i l = (if off + k \<le> l \<and> l < off + k + (n - (tot + k)) then buf ! (tot + k + (l - (off + k))) else file_byte f4 i l)"
      using less.hyps[OF h(1) L(5) g4 FW(1) h(2,3) less.prems(6)] by blast
    have en: "off + k + (n - (tot + k)) = off + (n - tot)" using k(2) True by simp
    have fp: "file_path f4 i j = file_path f i j" if j': "j < N" for j
    proof -
      obtain ps' b' where p': "file_path f i j = Some (ps', b')" using file_okD(1)[OF less.prems(3) j'] by (auto simp: block_there_def)
      have "b \<notin> set ps'" using file_okD(3)[OF less.prems(3) jN P(1) j' p'] by blast
      then have "file_path f4 i j = Some (ps', b')" by (intro file_path_agree[OF p']) (auto simp: fr(1))
      then show ?thesis using p' by simp
    qed
    have od: "only_data f t i N" unfolding only_data_def
    proof (intro allI impI)
      fix x assume x: "disk t x \<noteq> disk f x"
      show "\<exists>j<N. \<exists>ps b. file_path f i j = Some (ps, b) \<and> x = (i_dev i, b)"
      proof (cases "disk t x = disk f4 x")
        case True
        then have "x = (i_dev i, b)" using x fr(1) by (auto split: if_splits)
        then show ?thesis using jN P(1) by blast
      next
        case False
        then obtain j ps b where "j < N" "file_path f4 i j = Some (ps, b)" "x = (i_dev i, b)" using T(6) unfolding only_data_def by blast
        then show ?thesis using fp by metis
      qed
    qed
    have by1: "file_byte f4 i l = (if off \<le> l \<and> l < off + k then buf ! (tot + (l - off)) else file_byte f i l)" if l: "l < N * BLKSIZE" for l
    proof (cases "off \<le> l \<and> l < off + k")
      case True
      then have "get_bytes buf tot k ! (l - off) = buf ! (tot + (l - off))" using tk by (intro nth_get_bytes) linarith+
      then show ?thesis using file_byte_write[OF FW(2) P(6) ld _ l] k(3) lx True by simp
    next
      case False
      then show ?thesis using file_byte_write[OF FW(2) P(6) ld _ l] k(3) lx by (simp only: if_False simp_thms)
    qed
    have "file_byte t i l = (if off \<le> l \<and> l < off + (n - tot) then buf ! (tot + (l - off)) else file_byte f i l)" if l: "l < N * BLKSIZE" for l
      using T(7)[rule_format, OF l] by1[OF l] k(2) True unfolding en by auto
    then show ?thesis using step T(1-5) fr(2) fp od unfolding en by simp
  qed
qed

lemma inode_place_slot: "128 * (EXT2_IOFFSET_OFGRP n f mod IPB) + 128 \<le> BLKSIZE"
proof -
  have "EXT2_IOFFSET_OFGRP n f mod IPB < IPB" by simp
  then show ?thesis by linarith
qed

lemma iupdate_ok:
  assumes r: "fb.ready W H f" and i: "get_ino ip f = Some i" "i_valid i" "length (d_inode_ctnt i) = 128"
    and u: "usable W H f (i_dev i) (inode_place f i)"
  shows "\<exists>t d. iupdate ip False f = Some t \<and> fb.ready W H t \<and> fs_rest t = fs_rest f \<and> disk f (i_dev i, inode_place f i) = Some d \<and>
    disk t = (disk f)((i_dev i, inode_place f i) := Some (put_bytes d (128 * (EXT2_IOFFSET_OFGRP (i_no i) f mod IPB)) (d_inode_ctnt i)))"
proof -
  obtain d where d: "(i_dev i, inode_place f i) \<in> W" "(i_dev i, inode_place f i) \<notin> snd ` H" "disk f (i_dev i, inode_place f i) = Some d"
    using u by (auto simp: usable_def)
  let ?s = "128 * (EXT2_IOFFSET_OFGRP (i_no i) f mod IPB)"
  have ld: "length d = BLKSIZE" using fb.look_at_block[OF r d] by blast
  have "length (put_bytes d ?s (d_inode_ctnt i)) = BLKSIZE" using inode_place_slot[of "i_no i" f] ld i(3) by simp
  then obtain bb t u v where "bread (i_dev i) (inode_place f i) f = Some (bb, t)" "bdata bb t = Some d"
    "bset bb (put_bytes d ?s (d_inode_ctnt i)) t = Some u" "bwrite bb u = Some v" "fb.ready W H v"
    "disk v = (disk f)((i_dev i, inode_place f i) := Some (put_bytes d ?s (d_inode_ctnt i)))" "fs_rest v = fs_rest f"
    using fb.change_block[OF r d, of "\<lambda>d. put_bytes d ?s (d_inode_ctnt i)"] by auto
  then show ?thesis using i d(3) by (simp add: iupdate_def inode_place_def Let_def)
qed

text \<open>The inode after a write that ends at \<open>e\<close>.\<close>

definition grown :: "nat \<Rightarrow> m_inode_t \<Rightarrow> m_inode_t" where
  "grown e i = (if e > unat (i_size i) then set_i_blocks (word_of_nat ((e div BLKSIZE + 1) * 8)) (set_i_size (word_of_nat e) i) else i)"

lemma grown_fields:
  assumes l: "length (d_inode_ctnt i) = 128"
  shows "i_dev (grown e i) = i_dev i" "i_no (grown e i) = i_no i" "i_valid (grown e i) = i_valid i" "k < 15 \<Longrightarrow> i_block (grown e i) k = i_block i k"
    "length (d_inode_ctnt (grown e i)) = 128" "e < 2 ^ 32 \<Longrightarrow> unat (i_size (grown e i)) = max e (unat (i_size i))"
proof -
  let ?g = "set_i_blocks (word_of_nat ((e div BLKSIZE + 1) * 8)) (set_i_size (word_of_nat e) i)"
  have g: "d_inode_ctnt ?g = put32 (put32 (d_inode_ctnt i) 4 (word_of_nat e)) 28 (word_of_nat ((e div BLKSIZE + 1) * 8))"
    by (simp add: set_i_blocks_def set_i_size_def)
  have f: "i_dev ?g = i_dev i" "i_no ?g = i_no i" "i_valid ?g = i_valid i" by (simp_all add: set_i_blocks_def set_i_size_def)
  have b: "i_block ?g k = i_block i k" if "k < 15" for k unfolding i_block_def g using l that by simp
  have "i_size ?g = word_of_nat e" unfolding i_size_def g using l by simp
  then have z: "unat (i_size ?g) = e" if "e < 2 ^ 32" using that by (simp add: unat_of_nat)
  show "i_dev (grown e i) = i_dev i" "i_no (grown e i) = i_no i" "i_valid (grown e i) = i_valid i" using f by (simp_all add: grown_def)
  show "k < 15 \<Longrightarrow> i_block (grown e i) k = i_block i k" using b by (simp add: grown_def)
  show "length (d_inode_ctnt (grown e i)) = 128" using l g by (simp add: grown_def)
  show "e < 2 ^ 32 \<Longrightarrow> unat (i_size (grown e i)) = max e (unat (i_size i))" using z by (simp add: grown_def max_def)
qed

lemma file_of_grown:
  assumes "length (d_inode_ctnt i) = 128"
  shows "file_path f (grown e i) = file_path f i" "file_block f (grown e i) = file_block f i" "file_byte f (grown e i) = file_byte f i"
    "inode_place f (grown e i) = inode_place f i" "file_ok W H f (grown e i) N = file_ok W H f i N"
    "range_there W H f (grown e i) = range_there W H f i" "file_bytes f (grown e i) = file_bytes f i"
proof -
  have k: "snd (snd (place n)) < 15" for n by (simp add: place_def)
  show p: "file_path f (grown e i) = file_path f i"
  proof
    fix n
    obtain l n' j where n: "place n = (l, n', j)" by (metis prod_cases3)
    then have "j < 15" using k[of n] by simp
    then show "file_path f (grown e i) n = file_path f i n"
      using grown_fields(4)[OF assms, of j e] grown_fields(1)[OF assms, of e] n by (simp add: file_path_def)
  qed
  show b: "file_block f (grown e i) = file_block f i" by (simp only: fun_eq_iff file_block_def p grown_fields(1)[OF assms] simp_thms)
  show "file_byte f (grown e i) = file_byte f i" by (simp add: fun_eq_iff file_byte_def b)
  show q: "inode_place f (grown e i) = inode_place f i" by (simp add: inode_place_def grown_fields(2)[OF assms])
  have t: "block_there W H f (grown e i) n = block_there W H f i n" for n
    by (simp only: block_there_def p grown_fields(1)[OF assms])
  show "file_ok W H f (grown e i) N = file_ok W H f i N" by (simp only: file_ok_def t p q)
  show "range_there W H f (grown e i) = range_there W H f i" by (simp add: fun_eq_iff range_there_def t)
  show "file_bytes f (grown e i) = file_bytes f i" by (simp add: fun_eq_iff file_bytes_def b)
qed

lemma inode_place_frame [simp]:
  "inode_place (add_operating n f) = inode_place f" "inode_place (f\<lparr>m_inodes := ms\<rparr>) = inode_place f"
  by (simp_all add: fun_eq_iff inode_place_def EXT2_IBLOCK_NO_def EXT2_IOFFSET_OFGRP_def add_operating_def bg_inode_table_def s_inodes_per_group_def)

lemma inode_place_rest: "fs_rest t = fs_rest f \<Longrightarrow> inode_place t = inode_place f"
  using fs_restD[of t f] by (simp add: fun_eq_iff inode_place_def EXT2_IBLOCK_NO_def EXT2_IOFFSET_OFGRP_def)

lemma operating_frame [simp]:
  "file_path (add_operating n f) = file_path f" "file_block (add_operating n f) = file_block f" "file_bytes (add_operating n f) = file_bytes f"
  "usable W H (add_operating n f) = usable W H f" "block_there W H (add_operating n f) = block_there W H f"
  "file_byte (add_operating n f) = file_byte f" "file_ok W H (add_operating n f) = file_ok W H f" "range_there W H (add_operating n f) = range_there W H f"
proof -
  note F = file_frame[of "add_operating n f" f, simplified]
  show "file_path (add_operating n f) = file_path f" "file_block (add_operating n f) = file_block f" "file_bytes (add_operating n f) = file_bytes f"
    "usable W H (add_operating n f) = usable W H f" "block_there W H (add_operating n f) = block_there W H f" by (rule F)+
  show "file_byte (add_operating n f) = file_byte f" by (simp only: fun_eq_iff file_byte_def F simp_thms)
  show "file_ok W H (add_operating n f) = file_ok W H f" by (simp only: fun_eq_iff file_ok_def F inode_place_frame simp_thms)
  show "range_there W H (add_operating n f) = range_there W H f" by (simp only: fun_eq_iff range_there_def F simp_thms)
qed

text \<open>What \<open>writei\<close> from a kernel buffer does to a file whose blocks are there.\<close>

lemma writei_there:
  assumes r: "fb.ready W H f" and s: "syncing (cache f) = 0" and i: "get_ino ip f = Some i" "i_valid i" "length (d_inode_ctnt i) = 128"
    and ok: "file_ok W H f i N" "usable W H f (i_dev i) (inode_place f i)" and N: "N \<le> EXT2_TIND_LIMIT"
    and o: "unat off \<le> unat (i_size i)" "unat off + unat n \<le> N * BLKSIZE" and n: "0 < n" "unat n \<le> length buf"
  shows "\<exists>t. writei ip (kbuf_in buf) off n f = Some (int (unat n), t) \<and> fb.ready W H t \<and>
    m_inodes t = (m_inodes f)[ip := grown (unat off + unat n) i] \<and> counters (cache t) = counters (cache f) \<and>
    file_ok W H t i N \<and> usable W H t (i_dev i) (inode_place t i) \<and> inode_place t i = inode_place f i \<and>
    (\<forall>k<N * BLKSIZE. file_byte t i k = (if unat off \<le> k \<and> k < unat off + unat n then buf ! (k - unat off) else file_byte f i k))"
proof -
  have us: "unat (ucast (i_size i) :: u64) = unat (i_size i)" by (rule unat_ucast_64)
  have lim: "N * BLKSIZE \<le> EXT2_TIND_LIMIT * BLKSIZE" using N by simp
  have on: "unat (off + n) = unat off + unat n" using o(2) lim by (simp add: unat_word_ariths)
  have le: "\<not> off > ucast (i_size i)" using o(1) us by (simp add: word_less_nat_alt)
  have nw: "\<not> off + n < off" using on by (simp add: word_less_nat_alt)
  have nm: "\<not> unat (off + n) > EXT2_TIND_LIMIT * BLKSIZE" using on o(2) lim by simp
  let ?f = "add_operating 1 f"
  have fo: "file_ok W H ?f i N" using ok(1) by simp
  have rf: "fb.ready W H ?f" "get_ino ip ?f = Some i" using r i by simp_all
  have b0: "unat off + (unat n - 0) \<le> N * BLKSIZE" using o(2) by simp
  obtain u where U: "writei_loop ip (kbuf_in buf) (unat off) (unat n) 0 ?f = Some (unat off + (unat n - 0), unat n, u)" "fb.ready W H u"
    "fs_rest u = fs_rest ?f" "file_ok W H u i N" "\<forall>j<N. file_path u i j = file_path ?f i j" "only_data ?f u i N"
    "\<forall>k<N * BLKSIZE. file_byte u i k = (if unat off \<le> k \<and> k < unat off + (unat n - 0) then buf ! (0 + (k - unat off)) else file_byte ?f i k)"
    using writei_loop_there[OF rf fo b0 _ n(2)] by auto
  have gu: "get_ino ip u = Some i" using get_ino_rest[OF U(3)] i(1) by simp
  let ?g = "grown (unat off + unat n) i"
  let ?v = "u\<lparr>m_inodes := (m_inodes u)[ip := ?g]\<rparr>"
  have il: "ip < length (m_inodes u)" using gu by (simp add: get_ino_def)
  have up: "upd_ino ip (\<lambda>i. if unat off + unat n > unat (i_size i)
      then set_i_blocks (word_of_nat (((unat off + unat n) div BLKSIZE + 1) * 8)) (set_i_size (word_of_nat (unat off + unat n)) i) else i) u = Some ?v"
    using gu by (simp add: upd_ino_def grown_def)
  have vd: "disk ?v = disk u" "fb.ready W H ?v" "get_ino ip ?v = Some ?g" using U(2) il by (simp_all add: disk_def fb.ready_def get_ino_def)
  have G: "i_dev ?g = i_dev i" "i_no ?g = i_no i" "i_valid ?g" "length (d_inode_ctnt ?g) = 128" using grown_fields[OF i(3)] i(2) by simp_all
  have pu: "inode_place u i = inode_place f i" using inode_place_rest[OF U(3)] by simp
  have pv: "inode_place ?v ?g = inode_place f i" using pu file_of_grown(4)[OF i(3)] by simp
  have keep: "disk u (i_dev i, inode_place f i) = disk f (i_dev i, inode_place f i)"
  proof (rule ccontr)
    assume "disk u (i_dev i, inode_place f i) \<noteq> disk f (i_dev i, inode_place f i)"
    then have "\<exists>j<N. \<exists>ps b. file_path ?f i j = Some (ps, b) \<and> (i_dev i, inode_place f i) = (i_dev i, b)"
      using U(6)[unfolded only_data_def, rule_format, of "(i_dev i, inode_place f i)"] by simp
    then obtain j ps b where "j < N" "file_path ?f i j = Some (ps, b)" "inode_place f i = b" by auto
    then show False using file_okD(2)[OF fo] by fastforce
  qed
  have uv: "usable W H ?v (i_dev ?g) (inode_place ?v ?g)" using ok(2) keep vd(1) unfolding usable_def pv G(1) by simp
  obtain t d where T: "iupdate ip False ?v = Some t" "fb.ready W H t" "fs_rest t = fs_rest ?v"
    "disk t = (disk ?v)((i_dev ?g, inode_place ?v ?g) := Some (put_bytes d (128 * (EXT2_IOFFSET_OFGRP (i_no ?g) ?v mod IPB)) (d_inode_ctnt ?g)))"
    using iupdate_ok[OF vd(2,3) G(3,4) uv] by blast
  have dt: "disk t = (disk u)((i_dev i, inode_place f i) := Some (put_bytes d (128 * (EXT2_IOFFSET_OFGRP (i_no ?g) ?v mod IPB)) (d_inode_ctnt ?g)))"
    using T(4) unfolding pv G(1) vd(1) .
  have pt: "inode_place t i = inode_place f i" using inode_place_rest[OF T(3)] pu by simp
  have same: "file_path t i j = file_path u i j \<and> file_block t i j = file_block u i j" if j: "j < N" for j
  proof -
    obtain ps b where p: "file_path u i j = Some (ps, b)" using file_okD(1)[OF U(4) j] by (auto simp: block_there_def)
    have ni: "inode_place f i \<notin> set (b # ps)" using file_okD(2)[OF U(4) j p] pu by simp
    then have "file_path t i j = Some (ps, b)" by (intro file_path_agree[OF p]) (auto simp: dt)
    moreover have "disk t (i_dev i, b) = disk u (i_dev i, b)" using ni by (auto simp: dt)
    ultimately show ?thesis using p by (simp add: file_block_def)
  qed
  have us: "usable W H u (i_dev i) a \<Longrightarrow> usable W H t (i_dev i) a" for a by (auto simp: usable_def dt)
  have ft: "file_ok W H t i N"
  proof -
    have "block_there W H t i j" if "j < N" for j
      using file_okD(1)[OF U(4) that] same[OF that] us unfolding block_there_def by (metis (no_types, lifting))
    then show ?thesis using U(4) same pt pu unfolding file_ok_def by (metis (no_types, lifting))
  qed
  have ut: "usable W H t (i_dev i) (inode_place t i)" using ok(2) unfolding pt by (simp add: usable_def dt)
  have by1: "file_byte t i k = (if unat off \<le> k \<and> k < unat off + unat n then buf ! (k - unat off) else file_byte f i k)" if k: "k < N * BLKSIZE" for k
  proof -
    have "k div BLKSIZE < N" using k by (simp add: less_mult_imp_div_less)
    then have "file_byte t i k = file_byte u i k" using same by (simp add: file_byte_def)
    then show ?thesis using U(7) k by simp
  qed
  have mt: "m_inodes t = (m_inodes f)[ip := ?g]" "counters (cache t) = counters (cache ?f)"
    using fs_restD(1,5)[OF T(3)] fs_restD(1,5)[OF U(3)] by (simp_all add: add_operating_def)
  have un: "0 < unat n" using n(1) by (simp add: word_less_nat_alt)
  have "writei ip (kbuf_in buf) off n f = Some (int (unat n), add_operating (- 1) t)"
    using s i(1) le nw nm U(1) up T(1) un by (simp add: writei_def Let_def)
  moreover have "counters (cache (add_operating (- 1) t)) = counters (cache f)" using mt(2) by (simp add: add_operating_def)
  ultimately show ?thesis using T(2) mt(1) ft ut pt by1 by (intro exI[of _ "add_operating (- 1) t"]) simp
qed

lemma file_bytes_byte: "file_bytes f i off n = map (file_byte f i) [off..<off + n]"
  by (simp add: file_bytes_def file_byte_def)

text \<open>C1. Reading what was written, for a write into blocks that the file already has (no block is allocated; the file may grow inside its
  last blocks) and while the blocks in use, at most \<open>NBBUF\<close>, fit the buffer cache: a write of \<open>n\<close> bytes returns \<open>n\<close>, changes no other byte
  of the file, lets its size grow to the end of the write and nothing else of the inode table, and a read of the same range delivers the
  bytes that were written.\<close>

theorem write_read_roundtrip:
  assumes r: "fb.ready W H f" and s: "syncing (cache f) = 0" and i: "get_ino ip f = Some i" "i_valid i" "length (d_inode_ctnt i) = 128"
    and ok: "file_ok W H f i N" "usable W H f (i_dev i) (inode_place f i)" "N \<le> EXT2_TIND_LIMIT"
    and o: "unat off \<le> unat (i_size i)" "unat off + unat n \<le> N * BLKSIZE" "unat off + unat n < 2 ^ 32"
    and n: "0 < n" "unat n = length buf" "length m = length buf"
  shows "\<exists>t u. writei ip (kbuf_in buf) off n f = Some (int (unat n), t) \<and> m_inodes t = (m_inodes f)[ip := grown (unat off + unat n) i] \<and>
    (\<forall>k<N * BLKSIZE. k < unat off \<or> unat off + unat n \<le> k \<longrightarrow> file_byte t i k = file_byte f i k) \<and>
    readi ip kbuf_out off n m t = Some (int (unat n), buf, u) \<and> fb.ready W H u \<and> disk u = disk t"
proof -
  let ?g = "grown (unat off + unat n) i"
  have nb: "unat n \<le> length buf" using n(2) by simp
  obtain t where T: "writei ip (kbuf_in buf) off n f = Some (int (unat n), t)" "fb.ready W H t" "m_inodes t = (m_inodes f)[ip := ?g]"
    "counters (cache t) = counters (cache f)" "file_ok W H t i N"
    "\<forall>k<N * BLKSIZE. file_byte t i k = (if unat off \<le> k \<and> k < unat off + unat n then buf ! (k - unat off) else file_byte f i k)"
    using writei_there[OF r s i ok o(1,2) n(1) nb] by blast
  have gt: "get_ino ip t = Some ?g" using i(1) T(3) by (simp add: get_ino_def)
  have st: "syncing (cache t) = 0" using T(4) s by simp
  have sz: "unat (i_size ?g) = max (unat off + unat n) (unat (i_size i))" by (rule grown_fields(6)[OF i(3) o(3)])
  have rl: "read_length ?g (unat off) (unat n) = unat n" unfolding read_length_def sz by simp
  have ro: "unat off \<le> unat (i_size ?g)" "unat off + unat n < 2 ^ 64" using sz o(1,3) by simp_all
  have th: "range_there W H t ?g (unat off) (read_length ?g (unat off) (unat n))"
    unfolding rl file_of_grown(6)[OF i(3)] by (rule file_ok_range[OF T(5) o(2)])
  obtain u where U: "readi ip kbuf_out off n m t = Some (int (unat n), put_bytes m 0 (file_bytes t ?g (unat off) (unat n)), u)"
    "fb.ready W H u" "disk u = disk t"
    using readi_there[OF T(2) st gt ro th, of m] n(2,3) unfolding rl by auto
  have "file_bytes t i (unat off) (unat n) = buf"
  proof (rule nth_equalityI)
    show "length (file_bytes t i (unat off) (unat n)) = length buf" using n(2) by simp
    fix j assume "j < length (file_bytes t i (unat off) (unat n))"
    then have j: "j < unat n" by simp
    then have "unat off + j < N * BLKSIZE" using o(2) by linarith
    then show "file_bytes t i (unat off) (unat n) ! j = buf ! j" using T(6) j by (simp add: file_bytes_byte)
  qed
  then have "put_bytes m 0 (file_bytes t ?g (unat off) (unat n)) = buf"
    using n(3) file_of_grown(7)[OF i(3)] by (simp add: put_bytes_all)
  then show ?thesis using T(1,3,6) U by auto
qed

section \<open>A file of one block\<close>

definition file_disk :: "u32 \<Rightarrow> u32 \<Rightarrow> byte list option" where
  "file_disk dev blk = (if dev = 0 \<and> blk = 4 then Some (replicate BLKSIZE 0)
     else if dev = 0 \<and> blk = 5 then Some (replicate BLKSIZE 7) else None)"

definition file_inode :: m_inode_t where
  "file_inode = \<lparr>d_inode_ctnt = put32 (put32 (replicate 128 0) 4 100) 40 5, i_mtx = True, i_dev = 0, i_no = 2, i_block_group = 0,
     i_dirty = False, i_valid = True, i_count = 1\<rparr>"

definition file_fs :: fs where
  "file_fs = \<lparr>cache = blk_init file_disk [], d_sb_ctnt = put32 (replicate 1024 0) 40 64, sb_dev = 0,
     group_descs_table = put32 (replicate 64 0) 8 4, m_inodes = [file_inode]\<rparr>"

abbreviation (input) file_W :: "(u32 \<times> u32) set" where "file_W \<equiv> {(0, 4), (0, 5)}"

lemma file_inode_fields:
  "i_size file_inode = 100" "i_block file_inode 0 = 5" "i_dev file_inode = 0" "i_no file_inode = 2" "i_valid file_inode"
  "length (d_inode_ctnt file_inode) = 128"
proof -
  have d: "d_inode_ctnt file_inode = put32 (put32 (replicate 128 0) 4 100) 40 5" by (simp add: file_inode_def del: replicate.simps)
  have "get32 (put32 (put32 (replicate 128 0) 4 100) 40 5) 4 = get32 (put32 (replicate 128 0) 4 100) 4"
    by (rule get32_put32) (simp_all del: replicate.simps)
  also have "\<dots> = 100" by (rule get_put32) (simp del: replicate.simps)
  finally show "i_size file_inode = 100" by (simp add: i_size_def d del: replicate.simps)
  have "get32 (put32 (put32 (replicate 128 0) 4 100) 40 5) 40 = 5" by (rule get_put32) (simp del: replicate.simps)
  then show "i_block file_inode 0 = 5" by (simp add: i_block_def d del: replicate.simps)
  show "i_dev file_inode = 0" "i_no file_inode = 2" "i_valid file_inode" by (simp_all add: file_inode_def del: replicate.simps)
  show "length (d_inode_ctnt file_inode) = 128" unfolding d by (simp del: replicate.simps)
qed

lemma file_fs_facts:
  "fb.ready file_W {} file_fs" "syncing (cache file_fs) = 0" "get_ino 0 file_fs = Some file_inode" "file_ok file_W {} file_fs file_inode 1"
  "usable file_W {} file_fs (i_dev file_inode) (inode_place file_fs file_inode)" "file_block file_fs file_inode 0 = replicate BLKSIZE 7"
proof -
  have w: "whole_blocks file_disk" by (auto simp: whole_blocks_def file_disk_def simp del: replicate.simps split: if_splits)
  have "bs.ready file_W {} (blk_init file_disk [])" by (rule blk_init_ready[OF w]) simp_all
  then show "fb.ready file_W {} file_fs" by (simp add: fb.ready_def bs.ready_def file_fs_def)
  have v: "disk file_fs x = file_disk (fst x) (snd x)" for x
    using blk_init_facts(5)[OF w[unfolded whole_blocks_def, rule_format]] by (simp add: disk_def file_fs_def)
  show "syncing (cache file_fs) = 0" by (simp add: file_fs_def blk_init_def)
  show "get_ino 0 file_fs = Some file_inode" by (simp add: get_ino_def file_fs_def)
  have g: "group_descs_table file_fs = put32 (replicate 64 0) 8 4" "d_sb_ctnt file_fs = put32 (replicate 1024 0) 40 64"
    by (simp_all add: file_fs_def del: replicate.simps)
  have "bg_inode_table file_fs 0 = 4" unfolding bg_inode_table_def g by (subst add_0_right mult_0_right)+ (simp del: replicate.simps)
  moreover have "s_inodes_per_group file_fs = 64" unfolding s_inodes_per_group_def g by (rule get_put32) (simp del: replicate.simps)
  ultimately have pl: "inode_place file_fs file_inode = 4"
    by (simp add: inode_place_def EXT2_IBLOCK_NO_def EXT2_IOFFSET_OFGRP_def file_inode_fields)
  have p: "file_path file_fs file_inode 0 = Some ([], 5)" by (simp add: file_path_def place_def file_inode_fields)
  have u: "usable file_W {} file_fs 0 4" "usable file_W {} file_fs 0 5" by (simp_all add: usable_def v file_disk_def)
  then show "usable file_W {} file_fs (i_dev file_inode) (inode_place file_fs file_inode)" by (simp add: pl file_inode_fields)
  show "file_ok file_W {} file_fs file_inode 1" using u by (simp add: file_ok_def block_there_def p pl file_inode_fields)
  show "file_block file_fs file_inode 0 = replicate BLKSIZE 7"
    by (simp add: file_block_def p v file_disk_def file_inode_fields del: replicate.simps)
qed

lemma readi_reads_file_witness:
  "\<exists>t. readi 0 kbuf_out 98 4 [1, 2, 3, 4] file_fs = Some (2, [7, 7, 3, 4], t) \<and> disk t = disk file_fs"
proof -
  have l: "read_length file_inode (unat (98 :: u64)) (unat (4 :: u64)) = 2" by (simp add: read_length_def file_inode_fields)
  have th: "range_there file_W {} file_fs file_inode (unat (98 :: u64)) (read_length file_inode (unat (98 :: u64)) (unat (4 :: u64)))"
    unfolding l by (rule file_ok_range[OF file_fs_facts(4)]) simp
  have o: "unat (98 :: u64) \<le> unat (i_size file_inode)" "unat (98 :: u64) + unat (4 :: u64) < 2 ^ 64" "unat (4 :: u64) \<le> length [1, 2, 3, 4 :: byte]"
    by (simp_all add: file_inode_fields)
  have b: "file_bytes file_fs file_inode 98 2 = [7, 7]"
    by (simp add: file_bytes_def upt_rec file_fs_facts(6) del: replicate.simps)
  from readi_reads_file[OF file_fs_facts(1-3) o(1,2) th o(3)] obtain t where
    "readi 0 kbuf_out 98 4 [1, 2, 3, 4] file_fs = Some (int 2, put_bytes [1, 2, 3, 4] 0 (file_bytes file_fs file_inode (unat (98 :: u64)) 2), t)"
    "disk t = disk file_fs" unfolding l by blast
  then show ?thesis using b by (simp add: put_bytes_def)
qed

lemma write_read_roundtrip_witness:
  "\<exists>t u. writei 0 (kbuf_in [1, 2, 3]) 100 3 file_fs = Some (3, t) \<and> readi 0 kbuf_out 100 3 [0, 0, 0] t = Some (3, [1, 2, 3], u) \<and>
     file_byte t file_inode 99 = 7"
proof -
  have o: "unat (100 :: u64) \<le> unat (i_size file_inode)" "unat (100 :: u64) + unat (3 :: u64) \<le> 1 * BLKSIZE"
    "unat (100 :: u64) + unat (3 :: u64) < 2 ^ 32" "1 \<le> EXT2_TIND_LIMIT" by (simp_all add: file_inode_fields)
  have n: "0 < (3 :: u64)" "unat (3 :: u64) = length [1, 2, 3 :: byte]" "length [0, 0, 0 :: byte] = length [1, 2, 3 :: byte]" by simp_all
  have b: "file_byte file_fs file_inode 99 = 7" by (simp add: file_byte_def file_fs_facts(6) del: replicate.simps)
  from write_read_roundtrip[OF file_fs_facts(1-3) file_inode_fields(5,6) file_fs_facts(4,5) o(4,1-3) n] obtain t u where
    T: "writei 0 (kbuf_in [1, 2, 3]) 100 3 file_fs = Some (int (unat (3 :: u64)), t)"
    "\<forall>k<1 * BLKSIZE. k < unat (100 :: u64) \<or> unat (100 :: u64) + unat (3 :: u64) \<le> k \<longrightarrow> file_byte t file_inode k = file_byte file_fs file_inode k"
    "readi 0 kbuf_out 100 3 [0, 0, 0] t = Some (int (unat (3 :: u64)), [1, 2, 3], u)" by blast
  have "file_byte t file_inode 99 = 7" using T(2)[rule_format, of 99] b by simp
  then show ?thesis using T by simp
qed

end
