(* ===== verification/Ext2_Dir.thy ===== *)
theory Ext2_Dir
  imports Ext2_File Kstring
begin

text \<open>
  Directories and paths (fs/ext2fs.c). A path or a name is the list of the bytes before its NUL. The buffers for
  directory entries lie on the stack and are not cleared; \<open>stk\<close> is what the stack holds there: first \<open>tmp_de\<close>, then
  \<open>new_de\<close> and the bytes behind it.
\<close>

section \<open>Directory entries\<close>

definition de_inode :: "byte list \<Rightarrow> u32" where "de_inode de = get32 de 0"
definition de_rec_len :: "byte list \<Rightarrow> u16" where "de_rec_len de = get16 de 4"
definition de_name_len :: "byte list \<Rightarrow> u16" where "de_name_len de = get16 de 6"

abbreviation (input) EXT2_DIRENTRY_MAXSIZE :: nat where "EXT2_DIRENTRY_MAXSIZE \<equiv> 263"

definition S_ISDIR :: "u16 \<Rightarrow> bool" where "S_ISDIR mode \<longleftrightarrow> mode AND 0xf000 = 0x4000"
definition S_ISREG :: "u16 \<Rightarrow> bool" where "S_ISREG mode \<longleftrightarrow> mode AND 0xf000 = 0x8000"
definition S_ISBLK :: "u16 \<Rightarrow> bool" where "S_ISBLK mode \<longleftrightarrow> mode AND 0xf000 = 0x6000"
definition S_ISCHR :: "u16 \<Rightarrow> bool" where "S_ISCHR mode \<longleftrightarrow> mode AND 0xf000 = 0x2000"
definition S_ISFIFO :: "u16 \<Rightarrow> bool" where "S_ISFIFO mode \<longleftrightarrow> mode AND 0xf000 = 0x1000"
definition S_IWUSR :: "u16 \<Rightarrow> bool" where "S_IWUSR mode \<longleftrightarrow> mode AND 0x80 \<noteq> 0"

text \<open>\<open>strncmp(name, de->name, n)\<close>: the string at address 0, the entry at address 1024.\<close>

definition name_and_entry :: "byte list \<Rightarrow> byte list \<Rightarrow> mem" where
  "name_and_entry name de = (\<lambda>p. if p < length name then name ! p
     else if 1024 \<le> p \<and> p < 1024 + length de then de ! (p - 1024) else 0)"

definition entry_cmp :: "byte list \<Rightarrow> byte list \<Rightarrow> int" where
  "entry_cmp name de = strncmp (name_and_entry name de) 0 (1024 + 8) (max (length name) (unat (de_name_len de)))"

text \<open>The search of \<open>dirlookup\<close>. An entry whose length is 0 makes it run for ever.\<close>

partial_function (option) dirlookup_loop ::
    "nat \<Rightarrow> byte list \<Rightarrow> u64 \<Rightarrow> byte list \<Rightarrow> fs \<Rightarrow> ((u64 \<times> u32) option \<times> fs) option" where
  "dirlookup_loop ip name off tmp f = do {
     i \<leftarrow> get_ino ip f;
     if off < ucast (i_size i) then do {
       (_, de, f1) \<leftarrow> readi ip kbuf_out off 263 tmp f;
       if de_inode de = 0 then dirlookup_loop ip name (off + ucast (de_rec_len de)) de f1
       else if entry_cmp name de = 0 then Some (Some (off, de_inode de), f1)
       else dirlookup_loop ip name (off + ucast (de_rec_len de)) de f1 }
     else Some (None, f) }"

text \<open>The result: the inode and the offset of its entry.\<close>

definition dirlookup :: "byte list \<times> byte list \<Rightarrow> nat \<Rightarrow> byte list \<Rightarrow> fs \<Rightarrow> ((nat \<times> u64) option \<times> fs) option" where
  "dirlookup stk ip name f = do {
     cassert (length name \<le> EXT2_NAME_LEN);
     i \<leftarrow> get_ino ip f;
     cassert (S_ISDIR (i_mode i));
     (r, f1) \<leftarrow> dirlookup_loop ip name 0 (fst stk) f;
     (case r of None \<Rightarrow> Some (None, f1)
      | Some (off, ino) \<Rightarrow> do {
          (n, f2) \<leftarrow> iget (i_dev i) ino False f1;
          Some (Some (n, off), f2) }) }"

text \<open>The search of \<open>dirlink\<close> for an entry with room behind it; its result is the offset and the last entry read.\<close>

partial_function (option) dirlink_loop :: "nat \<Rightarrow> nat \<Rightarrow> u64 \<Rightarrow> byte list \<Rightarrow> fs \<Rightarrow> (u64 \<times> byte list \<times> fs) option" where
  "dirlink_loop dp namelen off tmp f = do {
     i \<leftarrow> get_ino dp f;
     if off < ucast (i_size i) then do {
       (_, de, f1) \<leftarrow> readi dp kbuf_out off 263 tmp f;
       if de_inode de \<noteq> 0 \<and> ucast (de_rec_len de) - (8 + ucast (de_name_len de)) \<ge> (8 + word_of_nat namelen :: u64)
       then Some (off, de, f1)
       else dirlink_loop dp namelen (off + ucast (de_rec_len de)) de f1 }
     else Some (off, tmp, f) }"

definition dirlink :: "byte list \<times> byte list \<Rightarrow> nat \<Rightarrow> byte list \<Rightarrow> u64 \<Rightarrow> fs \<Rightarrow> (int \<times> fs) option" where
  "dirlink stk dp name ino f = do {
     let namelen = length name;
     cassert (namelen \<le> EXT2_NAME_LEN);
     (found, f1) \<leftarrow> dirlookup stk dp name f;
     (case found of
        Some (ip, _) \<Rightarrow> do { f2 \<leftarrow> iput (Some ip) f1; Some (-1, f2) }
      | None \<Rightarrow> do {
          (off, de1, f2) \<leftarrow> dirlink_loop dp namelen 0 (fst stk) f1;
          let de2 = put_bytes (put16 (put32 (snd stk) 0 (ucast ino)) 6 (word_of_nat namelen)) 8 name;
          i \<leftarrow> get_ino dp f2;
          if i_size i = 0 then do {
            let de2 = put16 de2 4 4096;
            (r, f3) \<leftarrow> writei dp (kbuf_in de2) off 4096 f2;
            Some (if r \<noteq> 4096 then -1 else 0, f3) }
          else do {
            let de1_len = alignaddr_up (8 + ucast (de_name_len de1)) 4;
            let de2_len = alignaddr_up (8 + word_of_nat namelen) 4;
            let de2 = put16 de2 4 (ucast (ucast (de_rec_len de1) - de1_len));
            (r, f3) \<leftarrow> writei dp (kbuf_in de2) (off + de1_len) de2_len f2;
            if (word_of_int r :: u64) \<noteq> de2_len then Some (-1, f3)
            else do {
              (r, f4) \<leftarrow> writei dp (kbuf_in (put16 de1 4 (ucast de1_len))) off de1_len f3;
              Some (if (word_of_int r :: u64) \<noteq> de1_len then -1 else 0, f4) } } }) }"

section \<open>Paths\<close>

abbreviation (input) slash :: byte where "slash \<equiv> 47"

text \<open>The rest of the path and the element, cut to 255 bytes.\<close>

definition skipelem :: "byte list \<Rightarrow> (byte list \<times> byte list) option" where
  "skipelem path =
     (let s = dropWhile (\<lambda>c. c = slash) path
      in if s = [] then None
         else
           let elem = takeWhile (\<lambda>c. c \<noteq> slash) s; rest = dropWhile (\<lambda>c. c \<noteq> slash) s;
             name = (if length elem \<ge> EXT2_NAME_LEN then take EXT2_NAME_LEN elem else elem)
           in Some (dropWhile (\<lambda>c. c = slash) rest, name))"

lemma skipelem_eq:
  "skipelem path = (let s = dropWhile (\<lambda>c. c = slash) path in if s = [] then None
     else Some (dropWhile (\<lambda>c. c = slash) (dropWhile (\<lambda>c. c \<noteq> slash) s), take EXT2_NAME_LEN (takeWhile (\<lambda>c. c \<noteq> slash) s)))"
  by (simp add: skipelem_def Let_def del: dropWhile_eq_Nil_conv)

lemma skipelem_shorter: "skipelem path = Some (rest, name) \<Longrightarrow> length rest < length path"
proof -
  assume a: "skipelem path = Some (rest, name)"
  let ?s = "dropWhile (\<lambda>c. c = slash) path"
  have s: "?s \<noteq> []" using a by (auto simp: skipelem_def Let_def split: if_splits)
  then have h: "hd ?s \<noteq> slash" by (rule hd_dropWhile)
  have r: "rest = dropWhile (\<lambda>c. c = slash) (dropWhile (\<lambda>c. c \<noteq> slash) ?s)" using a s by (simp add: skipelem_eq Let_def del: dropWhile_eq_Nil_conv)
  obtain c cs where c: "?s = c # cs" "c \<noteq> slash" using s h by (cases ?s) auto
  have "length rest \<le> length (dropWhile (\<lambda>c. c \<noteq> slash) cs)" unfolding r c(1) using c(2) by (simp add: length_dropWhile_le)
  also have "\<dots> \<le> length cs" by (rule length_dropWhile_le)
  also have "\<dots> < length ?s" using c(1) by simp
  also have "\<dots> \<le> length path" by (rule length_dropWhile_le)
  finally show ?thesis .
qed

text \<open>The walk; its result is the inode and the last element copied to \<open>name\<close>.\<close>

function namex_loop :: "byte list \<times> byte list \<Rightarrow> nat option \<Rightarrow> byte list \<Rightarrow> bool \<Rightarrow> byte list \<Rightarrow> fs \<Rightarrow>
    (nat option \<times> byte list \<times> fs) option" where
  "namex_loop stk ip path nameiparent name f =
     (case skipelem path of
        None \<Rightarrow> if nameiparent then do { f1 \<leftarrow> iput ip f; Some (None, name, f1) } else Some (ip, name, f)
      | Some (rest, elem) \<Rightarrow> do {
          f1 \<leftarrow> ilock ip f;
          k \<leftarrow> ip;
          i \<leftarrow> get_ino k f1;
          cassert (S_ISDIR (i_mode i));
          if nameiparent \<and> rest = [] then do { f2 \<leftarrow> iunlock ip f1; Some (ip, elem, f2) }
          else do {
            (found, f2) \<leftarrow> dirlookup stk k elem f1;
            f3 \<leftarrow> iunlockput ip f2;
            (case found of None \<Rightarrow> Some (None, elem, f3)
             | Some (nxt, _) \<Rightarrow> namex_loop stk (Some nxt) rest nameiparent elem f3) } })"
  by pat_completeness auto
termination by (relation "measure (\<lambda>(stk, ip, path, np, name, f). length path)") (auto simp: skipelem_shorter)

declare namex_loop.simps [simp del]

text \<open>\<open>icwd\<close> is the current directory of the calling process.\<close>

definition namex :: "byte list \<times> byte list \<Rightarrow> nat option \<Rightarrow> byte list \<Rightarrow> bool \<Rightarrow> fs \<Rightarrow> (nat option \<times> byte list \<times> fs) option" where
  "namex stk icwd path nameiparent f = do {
     (ip, f1) \<leftarrow> (if path \<noteq> [] \<and> hd path = slash then do { (k, f1) \<leftarrow> iget (sb_dev f) 2 False f; Some (Some k, f1) }
                  else idup icwd f);
     namex_loop stk ip path nameiparent [] f1 }"

text \<open>With \<open>copy\<close> the caller's path becomes the last element.\<close>

definition namei :: "byte list \<times> byte list \<Rightarrow> nat option \<Rightarrow> byte list \<Rightarrow> bool \<Rightarrow> fs \<Rightarrow> (nat option \<times> byte list \<times> fs) option" where
  "namei stk icwd path copy f = do {
     (ip, name, f1) \<leftarrow> namex stk icwd path False f;
     Some (ip, if copy then name else path, f1) }"

definition nameiparent :: "byte list \<times> byte list \<Rightarrow> nat option \<Rightarrow> byte list \<Rightarrow> fs \<Rightarrow> (nat option \<times> byte list \<times> fs) option" where
  "nameiparent stk icwd path f = namex stk icwd path True f"

section \<open>The elements of a path\<close>

text \<open>The reference: the pieces between slashes.\<close>

fun pieces :: "byte list \<Rightarrow> byte list list" where
  "pieces [] = [[]]"
| "pieces (c # cs) = (if c = slash then [] # pieces cs else (case pieces cs of p # ps \<Rightarrow> (c # p) # ps | [] \<Rightarrow> [[c]]))"

text \<open>What repeated calls of \<open>skipelem\<close> deliver.\<close>

function path_elems :: "byte list \<Rightarrow> byte list list" where
  "path_elems path = (case skipelem path of None \<Rightarrow> [] | Some (rest, name) \<Rightarrow> name # path_elems rest)"
  by pat_completeness auto
termination by (relation "measure length") (auto simp: skipelem_shorter)

declare path_elems.simps [simp del]

lemma pieces_ne: "pieces cs \<noteq> []"
  by (cases cs) (auto split: list.splits)

lemma pieces_take: "pieces cs = takeWhile (\<lambda>c. c \<noteq> slash) cs #
    (case dropWhile (\<lambda>c. c \<noteq> slash) cs of [] \<Rightarrow> [] | _ # ds \<Rightarrow> pieces ds)"
  by (induction cs) (auto split: list.splits)

lemma pieces_slashes: "filter (\<lambda>p. p \<noteq> []) (pieces (dropWhile (\<lambda>c. c = slash) cs)) = filter (\<lambda>p. p \<noteq> []) (pieces cs)"
  by (induction cs) auto

lemma pieces_after:
  "r \<noteq> [] \<longrightarrow> hd r = slash \<Longrightarrow> filter (\<lambda>p. p \<noteq> []) (case r of [] \<Rightarrow> [] | _ # ds \<Rightarrow> pieces ds) =
     filter (\<lambda>p. p \<noteq> []) (pieces (dropWhile (\<lambda>c. c = slash) r))"
  by (cases r) (simp_all add: pieces_slashes)

lemma skipelem_pieces:
  "filter (\<lambda>p. p \<noteq> []) (pieces path) = (case skipelem path of None \<Rightarrow> []
     | Some (rest, name) \<Rightarrow> takeWhile (\<lambda>c. c \<noteq> slash) (dropWhile (\<lambda>c. c = slash) path) # filter (\<lambda>p. p \<noteq> []) (pieces rest)) \<and>
   (\<forall>rest name. skipelem path = Some (rest, name) \<longrightarrow> name = take EXT2_NAME_LEN (takeWhile (\<lambda>c. c \<noteq> slash) (dropWhile (\<lambda>c. c = slash) path)))"
proof -
  let ?s = "dropWhile (\<lambda>c. c = slash) path"
  show ?thesis
  proof (cases "?s = []")
    case True
    then have "filter (\<lambda>p. p \<noteq> []) (pieces path) = []" using pieces_slashes[of path] by (simp del: dropWhile_eq_Nil_conv)
    then show ?thesis using True by (simp add: skipelem_eq del: dropWhile_eq_Nil_conv)
  next
    case False
    then have h: "hd ?s \<noteq> slash" by (rule hd_dropWhile)
    let ?e = "takeWhile (\<lambda>c. c \<noteq> slash) ?s" and ?r = "dropWhile (\<lambda>c. c \<noteq> slash) ?s"
    have e: "?e \<noteq> []" using False h by (cases ?s) auto
    have k: "skipelem path = Some (dropWhile (\<lambda>c. c = slash) ?r, take EXT2_NAME_LEN ?e)" using False by (simp add: skipelem_eq Let_def del: dropWhile_eq_Nil_conv)
    have "filter (\<lambda>p. p \<noteq> []) (pieces path) = filter (\<lambda>p. p \<noteq> []) (pieces ?s)" by (simp only: pieces_slashes)
    also have "\<dots> = ?e # filter (\<lambda>p. p \<noteq> []) (case ?r of [] \<Rightarrow> [] | _ # ds \<Rightarrow> pieces ds)" by (subst pieces_take) (simp add: e)
    also have "filter (\<lambda>p. p \<noteq> []) (case ?r of [] \<Rightarrow> [] | _ # ds \<Rightarrow> pieces ds) = filter (\<lambda>p. p \<noteq> []) (pieces (dropWhile (\<lambda>c. c = slash) ?r))"
      by (rule pieces_after) (use hd_dropWhile[of "\<lambda>c. c \<noteq> slash" ?s] in blast)
    finally show ?thesis using k by simp
  qed
qed

text \<open>C4. Walking a path with \<open>skipelem\<close> visits exactly the non-empty pieces between its slashes, in order, each cut to 255
  bytes; repeated, leading and trailing slashes make no difference.\<close>

theorem skipelem_walks_pieces:
  "path_elems path = map (take EXT2_NAME_LEN) (filter (\<lambda>p. p \<noteq> []) (pieces path))"
proof (induction path rule: path_elems.induct)
  case (1 path)
  note S = skipelem_pieces[of path]
  show ?case
  proof (cases "skipelem path")
    case None
    then show ?thesis using S by (simp add: path_elems.simps)
  next
    case (Some p)
    obtain rest name where p: "p = (rest, name)" by (cases p)
    have "path_elems rest = map (take EXT2_NAME_LEN) (filter (\<lambda>p. p \<noteq> []) (pieces rest))" by (rule 1[OF Some p[symmetric]])
    then show ?thesis using S Some p by (simp add: path_elems.simps[of path])
  qed
qed

section \<open>Looking a name up\<close>

lemma strncmp_zero:
  "strncmp m a b n = 0 \<longleftrightarrow> (\<forall>k<n. (\<forall>j<k. m (a + j) = m (b + j) \<and> m (a + j) \<noteq> 0) \<longrightarrow> m (a + k) = m (b + k))"
proof (induction n arbitrary: a b)
  case (Suc n)
  have eq: "uint (m a) - uint (m b) = 0 \<longleftrightarrow> m a = m b" by (simp add: word_uint_eq_iff)
  show ?case
  proof (cases "m a \<noteq> 0 \<and> m a = m b")
    case True
    have t: "m b \<noteq> 0" using True by metis
    have "(\<forall>k<Suc n. (\<forall>j<k. m (a + j) = m (b + j) \<and> m (a + j) \<noteq> 0) \<longrightarrow> m (a + k) = m (b + k)) \<longleftrightarrow>
        (\<forall>k<n. (\<forall>j<k. m (a + 1 + j) = m (b + 1 + j) \<and> m (a + 1 + j) \<noteq> 0) \<longrightarrow> m (a + 1 + k) = m (b + 1 + k))"
      unfolding All_less_Suc2 using True t by simp
    then show ?thesis using True t Suc.IH[of "a + 1" "b + 1"] by simp
  next
    case False
    then have "(\<forall>k<Suc n. (\<forall>j<k. m (a + j) = m (b + j) \<and> m (a + j) \<noteq> 0) \<longrightarrow> m (a + k) = m (b + k)) \<longleftrightarrow> m a = m b"
      unfolding All_less_Suc2 by auto
    moreover have "strncmp m a b (Suc n) = 0 \<longleftrightarrow> m a = m b" unfolding strncmp.simps if_not_P[OF False] by (rule eq)
    ultimately show ?thesis by blast
  qed
qed simp

text \<open>The comparison of a name with an entry called \<open>nm\<close>. When \<open>nm\<close> is shorter it goes on behind \<open>nm\<close>.\<close>

lemma entry_cmp_zero:
  assumes n: "length name \<le> EXT2_NAME_LEN" "0 \<notin> set name" and m: "0 \<notin> set nm" "length nm \<le> EXT2_NAME_LEN"
    and de: "length de = EXT2_DIRENTRY_MAXSIZE" "unat (de_name_len de) = length nm" "get_bytes de 8 (length nm) = nm"
  shows "entry_cmp name de = 0 \<longleftrightarrow> nm = name \<or> (length nm < length name \<and> get_bytes de 8 (length name) = name)"
proof -
  let ?m = "name_and_entry name de"
  have a: "?m j = (if j < length name then name ! j else 0)" if "j \<le> 255" for j
    using that n(1) de(1) by (auto simp: name_and_entry_def)
  have b: "?m (1024 + 8 + j) = de ! (8 + j)" if "j < 255" for j
    using that n(1) de(1) by (simp add: name_and_entry_def)
  have nz: "name ! j \<noteq> 0" if "j < length name" for j using that n(2) nth_mem by metis
  have nb: "de ! (8 + j) = nm ! j" "nm ! j \<noteq> 0" if "j < length nm" for j
  proof -
    have "get_bytes de 8 (length nm) ! j = de ! (8 + j)" using that m(2) de(1) by (intro nth_get_bytes) simp_all
    then show "de ! (8 + j) = nm ! j" using de(3) by simp
    show "nm ! j \<noteq> 0" using that m(1) nth_mem by metis
  qed
  let ?n = "max (length name) (length nm)"
  have z: "entry_cmp name de = 0 \<longleftrightarrow> (\<forall>k<?n. (\<forall>j<k. ?m j = ?m (1024 + 8 + j) \<and> ?m j \<noteq> 0) \<longrightarrow> ?m k = ?m (1024 + 8 + k))"
    unfolding entry_cmp_def de(2) strncmp_zero by simp
  show ?thesis
  proof (cases "length nm < length name")
    case True
    have "(\<forall>k<?n. (\<forall>j<k. ?m j = ?m (1024 + 8 + j) \<and> ?m j \<noteq> 0) \<longrightarrow> ?m k = ?m (1024 + 8 + k)) \<longleftrightarrow> (\<forall>k<length name. name ! k = de ! (8 + k))"
    proof
      assume h: "\<forall>k<?n. (\<forall>j<k. ?m j = ?m (1024 + 8 + j) \<and> ?m j \<noteq> 0) \<longrightarrow> ?m k = ?m (1024 + 8 + k)"
      show "\<forall>k<length name. name ! k = de ! (8 + k)"
      proof (intro allI impI)
        fix k show "k < length name \<Longrightarrow> name ! k = de ! (8 + k)"
        proof (induction k rule: less_induct)
          case (less k)
          have J: "?m j = ?m (1024 + 8 + j) \<and> ?m j \<noteq> 0" if "j < k" for j
            using less.IH[OF that] a[of j] b[of j] nz[of j] that less.prems n(1) by simp
          have kn: "k < ?n" using less.prems by simp
          have "?m k = ?m (1024 + 8 + k)" using h[THEN spec, THEN mp, OF kn] J by blast
          then show ?case using a[of k] b[of k] less.prems n(1) by simp
        qed
      qed
    next
      assume "\<forall>k<length name. name ! k = de ! (8 + k)"
      then show "\<forall>k<?n. (\<forall>j<k. ?m j = ?m (1024 + 8 + j) \<and> ?m j \<noteq> 0) \<longrightarrow> ?m k = ?m (1024 + 8 + k)" using a b True n(1) by auto
    qed
    moreover have "get_bytes de 8 (length name) = name \<longleftrightarrow> (\<forall>k<length name. name ! k = de ! (8 + k))"
      using n(1) de(1) by (auto simp: list_eq_iff_nth_eq nth_get_bytes)
    ultimately show ?thesis using z True by auto
  next
    case False
    have "(\<forall>k<?n. (\<forall>j<k. ?m j = ?m (1024 + 8 + j) \<and> ?m j \<noteq> 0) \<longrightarrow> ?m k = ?m (1024 + 8 + k)) \<longleftrightarrow> nm = name"
    proof
      assume h: "\<forall>k<?n. (\<forall>j<k. ?m j = ?m (1024 + 8 + j) \<and> ?m j \<noteq> 0) \<longrightarrow> ?m k = ?m (1024 + 8 + k)"
      have e: "k < length name \<Longrightarrow> name ! k = nm ! k" for k
      proof (induction k rule: less_induct)
        case (less k)
        have J: "?m j = ?m (1024 + 8 + j) \<and> ?m j \<noteq> 0" if "j < k" for j
          using less.IH[OF that] a[of j] b[of j] nz[of j] nb(1)[of j] that less.prems n(1) False by simp
        have kn: "k < ?n" using less.prems by simp
          have "?m k = ?m (1024 + 8 + k)" using h[THEN spec, THEN mp, OF kn] J by blast
        then show ?case using a[of k] b[of k] nb(1)[of k] less.prems n(1) False by simp
      qed
      have "length nm = length name"
      proof (rule ccontr)
        assume "length nm \<noteq> length name"
        then have lt: "length name < length nm" using False by simp
        have J: "?m j = ?m (1024 + 8 + j) \<and> ?m j \<noteq> 0" if "j < length name" for j
          using e[OF that] a[of j] b[of j] nz[of j] nb(1)[of j] that lt n(1) by simp
        have kn: "length name < ?n" using lt by simp
        have "?m (length name) = ?m (1024 + 8 + length name)" using h[THEN spec, THEN mp, OF kn] J by blast
        then show False using a[of "length name"] b[of "length name"] nb[OF lt] lt m(2) by simp
      qed
      then show "nm = name" using e by (simp add: list_eq_iff_nth_eq)
    next
      assume "nm = name"
      then show "\<forall>k<?n. (\<forall>j<k. ?m j = ?m (1024 + 8 + j) \<and> ?m j \<noteq> 0) \<longrightarrow> ?m k = ?m (1024 + 8 + k)" using a b nb n(1) by auto
    qed
    then show ?thesis using z False by simp
  qed
qed

text \<open>A directory as a list of entries: inode, length of the record, name. An entry lies inside the directory with its name,
  and what follows a name does not continue it to the name that is looked for.\<close>

type_synonym dirent = "u32 \<times> u16 \<times> byte list"

definition entry_here :: "fs \<Rightarrow> m_inode_t \<Rightarrow> nat \<Rightarrow> dirent \<Rightarrow> bool" where
  "entry_here f i off e = (case e of (ino, rl, nm) \<Rightarrow>
     let b = file_bytes f i off (8 + length nm)
     in off + 8 + length nm \<le> unat (i_size i) \<and> off + unat rl \<le> unat (i_size i) \<and> rl \<noteq> 0 \<and>
        de_inode b = ino \<and> de_rec_len b = rl \<and> unat (de_name_len b) = length nm \<and> drop 8 b = nm \<and> 0 \<notin> set nm \<and> length nm \<le> EXT2_NAME_LEN)"

definition entry_at :: "fs \<Rightarrow> m_inode_t \<Rightarrow> byte list \<Rightarrow> nat \<Rightarrow> dirent \<Rightarrow> bool" where
  "entry_at f i name off e \<longleftrightarrow> entry_here f i off e \<and>
     (length (snd (snd e)) < length name \<longrightarrow> off + 8 + length (snd (snd e)) < unat (i_size i) \<and>
        file_byte f i (off + 8 + length (snd (snd e))) \<noteq> name ! length (snd (snd e)))"

fun dir_at :: "fs \<Rightarrow> m_inode_t \<Rightarrow> byte list \<Rightarrow> nat \<Rightarrow> dirent list \<Rightarrow> bool" where
  "dir_at f i name off [] \<longleftrightarrow> off = unat (i_size i)"
| "dir_at f i name off (e # es) \<longleftrightarrow> entry_at f i name off e \<and> dir_at f i name (off + unat (fst (snd e))) es"

fun find_entry :: "nat \<Rightarrow> dirent list \<Rightarrow> byte list \<Rightarrow> (u64 \<times> u32) option" where
  "find_entry off [] name = None"
| "find_entry off ((ino, rl, nm) # es) name =
     (if ino \<noteq> 0 \<and> nm = name then Some (word_of_nat off, ino) else find_entry (off + unat rl) es name)"

text \<open>The fields of an entry that lies at the start of the buffer.\<close>

lemma entry_fields:
  assumes "8 \<le> length b" "length b \<le> length m" "length m = length m'"
  shows "de_inode (put_bytes m 0 b) = de_inode b" "de_rec_len (put_bytes m 0 b) = de_rec_len b" "de_name_len (put_bytes m 0 b) = de_name_len b"
proof -
  have n: "put_bytes m 0 b ! k = b ! k" if "k < 8" for k using assms that by (simp add: nth_put_bytes)
  show "de_inode (put_bytes m 0 b) = de_inode b" unfolding de_inode_def by (rule get32_cong) (simp add: n)
  show "de_rec_len (put_bytes m 0 b) = de_rec_len b" unfolding de_rec_len_def by (rule get16_cong) (simp add: n)
  show "de_name_len (put_bytes m 0 b) = de_name_len b" unfolding de_name_len_def by (rule get16_cong) (simp add: n)
qed

lemma entry_prefix: "8 \<le> k \<Longrightarrow> k \<le> length b \<Longrightarrow> de_inode (take k b) = de_inode b \<and> de_rec_len (take k b) = de_rec_len b \<and> de_name_len (take k b) = de_name_len b"
  unfolding de_inode_def de_rec_len_def de_name_len_def by (intro conjI get32_cong get16_cong) simp_all

text \<open>Reading the entry at \<open>off\<close>.\<close>

lemma read_entry_here:
  assumes r: "fb.ready W H f" and s: "syncing (cache f) = 0" and i: "get_ino ip f = Some i"
    and there: "range_there W H f i 0 (unat (i_size i))" and e: "entry_here f i off (ino, rl, nm)"
    and n: "length name \<le> EXT2_NAME_LEN" "0 \<notin> set name" and m: "length m = EXT2_DIRENTRY_MAXSIZE"
  shows "\<exists>de c t. readi ip kbuf_out (word_of_nat off) 263 m f = Some (c, de, t) \<and> fb.ready W H t \<and> disk t = disk f \<and> fs_rest t = fs_rest f \<and>
    length de = EXT2_DIRENTRY_MAXSIZE \<and> de_inode de = ino \<and> de_rec_len de = rl \<and> (entry_cmp name de = 0 \<longleftrightarrow> nm = name \<or> (length nm < length name \<and> get_bytes de 8 (length name) = name)) \<and>
    (\<forall>k. off + 8 + k < unat (i_size i) \<and> k < EXT2_NAME_LEN \<longrightarrow> de ! (8 + k) = file_byte f i (off + 8 + k))"
proof -
  note E = e[unfolded entry_here_def Let_def, simplified]
  let ?L = "read_length i off 263"
  let ?b = "file_bytes f i off ?L" and ?c = "file_bytes f i off (8 + length nm)"
  have sz: "unat (i_size i) < 2 ^ 32" using unsigned_less[of "i_size i"] by simp
  have uo: "unat (word_of_nat off :: u64) = off" using E sz by (simp add: unat_of_nat)
  have o: "unat (word_of_nat off :: u64) \<le> unat (i_size i)" "unat (word_of_nat off :: u64) + unat (263 :: u64) < 2 ^ 64"
    unfolding uo using E sz by simp_all
  have L: "8 + length nm \<le> ?L" "?L \<le> 263" "off + ?L \<le> unat (i_size i)" using E by (auto simp: read_length_def)
  have th: "range_there W H f i (unat (word_of_nat off :: u64)) (read_length i (unat (word_of_nat off :: u64)) (unat (263 :: u64)))"
    using there L(3) unfolding uo range_there_def by auto
  have ml: "unat (263 :: u64) \<le> length m" using m by simp
  let ?de = "put_bytes m 0 ?b"
  obtain t where T: "readi ip kbuf_out (word_of_nat off) 263 m f = Some (int ?L, ?de, t)" "fb.ready W H t" "disk t = disk f" "fs_rest t = fs_rest f"
    using readi_there[OF r s i o th ml] unfolding uo by auto
  have lde: "length ?de = EXT2_DIRENTRY_MAXSIZE" using m L(2) by simp
  have pre: "?c = take (8 + length nm) ?b"
    using file_bytes_add[of f i off "8 + length nm" "?L - (8 + length nm)"] L(1) by simp
  have fl: "de_inode ?de = ino" "de_rec_len ?de = rl" "unat (de_name_len ?de) = length nm"
    using entry_fields[of ?b m m] entry_prefix[of "8 + length nm" ?b] L m E unfolding pre by simp_all
  have dn: "?de ! (8 + k) = ?b ! (8 + k)" if "8 + k < ?L" for k using that L(2) m by (simp add: nth_put_bytes)
  have nm: "get_bytes ?de 8 (length nm) = nm"
  proof (rule nth_equalityI)
    show "length (get_bytes ?de 8 (length nm)) = length nm" using lde E by simp
    fix k assume "k < length (get_bytes ?de 8 (length nm))"
    then have k: "k < length nm" using lde E by simp
    have "get_bytes ?de 8 (length nm) ! k = ?de ! (8 + k)" using k lde E by (intro nth_get_bytes) simp_all
    also have "\<dots> = ?b ! (8 + k)" using k L(1) by (intro dn) simp
    also have "\<dots> = drop 8 ?c ! k" unfolding pre using k L(1) by simp
    finally show "get_bytes ?de 8 (length nm) ! k = nm ! k" using E by simp
  qed
  have "entry_cmp name ?de = 0 \<longleftrightarrow> nm = name \<or> (length nm < length name \<and> get_bytes ?de 8 (length name) = name)"
    by (rule entry_cmp_zero[OF n _ _ lde fl(3) nm]) (use E in simp_all)
  moreover have "?de ! (8 + k) = file_byte f i (off + 8 + k)" if "off + 8 + k < unat (i_size i)" "k < EXT2_NAME_LEN" for k
  proof -
    have in_L: "8 + k < ?L" using that by (auto simp: read_length_def)
    show ?thesis using dn[OF in_L] in_L by (simp add: file_bytes_byte add.assoc)
  qed
  ultimately show ?thesis using T lde fl(1,2) by blast
qed

lemma read_entry:
  assumes r: "fb.ready W H f" and s: "syncing (cache f) = 0" and i: "get_ino ip f = Some i"
    and there: "range_there W H f i 0 (unat (i_size i))" and e: "entry_at f i name off (ino, rl, nm)"
    and n: "length name \<le> EXT2_NAME_LEN" "0 \<notin> set name" and m: "length m = EXT2_DIRENTRY_MAXSIZE"
  shows "\<exists>de c t. readi ip kbuf_out (word_of_nat off) 263 m f = Some (c, de, t) \<and> fb.ready W H t \<and> disk t = disk f \<and> fs_rest t = fs_rest f \<and>
    length de = EXT2_DIRENTRY_MAXSIZE \<and> de_inode de = ino \<and> de_rec_len de = rl \<and> (entry_cmp name de = 0 \<longleftrightarrow> nm = name)"
proof -
  have h: "entry_here f i off (ino, rl, nm)" and c: "length nm < length name \<longrightarrow> off + 8 + length nm < unat (i_size i) \<and>
      file_byte f i (off + 8 + length nm) \<noteq> name ! length nm" using e by (simp_all add: entry_at_def)
  obtain de c t where R: "readi ip kbuf_out (word_of_nat off) 263 m f = Some (c, de, t)" "fb.ready W H t" "disk t = disk f" "fs_rest t = fs_rest f"
    "length de = EXT2_DIRENTRY_MAXSIZE" "de_inode de = ino" "de_rec_len de = rl"
    "entry_cmp name de = 0 \<longleftrightarrow> nm = name \<or> (length nm < length name \<and> get_bytes de 8 (length name) = name)"
    "\<forall>k. off + 8 + k < unat (i_size i) \<and> k < EXT2_NAME_LEN \<longrightarrow> de ! (8 + k) = file_byte f i (off + 8 + k)"
    using read_entry_here[OF r s i there h n m] by blast
  have "get_bytes de 8 (length name) \<noteq> name" if lt: "length nm < length name"
  proof
    assume a: "get_bytes de 8 (length name) = name"
    have "name ! length nm = get_bytes de 8 (length name) ! length nm" using a by simp
    also have "\<dots> = de ! (8 + length nm)" using lt R(5) n(1) by (intro nth_get_bytes) simp_all
    also have "\<dots> = file_byte f i (off + 8 + length nm)" using R(9) c lt n(1) by simp
    finally show False using c lt by simp
  qed
  then show ?thesis using R by blast
qed

lemma dir_frame: "disk t = disk f \<Longrightarrow> dir_at t i name off es = dir_at f i name off es"
proof (induction es arbitrary: off)
  case (Cons e es)
  have b: "file_bytes t = file_bytes f" "file_byte t = file_byte f"
    using file_frame(2,3)[OF Cons.prems] by (simp_all only: fun_eq_iff file_byte_def simp_thms)
  show ?case using Cons.IH[OF Cons.prems] by (simp add: entry_at_def entry_here_def b)
qed simp

lemma dirlookup_loop_finds:
  assumes "fb.ready W H f" "syncing (cache f) = 0" "get_ino ip f = Some i" "range_there W H f i 0 (unat (i_size i))"
    "dir_at f i name off es" "length name \<le> EXT2_NAME_LEN" "0 \<notin> set name" "length m = EXT2_DIRENTRY_MAXSIZE"
  shows "\<exists>t. dirlookup_loop ip name (word_of_nat off) m f = Some (find_entry off es name, t) \<and> fb.ready W H t \<and> disk t = disk f \<and>
    fs_rest t = fs_rest f"
  using assms
proof (induction es arbitrary: off m f)
  case Nil
  have us: "(ucast (i_size i) :: u64) = word_of_nat (unat (i_size i))" by (simp add: word_unat_eq_iff unat_ucast_64)
  have "dirlookup_loop ip name (word_of_nat off) m f = Some (None, f)"
    using Nil.prems(3,5) us by (subst dirlookup_loop.simps) simp
  then show ?case using Nil.prems(1) by simp
next
  case (Cons e es)
  obtain ino rl nm where e: "e = (ino, rl, nm)" by (cases e)
  have at: "entry_at f i name off (ino, rl, nm)" and rest: "dir_at f i name (off + unat rl) es" using Cons.prems(5) e by simp_all
  have lt: "off + 8 \<le> unat (i_size i)" "off + unat rl \<le> unat (i_size i)" using at by (auto simp: entry_at_def entry_here_def Let_def)
  have sz: "unat (i_size i) < 2 ^ 32" using unsigned_less[of "i_size i"] by simp
  have ol: "(word_of_nat off :: u64) < ucast (i_size i)" using lt sz by (simp add: word_less_nat_alt unat_ucast_64 unat_of_nat)
  obtain de c t where R: "readi ip kbuf_out (word_of_nat off) 263 m f = Some (c, de, t)" "fb.ready W H t" "disk t = disk f" "fs_rest t = fs_rest f"
    "length de = EXT2_DIRENTRY_MAXSIZE" "de_inode de = ino" "de_rec_len de = rl" "entry_cmp name de = 0 \<longleftrightarrow> nm = name"
    using read_entry[OF Cons.prems(1-4) at Cons.prems(6-8)] by blast
  show ?case
  proof (cases "ino \<noteq> 0 \<and> nm = name")
    case True
    then have "dirlookup_loop ip name (word_of_nat off) m f = Some (Some (word_of_nat off, ino), t)"
      using Cons.prems(3) ol R by (subst dirlookup_loop.simps) simp
    then show ?thesis using True R e by simp
  next
    case False
    have w: "(word_of_nat off :: u64) + ucast rl = word_of_nat (off + unat rl)" by simp
    have step: "dirlookup_loop ip name (word_of_nat off) m f = dirlookup_loop ip name (word_of_nat (off + unat rl)) de t"
      using Cons.prems(3) ol R(1,6-8) False unfolding w[symmetric] by (subst dirlookup_loop.simps) (cases "ino = 0"; simp)
    have s: "syncing (cache t) = 0" using fs_restD(1)[OF R(4)] Cons.prems(2) by simp
    have g: "get_ino ip t = Some i" using get_ino_rest[OF R(4)] Cons.prems(3) by simp
    have th: "range_there W H t i 0 (unat (i_size i))" using Cons.prems(4) file_frame(5)[OF R(3)] by (simp add: range_there_def)
    have da: "dir_at t i name (off + unat rl) es" using rest dir_frame[OF R(3)] by simp
    obtain u where "dirlookup_loop ip name (word_of_nat (off + unat rl)) de t = Some (find_entry (off + unat rl) es name, u)"
      "fb.ready W H u" "disk u = disk t" "fs_rest u = fs_rest t" using Cons.IH[OF R(2) s g th da Cons.prems(6,7) R(5)] by blast
    then show ?thesis using step False R(3,4) e by auto
  qed
qed

text \<open>C3. In a directory made of entries, such that the bytes behind a name that is shorter than the name looked for never continue it to
  that name (padding and the head of the next entry; otherwise \<open>dirlookup\<close> takes the wrong entry), and while the blocks in use fit the
  buffer cache, \<open>dirlookup\<close> returns, and delivers the inode and the offset of the first entry in use that has the name, or NULL when there
  is none. It changes nothing but the reference count of the inode it found.\<close>

theorem dirlookup_finds_entry:
  assumes r: "fb.ready W H f" and s: "syncing (cache f) = 0" and i: "get_ino ip f = Some i" "S_ISDIR (i_mode i)"
    and d: "range_there W H f i 0 (unat (i_size i))" "dir_at f i name 0 es"
    and n: "length name \<le> EXT2_NAME_LEN" "0 \<notin> set name" and k: "length (fst stk) = EXT2_DIRENTRY_MAXSIZE"
  shows "\<exists>t. fb.ready W H t \<and> disk t = disk f \<and> fs_rest t = fs_rest f \<and>
    dirlookup stk ip name f = (case find_entry 0 es name of None \<Rightarrow> Some (None, t)
      | Some (off, ino) \<Rightarrow> (case iget (i_dev i) ino False t of None \<Rightarrow> None | Some (n, u) \<Rightarrow> Some (Some (n, off), u)))"
proof -
  obtain t where T: "dirlookup_loop ip name (word_of_nat 0) (fst stk) f = Some (find_entry 0 es name, t)" "fb.ready W H t" "disk t = disk f"
    "fs_rest t = fs_rest f" using dirlookup_loop_finds[OF r s i(1) d n k] by blast
  then show ?thesis using i n(1) by (intro exI[of _ t]) (auto simp: dirlookup_def split: option.splits bind_splits)
qed

text \<open>C5. When the name of an entry is a proper prefix of the name looked for and the bytes behind it happen to continue it,
  \<open>dirlookup\<close> takes the entry for the file, because the comparison runs over the longer of the two lengths.\<close>

theorem dirlookup_takes_prefix:
  assumes r: "fb.ready W H f" and s: "syncing (cache f) = 0" and i: "get_ino ip f = Some i" "S_ISDIR (i_mode i)"
    and d: "range_there W H f i 0 (unat (i_size i))" "entry_here f i 0 (ino, rl, nm)" "ino \<noteq> 0"
    and p: "length nm < length name" "8 + length name \<le> unat (i_size i)" "file_bytes f i 8 (length name) = name"
    and n: "length name \<le> EXT2_NAME_LEN" "0 \<notin> set name" and k: "length (fst stk) = EXT2_DIRENTRY_MAXSIZE"
  shows "nm \<noteq> name \<and> (\<exists>t. disk t = disk f \<and> fs_rest t = fs_rest f \<and>
    dirlookup stk ip name f = (case iget (i_dev i) ino False t of None \<Rightarrow> None | Some (n, u) \<Rightarrow> Some (Some (n, 0), u)))"
proof -
  obtain de c t where R: "readi ip kbuf_out (word_of_nat 0) 263 (fst stk) f = Some (c, de, t)" "fb.ready W H t" "disk t = disk f" "fs_rest t = fs_rest f"
    "length de = EXT2_DIRENTRY_MAXSIZE" "de_inode de = ino" "de_rec_len de = rl"
    "entry_cmp name de = 0 \<longleftrightarrow> nm = name \<or> (length nm < length name \<and> get_bytes de 8 (length name) = name)"
    "\<forall>k. 0 + 8 + k < unat (i_size i) \<and> k < EXT2_NAME_LEN \<longrightarrow> de ! (8 + k) = file_byte f i (0 + 8 + k)"
    using read_entry_here[OF r s i(1) d(1,2) n k] by blast
  have "get_bytes de 8 (length name) = name"
  proof (rule nth_equalityI)
    show "length (get_bytes de 8 (length name)) = length name" using R(5) n(1) by simp
    fix j assume "j < length (get_bytes de 8 (length name))"
    then have j: "j < length name" using R(5) n(1) by simp
    have "get_bytes de 8 (length name) ! j = de ! (8 + j)" using j R(5) n(1) by (intro nth_get_bytes) simp_all
    also have "\<dots> = file_bytes f i 8 (length name) ! j" using R(9) j p(2) n(1) by (simp add: file_bytes_byte)
    finally show "get_bytes de 8 (length name) ! j = name ! j" using p(3) by simp
  qed
  then have c: "entry_cmp name de = 0" using R(8) p(1) by simp
  have "(0 :: u64) < ucast (i_size i)" using p(2) by (simp add: word_less_nat_alt unat_ucast_64)
  then have "dirlookup_loop ip name 0 (fst stk) f = Some (Some (0, ino), t)" using i(1) R(1,6) c d(3) by (subst dirlookup_loop.simps) simp
  then have "dirlookup stk ip name f = (case iget (i_dev i) ino False t of None \<Rightarrow> None | Some (n, u) \<Rightarrow> Some (Some (n, 0), u))"
    using i n(1) by (auto simp: dirlookup_def split: option.splits bind_splits)
  then show ?thesis using p(1) R(3,4) by auto
qed

section \<open>A directory of two entries\<close>

text \<open>The entry \<open>a\<close> (inode 11), with a byte \<open>b\<close> left behind its name, and the entry \<open>ab\<close> (inode 12).\<close>

definition dir_bytes :: "byte list" where
  "dir_bytes = [11, 0, 0, 0, 12, 0, 1, 0, 97, 98, 0, 0, 12, 0, 0, 0, 12, 0, 2, 0, 97, 98, 0, 0]"

definition dir_disk :: "u32 \<Rightarrow> u32 \<Rightarrow> byte list option" where
  "dir_disk dev blk = (if dev = 0 \<and> blk = 5 then Some (dir_bytes @ replicate 4072 0) else None)"

definition dir_inode :: m_inode_t where
  "dir_inode = \<lparr>d_inode_ctnt = put32 (put32 (put16 (replicate 128 0) 0 0x4000) 4 24) 40 5, i_mtx = True, i_dev = 0, i_no = 2, i_block_group = 0,
     i_dirty = False, i_valid = True, i_count = 1\<rparr>"

definition dir_fs :: fs where
  "dir_fs = \<lparr>cache = blk_init dir_disk [], d_sb_ctnt = put32 (replicate 1024 0) 40 64, sb_dev = 0, group_descs_table = replicate 64 0,
     m_inodes = [dir_inode, dir_inode\<lparr>i_no := 0, i_count := 0\<rparr>]\<rparr>"

lemma dir_inode_fields: "i_size dir_inode = 24" "i_block dir_inode 0 = 5" "i_dev dir_inode = 0" "S_ISDIR (i_mode dir_inode)"
proof -
  have d: "d_inode_ctnt dir_inode = put32 (put32 (put16 (replicate 128 0) 0 0x4000) 4 24) 40 5" by (simp add: dir_inode_def del: replicate.simps)
  have "get32 (put32 (put32 (put16 (replicate 128 0) 0 0x4000) 4 24) 40 5) 4 = get32 (put32 (put16 (replicate 128 0) 0 0x4000) 4 24) 4"
    by (rule get32_put32) (simp_all del: replicate.simps)
  also have "\<dots> = 24" by (rule get_put32) (simp del: replicate.simps)
  finally show "i_size dir_inode = 24" by (simp add: i_size_def d del: replicate.simps)
  have "get32 (put32 (put32 (put16 (replicate 128 0) 0 0x4000) 4 24) 40 5) 40 = 5" by (rule get_put32) (simp del: replicate.simps)
  then show "i_block dir_inode 0 = 5" by (simp add: i_block_def d del: replicate.simps)
  show "i_dev dir_inode = 0" by (simp add: dir_inode_def)
  have "get16 (put32 (put32 (put16 (replicate 128 0) 0 0x4000) 4 24) 40 5) 0 = get16 (put32 (put16 (replicate 128 0) 0 0x4000) 4 24) 0"
    by (rule get16_put32) (simp_all del: replicate.simps)
  also have "\<dots> = get16 (put16 (replicate 128 0) 0 0x4000) 0" by (rule get16_put32) (simp_all del: replicate.simps)
  also have "\<dots> = 0x4000" by (rule get_put16) (simp del: replicate.simps)
  finally show "S_ISDIR (i_mode dir_inode)" by (simp add: S_ISDIR_def i_mode_def d del: replicate.simps)
qed

lemma dir_fs_facts:
  "fb.ready {(0, 5)} {} dir_fs" "syncing (cache dir_fs) = 0" "get_ino 0 dir_fs = Some dir_inode" "range_there {(0, 5)} {} dir_fs dir_inode 0 24"
  "off + n \<le> 24 \<Longrightarrow> file_bytes dir_fs dir_inode off n = take n (drop off dir_bytes)"
proof -
  have lb: "length (dir_bytes @ replicate 4072 0) = BLKSIZE" by (simp add: dir_bytes_def)
  have w: "whole_blocks dir_disk" using lb by (auto simp: whole_blocks_def dir_disk_def split: if_splits)
  have "bs.ready {(0, 5)} {} (blk_init dir_disk [])" by (rule blk_init_ready[OF w]) simp_all
  then show "fb.ready {(0, 5)} {} dir_fs" by (simp add: fb.ready_def bs.ready_def dir_fs_def)
  have v: "disk dir_fs x = dir_disk (fst x) (snd x)" for x
    using blk_init_facts(5)[OF w[unfolded whole_blocks_def, rule_format]] by (simp add: disk_def dir_fs_def)
  show "syncing (cache dir_fs) = 0" by (simp add: dir_fs_def blk_init_def)
  show "get_ino 0 dir_fs = Some dir_inode" by (simp add: get_ino_def dir_fs_def)
  have p: "file_path dir_fs dir_inode 0 = Some ([], 5)" by (simp add: file_path_def place_def dir_inode_fields)
  have "usable {(0, 5)} {} dir_fs 0 5" by (simp add: usable_def v dir_disk_def)
  then have "block_there {(0, 5)} {} dir_fs dir_inode 0" by (simp add: block_there_def p dir_inode_fields)
  moreover have "j = 0" if "0 < (j + 1) * BLKSIZE \<and> j * BLKSIZE < 0 + 24" for j :: nat using that by (cases j) simp_all
  ultimately show "range_there {(0, 5)} {} dir_fs dir_inode 0 24" unfolding range_there_def by blast
  assume a: "off + n \<le> 24"
  have b: "file_block dir_fs dir_inode (off div BLKSIZE) = dir_bytes @ replicate 4072 0"
    using a by (simp add: file_block_def p v dir_disk_def dir_inode_fields del: replicate.simps)
  have "file_bytes dir_fs dir_inode off n = get_bytes (dir_bytes @ replicate 4072 0) (off mod BLKSIZE) n"
    by (rule file_bytes_block[OF b lb]) (use a in simp)
  also have "off mod BLKSIZE = off" using a by simp
  also have "get_bytes (dir_bytes @ replicate 4072 0) off n = take n (drop off dir_bytes)"
  proof -
    have "length dir_bytes = 24" by (simp add: dir_bytes_def)
    then show ?thesis using a by (simp add: get_bytes_def del: replicate.simps)
  qed
  finally show "file_bytes dir_fs dir_inode off n = take n (drop off dir_bytes)" .
qed

lemma dir_entries:
  "entry_here dir_fs dir_inode 0 (11, 12, [97])" "entry_here dir_fs dir_inode 12 (12, 12, [97, 98])"
proof -
  show "entry_here dir_fs dir_inode 0 (11, 12, [97])"
    by (simp add: entry_here_def dir_inode_fields dir_fs_facts(5) dir_bytes_def de_inode_def de_rec_len_def de_name_len_def get32_def get16_def)
  show "entry_here dir_fs dir_inode 12 (12, 12, [97, 98])"
    by (simp add: entry_here_def dir_inode_fields dir_fs_facts(5) dir_bytes_def de_inode_def de_rec_len_def de_name_len_def get32_def get16_def)
qed

lemma dirlookup_finds_entry_witness:
  "\<exists>t. dirlookup (replicate 263 0, []) 0 [97] dir_fs = (case iget 0 11 False t of None \<Rightarrow> None | Some (n, u) \<Rightarrow> Some (Some (n, 0), u))"
proof -
  have d: "dir_at dir_fs dir_inode [97] 0 [(11, 12, [97]), (12, 12, [97, 98])]"
    using dir_entries by (simp add: entry_at_def dir_inode_fields)
  have th: "range_there {(0, 5)} {} dir_fs dir_inode 0 (unat (i_size dir_inode))" using dir_fs_facts(4) by (simp add: dir_inode_fields)
  have n: "length [97 :: byte] \<le> EXT2_NAME_LEN" "(0 :: byte) \<notin> set [97]" "length (fst (replicate 263 (0 :: byte), [] :: byte list)) = EXT2_DIRENTRY_MAXSIZE"
    by simp_all
  from dirlookup_finds_entry[OF dir_fs_facts(1-3) dir_inode_fields(4) th d n] show ?thesis by (auto simp: dir_inode_fields)
qed

lemma dirlookup_takes_prefix_witness:
  "\<exists>t. dirlookup (replicate 263 0, []) 0 [97, 98] dir_fs = (case iget 0 11 False t of None \<Rightarrow> None | Some (n, u) \<Rightarrow> Some (Some (n, 0), u))"
proof -
  have th: "range_there {(0, 5)} {} dir_fs dir_inode 0 (unat (i_size dir_inode))" using dir_fs_facts(4) by (simp add: dir_inode_fields)
  have z: "(11 :: u32) \<noteq> 0" "length [97 :: byte] < length [97, 98 :: byte]" "8 + length [97, 98 :: byte] \<le> unat (i_size dir_inode)"
    "file_bytes dir_fs dir_inode 8 (length [97, 98 :: byte]) = [97, 98]"
    by (simp_all add: dir_inode_fields dir_fs_facts(5) dir_bytes_def)
  have n: "length [97, 98 :: byte] \<le> EXT2_NAME_LEN" "(0 :: byte) \<notin> set [97, 98]"
    "length (fst (replicate 263 (0 :: byte), [] :: byte list)) = EXT2_DIRENTRY_MAXSIZE" by simp_all
  from dirlookup_takes_prefix[OF dir_fs_facts(1-3) dir_inode_fields(4) th dir_entries(1) z n] show ?thesis by (auto simp: dir_inode_fields)
qed

end
