(* ===== verification/Pipe.thy ===== *)
theory Pipe
  imports Ring_Queue
begin

text \<open>
  Pipes (kernel/file/pipe.c): a ring queue of bytes between a writer and a reader. Each definition is a critical
  section of the pipe's lock. An operation that goes to sleep returns \<open>Sleep i\<close>, where \<open>i\<close> is its progress, and is called
  again with it when it is woken. Beside the pipe a call returns the processes it woke.
\<close>

section \<open>Operations\<close>

record pipe_t =
  pipe :: "byte queue_meta_t"
  readopen :: bool
  writeopen :: bool
  read_wait :: "nat list"
  write_wait :: "nat list"

datatype outcome = Done int | Sleep nat

text \<open>The flag says that the pipe's page is freed.\<close>

definition pipeclose :: "bool \<Rightarrow> pipe_t \<Rightarrow> bool \<times> nat list \<times> pipe_t" where
  "pipeclose W p =
     (let (woken, p1) = (if W then (read_wait p, p\<lparr>writeopen := False, read_wait := []\<rparr>)
        else (write_wait p, p\<lparr>readopen := False, write_wait := []\<rparr>))
      in (\<not> readopen p1 \<and> \<not> writeopen p1, woken, p1))"

text \<open>\<open>src i\<close> is the byte at offset \<open>i\<close> of the user's buffer (\<open>None\<close>: the assertion on \<open>copyin\<close> fails).\<close>

function pipewrite :: "(nat \<Rightarrow> byte option) \<Rightarrow> bool \<Rightarrow> nat \<Rightarrow> nat \<Rightarrow> nat \<Rightarrow> pipe_t \<Rightarrow> (outcome \<times> nat list \<times> pipe_t) option" where
  "pipewrite src killed me n i p =
     (if i < n then
        if \<not> readopen p \<or> killed then Some (Done 0, [], p)
        else if queue_full (pipe p) then Some (Sleep i, read_wait p, p\<lparr>read_wait := [], write_wait := me # write_wait p\<rparr>)
        else do {
          ch \<leftarrow> src i;
          q \<leftarrow> queue_push (pipe p) ch;
          pipewrite src killed me n (i + 1) (p\<lparr>pipe := q\<rparr>) }
      else Some (Done (int i), read_wait p, p\<lparr>read_wait := []\<rparr>))"
  by pat_completeness auto
termination by (relation "measure (\<lambda>(src, killed, me, n, i, p). n - i)") auto

text \<open>\<open>out i ch m\<close> stores a byte at offset \<open>i\<close> of the user's buffer.\<close>

function piperead_loop :: "(nat \<Rightarrow> byte \<Rightarrow> 'm \<Rightarrow> 'm option) \<Rightarrow> nat \<Rightarrow> nat \<Rightarrow> 'm \<Rightarrow> pipe_t \<Rightarrow> (nat \<times> 'm \<times> pipe_t) option" where
  "piperead_loop out n i m p =
     (if i < n then
        if queue_empty (pipe p) then Some (i, m, p)
        else do {
          ch \<leftarrow> queue_front (pipe p);
          q \<leftarrow> queue_front_pop (pipe p);
          m1 \<leftarrow> out i ch m;
          piperead_loop out n (i + 1) m1 (p\<lparr>pipe := q\<rparr>) }
      else Some (i, m, p))"
  by pat_completeness auto
termination by (relation "measure (\<lambda>(out, n, i, m, p). n - i)") auto

definition piperead :: "(nat \<Rightarrow> byte \<Rightarrow> 'm \<Rightarrow> 'm option) \<Rightarrow> bool \<Rightarrow> nat \<Rightarrow> nat \<Rightarrow> 'm \<Rightarrow> pipe_t \<Rightarrow> (outcome \<times> nat list \<times> 'm \<times> pipe_t) option" where
  "piperead out killed me n m p =
     (if queue_empty (pipe p) \<and> writeopen p then
        if killed then Some (Done 0, [], m, p)
        else Some (Sleep 0, [], m, p\<lparr>read_wait := me # read_wait p\<rparr>)
      else do {
        (i, m1, p1) \<leftarrow> piperead_loop out n 0 m p;
        Some (Done (int i), write_wait p1, m1, p1\<lparr>write_wait := []\<rparr>) })"

declare pipewrite.simps [simp del] piperead_loop.simps [simp del]

section \<open>Runs of a pipe\<close>

text \<open>Nobody sleeps on a pipe that would let him go on.\<close>

definition pipe_ok :: "pipe_t \<Rightarrow> bool" where
  "pipe_ok p \<longleftrightarrow> queue_inv (pipe p) \<and> (read_wait p \<noteq> [] \<longrightarrow> queue_abs (pipe p) = [] \<and> writeopen p) \<and>
     (write_wait p \<noteq> [] \<longrightarrow> queue_full (pipe p) \<and> readopen p)"

text \<open>The number of bytes that a call moved.\<close>

definition moved :: "outcome \<Rightarrow> nat \<Rightarrow> nat" where
  "moved r i = (case r of Done v \<Rightarrow> nat v - i | Sleep j \<Rightarrow> j - i)"

lemma pipewrite_goes_on:
  assumes "queue_inv (pipe p)" "readopen p" "write_wait p \<noteq> [] \<longrightarrow> queue_full (pipe p)" "i \<le> length xs"
  shows "\<exists>r p'. pipewrite (nth_opt xs) False me (length xs) i p = Some (r, read_wait p, p') \<and> pipe_ok p' \<and>
    readopen p' = readopen p \<and> writeopen p' = writeopen p \<and> queue_cap (pipe p') = queue_cap (pipe p) \<and>
    queue_abs (pipe p') = queue_abs (pipe p) @ take (moved r i) (drop i xs) \<and> read_wait p' = [] \<and>
    (case r of Done v \<Rightarrow> v = int (length xs) | Sleep j \<Rightarrow> i \<le> j \<and> j < length xs \<and> queue_full (pipe p') \<and> me \<in> set (write_wait p'))"
  using assms
proof (induction "length xs - i" arbitrary: i p rule: less_induct)
  case less
  show ?case
  proof (cases "i < length xs")
    case False
    then have "pipewrite (nth_opt xs) False me (length xs) i p = Some (Done (int i), read_wait p, p\<lparr>read_wait := []\<rparr>)" "i = length xs"
      using less.prems(4) by (simp_all add: pipewrite.simps)
    then show ?thesis using less.prems by (auto simp: pipe_ok_def moved_def)
  next
    case True
    show ?thesis
    proof (cases "queue_full (pipe p)")
      case full: True
      then have "pipewrite (nth_opt xs) False me (length xs) i p =
          Some (Sleep i, read_wait p, p\<lparr>read_wait := [], write_wait := me # write_wait p\<rparr>)"
        using True less.prems(2) by (simp add: pipewrite.simps)
      then show ?thesis using True less.prems full by (auto simp: pipe_ok_def moved_def)
    next
      case False
      have room: "length (queue_abs (pipe p)) < queue_cap (pipe p)"
        using rq.full_iff[OF less.prems(1)] rq.not_empty_not_full[OF less.prems(1)] False by blast
      obtain q where q: "queue_push (pipe p) (xs ! i) = Some q" "queue_inv q" "queue_abs q = queue_abs (pipe p) @ [xs ! i]"
        "queue_cap q = queue_cap (pipe p)" using rq.push_snoc[OF less.prems(1) room] by blast
      have st: "pipewrite (nth_opt xs) False me (length xs) i p = pipewrite (nth_opt xs) False me (length xs) (i + 1) (p\<lparr>pipe := q\<rparr>)"
        using True False less.prems(2) q(1) by (subst pipewrite.simps) simp
      have w: "write_wait p = []" using less.prems(3) False by blast
      have pre: "length xs - (i + 1) < length xs - i" "queue_inv (pipe (p\<lparr>pipe := q\<rparr>))" "readopen (p\<lparr>pipe := q\<rparr>)"
        "write_wait (p\<lparr>pipe := q\<rparr>) \<noteq> [] \<longrightarrow> queue_full (pipe (p\<lparr>pipe := q\<rparr>))" "i + 1 \<le> length xs" using True q(2) less.prems(2) w by simp_all
      obtain r p' where R: "pipewrite (nth_opt xs) False me (length xs) (i + 1) (p\<lparr>pipe := q\<rparr>) = Some (r, read_wait p, p')" "pipe_ok p'"
        "readopen p' = readopen p" "writeopen p' = writeopen p" "queue_cap (pipe p') = queue_cap (pipe p)"
        "queue_abs (pipe p') = queue_abs q @ take (moved r (i + 1)) (drop (i + 1) xs)" "read_wait p' = []"
        "case r of Done v \<Rightarrow> v = int (length xs) | Sleep j \<Rightarrow> i + 1 \<le> j \<and> j < length xs \<and> queue_full (pipe p') \<and> me \<in> set (write_wait p')"
        using less.hyps[OF pre] q(4) by auto
      have "moved r i = Suc (moved r (i + 1))" using R(8) True by (cases r) (auto simp: moved_def)
      then have "take (moved r i) (drop i xs) = (xs ! i) # take (moved r (i + 1)) (drop (i + 1) xs)"
        using Cons_nth_drop_Suc[OF True] by (metis Suc_eq_plus1 take_Suc_Cons)
      then have "queue_abs (pipe p') = queue_abs (pipe p) @ take (moved r i) (drop i xs)" using R(6) q(3) by simp
      moreover have "case r of Done v \<Rightarrow> v = int (length xs) | Sleep j \<Rightarrow> i \<le> j \<and> j < length xs \<and> queue_full (pipe p') \<and> me \<in> set (write_wait p')"
        using R(8) by (cases r) auto
      ultimately show ?thesis using st R by auto
    qed
  qed
qed

lemma pipewrite_ok:
  assumes "pipe_ok p" "i \<le> length xs"
  shows "\<exists>r w p'. pipewrite (nth_opt xs) killed me (length xs) i p = Some (r, w, p') \<and> pipe_ok p' \<and>
    queue_cap (pipe p') = queue_cap (pipe p) \<and> queue_abs (pipe p') = queue_abs (pipe p) @ take (moved r i) (drop i xs)"
proof (cases "i < length xs \<and> (\<not> readopen p \<or> killed)")
  case True
  then have "pipewrite (nth_opt xs) killed me (length xs) i p = Some (Done 0, [], p)" by (subst pipewrite.simps) simp
  then show ?thesis using assms by (simp add: moved_def)
next
  case False
  show ?thesis
  proof (cases "i < length xs")
    case True
    then have k: "readopen p" "\<not> killed" using False by simp_all
    then show ?thesis using pipewrite_goes_on[of p i xs me] assms by (auto simp: pipe_ok_def)
  next
    case False
    then have "pipewrite (nth_opt xs) killed me (length xs) i p = Some (Done (int i), read_wait p, p\<lparr>read_wait := []\<rparr>)"
      by (subst pipewrite.simps) simp
    then show ?thesis using assms False by (auto simp: pipe_ok_def moved_def)
  qed
qed

text \<open>The reader takes the oldest bytes.\<close>

abbreviation (input) collect :: "nat \<Rightarrow> byte \<Rightarrow> byte list \<Rightarrow> byte list option" where
  "collect i ch m \<equiv> (if i = length m then Some (m @ [ch]) else None)"

lemma piperead_loop_ok:
  assumes "queue_inv (pipe p)" "i \<le> n" "length m = i"
  shows "\<exists>p'. piperead_loop collect n i m p = Some (min n (i + length (queue_abs (pipe p))), m @ take (n - i) (queue_abs (pipe p)), p') \<and>
    queue_inv (pipe p') \<and> queue_cap (pipe p') = queue_cap (pipe p) \<and> queue_abs (pipe p') = drop (n - i) (queue_abs (pipe p)) \<and>
    pipe_t.truncate (p'\<lparr>pipe := pipe p\<rparr>) = pipe_t.truncate p"
  using assms
proof (induction "n - i" arbitrary: i m p rule: less_induct)
  case less
  show ?case
  proof (cases "i < n \<and> queue_abs (pipe p) \<noteq> []")
    case False
    then have "piperead_loop collect n i m p = Some (i, m, p)"
      using rq.empty_iff[OF less.prems(1)] less.prems(2) by (subst piperead_loop.simps) auto
    then show ?thesis using False less.prems by (intro exI[of _ p]) (auto simp del: length_queue_abs)
  next
    case True
    obtain q where q: "queue_front_pop (pipe p) = Some q" "queue_inv q" "queue_abs q = tl (queue_abs (pipe p))" "queue_cap q = queue_cap (pipe p)"
      using rq.pop_tl[OF less.prems(1)] True by blast
    obtain c cs where c: "queue_abs (pipe p) = c # cs" using True by (cases "queue_abs (pipe p)") auto
    have f: "queue_front (pipe p) = Some c" using rq.front_hd[OF less.prems(1)] c by simp
    have ne: "\<not> queue_empty (pipe p)" using rq.empty_iff[OF less.prems(1)] True by simp
    have st: "piperead_loop collect n i m p = piperead_loop collect n (i + 1) (m @ [c]) (p\<lparr>pipe := q\<rparr>)"
      using True ne f q(1) less.prems(3) by (subst piperead_loop.simps) simp
    have pre: "n - (i + 1) < n - i" "queue_inv (pipe (p\<lparr>pipe := q\<rparr>))" "i + 1 \<le> n" "length (m @ [c]) = i + 1"
      using True q(2) less.prems(3) by (simp_all del: length_queue_abs) linarith
    obtain p' where R: "piperead_loop collect n (i + 1) (m @ [c]) (p\<lparr>pipe := q\<rparr>) =
        Some (min n (i + 1 + length cs), (m @ [c]) @ take (n - (i + 1)) cs, p')" "queue_inv (pipe p')" "queue_cap (pipe p') = queue_cap (pipe p)"
      "queue_abs (pipe p') = drop (n - (i + 1)) cs" "pipe_t.truncate (p'\<lparr>pipe := q\<rparr>) = pipe_t.truncate (p\<lparr>pipe := q\<rparr>)"
      using less.hyps[OF pre] q(3,4) c by auto
    have d: "n - i = Suc (n - (i + 1))" using Suc_diff_Suc[OF True[THEN conjunct1]] by simp
    have "pipe_t.truncate (p'\<lparr>pipe := pipe p\<rparr>) = pipe_t.truncate p" using R(5) by (simp add: pipe_t.truncate_def)
    then show ?thesis using st R c unfolding d by simp
  qed
qed

lemma piperead_ok:
  assumes "pipe_ok p"
  shows "\<exists>r w m p'. piperead collect killed me n [] p = Some (r, w, m, p') \<and> pipe_ok p' \<and>
    m = take (moved r 0) (queue_abs (pipe p)) \<and> queue_abs (pipe p') = drop (moved r 0) (queue_abs (pipe p))"
proof (cases "queue_empty (pipe p) \<and> writeopen p")
  case True
  then show ?thesis using assms rq.empty_iff[of "pipe p"] by (auto simp: piperead_def pipe_ok_def moved_def)
next
  case False
  have qi: "queue_inv (pipe p)" using assms by (simp add: pipe_ok_def)
  obtain p' where R: "piperead_loop collect n 0 [] p = Some (min n (length (queue_abs (pipe p))), take n (queue_abs (pipe p)), p')"
    "queue_inv (pipe p')" "queue_abs (pipe p') = drop n (queue_abs (pipe p))" "pipe_t.truncate (p'\<lparr>pipe := pipe p\<rparr>) = pipe_t.truncate p"
    using piperead_loop_ok[OF qi, of 0 n "[]"] by auto
  have e: "read_wait p' = read_wait p" "writeopen p' = writeopen p" "write_wait p' = write_wait p" using R(4) by (simp_all add: pipe_t.truncate_def)
  have rw: "read_wait p = []" using False assms rq.empty_iff[OF qi] by (auto simp: pipe_ok_def)
  have "piperead collect killed me n [] p = Some (Done (int (min n (length (queue_abs (pipe p))))), write_wait p', take n (queue_abs (pipe p)), p'\<lparr>write_wait := []\<rparr>)"
    using False R(1) unfolding piperead_def by (simp only: if_False) simp
  moreover have "pipe_ok (p'\<lparr>write_wait := []\<rparr>)" using R(2) e rw by (simp add: pipe_ok_def)
  moreover have "take (moved (Done (int (min n (length l)))) 0) l = take n l \<and> drop (moved (Done (int (min n (length l)))) 0) l = drop n l" for l :: "byte list"
    by (simp add: moved_def min_def)
  ultimately show ?thesis using R(3)
    by (intro exI[of _ "Done (int (min n (length (queue_abs (pipe p)))))"] exI[of _ "write_wait p'"] exI[of _ "take n (queue_abs (pipe p))"]
        exI[of _ "p'\<lparr>write_wait := []\<rparr>"]) (simp del: length_queue_abs)
qed

text \<open>All that may happen to a pipe, with the bytes sent and received so far: writers and readers run, from the start or
  after they were woken, and the ends are closed.\<close>

inductive pipe_run :: "pipe_t \<Rightarrow> byte list \<Rightarrow> byte list \<Rightarrow> bool" where
  start: "pipe_ok p \<Longrightarrow> queue_abs (pipe p) = [] \<Longrightarrow> pipe_run p [] []"
| send: "pipe_run p sent rcvd \<Longrightarrow> i \<le> length xs \<Longrightarrow> pipewrite (nth_opt xs) killed me (length xs) i p = Some (r, w, p') \<Longrightarrow>
    pipe_run p' (sent @ take (moved r i) (drop i xs)) rcvd"
| recv: "pipe_run p sent rcvd \<Longrightarrow> piperead collect killed me n [] p = Some (r, w, m, p') \<Longrightarrow> pipe_run p' sent (rcvd @ m)"
| shut: "pipe_run p sent rcvd \<Longrightarrow> pipeclose W p = (fr, w, p') \<Longrightarrow> pipe_run p' sent rcvd"

inductive_cases pipe_runE: "pipe_run p sent rcvd"

lemma pipeclose_ok: "pipe_ok p \<Longrightarrow> pipeclose W p = (fr, w, p') \<Longrightarrow> pipe_ok p' \<and> pipe p' = pipe p"
  by (auto simp: pipeclose_def pipe_ok_def split: if_splits)

lemma pipe_run_ok: "pipe_run p sent rcvd \<Longrightarrow> pipe_ok p \<and> rcvd @ queue_abs (pipe p) = sent"
proof (induction rule: pipe_run.induct)
  case (send p sent rcvd i xs killed me r w p')
  obtain r' w' p'' where "pipewrite (nth_opt xs) killed me (length xs) i p = Some (r', w', p'')" "pipe_ok p''"
    "queue_abs (pipe p'') = queue_abs (pipe p) @ take (moved r' i) (drop i xs)" using pipewrite_ok[of p i xs killed me] send.IH send.hyps(2) by auto
  then show ?case using send.hyps(3) send.IH by auto
next
  case (recv p sent rcvd killed me n r w m p')
  obtain r' w' m' p'' where "piperead collect killed me n [] p = Some (r', w', m', p'')" "pipe_ok p''"
    "m' = take (moved r' 0) (queue_abs (pipe p))" "queue_abs (pipe p'') = drop (moved r' 0) (queue_abs (pipe p))"
    using piperead_ok[of p killed me n] recv.IH by auto
  then show ?case using recv.hyps(2) recv.IH by auto
next
  case (shut p sent rcvd W fr w p')
  then show ?case using pipeclose_ok[of p W fr w p'] by auto
qed auto

text \<open>C36. Through a pipe the bytes arrive in order, none is lost, doubled or changed: at any moment the bytes received and
  those in the ring queue are the bytes sent. No reader sleeps while there are bytes or the write end is closed, no
  writer sleeps while there is room or the read end is closed, and a call never fails an assertion of its own.\<close>

theorem pipe_keeps_order:
  assumes run: "pipe_run p sent rcvd" and i: "i \<le> length xs"
  shows "rcvd @ queue_abs (pipe p) = sent \<and>
    (read_wait p \<noteq> [] \<longrightarrow> rcvd = sent \<and> writeopen p) \<and> (write_wait p \<noteq> [] \<longrightarrow> queue_full (pipe p) \<and> readopen p) \<and>
    pipewrite (nth_opt xs) killed me (length xs) i p \<noteq> None \<and> piperead collect killed me n [] p \<noteq> None"
proof -
  note R = pipe_run_ok[OF run]
  have "pipewrite (nth_opt xs) killed me (length xs) i p \<noteq> None" using pipewrite_ok[OF R[THEN conjunct1] i, of killed me] by auto
  moreover have "piperead collect killed me n [] p \<noteq> None" using piperead_ok[OF R[THEN conjunct1], of killed me n] by auto
  ultimately show ?thesis using R by (auto simp: pipe_ok_def)
qed

definition empty_pipe :: pipe_t where
  "empty_pipe = \<lparr>pipe = \<lparr>queue_size = 0, queue_capacity = 2, queue_head = 0, queue_tail = -1, queue_array = [0, 0]\<rparr>,
     readopen = True, writeopen = True, read_wait = [], write_wait = []\<rparr>"

lemma pipe_keeps_order_witness:
  "\<exists>w p. pipewrite (nth_opt [5, 6, 7]) False 1 (length [5, 6, 7 :: byte]) 0 empty_pipe = Some (Sleep 2, w, p) \<and> queue_abs (pipe p) = [5, 6] \<and> queue_full (pipe p)"
proof -
  have "pipe_ok empty_pipe" by (simp add: pipe_ok_def empty_pipe_def queue_inv_def)
  then have r0: "pipe_run empty_pipe [] []" by (rule pipe_run.start) (simp add: empty_pipe_def queue_abs_def)
  obtain p where p: "pipewrite (nth_opt [5, 6, 7]) False 1 (length [5, 6, 7 :: byte]) 0 empty_pipe = Some (Sleep 2, [], p)" "write_wait p = [1]"
    by (simp add: pipewrite.simps empty_pipe_def queue_full_def queue_push_def nth_opt_def upd_opt_def)
  have "pipe_run p ([] @ take (moved (Sleep 2) 0) (drop 0 [5, 6, 7])) []" by (rule pipe_run.send[OF r0 _ p(1)]) simp
  then have r1: "pipe_run p [5, 6] []" by (simp add: moved_def)
  have i: "0 \<le> length [5 :: byte]" by simp
  have "queue_abs (pipe p) = [5, 6] \<and> queue_full (pipe p)" using pipe_keeps_order[OF r1 i, of False 1 1] p(2) by simp
  then show ?thesis using p(1) by blast
qed

end
