(* ===== verification/Tty.thy ===== *)
theory Tty
  imports Pipe
begin

text \<open>
  The terminal (kernel/device/tty.c) over the serial line (kernel/device/uart.c). What the receiver has not handed
  over yet and what went out are lists of bytes; each definition is a critical section of the lock it takes.
\<close>

section \<open>State\<close>

record terminal =
  rhr :: "byte list"
  rx_qm :: "byte queue_meta_t"
  console :: "byte list"
  secondary_qm :: "byte queue_meta_t"
  tty_wait_list :: "nat list"

abbreviation (input) EOF :: byte where "EOF \<equiv> 0xff"
abbreviation (input) EOT :: byte where "EOT \<equiv> 4"
abbreviation (input) BACKSPACE :: byte where "BACKSPACE \<equiv> 0x7f"
abbreviation (input) LINE_MAXN :: nat where "LINE_MAXN \<equiv> 1024"

section \<open>Serial line\<close>

definition uart_queue_init :: "byte list \<Rightarrow> terminal \<Rightarrow> terminal option" where
  "uart_queue_init uart_rx_buf_array s = do { q \<leftarrow> queue_init 1024 uart_rx_buf_array; Some (s\<lparr>rx_qm := q\<rparr>) }"

definition uart_getchar :: "terminal \<Rightarrow> byte \<times> terminal" where
  "uart_getchar s = (case rhr s of [] \<Rightarrow> (EOF, s) | c # cs \<Rightarrow> (c, s\<lparr>rhr := cs\<rparr>))"

text \<open>A byte 0xff is taken for the end of the input.\<close>

function do_uart_interrupt :: "terminal \<Rightarrow> terminal option" where
  "do_uart_interrupt s = (case uart_getchar s of (c, s1) \<Rightarrow>
     if c = EOF then Some s1
     else do {
       q1 \<leftarrow> (if queue_full (rx_qm s1) then queue_front_pop (rx_qm s1) else Some (rx_qm s1));
       q2 \<leftarrow> queue_push q1 c;
       do_uart_interrupt (s1\<lparr>rx_qm := q2\<rparr>) })"
  by pat_completeness auto
termination
  by (relation "measure (\<lambda>s. length (rhr s))") (auto simp: uart_getchar_def split: list.splits)

function uart_read_loop :: "nat \<Rightarrow> byte list \<Rightarrow> terminal \<Rightarrow> (byte list \<times> terminal) option" where
  "uart_read_loop cnt buffer s =
     (if length buffer < cnt then
        if queue_empty (rx_qm s) then Some (buffer, s)
        else do {
          ch \<leftarrow> queue_front (rx_qm s);
          q \<leftarrow> queue_front_pop (rx_qm s);
          uart_read_loop cnt (buffer @ [ch]) (s\<lparr>rx_qm := q\<rparr>) }
      else Some (buffer, s))"
  by pat_completeness auto
termination by (relation "measure (\<lambda>(cnt, buffer, s). cnt - length buffer)") auto

definition uart_read :: "nat \<Rightarrow> terminal \<Rightarrow> (byte list \<times> terminal) option" where
  "uart_read cnt s = uart_read_loop cnt [] s"

primrec uart_write :: "byte list \<Rightarrow> terminal \<Rightarrow> terminal" where
  "uart_write [] s = s"
| "uart_write (c # cs) s = uart_write cs (s\<lparr>console := console s @ [c]\<rparr>)"

section \<open>Terminal\<close>

definition tty_init :: "byte list \<Rightarrow> terminal \<Rightarrow> terminal option" where
  "tty_init tty_buf_array s = do {
     q \<leftarrow> queue_init 1024 tty_buf_array;
     Some (s\<lparr>secondary_qm := q, tty_wait_list := []\<rparr>) }"

text \<open>Echo and storage of one character.\<close>

definition cook_char :: "byte \<Rightarrow> terminal \<Rightarrow> terminal option" where
  "cook_char ch s = do {
     let s1 = (if ch = BACKSPACE then (if \<not> queue_empty (secondary_qm s) then uart_write [8, 32, 8] s else s)
               else if ch \<noteq> EOT then uart_write [ch] s else s);
     if ch = BACKSPACE then
       if \<not> queue_empty (secondary_qm s1) then do {
         q \<leftarrow> queue_back_pop (secondary_qm s1);
         Some (s1\<lparr>secondary_qm := q\<rparr>) }
       else Some s1
     else do {
       q1 \<leftarrow> (if queue_full (secondary_qm s1) then queue_front_pop (secondary_qm s1) else Some (secondary_qm s1));
       cassert (\<not> queue_full q1);
       q2 \<leftarrow> queue_push q1 ch;
       Some (s1\<lparr>secondary_qm := q2\<rparr>) } }"

text \<open>The loop of \<open>copy_to_cooked\<close>; its result is the last character.\<close>

partial_function (option) cooked_loop :: "byte \<Rightarrow> terminal \<Rightarrow> (byte \<times> terminal) option" where
  "cooked_loop ch s = do {
     (bs, s1) \<leftarrow> uart_read 1 s;
     (case bs of
        [] \<Rightarrow> Some (ch, s1)
      | c # _ \<Rightarrow>
          if c = 9 then cooked_loop c s1
          else do {
            let c1 = (if c = 13 then 10 else c);
            s2 \<leftarrow> cook_char c1 s1;
            cooked_loop c1 s2 }) }"

text \<open>The processes that are woken are those of the wait list.\<close>

definition copy_to_cooked :: "terminal \<Rightarrow> (nat list \<times> terminal) option" where
  "copy_to_cooked s = do {
     (ch, s1) \<leftarrow> cooked_loop 0 s;
     Some (if ch = 10 \<or> ch = EOT then (tty_wait_list s1, s1\<lparr>tty_wait_list := []\<rparr>) else ([], s1)) }"

definition do_tty_interrupt :: "terminal \<Rightarrow> (nat list \<times> terminal) option" where
  "do_tty_interrupt s = copy_to_cooked s"

text \<open>The loop of \<open>tty_read\<close>: it sleeps with what it has in its buffer.\<close>

function tty_read_loop :: "nat \<Rightarrow> bool \<Rightarrow> nat \<Rightarrow> byte list \<Rightarrow> terminal \<Rightarrow> (outcome \<times> byte list \<times> terminal) option" where
  "tty_read_loop cnt killed me buffer s =
     (if length buffer < cnt then
        if queue_empty (secondary_qm s) then
          if killed then Some (Done (-1), buffer, s)
          else Some (Sleep (length buffer), buffer, s\<lparr>tty_wait_list := me # tty_wait_list s\<rparr>)
        else do {
          ch \<leftarrow> queue_front (secondary_qm s);
          q \<leftarrow> queue_front_pop (secondary_qm s);
          if ch = EOT then Some (Done (int (length buffer)), buffer, s\<lparr>secondary_qm := q\<rparr>)
          else if ch = 10 then Some (Done (int (length buffer + 1)), buffer @ [ch], s\<lparr>secondary_qm := q\<rparr>)
          else tty_read_loop cnt killed me (buffer @ [ch]) (s\<lparr>secondary_qm := q\<rparr>) }
      else Some (Done (int (length buffer)), buffer, s))"
  by pat_completeness auto
termination by (relation "measure (\<lambda>(cnt, killed, me, buffer, s). cnt - length buffer)") auto

text \<open>\<open>out\<close> is the copy to the caller's memory.\<close>

definition tty_read :: "(byte list \<Rightarrow> 'm \<Rightarrow> 'm option) \<Rightarrow> nat \<Rightarrow> bool \<Rightarrow> nat \<Rightarrow> byte list \<Rightarrow> 'm \<Rightarrow> terminal \<Rightarrow>
    (outcome \<times> byte list \<times> 'm \<times> terminal) option" where
  "tty_read out cnt killed me buffer m s = do {
     cassert (cnt \<le> LINE_MAXN);
     (r, buf, s1) \<leftarrow> tty_read_loop cnt killed me buffer s;
     (case r of
        Done n \<Rightarrow> if n < 0 then Some (r, buf, m, s1) else do { m1 \<leftarrow> out buf m; Some (r, buf, m1, s1) }
      | Sleep n \<Rightarrow> Some (r, buf, m, s1)) }"

definition tty_write :: "(nat \<Rightarrow> byte list option) \<Rightarrow> nat \<Rightarrow> terminal \<Rightarrow> (int \<times> terminal) option" where
  "tty_write src cnt s = do {
     cassert (cnt \<le> LINE_MAXN);
     bs \<leftarrow> src cnt;
     Some (int (length bs), uart_write bs s) }"

declare do_uart_interrupt.simps [simp del] uart_read_loop.simps [simp del] tty_read_loop.simps [simp del]

section \<open>What becomes of the input\<close>

lemma uart_write_frame [simp]:
  "rhr (uart_write bs s) = rhr s" "rx_qm (uart_write bs s) = rx_qm s" "secondary_qm (uart_write bs s) = secondary_qm s"
  "tty_wait_list (uart_write bs s) = tty_wait_list s" "console (uart_write bs s) = console s @ bs"
  by (induction bs arbitrary: s) simp_all

text \<open>One character at the end of a line buffer of \<open>n\<close> characters, and in the serial line's buffer.\<close>

definition keep_last :: "nat \<Rightarrow> byte list \<Rightarrow> byte \<Rightarrow> byte list" where
  "keep_last n q c = (if length q = n then tl q else q) @ [c]"

definition cooked :: "byte \<Rightarrow> byte" where "cooked c = (if c = 13 then 10 else c)"

definition edit :: "nat \<Rightarrow> byte list \<Rightarrow> byte \<Rightarrow> byte list" where
  "edit n q c = (if c = 9 then q else if cooked c = BACKSPACE then butlast q else keep_last n q (cooked c))"

lemma uart_interrupt_ok:
  assumes "queue_inv (rx_qm s)"
  shows "\<exists>t. do_uart_interrupt s = Some t \<and> queue_inv (rx_qm t) \<and> queue_cap (rx_qm t) = queue_cap (rx_qm s) \<and>
    queue_abs (rx_qm t) = foldl (keep_last (queue_cap (rx_qm s))) (queue_abs (rx_qm s)) (takeWhile (\<lambda>c. c \<noteq> EOF) (rhr s)) \<and>
    rhr t = tl (dropWhile (\<lambda>c. c \<noteq> EOF) (rhr s)) \<and> secondary_qm t = secondary_qm s \<and> tty_wait_list t = tty_wait_list s \<and> console t = console s"
  using assms
proof (induction "rhr s" arbitrary: s)
  case Nil
  then show ?case by (subst do_uart_interrupt.simps) (simp add: uart_getchar_def)
next
  case (Cons c cs)
  show ?case
  proof (cases "c = EOF")
    case True
    then show ?thesis using Cons.hyps(2)[symmetric] Cons.prems by (subst do_uart_interrupt.simps) (simp add: uart_getchar_def)
  next
    case False
    obtain q1 q2 where q: "(if queue_full (rx_qm s) then queue_front_pop (rx_qm s) else Some (rx_qm s)) = Some q1" "queue_push q1 c = Some q2"
      "queue_inv q2" "queue_cap q2 = queue_cap (rx_qm s)" "queue_abs q2 = keep_last (queue_cap (rx_qm s)) (queue_abs (rx_qm s)) c"
      using rq.push_discard_oldest[OF Cons.prems, of c] unfolding keep_last_def by metis
    have g: "uart_getchar s = (c, s\<lparr>rhr := cs\<rparr>)" using Cons.hyps(2)[symmetric] by (simp add: uart_getchar_def)
    have st: "do_uart_interrupt s = do_uart_interrupt (s\<lparr>rhr := cs, rx_qm := q2\<rparr>)"
      using False q(1,2) by (subst do_uart_interrupt.simps) (simp add: g split: if_splits)
    show ?thesis using Cons.hyps(1)[of "s\<lparr>rhr := cs, rx_qm := q2\<rparr>"] q(3-5) False Cons.hyps(2)[symmetric] unfolding st by simp
  qed
qed

lemma cook_char_ok:
  assumes "queue_inv (secondary_qm s)"
  shows "\<exists>t. cook_char ch s = Some t \<and> queue_inv (secondary_qm t) \<and> queue_cap (secondary_qm t) = queue_cap (secondary_qm s) \<and>
    queue_abs (secondary_qm t) = (if ch = BACKSPACE then butlast (queue_abs (secondary_qm s)) else keep_last (queue_cap (secondary_qm s)) (queue_abs (secondary_qm s)) ch) \<and>
    rx_qm t = rx_qm s \<and> rhr t = rhr s \<and> tty_wait_list t = tty_wait_list s"
proof (cases "ch = BACKSPACE")
  case True
  show ?thesis
  proof (cases "queue_abs (secondary_qm s) = []")
    case e: True
    then show ?thesis using True rq.empty_iff[OF assms] assms by (simp add: cook_char_def)
  next
    case False
    obtain q where q: "queue_back_pop (secondary_qm s) = Some q" "queue_inv q" "queue_abs q = butlast (queue_abs (secondary_qm s))"
      "queue_capacity q = queue_capacity (secondary_qm s)" using queue_back_pop_ok[OF assms False] by metis
    then show ?thesis using True False rq.empty_iff[OF assms] by (simp add: cook_char_def queue_cap_def)
  qed
next
  case False
  obtain q1 q2 where q: "(if queue_full (secondary_qm s) then queue_front_pop (secondary_qm s) else Some (secondary_qm s)) = Some q1" "\<not> queue_full q1"
    "queue_push q1 ch = Some q2" "queue_inv q2" "queue_cap q2 = queue_cap (secondary_qm s)"
    "queue_abs q2 = keep_last (queue_cap (secondary_qm s)) (queue_abs (secondary_qm s)) ch"
    using rq.push_discard_oldest[OF assms, of ch] unfolding keep_last_def by metis
  then show ?thesis using False by (cases "ch = EOT") (simp_all add: cook_char_def split: if_splits)
qed

lemma uart_read_one:
  assumes "queue_inv (rx_qm s)"
  shows "queue_abs (rx_qm s) = [] \<Longrightarrow> uart_read 1 s = Some ([], s)"
    "queue_abs (rx_qm s) = c # cs \<Longrightarrow> \<exists>q. uart_read 1 s = Some ([c], s\<lparr>rx_qm := q\<rparr>) \<and> queue_inv q \<and> queue_abs q = cs"
proof -
  show "queue_abs (rx_qm s) = [] \<Longrightarrow> uart_read 1 s = Some ([], s)"
    using rq.empty_iff[OF assms] by (simp add: uart_read_def uart_read_loop.simps)
  assume c: "queue_abs (rx_qm s) = c # cs"
  then have ne: "\<not> queue_empty (rx_qm s)" "queue_front (rx_qm s) = Some c" using rq.empty_iff[OF assms] rq.front_hd[OF assms] by simp_all
  obtain q where q: "queue_front_pop (rx_qm s) = Some q" "queue_inv q" "queue_abs q = cs" using rq.pop_tl[OF assms] c by auto
  have "uart_read_loop 1 [c] (s\<lparr>rx_qm := q\<rparr>) = Some ([c], s\<lparr>rx_qm := q\<rparr>)" by (simp add: uart_read_loop.simps)
  then have "uart_read 1 s = Some ([c], s\<lparr>rx_qm := q\<rparr>)" using ne q(1) by (simp add: uart_read_def uart_read_loop.simps)
  then show "\<exists>q. uart_read 1 s = Some ([c], s\<lparr>rx_qm := q\<rparr>) \<and> queue_inv q \<and> queue_abs q = cs" using q by blast
qed

lemma cooked_loop_ok:
  assumes "queue_inv (rx_qm s)" "queue_inv (secondary_qm s)"
  shows "\<exists>t. cooked_loop ch s = Some (last (ch # map cooked (queue_abs (rx_qm s))), t) \<and> queue_inv (rx_qm t) \<and> queue_inv (secondary_qm t) \<and>
    queue_abs (rx_qm t) = [] \<and> queue_abs (secondary_qm t) = foldl (edit (queue_cap (secondary_qm s))) (queue_abs (secondary_qm s)) (queue_abs (rx_qm s)) \<and>
    queue_cap (secondary_qm t) = queue_cap (secondary_qm s) \<and> tty_wait_list t = tty_wait_list s"
  using assms
proof (induction "queue_abs (rx_qm s)" arbitrary: ch s)
  case Nil
  then show ?case using uart_read_one(1)[OF Nil.prems(1)] by (subst cooked_loop.simps) simp
next
  case (Cons c cs)
  obtain q where q: "uart_read 1 s = Some ([c], s\<lparr>rx_qm := q\<rparr>)" "queue_inv q" "queue_abs q = cs"
    using uart_read_one(2)[OF Cons.prems(1) Cons.hyps(2)[symmetric]] by blast
  note a = Cons.hyps(2)[symmetric]
  show ?case
  proof (cases "c = 9")
    case True
    have "cooked_loop ch s = cooked_loop c (s\<lparr>rx_qm := q\<rparr>)" using q(1) True by (subst cooked_loop.simps) simp
    then show ?thesis using Cons.hyps(1)[of "s\<lparr>rx_qm := q\<rparr>" c] q(2,3) Cons.prems(2) True unfolding a by (simp add: edit_def cooked_def)
  next
    case False
    obtain s2 where s2: "cook_char (cooked c) (s\<lparr>rx_qm := q\<rparr>) = Some s2" "queue_inv (secondary_qm s2)"
      "queue_cap (secondary_qm s2) = queue_cap (secondary_qm s)"
      "queue_abs (secondary_qm s2) = edit (queue_cap (secondary_qm s)) (queue_abs (secondary_qm s)) c" "rx_qm s2 = q" "tty_wait_list s2 = tty_wait_list s"
      using cook_char_ok[of "s\<lparr>rx_qm := q\<rparr>" "cooked c"] Cons.prems(2) False by (auto simp: edit_def)
    have "cooked_loop ch s = cooked_loop (cooked c) s2" using q(1) False s2(1) by (subst cooked_loop.simps) (simp add: cooked_def)
    then show ?thesis using Cons.hyps(1)[of s2 "cooked c"] q(2,3) s2 unfolding a by simp
  qed
qed

text \<open>C37. The terminal's interrupt returns and edits the line buffer by the characters the serial line has received, one after
  the other: tabs are dropped, a return is a newline, a backspace takes the last character back, a full buffer loses its
  oldest one. The readers are woken exactly when the last of the characters is a newline or an end of transmission, so
  a line whose newline is followed by another character in the same interrupt does not wake its reader.\<close>

theorem tty_edits_input:
  assumes "queue_inv (rx_qm s)" "queue_inv (secondary_qm s)"
  shows "\<exists>t. do_tty_interrupt s =
      Some (if queue_abs (rx_qm s) \<noteq> [] \<and> last (queue_abs (rx_qm s)) \<in> {10, 13, EOT} then tty_wait_list s else [], t) \<and>
    tty_wait_list t = (if queue_abs (rx_qm s) \<noteq> [] \<and> last (queue_abs (rx_qm s)) \<in> {10, 13, EOT} then [] else tty_wait_list s) \<and>
    queue_abs (secondary_qm t) = foldl (edit (queue_cap (secondary_qm s))) (queue_abs (secondary_qm s)) (queue_abs (rx_qm s)) \<and>
    queue_abs (rx_qm t) = [] \<and> queue_inv (rx_qm t) \<and> queue_inv (secondary_qm t)"
proof -
  let ?r = "queue_abs (rx_qm s)"
  obtain t where T: "cooked_loop 0 s = Some (last (0 # map cooked ?r), t)" "queue_inv (rx_qm t)" "queue_inv (secondary_qm t)" "queue_abs (rx_qm t) = []"
    "queue_abs (secondary_qm t) = foldl (edit (queue_cap (secondary_qm s))) (queue_abs (secondary_qm s)) ?r" "tty_wait_list t = tty_wait_list s"
    using cooked_loop_ok[OF assms, of 0] by blast
  have l: "last (0 # map cooked ?r) = 10 \<or> last (0 # map cooked ?r) = EOT \<longleftrightarrow> ?r \<noteq> [] \<and> last ?r \<in> {10, 13, EOT}"
    by (cases "?r = []") (auto simp: last_map cooked_def simp del: length_queue_abs)
  show ?thesis
    using T l by (cases "?r \<noteq> [] \<and> last ?r \<in> {10, 13, EOT}") (auto simp: do_tty_interrupt_def copy_to_cooked_def simp del: length_queue_abs)
qed

text \<open>A line in the buffer.\<close>

lemma tty_read_line:
  assumes "queue_inv (secondary_qm s)" "queue_abs (secondary_qm s) = line @ [10] @ rest" "10 \<notin> set line" "EOT \<notin> set line"
    "length buffer + length line < cnt"
  shows "\<exists>t. tty_read_loop cnt killed me buffer s = Some (Done (int (length buffer + length line + 1)), buffer @ line @ [10], t) \<and>
    queue_inv (secondary_qm t) \<and> queue_abs (secondary_qm t) = rest \<and> tty_wait_list t = tty_wait_list s"
  using assms
proof (induction line arbitrary: buffer s)
  case Nil
  have ne: "\<not> queue_empty (secondary_qm s)" "queue_front (secondary_qm s) = Some 10"
    using Nil.prems(2) rq.empty_iff[OF Nil.prems(1)] rq.front_hd[OF Nil.prems(1)] by simp_all
  obtain q where q: "queue_front_pop (secondary_qm s) = Some q" "queue_inv q" "queue_abs q = rest"
    using rq.pop_tl[OF Nil.prems(1)] Nil.prems(2) by auto
  show ?case using ne q Nil.prems(5) by (subst tty_read_loop.simps) simp
next
  case (Cons c line)
  have ne: "\<not> queue_empty (secondary_qm s)" "queue_front (secondary_qm s) = Some c"
    using Cons.prems(2) rq.empty_iff[OF Cons.prems(1)] rq.front_hd[OF Cons.prems(1)] by simp_all
  obtain q where q: "queue_front_pop (secondary_qm s) = Some q" "queue_inv q" "queue_abs q = line @ [10] @ rest"
    using rq.pop_tl[OF Cons.prems(1)] Cons.prems(2) by auto
  have c: "c \<noteq> 10" "c \<noteq> EOT" using Cons.prems(3,4) by auto
  have "tty_read_loop cnt killed me buffer s = tty_read_loop cnt killed me (buffer @ [c]) (s\<lparr>secondary_qm := q\<rparr>)"
    using ne q(1) c Cons.prems(5) by (subst tty_read_loop.simps) simp
  then show ?case using Cons.IH[of "s\<lparr>secondary_qm := q\<rparr>" "buffer @ [c]"] q(2,3) Cons.prems(3-5) by simp
qed

text \<open>A read of the terminal with a line in the buffer returns without sleeping and delivers that line up to and with its
  newline; what follows stays in the buffer.\<close>

theorem tty_read_delivers_line:
  assumes "queue_inv (secondary_qm s)" "queue_abs (secondary_qm s) = line @ [10] @ rest" "10 \<notin> set line" "EOT \<notin> set line"
    "length line < cnt" "cnt \<le> LINE_MAXN" "out (line @ [10]) m = Some m'"
  shows "\<exists>t. tty_read out cnt killed me [] m s = Some (Done (int (length line + 1)), line @ [10], m', t) \<and>
    queue_inv (secondary_qm t) \<and> queue_abs (secondary_qm t) = rest"
proof -
  obtain t where "tty_read_loop cnt killed me [] s = Some (Done (int (length ([] :: byte list) + length line + 1)), [] @ line @ [10], t)"
    "queue_inv (secondary_qm t)" "queue_abs (secondary_qm t) = rest"
    using tty_read_line[OF assms(1-4), of "[]" cnt killed me] assms(5) by auto
  then show ?thesis using assms(6,7) by (simp add: tty_read_def)
qed

text \<open>A terminal that has received \<open>a\<close>, a return, and \<open>b\<close>, with the process 5 asleep.\<close>

definition terminal0 :: terminal where
  "terminal0 = \<lparr>rhr = [], rx_qm = \<lparr>queue_size = 3, queue_capacity = 4, queue_head = 0, queue_tail = 2, queue_array = [97, 13, 98, 0]\<rparr>,
     console = [], secondary_qm = \<lparr>queue_size = 0, queue_capacity = 4, queue_head = 0, queue_tail = -1, queue_array = [0, 0, 0, 0]\<rparr>,
     tty_wait_list = [5]\<rparr>"

lemma terminal0_facts:
  "queue_inv (rx_qm terminal0)" "queue_inv (secondary_qm terminal0)" "queue_abs (rx_qm terminal0) = [97, 13, 98]"
  "queue_abs (secondary_qm terminal0) = []" "queue_cap (secondary_qm terminal0) = 4" "tty_wait_list terminal0 = [5]"
  by (simp_all add: terminal0_def queue_inv_def queue_abs_def queue_slot_def queue_cap_def upt_rec)

lemma tty_edits_input_witness:
  "\<exists>t. do_tty_interrupt terminal0 = Some ([], t) \<and> tty_wait_list t = [5] \<and> queue_abs (secondary_qm t) = [97, 10, 98]"
proof -
  have f: "foldl (edit 4) [] [97, 13, 98] = [97, 10, 98 :: byte]" by (simp add: edit_def cooked_def keep_last_def)
  show ?thesis using tty_edits_input[OF terminal0_facts(1,2)] f
    by (auto simp: terminal0_facts(3-6) simp del: length_queue_abs)
qed

lemma tty_read_delivers_line_witness:
  "\<exists>s t. tty_read (\<lambda>bs m. Some bs) 100 False 1 [] [] s = Some (Done 2, [97, 10], [97, 10], t) \<and> queue_abs (secondary_qm t) = [98]"
proof -
  define s where "s = terminal0\<lparr>secondary_qm := \<lparr>queue_size = 3, queue_capacity = 4, queue_head = 0, queue_tail = 2, queue_array = [97, 10, 98, 0]\<rparr>\<rparr>"
  have q: "queue_inv (secondary_qm s)" "queue_abs (secondary_qm s) = [97] @ [10] @ [98]"
    by (simp_all add: s_def queue_inv_def queue_abs_def queue_slot_def upt_rec)
  have n: "(10 :: byte) \<notin> set [97]" "EOT \<notin> set [97 :: byte]" "length [97 :: byte] < (100 :: nat)" "(100 :: nat) \<le> LINE_MAXN" by simp_all
  have "\<exists>t. tty_read (\<lambda>bs (m :: byte list). Some bs) 100 False 1 [] [] s = Some (Done (int (length [97 :: byte] + 1)), [97] @ [10], [97, 10], t) \<and>
      queue_inv (secondary_qm t) \<and> queue_abs (secondary_qm t) = [98]"
    by (rule tty_read_delivers_line[OF q n]) simp
  then show ?thesis by auto
qed

end
