(* ===== verification/Virtio_Disk.thy ===== *)
theory Virtio_Disk
  imports Buddy
begin

text \<open>
  The disk driver (kernel/device/virtio_disk.c): the table of DMA descriptors, the two rings it shares with the
  device, the submission of a request, its end and the interrupt. Buffers are numbers; an address that is handed
  to the device names what it points to. What the device writes (\<open>status\<close>, \<open>used_ring\<close>, \<open>used_hw_index\<close>) changes
  between the definitions.
\<close>

section \<open>State\<close>

abbreviation (input) VIRTIO_DESC_NUM :: nat where "VIRTIO_DESC_NUM \<equiv> 64"
abbreviation (input) VRING_DESC_F_NEXT :: u16 where "VRING_DESC_F_NEXT \<equiv> 1"
abbreviation (input) VRING_DESC_F_READ :: u16 where "VRING_DESC_F_READ \<equiv> 0"
abbreviation (input) VRING_DESC_F_WRITE :: u16 where "VRING_DESC_F_WRITE \<equiv> 2"

datatype dma_addr = No_Addr | Ops nat | Data nat | Status nat

record virtq_desc_t =
  addr :: dma_addr
  len :: u32
  flags :: u16
  next_desc :: u16

record virtio_blk_req_t =
  type_of_req :: u32
  reserved :: u32
  sector :: u64

record disk_info =
  buf :: "nat option"
  status :: byte

record disk_t =
  desc :: "virtq_desc_t list"
  avail_ring :: "u16 list"
  avail_index :: u16
  used_ring :: "u32 list"
  used_hw_index :: u16
  free_desc :: "bool list"
  used_index :: u16
  info :: "disk_info list"
  ops :: "virtio_blk_req_t list"
  disk_wait :: "nat list"
  b_disk :: "nat \<Rightarrow> bool"
  b_valid_flag :: "nat \<Rightarrow> bool"
  disk_wait_list :: "nat \<Rightarrow> nat list"
  blkno_of :: "nat \<Rightarrow> u32"

section \<open>Initialisation\<close>

text \<open>\<open>rd\<close> is what the device answers in its registers (each is read once); beside the state the result has the
  register writes in their order.\<close>

abbreviation (input) device_features_off :: u32 where
  "device_features_off \<equiv> push_bit 5 1 OR push_bit 7 1 OR push_bit 11 1 OR push_bit 12 1 OR push_bit 27 1 OR push_bit 29 1 OR push_bit 28 1"

definition virtio_disk_init :: "(u32 \<Rightarrow> u32) \<Rightarrow> buddy \<Rightarrow> disk_t \<Rightarrow> ((u32 \<times> u32) list \<times> disk_t \<times> buddy) option" where
  "virtio_disk_init rd s d = do {
     cassert (rd 0x000 = 0x74726976 \<and> rd 0x004 = 2 \<and> rd 0x008 = 2 \<and> rd 0x00c = 0x554d4551);
     let w1 = [(0x070, 0), (0x070, 1 OR 2), (0x020, rd 0x010 AND NOT device_features_off), (0x070, 1 OR 2 OR 8)];
     let status1 = rd 0x070;
     cassert (status1 AND 8 \<noteq> 0);
     let w2 = [(0x030, 0)];
     cassert (rd 0x044 = 0);
     let maxn = rd 0x034;
     cassert (maxn \<noteq> 0);
     cassert (maxn \<ge> 64);
     (dp, s1) \<leftarrow> pages_alloc 1 s;
     (ap, s2) \<leftarrow> pages_alloc 1 s1;
     (up, s3) \<leftarrow> pages_alloc 1 s2;
     cassert (dp \<noteq> 0 \<and> ap \<noteq> 0 \<and> up \<noteq> 0);
     let d1 = d\<lparr>desc := replicate VIRTIO_DESC_NUM \<lparr>addr = No_Addr, len = 0, flags = 0, next_desc = 0\<rparr>,
       avail_ring := replicate VIRTIO_DESC_NUM 0, avail_index := 0, used_ring := replicate VIRTIO_DESC_NUM 0, used_hw_index := 0\<rparr>;
     let w3 = [(0x038, 64),
       (0x080, word_of_nat dp), (0x084, ucast (drop_bit 32 (word_of_nat dp :: u64))),
       (0x090, word_of_nat ap), (0x094, ucast (drop_bit 32 (word_of_nat ap :: u64))),
       (0x0a0, word_of_nat up), (0x0a4, ucast (drop_bit 32 (word_of_nat up :: u64))),
       (0x044, 1)];
     let d2 = d1\<lparr>free_desc := replicate VIRTIO_DESC_NUM True, disk_wait := []\<rparr>;
     Some (w1 @ w2 @ w3 @ [(0x070, status1 OR 4)], d2, s3) }"

section \<open>Descriptors\<close>

definition alloc_desc :: "disk_t \<Rightarrow> nat option \<times> disk_t" where
  "alloc_desc d = (case find (\<lambda>i. free_desc d ! i) [0..<VIRTIO_DESC_NUM] of
      Some i \<Rightarrow> (Some i, d\<lparr>free_desc := (free_desc d)[i := False]\<rparr>)
    | None \<Rightarrow> (None, d))"

text \<open>Everybody who waits for a descriptor is woken.\<close>

definition free_1_descriptor :: "nat \<Rightarrow> disk_t \<Rightarrow> (nat list \<times> disk_t) option" where
  "free_1_descriptor i d = do {
     cassert (i < VIRTIO_DESC_NUM);
     fr \<leftarrow> nth_opt (free_desc d) i;
     cassert (\<not> fr);
     ds \<leftarrow> upd_opt (desc d) i \<lparr>addr = No_Addr, len = 0, flags = 0, next_desc = 0\<rparr>;
     Some (disk_wait d, d\<lparr>desc := ds, free_desc := (free_desc d)[i := True], disk_wait := []\<rparr>) }"

lemma count_free: "free_1_descriptor i d = Some (w, d') \<Longrightarrow>
  length (filter Not (free_desc d')) < length (filter Not (free_desc d))"
proof -
  assume a: "free_1_descriptor i d = Some (w, d')"
  then have i: "i < length (free_desc d)" "\<not> free_desc d ! i" and d': "free_desc d' = (free_desc d)[i := True]"
    by (auto simp: free_1_descriptor_def Option.bind_eq_Some_conv)
  have s: "free_desc d = take i (free_desc d) @ False # drop (Suc i) (free_desc d)" using id_take_nth_drop[OF i(1)] i(2) by simp
  have t: "free_desc d' = take i (free_desc d) @ True # drop (Suc i) (free_desc d)" unfolding d' using i(1) by (rule upd_conv_take_nth_drop)
  show ?thesis unfolding t by (subst (3) s) simp
qed

function free_descriptor_list :: "nat \<Rightarrow> disk_t \<Rightarrow> (nat list \<times> disk_t) option" where
  "free_descriptor_list i d = do {
     e \<leftarrow> nth_opt (desc d) i;
     (case free_1_descriptor i d of
        None \<Rightarrow> None
      | Some (w, d1) \<Rightarrow>
          if flags e AND VRING_DESC_F_NEXT \<noteq> 0 then do {
            (w', d2) \<leftarrow> free_descriptor_list (unat (next_desc e)) d1;
            Some (w @ w', d2) }
          else Some (w, d1)) }"
  by pat_completeness auto
termination by (relation "measure (\<lambda>(i, d). length (filter Not (free_desc d)))") (auto dest: count_free)

declare free_descriptor_list.simps [simp del]

fun free_all :: "nat list \<Rightarrow> disk_t \<Rightarrow> (nat list \<times> disk_t) option" where
  "free_all [] d = Some ([], d)"
| "free_all (i # is) d = do {
     (w, d1) \<leftarrow> free_1_descriptor i d;
     (w', d2) \<leftarrow> free_all is d1;
     Some (w @ w', d2) }"

text \<open>Three descriptors, or none: those taken before the failure are given back.\<close>

fun alloc_descs :: "nat \<Rightarrow> nat list \<Rightarrow> disk_t \<Rightarrow> (nat list option \<times> nat list \<times> disk_t) option" where
  "alloc_descs 0 got d = Some (Some got, [], d)"
| "alloc_descs (Suc n) got d = (case alloc_desc d of
      (Some i, d1) \<Rightarrow> alloc_descs n (got @ [i]) d1
    | (None, d1) \<Rightarrow> do { (w, d2) \<leftarrow> free_all got d1; Some (None, w, d2) })"

definition alloc3_desc :: "disk_t \<Rightarrow> (nat list option \<times> nat list \<times> disk_t) option" where
  "alloc3_desc d = alloc_descs 3 [] d"

section \<open>Requests\<close>

text \<open>A request up to the notification of the device. Without descriptors the process \<open>me\<close> goes to sleep and tries again
  when it is woken. The result is the head of the chain, and the processes woken.\<close>

definition virtio_disk_rw_submit :: "nat \<Rightarrow> nat \<Rightarrow> bool \<Rightarrow> disk_t \<Rightarrow> (nat option \<times> nat list \<times> disk_t) option" where
  "virtio_disk_rw_submit me bb write_op d = do {
     (r, w, d1) \<leftarrow> alloc3_desc d;
     (case r of
        Some [i0, i1, i2] \<Rightarrow>
          (let sect = (ucast (blkno_of d1 bb * 8) :: u64);
             op = \<lparr>type_of_req = (if write_op then 1 else 0), reserved = 0, sector = sect\<rparr>;
             e0 = \<lparr>addr = Ops i0, len = 16, flags = VRING_DESC_F_NEXT, next_desc = word_of_nat i1\<rparr>;
             e1 = \<lparr>addr = Data bb, len = 4096, flags = (if write_op then VRING_DESC_F_READ else VRING_DESC_F_WRITE) OR VRING_DESC_F_NEXT,
                    next_desc = word_of_nat i2\<rparr>;
             e2 = \<lparr>addr = Status i0, len = 1, flags = VRING_DESC_F_WRITE, next_desc = 0\<rparr>
           in Some (Some i0, w, d1\<lparr>ops := (ops d1)[i0 := op], desc := (desc d1)[i0 := e0, i1 := e1, i2 := e2],
                info := (info d1)[i0 := \<lparr>buf = Some bb, status = 0xff\<rparr>], b_disk := (b_disk d1)(bb := True),
                avail_ring := (avail_ring d1)[unat (avail_index d1) mod VIRTIO_DESC_NUM := word_of_nat i0],
                avail_index := avail_index d1 + 1\<rparr>))
      | _ \<Rightarrow> Some (None, w, d1\<lparr>disk_wait := me # disk_wait d1\<rparr>)) }"

text \<open>The wait for the end of the request, and what follows it.\<close>

definition virtio_disk_rw_wait :: "nat \<Rightarrow> nat \<Rightarrow> disk_t \<Rightarrow> bool \<times> disk_t" where
  "virtio_disk_rw_wait me bb d =
     (if b_disk d bb then (False, d\<lparr>disk_wait_list := (disk_wait_list d)(bb := me # disk_wait_list d bb)\<rparr>) else (True, d))"

definition virtio_disk_rw_finish :: "nat \<Rightarrow> disk_t \<Rightarrow> (nat list \<times> disk_t) option" where
  "virtio_disk_rw_finish i0 d = do {
     e \<leftarrow> nth_opt (info d) i0;
     free_descriptor_list i0 (d\<lparr>info := (info d)[i0 := e\<lparr>buf := None\<rparr>]\<rparr>) }"

text \<open>The interrupt: every entry of the used ring that has not been looked at.\<close>

function do_virtio_disk_interrupt :: "disk_t \<Rightarrow> (nat list \<times> disk_t) option" where
  "do_virtio_disk_interrupt d =
     (if used_index d \<noteq> used_hw_index d then do {
        i \<leftarrow> nth_opt (used_ring d) (unat (used_index d) mod VIRTIO_DESC_NUM);
        e \<leftarrow> nth_opt (info d) (unat i);
        cassert (status e = 0);
        bb \<leftarrow> buf e;
        (w, d1) \<leftarrow> do_virtio_disk_interrupt (d\<lparr>b_disk := (b_disk d)(bb := False), b_valid_flag := (b_valid_flag d)(bb := True),
          disk_wait_list := (disk_wait_list d)(bb := []), used_index := used_index d + 1\<rparr>);
        Some (disk_wait_list d bb @ w, d1) }
      else Some ([], d))"
  by pat_completeness auto
termination
proof (relation "measure (\<lambda>d. unat (used_hw_index d - used_index d))", goal_cases)
  case (2 d i e u bb)
  then have "used_hw_index d - used_index d \<noteq> 0" by simp
  then have "unat (used_hw_index d - used_index d - 1) < unat (used_hw_index d - used_index d)"
    by (metis less_imp_diff_less measure_unat)
  then show ?case by (simp add: algebra_simps)
qed simp

declare do_virtio_disk_interrupt.simps [simp del]

section \<open>Chains of descriptors\<close>

definition chain :: "disk_t \<Rightarrow> nat \<Rightarrow> nat list" where
  "chain d h = (let i1 = unat (next_desc (desc d ! h)); i2 = unat (next_desc (desc d ! i1)) in [h, i1, i2])"

abbreviation owned :: "disk_t \<Rightarrow> nat list \<Rightarrow> nat list" where
  "owned d hs \<equiv> concat (map (chain d) hs)"

definition linked3 :: "disk_t \<Rightarrow> nat \<Rightarrow> bool" where
  "linked3 d h \<longleftrightarrow> (case chain d h of [i0, i1, i2] \<Rightarrow> i0 < 64 \<and> i1 < 64 \<and> i2 < 64 \<and>
     flags (desc d ! i0) AND 1 \<noteq> 0 \<and> flags (desc d ! i1) AND 1 \<noteq> 0 \<and> flags (desc d ! i2) AND 1 = 0)"

definition chained :: "disk_t \<Rightarrow> nat list \<Rightarrow> bool" where
  "chained d hs \<longleftrightarrow> length (desc d) = 64 \<and> length (free_desc d) = 64 \<and> distinct (owned d hs) \<and> (\<forall>h\<in>set hs. linked3 d h) \<and>
     (\<forall>i<64. free_desc d ! i \<longleftrightarrow> i \<notin> set (owned d hs))"

lemma chain_length [simp]: "length (chain d h) = 3"
  by (simp add: chain_def Let_def)

lemma head_in_chain [simp]: "h \<in> set (chain d h)"
  by (simp add: chain_def Let_def)

lemma owned_bound: "\<forall>h\<in>set hs. linked3 d h \<Longrightarrow> i \<in> set (owned d hs) \<Longrightarrow> i < 64"
  by (fastforce simp: linked3_def chain_def Let_def)

lemma length_owned: "length (owned d hs) = 3 * length hs"
  by (induction hs) simp_all

lemma chain_cong:
  assumes "\<And>i. i \<in> set (chain d h) \<Longrightarrow> desc d' ! i = desc d ! i"
  shows "chain d' h = chain d h" "linked3 d' h \<longleftrightarrow> linked3 d h"
proof -
  show c: "chain d' h = chain d h" using assms by (simp add: chain_def Let_def)
  show "linked3 d' h \<longleftrightarrow> linked3 d h" using assms unfolding linked3_def c by (simp add: chain_def Let_def)
qed

lemma owned_cong:
  assumes "\<And>i. i \<in> set (owned d hs) \<Longrightarrow> desc d' ! i = desc d ! i"
  shows "owned d' hs = owned d hs" "(\<forall>h\<in>set hs. linked3 d' h) \<longleftrightarrow> (\<forall>h\<in>set hs. linked3 d h)"
proof -
  have "chain d' h = chain d h \<and> (linked3 d' h \<longleftrightarrow> linked3 d h)" if h: "h \<in> set hs" for h
  proof -
    have "desc d' ! i = desc d ! i" if "i \<in> set (chain d h)" for i using assms that h by auto
    then show ?thesis using chain_cong by blast
  qed
  then show "owned d' hs = owned d hs" "(\<forall>h\<in>set hs. linked3 d' h) \<longleftrightarrow> (\<forall>h\<in>set hs. linked3 d h)"
    by (auto intro!: arg_cong[where f = concat])
qed

text \<open>The number of free descriptors.\<close>

abbreviation nfree :: "disk_t \<Rightarrow> nat" where
  "nfree d \<equiv> card {i. i < 64 \<and> free_desc d ! i}"

lemma chained_nfree:
  assumes "chained d hs"
  shows "nfree d + 3 * length hs = 64"
proof -
  have "{i. i < 64 \<and> free_desc d ! i} = {..<64} - set (owned d hs)" "set (owned d hs) \<subseteq> {..<64}"
    using assms owned_bound by (auto simp: chained_def)
  then have "nfree d = 64 - card (set (owned d hs))" "card (set (owned d hs)) \<le> 64"
    using card_Diff_subset[of "set (owned d hs)" "{..<64::nat}"] card_mono[of "{..<64::nat}" "set (owned d hs)"] by simp_all
  then show ?thesis using assms distinct_card[of "owned d hs"] length_owned[of d hs] unfolding chained_def by simp
qed

lemma alloc_desc_cases:
  assumes "length (free_desc d) = 64"
  obtains i where "alloc_desc d = (Some i, d\<lparr>free_desc := (free_desc d)[i := False]\<rparr>)" "i < 64" "free_desc d ! i"
      "nfree (d\<lparr>free_desc := (free_desc d)[i := False]\<rparr>) = nfree d - 1" "nfree d > 0"
  | "alloc_desc d = (None, d)" "nfree d = 0"
proof (cases "find (\<lambda>i. free_desc d ! i) [0..<64]")
  case None
  then have "{i. i < 64 \<and> free_desc d ! i} = {}" by (auto simp: find_None_iff)
  then show ?thesis using None that(2) by (simp add: alloc_desc_def)
next
  case (Some i)
  then have i: "i < 64" "free_desc d ! i" by (auto simp: find_Some_iff)
  have "{j. j < 64 \<and> free_desc (d\<lparr>free_desc := (free_desc d)[i := False]\<rparr>) ! j} = {j. j < 64 \<and> free_desc d ! j} - {i}"
    using assms i by (auto simp: nth_list_update split: if_splits)
  moreover have "i \<in> {j. j < 64 \<and> free_desc d ! j}" using i by simp
  ultimately show ?thesis using that(1)[of i] i Some by (auto simp: alloc_desc_def card_gt_0_iff simp del: free_desc_update_def)
qed

abbreviation no_desc :: virtq_desc_t where
  "no_desc \<equiv> \<lparr>addr = No_Addr, len = 0, flags = 0, next_desc = 0\<rparr>"

lemma free_1_ok:
  assumes "length (free_desc d) = 64" "length (desc d) = 64" "i < 64" "\<not> free_desc d ! i"
  shows "free_1_descriptor i d = Some (disk_wait d, d\<lparr>desc := (desc d)[i := no_desc], free_desc := (free_desc d)[i := True], disk_wait := []\<rparr>)"
  using assms by (simp add: free_1_descriptor_def)

lemma alloc3_none:
  assumes "length (free_desc d) = 64" "length (desc d) = 64" "nfree d < 3"
  shows "\<exists>w d'. alloc3_desc d = Some (None, w, d') \<and> d' = d\<lparr>desc := desc d', disk_wait := disk_wait d'\<rparr> \<and> length (desc d') = 64 \<and>
    (\<forall>i<64. \<not> free_desc d ! i \<longrightarrow> desc d' ! i = desc d ! i)"
proof -
  note three = numeral_3_eq_3
  show ?thesis
  proof (rule alloc_desc_cases[OF assms(1)])
    assume "alloc_desc d = (None, d)"
    then show ?thesis using assms by (auto simp: alloc3_desc_def three)
  next
    fix i0 assume i0: "alloc_desc d = (Some i0, d\<lparr>free_desc := (free_desc d)[i0 := False]\<rparr>)" "i0 < 64" "free_desc d ! i0"
      "nfree (d\<lparr>free_desc := (free_desc d)[i0 := False]\<rparr>) = nfree d - 1" "nfree d > 0"
    let ?d1 = "d\<lparr>free_desc := (free_desc d)[i0 := False]\<rparr>"
    have l1: "length (free_desc ?d1) = 64" using assms by simp
    show ?thesis
    proof (rule alloc_desc_cases[OF l1])
      assume n: "alloc_desc ?d1 = (None, ?d1)"
      have "alloc3_desc d = do { (w, d2) \<leftarrow> free_all [i0] ?d1; Some (None, w, d2) }" using i0(1) n by (simp add: alloc3_desc_def three)
      moreover have "(free_desc d)[i0 := True] = free_desc d" using i0(3) list_update_id[of "free_desc d" i0] by simp
      ultimately show ?thesis using i0(2,3) assms by (cases d) (auto simp: free_1_ok nth_list_update)
    next
      fix i1 assume i1: "alloc_desc ?d1 = (Some i1, ?d1\<lparr>free_desc := (free_desc ?d1)[i1 := False]\<rparr>)" "i1 < 64" "free_desc ?d1 ! i1"
        "nfree (?d1\<lparr>free_desc := (free_desc ?d1)[i1 := False]\<rparr>) = nfree ?d1 - 1" "nfree ?d1 > 0"
      let ?d2 = "?d1\<lparr>free_desc := (free_desc ?d1)[i1 := False]\<rparr>"
      have l2: "length (free_desc ?d2) = 64" using assms by simp
      have ne: "i0 \<noteq> i1" using i1(2,3) i0(2) assms(1) by (auto simp: nth_list_update)
      have fr: "free_desc d ! i1" using i1(3) ne by simp
      show ?thesis
      proof (rule alloc_desc_cases[OF l2])
        assume n: "alloc_desc ?d2 = (None, ?d2)"
        have "alloc3_desc d = do { (w, d3) \<leftarrow> free_all [i0, i1] ?d2; Some (None, w, d3) }" using i0(1) i1(1) n by (simp add: alloc3_desc_def three)
        moreover have "((free_desc d)[i0 := False, i1 := False, i0 := True])[i1 := True] = free_desc d"
        proof -
          have e: "X[i1 := False, i0 := True] = X[i0 := True, i1 := False]" for X :: "bool list" by (rule list_update_swap) (use ne in simp)
          have "(free_desc d)[i0 := True] = free_desc d" "(free_desc d)[i1 := True] = free_desc d"
            using i0(3) fr list_update_id[of "free_desc d"] by metis+
          then show ?thesis unfolding e by simp
        qed
        ultimately show ?thesis using i0(2,3) i1(2) fr ne assms by (cases d) (auto simp: free_1_ok nth_list_update)
      next
        fix i2 assume "nfree ?d2 > 0"
        then show ?thesis using i1(4) i0(4) assms(3) by linarith
      qed
    qed
  qed
qed

lemma alloc3_some:
  assumes "length (free_desc d) = 64" "nfree d \<ge> 3"
  shows "\<exists>i0 i1 i2. alloc3_desc d = Some (Some [i0, i1, i2], [], d\<lparr>free_desc := (free_desc d)[i0 := False, i1 := False, i2 := False]\<rparr>) \<and>
    distinct [i0, i1, i2] \<and> i0 < 64 \<and> i1 < 64 \<and> i2 < 64 \<and> free_desc d ! i0 \<and> free_desc d ! i1 \<and> free_desc d ! i2"
proof -
  note three = numeral_3_eq_3
  obtain i0 where i0: "alloc_desc d = (Some i0, d\<lparr>free_desc := (free_desc d)[i0 := False]\<rparr>)" "i0 < 64" "free_desc d ! i0"
      "nfree (d\<lparr>free_desc := (free_desc d)[i0 := False]\<rparr>) = nfree d - 1"
    by (rule alloc_desc_cases[OF assms(1)]) (blast | use assms(2) in linarith)+
  let ?d1 = "d\<lparr>free_desc := (free_desc d)[i0 := False]\<rparr>"
  have l1: "length (free_desc ?d1) = 64" using assms by simp
  have n1: "nfree ?d1 \<ge> 2" using i0(4) assms(2) by linarith
  obtain i1 where i1: "alloc_desc ?d1 = (Some i1, ?d1\<lparr>free_desc := (free_desc ?d1)[i1 := False]\<rparr>)" "i1 < 64" "free_desc ?d1 ! i1"
      "nfree (?d1\<lparr>free_desc := (free_desc ?d1)[i1 := False]\<rparr>) = nfree ?d1 - 1"
    by (rule alloc_desc_cases[OF l1]) (blast | use n1 in linarith)+
  let ?d2 = "?d1\<lparr>free_desc := (free_desc ?d1)[i1 := False]\<rparr>"
  have l2: "length (free_desc ?d2) = 64" using assms by simp
  have n2: "nfree ?d2 \<ge> 1" using i1(4) n1 by linarith
  obtain i2 where i2: "alloc_desc ?d2 = (Some i2, ?d2\<lparr>free_desc := (free_desc ?d2)[i2 := False]\<rparr>)" "i2 < 64" "free_desc ?d2 ! i2"
    by (rule alloc_desc_cases[OF l2]) (blast | use n2 in linarith)+
  have ne: "i0 \<noteq> i1" using i1(2,3) i0(2) assms(1) by (auto simp: nth_list_update)
  have ne2: "i2 \<noteq> i1" "i2 \<noteq> i0" using i2(2,3) i1(2) i0(2) assms(1) by (auto simp: nth_list_update split: if_splits)
  have "alloc3_desc d = Some (Some [i0, i1, i2], [], d\<lparr>free_desc := (free_desc d)[i0 := False, i1 := False, i2 := False]\<rparr>)"
    using i0(1) i1(1) i2(1) by (simp add: alloc3_desc_def three)
  moreover have "free_desc d ! i1" "free_desc d ! i2" using i1(3) i2(3) ne ne2 by auto
  ultimately show ?thesis using i0 i1 i2 ne ne2 by auto
qed

text \<open>A submitted request owns three descriptors that were free.\<close>

lemma submit_ok:
  assumes "chained d hs" "length hs < 21"
  shows "\<exists>h d'. virtio_disk_rw_submit me bb wr d = Some (Some h, [], d') \<and> chained d' (h # hs) \<and> h < 64 \<and> h \<notin> set (owned d hs) \<and>
    d' = d\<lparr>desc := desc d', free_desc := free_desc d', ops := ops d', info := (info d)[h := \<lparr>buf = Some bb, status = 0xff\<rparr>],
      b_disk := (b_disk d)(bb := True), avail_ring := avail_ring d', avail_index := avail_index d + 1\<rparr>"
proof -
  have l: "length (free_desc d) = 64" "length (desc d) = 64" "nfree d \<ge> 3" using assms chained_nfree[OF assms(1)] by (auto simp: chained_def)
  obtain i0 i1 i2 where a: "alloc3_desc d = Some (Some [i0, i1, i2], [], d\<lparr>free_desc := (free_desc d)[i0 := False, i1 := False, i2 := False]\<rparr>)"
    "distinct [i0, i1, i2]" "i0 < 64" "i1 < 64" "i2 < 64" "free_desc d ! i0" "free_desc d ! i1" "free_desc d ! i2"
    using alloc3_some[OF l(1,3)] by blast
  obtain d' where d': "virtio_disk_rw_submit me bb wr d = Some (Some i0, [], d')"
    "d' = d\<lparr>desc := desc d', free_desc := (free_desc d)[i0 := False, i1 := False, i2 := False], ops := ops d', info := (info d)[i0 := \<lparr>buf = Some bb, status = 0xff\<rparr>],
      b_disk := (b_disk d)(bb := True), avail_ring := avail_ring d', avail_index := avail_index d + 1\<rparr>"
    "desc d' = (desc d)[i0 := \<lparr>addr = Ops i0, len = 16, flags = VRING_DESC_F_NEXT, next_desc = word_of_nat i1\<rparr>,
      i1 := \<lparr>addr = Data bb, len = 4096, flags = (if wr then VRING_DESC_F_READ else VRING_DESC_F_WRITE) OR VRING_DESC_F_NEXT, next_desc = word_of_nat i2\<rparr>,
      i2 := \<lparr>addr = Status i0, len = 1, flags = VRING_DESC_F_WRITE, next_desc = 0\<rparr>]"
    unfolding virtio_disk_rw_submit_def a(1) by (simp add: Let_def)
  have fd: "free_desc d' = (free_desc d)[i0 := False, i1 := False, i2 := False]" by (subst d'(2)) simp
  have fresh: "i0 \<notin> set (owned d hs)" "i1 \<notin> set (owned d hs)" "i2 \<notin> set (owned d hs)"
    using assms(1) a(3-8) by (auto simp: chained_def)
  have un: "unat (word_of_nat i1 :: u16) = i1" "unat (word_of_nat i2 :: u16) = i2" using a(4,5) by (simp_all add: unsigned_of_nat take_bit_nat_eq_self)
  have c0: "chain d' i0 = [i0, i1, i2]" unfolding chain_def d'(3) using a(2-5) l(2) un by (auto simp: nth_list_update)
  have l0: "linked3 d' i0" unfolding linked3_def c0 d'(3) using a(2-5) l(2) by (cases wr) (simp_all add: nth_list_update)
  have same: "desc d' ! i = desc d ! i" if "i \<in> set (owned d hs)" for i
  proof -
    have "i \<noteq> i0" "i \<noteq> i1" "i \<noteq> i2" using that fresh by blast+
    then show ?thesis unfolding d'(3) by simp
  qed
  have oc: "owned d' hs = owned d hs" "(\<forall>h\<in>set hs. linked3 d' h) \<longleftrightarrow> (\<forall>h\<in>set hs. linked3 d h)"
    by (rule owned_cong, erule same)+
  have f: "\<forall>i<64. free_desc d' ! i = (i \<notin> set (owned d' (i0 # hs)))"
    using assms(1) l(1) a(3-5) unfolding fd by (auto simp: c0 oc(1) chained_def nth_list_update)
  have dd: "distinct (owned d' (i0 # hs))" using assms(1) a(2) fresh by (simp add: c0 oc(1) chained_def) 
  have ld: "length (desc d') = 64" using l(2) by (simp add: d'(3))
  have lf: "length (free_desc d') = 64" using l(1) by (simp add: fd)
  have lk: "\<forall>h\<in>set (i0 # hs). linked3 d' h" using oc(2) assms(1) l0 by (simp add: chained_def)
  have "chained d' (i0 # hs)" unfolding chained_def using f dd ld lf lk by blast
  moreover have "d' = d\<lparr>desc := desc d', free_desc := free_desc d', ops := ops d', info := (info d)[i0 := \<lparr>buf = Some bb, status = 0xff\<rparr>],
      b_disk := (b_disk d)(bb := True), avail_ring := avail_ring d', avail_index := avail_index d + 1\<rparr>" using d'(2) fd by simp
  ultimately show ?thesis using d'(1) a(3) fresh(1) by blast
qed

lemma submit_full:
  assumes "chained d hs" "\<not> length hs < 21"
  shows "\<exists>w d'. virtio_disk_rw_submit me bb wr d = Some (None, w, d') \<and> chained d' hs \<and> owned d' hs = owned d hs \<and>
    d' = d\<lparr>desc := desc d', disk_wait := disk_wait d'\<rparr> \<and> me \<in> set (disk_wait d')"
proof -
  have l: "length (free_desc d) = 64" "length (desc d) = 64" "nfree d < 3" using assms chained_nfree[OF assms(1)] by (auto simp: chained_def)
  obtain w d1 where a: "alloc3_desc d = Some (None, w, d1)" "d1 = d\<lparr>desc := desc d1, disk_wait := disk_wait d1\<rparr>" "length (desc d1) = 64"
    "\<forall>i<64. \<not> free_desc d ! i \<longrightarrow> desc d1 ! i = desc d ! i" using alloc3_none[OF l] by blast
  let ?d = "d1\<lparr>disk_wait := me # disk_wait d1\<rparr>"
  have s: "virtio_disk_rw_submit me bb wr d = Some (None, w, ?d)" by (simp add: virtio_disk_rw_submit_def a(1))
  have fd: "free_desc ?d = free_desc d" by (simp, subst a(2)) simp
  have same: "desc ?d ! i = desc d ! i" if i: "i \<in> set (owned d hs)" for i
  proof -
    have "i < 64" "\<not> free_desc d ! i" using assms(1) owned_bound[OF _ i] i by (auto simp: chained_def)
    then show ?thesis using a(4) by simp
  qed
  have oc: "owned ?d hs = owned d hs" "(\<forall>h\<in>set hs. linked3 ?d h) \<longleftrightarrow> (\<forall>h\<in>set hs. linked3 d h)"
    by (rule owned_cong, erule same)+
  have "\<forall>i<64. free_desc ?d ! i = (i \<notin> set (owned ?d hs))" using assms(1) unfolding fd oc(1) chained_def by blast
  moreover have "distinct (owned ?d hs)" "\<forall>h\<in>set hs. linked3 ?d h" using assms(1) unfolding oc chained_def by blast+
  moreover have "length (desc ?d) = 64" "length (free_desc ?d) = 64" using l a(3) fd by simp_all
  ultimately have "chained ?d hs" unfolding chained_def by blast
  moreover have "?d = d\<lparr>desc := desc ?d, disk_wait := disk_wait ?d\<rparr>" using a(2) by (metis disk_t.select_convs(1,10) disk_t.surjective disk_t.update_convs(1,10))
  ultimately show ?thesis using s oc(1) by auto
qed

text \<open>Freeing a chain gives its three descriptors back and leaves the other chains alone.\<close>

lemma free_list_ok:
  assumes "chained d (A @ h # B)"
  shows "\<exists>w d'. free_descriptor_list h d = Some (w, d') \<and> chained d' (A @ B) \<and> owned d' (A @ B) = owned d (A @ B) \<and>
    d' = d\<lparr>desc := desc d', free_desc := free_desc d', disk_wait := disk_wait d'\<rparr>"
proof -
  obtain i1 i2 where c: "chain d h = [h, i1, i2]" by (simp add: chain_def Let_def)
  have nx: "unat (next_desc (desc d ! h)) = i1" "unat (next_desc (desc d ! i1)) = i2" using c by (auto simp: chain_def Let_def)
  have l: "length (desc d) = 64" "length (free_desc d) = 64" "distinct (owned d (A @ h # B))" "linked3 d h" "\<forall>h\<in>set (A @ B). linked3 d h"
    and fr: "\<forall>i<64. free_desc d ! i = (i \<notin> set (owned d (A @ h # B)))"
    using assms by (simp_all add: chained_def)
  have b: "h < 64" "i1 < 64" "i2 < 64" "flags (desc d ! h) AND 1 \<noteq> 0" "flags (desc d ! i1) AND 1 \<noteq> 0" "flags (desc d ! i2) AND 1 = 0"
    using l(4) by (simp_all add: linked3_def c)
  have dis: "distinct [h, i1, i2]" and off: "h \<notin> set (owned d (A @ B))" "i1 \<notin> set (owned d (A @ B))" "i2 \<notin> set (owned d (A @ B))"
    using l(3) by (auto simp: c)
  have nf: "\<not> free_desc d ! h" "\<not> free_desc d ! i1" "\<not> free_desc d ! i2" using fr b(1-3) by (auto simp: c)
  let ?d' = "d\<lparr>desc := (desc d)[h := no_desc, i1 := no_desc, i2 := no_desc], free_desc := (free_desc d)[h := True, i1 := True, i2 := True], disk_wait := []\<rparr>"
  have st: "\<exists>w. free_descriptor_list h d = Some (w, ?d')"
    using b nf l(1,2) nx dis by (simp add: free_descriptor_list.simps free_1_ok nth_list_update)
  have same: "desc ?d' ! i = desc d ! i" if "i \<in> set (owned d (A @ B))" for i
  proof -
    have "i \<noteq> h" "i \<noteq> i1" "i \<noteq> i2" using that off by blast+
    then show ?thesis by simp
  qed
  have oc: "owned ?d' (A @ B) = owned d (A @ B)" "(\<forall>h\<in>set (A @ B). linked3 ?d' h) \<longleftrightarrow> (\<forall>h\<in>set (A @ B). linked3 d h)"
    by (rule owned_cong, erule same)+
  have own: "set (owned d (A @ h # B)) = set (owned d (A @ B)) \<union> {h, i1, i2}" by (auto simp: c)
  have f: "free_desc ?d' ! i = (i \<notin> set (owned ?d' (A @ B)))" if "i < 64" for i
    using fr[rule_format, OF that] off b l(2) that unfolding oc(1) own by (auto simp: nth_list_update simp del: set_concat)
  have "distinct (owned ?d' (A @ B))" using l(3) unfolding oc(1) by auto
  then have "chained ?d' (A @ B)" using f l(1,2,5) unfolding chained_def oc(2) by simp
  then show ?thesis using st oc(1) by (intro exI[of _ "fst (the (free_descriptor_list h d))"] exI[of _ ?d']) auto
qed

lemma mset_owned: "mset (owned d hs) = \<Sum>\<^sub># (image_mset (\<lambda>h. mset (chain d h)) (mset hs))"
  by (induction hs) simp_all

lemma chained_perm:
  assumes "mset hs = mset hs'" "chained d hs"
  shows "chained d hs'"
proof -
  have m: "mset (owned d hs) = mset (owned d hs')" using assms(1) by (simp only: mset_owned)
  have "set (owned d hs) = set (owned d hs')" "distinct (owned d hs) = distinct (owned d hs')"
    using mset_eq_setD[OF m] mset_eq_imp_distinct_iff[OF m] by blast+
  moreover have "set hs = set hs'" using mset_eq_setD[OF assms(1)] .
  ultimately show ?thesis using assms(2) unfolding chained_def by metis
qed

lemma chained_cong: "desc d' = desc d \<Longrightarrow> free_desc d' = free_desc d \<Longrightarrow> chained d' hs = chained d hs"
  by (simp add: chained_def chain_def linked3_def Let_def cong: map_cong)

lemma chained_distinct: "chained d hs \<Longrightarrow> distinct hs"
proof -
  assume "chained d hs"
  then have "distinct (owned d hs)" by (simp add: chained_def)
  then show ?thesis
  proof (induction hs)
    case (Cons h hs)
    have "h \<notin> set hs" using Cons.prems head_in_chain[of h d] by (auto simp del: head_in_chain)
    then show ?case using Cons by simp
  qed simp
qed

lemma chained_few: "chained d hs \<Longrightarrow> length hs \<le> 21"
  using chained_nfree[of d hs] by simp

section \<open>The driver and the device\<close>

text \<open>The requests that the device has ended and the driver has not looked at yet.\<close>

definition completed :: "disk_t \<Rightarrow> nat list" where
  "completed d = map (\<lambda>k. unat (used_ring d ! ((unat (used_index d) + k) mod 64))) [0..<unat (used_hw_index d - used_index d)]"

abbreviation buf_of :: "disk_t \<Rightarrow> nat \<Rightarrow> nat option" where
  "buf_of d h \<equiv> buf (info d ! h)"

text \<open>\<open>P\<close> are the requests the device has, \<open>F\<close> those that the interrupt has reported and their processes have not freed.\<close>

definition disk_inv :: "disk_t \<Rightarrow> nat list \<Rightarrow> nat list \<Rightarrow> bool" where
  "disk_inv d P F \<longleftrightarrow> (let hs = P @ completed d @ F in
     chained d hs \<and> length (info d) = 64 \<and> length (used_ring d) = 64 \<and>
     None \<notin> buf_of d ` set hs \<and> distinct (map (buf_of d) hs) \<and>
     (\<forall>h\<in>set P \<union> set (completed d). b_disk d (the (buf_of d h))) \<and> (\<forall>h\<in>set F. \<not> b_disk d (the (buf_of d h))))"

text \<open>The device ends a request with the status \<open>st\<close>: 0, or 1 or 2 for an error.\<close>

definition device_ends :: "nat \<Rightarrow> byte \<Rightarrow> disk_t \<Rightarrow> disk_t" where
  "device_ends h st d = d\<lparr>info := (info d)[h := (info d ! h)\<lparr>status := st\<rparr>],
     used_ring := (used_ring d)[unat (used_hw_index d) mod 64 := word_of_nat h], used_hw_index := used_hw_index d + 1\<rparr>"

definition idle_disk :: "disk_t \<Rightarrow> bool" where
  "idle_disk d \<longleftrightarrow> length (desc d) = 64 \<and> free_desc d = replicate 64 True \<and> length (info d) = 64 \<and> length (used_ring d) = 64 \<and>
     used_hw_index d = used_index d"

text \<open>Runs of processes, driver and device. Whoever submits a request for a buffer holds the buffer's lock, so the
  buffer has no other request.\<close>

inductive disk_run :: "disk_t \<Rightarrow> nat list \<Rightarrow> nat list \<Rightarrow> bool" where
  boot: "idle_disk d \<Longrightarrow> disk_run d [] []"
| submit: "disk_run d P F \<Longrightarrow> Some bb \<notin> buf_of d ` set (P @ completed d @ F) \<Longrightarrow>
    virtio_disk_rw_submit me bb wr d = Some (Some h, w, d') \<Longrightarrow> disk_run d' (h # P) F"
| no_room: "disk_run d P F \<Longrightarrow> virtio_disk_rw_submit me bb wr d = Some (None, w, d') \<Longrightarrow> disk_run d' P F"
| device: "disk_run d P F \<Longrightarrow> h \<in> set P \<Longrightarrow> disk_run (device_ends h st d) (remove1 h P) F"
| irq: "disk_run d P F \<Longrightarrow> do_virtio_disk_interrupt d = Some (w, d') \<Longrightarrow> disk_run d' P (F @ completed d)"
| not_yet: "disk_run d P F \<Longrightarrow> virtio_disk_rw_wait me bb d = (False, d') \<Longrightarrow> disk_run d' P F"
| finish: "disk_run d P F \<Longrightarrow> h \<in> set F \<Longrightarrow> virtio_disk_rw_finish h d = Some (w, d') \<Longrightarrow> disk_run d' P (remove1 h F)"

lemma idle_inv: "idle_disk d \<Longrightarrow> disk_inv d [] []"
  by (simp add: idle_disk_def disk_inv_def completed_def chained_def)

lemma inv_chained: "disk_inv d P F \<Longrightarrow> chained d (P @ completed d @ F)"
  by (simp add: disk_inv_def Let_def)

lemma completed_few: "disk_inv d P F \<Longrightarrow> length P + length (completed d) + length F \<le> 21"
  using chained_few[OF inv_chained] by fastforce

lemma completed_cong [simp]:
  "completed (d\<lparr>desc := a\<rparr>) = completed d" "completed (d\<lparr>free_desc := b\<rparr>) = completed d" "completed (d\<lparr>disk_wait := c\<rparr>) = completed d"
  "completed (d\<lparr>info := e\<rparr>) = completed d" "completed (d\<lparr>ops := f\<rparr>) = completed d" "completed (d\<lparr>b_disk := g\<rparr>) = completed d"
  "completed (d\<lparr>avail_ring := k\<rparr>) = completed d" "completed (d\<lparr>avail_index := l\<rparr>) = completed d"
  "completed (d\<lparr>disk_wait_list := m\<rparr>) = completed d" "completed (d\<lparr>b_valid_flag := n\<rparr>) = completed d"
  by (simp_all add: completed_def)

lemma submit_inv:
  assumes "disk_inv d P F" "Some bb \<notin> buf_of d ` set (P @ completed d @ F)" "virtio_disk_rw_submit me bb wr d = Some (Some h, w, d')"
  shows "disk_inv d' (h # P) F"
proof -
  let ?hs = "P @ completed d @ F"
  have few: "length ?hs < 21" using submit_full[OF inv_chained[OF assms(1)], of me bb wr] assms(3) by fastforce
  obtain D: "chained d' (h # ?hs)" "h < 64" "h \<notin> set (owned d ?hs)"
    "d' = d\<lparr>desc := desc d', free_desc := free_desc d', ops := ops d', info := (info d)[h := \<lparr>buf = Some bb, status = 0xff\<rparr>],
      b_disk := (b_disk d)(bb := True), avail_ring := avail_ring d', avail_index := avail_index d + 1\<rparr>"
    using submit_ok[OF inv_chained[OF assms(1)] few, of me bb wr] assms(3) by auto
  have c: "completed d' = completed d" by (subst D(4)) simp
  have i: "info d' = (info d)[h := \<lparr>buf = Some bb, status = 0xff\<rparr>]" by (subst D(4)) simp
  have bd: "b_disk d' = (b_disk d)(bb := True)" by (subst D(4)) simp
  have ur: "used_ring d' = used_ring d" by (subst D(4)) simp
  have new: "h \<notin> set ?hs" using D(3) head_in_chain[of h d] by auto
  have li: "length (info d) = 64" using assms(1) by (simp add: disk_inv_def Let_def)
  have old: "info d' ! k = info d ! k" if "k \<in> set ?hs" for k using new that unfolding i by (metis nth_list_update_neq)
  have at: "info d' ! h = \<lparr>buf = Some bb, status = 0xff\<rparr>" using D(2) li by (simp add: i)
  have bo: "map (buf_of d') ?hs = map (buf_of d) ?hs" using old by simp
  have nb: "the (buf_of d k) \<noteq> bb" if "k \<in> set ?hs" for k
  proof -
    have "buf_of d k \<in> buf_of d ` set ?hs" using that by blast
    moreover have "None \<notin> buf_of d ` set ?hs" using assms(1) by (simp add: disk_inv_def Let_def)
    ultimately show ?thesis using assms(2) by (metis option.collapse)
  qed
  have I: "None \<notin> buf_of d ` set ?hs" "distinct (map (buf_of d) ?hs)" "\<forall>h\<in>set P \<union> set (completed d). b_disk d (the (buf_of d h))"
    "\<forall>h\<in>set F. \<not> b_disk d (the (buf_of d h))" "length (used_ring d) = 64"
    using assms(1) by (simp_all add: disk_inv_def Let_def)
  have im: "buf_of d' ` set ?hs = buf_of d ` set ?hs" using old by simp
  have "None \<notin> buf_of d' ` set (h # ?hs)" using I(1) im at by simp
  moreover have "distinct (map (buf_of d') (h # ?hs))"
  proof -
    have "map (buf_of d') (h # ?hs) = Some bb # map (buf_of d) ?hs" using at bo by simp
    then show ?thesis using I(2) assms(2) by (metis distinct.simps(2) set_map)
  qed
  moreover have "\<forall>k\<in>set (h # P) \<union> set (completed d). b_disk d' (the (buf_of d' k))" using I(3) old at bd by auto
  moreover have "\<forall>k\<in>set F. \<not> b_disk d' (the (buf_of d' k))" using I(4) old nb bd by simp
  ultimately show ?thesis using D(1) li I(5) unfolding disk_inv_def Let_def c ur by (simp add: i)
qed

lemma disk_inv_cong:
  assumes "chained d' (P @ completed d @ F)" "completed d' = completed d" "info d' = info d" "used_ring d' = used_ring d" "b_disk d' = b_disk d" "disk_inv d P F"
  shows "disk_inv d' P F"
  using assms by (simp add: disk_inv_def Let_def)

lemma no_room_inv:
  assumes "disk_inv d P F" "virtio_disk_rw_submit me bb wr d = Some (None, w, d')"
  shows "disk_inv d' P F"
proof -
  let ?hs = "P @ completed d @ F"
  have few: "\<not> length ?hs < 21" using submit_ok[OF inv_chained[OF assms(1)], of me bb wr] assms(2) by fastforce
  obtain D: "chained d' ?hs" "d' = d\<lparr>desc := desc d', disk_wait := disk_wait d'\<rparr>"
    using submit_full[OF inv_chained[OF assms(1)] few, of me bb wr] assms(2) by auto
  have "completed d' = completed d" "info d' = info d" "used_ring d' = used_ring d" "b_disk d' = b_disk d" by (subst D(2), simp)+
  then show ?thesis using disk_inv_cong D(1) assms(1) by blast
qed

text \<open>The ring of ended requests never overruns.\<close>

lemma ring_slots: "k < n \<Longrightarrow> n < 64 \<Longrightarrow> (a + k) mod 64 \<noteq> (a + n) mod (64::nat)"
  by (metis add_diff_cancel_left diff_is_0_eq dvd_imp_le leD less_or_eq_imp_le mod_eq_dvd_iff_nat nat_add_left_cancel_le neq0_conv less_imp_diff_less)

lemma device_completed:
  assumes "length (completed d) < 64" "length (used_ring d) = 64" "h < 64"
  shows "completed (device_ends h st d) = completed d @ [h]"
proof -
  let ?n = "unat (used_hw_index d - used_index d)"
  let ?a = "unat (used_index d)"
  have n: "?n < 64" using assms(1) by (simp add: completed_def)
  have n1: "unat (used_hw_index d + 1 - used_index d) = Suc ?n"
  proof -
    have e: "used_hw_index d + 1 - used_index d = (used_hw_index d - used_index d) + 1" by simp
    have "unat (y + 1) = Suc (unat y)" if "unat y < 64" for y :: u16 using that by (simp add: unat_word_ariths)
    then show ?thesis using n unfolding e by blast
  qed
  have "unat (used_hw_index d) = (?a + ?n) mod 65536"
    using unat_word_ariths(1)[of "used_index d" "used_hw_index d - used_index d"] by simp
  then have slot: "unat (used_hw_index d) mod 64 = (?a + ?n) mod 64" using mod_mod_cancel[of 64 65536 "?a + ?n"] by simp
  have h: "unat (word_of_nat h :: u32) = h" using assms(3) by (simp add: unsigned_of_nat take_bit_nat_eq_self)
  have other: "(used_ring d)[(?a + ?n) mod 64 := word_of_nat h] ! ((?a + k) mod 64) = used_ring d ! ((?a + k) mod 64)" if "k < ?n" for k
    using ring_slots[OF that n, of ?a] by simp
  show ?thesis using other assms(2) h unfolding completed_def device_ends_def by (simp add: n1 slot)
qed

lemma device_inv:
  assumes "disk_inv d P F" "h \<in> set P"
  shows "disk_inv (device_ends h st d) (remove1 h P) F"
proof -
  let ?d = "device_ends h st d"
  have I: "chained d (P @ completed d @ F)" "length (info d) = 64" "length (used_ring d) = 64" "None \<notin> buf_of d ` set (P @ completed d @ F)"
    "distinct (map (buf_of d) (P @ completed d @ F))" "\<forall>h\<in>set P \<union> set (completed d). b_disk d (the (buf_of d h))"
    "\<forall>h\<in>set F. \<not> b_disk d (the (buf_of d h))"
    using assms(1) by (simp_all add: disk_inv_def Let_def)
  have h: "h < 64" using I(1) assms(2) by (auto simp: chained_def linked3_def chain_def Let_def)
  have c: "completed ?d = completed d @ [h]" using device_completed[OF _ I(3) h] completed_few[OF assms(1)] by simp
  let ?hs = "remove1 h P @ completed ?d @ F"
  have m: "mset ?hs = mset (P @ completed d @ F)" using assms(2) by (simp add: c)
  have ch: "chained ?d ?hs" using chained_perm[OF m[symmetric] I(1)] chained_cong[of ?d d] by (simp add: device_ends_def)
  have bo: "buf_of ?d k = buf_of d k" for k using h I(2) by (cases "k = h") (simp_all add: device_ends_def)
  have bd: "b_disk ?d = b_disk d" "length (info ?d) = 64" "length (used_ring ?d) = 64" using I(2,3) by (simp_all add: device_ends_def)
  have s: "set ?hs = set (P @ completed d @ F)" using mset_eq_setD[OF m] .
  have "mset (map (buf_of d) ?hs) = mset (map (buf_of d) (P @ completed d @ F))" using m by (simp only: mset_map)
  then have "distinct (map (buf_of d) ?hs)" using I(5) mset_eq_imp_distinct_iff by blast
  moreover have "\<forall>h\<in>set (remove1 h P) \<union> set (completed ?d). b_disk d (the (buf_of d h))"
    using I(6) assms(2) notin_set_remove1 unfolding c by fastforce
  ultimately show ?thesis using ch bd I(4,7) unfolding disk_inv_def Let_def s bo bd(1) by blast
qed

text \<open>One entry of the used ring.\<close>

definition seen :: "nat \<Rightarrow> disk_t \<Rightarrow> disk_t" where
  "seen bb d = d\<lparr>b_disk := (b_disk d)(bb := False), b_valid_flag := (b_valid_flag d)(bb := True),
     disk_wait_list := (disk_wait_list d)(bb := []), used_index := used_index d + 1\<rparr>"

lemma completed_none: "completed d = [] \<longleftrightarrow> used_index d = used_hw_index d"
  by (auto simp: completed_def unat_eq_0)

lemma completed_hd: "completed d = c # cs \<Longrightarrow> unat (used_ring d ! (unat (used_index d) mod 64)) = c"
proof -
  assume a: "completed d = c # cs"
  then have "0 < unat (used_hw_index d - used_index d)" by (auto simp: completed_def intro: gr0I)
  then have "hd (completed d) = unat (used_ring d ! (unat (used_index d) mod 64))" unfolding completed_def by (simp add: hd_map_upt)
  then show ?thesis using a by simp
qed

lemma completed_seen: "completed d = c # cs \<Longrightarrow> completed (seen bb d) = cs"
proof -
  assume a: "completed d = c # cs"
  let ?n = "unat (used_hw_index d - used_index d)"
  let ?a = "unat (used_index d)"
  have n: "?n > 0" using a by (auto simp: completed_def intro: gr0I)
  have "used_hw_index d - (used_index d + 1) = (used_hw_index d - used_index d) - 1" by simp
  then have n1: "unat (used_hw_index d - (used_index d + 1)) = ?n - 1" using n by (metis measure_unat unat_minus_one unat_0 less_irrefl)
  have "unat (used_index d + 1) = (?a + 1) mod 65536" by (simp add: unat_word_ariths)
  then have s: "(unat (used_index d + 1) + k) mod 64 = (?a + Suc k) mod 64" for k
    using mod_add_left_eq[of "unat (used_index d + 1)" 64 k] mod_mod_cancel[of 64 65536 "?a + 1"] mod_add_left_eq[of "?a + 1" 64 k] by simp
  have "cs = tl (completed d)" using a by simp
  also have "\<dots> = completed (seen bb d)" unfolding completed_def tl_map_upt by (simp add: seen_def n1 s)
  finally show ?thesis ..
qed

lemma seen_inv:
  assumes "disk_inv d P F" "completed d = c # cs" "buf_of d c = Some bb"
  shows "disk_inv (seen bb d) P (F @ [c])"
proof -
  let ?d = "seen bb d"
  have I: "chained d (P @ completed d @ F)" "length (info d) = 64" "length (used_ring d) = 64" "None \<notin> buf_of d ` set (P @ completed d @ F)"
    "distinct (map (buf_of d) (P @ completed d @ F))" "\<forall>h\<in>set P \<union> set (completed d). b_disk d (the (buf_of d h))"
    "\<forall>h\<in>set F. \<not> b_disk d (the (buf_of d h))"
    using assms(1) by (simp_all add: disk_inv_def Let_def)
  have c: "completed ?d = cs" by (rule completed_seen) (rule assms(2))
  let ?hs = "P @ completed ?d @ F @ [c]"
  have m: "mset ?hs = mset (P @ completed d @ F)" by (simp add: c assms(2))
  have ch: "chained ?d ?hs" using chained_perm[OF m[symmetric] I(1)] chained_cong[of ?d d] by (simp add: seen_def)
  have f: "info ?d = info d" "used_ring ?d = used_ring d" "b_disk ?d = (b_disk d)(bb := False)" by (simp_all add: seen_def)
  have s: "set ?hs = set (P @ completed d @ F)" using mset_eq_setD[OF m] .
  have "mset (map (buf_of d) ?hs) = mset (map (buf_of d) (P @ completed d @ F))" using m by (simp only: mset_map)
  then have dis: "distinct (map (buf_of d) ?hs)" using I(5) mset_eq_imp_distinct_iff by blast
  have "\<forall>h\<in>set P \<union> set cs. the (buf_of d h) \<noteq> bb"
  proof
    fix h assume h: "h \<in> set P \<union> set cs"
    then have "buf_of d h \<noteq> buf_of d c" using dis unfolding c by (auto simp: image_iff)
    moreover have "buf_of d h \<in> buf_of d ` set (P @ completed d @ F)" by (rule imageI) (use h assms(2) in auto)
    then have "buf_of d h \<noteq> None" using I(4) by metis
    ultimately show "the (buf_of d h) \<noteq> bb" using assms(3) by auto
  qed
  then have "\<forall>h\<in>set P \<union> set cs. b_disk ?d (the (buf_of d h))" using I(6) assms(2) f(3) by auto
  moreover have "\<forall>h\<in>set (F @ [c]). \<not> b_disk ?d (the (buf_of d h))" using I(7) assms(3) f(3) by auto
  ultimately show ?thesis using ch dis I(2-4) unfolding disk_inv_def Let_def f(1,2) s unfolding c by simp
qed

lemma interrupt_ok:
  "disk_inv d P F \<Longrightarrow> \<forall>h\<in>set (completed d). status (info d ! h) = 0 \<Longrightarrow> \<exists>w d'. do_virtio_disk_interrupt d = Some (w, d') \<and> disk_inv d' P (F @ completed d) \<and> completed d' = [] \<and>
     info d' = info d \<and> free_desc d' = free_desc d \<and> (\<forall>bb. b_disk d' bb \<longleftrightarrow> b_disk d bb \<and> Some bb \<notin> buf_of d ` set (completed d)) \<and>
     (\<forall>bb. b_valid_flag d' bb \<longleftrightarrow> b_valid_flag d bb \<or> Some bb \<in> buf_of d ` set (completed d)) \<and>
     (\<forall>bb. disk_wait_list d' bb = (if Some bb \<in> buf_of d ` set (completed d) then [] else disk_wait_list d bb)) \<and>
     w = concat (map (\<lambda>h. disk_wait_list d (the (buf_of d h))) (completed d))"
proof (induction "completed d" arbitrary: d F)
  case Nil
  then have "do_virtio_disk_interrupt d = Some ([], d)" using completed_none[of d] by (subst do_virtio_disk_interrupt.simps) simp
  then show ?case using Nil by (simp add: Nil(1)[symmetric])
next
  case (Cons c cs)
  note c = Cons.hyps(2)[symmetric]
  have I: "length (info d) = 64" "length (used_ring d) = 64" "None \<notin> buf_of d ` set (P @ completed d @ F)"
    "chained d (P @ completed d @ F)" "distinct (map (buf_of d) (P @ completed d @ F))"
    using Cons.prems(1) by (simp_all add: disk_inv_def Let_def)
  obtain bb where bb: "buf_of d c = Some bb" using I(3) by (cases "buf_of d c") (auto simp: c image_iff)
  have c64: "c < 64" using I(4) by (simp add: c chained_def linked3_def chain_def Let_def)
  have ne: "used_index d \<noteq> used_hw_index d" using completed_none[of d] c by simp
  have r: "unat (used_ring d ! (unat (used_index d) mod 64)) = c" by (rule completed_hd[OF c])
  have sz: "status (info d ! c) = 0" "\<forall>h\<in>set cs. status (info (seen bb d) ! h) = 0" using Cons.prems(2) by (simp_all add: c seen_def)
  obtain w d' where R: "do_virtio_disk_interrupt (seen bb d) = Some (w, d')" "disk_inv d' P ((F @ [c]) @ cs)" "completed d' = []"
    "info d' = info (seen bb d)" "free_desc d' = free_desc (seen bb d)"
    "\<forall>b. b_disk d' b \<longleftrightarrow> b_disk (seen bb d) b \<and> Some b \<notin> buf_of (seen bb d) ` set cs"
    "\<forall>b. b_valid_flag d' b \<longleftrightarrow> b_valid_flag (seen bb d) b \<or> Some b \<in> buf_of (seen bb d) ` set cs"
    "\<forall>b. disk_wait_list d' b = (if Some b \<in> buf_of (seen bb d) ` set cs then [] else disk_wait_list (seen bb d) b)"
    "w = concat (map (\<lambda>h. disk_wait_list (seen bb d) (the (buf_of (seen bb d) h))) cs)"
    using Cons.hyps(1)[of "seen bb d" "F @ [c]"] seen_inv[OF Cons.prems(1) c bb] completed_seen[OF c, of bb] sz by auto
  have "do_virtio_disk_interrupt d = Some (disk_wait_list d bb @ w, d')"
    using ne r c64 I(1,2) sz(1) bb R(1) by (subst do_virtio_disk_interrupt.simps) (simp add: seen_def)
  moreover have other: "Some bb \<notin> buf_of d ` set cs" using I(5) bb by (auto simp: c)
  have w: "map (\<lambda>h. disk_wait_list (seen bb d) (the (buf_of (seen bb d) h))) cs = map (\<lambda>h. disk_wait_list d (the (buf_of d h))) cs"
  proof (rule map_cong[OF refl])
    fix h assume h: "h \<in> set cs"
    then have "buf_of d h \<noteq> Some bb" using other by (metis image_eqI)
    moreover have "buf_of d h \<in> buf_of d ` set (P @ completed d @ F)" by (rule imageI) (use h c in auto)
    then have "buf_of d h \<noteq> None" using I(3) by metis
    ultimately show "disk_wait_list (seen bb d) (the (buf_of (seen bb d) h)) = disk_wait_list d (the (buf_of d h))" by (auto simp: seen_def)
  qed
  moreover have "disk_wait_list d bb @ w = concat (map (\<lambda>h. disk_wait_list d (the (buf_of d h))) (completed d))"
    using R(9) unfolding w c by (simp add: bb)
  moreover have "disk_inv d' P (F @ completed d)" using R(2) by (simp add: c)
  moreover have "info d' = info d" "free_desc d' = free_desc d" using R(4,5) by (simp_all add: seen_def)
  moreover have "b_disk d' b \<longleftrightarrow> b_disk d b \<and> Some b \<notin> buf_of d ` set (completed d)" for b using R(6) bb by (auto simp: seen_def c)
  moreover have "b_valid_flag d' b \<longleftrightarrow> b_valid_flag d b \<or> Some b \<in> buf_of d ` set (completed d)" for b using R(7) bb by (auto simp: seen_def c)
  moreover have "disk_wait_list d' b = (if Some b \<in> buf_of d ` set (completed d) then [] else disk_wait_list d b)" for b
    using R(8) bb by (auto simp: seen_def c)
  ultimately show ?case using R(3) by blast
qed

lemma interrupt_halts:
  "disk_inv d P F \<Longrightarrow> h \<in> set (completed d) \<Longrightarrow> status (info d ! h) \<noteq> 0 \<Longrightarrow> do_virtio_disk_interrupt d = None"
proof (induction "completed d" arbitrary: d F)
  case (Cons c cs)
  note c = Cons.hyps(2)[symmetric]
  have I: "length (info d) = 64" "length (used_ring d) = 64" "None \<notin> buf_of d ` set (P @ completed d @ F)" "chained d (P @ completed d @ F)"
    using Cons.prems(1) by (simp_all add: disk_inv_def Let_def)
  obtain bb where bb: "buf_of d c = Some bb" using I(3) by (cases "buf_of d c") (auto simp: c image_iff)
  have c64: "c < 64" using I(4) by (simp add: c chained_def linked3_def chain_def Let_def)
  have ne: "used_index d \<noteq> used_hw_index d" using completed_none[of d] c by simp
  have r: "unat (used_ring d ! (unat (used_index d) mod 64)) = c" by (rule completed_hd[OF c])
  show ?case
  proof (cases "status (info d ! c) = 0")
    case True
    then have "h \<in> set cs" using Cons.prems(2,3) c by auto
    then have "do_virtio_disk_interrupt (seen bb d) = None"
      using Cons.hyps(1)[of "seen bb d" "F @ [c]"] seen_inv[OF Cons.prems(1) c bb] completed_seen[OF c, of bb] Cons.prems(3) by (simp add: seen_def)
    then show ?thesis using ne r c64 I(1,2) bb by (subst do_virtio_disk_interrupt.simps) (simp add: seen_def)
  next
    case False
    then show ?thesis using ne r c64 I(1,2) by (subst do_virtio_disk_interrupt.simps) simp
  qed
qed simp

lemma interrupt_some: "disk_inv d P F \<Longrightarrow> do_virtio_disk_interrupt d = Some r \<Longrightarrow> \<forall>h\<in>set (completed d). status (info d ! h) = 0"
  using interrupt_halts by fastforce

lemma finish_ok:
  assumes "disk_inv d P F" "h \<in> set F"
  shows "\<exists>w d'. virtio_disk_rw_finish h d = Some (w, d') \<and> disk_inv d' P (remove1 h F) \<and>
    owned d' (P @ completed d' @ remove1 h F) = owned d (P @ completed d @ remove1 h F) \<and> completed d' = completed d \<and> b_disk d' = b_disk d"
proof -
  obtain A B where F: "F = A @ h # B" using split_list[OF assms(2)] by blast
  have I: "chained d (P @ completed d @ F)" "length (info d) = 64" "length (used_ring d) = 64" "None \<notin> buf_of d ` set (P @ completed d @ F)"
    "distinct (map (buf_of d) (P @ completed d @ F))" "\<forall>h\<in>set P \<union> set (completed d). b_disk d (the (buf_of d h))"
    "\<forall>h\<in>set F. \<not> b_disk d (the (buf_of d h))"
    using assms(1) by (simp_all add: disk_inv_def Let_def)
  have dis: "distinct (P @ completed d @ F)" using chained_distinct[OF I(1)] .
  have rm: "remove1 h F = A @ B" using dis unfolding F by (simp add: remove1_append)
  have h64: "h < 64" using I(1) assms(2) by (auto simp: chained_def linked3_def chain_def Let_def)
  let ?d = "d\<lparr>info := (info d)[h := (info d ! h)\<lparr>buf := None\<rparr>]\<rparr>"
  have "chained ?d ((P @ completed d @ A) @ h # B)" using I(1) chained_cong[of ?d d] unfolding F by simp
  then obtain w d' where R: "free_descriptor_list h ?d = Some (w, d')" "chained d' ((P @ completed d @ A) @ B)"
    "owned d' ((P @ completed d @ A) @ B) = owned ?d ((P @ completed d @ A) @ B)"
    "d' = ?d\<lparr>desc := desc d', free_desc := free_desc d', disk_wait := disk_wait d'\<rparr>" using free_list_ok by blast
  have run: "virtio_disk_rw_finish h d = Some (w, d')" using R(1) h64 I(2) by (simp add: virtio_disk_rw_finish_def)
  have c: "completed d' = completed d" by (subst R(4)) simp
  have f: "info d' = (info d)[h := (info d ! h)\<lparr>buf := None\<rparr>]" "b_disk d' = b_disk d" "used_ring d' = used_ring d" by (subst R(4), simp)+
  let ?hs = "P @ completed d @ A @ B"
  have new: "h \<notin> set ?hs" using dis unfolding F by auto
  have old: "info d' ! k = info d ! k" if "k \<in> set ?hs" for k using new that unfolding f(1) by (metis nth_list_update_neq)
  have im: "buf_of d' ` set ?hs = buf_of d ` set ?hs" by (rule image_cong[OF refl]) (simp add: old)
  have mp: "map (buf_of d') ?hs = map (buf_of d) ?hs" using old by simp
  have sub: "buf_of d ` set ?hs \<subseteq> buf_of d ` set (P @ completed d @ F)" by (rule image_mono) (auto simp: F)
  have "None \<notin> buf_of d' ` set ?hs" using I(4) sub unfolding im by blast
  moreover have "distinct (map (buf_of d') ?hs)" using I(5) unfolding mp F by auto
  moreover have "\<forall>k\<in>set P \<union> set (completed d). b_disk d' (the (buf_of d' k))" using I(6) old f(2) by auto
  moreover have "\<forall>k\<in>set (A @ B). \<not> b_disk d' (the (buf_of d' k))" using I(7) old f(2) F by auto
  ultimately have "disk_inv d' P (A @ B)" using R(2) I(2,3) f(1,3) unfolding disk_inv_def Let_def c by simp
  moreover have "owned d' ?hs = owned d ?hs" using R(3) owned_cong(1)[of d ?hs ?d] by simp
  ultimately show ?thesis using run c f(2) unfolding rm by auto
qed

lemma wait_inv:
  assumes "disk_inv d P F" "virtio_disk_rw_wait me bb d = (r, d')"
  shows "disk_inv d' P F"
proof (cases "b_disk d bb")
  case True
  let ?d = "d\<lparr>disk_wait_list := (disk_wait_list d)(bb := me # disk_wait_list d bb)\<rparr>"
  have "chained ?d (P @ completed d @ F)" using inv_chained[OF assms(1)] chained_cong[of ?d d] by simp
  then have "disk_inv ?d P F" by (rule disk_inv_cong) (simp_all add: assms(1))
  then show ?thesis using assms(2) True by (simp add: virtio_disk_rw_wait_def)
qed (use assms in \<open>simp add: virtio_disk_rw_wait_def\<close>)

lemma run_inv: "disk_run d P F \<Longrightarrow> disk_inv d P F"
proof (induction rule: disk_run.induct)
  case (irq d P F w d')
  then show ?case using interrupt_ok[OF irq.IH interrupt_some[OF irq.IH irq.hyps(2)]] by auto
next
  case (finish d P F h w d')
  then show ?case using finish_ok[OF finish.IH finish.hyps(2)] by auto
qed (blast intro: idle_inv submit_inv no_room_inv device_inv wait_inv)+

section \<open>Properties\<close>

lemma submit_none_iff:
  assumes "disk_inv d P F"
  shows "\<exists>r w d'. virtio_disk_rw_submit me bb wr d = Some (r, w, d') \<and> (r = None \<longleftrightarrow> length P + length (completed d) + length F = 21)"
proof -
  let ?hs = "P @ completed d @ F"
  note ch = inv_chained[OF assms]
  show ?thesis
  proof (cases "length ?hs < 21")
    case True
    then show ?thesis using submit_ok[OF ch True, of me bb wr] by auto
  next
    case False
    then have "length P + length (completed d) + length F = 21" using completed_few[OF assms] by simp
    then show ?thesis using submit_full[OF ch False, of me bb wr] by auto
  qed
qed

lemma finish_frees:
  assumes "disk_inv d P F" "h \<in> set F"
  shows "\<exists>w d'. virtio_disk_rw_finish h d = Some (w, d') \<and> (\<forall>i<64. free_desc d' ! i \<longleftrightarrow> free_desc d ! i \<or> i \<in> set (chain d h))"
proof -
  obtain w d' where R: "virtio_disk_rw_finish h d = Some (w, d')" "disk_inv d' P (remove1 h F)"
    "owned d' (P @ completed d' @ remove1 h F) = owned d (P @ completed d @ remove1 h F)" using finish_ok[OF assms] by blast
  let ?hs = "P @ completed d @ F"
  let ?rs = "P @ completed d @ remove1 h F"
  have c: "chained d ?hs" "chained d' (P @ completed d' @ remove1 h F)" using inv_chained assms(1) R(2) by blast+
  have m: "mset ?hs = mset (h # ?rs)" using assms(2) by simp
  have "mset (owned d ?hs) = mset (owned d (h # ?rs))" unfolding mset_owned m ..
  then have p: "set (owned d ?hs) = set (owned d (h # ?rs))" "distinct (owned d (h # ?rs))"
    using mset_eq_setD mset_eq_imp_distinct_iff c(1) unfolding chained_def by metis+
  have q: "set (owned d ?hs) = set (chain d h) \<union> set (owned d ?rs)" unfolding p(1) by (simp only: list.map concat.simps set_append)
  have "free_desc d' ! i \<longleftrightarrow> free_desc d ! i \<or> i \<in> set (chain d h)" if "i < 64" for i
  proof -
    have "free_desc d' ! i \<longleftrightarrow> i \<notin> set (owned d ?rs)" using c(2) that unfolding chained_def R(3) by blast
    moreover have "free_desc d ! i \<longleftrightarrow> i \<notin> set (chain d h) \<union> set (owned d ?rs)" using c(1) that unfolding chained_def q by blast
    moreover have "set (chain d h) \<inter> set (owned d ?rs) = {}" using p(2) by simp
    ultimately show ?thesis by blast
  qed
  then show ?thesis using R(1) by blast
qed

text \<open>C8. In every run of the driver and the device, whatever status the device ends its requests with, the requests in flight own disjoint chains of three descriptors and
  all other descriptors are free; a submission succeeds unless 21 requests are in flight; the interrupt halts the kernel if the device has ended a request with an
  error, and otherwise it returns and marks exactly the buffers of the requests that the device has ended; and the end of a request frees exactly its
  chain.\<close>

theorem disk_requests_disjoint:
  assumes "disk_run d P F"
  shows "distinct (owned d (P @ completed d @ F)) \<and> (\<forall>i<64. free_desc d ! i \<longleftrightarrow> i \<notin> set (owned d (P @ completed d @ F))) \<and>
    (\<exists>r w d'. virtio_disk_rw_submit me bb wr d = Some (r, w, d') \<and> (r = None \<longleftrightarrow> length P + length (completed d) + length F = 21)) \<and>
    (if \<exists>h\<in>set (completed d). status (info d ! h) \<noteq> 0 then do_virtio_disk_interrupt d = None
     else \<exists>w d'. do_virtio_disk_interrupt d = Some (w, d') \<and> completed d' = [] \<and>
       (\<forall>b. b_disk d' b \<longleftrightarrow> b_disk d b \<and> Some b \<notin> buf_of d ` set (completed d)) \<and>
       (\<forall>b. b_valid_flag d' b \<longleftrightarrow> b_valid_flag d b \<or> Some b \<in> buf_of d ` set (completed d)) \<and>
       w = concat (map (\<lambda>h. disk_wait_list d (the (buf_of d h))) (completed d))) \<and>
    (\<forall>h\<in>set F. \<exists>w d'. virtio_disk_rw_finish h d = Some (w, d') \<and> (\<forall>i<64. free_desc d' ! i \<longleftrightarrow> free_desc d ! i \<or> i \<in> set (chain d h)))"
  (is "?A \<and> ?B \<and> ?C \<and> (if ?E then ?N else ?D) \<and> ?F")
proof -
  note I = run_inv[OF assms]
  have ?A ?B using inv_chained[OF I] unfolding chained_def by blast+
  moreover have ?C by (rule submit_none_iff[OF I])
  moreover have ?N if ?E using interrupt_halts[OF I] that by blast
  moreover have ?D if "\<not> ?E"
  proof -
    have "\<forall>h\<in>set (completed d). status (info d ! h) = 0" using that by blast
    from interrupt_ok[OF I this] show ?thesis by metis
  qed
  moreover have ?F using finish_frees[OF I] by blast
  ultimately show ?thesis by simp
qed

text \<open>A disk after its initialisation, with one request.\<close>

definition disk0 :: disk_t where
  "disk0 = \<lparr>desc = replicate 64 no_desc, avail_ring = replicate 64 0, avail_index = 0, used_ring = replicate 64 0, used_hw_index = 0,
     free_desc = replicate 64 True, used_index = 0, info = replicate 64 \<lparr>buf = None, status = 0\<rparr>,
     ops = replicate 64 \<lparr>type_of_req = 0, reserved = 0, sector = 0\<rparr>, disk_wait = [], b_disk = (\<lambda>_. False), b_valid_flag = (\<lambda>_. False),
     disk_wait_list = (\<lambda>_. []), blkno_of = (\<lambda>_. 7)\<rparr>"

lemma disk_requests_disjoint_witness:
  "\<exists>h d. disk_run d [h] [] \<and> distinct (owned d [h]) \<and> (\<exists>r w d'. virtio_disk_rw_submit 1 5 True d = Some (r, w, d') \<and> r \<noteq> None)"
proof -
  have b: "disk_run disk0 [] []" by (rule boot) (simp add: idle_disk_def disk0_def)
  have c: "completed disk0 = []" by (simp add: completed_def disk0_def)
  have "chained disk0 []" using inv_chained[OF run_inv[OF b]] c by simp
  then obtain h d where s: "virtio_disk_rw_submit 1 3 False disk0 = Some (Some h, [], d)"
    "d = disk0\<lparr>desc := desc d, free_desc := free_desc d, ops := ops d, info := (info disk0)[h := \<lparr>buf = Some 3, status = 0xff\<rparr>],
      b_disk := (b_disk disk0)(3 := True), avail_ring := avail_ring d, avail_index := avail_index disk0 + 1\<rparr>"
    using submit_ok[of disk0 "[]" 1 3 False] by auto
  have r: "disk_run d [h] []" by (rule submit[OF b _ s(1)]) (simp add: c)
  have "completed d = []" by (subst s(2)) (simp add: c)
  then show ?thesis using r disk_requests_disjoint[OF r, of 1 5 True] by (intro exI[of _ h] exI[of _ d]) auto
qed

lemma virtio_disk_init_starts:
  assumes "virtio_disk_init rd s d = Some (ws, d', s')" "length (info d) = 64" "used_index d = 0"
  shows "disk_run d' [] []"
proof (rule boot)
  show "idle_disk d'" using assms by (auto simp: virtio_disk_init_def idle_disk_def hoare_simps Let_def split: prod.splits)
qed

end
