(* ===== verification/Device.thy ===== *)
theory Device
  imports Tty Virtio_Disk Kstring
begin

text \<open>
  The device table (kernel/device/device.c), the installation of the drivers, and the way of an interrupt from the
  interrupt controller (platform/plic.c) to the drivers. A function pointer is named by its driver, of
  which there is one instance each.
\<close>

section \<open>The table\<close>

datatype device_type_t = DEV_NULL | DEV_CHAR | DEV_BLOCK
datatype device_subtype_t = DEV_TTY | DEV_SERIAL | DEV_EXTERNAL_STORAGE
datatype driver = Null_Driver | Tty_Driver | Uart_Driver | Virtio_Driver

record device_t =
  dev_type :: device_type_t
  dev_subtype :: device_subtype_t
  dev_no :: u32
  dev_parent :: u32
  dev_name :: "byte list"
  dev_interrupt_handler :: "driver option"
  dev_read :: "driver option"
  dev_write :: "driver option"

abbreviation (input) NDEVICE :: nat where "NDEVICE \<equiv> 64"
abbreviation (input) DEV_NAME_LEN :: nat where "DEV_NAME_LEN \<equiv> 8"
abbreviation (input) MAX_INTTERUPT_SRC_ID :: nat where "MAX_INTTERUPT_SRC_ID \<equiv> 36"
abbreviation (input) UART0_IRQ :: nat where "UART0_IRQ \<equiv> 10"
abbreviation (input) VIRTIO_IRQ :: nat where "VIRTIO_IRQ \<equiv> 1"

text \<open>\<open>get_null_device\<close>: the first free entry behind the numbers of the interrupt controller.\<close>

definition get_null_device :: "device_t list \<Rightarrow> nat option" where
  "get_null_device devices = find (\<lambda>i. dev_type (devices ! i) = DEV_NULL) [MAX_INTTERUPT_SRC_ID..<NDEVICE]"

text \<open>\<open>k\<close> is the entry of the table (\<open>None\<close>: the null pointer). The result is the number in the entry.\<close>

definition device_install :: "device_type_t \<Rightarrow> device_subtype_t \<Rightarrow> byte list \<Rightarrow> u32 \<Rightarrow> driver option \<Rightarrow> driver option \<Rightarrow> driver option \<Rightarrow>
    nat option \<Rightarrow> device_t list \<Rightarrow> (u32 \<times> device_t list) option" where
  "device_install type subtype name parent interrupt_handler read write k devices = do {
     i \<leftarrow> k;
     d \<leftarrow> nth_opt devices i;
     let m = strncpy (\<lambda>a. if a < length name then name ! a else 0) (length name + 1) 0 DEV_NAME_LEN;
     Some (dev_no d, devices[i := d\<lparr>dev_parent := parent, dev_type := type, dev_subtype := subtype, dev_interrupt_handler := interrupt_handler,
       dev_read := read, dev_write := write, dev_name := map (\<lambda>j. m (length name + 1 + j)) [0..<DEV_NAME_LEN]\<rparr>]) }"

text \<open>The rows of \<open>tty_init\<close>, \<open>uart_soft_init\<close> and \<open>virtio_disk_init\<close>. \<open>current_tty\<close> is the number of the terminal.\<close>

definition tty_install :: "device_t list \<Rightarrow> (u32 \<times> device_t list) option" where
  "tty_install devices = device_install DEV_CHAR DEV_TTY [116, 116, 121, 48] 0 (Some Tty_Driver) (Some Tty_Driver) (Some Tty_Driver)
     (get_null_device devices) devices"

definition uart_soft_init :: "u32 \<Rightarrow> byte list \<Rightarrow> terminal \<times> device_t list \<Rightarrow> (terminal \<times> device_t list) option" where
  "uart_soft_init current_tty rx_array s = do {
     t \<leftarrow> uart_queue_init rx_array (fst s);
     (_, devices) \<leftarrow> device_install DEV_CHAR DEV_SERIAL [117, 97, 114, 116, 48] current_tty (Some Uart_Driver) (Some Uart_Driver)
       (Some Uart_Driver) (Some UART0_IRQ) (snd s);
     Some (t, devices) }"

definition virtio_install :: "device_t list \<Rightarrow> (u32 \<times> device_t list) option" where
  "virtio_install devices = device_install DEV_BLOCK DEV_EXTERNAL_STORAGE [118, 105, 114, 116, 105, 111, 95, 100, 105, 115, 107] 0
     (Some Virtio_Driver) (Some Virtio_Driver) (Some Virtio_Driver) (Some VIRTIO_IRQ) devices"

text \<open>The registers of the serial line: what is written, in order; \<open>rd\<close> is what the device answers.\<close>

definition uart_hard_init :: "(nat \<Rightarrow> byte) \<Rightarrow> (nat \<times> byte) list" where
  "uart_hard_init rd = [(1, 0), (3, rd 3 OR 0x80), (0, 3), (1, 0), (3, 0 OR 3), (2, rd 2 OR 1 OR 6), (1, rd 1 OR 1)]"

definition uart_init :: "u32 \<Rightarrow> (nat \<Rightarrow> byte) \<Rightarrow> byte list \<Rightarrow> terminal \<times> device_t list \<Rightarrow> ((nat \<times> byte) list \<times> terminal \<times> device_t list) option" where
  "uart_init current_tty rd rx_array s = do { s1 \<leftarrow> uart_soft_init current_tty rx_array s; Some (uart_hard_init rd, s1) }"

text \<open>\<open>device_init\<close> stores \<open>DEV_NULL\<close>, which is 0, in the subtype too, and there 0 is \<open>DEV_TTY\<close>.\<close>

definition null_device :: "nat \<Rightarrow> device_t \<Rightarrow> device_t" where
  "null_device i d = d\<lparr>dev_type := DEV_NULL, dev_subtype := DEV_TTY, dev_no := word_of_nat i, dev_parent := 0, dev_interrupt_handler := None,
     dev_read := None, dev_write := None\<rparr>"

definition device_init :: "(nat \<Rightarrow> byte) \<Rightarrow> byte list \<Rightarrow> byte list \<Rightarrow> terminal \<times> device_t list \<Rightarrow> ((nat \<times> byte) list \<times> terminal \<times> device_t list) option" where
  "device_init rd tty_array rx_array s = do {
     (_, d0) \<leftarrow> device_install DEV_NULL DEV_TTY [110, 117, 108, 108] 0 None (Some Null_Driver) (Some Null_Driver) (Some 0) (snd s);
     let d1 = d0[0 := (d0 ! 0)\<lparr>dev_no := 0\<rparr>];
     let d2 = map (\<lambda>i. if i = 0 then d1 ! 0 else null_device i (d1 ! i)) [0..<NDEVICE];
     t \<leftarrow> tty_init tty_array (fst s);
     (current_tty, d3) \<leftarrow> tty_install d2;
     uart_init current_tty rd rx_array (t, d3) }"

section \<open>Interrupts\<close>

text \<open>The handlers over the state of the drivers; the result has the processes woken.\<close>

fun run_handler :: "driver \<Rightarrow> terminal \<times> disk_t \<Rightarrow> (nat list \<times> terminal \<times> disk_t) option" where
  "run_handler Tty_Driver (t, k) = do { (w, t1) \<leftarrow> do_tty_interrupt t; Some (w, t1, k) }"
| "run_handler Uart_Driver (t, k) = do { t1 \<leftarrow> do_uart_interrupt t; Some ([], t1, k) }"
| "run_handler Virtio_Driver (t, k) = do { (w, k1) \<leftarrow> do_virtio_disk_interrupt k; Some (w, t, k1) }"
| "run_handler Null_Driver s = None"

text \<open>The handler of a device, then those of its parents.\<close>

partial_function (option) device_interrupt_handler :: "device_t list \<Rightarrow> u32 \<Rightarrow> terminal \<times> disk_t \<Rightarrow> (nat list \<times> terminal \<times> disk_t) option" where
  "device_interrupt_handler devices d s = do {
     e \<leftarrow> nth_opt devices (unat d);
     cassert (dev_type e \<noteq> DEV_NULL);
     h \<leftarrow> dev_interrupt_handler e;
     (w, s1) \<leftarrow> run_handler h s;
     if dev_parent e \<noteq> 0 then do {
       (w1, s2) \<leftarrow> device_interrupt_handler devices (dev_parent e) s1;
       Some (w @ w1, s2) }
     else Some (w, s1) }"

text \<open>\<open>irq\<close> is what the controller answers to the claim; the flag says that it is told that the interrupt is served.\<close>

definition external_interrupt_handler :: "device_t list \<Rightarrow> u32 \<Rightarrow> terminal \<times> disk_t \<Rightarrow> (bool \<times> nat list \<times> terminal \<times> disk_t) option" where
  "external_interrupt_handler devices irq s =
     (if irq \<noteq> 0 then do { (w, s1) \<leftarrow> device_interrupt_handler devices irq s; Some (True, w, s1) } else Some (False, [], s))"

section \<open>Reads and writes for processes\<close>

text \<open>\<open>device_read\<close> and \<open>device_write\<close> for a user's buffer. The serial line and the disk assert that the buffer is the
  kernel's.\<close>

definition null_read :: int where "null_read = 0"
definition null_write :: int where "null_write = 0"

definition device_read :: "device_t list \<Rightarrow> u32 \<Rightarrow> (byte list \<Rightarrow> 'm \<Rightarrow> 'm option) \<Rightarrow> nat \<Rightarrow> bool \<Rightarrow> nat \<Rightarrow> byte list \<Rightarrow> 'm \<Rightarrow> terminal \<Rightarrow>
    (outcome \<times> byte list \<times> 'm \<times> terminal) option" where
  "device_read devices d out cnt killed me buffer m t = do {
     e \<leftarrow> nth_opt devices (unat d);
     r \<leftarrow> dev_read e;
     (case r of
        Null_Driver \<Rightarrow> Some (Done null_read, buffer, m, t)
      | Tty_Driver \<Rightarrow> tty_read out cnt killed me buffer m t
      | Uart_Driver \<Rightarrow> None
      | Virtio_Driver \<Rightarrow> None) }"

definition device_write :: "device_t list \<Rightarrow> u32 \<Rightarrow> (nat \<Rightarrow> byte list option) \<Rightarrow> nat \<Rightarrow> terminal \<Rightarrow> (int \<times> terminal) option" where
  "device_write devices d src cnt t = do {
     e \<leftarrow> nth_opt devices (unat d);
     r \<leftarrow> dev_write e;
     (case r of
        Null_Driver \<Rightarrow> Some (null_write, t)
      | Tty_Driver \<Rightarrow> tty_write src cnt t
      | Uart_Driver \<Rightarrow> None
      | Virtio_Driver \<Rightarrow> None) }"


section \<open>The way of an interrupt\<close>

lemma find_first: "a < b \<Longrightarrow> P a \<Longrightarrow> find P [a..<b] = Some a"
  by (simp add: upt_conv_Cons)

lemma device_install_ok:
  "i < length devices \<Longrightarrow> \<exists>nm. device_install type subtype name parent h r w (Some i) devices = Some (dev_no (devices ! i),
     devices[i := (devices ! i)\<lparr>dev_parent := parent, dev_type := type, dev_subtype := subtype, dev_interrupt_handler := h, dev_read := r, dev_write := w,
       dev_name := nm\<rparr>])"
  by (simp add: device_install_def Let_def) blast

text \<open>The table after the start of the system.\<close>

definition booted_devices :: "device_t list \<Rightarrow> bool" where
  "booted_devices devices \<longleftrightarrow> length devices = 64 \<and>
     (\<forall>i<64. dev_type (devices ! i) = (if i = 10 \<or> i = 36 then DEV_CHAR else if i = 1 then DEV_BLOCK else DEV_NULL)) \<and>
     dev_parent (devices ! 10) = 36 \<and> dev_parent (devices ! 36) = 0 \<and> dev_parent (devices ! 1) = 0 \<and>
     dev_interrupt_handler (devices ! 10) = Some Uart_Driver \<and> dev_interrupt_handler (devices ! 36) = Some Tty_Driver \<and>
     dev_interrupt_handler (devices ! 1) = Some Virtio_Driver"

lemma device_init_boots:
  assumes "length (snd s) = 64" "length tty_array = 1024" "length rx_array = 1024"
  shows "\<exists>ws t ds d ds'. device_init rd tty_array rx_array s = Some (ws, t, ds) \<and> virtio_install ds = Some (d, ds') \<and> booted_devices ds' \<and>
    queue_inv (rx_qm t) \<and> queue_inv (secondary_qm t)"
proof -
  obtain nm0 where i0: "device_install DEV_NULL DEV_TTY [110, 117, 108, 108] 0 None (Some Null_Driver) (Some Null_Driver) (Some 0) (snd s) =
      Some (dev_no (snd s ! 0), (snd s)[0 := (snd s ! 0)\<lparr>dev_parent := 0, dev_type := DEV_NULL, dev_subtype := DEV_TTY, dev_interrupt_handler := None,
        dev_read := Some Null_Driver, dev_write := Some Null_Driver, dev_name := nm0\<rparr>])"
    using device_install_ok[of 0 "snd s" DEV_NULL DEV_TTY "[110, 117, 108, 108]" 0 None "Some Null_Driver" "Some Null_Driver"] assms(1) by auto
  define d0 where "d0 = (snd s)[0 := (snd s ! 0)\<lparr>dev_parent := 0, dev_type := DEV_NULL, dev_subtype := DEV_TTY, dev_interrupt_handler := None,
        dev_read := Some Null_Driver, dev_write := Some Null_Driver, dev_name := nm0\<rparr>]"
  define d1 where "d1 = d0[0 := (d0 ! 0)\<lparr>dev_no := 0\<rparr>]"
  define d2 where "d2 = map (\<lambda>i. if i = 0 then d1 ! 0 else null_device i (d1 ! i)) [0..<NDEVICE]"
  have l2: "length d2 = 64" by (simp add: d2_def)
  have ty: "dev_type (d2 ! i) = DEV_NULL" if "i < 64" for i
    using that assms(1) by (simp add: d2_def null_device_def d1_def d0_def)
  have dn: "dev_no (d2 ! 36) = 36" by (simp add: d2_def null_device_def)
  have g: "get_null_device d2 = Some 36" unfolding get_null_device_def by (rule find_first) (simp_all add: ty)
  obtain qt where qt: "queue_init 1024 tty_array = Some qt" "queue_inv qt" using queue_init_returns[of 1024 tty_array] queue_init_ok[of 1024 tty_array] assms(2) by fastforce
  obtain qr where qr: "queue_init 1024 rx_array = Some qr" "queue_inv qr" using queue_init_returns[of 1024 rx_array] queue_init_ok[of 1024 rx_array] assms(3) by fastforce
  obtain nm1 where i1: "device_install DEV_CHAR DEV_TTY [116, 116, 121, 48] 0 (Some Tty_Driver) (Some Tty_Driver) (Some Tty_Driver) (Some 36) d2 =
      Some (dev_no (d2 ! 36), d2[36 := (d2 ! 36)\<lparr>dev_parent := 0, dev_type := DEV_CHAR, dev_subtype := DEV_TTY, dev_interrupt_handler := Some Tty_Driver,
        dev_read := Some Tty_Driver, dev_write := Some Tty_Driver, dev_name := nm1\<rparr>])"
    using device_install_ok[of 36 d2] l2 by fastforce
  define d3 where "d3 = d2[36 := (d2 ! 36)\<lparr>dev_parent := 0, dev_type := DEV_CHAR, dev_subtype := DEV_TTY, dev_interrupt_handler := Some Tty_Driver,
        dev_read := Some Tty_Driver, dev_write := Some Tty_Driver, dev_name := nm1\<rparr>]"
  have l3: "length d3 = 64" by (simp add: d3_def l2)
  obtain nm2 where i2: "device_install DEV_CHAR DEV_SERIAL [117, 97, 114, 116, 48] 36 (Some Uart_Driver) (Some Uart_Driver) (Some Uart_Driver) (Some 10) d3 =
      Some (dev_no (d3 ! 10), d3[10 := (d3 ! 10)\<lparr>dev_parent := 36, dev_type := DEV_CHAR, dev_subtype := DEV_SERIAL, dev_interrupt_handler := Some Uart_Driver,
        dev_read := Some Uart_Driver, dev_write := Some Uart_Driver, dev_name := nm2\<rparr>])"
    using device_install_ok[of 10 d3] l3 by fastforce
  define d4 where "d4 = d3[10 := (d3 ! 10)\<lparr>dev_parent := 36, dev_type := DEV_CHAR, dev_subtype := DEV_SERIAL, dev_interrupt_handler := Some Uart_Driver,
        dev_read := Some Uart_Driver, dev_write := Some Uart_Driver, dev_name := nm2\<rparr>]"
  have l4: "length d4 = 64" by (simp add: d4_def l3)
  obtain d ds' nm3 where i3: "virtio_install d4 = Some (d, ds')" "ds' = d4[1 := (d4 ! 1)\<lparr>dev_parent := 0, dev_type := DEV_BLOCK,
        dev_subtype := DEV_EXTERNAL_STORAGE, dev_interrupt_handler := Some Virtio_Driver, dev_read := Some Virtio_Driver, dev_write := Some Virtio_Driver, dev_name := nm3\<rparr>]"
    unfolding virtio_install_def using device_install_ok[of 1 d4] l4 by fastforce
  have "tty_install d2 = Some (36, d3)" unfolding tty_install_def g i1 d3_def by (simp add: dn)
  moreover have "tty_init tty_array (fst s) = Some ((fst s)\<lparr>secondary_qm := qt, tty_wait_list := []\<rparr>)" by (simp add: tty_init_def qt(1))
  moreover have "uart_init 36 rd rx_array (t, d3) = Some (uart_hard_init rd, t\<lparr>rx_qm := qr\<rparr>, d4)" for t
    by (simp add: uart_init_def uart_soft_init_def uart_queue_init_def qr(1) i2 d4_def)
  ultimately have "device_init rd tty_array rx_array s = Some (uart_hard_init rd, (fst s)\<lparr>secondary_qm := qt, tty_wait_list := [], rx_qm := qr\<rparr>, d4)"
    unfolding device_init_def i0 by (simp only: Let_def d0_def[symmetric] d1_def[symmetric] d2_def[symmetric] bind.simps prod.case fst_conv snd_conv)
  moreover have "booted_devices ds'" using ty by (auto simp: booted_devices_def i3(2) d4_def d3_def l2 nth_list_update)
  ultimately show ?thesis using i3(1) qt(2) qr(2) by auto
qed

text \<open>After the start of the system an interrupt of the serial line runs the driver of the serial line and then that of
  the terminal, one of the disk runs the disk driver, each is reported as served when the drivers return, the
  claim 0 does nothing, and any other source stops the kernel at an assertion.\<close>

theorem interrupts_reach_their_drivers:
  assumes "booted_devices devices"
  shows "external_interrupt_handler devices 10 (t, k) =
      do { t1 \<leftarrow> do_uart_interrupt t; (w, t2) \<leftarrow> do_tty_interrupt t1; Some (True, w, t2, k) } \<and>
    external_interrupt_handler devices 1 (t, k) = do { (w, k1) \<leftarrow> do_virtio_disk_interrupt k; Some (True, w, t, k1) } \<and>
    external_interrupt_handler devices 0 (t, k) = Some (False, [], t, k) \<and>
    (\<forall>irq. irq \<notin> {0, 1, 10, 36} \<longrightarrow> external_interrupt_handler devices irq (t, k) = None)"
proof -
  note B = assms[unfolded booted_devices_def]
  have ty: "dev_type (devices ! i) = (if i = 10 \<or> i = 36 then DEV_CHAR else if i = 1 then DEV_BLOCK else DEV_NULL)" if "i < 64" for i
    using B that by blast
  have 36: "device_interrupt_handler devices 36 s = do { (w, s1) \<leftarrow> run_handler Tty_Driver s; Some (w, s1) }" for s
    using B ty[of 36] by (subst device_interrupt_handler.simps) simp
  have 10: "device_interrupt_handler devices 10 s = do { (w, s1) \<leftarrow> run_handler Uart_Driver s;
      (w1, s2) \<leftarrow> device_interrupt_handler devices 36 s1; Some (w @ w1, s2) }" for s
    using B ty[of 10] by (subst device_interrupt_handler.simps) simp
  have 1: "device_interrupt_handler devices 1 s = do { (w, s1) \<leftarrow> run_handler Virtio_Driver s; Some (w, s1) }" for s
    using B ty[of 1] by (subst device_interrupt_handler.simps) simp
  have "external_interrupt_handler devices 10 (t, k) = do { t1 \<leftarrow> do_uart_interrupt t; (w, t2) \<leftarrow> do_tty_interrupt t1; Some (True, w, t2, k) }"
    by (simp add: external_interrupt_handler_def 10 36 split: bind_splits)
  moreover have "external_interrupt_handler devices 1 (t, k) = do { (w, k1) \<leftarrow> do_virtio_disk_interrupt k; Some (True, w, t, k1) }"
    by (simp add: external_interrupt_handler_def 1 split: bind_splits)
  moreover have "external_interrupt_handler devices irq (t, k) = None" if i: "irq \<notin> {0, 1, 10, 36}" for irq
  proof (cases "unat irq < 64")
    case True
    have "unat irq \<noteq> 10" "unat irq \<noteq> 36" "unat irq \<noteq> 1" using i by (auto simp: word_unat_eq_iff)
    then show ?thesis using i ty[OF True] B True by (simp add: external_interrupt_handler_def device_interrupt_handler.simps)
  next
    case False
    then show ?thesis using i B by (simp add: external_interrupt_handler_def device_interrupt_handler.simps nth_opt_def)
  qed
  ultimately show ?thesis by (simp add: external_interrupt_handler_def)
qed


definition device0 :: device_t where
  "device0 = \<lparr>dev_type = DEV_NULL, dev_subtype = DEV_TTY, dev_no = 0, dev_parent = 0, dev_name = replicate 8 0, dev_interrupt_handler = None,
     dev_read = None, dev_write = None\<rparr>"

lemma interrupts_reach_their_drivers_witness:
  "\<exists>ws t ds d ds'. device_init (\<lambda>_. 0) (replicate 1024 0) (replicate 1024 0) (terminal0, replicate 64 device0) = Some (ws, t, ds) \<and>
     virtio_install ds = Some (d, ds') \<and> external_interrupt_handler ds' 1 (t, disk0) = Some (True, [], t, disk0)"
proof -
  obtain ws t ds d ds' where b: "device_init (\<lambda>_. 0) (replicate 1024 0) (replicate 1024 0) (terminal0, replicate 64 device0) = Some (ws, t, ds)"
    "virtio_install ds = Some (d, ds')" "booted_devices ds'"
    using device_init_boots[of "(terminal0, replicate 64 device0)" "replicate 1024 0" "replicate 1024 0" "\<lambda>_. 0"] by auto
  have "do_virtio_disk_interrupt disk0 = Some ([], disk0)" by (subst do_virtio_disk_interrupt.simps) (simp add: disk0_def)
  then have "external_interrupt_handler ds' 1 (t, disk0) = Some (True, [], t, disk0)"
    using interrupts_reach_their_drivers[OF b(3), of t disk0] by simp
  then show ?thesis using b(1,2) by blast
qed

end
