(* ===== verification/Syscall_Args.thy ===== *)
theory Syscall_Args
  imports Demand_Paging
begin

text \<open>
  The arguments of system calls (kernel/sys/ksyscall.c): the saved registers and the strings they point to.
\<close>

section \<open>Operations\<close>

text \<open>\<open>tf\<close> are the saved registers from \<open>a0\<close> on.\<close>

definition argufetch :: "u64 list \<Rightarrow> nat \<Rightarrow> u64 option" where
  "argufetch tf n = do { cassert (n \<le> 5); nth_opt tf n }"

text \<open>The loop of \<open>argstrfetch\<close>, which may not end.\<close>

partial_function (option) argstrfetch_loop ::
    "(nat \<Rightarrow> u64 \<Rightarrow> nat \<Rightarrow> byte list option) \<Rightarrow> mm_struct \<Rightarrow> nat \<Rightarrow> u64 \<Rightarrow> nat \<Rightarrow> nat \<Rightarrow> nat \<Rightarrow> vm \<Rightarrow> (int \<times> vm) option" where
  "argstrfetch_loop rd mm buf vaddr len offset mx s = do {
     let n = (if PGSIZE - offset > mx then mx else PGSIZE - offset);
     (r, s1) \<leftarrow> verify_area rd mm vaddr (word_of_nat n) (PTE_R OR PTE_U) s;
     if r < 0 then Some (-1, s1)
     else do {
       (got_null, s2) \<leftarrow> copyin_string (mm_pagetable mm) (buf + len) vaddr n s1;
       let len1 = (if got_null > 0 then len + nat got_null else len);
       if got_null = -1 then argstrfetch_loop rd mm buf (vaddr + word_of_nat n) len1 0 (mx - n) s2
       else Some (int len1, s2) } }"

definition argstrfetch :: "(nat \<Rightarrow> u64 \<Rightarrow> nat \<Rightarrow> byte list option) \<Rightarrow> mm_struct \<Rightarrow> u64 \<Rightarrow> nat \<Rightarrow> nat \<Rightarrow> vm \<Rightarrow> (int \<times> vm) option" where
  "argstrfetch rd mm vaddr buf mx s = argstrfetch_loop rd mm buf vaddr 0 (unat (OFFSETPAGE vaddr)) mx s"

section \<open>Ranges of user memory that are present\<close>

text \<open>\<open>n\<close> user bytes from \<open>va\<close> on lie in areas that may be read, are mapped, and have the physical addresses from \<open>pa\<close> on.\<close>

definition user_range :: "mm_struct \<Rightarrow> u64 \<Rightarrow> nat \<Rightarrow> nat \<Rightarrow> vm \<Rightarrow> bool" where
  "user_range mm va pa n s \<longleftrightarrow> 0 < pa \<and> unat va + n \<le> 2 ^ 38 \<and>
     (\<forall>off len. off + len \<le> n \<longrightarrow> (\<exists>v. search_vmareas mm (va + word_of_nat off) (word_of_nat len) = (Some v, vm_flags v) \<and>
        (PTE_R OR PTE_U) AND vm_flags v = PTE_R OR PTE_U)) \<and>
     (\<forall>k<n. grants (lookup s (mm_pagetable mm) (va + word_of_nat k)) (PTE_R OR PTE_U) \<and>
        vaddr2paddr (mm_pagetable mm) (va + word_of_nat k) s = Some (pa + k))"

lemma user_range_bytes [simp]: "user_range mm va pa n (s\<lparr>bytes := m\<rparr>) \<longleftrightarrow> user_range mm va pa n s"
  by (simp add: user_range_def lookup_def leaf_table_def child_def)

lemma user_range_unat: "user_range mm va pa n s \<Longrightarrow> k \<le> n \<Longrightarrow> unat (va + word_of_nat k) = unat va + k"
  by (rule unat_plus_small) (simp add: user_range_def)

lemma user_range_paddr:
  assumes "user_range mm va pa n s" "off + k < n"
  shows "vaddr2paddr (mm_pagetable mm) (va + word_of_nat off + word_of_nat k) s = Some (pa + off + k) \<and> pa + off + k \<noteq> 0"
proof -
  have "vaddr2paddr (mm_pagetable mm) (va + word_of_nat (off + k)) s = Some (pa + (off + k))" "0 < pa"
    using assms unfolding user_range_def by blast+
  then show ?thesis by (simp add: add.assoc)
qed

lemma walk_present:
  assumes "leaf_table s root va = Some t" "va < MAXVA"
  shows "walk root va True s = Some (Some (t, PX 0 va), s)"
proof -
  obtain t1 where t: "child s root (PX (Suc (Suc 0)) va) = Some t1" "child s t1 (PX (Suc 0) va) = Some t"
    using assms(1) by (auto simp: leaf_table_def hoare_simps numeral_2_eq_2)
  have "walk_levels root va True (Suc (Suc 0)) s = walk_levels t va True 0 s"
    unfolding walk_levels_valid[OF t(1)] walk_levels_valid[OF t(2)] ..
  then show ?thesis using assms(2) by (simp add: walk_def numeral_2_eq_2)
qed

lemma present_leaf:
  assumes "grants (lookup s root va) p" "p \<noteq> 0"
  obtains t where "leaf_table s root va = Some t" "lookup s root va = get_pte (t, PX 0 va) s"
  using assms by (cases "leaf_table s root va") (auto simp: lookup_def get_pte_def grants_def pte_perm_def)

text \<open>Pages that are there stay as they are.\<close>

lemma verify_pages_present:
  assumes "\<And>vb. a \<le> vb \<Longrightarrow> vb < e \<Longrightarrow> grants (lookup s (mm_pagetable mm) vb) perm" "perm \<noteq> 0" "unat e \<le> 2 ^ 38"
  shows "verify_pages rd mm v a e perm s = Some (0, s)"
  using assms
proof (induction "unat e - unat a" arbitrary: a rule: less_induct)
  case less
  show ?case
  proof (cases "a < e")
    case False
    then show ?thesis by (subst verify_pages.simps) simp
  next
    case True
    then have ae: "unat a < unat e" by (simp add: word_less_nat_alt)
    have g: "grants (lookup s (mm_pagetable mm) a) perm" using less.prems(1)[of a] True by simp
    obtain t where t: "leaf_table s (mm_pagetable mm) a = Some t" "lookup s (mm_pagetable mm) a = get_pte (t, PX 0 a) s"
      using present_leaf[OF g less.prems(2)] by blast
    have am: "a < MAXVA" using ae less.prems(3) by (simp add: word_less_nat_alt)
    have u: "unat (a + 4096) = unat a + 4096" using ae less.prems(3) unat_plus_small[of a 4096] by simp
    have "a \<le> a + 4096" using u by (simp add: word_le_nat_alt)
    then have "verify_pages rd mm v (a + 4096) e perm s = Some (0, s)"
      using u ae less.prems by (intro less.hyps) auto
    then show ?thesis using True walk_present[OF t(1) am] g t(2) by (subst verify_pages.simps) (simp add: grants_def)
  qed
qed

lemma verify_present:
  assumes r: "user_range mm va pa n s" and "off + len \<le> n" "off < n"
  shows "verify_area rd mm (va + word_of_nat off) (word_of_nat len) (PTE_R OR PTE_U) s = Some (0, s)"
proof -
  let ?a = "va + word_of_nat off"
  obtain v where v: "search_vmareas mm ?a (word_of_nat len) = (Some v, vm_flags v)" "(PTE_R OR PTE_U) AND vm_flags v = PTE_R OR PTE_U"
    using r assms(2) unfolding user_range_def by blast
  have e: "?a + word_of_nat len = va + word_of_nat (off + len)" by (simp add: algebra_simps)
  have ue: "unat (?a + word_of_nat len) = unat va + off + len" unfolding e using user_range_unat[OF r assms(2)] by simp
  have ua: "unat ?a = unat va + off" using user_range_unat[OF r, of off] assms(2) by simp
  have "grants (lookup s (mm_pagetable mm) vb) (PTE_R OR PTE_U)" if vb: "PGROUNDDOWN64 ?a \<le> vb" "vb < ?a + word_of_nat len" for vb
  proof (cases "?a \<le> vb")
    case True
    let ?k = "unat vb - unat va"
    have "unat vb = unat va + ?k" using True ua by (simp add: word_le_nat_alt)
    moreover have "?k < n" using calculation vb(2) ue assms(2) unfolding word_less_nat_alt by linarith
    moreover have "va + word_of_nat ?k = vb" using calculation user_range_unat[OF r, of ?k] by (simp add: word_unat_eq_iff)
    ultimately show ?thesis using r unfolding user_range_def by metis
  next
    case False
    have off: "off < n" using assms(3) .
    have "unat vb < unat ?a" "unat ?a div 4096 * 4096 \<le> unat vb" using False vb(1) unat_PGROUNDDOWN64[of ?a]
      by (auto simp: word_le_nat_alt not_le minus_mod_eq_div_mult)
    then have "unat vb div 4096 = unat ?a div 4096" using div_le_mono[of "unat vb" "unat ?a" 4096] by (simp add: div_nat_eqI dual_order.antisym less_eq_div_iff_mult_less_eq)
    then have "drop_bit 12 vb = drop_bit 12 ?a" by (simp add: word_unat_eq_iff unat_drop_bit_eq drop_bit_eq_div unat_div)
    then have "lookup s (mm_pagetable mm) vb = lookup s (mm_pagetable mm) ?a" by (rule same_page_lookup)
    then show ?thesis using r off unfolding user_range_def by metis
  qed
  then have "verify_pages rd mm v (PGROUNDDOWN64 ?a) (?a + word_of_nat len) (PTE_R OR PTE_U) s = Some (0, s)"
    using ue r assms(2) by (intro verify_pages_present) (auto simp: user_range_def)
  then show ?thesis using v by (simp add: verify_area_def)
qed


text \<open>What \<open>mappages\<close> has mapped inside an area is such a range.\<close>

lemma mapped_user_range:
  assumes wf: "tree_wf s (mm_pagetable mm)" and m: "mappages (mm_pagetable mm) va (word_of_nat (n * PGSIZE)) pa perm s = Some (r, s')"
    and va: "PGSIZE dvd unat va" "unat va + n * PGSIZE \<le> 2 ^ 38" and pa: "PGSIZE dvd pa" "0 < pa" "pa + n * PGSIZE \<le> 2 ^ 56"
    and perm: "perm < 256" "bit perm 4" "(PTE_R OR PTE_U) AND perm = PTE_R OR PTE_U" and k: "off + k \<le> n * PGSIZE"
    and v: "vm_area_list mm = v # l" "vm_start v \<le> va" "unat va + n * PGSIZE \<le> unat (vm_end v)" "(PTE_R OR PTE_U) AND vm_flags v = PTE_R OR PTE_U"
  shows "user_range mm (va + word_of_nat off) (pa + off) k s'"
proof -
  let ?root = "mm_pagetable mm"
  have u: "unat (va + word_of_nat j) = unat va + j" if "j \<le> n * PGSIZE" for j using va(2) that by (intro unat_plus_small) simp
  have e: "va + word_of_nat off + word_of_nat j = va + word_of_nat (off + j)" for j by (simp add: algebra_simps)
  have "\<exists>v. search_vmareas mm (va + word_of_nat off + word_of_nat a) (word_of_nat b) = (Some v, vm_flags v) \<and>
      (PTE_R OR PTE_U) AND vm_flags v = PTE_R OR PTE_U" if "a + b \<le> k" for a b
  proof -
    have e3: "va + word_of_nat off + word_of_nat a + word_of_nat b = va + word_of_nat (off + a + b)" by (simp add: algebra_simps)
    have "vm_start v \<le> va + word_of_nat off + word_of_nat a" unfolding e word_le_nat_alt
      using u[of "off + a"] that k v(2) unfolding word_le_nat_alt by (simp del: of_nat_add)
    moreover have "va + word_of_nat off + word_of_nat a + word_of_nat b \<le> vm_end v" unfolding e3 word_le_nat_alt
      using u[of "off + a + b"] that k v(3) by (simp del: of_nat_add)
    ultimately have "vm_start v \<le> va + word_of_nat off + word_of_nat a" "va + word_of_nat off + word_of_nat a + word_of_nat b \<le> vm_end v" by blast+
    then show ?thesis using v(1,4) by (auto simp: search_vmareas_def Let_def)
  qed
  moreover have "grants (lookup s' ?root (va + word_of_nat off + word_of_nat j)) (PTE_R OR PTE_U) \<and>
      vaddr2paddr ?root (va + word_of_nat off + word_of_nat j) s' = Some (pa + off + j)" if "j < k" for j
  proof
    let ?vb = "va + word_of_nat (off + j)"
    have j: "off + j < n * PGSIZE" using that k by simp
    then have n: "0 < n" by (cases n) simp_all
    have ub: "unat ?vb = unat va + (off + j)" using u[of "off + j"] j by (simp del: of_nat_add)
    have vb: "?vb < MAXVA" "va \<le> ?vb" "unat ?vb < unat va + n * PGSIZE" using ub va(2) j by (simp_all add: word_less_nat_alt word_le_nat_alt)
    have "lookup s' ?root ?vb = map_entry va (pa + (unat ?vb - unat va) div PGSIZE * PGSIZE) perm"
      using mappages_ok[OF wf m va n] vb by simp
    then have "grants (lookup s' ?root ?vb) perm" using map_entry_grants[OF perm(1)] by simp
    then have "\<forall>i. bit perm i \<longrightarrow> i < 8 \<and> bit (lookup s' ?root ?vb) i" by (simp add: grants_bits)
    moreover have "bit perm i" if "bit (PTE_R OR PTE_U) i" for i
      using that perm(3) bit_and_iff[of "PTE_R OR PTE_U" perm i] by metis
    ultimately show "grants (lookup s' ?root (va + word_of_nat off + word_of_nat j)) (PTE_R OR PTE_U)" unfolding e grants_bits by blast
    show "vaddr2paddr ?root (va + word_of_nat off + word_of_nat j) s' = Some (pa + off + j)"
      using mapped_vaddr2paddr[OF wf m va pa perm(1,2) j] unfolding e by (simp add: add.assoc)
  qed
  moreover have "unat (va + word_of_nat off) + k \<le> 2 ^ 38" using u[of off] k va(2) by simp
  ultimately show ?thesis using pa(2) unfolding user_range_def by auto
qed

section \<open>What argstrfetch delivers\<close>

text \<open>One call of \<open>copyin_string\<close> inside a page: it meets the end of the string, or the end of its count.\<close>

lemma string_chunk:
  assumes r: "user_range mm va pa n s" and "off + d < n" "d < mx" "\<And>k. k < d \<Longrightarrow> bytes s (pa + off + k) \<noteq> 0" "bytes s (pa + off + d) = 0"
    and dst: "dst + d < pa + off \<or> pa + off + d < dst"
  shows "copyin_string (mm_pagetable mm) dst (va + word_of_nat off) mx s = Some (int d, s\<lparr>bytes := copied (bytes s) dst (pa + off) (Suc d)\<rparr>)"
proof -
  have u: "unat (va + word_of_nat off) + Suc d \<le> 2 ^ 38" using user_range_unat[OF r, of off] assms(2) r by (simp add: user_range_def)
  have "copyin_string_loop (mm_pagetable mm) dst dst (va + word_of_nat off) mx s = Some (int (dst + d) - int dst, s\<lparr>bytes := (\<lambda>a.
    if dst \<le> a \<and> a \<le> dst + d then bytes s (pa + off + (a - dst)) else bytes s a)\<rparr>)"
  proof (rule copyin_string_loop_ok[OF u assms(3)])
    show "vaddr2paddr (mm_pagetable mm) (va + word_of_nat off + word_of_nat k) s = Some (pa + off + k) \<and> pa + off + k \<noteq> 0" if "k \<le> d" for k
      by (rule user_range_paddr[OF r]) (use that assms(2) in simp)
  qed (use assms(4,5) dst in auto)
  then show ?thesis unfolding copyin_string_def by (simp add: copied_def less_Suc_eq_le)
qed

lemma string_no_end:
  assumes r: "user_range mm va pa n s" and "off + d \<le> n" "0 < d" "unat (va + word_of_nat off) mod PGSIZE + d \<le> PGSIZE"
    "\<And>k. k < d \<Longrightarrow> bytes s (pa + off + k) \<noteq> 0" and dst: "dst + d \<le> pa + off \<or> pa + off + d \<le> dst"
  shows "copyin_string (mm_pagetable mm) dst (va + word_of_nat off) d s = Some (-1, s\<lparr>bytes := copied (bytes s) dst (pa + off) d\<rparr>)"
proof -
  let ?a = "va + word_of_nat off"
  have c: "chunk ?a d = d" using assms(4) by (auto simp: chunk_def Let_def page_offset(2))
  have u: "unat ?a + d \<le> 2 ^ 38" using user_range_unat[OF r, of off] assms(2) r by (simp add: user_range_def)
  have "vaddr2paddr (mm_pagetable mm) (?a + word_of_nat k) s = Some (pa + off + k) \<and> pa + off + k \<noteq> 0" if "k < d" for k
    by (rule user_range_paddr[OF r]) (use that assms(2) in simp)
  then obtain q where q: "walkaddr (mm_pagetable mm) (PGROUNDDOWN64 ?a) s = Some q" "q \<noteq> 0"
    "\<And>k. k < d \<Longrightarrow> pa + off + k = q + unat (?a - PGROUNDDOWN64 ?a) + k"
    using chunk_paddr[OF assms(3) u, of "mm_pagetable mm" s "\<lambda>k. pa + off + k"] unfolding c by blast
  have p: "q + unat (?a - PGROUNDDOWN64 ?a) = pa + off" using q(3)[of 0] assms(3) by simp
  have "copy_string_chunk d d (pa + off) dst (bytes s) = (False, d - d, dst + d, copied (bytes s) dst (pa + off) d)"
    by (rule copy_string_chunk_none) (use assms(5) dst in auto)
  then show ?thesis unfolding copyin_string_def using q(1,2) c p assms(3)
    by (subst copyin_string_loop.simps) (simp add: Let_def copyin_string_loop.simps[of _ _ _ _ 0])
qed

lemma argstrfetch_in_page:
  assumes r: "user_range mm va pa n s" and "off + length cs < n" "length cs < mx" "length cs < PGSIZE - offset" "str_at (bytes s) (pa + off) cs"
    and "off + min mx (PGSIZE - offset) \<le> n" "buf + length cs < pa + off \<or> pa + off + length cs < buf"
  shows "argstrfetch_loop rd mm buf (va + word_of_nat off) 0 offset mx s =
    Some (int (length cs), s\<lparr>bytes := copied (bytes s) buf (pa + off) (Suc (length cs))\<rparr>)"
proof -
  define k where "k = (if PGSIZE - offset > mx then mx else PGSIZE - offset)"
  have k: "k = min mx (PGSIZE - offset)" by (simp add: k_def)
  have v: "verify_area rd mm (va + word_of_nat off) (word_of_nat k) (PTE_R OR PTE_U) s = Some (0, s)"
    by (rule verify_present[OF r]) (use assms(2,6) k in simp_all)
  have c: "copyin_string (mm_pagetable mm) buf (va + word_of_nat off) k s =
      Some (int (length cs), s\<lparr>bytes := copied (bytes s) buf (pa + off) (Suc (length cs))\<rparr>)"
    by (rule string_chunk[OF r assms(2)]) (use assms(3,4,7) k str_at_nth[OF assms(5)] str_at_end[OF assms(5)] in auto)
  show ?thesis using v c by (subst argstrfetch_loop.simps) (simp add: k_def[symmetric] Let_def)
qed


text \<open>A round without the end of the string goes on behind it, but the next round writes to the same place.\<close>

lemma argstrfetch_next:
  assumes r: "user_range mm va pa n s" and "off + d \<le> n" "0 < d" "d = min mx (PGSIZE - offset)" "unat (va + word_of_nat off) mod PGSIZE = offset"
    "\<And>k. k < d \<Longrightarrow> bytes s (pa + off + k) \<noteq> 0" and dst: "buf + d \<le> pa + off \<or> pa + off + d \<le> buf"
  shows "argstrfetch_loop rd mm buf (va + word_of_nat off) 0 offset mx s =
    argstrfetch_loop rd mm buf (va + word_of_nat (off + d)) 0 0 (mx - d) (s\<lparr>bytes := copied (bytes s) buf (pa + off) d\<rparr>)"
proof -
  have k: "(if PGSIZE - offset > mx then mx else PGSIZE - offset) = d" using assms(4) by simp
  have v: "verify_area rd mm (va + word_of_nat off) (word_of_nat d) (PTE_R OR PTE_U) s = Some (0, s)"
    by (rule verify_present[OF r]) (use assms(2,3) in simp_all)
  have "unat (va + word_of_nat off) mod PGSIZE + d \<le> PGSIZE" using assms(3-5) by (simp add: min_def split: if_splits)
  then have c: "copyin_string (mm_pagetable mm) buf (va + word_of_nat off) d s = Some (-1, s\<lparr>bytes := copied (bytes s) buf (pa + off) d\<rparr>)"
    by (rule string_no_end[OF r assms(2,3)]) (use assms(6) dst in auto)
  have e: "va + word_of_nat off + word_of_nat d = va + word_of_nat (off + d)" by (simp add: algebra_simps)
  show ?thesis using v c unfolding e[symmetric] by (subst argstrfetch_loop.simps) (simp add: k Let_def del: of_nat_add)
qed

lemma argstrfetch_stuck:
  assumes "verify_area rd mm a 0 (PTE_R OR PTE_U) s = Some (0, s)"
  shows "argstrfetch_loop rd mm buf a len 0 0 s = None"
proof -
  have c: "copyin_string t dst a 0 s = Some (-1, s)" for t dst by (simp add: copyin_string_def copyin_string_loop.simps)
  let ?P = "\<lambda>rd' mm' (buf' :: nat) vaddr (len :: nat) offset mx t (y :: int \<times> vm).
    \<not> (rd' = rd \<and> mm' = mm \<and> vaddr = a \<and> offset = (0 :: nat) \<and> mx = (0 :: nat) \<and> t = s)"
  have "?P rd mm buf a len 0 0 s y" if y: "argstrfetch_loop rd mm buf a len 0 0 s = Some y" for y
  proof (rule argstrfetch_loop.raw_induct[where P = ?P, OF _ y], goal_cases)
    case (1 f rd' mm' buf' vaddr len offset mx t y)
    show ?case
    proof
      assume e: "rd' = rd \<and> mm' = mm \<and> vaddr = a \<and> offset = 0 \<and> mx = 0 \<and> t = s"
      then have "f rd mm buf' a len 0 0 s = Some y" using 1(2) assms c by (cases y) (auto simp: hoare_simps Let_def)
      then show False using 1(1)[of rd mm buf' a len 0 0 s y] by simp
    qed
  qed
  then show ?thesis by (cases "argstrfetch_loop rd mm buf a len 0 0 s") auto
qed


section \<open>Properties\<close>

lemma str_at_drop: "str_at m p cs \<Longrightarrow> k \<le> length cs \<Longrightarrow> str_at m (p + k) (drop k cs)"
proof (induction k arbitrary: p cs)
  case (Suc k)
  then obtain c ds where "cs = c # ds" by (cases cs) auto
  then show ?case using Suc.IH[of "p + 1" ds] Suc.prems by simp
qed simp

text \<open>C38. What \<open>argstrfetch\<close> makes of a string in readable memory, mapped to one physical range, that fits its buffer: a string that ends in the page it
  begins in is delivered with its length; of a string that runs on into the next page only the part in the next page is
  delivered, because a round that does not meet the end does not count what it copied. Nothing behind the buffer
  changes.\<close>

theorem argstrfetch_keeps_last_page:
  assumes r: "user_range mm va pa n s" and len: "str_at (bytes s) pa cs" "length cs < mx" "mx \<le> PGSIZE" "mx \<le> n"
    and dst: "buf + mx \<le> pa \<or> pa + mx \<le> buf"
  defines "first \<equiv> PGSIZE - unat va mod PGSIZE"
  defines "ds \<equiv> (if length cs < first then cs else drop first cs)"
  shows "\<exists>m. argstrfetch rd mm va buf mx s = Some (int (length ds), s\<lparr>bytes := m\<rparr>) \<and> str_at m buf ds \<and>
    (\<forall>a. a < buf \<or> buf + mx \<le> a \<longrightarrow> m a = bytes s a)"
proof -
  have o: "argstrfetch rd mm va buf mx s = argstrfetch_loop rd mm buf (va + word_of_nat 0) 0 (unat va mod PGSIZE) mx s"
    by (simp add: argstrfetch_def unat_OFFSETPAGE)
  have str0: "str_at (bytes s) (pa + 0) cs" using len(1) by simp
  show ?thesis
  proof (cases "length cs < first")
    case True
    have "argstrfetch rd mm va buf mx s = Some (int (length cs), s\<lparr>bytes := copied (bytes s) buf (pa + 0) (Suc (length cs))\<rparr>)"
      unfolding o by (rule argstrfetch_in_page[OF r _ _ _ str0]) (use True len dst in \<open>auto simp: first_def\<close>)
    moreover have "str_at (copied (bytes s) buf pa (Suc (length cs))) buf cs" by (rule str_at_copied[OF len(1)])
    ultimately show ?thesis using True len(2) by (auto simp: ds_def copied_def)
  next
    case False
    have f: "0 < first" "first \<le> length cs" using False by (simp_all add: first_def)
    let ?s = "s\<lparr>bytes := copied (bytes s) buf (pa + 0) first\<rparr>"
    have nz: "bytes s (pa + k) \<noteq> 0" if "k < first" for k using str_at_nth[OF len(1)] that f(2) by simp
    have 1: "argstrfetch_loop rd mm buf (va + word_of_nat 0) 0 (unat va mod PGSIZE) mx s =
        argstrfetch_loop rd mm buf (va + word_of_nat (0 + first)) 0 0 (mx - first) ?s"
      by (rule argstrfetch_next[OF r]) (use f len dst nz in \<open>auto simp: first_def\<close>)
    have r1: "user_range mm va pa n ?s" using r by simp
    have s1: "str_at (bytes ?s) (pa + first) (drop first cs)"
    proof -
      have "str_at (bytes s) (pa + first) (drop first cs)" by (rule str_at_drop[OF len(1) f(2)])
      moreover have "str_at (bytes ?s) (pa + first) (drop first cs) \<longleftrightarrow> str_at (bytes s) (pa + first) (drop first cs)"
        by (rule str_at_cong) (use dst len(2) f in \<open>auto simp: copied_def\<close>)
      ultimately show ?thesis by blast
    qed
    let ?m = "copied (bytes ?s) buf (pa + first) (Suc (length (drop first cs)))"
    have "argstrfetch_loop rd mm buf (va + word_of_nat first) 0 0 (mx - first) ?s =
        Some (int (length (drop first cs)), ?s\<lparr>bytes := ?m\<rparr>)"
      by (rule argstrfetch_in_page[OF r1 _ _ _ s1]) (use len dst f in \<open>auto simp: min_def\<close>)
    moreover have "str_at ?m buf (drop first cs)" by (rule str_at_copied[OF s1])
    moreover have "\<forall>a. a < buf \<or> buf + mx \<le> a \<longrightarrow> ?m a = bytes s a" using len(2) f by (auto simp: copied_def)
    ultimately show ?thesis unfolding o 1 using False by (intro exI[of _ ?m]) (simp add: ds_def)
  qed
qed

text \<open>A user space with two pages at 0x1000.\<close>

lemma two_page_space: "\<exists>root s. \<forall>m. user_range (one_area_mm root) 0x1fff 0x80400fff 0x1001 (s\<lparr>bytes := m\<rparr>)"
proof -
  obtain root s0 where b: "tree_wf s0 root" "\<And>va. lookup s0 root va = 0" "free_pages (phys s0) = 31743" using boot_address_space by metis
  have f: "2 * 2 \<le> free_pages (phys s0)" using b(3) by simp
  obtain s where m: "mappages root 0x1000 (word_of_nat (2 * PGSIZE)) 0x80400000 0x16 s0 = Some (0, s)"
    using mappages_returns[OF b(1) _ _ _ f, where va = "0x1000" and pa = "0x80400000" and perm = "0x16"] b(2) by (auto simp: pte_valid_def)
  let ?mm = "one_area_mm root"
  have r: "mm_pagetable ?mm = root" by (simp add: one_area_mm_def)
  have "user_range ?mm (0x1000 + word_of_nat 0xfff) (0x80400000 + 0xfff) 0x1001 s"
  proof (rule mapped_user_range[where ?n = 2 and ?perm = "0x16" and ?s = s0 and ?s' = s and ?va = "0x1000" and ?pa = "0x80400000" and ?off = "0xfff"
      and ?k = "0x1001" and ?mm = "one_area_mm root" and ?r = 0 and ?v = "new_vmarea_struct 0x1000 0x3000 0x16 0 None 0" and ?l = "[]"])
    show "mappages (mm_pagetable (one_area_mm root)) 0x1000 (word_of_nat (2 * PGSIZE)) 0x80400000 0x16 s0 = Some (0, s)" unfolding r by (rule m)
    show "tree_wf s0 (mm_pagetable (one_area_mm root))" unfolding r by (rule b(1))
  qed (simp_all add: one_area_mm_def new_vmarea_struct_def dvd_eq_mod_eq_0)
  then have "user_range ?mm 0x1fff 0x80400fff 0x1001 s" by simp
  then show ?thesis by auto
qed

text \<open>The path \<open>/ls\<close> with its first byte at the end of a page arrives as \<open>ls\<close>.\<close>

lemma argstrfetch_keeps_last_page_witness:
  "\<exists>mm s m. str_at (bytes s) 0x80400fff [47, 108, 115] \<and> argstrfetch (\<lambda>_ _ _. Some []) mm 0x1fff 0x2000 1024 s = Some (2, s\<lparr>bytes := m\<rparr>) \<and>
     str_at m 0x2000 [108, 115]"
proof -
  let ?b = "(\<lambda>_. 0)(0x80400fff := 47, 0x80401000 := 108, 0x80401001 := 115) :: mem"
  obtain root s where s: "user_range (one_area_mm root) 0x1fff 0x80400fff 0x1001 (s\<lparr>bytes := ?b\<rparr>)" using two_page_space by blast
  have st: "str_at (bytes (s\<lparr>bytes := ?b\<rparr>)) 0x80400fff [47, 108, 115]" by simp
  have "\<exists>m. argstrfetch (\<lambda>_ _ _. Some []) (one_area_mm root) 0x1fff 0x2000 1024 (s\<lparr>bytes := ?b\<rparr>) = Some (2, s\<lparr>bytes := ?b\<rparr>\<lparr>bytes := m\<rparr>) \<and> str_at m 0x2000 [108, 115]"
    using argstrfetch_keeps_last_page[OF s st, where mx = 1024 and buf = "0x2000" and rd = "\<lambda>_ _ _. Some []"] by auto
  then show ?thesis using st by blast
qed

text \<open>A string without an end in the \<open>mx\<close> bytes that may be fetched (a path of \<open>PATH_MAX\<close> bytes) makes
  \<open>argstrfetch\<close> loop for ever in the kernel when the memory behind it is readable: the count is down to 0, so the rounds neither advance nor
  fail.\<close>

theorem argstrfetch_hangs:
  assumes r: "user_range mm va pa n s" and "0 < mx" "mx \<le> PGSIZE" "mx < n" "\<forall>k<mx. bytes s (pa + k) \<noteq> 0"
    and dst: "buf + mx \<le> pa \<or> pa + mx \<le> buf"
  shows "argstrfetch rd mm va buf mx s = None"
proof -
  define first where "first = PGSIZE - unat va mod PGSIZE"
  have fp: "0 < first" by (simp add: first_def)
  have o: "argstrfetch rd mm va buf mx s = argstrfetch_loop rd mm buf (va + word_of_nat 0) 0 (unat va mod PGSIZE) mx s"
    by (simp add: argstrfetch_def unat_OFFSETPAGE)
  have st: "argstrfetch_loop rd mm buf (va + word_of_nat mx) 0 0 0 (s\<lparr>bytes := m\<rparr>) = None" for m
  proof (rule argstrfetch_stuck)
    have "user_range mm va pa n (s\<lparr>bytes := m\<rparr>)" using r by simp
    then show "verify_area rd mm (va + word_of_nat mx) 0 (PTE_R OR PTE_U) (s\<lparr>bytes := m\<rparr>) = Some (0, s\<lparr>bytes := m\<rparr>)"
      using verify_present[of mm va pa n "s\<lparr>bytes := m\<rparr>" mx 0 rd] assms(4) by simp
  qed
  show ?thesis
  proof (cases "mx \<le> first")
    case True
    have "argstrfetch_loop rd mm buf (va + word_of_nat 0) 0 (unat va mod PGSIZE) mx s =
        argstrfetch_loop rd mm buf (va + word_of_nat (0 + mx)) 0 0 (mx - mx) (s\<lparr>bytes := copied (bytes s) buf (pa + 0) mx\<rparr>)"
      by (rule argstrfetch_next[OF r]) (use True assms in \<open>auto simp: first_def\<close>)
    then show ?thesis unfolding o using st by simp
  next
    case False
    let ?s = "s\<lparr>bytes := copied (bytes s) buf (pa + 0) first\<rparr>"
    have 1: "argstrfetch_loop rd mm buf (va + word_of_nat 0) 0 (unat va mod PGSIZE) mx s =
        argstrfetch_loop rd mm buf (va + word_of_nat (0 + first)) 0 0 (mx - first) ?s"
      by (rule argstrfetch_next[OF r]) (use False fp assms in \<open>auto simp: first_def\<close>)
    have r1: "user_range mm va pa n ?s" using r by simp
    have al: "unat (va + word_of_nat first) mod PGSIZE = 0"
    proof -
      have "unat (va + word_of_nat first) = unat va + first" using user_range_unat[OF r, of first] False assms(4) by simp
      moreover have "(unat va + first) mod PGSIZE = (unat va mod PGSIZE + first) mod PGSIZE" by (simp add: mod_add_left_eq)
      moreover have "unat va mod PGSIZE + first = PGSIZE" by (simp add: first_def)
      ultimately show ?thesis by simp
    qed
    have nz: "bytes ?s (pa + first + k) \<noteq> 0" if "k < mx - first" for k
      using assms(5) dst that False by (auto simp: copied_def add.assoc)
    have 2: "argstrfetch_loop rd mm buf (va + word_of_nat first) 0 0 (mx - first) ?s =
        argstrfetch_loop rd mm buf (va + word_of_nat (first + (mx - first))) 0 0 (mx - first - (mx - first))
          (?s\<lparr>bytes := copied (bytes ?s) buf (pa + first) (mx - first)\<rparr>)"
      by (rule argstrfetch_next[OF r1]) (use False assms(3,4) dst nz al in auto)
    have e: "first + (mx - first) = mx" using False by simp
    show ?thesis unfolding o 1 unfolding add_0 2 e using st by simp
  qed
qed


lemma argstrfetch_hangs_witness:
  "\<exists>mm s. argstrfetch (\<lambda>_ _ _. Some []) mm 0x1fff 0x2000 1024 s = None \<and> verify_area (\<lambda>_ _ _. Some []) mm 0x1fff 1024 (PTE_R OR PTE_U) s = Some (0, s)"
proof -
  let ?b = "(\<lambda>_. 65) :: mem"
  obtain root s where s: "user_range (one_area_mm root) 0x1fff 0x80400fff 0x1001 (s\<lparr>bytes := ?b\<rparr>)" using two_page_space by blast
  have "argstrfetch (\<lambda>_ _ _. Some []) (one_area_mm root) 0x1fff 0x2000 1024 (s\<lparr>bytes := ?b\<rparr>) = None"
    by (rule argstrfetch_hangs[OF s]) simp_all
  then show ?thesis using verify_present[OF s, of 0 1024] by auto
qed

end
