(* ===== verification/Kfile.thy ===== *)
theory Kfile
  imports Syscall_Args Device Ext2_File Ext2_Dir Pipe "HOL-Library.Signed_Division"
begin

text \<open>
  Open files: the table of open files (kernel/file/file.c), the creation of a pipe (kernel/file/pipe.c), reads and writes
  of block devices (kernel/device/blk_dev.c), and \<open>file_read\<close>, \<open>file_write\<close>, \<open>file_close\<close> over files, directories, devices and pipes.
\<close>

section \<open>State\<close>

record file_t =
  f_count :: u32
  f_flags :: u32
  f_pos :: u64
  f_inode :: "nat option"

record fcbtable_t =
  files :: "file_t list"
  idle_fcbs :: "nat queue_meta_t"
  fcb_waiters :: "nat list"

text \<open>What the processes share. \<open>pipe_node\<close> are the pipes in the inode table and \<open>pipe_page\<close> the addresses of their pages;
  \<open>woken\<close> collects the processes that calls have woken.\<close>

record io =
  fcbtable :: fcbtable_t
  kfs :: fs
  pipe_node :: "nat \<Rightarrow> pipe_t"
  pipe_page :: "nat \<Rightarrow> nat"
  kvm :: vm
  console_tty :: terminal
  devices :: "device_t list"
  kheap :: slub
  woken :: "nat list"

text \<open>A process, and what surrounds a call: \<open>env_rd\<close> reads the pages of executables (as \<open>rd\<close> of theory \<open>Vma\<close>), \<open>env_stk\<close> are stack buffers that nobody has
  cleared, \<open>env_kbuf\<close> is the kernel's address of the bytes that are copied, \<open>env_junk\<close> the value of
  a variable that nobody has set, \<open>env_tok\<close> the address of the string of separators.\<close>

record task =
  t_pid :: nat
  t_killed :: bool
  t_mm :: mm_struct
  fdtable :: "int list"
  cwd :: nat
  icwd :: "nat option"
  t_args :: "u64 list"

record env =
  env_rd :: "nat \<Rightarrow> u64 \<Rightarrow> nat \<Rightarrow> byte list option"
  env_stk :: "byte list \<times> byte list"
  env_kbuf :: nat
  env_junk :: int
  env_tok :: nat

abbreviation (input) EBADF :: int where "EBADF \<equiv> 9"
abbreviation (input) EINVAL :: int where "EINVAL \<equiv> 22"
abbreviation (input) EFAULT :: int where "EFAULT \<equiv> 14"
abbreviation (input) O_RDONLY :: u32 where "O_RDONLY \<equiv> 0"
abbreviation (input) O_WRONLY :: u32 where "O_WRONLY \<equiv> 1"
abbreviation (input) O_RDWR :: u32 where "O_RDWR \<equiv> 2"
abbreviation (input) O_CREAT :: u32 where "O_CREAT \<equiv> 0x40"
abbreviation (input) O_TRUNC :: u32 where "O_TRUNC \<equiv> 0x200"
abbreviation (input) O_APPEND :: u32 where "O_APPEND \<equiv> 0x400"

definition READABLE :: "u32 \<Rightarrow> bool" where "READABLE flag \<longleftrightarrow> flag AND 3 = 0 \<or> flag AND O_RDWR \<noteq> 0"
definition WRITEABLE :: "u32 \<Rightarrow> bool" where "WRITEABLE flag \<longleftrightarrow> flag AND O_WRONLY \<noteq> 0 \<or> flag AND O_RDWR \<noteq> 0"

section \<open>The table of open files\<close>

definition sys_ftable_init :: "nat list \<Rightarrow> fcbtable_t \<Rightarrow> fcbtable_t option" where
  "sys_ftable_init idle_fcb_queue_array t = do {
     q \<leftarrow> queue_init (int NFILE) idle_fcb_queue_array;
     q' \<leftarrow> for_each (\<lambda>i q. queue_push q i) [0..<NFILE] q;
     Some (t\<lparr>fcb_waiters := [], files := map (\<lambda>f. f\<lparr>f_count := 0\<rparr>) (files t), idle_fcbs := q'\<rparr>) }"

text \<open>An idle entry, or the process \<open>me\<close> waits for one.\<close>

definition file_alloc :: "nat \<Rightarrow> fcbtable_t \<Rightarrow> (nat option \<times> fcbtable_t) option" where
  "file_alloc me t =
     (if queue_empty (idle_fcbs t) then Some (None, t\<lparr>fcb_waiters := me # fcb_waiters t\<rparr>)
      else do {
        idlefcb \<leftarrow> queue_front (idle_fcbs t);
        q \<leftarrow> queue_front_pop (idle_fcbs t);
        f \<leftarrow> nth_opt (files t) idlefcb;
        cassert (f_count f = 0);
        Some (Some idlefcb, t\<lparr>idle_fcbs := q\<rparr>) })"

definition file_dup :: "int \<Rightarrow> fcbtable_t \<Rightarrow> (int \<times> fcbtable_t) option" where
  "file_dup fcb_no t =
     (if fcb_no < 0 then Some (fcb_no, t)
      else do {
        f \<leftarrow> nth_opt (files t) (nat fcb_no);
        cassert (f_count f \<ge> 1);
        Some (fcb_no, t\<lparr>files := (files t)[nat fcb_no := f\<lparr>f_count := f_count f + 1\<rparr>]\<rparr>) })"

definition fcbno_free :: "nat \<Rightarrow> fcbtable_t \<Rightarrow> (nat list \<times> fcbtable_t) option" where
  "fcbno_free fcb_no t = do {
     q \<leftarrow> queue_push (idle_fcbs t) fcb_no;
     Some (fcb_waiters t, t\<lparr>idle_fcbs := q, fcb_waiters := []\<rparr>) }"

definition get_file :: "nat \<Rightarrow> io \<Rightarrow> file_t option" where
  "get_file k s = nth_opt (files (fcbtable s)) k"

definition upd_file :: "nat \<Rightarrow> (file_t \<Rightarrow> file_t) \<Rightarrow> io \<Rightarrow> io" where
  "upd_file k g s = s\<lparr>fcbtable := (fcbtable s)\<lparr>files := (files (fcbtable s))[k := g (files (fcbtable s) ! k)]\<rparr>\<rparr>"

section \<open>Pipes in the inode table\<close>

definition set_i_mode :: "u16 \<Rightarrow> m_inode_t \<Rightarrow> m_inode_t" where
  "set_i_mode v ip = ip\<lparr>d_inode_ctnt := put16 (d_inode_ctnt ip) 0 v\<rparr>"

text \<open>\<open>pipealloc\<close>: the page is allocated first; with no free entry in the inode table the process sleeps for ever
  (nobody wakes the list), which is \<open>None\<close>.\<close>

definition pipealloc :: "io \<Rightarrow> (nat option \<times> io) option" where
  "pipealloc s = do {
     (pipe_pg, b) \<leftarrow> pages_alloc 1 (phys (kvm s));
     if pipe_pg = 0 then Some (None, s\<lparr>kvm := (kvm s)\<lparr>phys := b\<rparr>\<rparr>)
     else do {
       ip \<leftarrow> find (\<lambda>ip. i_count (m_inodes (kfs s) ! ip) = 0) [0..<length (m_inodes (kfs s))];
       f \<leftarrow> upd_ino ip (\<lambda>i. set_i_mode 0x1000 (i\<lparr>i_count := i_count i + 1, i_dev := 0\<rparr>)) (kfs s);
       q \<leftarrow> queue_init (int PGSIZE) (map (\<lambda>j. bytes (kvm s) (pipe_pg + j)) [0..<PGSIZE]);
       Some (Some ip, s\<lparr>kvm := (kvm s)\<lparr>phys := b\<rparr>, kfs := f,
         pipe_node := (pipe_node s)(ip := \<lparr>pipe = q, readopen = True, writeopen = True, read_wait = [], write_wait = []\<rparr>),
         pipe_page := (pipe_page s)(ip := pipe_pg)\<rparr>) } }"

section \<open>Block devices\<close>

text \<open>\<open>out bs m\<close> stores bytes at the start of the user's buffer, \<open>src k\<close> are the first \<open>k\<close> bytes of it: neither loop advances \<open>buf\<close>, so
  every block is copied to, or from, the start of the buffer. The offset is below \<open>BLKSIZE\<close>.\<close>

function blkdev_read_loop :: "u32 \<Rightarrow> (byte list \<Rightarrow> 'm \<Rightarrow> 'm option) \<Rightarrow> u32 \<Rightarrow> nat \<Rightarrow> nat \<Rightarrow> nat \<Rightarrow> 'm \<Rightarrow> fs \<Rightarrow> (nat \<times> 'm \<times> fs) option" where
  "blkdev_read_loop dev out blk_no offset cnt n m f =
     (if cnt > 0 then
        (let k = (if BLKSIZE - offset mod BLKSIZE > cnt then cnt else BLKSIZE - offset mod BLKSIZE) in do {
          (bb, f1) \<leftarrow> bread dev blk_no f;
          d \<leftarrow> bdata bb f1;
          m1 \<leftarrow> out (get_bytes d (offset mod BLKSIZE) k) m;
          f2 \<leftarrow> brelse bb f1;
          blkdev_read_loop dev out (blk_no + 1) 0 (cnt - k) (n + k) m1 f2 })
      else Some (n, m, f))"
  by auto
termination by (relation "measure (\<lambda>(dev, out, b, off, cnt, n, m, f). cnt)") (auto split: if_splits)

text \<open>The block number is an \<open>int64_t\<close>, of which the buffer cache takes the low 32 bits.\<close>

definition blkdev_read :: "u32 \<Rightarrow> (byte list \<Rightarrow> 'm \<Rightarrow> 'm option) \<Rightarrow> u64 \<Rightarrow> nat \<Rightarrow> 'm \<Rightarrow> fs \<Rightarrow> (int \<times> 'm \<times> fs) option" where
  "blkdev_read dev out pos cnt m f =
     (if syncing (cache f) > 0 then Some (- EBUSY, m, f)
      else do {
        (n, m1, f1) \<leftarrow> blkdev_read_loop dev out (word_of_int (sint pos sdiv int BLKSIZE)) (unat (OFFSETPAGE pos)) cnt 0 m (add_operating 1 f);
        Some (int n, m1, add_operating (- 1) f1) })"

definition get_block :: "u32 \<Rightarrow> u32 \<Rightarrow> fs \<Rightarrow> (nat \<times> fs) option" where
  "get_block dev blk f = do { (i, c) \<leftarrow> getblk dev blk (cache f); Some (i, f\<lparr>cache := c\<rparr>) }"

function blkdev_write_loop :: "u32 \<Rightarrow> (nat \<Rightarrow> byte list option) \<Rightarrow> u32 \<Rightarrow> nat \<Rightarrow> nat \<Rightarrow> nat \<Rightarrow> fs \<Rightarrow> (nat \<times> fs) option" where
  "blkdev_write_loop dev src blk_no offset cnt n f =
     (if cnt > 0 then
        (let k = (if BLKSIZE - offset mod BLKSIZE > cnt then cnt else BLKSIZE - offset mod BLKSIZE) in do {
          (bb, f1) \<leftarrow> (if k = BLKSIZE then get_block dev blk_no f else bread dev blk_no f);
          d \<leftarrow> bdata bb f1;
          xs \<leftarrow> src k;
          f2 \<leftarrow> bset bb (put_bytes d (offset mod BLKSIZE) xs) f1;
          f3 \<leftarrow> bwrite bb f2;
          blkdev_write_loop dev src (blk_no + 1) 0 (cnt - k) (n + k) f3 })
      else Some (n, f))"
  by auto
termination by (relation "measure (\<lambda>(dev, src, b, off, cnt, n, f). cnt)") (auto split: if_splits)

definition blkdev_write :: "u32 \<Rightarrow> (nat \<Rightarrow> byte list option) \<Rightarrow> u64 \<Rightarrow> nat \<Rightarrow> fs \<Rightarrow> (int \<times> fs) option" where
  "blkdev_write dev src pos cnt f =
     (if syncing (cache f) > 0 then Some (- EBUSY, f)
      else do {
        (n, f1) \<leftarrow> blkdev_write_loop dev src (word_of_int (sint pos sdiv int BLKSIZE)) (unat (OFFSETPAGE pos)) cnt 0 (add_operating 1 f);
        Some (int n, add_operating (- 1) f1) })"

declare blkdev_read_loop.simps [simp del] blkdev_write_loop.simps [simp del]


section \<open>Copies between the kernel and the process\<close>

text \<open>Bytes at the kernel's address \<open>env_kbuf\<close> go to offset \<open>n\<close> of the user's buffer \<open>uaddr\<close>, or come from there; the callers assert
  that the copy succeeds.\<close>

definition user_out :: "env \<Rightarrow> task \<Rightarrow> u64 \<Rightarrow> nat \<Rightarrow> byte list \<Rightarrow> vm \<Rightarrow> vm option" where
  "user_out E t uaddr n bs v = do {
     (r, v1) \<leftarrow> copyout (mm_pagetable (t_mm t)) (uaddr + word_of_nat n) (env_kbuf E) (length bs) (v\<lparr>bytes := write_bytes (bytes v) (env_kbuf E) bs\<rparr>);
     cassert (r \<noteq> -1);
     Some v1 }"

definition user_in :: "env \<Rightarrow> task \<Rightarrow> u64 \<Rightarrow> vm \<Rightarrow> nat \<Rightarrow> nat \<Rightarrow> byte list option" where
  "user_in E t uaddr v n k = do {
     (r, v1) \<leftarrow> copyin (mm_pagetable (t_mm t)) (env_kbuf E) (uaddr + word_of_nat n) k v;
     cassert (r \<noteq> -1);
     Some (map (\<lambda>j. bytes v1 (env_kbuf E + j)) [0..<k]) }"

definition user_in1 :: "env \<Rightarrow> task \<Rightarrow> u64 \<Rightarrow> vm \<Rightarrow> nat \<Rightarrow> byte option" where
  "user_in1 E t uaddr v i = map_option hd (user_in E t uaddr v i 1)"

section \<open>Files\<close>

text \<open>The lock of a pipe's inode is free while nobody else closes the pipe.\<close>

definition file_close :: "nat \<Rightarrow> io \<Rightarrow> io option" where
  "file_close fcb_no s = do {
     f \<leftarrow> get_file fcb_no s;
     cassert (f_count f \<ge> 1);
     let s1 = upd_file fcb_no (\<lambda>f. f\<lparr>f_count := f_count f - 1\<rparr>) s;
     if f_count f - 1 > 0 then Some s1
     else do {
       ip \<leftarrow> f_inode f;
       i \<leftarrow> get_ino ip (kfs s1);
       s2 \<leftarrow> (if S_ISCHR (i_mode i) \<or> S_ISBLK (i_mode i) \<or> S_ISREG (i_mode i) \<or> S_ISDIR (i_mode i)
             then do { fs1 \<leftarrow> iput (Some ip) (kfs s1); Some (s1\<lparr>kfs := fs1\<rparr>) }
             else if S_ISFIFO (i_mode i) then do {
               cassert (\<not> i_mtx i);
               let (page_freed, w, p) = pipeclose (WRITEABLE (f_flags f)) (pipe_node s1 ip);
               b \<leftarrow> (if page_freed then pages_free (pipe_page s1 ip) (phys (kvm s1)) else Some (phys (kvm s1)));
               fs1 \<leftarrow> upd_ino ip (\<lambda>i. i\<lparr>i_count := i_count i - 1\<rparr>) (kfs s1);
               Some (s1\<lparr>kfs := fs1, kvm := (kvm s1)\<lparr>phys := b\<rparr>, pipe_node := (pipe_node s1)(ip := p), woken := woken s1 @ w\<rparr>) }
             else Some s1);
       (w, ft) \<leftarrow> fcbno_free fcb_no (fcbtable s2);
       Some (s2\<lparr>fcbtable := ft, woken := woken s2 @ w\<rparr>) } }"

text \<open>The part of a read behind \<open>ilock\<close>. A read of the terminal that sleeps keeps the lock of the inode.\<close>

definition inode_read :: "env \<Rightarrow> task \<Rightarrow> nat \<Rightarrow> nat \<Rightarrow> u64 \<Rightarrow> u64 \<Rightarrow> io \<Rightarrow> (outcome \<times> io) option" where
  "inode_read E t fcb_no ip uaddr cnt s = do {
     f \<leftarrow> get_file fcb_no s;
     i \<leftarrow> get_ino ip (kfs s);
     if S_ISCHR (i_mode i) then do {
       (r, _, v, tt) \<leftarrow> device_read (devices s) (i_block i 0) (user_out E t uaddr 0) (unat cnt) (t_killed t) (t_pid t) [] (kvm s) (console_tty s);
       Some (r, s\<lparr>kvm := v, console_tty := tt\<rparr>) }
     else if S_ISBLK (i_mode i) then do {
       (res, v, fs1) \<leftarrow> blkdev_read (i_block i 0) (user_out E t uaddr 0) (f_pos f) (unat cnt) (kvm s) (kfs s);
       let s1 = s\<lparr>kvm := v, kfs := fs1\<rparr>;
       Some (Done res, if res > 0 then upd_file fcb_no (\<lambda>f. f\<lparr>f_pos := f_pos f + word_of_int res\<rparr>) s1 else s1) }
     else if S_ISREG (i_mode i) \<or> S_ISDIR (i_mode i) then do {
       (res, v, fs1) \<leftarrow> readi ip (user_out E t uaddr) (f_pos f) cnt (kvm s) (kfs s);
       let s1 = s\<lparr>kvm := v, kfs := fs1\<rparr>;
       Some (Done res, if res > 0 then upd_file fcb_no (\<lambda>f. f\<lparr>f_pos := f_pos f + word_of_int res\<rparr>) s1 else s1) }
     else Some (Done (- EINVAL), s) }"

definition file_read :: "env \<Rightarrow> task \<Rightarrow> nat \<Rightarrow> u64 \<Rightarrow> u64 \<Rightarrow> io \<Rightarrow> (outcome \<times> io) option" where
  "file_read E t fcb_no uaddr cnt s = do {
     f \<leftarrow> get_file fcb_no s;
     if \<not> READABLE (f_flags f) then Some (Done (- EINVAL), s)
     else do {
       (r, v) \<leftarrow> verify_area (env_rd E) (t_mm t) uaddr cnt (PTE_R OR PTE_W OR PTE_U) (kvm s);
       let s1 = s\<lparr>kvm := v\<rparr>;
       if r < 0 then Some (Done (- EFAULT), s1)
       else do {
         ip \<leftarrow> f_inode f;
         i \<leftarrow> get_ino ip (kfs s1);
         if S_ISFIFO (i_mode i) then do {
           (r, w, v1, p) \<leftarrow> piperead (\<lambda>n ch. user_out E t uaddr n [ch]) (t_killed t) (t_pid t) (unat cnt) v (pipe_node s1 ip);
           Some (r, s1\<lparr>kvm := v1, pipe_node := (pipe_node s1)(ip := p), woken := woken s1 @ w\<rparr>) }
         else do {
           fs1 \<leftarrow> ilock (Some ip) (kfs s1);
           (r, s2) \<leftarrow> inode_read E t fcb_no ip uaddr cnt (s1\<lparr>kfs := fs1\<rparr>);
           (case r of
              Sleep n \<Rightarrow> Some (r, s2)
            | Done n \<Rightarrow> do { fs2 \<leftarrow> iunlock (Some ip) (kfs s2); Some (r, s2\<lparr>kfs := fs2\<rparr>) }) } } } }"

definition inode_write :: "env \<Rightarrow> task \<Rightarrow> nat \<Rightarrow> nat \<Rightarrow> u64 \<Rightarrow> u64 \<Rightarrow> io \<Rightarrow> (int \<times> io) option" where
  "inode_write E t fcb_no ip uaddr cnt s = do {
     f \<leftarrow> get_file fcb_no s;
     i \<leftarrow> get_ino ip (kfs s);
     if S_ISCHR (i_mode i) then do {
       (res, tt) \<leftarrow> device_write (devices s) (i_block i 0) (user_in E t uaddr (kvm s) 0) (unat cnt) (console_tty s);
       Some (res, s\<lparr>console_tty := tt\<rparr>) }
     else if S_ISBLK (i_mode i) then do {
       (res, fs1) \<leftarrow> blkdev_write (i_block i 0) (user_in E t uaddr (kvm s) 0) (f_pos f) (unat cnt) (kfs s);
       let s1 = s\<lparr>kfs := fs1\<rparr>;
       Some (res, if res > 0 then upd_file fcb_no (\<lambda>f. f\<lparr>f_pos := f_pos f + word_of_int res\<rparr>) s1 else s1) }
     else if S_ISREG (i_mode i) \<or> S_ISDIR (i_mode i) then do {
       (res, fs1) \<leftarrow> writei ip (user_in E t uaddr (kvm s)) (f_pos f) cnt (kfs s);
       let s1 = s\<lparr>kfs := fs1\<rparr>;
       Some (res, if res > 0 then upd_file fcb_no (\<lambda>f. f\<lparr>f_pos := f_pos f + word_of_int res\<rparr>) s1 else s1) }
     else Some (- EINVAL, s) }"

text \<open>A write to a pipe may sleep; \<open>pipewrite\<close> then goes on with its progress.\<close>

definition file_write :: "env \<Rightarrow> task \<Rightarrow> nat \<Rightarrow> u64 \<Rightarrow> u64 \<Rightarrow> io \<Rightarrow> (outcome \<times> io) option" where
  "file_write E t fcb_no uaddr cnt s = do {
     f \<leftarrow> get_file fcb_no s;
     if \<not> WRITEABLE (f_flags f) then Some (Done (- EINVAL), s)
     else do {
       (r, v) \<leftarrow> verify_area (env_rd E) (t_mm t) uaddr cnt (PTE_R OR PTE_U) (kvm s);
       let s1 = s\<lparr>kvm := v\<rparr>;
       if r < 0 then Some (Done (- EFAULT), s1)
       else do {
         ip \<leftarrow> f_inode f;
         i \<leftarrow> get_ino ip (kfs s1);
         if S_ISFIFO (i_mode i) then do {
           (r, w, p) \<leftarrow> pipewrite (user_in1 E t uaddr v) (t_killed t) (t_pid t) (unat cnt) 0 (pipe_node s1 ip);
           Some (r, s1\<lparr>pipe_node := (pipe_node s1)(ip := p), woken := woken s1 @ w\<rparr>) }
         else do {
           fs1 \<leftarrow> ilock (Some ip) (kfs s1);
           (res, s2) \<leftarrow> inode_write E t fcb_no ip uaddr cnt (s1\<lparr>kfs := fs1\<rparr>);
           fs2 \<leftarrow> iunlock (Some ip) (kfs s2);
           Some (Done res, s2\<lparr>kfs := fs2\<rparr>) } } } }"

end
