(* ===== verification/Sysfile.thy ===== *)
theory Sysfile
  imports Kfile
begin

text \<open>
  The system calls on files (kernel/sys/sysfile.c). A handler gets the calling process, whose arguments are its saved
  registers, and the shared state. A call that would have to wait for an entry of the table of open files is \<open>None\<close>.
\<close>

section \<open>Common parts\<close>

abbreviation (input) EPERM :: int where "EPERM \<equiv> 1"
abbreviation (input) ENOENT :: int where "ENOENT \<equiv> 2"
abbreviation (input) ENOMEM :: int where "ENOMEM \<equiv> 12"
abbreviation (input) EACCES :: int where "EACCES \<equiv> 13"
abbreviation (input) EMFILE :: int where "EMFILE \<equiv> 24"
abbreviation (input) EXT2_S_IFREG :: u16 where "EXT2_S_IFREG \<equiv> 0x8000"
abbreviation (input) EXT2_S_IFDIR :: u16 where "EXT2_S_IFDIR \<equiv> 0x4000"
abbreviation (input) EXT2_FT_REGFILE :: nat where "EXT2_FT_REGFILE \<equiv> 1"
abbreviation (input) EXT2_FT_DIR :: nat where "EXT2_FT_DIR \<equiv> 2"

definition arg :: "task \<Rightarrow> nat \<Rightarrow> u64 option" where
  "arg t n = argufetch (t_args t) n"

text \<open>\<open>kmalloc\<close> and \<open>kfree\<close> take their pages from the same memory as the rest.\<close>

definition kalloc :: "nat \<Rightarrow> io \<Rightarrow> (nat \<times> io) option" where
  "kalloc n s = do {
     (p, h) \<leftarrow> kmalloc n ((kheap s)\<lparr>buddy_system := phys (kvm s)\<rparr>);
     Some (p, s\<lparr>kheap := h, kvm := (kvm s)\<lparr>phys := buddy_system h\<rparr>\<rparr>) }"

definition kdrop :: "nat \<Rightarrow> io \<Rightarrow> io" where
  "kdrop p s = (let h = kfree p ((kheap s)\<lparr>buddy_system := phys (kvm s)\<rparr>)
     in s\<lparr>kheap := h, kvm := (kvm s)\<lparr>phys := buddy_system h\<rparr>\<rparr>)"

text \<open>A path of the process: the buffer, and the string in it (\<open>None\<close>: \<open>argstrfetch\<close> fails).\<close>

definition fetch_path :: "env \<Rightarrow> task \<Rightarrow> nat \<Rightarrow> nat \<Rightarrow> io \<Rightarrow> (byte list option \<times> io) option" where
  "fetch_path E t n path s = do {
     uaddr \<leftarrow> arg t n;
     (r, v) \<leftarrow> argstrfetch (env_rd E) (t_mm t) uaddr path PATH_MAX (kvm s);
     let s1 = s\<lparr>kvm := v\<rparr>;
     if r < 0 then Some (None, s1)
     else Some (Some (takeWhile (\<lambda>c. c \<noteq> 0) (map (\<lambda>j. bytes v (path + j)) [0..<PATH_MAX])), s1) }"

definition on_fs :: "(fs \<Rightarrow> fs option) \<Rightarrow> io \<Rightarrow> io option" where
  "on_fs g s = do { f \<leftarrow> g (kfs s); Some (s\<lparr>kfs := f\<rparr>) }"

definition sys_namei :: "env \<Rightarrow> task \<Rightarrow> byte list \<Rightarrow> io \<Rightarrow> (nat option \<times> io) option" where
  "sys_namei E t path s = do { (ip, _, f) \<leftarrow> namei (env_stk E) (icwd t) path False (kfs s); Some (ip, s\<lparr>kfs := f\<rparr>) }"

text \<open>The descriptor checks.\<close>

definition open_fd :: "task \<Rightarrow> u64 \<Rightarrow> nat option" where
  "open_fd t a = (let fd = sint (ucast a :: u32)
     in if fd \<ge> int NFD \<or> fd < 0 \<or> fdtable t ! nat fd = -1 then None else Some (nat (fdtable t ! nat fd)))"

definition sys_file_fd_common :: "task \<Rightarrow> nat option" where
  "sys_file_fd_common t = find (\<lambda>fd. fdtable t ! fd = -1) [0..<NFD]"

section \<open>Read, write, sync\<close>

definition sys_read :: "env \<Rightarrow> task \<Rightarrow> io \<Rightarrow> (outcome \<times> io) option" where
  "sys_read E t s = do {
     fd \<leftarrow> arg t 0;
     (case open_fd t fd of None \<Rightarrow> Some (Done (- EBADF), s)
      | Some k \<Rightarrow> do {
          cnt \<leftarrow> arg t 2;
          if cnt = 0 then Some (Done 0, s)
          else do { ubuf \<leftarrow> arg t 1; file_read E t k ubuf cnt s } }) }"

definition sys_write :: "env \<Rightarrow> task \<Rightarrow> io \<Rightarrow> (outcome \<times> io) option" where
  "sys_write E t s = do {
     fd \<leftarrow> arg t 0;
     (case open_fd t fd of None \<Rightarrow> Some (Done (- EBADF), s)
      | Some k \<Rightarrow> do {
          cnt \<leftarrow> arg t 2;
          if cnt = 0 then Some (Done 0, s)
          else do { ubuf \<leftarrow> arg t 1; file_write E t k ubuf cnt s } }) }"

definition sys_sync :: "io \<Rightarrow> io option" where
  "sys_sync s = do {
     s1 \<leftarrow> on_fs sync_sb_and_gdt s;
     c \<leftarrow> blk_sync_all False (cache (kfs s1));
     Some (s1\<lparr>kfs := (kfs s1)\<lparr>cache := c\<rparr>\<rparr>) }"

section \<open>Creation of files\<close>

definition set_i_links_count :: "u16 \<Rightarrow> m_inode_t \<Rightarrow> m_inode_t" where
  "set_i_links_count v ip = ip\<lparr>d_inode_ctnt := put16 (d_inode_ctnt ip) 26 v\<rparr>"

definition new_inode :: "u16 \<Rightarrow> m_inode_t \<Rightarrow> m_inode_t" where
  "new_inode mode ip = (let
      d0 = d_inode_ctnt (set_i_links_count 1 (set_i_mode mode (set_i_size 0 (set_i_blocks 0 ip))));
      d1 = put_bytes d0 40 (replicate 60 0);
      d2 = put32 (put16 (put16 (put32 (put32 (put32 (put32 d1 20 0) 16 0) 12 0) 8 0) 24 0) 2 0) 32 0
    in ip\<lparr>d_inode_ctnt := d2\<rparr>)"

definition count_dir :: "u32 \<Rightarrow> fs \<Rightarrow> fs" where
  "count_dir g f = (let k = 32 * unat g + 16
     in f\<lparr>group_descs_table := put16 (group_descs_table f) k (get16 (group_descs_table f) k + 1)\<rparr>)"

text \<open>The new inode \<open>ip\<close> goes into the directory \<open>dp\<close>; the flag is false when it has to be given up.\<close>

definition create_link :: "env \<Rightarrow> nat \<Rightarrow> byte list \<Rightarrow> nat \<Rightarrow> nat \<Rightarrow> fs \<Rightarrow> (bool \<times> fs) option" where
  "create_link E dp name type ip f = do {
     i \<leftarrow> get_ino ip f;
     d \<leftarrow> get_ino dp f;
     (ok, f1) \<leftarrow> (if type = EXT2_FT_DIR then do {
          (r, g1) \<leftarrow> dirlink (env_stk E) ip [46] (ucast (i_no i)) f;
          if r < 0 then Some (False, g1)
          else do {
            (r, g2) \<leftarrow> dirlink (env_stk E) ip [46, 46] (ucast (i_no d)) g1;
            if r < 0 then Some (False, g2) else Some (True, count_dir (i_block_group i) g2) } }
        else Some (True, f));
     if \<not> ok then Some (False, f1)
     else do {
       (r, f2) \<leftarrow> dirlink (env_stk E) dp name (ucast (i_no i)) f1;
       if r < 0 then Some (False, f2)
       else if type = EXT2_FT_DIR then do {
         f3 \<leftarrow> upd_ino dp (\<lambda>i. set_i_links_count (i_links_count i + 1) i) f2;
         f4 \<leftarrow> iupdate dp False f3;
         Some (True, f4) }
       else Some (True, f2) } }"

definition create :: "env \<Rightarrow> task \<Rightarrow> byte list \<Rightarrow> nat \<Rightarrow> u16 \<Rightarrow> fs \<Rightarrow> (nat option \<times> fs) option" where
  "create E t path type mode f = do {
     (dpo, name, f1) \<leftarrow> nameiparent (env_stk E) (icwd t) path f;
     (case dpo of None \<Rightarrow> Some (None, f1)
      | Some dp \<Rightarrow> do {
          f2 \<leftarrow> ilock (Some dp) f1;
          (found, f3) \<leftarrow> dirlookup (env_stk E) dp name f2;
          (case found of
             Some (ip, _) \<Rightarrow> do {
               f4 \<leftarrow> iunlockput (Some dp) f3;
               f5 \<leftarrow> ilock (Some ip) f4;
               i \<leftarrow> get_ino ip f5;
               if type = EXT2_FT_REGFILE \<and> (S_ISREG (i_mode i) \<or> S_ISBLK (i_mode i) \<or> S_ISCHR (i_mode i))
               then do { f6 \<leftarrow> iunlock (Some ip) f5; Some (Some ip, f6) }
               else do { f6 \<leftarrow> iunlockput (Some ip) f5; Some (None, f6) } }
           | None \<Rightarrow> do {
               d \<leftarrow> get_ino dp f3;
               (ipo, f4) \<leftarrow> ialloc (i_dev d) f3;
               (case ipo of None \<Rightarrow> do { f5 \<leftarrow> iunlockput (Some dp) f4; Some (None, f5) }
                | Some ip \<Rightarrow> do {
                    f5 \<leftarrow> ilock (Some ip) f4;
                    f6 \<leftarrow> upd_ino ip (new_inode mode) f5;
                    f7 \<leftarrow> iupdate ip False f6;
                    (ok, f8) \<leftarrow> create_link E dp name type ip f7;
                    if ok then do {
                      f9 \<leftarrow> iunlock (Some ip) f8;
                      f10 \<leftarrow> iunlockput (Some dp) f9;
                      Some (Some ip, f10) }
                    else do {
                      f9 \<leftarrow> upd_ino ip (set_i_links_count 0) f8;
                      f10 \<leftarrow> iupdate ip False f9;
                      f11 \<leftarrow> iunlockput (Some ip) f10;
                      f12 \<leftarrow> iunlockput (Some dp) f11;
                      Some (None, f12) } }) }) }) }"

definition sys_create :: "env \<Rightarrow> task \<Rightarrow> byte list \<Rightarrow> nat \<Rightarrow> u16 \<Rightarrow> io \<Rightarrow> (nat option \<times> io) option" where
  "sys_create E t path type mode s = do { (ip, f) \<leftarrow> create E t path type mode (kfs s); Some (ip, s\<lparr>kfs := f\<rparr>) }"

text \<open>\<open>sys_creat\<close> and \<open>sys_mkdir\<close>; neither gives the reference to the inode back.\<close>

definition sys_creat :: "env \<Rightarrow> task \<Rightarrow> io \<Rightarrow> (int \<times> io) option" where
  "sys_creat E t s = do {
     (path, s1) \<leftarrow> kalloc PATH_MAX s;
     (p, s2) \<leftarrow> fetch_path E t 0 path s1;
     (res, s4) \<leftarrow> (case p of None \<Rightarrow> Some (- EFAULT, s2)
       | Some p \<Rightarrow> do {
           mode \<leftarrow> arg t 1;
           (ip, s3) \<leftarrow> sys_create E t p EXT2_FT_REGFILE (ucast mode OR EXT2_S_IFREG) s2;
           Some (if ip = None then - EPERM else 0, s3) });
     Some (res, kdrop path s4) }"

definition sys_mkdir :: "env \<Rightarrow> task \<Rightarrow> io \<Rightarrow> (int \<times> io) option" where
  "sys_mkdir E t s = do {
     (path, s1) \<leftarrow> kalloc PATH_MAX s;
     (p, s2) \<leftarrow> fetch_path E t 0 path s1;
     (res, s4) \<leftarrow> (case p of None \<Rightarrow> Some (- EFAULT, s2)
       | Some p \<Rightarrow> do {
           mode \<leftarrow> arg t 1;
           (ip, s3) \<leftarrow> sys_create E t p EXT2_FT_DIR (ucast mode OR EXT2_S_IFDIR) s2;
           Some (if ip = None then - EPERM else 0, s3) });
     Some (res, kdrop path s4) }"

text \<open>\<open>sys_chmod\<close> works on the inode without its lock; \<open>iupdate\<close> asserts that the inode has been read.\<close>

definition sys_chmod :: "env \<Rightarrow> task \<Rightarrow> io \<Rightarrow> (int \<times> io) option" where
  "sys_chmod E t s = do {
     (path, s1) \<leftarrow> kalloc PATH_MAX s;
     (p, s2) \<leftarrow> fetch_path E t 0 path s1;
     (res, s4) \<leftarrow> (case p of None \<Rightarrow> Some (- EFAULT, s2)
       | Some p \<Rightarrow> do {
           (inode, s3) \<leftarrow> sys_namei E t p s2;
           (case inode of None \<Rightarrow> Some (- ENOENT, s3)
            | Some ip \<Rightarrow> do {
                mode \<leftarrow> arg t 1;
                s4 \<leftarrow> on_fs (upd_ino ip (\<lambda>i. set_i_mode ((i_mode i AND NOT 0x1ff) OR ucast mode) i)) s3;
                s5 \<leftarrow> on_fs (iupdate ip False) s4;
                Some (0, s5) }) });
     Some (res, kdrop path s4) }"


section \<open>Descriptors\<close>

text \<open>\<open>sys_open\<close> behind the allocation of the descriptor \<open>fd\<close> and the table entry \<open>k\<close>.\<close>

definition open_file :: "nat \<Rightarrow> nat \<Rightarrow> u32 \<Rightarrow> nat \<Rightarrow> io \<Rightarrow> (int \<times> io) option" where
  "open_file fd k fl ip s = do {
     let s1 = upd_file k (\<lambda>f. f\<lparr>f_flags := fl, f_count := f_count f + 1, f_inode := Some ip\<rparr>) s;
     if fl AND O_APPEND \<noteq> 0 then do {
       s2 \<leftarrow> on_fs (ilock (Some ip)) s1;
       i \<leftarrow> get_ino ip (kfs s2);
       s3 \<leftarrow> on_fs (iunlock (Some ip)) (upd_file k (\<lambda>f. f\<lparr>f_pos := ucast (i_size i)\<rparr>) s2);
       Some (int fd, s3) }
     else if fl AND O_TRUNC \<noteq> 0 then do {
       s2 \<leftarrow> on_fs (ilock (Some ip)) s1;
       (r, f) \<leftarrow> itruncate ip 0 (kfs s2);
       if r < 0 then do {
         s3 \<leftarrow> on_fs (iunlockput (Some ip)) (s2\<lparr>kfs := f\<rparr>);
         Some (- EIO, s3) }
       else do {
         s3 \<leftarrow> on_fs (iunlock (Some ip)) (s2\<lparr>kfs := f\<rparr>);
         Some (int fd, upd_file k (\<lambda>f. f\<lparr>f_pos := 0\<rparr>) s3) } }
     else Some (int fd, upd_file k (\<lambda>f. f\<lparr>f_pos := 0\<rparr>) s1) }"

definition sys_open :: "env \<Rightarrow> task \<Rightarrow> io \<Rightarrow> (int \<times> task \<times> io) option" where
  "sys_open E t s =
     (case sys_file_fd_common t of None \<Rightarrow> Some (- EMFILE, t, s)
      | Some fd \<Rightarrow> do {
          (path, s1) \<leftarrow> kalloc PATH_MAX s;
          (p, s2) \<leftarrow> fetch_path E t 0 path s1;
          (case p of None \<Rightarrow> Some (- EFAULT, t, kdrop path s2)
           | Some p \<Rightarrow> do {
               a1 \<leftarrow> arg t 1;
               let fl = (ucast a1 :: u32);
               a2 \<leftarrow> arg t 2;
               (inode, s3) \<leftarrow> (if fl AND O_CREAT \<noteq> 0 then sys_create E t p EXT2_FT_REGFILE (ucast a2 OR EXT2_S_IFREG) s2
                 else sys_namei E t p s2);
               (case inode of None \<Rightarrow> Some (if fl AND O_CREAT \<noteq> 0 then - EPERM else - ENOENT, t, kdrop path s3)
                | Some ip \<Rightarrow> do {
                    (k, ft) \<leftarrow> file_alloc (t_pid t) (fcbtable s3);
                    k \<leftarrow> k;
                    (r, s4) \<leftarrow> open_file fd k fl ip (s3\<lparr>fcbtable := ft\<rparr>);
                    Some (r, t\<lparr>fdtable := (fdtable t)[fd := int k]\<rparr>, kdrop path s4) }) }) })"

definition do_close :: "nat \<Rightarrow> task \<Rightarrow> io \<Rightarrow> (int \<times> task \<times> io) option" where
  "do_close fd t s = do {
     k \<leftarrow> nth_opt (fdtable t) fd;
     cassert (k \<noteq> -1);
     s1 \<leftarrow> file_close (nat k) s;
     Some (0, t\<lparr>fdtable := (fdtable t)[fd := -1]\<rparr>, s1) }"

definition sys_close :: "task \<Rightarrow> io \<Rightarrow> (int \<times> task \<times> io) option" where
  "sys_close t s = do {
     a \<leftarrow> arg t 0;
     (case open_fd t a of None \<Rightarrow> Some (- EBADF, t, s)
      | Some k \<Rightarrow> do_close (unat a mod 2 ^ 32) t s) }"

definition do_dupfd :: "nat \<Rightarrow> nat \<Rightarrow> task \<Rightarrow> io \<Rightarrow> (int \<times> task \<times> io) option" where
  "do_dupfd fd ar t s =
     (if ar \<ge> NFD then Some (- EINVAL, t, s)
      else (case find (\<lambda>a. fdtable t ! a = -1) [ar..<NFD] of
          None \<Rightarrow> Some (- EMFILE, t, s)
        | Some a \<Rightarrow> do {
            k \<leftarrow> nth_opt (fdtable t) fd;
            (_, ft) \<leftarrow> file_dup k (fcbtable s);
            Some (int a, t\<lparr>fdtable := (fdtable t)[a := k]\<rparr>, s\<lparr>fcbtable := ft\<rparr>) }))"

text \<open>\<open>sys_dup2\<close> does not check \<open>oldfd\<close>.\<close>

definition sys_dup2 :: "task \<Rightarrow> io \<Rightarrow> (int \<times> task \<times> io) option" where
  "sys_dup2 t s = do {
     a0 \<leftarrow> arg t 0;
     a1 \<leftarrow> arg t 1;
     let oldfd = unat a0 mod 2 ^ 32;
     let newfd = unat a1 mod 2 ^ 32;
     if newfd \<ge> NFD then Some (- EBADF, t, s)
     else do {
       (t1, s1) \<leftarrow> (if fdtable t ! newfd \<noteq> -1 then do { (_, t1, s1) \<leftarrow> do_close newfd t s; Some (t1, s1) } else Some (t, s));
       do_dupfd oldfd newfd t1 s1 } }"

definition sys_dup :: "task \<Rightarrow> io \<Rightarrow> (int \<times> task \<times> io) option" where
  "sys_dup t s = do {
     a \<leftarrow> arg t 0;
     let oldfd = unat a mod 2 ^ 32;
     if oldfd \<ge> NFD \<or> fdtable t ! oldfd = -1 then Some (- EBADF, t, s)
     else do_dupfd oldfd 0 t s }"

text \<open>A pipe; with a bad address, or without memory, the two descriptors stay as they are.\<close>

definition sys_pipe :: "env \<Rightarrow> task \<Rightarrow> io \<Rightarrow> (int \<times> task \<times> io) option" where
  "sys_pipe E t s =
     (case sys_file_fd_common t of None \<Rightarrow> Some (- EMFILE, t, s)
      | Some fd1 \<Rightarrow> do {
          (k, ft) \<leftarrow> file_alloc (t_pid t) (fcbtable s);
          k1 \<leftarrow> k;
          let t1 = t\<lparr>fdtable := (fdtable t)[fd1 := int k1]\<rparr>;
          (case sys_file_fd_common t1 of
             None \<Rightarrow> do {
               (w, ft1) \<leftarrow> fcbno_free k1 ft;
               Some (- EMFILE, t1\<lparr>fdtable := (fdtable t1)[fd1 := -1]\<rparr>, s\<lparr>fcbtable := ft1, woken := woken s @ w\<rparr>) }
           | Some fd2 \<Rightarrow> do {
               (k, ft1) \<leftarrow> file_alloc (t_pid t) ft;
               k2 \<leftarrow> k;
               let t2 = t1\<lparr>fdtable := (fdtable t1)[fd2 := int k2]\<rparr>;
               let s1 = s\<lparr>fcbtable := ft1\<rparr>;
               pipefd \<leftarrow> arg t 0;
               (r, v) \<leftarrow> verify_area (env_rd E) (t_mm t) pipefd 8 (PTE_R OR PTE_W OR PTE_U) (kvm s1);
               let s2 = s1\<lparr>kvm := v\<rparr>;
               if r < 0 then Some (- EFAULT, t2, s2)
               else do {
                 (inode, s3) \<leftarrow> pipealloc s2;
                 (case inode of None \<Rightarrow> Some (- ENOMEM, t2, s3)
                  | Some ip \<Rightarrow> do {
                      let s4 = upd_file k1 (\<lambda>f. f\<lparr>f_flags := O_RDONLY, f_count := f_count f + 1, f_inode := Some ip\<rparr>) s3;
                      (_, fs1) \<leftarrow> idup (Some ip) (kfs s4);
                      let s5 = upd_file k2 (\<lambda>f. f\<lparr>f_flags := O_WRONLY, f_count := f_count f + 1, f_inode := Some ip\<rparr>) (s4\<lparr>kfs := fs1\<rparr>);
                      v1 \<leftarrow> user_out E t pipefd 0 (bytes32 (word_of_nat fd1)) (kvm s5);
                      v2 \<leftarrow> user_out E t pipefd 4 (bytes32 (word_of_nat fd2)) v1;
                      Some (0, t2, s5\<lparr>kvm := v2\<rparr>) }) } }) })"

text \<open>\<open>SEEK_SET\<close> is 0, so the test of \<open>whence\<close> holds for every value.\<close>

definition sys_lseek :: "task \<Rightarrow> io \<Rightarrow> (int \<times> io) option" where
  "sys_lseek t s = do {
     a \<leftarrow> arg t 0;
     (case open_fd t a of None \<Rightarrow> Some (- EBADF, s)
      | Some k \<Rightarrow> do {
          f \<leftarrow> get_file k s;
          whence \<leftarrow> arg t 2;
          if whence \<ge> 0 \<or> whence \<le> 2 then do {
            off \<leftarrow> arg t 1;
            (if whence = 0 then Some (0, upd_file k (\<lambda>f. f\<lparr>f_pos := off\<rparr>) s)
             else if whence = 1 then Some (0, upd_file k (\<lambda>f. f\<lparr>f_pos := f_pos f + off\<rparr>) s)
             else if whence = 2 then do {
               ip \<leftarrow> f_inode f;
               i \<leftarrow> get_ino ip (kfs s);
               Some (0, upd_file k (\<lambda>f. f\<lparr>f_pos := ucast (i_size i) + off\<rparr>) s) }
             else Some (0, s)) }
          else Some (- EINVAL, s) }) }"

section \<open>Information about files\<close>

text \<open>The structure in memory; \<open>pad\<close> are the four bytes behind \<open>st_rdev\<close>.\<close>

definition stat_bytes :: "byte list \<Rightarrow> stat_t \<Rightarrow> byte list" where
  "stat_bytes pad st = bytes32 (st_dev st) @ bytes32 (st_ino st) @ bytes16 (st_mode st) @ bytes16 (st_nlink st) @ bytes16 (st_uid st) @
     bytes16 (st_gid st) @ bytes32 (st_rdev st) @ pad @
     bytes32 (ucast (st_size st)) @ bytes32 (ucast (drop_bit 32 (st_size st))) @
     bytes32 (ucast (st_blksize st)) @ bytes32 (ucast (drop_bit 32 (st_blksize st))) @
     bytes32 (st_blocks st) @ bytes32 (st_atime st) @ bytes32 (st_mtime st) @ bytes32 (st_ctime st)"

definition do_stat :: "env \<Rightarrow> task \<Rightarrow> nat \<Rightarrow> io \<Rightarrow> (int \<times> io) option" where
  "do_stat E t ip s = do {
     st_vaddr \<leftarrow> arg t 1;
     (r, v) \<leftarrow> verify_area (env_rd E) (t_mm t) st_vaddr 56 (PTE_R OR PTE_W OR PTE_U) (kvm s);
     let s1 = s\<lparr>kvm := v\<rparr>;
     if r < 0 then Some (-1, s1)
     else do {
       s2 \<leftarrow> on_fs (ilock (Some ip)) s1;
       i \<leftarrow> get_ino ip (kfs s2);
       s3 \<leftarrow> on_fs (iunlock (Some ip)) s2;
       v1 \<leftarrow> user_out E t st_vaddr 0 (stat_bytes (take 4 (fst (env_stk E))) (stati i)) (kvm s3);
       Some (0, s3\<lparr>kvm := v1\<rparr>) } }"

definition sys_stat :: "env \<Rightarrow> task \<Rightarrow> io \<Rightarrow> (int \<times> io) option" where
  "sys_stat E t s = do {
     (path, s1) \<leftarrow> kalloc PATH_MAX s;
     (p, s2) \<leftarrow> fetch_path E t 0 path s1;
     (res, s4) \<leftarrow> (case p of None \<Rightarrow> Some (- EFAULT, s2)
       | Some p \<Rightarrow> do {
           (inode, s3) \<leftarrow> sys_namei E t p s2;
           (case inode of None \<Rightarrow> Some (- ENOENT, s3)
            | Some ip \<Rightarrow> do {
                (r, s4) \<leftarrow> do_stat E t ip s3;
                Some (if r < 0 then - EFAULT else 0, s4) }) });
     Some (res, kdrop path s4) }"

definition sys_fstat :: "env \<Rightarrow> task \<Rightarrow> io \<Rightarrow> (int \<times> io) option" where
  "sys_fstat E t s = do {
     a \<leftarrow> arg t 0;
     (case open_fd t a of None \<Rightarrow> Some (- EBADF, s)
      | Some k \<Rightarrow> do { f \<leftarrow> get_file k s; ip \<leftarrow> f_inode f; do_stat E t ip s }) }"


section \<open>Directories\<close>

definition sys_getcwd :: "env \<Rightarrow> task \<Rightarrow> io \<Rightarrow> (u64 \<times> io) option" where
  "sys_getcwd E t s = do {
     ubuf \<leftarrow> arg t 0;
     a1 \<leftarrow> arg t 1;
     let n = min a1 1024;
     (r, v) \<leftarrow> verify_area (env_rd E) (t_mm t) ubuf n (PTE_R OR PTE_W OR PTE_U) (kvm s);
     if r < 0 then Some (0, s\<lparr>kvm := v\<rparr>)
     else do {
       (r, v1) \<leftarrow> copyout (mm_pagetable (t_mm t)) ubuf (cwd t) (unat n) v;
       cassert (r \<noteq> -1);
       Some (ubuf, s\<lparr>kvm := v1\<rparr>) } }"

text \<open>\<open>abspath\<close>: the steps of its loop over the elements of \<open>pathname\<close>, each up to a separator, and what follows the last one.
  \<open>cur\<close> is the end of the path so far in \<open>pwd\<close>.\<close>

definition parent_dir :: "nat \<Rightarrow> nat \<Rightarrow> nat \<Rightarrow> mem \<Rightarrow> (nat \<times> mem) option" where
  "parent_dir tok pwd cur m =
     (if cur - 1 \<noteq> pwd then do {
        let m1 = m(cur - 1 := 0);
        r \<leftarrow> strrsep m1 pwd tok;
        r \<leftarrow> r;
        Some (r + 1, m1(r + 1 := 0)) }
      else Some (cur, m))"

partial_function (option) abspath_loop :: "nat \<Rightarrow> nat \<Rightarrow> nat \<Rightarrow> nat \<Rightarrow> mem \<Rightarrow> (nat \<times> nat \<times> mem) option" where
  "abspath_loop tok pwd cur pathname m =
     (if m pathname = 0 then Some (cur, pathname, m)
      else do {
        r \<leftarrow> strsep m pathname tok;
        (case r of None \<Rightarrow> Some (cur, pathname, m)
         | Some p \<Rightarrow> do {
             let n = p - pathname + 1;
             let m1 = m(p := 47);
             if m1 pathname = 46 \<and> m1 (pathname + 1) = 47 then abspath_loop tok pwd cur (pathname + n) m1
             else if m1 pathname = 46 \<and> m1 (pathname + 1) = 46 \<and> m1 (pathname + 2) = 47 then do {
               (cur1, m2) \<leftarrow> parent_dir tok pwd cur m1;
               abspath_loop tok pwd cur1 (pathname + n) m2 }
             else abspath_loop tok pwd (cur + n) (pathname + n) (strncpy m1 cur pathname n) }) })"

definition abspath :: "nat \<Rightarrow> nat \<Rightarrow> nat \<Rightarrow> mem \<Rightarrow> mem option" where
  "abspath tok pwd pathname m = do {
     sep \<leftarrow> is_separator m (m pathname) tok;
     (cur, pathname) \<leftarrow> (if sep then Some (pwd + 1, pathname + 1)
       else do { r \<leftarrow> strrsep m pwd tok; r \<leftarrow> r; Some (r + 1, pathname) });
     (cur, pathname, m1) \<leftarrow> abspath_loop tok pwd cur pathname (m(cur := 0));
     if m1 pathname = 0 then Some m1
     else if m1 pathname = 46 \<and> m1 (pathname + 1) = 0 then Some m1
     else if \<not> (m1 pathname = 46 \<and> m1 (pathname + 1) = 46 \<and> m1 (pathname + 2) = 0) then do {
       m2 \<leftarrow> strcpy m1 cur pathname;
       n \<leftarrow> strlen m2 pathname;
       Some (m2(cur + n := 47, cur + n + 1 := 0)) }
     else do { (_, m2) \<leftarrow> parent_dir tok pwd cur m1; Some m2 } }"

text \<open>The current directory; when the path leads to it again the new reference is not given back.\<close>

definition sys_chdir :: "env \<Rightarrow> task \<Rightarrow> io \<Rightarrow> (int \<times> task \<times> io) option" where
  "sys_chdir E t s = do {
     (path, s1) \<leftarrow> kalloc PATH_MAX s;
     (p, s2) \<leftarrow> fetch_path E t 0 path s1;
     (case p of None \<Rightarrow> Some (- EFAULT, t, kdrop path s2)
      | Some p \<Rightarrow> do {
          (inode, s3) \<leftarrow> sys_namei E t p s2;
          (case inode of None \<Rightarrow> Some (- ENOENT, t, kdrop path s3)
           | Some ip \<Rightarrow>
               if inode = icwd t then Some (0, t, kdrop path s3)
               else do {
                 s4 \<leftarrow> on_fs (ilock inode) s3;
                 i \<leftarrow> get_ino ip (kfs s4);
                 if \<not> S_ISDIR (i_mode i) then do {
                   s5 \<leftarrow> on_fs (iunlock inode) s4;
                   Some (- EPERM, t, kdrop path s5) }
                 else do {
                   m \<leftarrow> abspath (env_tok E) (cwd t) path (bytes (kvm s4));
                   s5 \<leftarrow> on_fs (iput (icwd t)) (s4\<lparr>kvm := (kvm s4)\<lparr>bytes := m\<rparr>\<rparr>);
                   s6 \<leftarrow> on_fs (iunlock inode) s5;
                   Some (0, t\<lparr>icwd := inode\<rparr>, kdrop path s6) } }) }) }"

text \<open>The loop of \<open>sys_getdents\<close> with the entry buffer \<open>de\<close>; its result is the number of bytes stored.\<close>

partial_function (option) getdents_loop :: "env \<Rightarrow> task \<Rightarrow> nat \<Rightarrow> nat \<Rightarrow> u64 \<Rightarrow> u64 \<Rightarrow> nat \<Rightarrow> byte list \<Rightarrow> io \<Rightarrow> (nat \<times> io) option" where
  "getdents_loop E t k ip ubuf nbytes res de s =
     (if (word_of_nat res :: u64) < nbytes then do {
        f \<leftarrow> get_file k s;
        (r, de1, fs1) \<leftarrow> readi ip kbuf_out (f_pos f) 263 de (kfs s);
        let s1 = s\<lparr>kfs := fs1\<rparr>;
        if r = 0 then Some (res, s1)
        else do {
          let entrylen = alignaddr_up (8 + ucast (de_name_len de1) + 1) 4;
          (e, v) \<leftarrow> verify_area (env_rd E) (t_mm t) ubuf entrylen (PTE_R OR PTE_W OR PTE_U) (kvm s1);
          let s2 = s1\<lparr>kvm := v\<rparr>;
          if e < 0 then Some (res, s2)
          else do {
            de2 \<leftarrow> upd_opt de1 (8 + unat (de_name_len de1)) 0;
            let s3 = upd_file k (\<lambda>f. f\<lparr>f_pos := f_pos f + ucast (de_rec_len de1)\<rparr>) s2;
            let de3 = put16 de2 4 (ucast entrylen);
            cassert (unat entrylen \<le> length de3);
            v1 \<leftarrow> user_out E t ubuf 0 (take (unat entrylen) de3) (kvm s3);
            getdents_loop E t k ip (ubuf + entrylen) nbytes (res + unat entrylen) de3 (s3\<lparr>kvm := v1\<rparr>) } } }
      else Some (res, s))"

definition sys_getdents :: "env \<Rightarrow> task \<Rightarrow> io \<Rightarrow> (int \<times> io) option" where
  "sys_getdents E t s = do {
     a \<leftarrow> arg t 0;
     (case open_fd t a of None \<Rightarrow> Some (- EBADF, s)
      | Some k \<Rightarrow> do {
          f \<leftarrow> get_file k s;
          s1 \<leftarrow> on_fs (ilock (f_inode f)) s;
          ip \<leftarrow> f_inode f;
          i \<leftarrow> get_ino ip (kfs s1);
          (res, s2) \<leftarrow> (if \<not> S_ISDIR (i_mode i) then Some (- EBADF, s1)
            else do {
              ubuf \<leftarrow> arg t 1;
              nbytes \<leftarrow> arg t 2;
              (n, s2) \<leftarrow> getdents_loop E t k ip ubuf nbytes 0 (fst (env_stk E)) s1;
              Some (int n, s2) });
          s3 \<leftarrow> on_fs (iunlock (Some ip)) s2;
          Some (res, s3) }) }"

section \<open>Truncation and links\<close>

text \<open>On its first two errors \<open>sys_truncate\<close> goes on to \<open>iunlockput\<close> with a pointer that is not set or null.\<close>

definition sys_truncate :: "env \<Rightarrow> task \<Rightarrow> io \<Rightarrow> (int \<times> io) option" where
  "sys_truncate E t s = do {
     (path, s1) \<leftarrow> kalloc PATH_MAX s;
     (p, s2) \<leftarrow> fetch_path E t 0 path s1;
     p \<leftarrow> p;
     (inode, s3) \<leftarrow> sys_namei E t p s2;
     ip \<leftarrow> inode;
     s4 \<leftarrow> on_fs (ilock inode) s3;
     i \<leftarrow> get_ino ip (kfs s4);
     (res, s5) \<leftarrow> (if \<not> S_IWUSR (i_mode i) then Some (- EACCES, s4)
       else do {
         n \<leftarrow> arg t 1;
         (r, f) \<leftarrow> itruncate ip n (kfs s4);
         Some (if r < 0 then - EIO else 0, s4\<lparr>kfs := f\<rparr>) });
     s6 \<leftarrow> on_fs (iunlockput inode) s5;
     Some (res, kdrop path s6) }"

text \<open>\<open>sys_link\<close>; when the new name cannot be made, its result is a variable that was not set.\<close>

definition link_inode :: "env \<Rightarrow> task \<Rightarrow> byte list \<Rightarrow> nat \<Rightarrow> fs \<Rightarrow> (int \<times> fs) option" where
  "link_inode E t new_path ip f = do {
     f1 \<leftarrow> ilock (Some ip) f;
     i \<leftarrow> get_ino ip f1;
     if S_ISDIR (i_mode i) then do { f2 \<leftarrow> iunlockput (Some ip) f1; Some (- EPERM, f2) }
     else do {
       f2 \<leftarrow> upd_ino ip (\<lambda>i. set_i_links_count (i_links_count i + 1) i) f1;
       f3 \<leftarrow> iupdate ip False f2;
       f4 \<leftarrow> iunlock (Some ip) f3;
       (dpo, name, f5) \<leftarrow> nameiparent (env_stk E) (icwd t) new_path f4;
       (ok, f8) \<leftarrow> (case dpo of None \<Rightarrow> Some (False, f5)
         | Some dp \<Rightarrow> do {
             f6 \<leftarrow> ilock (Some dp) f5;
             i \<leftarrow> get_ino ip f6;
             (r, f7) \<leftarrow> dirlink (env_stk E) dp name (ucast (i_no i)) f6;
             f8 \<leftarrow> iunlockput (Some dp) f7;
             Some (\<not> r < 0, f8) });
       if ok then do { f9 \<leftarrow> iput (Some ip) f8; Some (0, f9) }
       else do {
         f9 \<leftarrow> ilock (Some ip) f8;
         f10 \<leftarrow> upd_ino ip (\<lambda>i. set_i_links_count (i_links_count i - 1) i) f9;
         f11 \<leftarrow> iupdate ip False f10;
         f12 \<leftarrow> iunlockput (Some ip) f11;
         Some (env_junk E, f12) } } }"

definition sys_link :: "env \<Rightarrow> task \<Rightarrow> io \<Rightarrow> (int \<times> io) option" where
  "sys_link E t s = do {
     (old_path, s1) \<leftarrow> kalloc PATH_MAX s;
     (new_path, s2) \<leftarrow> kalloc PATH_MAX s1;
     (p, s3) \<leftarrow> fetch_path E t 0 old_path s2;
     (res, s6) \<leftarrow> (case p of None \<Rightarrow> Some (- EFAULT, s3)
       | Some p \<Rightarrow> do {
           (q, s4) \<leftarrow> fetch_path E t 1 new_path s3;
           (case q of None \<Rightarrow> Some (- EFAULT, s4)
            | Some q \<Rightarrow> do {
                (inode, s5) \<leftarrow> sys_namei E t p s4;
                (case inode of None \<Rightarrow> Some (- ENOENT, s5)
                 | Some ip \<Rightarrow> do { (r, f) \<leftarrow> link_inode E t q ip (kfs s5); Some (r, s5\<lparr>kfs := f\<rparr>) }) }) });
     Some (res, kdrop new_path (kdrop old_path s6)) }"

text \<open>Is the directory empty except for \<open>.\<close> and \<open>..\<close>?\<close>

definition isdirempty :: "env \<Rightarrow> nat \<Rightarrow> fs \<Rightarrow> (bool \<times> fs) option" where
  "isdirempty E dp f = do {
     (_, de, f1) \<leftarrow> readi dp kbuf_out 12 263 (fst (env_stk E)) f;
     cassert (de ! 8 = 46 \<and> de ! 9 = 46);
     Some (12 + unat (de_rec_len de) = BLKSIZE, f1) }"

definition sys_unlink :: int where "sys_unlink = 0"
definition sys_rmdir :: int where "sys_rmdir = 0"

section \<open>The files of a process\<close>

text \<open>A process ends: \<open>freeproc\<close> closes its files and gives its directory back.\<close>

definition close_files :: "task \<Rightarrow> io \<Rightarrow> io option" where
  "close_files t s = do {
     s1 \<leftarrow> for_each (\<lambda>fd s. if fdtable t ! fd \<noteq> -1 then file_close (nat (fdtable t ! fd)) s else Some s) [0..<NFD] s;
     s2 \<leftarrow> on_fs (iput (icwd t)) s1;
     Some (kdrop (cwd t) s2) }"

text \<open>A process forks: the child's descriptors and directory.\<close>

definition fork_files :: "task \<Rightarrow> task \<Rightarrow> io \<Rightarrow> (task \<times> io) option" where
  "fork_files par kid s = do {
     ft \<leftarrow> for_each (\<lambda>i ft. map_option snd (file_dup (fdtable par ! i) ft)) [0..<NFD] (fcbtable s);
     let s1 = s\<lparr>fcbtable := ft\<rparr>;
     (ip, fs1) \<leftarrow> idup (icwd par) (kfs s1);
     (p, s2) \<leftarrow> kalloc PATH_MAX (s1\<lparr>kfs := fs1\<rparr>);
     m \<leftarrow> strcpy (bytes (kvm s2)) p (cwd par);
     Some (kid\<lparr>fdtable := fdtable par, icwd := ip, cwd := p\<rparr>, s2\<lparr>kvm := (kvm s2)\<lparr>bytes := m\<rparr>\<rparr>) }"

end
