(* ===== verification/Open_Files.thy ===== *)
theory Open_Files
  imports Sysfile
begin

text \<open>
  Properties of the file calls: the table of open files counts its references, \<open>dup\<close> takes the least free descriptor,
  a failed \<open>pipe\<close> leaves descriptors behind that nobody can close, and a file whose inode has not been read yet may be taken
  for a pipe.
\<close>

section \<open>What does not touch the table of open files\<close>

named_theorems ftab_frame \<open>operations that leave the table of open files alone\<close>

lemma on_fs_ftab [ftab_frame]: "on_fs g s = Some s' \<Longrightarrow> fcbtable s' = fcbtable s"
  by (auto simp: on_fs_def hoare_simps)

lemma kalloc_ftab [ftab_frame]: "kalloc n s = Some (p, s') \<Longrightarrow> fcbtable s' = fcbtable s"
  by (auto simp: kalloc_def hoare_simps)

lemma kdrop_ftab [simp]: "fcbtable (kdrop p s) = fcbtable s"
  by (simp add: kdrop_def Let_def)

lemma fetch_path_ftab [ftab_frame]: "fetch_path E t n path s = Some (p, s') \<Longrightarrow> fcbtable s' = fcbtable s"
  by (auto simp: fetch_path_def hoare_simps Let_def split: if_splits prod.splits)

lemma sys_namei_ftab [ftab_frame]: "sys_namei E t p s = Some (ip, s') \<Longrightarrow> fcbtable s' = fcbtable s"
  by (auto simp: sys_namei_def hoare_simps split: prod.splits)

lemma sys_create_ftab [ftab_frame]: "sys_create E t p ty md s = Some (ip, s') \<Longrightarrow> fcbtable s' = fcbtable s"
  by (auto simp: sys_create_def hoare_simps split: prod.splits)

lemma pipealloc_ftab [ftab_frame]: "pipealloc s = Some (ip, s') \<Longrightarrow> fcbtable s' = fcbtable s"
  by (auto simp: pipealloc_def hoare_simps Let_def split: prod.splits if_splits)

lemma upd_file_ftab [simp]: "fcbtable (upd_file k g s) = (fcbtable s)\<lparr>files := (files (fcbtable s))[k := g (files (fcbtable s) ! k)]\<rparr>"
  by (simp add: upd_file_def)

section \<open>Reference counts\<close>

text \<open>\<open>others k\<close> are the references of other processes to the entry \<open>k\<close>. The idle entries are those with no reference.\<close>

definition refs_ok :: "(nat \<Rightarrow> nat) \<Rightarrow> int list \<Rightarrow> fcbtable_t \<Rightarrow> bool" where
  "refs_ok others fds ft \<longleftrightarrow> length fds = 64 \<and> set fds \<subseteq> {-1..<256} \<and> length (files ft) = 256 \<and>
     (\<forall>k<256. others k < 2 ^ 31 \<and> unat (f_count (files ft ! k)) = others k + count_list fds (int k)) \<and>
     queue_inv (idle_fcbs ft) \<and> queue_cap (idle_fcbs ft) = 256 \<and> distinct (queue_abs (idle_fcbs ft)) \<and>
     set (queue_abs (idle_fcbs ft)) = {k. k < 256 \<and> f_count (files ft ! k) = 0}"

lemma count_list_update:
  "i < length xs \<Longrightarrow> count_list (xs[i := y]) z + (if xs ! i = z then 1 else 0) = count_list xs z + (if y = z then 1 else 0)"
proof (induction xs arbitrary: i)
  case (Cons x xs)
  show ?case
  proof (cases i)
    case (Suc j)
    then show ?thesis using Cons.IH[of j] Cons.prems by (auto split: if_splits)
  qed auto
qed simp

lemma count_list_pos: "0 < count_list xs x \<longleftrightarrow> x \<in> set xs"
  by (induction xs) auto

lemma fd_range: "set fds \<subseteq> {-1..<256} \<Longrightarrow> i < length fds \<Longrightarrow> fds ! i \<noteq> -1 \<Longrightarrow> 0 \<le> fds ! i \<and> nat (fds ! i) < 256"
  using nth_mem[of i fds] by fastforce

text \<open>The pool of idle entries, and what an allocation takes from it.\<close>

definition idle_ok :: "fcbtable_t \<Rightarrow> bool" where
  "idle_ok ft \<longleftrightarrow> queue_inv (idle_fcbs ft) \<and> queue_cap (idle_fcbs ft) = 256 \<and> distinct (queue_abs (idle_fcbs ft)) \<and>
     set (queue_abs (idle_fcbs ft)) \<subseteq> {k. k < 256 \<and> f_count (files ft ! k) = 0}"

lemma refs_ok_idle: "refs_ok others fds ft \<Longrightarrow> idle_ok ft"
  by (simp add: refs_ok_def idle_ok_def)

lemma file_alloc_ok:
  assumes "idle_ok ft" "file_alloc me ft = Some (Some k, ft')"
  shows "k < 256" "f_count (files ft ! k) = 0" "files ft' = files ft" "idle_ok ft'" "k \<in> set (queue_abs (idle_fcbs ft))"
    "set (queue_abs (idle_fcbs ft')) = set (queue_abs (idle_fcbs ft)) - {k}"
proof -
  have q: "queue_inv (idle_fcbs ft)" "distinct (queue_abs (idle_fcbs ft))" "queue_cap (idle_fcbs ft) = 256"
    "set (queue_abs (idle_fcbs ft)) \<subseteq> {k. k < 256 \<and> f_count (files ft ! k) = 0}" using assms(1) by (simp_all add: idle_ok_def)
  have ne: "queue_abs (idle_fcbs ft) \<noteq> []" using assms(2) rq.empty_iff[OF q(1)] by (auto simp: file_alloc_def split: if_splits)
  obtain x q' where x: "queue_front (idle_fcbs ft) = Some x" "queue_front_pop (idle_fcbs ft) = Some q'" "queue_inv q'" "queue_cap q' = queue_cap (idle_fcbs ft)"
    "queue_abs (idle_fcbs ft) = x # queue_abs q'" "x \<notin> set (queue_abs q')" "distinct (queue_abs q')"
    using rq.pool_alloc[OF q(1,2) ne] by metis
  have e: "k = x" "ft' = ft\<lparr>idle_fcbs := q'\<rparr>" using assms(2) x(1,2) rq.empty_iff[OF q(1)] ne by (auto simp: file_alloc_def hoare_simps)
  show "k \<in> set (queue_abs (idle_fcbs ft))" using x(5) e by simp
  then show "k < 256" "f_count (files ft ! k) = 0" using q(4) by auto
  show "files ft' = files ft" "idle_ok ft'"
    "set (queue_abs (idle_fcbs ft')) = set (queue_abs (idle_fcbs ft)) - {k}" using x q(3,4) e by (auto simp: idle_ok_def)
qed

lemma not_referenced:
  assumes "refs_ok others fds ft" "k < 256" "f_count (files ft ! k) = 0"
  shows "int k \<notin> set fds" "others k = 0"
  using assms count_list_pos[of fds "int k"] by (auto simp: refs_ok_def)

abbreviation (input) counts :: "fcbtable_t \<Rightarrow> u32 list" where "counts ft \<equiv> map f_count (files ft)"

lemma add_ref:
  assumes ok: "refs_ok others fds ft" and fd: "fd < 64" "fds ! fd = -1" and k: "k < 256"
    and ft': "counts ft' = (counts ft)[k := f_count (files ft ! k) + 1]" "idle_fcbs ft' = idle_fcbs fa"
    "idle_ok fa" "set (queue_abs (idle_fcbs fa)) = set (queue_abs (idle_fcbs ft)) - {k}"
  shows "refs_ok others (fds[fd := int k]) ft'"
proof -
  have R: "length fds = 64" "set fds \<subseteq> {-1..<256}" "length (files ft) = 256"
    "\<And>j. j < 256 \<Longrightarrow> others j < 2 ^ 31 \<and> unat (f_count (files ft ! j)) = others j + count_list fds (int j)"
    "set (queue_abs (idle_fcbs ft)) = {k. k < 256 \<and> f_count (files ft ! k) = 0}"
    using ok by (simp_all add: refs_ok_def)
  have len: "length (files ft') = 256" using arg_cong[OF ft'(1), of length] R(3) by simp
  have f: "f_count (files ft' ! j) = (if j = k then f_count (files ft ! k) + 1 else f_count (files ft ! j))" if "j < 256" for j
    using arg_cong[OF ft'(1), of "\<lambda>xs. xs ! j"] that R(3) k len by (simp add: nth_list_update split: if_splits)
  have c: "count_list (fds[fd := int k]) (int j) = count_list fds (int j) + (if j = k then 1 else 0)" for j
    using count_list_update[of fd fds "int k" "int j"] fd R(1) by simp
  have cb: "count_list fds (int k) \<le> 64" using count_le_length[of fds "int k"] R(1) by simp
  have u: "unat (f_count (files ft ! k) + 1) = unat (f_count (files ft ! k)) + 1"
    using R(4)[OF k] cb by (simp add: unat_word_ariths)
  have "unat (f_count (files ft' ! j)) = others j + count_list (fds[fd := int k]) (int j)" if "j < 256" for j
    using R(4)[OF that] u f[OF that] unfolding c by (cases "j = k") simp_all
  moreover have "set (fds[fd := int k]) \<subseteq> {-1..<256}" using R(2) k by (intro set_update_subsetI) auto
  moreover have "set (queue_abs (idle_fcbs ft')) = {j. j < 256 \<and> f_count (files ft' ! j) = 0}"
  proof -
    have nz: "f_count (files ft ! k) + 1 \<noteq> 0" using u by (metis add_is_0 one_neq_zero unat_0)
    have "j < 256 \<and> f_count (files ft' ! j) = 0 \<longleftrightarrow> j < 256 \<and> f_count (files ft ! j) = 0 \<and> j \<noteq> k" for j
      using f[of j] nz by (cases "j = k") auto
    then show ?thesis unfolding ft'(2,4) R(5) by auto
  qed
  ultimately show ?thesis using R(1,4) len ft'(2,3) by (simp add: refs_ok_def idle_ok_def)
qed

lemma drop_ref:
  assumes ok: "refs_ok others fds ft" and fd: "fd < 64" "fds ! fd = int k"
    and s: "file_close k s = Some s'" "fcbtable s = ft"
  shows "refs_ok others (fds[fd := -1]) (fcbtable s')" "\<forall>j. j \<noteq> k \<longrightarrow> files (fcbtable s') ! j = files ft ! j"
proof -
  have R: "length fds = 64" "set fds \<subseteq> {-1..<256}" "length (files ft) = 256"
    "\<And>j. j < 256 \<Longrightarrow> others j < 2 ^ 31 \<and> unat (f_count (files ft ! j)) = others j + count_list fds (int j)"
    "set (queue_abs (idle_fcbs ft)) = {k. k < 256 \<and> f_count (files ft ! k) = 0}" "queue_inv (idle_fcbs ft)" "queue_cap (idle_fcbs ft) = 256"
    "distinct (queue_abs (idle_fcbs ft))"
    using ok by (simp_all add: refs_ok_def)
  have k: "k < 256" using fd_range[OF R(2), of fd] fd R(1) by simp
  let ?g = "\<lambda>f. f\<lparr>f_count := f_count f - 1\<rparr>"
  let ?ft = "ft\<lparr>files := (files ft)[k := ?g (files ft ! k)]\<rparr>"
  have c: "count_list fds (int j) = count_list (fds[fd := -1]) (int j) + (if j = k then 1 else 0)" for j
    using count_list_update[of fd fds "-1" "int j"] fd R(1) by (auto split: if_splits)
  have pos: "unat (f_count (files ft ! k)) > 0" using R(4)[OF k] c[of k] by simp
  then have "f_count (files ft ! k) \<noteq> 0" by auto
  then have u: "unat (f_count (files ft ! k) - 1) = unat (f_count (files ft ! k)) - 1" by (simp add: unat_minus_one)
  have cnt: "unat (f_count (files ?ft ! j)) = others j + count_list (fds[fd := -1]) (int j)" if "j < 256" for j
    using R(4)[OF that] u k R(3) c[of j] by (cases "j = k") simp_all
  have sub: "set (fds[fd := -1]) \<subseteq> {-1..<256}" using R(2) by (intro set_update_subsetI) auto
  show "refs_ok others (fds[fd := -1]) (fcbtable s')" "\<forall>j. j \<noteq> k \<longrightarrow> files (fcbtable s') ! j = files ft ! j"
  proof (atomize (full), cases "f_count (files ft ! k) - 1 > 0")
    case True
    then have "fcbtable s' = ?ft" using s by (auto simp: file_close_def get_file_def Let_def hoare_simps)
    moreover have "f_count (files ?ft ! j) = 0 \<longleftrightarrow> f_count (files ft ! j) = 0" for j
    proof (cases "j = k")
      case True
      have "f_count (files ft ! k) - 1 \<noteq> 0" using \<open>f_count (files ft ! k) - 1 > 0\<close> by (metis less_irrefl)
      then show ?thesis using True R(3) k \<open>f_count (files ft ! k) \<noteq> 0\<close> by simp
    qed simp
    then have "set (queue_abs (idle_fcbs ?ft)) = {j. j < 256 \<and> f_count (files ?ft ! j) = 0}"
      using R(5) by simp
    ultimately show "refs_ok others (fds[fd := -1]) (fcbtable s') \<and> (\<forall>j. j \<noteq> k \<longrightarrow> files (fcbtable s') ! j = files ft ! j)"
      using R cnt sub by (simp add: refs_ok_def)
  next
    case False
    then have z: "f_count (files ft ! k) - 1 = 0" by (simp add: word_less_nat_alt unat_eq_0)
    obtain w ft' where f: "fcbno_free k ?ft = Some (w, ft')" "fcbtable s' = ft'"
      using s False unfolding file_close_def get_file_def
      by (auto simp: Let_def hoare_simps ftab_frame split: if_splits prod.splits)
    have nin: "k \<notin> set (queue_abs (idle_fcbs ft))" using R(5) \<open>f_count (files ft ! k) \<noteq> 0\<close> by simp
    have "card (insert k (set (queue_abs (idle_fcbs ft)))) \<le> card {..<256::nat}" using R(5) k by (intro card_mono) auto
    then have room: "length (queue_abs (idle_fcbs ft)) < queue_cap (idle_fcbs ft)"
      using nin distinct_card[OF R(8)] R(7) by simp
    obtain q where q: "queue_push (idle_fcbs ft) k = Some q" "queue_inv q" "queue_abs q = queue_abs (idle_fcbs ft) @ [k]"
      "queue_cap q = queue_cap (idle_fcbs ft)" using rq.push_snoc[OF R(6) room] by blast
    have ft': "ft' = ?ft\<lparr>idle_fcbs := q, fcb_waiters := []\<rparr>" using f(1) q(1) by (simp add: fcbno_free_def)
    have "set (queue_abs q) = {j. j < 256 \<and> f_count (files ?ft ! j) = 0}"
      using R(3,5) k z q(3) by (auto simp: nth_list_update)
    then show "refs_ok others (fds[fd := -1]) (fcbtable s') \<and> (\<forall>j. j \<noteq> k \<longrightarrow> files (fcbtable s') ! j = files ft ! j)"
      using R cnt sub q nin unfolding f(2) ft' by (simp add: refs_ok_def)
  qed
qed

section \<open>The calls keep the counts\<close>

lemma sys_file_fd_common_free:
  "sys_file_fd_common t = Some fd \<Longrightarrow> fd < 64 \<and> fdtable t ! fd = -1"
  "sys_file_fd_common t = Some fd \<Longrightarrow> a < fd \<Longrightarrow> fdtable t ! a \<noteq> -1"
  by (auto simp: sys_file_fd_common_def find_Some_iff)

lemma counts_upd_file: "(\<And>f. f_count (g f) = f_count f) \<Longrightarrow> counts (fcbtable (upd_file k g s)) = counts (fcbtable s)"
  by (cases "k < length (files (fcbtable s))") (simp_all add: map_update list_update_same_conv list_update_beyond)

lemma open_file_table:
  assumes "open_file fd k fl ip s = Some (r, s')" "k < length (files (fcbtable s))"
  shows "counts (fcbtable s') = (counts (fcbtable s))[k := f_count (files (fcbtable s) ! k) + 1]
    \<and> idle_fcbs (fcbtable s') = idle_fcbs (fcbtable s)"
proof -
  let ?s = "upd_file k (\<lambda>f. f\<lparr>f_flags := fl, f_count := f_count f + 1, f_inode := Some ip\<rparr>) s"
  have 1: "counts (fcbtable ?s) = (counts (fcbtable s))[k := f_count (files (fcbtable s) ! k) + 1]" by (simp add: map_update)
  have "counts (fcbtable s') = counts (fcbtable ?s) \<and> idle_fcbs (fcbtable s') = idle_fcbs (fcbtable ?s)"
  proof -
    consider "fl AND O_APPEND \<noteq> 0" | "fl AND O_APPEND = 0" "fl AND O_TRUNC \<noteq> 0" | "fl AND O_APPEND = 0" "fl AND O_TRUNC = 0" by blast
    then show ?thesis
    proof cases
      case 1
      then obtain s2 i where s: "on_fs (ilock (Some ip)) ?s = Some s2" "on_fs (iunlock (Some ip)) (upd_file k (\<lambda>f. f\<lparr>f_pos := ucast (i_size i)\<rparr>) s2) = Some s'"
        using assms(1) by (auto simp: open_file_def Let_def hoare_simps)
      show ?thesis unfolding on_fs_ftab[OF s(2)] using on_fs_ftab[OF s(1)] counts_upd_file[of "\<lambda>f. f\<lparr>f_pos := ucast (i_size i)\<rparr>" k s2] by simp
    next
      case 2
      then obtain s2 n f s3 where s: "on_fs (ilock (Some ip)) ?s = Some s2" "itruncate ip 0 (kfs s2) = Some (n, f)"
          "(if n < 0 then on_fs (iunlockput (Some ip)) (s2\<lparr>kfs := f\<rparr>) = Some s' else on_fs (iunlock (Some ip)) (s2\<lparr>kfs := f\<rparr>) = Some s3 \<and> s' = upd_file k (\<lambda>f. f\<lparr>f_pos := 0\<rparr>) s3)"
        using assms(1) by (auto simp: open_file_def Let_def hoare_simps split: if_splits)
      show ?thesis
      proof (cases "n < 0")
        case True
        then show ?thesis using s(3) on_fs_ftab[OF s(1)] on_fs_ftab[of "iunlockput (Some ip)" "s2\<lparr>kfs := f\<rparr>" s'] by simp
      next
        case False
        then show ?thesis using s(3) on_fs_ftab[OF s(1)] on_fs_ftab[of "iunlock (Some ip)" "s2\<lparr>kfs := f\<rparr>" s3]
            counts_upd_file[of "\<lambda>f. f\<lparr>f_pos := 0\<rparr>" k s3] by simp
      qed
    next
      case 3
      then have "s' = upd_file k (\<lambda>f. f\<lparr>f_pos := 0\<rparr>) ?s" using assms(1) by (simp add: open_file_def Let_def)
      then show ?thesis using counts_upd_file[of "\<lambda>f. f\<lparr>f_pos := 0\<rparr>" k ?s] by simp
    qed
  qed
  then show ?thesis using 1 by simp
qed

lemma sys_open_table:
  assumes "sys_open E t s = Some (r, t', s')"
  shows "t' = t \<and> fcbtable s' = fcbtable s \<and> r < 0 \<or> (\<exists>fd path fl ip k s3 ft s4. sys_file_fd_common t = Some fd \<and> fcbtable s3 = fcbtable s \<and>
      file_alloc (t_pid t) (fcbtable s3) = Some (Some k, ft) \<and> open_file fd k fl ip (s3\<lparr>fcbtable := ft\<rparr>) = Some (r, s4) \<and>
      t' = t\<lparr>fdtable := (fdtable t)[fd := int k]\<rparr> \<and> s' = kdrop path s4)"
proof (cases "sys_file_fd_common t")
  case None
  then show ?thesis using assms by (simp add: sys_open_def)
next
  case fd: (Some fd)
  obtain path s1 p s2 where 1: "kalloc PATH_MAX s = Some (path, s1)" "fetch_path E t 0 path s1 = Some (p, s2)"
    using assms fd by (auto simp: sys_open_def hoare_simps)
  have f2: "fcbtable s2 = fcbtable s" using kalloc_ftab[OF 1(1)] fetch_path_ftab[OF 1(2)] by simp
  show ?thesis
  proof (cases p)
    case None
    then show ?thesis using assms fd 1 f2 by (intro disjI1) (auto simp: sys_open_def)
  next
    case (Some q)
    obtain a1 a2 inode s3 where 2: "(if (ucast a1 :: u32) AND O_CREAT \<noteq> 0 then sys_create E t q EXT2_FT_REGFILE (ucast (a2 :: u64) OR EXT2_S_IFREG) s2
                 else sys_namei E t q s2) = Some (inode, s3)" "arg t 1 = Some a1" "arg t 2 = Some a2"
      using assms fd 1 Some by (auto simp: sys_open_def hoare_simps Let_def)
    have f3: "fcbtable s3 = fcbtable s" using 2(1) sys_create_ftab sys_namei_ftab f2 by (metis (no_types, lifting))
    show ?thesis
    proof (cases inode)
      case None
      then show ?thesis using assms fd 1 f3 2 Some by (intro disjI1) (auto simp: sys_open_def Let_def)
    next
      case ip: (Some ip)
      obtain k ft s4 where 3: "file_alloc (t_pid t) (fcbtable s3) = Some (Some k, ft)"
          "open_file fd k (ucast a1) ip (s3\<lparr>fcbtable := ft\<rparr>) = Some (r, s4)" "t' = t\<lparr>fdtable := (fdtable t)[fd := int k]\<rparr>" "s' = kdrop path s4"
        using assms fd 1 2 Some ip by (auto simp: sys_open_def Let_def hoare_simps)
      show ?thesis by (rule disjI2) (intro exI conjI, rule fd, rule f3, rule 3(1), rule 3(2), rule 3(3), rule 3(4))
    qed
  qed
qed

lemma sys_open_refs:
  assumes "sys_open E t s = Some (r, t', s')" "refs_ok others (fdtable t) (fcbtable s)"
  shows "refs_ok others (fdtable t') (fcbtable s')"
  using sys_open_table[OF assms(1)]
proof (elim disjE exE conjE)
  fix fd path fl ip k s3 ft s4
  assume c: "sys_file_fd_common t = Some fd" "fcbtable s3 = fcbtable s"
      "file_alloc (t_pid t) (fcbtable s3) = Some (Some k, ft)"
      "open_file fd k fl ip (s3\<lparr>fcbtable := ft\<rparr>) = Some (r, s4)" "t' = t\<lparr>fdtable := (fdtable t)[fd := int k]\<rparr>" "s' = kdrop path s4"
  note a = file_alloc_ok[OF refs_ok_idle[OF assms(2)] c(3)[unfolded c(2)]]
  have len: "length (files (fcbtable s)) = 256" using assms(2) by (simp add: refs_ok_def)
  have g: "counts (fcbtable s4) = (counts (fcbtable s))[k := f_count (files (fcbtable s) ! k) + 1]" "idle_fcbs (fcbtable s4) = idle_fcbs ft"
    using open_file_table[OF c(4)] a(1,3) len by simp_all
  show ?thesis using add_ref[OF assms(2) _ _ a(1) g a(4,6)] sys_file_fd_common_free(1)[OF c(1)] c(5,6) by simp
qed (use assms in simp)

lemma do_close_refs:
  assumes "do_close fd t s = Some (r, t', s')" "refs_ok others (fdtable t) (fcbtable s)"
  shows "refs_ok others (fdtable t') (fcbtable s')"
proof -
  have R: "length (fdtable t) = 64" "set (fdtable t) \<subseteq> {-1..<256}" using assms(2) by (simp_all add: refs_ok_def)
  have c: "fd < 64" "fdtable t ! fd \<noteq> -1" "file_close (nat (fdtable t ! fd)) s = Some s'" "t' = t\<lparr>fdtable := (fdtable t)[fd := -1]\<rparr>"
    using assms(1) R(1) by (auto simp: do_close_def hoare_simps)
  have "fdtable t ! fd = int (nat (fdtable t ! fd))" using fd_range[OF R(2), of fd] c(1,2) R(1) by simp
  from drop_ref(1)[OF assms(2) c(1) this c(3) refl] show ?thesis using c(4) by simp
qed

lemma do_dupfd_result:
  assumes "do_dupfd fd ar t s = Some (r, t', s')"
  shows "t' = t \<and> s' = s \<or> (\<exists>a k m ft. ar \<le> a \<and> a < 64 \<and> fdtable t ! a = -1 \<and> (\<forall>b. ar \<le> b \<and> b < a \<longrightarrow> fdtable t ! b \<noteq> -1) \<and>
    fd < length (fdtable t) \<and> k = fdtable t ! fd \<and> file_dup k (fcbtable s) = Some (m, ft) \<and> r = int a \<and>
    t' = t\<lparr>fdtable := (fdtable t)[a := k]\<rparr> \<and> s' = s\<lparr>fcbtable := ft\<rparr>)"
proof (cases "ar \<ge> 64 \<or> find (\<lambda>a. fdtable t ! a = -1) [ar..<64] = None")
  case True
  then show ?thesis using assms by (intro disjI1) (auto simp: do_dupfd_def split: if_splits)
next
  case False
  then obtain a where a: "find (\<lambda>a. fdtable t ! a = -1) [ar..<64] = Some a" by blast
  then obtain i where i: "i < 64 - ar" "a = ar + i" "fdtable t ! (ar + i) = -1" "\<And>j. j < i \<Longrightarrow> fdtable t ! (ar + j) \<noteq> -1"
    by (auto simp: find_Some_iff)
  have "fdtable t ! b \<noteq> -1" if "ar \<le> b" "b < a" for b using i(4)[of "b - ar"] that i(2) by simp
  moreover obtain m ft where "file_dup (fdtable t ! fd) (fcbtable s) = Some (m, ft)" "fd < length (fdtable t)" "r = int a"
      "t' = t\<lparr>fdtable := (fdtable t)[a := fdtable t ! fd]\<rparr>" "s' = s\<lparr>fcbtable := ft\<rparr>"
    using assms False a by (auto simp: do_dupfd_def hoare_simps)
  ultimately show ?thesis using i(1-3) by (intro disjI2 exI[of _ a] exI[of _ "fdtable t ! fd"] exI[of _ m] exI[of _ ft]) simp
qed

lemma do_dupfd_refs:
  assumes "do_dupfd fd ar t s = Some (r, t', s')" "refs_ok others (fdtable t) (fcbtable s)"
  shows "refs_ok others (fdtable t') (fcbtable s')"
  using do_dupfd_result[OF assms(1)]
proof (elim disjE exE conjE)
  fix a k m ft
  assume c: "a < 64" "fdtable t ! a = -1" "fd < length (fdtable t)" "k = fdtable t ! fd" "file_dup k (fcbtable s) = Some (m, ft)"
    "t' = t\<lparr>fdtable := (fdtable t)[a := k]\<rparr>" "s' = s\<lparr>fcbtable := ft\<rparr>"
  have R: "length (fdtable t) = 64" "set (fdtable t) \<subseteq> {-1..<256}" "length (files (fcbtable s)) = 256"
    "set (queue_abs (idle_fcbs (fcbtable s))) = {k. k < 256 \<and> f_count (files (fcbtable s) ! k) = 0}" using assms(2) by (simp_all add: refs_ok_def)
  show ?thesis
  proof (cases "k = -1")
    case True
    have "(fdtable t)[a := -1] = fdtable t" using c(2) by (metis list_update_id)
    then show ?thesis using assms(2) c(5-7) True by (simp add: file_dup_def)
  next
    case False
    then have k: "0 \<le> k" "nat k < 256" "int (nat k) = k" using fd_range[OF R(2), of fd] c(3,4) by auto
    have d: "f_count (files (fcbtable s) ! nat k) \<ge> 1" "counts ft = (counts (fcbtable s))[nat k := f_count (files (fcbtable s) ! nat k) + 1]"
      "idle_fcbs ft = idle_fcbs (fcbtable s)"
      using c(5) k by (auto simp: file_dup_def hoare_simps map_update)
    have "f_count (files (fcbtable s) ! nat k) \<noteq> 0" using d(1) by (metis word_le_0_iff one_neq_zero)
    then have "set (queue_abs (idle_fcbs (fcbtable s))) = set (queue_abs (idle_fcbs (fcbtable s))) - {nat k}" using R(4) by auto
    from add_ref[OF assms(2) c(1,2) k(2) d(2,3) refs_ok_idle[OF assms(2)] this] show ?thesis using k(3) c(6,7) by simp
  qed
qed (use assms in simp)

lemma sys_pipe_refs:
  assumes "sys_pipe E t s = Some (r, t', s')" "r \<noteq> - EFAULT" "r \<noteq> - ENOMEM" "refs_ok others (fdtable t) (fcbtable s)"
  shows "refs_ok others (fdtable t') (fcbtable s')"
proof (cases "sys_file_fd_common t")
  case None
  then show ?thesis using assms by (simp add: sys_pipe_def)
next
  case fd1: (Some fd1)
  obtain k1 ft where a1: "file_alloc (t_pid t) (fcbtable s) = Some (Some k1, ft)"
    using assms(1) fd1 by (auto simp: sys_pipe_def hoare_simps)
  note A = file_alloc_ok[OF refs_ok_idle[OF assms(4)] a1]
  note F1 = sys_file_fd_common_free(1)[OF fd1]
  have R: "length (fdtable t) = 64" "length (files (fcbtable s)) = 256" using assms(4) by (simp_all add: refs_ok_def)
  define t1 where "t1 = t\<lparr>fdtable := (fdtable t)[fd1 := int k1]\<rparr>"
  have tp: "t_pid t1 = t_pid t" by (simp add: t1_def)
  show ?thesis
  proof (cases "sys_file_fd_common t1")
    case None
    obtain w ft1 where f: "fcbno_free k1 ft = Some (w, ft1)" "t' = t\<lparr>fdtable := (fdtable t)[fd1 := -1]\<rparr>" "fcbtable s' = ft1"
      using assms(1) fd1 a1 None[unfolded t1_def] by (auto simp: sys_pipe_def hoare_simps Let_def)
    have I: "queue_inv (idle_fcbs ft)" "queue_cap (idle_fcbs ft) = 256" "distinct (queue_abs (idle_fcbs ft))"
        "set (queue_abs (idle_fcbs ft)) \<subseteq> {..<256}" using A(4) by (auto simp: idle_ok_def)
    have nin: "k1 \<notin> set (queue_abs (idle_fcbs ft))" using A(6) by simp
    have "card (insert k1 (set (queue_abs (idle_fcbs ft)))) \<le> card {..<256::nat}" using I(4) A(1) by (intro card_mono) auto
    then have room: "length (queue_abs (idle_fcbs ft)) < queue_cap (idle_fcbs ft)"
      using nin distinct_card[OF I(3)] I(2) by simp
    obtain q where q: "queue_push (idle_fcbs ft) k1 = Some q" "queue_inv q" "queue_abs q = queue_abs (idle_fcbs ft) @ [k1]"
      "queue_cap q = queue_cap (idle_fcbs ft)" using rq.push_snoc[OF I(1) room] by blast
    have ft1: "ft1 = ft\<lparr>idle_fcbs := q, fcb_waiters := []\<rparr>" using f(1) q(1) by (simp add: fcbno_free_def)
    have "set (queue_abs q) = set (queue_abs (idle_fcbs (fcbtable s)))" using q(3) A(5,6) by auto
    moreover have "(fdtable t)[fd1 := -1] = fdtable t" using F1 by (metis list_update_id)
    ultimately show ?thesis using assms(4) q I nin A(3) f(2,3) ft1 by (simp add: refs_ok_def)
  next
    case fd2: (Some fd2)
    obtain k2 ft1 where a2: "file_alloc (t_pid t) ft = Some (Some k2, ft1)"
      using assms(1) fd1 a1 fd2[unfolded t1_def] by (auto simp: sys_pipe_def hoare_simps Let_def)
    note B = file_alloc_ok[OF A(4) a2]
    note F2 = sys_file_fd_common_free(1)[OF fd2]
    define t2 where "t2 = t1\<lparr>fdtable := (fdtable t1)[fd2 := int k2]\<rparr>"
    obtain pipefd n v where 3: "arg t 0 = Some pipefd"
        "verify_area (env_rd E) (t_mm t) pipefd 8 (PTE_R OR PTE_W OR PTE_U) (kvm s) = Some (n, v)" "\<not> n < 0"
      using assms(1-3) fd1 a1 fd2[unfolded t1_def] a2 by (auto simp: sys_pipe_def hoare_simps Let_def tp split: if_splits)
    define s2 where "s2 = s\<lparr>fcbtable := ft1, kvm := v\<rparr>"
    obtain ip s3 where 4: "pipealloc s2 = Some (Some ip, s3)"
      using assms(1-3) fd1 a1 fd2[unfolded t1_def] a2 3 by (auto simp: s2_def sys_pipe_def hoare_simps Let_def tp split: option.splits)
    have f3: "fcbtable s3 = ft1" using pipealloc_ftab[OF 4] by (simp add: s2_def)
    let ?u = "upd_file k1 (\<lambda>f. f\<lparr>f_flags := O_RDONLY, f_count := f_count f + 1, f_inode := Some ip\<rparr>) s3"
    obtain d fs1 v2 where 5: "t' = t2" "s' = (upd_file k2 (\<lambda>f. f\<lparr>f_flags := O_WRONLY, f_count := f_count f + 1, f_inode := Some ip\<rparr>) (?u\<lparr>kfs := fs1\<rparr>))\<lparr>kvm := v2\<rparr>"
      using assms(1) fd1 a1 fd2[unfolded t1_def] a2 3 4[unfolded s2_def] by (auto simp: t1_def t2_def sys_pipe_def hoare_simps Let_def)
    have k: "k1 \<noteq> k2" using A(6) B(5) by auto
    let ?fu = "ft1\<lparr>files := files (fcbtable ?u), idle_fcbs := idle_fcbs ft\<rparr>"
    have "refs_ok others ((fdtable t)[fd1 := int k1]) ?fu"
      by (rule add_ref[OF assms(4) _ _ A(1) _ _ A(4,6)]) (use F1 A(3) B(3) f3 in \<open>simp_all add: map_update\<close>)
    then have "refs_ok others (((fdtable t)[fd1 := int k1])[fd2 := int k2]) (fcbtable s')"
      by (rule add_ref[where ft = ?fu and fa = ft1, OF _ _ _ B(1) _ _ B(4)])
        (use F2 B(3,6) f3 5(2) in \<open>simp_all add: t1_def map_update\<close>)
    then have "refs_ok others ((fdtable t1)[fd2 := int k2]) (fcbtable s')" by (simp add: t1_def)
    then show ?thesis by (simp add: 5(1) t2_def)
  qed
qed

text \<open>The calls that change descriptors or positions.\<close>

inductive file_call :: "env \<Rightarrow> task \<Rightarrow> io \<Rightarrow> int \<Rightarrow> task \<Rightarrow> io \<Rightarrow> bool" for E t s where
  call_open: "sys_open E t s = Some (r, t', s') \<Longrightarrow> file_call E t s r t' s'"
| call_close: "sys_close t s = Some (r, t', s') \<Longrightarrow> file_call E t s r t' s'"
| call_dup: "sys_dup t s = Some (r, t', s') \<Longrightarrow> file_call E t s r t' s'"
| call_dup2: "sys_dup2 t s = Some (r, t', s') \<Longrightarrow> file_call E t s r t' s'"
| call_pipe: "sys_pipe E t s = Some (r, t', s') \<Longrightarrow> r \<noteq> - EFAULT \<Longrightarrow> r \<noteq> - ENOMEM \<Longrightarrow> file_call E t s r t' s'"

lemma file_call_refs:
  "file_call E t s r t' s' \<Longrightarrow> refs_ok others (fdtable t) (fcbtable s) \<Longrightarrow> refs_ok others (fdtable t') (fcbtable s')"
proof (induction rule: file_call.induct)
  case (call_close r t' s')
  then show ?case by (auto simp: sys_close_def hoare_simps split: option.splits dest: do_close_refs)
next
  case (call_dup r t' s')
  then show ?case by (auto simp: sys_dup_def hoare_simps Let_def split: if_splits dest: do_dupfd_refs)
next
  case (call_dup2 r t' s')
  then obtain a0 a1 where a: "arg t 0 = Some a0" "arg t 1 = Some a1" by (auto simp: sys_dup2_def hoare_simps)
  consider "t' = t" "s' = s" | t1 s1 where "refs_ok others (fdtable t1) (fcbtable s1)"
      "do_dupfd (unat a0 mod 2 ^ 32) (unat a1 mod 2 ^ 32) t1 s1 = Some (r, t', s')"
    using call_dup2 a do_close_refs[OF _ call_dup2(2)] by (fastforce simp: sys_dup2_def hoare_simps Let_def split: if_splits)
  then show ?case using call_dup2(2) do_dupfd_refs by cases metis+
qed (blast intro: sys_open_refs sys_pipe_refs)+

section \<open>A process is forked, a process ends\<close>

lemma file_dup_other:
  assumes "refs_ok others fds ft" "file_dup m ft = Some (r, ft')" "-1 \<le> m" "m < 256" "\<And>j. others j + 1 < 2 ^ 31"
  shows "refs_ok (\<lambda>j. others j + (if int j = m then 1 else 0)) fds ft'"
proof (cases "m < 0")
  case True
  then have "int j \<noteq> m" for j by simp
  then show ?thesis using assms(1,2) True by (simp add: file_dup_def)
next
  case False
  let ?k = "nat m"
  have R: "length fds = 64" "set fds \<subseteq> {-1..<256}" "length (files ft) = 256"
    "\<And>j. j < 256 \<Longrightarrow> unat (f_count (files ft ! j)) = others j + count_list fds (int j)"
    "set (queue_abs (idle_fcbs ft)) = {k. k < 256 \<and> f_count (files ft ! k) = 0}"
    "queue_inv (idle_fcbs ft)" "queue_cap (idle_fcbs ft) = 256" "distinct (queue_abs (idle_fcbs ft))"
    using assms(1) by (simp_all add: refs_ok_def)
  have k: "?k < 256" using False assms(4) by simp
  have d: "f_count (files ft ! ?k) \<ge> 1" "ft' = ft\<lparr>files := (files ft)[?k := (files ft ! ?k)\<lparr>f_count := f_count (files ft ! ?k) + 1\<rparr>]\<rparr>"
    using assms(2) False by (auto simp: file_dup_def hoare_simps)
  have cb: "count_list fds m \<le> 64" using count_le_length[of fds m] R(1) by simp
  have nz: "f_count (files ft ! ?k) \<noteq> 0" using d(1) by (metis word_le_0_iff one_neq_zero)
  have u: "unat (f_count (files ft ! ?k) + 1) = unat (f_count (files ft ! ?k)) + 1"
    using R(4)[OF k] cb assms(5)[of ?k] False by (simp add: unat_word_ariths)
  have c: "unat (f_count (files ft' ! j)) = others j + (if int j = m then 1 else 0) + count_list fds (int j)" if "j < 256" for j
    using R(3,4) that u False d(2) k by (cases "j = ?k") auto
  have "f_count (files ft' ! j) = 0 \<longleftrightarrow> f_count (files ft ! j) = 0" for j
  proof (cases "j = ?k")
    case True
    have "f_count (files ft ! ?k) + 1 \<noteq> 0" using u by (metis add_is_0 one_neq_zero unat_0)
    then show ?thesis using True R(3) k d(2) nz by simp
  qed (simp add: d(2))
  moreover have "others j < 2 ^ 31" for j using assms(5)[of j] by simp
  ultimately show ?thesis using R c assms(5) d(2) by (auto simp: refs_ok_def)
qed

lemma fork_files_refs:
  assumes "fork_files par kid s = Some (kid', s')" "refs_ok others (fdtable par) (fcbtable s)" "\<And>j. others j < 2 ^ 30"
  shows "refs_ok (\<lambda>k. others k + count_list (fdtable par) (int k)) (fdtable kid') (fcbtable s')"
proof -
  let ?f = "\<lambda>i ft. map_option snd (file_dup (fdtable par ! i) ft)"
  have R: "length (fdtable par) = 64" "set (fdtable par) \<subseteq> {-1..<256}" using assms(2) by (simp_all add: refs_ok_def)
  have step: "n \<le> 64 \<Longrightarrow> for_each ?f [0..<n] (fcbtable s) = Some ft \<Longrightarrow>
      refs_ok (\<lambda>k. others k + count_list (take n (fdtable par)) (int k)) (fdtable par) ft" for n ft
  proof (induction n arbitrary: ft)
    case 0
    then show ?case using assms(2) by simp
  next
    case (Suc n)
    then obtain f1 r where f: "for_each ?f [0..<n] (fcbtable s) = Some f1" "file_dup (fdtable par ! n) f1 = Some (r, ft)"
      by (auto simp: for_each_append split: option.splits)
    have m: "-1 \<le> fdtable par ! n" "fdtable par ! n < 256" using subsetD[OF R(2) nth_mem[of n "fdtable par"]] R(1) Suc.prems(1) by simp_all
    have b: "others j + count_list (take n (fdtable par)) (int j) + 1 < 2 ^ 31" for j
      using assms(3)[of j] count_le_length[of "take n (fdtable par)" "int j"] R(1) by simp
    have t: "take (Suc n) (fdtable par) = take n (fdtable par) @ [fdtable par ! n]" using Suc.prems(1) R(1) by (simp add: take_Suc_conv_app_nth)
    show ?case using file_dup_other[OF Suc.IH[OF _ f(1)] f(2) m b] Suc.prems(1) unfolding t by (simp add: add.assoc eq_commute[of "int _"] if_distrib cong: if_cong)
  qed
  obtain ft ip fs1 p s2 m where f: "for_each ?f [0..<64] (fcbtable s) = Some ft" "kalloc 1024 (s\<lparr>fcbtable := ft, kfs := fs1\<rparr>) = Some (p, s2)"
    "kid' = kid\<lparr>fdtable := fdtable par, icwd := ip, cwd := p\<rparr>" "s' = s2\<lparr>kvm := (kvm s2)\<lparr>bytes := m\<rparr>\<rparr>"
    using assms(1) by (auto simp: fork_files_def hoare_simps Let_def)
  show ?thesis using step[OF _ f(1)] R(1) kalloc_ftab[OF f(2)] f(3,4) by simp
qed

lemma close_files_refs:
  assumes "close_files t s = Some s'" "refs_ok others (fdtable t) (fcbtable s)"
  shows "refs_ok others (replicate 64 (-1)) (fcbtable s')"
proof -
  let ?f = "\<lambda>fd s. if fdtable t ! fd \<noteq> -1 then file_close (nat (fdtable t ! fd)) s else Some s"
  have R: "length (fdtable t) = 64" "set (fdtable t) \<subseteq> {-1..<256}" using assms(2) by (simp_all add: refs_ok_def)
  have step: "n \<le> 64 \<Longrightarrow> for_each ?f [0..<n] s = Some u \<Longrightarrow> refs_ok others (replicate n (-1) @ drop n (fdtable t)) (fcbtable u)" for n u
  proof (induction n arbitrary: u)
    case 0
    then show ?case using assms(2) by simp
  next
    case (Suc n)
    then obtain v where v: "for_each ?f [0..<n] s = Some v" "?f n v = Some u" by (auto simp: for_each_append split: option.splits)
    have ih: "refs_ok others (replicate n (-1) @ drop n (fdtable t)) (fcbtable v)" using Suc v(1) by simp
    have d: "drop n (fdtable t) = fdtable t ! n # drop (Suc n) (fdtable t)" using Suc.prems(1) R(1) by (simp add: Cons_nth_drop_Suc)
    have l: "replicate (Suc n) (-1) @ drop (Suc n) (fdtable t) = (replicate n (-1) @ drop n (fdtable t))[n := -1]"
      unfolding d by (simp add: list_update_append replicate_append_same flip: replicate_Suc)
    show ?case
    proof (cases "fdtable t ! n = -1")
      case True
      have "(replicate n (-1) @ drop n (fdtable t))[n := -1] = replicate n (-1) @ drop n (fdtable t)"
        unfolding d True by (simp add: list_update_append)
      then show ?thesis using ih v(2) True unfolding l by simp
    next
      case False
      have k: "fdtable t ! n = int (nat (fdtable t ! n))" using fd_range[OF R(2), of n] Suc.prems(1) R(1) False by simp
      have "(replicate n (-1) @ drop n (fdtable t)) ! n = int (nat (fdtable t ! n))" using k unfolding d by (simp add: nth_append)
      from drop_ref(1)[OF ih _ this _ refl] show ?thesis using v(2) False Suc.prems(1) unfolding l by simp
    qed
  qed
  obtain s1 s2 where f: "for_each ?f [0..<64] s = Some s1" "on_fs (iput (icwd t)) s1 = Some s2" "s' = kdrop (cwd t) s2"
    using assms(1) by (auto simp: close_files_def hoare_simps)
  show ?thesis using step[OF _ f(1)] R(1) on_fs_ftab[OF f(2)] f(3) by simp
qed

section \<open>A pipe that fails\<close>

lemma file_close_files:
  assumes "file_close k s = Some s'"
  shows "f_count (files (fcbtable s) ! k) \<noteq> 0" "j \<noteq> k \<Longrightarrow> files (fcbtable s') ! j = files (fcbtable s) ! j"
proof -
  let ?ft = "(fcbtable s)\<lparr>files := (files (fcbtable s))[k := (files (fcbtable s) ! k)\<lparr>f_count := f_count (files (fcbtable s) ! k) - 1\<rparr>]\<rparr>"
  have "files (fcbtable s') = files ?ft"
  proof (cases "f_count (files (fcbtable s) ! k) - 1 > 0")
    case True
    then show ?thesis using assms by (auto simp: file_close_def get_file_def Let_def hoare_simps)
  next
    case False
    obtain w ft' where f: "fcbno_free k ?ft = Some (w, ft')" "fcbtable s' = ft'"
      using assms False unfolding file_close_def get_file_def
      by (auto simp: Let_def hoare_simps ftab_frame split: if_splits prod.splits)
    have "files ft' = files ?ft" using f(1) by (auto simp: fcbno_free_def hoare_simps)
    then show ?thesis using f(2) by simp
  qed
  then show "j \<noteq> k \<Longrightarrow> files (fcbtable s') ! j = files (fcbtable s) ! j" by simp
  have "f_count (files (fcbtable s) ! k) \<ge> 1" using assms unfolding file_close_def get_file_def by (simp only: hoare_simps nth_opt_eq_Some) blast
  then show "f_count (files (fcbtable s) ! k) \<noteq> 0" by (metis word_le_0_iff one_neq_zero)
qed

lemma file_close_idle: "f_count (files (fcbtable s) ! k) = 0 \<Longrightarrow> file_close k s = None"
  using file_close_files(1)[of k s] by (cases "file_close k s") blast+

lemma do_close_idle: "fdtable t ! fd = int k \<Longrightarrow> f_count (files (fcbtable s) ! k) = 0 \<Longrightarrow> do_close fd t s = None"
  using file_close_idle[of s k] by (cases "do_close fd t s") (auto simp: do_close_def hoare_simps)

lemma for_each_halts:
  assumes "x \<in> set xs" "P s" "\<And>y s s'. P s \<Longrightarrow> f y s = Some s' \<Longrightarrow> P s'" "\<And>s. P s \<Longrightarrow> f x s = None"
  shows "for_each f xs s = None"
  using assms(1,2)
proof (induction xs arbitrary: s)
  case (Cons y ys)
  show ?case
  proof (cases "f y s")
    case (Some s')
    then have "y \<noteq> x" using assms(4)[OF Cons.prems(2)] by auto
    then show ?thesis using Cons Some assms(3)[OF Cons.prems(2) Some] by simp
  qed simp
qed simp

lemma close_files_halts:
  assumes "fd < 64" "fdtable t ! fd = int k" "f_count (files (fcbtable s) ! k) = 0"
  shows "close_files t s = None"
proof -
  let ?f = "\<lambda>fd s. if fdtable t ! fd \<noteq> -1 then file_close (nat (fdtable t ! fd)) s else Some s"
  have "for_each ?f [0..<64] s = None"
  proof (rule for_each_halts[where x = fd and P = "\<lambda>s. f_count (files (fcbtable s) ! k) = 0"])
    fix y s s'
    assume z: "f_count (files (fcbtable s) ! k) = 0" and y: "?f y s = Some s'"
    show "f_count (files (fcbtable s') ! k) = 0"
    proof (cases "fdtable t ! y = -1")
      case False
      then have c: "file_close (nat (fdtable t ! y)) s = Some s'" using y by simp
      then have "k \<noteq> nat (fdtable t ! y)" using file_close_files(1)[OF c] z by metis
      then show ?thesis using file_close_files(2)[OF c, of k] z by simp
    qed (use y z in simp)
  next
    show "?f fd s = None" if "f_count (files (fcbtable s) ! k) = 0" for s using file_close_idle[OF that] assms(2) by simp
  qed (use assms in simp_all)
  then show ?thesis by (simp add: close_files_def)
qed

lemma file_alloc_takes:
  assumes "idle_ok ft" "queue_abs (idle_fcbs ft) = k # ks" "length (files ft) = 256"
  obtains ft' where "file_alloc me ft = Some (Some k, ft')" "files ft' = files ft" "idle_ok ft'" "queue_abs (idle_fcbs ft') = ks"
proof -
  have q: "queue_inv (idle_fcbs ft)" "distinct (queue_abs (idle_fcbs ft))" "queue_cap (idle_fcbs ft) = 256"
    "set (queue_abs (idle_fcbs ft)) \<subseteq> {k. k < 256 \<and> f_count (files ft ! k) = 0}" using assms(1) by (simp_all add: idle_ok_def)
  have ne: "queue_abs (idle_fcbs ft) \<noteq> []" using assms(2) by simp
  obtain x q' where x: "queue_front (idle_fcbs ft) = Some x" "queue_front_pop (idle_fcbs ft) = Some q'" "queue_inv q'" "queue_cap q' = queue_cap (idle_fcbs ft)"
    "queue_abs (idle_fcbs ft) = x # queue_abs q'" "x \<notin> set (queue_abs q')" "distinct (queue_abs q')"
    using rq.pool_alloc[OF q(1,2) ne] by metis
  have e: "x = k" "queue_abs q' = ks" using x(5) assms(2) by simp_all
  have k: "k < 256" "f_count (files ft ! k) = 0" using q(4) assms(2) by auto
  have "file_alloc me ft = Some (Some k, ft\<lparr>idle_fcbs := q'\<rparr>)"
    using x(1,2) e rq.empty_iff[OF q(1)] ne k assms(3) by (simp add: file_alloc_def)
  then show ?thesis using that[of "ft\<lparr>idle_fcbs := q'\<rparr>"] x(3,4,7) q(3,4) assms(2) e by (auto simp: idle_ok_def)
qed

lemma sys_file_fd_commonI:
  "fd < 64 \<Longrightarrow> fdtable t ! fd = -1 \<Longrightarrow> (\<And>a. a < fd \<Longrightarrow> fdtable t ! a \<noteq> -1) \<Longrightarrow> sys_file_fd_common t = Some fd"
  by (auto simp: sys_file_fd_common_def find_Some_iff intro!: exI[of _ fd])

section \<open>The table after boot\<close>

lemma push_all_idle:
  assumes "queue_inv q" "queue_cap q = 256" "queue_abs q = []"
  shows "n \<le> 256 \<Longrightarrow> \<exists>q'. for_each (\<lambda>i q. queue_push q i) [0..<n] q = Some q' \<and> queue_inv q' \<and> queue_cap q' = 256 \<and> queue_abs q' = [0..<n]"
proof (induction n)
  case 0
  then show ?case using assms by simp
next
  case (Suc n)
  then obtain q' where q': "for_each (\<lambda>i q. queue_push q i) [0..<n] q = Some q'" "queue_inv q'" "queue_cap q' = 256" "queue_abs q' = [0..<n]" by auto
  have "length (queue_abs q') < queue_cap q'" unfolding q'(3,4) using Suc.prems by simp
  from rq.push_snoc[OF q'(2) this, of n] show ?case using q' by (auto simp: for_each_append)
qed

lemma sys_ftable_init_ok:
  assumes "length (files t) = 256" "length arr = 256"
  shows "\<exists>t'. sys_ftable_init arr t = Some t' \<and> refs_ok (\<lambda>_. 0) (replicate 64 (-1)) t' \<and> queue_abs (idle_fcbs t') = [0..<256] \<and>
    files t' = map (\<lambda>f. f\<lparr>f_count := 0\<rparr>) (files t)"
proof -
  let ?q = "\<lparr>queue_size = 0, queue_capacity = 256, queue_head = 0, queue_tail = -1, queue_array = arr\<rparr>"
  have "queue_inv ?q" "queue_cap ?q = 256" "queue_abs ?q = []" using assms(2) by (simp_all add: queue_inv_def queue_cap_def queue_abs_def)
  from push_all_idle[OF this, of 256] obtain q where q: "for_each (\<lambda>i q. queue_push q i) [0..<256] ?q = Some q" "queue_inv q"
    "queue_cap q = 256" "queue_abs q = [0..<256]" by auto
  have i: "queue_init 256 arr = Some ?q" by (simp add: queue_init_def)
  have e: "sys_ftable_init arr t = Some (t\<lparr>fcb_waiters := [], files := map (\<lambda>f. f\<lparr>f_count := 0\<rparr>) (files t), idle_fcbs := q\<rparr>)"
    by (simp add: sys_ftable_init_def i q(1))
  have c: "count_list (replicate n (-1 :: int)) (int k) = 0" for n k by (induction n) auto
  have "set (replicate 64 (-1 :: int)) \<subseteq> {-1..<256}" by (simp add: set_replicate_conv_if del: replicate.simps)
  then show ?thesis using e q assms(1) c by (simp add: refs_ok_def Collect_conv_if del: replicate.simps) auto
qed

section \<open>Properties\<close>

text \<open>\<open>dup\<close> gives the least free descriptor, which then names the same entry.\<close>

lemma sys_dup_returns:
  assumes "refs_ok others (fdtable t) (fcbtable s)" "arg t 0 = Some a" "unat a mod 2 ^ 32 < 64" "fdtable t ! (unat a mod 2 ^ 32) = int k"
    "new < 64" "fdtable t ! new = -1" "\<And>b. b < new \<Longrightarrow> fdtable t ! b \<noteq> -1"
  shows "sys_dup t s = Some (int new, t\<lparr>fdtable := (fdtable t)[new := int k]\<rparr>, upd_file k (\<lambda>f. f\<lparr>f_count := f_count f + 1\<rparr>) s)"
proof -
  have R: "length (fdtable t) = 64" "set (fdtable t) \<subseteq> {-1..<256}" "length (files (fcbtable s)) = 256"
    "\<And>j. j < 256 \<Longrightarrow> unat (f_count (files (fcbtable s) ! j)) = others j + count_list (fdtable t) (int j)"
    using assms(1) by (simp_all add: refs_ok_def)
  have k: "k < 256" using fd_range[OF R(2), of "unat a mod 2 ^ 32"] assms(3,4) R(1) by simp
  have "int k \<in> set (fdtable t)" using assms(3,4) R(1) by (metis nth_mem)
  then have "0 < unat (f_count (files (fcbtable s) ! k))" using R(4)[OF k] count_list_pos[of "fdtable t" "int k"] by simp
  then have c: "1 \<le> f_count (files (fcbtable s) ! k)" by (simp add: word_le_nat_alt)
  have "sys_file_fd_common t = Some new" by (rule sys_file_fd_commonI[OF assms(5-7)])
  then have "find (\<lambda>a. fdtable t ! a = -1) [0..<64] = Some new" by (simp add: sys_file_fd_common_def)
  then show ?thesis
    using assms(2-4) R(1,3) k c by (simp add: sys_dup_def do_dupfd_def Let_def file_dup_def upd_file_def)
qed

lemma sys_pipe_bad_address:
  assumes ok: "refs_ok others (fdtable t) (fcbtable s)" and idle: "queue_abs (idle_fcbs (fcbtable s)) = k1 # k2 # ks"
    and fds: "fd1 < fd2" "fd2 < 64" "\<And>fd. fd < fd2 \<Longrightarrow> fdtable t ! fd = -1 \<longleftrightarrow> fd = fd1" "fdtable t ! fd2 = -1"
    and a: "arg t 0 = Some p" "verify_area (env_rd E) (t_mm t) p 8 (PTE_R OR PTE_W OR PTE_U) (kvm s) = Some (r, v)" "r < 0"
  shows "\<exists>ft. sys_pipe E t s = Some (- EFAULT, t\<lparr>fdtable := (fdtable t)[fd1 := int k1, fd2 := int k2]\<rparr>, s\<lparr>fcbtable := ft, kvm := v\<rparr>) \<and>
    files ft = files (fcbtable s) \<and> queue_abs (idle_fcbs ft) = ks"
proof -
  have len: "length (files (fcbtable s)) = 256" "length (fdtable t) = 64" using ok by (simp_all add: refs_ok_def)
  obtain f1 where f1: "file_alloc (t_pid t) (fcbtable s) = Some (Some k1, f1)" "files f1 = files (fcbtable s)" "idle_ok f1" "queue_abs (idle_fcbs f1) = k2 # ks"
    using file_alloc_takes[OF refs_ok_idle[OF ok] idle len(1), of "t_pid t"] by blast
  obtain f2 where f2: "file_alloc (t_pid t) f1 = Some (Some k2, f2)" "files f2 = files f1" "queue_abs (idle_fcbs f2) = ks"
    using file_alloc_takes[OF f1(3,4), of "t_pid t"] f1(2) len(1) by auto
  have c1: "sys_file_fd_common t = Some fd1" by (rule sys_file_fd_commonI) (use fds in auto)
  have c2: "sys_file_fd_common (t\<lparr>fdtable := (fdtable t)[fd1 := int k1]\<rparr>) = Some fd2"
  proof (rule sys_file_fd_commonI)
    show "fdtable (t\<lparr>fdtable := (fdtable t)[fd1 := int k1]\<rparr>) ! x \<noteq> -1" if "x < fd2" for x
      using that fds(1-3) len(2) by (cases "x = fd1") auto
  qed (use fds in auto)
  show ?thesis using c1 c2 f1(1,2) f2 a by (intro exI[of _ f2]) (simp add: sys_pipe_def Let_def)
qed

text \<open>C9. A well-formed table of open files: every descriptor of the process is free or names an entry, the count of each entry is the
  number of descriptors, of this process and the others, that name it, and the idle entries are exactly those with count 0. \<open>open\<close>,
  \<open>close\<close>, \<open>dup\<close>, \<open>dup2\<close> and \<open>pipe\<close> keep the table well-formed, on every path on which they return, except a \<open>pipe\<close> that fails for its address or
  for memory.\<close>

theorem file_calls_keep_table:
  assumes "file_call E t s r t' s'" "refs_ok others (fdtable t) (fcbtable s)"
  shows "refs_ok others (fdtable t') (fcbtable s')"
  using file_call_refs[OF assms] .

text \<open>C10. After \<open>fork\<close> the descriptors of the parent count a second time, for the child, which has the same descriptors; when a process ends, all its
  references go away and the table is well-formed for the others.\<close>

theorem fork_and_exit_keep_table:
  assumes "refs_ok others (fdtable par) (fcbtable s)" "\<And>j. others j < 2 ^ 30"
  shows "(\<forall>kid kid' s'. fork_files par kid s = Some (kid', s') \<longrightarrow> fdtable kid' = fdtable par \<and>
      refs_ok (\<lambda>k. others k + count_list (fdtable par) (int k)) (fdtable kid') (fcbtable s')) \<and>
    (\<forall>s'. close_files par s = Some s' \<longrightarrow> refs_ok others (replicate 64 (-1)) (fcbtable s'))"
proof (intro conjI allI impI)
  fix kid kid' s'
  assume f: "fork_files par kid s = Some (kid', s')"
  show "fdtable kid' = fdtable par" using f by (auto simp: fork_files_def hoare_simps Let_def)
  show "refs_ok (\<lambda>k. others k + count_list (fdtable par) (int k)) (fdtable kid') (fcbtable s')" by (rule fork_files_refs[OF f assms])
qed (rule close_files_refs[OF _ assms(1)])

text \<open>C39. A \<open>pipe\<close> that gets an address the process cannot write returns \<open>-EFAULT\<close>, but the two descriptors stay, on
  entries with count 0. The process cannot close them, and when it ends the kernel halts: both fail the assertion of \<open>file_close\<close>.\<close>

theorem failed_pipe_halts_at_exit:
  assumes "refs_ok others (fdtable t) (fcbtable s)" "queue_abs (idle_fcbs (fcbtable s)) = k1 # k2 # ks"
    "fd1 < fd2" "fd2 < 64" "\<And>fd. fd < fd2 \<Longrightarrow> fdtable t ! fd = -1 \<longleftrightarrow> fd = fd1" "fdtable t ! fd2 = -1"
    "arg t 0 = Some p" "verify_area (env_rd E) (t_mm t) p 8 (PTE_R OR PTE_W OR PTE_U) (kvm s) = Some (r, v)" "r < 0"
  shows "\<exists>t' s'. sys_pipe E t s = Some (- EFAULT, t', s') \<and> fdtable t' ! fd1 = int k1 \<and> fdtable t' ! fd2 = int k2 \<and>
    do_close fd1 t' s' = None \<and> do_close fd2 t' s' = None \<and> close_files t' s' = None"
proof -
  obtain ft where f: "sys_pipe E t s = Some (- EFAULT, t\<lparr>fdtable := (fdtable t)[fd1 := int k1, fd2 := int k2]\<rparr>, s\<lparr>fcbtable := ft, kvm := v\<rparr>)"
    "files ft = files (fcbtable s)" using sys_pipe_bad_address[OF assms] by blast
  let ?t = "t\<lparr>fdtable := (fdtable t)[fd1 := int k1, fd2 := int k2]\<rparr>" and ?u = "s\<lparr>fcbtable := ft, kvm := v\<rparr>"
  have len: "length (fdtable t) = 64" using assms(1) by (simp add: refs_ok_def)
  have "set (queue_abs (idle_fcbs (fcbtable s))) = {k. k < 256 \<and> f_count (files (fcbtable s) ! k) = 0}" using assms(1) by (simp add: refs_ok_def)
  then have z: "f_count (files (fcbtable ?u) ! k1) = 0" "f_count (files (fcbtable ?u) ! k2) = 0" using assms(2) f(2) by auto
  have fd: "fdtable ?t ! fd1 = int k1" "fdtable ?t ! fd2 = int k2" using assms(3,4) len by simp_all
  show ?thesis
    using f(1) fd close_files_halts[OF assms(4) fd(2) z(2)]
      do_close_idle[OF fd(1) z(1)] do_close_idle[OF fd(2) z(2)] by (intro exI[of _ ?t] exI[of _ ?u]) simp
qed

text \<open>C40. \<open>iget\<close> leaves the contents of a recycled entry of the inode table as they are until \<open>ilock\<close> reads the inode, but \<open>file_read\<close> asks for the
  mode before \<open>ilock\<close>. So a file whose entry was a closed pipe is taken for that pipe, and the first read of it
  finds its end, whatever the file holds.\<close>

theorem first_read_takes_stale_pipe:
  assumes "iget dev ino False (kfs s) = Some (ip, f1)" "S_ISFIFO (i_mode (m_inodes (kfs s) ! ip))"
    "queue_empty (pipe (pipe_node s ip))" "\<not> writeopen (pipe_node s ip)"
    "get_file k s = Some f" "f_inode f = Some ip" "READABLE (f_flags f)"
    "verify_area (env_rd E) (t_mm t) uaddr cnt (PTE_R OR PTE_W OR PTE_U) (kvm s) = Some (0, v)"
  shows "\<exists>s'. file_read E t k uaddr cnt (s\<lparr>kfs := f1\<rparr>) = Some (Done 0, s') \<and> kfs s' = f1"
proof -
  obtain i where i: "get_ino ip f1 = Some i" "i_mode i = i_mode (m_inodes (kfs s) ! ip)"
    using assms(1) by (auto simp: iget_def upd_ino_def get_ino_def hoare_simps i_mode_def split: sum.splits)
  have l: "piperead_loop out n 0 m (pipe_node s ip) = Some (0, m, pipe_node s ip)" for out n and m :: vm
    using assms(3) by (subst piperead_loop.simps) simp
  show ?thesis using assms(2-8) i l by (simp add: file_read_def get_file_def piperead_def Let_def)
qed

section \<open>Witnesses\<close>

definition env0 :: env where
  "env0 = \<lparr>env_rd = (\<lambda>_ _ _. Some []), env_stk = ([], []), env_kbuf = 0, env_junk = 0, env_tok = 0\<rparr>"

definition task0 :: "int list \<Rightarrow> u64 list \<Rightarrow> task" where
  "task0 fds args = \<lparr>t_pid = 1, t_killed = False, t_mm = one_area_mm 0, fdtable = fds, cwd = 0, icwd = None, t_args = args\<rparr>"

definition io0 :: "fcbtable_t \<Rightarrow> fs \<Rightarrow> io" where
  "io0 ft f = \<lparr>fcbtable = ft, kfs = f, pipe_node = (\<lambda>_. empty_pipe\<lparr>readopen := False, writeopen := False\<rparr>), pipe_page = (\<lambda>_. 0), kvm = boot_vm,
     console_tty = terminal0, devices = [], kheap = boot_slub, woken = []\<rparr>"

text \<open>After boot, and when the process has opened its first file.\<close>

lemma first_file:
  obtains ft where "refs_ok (\<lambda>_. 0) (replicate 64 (-1)) ft" "queue_abs (idle_fcbs ft) = [0..<256]"
proof -
  obtain t' where "refs_ok (\<lambda>_. 0) (replicate 64 (-1)) t'" "queue_abs (idle_fcbs t') = [0..<256]"
    using sys_ftable_init_ok[of "\<lparr>files = replicate 256 \<lparr>f_count = 5, f_flags = 0, f_pos = 0, f_inode = None\<rparr>,
      idle_fcbs = \<lparr>queue_size = 0, queue_capacity = 0, queue_head = 0, queue_tail = 0, queue_array = []\<rparr>, fcb_waiters = []\<rparr>" "replicate 256 0"]
    by auto
  then show ?thesis using that by blast
qed

lemma one_file:
  obtains ft where "refs_ok (\<lambda>_. 0) ((replicate 64 (-1))[0 := 0]) ft" "f_inode (files ft ! 0) = Some 0"
proof -
  obtain ft where r: "refs_ok (\<lambda>_. 0) (replicate 64 (-1)) ft" "queue_abs (idle_fcbs ft) = [0..<256]" by (rule first_file)
  have len: "length (files ft) = 256" using r(1) by (simp add: refs_ok_def)
  have q: "queue_abs (idle_fcbs ft) = 0 # [1..<256]" using r(2) by (simp add: upt_conv_Cons)
  obtain ft' where a: "file_alloc 1 ft = Some (Some 0, ft')" "files ft' = files ft" "idle_ok ft'" "queue_abs (idle_fcbs ft') = [1..<256]"
    by (rule file_alloc_takes[OF refs_ok_idle[OF r(1)] q len])
  let ?g = "(files ft ! 0)\<lparr>f_count := f_count (files ft ! 0) + 1, f_inode := Some 0\<rparr>"
  let ?ft = "ft'\<lparr>files := (files ft)[0 := ?g]\<rparr>"
  have s: "set (queue_abs (idle_fcbs ft')) = set (queue_abs (idle_fcbs ft)) - {0}" unfolding a(4) q by auto
  have "refs_ok (\<lambda>_. 0) ((replicate 64 (-1))[0 := int 0]) ?ft"
    by (rule add_ref[OF r(1) _ _ _ _ _ a(3) s]) (simp_all add: map_update del: replicate.simps)
  then show ?thesis using that[of ?ft] len by simp
qed

lemma file_calls_keep_table_witness:
  "\<exists>ft s' t'. file_call env0 (task0 ((replicate 64 (-1))[0 := 0]) [0]) (io0 ft file_fs) 1 t' s' \<and> fdtable t' ! 1 = 0 \<and> fdtable t' ! 2 = -1 \<and>
     refs_ok (\<lambda>_. 0) (fdtable t') (fcbtable s')"
proof -
  obtain ft where r: "refs_ok (\<lambda>_. 0) ((replicate 64 (-1))[0 := 0]) ft" by (rule one_file)
  let ?t = "task0 ((replicate 64 (-1))[0 := 0]) [0]" and ?u = "io0 ft file_fs"
  have r': "refs_ok (\<lambda>_. 0) (fdtable ?t) (fcbtable ?u)" using r by (simp add: task0_def io0_def del: replicate.simps)
  have d: "sys_dup ?t ?u = Some (int 1, ?t\<lparr>fdtable := (fdtable ?t)[1 := int 0]\<rparr>, upd_file 0 (\<lambda>f. f\<lparr>f_count := f_count f + 1\<rparr>) ?u)"
    by (rule sys_dup_returns[OF r', of 0]) (simp_all add: task0_def arg_def argufetch_def del: replicate.simps)
  then have c: "file_call env0 ?t ?u 1 (?t\<lparr>fdtable := (fdtable ?t)[1 := int 0]\<rparr>) (upd_file 0 (\<lambda>f. f\<lparr>f_count := f_count f + 1\<rparr>) ?u)"
    using call_dup by fastforce
  have "fdtable (?t\<lparr>fdtable := (fdtable ?t)[1 := int 0]\<rparr>) ! 1 = 0 \<and> fdtable (?t\<lparr>fdtable := (fdtable ?t)[1 := int 0]\<rparr>) ! 2 = -1"
    by (simp add: task0_def del: replicate.simps)
  then show ?thesis using c file_calls_keep_table[OF c r'] by blast
qed

lemma for_each_skip: "(\<And>x. x \<in> set xs \<Longrightarrow> f x s = Some s) \<Longrightarrow> for_each f xs s = Some s"
  by (induction xs) auto

lemma fork_and_exit_keep_table_witness:
  "\<exists>ft kid s'. fork_files (task0 ((replicate 64 (-1))[0 := 0]) []) (task0 [] []) (io0 ft file_fs) = Some (kid, s') \<and>
     refs_ok (\<lambda>k. 0 + count_list ((replicate 64 (-1))[0 := 0]) (int k)) (fdtable kid) (fcbtable s')"
proof -
  obtain ft where r: "refs_ok (\<lambda>_. 0) ((replicate 64 (-1))[0 := 0]) ft" by (rule one_file)
  let ?t = "task0 ((replicate 64 (-1))[0 := 0]) []" and ?u = "io0 ft file_fs"
  have r': "refs_ok (\<lambda>_. 0) (fdtable ?t) (fcbtable ?u)" using r by (simp add: task0_def io0_def del: replicate.simps)
  have R: "length (files ft) = 256" "\<And>k. k < 256 \<Longrightarrow> unat (f_count (files ft ! k)) = count_list ((replicate 64 (-1))[0 := 0]) (int k)"
    using r by (simp_all add: refs_ok_def)
  have "(0 :: int) \<in> set ((replicate 64 (-1))[0 := 0])" by (rule set_update_memI) simp
  then have "0 < unat (f_count (files ft ! 0))" using R(2)[of 0] count_list_pos[of "(replicate 64 (-1))[0 := 0]" "0 :: int"] by simp
  then have c: "1 \<le> f_count (files ft ! 0)" by (simp add: word_le_nat_alt)
  let ?ft = "ft\<lparr>files := (files ft)[0 := (files ft ! 0)\<lparr>f_count := f_count (files ft ! 0) + 1\<rparr>]\<rparr>"
  let ?f = "\<lambda>i ft. map_option snd (file_dup (fdtable ?t ! i) ft)"
  have "for_each ?f [1..<64] ?ft = Some ?ft"
    by (rule for_each_skip) (simp add: task0_def file_dup_def nth_Cons' del: replicate.simps)
  moreover have "?f 0 ft = Some ?ft" using c R(1) by (simp add: task0_def file_dup_def del: replicate.simps)
  moreover have "[0..<64] = 0 # [1..<64]" using upt_conv_Cons[of 0 64] by (simp del: upt_rec_numeral)
  ultimately have fe: "for_each ?f [0..<64] (fcbtable ?u) = Some ?ft" by (auto simp: io0_def simp del: upt_rec_numeral)
  obtain p h where k: "kmalloc 1024 boot_slub = Some (p, h)" by (rule boot_slub_kmalloc[of 1024]) auto
  have "boot_slub\<lparr>buddy_system := boot_buddy\<rparr> = boot_slub" using boot_slub(3) by simp
  then have ka: "kalloc 1024 (?u\<lparr>fcbtable := ?ft\<rparr>) = Some (p, ?u\<lparr>fcbtable := ?ft, kheap := h, kvm := boot_vm\<lparr>phys := buddy_system h\<rparr>\<rparr>)"
    using k by (simp add: kalloc_def io0_def boot_vm_def)
  have sc: "strcpy (bytes boot_vm) p 0 = Some ((bytes boot_vm)(p := 0))" by (simp add: boot_vm_def strcpy.simps)
  have "idup (icwd ?t) file_fs = Some (None, file_fs)" by (simp add: idup_def task0_def)
  then have "\<exists>kid s'. fork_files ?t (task0 [] []) ?u = Some (kid, s')"
    using fe ka sc by (simp add: fork_files_def Let_def io0_def task0_def del: replicate.simps upt_rec_numeral)
  then obtain kid s' where f: "fork_files ?t (task0 [] []) ?u = Some (kid, s')" by blast
  have "\<And>j. (\<lambda>_ :: nat. 0 :: nat) j < 2 ^ 30" by simp
  from fork_and_exit_keep_table[OF r' this, THEN conjunct1, rule_format, OF f] f show ?thesis
    by (auto simp: task0_def simp del: replicate.simps)
qed

lemma failed_pipe_halts_at_exit_witness:
  "\<exists>ft t' s'. sys_pipe env0 (task0 (replicate 64 (-1)) [0]) (io0 ft file_fs) = Some (- EFAULT, t', s') \<and> close_files t' s' = None"
proof -
  obtain ft where r: "refs_ok (\<lambda>_. 0) (replicate 64 (-1)) ft" "queue_abs (idle_fcbs ft) = [0..<256]" by (rule first_file)
  let ?t = "task0 (replicate 64 (-1)) [0]" and ?u = "io0 ft file_fs"
  have r': "refs_ok (\<lambda>_. 0) (fdtable ?t) (fcbtable ?u)" "queue_abs (idle_fcbs (fcbtable ?u)) = 0 # 1 # [2..<256]"
    using r by (simp_all add: task0_def io0_def upt_conv_Cons del: replicate.simps upt_rec_numeral)
  have "\<exists>t' s'. sys_pipe env0 ?t ?u = Some (- EFAULT, t', s') \<and> fdtable t' ! 0 = int 0 \<and> fdtable t' ! 1 = int 1 \<and>
    do_close 0 t' s' = None \<and> do_close 1 t' s' = None \<and> close_files t' s' = None"
    by (rule failed_pipe_halts_at_exit[OF r', where p = 0 and r = "-1" and v = boot_vm])
      (auto simp: task0_def io0_def arg_def argufetch_def verify_area_def search_vmareas_def one_area_mm_def new_vmarea_struct_def nth_Cons' simp del: replicate.simps split: if_splits)
  then show ?thesis by blast
qed

definition stale_fs :: fs where
  "stale_fs = file_fs\<lparr>m_inodes := [\<lparr>d_inode_ctnt = [0, 0x10], i_mtx = False, i_dev = 0, i_no = 0, i_block_group = 0,
     i_dirty = False, i_valid = False, i_count = 0\<rparr>]\<rparr>"

text \<open>The address space is that of the system call witnesses: an area with the pages not yet there.\<close>

lemma writable_area:
  obtains root s s' where "verify_area rd (one_area_mm root) 0x1000 100 0x16 s = Some (0, s')"
proof -
  obtain root s where b: "tree_wf s root" "perms_valid s root" "\<And>va. lookup s root va = 0" "free_pages (phys s) = 31743"
    using boot_address_space by metis
  have pg: "PGROUNDDOWN64 0x1000 = 0x1000" by (simp add: PGROUNDDOWN64_def)
  let ?v = "new_vmarea_struct 0x1000 0x3000 0x16 0 None 0"
  have "\<exists>s'. verify_pages rd (one_area_mm root) ?v 0x1000 (0x1000 + 100) 0x16 s = Some (0, s')"
    by (rule verify_pages_returns[where n = 1]) (use b in \<open>simp_all add: one_area_mm_def new_vmarea_struct_def pte_valid_def\<close>)
  then have "\<exists>s'. verify_area rd (one_area_mm root) 0x1000 100 0x16 s = Some (0, s')"
    by (simp add: verify_area_def search_vmareas_def one_area_mm_def new_vmarea_struct_def pg)
  then show ?thesis using that by blast
qed

lemma first_read_takes_stale_pipe_witness:
  "\<exists>f1 t s s'. iget 1 2 False (kfs s) = Some (0, f1) \<and> file_read env0 t 0 0x1000 100 (s\<lparr>kfs := f1\<rparr>) = Some (Done 0, s')"
proof -
  obtain root v v' where v: "verify_area (\<lambda>_ _ _. Some []) (one_area_mm root) 0x1000 100 0x16 v = Some (0, v')" by (rule writable_area)
  let ?ft = "\<lparr>files = [\<lparr>f_count = 1, f_flags = 0, f_pos = 0, f_inode = Some 0\<rparr>],
    idle_fcbs = \<lparr>queue_size = 0, queue_capacity = 1, queue_head = 0, queue_tail = -1, queue_array = [0]\<rparr>, fcb_waiters = []\<rparr>"
  let ?s = "(io0 ?ft stale_fs)\<lparr>kvm := v\<rparr>" and ?t = "(task0 [0] [])\<lparr>t_mm := one_area_mm root\<rparr>"
  obtain f1 where g: "iget 1 2 False (kfs ?s) = Some (0, f1)" by (simp add: iget_def upd_ino_def get_ino_def io0_def stale_fs_def)
  have m: "S_ISFIFO (i_mode (m_inodes (kfs ?s) ! 0))" by (simp add: S_ISFIFO_def i_mode_def get16_def io0_def stale_fs_def)
  have p: "queue_empty (pipe (pipe_node ?s 0))" "\<not> writeopen (pipe_node ?s 0)" by (simp_all add: io0_def empty_pipe_def queue_empty_def)
  have f: "get_file 0 ?s = Some \<lparr>f_count = 1, f_flags = 0, f_pos = 0, f_inode = Some 0\<rparr>" by (simp add: get_file_def io0_def)
  have a: "verify_area (env_rd env0) (t_mm ?t) 0x1000 100 (PTE_R OR PTE_W OR PTE_U) (kvm ?s) = Some (0, v')" using v by (simp add: env0_def)
  obtain s' where "file_read env0 ?t 0 0x1000 100 (?s\<lparr>kfs := f1\<rparr>) = Some (Done 0, s')"
    using first_read_takes_stale_pipe[OF g m p f _ _ a] by (auto simp: READABLE_def)
  then show ?thesis using g by blast
qed

end
