(* ===== verification/Exec.thy ===== *)
theory Exec
  imports Sysfile
begin

text \<open>
  The loader of executables (kernel/loader/elfloader.c, elf.h) and \<open>execve\<close> (kernel/process/execve.c). The headers of an
  executable are bytes of its file, read into buffers on the stack; \<open>load_elf\<close> makes one memory area per loadable segment and an
  empty one for the heap. \<open>do_execve\<close> fetches the strings of the old process and lays them out on the stack of the new one.
\<close>

section \<open>Headers\<close>

definition get64 :: "byte list \<Rightarrow> nat \<Rightarrow> u64" where
  "get64 b off = ucast (get32 b off) OR push_bit 32 (ucast (get32 b (off + 4)))"

definition bytes64 :: "u64 \<Rightarrow> byte list" where
  "bytes64 v = bytes32 (ucast v) @ bytes32 (ucast (drop_bit 32 v))"

record Elf64_Ehdr_t =
  e_ident :: "byte list"
  e_type :: u16
  e_machine :: u16
  e_version :: u32
  e_entry :: u64
  e_phoff :: u64
  e_shoff :: u64
  e_flags :: u32
  e_ehsize :: u16
  e_phentsize :: u16
  e_phnum :: u16
  e_shentsize :: u16
  e_shnum :: u16
  e_shstrndx :: u16

record Elf64_Phdr_t =
  p_type :: u32
  p_flags :: u32
  p_offset :: u64
  p_vaddr :: u64
  p_paddr :: u64
  p_filesz :: u64
  p_memsz :: u64
  p_align :: u64

definition Ehdr :: "byte list \<Rightarrow> Elf64_Ehdr_t" where
  "Ehdr b = \<lparr>e_ident = take 16 b, e_type = get16 b 16, e_machine = get16 b 18, e_version = get32 b 20, e_entry = get64 b 24,
     e_phoff = get64 b 32, e_shoff = get64 b 40, e_flags = get32 b 48, e_ehsize = get16 b 52, e_phentsize = get16 b 54,
     e_phnum = get16 b 56, e_shentsize = get16 b 58, e_shnum = get16 b 60, e_shstrndx = get16 b 62\<rparr>"

definition Phdr :: "byte list \<Rightarrow> Elf64_Phdr_t" where
  "Phdr b = \<lparr>p_type = get32 b 0, p_flags = get32 b 4, p_offset = get64 b 8, p_vaddr = get64 b 16, p_paddr = get64 b 24,
     p_filesz = get64 b 32, p_memsz = get64 b 40, p_align = get64 b 48\<rparr>"

abbreviation (input) PT_LOAD :: u32 where "PT_LOAD \<equiv> 1"
abbreviation (input) PF_X :: u32 where "PF_X \<equiv> 1"
abbreviation (input) PF_W :: u32 where "PF_W \<equiv> 2"
abbreviation (input) PF_R :: u32 where "PF_R \<equiv> 4"
abbreviation (input) ELFCLASS64 :: byte where "ELFCLASS64 \<equiv> 2"
abbreviation (input) ELFDATA2LSB :: byte where "ELFDATA2LSB \<equiv> 1"
abbreviation (input) ET_EXEC :: u16 where "ET_EXEC \<equiv> 2"
abbreviation (input) EM_RISCV :: u16 where "EM_RISCV \<equiv> 243"

definition elf_validate :: "Elf64_Ehdr_t \<Rightarrow> int" where
  "elf_validate h =
     (if take 4 (e_ident h) \<noteq> [0x7f, 69, 76, 70] then -1
      else if e_ident h ! 4 \<noteq> ELFCLASS64 then -1
      else if e_ident h ! 5 \<noteq> ELFDATA2LSB then -1
      else if e_ident h ! 6 \<noteq> 1 then -1
      else if e_type h \<noteq> ET_EXEC then -1
      else if e_machine h \<noteq> EM_RISCV then -1
      else if e_version h \<noteq> 1 then -1
      else if e_phentsize h \<noteq> 56 then -1
      else 0)"

section \<open>Loading\<close>

definition segment_perm :: "u32 \<Rightarrow> u64" where
  "segment_perm fl = PTE_U OR (if fl AND PF_X \<noteq> 0 then PTE_X else 0) OR (if fl AND PF_R \<noteq> 0 then PTE_R else 0)
     OR (if fl AND PF_W \<noteq> 0 then PTE_W else 0)"

text \<open>The new area holds a reference to the inode.\<close>

definition pre_load_segment :: "mm_struct \<Rightarrow> nat \<Rightarrow> Elf64_Phdr_t \<Rightarrow> fs \<Rightarrow> (mm_struct \<times> fs) option" where
  "pre_load_segment mm inode ph f = do {
     cassert (p_align ph = 4096);
     cassert (OFFSETPAGE (p_vaddr ph) = 0);
     mm1 \<leftarrow> add_vm_area mm (p_vaddr ph) (PGROUNDUP64 (p_vaddr ph + p_memsz ph)) (segment_perm (p_flags ph)) (p_offset ph) (Some inode) (p_filesz ph);
     (_, f1) \<leftarrow> idup (Some inode) f;
     Some (mm1, f1) }"

text \<open>The loop over the program headers, with the header buffer. The flag tells whether all could be read. \<open>add_vm_area\<close> never
  returns -1.\<close>

fun load_segments :: "nat list \<Rightarrow> Elf64_Ehdr_t \<Rightarrow> nat \<Rightarrow> byte list \<Rightarrow> mm_struct \<Rightarrow> fs \<Rightarrow> (bool \<times> byte list \<times> mm_struct \<times> fs) option" where
  "load_segments [] h inode ph mm f = Some (True, ph, mm, f)"
| "load_segments (i # is) h inode ph mm f = do {
     (n, ph1, f1) \<leftarrow> readi inode kbuf_out (e_phoff h + word_of_nat i * 56) 56 ph f;
     if n \<noteq> 56 then Some (False, ph1, mm, f1)
     else if p_type (Phdr ph1) = PT_LOAD then do {
       (mm1, f2) \<leftarrow> pre_load_segment mm inode (Phdr ph1) f1;
       load_segments is h inode ph1 mm1 f2 }
     else load_segments is h inode ph1 mm f1 }"

text \<open>The result passes through an \<open>int32_t\<close>. \<open>bufs\<close> are the two header buffers before they are read.\<close>

definition load_elf :: "byte list \<times> byte list \<Rightarrow> mm_struct \<Rightarrow> nat \<Rightarrow> fs \<Rightarrow> (u64 \<times> mm_struct \<times> fs) option" where
  "load_elf bufs mm inode f = do {
     f1 \<leftarrow> ilock (Some inode) f;
     (n, b, f2) \<leftarrow> readi inode kbuf_out 0 64 (fst bufs) f1;
     let h = Ehdr b;
     (res, mm1, f3) \<leftarrow>
       (if n \<noteq> 64 \<or> elf_validate h \<noteq> 0 then Some (-1, mm, f2)
        else do {
          (ok, ph, mm1, f3) \<leftarrow> load_segments [0..<unat (e_phnum h)] h inode (snd bufs) mm f2;
          if \<not> ok then Some (-1, mm1, f3)
          else do {
            let heap = PGROUNDUP64 (p_vaddr (Phdr ph) + p_memsz (Phdr ph));
            mm2 \<leftarrow> add_vm_area (mm1\<lparr>start_brk := heap, brk := heap\<rparr>) heap heap (PTE_R OR PTE_W OR PTE_U) 0 None 0;
            Some (scast (ucast (e_entry h) :: u32), mm2, f3) } });
     f4 \<leftarrow> iunlock (Some inode) f3;
     Some (res, mm1, f4) }"

text \<open>The structures of an address space go back to \<open>kmalloc\<close>; the areas give their inodes back.\<close>

definition free_mm_struct :: "mm_struct \<Rightarrow> fs \<Rightarrow> fs option" where
  "free_mm_struct mm f = for_each (\<lambda>v f. iput (vm_inode v) f) (vm_area_list mm) f"

section \<open>The new stack\<close>

abbreviation (input) MAXARG :: nat where "MAXARG \<equiv> 64"
abbreviation (input) MAXARGLEN :: nat where "MAXARGLEN \<equiv> 64"
abbreviation (input) USER_STACK_TOP :: u64 where "USER_STACK_TOP \<equiv> TRAPFRAME"
abbreviation (input) ENOEXEC :: int where "ENOEXEC \<equiv> 8"

text \<open>Strings, with their addresses and lengths, go to \<open>sp\<close> and their user addresses to the physical address \<open>ustack\<close>, followed by
  a null pointer.\<close>

fun copyout_strings :: "nat \<Rightarrow> (nat \<times> nat) list \<Rightarrow> nat \<Rightarrow> u64 \<Rightarrow> vm \<Rightarrow> ((nat \<times> u64) option \<times> vm) option" where
  "copyout_strings pt [] ustack sp v = Some (Some (ustack + 8, sp), v\<lparr>bytes := write_bytes (bytes v) ustack (bytes64 0)\<rparr>)"
| "copyout_strings pt ((str, n) # rest) ustack sp v = do {
     (r, v1) \<leftarrow> copyout pt sp str n v;
     if r < 0 then Some (None, v1)
     else copyout_strings pt rest (ustack + 8) (sp + word_of_nat n) (v1\<lparr>bytes := write_bytes (bytes v1) ustack (bytes64 sp)\<rparr>) }"

definition copyout_argv_envp :: "nat \<Rightarrow> (nat \<times> nat) list \<Rightarrow> (nat \<times> nat) list \<Rightarrow> nat \<Rightarrow> u64 \<Rightarrow> vm \<Rightarrow> (int \<times> vm) option" where
  "copyout_argv_envp pt argv envp ustack sp v = do {
     (r, v1) \<leftarrow> copyout_strings pt argv ustack sp v;
     (case r of None \<Rightarrow> Some (-1, v1)
      | Some (ustack1, sp1) \<Rightarrow> do {
          (r, v2) \<leftarrow> copyout_strings pt envp ustack1 sp1 v1;
          Some (if r = None then -1 else 0, v2) }) }"

text \<open>The pages behind the strings, and an area that may grow to the full size of the stack.\<close>

definition map_user_stack :: "mm_struct \<Rightarrow> nat \<Rightarrow> nat \<Rightarrow> vm \<Rightarrow> (mm_struct \<times> vm) option" where
  "map_user_stack mm page_num ustack_pa v = do {
     (_, v1) \<leftarrow> mappages (mm_pagetable mm) (USER_STACK_TOP - word_of_nat (PGSIZE * page_num)) (word_of_nat (PGSIZE * page_num)) ustack_pa (PTE_W OR PTE_R OR PTE_U) v;
     mm1 \<leftarrow> add_vm_area (mm\<lparr>start_ustack := USER_STACK_TOP\<rparr>) (USER_STACK_TOP - word_of_nat (PGSIZE * stack_maxsize mm)) USER_STACK_TOP (PTE_R OR PTE_W OR PTE_U) 0 None 0;
     Some (mm1, v1) }"

text \<open>The trampoline and the trap frame, at the physical addresses \<open>tramp\<close> and \<open>tf\<close>.\<close>

definition user_basic_pagetable :: "nat \<Rightarrow> nat \<Rightarrow> nat \<Rightarrow> vm \<Rightarrow> (int \<times> vm) option" where
  "user_basic_pagetable tramp tf pt v = do {
     (r, v1) \<leftarrow> mappages pt TRAMPOLINE 4096 tramp (PTE_R OR PTE_X) v;
     if r = -1 then Some (-1, v1)
     else do {
       (r, v2) \<leftarrow> mappages pt TRAPFRAME 4096 tf (PTE_R OR PTE_W) v1;
       Some (if r = -1 then -1 else 0, v2) } }"

section \<open>Execution of a file\<close>

text \<open>The strings of one of the two vectors. The result is the error, if any, and the entries of the kernel's vector with the lengths; when a
  string cannot be fetched, its entry still is the user's pointer.\<close>

fun fetch_strings :: "env \<Rightarrow> task \<Rightarrow> u64 \<Rightarrow> nat list \<Rightarrow> (nat \<times> nat) list \<Rightarrow> io \<Rightarrow> (int \<times> (nat \<times> nat) list \<times> io) option" where
  "fetch_strings E t vec [] acc s = Some (0, acc, s)"
| "fetch_strings E t vec (k # ks) acc s = do {
     (r, v) \<leftarrow> verify_area (env_rd E) (t_mm t) (vec + word_of_nat (8 * k)) 8 (PTE_R OR PTE_U) (kvm s);
     let s1 = s\<lparr>kvm := v\<rparr>;
     if r < 0 then Some (- EFAULT, acc, s1)
     else do {
       bs \<leftarrow> user_in E t (vec + word_of_nat (8 * k)) v 0 8;
       let ptr = get64 bs 0;
       if ptr = 0 then Some (0, acc, s1)
       else do {
         (va, s2) \<leftarrow> kalloc MAXARGLEN s1;
         (n, v2) \<leftarrow> argstrfetch (env_rd E) (t_mm t) ptr va MAXARGLEN (kvm s2);
         let s3 = s2\<lparr>kvm := v2\<rparr>;
         if n < 0 then Some (- EINVAL, acc @ [(unat ptr, 0)], s3)
         else fetch_strings E t vec ks (acc @ [(va, nat n + 1)]) s3 } } }"

definition vector_size :: "(nat \<times> nat) list \<Rightarrow> nat" where
  "vector_size xs = (\<Sum>(a, n)\<leftarrow>xs. n + 8) + 8"

definition free_strings :: "(nat \<times> nat) list \<Rightarrow> io \<Rightarrow> io" where
  "free_strings xs s = foldl (\<lambda>s (a, n). kdrop a s) s xs"

record trap_regs =
  tf_sp :: u64
  tf_a1 :: u64
  tf_a2 :: u64
  tf_epc :: u64

text \<open>The switch to the new address space, when nothing can fail any more; \<open>locs\<close> are the addresses of the trampoline and the trap
  frame.\<close>

definition enter_image :: "nat \<times> nat \<Rightarrow> u64 \<Rightarrow> mm_struct \<Rightarrow> (nat \<times> nat) list \<Rightarrow> (nat \<times> nat) list \<Rightarrow> nat \<Rightarrow> nat \<Rightarrow> task \<Rightarrow> io \<Rightarrow> (int \<times> (task \<times> trap_regs) \<times> io) option" where
  "enter_image locs entry new_mm argv envp npg ustack t s = do {
     let a1 = USER_STACK_TOP - word_of_nat (PGSIZE * npg);
     let argc = length argv + 1;
     let envc = length envp + 1;
     let sp = a1 + word_of_nat ((envc + argc) * 8);
     v1 \<leftarrow> free_pgtable (mm_pagetable (t_mm t)) 0 (kvm s);
     f1 \<leftarrow> free_mm_struct (t_mm t) (kfs s);
     (_, v2) \<leftarrow> user_basic_pagetable (fst locs) (snd locs) (mm_pagetable new_mm) v1;
     (mm, v3) \<leftarrow> map_user_stack new_mm npg ustack v2;
     (r, v4) \<leftarrow> copyout_argv_envp (mm_pagetable mm) argv envp ustack sp v3;
     cassert (r = 0);
     Some (int argc - 1, (t\<lparr>t_mm := mm\<rparr>, \<lparr>tf_sp = a1, tf_a1 = a1, tf_a2 = a1 + word_of_nat (argc * 8), tf_epc = entry\<rparr>), s\<lparr>kvm := v4, kfs := f1\<rparr>) }"

text \<open>\<open>do_execve\<close>: the new program is there only when the second component is. The arrays \<open>tmp_argv\<close>, \<open>tmp_envp\<close>, and on an error after
  the load the new address space with its inode references, are never given back.\<close>

definition do_execve :: "env \<Rightarrow> nat \<times> nat \<Rightarrow> byte list \<times> byte list \<Rightarrow> task \<Rightarrow> byte list \<Rightarrow> u64 \<Rightarrow> u64 \<Rightarrow> io \<Rightarrow> (int \<times> (task \<times> trap_regs) option \<times> io) option" where
  "do_execve E locs bufs t path argv envp s = do {
     (inode, _, f) \<leftarrow> namei (env_stk E) (icwd t) path True (kfs s);
     let s1 = s\<lparr>kfs := f\<rparr>;
     (case inode of None \<Rightarrow> Some (- ENOENT, None, s1)
      | Some ip \<Rightarrow> do {
          (mm, v) \<leftarrow> new_mm_struct (kvm s1);
          (entry, new_mm, f1) \<leftarrow> load_elf bufs mm ip (kfs s1);
          let s2 = s1\<lparr>kvm := v, kfs := f1\<rparr>;
          (res, img, s9) \<leftarrow>
            (if entry = -1 then do {
               f2 \<leftarrow> free_mm_struct new_mm f1;
               Some (- ENOEXEC, None, s2\<lparr>kfs := f2\<rparr>) }
             else do {
               (_, s3) \<leftarrow> kalloc ((MAXARG + 1) * 8) s2;
               (envp_len, s4) \<leftarrow> kalloc (MAXARG * 2) s3;
               (e, env, s5) \<leftarrow> fetch_strings E t envp [0..<MAXARG] [] s4;
               if e < 0 then Some (e, None, free_strings env (kdrop envp_len s5))
               else do {
                 (_, s6) \<leftarrow> kalloc ((MAXARG + 1) * 8) s5;
                 (argv_len, s7) \<leftarrow> kalloc (MAXARG * 2) s6;
                 (e, args, s8) \<leftarrow> fetch_strings E t argv [0..<MAXARG] [] s7;
                 (res, img, s9) \<leftarrow>
                   (if e < 0 then Some (e, None, s8)
                    else do {
                      let npg = (vector_size env + vector_size args + PGSIZE - 1) div PGSIZE;
                      (ustack, b) \<leftarrow> pages_alloc npg (phys (kvm s8));
                      (res, im, s9) \<leftarrow> enter_image locs entry new_mm args env npg ustack t (s8\<lparr>kvm := (kvm s8)\<lparr>phys := b\<rparr>\<rparr>);
                      Some (res, Some im, s9) });
                 Some (res, img, free_strings env (kdrop envp_len (free_strings args (kdrop argv_len s9)))) } });
          f9 \<leftarrow> iput (Some ip) (kfs s9);
          Some (res, img, s9\<lparr>kfs := f9\<rparr>) }) }"

definition sys_execve :: "env \<Rightarrow> nat \<times> nat \<Rightarrow> byte list \<times> byte list \<Rightarrow> task \<Rightarrow> io \<Rightarrow> (int \<times> (task \<times> trap_regs) option \<times> io) option" where
  "sys_execve E locs bufs t s = do {
     (path, s1) \<leftarrow> kalloc PATH_MAX s;
     (p, s2) \<leftarrow> fetch_path E t 0 path s1;
     (case p of None \<Rightarrow> Some (- EFAULT, None, kdrop path s2)
      | Some p \<Rightarrow> do {
          argv \<leftarrow> arg t 1;
          envp \<leftarrow> arg t 2;
          (res, img, s3) \<leftarrow> do_execve E locs bufs t p argv envp s2;
          Some (res, img, if res < 0 then kdrop path s3 else s3) }) }"

end
