(* ===== verification/Exec_Load.thy ===== *)
theory Exec_Load
  imports Exec
begin

text \<open>
  What the loader of executables makes of a file: one area for each loadable segment that its program headers describe, and the heap.
\<close>

section \<open>Segments of a file\<close>

definition segment_area :: "nat \<Rightarrow> Elf64_Phdr_t \<Rightarrow> vm_area_struct" where
  "segment_area ip ph = new_vmarea_struct (p_vaddr ph) (PGROUNDUP64 (p_vaddr ph + p_memsz ph)) (segment_perm (p_flags ph))
     (p_offset ph) (Some ip) (p_filesz ph)"

definition heap_area :: "Elf64_Phdr_t \<Rightarrow> vm_area_struct" where
  "heap_area ph = (let heap = PGROUNDUP64 (p_vaddr ph + p_memsz ph) in new_vmarea_struct heap heap (PTE_R OR PTE_W OR PTE_U) 0 None 0)"

definition header_at :: "fs \<Rightarrow> m_inode_t \<Rightarrow> Elf64_Ehdr_t \<Rightarrow> nat \<Rightarrow> Elf64_Phdr_t" where
  "header_at f i h k = Phdr (file_bytes f i (unat (e_phoff h) + 56 * k) 56)"

definition loadable :: "fs \<Rightarrow> m_inode_t \<Rightarrow> Elf64_Ehdr_t \<Rightarrow> nat list \<Rightarrow> Elf64_Phdr_t list" where
  "loadable f i h is = filter (\<lambda>ph. p_type ph = PT_LOAD) (map (header_at f i h) is)"

text \<open>Page aligned, not empty, and the end does not wrap round.\<close>

definition segment_ok :: "Elf64_Phdr_t \<Rightarrow> bool" where
  "segment_ok ph \<longleftrightarrow> p_align ph = 4096 \<and> OFFSETPAGE (p_vaddr ph) = 0 \<and> p_vaddr ph < PGROUNDUP64 (p_vaddr ph + p_memsz ph)"

lemma OFFSETPAGE_PGROUNDUP64 [simp]: "OFFSETPAGE (PGROUNDUP64 a) = 0"
  by (rule bit_word_eqI) (auto simp: OFFSETPAGE_def PGROUNDUP64_def bit_simps)

lemma same_file:
  assumes "d_inode_ctnt j = d_inode_ctnt i" "i_dev j = i_dev i"
  shows "file_bytes f j = file_bytes f i" "range_there W H f j = range_there W H f i" "i_size j = i_size i"
proof -
  have p: "file_path f j = file_path f i" by (simp add: fun_eq_iff file_path_def i_block_def assms)
  have b: "file_block f j = file_block f i" unfolding fun_eq_iff file_block_def p assms(2) by simp
  show "file_bytes f j = file_bytes f i" by (simp add: fun_eq_iff file_bytes_def b)
  show "range_there W H f j = range_there W H f i" by (simp add: fun_eq_iff range_there_def block_there_def p assms(2))
  show "i_size j = i_size i" by (simp add: i_size_def assms(1))
qed

lemma inode_update_frame:
  assumes "upd_ino ip g f = Some t"
  shows "fb.ready W H t = fb.ready W H f" "disk t = disk f" "cache t = cache f"
    "get_ino ip f = Some i \<Longrightarrow> get_ino ip t = Some (g i)"
  using assms by (auto simp: upd_ino_def get_ino_def fb.ready_def disk_def hoare_simps)

lemma get_ino_bound: "get_ino ip f = Some i \<Longrightarrow> upd_ino ip g f \<noteq> None"
  by (auto simp: upd_ino_def get_ino_def hoare_simps)

text \<open>A piece of a file, read into a buffer of its length.\<close>

lemma read_piece:
  assumes r: "fb.ready W H f" "syncing (cache f) = 0" "get_ino ip f = Some i" "range_there W H f i 0 (unat (i_size i))"
    and o: "unat off + unat n \<le> unat (i_size i)" "unat n = length m"
  obtains t where "readi ip kbuf_out off n m f = Some (int (unat n), file_bytes f i (unat off) (unat n), t)" "fb.ready W H t" "disk t = disk f"
    "fs_rest t = fs_rest f"
proof -
  have l: "read_length i (unat off) (unat n) = unat n" using o(1) by (simp add: read_length_def)
  have "unat (i_size i) < 2 ^ LENGTH(32)" by (rule unsigned_less)
  then have b: "unat (i_size i) < 2 ^ 32" by simp
  have th: "range_there W H f i (unat off) (unat n)" using r(4) o(1) unfolding range_there_def by force
  from readi_there[OF r(1-3), of off n m, unfolded l] o b th that show ?thesis by (auto simp: put_bytes_all)
qed

section \<open>The loop over the program headers\<close>

lemma insert_area_apart:
  "(\<And>v. v \<in> set l \<Longrightarrow> vm_end new \<le> vm_start v \<or> vm_start new \<ge> vm_end v) \<Longrightarrow> \<exists>l'. insert_area new l = Some l'"
proof (induction l)
  case (Cons v l)
  then obtain l' where "insert_area new l = Some l'" by auto
  then show ?case using Cons.prems[of v] by (cases "vm_end new \<le> vm_start v") simp_all
qed simp

lemma loadable_frame:
  assumes "disk t = disk f" "d_inode_ctnt j = d_inode_ctnt i" "i_dev j = i_dev i"
  shows "loadable t j h is = loadable f i h is" "header_at t j h k = header_at f i h k"
  using file_frame(3)[OF assms(1)] same_file(1)[OF assms(2,3)] by (simp_all add: loadable_def header_at_def[abs_def])

lemma pre_load_segment_ok:
  assumes "segment_ok ph" "get_ino ip f = Some i" "i_count i \<ge> 1" "areas_wf (vm_area_list mm)"
    "\<And>v. v \<in> set (vm_area_list mm) \<Longrightarrow> \<not> overlap (segment_area ip ph) v"
  obtains mm' t where "pre_load_segment mm ip ph f = Some (mm', t)" "areas_wf (vm_area_list mm')"
    "mset (vm_area_list mm') = add_mset (segment_area ip ph) (mset (vm_area_list mm))" "map_count mm' = map_count mm + 1"
    "mm_pagetable mm' = mm_pagetable mm" "upd_ino ip (\<lambda>i. i\<lparr>i_count := i_count i + 1\<rparr>) f = Some t"
proof -
  let ?a = "segment_area ip ph"
  have b: "vm_start ?a < vm_end ?a" using assms(1) by (simp add: segment_ok_def segment_area_def new_vmarea_struct_def)
  obtain l where l: "insert_area ?a (vm_area_list mm) = Some l" using insert_area_None[OF assms(4) b] assms(5) by auto
  obtain t where t: "upd_ino ip (\<lambda>i. i\<lparr>i_count := i_count i + 1\<rparr>) f = Some t" using get_ino_bound[OF assms(2)] by blast
  have "add_vm_area mm (p_vaddr ph) (PGROUNDUP64 (p_vaddr ph + p_memsz ph)) (segment_perm (p_flags ph)) (p_offset ph) (Some ip) (p_filesz ph)
      = Some (mm\<lparr>vm_area_list := l, map_count := map_count mm + 1\<rparr>)"
  proof -
    have "OFFSETPAGE (p_vaddr ph) = 0" using assms(1) by (simp only: segment_ok_def)
    then show ?thesis using l unfolding add_vm_area_def segment_area_def by simp
  qed
  moreover have "idup (Some ip) f = Some (Some ip, t)" using assms(2,3) t by (simp add: idup_def)
  ultimately have "pre_load_segment mm ip ph f = Some (mm\<lparr>vm_area_list := l, map_count := map_count mm + 1\<rparr>, t)"
    using assms(1) unfolding pre_load_segment_def segment_ok_def by simp
  then show ?thesis using that[of "mm\<lparr>vm_area_list := l, map_count := map_count mm + 1\<rparr>" t] insert_area_wf[OF assms(4) b l]
      insert_area_mset[OF l] t by simp
qed

lemma load_segments_ok:
  assumes "fb.ready W H f" "syncing (cache f) = 0" "get_ino ip f = Some i" "range_there W H f i 0 (unat (i_size i))" "i_count i \<ge> 1"
    and "\<And>k. k \<in> set is \<Longrightarrow> unat (e_phoff h) + 56 * k + 56 \<le> unat (i_size i)" "length ph = 56"
    and "unat (i_count i) + length is < 2 ^ 16"
    and "\<And>p. p \<in> set (loadable f i h is) \<Longrightarrow> segment_ok p"
    and "areas_wf (vm_area_list mm)" "sorted_wrt (\<lambda>p q. \<not> overlap (segment_area ip q) (segment_area ip p)) (loadable f i h is)"
    and "\<And>p v. p \<in> set (loadable f i h is) \<Longrightarrow> v \<in> set (vm_area_list mm) \<Longrightarrow> \<not> overlap (segment_area ip p) v"
  shows "\<exists>ph' mm' t n. load_segments is h ip ph mm f = Some (True, ph', mm', t) \<and> fb.ready W H t \<and> disk t = disk f \<and>
    get_ino ip t = Some (i\<lparr>i_count := n\<rparr>) \<and> n \<ge> 1 \<and> areas_wf (vm_area_list mm') \<and>
    mset (vm_area_list mm') = mset (map (segment_area ip) (loadable f i h is)) + mset (vm_area_list mm) \<and>
    (is \<noteq> [] \<longrightarrow> Phdr ph' = header_at f i h (last is)) \<and> (is = [] \<longrightarrow> ph' = ph) \<and>
    map_count mm' = map_count mm + int (length (loadable f i h is)) \<and> mm_pagetable mm' = mm_pagetable mm"
  using assms
proof (induction "is" arbitrary: f i ph mm)
  case Nil
  show ?case using Nil.prems(1-5,10)
    by (intro exI[of _ ph] exI[of _ mm] exI[of _ f] exI[of _ "i_count i"]) (simp add: loadable_def)
next
  case (Cons k ks)
  note A = Cons.prems
  let ?off = "e_phoff h + word_of_nat k * 56" and ?b = "file_bytes f i (unat (e_phoff h) + 56 * k) 56"
  have "unat (i_size i) < 2 ^ LENGTH(32)" by (rule unsigned_less)
  then have o: "unat (e_phoff h) + 56 * k + 56 < 2 ^ 32" using A(6)[of k] by simp
  have uo: "unat ?off = unat (e_phoff h) + 56 * k"
  proof -
    have "word_of_nat k * 56 = (word_of_nat (56 * k) :: u64)" by (simp add: mult.commute)
    then show ?thesis using unat_plus_small[of "e_phoff h" "56 * k"] o by (simp add: mult.commute)
  qed
  obtain f1 where R: "readi ip kbuf_out ?off 56 ph f = Some (56, ?b, f1)" "fb.ready W H f1" "disk f1 = disk f" "fs_rest f1 = fs_rest f"
    using read_piece[OF A(1-4), of ?off 56 ph] A(6)[of k] A(7) uo by auto
  have g: "get_ino ip f1 = Some i" "syncing (cache f1) = 0" using R(4) A(2,3) get_ino_rest[OF R(4)] fs_restD[OF R(4)] by simp_all
  have hd: "Phdr ?b = header_at f i h k" by (simp add: header_at_def)
  have th: "range_there W H f1 i = range_there W H f i" using file_frame(5)[OF R(3)] by (simp add: fun_eq_iff range_there_def)
  note L1 = loadable_frame[OF R(3) refl refl]
  show ?case
  proof (cases "p_type (header_at f i h k) = PT_LOAD")
    case False
    then have ld: "loadable f i h (k # ks) = loadable f i h ks" by (simp add: loadable_def)
    have "\<exists>ph' mm' t n. load_segments ks h ip ?b mm f1 = Some (True, ph', mm', t) \<and> fb.ready W H t \<and> disk t = disk f1 \<and>
      get_ino ip t = Some (i\<lparr>i_count := n\<rparr>) \<and> n \<ge> 1 \<and> areas_wf (vm_area_list mm') \<and>
      mset (vm_area_list mm') = mset (map (segment_area ip) (loadable f1 i h ks)) + mset (vm_area_list mm) \<and>
      (ks \<noteq> [] \<longrightarrow> Phdr ph' = header_at f1 i h (last ks)) \<and> (ks = [] \<longrightarrow> ph' = ?b) \<and>
      map_count mm' = map_count mm + int (length (loadable f1 i h ks)) \<and> mm_pagetable mm' = mm_pagetable mm"
      by (rule Cons.IH[OF R(2) g(2,1)]) (use A ld in \<open>simp_all add: th L1\<close>)
    then show ?thesis using R(1,3) False hd unfolding L1 ld by (cases ks) auto
  next
    case True
    define ph1 where "ph1 = header_at f i h k"
    have ld: "loadable f i h (k # ks) = ph1 # loadable f i h ks" using True by (simp add: loadable_def ph1_def)
    have ok: "segment_ok ph1" and ap: "\<And>v. v \<in> set (vm_area_list mm) \<Longrightarrow> \<not> overlap (segment_area ip ph1) v"
      using A(9)[of ph1] A(12)[of ph1] unfolding ld by auto
    obtain mm1 f2 where P: "pre_load_segment mm ip ph1 f1 = Some (mm1, f2)" "areas_wf (vm_area_list mm1)"
      "mset (vm_area_list mm1) = add_mset (segment_area ip ph1) (mset (vm_area_list mm))" "map_count mm1 = map_count mm + 1"
      "mm_pagetable mm1 = mm_pagetable mm" "upd_ino ip (\<lambda>i. i\<lparr>i_count := i_count i + 1\<rparr>) f1 = Some f2"
      by (rule pre_load_segment_ok[OF ok g(1) A(5,10) ap])
    note U = inode_update_frame[OF P(6)]
    let ?i = "i\<lparr>i_count := i_count i + 1\<rparr>"
    have c: "unat (i_count i + 1) = unat (i_count i) + 1" using A(8) by (simp add: unat_word_ariths)
    then have c1: "i_count i + 1 \<ge> 1" by (simp add: word_le_nat_alt)
    have d: "disk f2 = disk f" using U(2) R(3) by simp
    have s: "d_inode_ctnt ?i = d_inode_ctnt i" "i_dev ?i = i_dev i" by simp_all
    have th2: "range_there W H f2 ?i = range_there W H f i"
      using same_file(2)[OF s, of W H f2] file_frame(5)[OF d] by (simp add: fun_eq_iff range_there_def)
    note L2 = loadable_frame[OF d s]
    have setm: "set (vm_area_list mm1) = insert (segment_area ip ph1) (set (vm_area_list mm))"
      using P(3) by (metis set_mset_add_mset_insert set_mset_mset)
    have apart: "\<not> overlap (segment_area ip p) v" if "p \<in> set (loadable f i h ks)" "v \<in> set (vm_area_list mm1)" for p v
      using A(11,12) that unfolding ld setm by auto
    have "\<exists>ph' mm' t n. load_segments ks h ip ?b mm1 f2 = Some (True, ph', mm', t) \<and> fb.ready W H t \<and> disk t = disk f2 \<and>
      get_ino ip t = Some (?i\<lparr>i_count := n\<rparr>) \<and> n \<ge> 1 \<and> areas_wf (vm_area_list mm') \<and>
      mset (vm_area_list mm') = mset (map (segment_area ip) (loadable f2 ?i h ks)) + mset (vm_area_list mm1) \<and>
      (ks \<noteq> [] \<longrightarrow> Phdr ph' = header_at f2 ?i h (last ks)) \<and> (ks = [] \<longrightarrow> ph' = ?b) \<and>
      map_count mm' = map_count mm1 + int (length (loadable f2 ?i h ks)) \<and> mm_pagetable mm' = mm_pagetable mm1"
      by (rule Cons.IH[of f2 ?i ?b mm1])
        (use A(6,8,9,11) R(2) g(2) U(1,3) U(4)[OF g(1)] c c1 apart P(2) same_file(3)[OF s] ld A(4) in \<open>simp_all add: th2 L2\<close>)
    then show ?thesis using R(1) True hd P d unfolding L2 ld ph1_def by (cases ks) auto
  qed
qed

section \<open>Loading a file\<close>

text \<open>A file that holds an executable: its header, all program headers inside the file, and segments that are in order.\<close>

definition executable_file :: "fs \<Rightarrow> nat \<Rightarrow> m_inode_t \<Rightarrow> Elf64_Ehdr_t \<Rightarrow> Elf64_Phdr_t list \<Rightarrow> bool" where
  "executable_file f ip i h phs \<longleftrightarrow> 64 \<le> unat (i_size i) \<and> h = Ehdr (file_bytes f i 0 64) \<and> elf_validate h = 0 \<and>
     phs = map (header_at f i h) [0..<unat (e_phnum h)] \<and> phs \<noteq> [] \<and> unat (e_phoff h) + 56 * length phs \<le> unat (i_size i) \<and>
     (\<forall>p\<in>set phs. p_type p = PT_LOAD \<longrightarrow> segment_ok p \<and>
        (vm_start (heap_area (last phs)) \<le> vm_start (segment_area ip p) \<or> vm_end (segment_area ip p) \<le> vm_start (heap_area (last phs)))) \<and>
     sorted_wrt (\<lambda>p q. \<not> overlap (segment_area ip q) (segment_area ip p)) (filter (\<lambda>p. p_type p = PT_LOAD) phs)"

text \<open>C11. Loading an executable: for a file whose headers are in order and whose blocks are there and fit the buffer cache, \<open>load_elf\<close> returns
  the low 32 bits of the entry point, sign extended to 64 (the entry point itself only below 2 GiB), and an address space with exactly one area for each loadable segment (addresses, permissions, place in the file) and the empty heap behind the last
  header; nothing on the disk changes and the inode is unlocked again.\<close>

theorem load_elf_maps_segments:
  assumes f: "fb.ready W H f" "syncing (cache f) = 0" "get_ino ip f = Some i" "range_there W H f i 0 (unat (i_size i))"
    and i: "i_valid i" "\<not> i_mtx i" "i_count i \<ge> 1" "unat (i_count i) + length phs < 2 ^ 16"
    and x: "executable_file f ip i h phs"
    and b: "length (fst bufs) = 64" "length (snd bufs) = 56" and mm: "vm_area_list mm = []"
  shows "\<exists>mm' t. load_elf bufs mm ip f = Some (scast (ucast (e_entry h) :: u32), mm', t) \<and>
    mset (vm_area_list mm') = add_mset (heap_area (last phs)) (mset (map (segment_area ip) (filter (\<lambda>p. p_type p = PT_LOAD) phs))) \<and>
    start_brk mm' = vm_start (heap_area (last phs)) \<and> brk mm' = vm_start (heap_area (last phs)) \<and>
    mm_pagetable mm' = mm_pagetable mm \<and> fb.ready W H t \<and> disk t = disk f \<and> (\<exists>n. get_ino ip t = Some (i\<lparr>i_count := n\<rparr>))"
proof -
  have X: "64 \<le> unat (i_size i)" "Ehdr (file_bytes f i 0 64) = h" "elf_validate h = 0" "phs = map (header_at f i h) [0..<unat (e_phnum h)]"
    "phs \<noteq> []" "unat (e_phoff h) + 56 * length phs \<le> unat (i_size i)"
    "\<And>p. p \<in> set phs \<Longrightarrow> p_type p = PT_LOAD \<Longrightarrow> segment_ok p \<and>
        (vm_start (heap_area (last phs)) \<le> vm_start (segment_area ip p) \<or> vm_end (segment_area ip p) \<le> vm_start (heap_area (last phs)))"
    "sorted_wrt (\<lambda>p q. \<not> overlap (segment_area ip q) (segment_area ip p)) (filter (\<lambda>p. p_type p = PT_LOAD) phs)"
    using x unfolding executable_file_def by blast+
  let ?i = "i\<lparr>i_mtx := True\<rparr>" and ?is = "[0..<unat (e_phnum h)]"
  obtain f1 where L: "upd_ino ip (\<lambda>i. i\<lparr>i_mtx := True\<rparr>) f = Some f1" using get_ino_bound[OF f(3)] by blast
  note U = inode_update_frame[OF L]
  have il: "ilock (Some ip) f = Some f1" using f(3) i(1-3) L by (simp add: ilock_def)
  have s: "d_inode_ctnt ?i = d_inode_ctnt i" "i_dev ?i = i_dev i" by simp_all
  have fr: "file_bytes f1 ?i = file_bytes f i" "range_there W H f1 ?i = range_there W H f i" "i_size ?i = i_size i"
    using same_file[OF s] file_frame(3,5)[OF U(2)] by (simp_all add: fun_eq_iff range_there_def)
  obtain f2 where R: "readi ip kbuf_out 0 64 (fst bufs) f1 = Some (64, file_bytes f i 0 64, f2)" "fb.ready W H f2" "disk f2 = disk f1" "fs_rest f2 = fs_rest f1"
    using read_piece[of W H f1 ip ?i 0 64 "fst bufs"] f(1,2,4) U(1,3) U(4)[OF f(3)] X(1) b(1) fr by auto
  have g: "get_ino ip f2 = Some ?i" "syncing (cache f2) = 0" using get_ino_rest[OF R(4)] fs_restD(1)[OF R(4)] U(3) U(4)[OF f(3)] f(2) by simp_all
  have d: "disk f2 = disk f" using R(3) U(2) by simp
  note LF = loadable_frame[OF d s]
  have th: "range_there W H f2 ?i = range_there W H f i" using same_file(2)[OF s] file_frame(5)[OF d] by (simp add: fun_eq_iff range_there_def)
  have ld: "loadable f2 ?i h ?is = filter (\<lambda>p. p_type p = PT_LOAD) phs" using LF(1) by (simp add: loadable_def flip: X(4))
  have len: "length phs = unat (e_phnum h)" using arg_cong[OF X(4), of length] by simp
  then have "0 < unat (e_phnum h)" using X(5) by (metis length_greater_0_conv)
  then have n: "length phs = unat (e_phnum h)" "?is \<noteq> []" using len by simp_all
  have ub: "unat (e_phoff h) + 56 * k + 56 \<le> unat (i_size ?i)" if "k \<in> set ?is" for k
    using X(6) n(1) that unfolding fr(3) by simp
  have "\<exists>ph' mm' t n. load_segments ?is h ip (snd bufs) mm f2 = Some (True, ph', mm', t) \<and> fb.ready W H t \<and> disk t = disk f2 \<and>
    get_ino ip t = Some (?i\<lparr>i_count := n\<rparr>) \<and> n \<ge> 1 \<and> areas_wf (vm_area_list mm') \<and>
    mset (vm_area_list mm') = mset (map (segment_area ip) (loadable f2 ?i h ?is)) + mset (vm_area_list mm) \<and>
    (?is \<noteq> [] \<longrightarrow> Phdr ph' = header_at f2 ?i h (last ?is)) \<and> (?is = [] \<longrightarrow> ph' = snd bufs) \<and>
    map_count mm' = map_count mm + int (length (loadable f2 ?i h ?is)) \<and> mm_pagetable mm' = mm_pagetable mm"
  proof (rule load_segments_ok[OF R(2) g(2,1)])
    show "range_there W H f2 ?i 0 (unat (i_size ?i))" using th f(4) fr(3) by simp
    show "segment_ok p" if "p \<in> set (loadable f2 ?i h ?is)" for p using that X(7)[of p] unfolding ld by simp
    show "sorted_wrt (\<lambda>p q. \<not> overlap (segment_area ip q) (segment_area ip p)) (loadable f2 ?i h ?is)" unfolding ld by (rule X(8))
  qed (use i(3,4) n(1) ub b(2) mm in \<open>simp_all add: areas_wf_def\<close>)
  then obtain ph' mm1 f3 c where S0: "load_segments ?is h ip (snd bufs) mm f2 = Some (True, ph', mm1, f3) \<and> fb.ready W H f3 \<and> disk f3 = disk f2 \<and>
    get_ino ip f3 = Some (?i\<lparr>i_count := c\<rparr>) \<and> c \<ge> 1 \<and> areas_wf (vm_area_list mm1) \<and>
    mset (vm_area_list mm1) = mset (map (segment_area ip) (loadable f2 ?i h ?is)) + mset (vm_area_list mm) \<and>
    (?is \<noteq> [] \<longrightarrow> Phdr ph' = header_at f2 ?i h (last ?is)) \<and> (?is = [] \<longrightarrow> ph' = snd bufs) \<and>
    map_count mm1 = map_count mm + int (length (loadable f2 ?i h ?is)) \<and> mm_pagetable mm1 = mm_pagetable mm" by (elim exE)
  have S: "load_segments ?is h ip (snd bufs) mm f2 = Some (True, ph', mm1, f3)" "fb.ready W H f3" "disk f3 = disk f2"
    "get_ino ip f3 = Some (?i\<lparr>i_count := c\<rparr>)" "c \<ge> 1" "areas_wf (vm_area_list mm1)"
    "mset (vm_area_list mm1) = mset (map (segment_area ip) (loadable f2 ?i h ?is)) + mset (vm_area_list mm)"
    "?is \<noteq> [] \<longrightarrow> Phdr ph' = header_at f2 ?i h (last ?is)" "mm_pagetable mm1 = mm_pagetable mm"
    by (insert S0, (elim conjE, assumption)+)
  have lp: "Phdr ph' = last phs" using S(8) n(2) LF(2) arg_cong[OF X(4), of last] by (simp add: last_map)
  let ?heap = "PGROUNDUP64 (p_vaddr (last phs) + p_memsz (last phs))"
  have ms: "set (vm_area_list mm1) = segment_area ip ` set (filter (\<lambda>p. p_type p = PT_LOAD) phs)"
    using arg_cong[OF S(7), of set_mset] mm unfolding ld by simp
  have "\<exists>l. insert_area (heap_area (last phs)) (vm_area_list mm1) = Some l"
    by (rule insert_area_apart) (use X(7) in \<open>auto simp: ms heap_area_def Let_def new_vmarea_struct_def\<close>)
  then obtain l where l: "insert_area (heap_area (last phs)) (vm_area_list mm1) = Some l" by blast
  let ?mm = "mm1\<lparr>start_brk := ?heap, brk := ?heap, vm_area_list := l, map_count := map_count mm1 + 1\<rparr>"
  have av: "add_vm_area (mm1\<lparr>start_brk := ?heap, brk := ?heap\<rparr>) ?heap ?heap (PTE_R OR PTE_W OR PTE_U) 0 None 0 = Some ?mm"
    using l unfolding add_vm_area_def heap_area_def Let_def by simp
  obtain t where t: "upd_ino ip (\<lambda>i. i\<lparr>i_mtx := False\<rparr>) f3 = Some t" using get_ino_bound[OF S(4)] by blast
  have iu: "iunlock (Some ip) f3 = Some t" using S(4,5) t by (simp add: iunlock_def)
  have "load_elf bufs mm ip f = Some (scast (ucast (e_entry h) :: u32), ?mm, t)"
    using il R(1) S(1) av iu X(2,3) lp by (simp add: load_elf_def Let_def)
  moreover have "mset (vm_area_list ?mm) = add_mset (heap_area (last phs)) (mset (map (segment_area ip) (filter (\<lambda>p. p_type p = PT_LOAD) phs)))"
    using insert_area_mset[OF l] S(7) mm unfolding ld by simp
  moreover have "vm_start (heap_area (last phs)) = ?heap" by (simp add: heap_area_def Let_def new_vmarea_struct_def)
  moreover note T = inode_update_frame[OF t]
  have "get_ino ip t = Some (i\<lparr>i_count := c\<rparr>)" using T(4)[OF S(4)] i(2) by simp
  moreover have "fb.ready W H t" "disk t = disk f" using T(1,2) S(2,3) d by simp_all
  ultimately show ?thesis using S(9) by (intro exI[of _ ?mm] exI[of _ t]) auto
qed

section \<open>A small executable\<close>

definition elf_image :: "byte list" where
  "elf_image = [0x7f, 69, 76, 70, 2, 1, 1, 0, 0, 0, 0, 0, 0, 0, 0, 0,  2, 0, 243, 0, 1, 0, 0, 0,  0, 0x10, 0, 0, 0, 0, 0, 0,
     64, 0, 0, 0, 0, 0, 0, 0,  0, 0, 0, 0, 0, 0, 0, 0,  0, 0, 0, 0, 64, 0, 56, 0,  1, 0, 0, 0, 0, 0, 0, 0,
     1, 0, 0, 0, 5, 0, 0, 0,  0, 0, 0, 0, 0, 0, 0, 0,  0, 0x10, 0, 0, 0, 0, 0, 0,  0, 0, 0, 0, 0, 0, 0, 0,
     120, 0, 0, 0, 0, 0, 0, 0,  120, 0, 0, 0, 0, 0, 0, 0,  0, 0x10, 0, 0, 0, 0, 0, 0]"

definition elf_disk :: "u32 \<Rightarrow> u32 \<Rightarrow> byte list option" where
  "elf_disk dev blk = (if dev = 0 \<and> blk = 4 then Some (replicate BLKSIZE 0)
     else if dev = 0 \<and> blk = 5 then Some (elf_image @ replicate (BLKSIZE - 120) 0) else None)"

definition elf_inode :: m_inode_t where
  "elf_inode = \<lparr>d_inode_ctnt = put32 (put32 (replicate 128 0) 4 120) 40 5, i_mtx = False, i_dev = 0, i_no = 2, i_block_group = 0,
     i_dirty = False, i_valid = True, i_count = 1\<rparr>"

definition elf_fs :: fs where
  "elf_fs = \<lparr>cache = blk_init elf_disk [], d_sb_ctnt = put32 (replicate 1024 0) 40 64, sb_dev = 0,
     group_descs_table = put32 (replicate 64 0) 8 4, m_inodes = [elf_inode]\<rparr>"

lemma length_elf_image: "length elf_image = 120"
  by (simp add: elf_image_def)

lemma elf_inode_fields: "i_size elf_inode = 120" "i_block elf_inode 0 = 5" "i_dev elf_inode = 0"
proof -
  have d: "d_inode_ctnt elf_inode = put32 (put32 (replicate 128 0) 4 120) 40 5" by (simp add: elf_inode_def del: replicate.simps)
  have "get32 (put32 (put32 (replicate 128 0) 4 120) 40 5) 4 = get32 (put32 (replicate 128 0) 4 120) 4"
    by (rule get32_put32) (simp_all del: replicate.simps)
  also have "\<dots> = 120" by (rule get_put32) (simp del: replicate.simps)
  finally show "i_size elf_inode = 120" by (simp add: i_size_def d del: replicate.simps)
  have "get32 (put32 (put32 (replicate 128 0) 4 120) 40 5) 40 = 5" by (rule get_put32) (simp del: replicate.simps)
  then show "i_block elf_inode 0 = 5" by (simp add: i_block_def d del: replicate.simps)
  show "i_dev elf_inode = 0" by (simp add: elf_inode_def)
qed

lemma elf_fs_facts:
  "fb.ready {(0, 4), (0, 5)} {} elf_fs" "syncing (cache elf_fs) = 0" "get_ino 0 elf_fs = Some elf_inode"
  "range_there {(0, 4), (0, 5)} {} elf_fs elf_inode 0 120"
  "off + n \<le> 120 \<Longrightarrow> file_bytes elf_fs elf_inode off n = take n (drop off elf_image)"
proof -
  have w: "whole_blocks elf_disk" by (auto simp: whole_blocks_def elf_disk_def length_elf_image simp del: replicate.simps split: if_splits)
  have "bs.ready {(0, 4), (0, 5)} {} (blk_init elf_disk [])" by (rule blk_init_ready[OF w]) simp_all
  then show "fb.ready {(0, 4), (0, 5)} {} elf_fs" by (simp add: fb.ready_def bs.ready_def elf_fs_def)
  have v: "disk elf_fs x = elf_disk (fst x) (snd x)" for x
    using blk_init_facts(5)[OF w[unfolded whole_blocks_def, rule_format]] by (simp add: disk_def elf_fs_def)
  show "syncing (cache elf_fs) = 0" by (simp add: elf_fs_def blk_init_def)
  show "get_ino 0 elf_fs = Some elf_inode" by (simp add: get_ino_def elf_fs_def)
  have p: "file_path elf_fs elf_inode 0 = Some ([], 5)" by (simp add: file_path_def place_def elf_inode_fields)
  have u: "usable {(0, 4), (0, 5)} {} elf_fs 0 5" by (simp add: usable_def v elf_disk_def)
  have "block_there {(0, 4), (0, 5)} {} elf_fs elf_inode 0" using u by (simp add: block_there_def p elf_inode_fields)
  moreover have "j = 0" if "j * BLKSIZE < 0 + 120" for j using that by (cases j) auto
  ultimately show "range_there {(0, 4), (0, 5)} {} elf_fs elf_inode 0 120" unfolding range_there_def by metis
  have b: "file_block elf_fs elf_inode 0 = elf_image @ replicate (BLKSIZE - 120) 0"
    by (simp add: file_block_def p v elf_disk_def elf_inode_fields del: replicate.simps)
  assume o: "off + n \<le> 120"
  show "file_bytes elf_fs elf_inode off n = take n (drop off elf_image)"
    by (rule nth_equalityI) (use o in \<open>auto simp: file_bytes_def b length_elf_image nth_append simp del: replicate.simps\<close>)
qed

lemma load_elf_maps_segments_witness:
  "\<exists>mm t. load_elf (replicate 64 0, replicate 56 0) (\<lparr>vm_area_list = [], mm_pagetable = 0, mm_count = 1, map_count = 0,
      stack_maxsize = 32, start_ustack = 0, mmap_base = 0, start_brk = 0, brk = 0\<rparr>) 0 elf_fs = Some (0x1000, mm, t) \<and>
    mset (vm_area_list mm) = {#new_vmarea_struct 0x1000 0x2000 0x1a 0 (Some 0) 120, new_vmarea_struct 0x2000 0x2000 0x16 0 None 0#}"
proof -
  let ?mm = "\<lparr>vm_area_list = [], mm_pagetable = 0, mm_count = 1, map_count = 0, stack_maxsize = 32, start_ustack = 0, mmap_base = 0, start_brk = 0, brk = 0\<rparr>"
  define h where "h = Ehdr (take 64 elf_image)"
  have h: "elf_validate h = 0" "e_phnum h = 1" "e_phoff h = 64" "e_entry h = 0x1000"
    by (simp_all add: h_def Ehdr_def elf_image_def elf_validate_def get16_def get64_def get32_def)
  define p where "p = Phdr (take 56 (drop 64 elf_image))"
  have p: "p_type p = 1" "p_flags p = 5" "p_offset p = 0" "p_vaddr p = 0x1000" "p_memsz p = 120" "p_filesz p = 120" "p_align p = 4096"
    by (simp_all add: p_def Phdr_def elf_image_def get64_def get32_def)
  have ha: "header_at elf_fs elf_inode h 0 = p" using elf_fs_facts(5)[of 64 56] by (simp add: header_at_def h(3) p_def)
  have up: "PGROUNDUP64 4216 = 0x2000" by (simp add: PGROUNDUP64_def)
  have sp: "segment_perm 5 = 0x1a" by (simp add: segment_perm_def)
  have x: "executable_file elf_fs 0 elf_inode h [p]"
    using h p ha up elf_fs_facts(5)[of 0 64] by (simp add: executable_file_def elf_inode_fields h_def[symmetric] segment_ok_def heap_area_def segment_area_def
        new_vmarea_struct_def Let_def OFFSETPAGE_def)
  have i: "i_valid elf_inode" "\<not> i_mtx elf_inode" "i_count elf_inode \<ge> 1" "unat (i_count elf_inode) + length [p] < 2 ^ 16" by (simp_all add: elf_inode_def)
  have th: "range_there {(0, 4), (0, 5)} {} elf_fs elf_inode 0 (unat (i_size elf_inode))" using elf_fs_facts(4) by (simp add: elf_inode_fields)
  have b: "length (fst (replicate 64 0 :: byte list, replicate 56 0 :: byte list)) = 64" "length (snd (replicate 64 0 :: byte list, replicate 56 0 :: byte list)) = 56" by (simp_all del: replicate.simps)
  have m: "vm_area_list ?mm = []" by simp
  from load_elf_maps_segments[OF elf_fs_facts(1-3) th i x b m] obtain mm t where
    T: "load_elf (replicate 64 0, replicate 56 0) ?mm 0 elf_fs = Some (scast (ucast (e_entry h) :: u32), mm, t)"
    "mset (vm_area_list mm) = add_mset (heap_area (last [p])) (mset (map (segment_area 0) (filter (\<lambda>p. p_type p = PT_LOAD) [p])))" by blast
  show ?thesis using T by (auto simp: h p heap_area_def segment_area_def up sp Let_def add_mset_commute simp del: replicate.simps)
qed

end
