(* ===== verification/Exec_Stack.thy ===== *)
theory Exec_Stack
  imports Exec Open_Files
begin

text \<open>
  The stack of a program that \<open>execve\<close> starts: two vectors of pointers, each with a null pointer at its end, to the strings of the
  arguments and of the environment, which follow the vectors.
\<close>

definition mem_bytes :: "mem \<Rightarrow> nat \<Rightarrow> nat \<Rightarrow> byte list" where
  "mem_bytes m a n = map (\<lambda>k. m (a + k)) [0..<n]"

lemma length_mem_bytes [simp]: "length (mem_bytes m a n) = n"
  by (simp add: mem_bytes_def)

lemma mem_bytes_cong: "(\<And>k. k < n \<Longrightarrow> m' (a + k) = m (a + k)) \<Longrightarrow> mem_bytes m' a n = mem_bytes m a n"
  by (simp add: mem_bytes_def)

lemma length_bytes64 [simp]: "length (bytes64 v) = 8"
  by (simp add: bytes64_def)

lemma mem_bytes_write: "length bs = n \<Longrightarrow> mem_bytes (write_bytes m a bs) a n = bs"
  by (rule nth_equalityI) (simp_all add: mem_bytes_def write_bytes_eq)

text \<open>The vector at offset \<open>slot\<close> of the physical address \<open>P\<close>, whose first string lies at offset \<open>off\<close>; user addresses start at \<open>a\<close>.\<close>

fun vector_at :: "mem \<Rightarrow> nat \<Rightarrow> u64 \<Rightarrow> nat \<Rightarrow> nat \<Rightarrow> byte list list \<Rightarrow> bool" where
  "vector_at m P a slot off [] \<longleftrightarrow> mem_bytes m (P + slot) 8 = bytes64 0"
| "vector_at m P a slot off (s # ss) \<longleftrightarrow> mem_bytes m (P + slot) 8 = bytes64 (a + word_of_nat off) \<and>
     mem_bytes m (P + off) (length s) = s \<and> vector_at m P a (slot + 8) (off + length s) ss"

abbreviation (input) total :: "byte list list \<Rightarrow> nat" where "total ss \<equiv> sum_list (map length ss)"

lemma vector_at_frame:
  "(\<And>x. P + slot \<le> x \<and> x < P + slot + 8 * (length ss + 1) \<or> P + off \<le> x \<and> x < P + off + total ss \<Longrightarrow> m' x = m x) \<Longrightarrow>
   vector_at m P a slot off ss \<Longrightarrow> vector_at m' P a slot off ss"
proof (induction ss arbitrary: slot off)
  case Nil
  have "mem_bytes m' (P + slot) 8 = mem_bytes m (P + slot) 8" by (rule mem_bytes_cong) (use Nil(1) in auto)
  then show ?case using Nil(2) by simp
next
  case (Cons s ss)
  have 1: "mem_bytes m' (P + slot) 8 = mem_bytes m (P + slot) 8" by (rule mem_bytes_cong) (use Cons.prems(1) in auto)
  have 2: "mem_bytes m' (P + off) (length s) = mem_bytes m (P + off) (length s)" by (rule mem_bytes_cong) (use Cons.prems(1) in auto)
  have "vector_at m' P a (slot + 8) (off + length s) ss"
    by (rule Cons.IH) (use Cons.prems in auto)
  then show ?case using Cons.prems(2) 1 2 by simp
qed

text \<open>\<open>N\<close> bytes from the user address \<open>a\<close> lie at \<open>P\<close>.\<close>

definition stack_mapped :: "nat \<Rightarrow> u64 \<Rightarrow> nat \<Rightarrow> nat \<Rightarrow> vm \<Rightarrow> bool" where
  "stack_mapped pt a P N v \<longleftrightarrow> 0 < P \<and> unat a + N \<le> 2 ^ 38 \<and> (\<forall>k<N. vaddr2paddr pt (a + word_of_nat k) v = Some (P + k))"

lemma stack_mapped_bytes [simp]: "stack_mapped pt a P N (v\<lparr>bytes := m\<rparr>) = stack_mapped pt a P N v"
  by (simp add: stack_mapped_def)

text \<open>The strings come from outside the stack.\<close>

definition source_ok :: "nat \<Rightarrow> nat \<Rightarrow> mem \<Rightarrow> nat \<times> nat \<Rightarrow> byte list \<Rightarrow> bool" where
  "source_ok P N m x s \<longleftrightarrow> snd x = length s \<and> mem_bytes m (fst x) (length s) = s \<and> (\<forall>j<length s. fst x + j < P \<or> P + N \<le> fst x + j)"

abbreviation (input) sources :: "nat \<Rightarrow> nat \<Rightarrow> mem \<Rightarrow> (nat \<times> nat) list \<Rightarrow> byte list list \<Rightarrow> bool" where
  "sources P N m \<equiv> list_all2 (source_ok P N m)"

lemma sources_frame:
  assumes "sources P N m xs ss" "\<And>x. x < P \<or> P + N \<le> x \<Longrightarrow> m' x = m x"
  shows "sources P N m' xs ss"
proof (rule list_all2_mono[OF assms(1)])
  fix x s
  assume c: "source_ok P N m x s"
  then have "mem_bytes m' (fst x) (length s) = mem_bytes m (fst x) (length s)"
    by (intro mem_bytes_cong assms(2)) (auto simp: source_ok_def)
  then show "source_ok P N m' x s" using c by (simp add: source_ok_def)
qed

lemma copyout_strings_ok:
  assumes "stack_mapped pt a P N v" "sources P N (bytes v) xs ss" "slot + 8 * (length ss + 1) \<le> off" "off + total ss \<le> N"
  shows "\<exists>m. copyout_strings pt xs (P + slot) (a + word_of_nat off) v = Some (Some (P + slot + 8 * (length ss + 1), a + word_of_nat (off + total ss)), v\<lparr>bytes := m\<rparr>) \<and>
    vector_at m P a slot off ss \<and>
    (\<forall>x. \<not> (P + slot \<le> x \<and> x < P + slot + 8 * (length ss + 1)) \<and> \<not> (P + off \<le> x \<and> x < P + off + total ss) \<longrightarrow> m x = bytes v x)"
  using assms
proof (induction ss arbitrary: xs slot off v)
  case Nil
  then have "xs = []" by simp
  moreover have "vector_at (write_bytes (bytes v) (P + slot) (bytes64 0)) P a slot off []" by (simp add: mem_bytes_write)
  ultimately show ?case by (auto simp: write_bytes_eq)
next
  case (Cons s ss)
  obtain y ys where y: "xs = y # ys" "source_ok P N (bytes v) y s" "sources P N (bytes v) ys ss"
    using Cons.prems(2) by (auto simp: list_all2_Cons2)
  obtain str where x: "xs = (str, length s) # ys" "mem_bytes (bytes v) str (length s) = s"
    "\<forall>j<length s. str + j < P \<or> P + N \<le> str + j" "sources P N (bytes v) ys ss"
    using y by (cases y) (auto simp: source_ok_def simp del: list_all2_Cons)
  have M: "0 < P" "unat a + N \<le> 2 ^ 38" "\<And>k. k < N \<Longrightarrow> vaddr2paddr pt (a + word_of_nat k) v = Some (P + k)"
    using Cons.prems(1) by (simp_all add: stack_mapped_def)
  have b: "slot + 8 * (length ss + 2) \<le> off" "off + length s + total ss \<le> N" using Cons.prems(3,4) by simp_all
  have ua: "unat (a + word_of_nat off) = unat a + off" by (rule unat_plus_small) (use M(2) b in simp)
  obtain m1 where C: "copyout pt (a + word_of_nat off) str (length s) v = Some (0, v\<lparr>bytes := m1\<rparr>)"
    "\<And>k. k < length s \<Longrightarrow> m1 (P + off + k) = bytes v (str + k)" "\<And>x. (\<forall>k<length s. P + off + k \<noteq> x) \<Longrightarrow> m1 x = bytes v x"
  proof -
    have "\<exists>m. copyout pt (a + word_of_nat off) str (length s) v = Some (0, v\<lparr>bytes := m\<rparr>) \<and>
      (\<forall>k<length s. m (P + off + k) = bytes v (str + k)) \<and> (\<forall>x. (\<forall>k<length s. P + off + k \<noteq> x) \<longrightarrow> m x = bytes v x)"
    proof (rule copyout_ok)
      show "vaddr2paddr pt (a + word_of_nat off + word_of_nat k) v = Some (P + off + k) \<and> P + off + k \<noteq> 0" if "k < length s" for k
        using M(1) M(3)[of "off + k"] that b by (simp add: add.assoc)
      show "P + off + k \<noteq> str + j" if "k < length s" "j < length s" for k j using x(3) that b by fastforce
    qed (use ua M(2) b in simp_all)
    then show ?thesis using that by blast
  qed
  let ?m2 = "write_bytes m1 (P + slot) (bytes64 (a + word_of_nat off))"
  have m2: "?m2 x = bytes v x" if "\<not> (P + slot \<le> x \<and> x < P + slot + 8)" "\<not> (P + off \<le> x \<and> x < P + off + length s)" for x
    using that C(3)[of x] by (auto simp: write_bytes_eq)
  have src: "sources P N ?m2 ys ss" by (rule sources_frame[OF x(4)]) (rule m2, use b in auto)
  have sl: "P + slot + 8 = P + (slot + 8)" "a + word_of_nat off + word_of_nat (length s) = a + word_of_nat (off + length s)" by simp_all
  obtain m where I: "copyout_strings pt ys (P + (slot + 8)) (a + word_of_nat (off + length s)) (v\<lparr>bytes := ?m2\<rparr>)
      = Some (Some (P + (slot + 8) + 8 * (length ss + 1), a + word_of_nat (off + length s + total ss)), v\<lparr>bytes := ?m2\<rparr>\<lparr>bytes := m\<rparr>)"
    "vector_at m P a (slot + 8) (off + length s) ss"
    "\<And>x. \<not> (P + (slot + 8) \<le> x \<and> x < P + (slot + 8) + 8 * (length ss + 1)) \<Longrightarrow> \<not> (P + (off + length s) \<le> x \<and> x < P + (off + length s) + total ss) \<Longrightarrow> m x = ?m2 x"
    using Cons.IH[of "v\<lparr>bytes := ?m2\<rparr>" ys "slot + 8" "off + length s"] Cons.prems(1) src b by auto
  have p: "mem_bytes m (P + slot) 8 = mem_bytes ?m2 (P + slot) 8" by (rule mem_bytes_cong) (rule I(3), use b in auto)
  have q: "mem_bytes m (P + off) (length s) = mem_bytes (bytes v) str (length s)"
  proof (rule nth_equalityI)
    fix k assume k: "k < length (mem_bytes m (P + off) (length s))"
    have "m (P + off + k) = ?m2 (P + off + k)" by (rule I(3)) (use k b in auto)
    also have "\<dots> = m1 (P + off + k)" using b by (simp add: write_bytes_eq)
    finally show "mem_bytes m (P + off) (length s) ! k = mem_bytes (bytes v) str (length s) ! k" using k C(2) by (simp add: mem_bytes_def)
  qed simp
  have va: "vector_at m P a slot off (s # ss)" using p q x(2) I(2) by (simp add: mem_bytes_write)
  have fr: "m y = bytes v y" if "\<not> (P + slot \<le> y \<and> y < P + slot + 8 * (length (s # ss) + 1))" "\<not> (P + off \<le> y \<and> y < P + off + total (s # ss))" for y
  proof -
    have "m y = ?m2 y" by (rule I(3)) (use that in auto)
    also have "\<dots> = bytes v y" by (rule m2) (use that in auto)
    finally show ?thesis .
  qed
  have "copyout_strings pt xs (P + slot) (a + word_of_nat off) v
    = Some (Some (P + slot + 8 * (length (s # ss) + 1), a + word_of_nat (off + total (s # ss))), v\<lparr>bytes := m\<rparr>)"
    using C(1) I(1) unfolding x(1) sl[symmetric] by (simp add: add.assoc)
  then show ?case using va fr by blast
qed

text \<open>The pages that \<open>do_execve\<close> takes are enough.\<close>

lemma vector_size_total: "sources P N m xs ss \<Longrightarrow> vector_size xs = total ss + 8 * (length ss + 1)"
proof (induction rule: list_all2_induct)
  case (Cons x xs y ys)
  then show ?case by (cases x) (simp add: vector_size_def source_ok_def)
qed (simp add: vector_size_def)

lemma round_up_enough: "n \<le> PGSIZE * ((n + PGSIZE - 1) div PGSIZE)"
  using mult_div_mod_eq[of PGSIZE "n + PGSIZE - 1"] mod_less_divisor[of PGSIZE "n + PGSIZE - 1"] by linarith

lemma program_stack:
  assumes N: "N = PGSIZE * ((vector_size envp + vector_size argv + PGSIZE - 1) div PGSIZE)"
    and st: "stack_mapped pt a P N v" "sources P N (bytes v) argv args" "sources P N (bytes v) envp vars"
  shows "\<exists>m. copyout_argv_envp pt argv envp P (a + word_of_nat (8 * (length args + length vars + 2))) v = Some (0, v\<lparr>bytes := m\<rparr>) \<and>
    vector_at m P a 0 (8 * (length args + length vars + 2)) args \<and>
    vector_at m P a (8 * (length args + 1)) (8 * (length args + length vars + 2) + total args) vars"
proof -
  let ?off = "8 * (length args + length vars + 2)"
  have "vector_size envp + vector_size argv \<le> N" unfolding N by (rule round_up_enough)
  then have room: "?off + total args + total vars \<le> N" using vector_size_total[OF st(2)] vector_size_total[OF st(3)] by simp
  obtain m1 where A: "copyout_strings pt argv (P + 0) (a + word_of_nat ?off) v
      = Some (Some (P + 0 + 8 * (length args + 1), a + word_of_nat (?off + total args)), v\<lparr>bytes := m1\<rparr>)"
    "vector_at m1 P a 0 ?off args"
    "\<And>x. \<not> (P + 0 \<le> x \<and> x < P + 0 + 8 * (length args + 1)) \<Longrightarrow> \<not> (P + ?off \<le> x \<and> x < P + ?off + total args) \<Longrightarrow> m1 x = bytes v x"
    using copyout_strings_ok[OF st(1,2), of 0 ?off] room by auto
  have src: "sources P N m1 envp vars" by (rule sources_frame[OF st(3)]) (rule A(3), use room in auto)
  obtain m where B: "copyout_strings pt envp (P + 8 * (length args + 1)) (a + word_of_nat (?off + total args)) (v\<lparr>bytes := m1\<rparr>)
      = Some (Some (P + 8 * (length args + 1) + 8 * (length vars + 1), a + word_of_nat (?off + total args + total vars)), v\<lparr>bytes := m1\<rparr>\<lparr>bytes := m\<rparr>)"
    "vector_at m P a (8 * (length args + 1)) (?off + total args) vars"
    "\<And>x. \<not> (P + 8 * (length args + 1) \<le> x \<and> x < P + 8 * (length args + 1) + 8 * (length vars + 1)) \<Longrightarrow>
      \<not> (P + (?off + total args) \<le> x \<and> x < P + (?off + total args) + total vars) \<Longrightarrow> m x = m1 x"
    using copyout_strings_ok[of pt a P N "v\<lparr>bytes := m1\<rparr>" envp vars "8 * (length args + 1)" "?off + total args"] st(1) src room by auto
  have "vector_at m P a 0 ?off args" by (rule vector_at_frame[OF _ A(2)]) (rule B(3), auto)
  moreover have "copyout_argv_envp pt argv envp P (a + word_of_nat ?off) v = Some (0, v\<lparr>bytes := m\<rparr>)"
    using A(1) B(1) by (simp add: copyout_argv_envp_def)
  ultimately show ?thesis using B(2) by blast
qed

section \<open>The switch to the new program\<close>

lemma for_each_keeps:
  assumes "for_each f xs s = Some s'" "\<And>i s s'. i \<in> set xs \<Longrightarrow> f i s = Some s' \<Longrightarrow> g s' = g s"
  shows "g s' = g s"
  by (rule for_each_inv[OF assms(1), where P = "\<lambda>u. g u = g s"]) (auto dest: assms(2))

lemma free_pgtable_rest_keeps: "free_pgtable_rest d t s = Some s' \<Longrightarrow> (bytes s', pgt s') = (bytes s, pgt s)"
proof (induction d arbitrary: t s s')
  case 0
  show ?case
    by (rule for_each_keeps[where g = "\<lambda>s. (bytes s, pgt s)", OF 0[unfolded free_pgtable_rest.simps]])
      (auto simp: Let_def release_phypg_def hoare_simps split: if_splits)
next
  case (Suc d)
  show ?case
    by (rule for_each_keeps[where g = "\<lambda>s. (bytes s, pgt s)", OF Suc.prems[unfolded free_pgtable_rest.simps]])
      (auto simp: Let_def dest: Suc.IH split: if_splits)
qed

lemma free_pgtable_keeps: "free_pgtable t l s = Some s' \<Longrightarrow> bytes s' = bytes s \<and> pgt s' = pgt s"
  using free_pgtable_rest_keeps by (auto simp: free_pgtable_def split: if_splits)

text \<open>An area above all others goes to the end of the list.\<close>

lemma insert_area_last:
  "\<forall>v\<in>set l. vm_start v \<le> vm_end v \<and> vm_end v \<le> vm_start new \<Longrightarrow> vm_start new < vm_end new \<Longrightarrow>
   insert_area new l = Some (l @ [new])"
  by (induction l) auto

definition stack_area :: vm_area_struct where
  "stack_area = new_vmarea_struct (USER_STACK_TOP - 0x20000) USER_STACK_TOP (PTE_R OR PTE_W OR PTE_U) 0 None 0"

lemma basic_and_stack_pages:
  assumes wf: "tree_wf v root" and new: "\<forall>va<MAXVA. lookup v root va = 0"
    and n: "0 < n" "n \<le> 32" "2 * n + 4 \<le> free_pages (phys v)"
    and P: "PGSIZE dvd P" "0 < P" "P + n * PGSIZE \<le> 2 ^ 56"
  defines "a1 \<equiv> USER_STACK_TOP - word_of_nat (PGSIZE * n)"
  obtains v1 v2 where "user_basic_pagetable tramp tf root v = Some (0, v1)"
    "mappages root a1 (word_of_nat (PGSIZE * n)) P (PTE_W OR PTE_R OR PTE_U) v1 = Some (0, v2)"
    "stack_mapped root a1 P (n * PGSIZE) v2" "bytes v2 = bytes v"
proof -
  have f2: "2 \<le> free_pages (phys v)" using n(3) by simp
  have z: "lookup v root vb = 0" if "TRAPFRAME \<le> vb" "vb < MAXVA" for vb using new that by simp
  obtain w where w: "mappages root TRAMPOLINE 4096 tramp (PTE_R OR PTE_X) v = Some (0, w)" "tree_wf w root" "bytes w = bytes v"
    "free_pages (phys v) \<le> 2 + free_pages (phys w)"
    "\<And>vb. vb < MAXVA \<Longrightarrow> lookup w root vb = (if TRAMPOLINE \<le> vb \<and> vb < TRAMPOLINE + 0x1000 then map_entry TRAMPOLINE tramp (PTE_R OR PTE_X) else lookup v root vb)"
    by (rule map_one_page[OF wf _ _ f2, of TRAMPOLINE tramp "PTE_R OR PTE_X"]) (use new in \<open>auto simp: dvd_eq_mod_eq_0\<close>)
  have f3: "2 \<le> free_pages (phys w)" using n(3) w(4) by simp
  have w0: "lookup w root vb = 0" if "vb < TRAMPOLINE" for vb
  proof -
    have "vb < MAXVA" using that by (rule less_trans) simp
    then show ?thesis using w(5)[of vb] new that by (simp add: not_le[symmetric])
  qed
  obtain x where x: "mappages root TRAPFRAME 4096 tf (PTE_R OR PTE_W) w = Some (0, x)" "tree_wf x root" "bytes x = bytes w"
    "free_pages (phys w) \<le> 2 + free_pages (phys x)"
    "\<And>vb. vb < MAXVA \<Longrightarrow> lookup x root vb = (if TRAPFRAME \<le> vb \<and> vb < TRAPFRAME + 0x1000 then map_entry TRAPFRAME tf (PTE_R OR PTE_W) else lookup w root vb)"
    by (rule map_one_page[OF w(2) _ _ f3, of TRAPFRAME tf "PTE_R OR PTE_W"]) (use w0 in \<open>auto simp: dvd_eq_mod_eq_0\<close>)
  have basic: "user_basic_pagetable tramp tf root v = Some (0, x)" using w(1) x(1) by (simp add: user_basic_pagetable_def)
  have ua: "unat a1 + n * PGSIZE = unat (USER_STACK_TOP :: u64)"
  proof -
    have u: "unat (word_of_nat (PGSIZE * n) :: u64) = PGSIZE * n"
      using unat_plus_small[of 0 "PGSIZE * n"] n(2) by (simp del: of_nat_mult)
    moreover have "PGSIZE * n \<le> unat (USER_STACK_TOP :: u64)" using n(2) by simp
    ultimately have "word_of_nat (PGSIZE * n) \<le> (USER_STACK_TOP :: u64)" unfolding word_le_nat_alt by simp
    then have "unat a1 = unat (USER_STACK_TOP :: u64) - PGSIZE * n" unfolding a1_def by (simp only: unat_sub u)
    then show ?thesis using n(2) by simp
  qed
  have al: "PGSIZE dvd unat a1"
  proof -
    have "unat (USER_STACK_TOP :: u64) = PGSIZE * 0x3fffffe" by simp
    then have "unat a1 = PGSIZE * (0x3fffffe - n)" using ua by (simp add: diff_mult_distrib2)
    then show ?thesis by simp
  qed
  have top: "unat a1 + n * PGSIZE \<le> 2 ^ 38" using ua by simp
  have f4: "2 * n \<le> free_pages (phys x)" using n(3) w(4) x(4) by simp
  have un: "\<not> pte_valid (lookup x root vb)" if "a1 \<le> vb" "unat vb < unat a1 + n * PGSIZE" for vb
  proof -
    have vb: "vb < TRAPFRAME" using that(2) ua by (simp add: word_less_nat_alt)
    have "vb < MAXVA" "vb < TRAMPOLINE" using vb by (auto elim: less_trans)
    then show ?thesis using x(5)[of vb] w0[of vb] vb by (simp add: pte_valid_def not_le[symmetric])
  qed
  obtain y where y: "mappages root a1 (word_of_nat (n * PGSIZE)) P (PTE_W OR PTE_R OR PTE_U) x = Some (0, y)"
    using mappages_returns[OF x(2) al top n(1) f4 un] by blast
  have "vaddr2paddr root (a1 + word_of_nat k) y = Some (P + k)" if "k < n * PGSIZE" for k
    by (rule mapped_vaddr2paddr[OF x(2) y al top P _ _ that]) (simp_all add: bit_or_iff)
  then have "stack_mapped root a1 P (n * PGSIZE) y" using P(2) top by (simp add: stack_mapped_def)
  moreover have "bytes y = bytes v" using mappages_ok[OF x(2) y al top n(1)] x(3) w(3) by simp
  ultimately show ?thesis using that[OF basic, of y] y by (simp add: mult.commute)
qed

text \<open>C12. The program that \<open>do_execve\<close> switches to (\<open>enter_image\<close>, with the pages that \<open>do_execve\<close> takes for it), when the old address
  space has been given back, the new one has no page yet and no area where the stack goes, and memory lasts: the switch succeeds and
  returns the number of arguments. The program starts at the entry point; its stack pointer and its second argument are the start of the
  stack pages, which end at the top of the stack; there its argument vector lies: entry \<open>i\<close> is the user address of the \<open>i\<close>th argument,
  and a null pointer ends it. At its third argument lies the vector of the environment, in the same form, and behind them the strings, one after
  the other. Its areas are those of the executable and the stack.\<close>

theorem program_finds_its_arguments:
  assumes old: "free_pgtable (mm_pagetable (t_mm t)) 0 (kvm s) = Some v" "free_mm_struct (t_mm t) (kfs s) = Some f"
    and new: "tree_wf v (mm_pagetable mm)" "\<forall>va<MAXVA. lookup v (mm_pagetable mm) va = 0" "stack_maxsize mm = 32"
      "\<forall>a\<in>set (vm_area_list mm). vm_start a \<le> vm_end a \<and> vm_end a \<le> vm_start stack_area"
    and n: "npg = (vector_size envp + vector_size argv + PGSIZE - 1) div PGSIZE" "npg \<le> 32" "2 * npg + 4 \<le> free_pages (phys v)"
    and P: "PGSIZE dvd P" "0 < P" "P + npg * PGSIZE \<le> 2 ^ 56"
    and src: "sources P (npg * PGSIZE) (bytes (kvm s)) argv args" "sources P (npg * PGSIZE) (bytes (kvm s)) envp vars"
  shows "\<exists>t' r s'. enter_image locs entry mm argv envp npg P t s = Some (int (length args), (t', r), s') \<and>
    tf_epc r = entry \<and> tf_sp r = tf_a1 r \<and> tf_a1 r = USER_STACK_TOP - word_of_nat (npg * PGSIZE) \<and>
    tf_a2 r = tf_a1 r + word_of_nat (8 * (length args + 1)) \<and>
    mm_pagetable (t_mm t') = mm_pagetable mm \<and> vm_area_list (t_mm t') = vm_area_list mm @ [stack_area] \<and>
    stack_mapped (mm_pagetable (t_mm t')) (tf_a1 r) P (npg * PGSIZE) (kvm s') \<and>
    vector_at (bytes (kvm s')) P (tf_a1 r) 0 (8 * (length args + length vars + 2)) args \<and>
    vector_at (bytes (kvm s')) P (tf_a1 r) (8 * (length args + 1)) (8 * (length args + length vars + 2) + total args) vars"
proof -
  let ?a = "USER_STACK_TOP - word_of_nat (PGSIZE * npg)"
  have b: "bytes v = bytes (kvm s)" using free_pgtable_keeps[OF old(1)] by simp
  have "0 < vector_size envp" by (simp add: vector_size_def)
  then have n0: "0 < npg" unfolding n(1) by (simp add: div_greater_zero_iff)
  obtain v1 v2 where v: "user_basic_pagetable (fst locs) (snd locs) (mm_pagetable mm) v = Some (0, v1)"
    "mappages (mm_pagetable mm) ?a (word_of_nat (PGSIZE * npg)) P (PTE_W OR PTE_R OR PTE_U) v1 = Some (0, v2)"
    "stack_mapped (mm_pagetable mm) ?a P (npg * PGSIZE) v2" "bytes v2 = bytes v"
    by (rule basic_and_stack_pages[OF new(1,2) n0 n(2,3) P])
  let ?mm = "mm\<lparr>start_ustack := USER_STACK_TOP, vm_area_list := vm_area_list mm @ [stack_area], map_count := map_count mm + 1\<rparr>"
  have ins: "insert_area stack_area (vm_area_list mm) = Some (vm_area_list mm @ [stack_area])"
    by (rule insert_area_last[OF new(4)]) (simp add: stack_area_def new_vmarea_struct_def)
  have area: "map_user_stack mm npg P v1 = Some (?mm, v2)"
    using v(2) ins unfolding stack_area_def
    by (simp add: map_user_stack_def add_vm_area_def new(3) OFFSETPAGE_def)
  have N: "npg * PGSIZE = PGSIZE * ((vector_size envp + vector_size argv + PGSIZE - 1) div PGSIZE)" unfolding n(1) by (rule mult.commute)
  obtain m where m: "copyout_argv_envp (mm_pagetable mm) argv envp P (?a + word_of_nat (8 * (length args + length vars + 2))) v2 = Some (0, v2\<lparr>bytes := m\<rparr>)"
    "vector_at m P ?a 0 (8 * (length args + length vars + 2)) args"
    "vector_at m P ?a (8 * (length args + 1)) (8 * (length args + length vars + 2) + total args) vars"
    using program_stack[OF N v(3)] src unfolding v(4) b by blast
  have len: "length argv = length args" "length envp = length vars" using src by (auto dest: list_all2_lengthD)
  have sp: "(length envp + 1 + (length argv + 1)) * 8 = 8 * (length args + length vars + 2)" unfolding len by simp
  have "enter_image locs entry mm argv envp npg P t s = Some (int (length args),
    (t\<lparr>t_mm := ?mm\<rparr>, \<lparr>tf_sp = ?a, tf_a1 = ?a, tf_a2 = ?a + word_of_nat ((length argv + 1) * 8), tf_epc = entry\<rparr>), s\<lparr>kvm := v2\<lparr>bytes := m\<rparr>, kfs := f\<rparr>)"
    unfolding enter_image_def Let_def sp using old v(1) area m(1) len by (simp del: of_nat_add of_nat_mult)
  then show ?thesis using m v(3) len
    by (intro exI[of _ "t\<lparr>t_mm := ?mm\<rparr>"] exI conjI) (assumption | simp add: mult.commute)+
qed

text \<open>On the booted machine: a process whose address space is empty starts \<open>ls\<close> without an environment.\<close>

lemma for_each_idle: "(\<And>i. i \<in> set xs \<Longrightarrow> f i s = Some s) \<Longrightarrow> for_each f xs s = Some s"
  by (induction xs) simp_all

lemma free_empty_pgtable: "\<forall>i. \<not> pte_valid (pgt s t i) \<Longrightarrow> free_pgtable t 0 s = Some s"
  by (simp add: free_pgtable_def numeral_2_eq_2 for_each_idle Let_def)

definition empty_mm :: "nat \<Rightarrow> mm_struct" where
  "empty_mm root = (one_area_mm root)\<lparr>vm_area_list := [], stack_maxsize := 32\<rparr>"

lemma program_finds_its_arguments_witness:
  "\<exists>root v. \<forall>ft f. \<exists>t' r s'. enter_image (0x80200000, 0x80201000) 0x10000 (empty_mm root) [(0x3000, 3)] [] 1 0x80400000
      ((task0 [] [])\<lparr>t_mm := empty_mm 0\<rparr>) ((io0 ft f)\<lparr>kvm := v\<rparr>) = Some (1, (t', r), s') \<and>
    tf_sp r = 0x3fffffd000 \<and> tf_epc r = 0x10000 \<and>
    mem_bytes (bytes (kvm s')) 0x80400000 24 = bytes64 0x3fffffd018 @ bytes64 0 @ bytes64 0 \<and>
    mem_bytes (bytes (kvm s')) 0x80400018 3 = [108, 115, 0]"
proof -
  obtain root s0 where u: "uvmcreate boot_vm = Some (root, s0)" "tree_wf s0 root" "\<And>va. lookup s0 root va = 0"
    "free_pages (phys s0) = 31743" using boot_address_space by metis
  let ?b = "(\<lambda>_. 0)(0x3000 := 108, 0x3001 := 115) :: mem"
  let ?v = "s0\<lparr>bytes := ?b\<rparr>" and ?mm = "empty_mm root" and ?t = "(task0 [] [])\<lparr>t_mm := empty_mm 0\<rparr>"
  have w: "buddy_inv (phys s0)" "mem_end (phys s0) \<le> 2 ^ 56" using u(2) by (simp_all add: tree_wf_def)
  have same: "s0\<lparr>phys := phys s0, bytes := ?b\<rparr> = ?v" by simp
  note T = tree_wf_phys[OF u(2) w subset_refl, of ?b, unfolded same]
  have "pgt s0 = (\<lambda>_ _. 0)" using u(1) by (auto simp: uvmcreate_def pgt_zalloc_def boot_vm_def hoare_simps fun_eq_iff)
  then have old: "free_pgtable (mm_pagetable (t_mm ?t)) 0 ?v = Some ?v" by (intro free_empty_pgtable) (simp add: pte_valid_def)
  have mm: "mm_pagetable ?mm = root" "vm_area_list ?mm = []" "stack_maxsize ?mm = 32" by (simp_all add: empty_mm_def one_area_mm_def)
  have src: "sources 0x80400000 (1 * PGSIZE) ?b [(0x3000, 3)] [[108, 115, 0]]"
    by (simp add: source_ok_def mem_bytes_def upt_rec less_Suc_eq numeral_3_eq_3)
  have n: "1 = (vector_size [] + vector_size [(0x3000, 3)] + PGSIZE - 1) div PGSIZE" by (simp add: vector_size_def)
  show ?thesis
  proof (intro exI[of _ root] exI[of _ ?v] allI)
    fix ft :: fcbtable_t and f :: fs
    let ?s = "(io0 ft f)\<lparr>kvm := ?v\<rparr>"
    have k: "free_pgtable (mm_pagetable (t_mm ?t)) 0 (kvm ?s) = Some ?v" "free_mm_struct (t_mm ?t) (kfs ?s) = Some f"
      "sources 0x80400000 (1 * PGSIZE) (bytes (kvm ?s)) [(0x3000, 3)] [[108, 115, 0]]"
      "sources 0x80400000 (1 * PGSIZE) (bytes (kvm ?s)) [] []"
      using old src by (simp_all add: free_mm_struct_def empty_mm_def io0_def task0_def)
    obtain t' r s' where e: "enter_image (0x80200000, 0x80201000) 0x10000 ?mm [(0x3000, 3)] [] 1 0x80400000 ?t ?s = Some (1, (t', r), s')"
      "tf_epc r = 0x10000" "tf_sp r = tf_a1 r" "tf_a1 r = USER_STACK_TOP - word_of_nat (1 * PGSIZE)"
      "vector_at (bytes (kvm s')) 0x80400000 (tf_a1 r) 0 24 [[108, 115, 0]]" "vector_at (bytes (kvm s')) 0x80400000 (tf_a1 r) 16 27 []"
      using program_finds_its_arguments[OF k(1,2) _ _ mm(3) _ n _ _ _ _ _ k(3,4), of "(0x80200000, 0x80201000)" "0x10000"] T u(3,4) mm
      by (auto simp: dvd_eq_mod_eq_0)
    let ?m = "bytes (kvm s')"
    have "mem_bytes ?m 0x80400000 24 = mem_bytes ?m 0x80400000 8 @ mem_bytes ?m (0x80400000 + 8) 8 @ mem_bytes ?m (0x80400000 + 16) 8"
      by (simp add: mem_bytes_def upt_rec)
    then show "\<exists>t' r s'. enter_image (0x80200000, 0x80201000) 0x10000 ?mm [(0x3000, 3)] [] 1 0x80400000 ?t ?s = Some (1, (t', r), s') \<and>
      tf_sp r = 0x3fffffd000 \<and> tf_epc r = 0x10000 \<and>
      mem_bytes (bytes (kvm s')) 0x80400000 24 = bytes64 0x3fffffd018 @ bytes64 0 @ bytes64 0 \<and>
      mem_bytes (bytes (kvm s')) 0x80400018 3 = [108, 115, 0]"
      using e by (intro exI[of _ t'] exI[of _ r] exI[of _ s']) (simp add: numeral_3_eq_3)
  qed
qed

end
