(* ===== verification/Ksh.thy ===== *)
theory Ksh
  imports Uniks_Base
begin

text \<open>
  The shell (user/src/ksh.c): its lexer, the recursive descent parser, and what it asks the kernel to do for a command. A line is the
  list of its bytes without the final NUL; \<open>char *\<close> into it are positions, up to its length, where the NUL is. The parser takes fuel, and \<open>None\<close> means that
  the fuel is used up; a line never needs more than four times its length and five.
\<close>

section \<open>Commands\<close>

text \<open>A token is a piece of the line or, when it had quotation marks, a buffer of its own.\<close>

datatype token = Plain nat nat | Quoted "byte list"

datatype cmd =
    EXEC "token list"
  | REDIR cmd token nat nat
  | PIPE cmd cmd
  | LIST cmd cmd
  | BACK cmd

text \<open>\<open>panic\<close> ends the shell's child; \<open>Overrun\<close> is a write behind the buffer of a quoted word.\<close>

datatype fault = Panic string | Overrun

type_synonym 'a parsed = "(fault + 'a) option"

definition andthen :: "'a parsed \<Rightarrow> ('a \<Rightarrow> 'b parsed) \<Rightarrow> 'b parsed" where
  "andthen p f = (case p of None \<Rightarrow> None | Some (Inl e) \<Rightarrow> Some (Inl e) | Some (Inr x) \<Rightarrow> f x)"

definition ok :: "'a \<Rightarrow> 'a parsed" where "ok x = Some (Inr x)"

definition panic :: "string \<Rightarrow> 'a parsed" where "panic msg = Some (Inl (Panic msg))"

abbreviation (input) MAXARGS :: nat where "MAXARGS \<equiv> 64"
abbreviation (input) MAXARGLEN :: nat where "MAXARGLEN \<equiv> 64"

section \<open>Tokens\<close>

definition whitespace :: "byte list" where "whitespace = [32, 9, 13, 10, 11]"
definition symbols :: "byte list" where "symbols = [60, 124, 62, 38, 59, 40, 41]"

definition char_at :: "byte list \<Rightarrow> nat \<Rightarrow> byte" where
  "char_at s i = (if i < length s then s ! i else 0)"

definition skip_white :: "byte list \<Rightarrow> nat \<Rightarrow> nat" where
  "skip_white s i = i + length (takeWhile (\<lambda>c. c \<in> set whitespace) (drop i s))"

text \<open>The state machine of a word: whether the end is inside quotation marks, and the kind of token.\<close>

fun word_end :: "byte list \<Rightarrow> bool \<Rightarrow> byte \<Rightarrow> nat \<Rightarrow> nat \<times> bool \<times> byte" where
  "word_end [] st ret i = (i, st, ret)"
| "word_end (c # cs) False ret i =
     (if c \<in> set whitespace \<or> c \<in> set symbols then (i, False, ret) else word_end cs (c = 34) ret (i + 1))"
| "word_end (c # cs) True ret i = word_end cs (c \<noteq> 34) 98 (i + 1)"

text \<open>The kind of token (\<open>a\<close> and \<open>b\<close> are words, without and with quotation marks), its start and end, and the next position.\<close>

definition gettoken :: "byte list \<Rightarrow> nat \<Rightarrow> (byte \<times> nat \<times> nat \<times> nat) parsed" where
  "gettoken s i = (let q = skip_white s i; c = char_at s q in
     if c = 0 then ok (c, q, q, skip_white s q)
     else if c \<in> {124, 40, 41, 59, 38, 60} then ok (c, q, q + 1, skip_white s (q + 1))
     else if c = 62 then
       (if char_at s (q + 1) = 62 then ok (43, q, q + 2, skip_white s (q + 2)) else ok (c, q, q + 1, skip_white s (q + 1)))
     else (case word_end (drop q s) False 97 q of (e, st, ret) \<Rightarrow>
       if st then panic ''syntax error - missing quotation mark'' else ok (ret, q, e, skip_white s e)))"

definition peek :: "byte list \<Rightarrow> nat \<Rightarrow> byte list \<Rightarrow> bool" where
  "peek s i toks \<longleftrightarrow> (let c = char_at s (skip_white s i) in c \<noteq> 0 \<and> c \<in> set toks)"

definition handle_quotmark :: "byte list \<Rightarrow> nat \<Rightarrow> nat \<Rightarrow> token parsed" where
  "handle_quotmark s q eq = (let b = filter (\<lambda>c. c \<noteq> 34) (take (eq - q) (drop q s))
     in if length b \<le> MAXARGLEN then ok (Quoted b) else Some (Inl Overrun))"

definition word_token :: "byte list \<Rightarrow> byte \<Rightarrow> nat \<Rightarrow> nat \<Rightarrow> token parsed" where
  "word_token s tok q eq = (if tok = 98 then handle_quotmark s q eq else ok (Plain q eq))"

section \<open>Parsing\<close>

text \<open>\<open>parseredirs\<close>: the redirections, in their order, each with its file, mode and descriptor.\<close>

definition redir_of :: "byte \<Rightarrow> token \<Rightarrow> (token \<times> nat \<times> nat) list" where
  "redir_of tok1 file =
     (if tok1 = 60 then [(file, 0, 0)] else if tok1 = 62 then [(file, 0x241, 1)] else if tok1 = 43 then [(file, 0x441, 1)] else [])"

fun parseredirs :: "nat \<Rightarrow> byte list \<Rightarrow> nat \<Rightarrow> ((token \<times> nat \<times> nat) list \<times> nat) parsed" where
  "parseredirs 0 s i = None"
| "parseredirs (Suc n) s i =
     (if peek s i [60, 62] then
        andthen (gettoken s (skip_white s i)) (\<lambda>(tok1, _, _, i1).
        andthen (gettoken s i1) (\<lambda>(tok2, q, eq, i2).
          if tok2 \<noteq> 97 \<and> tok2 \<noteq> 98 then panic ''missing file for redirection''
          else andthen (word_token s tok2 q eq) (\<lambda>file.
            andthen (parseredirs n s i2) (\<lambda>(rs, i3). ok (redir_of tok1 file @ rs, i3)))))
      else ok ([], skip_white s i))"

definition redirected :: "cmd \<Rightarrow> (token \<times> nat \<times> nat) list \<Rightarrow> cmd" where
  "redirected c rs = foldl (\<lambda>c (file, mode, fd). REDIR c file mode fd) c rs"

text \<open>The loop of \<open>parseline\<close> over \<open>&\<close>.\<close>

fun parsebacks :: "nat \<Rightarrow> byte list \<Rightarrow> cmd \<Rightarrow> nat \<Rightarrow> (cmd \<times> nat) parsed" where
  "parsebacks 0 s c i = None"
| "parsebacks (Suc n) s c i =
     (if peek s i [38] then andthen (gettoken s (skip_white s i)) (\<lambda>(_, _, _, i1). parsebacks n s (BACK c) i1)
      else ok (c, skip_white s i))"

text \<open>The loop of \<open>parseexec\<close>; the redirections wrap the command from the inside out.\<close>

fun parseargs :: "nat \<Rightarrow> byte list \<Rightarrow> token list \<Rightarrow> (token \<times> nat \<times> nat) list \<Rightarrow> nat \<Rightarrow> (cmd \<times> nat) parsed" where
  "parseargs 0 s argv rs i = None"
| "parseargs (Suc n) s argv rs i =
     (if peek s i [124, 41, 38, 59] then ok (redirected (EXEC argv) rs, skip_white s i)
      else andthen (gettoken s (skip_white s i)) (\<lambda>(tok, q, eq, i1).
        if tok = 0 then ok (redirected (EXEC argv) rs, i1)
        else if tok \<noteq> 97 \<and> tok \<noteq> 98 then panic ''syntax error''
        else andthen (word_token s tok q eq) (\<lambda>w.
          if length argv + 1 \<ge> MAXARGS then panic ''too many args''
          else andthen (parseredirs n s i1) (\<lambda>(rs1, i2). parseargs n s (argv @ [w]) (rs @ rs1) i2))))"

fun parseline :: "nat \<Rightarrow> byte list \<Rightarrow> nat \<Rightarrow> (cmd \<times> nat) parsed"
  and parseblock :: "nat \<Rightarrow> byte list \<Rightarrow> nat \<Rightarrow> (cmd \<times> nat) parsed"
  and parseexec :: "nat \<Rightarrow> byte list \<Rightarrow> nat \<Rightarrow> (cmd \<times> nat) parsed"
  and parsepipe :: "nat \<Rightarrow> byte list \<Rightarrow> nat \<Rightarrow> (cmd \<times> nat) parsed" where
  "parseline 0 s i = None"
| "parseline (Suc n) s i =
     andthen (parsepipe n s i) (\<lambda>(c, i1).
     andthen (parsebacks n s c i1) (\<lambda>(c, i2).
       if peek s i2 [59] then
         andthen (gettoken s (skip_white s i2)) (\<lambda>(_, _, _, i3).
         andthen (parseline n s i3) (\<lambda>(c2, i4). ok (LIST c c2, i4)))
       else ok (c, skip_white s i2)))"
| "parseblock 0 s i = None"
| "parseblock (Suc n) s i =
     (if \<not> peek s i [40] then panic ''parseblock''
      else andthen (gettoken s (skip_white s i)) (\<lambda>(_, _, _, i1).
        andthen (parseline n s i1) (\<lambda>(c, i2).
          if \<not> peek s i2 [41] then panic ''syntax error - missing )''
          else andthen (gettoken s (skip_white s i2)) (\<lambda>(_, _, _, i3).
            andthen (parseredirs n s i3) (\<lambda>(rs, i4). ok (redirected c rs, i4))))))"
| "parseexec 0 s i = None"
| "parseexec (Suc n) s i =
     (if peek s i [40] then parseblock n s (skip_white s i)
      else andthen (parseredirs n s (skip_white s i)) (\<lambda>(rs, i1). parseargs n s [] rs i1))"
| "parsepipe 0 s i = None"
| "parsepipe (Suc n) s i =
     andthen (parseexec n s i) (\<lambda>(c, i1).
       if peek s i1 [124] then
         andthen (gettoken s (skip_white s i1)) (\<lambda>(_, _, _, i2).
         andthen (parsepipe n s i2) (\<lambda>(c2, i3). ok (PIPE c c2, i3)))
       else ok (c, skip_white s i1))"

text \<open>\<open>nulterminate\<close> writes a NUL behind every token, in the line, whose buffer \<open>b\<close> has the NUL of the line itself at its end, or in
  the buffer of a quoted word, which must have a byte left; \<open>None\<close> is an overrun.\<close>

definition end_token :: "token \<Rightarrow> byte list \<Rightarrow> byte list option" where
  "end_token w b = (case w of Plain q e \<Rightarrow> upd_opt b e 0 | Quoted t \<Rightarrow> if length t < MAXARGLEN then Some b else None)"

primrec nulterminate :: "cmd \<Rightarrow> byte list \<Rightarrow> byte list option" where
  "nulterminate (EXEC argv) b = for_each end_token argv b"
| "nulterminate (REDIR c file mode fd) b = do { b1 \<leftarrow> nulterminate c b; end_token file b1 }"
| "nulterminate (PIPE c d) b = do { b1 \<leftarrow> nulterminate c b; nulterminate d b1 }"
| "nulterminate (LIST c d) b = do { b1 \<leftarrow> nulterminate c b; nulterminate d b1 }"
| "nulterminate (BACK c) b = nulterminate c b"

definition parsecmd :: "nat \<Rightarrow> byte list \<Rightarrow> (cmd \<times> byte list) parsed" where
  "parsecmd n s =
     andthen (parseline n s 0) (\<lambda>(c, i).
       if skip_white s i \<noteq> length s then panic ''syntax error'' else (case nulterminate c (s @ [0]) of None \<Rightarrow> Some (Inl Overrun) | Some b \<Rightarrow> ok (c, b)))"

section \<open>Returning\<close>

text \<open>A parser returns: it panics, it overruns the buffer of a quoted word, which takes a long line with quotation marks, or it delivers a result with a property.\<close>

definition long_quote :: "byte list \<Rightarrow> bool" where
  "long_quote s \<longleftrightarrow> 34 \<in> set s \<and> MAXARGLEN < length s"

definition returns :: "byte list \<Rightarrow> 'a parsed \<Rightarrow> ('a \<Rightarrow> bool) \<Rightarrow> bool" where
  "returns s p Q \<longleftrightarrow> (\<exists>msg. p = Some (Inl (Panic msg))) \<or> (p = Some (Inl Overrun) \<and> long_quote s) \<or> (\<exists>x. p = Some (Inr x) \<and> Q x)"

lemma returns_andthen: "returns s p Q \<Longrightarrow> (\<And>x. Q x \<Longrightarrow> returns s (f x) R) \<Longrightarrow> returns s (andthen p f) R"
  by (cases p rule: option.exhaust) (auto simp: returns_def andthen_def split: sum.splits)

lemma returns_simps [simp]: "returns s (ok x) Q \<longleftrightarrow> Q x" "returns s (panic msg) Q" "returns s (Some (Inl Overrun)) Q \<longleftrightarrow> long_quote s"
  by (simp_all add: returns_def ok_def panic_def)

lemma returns_If: "(b \<Longrightarrow> returns s p Q) \<Longrightarrow> (\<not> b \<Longrightarrow> returns s q Q) \<Longrightarrow> returns s (if b then p else q) Q"
  by simp

lemma returns_mono: "returns s p Q \<Longrightarrow> (\<And>x. Q x \<Longrightarrow> R x) \<Longrightarrow> returns s p R"
  by (auto simp: returns_def)

section \<open>Words of a line\<close>

abbreviation (input) delim :: "byte \<Rightarrow> bool" where "delim c \<equiv> c \<in> set whitespace \<or> c \<in> set symbols"

text \<open>A word: characters that neither separate nor are symbols, as many as there are.\<close>

definition word_ok :: "byte list \<Rightarrow> nat \<times> nat \<Rightarrow> bool" where
  "word_ok s w \<longleftrightarrow> (case w of (q, e) \<Rightarrow> q < e \<and> e \<le> length s \<and> (\<forall>k. q \<le> k \<and> k < e \<longrightarrow> \<not> delim (s ! k)) \<and> (e = length s \<or> delim (s ! e)))"

definition token_ok :: "byte list \<Rightarrow> token \<Rightarrow> bool" where
  "token_ok s w = (case w of Plain q e \<Rightarrow> word_ok s (q, e) | Quoted b \<Rightarrow> 34 \<in> set s \<and> length b < length s \<and> set b \<subseteq> set s)"

primrec cmd_tokens :: "cmd \<Rightarrow> token set" where
  "cmd_tokens (EXEC argv) = set argv"
| "cmd_tokens (REDIR c w mode fd) = insert w (cmd_tokens c)"
| "cmd_tokens (PIPE c d) = cmd_tokens c \<union> cmd_tokens d"
| "cmd_tokens (LIST c d) = cmd_tokens c \<union> cmd_tokens d"
| "cmd_tokens (BACK c) = cmd_tokens c"

abbreviation (input) tokens_ok :: "byte list \<Rightarrow> token set \<Rightarrow> bool" where "tokens_ok s T \<equiv> \<forall>w\<in>T. token_ok s w"

text \<open>Redirections are of the input or the output.\<close>

primrec std_fds :: "cmd \<Rightarrow> bool" where
  "std_fds (EXEC argv) \<longleftrightarrow> True"
| "std_fds (REDIR c w mode fd) \<longleftrightarrow> fd < 2 \<and> std_fds c"
| "std_fds (PIPE c d) \<longleftrightarrow> std_fds c \<and> std_fds d"
| "std_fds (LIST c d) \<longleftrightarrow> std_fds c \<and> std_fds d"
| "std_fds (BACK c) \<longleftrightarrow> std_fds c"

definition cmd_fine :: "byte list \<Rightarrow> cmd \<Rightarrow> bool" where
  "cmd_fine s c \<longleftrightarrow> tokens_ok s (cmd_tokens c) \<and> std_fds c"

definition redirs_fine :: "byte list \<Rightarrow> (token \<times> nat \<times> nat) list \<Rightarrow> bool" where
  "redirs_fine s rs \<longleftrightarrow> (\<forall>r\<in>set rs. token_ok s (fst r) \<and> snd (snd r) < 2)"

lemma cmd_fine_simps [simp]:
  "cmd_fine s (EXEC argv) \<longleftrightarrow> tokens_ok s (set argv)" "cmd_fine s (REDIR c w mode fd) \<longleftrightarrow> cmd_fine s c \<and> token_ok s w \<and> fd < 2"
  "cmd_fine s (PIPE c d) \<longleftrightarrow> cmd_fine s c \<and> cmd_fine s d" "cmd_fine s (LIST c d) \<longleftrightarrow> cmd_fine s c \<and> cmd_fine s d"
  "cmd_fine s (BACK c) \<longleftrightarrow> cmd_fine s c"
  by (auto simp: cmd_fine_def)

lemma redirs_fine_simps [simp]: "redirs_fine s []" "redirs_fine s (rs @ rs') \<longleftrightarrow> redirs_fine s rs \<and> redirs_fine s rs'"
  by (auto simp: redirs_fine_def)

lemma redirs_fine_redir_of [simp]: "token_ok s w \<Longrightarrow> redirs_fine s (redir_of t w)"
  by (simp add: redirs_fine_def redir_of_def)

lemma cmd_fine_redirected [simp]: "cmd_fine s (redirected c rs) \<longleftrightarrow> cmd_fine s c \<and> redirs_fine s rs"
  by (induction rs arbitrary: c) (auto simp: redirected_def redirs_fine_def)

section \<open>The lexer\<close>

lemma skip_white_bounds: "i \<le> length s \<Longrightarrow> i \<le> skip_white s i \<and> skip_white s i \<le> length s"
  using length_takeWhile_le[of "\<lambda>c. c \<in> set whitespace" "drop i s"] by (simp add: skip_white_def)

lemma skip_white_stops: "skip_white s i < length s \<Longrightarrow> s ! skip_white s i \<notin> set whitespace"
  using nth_length_takeWhile[of "\<lambda>c. c \<in> set whitespace" "drop i s"] by (simp add: skip_white_def)

lemma takeWhile_dropWhile_Nil: "takeWhile P (dropWhile P xs) = []"
  by (induction xs) auto

lemma skip_white_idem [simp]: "skip_white s (skip_white s i) = skip_white s i"
proof -
  have "drop (skip_white s i) s = dropWhile (\<lambda>c. c \<in> set whitespace) (drop i s)"
    by (simp add: skip_white_def dropWhile_eq_drop add.commute)
  then have "takeWhile (\<lambda>c. c \<in> set whitespace) (drop (skip_white s i) s) = []" by (simp only: takeWhile_dropWhile_Nil)
  then show ?thesis by (subst skip_white_def) simp
qed

lemma nth_Cons_diff: "i + 1 \<le> k \<Longrightarrow> (c # cs) ! (k - i) = cs ! (k - (i + 1))"
  by (simp add: nth_Cons')

lemma word_end_state: "word_end cs st ret i = (e, st', r) \<Longrightarrow> ret \<in> {97, 98} \<Longrightarrow> i \<le> e \<and> e \<le> i + length cs \<and> r \<in> {97, 98} \<and>
    (\<not> st' \<longrightarrow> e = i + length cs \<or> delim (cs ! (e - i)))"
proof (induction cs st ret i rule: word_end.induct)
  case (2 c cs ret i)
  show ?case
  proof (cases "delim c")
    case False
    then have w: "word_end cs (c = 34) ret (i + 1) = (e, st', r)" using 2(2) by (simp split: if_splits)
    then show ?thesis using 2(1)[OF False w 2(3)] nth_Cons_diff[of i e c cs] by auto
  qed (use 2 in auto)
next
  case (3 c cs ret i)
  from 3(2) have "word_end cs (c \<noteq> 34) 98 (i + 1) = (e, st', r)" by simp
  from 3(1)[OF this] show ?case using nth_Cons_diff[of i e c cs] by auto
qed auto

lemma word_end_98: "word_end cs st 98 i = (e, st', r) \<Longrightarrow> r = 98"
  by (induction cs st "98 :: byte" i rule: word_end.induct) (auto split: if_splits)

lemma word_end_mark: "word_end cs st ret i = (e, st', 98) \<Longrightarrow> ret = 97 \<Longrightarrow> \<not> st \<Longrightarrow> 34 \<in> set cs"
proof (induction cs st ret i rule: word_end.induct)
  case (2 c cs ret i)
  then show ?case by (cases "c = 34") (auto split: if_splits)
qed auto

lemma word_end_plain: "word_end cs st ret i = (e, st', r) \<Longrightarrow> \<not> st \<Longrightarrow> \<not> st' \<Longrightarrow> r = 97 \<Longrightarrow> i \<le> k \<Longrightarrow> k < e \<Longrightarrow> \<not> delim (cs ! (k - i))"
proof (induction cs st ret i rule: word_end.induct)
  case (2 c cs ret i)
  have nd: "\<not> delim c" using 2(2,6,7) by (auto split: if_splits)
  then have w: "word_end cs (c = 34) ret (i + 1) = (e, st', r)" using 2(2) by (simp split: if_splits)
  have "c \<noteq> 34"
  proof
    assume "c = 34"
    then show False using w 2(4,5) by (cases cs) (auto dest: word_end_98)
  qed
  show ?case
  proof (cases "k = i")
    case False
    then have "\<not> delim (cs ! (k - (i + 1)))" using 2(1)[OF nd w] \<open>c \<noteq> 34\<close> 2(4,5,6,7) by simp
    then show ?thesis using False 2(6) nth_Cons_diff[of i k c cs] by simp
  qed (use nd in simp)
qed auto

text \<open>What \<open>gettoken\<close> takes for a word is one, and it goes on unless it is at the end.\<close>

definition tok_ok :: "byte list \<Rightarrow> nat \<Rightarrow> byte \<times> nat \<times> nat \<times> nat \<Rightarrow> bool" where
  "tok_ok s i = (\<lambda>(t, q, e, j). i \<le> j \<and> j \<le> length s \<and> (t \<noteq> 0 \<or> skip_white s i < length s \<longrightarrow> i < j) \<and> (t = 97 \<longrightarrow> word_ok s (q, e)) \<and> (t = 98 \<longrightarrow> 34 \<in> set s))"

lemma char_at_end: "char_at s q \<noteq> 0 \<Longrightarrow> q < length s"
  by (simp add: char_at_def split: if_splits)

lemma skip_step: "char_at s q \<noteq> 0 \<Longrightarrow> q < skip_white s (q + 1) \<and> skip_white s (q + 1) \<le> length s"
  using skip_white_bounds[of "q + 1" s] char_at_end[of s q] by simp

lemma gettoken_word:
  assumes l: "skip_white s i < length s" and nd: "\<not> delim (s ! skip_white s i)" and i: "i \<le> length s"
    and w: "word_end (drop (skip_white s i) s) False 97 (skip_white s i) = (e, False, r)"
  shows "tok_ok s i (r, skip_white s i, e, skip_white s e)"
proof -
  let ?q = "skip_white s i"
  note W = word_end_state[OF w, simplified]
  have b: "i \<le> ?q" "e \<le> length s" using skip_white_bounds[OF i] W l by auto
  have d: "drop ?q s = s ! ?q # drop (Suc ?q) s" using l by (simp add: Cons_nth_drop_Suc)
  have "word_end (drop (Suc ?q) s) (s ! ?q = 34) 97 (?q + 1) = (e, False, r)" using w nd unfolding d by (simp split: if_splits)
  from word_end_state[OF this] have q: "?q < e" by simp
  have "word_ok s (?q, e)" if "r = 97"
    using word_end_plain[OF w _ _ that] W l q b by (auto simp: word_ok_def)
  moreover have "34 \<in> set s" if "r = 98"
    using word_end_mark[OF w[unfolded that]] by (auto dest: in_set_dropD)
  ultimately show ?thesis using b q skip_white_bounds[OF b(2)] by (simp add: tok_ok_def)
qed

lemma gettoken_returns:
  assumes i: "i \<le> length s" "0 \<notin> set s"
  shows "returns s (gettoken s i) (tok_ok s i)"
proof -
  let ?q = "skip_white s i" and ?c = "char_at s (skip_white s i)"
  have q: "i \<le> ?q" "?q \<le> length s" using skip_white_bounds[OF i(1)] by simp_all
  have z: "?c = 0 \<longleftrightarrow> ?q = length s" using q(2) i(2) by (auto simp: char_at_def in_set_conv_nth)
  consider (eol) "?c = 0" | (sym) "?c \<in> {124, 40, 41, 59, 38, 60}" | (gt) "?c = 62" | (word) "?c \<noteq> 0" "?c \<notin> {124, 40, 41, 59, 38, 60}" "?c \<noteq> 62"
    by blast
  then show ?thesis
  proof cases
    case eol
    then show ?thesis using q z skip_white_bounds[of "length s" s] by (simp add: gettoken_def Let_def tok_ok_def)
  next
    case sym
    then have c: "?c \<noteq> 0" "?c \<noteq> 97" "?c \<noteq> 98" by auto
    have g: "gettoken s i = ok (?c, ?q, ?q + 1, skip_white s (?q + 1))" using sym c unfolding gettoken_def Let_def by (simp only: if_True if_False)
    show ?thesis unfolding g using skip_step[OF c(1)] q c by (simp add: tok_ok_def)
  next
    case gt
    then have c: "?c \<noteq> 0" by simp
    have "char_at s (?q + 1) = 62 \<Longrightarrow> ?q + 1 < skip_white s (?q + 1 + 1) \<and> skip_white s (?q + 1 + 1) \<le> length s"
      by (rule skip_step) simp
    then show ?thesis using skip_step[OF c] q gt by (auto simp: gettoken_def Let_def tok_ok_def)
  next
    case word
    have l: "?q < length s" using z q(2) word(1) by simp
    have nd: "\<not> delim (s ! ?q)" using word l skip_white_stops[OF l] by (simp add: char_at_def symbols_def)
    obtain e st r where w: "word_end (drop ?q s) False 97 ?q = (e, st, r)" by (cases "word_end (drop ?q s) False 97 ?q") auto
    have g: "gettoken s i = (if st then panic ''syntax error - missing quotation mark'' else ok (r, ?q, e, skip_white s e))"
      using word unfolding gettoken_def Let_def w by (simp only: if_False prod.case)
    show ?thesis using gettoken_word[OF l nd i(1)] w unfolding g by (cases st) simp_all
  qed
qed

lemma peek_inside: "peek s i toks \<Longrightarrow> skip_white s i < length s"
  by (simp add: peek_def Let_def char_at_end)

lemma handle_quotmark_returns:
  assumes "34 \<in> set s"
  shows "returns s (handle_quotmark s q e) (token_ok s)"
proof -
  let ?b = "filter (\<lambda>c. c \<noteq> 34) (take (e - q) (drop q s))"
  have "length ?b \<le> length (filter (\<lambda>c. c \<noteq> 34) (drop q s))"
    by (subst (2) append_take_drop_id[of "e - q" "drop q s", symmetric]) (simp del: append_take_drop_id)
  also have "\<dots> \<le> length (filter (\<lambda>c. c \<noteq> 34) s)"
    by (subst (2) append_take_drop_id[of q s, symmetric]) (simp del: append_take_drop_id)
  also have "\<dots> < length s" by (rule length_filter_less[OF assms]) simp
  finally have "length ?b < length s" .
  moreover have "set ?b \<subseteq> set s" by (auto dest: in_set_takeD in_set_dropD)
  ultimately show ?thesis using assms by (simp add: handle_quotmark_def Let_def token_ok_def long_quote_def)
qed

lemma word_token_returns: "tok_ok s i (t, q, e, j) \<Longrightarrow> returns s (word_token s t q e) (token_ok s)" if "t = 97 \<or> t = 98"
  using that handle_quotmark_returns[of s q e] by (auto simp: tok_ok_def word_token_def token_ok_def)

section \<open>The parser returns\<close>

abbreviation (input) past :: "byte list \<Rightarrow> nat \<Rightarrow> nat \<Rightarrow> bool" where "past s i j \<equiv> i \<le> j \<and> j \<le> length s"

definition cmd_ok :: "byte list \<Rightarrow> nat \<Rightarrow> cmd \<times> nat \<Rightarrow> bool" where
  "cmd_ok s i = (\<lambda>(c, j). past s i j \<and> cmd_fine s c)"

definition redirs_ok :: "byte list \<Rightarrow> nat \<Rightarrow> (token \<times> nat \<times> nat) list \<times> nat \<Rightarrow> bool" where
  "redirs_ok s i = (\<lambda>(rs, j). past s i j \<and> redirs_fine s rs)"

text \<open>A token behind white space: it is the one that \<open>peek\<close> saw.\<close>

lemma gettoken_after_peek:
  assumes "i \<le> length s" "0 \<notin> set s" "skip_white s i < length s"
  shows "returns s (gettoken s (skip_white s i)) (\<lambda>(t, q, e, j). tok_ok s (skip_white s i) (t, q, e, j) \<and> i < j \<and> j \<le> length s)"
  by (rule returns_mono[OF gettoken_returns]) (use assms skip_white_bounds[OF assms(1)] in \<open>auto simp: tok_ok_def\<close>)

lemma parseredirs_returns:
  assumes nz: "0 \<notin> set s"
  shows "i \<le> length s \<Longrightarrow> length s - i < n \<Longrightarrow> returns s (parseredirs n s i) (redirs_ok s i)"
proof (induction n arbitrary: i)
  case (Suc n)
  show ?case
  proof (cases "peek s i [60, 62]")
    case True
    show ?thesis unfolding parseredirs.simps if_P[OF True]
    proof (rule returns_andthen[OF gettoken_after_peek[OF Suc.prems(1) nz peek_inside[OF True]]], clarify)
      fix t1 q1 e1 i1
      assume i1: "i < i1" "i1 \<le> length s"
      show "returns s (andthen (gettoken s i1) (\<lambda>(tok2, q, eq, i2).
          if tok2 \<noteq> 97 \<and> tok2 \<noteq> 98 then panic ''missing file for redirection''
          else andthen (word_token s tok2 q eq) (\<lambda>file. andthen (parseredirs n s i2) (\<lambda>(rs, i3). ok (redir_of t1 file @ rs, i3)))))
        (redirs_ok s i)"
      proof (rule returns_andthen[OF gettoken_returns[OF i1(2) nz]], clarify, rule returns_If)
        fix t2 q e i2
        assume t: "tok_ok s i1 (t2, q, e, i2)" and w: "\<not> (t2 \<noteq> 97 \<and> t2 \<noteq> 98)"
        have w': "t2 = 97 \<or> t2 = 98" using w by blast
        show "returns s (andthen (word_token s t2 q e) (\<lambda>file. andthen (parseredirs n s i2) (\<lambda>(rs, i3). ok (redir_of t1 file @ rs, i3)))) (redirs_ok s i)"
        proof (rule returns_andthen[OF word_token_returns[OF w' t]], rule returns_andthen[OF Suc.IH])
          show "i2 \<le> length s" using t by (simp add: tok_ok_def)
          show "length s - i2 < n" using t w' i1 Suc.prems by (auto simp: tok_ok_def)
        qed (use t i1 in \<open>auto simp: redirs_ok_def tok_ok_def\<close>)
      qed simp
    qed
  qed (use skip_white_bounds[OF Suc.prems(1)] in \<open>simp add: redirs_ok_def\<close>)
qed simp

lemma parsebacks_returns:
  assumes nz: "0 \<notin> set s" and c: "cmd_fine s c"
  shows "i \<le> length s \<Longrightarrow> length s - i < n \<Longrightarrow> returns s (parsebacks n s c i) (cmd_ok s i)"
  using c
proof (induction n arbitrary: i c)
  case (Suc n)
  show ?case
  proof (cases "peek s i [38]")
    case True
    show ?thesis unfolding parsebacks.simps if_P[OF True]
    proof (rule returns_andthen[OF gettoken_after_peek[OF Suc.prems(1) nz peek_inside[OF True]]], clarify)
      fix i1
      assume i1: "i < i1" "i1 \<le> length s"
      show "returns s (parsebacks n s (BACK c) i1) (cmd_ok s i)"
        by (rule returns_mono[OF Suc.IH]) (use i1 Suc.prems in \<open>auto simp: cmd_ok_def\<close>)
    qed
  qed (use Suc.prems skip_white_bounds[OF Suc.prems(1)] in \<open>simp add: cmd_ok_def\<close>)
qed simp

lemma parseargs_returns:
  assumes nz: "0 \<notin> set s"
  shows "i \<le> length s \<Longrightarrow> length s - i < n \<Longrightarrow> tokens_ok s (set argv) \<Longrightarrow> redirs_fine s rs \<Longrightarrow>
    returns s (parseargs n s argv rs i) (cmd_ok s i)"
proof (induction n arbitrary: i argv rs)
  case (Suc n)
  note sw = skip_white_bounds[OF Suc.prems(1)]
  show ?case unfolding parseargs.simps
  proof (rule returns_If, goal_cases)
    case 1
    then show ?case using Suc.prems sw by (auto simp: cmd_ok_def)
  next
    case 2
    show ?case
    proof (rule returns_andthen[OF gettoken_returns[OF conjunct2[OF sw] nz]], clarify, rule returns_If, goal_cases)
      case (1 t q e i1)
      then show ?case using Suc.prems sw by (auto simp: cmd_ok_def tok_ok_def)
    next
      case (2 t q e i1)
      show ?case
      proof (rule returns_If, simp, goal_cases)
        case 1
        then have w: "t = 97 \<or> t = 98" by blast
        have i1: "i < i1" "i1 \<le> length s" using 2 w sw by (auto simp: tok_ok_def)
        show ?case
        proof (rule returns_andthen[OF word_token_returns[OF w 2(1)]], rule returns_If, simp, rule returns_andthen[OF parseredirs_returns[OF nz]])
          show "i1 \<le> length s" "length s - i1 < n" using i1 Suc.prems(1,2) by simp_all
          fix x y
          assume y: "redirs_ok s i1 y" and x: "token_ok s x"
          obtain rs1 i2 where [simp]: "y = (rs1, i2)" by (cases y)
          show "returns s (case y of (rs1, i2) \<Rightarrow> parseargs n s (argv @ [x]) (rs @ rs1) i2) (cmd_ok s i)"
            using y i1 Suc.prems x unfolding \<open>y = _\<close> prod.case
            by (intro returns_mono[OF Suc.IH]) (auto simp: redirs_ok_def cmd_ok_def)
        qed
      qed
    qed
  qed
qed simp

lemma cmd_ok_mono: "returns s p (cmd_ok s j) \<Longrightarrow> i \<le> j \<Longrightarrow> returns s p (cmd_ok s i)"
  by (erule returns_mono) (auto simp: cmd_ok_def)

lemma after_symbol:
  assumes "peek s i toks" "i \<le> length s" "0 \<notin> set s" "\<And>j. i < j \<Longrightarrow> j \<le> length s \<Longrightarrow> returns s (f j) R"
  shows "returns s (andthen (gettoken s (skip_white s i)) (\<lambda>(_, _, _, j). f j)) R"
proof (rule returns_andthen[OF gettoken_after_peek[OF assms(2,3) peek_inside[OF assms(1)]]], clarify)
  fix j
  assume "i < j" "j \<le> length s"
  then show "returns s (f j) R" by (rule assms(4))
qed

text \<open>The four parsers, with the fuel that each needs for the rest of the line.\<close>

definition parsers_return :: "byte list \<Rightarrow> nat \<Rightarrow> bool" where
  "parsers_return s n \<longleftrightarrow> (\<forall>i\<le>length s.
     (4 * (length s - i) + 5 \<le> n \<longrightarrow> returns s (parseline n s i) (cmd_ok s i)) \<and>
     (4 * (length s - i) + 4 \<le> n \<longrightarrow> returns s (parsepipe n s i) (cmd_ok s i)) \<and>
     (4 * (length s - i) + 3 \<le> n \<longrightarrow> returns s (parseexec n s i) (cmd_ok s i)) \<and>
     (4 * (length s - i) + 2 \<le> n \<longrightarrow> returns s (parseblock n s i) (cmd_ok s i)))"

lemma parseline_step:
  assumes nz: "0 \<notin> set s" and IH: "parsers_return s n" and i: "i \<le> length s" "4 * (length s - i) + 5 \<le> Suc n"
  shows "returns s (parseline (Suc n) s i) (cmd_ok s i)"
proof -
  have "returns s (parsepipe n s i) (cmd_ok s i)" using IH i by (simp add: parsers_return_def)
  then show ?thesis unfolding parseline.simps
  proof (rule returns_andthen, clarify)
    fix c i1
    assume "cmd_ok s i (c, i1)"
    then have c: "past s i i1" "cmd_fine s c" by (simp_all add: cmd_ok_def)
    have "returns s (parsebacks n s c i1) (cmd_ok s i1)" by (rule parsebacks_returns[OF nz c(2)]) (use c i in auto)
    then show "returns s (andthen (parsebacks n s c i1) (\<lambda>(c, i2). if peek s i2 [59] then
         andthen (gettoken s (skip_white s i2)) (\<lambda>(_, _, _, i3). andthen (parseline n s i3) (\<lambda>(c2, i4). ok (LIST c c2, i4)))
       else ok (c, skip_white s i2))) (cmd_ok s i)"
    proof (rule returns_andthen, clarify, intro returns_If)
      fix d i2
      assume "cmd_ok s i1 (d, i2)"
      then have d: "past s i i2" "cmd_fine s d" using c by (auto simp: cmd_ok_def)
      show "returns s (ok (d, skip_white s i2)) (cmd_ok s i)" using d skip_white_bounds[of i2 s] by (simp add: cmd_ok_def)
      assume p: "peek s i2 [59]"
      show "returns s (andthen (gettoken s (skip_white s i2)) (\<lambda>(_, _, _, i3). andthen (parseline n s i3) (\<lambda>(c2, i4). ok (LIST d c2, i4)))) (cmd_ok s i)"
      proof (rule after_symbol[OF p d(1)[THEN conjunct2] nz])
        fix j
        assume j: "i2 < j" "j \<le> length s"
        have "returns s (parseline n s j) (cmd_ok s j)" using IH i j d by (simp add: parsers_return_def)
        then show "returns s (andthen (parseline n s j) (\<lambda>(c2, i4). ok (LIST d c2, i4))) (cmd_ok s i)"
          by (rule returns_andthen) (use j d in \<open>auto simp: cmd_ok_def\<close>)
      qed
    qed
  qed
qed

lemma parsepipe_step:
  assumes nz: "0 \<notin> set s" and IH: "parsers_return s n" and i: "i \<le> length s" "4 * (length s - i) + 4 \<le> Suc n"
  shows "returns s (parsepipe (Suc n) s i) (cmd_ok s i)"
proof -
  have "returns s (parseexec n s i) (cmd_ok s i)" using IH i by (simp add: parsers_return_def)
  then show ?thesis unfolding parsepipe.simps
  proof (rule returns_andthen, clarify, intro returns_If)
    fix d i2
    assume "cmd_ok s i (d, i2)"
    then have d: "past s i i2" "cmd_fine s d" by (auto simp: cmd_ok_def)
    show "returns s (ok (d, skip_white s i2)) (cmd_ok s i)" using d skip_white_bounds[of i2 s] by (simp add: cmd_ok_def)
    assume p: "peek s i2 [124]"
    show "returns s (andthen (gettoken s (skip_white s i2)) (\<lambda>(_, _, _, i3). andthen (parsepipe n s i3) (\<lambda>(c2, i4). ok (PIPE d c2, i4)))) (cmd_ok s i)"
    proof (rule after_symbol[OF p d(1)[THEN conjunct2] nz])
      fix j
      assume j: "i2 < j" "j \<le> length s"
      have "returns s (parsepipe n s j) (cmd_ok s j)" using IH i j d by (simp add: parsers_return_def)
      then show "returns s (andthen (parsepipe n s j) (\<lambda>(c2, i4). ok (PIPE d c2, i4))) (cmd_ok s i)"
        by (rule returns_andthen) (use j d in \<open>auto simp: cmd_ok_def\<close>)
    qed
  qed
qed

lemma parseexec_step:
  assumes nz: "0 \<notin> set s" and IH: "parsers_return s n" and i: "i \<le> length s" "4 * (length s - i) + 3 \<le> Suc n"
  shows "returns s (parseexec (Suc n) s i) (cmd_ok s i)"
proof -
  have sk: "past s i (skip_white s i)" using skip_white_bounds[of i s] i by simp
  have "returns s (parseblock n s (skip_white s i)) (cmd_ok s (skip_white s i))"
    using IH i sk by (auto simp: parsers_return_def)
  then have "returns s (parseblock n s (skip_white s i)) (cmd_ok s i)" by (rule cmd_ok_mono) (use sk in simp)
  moreover have "returns s (parseredirs n s (skip_white s i)) (redirs_ok s (skip_white s i))"
    by (rule parseredirs_returns[OF nz]) (use i sk in linarith)+
  then have "returns s (andthen (parseredirs n s (skip_white s i)) (\<lambda>(rs, i1). parseargs n s [] rs i1)) (cmd_ok s i)"
  proof (rule returns_andthen, clarify)
    fix rs i1
    assume r: "redirs_ok s (skip_white s i) (rs, i1)"
    show "returns s (parseargs n s [] rs i1) (cmd_ok s i)"
      by (rule cmd_ok_mono[OF parseargs_returns[OF nz]]) (use r i sk in \<open>auto simp: redirs_ok_def\<close>)
  qed
  ultimately show ?thesis unfolding parseexec.simps by (intro returns_If)
qed

lemma parseblock_step:
  assumes nz: "0 \<notin> set s" and IH: "parsers_return s n" and i: "i \<le> length s" "4 * (length s - i) + 2 \<le> Suc n"
  shows "returns s (parseblock (Suc n) s i) (cmd_ok s i)"
  unfolding parseblock.simps
proof (rule returns_If, simp, rule after_symbol[OF _ i(1) nz], erule notnotD)
  fix j
  assume j: "i < j" "j \<le> length s"
  have "returns s (parseline n s j) (cmd_ok s j)" using IH i j by (simp add: parsers_return_def)
  then show "returns s (andthen (parseline n s j) (\<lambda>(c, i2).
      if \<not> peek s i2 [41] then panic ''syntax error - missing )''
      else andthen (gettoken s (skip_white s i2)) (\<lambda>(_, _, _, i3). andthen (parseredirs n s i3) (\<lambda>(rs, i4). ok (redirected c rs, i4))))) (cmd_ok s i)"
  proof (rule returns_andthen, clarify, intro returns_If)
    fix c i2
    assume c: "cmd_ok s j (c, i2)" and p: "\<not> \<not> peek s i2 [41]"
    show "returns s (andthen (gettoken s (skip_white s i2)) (\<lambda>(_, _, _, i3). andthen (parseredirs n s i3) (\<lambda>(rs, i4). ok (redirected c rs, i4)))) (cmd_ok s i)"
    proof (rule after_symbol[OF notnotD[OF p] _ nz])
      show "i2 \<le> length s" using c by (simp add: cmd_ok_def)
      fix k
      assume k: "i2 < k" "k \<le> length s"
      have "returns s (parseredirs n s k) (redirs_ok s k)" by (rule parseredirs_returns[OF nz k(2)]) (use c k i j in \<open>auto simp: cmd_ok_def\<close>)
      then show "returns s (andthen (parseredirs n s k) (\<lambda>(rs, i4). ok (redirected c rs, i4))) (cmd_ok s i)"
        by (rule returns_andthen) (use c k j in \<open>auto simp: cmd_ok_def redirs_ok_def\<close>)
    qed
  qed simp
qed

lemma parsers_return_all: "0 \<notin> set s \<Longrightarrow> parsers_return s n"
proof (induction n)
  case (Suc n)
  then have IH: "parsers_return s n" by simp
  note steps = parseline_step[OF Suc.prems IH] parsepipe_step[OF Suc.prems IH] parseexec_step[OF Suc.prems IH] parseblock_step[OF Suc.prems IH]
  show ?case unfolding parsers_return_def using steps by blast
qed (simp add: parsers_return_def)

section \<open>Ending the words\<close>

text \<open>Words end where no word has a character, so writing a NUL there leaves every word as it is.\<close>

definition ended :: "nat set \<Rightarrow> byte list \<Rightarrow> byte list \<Rightarrow> bool" where
  "ended E b b' \<longleftrightarrow> length b' = length b \<and> (\<forall>k<length b. b' ! k = (if k \<in> E then 0 else b ! k))"

lemma ended_trans: "ended E b b1 \<Longrightarrow> ended F b1 b2 \<Longrightarrow> ended (E \<union> F) b b2"
  by (simp add: ended_def)

lemma ended_refl: "ended {} b b"
  by (simp add: ended_def)

lemma ended_set_nul: "ended {e} b (b[e := 0])"
  by (simp add: ended_def nth_list_update)

text \<open>What ends the words among the tokens \<open>T\<close> overruns a buffer only where a quoted word fills it.\<close>

definition ends :: "token set \<Rightarrow> nat set" where
  "ends T = {e. \<exists>q. Plain q e \<in> T}"

lemma ends_simps [simp]: "ends (T \<union> U) = ends T \<union> ends U" "ends {} = {}" "ends {Plain q e} = {e}" "ends {Quoted b} = {}"
  by (auto simp: ends_def)

definition terminates :: "byte list \<Rightarrow> (byte list \<Rightarrow> byte list option) \<Rightarrow> token set \<Rightarrow> bool" where
  "terminates s f T \<longleftrightarrow> (tokens_ok s T \<longrightarrow> (\<forall>b. length b = length s + 1 \<longrightarrow>
     (f b = None \<and> long_quote s) \<or> (\<exists>b'. f b = Some b' \<and> ended (ends T) b b')))"

lemma terminates_bind:
  assumes f: "terminates s f T" and g: "terminates s g U"
  shows "terminates s (\<lambda>b. do { b1 \<leftarrow> f b; g b1 }) (T \<union> U)"
  unfolding terminates_def
proof (intro impI allI)
  fix b :: "byte list"
  assume W: "tokens_ok s (T \<union> U)" and b: "length b = length s + 1"
  consider "f b = None" "long_quote s" | b1 where "f b = Some b1" "ended (ends T) b b1" using f W b by (auto simp: terminates_def)
  then show "(do { b1 \<leftarrow> f b; g b1 } = None \<and> long_quote s) \<or> (\<exists>b'. do { b1 \<leftarrow> f b; g b1 } = Some b' \<and> ended (ends (T \<union> U)) b b')"
  proof cases
    case (2 b1)
    then have "length b1 = length s + 1" using b by (simp add: ended_def)
    then consider "g b1 = None" "long_quote s" | b2 where "g b1 = Some b2" "ended (ends U) b1 b2" using g W by (auto simp: terminates_def)
    then show ?thesis by cases (use 2 ended_trans[OF 2(2)] in auto)
  qed simp
qed

lemma terminates_token: "terminates s (end_token w) {w}"
  by (cases w) (auto simp: terminates_def end_token_def token_ok_def word_ok_def long_quote_def ended_set_nul ended_refl)

lemma terminates_tokens: "terminates s (for_each end_token ws) (set ws)"
proof (induction ws)
  case (Cons w ws)
  have "for_each end_token (w # ws) = (\<lambda>b. do { b1 \<leftarrow> end_token w b; for_each end_token ws b1 })"
    by (rule ext) (simp split: option.split)
  then show ?case using terminates_bind[OF terminates_token Cons] by simp
qed (simp add: terminates_def ended_refl)

lemma nulterminate_terminates: "terminates s (nulterminate c) (cmd_tokens c)"
proof (induction c)
  case (EXEC argv)
  have "nulterminate (EXEC argv) = for_each end_token argv" by (rule ext) simp
  then show ?case using terminates_tokens by simp
next
  case (REDIR c w mode fd)
  have "nulterminate (REDIR c w mode fd) = (\<lambda>b. do { b1 \<leftarrow> nulterminate c b; end_token w b1 })" by (rule ext) simp
  then show ?case using terminates_bind[OF REDIR terminates_token] by simp
next
  case (PIPE c d)
  have "nulterminate (PIPE c d) = (\<lambda>b. do { b1 \<leftarrow> nulterminate c b; nulterminate d b1 })" by (rule ext) simp
  then show ?case using terminates_bind[OF PIPE] by simp
next
  case (LIST c d)
  have "nulterminate (LIST c d) = (\<lambda>b. do { b1 \<leftarrow> nulterminate c b; nulterminate d b1 })" by (rule ext) simp
  then show ?case using terminates_bind[OF LIST] by simp
next
  case (BACK c)
  have "nulterminate (BACK c) = nulterminate c" by (rule ext) simp
  then show ?case using BACK by simp
qed

text \<open>The end of a word lies inside no word.\<close>

lemma word_kept:
  assumes T: "tokens_ok s T" and w: "Plain q e \<in> T" and E: "ended (ends T) (s @ [0]) b"
  shows "word_ok s (q, e) \<and> take (e - q) (drop q b) = take (e - q) (drop q s) \<and> b ! e = 0"
proof -
  have W: "word_ok s (q', e')" if "Plain q' e' \<in> T" for q' e' using T that by (auto simp: token_ok_def)
  have b: "q < e" "e \<le> length s" "length b = length s + 1" using W[OF w] E by (auto simp: word_ok_def ended_def)
  have "b ! k = s ! k" if k: "q \<le> k" "k < e" for k
  proof -
    have "\<not> delim (s ! k)" using W[OF w] k by (auto simp: word_ok_def)
    then have "k \<notin> ends T" using W k b by (fastforce simp: word_ok_def ends_def)
    then show ?thesis using E k b by (simp add: ended_def nth_append)
  qed
  then have "take (e - q) (drop q b) = take (e - q) (drop q s)" using b by (intro nth_equalityI) simp_all
  moreover have "e \<in> ends T" using w by (auto simp: ends_def)
  then have "b ! e = 0" using E b by (simp add: ended_def)
  ultimately show ?thesis using W[OF w] by simp
qed

lemma parsecmd_returns:
  assumes "0 \<notin> set s" "4 * length s + 5 \<le> n"
  shows "returns s (parsecmd n s) (\<lambda>(c, b). cmd_fine s c \<and> length b = length s + 1 \<and>
    (\<forall>q e. Plain q e \<in> cmd_tokens c \<longrightarrow> word_ok s (q, e) \<and> take (e - q) (drop q b) = take (e - q) (drop q s) \<and> b ! e = 0))"
proof -
  have "returns s (parseline n s 0) (cmd_ok s 0)" using parsers_return_all[OF assms(1), of n] assms(2) by (simp add: parsers_return_def)
  then show ?thesis unfolding parsecmd_def
  proof (rule returns_andthen, clarify, intro returns_If)
    fix c i
    assume "cmd_ok s 0 (c, i)"
    then have F: "cmd_fine s c" by (simp add: cmd_ok_def)
    then have W: "tokens_ok s (cmd_tokens c)" by (simp add: cmd_fine_def)
    from nulterminate_terminates[of s c] W
    have "\<forall>b. length b = length s + 1 \<longrightarrow> (nulterminate c b = None \<and> long_quote s) \<or> (\<exists>b'. nulterminate c b = Some b' \<and> ended (ends (cmd_tokens c)) b b')"
      by (simp add: terminates_def)
    from spec[OF this, of "s @ [0]"] consider "nulterminate c (s @ [0]) = None" "long_quote s" | b where "nulterminate c (s @ [0]) = Some b" "ended (ends (cmd_tokens c)) (s @ [0]) b"
      by auto
    then show "returns s (case nulterminate c (s @ [0]) of None \<Rightarrow> Some (Inl Overrun) | Some b \<Rightarrow> ok (c, b)) (\<lambda>(c, b). cmd_fine s c \<and> length b = length s + 1 \<and>
        (\<forall>q e. Plain q e \<in> cmd_tokens c \<longrightarrow> word_ok s (q, e) \<and> take (e - q) (drop q b) = take (e - q) (drop q s) \<and> b ! e = 0))"
      by cases (use word_kept[OF W] F in \<open>auto simp: ended_def\<close>)
  qed simp
qed



end
