(* ===== verification/Ksh_Run.thy ===== *)
theory Ksh_Run
  imports Ksh
begin

text \<open>
  What the shell does with a line (user/src/ksh.c): \<open>main\<close> decides, and \<open>runcmd\<close> is the program of system calls of the child that it forks.
  A specification says which programs a command starts, with which input and output.
\<close>

section \<open>Reading a command\<close>

abbreviation (input) LINE_MAX :: nat where "LINE_MAX \<equiv> 1000"

text \<open>The string at a position of a buffer.\<close>

definition cstr :: "byte list \<Rightarrow> nat \<Rightarrow> byte list" where
  "cstr b q = takeWhile (\<lambda>c. c \<noteq> 0) (drop q b)"

text \<open>\<open>trim\<close> of the buffer \<open>b\<close>, for the \<open>len\<close> characters from \<open>cmd\<close>: the start of the command, and the buffer. The loop from the end
  that finds only white space goes on before the buffer, which is \<open>None\<close>.\<close>

fun trim_end :: "byte list \<Rightarrow> nat \<Rightarrow> nat option" where
  "trim_end b 0 = None"
| "trim_end b (Suc k) = do { c \<leftarrow> nth_opt b k; if c \<in> set whitespace then trim_end b k else Some (Suc k) }"

definition trim :: "byte list \<Rightarrow> nat \<Rightarrow> int \<Rightarrow> (nat \<times> int \<times> byte list) option" where
  "trim b cmd len = do {
     e \<leftarrow> trim_end b (nat (int cmd + len));
     b1 \<leftarrow> upd_opt b e 0;
     Some (skip_white b cmd, int e - int cmd, b1) }"

text \<open>The decisions of \<open>main\<close> for a line of \<open>len\<close> characters in \<open>cmdbuf\<close>.\<close>

datatype todo = Eof | Again | Chdir "byte list" | Clear | Quit | Command "byte list"

definition getcmd :: "byte list \<Rightarrow> nat \<Rightarrow> (int \<times> nat \<times> byte list) option" where
  "getcmd buf len =
     (if buf ! 0 = 0 then Some (-1, 0, buf)
      else do { (cmd_start, len, b) \<leftarrow> trim buf 0 (int len); Some (len, cmd_start, b) })"

definition main_step :: "byte list \<Rightarrow> nat \<Rightarrow> todo option" where
  "main_step buf n = do {
     (len, cmd_start, b) \<leftarrow> getcmd buf n;
     let cmd = cstr b cmd_start;
     if len < 0 then Some Eof
     else if len = 0 then Some Again
     else if cmd = [99, 100] then Some (Chdir [47, 114, 111, 111, 116])
     else if take 3 cmd = [99, 100, 32] then do {
       (cmd_start, _, b1) \<leftarrow> trim b (cmd_start + 3) (len - 3);
       Some (Chdir (cstr b1 cmd_start)) }
     else if take 5 cmd = [99, 108, 101, 97, 114] then Some Clear
     else if take 4 cmd = [101, 120, 105, 116] then Some Quit
     else Some (Command cmd) }"

section \<open>Running a command\<close>

text \<open>A process as a tree of its system calls, with what follows each result; \<open>Crash\<close> is a write behind \<open>envpath\<close>.\<close>

datatype prog =
    Exit int
  | Crash
  | Stderr prog
  | Execve "byte list" "byte list list" prog
  | Close nat prog
  | Dup nat prog
  | Open "byte list" nat prog prog
  | Pipe "nat \<Rightarrow> nat \<Rightarrow> prog" prog
  | Fork prog prog prog
  | Wait prog

definition shell_panic :: prog where "shell_panic = Stderr (Exit (-1))"

definition word_str :: "byte list \<Rightarrow> token \<Rightarrow> byte list" where
  "word_str b w = (case w of Plain q e \<Rightarrow> cstr b q | Quoted t \<Rightarrow> takeWhile (\<lambda>c. c \<noteq> 0) t)"

text \<open>\<open>envpath\<close> is the value of \<open>PATH\<close> with a slash, if there is one.\<close>

definition set_envpath :: "byte list list \<Rightarrow> byte list option" where
  "set_envpath envp = foldl (\<lambda>p v. if take 5 v = [80, 65, 84, 72, 61] then Some (drop 5 v @ [47]) else p) None envp"

definition run_exec :: "byte list option \<Rightarrow> byte list list \<Rightarrow> prog" where
  "run_exec envpath ws = (case ws of [] \<Rightarrow> Exit (-1)
     | w # _ \<Rightarrow> Execve w ws
         (if char_at w 0 \<noteq> 46 \<and> char_at w 0 \<noteq> 47 \<and> envpath \<noteq> None then
            (if length (the envpath) + length w < LINE_MAX then Execve (the envpath @ w) ws (Stderr (Exit 0)) else Crash)
          else Stderr (Exit 0)))"

primrec runcmd :: "byte list option \<Rightarrow> byte list \<Rightarrow> cmd \<Rightarrow> prog" where
  "runcmd envpath b (EXEC argv) = run_exec envpath (map (word_str b) argv)"
| "runcmd envpath b (REDIR c w mode fd) = Close fd (Open (word_str b w) mode (runcmd envpath b c) (Stderr (Exit (-1))))"
| "runcmd envpath b (LIST c d) = Fork (runcmd envpath b c) (Wait (runcmd envpath b d)) shell_panic"
| "runcmd envpath b (PIPE c d) = Pipe (\<lambda>r w.
     Fork (Close 1 (Dup w (Close r (Close w (runcmd envpath b c)))))
       (Fork (Close 0 (Dup r (Close r (Close w (runcmd envpath b d))))) (Close r (Close w (Wait (Wait (Exit 0))))) shell_panic)
       shell_panic) shell_panic"
| "runcmd envpath b (BACK c) = Fork (runcmd envpath b c) (Exit 0) shell_panic"

section \<open>The kernel's side\<close>

text \<open>A descriptor table: what each descriptor stands for.\<close>

datatype stream = Inherited nat | File "byte list" nat | PipeRead nat | PipeWrite nat

type_synonym fdtab = "stream option list"

definition free_fd :: "fdtab \<Rightarrow> nat option" where
  "free_fd T = find (\<lambda>fd. T ! fd = None) [0..<length T]"

definition fd_open :: "stream \<Rightarrow> fdtab \<Rightarrow> (nat \<times> fdtab) option" where
  "fd_open x T = map_option (\<lambda>fd. (fd, T[fd := Some x])) (free_fd T)"

definition fd_dup :: "nat \<Rightarrow> fdtab \<Rightarrow> fdtab" where
  "fd_dup fd T = (if fd < length T then case T ! fd of None \<Rightarrow> T | Some x \<Rightarrow> (case fd_open x T of None \<Rightarrow> T | Some (_, T') \<Rightarrow> T') else T)"

text \<open>What the outside decides: which files can be opened and which paths can be executed.\<close>

record outside =
  opens :: "byte list \<Rightarrow> nat \<Rightarrow> bool"
  runs :: "byte list \<Rightarrow> bool"

text \<open>The programs that the process and its children start, each with its path, its arguments and its descriptors, while every \<open>fork\<close> succeeds;
  pipes are numbered from \<open>n\<close>.\<close>

primrec launches :: "outside \<Rightarrow> prog \<Rightarrow> fdtab \<Rightarrow> nat \<Rightarrow> (byte list \<times> byte list list \<times> fdtab) list \<times> nat" where
  "launches W (Exit r) T n = ([], n)"
| "launches W Crash T n = ([], n)"
| "launches W (Stderr p) T n = launches W p T n"
| "launches W (Execve path argv p) T n = (if runs W path then ([(path, argv, T)], n) else launches W p T n)"
| "launches W (Close fd p) T n = launches W p (T[fd := None]) n"
| "launches W (Dup fd p) T n = launches W p (fd_dup fd T) n"
| "launches W (Open path mode p q) T n = (if opens W path mode then
     (case fd_open (File path mode) T of None \<Rightarrow> launches W q T n | Some (_, T') \<Rightarrow> launches W p T' n)
   else launches W q T n)"
| "launches W (Pipe f q) T n = (case fd_open (PipeRead n) T of None \<Rightarrow> launches W q T n
     | Some (r, T1) \<Rightarrow> (case fd_open (PipeWrite n) T1 of None \<Rightarrow> launches W q T n
         | Some (w, T2) \<Rightarrow> launches W (f r w) T2 (n + 1)))"
| "launches W (Fork p q f) T n = (let (xs, n1) = launches W p T n; (ys, n2) = launches W q T n1 in (xs @ ys, n2))"
| "launches W (Wait p) T n = launches W p T n"

section \<open>The specification\<close>

text \<open>A word of the line.\<close>

definition word_text :: "byte list \<Rightarrow> token \<Rightarrow> byte list" where
  "word_text s w = (case w of Plain q e \<Rightarrow> take (e - q) (drop q s) | Quoted t \<Rightarrow> t)"

text \<open>A program is the path that its first word names, or else the file of that name in the directory of \<open>PATH\<close>.\<close>

definition find_program :: "outside \<Rightarrow> byte list option \<Rightarrow> byte list \<Rightarrow> byte list option" where
  "find_program W envpath w = find (runs W) (w #
     (case envpath of None \<Rightarrow> [] | Some P \<Rightarrow> if char_at w 0 \<noteq> 46 \<and> char_at w 0 \<noteq> 47 then [P @ w] else []))"

text \<open>The programs of a command with input \<open>i\<close> and output \<open>j\<close>.\<close>

primrec wiring :: "outside \<Rightarrow> byte list option \<Rightarrow> byte list \<Rightarrow> cmd \<Rightarrow> stream \<Rightarrow> stream \<Rightarrow> nat \<Rightarrow>
    (byte list \<times> byte list list \<times> stream \<times> stream) list \<times> nat" where
  "wiring W P s (EXEC argv) i j n = (case map (word_text s) argv of [] \<Rightarrow> ([], n)
     | w # ws \<Rightarrow> (case find_program W P w of None \<Rightarrow> ([], n) | Some path \<Rightarrow> ([(path, w # ws, i, j)], n)))"
| "wiring W P s (REDIR c w mode fd) i j n = (let f = File (word_text s w) mode in
     if opens W (word_text s w) mode then (if fd = 0 then wiring W P s c f j n else wiring W P s c i f n) else ([], n))"
| "wiring W P s (LIST c d) i j n = (let (xs, n1) = wiring W P s c i j n; (ys, n2) = wiring W P s d i j n1 in (xs @ ys, n2))"
| "wiring W P s (PIPE c d) i j n = (let (xs, n1) = wiring W P s c i (PipeWrite n) (n + 1); (ys, n2) = wiring W P s d (PipeRead n) j n1 in (xs @ ys, n2))"
| "wiring W P s (BACK c) i j n = wiring W P s c i j n"

section \<open>The words of the buffer\<close>

text \<open>After \<open>nulterminate\<close> the strings that \<open>runcmd\<close> uses are the words of the line.\<close>

definition line_kept :: "byte list \<Rightarrow> byte list \<Rightarrow> cmd \<Rightarrow> bool" where
  "line_kept s b c \<longleftrightarrow> (\<forall>w\<in>cmd_tokens c. word_str b w = word_text s w \<and> length (word_text s w) \<le> length s)"

lemma cstr_word:
  assumes "q < e" "e \<le> length s" "length b = length s + 1" "take (e - q) (drop q b) = take (e - q) (drop q s)" "b ! e = 0" "0 \<notin> set s"
  shows "cstr b q = take (e - q) (drop q s)"
proof -
  have d: "drop q b = take (e - q) (drop q s) @ 0 # drop (e + 1) b"
    using id_take_nth_drop[of "e - q" "drop q b"] assms by (simp add: add.commute)
  have "\<forall>c\<in>set (take (e - q) (drop q s)). c \<noteq> 0" using assms(6) by (auto dest: in_set_takeD in_set_dropD)
  then show ?thesis unfolding cstr_def d by (subst takeWhile_append2) simp_all
qed

section \<open>The shell implements the specification\<close>

text \<open>A table with descriptors 0 and 1 and two free ones.\<close>

definition stdio :: "fdtab \<Rightarrow> stream \<Rightarrow> stream \<Rightarrow> bool" where
  "stdio T i j \<longleftrightarrow> T ! 0 = Some i \<and> T ! 1 = Some j \<and> (\<exists>r w. 2 \<le> r \<and> r < w \<and> w < length T \<and> T ! r = None \<and> T ! w = None)"

lemma stdioE:
  assumes "stdio T i j"
  obtains r w where "T ! 0 = Some i" "T ! 1 = Some j" "2 \<le> r" "r < w" "w < length T" "T ! r = None" "T ! w = None" "0 < length T" "1 < length T"
proof -
  obtain r w where "T ! 0 = Some i" "T ! 1 = Some j" "2 \<le> r" "r < w" "w < length T" "T ! r = None" "T ! w = None"
    using assms unfolding stdio_def by blast
  then show ?thesis using that[of r w] by linarith
qed

lemma stdioI: "T ! 0 = Some i \<Longrightarrow> T ! 1 = Some j \<Longrightarrow> 2 \<le> r \<Longrightarrow> r < w \<Longrightarrow> w < length T \<Longrightarrow> T ! r = None \<Longrightarrow> T ! w = None \<Longrightarrow> stdio T i j"
  unfolding stdio_def by blast

lemma find_upt: "a < n \<Longrightarrow> P a \<Longrightarrow> (\<And>k. k < a \<Longrightarrow> \<not> P k) \<Longrightarrow> find P [0..<n] = Some a"
  by (auto simp: find_Some_iff intro!: exI[of _ a])

lemma free_fd_least: "a < length T \<Longrightarrow> T ! a = None \<Longrightarrow> (\<And>k. k < a \<Longrightarrow> T ! k \<noteq> None) \<Longrightarrow> free_fd T = Some a"
  by (simp add: free_fd_def find_upt)

lemma stdio_pipe:
  assumes "stdio T i j"
  obtains r w where "2 \<le> r" "r < w" "w < length T" "T ! r = None" "T ! w = None" "\<forall>x. fd_open x T = Some (r, T[r := Some x])"
    "\<forall>x y. fd_open y (T[r := Some x]) = Some (w, T[r := Some x, w := Some y])"
proof -
  obtain r' w' where t: "T ! 0 = Some i" "T ! 1 = Some j" and rw: "r' < w'" "w' < length T" "T ! r' = None" "T ! w' = None"
    by (rule stdioE[OF assms])
  define r w where rd: "r = (LEAST k. T ! k = None)" and wd: "w = (LEAST k. T ! k = None \<and> r < k)"
  have r: "T ! r = None" unfolding rd by (rule LeastI[of _ r'], rule rw(3))
  have rle: "r \<le> r'" unfolding rd by (rule Least_le, rule rw(3))
  have w: "T ! w = None \<and> r < w" unfolding wd by (rule LeastI[of _ w']) (use rw rle in simp)
  have wle: "w \<le> w'" unfolding wd by (rule Least_le) (use rw rle in simp)
  have kr: "T ! k \<noteq> None" if "k < r" for k using not_less_Least[OF that[unfolded rd]] by simp
  have kw: "T ! k \<noteq> None" if "k < w" "k \<noteq> r" for k using not_less_Least[OF that(1)[unfolded wd]] kr[of k] that(2) by (metis linorder_neqE_nat)
  have "r \<noteq> k" if "T ! k = Some y" for k y
  proof
    assume h: "r = k"
    show False using r[unfolded h] that by simp
  qed
  then have "r \<noteq> 0" "r \<noteq> 1" using t by blast+
  then have "2 \<le> r" by linarith
  moreover have "fd_open x T = Some (r, T[r := Some x])" for x
    using free_fd_least[OF _ r kr] w wle rw(2) by (simp add: fd_open_def)
  moreover have "fd_open y (T[r := Some x]) = Some (w, T[r := Some x, w := Some y])" for x y
  proof -
    have "free_fd (T[r := Some x]) = Some w"
      by (rule free_fd_least) (use w wle rw(2) kw in \<open>auto simp: nth_list_update\<close>)
    then show ?thesis by (simp add: fd_open_def)
  qed
  ultimately show ?thesis using that[of r w] r w wle rw(2) by simp
qed

lemma stdio_update:
  assumes "stdio T i j"
  shows "stdio (T[0 := Some x]) x j" "stdio (T[1 := Some x]) i x" "T[0 := Some i] = T" "T[1 := Some j] = T"
proof -
  obtain r w where T: "T ! 0 = Some i" "T ! 1 = Some j" and "2 \<le> r" "r < w" "w < length T" "T ! r = None" "T ! w = None" "0 < length T" "1 < length T"
    by (rule stdioE[OF assms])
  moreover from this have "stdio (T[0 := Some x]) x j" by (intro stdioI[of _ _ _ r w]) simp_all
  moreover from calculation have "stdio (T[1 := Some x]) i x" by (intro stdioI[of _ _ _ r w]) simp_all
  ultimately show "stdio (T[0 := Some x]) x j" "stdio (T[1 := Some x]) i x" by simp_all
  show "T[0 := Some i] = T" "T[1 := Some j] = T" using T list_update_id[of T 0] list_update_id[of T 1] by simp_all
qed

text \<open>After \<open>close\<close> of 0 or 1 the next descriptor is that one.\<close>

lemma reopen:
  assumes "stdio T i j" "fd < 2"
  shows "fd_open x (T[fd := None]) = Some (fd, T[fd := Some x])"
proof -
  obtain r w where T: "T ! 0 = Some i" "T ! 1 = Some j" "0 < length T" "1 < length T" by (rule stdioE[OF assms(1)])
  have "free_fd (T[fd := None]) = Some fd"
    by (rule free_fd_least) (use assms(2) T in \<open>auto simp: nth_list_update less_2_cases_iff\<close>)
  then show ?thesis by (simp add: fd_open_def)
qed

lemma dup_pipe_end:
  assumes "stdio T i j" "fd < 2" "2 \<le> r" "r < w" "w < length T" "T ! r = None" "T ! w = None" "e = r \<or> e = w"
  shows "(fd_dup e (T[r := Some x, w := Some y, fd := None]))[r := None, w := None] = T[fd := Some (if e = r then x else y)]"
proof -
  let ?T = "T[r := Some x, w := Some y]"
  obtain r' w' where T: "T ! 0 = Some i" "T ! 1 = Some j" "0 < length T" "1 < length T" by (rule stdioE[OF assms(1)])
  have f: "free_fd (?T[fd := None]) = Some fd"
    by (rule free_fd_least) (use assms(2-7) T in \<open>auto simp: nth_list_update less_2_cases_iff\<close>)
  have "?T[fd := None] ! e = Some (if e = r then x else y)" using assms by auto
  then have "fd_dup e (?T[fd := None]) = ?T[fd := Some (if e = r then x else y)]"
    using f assms(4,5,8) by (auto simp: fd_dup_def fd_open_def)
  also have "\<dots>[r := None, w := None] = T[fd := Some (if e = r then x else y)]"
    using assms by (intro nth_equalityI) (auto simp: nth_list_update)
  finally show ?thesis .
qed

lemma run_exec_find:
  assumes "envpath \<noteq> None \<Longrightarrow> length (the envpath) + length w < LINE_MAX"
  shows "launches W (run_exec envpath (w # ws)) T n =
    (case find_program W envpath w of None \<Rightarrow> ([], n) | Some path \<Rightarrow> ([(path, w # ws, T)], n))"
  using assms by (cases envpath) (auto simp: run_exec_def find_program_def)

text \<open>The events of a specification, for programs that otherwise have the descriptors of \<open>T\<close>.\<close>

definition wired :: "fdtab \<Rightarrow> (byte list \<times> byte list list \<times> stream \<times> stream) list \<times> nat \<Rightarrow> (byte list \<times> byte list list \<times> fdtab) list \<times> nat" where
  "wired T = (\<lambda>(xs, n). (map (\<lambda>(p, ws, i, j). (p, ws, T[0 := Some i, 1 := Some j])) xs, n))"

lemma wired_Nil [simp]: "wired T ([], n) = ([], n)"
  by (simp add: wired_def)

lemma wired_update [simp]: "wired (T[0 := x]) = wired T" "wired (T[1 := x]) = wired T" "wired (T[Suc 0 := x]) = wired T"
  by (auto simp: wired_def fun_eq_iff list_update_swap[of "Suc 0" 0])

lemma wired_seq: "(let (xs, n1) = wired T p; (ys, n2) = wired T (f n1) in (xs @ ys, n2)) = wired T (let (xs, n1) = p; (ys, n2) = f n1 in (xs @ ys, n2))"
  by (simp add: wired_def split_beta)

lemma runcmd_wiring:
  assumes "std_fds c" "line_kept s b c" "envpath \<noteq> None \<Longrightarrow> length (the envpath) + length s < LINE_MAX"
  shows "stdio T i j \<Longrightarrow> launches W (runcmd envpath b c) T n = wired T (wiring W envpath s c i j n)"
  using assms(1,2)
proof (induction c arbitrary: T i j n)
  case (EXEC argv)
  have m: "map (word_str b) argv = map (word_text s) argv" using EXEC.prems(3) by (simp add: line_kept_def)
  show ?case
  proof (cases argv)
    case (Cons w ws)
    have "length (word_text s w) \<le> length s" using EXEC.prems(3) Cons by (simp add: line_kept_def)
    then have "envpath \<noteq> None \<Longrightarrow> length (the envpath) + length (word_text s w) < LINE_MAX" using assms(3) by fastforce
    from run_exec_find[OF this] m show ?thesis
      using Cons stdio_update(3,4)[OF EXEC.prems(1)] by (simp add: wired_def split: option.split)
  qed (simp add: run_exec_def wired_def)
next
  case (REDIR c w mode fd)
  have fd: "fd = 0 \<or> fd = 1" "fd < 2" using REDIR.prems(2) by auto
  have w: "word_str b w = word_text s w" and c: "std_fds c" "line_kept s b c" using REDIR.prems(2,3) by (simp_all add: line_kept_def)
  have "stdio (T[fd := Some x]) (if fd = 0 then x else i) (if fd = 0 then j else x)" for x
    using fd(1) stdio_update(1,2)[OF REDIR.prems(1)] by auto
  from REDIR.IH[OF this c] show ?case
    using fd(1) by (auto simp: w reopen[OF REDIR.prems(1) fd(2)] Let_def)
next
  case (PIPE c d)
  obtain r w where rw: "2 \<le> r" "r < w" "w < length T" "T ! r = None" "T ! w = None" "\<forall>x. fd_open x T = Some (r, T[r := Some x])"
    "\<forall>x y. fd_open y (T[r := Some x]) = Some (w, T[r := Some x, w := Some y])" by (rule stdio_pipe[OF PIPE.prems(1)])
  have c: "std_fds c" "line_kept s b c" "std_fds d" "line_kept s b d" using PIPE.prems(2,3) by (auto simp: line_kept_def)
  have l: "(fd_dup w (T[r := Some x, w := Some y, 1 := None]))[r := None, w := None] = T[1 := Some y]" for x y
    using dup_pipe_end[OF PIPE.prems(1) _ rw(1-5), where fd = 1 and e = w] rw(2) by simp
  have m: "(fd_dup r (T[r := Some x, w := Some y, 0 := None]))[r := None, w := None] = T[0 := Some x]" for x y
    using dup_pipe_end[OF PIPE.prems(1) _ rw(1-5), where fd = 0 and e = r] by simp
  show ?case
    using PIPE.IH(1)[OF stdio_update(2)[OF PIPE.prems(1)] c(1,2)] PIPE.IH(2)[OF stdio_update(1)[OF PIPE.prems(1)] c(3,4)]
      wired_seq[of T "wiring W envpath s c i (PipeWrite n) (n + 1)" "\<lambda>n1. wiring W envpath s d (PipeRead n) j n1"]
    by (simp add: rw(6,7) l[unfolded One_nat_def] m split_beta)
next
  case (LIST c d)
  have c: "std_fds c" "line_kept s b c" "std_fds d" "line_kept s b d" using LIST.prems(2,3) by (auto simp: line_kept_def)
  show ?case
    using LIST.IH(1)[OF LIST.prems(1) c(1,2)] LIST.IH(2)[OF LIST.prems(1) c(3,4)]
      wired_seq[of T "wiring W envpath s c i j n" "\<lambda>n1. wiring W envpath s d i j n1"] by simp
next
  case (BACK c)
  have "std_fds c" "line_kept s b c" using BACK.prems(2,3) by (auto simp: line_kept_def)
  from BACK.IH[OF BACK.prems(1) this] show ?case by (simp add: split_beta)
qed

lemma parsed_line_kept:
  assumes "0 \<notin> set s" "4 * length s + 5 \<le> n" "parsecmd n s = Some (Inr (c, b))"
  shows "std_fds c" "line_kept s b c"
proof -
  have F: "cmd_fine s c" "length b = length s + 1"
    "\<And>q e. Plain q e \<in> cmd_tokens c \<Longrightarrow> word_ok s (q, e) \<and> take (e - q) (drop q b) = take (e - q) (drop q s) \<and> b ! e = 0"
    using parsecmd_returns[OF assms(1,2)] assms(3) by (auto simp: returns_def)
  show "std_fds c" using F(1) by (simp add: cmd_fine_def)
  have "word_str b w = word_text s w \<and> length (word_text s w) \<le> length s" if w: "w \<in> cmd_tokens c" for w
  proof (cases w)
    case (Plain q e)
    then show ?thesis using F(2) F(3)[of q e] w cstr_word[of q e s b] assms(1) by (auto simp: word_str_def word_text_def word_ok_def)
  next
    case (Quoted t)
    have "token_ok s (Quoted t)" using F(1) w Quoted by (auto simp: cmd_fine_def)
    then have "0 \<notin> set t" "length t < length s" using assms(1) by (auto simp: token_ok_def)
    moreover from this have "takeWhile (\<lambda>c. c \<noteq> 0) t = t" by (auto simp: takeWhile_eq_all_conv)
    ultimately show ?thesis using Quoted by (simp add: word_str_def word_text_def)
  qed
  then show "line_kept s b c" by (simp add: line_kept_def)
qed



section \<open>Blank lines\<close>

lemma trim_end_blank: "k \<le> length b \<Longrightarrow> (\<And>m. m < k \<Longrightarrow> b ! m \<in> set whitespace) \<Longrightarrow> trim_end b k = None"
  by (induction k) auto

lemma trim_end_stops:
  "e < k \<Longrightarrow> k \<le> length b \<Longrightarrow> b ! e \<notin> set whitespace \<Longrightarrow> (\<And>m. e < m \<Longrightarrow> m < k \<Longrightarrow> b ! m \<in> set whitespace) \<Longrightarrow> trim_end b k = Some (Suc e)"
proof (induction k)
  case (Suc k)
  then show ?case by (cases "e = k") auto
qed simp

text \<open>A blank line makes \<open>trim\<close> read before the buffer.\<close>

lemma blank_line_reads_before_buffer:
  assumes "0 < n" "n \<le> length buf" "\<And>m. m < n \<Longrightarrow> buf ! m \<in> set whitespace"
  shows "main_step buf n = None"
proof -
  have "buf ! 0 \<noteq> 0" using assms(3)[OF assms(1)] by (auto simp: whitespace_def)
  then show ?thesis using trim_end_blank[OF assms(2,3)] by (simp add: main_step_def getcmd_def trim_def)
qed

lemma cstr_take: "e < length b \<Longrightarrow> i \<le> e \<Longrightarrow> (\<And>k. i \<le> k \<Longrightarrow> k < e \<Longrightarrow> b ! k \<noteq> 0) \<Longrightarrow> cstr (b[e := 0]) i = take (e - i) (drop i b)"
proof -
  assume e: "e < length b" "i \<le> e" and nz: "\<And>k. i \<le> k \<Longrightarrow> k < e \<Longrightarrow> b ! k \<noteq> 0"
  have "drop i (b[e := 0]) = take (e - i) (drop i b) @ 0 # drop (e + 1) b"
    using e by (simp add: drop_update_swap upd_conv_take_nth_drop drop_take add.commute)
  moreover have "\<forall>c\<in>set (take (e - i) (drop i b)). c \<noteq> 0" using e nz by (auto simp: in_set_conv_nth)
  ultimately show ?thesis unfolding cstr_def by (simp add: takeWhile_append2)
qed

text \<open>Any other line that is not for the shell itself goes to the parser without the white space around it.\<close>

lemma main_step_command:
  assumes "a \<le> z" "z < n" "n < length buf" "buf ! a \<notin> set whitespace" "buf ! z \<notin> set whitespace"
    "\<And>m. m < a \<Longrightarrow> buf ! m \<in> set whitespace" "\<And>m. z < m \<Longrightarrow> m < n \<Longrightarrow> buf ! m \<in> set whitespace"
    "\<And>m. m < n \<Longrightarrow> buf ! m \<noteq> 0" "take (Suc z - a) (drop a buf) = cmd"
    "cmd \<noteq> [99, 100]" "take 3 cmd \<noteq> [99, 100, 32]" "take 5 cmd \<noteq> [99, 108, 101, 97, 114]" "take 4 cmd \<noteq> [101, 120, 105, 116]"
  shows "main_step buf n = Some (Command cmd)"
proof -
  have "trim_end buf n = Some (Suc z)" by (rule trim_end_stops) (use assms in simp_all)
  moreover have "skip_white buf 0 = a"
  proof -
    have "buf = take a buf @ buf ! a # drop (Suc a) buf" using assms by (intro id_take_nth_drop) simp
    moreover have "\<forall>c\<in>set (take a buf). c \<in> set whitespace" using assms by (auto simp: in_set_conv_nth)
    ultimately have "takeWhile (\<lambda>c. c \<in> set whitespace) buf = take a buf"
      using assms(4) by (subst \<open>buf = _\<close>, subst takeWhile_append2) simp_all
    then show ?thesis using assms by (simp add: skip_white_def)
  qed
  moreover have "cstr (buf[Suc z := 0]) a = cmd" using cstr_take[of "Suc z" buf a] assms by simp
  moreover have "buf ! 0 \<noteq> 0" using assms(8)[of 0] assms(2) by simp
  ultimately show ?thesis using assms by (simp add: main_step_def getcmd_def trim_def Let_def)
qed

end
