(* ===== verification/Ksh_Kernel.thy ===== *)
theory Ksh_Kernel
  imports Open_Files Ksh_Run
begin

text \<open>
  The descriptor tables that the shell's specification speaks of are those of the kernel: \<open>close\<close>, \<open>dup\<close>, \<open>open\<close> and \<open>pipe\<close> of
  kernel/sys/sysfile.c change the table of a process the way \<open>launches\<close> says.
\<close>

text \<open>The table of a process, where \<open>L\<close> says what the entries of the table of open files stand for.\<close>

definition fd_view :: "(nat \<Rightarrow> stream) \<Rightarrow> int list \<Rightarrow> fdtab" where
  "fd_view L fds = map (\<lambda>k. if k = -1 then None else Some (L (nat k))) fds"

lemma view_simps [simp]: "length (fd_view L fds) = length fds" "fd < length fds \<Longrightarrow> fd_view L fds ! fd = (if fds ! fd = -1 then None else Some (L (nat (fds ! fd))))"
  "fd_view L (fds[fd := k]) = (fd_view L fds)[fd := if k = -1 then None else Some (L (nat k))]"
  by (simp_all add: fd_view_def map_update)

lemma free_fd_view: "length (fdtable t) = 64 \<Longrightarrow> free_fd (fd_view L (fdtable t)) = sys_file_fd_common t"
  unfolding free_fd_def sys_file_fd_common_def by (rule find_cong) simp_all

lemma view_fresh:
  assumes "refs_ok others fds ft" "k < 256" "f_count (files ft ! k) = 0"
  shows "fd_view (L(k := x)) fds = fd_view L fds"
proof -
  have "int k \<notin> set fds" by (rule not_referenced(1)[OF assms])
  moreover have "nat z = k \<longrightarrow> z = int k" if "z \<in> set fds" "z \<noteq> -1" for z
    using that assms(1) by (auto simp: refs_ok_def)
  ultimately show ?thesis by (auto simp: fd_view_def)
qed

text \<open>\<open>sys_pipe\<close> when it succeeds.\<close>

lemma sys_pipe_takes:
  assumes p: "sys_pipe E t s = Some (0, t', s')" and ok: "refs_ok others (fdtable t) (fcbtable s)"
  obtains fd1 fd2 k1 k2 ip where "sys_file_fd_common t = Some fd1" "sys_file_fd_common (t\<lparr>fdtable := (fdtable t)[fd1 := int k1]\<rparr>) = Some fd2"
    "fdtable t' = (fdtable t)[fd1 := int k1, fd2 := int k2]" "k1 \<noteq> k2" "k1 < 256" "k2 < 256"
    "f_count (files (fcbtable s) ! k1) = 0" "f_count (files (fcbtable s) ! k2) = 0"
    "f_inode (files (fcbtable s') ! k1) = Some ip" "f_flags (files (fcbtable s') ! k1) = O_RDONLY"
    "f_inode (files (fcbtable s') ! k2) = Some ip" "f_flags (files (fcbtable s') ! k2) = O_WRONLY"
proof -
  obtain fd1 where fd1: "sys_file_fd_common t = Some fd1" using p by (cases "sys_file_fd_common t") (auto simp: sys_pipe_def)
  obtain k1 ft where a1: "file_alloc (t_pid t) (fcbtable s) = Some (Some k1, ft)"
    using p fd1 by (auto simp: sys_pipe_def hoare_simps)
  note A = file_alloc_ok[OF refs_ok_idle[OF ok] a1]
  define t1 where "t1 = t\<lparr>fdtable := (fdtable t)[fd1 := int k1]\<rparr>"
  obtain fd2 where fd2: "sys_file_fd_common t1 = Some fd2"
    using p fd1 a1 by (cases "sys_file_fd_common t1") (auto simp: t1_def sys_pipe_def hoare_simps Let_def)
  obtain k2 ft1 where a2: "file_alloc (t_pid t) ft = Some (Some k2, ft1)"
    using p fd1 a1 fd2[unfolded t1_def] by (auto simp: sys_pipe_def hoare_simps Let_def)
  note B = file_alloc_ok[OF A(4) a2]
  obtain pipefd n v where 3: "arg t 0 = Some pipefd"
      "verify_area (env_rd E) (t_mm t) pipefd 8 (PTE_R OR PTE_W OR PTE_U) (kvm s) = Some (n, v)" "\<not> n < 0"
    using p fd1 a1 fd2[unfolded t1_def] a2 by (auto simp: sys_pipe_def hoare_simps Let_def split: if_splits)
  define s2 where "s2 = s\<lparr>fcbtable := ft1, kvm := v\<rparr>"
  obtain ip s3 where 4: "pipealloc s2 = Some (Some ip, s3)"
    using p fd1 a1 fd2[unfolded t1_def] a2 3 by (auto simp: s2_def sys_pipe_def hoare_simps Let_def split: option.splits)
  have f3: "fcbtable s3 = ft1" using pipealloc_ftab[OF 4] by (simp add: s2_def)
  let ?u = "upd_file k1 (\<lambda>f. f\<lparr>f_flags := O_RDONLY, f_count := f_count f + 1, f_inode := Some ip\<rparr>) s3"
  obtain fs1 v2 where 5: "fdtable t' = (fdtable t)[fd1 := int k1, fd2 := int k2]"
      "s' = (upd_file k2 (\<lambda>f. f\<lparr>f_flags := O_WRONLY, f_count := f_count f + 1, f_inode := Some ip\<rparr>) (?u\<lparr>kfs := fs1\<rparr>))\<lparr>kvm := v2\<rparr>"
    using p fd1 a1 fd2[unfolded t1_def] a2 3 4[unfolded s2_def] by (auto simp: sys_pipe_def hoare_simps Let_def)
  have k: "k1 \<noteq> k2" using A(6) B(5) by auto
  have len: "length (files ft1) = 256" using A(3) B(3) ok by (simp add: refs_ok_def)
  show ?thesis
    by (rule that[OF fd1 fd2[unfolded t1_def] 5(1) k A(1) B(1) A(2)]) (use 5(2) k f3 len A(1,3) B(1,2,3) in simp_all)
qed

lemma close_view: "do_close fd t s = Some (r, t', s') \<Longrightarrow> fd_view L (fdtable t') = (fd_view L (fdtable t))[fd := None]"
  by (auto simp: do_close_def hoare_simps)

lemma dup_view:
  assumes d: "arg t 0 = Some a" "a = word_of_nat fd" "fd < 2 ^ 32" "sys_dup t s = Some (r, t', s')" and len: "length (fdtable t) = 64"
  shows "fd_view L (fdtable t') = fd_dup fd (fd_view L (fdtable t))"
proof -
  have u: "unat a mod 2 ^ 32 = fd" using d(2,3) by (simp add: unat_of_nat)
  show ?thesis
  proof (cases "fd \<ge> 64 \<or> fdtable t ! fd = -1")
    case True
    then have "t' = t" using d(1,4) u by (auto simp: sys_dup_def Let_def)
    then show ?thesis using True len by (auto simp: fd_dup_def)
  next
    case False
    then have e: "do_dupfd fd 0 t s = Some (r, t', s')" using d(1,4) u by (simp add: sys_dup_def Let_def)
    have f: "free_fd (fd_view L (fdtable t)) = find (\<lambda>a. fdtable t ! a = -1) [0..<64]"
      using free_fd_view[OF len] by (simp add: sys_file_fd_common_def)
    show ?thesis
      using e False len f by (auto simp: do_dupfd_def fd_dup_def fd_open_def hoare_simps split: option.splits)
  qed
qed

lemma fd_open_view: "sys_file_fd_common t = Some fd \<Longrightarrow> length (fdtable t) = 64 \<Longrightarrow>
    fd_open x (fd_view L (fdtable t)) = Some (fd, (fd_view L (fdtable t))[fd := Some x])"
  by (simp add: fd_open_def free_fd_view)

lemma open_file_fd: "open_file fd k fl ip s = Some (r, s') \<Longrightarrow> 0 \<le> r \<Longrightarrow> r = int fd"
  by (auto simp: open_file_def Let_def hoare_simps split: if_splits)

lemma open_view:
  assumes "sys_open E t s = Some (r, t', s')" "0 \<le> r" "refs_ok others (fdtable t) (fcbtable s)"
  shows "\<exists>k. fd_open x (fd_view L (fdtable t)) = Some (nat r, fd_view (L(k := x)) (fdtable t'))"
  using sys_open_table[OF assms(1)]
proof (elim disjE exE conjE)
  fix fd path fl ip k s3 ft s4
  assume c: "sys_file_fd_common t = Some fd" "fcbtable s3 = fcbtable s" "file_alloc (t_pid t) (fcbtable s3) = Some (Some k, ft)"
    "open_file fd k fl ip (s3\<lparr>fcbtable := ft\<rparr>) = Some (r, s4)" "t' = t\<lparr>fdtable := (fdtable t)[fd := int k]\<rparr>"
  note A = file_alloc_ok[OF refs_ok_idle[OF assms(3)] c(3)[unfolded c(2)]]
  have "length (fdtable t) = 64" using assms(3) by (simp add: refs_ok_def)
  then show ?thesis using fd_open_view[OF c(1)] open_file_fd[OF c(4) assms(2)] c(5) view_fresh[OF assms(3) A(1,2)]
    by (intro exI[of _ k]) simp
qed (use assms(2) in simp)

lemma pipe_view:
  assumes "sys_pipe E t s = Some (0, t', s')" "refs_ok others (fdtable t) (fcbtable s)"
  shows "\<exists>k1 k2 ip rfd wfd T. fd_open x (fd_view L (fdtable t)) = Some (rfd, T) \<and> fd_open y T = Some (wfd, fd_view (L(k1 := x, k2 := y)) (fdtable t')) \<and>
       f_inode (files (fcbtable s') ! k1) = Some ip \<and> f_flags (files (fcbtable s') ! k1) = O_RDONLY \<and>
       f_inode (files (fcbtable s') ! k2) = Some ip \<and> f_flags (files (fcbtable s') ! k2) = O_WRONLY"
proof -
  obtain fd1 fd2 k1 k2 ip where p: "sys_file_fd_common t = Some fd1" "sys_file_fd_common (t\<lparr>fdtable := (fdtable t)[fd1 := int k1]\<rparr>) = Some fd2"
    "fdtable t' = (fdtable t)[fd1 := int k1, fd2 := int k2]" "k1 \<noteq> k2" "k1 < 256" "k2 < 256"
    "f_count (files (fcbtable s) ! k1) = 0" "f_count (files (fcbtable s) ! k2) = 0"
    "f_inode (files (fcbtable s') ! k1) = Some ip" "f_flags (files (fcbtable s') ! k1) = O_RDONLY"
    "f_inode (files (fcbtable s') ! k2) = Some ip" "f_flags (files (fcbtable s') ! k2) = O_WRONLY"
    by (rule sys_pipe_takes[OF assms])
  have len: "length (fdtable t) = 64" using assms(2) by (simp add: refs_ok_def)
  let ?t = "t\<lparr>fdtable := (fdtable t)[fd1 := int k1]\<rparr>"
  have v: "fd_view (L(k1 := x)) (fdtable t) = fd_view L (fdtable t)" "fd_view (L(k1 := x, k2 := y)) (fdtable t) = fd_view L (fdtable t)"
    using view_fresh[OF assms(2) p(5,7)] view_fresh[OF assms(2) p(6,8)] by simp_all
  have 2: "fd_open y ((fd_view L (fdtable t))[fd1 := Some x]) = Some (fd2, (fd_view L (fdtable t))[fd1 := Some x, fd2 := Some y])"
    using fd_open_view[OF p(2), of y "L(k1 := x)"] len v(1) by simp
  have "fd_view (L(k1 := x, k2 := y)) (fdtable t') = (fd_view L (fdtable t))[fd1 := Some x, fd2 := Some y]"
    using v(2) p(4) by (simp add: p(3))
  then show ?thesis using fd_open_view[OF p(1) len, of x L] 2 p(9-12)
    by (intro exI[of _ k1] exI[of _ k2] exI[of _ ip] exI[of _ fd1] exI[of _ fd2] exI[of _ "(fd_view L (fdtable t))[fd1 := Some x]"]) simp
qed

text \<open>The shell and the kernel agree on descriptors. In a kernel with a well-formed table of open files, \<open>close\<close> frees the descriptor, \<open>dup\<close> copies it to the least free one or changes nothing, \<open>open\<close>
  and \<open>pipe\<close>, when they succeed, take the least free descriptors, for entries that no descriptor of the process names, and the two descriptors of a pipe are the reading and the writing side of
  one inode. These are the operations on tables in the account of what the shell starts.\<close>

theorem kernel_descriptors:
  assumes "refs_ok others (fdtable t) (fcbtable s)"
  shows "(do_close fd t s = Some (r, t', s') \<longrightarrow> fd_view L (fdtable t') = (fd_view L (fdtable t))[fd := None]) \<and>
    (arg t 0 = Some (word_of_nat fd) \<and> fd < 2 ^ 32 \<and> sys_dup t s = Some (r, t', s') \<longrightarrow> fd_view L (fdtable t') = fd_dup fd (fd_view L (fdtable t))) \<and>
    (sys_open E t s = Some (r, t', s') \<and> 0 \<le> r \<longrightarrow> (\<exists>k. fd_open x (fd_view L (fdtable t)) = Some (nat r, fd_view (L(k := x)) (fdtable t')))) \<and>
    (sys_pipe E t s = Some (0, t', s') \<longrightarrow> (\<exists>k1 k2 ip rfd wfd T. fd_open x (fd_view L (fdtable t)) = Some (rfd, T) \<and>
       fd_open y T = Some (wfd, fd_view (L(k1 := x, k2 := y)) (fdtable t')) \<and>
       f_inode (files (fcbtable s') ! k1) = Some ip \<and> f_flags (files (fcbtable s') ! k1) = O_RDONLY \<and>
       f_inode (files (fcbtable s') ! k2) = Some ip \<and> f_flags (files (fcbtable s') ! k2) = O_WRONLY))"
proof -
  have len: "length (fdtable t) = 64" using assms by (simp add: refs_ok_def)
  show ?thesis
    by (intro conjI impI; (elim conjE)?; (rule close_view dup_view[OF _ refl _ _ len] open_view[OF _ _ assms] pipe_view[OF _ assms], assumption+))
qed

lemma kernel_descriptors_witness:
  "\<exists>ft t' s'. sys_dup (task0 ((replicate 64 (-1))[0 := 0]) [0]) (io0 ft file_fs) = Some (1, t', s') \<and>
     fd_view (\<lambda>_. Inherited 0) (fdtable t') = fd_dup 0 (fd_view (\<lambda>_. Inherited 0) ((replicate 64 (-1))[0 := 0]))"
proof -
  obtain ft where r: "refs_ok (\<lambda>_. 0) ((replicate 64 (-1))[0 := 0]) ft" by (rule one_file)
  let ?t = "task0 ((replicate 64 (-1))[0 := 0]) [0]" and ?u = "io0 ft file_fs"
  have r': "refs_ok (\<lambda>_. 0) (fdtable ?t) (fcbtable ?u)" using r by (simp add: task0_def io0_def del: replicate.simps)
  have a: "arg ?t 0 = Some (word_of_nat 0)" by (simp add: task0_def arg_def argufetch_def)
  have d: "sys_dup ?t ?u = Some (int 1, ?t\<lparr>fdtable := (fdtable ?t)[1 := int 0]\<rparr>, upd_file 0 (\<lambda>f. f\<lparr>f_count := f_count f + 1\<rparr>) ?u)"
    by (rule sys_dup_returns[OF r', of 0]) (simp_all add: task0_def arg_def argufetch_def del: replicate.simps)
  have "fd_view (\<lambda>_. Inherited 0) (fdtable (?t\<lparr>fdtable := (fdtable ?t)[1 := int 0]\<rparr>)) = fd_dup 0 (fd_view (\<lambda>_. Inherited 0) (fdtable ?t))"
    by (rule kernel_descriptors[OF r', THEN conjunct2, THEN conjunct1, rule_format, OF conjI[OF a conjI[OF _ d]]]) simp
  then show ?thesis using d by (intro exI[of _ ft]) (auto simp: task0_def simp del: replicate.simps)
qed

end
