(* ===== verification/Spec2Isabelle.thy ===== *)
theory Spec2Isabelle
  imports Uniks_Base Ring_Queue Sleep_Heap Kernel_List Kstring Buddy Slub Pagetable Pgtable_Tree Vma Demand_Paging
    Spinlock Proc Sched_Refine Kernel_Step Mutex Bytes Blkbuf Ext2_Base Ext2_Bitmap Ext2_Inode Ext2_File Ext2_Dir Pipe Tty Virtio_Disk Device Syscall_Args Kfile Sysfile Open_Files Exec Exec_Load Exec_Stack
    Ksh Ksh_Run Ksh_Kernel
begin

text \<open>
  A verification development for uniks, a small UNIX-like kernel for RISC-V: locks, processes and scheduling, physical
  and virtual memory, a block buffer cache over a virtio disk, an ext2 file system, pipes and a terminal, open files and their system
  calls, the loader of executables, and the shell that runs on top.

  \<^bold>\<open>Conventions.\<close> The prelude \<open>Uniks_Base\<close> states them: an operation that may hit an \<open>assert\<close>, \<open>panic\<close> or \<open>BUG()\<close>, or
  that would leave an array, has an option type, and \<open>None\<close> is the halted machine. Error returns of the code (-1,
  \<open>-EIO\<close>, \<open>NULL\<close>) are ordinary values. So "the operation returns" is always part of a statement (\<open>\<exists>y. f x = Some y\<close>).
  Machine words keep their width where the code relies on it (addresses, sizes, block numbers, rings, bitmaps); array
  indices and pids are \<open>nat\<close> or \<open>int\<close> behind their bounds checks. A spin lock makes what it encloses one step, which
  \<open>Spinlock\<close> justifies; an operation that sleeps and goes on when it is woken is split at the sleep. Structures on the disk are byte
  lists with one accessor per field. Memory of the kernel's data structures is a functional store; user memory goes
  through page tables. Interfaces between components are locales, each interpreted on the model itself:
  \<open>bounded_queue\<close> (\<open>Ring_Queue\<close>), \<open>priority_queue\<close> (\<open>Sleep_Heap\<close>), \<open>intrusive_list\<close> (\<open>Kernel_List\<close>),
  \<open>page_allocator\<close> (\<open>Buddy\<close>), \<open>block_store\<close> (\<open>Blkbuf\<close>).

  \<^bold>\<open>Data structures.\<close>
  \<^item> \<open>Ring_Queue\<close> (libs/queue.c): the bounded ring buffer; it refines a FIFO list of bounded length.
  \<^item> \<open>Sleep_Heap\<close> (libs/priority_queue.c): the heap of sleepers, with 1-based slots.
  \<^item> \<open>Kernel_List\<close> (include/uniks/list.h): doubly linked rings over a store of \<open>prev\<close> and \<open>next\<close> pointers, refined
    to lists; the other theories use lists for them.
  \<^item> \<open>Kstring\<close> (libs/kstring.c, user/libs/ustring.c): string functions on byte memory. A loop that can run off a string
    that is not terminated is a \<open>partial_function\<close>.

  \<^bold>\<open>Memory.\<close>
  \<^item> \<open>Buddy\<close> (kernel/mm/phys.c, the page part): the buddy allocator with its page records and reference counts. The
    invariant says that free and used blocks tile the memory; allocation, freeing, sharing keep it.
  \<^item> \<open>Slub\<close> (kernel/mm/phys.c, kmalloc): size classes over buddy pages.
  \<^item> \<open>Pagetable\<close> (kernel/mm/vm.c): the three-level tables, \<open>walk\<close>, \<open>mappages\<close>, copy and release of an address space, copy on write,
    and the copies between kernel and user memory. \<open>Pgtable_Tree\<close> gives the tables their meaning as a partial map
    from pages to entries, and shows that the tables of a well-formed tree are kept apart.
  \<^item> \<open>Vma\<close> (kernel/mm/vm.c): memory areas, \<open>brk\<close>, \<open>verify_area\<close>, page faults. \<open>Demand_Paging\<close> proves the properties of both.

  \<^bold>\<open>Processes.\<close>
  \<^item> \<open>Spinlock\<close> (kernel/sync/spinlock.c): acquire and release in the steps that another hart can see; mutual exclusion
    for any number of harts.
  \<^item> \<open>Proc\<close> (kernel/process/proc.c, kernel/sys/sysproc.c): the process table and all operations that change the state
    of a process: scheduler, yield, block and unblock, sleep and timer, fork, exit, wait, kill. What a process owns
    beside its table entry is a parameter (\<open>'r\<close>, \<open>'g\<close>, with \<open>services\<close>).
  \<^item> \<open>Sched_Refine\<close> and \<open>Kernel_Step\<close>: the abstract scheduler (a process is in exactly one place), the step relation of the
    kernel, its invariant and the refinement.
  \<^item> \<open>Mutex\<close> (kernel/sync/mutex.c): sleeping locks on top of it.

  \<^bold>\<open>Devices and files.\<close>
  \<^item> \<open>Virtio_Disk\<close> (kernel/device/virtio_disk.c): descriptors, rings, requests and the interrupt, run against a device that ends
    requests in any order and with any status. There are 64 descriptors and 3 per request, so at most 21 requests are in flight, and
    the rings cannot overrun.
  \<^item> \<open>Blkbuf\<close> (kernel/device/blkbuf.c): the buffer cache. To it a disk request is one step. It refines the disk it caches.
  \<^item> \<open>Ext2_Base\<close>, \<open>Ext2_Bitmap\<close>, \<open>Ext2_Inode\<close>, \<open>Ext2_Dir\<close> (fs/ext2fs.c, fs/ext2fs.h): structures on the disk, bitmaps, the inode
    table and the mapping of file blocks, directories and paths. \<open>Ext2_File\<close> proves what reads and writes of a file mean.
  \<^item> \<open>Pipe\<close> (kernel/file/pipe.c), \<open>Tty\<close> (kernel/device/tty.c, uart.c).
  \<^item> \<open>Device\<close> (kernel/device/device.c, platform/plic.c): the table of devices, the dispatch of interrupts to their drivers.
  \<^item> \<open>Kfile\<close> (kernel/file/file.c, kernel/device/blk_dev.c): the table of open files, reads and writes of files, devices and pipes.

  \<^bold>\<open>System calls and programs.\<close>
  \<^item> \<open>Syscall_Args\<close> (kernel/sys/ksyscall.c): the arguments of a system call, strings of the user among them.
  \<^item> \<open>Sysfile\<close> (kernel/sys/sysfile.c): the handlers of the file system calls, and what \<open>fork\<close> and \<open>exit\<close> do with descriptors. They
    put \<open>Kfile\<close>, \<open>Ext2_Dir\<close>, \<open>Pipe\<close>, \<open>Vma\<close> and \<open>Slub\<close> together; \<open>Open_Files\<close> proves how they keep the table of open files.
  \<^item> \<open>Exec\<close> (kernel/loader/elfloader.c, kernel/process/execve.c): loading of an ELF file and \<open>execve\<close>. \<open>Exec_Load\<close> shows which areas a
    file gives, \<open>Exec_Stack\<close> what the new program finds in its registers and on its stack.
  \<^item> \<open>Ksh\<close>, \<open>Ksh_Run\<close> (user/src/ksh.c): the lexer and parser of the shell, and what it does with a line: \<open>runcmd\<close> as a tree of system
    calls, run against descriptor tables, refines a specification that says which programs start with which input and output.
    \<open>Ksh_Kernel\<close> shows that the calls of \<open>Sysfile\<close> change a descriptor table as that account says.

  \<^bold>\<open>Groups of lemmas.\<close> Each theory has its definitions first, in the order of the code, then its invariant or abstraction, the
  lemmas that the operations keep it, and its properties, each with the text that states it and, where it has
  hypotheses, a witness on a concrete state. Properties of kind \<open>error\<close> prove that the code does what it should not do.

  \<^bold>\<open>Bounds and fuel.\<close> Loops over data are structural recursion or have a measure. The loops that the
  code cannot bound (strings without end, directories with damaged record lengths, the input of the terminal) are
  \<open>partial_function (option)\<close>, and the properties show that they return, or on which input they do not. Only the shell's parser takes
  fuel; four times the length of the line and five is enough, since on every path a call takes at least one character before it recurs, at most
  four calls deep.

  \<^bold>\<open>Not modelled.\<close> Assembly and CSR accesses (trap entry, context switch, boot, \<open>sbi\<close> calls), the set-up of the
  kernel's own page table, printing, the user library apart from its string functions, the user programs other than the shell, and the
  shell's prompt and messages. The dispatch table of system calls only names the handlers. Two processes inside the file system or
  inside a system call on files at once are not modelled: an operation on them is one step. What is proved of file contents and directories
  holds while the blocks in use fit the buffer cache; that the cache goes wrong when it recycles a buffer is proved of \<open>Blkbuf\<close>.
\<close>

end
